(* ===== verification/DxPrelude.thy ===== *)
theory DxPrelude
  imports Main "HOL-Library.Word"
begin

text \<open>
  Shared vocabulary of the development.

  The C++ sources are translated under these conventions.
  \<^item> Fixed-width integers keep their width: \<open>uint32_t\<close> is \<open>u32\<close>, \<open>uint64_t\<close> is \<open>u64\<close>,
    both unsigned words with wrap-around; \<open>int64_t\<close> is \<open>i64\<close>, the same words read with
    \<open>sint\<close>. An \<open>int32_t\<close> status code only ever holds small literals and is an \<open>int\<close>.
  \<^item> A pointer that may be null is an \<open>option\<close>; an out-parameter is passed in with its
    old contents and returned with its new contents, \<open>None\<close> standing for a null pointer.
  \<^item> A NUL-terminated \<open>const char*\<close> is a \<open>string option\<close>.
  \<^item> A raw byte buffer is a \<open>u8 list\<close>; \<open>memcpy\<close> into a buffer is \<open>write_at\<close> and a read
    of a range is \<open>read_at\<close>.
  \<^item> The conditional compilation on \<open>_WIN32\<close> is a value of type \<open>platform\<close>.
  \<^item> What a \<open>try\<close> block may throw is an argument of type \<open>thrown\<close>.
\<close>

section \<open>Types\<close>

unbundle bit_operations_syntax

type_synonym u8 = "8 word"
type_synonym u16 = "16 word"
type_synonym u32 = "32 word"
type_synonym u64 = "64 word"
type_synonym i64 = "64 word"
type_synonym status = int

datatype platform = Windows | Portable

datatype thrown = NoThrow | BadAlloc | OtherThrow

abbreviation (input) UINT64_MAX :: u64 where "UINT64_MAX \<equiv> 18446744073709551615"
abbreviation (input) UINT32_MAX :: u32 where "UINT32_MAX \<equiv> 4294967295"
abbreviation (input) INT64_MAX :: u64 where "INT64_MAX \<equiv> 9223372036854775807"

section \<open>Collections of facts\<close>

named_theorems buffer_simps \<open>reads and writes of byte ranges\<close>
named_theorems word_nat \<open>transfer of unsigned word facts to nat\<close>

section \<open>Words as natural numbers\<close>

lemma u64_lt: "unat (x :: u64) < 18446744073709551616"
proof -
  have "unat x < 2 ^ LENGTH(64)" by (rule unsigned_less)
  then show ?thesis by simp
qed

lemma u32_lt: "unat (x :: u32) < 4294967296"
proof -
  have "unat x < 2 ^ LENGTH(32)" by (rule unsigned_less)
  then show ?thesis by simp
qed

lemma unat_max64 [simp]: "unat UINT64_MAX = 18446744073709551615"
  by simp

lemma unat_of_nat_u64: "n < 18446744073709551616 \<Longrightarrow> unat (word_of_nat n :: u64) = n"
  by (simp add: unsigned_of_nat take_bit_nat_eq_self_iff)

lemma unat_of_nat_u32: "n < 4294967296 \<Longrightarrow> unat (word_of_nat n :: u32) = n"
  by (simp add: unsigned_of_nat take_bit_nat_eq_self_iff)

lemma unat_ucast_u64 [word_nat]: "unat (ucast (x :: u32) :: u64) = unat x"
proof -
  have "unat x < 18446744073709551616" using u32_lt [of x] by simp
  then show ?thesis by (simp add: unsigned_ucast_eq take_bit_nat_eq_self_iff)
qed

lemma u64_le_max: "(x :: u64) \<le> UINT64_MAX"
  unfolding word_le_nat_alt unat_max64 using u64_lt [of x] by linarith

lemma u64_add_unat:
  "unat (a :: u64) + unat b < 18446744073709551616 \<Longrightarrow> unat (a + b) = unat a + unat b"
  by (simp add: unat_word_ariths)

lemma u32_add_unat:
  "unat (a :: u32) + unat b < 4294967296 \<Longrightarrow> unat (a + b) = unat a + unat b"
  by (simp add: unat_word_ariths)

lemma u64_mult_unat:
  "unat (a :: u64) * unat b < 18446744073709551616 \<Longrightarrow> unat (a * b) = unat a * unat b"
  by (simp add: unat_word_ariths)

lemma u64_sub_unat: "(b :: u64) \<le> a \<Longrightarrow> unat (a - b) = unat a - unat b"
  by (rule unat_sub)

lemma u64_pos_unat: "(x :: u64) \<noteq> 0 \<longleftrightarrow> 0 < unat x"
  by (simp add: unat_gt_0)

lemma u64_pred_unat: "(x :: u64) \<noteq> 0 \<Longrightarrow> unat (x - 1) = unat x - 1"
  by (rule unat_minus_one)

text \<open>The division test the sources use to detect a product that does not fit.\<close>

lemma mult_fits_iff_div:
  fixes l r :: u64
  assumes "l \<noteq> 0"
  shows "r > UINT64_MAX div l \<longleftrightarrow> unat l * unat r \<ge> 18446744073709551616"
proof -
  have l: "0 < unat l" using assms by (simp add: unat_gt_0)
  have "r > UINT64_MAX div l \<longleftrightarrow> unat r > 18446744073709551615 div unat l"
    by (simp add: word_less_nat_alt unat_div)
  also have "\<dots> \<longleftrightarrow> 18446744073709551615 < unat r * unat l"
    using l by (simp add: div_less_iff_less_mult)
  also have "\<dots> \<longleftrightarrow> unat l * unat r \<ge> 18446744073709551616"
    unfolding mult.commute [of "unat r"] by linarith
  finally show ?thesis .
qed

text \<open>
  The signed reading of a 64-bit word is positive exactly when the word is a non-zero
  value below \<open>2 ^ 63\<close>.
\<close>

lemma sint_pos_iff:
  "0 < sint (x :: i64) \<longleftrightarrow> 0 < unat x \<and> unat x < 9223372036854775808"
proof -
  have u: "int (unat x) = sint x mod 18446744073709551616"
    unfolding uint_nat [symmetric] uint_sint take_bit_eq_mod by simp
  have lo: "- 9223372036854775808 \<le> sint x" using sint_ge [of x] by simp
  have hi: "sint x < 9223372036854775808" using sint_lt [of x] by simp
  show ?thesis
  proof (cases "0 \<le> sint x")
    case True
    then have "int (unat x) = sint x" using u hi by simp
    with hi show ?thesis by linarith
  next
    case False
    have "sint x mod 18446744073709551616 = (sint x + 18446744073709551616) mod 18446744073709551616"
      by simp
    also have "\<dots> = sint x + 18446744073709551616"
      using False lo by (intro mod_pos_pos_trivial) linarith+
    finally have "int (unat x) = sint x + 18446744073709551616" using u by argo
    with False lo show ?thesis by linarith
  qed
qed

section \<open>Byte ranges\<close>

definition read_at :: "nat \<Rightarrow> nat \<Rightarrow> 'a list \<Rightarrow> 'a list" where
  "read_at off n xs = take n (drop off xs)"

lemma read_at_split: "m \<le> n \<Longrightarrow> read_at p m xs @ read_at (p + m) (n - m) xs = read_at p n xs"
  by (simp add: read_at_def) (metis add.commute drop_drop le_add_diff_inverse take_add)

definition write_at :: "nat \<Rightarrow> 'a list \<Rightarrow> 'a list \<Rightarrow> 'a list" where
  "write_at off bs xs = take off xs @ bs @ drop (off + length bs) xs"

lemma length_write_at [buffer_simps]:
  "off + length bs \<le> length xs \<Longrightarrow> length (write_at off bs xs) = length xs"
  by (simp add: write_at_def)

lemma length_read_at [buffer_simps]:
  "off + n \<le> length xs \<Longrightarrow> length (read_at off n xs) = n"
  by (simp add: read_at_def)

lemma read_write_same [buffer_simps]:
  "off + length bs \<le> length xs \<Longrightarrow> read_at off (length bs) (write_at off bs xs) = bs"
  by (simp add: read_at_def write_at_def)

lemma nth_read_at: "i < n \<Longrightarrow> off + i < length xs \<Longrightarrow> read_at off n xs ! i = xs ! (off + i)"
  by (simp add: read_at_def)

lemma nth_write_at:
  assumes "off + length bs \<le> length xs" "i < length xs"
  shows "write_at off bs xs ! i =
    (if off \<le> i \<and> i < off + length bs then bs ! (i - off) else xs ! i)"
proof -
  have "min (length xs) off = off" using assms(1) by simp
  with assms show ?thesis
    by (auto simp: write_at_def nth_append)
qed

lemma read_write_other:
  assumes "off + length bs \<le> length xs"
    and "j + n \<le> off \<or> off + length bs \<le> j" and "j + n \<le> length xs"
  shows "read_at j n (write_at off bs xs) = read_at j n xs"
proof (rule nth_equalityI)
  show "length (read_at j n (write_at off bs xs)) = length (read_at j n xs)"
    using assms by (simp add: read_at_def length_write_at)
next
  fix i assume "i < length (read_at j n (write_at off bs xs))"
  then have i: "i < n" and le: "j + i < length xs"
    using assms by (auto simp: read_at_def length_write_at)
  have "\<not> (off \<le> j + i \<and> j + i < off + length bs)"
    using assms(2) i by auto
  then have "write_at off bs xs ! (j + i) = xs ! (j + i)"
    using nth_write_at [OF assms(1) le] by argo
  then show "read_at j n (write_at off bs xs) ! i = read_at j n xs ! i"
    using i le assms by (simp add: read_at_def length_write_at)
qed

section \<open>Range checks\<close>

text \<open>
  \<open>range_valid(size, offset, bytes)\<close> of the memory and C interfaces: a test written
  without an addition, so that it cannot wrap.
\<close>

definition range_valid :: "u64 \<Rightarrow> u64 \<Rightarrow> u64 \<Rightarrow> bool" where
  "range_valid size' offset bytes \<longleftrightarrow> offset \<le> size' \<and> bytes \<le> size' - offset"

lemma range_valid_iff [word_nat]:
  "range_valid size' offset bytes \<longleftrightarrow> unat offset + unat bytes \<le> unat size'"
proof (cases "offset \<le> size'")
  case True
  then have "unat (size' - offset) = unat size' - unat offset"
    by (rule u64_sub_unat)
  with True show ?thesis
    by (auto simp: range_valid_def word_le_nat_alt)
next
  case False
  then show ?thesis
    by (auto simp: range_valid_def word_le_nat_alt)
qed

text \<open>\<open>valid_text\<close> / \<open>valid_path\<close>: a pointer to a non-empty C string.\<close>

definition valid_text :: "string option \<Rightarrow> bool" where
  "valid_text p \<longleftrightarrow> (case p of None \<Rightarrow> False | Some s \<Rightarrow> s \<noteq> [])"

lemma valid_text_simps [simp]:
  "\<not> valid_text None"
  "valid_text (Some s) \<longleftrightarrow> s \<noteq> []"
  by (simp_all add: valid_text_def)

lemma valid_text_cases:
  "valid_text p \<Longrightarrow> (\<And>s. p = Some s \<Longrightarrow> s \<noteq> [] \<Longrightarrow> thesis) \<Longrightarrow> thesis"
  by (cases p) simp_all

end
