(* ===== verification/TensorDesc.thy ===== *)
theory TensorDesc
  imports DxPrelude
begin

text \<open>
  The tensor descriptor ABI, \<open>src/core/dx_tensor_api.cpp\<close> with the struct and the
  constants of \<open>dx_tensor_api.h\<close>: descriptor initialisation, contiguous layout,
  validation, the size of the storage a descriptor addresses and the contiguity test.
  Shape and strides are the fixed arrays of sixteen entries of the C struct; a stride is
  an \<open>int64_t\<close>, kept as a 64-bit word and read with \<open>sint\<close> where the code compares it.

  The lemmas relate the wrapped 64-bit computation to the exact one on natural numbers:
  which inputs are refused, what the strides and the byte count are when nothing is, and
  that the byte count covers every element the descriptor can address.
\<close>

section \<open>Data\<close>

abbreviation (input) DX_TENSOR_API_VERSION :: u32 where "DX_TENSOR_API_VERSION \<equiv> 1"
abbreviation (input) DX_TENSOR_MAX_RANK :: u32 where "DX_TENSOR_MAX_RANK \<equiv> 16"

abbreviation (input) DX_TENSOR_DTYPE_F32 :: u32 where "DX_TENSOR_DTYPE_F32 \<equiv> 1"
abbreviation (input) DX_TENSOR_DTYPE_F16 :: u32 where "DX_TENSOR_DTYPE_F16 \<equiv> 2"
abbreviation (input) DX_TENSOR_DTYPE_BF16 :: u32 where "DX_TENSOR_DTYPE_BF16 \<equiv> 3"
abbreviation (input) DX_TENSOR_DTYPE_I8 :: u32 where "DX_TENSOR_DTYPE_I8 \<equiv> 4"
abbreviation (input) DX_TENSOR_DTYPE_U8 :: u32 where "DX_TENSOR_DTYPE_U8 \<equiv> 5"
abbreviation (input) DX_TENSOR_DTYPE_I32 :: u32 where "DX_TENSOR_DTYPE_I32 \<equiv> 6"
abbreviation (input) DX_TENSOR_DTYPE_I4_PACKED :: u32 where "DX_TENSOR_DTYPE_I4_PACKED \<equiv> 7"

abbreviation (input) DX_TENSOR_LAYOUT_STRIDED :: u32 where "DX_TENSOR_LAYOUT_STRIDED \<equiv> 0"
abbreviation (input) DX_TENSOR_LAYOUT_CONTIGUOUS_ROW_MAJOR :: u32
  where "DX_TENSOR_LAYOUT_CONTIGUOUS_ROW_MAJOR \<equiv> 1"

record dx_tensor_desc_t =
  td_struct_size :: u32
  td_api_version :: u32
  td_rank :: u32
  td_dtype :: u32
  td_layout :: u32
  td_flags :: u32
  td_shape :: "u64 list"
  td_strides_bytes :: "i64 list"
  td_byte_offset :: u64

text \<open>\<open>sizeof(dx_tensor_desc_t)\<close>: six 32-bit fields, two arrays of sixteen, one offset.\<close>

abbreviation (input) sizeof_tensor_desc :: u32 where "sizeof_tensor_desc \<equiv> 288"

section \<open>Helpers of the anonymous namespace\<close>

definition dtype_bytes :: "u32 \<Rightarrow> u64" where
  "dtype_bytes dtype =
    (if dtype = DX_TENSOR_DTYPE_F32 then 4
     else if dtype = DX_TENSOR_DTYPE_F16 \<or> dtype = DX_TENSOR_DTYPE_BF16 then 2
     else if dtype = DX_TENSOR_DTYPE_I8 \<or> dtype = DX_TENSOR_DTYPE_U8 then 1
     else if dtype = DX_TENSOR_DTYPE_I32 then 4
     else 0)"

text \<open>
  \<open>multiply_overflow(lhs, rhs, &result)\<close>: the flag and the contents of the result cell,
  which is left alone on overflow.
\<close>

definition multiply_overflow :: "u64 \<Rightarrow> u64 \<Rightarrow> u64 option \<Rightarrow> bool \<times> u64 option" where
  "multiply_overflow lhs rhs result =
    (case result of
       None \<Rightarrow> (True, None)
     | Some old \<Rightarrow>
         if lhs \<noteq> 0 \<and> rhs > UINT64_MAX div lhs then (True, Some old)
         else (False, Some (lhs * rhs)))"

section \<open>Operations\<close>

definition dx_tensor_desc_init :: "dx_tensor_desc_t option \<Rightarrow> dx_tensor_desc_t option" where
  "dx_tensor_desc_init desc =
    (case desc of
       None \<Rightarrow> None
     | Some _ \<Rightarrow> Some
         \<lparr> td_struct_size = sizeof_tensor_desc, td_api_version = DX_TENSOR_API_VERSION,
           td_rank = 0, td_dtype = 0, td_layout = DX_TENSOR_LAYOUT_STRIDED, td_flags = 0,
           td_shape = replicate 16 0, td_strides_bytes = replicate 16 0, td_byte_offset = 0 \<rparr>)"

text \<open>
  The two loops of \<open>dx_tensor_desc_init_contiguous\<close>. Each takes the loop indices still to
  run; a failing iteration returns at once and keeps what the earlier ones wrote.
\<close>

fun copy_shape :: "u64 list \<Rightarrow> nat list \<Rightarrow> dx_tensor_desc_t \<Rightarrow> status \<times> dx_tensor_desc_t" where
  "copy_shape shape [] desc = (0, desc)"
| "copy_shape shape (i # is) desc =
    (if shape ! i = 0 then (-3, desc)
     else copy_shape shape is (desc\<lparr>td_shape := (td_shape desc)[i := shape ! i]\<rparr>))"

fun fill_strides :: "nat list \<Rightarrow> u64 \<Rightarrow> dx_tensor_desc_t \<Rightarrow> status \<times> dx_tensor_desc_t" where
  "fill_strides [] stride desc = (0, desc)"
| "fill_strides (i # is) stride desc =
    (let desc' = desc\<lparr>td_strides_bytes := (td_strides_bytes desc)[i := stride]\<rparr>
     in case multiply_overflow stride (td_shape desc' ! i) (Some 0) of
          (False, Some next_stride) \<Rightarrow>
            if next_stride > INT64_MAX then (-4, desc') else fill_strides is next_stride desc'
        | _ \<Rightarrow> (-4, desc'))"

definition dx_tensor_desc_init_contiguous ::
  "dx_tensor_desc_t option \<Rightarrow> u32 \<Rightarrow> u64 list option \<Rightarrow> u32 \<Rightarrow> status \<times> dx_tensor_desc_t option"
where
  "dx_tensor_desc_init_contiguous desc rank shape dtype =
    (case (desc, shape) of
       (Some d, Some sh) \<Rightarrow>
         if rank = 0 \<or> rank > DX_TENSOR_MAX_RANK then (-1, desc)
         else if dtype_bytes dtype = 0 \<and> dtype \<noteq> DX_TENSOR_DTYPE_I4_PACKED then (-2, desc)
         else (case dx_tensor_desc_init desc of
             None \<Rightarrow> (-1, None)
           | Some d0 \<Rightarrow>
               let d1 = d0\<lparr>td_rank := rank, td_dtype := dtype,
                           td_layout := DX_TENSOR_LAYOUT_CONTIGUOUS_ROW_MAJOR\<rparr>
               in case copy_shape sh [0..<unat rank] d1 of (st, d2) \<Rightarrow>
                    if st \<noteq> 0 then (st, Some d2)
                    else (case fill_strides (rev [0..<unat rank])
                            (if dtype = DX_TENSOR_DTYPE_I4_PACKED then 1 else dtype_bytes dtype) d2 of
                          (st', d3) \<Rightarrow> (st', Some d3)))
     | _ \<Rightarrow> (-1, desc))"

text \<open>The loop of \<open>dx_tensor_required_bytes\<close>: the largest byte offset, or the status.\<close>

fun max_offset :: "dx_tensor_desc_t \<Rightarrow> nat list \<Rightarrow> u64 \<Rightarrow> status + u64" where
  "max_offset desc [] acc = Inr acc"
| "max_offset desc (i # is) acc =
    (if td_shape desc ! i = 0 \<or> sint (td_strides_bytes desc ! i) \<le> 0 then Inl (-2)
     else case multiply_overflow (td_shape desc ! i - 1) (td_strides_bytes desc ! i) (Some 0) of
            (False, Some contribution) \<Rightarrow>
              if acc > UINT64_MAX - contribution then Inl (-3)
              else max_offset desc is (acc + contribution)
          | _ \<Rightarrow> Inl (-3))"

definition element_bytes :: "dx_tensor_desc_t \<Rightarrow> u64" where
  "element_bytes desc =
    (if td_dtype desc = DX_TENSOR_DTYPE_I4_PACKED then 1 else dtype_bytes (td_dtype desc))"

definition dx_tensor_required_bytes ::
  "dx_tensor_desc_t option \<Rightarrow> u64 option \<Rightarrow> status \<times> u64 option" where
  "dx_tensor_required_bytes desc out_bytes =
    (case (desc, out_bytes) of
       (Some d, Some _) \<Rightarrow>
         if td_rank d = 0 \<or> td_rank d > DX_TENSOR_MAX_RANK then (-1, out_bytes)
         else (case max_offset d [0..<unat (td_rank d)] (td_byte_offset d) of
             Inl st \<Rightarrow> (st, out_bytes)
           | Inr maximum_offset \<Rightarrow>
               if element_bytes d = 0 \<or> maximum_offset > UINT64_MAX - element_bytes d
               then (-4, out_bytes)
               else (0, Some (maximum_offset + element_bytes d)))
     | _ \<Rightarrow> (-1, out_bytes))"

definition dx_tensor_desc_validate :: "dx_tensor_desc_t option \<Rightarrow> status" where
  "dx_tensor_desc_validate desc =
    (case desc of
       None \<Rightarrow> -1
     | Some d \<Rightarrow>
         if td_struct_size d < sizeof_tensor_desc \<or> td_api_version d \<noteq> DX_TENSOR_API_VERSION \<or>
            td_rank d = 0 \<or> td_rank d > DX_TENSOR_MAX_RANK then -1
         else if dtype_bytes (td_dtype d) = 0 \<and> td_dtype d \<noteq> DX_TENSOR_DTYPE_I4_PACKED then -2
         else if list_ex (\<lambda>i. td_shape d ! i = 0 \<or> sint (td_strides_bytes d ! i) \<le> 0)
                   [0..<unat (td_rank d)] then -3
         else fst (dx_tensor_required_bytes desc (Some 0)))"

fun contiguous_from :: "dx_tensor_desc_t \<Rightarrow> nat list \<Rightarrow> u64 \<Rightarrow> bool" where
  "contiguous_from desc [] stride = True"
| "contiguous_from desc (i # is) stride =
    (if td_strides_bytes desc ! i \<noteq> stride then False
     else case multiply_overflow stride (td_shape desc ! i) (Some 0) of
            (False, Some next_stride) \<Rightarrow> contiguous_from desc is next_stride
          | _ \<Rightarrow> False)"

definition dx_tensor_is_contiguous :: "dx_tensor_desc_t option \<Rightarrow> status" where
  "dx_tensor_is_contiguous desc =
    (if dx_tensor_desc_validate desc \<noteq> 0 then 0
     else case desc of
         None \<Rightarrow> 0
       | Some d \<Rightarrow>
           if contiguous_from d (rev [0..<unat (td_rank d)]) (element_bytes d) then 1 else 0)"

section \<open>Checked products\<close>

lemma multiply_overflow_Some [simp]:
  "multiply_overflow l r (Some z) =
    (if unat l * unat r < 18446744073709551616 then (False, Some (l * r)) else (True, Some z))"
proof (cases "l = 0")
  case True
  then show ?thesis by (simp add: multiply_overflow_def)
next
  case False
  then show ?thesis
    using mult_fits_iff_div [OF False, of r] by (simp add: multiply_overflow_def not_le)
qed

lemma add_fits_iff:
  fixes acc c :: u64
  shows "acc > UINT64_MAX - c \<longleftrightarrow> unat acc + unat c \<ge> 18446744073709551616"
proof -
  have "c \<le> UINT64_MAX" by (rule u64_le_max)
  then have "unat (UINT64_MAX - c) = 18446744073709551615 - unat c"
    by (simp only: u64_sub_unat unat_max64)
  then show ?thesis
    unfolding word_less_nat_alt using u64_lt [of c] by linarith
qed

section \<open>The storage a descriptor addresses\<close>

definition dim_ok :: "dx_tensor_desc_t \<Rightarrow> nat \<Rightarrow> bool" where
  "dim_ok d i \<longleftrightarrow> td_shape d ! i \<noteq> 0 \<and> 0 < sint (td_strides_bytes d ! i)"

definition last_step :: "dx_tensor_desc_t \<Rightarrow> nat \<Rightarrow> nat" where
  "last_step d i = (unat (td_shape d ! i) - 1) * unat (td_strides_bytes d ! i)"

lemma max_offset_Cons:
  "max_offset d (i # is) acc =
    (if \<not> dim_ok d i then Inl (-2)
     else if unat acc + last_step d i \<ge> 18446744073709551616 then Inl (-3)
     else max_offset d is (acc + (td_shape d ! i - 1) * (td_strides_bytes d ! i)))"
proof (cases "dim_ok d i")
  case False
  then show ?thesis by (auto simp: dim_ok_def)
next
  case True
  let ?a = "td_shape d ! i - 1" and ?b = "td_strides_bytes d ! i"
  have a: "unat ?a * unat ?b = last_step d i"
    using True by (simp add: dim_ok_def last_step_def u64_pred_unat)
  show ?thesis
  proof (cases "last_step d i < 18446744073709551616")
    case False
    with True a show ?thesis by (simp add: dim_ok_def)
  next
    case fits: True
    then have "unat (?a * ?b) = last_step d i" using a by (simp add: u64_mult_unat)
    with True a fits show ?thesis
      by (simp add: dim_ok_def add_fits_iff)
  qed
qed

declare max_offset.simps(2) [simp del]

lemma max_offset_Inr:
  "max_offset d is acc = Inr m \<longleftrightarrow>
    (\<forall>i\<in>set is. dim_ok d i) \<and>
    unat acc + (\<Sum>i\<leftarrow>is. last_step d i) < 18446744073709551616 \<and>
    unat m = unat acc + (\<Sum>i\<leftarrow>is. last_step d i)"
proof (induction "is" arbitrary: acc)
  case Nil
  show ?case using u64_lt [of acc] by (auto simp: word_unat_eq_iff)
next
  case (Cons i "is")
  show ?case
  proof (cases "dim_ok d i \<and> unat acc + last_step d i < 18446744073709551616")
    case True
    have "unat ((td_shape d ! i - 1) * (td_strides_bytes d ! i)) = last_step d i"
      using True by (simp add: dim_ok_def last_step_def u64_pred_unat u64_mult_unat)
    then have "unat (acc + (td_shape d ! i - 1) * (td_strides_bytes d ! i)) = unat acc + last_step d i"
      using True by (simp add: u64_add_unat)
    with True Cons.IH show ?thesis by (simp add: max_offset_Cons add.assoc)
  next
    case False
    then show ?thesis by (auto simp: max_offset_Cons)
  qed
qed

lemma max_offset_Inl: "max_offset d is acc = Inl st \<Longrightarrow> st = -2 \<or> st = -3"
  by (induction "is" arbitrary: acc) (auto simp: max_offset_Cons split: if_splits)

definition addressable :: "dx_tensor_desc_t \<Rightarrow> bool" where
  "addressable d \<longleftrightarrow> td_rank d \<noteq> 0 \<and> td_rank d \<le> DX_TENSOR_MAX_RANK \<and>
     (\<forall>i<unat (td_rank d). dim_ok d i) \<and> element_bytes d \<noteq> 0"

definition storage_end :: "dx_tensor_desc_t \<Rightarrow> nat" where
  "storage_end d = unat (td_byte_offset d) + (\<Sum>i<unat (td_rank d). last_step d i) + unat (element_bytes d)"

lemma sum_list_upt: "(\<Sum>i\<leftarrow>[0..<n]. f i) = (\<Sum>i<n. f i)"
  by (simp add: interv_sum_list_conv_sum_set_nat atLeast0LessThan)

lemma required_bytes_iff:
  "dx_tensor_required_bytes (Some d) (Some z) = (0, Some b) \<longleftrightarrow>
     addressable d \<and> storage_end d < 18446744073709551616 \<and> unat b = storage_end d"
proof (cases "td_rank d = 0 \<or> td_rank d > DX_TENSOR_MAX_RANK")
  case True
  then show ?thesis by (auto simp: dx_tensor_required_bytes_def addressable_def)
next
  case rank: False
  show ?thesis
  proof (cases "max_offset d [0..<unat (td_rank d)] (td_byte_offset d)")
    case (Inl st)
    have "\<not> ((\<forall>i<unat (td_rank d). dim_ok d i) \<and>
        unat (td_byte_offset d) + (\<Sum>i<unat (td_rank d). last_step d i) < 18446744073709551616)"
    proof
      assume ok: "(\<forall>i<unat (td_rank d). dim_ok d i) \<and>
        unat (td_byte_offset d) + (\<Sum>i<unat (td_rank d). last_step d i) < 18446744073709551616"
      define m :: u64 where "m = word_of_nat (unat (td_byte_offset d) + (\<Sum>i<unat (td_rank d). last_step d i))"
      have "unat m = unat (td_byte_offset d) + (\<Sum>i<unat (td_rank d). last_step d i)"
        unfolding m_def using ok by (intro unat_of_nat_u64) simp
      then have "max_offset d [0..<unat (td_rank d)] (td_byte_offset d) = Inr m"
        using ok unfolding max_offset_Inr sum_list_upt by simp
      with Inl show False by simp
    qed
    then show ?thesis
      using rank Inl max_offset_Inl [OF Inl]
      by (auto simp: dx_tensor_required_bytes_def addressable_def storage_end_def)
  next
    case (Inr m)
    then have m: "\<forall>i<unat (td_rank d). dim_ok d i"
      "unat m = unat (td_byte_offset d) + (\<Sum>i<unat (td_rank d). last_step d i)"
      unfolding max_offset_Inr sum_list_upt by simp_all
    then have se: "storage_end d = unat m + unat (element_bytes d)" by (simp add: storage_end_def)
    show ?thesis
    proof (cases "element_bytes d = 0 \<or> m > UINT64_MAX - element_bytes d")
      case True
      then show ?thesis
        using rank Inr m se by (auto simp: dx_tensor_required_bytes_def addressable_def add_fits_iff)
    next
      case False
      then have "unat (m + element_bytes d) = storage_end d"
        using se by (auto simp: add_fits_iff u64_add_unat)
      then show ?thesis
        using rank Inr m False se
        by (auto simp: dx_tensor_required_bytes_def addressable_def add_fits_iff word_unat_eq_iff)
    qed
  qed
qed

text \<open>Every element of an addressable descriptor lies inside the reported storage.\<close>

lemma element_inside:
  assumes "dx_tensor_required_bytes (Some d) (Some z) = (0, Some b)"
    and "\<And>i. i < unat (td_rank d) \<Longrightarrow> idx i < unat (td_shape d ! i)"
  shows "unat (td_byte_offset d) + (\<Sum>i<unat (td_rank d). idx i * unat (td_strides_bytes d ! i))
    + unat (element_bytes d) \<le> unat b"
proof -
  have "(\<Sum>i<unat (td_rank d). idx i * unat (td_strides_bytes d ! i)) \<le> (\<Sum>i<unat (td_rank d). last_step d i)"
  proof (rule sum_mono)
    fix i assume "i \<in> {..<unat (td_rank d)}"
    then have "idx i \<le> unat (td_shape d ! i) - 1" using assms(2) [of i] by simp
    then show "idx i * unat (td_strides_bytes d ! i) \<le> last_step d i"
      by (simp add: last_step_def)
  qed
  moreover have "unat b = storage_end d"
    using assms(1) unfolding required_bytes_iff by simp
  ultimately show ?thesis by (simp add: storage_end_def)
qed

section \<open>Contiguous layout\<close>

definition inner_size :: "dx_tensor_desc_t \<Rightarrow> nat \<Rightarrow> nat \<Rightarrow> nat" where
  "inner_size d i n = (\<Prod>j\<in>{i<..<n}. unat (td_shape d ! j))"

definition volume :: "dx_tensor_desc_t \<Rightarrow> nat \<Rightarrow> nat" where
  "volume d n = (\<Prod>j<n. unat (td_shape d ! j))"

lemma inner_size_Suc: "i < n \<Longrightarrow> inner_size d i (Suc n) = inner_size d i n * unat (td_shape d ! n)"
proof -
  assume "i < n"
  then have "{i<..<Suc n} = insert n {i<..<n}" by auto
  then show ?thesis by (simp add: inner_size_def mult.commute)
qed

lemma inner_size_self: "inner_size d n (Suc n) = 1"
proof -
  have "{n<..<Suc n} = {}" by auto
  then show ?thesis by (simp add: inner_size_def)
qed

lemma volume_Suc: "volume d (Suc n) = volume d n * unat (td_shape d ! n)"
  by (simp add: volume_def)

lemma volume_pos: "(\<And>i. i < n \<Longrightarrow> td_shape d ! i \<noteq> 0) \<Longrightarrow> 0 < volume d n"
  by (auto simp: volume_def unat_gt_0 intro!: prod_pos)

lemma volume_telescope:
  assumes "\<And>i. i < n \<Longrightarrow> td_shape d ! i \<noteq> 0"
  shows "(\<Sum>i<n. (unat (td_shape d ! i) - 1) * inner_size d i n) + 1 = volume d n"
  using assms
proof (induction n)
  case 0
  then show ?case by (simp add: volume_def)
next
  case (Suc n)
  have "(\<Sum>i<n. (unat (td_shape d ! i) - 1) * inner_size d i (Suc n)) =
      (\<Sum>i<n. (unat (td_shape d ! i) - 1) * inner_size d i n) * unat (td_shape d ! n)"
    by (simp add: sum_distrib_right inner_size_Suc mult.assoc)
  moreover have "0 < unat (td_shape d ! n)" using Suc.prems by (simp add: unat_gt_0)
  ultimately have "(\<Sum>i<Suc n. (unat (td_shape d ! i) - 1) * inner_size d i (Suc n)) + 1 =
      ((\<Sum>i<n. (unat (td_shape d ! i) - 1) * inner_size d i n) + 1) * unat (td_shape d ! n)"
    by (simp add: inner_size_self)
  moreover have "(\<Sum>i<n. (unat (td_shape d ! i) - 1) * inner_size d i n) + 1 = volume d n"
    using Suc by simp
  ultimately show ?case by (simp only: volume_Suc)
qed

text \<open>Strides of a row-major layout with element stride \<open>s\<close> over the first \<open>n\<close> dimensions.\<close>

definition row_major :: "dx_tensor_desc_t \<Rightarrow> nat \<Rightarrow> nat \<Rightarrow> bool" where
  "row_major d n s \<longleftrightarrow> (\<forall>i<n. unat (td_strides_bytes d ! i) = s * inner_size d i n)"

lemma row_major_Suc:
  "row_major d (Suc n) s \<longleftrightarrow>
    unat (td_strides_bytes d ! n) = s \<and> row_major d n (s * unat (td_shape d ! n))"
  by (auto simp: row_major_def less_Suc_eq inner_size_Suc inner_size_self mult_ac)

definition same_header :: "dx_tensor_desc_t \<Rightarrow> dx_tensor_desc_t \<Rightarrow> bool" where
  "same_header d d' \<longleftrightarrow> td_struct_size d' = td_struct_size d \<and> td_api_version d' = td_api_version d \<and>
     td_rank d' = td_rank d \<and> td_dtype d' = td_dtype d \<and> td_layout d' = td_layout d \<and>
     td_flags d' = td_flags d \<and> td_byte_offset d' = td_byte_offset d"

lemma same_header_refl [simp]: "same_header d d"
  "same_header d (d\<lparr>td_strides_bytes := xs\<rparr>)" "same_header d (d\<lparr>td_shape := sh\<rparr>)"
  by (simp_all add: same_header_def)

lemma same_header_via [simp]:
  "same_header (d\<lparr>td_strides_bytes := xs\<rparr>) d' = same_header d d'"
  "same_header (d\<lparr>td_shape := sh\<rparr>) d' = same_header d d'"
  by (simp_all add: same_header_def)

lemma fill_strides_frame:
  "fill_strides is s d = (st, d') \<Longrightarrow>
    same_header d d' \<and> td_shape d' = td_shape d \<and>
    length (td_strides_bytes d') = length (td_strides_bytes d) \<and>
    (\<forall>j. j \<notin> set is \<longrightarrow> td_strides_bytes d' ! j = td_strides_bytes d ! j) \<and> (st = 0 \<or> st = -4)"
proof (induction "is" arbitrary: s d)
  case Nil
  then show ?case by simp
next
  case (Cons i "is")
  let ?d = "d\<lparr>td_strides_bytes := (td_strides_bytes d)[i := s]\<rparr>"
  show ?case
  proof (cases "unat s * unat (td_shape d ! i) < 18446744073709551616 \<and>
      \<not> s * td_shape d ! i > INT64_MAX")
    case True
    then have "fill_strides is (s * td_shape d ! i) ?d = (st, d')"
      using Cons.prems by (simp add: Let_def)
    from Cons.IH [OF this] show ?thesis by auto
  next
    case False
    then have "d' = ?d \<and> st = -4"
      using Cons.prems by (auto simp: Let_def split: if_splits)
    then show ?thesis by auto
  qed
qed

lemma fill_strides_spec:
  assumes "fill_strides (rev [0..<n]) s d = (st, d')"
    and "\<And>i. i < n \<Longrightarrow> td_shape d ! i \<noteq> 0" "n \<le> length (td_strides_bytes d)" "s \<noteq> 0"
  shows "(st = 0 \<longleftrightarrow> unat s * volume d n \<le> 9223372036854775807 \<or> n = 0) \<and>
    (st = 0 \<longrightarrow> row_major d' n (unat s))"
  using assms
proof (induction n arbitrary: s d)
  case 0
  then show ?case by (simp add: row_major_def)
next
  case (Suc n)
  let ?d = "d\<lparr>td_strides_bytes := (td_strides_bytes d)[n := s]\<rparr>"
  let ?s = "s * td_shape d ! n"
  have sh: "0 < unat (td_shape d ! n)" using Suc.prems(2) [of n] by (simp add: unat_gt_0)
  have vol: "unat s * volume d (Suc n) = unat s * unat (td_shape d ! n) * volume d n"
    by (simp add: volume_Suc mult_ac)
  have vpos: "0 < volume d n" using Suc.prems(2) by (intro volume_pos) simp
  have le: "unat s * unat (td_shape d ! n) \<le> unat s * volume d (Suc n)"
    using vpos unfolding vol by simp
  show ?case
  proof (cases "unat s * unat (td_shape d ! n) \<le> 9223372036854775807")
    case True
    then have us: "unat ?s = unat s * unat (td_shape d ! n)" by (simp add: u64_mult_unat)
    have rec: "fill_strides (rev [0..<n]) ?s ?d = (st, d')"
      using Suc.prems(1) True us by (simp add: Let_def word_less_nat_alt split: if_splits)
    have "0 < unat ?s" unfolding us using sh Suc.prems(4) by (simp add: unat_gt_0)
    then have "?s \<noteq> 0" by (simp add: unat_gt_0)
    then have IH: "(st = 0 \<longleftrightarrow> unat ?s * volume ?d n \<le> 9223372036854775807 \<or> n = 0) \<and>
        (st = 0 \<longrightarrow> row_major d' n (unat ?s))"
      using Suc.prems(2,3) by (intro Suc.IH [OF rec]) auto
    have "volume ?d n = volume d n" by (simp add: volume_def)
    moreover have "td_strides_bytes d' ! n = s \<and> td_shape d' = td_shape d"
      using fill_strides_frame [OF rec] Suc.prems(3) by auto
    moreover have "n = 0 \<Longrightarrow> unat s * volume d (Suc n) \<le> 9223372036854775807"
      using True by (simp add: volume_def)
    ultimately show ?thesis
      using IH unfolding us vol by (auto simp: row_major_Suc)
  next
    case False
    then have "fill_strides (rev [0..<Suc n]) s d = (-4, ?d)"
      by (auto simp: Let_def word_less_nat_alt u64_mult_unat)
    then have "st = -4" using Suc.prems(1) by simp
    with False le show ?thesis by linarith
  qed
qed

lemma contiguous_from_spec:
  assumes "\<And>i. i < n \<Longrightarrow> td_shape d ! i \<noteq> 0" "s \<noteq> 0"
  shows "contiguous_from d (rev [0..<n]) s \<longleftrightarrow>
    row_major d n (unat s) \<and> (n = 0 \<or> unat s * volume d n < 18446744073709551616)"
  using assms
proof (induction n arbitrary: s)
  case 0
  then show ?case by (simp add: row_major_def)
next
  case (Suc n)
  let ?s = "s * td_shape d ! n"
  have sh: "0 < unat (td_shape d ! n)" using Suc.prems(1) [of n] by (simp add: unat_gt_0)
  have vol: "unat s * volume d (Suc n) = unat s * unat (td_shape d ! n) * volume d n"
    by (simp add: volume_Suc mult_ac)
  have vpos: "0 < volume d n" using Suc.prems(1) by (intro volume_pos) simp
  show ?case
  proof (cases "unat s * unat (td_shape d ! n) < 18446744073709551616")
    case True
    then have us: "unat ?s = unat s * unat (td_shape d ! n)" by (rule u64_mult_unat)
    have "0 < unat ?s" unfolding us using sh Suc.prems(2) by (simp add: unat_gt_0)
    then have "?s \<noteq> 0" by (simp add: unat_gt_0)
    then have "contiguous_from d (rev [0..<n]) ?s \<longleftrightarrow>
        row_major d n (unat ?s) \<and> (n = 0 \<or> unat ?s * volume d n < 18446744073709551616)"
      using Suc.prems(1) by (intro Suc.IH) auto
    moreover have "n = 0 \<Longrightarrow> unat s * volume d (Suc n) < 18446744073709551616"
      using True by (simp add: volume_def)
    ultimately show ?thesis
      using True unfolding us vol by (auto simp: row_major_Suc word_unat_eq_iff)
  next
    case False
    have le: "unat s * unat (td_shape d ! n) \<le> unat s * volume d (Suc n)"
      using vpos unfolding vol by simp
    have "\<not> unat s * volume d (Suc n) < 18446744073709551616" using False le by linarith
    with False show ?thesis by simp
  qed
qed

lemma copy_shape_spec:
  "copy_shape sh is d = (st, d') \<Longrightarrow>
    same_header d d' \<and> td_strides_bytes d' = td_strides_bytes d \<and>
    length (td_shape d') = length (td_shape d) \<and>
    (st = 0 \<longleftrightarrow> (\<forall>i\<in>set is. sh ! i \<noteq> 0)) \<and> (st = 0 \<or> st = -3) \<and>
    (st = 0 \<longrightarrow> (\<forall>i<length (td_shape d). td_shape d' ! i =
        (if i \<in> set is then sh ! i else td_shape d ! i)))"
proof (induction "is" arbitrary: d)
  case Nil
  then show ?case by auto
next
  case (Cons i "is")
  show ?case
  proof (cases "sh ! i = 0")
    case True
    with Cons.prems show ?thesis by auto
  next
    case False
    let ?d = "d\<lparr>td_shape := (td_shape d)[i := sh ! i]\<rparr>"
    have "copy_shape sh is ?d = (st, d')" using Cons.prems False by simp
    from Cons.IH [OF this] False show ?thesis
      by (auto simp: nth_list_update)
  qed
qed

definition element_stride :: "u32 \<Rightarrow> u64" where
  "element_stride dtype = (if dtype = DX_TENSOR_DTYPE_I4_PACKED then 1 else dtype_bytes dtype)"

lemma element_stride_values: "element_stride dtype \<in> {0, 1, 2, 4}"
  by (auto simp: element_stride_def dtype_bytes_def)

lemma element_stride_eq_0:
  "element_stride dtype = 0 \<longleftrightarrow> dtype_bytes dtype = 0 \<and> dtype \<noteq> DX_TENSOR_DTYPE_I4_PACKED"
  by (simp add: element_stride_def)

text \<open>The arguments the contiguous constructor accepts.\<close>

definition contiguous_args :: "u32 \<Rightarrow> u64 list \<Rightarrow> u32 \<Rightarrow> bool" where
  "contiguous_args rank sh dtype \<longleftrightarrow>
     rank \<noteq> 0 \<and> rank \<le> DX_TENSOR_MAX_RANK \<and> element_stride dtype \<noteq> 0 \<and>
     (\<forall>i<unat rank. sh ! i \<noteq> 0) \<and>
     unat (element_stride dtype) * (\<Prod>i<unat rank. unat (sh ! i)) \<le> 9223372036854775807"

lemma init_contiguous_cases:
  assumes "dx_tensor_desc_init_contiguous (Some d) rank (Some sh) dtype = (st, out)"
  shows "(st = 0 \<longleftrightarrow> contiguous_args rank sh dtype) \<and>
    (st = 0 \<longrightarrow> (\<exists>d'. out = Some d' \<and> td_struct_size d' = sizeof_tensor_desc \<and>
       td_api_version d' = DX_TENSOR_API_VERSION \<and> td_rank d' = rank \<and> td_dtype d' = dtype \<and>
       td_layout d' = DX_TENSOR_LAYOUT_CONTIGUOUS_ROW_MAJOR \<and> td_byte_offset d' = 0 \<and>
       (\<forall>i<unat rank. td_shape d' ! i = sh ! i) \<and>
       row_major d' (unat rank) (unat (element_stride dtype))))"
proof (cases "rank = 0 \<or> rank > DX_TENSOR_MAX_RANK \<or> element_stride dtype = 0")
  case True
  then have "rank = 0 \<or> rank > DX_TENSOR_MAX_RANK \<or>
      (dtype_bytes dtype = 0 \<and> dtype \<noteq> DX_TENSOR_DTYPE_I4_PACKED)"
    by (simp add: element_stride_eq_0)
  then have "st = -1 \<or> st = -2"
    using assms by (auto simp: dx_tensor_desc_init_contiguous_def split: if_splits)
  moreover have "\<not> contiguous_args rank sh dtype"
    using True by (auto simp: contiguous_args_def)
  ultimately show ?thesis by auto
next
  case False
  then have rank: "rank \<noteq> 0" "unat rank \<le> 16" and es: "element_stride dtype \<noteq> 0"
    by (auto simp: word_less_nat_alt)
  define d1 where "d1 = \<lparr>td_struct_size = sizeof_tensor_desc, td_api_version = DX_TENSOR_API_VERSION,
    td_rank = rank, td_dtype = dtype, td_layout = DX_TENSOR_LAYOUT_CONTIGUOUS_ROW_MAJOR, td_flags = 0,
    td_shape = replicate 16 0, td_strides_bytes = replicate 16 0, td_byte_offset = 0\<rparr>"
  obtain st2 d2 where c: "copy_shape sh [0..<unat rank] d1 = (st2, d2)" by fastforce
  obtain st3 d3 where f: "fill_strides (rev [0..<unat rank]) (element_stride dtype) d2 = (st3, d3)"
    by fastforce
  have run: "(st, out) = (if st2 \<noteq> 0 then (st2, Some d2) else (st3, Some d3))"
    using assms False c f
    by (auto simp: dx_tensor_desc_init_contiguous_def dx_tensor_desc_init_def element_stride_eq_0
        d1_def [symmetric] element_stride_def [symmetric] split: if_splits)
  note cs = copy_shape_spec [OF c]
  have n0: "0 < unat rank" using rank by (simp add: unat_gt_0)
  show ?thesis
  proof (cases "st2 = 0")
    case st2: False
    then have "\<not> contiguous_args rank sh dtype" using cs by (auto simp: contiguous_args_def)
    with run st2 show ?thesis by simp
  next
    case True
    have sh: "\<And>i. i < unat rank \<Longrightarrow> td_shape d2 ! i = sh ! i"
      using cs True rank by (auto simp: d1_def)
    have nz: "\<And>i. i < unat rank \<Longrightarrow> sh ! i \<noteq> 0" using cs True by auto
    have d2: "td_strides_bytes d2 = replicate 16 0" "td_rank d2 = rank" "td_dtype d2 = dtype"
      "td_struct_size d2 = sizeof_tensor_desc" "td_api_version d2 = DX_TENSOR_API_VERSION"
      "td_layout d2 = DX_TENSOR_LAYOUT_CONTIGUOUS_ROW_MAJOR" "td_byte_offset d2 = 0"
      using cs by (simp_all add: d1_def same_header_def)
    have "volume d2 (unat rank) = (\<Prod>i<unat rank. unat (sh ! i))"
      using sh by (simp add: volume_def)
    then have fs: "st3 = 0 \<longleftrightarrow> contiguous_args rank sh dtype"
      "st3 = 0 \<longrightarrow> row_major d3 (unat rank) (unat (element_stride dtype))"
      using fill_strides_spec [OF f] sh nz d2 rank es n0 False
      by (auto simp: contiguous_args_def)
    have "same_header d2 d3 \<and> td_shape d3 = td_shape d2" using fill_strides_frame [OF f] by simp
    with fs run True sh d2 show ?thesis by (simp add: same_header_def)
  qed
qed

lemma contiguous_args_volume:
  assumes "contiguous_args (td_rank d) sh (td_dtype d)"
    and "\<forall>i<unat (td_rank d). td_shape d ! i = sh ! i"
    and "row_major d (unat (td_rank d)) (unat (element_stride (td_dtype d)))"
    and "td_byte_offset d = 0"
  shows "addressable d" "storage_end d = unat (element_stride (td_dtype d)) * volume d (unat (td_rank d))"
    "storage_end d \<le> 9223372036854775807"
proof -
  let ?n = "unat (td_rank d)" and ?e = "unat (element_stride (td_dtype d))"
  have es: "element_bytes d = element_stride (td_dtype d)"
    by (simp add: element_bytes_def element_stride_def)
  have nz: "\<And>i. i < ?n \<Longrightarrow> td_shape d ! i \<noteq> 0"
    using assms(1,2) by (simp add: contiguous_args_def)
  have epos: "0 < ?e" using assms(1) by (simp add: contiguous_args_def unat_gt_0)
  have vol: "volume d ?n = (\<Prod>i<?n. unat (sh ! i))"
    using assms(2) by (simp add: volume_def)
  have bound: "?e * volume d ?n \<le> 9223372036854775807"
    using assms(1) by (simp add: contiguous_args_def vol)
  have tel: "(\<Sum>i<?n. (unat (td_shape d ! i) - 1) * inner_size d i ?n) + 1 = volume d ?n"
    using nz by (rule volume_telescope)
  have "(\<Sum>i<?n. last_step d i) = ?e * (\<Sum>i<?n. (unat (td_shape d ! i) - 1) * inner_size d i ?n)"
    using assms(3) by (simp add: sum_distrib_left last_step_def row_major_def mult_ac)
  then have "(\<Sum>i<?n. last_step d i) + ?e = ?e * ((\<Sum>i<?n. (unat (td_shape d ! i) - 1) * inner_size d i ?n) + 1)"
    by simp
  then show se: "storage_end d = ?e * volume d ?n"
    unfolding tel by (simp add: storage_end_def assms(4) es)
  show "storage_end d \<le> 9223372036854775807" unfolding se by (rule bound)
  have "dim_ok d i" if i: "i < ?n" for i
  proof -
    have st: "unat (td_strides_bytes d ! i) = ?e * inner_size d i ?n"
      using assms(3) i by (simp add: row_major_def)
    have ip: "0 < inner_size d i ?n"
      using nz by (auto simp: inner_size_def unat_gt_0 intro!: prod_pos)
    have "{..<?n} = {..i} \<union> {i<..<?n}" using i by auto
    then have "volume d ?n = (\<Prod>j\<le>i. unat (td_shape d ! j)) * inner_size d i ?n"
      unfolding volume_def inner_size_def by (simp add: prod.union_disjoint Int_commute disjoint_iff)
    moreover have "0 < (\<Prod>j\<le>i. unat (td_shape d ! j))"
      using nz i by (auto simp: unat_gt_0 intro!: prod_pos)
    then have "1 * inner_size d i ?n \<le> (\<Prod>j\<le>i. unat (td_shape d ! j)) * inner_size d i ?n"
      by (intro mult_le_mono1) linarith
    ultimately have "inner_size d i ?n \<le> volume d ?n" by simp
    then have "?e * inner_size d i ?n \<le> 9223372036854775807"
      using bound mult_le_mono2 order_trans by blast
    then show ?thesis
      using st epos ip nz [OF i] by (simp add: dim_ok_def sint_pos_iff)
  qed
  then show "addressable d"
    using assms(1) by (simp add: addressable_def contiguous_args_def es)
qed

section \<open>Properties\<close>

text \<open>
  C14. The contiguous constructor succeeds exactly on the arguments it should: a rank
  between 1 and 16, a known element type, no zero dimension, and a total byte size that fits
  a signed 64-bit stride. Whether a 64-bit product wrapped on the way never decides it.
\<close>

theorem init_contiguous_accepts:
  "fst (dx_tensor_desc_init_contiguous (Some d) rank (Some sh) dtype) = 0 \<longleftrightarrow>
     rank \<noteq> 0 \<and> rank \<le> DX_TENSOR_MAX_RANK \<and> element_stride dtype \<noteq> 0 \<and>
     (\<forall>i<unat rank. sh ! i \<noteq> 0) \<and>
     unat (element_stride dtype) * (\<Prod>i<unat rank. unat (sh ! i)) \<le> 9223372036854775807"
proof -
  obtain st out where "dx_tensor_desc_init_contiguous (Some d) rank (Some sh) dtype = (st, out)"
    by fastforce
  from init_contiguous_cases [OF this] this show ?thesis by (simp add: contiguous_args_def)
qed

text \<open>
  C15. A descriptor the contiguous constructor built round-trips through the other operations:
  it validates, it is recognised as contiguous, and the bytes it requires are the element
  size times the number of elements, computed without wrap-around.
\<close>

theorem init_contiguous_roundtrip:
  assumes "dx_tensor_desc_init_contiguous (Some d) rank (Some sh) dtype = (0, Some d')"
  shows "dx_tensor_desc_validate (Some d') = 0 \<and> dx_tensor_is_contiguous (Some d') = 1 \<and>
    (\<exists>b. dx_tensor_required_bytes (Some d') (Some z) = (0, Some b) \<and>
         unat b = unat (element_stride dtype) * (\<Prod>i<unat rank. unat (sh ! i)))"
proof -
  from init_contiguous_cases [OF assms]
  have args: "contiguous_args (td_rank d') sh (td_dtype d')"
    and fields: "td_struct_size d' = sizeof_tensor_desc" "td_api_version d' = DX_TENSOR_API_VERSION"
      "td_rank d' = rank" "td_dtype d' = dtype" "td_byte_offset d' = 0"
    and sh: "\<forall>i<unat (td_rank d'). td_shape d' ! i = sh ! i"
    and rm: "row_major d' (unat (td_rank d')) (unat (element_stride (td_dtype d')))"
    by auto
  note cav = contiguous_args_volume [OF args sh rm fields(5)]
  have vol: "volume d' (unat rank) = (\<Prod>i<unat rank. unat (sh ! i))"
    using sh fields by (simp add: volume_def)
  define b :: u64 where "b = word_of_nat (storage_end d')"
  have b: "unat b = storage_end d'"
    unfolding b_def using cav(3) by (intro unat_of_nat_u64) linarith
  have req: "dx_tensor_required_bytes (Some d') (Some y) = (0, Some b)" for y
    unfolding required_bytes_iff using cav b by simp
  have dims: "\<forall>i<unat rank. dim_ok d' i" "rank \<noteq> 0" "rank \<le> DX_TENSOR_MAX_RANK"
    using cav(1) fields by (auto simp: addressable_def)
  have es: "\<not> (dtype_bytes dtype = 0 \<and> dtype \<noteq> DX_TENSOR_DTYPE_I4_PACKED)"
    using args fields by (simp add: contiguous_args_def element_stride_eq_0)
  have val: "dx_tensor_desc_validate (Some d') = 0"
    using dims es fields req [of 0]
    by (auto simp: dx_tensor_desc_validate_def list_ex_iff dim_ok_def)
  have eb: "element_bytes d' = element_stride dtype"
    using fields by (simp add: element_bytes_def element_stride_def)
  have "contiguous_from d' (rev [0..<unat rank]) (element_stride dtype)"
  proof (subst contiguous_from_spec)
    show "\<And>i. i < unat rank \<Longrightarrow> td_shape d' ! i \<noteq> 0" using dims by (simp add: dim_ok_def)
    show "element_stride dtype \<noteq> 0" using es by (simp add: element_stride_eq_0)
    show "row_major d' (unat rank) (unat (element_stride dtype)) \<and>
        (unat rank = 0 \<or> unat (element_stride dtype) * volume d' (unat rank) < 18446744073709551616)"
      using rm fields cav by simp
  qed
  then have "dx_tensor_is_contiguous (Some d') = 1"
    using val fields eb by (simp add: dx_tensor_is_contiguous_def)
  with val req b cav(2) fields vol show ?thesis by auto
qed

definition example_tensor_desc :: dx_tensor_desc_t where
  "example_tensor_desc = \<lparr>td_struct_size = 0, td_api_version = 0, td_rank = 0, td_dtype = 0, td_layout = 0,
     td_flags = 0, td_shape = replicate 16 0, td_strides_bytes = replicate 16 0, td_byte_offset = 0\<rparr>"

lemma example_contiguous:
  "dx_tensor_desc_init_contiguous (Some example_tensor_desc) 2 (Some [2, 3]) DX_TENSOR_DTYPE_F32 =
    (0, Some \<lparr>td_struct_size = 288, td_api_version = 1, td_rank = 2, td_dtype = 1, td_layout = 1,
     td_flags = 0, td_shape = [2, 3] @ replicate 14 0, td_strides_bytes = [12, 4] @ replicate 14 0,
     td_byte_offset = 0\<rparr>)"
  by code_simp

theorem init_contiguous_accepts_witness:
  "unat (element_stride DX_TENSOR_DTYPE_F32) * (\<Prod>i<unat (2 :: u32). unat ([2, 3 :: u64] ! i)) \<le> 9223372036854775807"
proof -
  have "fst (dx_tensor_desc_init_contiguous (Some example_tensor_desc) 2 (Some [2, 3]) DX_TENSOR_DTYPE_F32) = 0"
    by (simp add: example_contiguous)
  then show ?thesis unfolding init_contiguous_accepts by blast
qed

theorem init_contiguous_roundtrip_witness:
  "dx_tensor_is_contiguous (snd (dx_tensor_desc_init_contiguous (Some example_tensor_desc) 2 (Some [2, 3])
     DX_TENSOR_DTYPE_F32)) = 1"
  using init_contiguous_roundtrip [OF example_contiguous, of 0]
  unfolding example_contiguous by simp

text \<open>
  C16. The byte count of a descriptor is exact and safe. It is returned exactly when every
  stride is positive, every dimension non-zero, the type known and the end of the last element
  fits 64 bits; it is that end; every element the strides can address, overlapping ones
  included, ends inside it; and one element ends exactly there.
\<close>

theorem required_bytes_exact:
  "(dx_tensor_required_bytes (Some d) (Some z) = (0, Some b) \<longleftrightarrow>
      addressable d \<and> storage_end d < 18446744073709551616 \<and> unat b = storage_end d) \<and>
   (dx_tensor_required_bytes (Some d) (Some z) = (0, Some b) \<longrightarrow>
     (\<forall>idx. (\<forall>i < unat (td_rank d). idx i < unat (td_shape d ! i)) \<longrightarrow>
        unat (td_byte_offset d) + (\<Sum>i<unat (td_rank d). idx i * unat (td_strides_bytes d ! i))
          + unat (element_bytes d) \<le> unat b) \<and>
     (\<exists>idx. (\<forall>i < unat (td_rank d). idx i < unat (td_shape d ! i)) \<and>
        unat (td_byte_offset d) + (\<Sum>i<unat (td_rank d). idx i * unat (td_strides_bytes d ! i))
          + unat (element_bytes d) = unat b))"
proof (rule conjI [OF required_bytes_iff], intro impI conjI allI)
  assume r: "dx_tensor_required_bytes (Some d) (Some z) = (0, Some b)"
  show "unat (td_byte_offset d) + (\<Sum>i<unat (td_rank d). idx i * unat (td_strides_bytes d ! i))
      + unat (element_bytes d) \<le> unat b"
    if "\<forall>i < unat (td_rank d). idx i < unat (td_shape d ! i)" for idx
    using that by (intro element_inside [OF r]) simp
  have a: "addressable d" "unat b = storage_end d" using r by (simp_all add: required_bytes_iff)
  show "\<exists>idx. (\<forall>i < unat (td_rank d). idx i < unat (td_shape d ! i)) \<and>
      unat (td_byte_offset d) + (\<Sum>i<unat (td_rank d). idx i * unat (td_strides_bytes d ! i))
        + unat (element_bytes d) = unat b"
  proof (intro exI [of _ "\<lambda>i. unat (td_shape d ! i) - 1"] conjI allI impI)
    show "unat (td_shape d ! i) - 1 < unat (td_shape d ! i)" if "i < unat (td_rank d)" for i
      using a(1) that by (simp add: addressable_def dim_ok_def unat_gt_0)
  qed (simp add: a(2) storage_end_def last_step_def)
qed

theorem required_bytes_exact_witness:
  "unat (td_byte_offset (the (snd (dx_tensor_desc_init_contiguous (Some example_tensor_desc) 2 (Some [2, 3])
     DX_TENSOR_DTYPE_F32)))) + (1 * 12 + 2 * 4) + 4 \<le> (24 :: nat)"
proof -
  let ?d = "the (snd (dx_tensor_desc_init_contiguous (Some example_tensor_desc) 2 (Some [2, 3]) DX_TENSOR_DTYPE_F32))"
  have r: "dx_tensor_required_bytes (Some ?d) (Some 0) = (0, Some 24)"
    by code_simp
  have d: "td_rank ?d = 2" "td_byte_offset ?d = 0" "td_shape ?d ! 0 = 2" "td_shape ?d ! 1 = 3"
    "td_strides_bytes ?d ! 0 = 12" "td_strides_bytes ?d ! 1 = 4" "element_bytes ?d = 4"
    by (simp_all add: example_contiguous element_bytes_def dtype_bytes_def)
  have i: "i + 1 < unat (td_shape ?d ! i)" if "i < unat (td_rank ?d)" for i
    using that d by (auto simp: less_2_cases_iff)
  have "unat (td_byte_offset ?d) +
      (\<Sum>i<unat (td_rank ?d). (i + 1) * unat (td_strides_bytes ?d ! i)) + unat (element_bytes ?d) \<le> unat (24 :: u64)"
    by (rule required_bytes_exact [of ?d 0 24, THEN conjunct2, THEN mp, OF r, THEN conjunct1, THEN spec, THEN mp])
      (use i in simp)
  then show ?thesis using d by (simp add: eval_nat_numeral lessThan_Suc)
qed

end
