(* ===== verification/TextFormat.thy ===== *)
theory TextFormat
  imports DxPrelude
begin

text \<open>
  Text the sources print: \<open>std::to_string\<close> and stream output of integers, lower-case
  folding as \<open>std::tolower\<close> does it in the C locale, and a reader for the body of a JSON
  string literal (RFC 8259, section 7, without \<open>\u\<close> escapes, which the sources never
  write). The reader is the specification against which both JSON escapers of the program,
  the logger's and the trace exporter's, are proved.
\<close>

section \<open>Decimal numbers\<close>

fun dec_digits :: "nat \<Rightarrow> string" where
  "dec_digits n =
    (if n < 10 then [char_of (n + 48)] else dec_digits (n div 10) @ [char_of (n mod 10 + 48)])"

declare dec_digits.simps [simp del]

definition dec_int :: "int \<Rightarrow> string" where
  "dec_int i = (if i < 0 then CHR ''-'' # dec_digits (nat (- i)) else dec_digits (nat i))"

definition to_string_u32 :: "u32 \<Rightarrow> string" where
  "to_string_u32 w = dec_digits (unat w)"

definition to_string_u64 :: "u64 \<Rightarrow> string" where
  "to_string_u64 w = dec_digits (unat w)"

definition is_digit :: "char \<Rightarrow> bool" where
  "is_digit c \<longleftrightarrow> 48 \<le> (of_char c :: nat) \<and> (of_char c :: nat) \<le> 57"

fun read_dec :: "nat \<Rightarrow> string \<Rightarrow> nat" where
  "read_dec acc [] = acc"
| "read_dec acc (c # cs) = read_dec (10 * acc + (of_char c - 48)) cs"

lemma of_char_digit: "n < 10 \<Longrightarrow> (of_char (char_of (n + 48) :: char) :: nat) = n + 48"
  by simp

lemma dec_digits_digit: "c \<in> set (dec_digits n) \<Longrightarrow> is_digit c"
proof (induction n rule: dec_digits.induct)
  case (1 n)
  then show ?case
    by (subst (asm) dec_digits.simps)
      (auto simp: is_digit_def of_char_digit split: if_splits)
qed

lemma dec_digits_nonempty [simp]: "dec_digits n \<noteq> []"
  by (subst dec_digits.simps) simp

lemma read_dec_append: "read_dec acc (xs @ [c]) = 10 * read_dec acc xs + (of_char c - 48)"
  by (induction acc xs rule: read_dec.induct) auto

lemma read_dec_digits: "read_dec 0 (dec_digits n) = n"
proof (induction n rule: dec_digits.induct)
  case (1 n)
  show ?case
  proof (cases "n < 10")
    case True
    then show ?thesis by (subst dec_digits.simps) (simp add: of_char_digit)
  next
    case False
    then have "read_dec 0 (dec_digits (n div 10)) = n div 10" by (rule "1.IH")
    moreover have "n mod 10 < 10" by simp
    ultimately show ?thesis using False
      by (subst dec_digits.simps) (simp add: read_dec_append of_char_digit)
  qed
qed

lemma dec_digits_inject: "dec_digits m = dec_digits n \<longleftrightarrow> m = n"
  by (metis read_dec_digits)

section \<open>Hexadecimal numbers\<close>

definition hex_digit :: "nat \<Rightarrow> char" where
  "hex_digit k = ''0123456789abcdef'' ! (k mod 16)"

fun hex_digits :: "nat \<Rightarrow> string" where
  "hex_digits n = (if n < 16 then [hex_digit n] else hex_digits (n div 16) @ [hex_digit n])"

declare hex_digits.simps [simp del]

section \<open>Case folding\<close>

definition tolower :: "char \<Rightarrow> char" where
  "tolower c = (if 65 \<le> (of_char c :: nat) \<and> (of_char c :: nat) \<le> 90
     then char_of ((of_char c :: nat) + 32) else c)"

section \<open>JSON string bodies\<close>

abbreviation (input) Quote :: char where "Quote \<equiv> CHR 0x22"
abbreviation (input) Backslash :: char where "Backslash \<equiv> CHR 0x5C"
abbreviation (input) Newline :: char where "Newline \<equiv> CHR 0x0A"
abbreviation (input) Return :: char where "Return \<equiv> CHR 0x0D"
abbreviation (input) Tab :: char where "Tab \<equiv> CHR 0x09"

definition json_unescape :: "char \<Rightarrow> char option" where
  "json_unescape c =
    (if c = Quote then Some Quote else if c = Backslash then Some Backslash
     else if c = CHR ''/'' then Some (CHR ''/'')
     else if c = CHR ''b'' then Some (CHR 0x08) else if c = CHR ''f'' then Some (CHR 0x0C)
     else if c = CHR ''n'' then Some Newline else if c = CHR ''r'' then Some Return
     else if c = CHR ''t'' then Some Tab else None)"

text \<open>
  Reads up to the closing quote; an unescaped control character, a bad escape or a missing
  quote is an error. The result is the decoded text and what follows the closing quote.
\<close>

fun json_string_body :: "string \<Rightarrow> (string \<times> string) option" where
  "json_string_body [] = None"
| "json_string_body (c # cs) =
    (if c = Quote then Some ([], cs)
     else if c = Backslash then
       (case cs of
          [] \<Rightarrow> None
        | e # ds \<Rightarrow>
            (case json_unescape e of
               None \<Rightarrow> None
             | Some u \<Rightarrow> map_option (\<lambda>(s, r). (u # s, r)) (json_string_body ds)))
     else if (of_char c :: nat) < 32 then None
     else map_option (\<lambda>(s, r). (c # s, r)) (json_string_body cs))"

text \<open>
  An escaper that maps each character to a piece the reader decodes to that character
  round-trips on whole strings.
\<close>

lemma json_body_concat:
  assumes "\<And>c r s t. c \<in> set cs \<Longrightarrow> json_string_body r = Some (s, t) \<Longrightarrow>
      json_string_body (esc c @ r) = Some (c # s, t)"
  shows "json_string_body (concat (map esc cs) @ Quote # rest) = Some (cs, rest)"
  using assms by (induction cs) auto

end
