(* ===== verification/Diagnostics.thy ===== *)
theory Diagnostics
  imports TextFormat
begin

text \<open>
  The diagnostics core: \<open>src/core/dx_log.cpp\<close> (\<open>ComponentLogger\<close>, \<open>TraceSpan\<close>) and its C
  bridge \<open>src/core/dx_core_api.cpp\<close>. Every other component of the C ABI owns one of these
  loggers.

  The operating system is the record \<open>log_env\<close>: environment variables, the directory of the
  loaded module, the working directory, whether a directory can be created and a file opened,
  the clock and the process and thread identifiers as the strings the code prints, and whether
  a call inside the \<open>try\<close> block throws. An open stream is the list of lines written to it.
\<close>

section \<open>Modes and levels\<close>

abbreviation (input) LogMode_None :: u32 where "LogMode_None \<equiv> 0"
abbreviation (input) LogMode_Debug :: u32 where "LogMode_Debug \<equiv> 1"
abbreviation (input) LogMode_Trace :: u32 where "LogMode_Trace \<equiv> 2"
abbreviation (input) LogMode_Perf :: u32 where "LogMode_Perf \<equiv> 4"
abbreviation (input) LogMode_Diagnostic :: u32 where "LogMode_Diagnostic \<equiv> 8"

definition has_mode :: "u32 \<Rightarrow> u32 \<Rightarrow> bool" where
  "has_mode value' mode \<longleftrightarrow> value' AND mode \<noteq> 0"

datatype LogLevel = LevelDebug | LevelInfo | LevelWarning | LevelError | LevelTrace
  | LevelPerformance | LevelDiagnostic

fun level_name :: "LogLevel \<Rightarrow> string" where
  "level_name LevelDebug = ''debug''"
| "level_name LevelInfo = ''info''"
| "level_name LevelWarning = ''warning''"
| "level_name LevelError = ''error''"
| "level_name LevelTrace = ''trace''"
| "level_name LevelPerformance = ''performance''"
| "level_name LevelDiagnostic = ''diagnostic''"

section \<open>State\<close>

record log_env =
  le_getenv :: "string \<Rightarrow> string option"
  le_module_parent :: "string option"
  le_current_path :: "string option"
  le_create_directories :: "string \<Rightarrow> bool"
  le_open :: "string \<Rightarrow> bool"
  le_time_filename :: string
  le_time_record :: string
  le_pid :: string
  le_tid :: string
  le_throws :: bool

record ComponentLogger =
  cl_component :: string
  cl_modes :: u32
  cl_log_directory :: string
  cl_log_file :: string
  cl_stream :: "string list option"
  cl_initialized :: bool

section \<open>Helpers\<close>

definition lower_ascii :: "string \<Rightarrow> string" where
  "lower_ascii value' = map tolower value'"

definition log_escape_char :: "char \<Rightarrow> string" where
  "log_escape_char ch =
    (if ch = Backslash then [Backslash, Backslash]
     else if ch = Quote then [Backslash, Quote]
     else if ch = Newline then [Backslash, CHR ''n'']
     else if ch = Return then [Backslash, CHR ''r'']
     else if ch = Tab then [Backslash, CHR ''t'']
     else [ch])"

definition log_json_escape :: "string \<Rightarrow> string" where
  "log_json_escape value' = concat (map log_escape_char value')"

text \<open>
  \<open>operator/\<close> of \<open>std::filesystem::path\<close>: the preferred separator is added unless one is
  there. A POSIX right operand that starts at the root replaces the left one; the Windows
  rules for root names are not spelled out, since the right operands here have none.
\<close>

definition is_separator :: "platform \<Rightarrow> char \<Rightarrow> bool" where
  "is_separator plat c \<longleftrightarrow> c = CHR ''/'' \<or> plat = Windows \<and> c = Backslash"

definition path_append :: "platform \<Rightarrow> string \<Rightarrow> string \<Rightarrow> string" where
  "path_append plat p q =
    (if plat = Portable \<and> q \<noteq> [] \<and> hd q = CHR ''/'' then q
     else if p = [] \<or> is_separator plat (last p) then p @ q
     else p @ (if plat = Windows then Backslash else CHR ''/'') # q)"

text \<open>
  \<open>environment_enabled\<close>. On Windows an empty value reads as length 0 and a long one is read
  again into a larger buffer; on both platforms the outcome is a function of the value.
\<close>

definition environment_enabled :: "log_env \<Rightarrow> string \<Rightarrow> bool" where
  "environment_enabled env name =
    (case le_getenv env name of
       None \<Rightarrow> False
     | Some raw \<Rightarrow>
         raw \<noteq> [] \<and>
         (let value' = lower_ascii raw
          in value' \<noteq> ''0'' \<and> value' \<noteq> ''false'' \<and> value' \<noteq> ''off'' \<and> value' \<noteq> ''no''))"

definition read_modes :: "log_env \<Rightarrow> string \<Rightarrow> u32" where
  "read_modes env component =
    (let prefix = ''dx12_'' @ component @ ''_'';
         m0 = LogMode_None;
         m1 = (if environment_enabled env (prefix @ ''debug'') then m0 OR LogMode_Debug else m0);
         m2 = (if environment_enabled env (prefix @ ''trace'') then m1 OR LogMode_Trace else m1);
         m3 = (if environment_enabled env (prefix @ ''perf'') then m2 OR LogMode_Perf else m2);
         m4 = (if environment_enabled env (prefix @ ''diag'') then m3 OR LogMode_Diagnostic else m3)
     in m4)"

definition resolve_module_directory :: "platform \<Rightarrow> log_env \<Rightarrow> string" where
  "resolve_module_directory plat env =
    (case (plat, le_module_parent env) of
       (Windows, Some parent) \<Rightarrow> parent
     | _ \<Rightarrow> (case le_current_path env of None \<Rightarrow> [] | Some current \<Rightarrow> current))"

section \<open>The logger\<close>

definition new_ComponentLogger :: "string \<Rightarrow> ComponentLogger" where
  "new_ComponentLogger component =
    \<lparr> cl_component = lower_ascii component, cl_modes = LogMode_None, cl_log_directory = [],
      cl_log_file = [], cl_stream = None, cl_initialized = False \<rparr>"

definition log_header :: "log_env \<Rightarrow> ComponentLogger \<Rightarrow> string" where
  "log_header env l = ''# dxait component='' @ cl_component l @ '' modes='' @
     to_string_u32 (cl_modes l) @ '' pid='' @ le_pid env @ '' tid='' @ le_tid env"

text \<open>
  \<open>initialize\<close>: the returned flag and the logger. The second directory is tried only when
  creating the first one failed, and only when the working directory can be read.
\<close>

definition logger_initialize :: "platform \<Rightarrow> log_env \<Rightarrow> ComponentLogger \<Rightarrow> bool \<times> ComponentLogger" where
  "logger_initialize plat env l =
    (if cl_initialized l then (cl_stream l \<noteq> None \<or> cl_modes l = LogMode_None, l)
     else
       let l1 = l\<lparr>cl_modes := read_modes env (cl_component l), cl_initialized := True\<rparr>
       in if cl_modes l1 = LogMode_None then (True, l1)
       else if le_throws env then (False, l1\<lparr>cl_stream := None\<rparr>)
       else
         let first = path_append plat (resolve_module_directory plat env) ''logs'';
             l2 = l1\<lparr>cl_log_directory := first\<rparr>;
             (error, l3) =
               (if le_create_directories env first then (False, l2)
                else (case le_current_path env of
                    None \<Rightarrow> (True, l2\<lparr>cl_log_directory := ''logs''\<rparr>)
                  | Some cur \<Rightarrow>
                      (\<not> le_create_directories env (path_append plat cur ''logs''),
                       l2\<lparr>cl_log_directory := path_append plat cur ''logs''\<rparr>)))
         in if error then (False, l3)
         else
           let file = path_append plat (cl_log_directory l3)
                 (cl_component l3 @ ''_'' @ le_time_filename env @ ''_'' @ le_pid env @ ''.log'');
               l4 = l3\<lparr>cl_log_file := file\<rparr>
           in if \<not> le_open env file then (False, l4)
           else (True, l4\<lparr>cl_stream := Some [log_header env l4]\<rparr>))"

definition logger_shutdown :: "ComponentLogger \<Rightarrow> ComponentLogger" where
  "logger_shutdown l = l\<lparr>cl_stream := None, cl_initialized := False\<rparr>"

definition logger_enabled :: "ComponentLogger \<Rightarrow> u32 \<Rightarrow> bool" where
  "logger_enabled l mode \<longleftrightarrow> cl_initialized l \<and> has_mode (cl_modes l) mode"

definition logger_file_open :: "ComponentLogger \<Rightarrow> bool" where
  "logger_file_open l \<longleftrightarrow> cl_stream l \<noteq> None"

definition write_mode :: "LogLevel \<Rightarrow> u32" where
  "write_mode level =
    (if level = LevelPerformance then LogMode_Perf
     else if level = LevelTrace then LogMode_Trace
     else if level = LevelDiagnostic then LogMode_Diagnostic
     else LogMode_Debug)"

definition quoted :: "string \<Rightarrow> string" where
  "quoted s = Quote # s @ [Quote]"

definition log_record :: "log_env \<Rightarrow> ComponentLogger \<Rightarrow> LogLevel \<Rightarrow> string \<Rightarrow> string option \<Rightarrow> int \<Rightarrow> string" where
  "log_record env l level message source_file source_line =
     ''{'' @ quoted ''ts'' @ '':'' @ quoted (le_time_record env) @
     '','' @ quoted ''pid'' @ '':'' @ quoted (le_pid env) @
     '','' @ quoted ''tid'' @ '':'' @ quoted (le_tid env) @
     '','' @ quoted ''component'' @ '':'' @ quoted (log_json_escape (cl_component l)) @
     '','' @ quoted ''level'' @ '':'' @ quoted (level_name level) @
     '','' @ quoted ''file'' @ '':'' @ quoted (log_json_escape (case source_file of None \<Rightarrow> [] | Some f \<Rightarrow> f)) @
     '','' @ quoted ''line'' @ '':'' @ dec_int source_line @
     '','' @ quoted ''message'' @ '':'' @ quoted (log_json_escape message) @ ''}''"

definition logger_write ::
  "log_env \<Rightarrow> ComponentLogger \<Rightarrow> LogLevel \<Rightarrow> string \<Rightarrow> string option \<Rightarrow> int \<Rightarrow> ComponentLogger" where
  "logger_write env l level message source_file source_line =
    (if \<not> logger_enabled l (write_mode level) then l
     else if le_throws env then l
     else (case cl_stream l of
         None \<Rightarrow> l
       | Some lines \<Rightarrow>
           l\<lparr>cl_stream := Some (lines @ [log_record env l level message source_file source_line])\<rparr>))"

section \<open>Trace spans\<close>

record TraceSpan =
  sp_name :: string
  sp_source_file :: "string option"
  sp_source_line :: int
  sp_begin :: nat
  sp_enabled :: bool

definition begin_TraceSpan ::
  "log_env \<Rightarrow> nat \<Rightarrow> ComponentLogger \<Rightarrow> string \<Rightarrow> string option \<Rightarrow> int \<Rightarrow> TraceSpan \<times> ComponentLogger" where
  "begin_TraceSpan env now logger name source_file source_line =
    (let span = \<lparr> sp_name = name, sp_source_file = source_file, sp_source_line = source_line,
                  sp_begin = now,
                  sp_enabled = (logger_enabled logger LogMode_Trace \<or> logger_enabled logger LogMode_Perf) \<rparr>
     in (span,
         if sp_enabled span
         then logger_write env logger LevelTrace (''begin:'' @ name) source_file source_line
         else logger))"

definition end_TraceSpan :: "log_env \<Rightarrow> nat \<Rightarrow> TraceSpan \<Rightarrow> ComponentLogger \<Rightarrow> ComponentLogger" where
  "end_TraceSpan env now span logger =
    (if \<not> sp_enabled span then logger
     else logger_write env logger LevelPerformance
       (''end:'' @ sp_name span @ '' duration_us='' @ dec_digits (now - sp_begin span))
       (sp_source_file span) (sp_source_line span))"

section \<open>The C bridge\<close>

abbreviation (input) DX_COMPONENT_LOG_NONE :: u32 where "DX_COMPONENT_LOG_NONE \<equiv> 0"
abbreviation (input) DX_COMPONENT_LEVEL_DEBUG :: u32 where "DX_COMPONENT_LEVEL_DEBUG \<equiv> 0"
abbreviation (input) DX_COMPONENT_LEVEL_PERFORMANCE :: u32 where "DX_COMPONENT_LEVEL_PERFORMANCE \<equiv> 5"
abbreviation (input) DX_COMPONENT_LEVEL_DIAGNOSTIC :: u32 where "DX_COMPONENT_LEVEL_DIAGNOSTIC \<equiv> 6"

text \<open>\<open>dx_component_logger_t\<close> holds a pointer to the C++ logger, null if never set.\<close>

type_synonym dx_component_logger_t = "ComponentLogger option"

definition valid_mode :: "u32 \<Rightarrow> bool" where
  "valid_mode mode \<longleftrightarrow> mode = 1 \<or> mode = 2 \<or> mode = 4 \<or> mode = 8"

definition to_cpp_mode :: "u32 \<Rightarrow> u32" where
  "to_cpp_mode mode =
    (if mode = 1 then LogMode_Debug else if mode = 2 then LogMode_Trace
     else if mode = 4 then LogMode_Perf else if mode = 8 then LogMode_Diagnostic
     else LogMode_None)"

definition to_cpp_level :: "u32 \<Rightarrow> LogLevel" where
  "to_cpp_level level =
    (if level = 0 then LevelDebug else if level = 1 then LevelInfo
     else if level = 2 then LevelWarning else if level = 3 then LevelError
     else if level = 4 then LevelTrace else if level = 5 then LevelPerformance
     else if level = 6 then LevelDiagnostic else LevelError)"

text \<open>
  The out-parameter is \<open>None\<close> for a null pointer and otherwise holds the caller's handle.
\<close>

definition dx_component_logger_create ::
  "platform \<Rightarrow> log_env \<Rightarrow> thrown \<Rightarrow> string option \<Rightarrow> dx_component_logger_t option option \<Rightarrow>
   status \<times> dx_component_logger_t option option" where
  "dx_component_logger_create plat env thr component out_logger =
    (if \<not> valid_text component \<or> out_logger = None then (-1, out_logger)
     else (case thr of
         BadAlloc \<Rightarrow> (-3, Some None)
       | OtherThrow \<Rightarrow> (-4, Some None)
       | NoThrow \<Rightarrow>
           (0, Some (Some (Some (snd (logger_initialize plat env (new_ComponentLogger (the component)))))))))"

definition dx_component_logger_destroy :: "dx_component_logger_t option \<Rightarrow> ComponentLogger option" where
  "dx_component_logger_destroy logger =
    (case logger of Some (Some impl) \<Rightarrow> Some (logger_shutdown impl) | _ \<Rightarrow> None)"

definition dx_component_logger_modes :: "dx_component_logger_t option \<Rightarrow> u32" where
  "dx_component_logger_modes logger =
    (case logger of Some (Some impl) \<Rightarrow> cl_modes impl | _ \<Rightarrow> DX_COMPONENT_LOG_NONE)"

definition dx_component_logger_enabled :: "dx_component_logger_t option \<Rightarrow> u32 \<Rightarrow> status" where
  "dx_component_logger_enabled logger mode =
    (case logger of
       Some (Some impl) \<Rightarrow>
         if \<not> valid_mode mode then 0
         else if logger_enabled impl (to_cpp_mode mode) then 1 else 0
     | _ \<Rightarrow> 0)"

definition dx_component_logger_write ::
  "log_env \<Rightarrow> dx_component_logger_t option \<Rightarrow> u32 \<Rightarrow> string option \<Rightarrow> string option \<Rightarrow> int \<Rightarrow>
   dx_component_logger_t option" where
  "dx_component_logger_write env logger level message source_file source_line =
    (case (logger, message) of
       (Some (Some impl), Some msg) \<Rightarrow>
         Some (Some (logger_write env impl (to_cpp_level level) msg source_file source_line))
     | _ \<Rightarrow> logger)"

section \<open>Escaping\<close>

definition log_text :: "char \<Rightarrow> bool" where
  "log_text c \<longleftrightarrow> 32 \<le> (of_char c :: nat) \<or> c \<in> {Newline, Return, Tab}"

lemma log_escape_step:
  assumes "log_text c" "json_string_body r = Some (s, t)"
  shows "json_string_body (log_escape_char c @ r) = Some (c # s, t)"
  using assms by (auto simp: log_text_def log_escape_char_def json_unescape_def)

text \<open>
  Escaping loses nothing: whatever follows it, the escaped form of a message closed by a
  quote is a JSON string that decodes to exactly that message, for every message without the
  control characters JSON has no short escape for in this code.
\<close>

theorem log_escape_roundtrip:
  assumes "\<forall>c \<in> set message. log_text c"
  shows "json_string_body (log_json_escape message @ Quote # rest) = Some (message, rest)"
  unfolding log_json_escape_def using assms by (intro json_body_concat log_escape_step) auto

theorem log_escape_roundtrip_witness:
  "json_string_body (log_json_escape [CHR ''a'', Quote, Backslash, Newline] @ Quote # ''}'') =
     Some ([CHR ''a'', Quote, Backslash, Newline], ''}'')"
  by (rule log_escape_roundtrip) (simp add: log_text_def)

lemma log_escape_char_one_line: "Newline \<notin> set (log_escape_char c)"
  by (auto simp: log_escape_char_def)

lemma log_json_escape_one_line: "Newline \<notin> set (log_json_escape s)"
  by (auto simp: log_json_escape_def log_escape_char_one_line)

section \<open>Modes\<close>

lemma environment_enabled_unset: "le_getenv env name = None \<Longrightarrow> \<not> environment_enabled env name"
  by (simp add: environment_enabled_def)

lemma read_modes_cases:
  "read_modes env c =
    (if environment_enabled env (''dx12_'' @ c @ ''_debug'') then 1 else 0) +
    (if environment_enabled env (''dx12_'' @ c @ ''_trace'') then 2 else 0) +
    (if environment_enabled env (''dx12_'' @ c @ ''_perf'') then 4 else 0) +
    (if environment_enabled env (''dx12_'' @ c @ ''_diag'') then 8 else 0)"
  by (simp add: read_modes_def)

lemma read_modes_bits:
  "has_mode (read_modes env c) LogMode_Debug \<longleftrightarrow> environment_enabled env (''dx12_'' @ c @ ''_debug'')"
  "has_mode (read_modes env c) LogMode_Trace \<longleftrightarrow> environment_enabled env (''dx12_'' @ c @ ''_trace'')"
  "has_mode (read_modes env c) LogMode_Perf \<longleftrightarrow> environment_enabled env (''dx12_'' @ c @ ''_perf'')"
  "has_mode (read_modes env c) LogMode_Diagnostic \<longleftrightarrow> environment_enabled env (''dx12_'' @ c @ ''_diag'')"
  by (simp_all add: read_modes_cases has_mode_def)

section \<open>Creation never fails because of the log\<close>

lemma logger_initialize_new:
  fixes plat env component
  defines "l \<equiv> snd (logger_initialize plat env (new_ComponentLogger component))"
  shows "cl_initialized l" "cl_component l = lower_ascii component"
    "cl_modes l = read_modes env (lower_ascii component)"
    "read_modes env (lower_ascii component) = LogMode_None \<Longrightarrow> cl_stream l = None \<and> cl_log_directory l = []"
    "cl_stream l = None \<or> cl_stream l = Some [log_header env l]"
  by (simp_all add: l_def logger_initialize_def new_ComponentLogger_def Let_def log_header_def
      split: option.splits)

lemma valid_mode_cases:
  "valid_mode m \<longleftrightarrow> m \<in> {LogMode_Debug, LogMode_Trace, LogMode_Perf, LogMode_Diagnostic}"
  by (auto simp: valid_mode_def)

lemma component_logger_enabled_iff:
  "dx_component_logger_enabled (Some (Some l)) m =
    (if valid_mode m \<and> cl_initialized l \<and> has_mode (cl_modes l) m then 1 else 0)"
  by (auto simp: dx_component_logger_enabled_def logger_enabled_def to_cpp_mode_def valid_mode_def)

text \<open>
  Creating a logger succeeds for every component name whatever the environment does with
  directories and files; the new logger reports exactly the modes whose environment variable
  is on, and with all of them off it has touched no directory and no file.
\<close>

theorem component_logger_create_nonfatal:
  assumes "component \<noteq> []"
  shows "\<exists>l. dx_component_logger_create plat env NoThrow (Some component) (Some old) =
        (0, Some (Some (Some l))) \<and>
      (\<forall>m suffix. (m, suffix) \<in> {(1, ''_debug''), (2, ''_trace''), (4, ''_perf''), (8, ''_diag'')} \<longrightarrow>
        dx_component_logger_enabled (Some (Some l)) m =
          (if environment_enabled env (''dx12_'' @ lower_ascii component @ suffix) then 1 else 0)) \<and>
      (dx_component_logger_modes (Some (Some l)) = DX_COMPONENT_LOG_NONE \<longrightarrow>
        \<not> logger_file_open l \<and> cl_log_directory l = [])"
proof -
  let ?l = "snd (logger_initialize plat env (new_ComponentLogger component))"
  have "dx_component_logger_create plat env NoThrow (Some component) (Some old) =
      (0, Some (Some (Some ?l)))"
    using assms by (simp add: dx_component_logger_create_def)
  moreover have "\<forall>m suffix. (m, suffix) \<in> {(1, ''_debug''), (2, ''_trace''), (4, ''_perf''), (8, ''_diag'')} \<longrightarrow>
        dx_component_logger_enabled (Some (Some ?l)) m =
          (if environment_enabled env (''dx12_'' @ lower_ascii component @ suffix) then 1 else 0)"
    unfolding component_logger_enabled_iff
    by (auto simp: logger_initialize_new(1) logger_initialize_new(3) read_modes_bits valid_mode_def)
  moreover have "dx_component_logger_modes (Some (Some ?l)) = DX_COMPONENT_LOG_NONE \<longrightarrow>
      \<not> logger_file_open ?l \<and> cl_log_directory ?l = []"
    using logger_initialize_new(4) [of env component plat]
    by (simp add: logger_initialize_new(3) dx_component_logger_modes_def logger_file_open_def)
  ultimately show ?thesis by blast
qed

definition example_log_env :: log_env where
  "example_log_env = \<lparr> le_getenv = (\<lambda>n. if n = ''dx12_dxmemory_debug'' then Some ''1'' else None),
     le_module_parent = None, le_current_path = Some ''/tmp'', le_create_directories = (\<lambda>_. True),
     le_open = (\<lambda>_. True), le_time_filename = ''20260101_000000'',
     le_time_record = ''2026-01-01T00:00:00.000'', le_pid = ''0'', le_tid = ''7'',
     le_throws = False \<rparr>"

theorem component_logger_create_nonfatal_witness:
  "\<exists>l. dx_component_logger_create Portable example_log_env NoThrow (Some ''dxmemory'') (Some None) =
        (0, Some (Some (Some l)))"
  using component_logger_create_nonfatal [of "''dxmemory''" Portable example_log_env None] by blast

section \<open>The log as an append-only sink\<close>

text \<open>
  What the clients of a logger rely on: a message that is not accepted changes nothing, an
  accepted one adds one line, and whether a level is accepted never changes by writing.
\<close>

locale log_sink =
  fixes emit :: "'s \<Rightarrow> LogLevel \<Rightarrow> string \<Rightarrow> 's"
    and accepts :: "'s \<Rightarrow> LogLevel \<Rightarrow> bool"
    and logged :: "'s \<Rightarrow> string list"
    and line :: "'s \<Rightarrow> LogLevel \<Rightarrow> string \<Rightarrow> string"
  assumes emit_rejected: "\<not> accepts s lv \<Longrightarrow> emit s lv m = s"
    and emit_accepted: "accepts s lv \<Longrightarrow> logged (emit s lv m) = logged s @ [line s lv m]"
    and emit_accepts: "accepts (emit s lv m) lv' = accepts s lv'"
    and emit_line: "line (emit s lv m) lv' m' = line s lv' m'"
begin

definition emit_all :: "(LogLevel \<times> string) list \<Rightarrow> 's \<Rightarrow> 's" where
  "emit_all ms s = fold (\<lambda>(lv, m) s. emit s lv m) ms s"

lemma emit_all_spec:
  "logged (emit_all ms s) =
     logged s @ map (\<lambda>(lv, m). line s lv m) (filter (\<lambda>(lv, m). accepts s lv) ms) \<and>
   (\<forall>lv. accepts (emit_all ms s) lv = accepts s lv)"
proof (induction ms arbitrary: s)
  case Nil
  then show ?case by (simp add: emit_all_def)
next
  case (Cons lm ms)
  obtain lv m where lm: "lm = (lv, m)" by force
  have step: "emit_all (lm # ms) s = emit_all ms (emit s lv m)"
    by (simp add: emit_all_def lm)
  show ?case
    using Cons.IH [of "emit s lv m"] emit_accepted [of s lv m] emit_rejected [of s lv m]
    by (cases "accepts s lv") (simp_all add: step [unfolded lm] lm emit_accepts emit_line)
qed

end

definition log_lines :: "ComponentLogger \<Rightarrow> string list" where
  "log_lines l = (case cl_stream l of None \<Rightarrow> [] | Some ls \<Rightarrow> ls)"

definition logger_accepts :: "log_env \<Rightarrow> ComponentLogger \<Rightarrow> LogLevel \<Rightarrow> bool" where
  "logger_accepts env l lv \<longleftrightarrow>
    logger_enabled l (write_mode lv) \<and> \<not> le_throws env \<and> logger_file_open l"

interpretation cl: log_sink
  "\<lambda>l lv m. logger_write env l lv m file' line'" "logger_accepts env" log_lines
  "\<lambda>l lv m. log_record env l lv m file' line'"
  for env file' line'
  by unfold_locales
    (auto simp: logger_write_def logger_accepts_def logger_file_open_def log_lines_def
      logger_enabled_def log_record_def split: option.splits)

lemma logger_write_open:
  "cl_stream (logger_write env l lv m f n) = None \<longleftrightarrow> cl_stream l = None"
  by (simp add: logger_write_def split: option.splits)

lemma log_record_one_line:
  assumes "Newline \<notin> set (le_time_record env)" "Newline \<notin> set (le_pid env)" "Newline \<notin> set (le_tid env)"
  shows "Newline \<notin> set (log_record env l lv m f n)"
proof -
  have "Newline \<notin> set (dec_digits k)" for k
    using dec_digits_digit [of Newline k] by (auto simp: is_digit_def)
  then have "Newline \<notin> set (dec_int n)" by (simp add: dec_int_def)
  with assms show ?thesis
    by (cases lv) (simp_all add: log_record_def quoted_def log_json_escape_one_line)
qed

text \<open>A caller that writes a sequence of (level code, message) pairs through the C interface.\<close>

definition write_all ::
  "log_env \<Rightarrow> string option \<Rightarrow> int \<Rightarrow> (u32 \<times> string) list \<Rightarrow> dx_component_logger_t option \<Rightarrow>
   dx_component_logger_t option" where
  "write_all env f n ms logger =
    fold (\<lambda>(lv, m) g. dx_component_logger_write env g lv (Some m) f n) ms logger"

lemma write_all_emit_all:
  "write_all env f n ms (Some (Some l)) =
    Some (Some (cl.emit_all env f n (map (\<lambda>(lv, m). (to_cpp_level lv, m)) ms) l))"
proof (induction ms arbitrary: l)
  case (Cons lm ms)
  then show ?case
    by (cases lm) (simp add: write_all_def cl.emit_all_def dx_component_logger_write_def)
qed (simp add: write_all_def cl.emit_all_def)

text \<open>
  The log is append-only and stays line-structured: a sequence of writes leaves every line
  already in the file, adds one record for each message whose level's mode is on (and none for
  the others), and no record contains a raw line break, whatever the messages contain.
\<close>

theorem component_logger_appends_lines:
  assumes "Newline \<notin> set (le_time_record env)" "Newline \<notin> set (le_pid env)" "Newline \<notin> set (le_tid env)"
    and "\<not> le_throws env" "cl_stream l = Some old" "cl_initialized l"
  shows "\<exists>l' new. write_all env f n ms (Some (Some l)) = Some (Some l') \<and>
     cl_stream l' = Some (old @ new) \<and>
     length new = length (filter (\<lambda>(lv, m). has_mode (cl_modes l) (write_mode (to_cpp_level lv))) ms) \<and>
     (\<forall>r \<in> set new. Newline \<notin> set r)"
proof -
  let ?ms = "map (\<lambda>(lv, m). (to_cpp_level lv, m)) ms"
  let ?l = "cl.emit_all env f n ?ms l"
  let ?new = "map (\<lambda>(lv, m). log_record env l lv m f n) (filter (\<lambda>(lv, m). logger_accepts env l lv) ?ms)"
  have open_stays: "cl_stream (cl.emit_all env f n xs k) = None \<longleftrightarrow> cl_stream k = None" for xs k
    by (induction xs arbitrary: k)
      (simp_all add: cl.emit_all_def split_def logger_write_open)
  have "log_lines ?l = old @ ?new"
    using cl.emit_all_spec [of env f n ?ms l] assms(5) by (simp add: log_lines_def)
  moreover have "cl_stream ?l \<noteq> None" using open_stays assms(5) by simp
  ultimately have stream: "cl_stream ?l = Some (old @ ?new)"
    by (auto simp: log_lines_def)
  have "logger_accepts env l lv \<longleftrightarrow> has_mode (cl_modes l) (write_mode lv)" for lv
    using assms(4-6) by (simp add: logger_accepts_def logger_enabled_def logger_file_open_def)
  then have "length ?new =
      length (filter (\<lambda>(lv, m). has_mode (cl_modes l) (write_mode (to_cpp_level lv))) ms)"
    by (simp add: filter_map comp_def split_def)
  moreover have "\<forall>r \<in> set ?new. Newline \<notin> set r"
    using log_record_one_line [OF assms(1-3)] by auto
  ultimately show ?thesis using stream write_all_emit_all [of env f n ms l] by blast
qed

definition example_logger :: ComponentLogger where
  "example_logger = \<lparr> cl_component = ''dxmemory'', cl_modes = 1, cl_log_directory = ''/tmp/logs'',
     cl_log_file = ''/tmp/logs/x.log'', cl_stream = Some [''# header''], cl_initialized = True \<rparr>"

theorem component_logger_appends_lines_witness:
  "\<exists>l' new. write_all example_log_env (Some ''a.cpp'') 3 [(0, ''one''), (5, ''off''), (1, ''two'')]
       (Some (Some example_logger)) = Some (Some l') \<and>
     cl_stream l' = Some ([''# header''] @ new) \<and> length new = 2"
proof -
  have "length (filter (\<lambda>(lv, m). has_mode (cl_modes example_logger) (write_mode (to_cpp_level lv)))
      [(0, ''one''), (5, ''off''), (1, ''two'')]) = 2"
    by code_simp
  then show ?thesis
    using component_logger_appends_lines [of example_log_env example_logger "[''# header'']"
        "Some ''a.cpp''" 3 "[(0, ''one''), (5, ''off''), (1, ''two'')]"]
    by (simp add: example_log_env_def example_logger_def) metis
qed

end
