(* ===== verification/MemoryPool.thy ===== *)
theory MemoryPool
  imports Diagnostics
begin

text \<open>
  The allocation interface, \<open>src/core/dx_memory_api.cpp\<close>.

  An allocation object is a record; its bytes are \<open>ma_contents\<close>, reached by the CPU through
  \<open>ma_data\<close> (null for a device-local resource) and by the GPU through the resource. Objects
  live in the pool's map under their address. Functions that take an allocation pointer take
  the object and return it updated; \<open>None\<close> is the null pointer.

  Parameters stand for what the operating system and Direct3D decide: the address of a new
  object, whether an allocation succeeds, the bytes found in fresh memory, and which D3D12
  call fails (\<open>alloc_env\<close>, \<open>copy_env\<close>). The pool's mutex serialises the operations, so each
  one is a single step; the public functions are the steps of \<open>pool_step\<close>.
\<close>

section \<open>State\<close>

abbreviation (input) DX_MEMORY_HOST :: u32 where "DX_MEMORY_HOST \<equiv> 0"
abbreviation (input) DX_MEMORY_UPLOAD :: u32 where "DX_MEMORY_UPLOAD \<equiv> 1"
abbreviation (input) DX_MEMORY_READBACK :: u32 where "DX_MEMORY_READBACK \<equiv> 2"
abbreviation (input) DX_MEMORY_DEVICE :: u32 where "DX_MEMORY_DEVICE \<equiv> 3"
abbreviation (input) DX_MEMORY_GPU_UPLOAD :: u32 where "DX_MEMORY_GPU_UPLOAD \<equiv> 4"
abbreviation (input) DX_MEMORY_MANAGED :: u32 where "DX_MEMORY_MANAGED \<equiv> 5"

datatype D3D12_HEAP_TYPE = HEAP_DEFAULT | HEAP_UPLOAD | HEAP_READBACK

datatype D3D12_RESOURCE_STATES = STATE_COMMON | STATE_GENERIC_READ | STATE_COPY_DEST | STATE_COPY_SOURCE

text \<open>Where a non-null data pointer came from.\<close>

datatype data_origin = AlignedBlock | MappedResource

record dx_memory_desc_t =
  md_struct_size :: u32
  md_api_version :: u32
  md_bytes :: u64
  md_alignment :: u64
  md_location :: u32
  md_flags :: u32

record dx_memory_stats_t =
  ms_struct_size :: u32
  ms_api_version :: u32
  ms_allocation_count :: u64
  ms_live_bytes :: u64
  ms_peak_bytes :: u64
  ms_allocation_failures :: u64

record dx_memory_allocation_t =
  ma_data :: "data_origin option"
  ma_bytes :: u64
  ma_alignment :: u64
  ma_location :: u32
  ma_resource :: bool
  ma_state :: D3D12_RESOURCE_STATES
  ma_contents :: "u8 list"

record dx_memory_pool_t =
  mp_logger :: "dx_component_logger_t option"
  mp_allocations :: "nat \<rightharpoonup> dx_memory_allocation_t"
  mp_stats :: dx_memory_stats_t
  mp_device :: bool

abbreviation (input) sizeof_memory_desc :: u32 where "sizeof_memory_desc \<equiv> 32"
abbreviation (input) sizeof_memory_stats :: u32 where "sizeof_memory_stats \<equiv> 40"
abbreviation (input) sizeof_pointer :: u64 where "sizeof_pointer \<equiv> 8"
abbreviation (input) kMemoryApiVersion :: u32 where "kMemoryApiVersion \<equiv> 1"

section \<open>Pools\<close>

definition is_power_of_two :: "u64 \<Rightarrow> bool" where
  "is_power_of_two value' \<longleftrightarrow> value' \<noteq> 0 \<and> value' AND (value' - 1) = 0"

definition create_pool_internal ::
  "platform \<Rightarrow> log_env \<Rightarrow> thrown \<Rightarrow> thrown \<Rightarrow> bool \<Rightarrow> dx_memory_pool_t option option \<Rightarrow>
   status \<times> dx_memory_pool_t option option" where
  "create_pool_internal plat lenv thr thr_log native_device out_pool =
    (if out_pool = None then (-1, out_pool)
     else (case thr of
         BadAlloc \<Rightarrow> (-3, Some None)
       | OtherThrow \<Rightarrow> (-4, Some None)
       | NoThrow \<Rightarrow>
           (case dx_component_logger_create plat lenv thr_log (Some ''dxmemory'') (Some None) of
              (st, logger) \<Rightarrow>
                if st \<noteq> 0 then (-2, Some None)
                else (0, Some (Some
                  \<lparr> mp_logger = the logger, mp_allocations = Map.empty,
                    mp_stats = \<lparr> ms_struct_size = sizeof_memory_stats,
                      ms_api_version = kMemoryApiVersion, ms_allocation_count = 0,
                      ms_live_bytes = 0, ms_peak_bytes = 0, ms_allocation_failures = 0 \<rparr>,
                    mp_device = (plat = Windows \<and> native_device) \<rparr>)))))"

definition dx_memory_pool_create ::
  "platform \<Rightarrow> log_env \<Rightarrow> thrown \<Rightarrow> thrown \<Rightarrow> dx_memory_pool_t option option \<Rightarrow>
   status \<times> dx_memory_pool_t option option" where
  "dx_memory_pool_create plat lenv thr thr_log out_pool =
     create_pool_internal plat lenv thr thr_log False out_pool"

definition dx_memory_pool_create_for_native_device ::
  "platform \<Rightarrow> log_env \<Rightarrow> thrown \<Rightarrow> thrown \<Rightarrow> bool \<Rightarrow> dx_memory_pool_t option option \<Rightarrow>
   status \<times> dx_memory_pool_t option option" where
  "dx_memory_pool_create_for_native_device plat lenv thr thr_log native_device out_pool =
    (if plat = Windows \<and> \<not> native_device then (-1, out_pool)
     else create_pool_internal plat lenv thr thr_log native_device out_pool)"

definition log_debug :: "log_env \<Rightarrow> dx_memory_pool_t option \<Rightarrow> string option \<Rightarrow> dx_memory_pool_t option" where
  "log_debug lenv pool message =
    map_option (\<lambda>p. p\<lparr>mp_logger := dx_component_logger_write lenv (mp_logger p)
      DX_COMPONENT_LEVEL_DEBUG message (Some ''dx_memory_api.cpp'') 120\<rparr>) pool"

section \<open>Allocation\<close>

record alloc_env =
  ae_handle :: nat
  ae_throw_new :: thrown
  ae_create_resource :: bool
  ae_map :: bool
  ae_block :: bool
  ae_throw_emplace :: thrown
  ae_fresh :: "nat \<Rightarrow> u8"

definition fresh_bytes :: "alloc_env \<Rightarrow> u64 \<Rightarrow> u8 list" where
  "fresh_bytes env bytes = map (ae_fresh env) [0..<unat bytes]"

definition heap_type :: "u32 \<Rightarrow> D3D12_HEAP_TYPE" where
  "heap_type location =
    (if location = DX_MEMORY_READBACK then HEAP_READBACK
     else if location = DX_MEMORY_UPLOAD \<or> location = DX_MEMORY_GPU_UPLOAD then HEAP_UPLOAD
     else HEAP_DEFAULT)"

text \<open>
  \<open>allocate_d3d12_resource\<close>: 1 asks for the host path. The result carries the allocation
  object, whose fields are written as the calls succeed.
\<close>

definition allocate_d3d12_resource ::
  "alloc_env \<Rightarrow> dx_memory_pool_t \<Rightarrow> dx_memory_desc_t \<Rightarrow> dx_memory_allocation_t \<Rightarrow>
   status \<times> dx_memory_allocation_t" where
  "allocate_d3d12_resource env pool desc a =
    (if \<not> mp_device pool \<or> md_location desc = DX_MEMORY_HOST \<or> md_location desc = DX_MEMORY_MANAGED
     then (1, a)
     else
       let ty = heap_type (md_location desc);
           initial_state = (if ty = HEAP_DEFAULT then STATE_COMMON else STATE_GENERIC_READ);
           a1 = a\<lparr>ma_state := initial_state\<rparr>
       in if \<not> ae_create_resource env then (-1, a1)
       else
         let a2 = a1\<lparr>ma_resource := True, ma_contents := fresh_bytes env (md_bytes desc)\<rparr>
         in if ty \<noteq> HEAP_DEFAULT then
              (if ae_map env then (0, a2\<lparr>ma_data := Some MappedResource\<rparr>)
               else (-2, a2\<lparr>ma_resource := False, ma_data := None, ma_contents := []\<rparr>))
            else (0, a2))"

definition count_failure :: "dx_memory_pool_t \<Rightarrow> dx_memory_pool_t" where
  "count_failure pool = pool\<lparr>mp_stats := (mp_stats pool)
     \<lparr>ms_allocation_failures := ms_allocation_failures (mp_stats pool) + 1\<rparr>\<rparr>"

definition emplace_allocation ::
  "nat \<Rightarrow> dx_memory_allocation_t \<Rightarrow> u64 \<Rightarrow> dx_memory_pool_t \<Rightarrow> dx_memory_pool_t" where
  "emplace_allocation handle a bytes pool =
    (let s = mp_stats pool;
         live = ms_live_bytes s + bytes
     in pool\<lparr>mp_allocations := (mp_allocations pool)(handle \<mapsto> a),
             mp_stats := s\<lparr>ms_allocation_count := ms_allocation_count s + 1,
                           ms_live_bytes := live,
                           ms_peak_bytes := max (ms_peak_bytes s) live\<rparr>\<rparr>)"

definition alloc_alignment :: "dx_memory_desc_t \<Rightarrow> u64" where
  "alloc_alignment desc = (if md_alignment desc = 0 then 256 else md_alignment desc)"

text \<open>
  \<open>dx_memory_alloc\<close>. The out-parameter \<open>Some (Some h)\<close> holds the handle \<open>h\<close>; the pool and the
  descriptor are \<open>None\<close> when null.
\<close>

definition dx_memory_alloc ::
  "platform \<Rightarrow> alloc_env \<Rightarrow> dx_memory_pool_t option \<Rightarrow> dx_memory_desc_t option \<Rightarrow> nat option option \<Rightarrow>
   status \<times> dx_memory_pool_t option \<times> nat option option" where
  "dx_memory_alloc plat env pool_ptr desc_ptr out =
    (case (pool_ptr, desc_ptr, out) of
       (Some pool, Some desc, Some _) \<Rightarrow>
         if md_struct_size desc < sizeof_memory_desc \<or> md_api_version desc \<noteq> kMemoryApiVersion \<or>
            md_bytes desc = 0 then (-2, Some pool, Some None)
         else
           let alignment = alloc_alignment desc
           in if \<not> is_power_of_two alignment \<or> alignment < sizeof_pointer
              then (-3, Some pool, Some None)
           else (case ae_throw_new env of
               BadAlloc \<Rightarrow> (-6, Some (count_failure pool), Some None)
             | OtherThrow \<Rightarrow> (-7, Some pool, Some None)
             | NoThrow \<Rightarrow>
                 let a0 = \<lparr> ma_data = None, ma_bytes = md_bytes desc, ma_alignment = alignment,
                        ma_location = md_location desc, ma_resource = False,
                        ma_state = STATE_COMMON, ma_contents = [] \<rparr>;
                     (d3d12_result, a1) =
                        (if plat = Windows then allocate_d3d12_resource env pool desc a0 else (1, a0))
                 in if d3d12_result < 0 then (-4, Some (count_failure pool), Some None)
                 else if d3d12_result \<noteq> 0 \<and> \<not> ae_block env
                 then (-5, Some (count_failure pool), Some None)
                 else
                   let a2 = (if d3d12_result \<noteq> 0
                        then a1\<lparr>ma_data := Some AlignedBlock, ma_contents := fresh_bytes env (md_bytes desc)\<rparr>
                        else a1)
                   in (case ae_throw_emplace env of
                         BadAlloc \<Rightarrow> (-6, Some (count_failure pool), Some None)
                       | OtherThrow \<Rightarrow> (-7, Some pool, Some None)
                       | NoThrow \<Rightarrow>
                           (0, Some (emplace_allocation (ae_handle env) a2 (md_bytes desc) pool),
                            Some (Some (ae_handle env)))))
     | _ \<Rightarrow> (-1, pool_ptr, out))"

section \<open>Release\<close>

text \<open>
  What releasing an allocation asks of the system, in order: \<open>Unmap\<close> on the resource, then
  \<open>_aligned_free\<close> / \<open>free\<close> on the data pointer (null, or with its origin).
\<close>

datatype release_action = Unmap | FreeAligned "data_origin option"

definition release_allocation :: "platform \<Rightarrow> dx_memory_allocation_t \<Rightarrow> release_action list" where
  "release_allocation plat a =
    (if plat = Windows \<and> ma_data a \<noteq> None \<and> ma_resource a then [Unmap] else []) @ [FreeAligned (ma_data a)]"

definition dx_memory_free ::
  "platform \<Rightarrow> dx_memory_pool_t option \<Rightarrow> nat option \<Rightarrow>
   status \<times> dx_memory_pool_t option \<times> release_action list" where
  "dx_memory_free plat pool_ptr allocation =
    (case (pool_ptr, allocation) of
       (Some pool, Some h) \<Rightarrow>
         (case mp_allocations pool h of
            None \<Rightarrow> (-2, Some pool, [])
          | Some a \<Rightarrow>
              let s = mp_stats pool
              in (0, Some (pool\<lparr>mp_allocations := (mp_allocations pool)(h := None),
                        mp_stats := s\<lparr>ms_live_bytes := ms_live_bytes s - ma_bytes a\<rparr>\<rparr>),
                  release_allocation plat a))
     | _ \<Rightarrow> (-1, pool_ptr, []))"

text \<open>
  Destruction releases every allocation left in the map (the order of the hash map is not
  fixed, so the actions are given per handle) and destroys the logger.
\<close>

definition dx_memory_pool_destroy ::
  "platform \<Rightarrow> dx_memory_pool_t option \<Rightarrow> (nat \<rightharpoonup> release_action list) \<times> ComponentLogger option" where
  "dx_memory_pool_destroy plat pool_ptr =
    (case pool_ptr of
       None \<Rightarrow> (Map.empty, None)
     | Some pool \<Rightarrow>
         (map_option (release_allocation plat) \<circ> mp_allocations pool,
          dx_component_logger_destroy (mp_logger pool)))"

section \<open>Access and transfers\<close>

definition dx_memory_data :: "dx_memory_allocation_t option \<Rightarrow> data_origin option" where
  "dx_memory_data allocation = (case allocation of None \<Rightarrow> None | Some a \<Rightarrow> ma_data a)"

definition dx_memory_size :: "dx_memory_allocation_t option \<Rightarrow> u64" where
  "dx_memory_size allocation = (case allocation of None \<Rightarrow> 0 | Some a \<Rightarrow> ma_bytes a)"

text \<open>Whether the returned resource pointer is non-null.\<close>

definition dx_memory_native_resource :: "platform \<Rightarrow> dx_memory_allocation_t option \<Rightarrow> bool" where
  "dx_memory_native_resource plat allocation =
    (plat = Windows \<and> (case allocation of None \<Rightarrow> False | Some a \<Rightarrow> ma_resource a))"

record copy_env =
  ce_create_staging :: bool
  ce_map_upload :: bool
  ce_queue :: bool
  ce_allocator :: bool
  ce_list :: bool
  ce_close :: bool
  ce_fence :: bool
  ce_event :: bool
  ce_signal :: bool
  ce_completed :: bool
  ce_set_event :: bool
  ce_wait :: bool
  ce_map_readback :: bool
  ce_executed :: bool

text \<open>
  The synchronisation after \<open>ExecuteCommandLists\<close>: the status, 0 once the copy is known to be
  complete.
\<close>

definition copy_wait :: "copy_env \<Rightarrow> status" where
  "copy_wait env =
    (if \<not> ce_fence env then -9
     else if \<not> ce_event env then -10
     else
       let result1 = ce_signal env;
           result2 = (if result1 \<and> \<not> ce_completed env
                      then (if ce_set_event env then ce_wait env else False) else result1)
       in if \<not> result2 then -11 else 0)"

text \<open>
  \<open>execute_buffer_copy\<close>. The host buffer is passed in and returned with its new contents. A
  copy submitted to the GPU has run when the wait succeeds; when the wait fails it may or may
  not have run (\<open>ce_executed\<close>).
\<close>

definition execute_buffer_copy ::
  "copy_env \<Rightarrow> dx_memory_pool_t option \<Rightarrow> dx_memory_allocation_t option \<Rightarrow> u64 \<Rightarrow> u8 list option \<Rightarrow>
   u64 \<Rightarrow> bool \<Rightarrow> status \<times> dx_memory_allocation_t option \<times> u8 list option" where
  "execute_buffer_copy env pool_ptr allocation offset host bytes upload =
    (case (pool_ptr, allocation, host) of
       (Some pool, Some a, Some buf) \<Rightarrow>
         if \<not> ma_resource a \<or> bytes = 0 \<or> \<not> mp_device pool then (-1, allocation, host)
         else if offset > ma_bytes a \<or> bytes > ma_bytes a - offset \<or> bytes > UINT64_MAX
         then (-2, allocation, host)
         else if \<not> ce_create_staging env then (-3, allocation, host)
         else if upload \<and> \<not> ce_map_upload env then (-4, allocation, host)
         else if \<not> ce_queue env then (-5, allocation, host)
         else if \<not> ce_allocator env then (-6, allocation, host)
         else if \<not> ce_list env then (-7, allocation, host)
         else if \<not> ce_close env then (-8, allocation, host)
         else
           let staging = (if upload then take (unat bytes) buf
                          else read_at (unat offset) (unat bytes) (ma_contents a));
               st = copy_wait env;
               a1 = (if upload \<and> (st = 0 \<or> ce_executed env)
                     then a\<lparr>ma_contents := write_at (unat offset) staging (ma_contents a)\<rparr> else a)
           in if st \<noteq> 0 then (st, Some a1, host)
           else if \<not> upload \<and> \<not> ce_map_readback env then (-12, Some a1, host)
           else if \<not> upload then (0, Some a1, Some (write_at 0 staging buf))
           else (0, Some a1, host)
     | _ \<Rightarrow> (-1, allocation, host))"

text \<open>
  \<open>dx_memory_upload\<close>: status and updated destination. The source buffer holds at least
  \<open>bytes\<close> bytes, as \<open>memcpy\<close> needs.
\<close>

definition dx_memory_upload ::
  "platform \<Rightarrow> copy_env \<Rightarrow> dx_memory_pool_t option \<Rightarrow> dx_memory_allocation_t option \<Rightarrow> u64 \<Rightarrow>
   u8 list option \<Rightarrow> u64 \<Rightarrow> status \<times> dx_memory_allocation_t option" where
  "dx_memory_upload plat env pool destination offset source bytes =
    (case (pool, destination, source) of
       (Some p, Some a, Some src) \<Rightarrow>
         if \<not> range_valid (ma_bytes a) offset bytes then (-1, destination)
         else if ma_data a \<noteq> None then
           (0, Some (a\<lparr>ma_contents := write_at (unat offset) (take (unat bytes) src) (ma_contents a)\<rparr>))
         else if plat = Windows then
           (case execute_buffer_copy env pool destination offset source bytes True of
              (st, d, _) \<Rightarrow> (st, d))
         else (-3, destination)
     | _ \<Rightarrow> (-1, destination))"

text \<open>\<open>dx_memory_download\<close>: status and updated destination buffer, at least \<open>bytes\<close> long.\<close>

definition dx_memory_download ::
  "platform \<Rightarrow> copy_env \<Rightarrow> dx_memory_pool_t option \<Rightarrow> dx_memory_allocation_t option \<Rightarrow> u64 \<Rightarrow>
   u8 list option \<Rightarrow> u64 \<Rightarrow> status \<times> u8 list option" where
  "dx_memory_download plat env pool source offset destination bytes =
    (case (pool, source, destination) of
       (Some p, Some a, Some dst) \<Rightarrow>
         if \<not> range_valid (ma_bytes a) offset bytes then (-1, destination)
         else if ma_data a \<noteq> None then
           (0, Some (write_at 0 (read_at (unat offset) (unat bytes) (ma_contents a)) dst))
         else if plat = Windows then
           (case execute_buffer_copy env pool source offset destination bytes False of
              (st, _, d) \<Rightarrow> (st, d))
         else (-3, destination)
     | _ \<Rightarrow> (-1, destination))"

definition dx_memory_get_stats ::
  "dx_memory_pool_t option \<Rightarrow> dx_memory_stats_t option \<Rightarrow> status \<times> dx_memory_stats_t option" where
  "dx_memory_get_stats pool out_stats =
    (case (pool, out_stats) of
       (Some p, Some o') \<Rightarrow>
         if ms_struct_size o' < sizeof_memory_stats then (-1, out_stats) else (0, Some (mp_stats p))
     | _ \<Rightarrow> (-1, out_stats))"

section \<open>Powers of two\<close>

lemma and_pred_zero_imp_power:
  "(n :: nat) \<noteq> 0 \<Longrightarrow> n AND (n - 1) = 0 \<Longrightarrow> \<exists>k. n = 2 ^ k"
proof (induction n rule: less_induct)
  case (less n)
  show ?case
  proof (cases "even n")
    case True
    then obtain m where m: "n = 2 * m" by blast
    with less.prems have "m \<noteq> 0" by simp
    then have "n - 1 = 2 * (m - 1) + 1" using m by simp
    then have "(2 * m) AND (2 * (m - 1) + 1) = 0" using less.prems m by simp
    then have "m AND (m - 1) = 0"
      by (subst (asm) and_nat_rec) (simp add: nat_mult_eq_cancel_disj)
    with less.IH [of m] m \<open>m \<noteq> 0\<close> obtain k where "m = 2 ^ k" by auto
    then have "n = 2 ^ Suc k" using m by simp
    then show ?thesis by blast
  next
    case False
    then obtain m where m: "n = 2 * m + 1" by (elim oddE)
    then have "(2 * m + 1) AND (2 * m) = 0" using less.prems by simp
    then have "m AND m = 0"
      by (subst (asm) and_nat_rec) (simp add: nat_mult_eq_cancel_disj)
    then have "n = 2 ^ 0" using m by simp
    then show ?thesis by blast
  qed
qed

lemma power_and_pred_zero: "(2 ^ k :: nat) AND (2 ^ k - 1) = 0"
proof (induction k)
  case (Suc k)
  have "(1 :: nat) \<le> 2 ^ k" by simp
  then have "(2 ^ Suc k :: nat) - 1 = 2 * (2 ^ k - 1) + 1"
    unfolding power_Suc by linarith
  then show ?case
    using Suc.IH by (subst and_nat_rec) simp
qed simp

lemma is_power_of_two_unat: "is_power_of_two v \<longleftrightarrow> unat v \<noteq> 0 \<and> unat v AND (unat v - 1) = 0"
proof (cases "v = 0")
  case False
  then have "unat (v AND (v - 1)) = unat v AND (unat v - 1)"
    by (simp add: unsigned_and_eq u64_pred_unat)
  then show ?thesis
    using False by (metis is_power_of_two_def unat_eq_0 unsigned_0)
qed (simp add: is_power_of_two_def)

lemma is_power_of_two_iff: "is_power_of_two v \<longleftrightarrow> (\<exists>k < 64. unat v = 2 ^ k)"
proof
  assume "is_power_of_two v"
  then obtain k where k: "unat v = 2 ^ k"
    using and_pred_zero_imp_power by (auto simp: is_power_of_two_unat)
  moreover have "(2 :: nat) ^ k < 2 ^ 64"
    using u64_lt [of v] k by simp
  then have "k < 64" by (rule power_less_imp_less_exp [rotated]) simp
  ultimately show "\<exists>k < 64. unat v = 2 ^ k" by blast
next
  assume "\<exists>k < 64. unat v = 2 ^ k"
  then show "is_power_of_two v"
    using power_and_pred_zero by (auto simp: is_power_of_two_unat)
qed

section \<open>Invariant\<close>

definition alloc_ok :: "dx_memory_allocation_t \<Rightarrow> bool" where
  "alloc_ok a \<longleftrightarrow> ma_bytes a \<noteq> 0 \<and> length (ma_contents a) = unat (ma_bytes a) \<and>
     is_power_of_two (ma_alignment a) \<and> sizeof_pointer \<le> ma_alignment a \<and>
     ma_data a = (if ma_resource a
       then (if heap_type (ma_location a) = HEAP_DEFAULT then None else Some MappedResource)
       else Some AlignedBlock)"

definition pool_ok :: "platform \<Rightarrow> dx_memory_pool_t \<Rightarrow> bool" where
  "pool_ok plat p \<longleftrightarrow>
     finite (dom (mp_allocations p)) \<and>
     (\<forall>h a. mp_allocations p h = Some a \<longrightarrow> alloc_ok a \<and> (ma_resource a \<longrightarrow> plat = Windows \<and> mp_device p)) \<and>
     ms_live_bytes (mp_stats p) = (\<Sum>h \<in> dom (mp_allocations p). ma_bytes (the (mp_allocations p h)))"

lemma pool_ok_alloc:
  "pool_ok plat p \<Longrightarrow> mp_allocations p h = Some a \<Longrightarrow> alloc_ok a"
  by (simp add: pool_ok_def)

lemma pool_ok_count_failure [simp]: "pool_ok plat (count_failure p) = pool_ok plat p"
  by (simp add: pool_ok_def count_failure_def)

lemma count_failure_sel [simp]:
  "mp_allocations (count_failure p) = mp_allocations p"
  "mp_device (count_failure p) = mp_device p"
  "mp_logger (count_failure p) = mp_logger p"
  "ms_live_bytes (mp_stats (count_failure p)) = ms_live_bytes (mp_stats p)"
  "ms_allocation_count (mp_stats (count_failure p)) = ms_allocation_count (mp_stats p)"
  "ms_allocation_failures (mp_stats (count_failure p)) = ms_allocation_failures (mp_stats p) + 1"
  by (simp_all add: count_failure_def)

lemma length_fresh_bytes [simp]: "length (fresh_bytes env n) = unat n"
  by (simp add: fresh_bytes_def)

lemma d3d12_resource_cases:
  assumes "allocate_d3d12_resource env pool desc a = (st, a')" "\<not> ma_resource a" "ma_data a = None"
    "ma_bytes a = md_bytes desc" "ma_location a = md_location desc"
  shows "st = 1 \<and> a' = a \<or> st < 0 \<or>
    st = 0 \<and> mp_device pool \<and> ma_resource a' \<and> ma_bytes a' = ma_bytes a \<and> ma_alignment a' = ma_alignment a \<and>
      ma_location a' = ma_location a \<and> length (ma_contents a') = unat (ma_bytes a) \<and>
      ma_data a' = (if heap_type (ma_location a) = HEAP_DEFAULT then None else Some MappedResource)"
  using assms by (auto simp: allocate_d3d12_resource_def Let_def split: if_splits)

lemma sum_dom_upd:
  assumes "finite (dom m)" "h \<notin> dom m"
  shows "(\<Sum>k \<in> dom (m(h \<mapsto> a)). f (the ((m(h \<mapsto> a)) k))) = f a + (\<Sum>k \<in> dom m. f (the (m k)))"
proof -
  have "(\<Sum>k \<in> dom m. f (the ((m(h \<mapsto> a)) k))) = (\<Sum>k \<in> dom m. f (the (m k)))"
    using assms(2) by (intro sum.cong) auto
  then show ?thesis using assms by simp
qed

lemma sum_dom_del:
  fixes f :: "'a \<Rightarrow> 'b :: ab_group_add"
  assumes "finite (dom m)" "m h = Some a"
  shows "(\<Sum>k \<in> dom (m(h := None)). f (the ((m(h := None)) k))) = (\<Sum>k \<in> dom m. f (the (m k))) - f a"
proof -
  have "h \<in> dom m" using assms(2) by blast
  have "(\<Sum>k \<in> dom m - {h}. f (the ((m(h := None)) k))) = (\<Sum>k \<in> dom m - {h}. f (the (m k)))"
    by (intro sum.cong) auto
  also have "\<dots> = (\<Sum>k \<in> dom m. f (the (m k))) - f a"
    using assms \<open>h \<in> dom m\<close> by (simp add: sum_diff1)
  finally show ?thesis by simp
qed

lemma pool_ok_emplace:
  assumes "pool_ok plat p" "h \<notin> dom (mp_allocations p)" "alloc_ok a"
    "ma_resource a \<Longrightarrow> plat = Windows \<and> mp_device p" "bytes = ma_bytes a"
  shows "pool_ok plat (emplace_allocation h a bytes p)"
  using assms sum_dom_upd [of "mp_allocations p" h ma_bytes a]
  by (auto simp: pool_ok_def emplace_allocation_def Let_def)

text \<open>The three ways an allocation request ends.\<close>

lemma alloc_cases:
  assumes "dx_memory_alloc plat env (Some p) (Some desc) (Some old) = (st, Some q, out)"
  obtains (rejected) "st < 0" "q = p \<or> q = count_failure p" "out = Some None"
  | (created) a where "st = 0" "q = emplace_allocation (ae_handle env) a (md_bytes desc) p"
      "out = Some (Some (ae_handle env))" "alloc_ok a" "ma_bytes a = md_bytes desc"
      "ma_alignment a = alloc_alignment desc" "ma_location a = md_location desc"
      "ma_resource a \<longrightarrow> plat = Windows \<and> mp_device p"
proof -
  let ?a0 = "\<lparr> ma_data = None, ma_bytes = md_bytes desc, ma_alignment = alloc_alignment desc,
      ma_location = md_location desc, ma_resource = False, ma_state = STATE_COMMON, ma_contents = [] \<rparr>"
  obtain r a1 where r: "(if plat = Windows then allocate_d3d12_resource env p desc ?a0 else (1, ?a0)) = (r, a1)"
    by force
  then have cases: "r = 1 \<and> a1 = ?a0 \<or> r < 0 \<or>
    r = 0 \<and> plat = Windows \<and> mp_device p \<and> ma_resource a1 \<and> ma_bytes a1 = md_bytes desc \<and>
      ma_alignment a1 = alloc_alignment desc \<and> ma_location a1 = md_location desc \<and>
      length (ma_contents a1) = unat (md_bytes desc) \<and>
      ma_data a1 = (if heap_type (md_location desc) = HEAP_DEFAULT then None else Some MappedResource)"
    using d3d12_resource_cases [of env p desc ?a0 r a1] by (auto split: if_splits)
  show thesis
  proof (cases "st < 0")
    case True
    then show thesis
      using assms r by (intro rejected) (auto simp: dx_memory_alloc_def Let_def split: if_splits thrown.splits)
  next
    case False
    let ?a2 = "if r \<noteq> 0 then a1\<lparr>ma_data := Some AlignedBlock, ma_contents := fresh_bytes env (md_bytes desc)\<rparr> else a1"
    have facts: "st = 0" "q = emplace_allocation (ae_handle env) ?a2 (md_bytes desc) p"
      "out = Some (Some (ae_handle env))" "md_bytes desc \<noteq> 0" "\<not> r < 0"
      "is_power_of_two (alloc_alignment desc)" "sizeof_pointer \<le> alloc_alignment desc"
      using assms r False
      by (auto simp: dx_memory_alloc_def Let_def not_less split: if_splits thrown.splits)
    have "alloc_ok ?a2" using facts cases by (auto simp: alloc_ok_def)
    then show thesis using facts cases by (intro created [of ?a2]) auto
  qed
qed

section \<open>Transfers\<close>

lemma buffer_copy_alloc:
  "execute_buffer_copy env p (Some a) off host n up = (st, d, host') \<Longrightarrow>
    \<exists>a'. d = Some a' \<and> (a' = a \<or>
      up \<and> offset_ok \<and> (\<exists>src. host = Some src \<and>
        a' = a\<lparr>ma_contents := write_at (unat off) (take (unat n) src) (ma_contents a)\<rparr>))"
  if "offset_ok = range_valid (ma_bytes a) off n"
  using that
  by (auto simp: execute_buffer_copy_def range_valid_def Let_def not_less
      split: option.splits if_splits)

lemma upload_cases:
  assumes "dx_memory_upload plat env (Some p) (Some a) off (Some src) n = (st, d)"
  shows "\<exists>a'. d = Some a' \<and> (a' = a \<or>
      range_valid (ma_bytes a) off n \<and>
      a' = a\<lparr>ma_contents := write_at (unat off) (take (unat n) src) (ma_contents a)\<rparr>)"
  using assms buffer_copy_alloc [OF refl, of env "Some p" a off "Some src" n True]
  by (fastforce simp: dx_memory_upload_def split: if_splits prod.splits)

lemma alloc_ok_write:
  assumes "alloc_ok a" "range_valid (ma_bytes a) off n" "unat n \<le> length src"
  shows "alloc_ok (a\<lparr>ma_contents := write_at (unat off) (take (unat n) src) (ma_contents a)\<rparr>)"
  using assms by (simp add: alloc_ok_def range_valid_iff length_write_at)

section \<open>Steps of a pool\<close>

inductive pool_step :: "platform \<Rightarrow> dx_memory_pool_t \<Rightarrow> dx_memory_pool_t \<Rightarrow> bool" for plat where
  step_alloc: "\<lbrakk>ae_handle env \<notin> dom (mp_allocations p);
      dx_memory_alloc plat env (Some p) (Some desc) (Some old) = (st, Some q, out)\<rbrakk> \<Longrightarrow> pool_step plat p q"
| step_free: "dx_memory_free plat (Some p) (Some h) = (st, Some q, acts) \<Longrightarrow> pool_step plat p q"
| step_upload: "\<lbrakk>mp_allocations p h = Some a; unat n \<le> length src;
      dx_memory_upload plat env (Some p) (Some a) off (Some src) n = (st, Some a');
      q = p\<lparr>mp_allocations := (mp_allocations p)(h \<mapsto> a')\<rparr>\<rbrakk> \<Longrightarrow> pool_step plat p q"

inductive_cases pool_step_cases: "pool_step plat p q"

lemma free_cases:
  "dx_memory_free plat (Some p) (Some h) = (st, Some q, acts) \<longleftrightarrow>
    (case mp_allocations p h of
       None \<Rightarrow> st = -2 \<and> q = p \<and> acts = []
     | Some a \<Rightarrow> st = 0 \<and> acts = release_allocation plat a \<and>
         q = p\<lparr>mp_allocations := (mp_allocations p)(h := None),
           mp_stats := (mp_stats p)\<lparr>ms_live_bytes := ms_live_bytes (mp_stats p) - ma_bytes a\<rparr>\<rparr>)"
  by (auto simp: dx_memory_free_def Let_def split: option.splits)

lemma pool_ok_update:
  assumes "pool_ok plat p" "mp_allocations p h = Some a" "alloc_ok a'"
    "ma_resource a' = ma_resource a" "ma_bytes a' = ma_bytes a"
  shows "pool_ok plat (p\<lparr>mp_allocations := (mp_allocations p)(h \<mapsto> a')\<rparr>)"
proof -
  have "(\<Sum>k \<in> dom (mp_allocations p). ma_bytes (the (mp_allocations p k))) =
      (\<Sum>k \<in> insert h (dom (mp_allocations p)). ma_bytes (the (((mp_allocations p)(h \<mapsto> a')) k)))"
    using assms(2,5) by (intro sum.cong) auto
  then show ?thesis using assms by (auto simp: pool_ok_def)
qed

lemma pool_step_ok:
  assumes "pool_step plat p q" "pool_ok plat p"
  shows "pool_ok plat q"
  using assms(1)
proof cases
  case (step_alloc env desc old st out)
  from step_alloc(2) show ?thesis
    by (cases rule: alloc_cases) (use assms step_alloc(1) in \<open>auto intro: pool_ok_emplace\<close>)
next
  case (step_free h st acts)
  then show ?thesis
    using assms(2) sum_dom_del [of "mp_allocations p" h _ ma_bytes]
    by (auto simp: free_cases pool_ok_def split: option.splits)
next
  case (step_upload h a n src env off st a')
  then have "a' = a \<or> range_valid (ma_bytes a) off n \<and>
      a' = a\<lparr>ma_contents := write_at (unat off) (take (unat n) src) (ma_contents a)\<rparr>"
    using upload_cases by blast
  moreover have "alloc_ok a" using assms(2) step_upload(1) by (rule pool_ok_alloc)
  ultimately have "alloc_ok a'" "ma_resource a' = ma_resource a" "ma_bytes a' = ma_bytes a"
    using alloc_ok_write step_upload(2) by auto
  then show ?thesis unfolding step_upload(4) by (rule pool_ok_update [OF assms(2) step_upload(1)])
qed

lemma pool_created_ok:
  "create_pool_internal plat lenv thr thl dev out = (0, Some (Some p)) \<Longrightarrow> pool_ok plat p"
  by (auto simp: create_pool_internal_def pool_ok_def split: thrown.splits prod.splits if_splits)

lemma pool_created_empty:
  "create_pool_internal plat lenv thr thl dev out = (0, Some (Some p)) \<Longrightarrow> mp_allocations p = Map.empty"
  by (auto simp: create_pool_internal_def split: thrown.splits prod.splits if_splits)

text \<open>
  C1. Accounting: however allocations, releases and uploads are interleaved, successful or
  failed, the live-byte counter of a pool equals the sum of the sizes of the allocations it
  holds, and every allocation it holds owns exactly the bytes asked for, with a power-of-two
  alignment of at least the pointer size and a data pointer unless it is a device-local
  resource of a pool with a device.
\<close>

theorem pool_invariant:
  assumes "create_pool_internal plat lenv thr thl dev out = (0, Some (Some p0))"
    and "(pool_step plat)\<^sup>*\<^sup>* p0 p"
  shows "pool_ok plat p"
  using assms(2)
  by (induction rule: rtranclp_induct) (auto intro: pool_step_ok pool_created_ok [OF assms(1)])

definition example_desc :: "u64 \<Rightarrow> u64 \<Rightarrow> u32 \<Rightarrow> dx_memory_desc_t" where
  "example_desc bytes alignment location =
    \<lparr> md_struct_size = 32, md_api_version = 1, md_bytes = bytes, md_alignment = alignment,
      md_location = location, md_flags = 0 \<rparr>"

definition example_alloc_env :: "nat \<Rightarrow> alloc_env" where
  "example_alloc_env h = \<lparr> ae_handle = h, ae_throw_new = NoThrow, ae_create_resource = True,
     ae_map = True, ae_block = True, ae_throw_emplace = NoThrow, ae_fresh = (\<lambda>_. 0) \<rparr>"

definition example_pool :: "bool \<Rightarrow> dx_memory_pool_t" where
  "example_pool device = \<lparr> mp_logger = Some (Some (new_ComponentLogger ''dxmemory'')),
     mp_allocations = Map.empty,
     mp_stats = \<lparr> ms_struct_size = 40, ms_api_version = 1, ms_allocation_count = 0,
       ms_live_bytes = 0, ms_peak_bytes = 0, ms_allocation_failures = 0 \<rparr>,
     mp_device = device \<rparr>"

definition created_pool :: "platform \<Rightarrow> dx_memory_pool_t" where
  "created_pool plat =
     the (the (snd (create_pool_internal plat example_log_env NoThrow NoThrow False (Some None))))"

lemma created_pool:
  "create_pool_internal plat example_log_env NoThrow NoThrow False (Some None) =
    (0, Some (Some (created_pool plat)))"
  by (simp add: created_pool_def create_pool_internal_def dx_component_logger_create_def)

lemma created_pool_alloc:
  "\<exists>q. dx_memory_alloc Portable (example_alloc_env 7) (Some (created_pool Portable))
      (Some (example_desc 4 16 0)) (Some None) = (0, Some q, Some (Some 7)) \<and>
    ms_live_bytes (mp_stats q) = 4"
  by (simp add: dx_memory_alloc_def example_desc_def example_alloc_env_def alloc_alignment_def
      is_power_of_two_def emplace_allocation_def Let_def created_pool_def create_pool_internal_def
      dx_component_logger_create_def)

theorem pool_invariant_witness:
  "\<exists>q. ms_live_bytes (mp_stats q) = 4 \<and> pool_ok Portable q"
proof -
  obtain q where q: "dx_memory_alloc Portable (example_alloc_env 7) (Some (created_pool Portable))
      (Some (example_desc 4 16 0)) (Some None) = (0, Some q, Some (Some 7))"
    "ms_live_bytes (mp_stats q) = 4"
    using created_pool_alloc by blast
  have "pool_step Portable (created_pool Portable) q"
    by (rule step_alloc [OF _ q(1)]) (simp add: pool_created_empty [OF created_pool])
  then have "pool_ok Portable q" by (intro pool_invariant [OF created_pool] r_into_rtranclp)
  with q(2) show ?thesis by blast
qed

section \<open>Requests and releases\<close>

definition desc_valid :: "dx_memory_desc_t \<Rightarrow> bool" where
  "desc_valid desc \<longleftrightarrow> 32 \<le> unat (md_struct_size desc) \<and> md_api_version desc = 1 \<and> 0 < unat (md_bytes desc)"

definition alignment_valid :: "dx_memory_desc_t \<Rightarrow> bool" where
  "alignment_valid desc \<longleftrightarrow>
    md_alignment desc = 0 \<or> (\<exists>k. 3 \<le> k \<and> k < 64 \<and> unat (md_alignment desc) = 2 ^ k)"

lemma desc_valid_iff:
  "desc_valid desc \<longleftrightarrow>
    \<not> (md_struct_size desc < sizeof_memory_desc \<or> md_api_version desc \<noteq> kMemoryApiVersion \<or> md_bytes desc = 0)"
  by (auto simp: desc_valid_def word_less_nat_alt unat_gt_0)

lemma alignment_valid_iff:
  "alignment_valid desc \<longleftrightarrow>
    is_power_of_two (alloc_alignment desc) \<and> \<not> alloc_alignment desc < sizeof_pointer"
proof (cases "md_alignment desc = 0")
  case True
  then show ?thesis
    by (simp add: alignment_valid_def alloc_alignment_def is_power_of_two_def)
next
  case False
  have "(8 :: nat) \<le> 2 ^ k \<longleftrightarrow> 3 \<le> k" for k
    using power_increasing_iff [of "2 :: nat" 3 k] by simp
  with False show ?thesis
    by (auto simp: alignment_valid_def alloc_alignment_def is_power_of_two_iff word_less_nat_alt not_less)
qed

text \<open>
  A request is refused for its arguments exactly when the descriptor is malformed (-2) or
  its alignment is neither 0 nor a power of two of at least 8 (-3). Every refused request
  leaves the out-parameter null and the allocations and byte counters as they were; only the
  failures of the system (-4, -5, -6) are counted.
\<close>

theorem memory_alloc_refusals:
  assumes "dx_memory_alloc plat env (Some p) (Some desc) (Some old) = (st, Some q, out)"
  shows "(st = -2 \<longleftrightarrow> \<not> desc_valid desc) \<and>
    (st = -3 \<longleftrightarrow> desc_valid desc \<and> \<not> alignment_valid desc) \<and>
    (st = 0 \<longleftrightarrow> out = Some (Some (ae_handle env))) \<and>
    (st \<noteq> 0 \<longrightarrow> out = Some None \<and> q = (if st \<in> {-4, -5, -6} then count_failure p else p) \<and>
      mp_allocations q = mp_allocations p \<and> ms_live_bytes (mp_stats q) = ms_live_bytes (mp_stats p))"
  using assms unfolding desc_valid_iff alignment_valid_iff
  by (auto simp: dx_memory_alloc_def Let_def split: if_splits thrown.splits prod.splits)

theorem memory_alloc_refusals_witness:
  "\<exists>q. dx_memory_alloc Portable (example_alloc_env 7) (Some (example_pool False))
      (Some (example_desc 4 24 0)) (Some (Some 1)) = (-3, Some q, Some None) \<and>
    \<not> alignment_valid (example_desc 4 24 0) \<and> mp_allocations q = Map.empty"
proof -
  have r: "dx_memory_alloc Portable (example_alloc_env 7) (Some (example_pool False))
      (Some (example_desc 4 24 0)) (Some (Some 1)) = (-3, Some (example_pool False), Some None)"
    by (simp add: dx_memory_alloc_def example_desc_def alloc_alignment_def is_power_of_two_def)
  from memory_alloc_refusals [OF r] r show ?thesis by (simp add: example_pool_def)
qed

text \<open>
  A successful allocation can be released exactly once: the release succeeds and gives
  back a pool with the allocations and the live-byte count from before the request, and a
  second release of the same handle is refused with -2, changes nothing and frees nothing.
\<close>

theorem memory_free_once:
  assumes "dx_memory_alloc plat env (Some p) (Some desc) (Some old) = (0, Some q, Some (Some h))"
    and "h \<notin> dom (mp_allocations p)"
  shows "\<exists>r a. dx_memory_free plat (Some q) (Some h) = (0, Some r, release_allocation plat a) \<and>
    mp_allocations q h = Some a \<and> ma_bytes a = md_bytes desc \<and>
    mp_allocations r = mp_allocations p \<and>
    ms_live_bytes (mp_stats r) = ms_live_bytes (mp_stats p) \<and>
    dx_memory_free plat (Some r) (Some h) = (-2, Some r, [])"
proof -
  from assms(1) obtain a where a: "q = emplace_allocation h a (md_bytes desc) p"
      "alloc_ok a" "ma_bytes a = md_bytes desc"
    by (cases rule: alloc_cases) auto
  then have q: "mp_allocations q h = Some a"
    by (simp add: emplace_allocation_def Let_def)
  let ?r = "q\<lparr>mp_allocations := (mp_allocations q)(h := None),
      mp_stats := (mp_stats q)\<lparr>ms_live_bytes := ms_live_bytes (mp_stats q) - ma_bytes a\<rparr>\<rparr>"
  have "dx_memory_free plat (Some q) (Some h) = (0, Some ?r, release_allocation plat a)"
    using q by (simp add: dx_memory_free_def Let_def)
  moreover have "mp_allocations ?r = mp_allocations p"
    using assms(2) by (simp add: a(1) emplace_allocation_def Let_def domIff fun_upd_idem)
  moreover have "ms_live_bytes (mp_stats ?r) = ms_live_bytes (mp_stats p)"
    by (simp add: a emplace_allocation_def Let_def)
  moreover have "dx_memory_free plat (Some ?r) (Some h) = (-2, Some ?r, [])"
    by (simp add: dx_memory_free_def)
  ultimately show ?thesis using q a(3) by blast
qed

theorem memory_free_once_witness:
  "\<exists>q r a. dx_memory_free Portable (Some q) (Some 7) = (0, Some r, release_allocation Portable a) \<and>
     ms_live_bytes (mp_stats q) = 4 \<and> mp_allocations r = Map.empty \<and>
     dx_memory_free Portable (Some r) (Some 7) = (-2, Some r, [])"
proof -
  obtain q where q: "dx_memory_alloc Portable (example_alloc_env 7) (Some (created_pool Portable))
      (Some (example_desc 4 16 0)) (Some None) = (0, Some q, Some (Some 7))"
    "ms_live_bytes (mp_stats q) = 4"
    using created_pool_alloc by blast
  have e: "mp_allocations (created_pool Portable) = Map.empty"
    by (rule pool_created_empty [OF created_pool])
  with memory_free_once [OF q(1)] q(2) show ?thesis by (simp add: e) metis
qed

text \<open>
  What release does to a CPU-visible resource on Windows: after \<open>Unmap\<close> the pointer that
  \<open>Map\<close> returned goes to the aligned-block deallocator.
\<close>

lemma release_of_mapped_resource:
  assumes "alloc_ok a" "ma_resource a" "heap_type (ma_location a) \<noteq> HEAP_DEFAULT"
  shows "release_allocation Windows a = [Unmap, FreeAligned (Some MappedResource)]"
  using assms by (simp add: release_allocation_def alloc_ok_def)

section \<open>Transfers as a byte store\<close>

text \<open>
  What the clients of an allocation rely on: a store of a fixed size from which one reads what
  was last written to a range.
\<close>

locale byte_store =
  fixes ok :: "'m \<Rightarrow> bool"
    and size_of :: "'m \<Rightarrow> nat"
    and store :: "'m \<Rightarrow> nat \<Rightarrow> u8 list \<Rightarrow> 'm"
    and load :: "'m \<Rightarrow> nat \<Rightarrow> nat \<Rightarrow> u8 list"
  assumes store_ok: "ok m \<Longrightarrow> off + length bs \<le> size_of m \<Longrightarrow> ok (store m off bs)"
    and store_size: "ok m \<Longrightarrow> off + length bs \<le> size_of m \<Longrightarrow> size_of (store m off bs) = size_of m"
    and load_same: "ok m \<Longrightarrow> off + length bs \<le> size_of m \<Longrightarrow> load (store m off bs) off (length bs) = bs"
    and load_other: "ok m \<Longrightarrow> off + length bs \<le> size_of m \<Longrightarrow> j + n \<le> size_of m \<Longrightarrow>
      j + n \<le> off \<or> off + length bs \<le> j \<Longrightarrow> load (store m off bs) j n = load m j n"
begin

definition store_all :: "(nat \<times> u8 list) list \<Rightarrow> 'm \<Rightarrow> 'm" where
  "store_all ws m = fold (\<lambda>(off, bs) m. store m off bs) ws m"

definition apart :: "nat \<times> u8 list \<Rightarrow> nat \<times> u8 list \<Rightarrow> bool" where
  "apart v w \<longleftrightarrow> fst v + length (snd v) \<le> fst w \<or> fst w + length (snd w) \<le> fst v"

lemma store_all_other:
  assumes "ok m" "\<forall>w \<in> set ws. fst w + length (snd w) \<le> size_of m"
  shows "ok (store_all ws m) \<and> size_of (store_all ws m) = size_of m \<and>
    (j + n \<le> size_of m \<longrightarrow>
      (\<forall>w \<in> set ws. j + n \<le> fst w \<or> fst w + length (snd w) \<le> j) \<longrightarrow>
      load (store_all ws m) j n = load m j n)"
  using assms
proof (induction ws arbitrary: m)
  case Nil
  then show ?case by (simp add: store_all_def)
next
  case (Cons w ws)
  obtain off bs where w: "w = (off, bs)" by force
  have "off + length bs \<le> size_of m" using Cons.prems w by simp
  then show ?case
    using Cons.IH [of "store m off bs"] Cons.prems
      store_ok [of m off bs] store_size [of m off bs] load_other [of m off bs j n]
    by (simp add: store_all_def w)
qed

text \<open>Writes to disjoint ranges are all readable afterwards, whatever their order.\<close>

lemma store_all_load:
  assumes "ok m" "\<forall>w \<in> set ws. fst w + length (snd w) \<le> size_of m"
    and "sorted_wrt apart ws" "(off, bs) \<in> set ws"
  shows "load (store_all ws m) off (length bs) = bs"
  using assms
proof (induction ws arbitrary: m)
  case Nil
  then show ?case by simp
next
  case (Cons w ws)
  obtain off' bs' where w: "w = (off', bs')" by force
  have fits: "off' + length bs' \<le> size_of m" using Cons.prems w by simp
  note next' = store_ok [OF Cons.prems(1) fits] store_size [OF Cons.prems(1) fits]
  have rest: "\<forall>w \<in> set ws. fst w + length (snd w) \<le> size_of (store m off' bs')"
    using Cons.prems(2) next'(2) by simp
  show ?case
  proof (cases "(off, bs) \<in> set ws")
    case True
    then show ?thesis
      using Cons.IH [OF next'(1) rest] Cons.prems(3) by (simp add: store_all_def w)
  next
    case False
    then have "(off, bs) = (off', bs')" using Cons.prems(4) w by simp
    moreover have "load (store_all ws (store m off' bs')) off' (length bs') =
        load (store m off' bs') off' (length bs')"
      using store_all_other [OF next'(1) rest, of off' "length bs'"] Cons.prems(3) fits next'(2)
      by (auto simp: w apart_def)
    ultimately show ?thesis
      using load_same [OF Cons.prems(1) fits] by (simp add: store_all_def w)
  qed
qed

end

definition copies_succeed :: "copy_env \<Rightarrow> bool" where
  "copies_succeed env \<longleftrightarrow> ce_create_staging env \<and> ce_map_upload env \<and> ce_queue env \<and>
     ce_allocator env \<and> ce_list env \<and> ce_close env \<and> ce_map_readback env \<and> copy_wait env = 0"

text \<open>An allocation whose transfers can work: host-visible, or a resource with a working device.\<close>

definition transferable :: "platform \<Rightarrow> copy_env \<Rightarrow> dx_memory_pool_t \<Rightarrow> dx_memory_allocation_t \<Rightarrow> bool" where
  "transferable plat env p a \<longleftrightarrow> alloc_ok a \<and>
     (ma_data a = None \<longrightarrow> plat = Windows \<and> mp_device p \<and> copies_succeed env)"

definition upload_bytes ::
  "platform \<Rightarrow> copy_env \<Rightarrow> dx_memory_pool_t \<Rightarrow> dx_memory_allocation_t \<Rightarrow> nat \<Rightarrow> u8 list \<Rightarrow> dx_memory_allocation_t" where
  "upload_bytes plat env p a off bs =
     the (snd (dx_memory_upload plat env (Some p) (Some a) (of_nat off) (Some bs) (of_nat (length bs))))"

definition download_bytes ::
  "platform \<Rightarrow> copy_env \<Rightarrow> dx_memory_pool_t \<Rightarrow> dx_memory_allocation_t \<Rightarrow> nat \<Rightarrow> nat \<Rightarrow> u8 list" where
  "download_bytes plat env p a off n =
     the (snd (dx_memory_download plat env (Some p) (Some a) (of_nat off) (Some (replicate n 0)) (of_nat n)))"

lemma upload_value:
  assumes "transferable plat env p a" "range_valid (ma_bytes a) off n" "unat n = length bs"
  shows "dx_memory_upload plat env (Some p) (Some a) off (Some bs) n =
    (if n = 0 \<and> ma_data a = None then -1 else 0,
     Some (a\<lparr>ma_contents := write_at (unat off) bs (ma_contents a)\<rparr>))"
proof (cases "n = 0")
  case True
  then have "bs = []" using assms(3) by simp
  with True assms show ?thesis
    by (auto simp: dx_memory_upload_def transferable_def execute_buffer_copy_def write_at_def
        split: option.splits)
next
  case False
  have "take (unat n) bs = bs" using assms(3) by simp
  moreover have "offset \<le> ma_bytes a \<and> n \<le> ma_bytes a - offset" if "offset = off" for offset
    using assms(2) that by (simp add: range_valid_def)
  ultimately show ?thesis
    using False assms
    by (auto simp: dx_memory_upload_def transferable_def alloc_ok_def execute_buffer_copy_def
        copies_succeed_def Let_def u64_le_max not_less split: if_splits)
qed

lemma download_value:
  assumes "transferable plat env p a" "range_valid (ma_bytes a) off n" "unat n \<le> length dst"
  shows "dx_memory_download plat env (Some p) (Some a) off (Some dst) n =
    (if n = 0 \<and> ma_data a = None then -1 else 0,
     Some (write_at 0 (read_at (unat off) (unat n) (ma_contents a)) dst))"
proof (cases "n = 0")
  case True
  with assms show ?thesis
    by (auto simp: dx_memory_download_def transferable_def execute_buffer_copy_def write_at_def
        read_at_def split: option.splits)
next
  case False
  moreover have "offset \<le> ma_bytes a \<and> n \<le> ma_bytes a - offset" if "offset = off" for offset
    using assms(2) that by (simp add: range_valid_def)
  ultimately show ?thesis
    using assms
    by (auto simp: dx_memory_download_def transferable_def alloc_ok_def execute_buffer_copy_def
        copies_succeed_def Let_def u64_le_max not_less split: if_splits)
qed

lemma unat_in_alloc:
  assumes "off + n \<le> unat (b :: u64)"
  shows "unat (of_nat off :: u64) = off" "unat (of_nat n :: u64) = n" "range_valid b (of_nat off) (of_nat n)"
proof -
  have "off < 18446744073709551616" "n < 18446744073709551616"
    using assms u64_lt [of b] by linarith+
  then show "unat (of_nat off :: u64) = off" "unat (of_nat n :: u64) = n"
    by (simp_all add: unat_of_nat_u64)
  then show "range_valid b (of_nat off) (of_nat n)" using assms by (simp add: range_valid_iff)
qed

lemma upload_bytes_value:
  assumes "transferable plat env p a" "off + length bs \<le> unat (ma_bytes a)"
  shows "upload_bytes plat env p a off bs = a\<lparr>ma_contents := write_at off bs (ma_contents a)\<rparr>"
  using upload_value [OF assms(1) unat_in_alloc(3) [OF assms(2)]] unat_in_alloc(1,2) [OF assms(2)]
  by (simp add: upload_bytes_def)

lemma download_bytes_value:
  assumes "transferable plat env p a" "off + n \<le> unat (ma_bytes a)"
  shows "download_bytes plat env p a off n = read_at off n (ma_contents a)"
proof -
  have "length (read_at off n (ma_contents a)) = n"
    using assms by (simp add: length_read_at transferable_def alloc_ok_def)
  then show ?thesis
    using download_value [OF assms(1) unat_in_alloc(3) [OF assms(2)], of "replicate n 0"]
      unat_in_alloc(1,2) [OF assms(2)]
    by (simp add: download_bytes_def write_at_def)
qed

lemma transferable_write:
  assumes "transferable plat env p a" "off + length bs \<le> unat (ma_bytes a)"
  shows "transferable plat env p (a\<lparr>ma_contents := write_at off bs (ma_contents a)\<rparr>)"
  using assms by (simp add: transferable_def alloc_ok_def length_write_at)

interpretation mem: byte_store "transferable plat env p" "\<lambda>a. unat (ma_bytes a)"
  "upload_bytes plat env p" "download_bytes plat env p"
  for plat env p
proof unfold_locales
  fix a off and bs :: "u8 list"
  assume a: "transferable plat env p a" "off + length bs \<le> unat (ma_bytes a)"
  note w = transferable_write [OF a] and u = upload_bytes_value [OF a]
  have len: "length (ma_contents a) = unat (ma_bytes a)"
    using a(1) by (simp add: transferable_def alloc_ok_def)
  show "transferable plat env p (upload_bytes plat env p a off bs)" using w u by simp
  show "unat (ma_bytes (upload_bytes plat env p a off bs)) = unat (ma_bytes a)" using u by simp
  show "download_bytes plat env p (upload_bytes plat env p a off bs) off (length bs) = bs"
    using download_bytes_value [OF w, of off "length bs"] a(2) len
    by (simp add: u read_write_same)
  fix j n
  assume "j + n \<le> unat (ma_bytes a)" "j + n \<le> off \<or> off + length bs \<le> j"
  then show "download_bytes plat env p (upload_bytes plat env p a off bs) j n =
      download_bytes plat env p a j n"
    using download_bytes_value [OF w, of j n] download_bytes_value [OF a(1), of j n] a(2) len
      read_write_other [of off bs "ma_contents a" j n]
    by (simp add: u)
qed

text \<open>
  C17. Data survive a round trip through any allocation that can be transferred to, mapped
  memory and device-local resources alike: after uploading any list of blocks to disjoint
  ranges, in order, each block downloads unchanged, and so does every range no block touched.
\<close>

theorem memory_upload_download:
  assumes "transferable plat env p a"
    and "\<forall>(off, bs) \<in> set ws. off + length bs \<le> unat (ma_bytes a)"
    and "sorted_wrt (\<lambda>(o1, b1) (o2, b2). o1 + length b1 \<le> o2 \<or> o2 + length b2 \<le> o1) ws"
    and "b = fold (\<lambda>(off, bs) a. upload_bytes plat env p a off bs) ws a"
  shows "(\<forall>(off, bs) \<in> set ws. download_bytes plat env p b off (length bs) = bs) \<and>
    (\<forall>j n. j + n \<le> unat (ma_bytes a) \<longrightarrow>
      (\<forall>(off, bs) \<in> set ws. j + n \<le> off \<or> off + length bs \<le> j) \<longrightarrow>
      download_bytes plat env p b j n = download_bytes plat env p a j n)"
proof -
  have "mem.apart = (\<lambda>(o1, b1) (o2, b2). o1 + length b1 \<le> o2 \<or> o2 + length b2 \<le> o1)"
    by (auto simp: mem.apart_def fun_eq_iff)
  then have ap: "sorted_wrt mem.apart ws" using assms(3) by simp
  have fits: "\<forall>w \<in> set ws. fst w + length (snd w) \<le> unat (ma_bytes a)"
    using assms(2) by (auto simp: split_beta)
  have b: "b = mem.store_all plat env p ws a" by (simp add: assms(4) mem.store_all_def)
  show ?thesis
    using mem.store_all_load [OF assms(1) fits ap] mem.store_all_other [OF assms(1) fits]
    by (auto simp: b split_beta)
qed

definition example_copy_env :: copy_env where
  "example_copy_env = \<lparr> ce_create_staging = True, ce_map_upload = True, ce_queue = True,
     ce_allocator = True, ce_list = True, ce_close = True, ce_fence = True, ce_event = True,
     ce_signal = True, ce_completed = False, ce_set_event = True, ce_wait = True,
     ce_map_readback = True, ce_executed = True \<rparr>"

definition example_device_allocation :: dx_memory_allocation_t where
  "example_device_allocation = \<lparr> ma_data = None, ma_bytes = 4, ma_alignment = 256, ma_location = 3,
     ma_resource = True, ma_state = STATE_COMMON, ma_contents = [0, 0, 0, 0] \<rparr>"

theorem memory_upload_download_witness:
  "\<exists>b. b = fold (\<lambda>(off, bs) a. upload_bytes Windows example_copy_env (example_pool True) a off bs)
        [(0, [7]), (2, [8, 9])] example_device_allocation \<and>
    download_bytes Windows example_copy_env (example_pool True) b 2 (length [8 :: u8, 9]) = [8, 9]"
proof -
  have "transferable Windows example_copy_env (example_pool True) example_device_allocation"
    by (simp add: transferable_def alloc_ok_def example_device_allocation_def example_pool_def
        copies_succeed_def copy_wait_def example_copy_env_def is_power_of_two_def heap_type_def)
  from memory_upload_download [OF this, of "[(0, [7]), (2, [8, 9])]", OF _ _ refl] show ?thesis
    by (simp add: example_device_allocation_def)
qed

lemma copy_wait_status: "copy_wait env \<noteq> 0 \<Longrightarrow> copy_wait env \<le> -9"
  by (simp add: copy_wait_def Let_def split: if_splits)

lemma buffer_copy_failure:
  "execute_buffer_copy env pool a off host n up = (st, d, host') \<Longrightarrow>
    (-8 \<le> st \<longrightarrow> st < 0 \<longrightarrow> d = a) \<and> (st < 0 \<longrightarrow> host' = host)"
  using copy_wait_status [of env]
  by (cases pool; cases a; cases host)
    (simp_all add: execute_buffer_copy_def Let_def split: if_splits)

text \<open>
  A transfer that fails before its commands are submitted has no effect, whatever the
  arguments: with a status from -8 to -1, an upload leaves the destination as it was and a
  download leaves the caller's buffer as it was.
\<close>

theorem memory_transfer_failure_atomic:
  "(\<forall>st d. dx_memory_upload plat env pool a off src n = (st, d) \<longrightarrow> st \<in> {-8..-1} \<longrightarrow> d = a) \<and>
   (\<forall>st d. dx_memory_download plat env pool a off dst n = (st, d) \<longrightarrow> st < 0 \<longrightarrow> d = dst)"
proof (intro conjI allI impI)
  fix st d
  assume "dx_memory_upload plat env pool a off src n = (st, d)" "st \<in> {-8..-1}"
  then show "d = a"
    using buffer_copy_failure
    by (fastforce simp: dx_memory_upload_def split: option.splits if_splits prod.splits)
next
  fix st d
  assume "dx_memory_download plat env pool a off dst n = (st, d)" "st < 0"
  then show "d = dst"
    using buffer_copy_failure
    by (fastforce simp: dx_memory_download_def split: option.splits if_splits prod.splits)
qed

theorem memory_transfer_failure_atomic_witness:
  "snd (dx_memory_upload Windows (example_copy_env\<lparr>ce_list := False\<rparr>) (Some (example_pool True))
      (Some example_device_allocation) 0 (Some [1]) 1) = Some example_device_allocation"
proof -
  have "dx_memory_upload Windows (example_copy_env\<lparr>ce_list := False\<rparr>) (Some (example_pool True))
      (Some example_device_allocation) 0 (Some [1]) 1 = (-7, Some example_device_allocation)"
    by (simp add: dx_memory_upload_def execute_buffer_copy_def example_pool_def
        example_device_allocation_def example_copy_env_def range_valid_def Let_def)
  then show ?thesis
    using memory_transfer_failure_atomic [of Windows "example_copy_env\<lparr>ce_list := False\<rparr>"
        "Some (example_pool True)" "Some example_device_allocation" 0 "Some [1]" 1 None]
    by simp
qed

end
