(* ===== verification/OperatorGraph.thy ===== *)
theory OperatorGraph
  imports Diagnostics
begin

text \<open>
  The operator registry, the operator graph and its compilation into an execution plan,
  \<open>src/core/dx_graph_api.cpp\<close>.

  A graph borrows its registry: \<open>dx_graph_add_node\<close> takes the state the registry has at the
  time of the call. The depth-first search \<open>visit_node\<close> recurses through the dependency
  lists; its model runs on fuel and gives \<open>None\<close> when the fuel is used up. One more than the
  number of nodes is enough fuel (\<open>visit_node_total\<close>), which is what \<open>dx_graph_compile\<close> uses.
\<close>

section \<open>State\<close>

record dx_operator_registry_t =
  or_logger :: "dx_component_logger_t option"
  or_operators :: "string set"
  or_frozen :: bool

record dx_graph_node_t =
  gn_id :: u32
  gn_operator_name :: string
  gn_dependencies :: "u32 list"

record dx_graph_t =
  dg_logger :: "dx_component_logger_t option"
  dg_nodes :: "dx_graph_node_t list"

record dx_plan_t =
  pl_order :: "u32 list"
  pl_names :: "u32 \<rightharpoonup> string"

section \<open>Registry\<close>

definition dx_operator_registry_create ::
  "platform \<Rightarrow> log_env \<Rightarrow> thrown \<Rightarrow> thrown \<Rightarrow> dx_operator_registry_t option option \<Rightarrow>
   status \<times> dx_operator_registry_t option option" where
  "dx_operator_registry_create plat lenv thr thr_log out =
    (if out = None then (-1, out)
     else (case thr of
         BadAlloc \<Rightarrow> (-3, Some None)
       | OtherThrow \<Rightarrow> (-4, Some None)
       | NoThrow \<Rightarrow>
           (case dx_component_logger_create plat lenv thr_log (Some ''dxgraph'') (Some None) of
              (st, logger) \<Rightarrow>
                if st \<noteq> 0 then (-2, Some None)
                else (0, Some (Some \<lparr> or_logger = the logger, or_operators = {}, or_frozen = False \<rparr>)))))"

definition dx_operator_registry_destroy :: "dx_operator_registry_t option \<Rightarrow> ComponentLogger option" where
  "dx_operator_registry_destroy registry =
    (case registry of None \<Rightarrow> None | Some r \<Rightarrow> dx_component_logger_destroy (or_logger r))"

definition dx_operator_register ::
  "bool \<Rightarrow> dx_operator_registry_t option \<Rightarrow> string option \<Rightarrow> status \<times> dx_operator_registry_t option" where
  "dx_operator_register oom registry name =
    (case registry of
       None \<Rightarrow> (-1, registry)
     | Some r \<Rightarrow>
         if \<not> valid_text name then (-1, registry)
         else if or_frozen r then (-2, registry)
         else if oom then (-3, registry)
         else (0, Some (r\<lparr>or_operators := insert (the name) (or_operators r)\<rparr>)))"

definition dx_operator_registry_freeze ::
  "dx_operator_registry_t option \<Rightarrow> status \<times> dx_operator_registry_t option" where
  "dx_operator_registry_freeze registry =
    (case registry of None \<Rightarrow> (-1, None) | Some r \<Rightarrow> (0, Some (r\<lparr>or_frozen := True\<rparr>)))"

definition dx_operator_is_registered :: "dx_operator_registry_t option \<Rightarrow> string option \<Rightarrow> status" where
  "dx_operator_is_registered registry name =
    (case registry of
       None \<Rightarrow> 0
     | Some r \<Rightarrow> if \<not> valid_text name then 0 else if the name \<in> or_operators r then 1 else 0)"

section \<open>Graph\<close>

definition dx_graph_create ::
  "platform \<Rightarrow> log_env \<Rightarrow> thrown \<Rightarrow> thrown \<Rightarrow> dx_operator_registry_t option \<Rightarrow> dx_graph_t option option \<Rightarrow>
   status \<times> dx_graph_t option option" where
  "dx_graph_create plat lenv thr thr_log registry out =
    (if registry = None \<or> out = None then (-1, out)
     else (case thr of
         BadAlloc \<Rightarrow> (-3, Some None)
       | OtherThrow \<Rightarrow> (-4, Some None)
       | NoThrow \<Rightarrow>
           (case dx_component_logger_create plat lenv thr_log (Some ''dxgraph'') (Some None) of
              (st, logger) \<Rightarrow>
                if st \<noteq> 0 then (-2, Some None)
                else (0, Some (Some \<lparr> dg_logger = the logger, dg_nodes = [] \<rparr>)))))"

definition dx_graph_destroy :: "dx_graph_t option \<Rightarrow> ComponentLogger option" where
  "dx_graph_destroy graph =
    (case graph of None \<Rightarrow> None | Some g \<Rightarrow> dx_component_logger_destroy (dg_logger g))"

definition graph_log_debug ::
  "log_env \<Rightarrow> dx_component_logger_t option \<Rightarrow> string \<Rightarrow> dx_component_logger_t option" where
  "graph_log_debug lenv logger message =
     dx_component_logger_write lenv logger DX_COMPONENT_LEVEL_DEBUG (Some message)
       (Some ''dx_graph_api.cpp'') 85"

text \<open>
  \<open>dx_graph_add_node\<close>. \<open>oom_push\<close>: allocation fails before the node is stored; \<open>oom_log\<close>: it
  fails while the log message is built, after the node is stored and its id reported.
\<close>

definition dx_graph_add_node ::
  "log_env \<Rightarrow> bool \<Rightarrow> bool \<Rightarrow> dx_operator_registry_t option \<Rightarrow> dx_graph_t option \<Rightarrow> string option \<Rightarrow>
   u32 list option \<Rightarrow> u32 \<Rightarrow> u32 option \<Rightarrow> status \<times> dx_graph_t option \<times> u32 option" where
  "dx_graph_add_node lenv oom_push oom_log registry graph operator_name dependency_ids dependency_count out =
    (case graph of
       None \<Rightarrow> (-1, graph, out)
     | Some g \<Rightarrow>
         if \<not> valid_text operator_name \<or> out = None \<or> (dependency_count \<noteq> 0 \<and> dependency_ids = None)
         then (-1, graph, out)
         else if dx_operator_is_registered registry operator_name = 0 then (-2, graph, out)
         else if list_ex (\<lambda>i. unat (the dependency_ids ! i) \<ge> length (dg_nodes g)) [0..<unat dependency_count]
         then (-3, graph, out)
         else if oom_push then (-4, graph, out)
         else
           let node = \<lparr> gn_id = of_nat (length (dg_nodes g)), gn_operator_name = the operator_name,
                 gn_dependencies = (if dependency_count \<noteq> 0
                   then take (unat dependency_count) (the dependency_ids) else []) \<rparr>;
               g1 = g\<lparr>dg_nodes := dg_nodes g @ [node]\<rparr>
           in if oom_log then (-4, Some g1, Some (gn_id node))
              else (0, Some (g1\<lparr>dg_logger := graph_log_debug lenv (dg_logger g1)
                        (''graph_add_node id='' @ to_string_u32 (gn_id node))\<rparr>), Some (gn_id node)))"

section \<open>Compilation\<close>

definition contains_node :: "dx_graph_node_t list \<Rightarrow> u32 \<Rightarrow> bool" where
  "contains_node nodes i \<longleftrightarrow> unat i < length nodes \<and> gn_id (nodes ! unat i) = i"

text \<open>
  The marks are 0 (not visited), 1 (on the current path) and 2 (done). \<open>visit_deps\<close> is the
  loop over the dependencies.
\<close>

type_synonym visit_result = "(bool \<times> u8 list \<times> u32 list) option"

function visit_node :: "nat \<Rightarrow> dx_graph_node_t list \<Rightarrow> u32 \<Rightarrow> u8 list \<Rightarrow> u32 list \<Rightarrow> visit_result"
  and visit_deps :: "nat \<Rightarrow> dx_graph_node_t list \<Rightarrow> u32 list \<Rightarrow> u8 list \<Rightarrow> u32 list \<Rightarrow> visit_result" where
  "visit_node 0 nodes i marks order = None"
| "visit_node (Suc fuel) nodes i marks order =
    (if \<not> contains_node nodes i then Some (False, marks, order)
     else if marks ! unat i = 1 then Some (False, marks, order)
     else if marks ! unat i = 2 then Some (True, marks, order)
     else (case visit_deps fuel nodes (gn_dependencies (nodes ! unat i)) (marks[unat i := 1]) order of
         None \<Rightarrow> None
       | Some (found, marks', order') \<Rightarrow>
           if \<not> found then Some (False, marks', order')
           else Some (True, marks'[unat i := 2], order' @ [i])))"
| "visit_deps fuel nodes [] marks order = Some (True, marks, order)"
| "visit_deps fuel nodes (d # ds) marks order =
    (case visit_node fuel nodes d marks order of
       None \<Rightarrow> None
     | Some (found, marks', order') \<Rightarrow>
         if \<not> found then Some (False, marks', order') else visit_deps fuel nodes ds marks' order')"
  by pat_completeness auto

termination
  by (relation "measures [\<lambda>x. case x of Inl (f, _) \<Rightarrow> f | Inr (f, _) \<Rightarrow> f,
      \<lambda>x. case x of Inl _ \<Rightarrow> 0 | Inr (_, _, ds, _) \<Rightarrow> Suc (length ds)]") auto

text \<open>
  The loop of \<open>dx_graph_compile\<close> over the node ids. Its counter is a \<open>uint32_t\<close> compared with
  the vector's size, so that it wraps before it reaches a size of $2^{32}$ or more; the loop is
  therefore a partial function and not returning is the value \<open>None\<close>.
\<close>

partial_function (option) compile_loop ::
  "dx_graph_node_t list \<Rightarrow> u32 \<Rightarrow> u8 list \<Rightarrow> dx_plan_t \<Rightarrow> (bool \<times> dx_plan_t) option" where
  "compile_loop nodes i marks plan =
    (if unat i < length nodes then
       (case visit_node (Suc (length nodes)) nodes i marks (pl_order plan) of
          None \<Rightarrow> None
        | Some (found, marks', order') \<Rightarrow>
            if \<not> found then Some (False, plan\<lparr>pl_order := order'\<rparr>)
            else compile_loop nodes (i + 1) marks'
              (plan\<lparr>pl_order := order',
                    pl_names := (case pl_names plan i of
                        None \<Rightarrow> (pl_names plan)(i \<mapsto> gn_operator_name (nodes ! unat i))
                      | Some _ \<Rightarrow> pl_names plan)\<rparr>))
     else Some (True, plan))"

declare compile_loop.simps [code]

text \<open>
  The outer \<open>None\<close> is a compilation that does not return; with fewer than $2^{32}$ nodes it
  never occurs.
\<close>

definition dx_graph_compile ::
  "bool \<Rightarrow> dx_graph_t option \<Rightarrow> dx_plan_t option option \<Rightarrow> (status \<times> dx_plan_t option option) option" where
  "dx_graph_compile oom graph out =
    (if graph = None \<or> out = None then Some (-1, out)
     else if oom then Some (-3, Some None)
     else
       let nodes = dg_nodes (the graph)
       in (case compile_loop nodes 0 (replicate (length nodes) 0)
               \<lparr> pl_order = [], pl_names = Map.empty \<rparr> of
             None \<Rightarrow> None
           | Some (found, plan) \<Rightarrow> Some (if \<not> found then (-2, Some None) else (0, Some (Some plan)))))"

section \<open>Plan\<close>

definition dx_plan_node_count :: "dx_plan_t option \<Rightarrow> u32" where
  "dx_plan_node_count plan = (case plan of None \<Rightarrow> 0 | Some p \<Rightarrow> of_nat (length (pl_order p)))"

text \<open>\<open>dx_plan_node_at\<close>: the name buffer receives the name and its terminating NUL.\<close>

definition dx_plan_node_at ::
  "dx_plan_t option \<Rightarrow> u32 \<Rightarrow> u32 option \<Rightarrow> string option \<Rightarrow> u32 \<Rightarrow>
   status \<times> u32 option \<times> string option" where
  "dx_plan_node_at plan order_index out_node_id operator_name capacity =
    (case plan of
       None \<Rightarrow> (-1, out_node_id, operator_name)
     | Some p \<Rightarrow>
         if out_node_id = None \<or> operator_name = None \<or> capacity = 0 \<or>
            unat order_index \<ge> length (pl_order p) then (-1, out_node_id, operator_name)
         else
           let node_id = pl_order p ! unat order_index
           in (case pl_names p node_id of
                 None \<Rightarrow> (-2, out_node_id, operator_name)
               | Some name \<Rightarrow>
                   if length name + 1 > unat capacity then (-2, out_node_id, operator_name)
                   else (0, Some node_id, Some (write_at 0 (name @ [CHR 0x00]) (the operator_name)))))"

section \<open>Topological orders\<close>

abbreviation (input) deps_of :: "dx_graph_node_t list \<Rightarrow> u32 \<Rightarrow> u32 list" where
  "deps_of nodes i \<equiv> gn_dependencies (nodes ! unat i)"

definition graph_ids :: "dx_graph_node_t list \<Rightarrow> bool" where
  "graph_ids nodes \<longleftrightarrow> length nodes < 4294967296 \<and> (\<forall>k < length nodes. gn_id (nodes ! k) = of_nat k)"

definition ordered :: "dx_graph_node_t list \<Rightarrow> u32 list \<Rightarrow> bool" where
  "ordered nodes order \<longleftrightarrow> (\<forall>k < length order. set (deps_of nodes (order ! k)) \<subseteq> set (take k order))"

definition topological :: "dx_graph_node_t list \<Rightarrow> u32 list \<Rightarrow> bool" where
  "topological nodes order \<longleftrightarrow> distinct order \<and> set order = {i. unat i < length nodes} \<and> ordered nodes order"

lemma ordered_snoc:
  "ordered nodes (xs @ [i]) \<longleftrightarrow> ordered nodes xs \<and> set (deps_of nodes i) \<subseteq> set xs"
  by (auto simp: ordered_def nth_append less_Suc_eq)

lemma contains_node_iff: "graph_ids nodes \<Longrightarrow> contains_node nodes i \<longleftrightarrow> unat i < length nodes"
  by (auto simp: contains_node_def graph_ids_def)

lemma unat_id: "graph_ids nodes \<Longrightarrow> k < length nodes \<Longrightarrow> unat (of_nat k :: u32) = k"
  by (auto simp: graph_ids_def intro: unat_of_nat_u32)

section \<open>The depth-first search\<close>

definition search_inv :: "dx_graph_node_t list \<Rightarrow> u8 list \<Rightarrow> u32 list \<Rightarrow> bool" where
  "search_inv nodes marks order \<longleftrightarrow> length marks = length nodes \<and> set marks \<subseteq> {0, 1, 2} \<and>
     distinct order \<and> set order = {i. unat i < length nodes \<and> marks ! unat i = 2} \<and> ordered nodes order"

definition grows :: "u8 list \<Rightarrow> u8 list \<Rightarrow> bool" where
  "grows marks marks' \<longleftrightarrow> length marks' = length marks \<and>
     (\<forall>j < length marks. (marks' ! j = 1 \<longleftrightarrow> marks ! j = 1) \<and> (marks ! j = 2 \<longrightarrow> marks' ! j = 2))"

lemma grows_refl [simp]: "grows m m" by (simp add: grows_def)

lemma grows_trans: "grows a b \<Longrightarrow> grows b c \<Longrightarrow> grows a c" by (simp add: grows_def)

lemma search_inv_enter:
  assumes "search_inv nodes marks order" "unat i < length nodes" "marks ! unat i \<noteq> 2"
  shows "search_inv nodes (marks[unat i := 1]) order"
proof -
  have "{j :: u32. unat j < length nodes \<and> marks[unat i := 1] ! unat j = 2} =
      {j. unat j < length nodes \<and> marks ! unat j = 2}"
    using assms by (auto simp: search_inv_def nth_list_update)
  moreover have "set (marks[unat i := 1]) \<subseteq> {0, 1, 2}"
    using assms(1) set_update_subset_insert [of marks "unat i" 1] by (auto simp: search_inv_def)
  ultimately show ?thesis using assms unfolding search_inv_def by (simp only: length_list_update)
qed

lemma search_inv_leave:
  assumes "search_inv nodes marks order" "unat i < length nodes" "marks ! unat i = 1"
    "\<forall>d \<in> set (deps_of nodes i). unat d < length nodes \<and> marks ! unat d = 2"
  shows "search_inv nodes (marks[unat i := 2]) (order @ [i])"
proof -
  have "{j. unat j < length nodes \<and> marks[unat i := 2] ! unat j = 2} =
      insert i {j. unat j < length nodes \<and> marks ! unat j = 2}"
    using assms by (auto simp: search_inv_def nth_list_update dest: word_unat_eq_iff [THEN iffD2])
  moreover have "set (marks[unat i := 2]) \<subseteq> {0, 1, 2}"
    using assms(1) set_update_subset_insert [of marks "unat i" 2] by (auto simp: search_inv_def)
  ultimately show ?thesis using assms by (auto simp: search_inv_def ordered_snoc)
qed

lemma visit_sound:
  "visit_node fuel nodes i marks order = Some (True, m', o') \<Longrightarrow> graph_ids nodes \<Longrightarrow>
    search_inv nodes marks order \<Longrightarrow>
    search_inv nodes m' o' \<and> grows marks m' \<and> unat i < length nodes \<and> m' ! unat i = 2"
  "visit_deps fuel nodes ds marks order = Some (True, m', o') \<Longrightarrow> graph_ids nodes \<Longrightarrow>
    search_inv nodes marks order \<Longrightarrow>
    search_inv nodes m' o' \<and> grows marks m' \<and>
    (\<forall>d \<in> set ds. unat d < length nodes \<and> m' ! unat d = 2)"
proof (induction fuel nodes i marks order and fuel nodes ds marks order
    arbitrary: m' o' and m' o' rule: visit_node_visit_deps.induct)
  case (2 fuel nodes i marks order)
  have i: "unat i < length nodes"
    using 2(2,3) by (auto simp: contains_node_iff split: if_splits)
  show ?case
  proof (cases "marks ! unat i = 2")
    case True
    with 2(2-4) i show ?thesis by (auto simp: contains_node_iff)
  next
    case False
    then obtain m o1 where deps: "visit_deps fuel nodes (deps_of nodes i) (marks[unat i := 1]) order = Some (True, m, o1)"
      and res: "m' = m[unat i := 2]" "o' = o1 @ [i]" and n1: "marks ! unat i \<noteq> 1"
      using 2(2,3) i by (auto simp: contains_node_iff split: if_splits option.splits)
    have len: "length marks = length nodes" using 2(4) by (simp add: search_inv_def)
    have ih: "search_inv nodes m o1" "grows (marks[unat i := 1]) m"
      "\<forall>d \<in> set (deps_of nodes i). unat d < length nodes \<and> m ! unat d = 2"
      using 2(1) [OF _ n1 False deps] search_inv_enter [OF 2(4) i False] 2(3) i
      by (auto simp: contains_node_iff)
    have "m ! unat i = 1" using ih(2) i len by (auto simp: grows_def)
    then have "search_inv nodes m' o'" unfolding res using ih i by (intro search_inv_leave) auto
    moreover have "grows marks m'"
      using ih(2) n1 False i len by (auto simp: grows_def res nth_list_update split: if_splits)
    moreover have "m' ! unat i = 2" using ih(1) i by (simp add: res search_inv_def)
    ultimately show ?thesis using i by simp
  qed
next
  case (4 fuel nodes d ds marks order)
  then obtain m o1 where d: "visit_node fuel nodes d marks order = Some (True, m, o1)"
    and rest: "visit_deps fuel nodes ds m o1 = Some (True, m', o')"
    by (auto split: option.splits if_splits)
  have a: "search_inv nodes m o1" "grows marks m" "unat d < length nodes" "m ! unat d = 2"
    using 4(1) [OF d 4(4,5)] by auto
  have b: "search_inv nodes m' o'" "grows m m'" "\<forall>d \<in> set ds. unat d < length nodes \<and> m' ! unat d = 2"
    using 4(2) [OF d refl refl _ rest 4(4) a(1)] by auto
  have "m' ! unat d = 2" using b(2) a 4(5) by (auto simp: grows_def search_inv_def)
  then show ?case using a b grows_trans by auto
qed auto

text \<open>The search ends within as many nested visits as there are unvisited nodes, plus one.\<close>

definition unvisited :: "u8 list \<Rightarrow> nat" where
  "unvisited marks = length (filter (\<lambda>m. m = 0) marks)"

lemma unvisited_update:
  "k < length marks \<Longrightarrow> v \<noteq> 0 \<Longrightarrow>
    unvisited (marks[k := v]) = (if marks ! k = 0 then unvisited marks - 1 else unvisited marks)"
proof (induction marks arbitrary: k)
  case (Cons m ms)
  have "ms ! j = 0 \<Longrightarrow> j < length ms \<Longrightarrow> 0 < unvisited ms" for j
    by (auto simp: unvisited_def filter_empty_conv) (metis nth_mem)
  with Cons show ?case by (cases k) (auto simp: unvisited_def)
qed simp

lemma unvisited_pos: "k < length marks \<Longrightarrow> marks ! k = 0 \<Longrightarrow> 0 < unvisited marks"
  by (auto simp: unvisited_def filter_empty_conv) (metis nth_mem)

definition marks_ok :: "dx_graph_node_t list \<Rightarrow> u8 list \<Rightarrow> bool" where
  "marks_ok nodes marks \<longleftrightarrow> length marks = length nodes \<and> set marks \<subseteq> {0, 1, 2}"

lemma marks_ok_update:
  "marks_ok nodes marks \<Longrightarrow> v \<in> {0, 1, 2} \<Longrightarrow> marks_ok nodes (marks[k := v])"
  using set_update_subset_insert [of marks k v] by (auto simp: marks_ok_def)

lemma visit_node_total:
  "marks_ok nodes marks \<Longrightarrow> unvisited marks < fuel \<Longrightarrow>
    \<exists>b m' o'. visit_node fuel nodes i marks order = Some (b, m', o') \<and> marks_ok nodes m' \<and> unvisited m' \<le> unvisited marks"
  "marks_ok nodes marks \<Longrightarrow> unvisited marks < fuel \<Longrightarrow>
    \<exists>b m' o'. visit_deps fuel nodes ds marks order = Some (b, m', o') \<and> marks_ok nodes m' \<and> unvisited m' \<le> unvisited marks"
proof (induction fuel nodes i marks order and fuel nodes ds marks order
    rule: visit_node_visit_deps.induct)
  case (2 fuel nodes i marks order)
  show ?case
  proof (cases "contains_node nodes i \<and> marks ! unat i \<noteq> 1 \<and> marks ! unat i \<noteq> 2")
    case False
    with 2(2) show ?thesis by auto
  next
    case True
    then have i: "unat i < length marks" using 2(2) by (auto simp: contains_node_def marks_ok_def)
    then have "marks ! unat i \<in> {0, 1, 2}"
      using 2(2) by (meson marks_ok_def nth_mem subset_eq)
    then have z: "marks ! unat i = 0" using True by simp
    let ?m = "marks[unat i := 1]"
    have u: "unvisited ?m = unvisited marks - 1" "0 < unvisited marks"
      using unvisited_update [OF i, of 1] unvisited_pos [OF i z] z by auto
    then have "\<exists>b m' o'. visit_deps fuel nodes (deps_of nodes i) ?m order = Some (b, m', o') \<and>
        marks_ok nodes m' \<and> unvisited m' \<le> unvisited ?m"
      using True 2(2,3) by (intro 2(1)) (auto intro: marks_ok_update)
    then obtain b m' o' where r: "visit_deps fuel nodes (deps_of nodes i) ?m order = Some (b, m', o')"
      "marks_ok nodes m'" "unvisited m' \<le> unvisited ?m" by blast
    have "unat i < length m'" using i r(2) 2(2) by (simp add: marks_ok_def)
    then have "unvisited (m'[unat i := 2]) \<le> unvisited m'" by (simp add: unvisited_update)
    with r u True show ?thesis by (cases b) (auto intro: marks_ok_update)
  qed
next
  case (4 fuel nodes d ds marks order)
  obtain b m o1 where d: "visit_node fuel nodes d marks order = Some (b, m, o1)" "marks_ok nodes m"
    "unvisited m \<le> unvisited marks" using 4(1,3,4) by blast
  show ?case
  proof (cases b)
    case True
    have "\<exists>b m' o'. visit_deps fuel nodes ds m o1 = Some (b, m', o') \<and> marks_ok nodes m' \<and> unvisited m' \<le> unvisited m"
      using 4(2) [OF d(1) refl refl] True d 4(4) by auto
    then show ?thesis using d True by auto
  next
    case False
    then show ?thesis using d by auto
  qed
qed auto

text \<open>
  A ranking of the nodes along the dependencies rules out every failure of the search.
\<close>

definition ranked :: "dx_graph_node_t list \<Rightarrow> (nat \<Rightarrow> nat) \<Rightarrow> bool" where
  "ranked nodes r \<longleftrightarrow> (\<forall>k < length nodes. \<forall>d \<in> set (gn_dependencies (nodes ! k)).
     unat d < length nodes \<and> r (unat d) < r k)"

definition path_above :: "u8 list \<Rightarrow> (nat \<Rightarrow> nat) \<Rightarrow> nat \<Rightarrow> bool" where
  "path_above marks r k \<longleftrightarrow> (\<forall>j < length marks. marks ! j = 1 \<longrightarrow> r k < r j)"

lemma path_above_grows: "grows m m' \<Longrightarrow> path_above m r k \<Longrightarrow> path_above m' r k"
  by (simp add: grows_def path_above_def)

lemma visit_complete:
  "visit_node fuel nodes i marks order = Some (b, m', o') \<Longrightarrow> graph_ids nodes \<Longrightarrow> ranked nodes r \<Longrightarrow>
    search_inv nodes marks order \<Longrightarrow> unat i < length nodes \<Longrightarrow> path_above marks r (unat i) \<Longrightarrow> b"
  "visit_deps fuel nodes ds marks order = Some (b, m', o') \<Longrightarrow> graph_ids nodes \<Longrightarrow> ranked nodes r \<Longrightarrow>
    search_inv nodes marks order \<Longrightarrow>
    \<forall>d \<in> set ds. unat d < length nodes \<and> path_above marks r (unat d) \<Longrightarrow> b"
proof (induction fuel nodes i marks order and fuel nodes ds marks order
    arbitrary: b m' o' and b m' o' rule: visit_node_visit_deps.induct)
  case (2 fuel nodes i marks order)
  have c: "contains_node nodes i" using 2(3,6) by (simp add: contains_node_iff)
  have n1: "marks ! unat i \<noteq> 1" using 2(5-7) by (auto simp: path_above_def search_inv_def)
  show ?case
  proof (cases "marks ! unat i = 2")
    case True
    then show ?thesis using 2(2) c by auto
  next
    case False
    then obtain b' m o1 where d: "visit_deps fuel nodes (deps_of nodes i) (marks[unat i := 1]) order = Some (b', m, o1)"
      and b: "b = b'" using 2(2) c n1 by (auto split: option.splits if_splits)
    have "path_above (marks[unat i := 1]) r (unat d)" if "d \<in> set (deps_of nodes i)" for d
    proof -
      have "r (unat d) < r (unat i)" using 2(4,6) that by (auto simp: ranked_def)
      moreover have "r (unat i) < r j" if "j < length marks" "marks[unat i := 1] ! j = 1" "j \<noteq> unat i" for j
        using 2(7) that by (simp add: path_above_def)
      ultimately show ?thesis
        unfolding path_above_def length_list_update by (metis less_trans)
    qed
    then have "\<forall>d \<in> set (deps_of nodes i). unat d < length nodes \<and> path_above (marks[unat i := 1]) r (unat d)"
      using 2(4,6) by (auto simp: ranked_def)
    then show ?thesis
      using 2(1) [OF _ n1 False d 2(3,4) search_inv_enter [OF 2(5,6) False]] c b by simp
  qed
next
  case (4 fuel nodes d ds marks order)
  then obtain b' m o1 where d: "visit_node fuel nodes d marks order = Some (b', m, o1)"
    by (auto split: option.splits)
  have b': b' using 4(1) [OF d 4(4-6)] 4(7) by simp
  then have v: "search_inv nodes m o1" "grows marks m" using visit_sound(1) [of fuel nodes d marks order m o1] d 4(4,6) by auto
  have "\<forall>d \<in> set ds. unat d < length nodes \<and> path_above m r (unat d)"
    using 4(7) path_above_grows [OF v(2)] by auto
  moreover have "visit_deps fuel nodes ds m o1 = Some (b, m', o')"
    using 4(3) d b' by auto
  ultimately show ?case
    using 4(2) [OF d refl refl _ _ 4(4,5) v(1)] b' by auto
qed auto

declare visit_node.simps(2) [simp del]

section \<open>Correctness of compilation\<close>

lemma search_inv_marks_ok: "search_inv nodes marks order \<Longrightarrow> marks_ok nodes marks"
  by (simp add: search_inv_def marks_ok_def)

lemma unvisited_le: "unvisited marks \<le> length marks"
  by (simp add: unvisited_def)

lemma top_visit_total:
  assumes "search_inv nodes marks order"
  shows "\<exists>b m o'. visit_node (Suc (length nodes)) nodes i marks order = Some (b, m, o')"
proof -
  have "unvisited marks < Suc (length nodes)"
    using unvisited_le [of marks] assms by (simp add: search_inv_def)
  then show ?thesis
    using visit_node_total(1) [OF search_inv_marks_ok [OF assms]] by blast
qed

text \<open>The loop of \<open>dx_graph_compile\<close>, started at node \<open>k\<close> with all earlier nodes done.\<close>

definition loop_inv :: "dx_graph_node_t list \<Rightarrow> nat \<Rightarrow> u8 list \<Rightarrow> dx_plan_t \<Rightarrow> bool" where
  "loop_inv nodes k marks plan \<longleftrightarrow> search_inv nodes marks (pl_order plan) \<and>
     (\<forall>j < length nodes. marks ! j \<noteq> 1) \<and> (\<forall>j < k. marks ! j = 2) \<and>
     pl_names plan = (\<lambda>i. if unat i < k then Some (gn_operator_name (nodes ! unat i)) else None)"

lemma loop_inv_step:
  assumes "loop_inv nodes k marks plan" "graph_ids nodes" "k < length nodes"
    "visit_node (Suc (length nodes)) nodes (of_nat k) marks (pl_order plan) = Some (True, m, o')"
  shows "loop_inv nodes (Suc k) m (plan\<lparr>pl_order := o',
      pl_names := (case pl_names plan (of_nat k) of
          None \<Rightarrow> (pl_names plan)(of_nat k \<mapsto> gn_operator_name (nodes ! k)) | Some _ \<Rightarrow> pl_names plan)\<rparr>)"
proof -
  have k: "unat (of_nat k :: u32) = k" using assms(2,3) by (rule unat_id)
  have v: "search_inv nodes m o'" "grows marks m" "m ! k = 2"
    using visit_sound(1) [OF assms(4,2)] assms(1) k by (auto simp: loop_inv_def)
  have len: "length marks = length nodes" using assms(1) by (simp add: loop_inv_def search_inv_def)
  have "unat j = k \<longleftrightarrow> j = of_nat k" for j :: u32
    using k by (metis word_unat_eq_iff)
  then have lt: "unat j < Suc k \<longleftrightarrow> unat j < k \<or> j = of_nat k" for j :: u32
    by (simp add: less_Suc_eq)
  have names: "pl_names plan = (\<lambda>i. if unat i < k then Some (gn_operator_name (nodes ! unat i)) else None)"
    using assms(1) by (simp add: loop_inv_def)
  have "(pl_names plan)(of_nat k \<mapsto> gn_operator_name (nodes ! k)) =
      (\<lambda>i. if unat i < Suc k then Some (gn_operator_name (nodes ! unat i)) else None)"
    unfolding names lt using k by (intro ext) simp
  moreover have "pl_names plan (of_nat k) = None" using assms(1) k by (simp add: loop_inv_def)
  moreover have "\<forall>j < length nodes. m ! j \<noteq> 1"
    using v(2) len assms(1) by (simp add: loop_inv_def grows_def)
  moreover have "m ! j = 2" if "j < Suc k" for j
  proof (cases "j = k")
    case False
    then have "marks ! j = 2" "j < length marks"
      using that len assms(1,3) by (simp_all add: loop_inv_def)
    then show ?thesis using v(2) by (simp add: grows_def)
  qed (simp add: v(3))
  ultimately show ?thesis
    using v(1) by (simp add: loop_inv_def)
qed

lemma compile_loop_end: "length nodes \<le> unat i \<Longrightarrow> compile_loop nodes i marks plan = Some (True, plan)"
  by (subst compile_loop.simps) simp

lemma compile_loop_next:
  assumes "k < length nodes" "graph_ids nodes"
    "visit_node (Suc (length nodes)) nodes (of_nat k) marks (pl_order plan) = Some (found, m, o')"
  shows "compile_loop nodes (of_nat k) marks plan =
    (if \<not> found then Some (False, plan\<lparr>pl_order := o'\<rparr>)
     else compile_loop nodes (of_nat (Suc k)) m (plan\<lparr>pl_order := o',
       pl_names := (case pl_names plan (of_nat k) of
          None \<Rightarrow> (pl_names plan)(of_nat k \<mapsto> gn_operator_name (nodes ! k)) | Some _ \<Rightarrow> pl_names plan)\<rparr>))"
  using assms unat_id [OF assms(2,1)] by (subst compile_loop.simps) (simp add: add.commute split: option.splits)

lemma compile_loop_diverges:
  assumes "compile_loop nodes i marks plan = Some r"
  shows "4294967296 \<le> length nodes \<longrightarrow> \<not> fst r"
proof (rule compile_loop.raw_induct [OF _ assms], intro impI)
  fix loop nodes i marks plan r
  assume step: "\<And>nodes i marks plan r. loop nodes i marks plan = Some r \<Longrightarrow> 4294967296 \<le> length nodes \<longrightarrow> \<not> fst r"
    "(if unat i < length nodes then
       (case visit_node (Suc (length nodes)) nodes i marks (pl_order plan) of
          None \<Rightarrow> None
        | Some (found, marks', order') \<Rightarrow>
            if \<not> found then Some (False, plan\<lparr>pl_order := order'\<rparr>)
            else loop nodes (i + 1) marks'
              (plan\<lparr>pl_order := order',
                    pl_names := (case pl_names plan i of
                        None \<Rightarrow> (pl_names plan)(i \<mapsto> gn_operator_name (nodes ! unat i))
                      | Some _ \<Rightarrow> pl_names plan)\<rparr>))
     else Some (True, plan)) = Some r" "4294967296 \<le> length nodes"
  have "unat i < length nodes" using u32_lt [of i] step(3) by linarith
  with step show "\<not> fst r" by (auto split: option.splits prod.splits if_splits)
qed

lemma compile_loop_spec:
  assumes "loop_inv nodes k marks plan" "graph_ids nodes" "k \<le> length nodes"
  shows "\<exists>b p. compile_loop nodes (of_nat k) marks plan = Some (b, p) \<and>
    (b \<longrightarrow> (\<exists>m. loop_inv nodes (length nodes) m p)) \<and>
    ((\<exists>r. ranked nodes r) \<longrightarrow> b)"
  using assms
proof (induction "length nodes - k" arbitrary: k marks plan)
  case 0
  then have "length nodes \<le> unat (of_nat k :: u32)" by (simp add: unat_of_nat_u32 graph_ids_def)
  then have "compile_loop nodes (of_nat k) marks plan = Some (True, plan)" by (rule compile_loop_end)
  with 0 show ?case by auto
next
  case (Suc n)
  then have k: "k < length nodes" by simp
  have inv: "search_inv nodes marks (pl_order plan)" using Suc.prems(1) by (simp add: loop_inv_def)
  obtain b m o' where v: "visit_node (Suc (length nodes)) nodes (of_nat k) marks (pl_order plan) = Some (b, m, o')"
    using top_visit_total [OF inv] by blast
  have kk: "unat (of_nat k :: u32) = k" using Suc.prems(2) k by (rule unat_id)
  show ?case
  proof (cases b)
    case True
    then have "b = True" by simp
    note next' = loop_inv_step [OF Suc.prems(1,2) k v [unfolded this]]
    have "n = length nodes - Suc k" using Suc.hyps(2) by simp
    from Suc.hyps(1) [OF this next' Suc.prems(2)] show ?thesis
      using k True by (simp add: compile_loop_next [OF k Suc.prems(2) v])
  next
    case False
    have "\<not> ranked nodes r" for r
    proof
      assume "ranked nodes r"
      moreover have "path_above marks r k"
        using Suc.prems(1) by (auto simp: path_above_def loop_inv_def search_inv_def)
      ultimately show False
        using visit_complete(1) [OF v Suc.prems(2) _ inv] False k kk by simp
    qed
    then have "\<not> (\<exists>r. ranked nodes r)" by blast
    then show ?thesis
      using False by (intro exI [of _ False]) (simp add: compile_loop_next [OF k Suc.prems(2) v])
  qed
qed

lemma topological_ranked:
  assumes "topological nodes order" "graph_ids nodes"
  shows "\<exists>r. ranked nodes r"
proof -
  define r where "r k = length (takeWhile (\<lambda>x. unat x \<noteq> k) order)" for k
  have pos: "r (unat d) = j" if "j < length order" "order ! j = d" for d :: u32 and j
  proof -
    have "unat (order ! l) \<noteq> unat d" if "l < j" for l
      using that \<open>j < length order\<close> \<open>order ! j = d\<close> assms(1)
      by (auto simp: topological_def distinct_conv_nth dest: word_unat_eq_iff [THEN iffD2])
    then show ?thesis
      unfolding r_def using that by (subst takeWhile_eq_take_P_nth [of j]) auto
  qed
  have "ranked nodes r"
    unfolding ranked_def
  proof (intro allI impI ballI)
    fix k d
    assume k: "k < length nodes" and d: "d \<in> set (gn_dependencies (nodes ! k))"
    have kk: "unat (of_nat k :: u32) = k" using assms(2) k by (rule unat_id)
    then have "of_nat k \<in> set order" using assms(1) k by (simp add: topological_def)
    then obtain j where j: "j < length order" "order ! j = of_nat k" by (auto simp: in_set_conv_nth)
    then have "d \<in> set (take j order)"
      using assms(1) d kk by (force simp: topological_def ordered_def)
    then obtain l where l: "l < j" "order ! l = d" by (auto simp: in_set_conv_nth)
    then have "r (unat d) = l" "r k = j" using pos [of l d] pos [of j "of_nat k"] j kk by auto
    moreover have "d \<in> set order" using l j by auto
    ultimately show "unat d < length nodes \<and> r (unat d) < r k"
      using l assms(1) by (simp add: topological_def)
  qed
  then show ?thesis by blast
qed

lemma loop_inv_start:
  "loop_inv nodes 0 (replicate (length nodes) 0) \<lparr> pl_order = [], pl_names = Map.empty \<rparr>"
  by (auto simp: loop_inv_def search_inv_def ordered_def)

lemma loop_inv_end:
  assumes "loop_inv nodes (length nodes) m p"
  shows "topological nodes (pl_order p)"
    "pl_names p = (\<lambda>i. if unat i < length nodes then Some (gn_operator_name (nodes ! unat i)) else None)"
  using assms by (auto simp: loop_inv_def search_inv_def topological_def)

text \<open>
  C2. Compilation is sound, complete and always ends. For any graph of fewer than $2^{32}$ nodes
  whose node ids are the positions of the nodes (with $2^{32}$ or more the loop's 32-bit counter
  wraps and no plan is ever returned, \<open>compile_loop_diverges\<close>), the search terminates; it succeeds exactly when the dependencies
  admit a topological order at all (every dependency is a node and there is no cycle), the plan
  then lists every node once, after all of its dependencies, with its operator's name; otherwise
  the status is -2 and no plan is returned.
\<close>

theorem graph_compile_correct:
  assumes "graph_ids (dg_nodes g)"
  shows "\<exists>st plan. dx_graph_compile False (Some g) (Some old) = Some (st, Some plan) \<and>
    ((\<exists>order. topological (dg_nodes g) order) \<longrightarrow> st = 0) \<and>
    (st = 0 \<longrightarrow> (\<exists>p. plan = Some p \<and> topological (dg_nodes g) (pl_order p) \<and>
      (\<forall>i. pl_names p i = (if unat i < length (dg_nodes g)
         then Some (gn_operator_name (dg_nodes g ! unat i)) else None)))) \<and>
    (st \<noteq> 0 \<longrightarrow> st = -2 \<and> plan = None)"
proof -
  let ?nodes = "dg_nodes g"
  obtain b p where r: "compile_loop ?nodes 0 (replicate (length ?nodes) 0)
        \<lparr> pl_order = [], pl_names = Map.empty \<rparr> = Some (b, p)"
      "b \<longrightarrow> (\<exists>m. loop_inv ?nodes (length ?nodes) m p)" "(\<exists>r. ranked ?nodes r) \<longrightarrow> b"
    using compile_loop_spec [OF loop_inv_start assms] by auto
  then have c: "dx_graph_compile False (Some g) (Some old) =
      Some (if b then (0, Some (Some p)) else (-2, Some None))"
    by (simp add: dx_graph_compile_def)
  show ?thesis
  proof (cases b)
    case True
    then obtain m where "loop_inv ?nodes (length ?nodes) m p" using r(2) by blast
    from loop_inv_end [OF this] c True show ?thesis by auto
  next
    case False
    then show ?thesis using c r(3) topological_ranked [OF _ assms] by auto
  qed
qed

definition example_node :: "u32 \<Rightarrow> string \<Rightarrow> u32 list \<Rightarrow> dx_graph_node_t" where
  "example_node i name ds = \<lparr> gn_id = i, gn_operator_name = name, gn_dependencies = ds \<rparr>"

definition example_graph :: "u32 list \<Rightarrow> dx_graph_t" where
  "example_graph ds = \<lparr> dg_logger = None,
     dg_nodes = [example_node 0 ''softmax'' ds, example_node 1 ''gemm'' []] \<rparr>"

theorem graph_compile_correct_witness:
  "dx_graph_compile False (Some (example_graph [0])) (Some None) = Some (-2, Some None) \<and>
   \<not> (\<exists>order. topological (dg_nodes (example_graph [0])) order) \<and>
   (\<exists>p. dx_graph_compile False (Some (example_graph [1])) (Some None) = Some (0, Some (Some p)) \<and>
      pl_order p = [1, 0] \<and> topological (dg_nodes (example_graph [1])) (pl_order p))"
proof -
  have ids: "graph_ids (dg_nodes (example_graph ds))" for ds
    by (auto simp: graph_ids_def example_graph_def example_node_def less_Suc_eq)
  have r0: "dx_graph_compile False (Some (example_graph [0])) (Some None) = Some (-2, Some None)"
    by code_simp
  have r1: "map_option (map_prod id (map_option (map_option pl_order)))
      (dx_graph_compile False (Some (example_graph [1])) (Some None)) = Some (0, Some (Some [1, 0]))"
    by code_simp
  show ?thesis
    using graph_compile_correct [OF ids, of "[0]" None] graph_compile_correct [OF ids, of "[1]" None] r0 r1
    by auto
qed

section \<open>Graphs built through the interface\<close>

text \<open>The caller's id array holds at least \<open>n\<close> ids.\<close>

definition ids_given :: "u32 list option \<Rightarrow> u32 \<Rightarrow> bool" where
  "ids_given deps n \<longleftrightarrow> (case deps of None \<Rightarrow> True | Some ds \<Rightarrow> unat n \<le> length ds)"

inductive graph_step :: "dx_graph_t \<Rightarrow> dx_graph_t \<Rightarrow> bool" where
  step_add: "\<lbrakk>ids_given deps n;
      dx_graph_add_node lenv oom_push oom_log registry (Some g) name deps n (Some out) = (st, Some g', out')\<rbrakk>
      \<Longrightarrow> graph_step g g'"

inductive_cases graph_step_cases: "graph_step g g'"

definition backward :: "dx_graph_node_t list \<Rightarrow> bool" where
  "backward nodes \<longleftrightarrow> (\<forall>k < length nodes. gn_id (nodes ! k) = of_nat k \<and>
     (\<forall>d \<in> set (gn_dependencies (nodes ! k)). unat d < k))"

lemma backward_snoc:
  "backward (nodes @ [n]) \<longleftrightarrow> backward nodes \<and> gn_id n = of_nat (length nodes) \<and>
    (\<forall>d \<in> set (gn_dependencies n). unat d < length nodes)"
  by (auto simp: backward_def nth_append less_Suc_eq)

lemma add_node_cases:
  assumes "dx_graph_add_node lenv oom_push oom_log registry (Some g) name deps n (Some out) = (st, Some g', out')"
    "ids_given deps n"
  shows "g' = g \<or> (\<exists>node. dg_nodes g' = dg_nodes g @ [node] \<and> gn_id node = of_nat (length (dg_nodes g)) \<and>
     (\<forall>d \<in> set (gn_dependencies node). unat d < length (dg_nodes g)))"
proof (cases "deps = None \<or> n = 0")
  case True
  then show ?thesis
    using assms(1) by (auto simp: dx_graph_add_node_def Let_def split: if_splits)
next
  case False
  then have len: "unat n \<le> length (the deps)" using assms(2) by (auto simp: ids_given_def)
  have "unat d < length (dg_nodes g)"
    if "\<forall>i < unat n. \<not> length (dg_nodes g) \<le> unat (the deps ! i)" "d \<in> set (take (unat n) (the deps))" for d
    using that len by (auto simp: in_set_conv_nth not_le)
  then show ?thesis
    using assms(1)
    by (auto simp: dx_graph_add_node_def Let_def list_ex_iff split: if_splits)
qed

lemma graph_steps_backward:
  assumes "graph_step\<^sup>*\<^sup>* g0 g" "dg_nodes g0 = []"
  shows "backward (dg_nodes g)"
  using assms
proof (induction rule: rtranclp_induct)
  case base
  then show ?case by (simp add: backward_def)
next
  case (step g g')
  from step.hyps(2) show ?case
    by (rule graph_step_cases) (use step.IH step.prems in \<open>auto dest!: add_node_cases simp: backward_snoc\<close>)
qed

lemma backward_ids: "backward nodes \<Longrightarrow> length nodes < 4294967296 \<Longrightarrow> graph_ids nodes"
  by (simp add: backward_def graph_ids_def)

lemma visit_deps_done:
  "graph_ids nodes \<Longrightarrow> \<forall>d \<in> set ds. unat d < length nodes \<and> marks ! unat d = 2 \<Longrightarrow> 0 < fuel \<Longrightarrow>
    visit_deps fuel nodes ds marks order = Some (True, marks, order)"
proof (induction ds)
  case (Cons d ds)
  obtain f where "fuel = Suc f" using Cons.prems(3) by (cases fuel) auto
  with Cons show ?case by (simp add: visit_node.simps(2) contains_node_iff)
qed simp

lemma compile_loop_backward:
  assumes "backward nodes" "graph_ids nodes" "k \<le> length nodes" "length marks = length nodes"
    "\<forall>j < length nodes. marks ! j = (if j < k then 2 else 0)"
  shows "\<exists>p. compile_loop nodes (of_nat k) marks plan = Some (True, p) \<and>
    pl_order p = pl_order plan @ map of_nat [k..<length nodes]"
  using assms
proof (induction "length nodes - k" arbitrary: k marks plan)
  case 0
  then have "length nodes \<le> unat (of_nat k :: u32)" by (simp add: unat_of_nat_u32 graph_ids_def)
  then have "compile_loop nodes (of_nat k) marks plan = Some (True, plan)" by (rule compile_loop_end)
  with 0 show ?case by simp
next
  case (Suc n)
  then have k: "k < length nodes" by simp
  have kk: "unat (of_nat k :: u32) = k" using Suc.prems(2) k by (rule unat_id)
  have mk: "marks ! k = 0" using Suc.prems(5) k by simp
  have deps: "\<forall>d \<in> set (gn_dependencies (nodes ! k)). unat d < length nodes \<and> marks[k := 1] ! unat d = 2"
  proof
    fix d assume "d \<in> set (gn_dependencies (nodes ! k))"
    then have "unat d < k" using Suc.prems(1) k by (simp add: backward_def)
    then show "unat d < length nodes \<and> marks[k := 1] ! unat d = 2" using Suc.prems(5) k by simp
  qed
  have "nodes \<noteq> []" using k by auto
  have v: "visit_node (Suc (length nodes)) nodes (of_nat k) marks (pl_order plan) =
      Some (True, marks[k := 2], pl_order plan @ [of_nat k])"
    using visit_deps_done [OF Suc.prems(2) deps, of "length nodes"] k kk mk Suc.prems(2) \<open>nodes \<noteq> []\<close>
    by (simp add: visit_node.simps(2) contains_node_iff)
  have rest: "\<exists>p. compile_loop nodes (of_nat (Suc k)) (marks[k := 2]) pl = Some (True, p) \<and>
      pl_order p = pl_order pl @ map of_nat [Suc k..<length nodes]" for pl
    using Suc.hyps(2) Suc.prems k
    by (intro Suc.hyps(1)) (auto simp: nth_list_update less_Suc_eq)
  show ?case
    unfolding compile_loop_next [OF k Suc.prems(2) v]
    using rest [of "plan\<lparr>pl_order := pl_order plan @ [of_nat k],
       pl_names := (case pl_names plan (of_nat k) of
          None \<Rightarrow> (pl_names plan)(of_nat k \<mapsto> gn_operator_name (nodes ! k)) | Some _ \<Rightarrow> pl_names plan)\<rparr>"] k
    by (simp add: upt_conv_Cons)
qed

text \<open>
  A graph built by calls of \<open>dx_graph_add_node\<close>, accepted or refused, in any number and
  with any arguments, always compiles, and its plan runs the nodes in the order in which they
  were added.
\<close>

theorem built_graph_compiles_in_order:
  assumes "graph_step\<^sup>*\<^sup>* \<lparr> dg_logger = l, dg_nodes = [] \<rparr> g" "length (dg_nodes g) < 4294967296"
  shows "\<exists>p. dx_graph_compile False (Some g) (Some old) = Some (0, Some (Some p)) \<and>
     pl_order p = map of_nat [0..<length (dg_nodes g)] \<and> topological (dg_nodes g) (pl_order p)"
proof -
  have b: "backward (dg_nodes g)" using graph_steps_backward [OF assms(1)] by simp
  note ids = backward_ids [OF b assms(2)]
  obtain p where "compile_loop (dg_nodes g) 0 (replicate (length (dg_nodes g)) 0)
        \<lparr> pl_order = [], pl_names = Map.empty \<rparr> = Some (True, p)"
      "pl_order p = map of_nat [0..<length (dg_nodes g)]"
    using compile_loop_backward [OF b ids, of 0 "replicate (length (dg_nodes g)) 0"
        "\<lparr> pl_order = [], pl_names = Map.empty \<rparr>"] by auto
  moreover from this obtain m where "loop_inv (dg_nodes g) (length (dg_nodes g)) m p"
    using compile_loop_spec [OF loop_inv_start ids] by auto
  ultimately show ?thesis
    using loop_inv_end(1) by (simp add: dx_graph_compile_def) metis
qed

definition example_registry :: dx_operator_registry_t where
  "example_registry = \<lparr> or_logger = None, or_operators = {''gemm'', ''softmax''}, or_frozen = True \<rparr>"

theorem built_graph_compiles_in_order_witness:
  "\<exists>g p. length (dg_nodes g) = 2 \<and>
     dx_graph_compile False (Some g) (Some None) = Some (0, Some (Some p)) \<and> pl_order p = [0, 1]"
proof -
  let ?g0 = "\<lparr> dg_logger = None, dg_nodes = [] \<rparr>"
  let ?g1 = "\<lparr> dg_logger = None, dg_nodes = [example_node 0 ''gemm'' []] \<rparr>"
  let ?g2 = "\<lparr> dg_logger = None, dg_nodes = [example_node 0 ''gemm'' [], example_node 1 ''softmax'' [0]] \<rparr>"
  have "graph_step ?g0 ?g1"
    by (rule step_add [where deps = None and n = 0 and registry = "Some example_registry" and name = "Some ''gemm''"
          and oom_push = False and oom_log = False and out = 9])
      (auto simp: Let_def ids_given_def dx_graph_add_node_def dx_operator_is_registered_def example_registry_def
        example_node_def graph_log_debug_def dx_component_logger_write_def)
  moreover have "graph_step ?g1 ?g2"
    by (rule step_add [where deps = "Some [0]" and n = 1 and registry = "Some example_registry"
          and name = "Some ''softmax''" and oom_push = False and oom_log = False and out = 9])
      (auto simp: Let_def ids_given_def dx_graph_add_node_def dx_operator_is_registered_def example_registry_def
        example_node_def graph_log_debug_def dx_component_logger_write_def)
  ultimately have "graph_step\<^sup>*\<^sup>* ?g0 ?g2" by (meson converse_rtranclp_into_rtranclp rtranclp.rtrancl_refl)
  from built_graph_compiles_in_order [OF this, of None] show ?thesis
    by (auto simp: upt_rec intro!: exI [of _ ?g2])
qed

section \<open>The registry contract\<close>

text \<open>
  What a graph relies on: registering adds one name, a frozen registry never changes its answer.
\<close>

locale operator_registry =
  fixes register :: "'r \<Rightarrow> string \<Rightarrow> 'r"
    and freeze :: "'r \<Rightarrow> 'r"
    and registered :: "'r \<Rightarrow> string \<Rightarrow> bool"
    and frozen :: "'r \<Rightarrow> bool"
  assumes register_open: "\<not> frozen r \<Longrightarrow> n \<noteq> [] \<Longrightarrow> registered (register r n) m \<longleftrightarrow> m = n \<or> registered r m"
    and register_empty: "register r [] = r"
    and register_frozen: "frozen r \<Longrightarrow> register r n = r"
    and register_keeps: "frozen (register r n) = frozen r"
    and freeze_frozen: "frozen (freeze r)"
    and freeze_keeps: "registered (freeze r) m = registered r m"
begin

text \<open>A run of registrations (names) and freezes (\<open>None\<close>).\<close>

definition run :: "string option list \<Rightarrow> 'r \<Rightarrow> 'r" where
  "run ops r = fold (\<lambda>op r. case op of None \<Rightarrow> freeze r | Some n \<Rightarrow> register r n) ops r"

lemma run_simps [simp]:
  "run [] r = r"
  "run (op # ops) r = run ops (case op of None \<Rightarrow> freeze r | Some n \<Rightarrow> register r n)"
  by (simp_all add: run_def)

lemma run_frozen: "frozen r \<Longrightarrow> registered (run ops r) m = registered r m"
proof (induction ops arbitrary: r)
  case (Cons op ops)
  then show ?case
    by (cases op) (simp_all add: freeze_frozen freeze_keeps register_frozen)
qed simp

lemma run_registered:
  "\<not> frozen r \<Longrightarrow> registered (run ops r) m \<longleftrightarrow>
    registered r m \<or> m \<noteq> [] \<and> Some m \<in> set (takeWhile (\<lambda>op. op \<noteq> None) ops)"
proof (induction ops arbitrary: r)
  case (Cons op ops)
  show ?case
  proof (cases op)
    case None
    then show ?thesis
      using run_frozen [OF freeze_frozen [of r]] by (simp add: freeze_keeps)
  next
    case (Some n)
    then show ?thesis
      using Cons.IH [of "register r n"] Cons.prems register_open [of r n m]
      by (cases "n = []") (auto simp: register_keeps register_empty)
  qed
qed simp

end

interpretation reg: operator_registry
  "\<lambda>r n. the (snd (dx_operator_register False (Some r) (Some n)))"
  "\<lambda>r. the (snd (dx_operator_registry_freeze (Some r)))"
  "\<lambda>r n. dx_operator_is_registered (Some r) (Some n) = 1"
  or_frozen
  by unfold_locales
    (auto simp: dx_operator_register_def dx_operator_registry_freeze_def dx_operator_is_registered_def)

text \<open>A new registry after a sequence of registrations (names) and freezes (\<open>None\<close>).\<close>

definition registry_history ::
  "dx_component_logger_t option \<Rightarrow> string option list \<Rightarrow> dx_operator_registry_t" where
  "registry_history l ops = fold (\<lambda>op r. case op of
      None \<Rightarrow> the (snd (dx_operator_registry_freeze (Some r)))
    | Some n \<Rightarrow> the (snd (dx_operator_register False (Some r) (Some n)))) ops
      \<lparr> or_logger = l, or_operators = {}, or_frozen = False \<rparr>"

text \<open>
  Registration closes at the first freeze: after any sequence of registrations and freezes
  on a new registry, an operator is registered exactly when its (non-empty) name was registered
  before the first freeze.
\<close>

theorem registry_frozen_set:
  "dx_operator_is_registered (Some (registry_history l ops)) (Some m) =
    (if m \<noteq> [] \<and> Some m \<in> set (takeWhile (\<lambda>op. op \<noteq> None) ops) then 1 else 0)"
proof -
  let ?r = "\<lparr> or_logger = l, or_operators = {}, or_frozen = False \<rparr>"
  have "registry_history l ops = reg.run ops ?r" by (simp add: registry_history_def reg.run_def)
  moreover have "dx_operator_is_registered (Some r) (Some m) \<in> {0, 1}" for r
    by (simp add: dx_operator_is_registered_def)
  moreover have "dx_operator_is_registered (Some ?r) (Some m) \<noteq> 1"
    by (simp add: dx_operator_is_registered_def)
  ultimately show ?thesis using reg.run_registered [of ?r ops m] by auto
qed

end
