(* ===== verification/StreamEvents.thy ===== *)
theory StreamEvents
  imports Diagnostics
begin

text \<open>
  Streams and events, \<open>src/core/dx_stream_api.cpp\<close>.

  A D3D12 fence is its completed value; each event owns one, created at 0 and signalled with
  the event's sequence number. The device executes the signals of a queue in the order in which
  they were enqueued: \<open>device_step\<close> completes the oldest pending one. The parameters of
  \<open>record_env\<close> and \<open>wait_env\<close> say which Direct3D or Win32 call fails.
\<close>

section \<open>State\<close>

abbreviation (input) DX_STREAM_COMPUTE :: u32 where "DX_STREAM_COMPUTE \<equiv> 0"
abbreviation (input) DX_STREAM_COPY :: u32 where "DX_STREAM_COPY \<equiv> 1"
abbreviation (input) DX_STREAM_DIRECT :: u32 where "DX_STREAM_DIRECT \<equiv> 2"
abbreviation (input) DX_STREAM_HOST :: u32 where "DX_STREAM_HOST \<equiv> 3"

datatype queue_type = QUEUE_COPY | QUEUE_COMPUTE

record dx_stream_t =
  ds_logger :: "dx_component_logger_t option"
  ds_kind :: u32
  ds_next_sequence :: u64
  ds_device :: bool
  ds_queue :: "queue_type option"

record dx_event_t =
  ev_sequence :: u64
  ev_complete :: bool
  ev_fence :: "u64 option"
  ev_wait_handle :: bool

section \<open>Streams\<close>

definition valid_kind :: "u32 \<Rightarrow> bool" where
  "valid_kind kind \<longleftrightarrow> kind \<le> DX_STREAM_HOST"

definition stream_log_debug :: "log_env \<Rightarrow> dx_stream_t \<Rightarrow> string \<Rightarrow> dx_stream_t" where
  "stream_log_debug lenv stream message =
     stream\<lparr>ds_logger := dx_component_logger_write lenv (ds_logger stream)
       DX_COMPONENT_LEVEL_DEBUG (Some message) (Some ''dx_stream_api.cpp'') 67\<rparr>"

text \<open>\<open>queue_ok\<close>: whether \<open>CreateCommandQueue\<close> succeeds.\<close>

definition create_stream_internal ::
  "platform \<Rightarrow> log_env \<Rightarrow> thrown \<Rightarrow> thrown \<Rightarrow> bool \<Rightarrow> bool \<Rightarrow> u32 \<Rightarrow> dx_stream_t option option \<Rightarrow>
   status \<times> dx_stream_t option option" where
  "create_stream_internal plat lenv thr thr_log queue_ok native_device kind out =
    (if out = None \<or> \<not> valid_kind kind then (-1, out)
     else (case thr of
         BadAlloc \<Rightarrow> (-4, Some None)
       | OtherThrow \<Rightarrow> (-5, Some None)
       | NoThrow \<Rightarrow>
           (case dx_component_logger_create plat lenv thr_log (Some ''dxstream'') (Some None) of
              (st, logger) \<Rightarrow>
                if st \<noteq> 0 then (-2, Some None)
                else
                  let s0 = \<lparr> ds_logger = the logger, ds_kind = kind, ds_next_sequence = 1,
                        ds_device = False, ds_queue = None \<rparr>;
                      use_device = (plat = Windows \<and> native_device \<and> kind \<noteq> DX_STREAM_HOST)
                  in if use_device \<and> \<not> queue_ok then (-3, Some None)
                     else
                       let s1 = (if use_device
                            then s0\<lparr>ds_device := True,
                                    ds_queue := Some (if kind = DX_STREAM_COPY then QUEUE_COPY else QUEUE_COMPUTE)\<rparr>
                            else s0)
                       in (0, Some (Some (stream_log_debug lenv s1
                             (''stream_created kind='' @ to_string_u32 kind)))))))"

definition dx_stream_create ::
  "platform \<Rightarrow> log_env \<Rightarrow> thrown \<Rightarrow> thrown \<Rightarrow> u32 \<Rightarrow> dx_stream_t option option \<Rightarrow>
   status \<times> dx_stream_t option option" where
  "dx_stream_create plat lenv thr thr_log kind out =
     create_stream_internal plat lenv thr thr_log True False kind out"

definition dx_stream_create_for_native_device ::
  "platform \<Rightarrow> log_env \<Rightarrow> thrown \<Rightarrow> thrown \<Rightarrow> bool \<Rightarrow> bool \<Rightarrow> u32 \<Rightarrow> dx_stream_t option option \<Rightarrow>
   status \<times> dx_stream_t option option" where
  "dx_stream_create_for_native_device plat lenv thr thr_log queue_ok native_device kind out =
    (if \<not> native_device then
       (if plat = Windows then (-1, out)
        else create_stream_internal plat lenv thr thr_log queue_ok False kind out)
     else create_stream_internal plat lenv thr thr_log queue_ok native_device kind out)"

definition dx_stream_destroy :: "dx_stream_t option \<Rightarrow> ComponentLogger option" where
  "dx_stream_destroy stream =
    (case stream of None \<Rightarrow> None | Some s \<Rightarrow> dx_component_logger_destroy (ds_logger s))"

section \<open>Recording events\<close>

record record_env =
  re_throw_new :: thrown
  re_fence :: bool
  re_event :: bool
  re_signal :: bool
  re_throw_log :: thrown

text \<open>
  \<open>dx_stream_record_event\<close>: the sequence number is taken before anything on the device can
  fail. \<open>re_throw_log\<close> is a throw while the log message is built, after the signal.
\<close>

definition dx_stream_record_event ::
  "platform \<Rightarrow> log_env \<Rightarrow> record_env \<Rightarrow> dx_stream_t option \<Rightarrow> dx_event_t option option \<Rightarrow>
   status \<times> dx_stream_t option \<times> dx_event_t option option" where
  "dx_stream_record_event plat lenv env stream out =
    (case (stream, out) of
       (Some s, Some _) \<Rightarrow>
         (case re_throw_new env of
            BadAlloc \<Rightarrow> (-5, stream, Some None)
          | OtherThrow \<Rightarrow> (-6, stream, Some None)
          | NoThrow \<Rightarrow>
              let e0 = \<lparr> ev_sequence = ds_next_sequence s, ev_complete = False, ev_fence = None,
                    ev_wait_handle = False \<rparr>;
                  s1 = s\<lparr>ds_next_sequence := ds_next_sequence s + 1\<rparr>;
                  on_device = (plat = Windows \<and> ds_queue s \<noteq> None \<and> ds_device s)
              in if on_device \<and> \<not> re_fence env then (-2, Some s1, Some None)
              else if on_device \<and> \<not> re_event env then (-3, Some s1, Some None)
              else if on_device \<and> \<not> re_signal env then (-4, Some s1, Some None)
              else
                let e1 = (if on_device then e0\<lparr>ev_fence := Some 0, ev_wait_handle := True\<rparr>
                     else e0\<lparr>ev_complete := True\<rparr>)
                in (case re_throw_log env of
                      BadAlloc \<Rightarrow> (-5, Some s1, Some None)
                    | OtherThrow \<Rightarrow> (-6, Some s1, Some None)
                    | NoThrow \<Rightarrow>
                        (0, Some (stream_log_debug lenv s1
                             (''event_recorded sequence='' @ to_string_u64 (ev_sequence e1))),
                         Some (Some e1))))
     | _ \<Rightarrow> (-1, stream, out))"

section \<open>Waiting\<close>

datatype wait_result = WAIT_OBJECT_0 | WAIT_TIMEOUT | WAIT_FAILED

record wait_env =
  we_set_event :: bool
  we_wait :: wait_result

text \<open>
  \<open>dx_event_wait\<close>. \<open>None\<close> is a call that never returns: an unbounded wait on a host event that
  is not complete (nothing completes a host event after it was recorded).
\<close>

definition dx_event_wait ::
  "platform \<Rightarrow> wait_env \<Rightarrow> dx_event_t option \<Rightarrow> u32 \<Rightarrow> status option" where
  "dx_event_wait plat env event timeout_ms =
    (case event of
       None \<Rightarrow> Some (-1)
     | Some e \<Rightarrow>
         (case (plat, ev_fence e, ev_wait_handle e) of
            (Windows, Some completed, True) \<Rightarrow>
              if completed \<ge> ev_sequence e then Some 0
              else if \<not> we_set_event env then Some (-2)
              else Some (case we_wait env of WAIT_OBJECT_0 \<Rightarrow> 0 | WAIT_TIMEOUT \<Rightarrow> 1 | WAIT_FAILED \<Rightarrow> -3)
          | _ \<Rightarrow>
              if timeout_ms = UINT32_MAX then (if ev_complete e then Some 0 else None)
              else Some (if ev_complete e then 0 else 1)))"

definition dx_event_is_complete :: "platform \<Rightarrow> dx_event_t option \<Rightarrow> status" where
  "dx_event_is_complete plat event =
    (case event of
       None \<Rightarrow> 0
     | Some e \<Rightarrow>
         (case (plat, ev_fence e) of
            (Windows, Some completed) \<Rightarrow> if completed \<ge> ev_sequence e then 1 else 0
          | _ \<Rightarrow> if ev_complete e then 1 else 0))"

definition dx_event_sequence :: "dx_event_t option \<Rightarrow> u64" where
  "dx_event_sequence event = (case event of None \<Rightarrow> 0 | Some e \<Rightarrow> ev_sequence e)"

text \<open>\<open>~dx_event_t\<close>: whether a wait handle is closed.\<close>

definition dx_event_destroy :: "platform \<Rightarrow> dx_event_t option \<Rightarrow> bool" where
  "dx_event_destroy plat event =
    (plat = Windows \<and> (case event of None \<Rightarrow> False | Some e \<Rightarrow> ev_wait_handle e))"

section \<open>A stream with its device\<close>

record timeline =
  tl_stream :: dx_stream_t
  tl_events :: "dx_event_t list"

text \<open>The device executes the oldest pending signal, if there is one.\<close>

fun signal_first :: "dx_event_t list \<Rightarrow> dx_event_t list" where
  "signal_first [] = []"
| "signal_first (e # es) =
    (case ev_fence e of
       Some completed \<Rightarrow>
         if completed < ev_sequence e then e\<lparr>ev_fence := Some (ev_sequence e)\<rparr> # es
         else e # signal_first es
     | None \<Rightarrow> e # signal_first es)"

text \<open>
  The timelines reachable from a new stream, with the number of record calls made so far;
  failed calls count too, since they may use up a sequence number.
\<close>

inductive timeline_run :: "platform \<Rightarrow> nat \<Rightarrow> timeline \<Rightarrow> bool" for plat where
  run_create: "create_stream_internal plat lenv thr thr_log queue_ok native kind out = (0, Some (Some s)) \<Longrightarrow>
      timeline_run plat 0 \<lparr> tl_stream = s, tl_events = [] \<rparr>"
| run_record: "\<lbrakk>timeline_run plat n t;
      dx_stream_record_event plat lenv env (Some (tl_stream t)) (Some old) = (st, Some s', Some out)\<rbrakk> \<Longrightarrow>
      timeline_run plat (Suc n)
        \<lparr> tl_stream = s', tl_events = tl_events t @ (case out of None \<Rightarrow> [] | Some e \<Rightarrow> [e]) \<rparr>"
| run_device: "timeline_run plat n t \<Longrightarrow> timeline_run plat n (t\<lparr>tl_events := signal_first (tl_events t)\<rparr>)"

section \<open>Invariant\<close>

abbreviation (input) finished :: "platform \<Rightarrow> dx_event_t \<Rightarrow> bool" where
  "finished plat e \<equiv> dx_event_is_complete plat (Some e) = 1"

definition event_ok :: "platform \<Rightarrow> dx_event_t \<Rightarrow> bool" where
  "event_ok plat e \<longleftrightarrow> ev_sequence e \<noteq> 0 \<and>
     (case ev_fence e of
        None \<Rightarrow> ev_complete e \<and> \<not> ev_wait_handle e
      | Some c \<Rightarrow> plat = Windows \<and> ev_wait_handle e \<and> \<not> ev_complete e \<and> (c = 0 \<or> c = ev_sequence e))"

definition timeline_ok :: "platform \<Rightarrow> timeline \<Rightarrow> bool" where
  "timeline_ok plat t \<longleftrightarrow>
     (\<forall>e \<in> set (tl_events t). event_ok plat e \<and> ev_sequence e < ds_next_sequence (tl_stream t) \<and>
        (ev_fence e = None \<longleftrightarrow> \<not> (plat = Windows \<and> ds_queue (tl_stream t) \<noteq> None \<and> ds_device (tl_stream t)))) \<and>
     sorted_wrt (<) (map ev_sequence (tl_events t)) \<and>
     sorted_wrt (\<lambda>d e. finished plat e \<longrightarrow> finished plat d) (tl_events t)"

lemma record_cases:
  assumes "dx_stream_record_event plat lenv env (Some s) (Some old) = (st, Some s', Some out)"
  shows "ds_queue s' = ds_queue s \<and> ds_device s' = ds_device s \<and>
    (ds_next_sequence s' = ds_next_sequence s \<or> ds_next_sequence s' = ds_next_sequence s + 1) \<and>
    (case out of
       None \<Rightarrow> st < 0
     | Some e \<Rightarrow> st = 0 \<and> ev_sequence e = ds_next_sequence s \<and> ds_next_sequence s' = ds_next_sequence s + 1 \<and>
         (if plat = Windows \<and> ds_queue s \<noteq> None \<and> ds_device s
          then ev_fence e = Some 0 \<and> ev_wait_handle e \<and> \<not> ev_complete e
          else ev_fence e = None \<and> ev_complete e \<and> \<not> ev_wait_handle e))"
proof (cases "re_throw_new env = NoThrow")
  case False
  then show ?thesis using assms by (cases "re_throw_new env") (auto simp: dx_stream_record_event_def)
next
  case True
  show ?thesis
  proof (cases "plat = Windows \<and> ds_queue s \<noteq> None \<and> ds_device s")
    case dev: True
    show ?thesis
      using assms
      by (simp only: dx_stream_record_event_def True dev option.case prod.case thrown.case Let_def
            simp_thms if_True split: if_splits thrown.splits)
        (auto simp: stream_log_debug_def dev)
  next
    case host: False
    show ?thesis
      using assms
      by (simp only: dx_stream_record_event_def True host option.case prod.case thrown.case Let_def
            simp_thms if_False split: if_splits thrown.splits)
        (auto simp: stream_log_debug_def host)
  qed
qed

lemma finished_iff:
  assumes "event_ok plat e"
  shows "finished plat e \<longleftrightarrow> ev_fence e = None \<or> ev_fence e = Some (ev_sequence e)"
proof (cases "ev_fence e")
  case None
  then show ?thesis
    using assms by (cases plat) (simp_all add: event_ok_def dx_event_is_complete_def)
next
  case (Some c)
  then have "plat = Windows" "c = 0 \<or> c = ev_sequence e" "\<not> ev_sequence e \<le> 0"
    using assms by (auto simp: event_ok_def)
  with Some show ?thesis by (auto simp: dx_event_is_complete_def)
qed

lemma signal_first_sequences [simp]: "map ev_sequence (signal_first es) = map ev_sequence es"
  by (induction es rule: signal_first.induct) (auto split: option.splits)

lemma signal_first_ok:
  "\<forall>e \<in> set es. event_ok plat e \<Longrightarrow> \<forall>e \<in> set (signal_first es). event_ok plat e"
  by (induction es rule: signal_first.induct) (auto simp: event_ok_def split: option.splits)

lemma signal_first_fence:
  "\<forall>e \<in> set es. P (ev_sequence e) (ev_fence e = None) \<Longrightarrow>
    \<forall>e \<in> set (signal_first es). P (ev_sequence e) (ev_fence e = None)"
  by (induction es rule: signal_first.induct) (auto split: option.splits)

lemma signal_first_finished:
  assumes "\<forall>e \<in> set es. event_ok plat e" "sorted_wrt (\<lambda>d e. finished plat e \<longrightarrow> finished plat d) es"
  shows "sorted_wrt (\<lambda>d e. finished plat e \<longrightarrow> finished plat d) (signal_first es)"
  using assms
proof (induction es)
  case (Cons e es)
  show ?case
  proof (cases "finished plat e")
    case True
    then have "signal_first (e # es) = e # signal_first es"
      using Cons.prems(1) finished_iff [of plat e] by (auto split: option.splits)
    then show ?thesis using Cons True by simp
  next
    case False
    moreover have e: "event_ok plat e" using Cons.prems(1) by simp
    ultimately have f: "ev_fence e = Some 0" "plat = Windows"
      using finished_iff [OF e] by (auto simp: event_ok_def split: option.splits)
    moreover have "0 < ev_sequence e" using e by (simp add: event_ok_def word_gt_0)
    ultimately have "signal_first (e # es) = e\<lparr>ev_fence := Some (ev_sequence e)\<rparr> # es" by simp
    moreover have "finished plat (e\<lparr>ev_fence := Some (ev_sequence e)\<rparr>)"
      by (simp add: dx_event_is_complete_def f)
    ultimately show ?thesis using Cons.prems(2) by simp
  qed
qed simp

lemma create_stream_sequence:
  "create_stream_internal plat lenv thr thr_log queue_ok native kind out = (0, Some (Some s)) \<Longrightarrow>
    ds_next_sequence s = 1"
  by (auto simp: create_stream_internal_def stream_log_debug_def Let_def
      split: thrown.splits prod.splits if_splits)

lemma u64_succ: "unat (x :: u64) < 18446744073709551615 \<Longrightarrow> unat (x + 1) = unat x + 1"
  using u64_add_unat [of x 1] by simp

lemma timeline_run_ok:
  "timeline_run plat n t \<Longrightarrow> n < 18446744073709551615 \<Longrightarrow>
    timeline_ok plat t \<and> 0 < unat (ds_next_sequence (tl_stream t)) \<and>
    unat (ds_next_sequence (tl_stream t)) \<le> Suc n"
proof (induction rule: timeline_run.induct)
  case (run_create lenv thr thr_log queue_ok native kind out s)
  then show ?case by (simp add: timeline_ok_def create_stream_sequence)
next
  case (run_record n t lenv env old st s' out)
  let ?s = "tl_stream t"
  note r = record_cases [OF run_record.hyps(2)]
  have ih: "timeline_ok plat t" "0 < unat (ds_next_sequence ?s)" "unat (ds_next_sequence ?s) \<le> Suc n"
    using run_record by auto
  have succ: "unat (ds_next_sequence ?s + 1) = unat (ds_next_sequence ?s) + 1"
    using ih(3) run_record.prems by (intro u64_succ) simp
  then have lt: "ds_next_sequence ?s < ds_next_sequence ?s + 1" by (simp add: word_less_nat_alt)
  have q: "ds_queue s' = ds_queue ?s" "ds_device s' = ds_device ?s"
    and nx: "ds_next_sequence s' = ds_next_sequence ?s \<or> ds_next_sequence s' = ds_next_sequence ?s + 1"
    using r by simp_all
  have lt': "x < ds_next_sequence s'" if "x < ds_next_sequence ?s" for x
    using nx lt that by (metis less_trans)
  have bound: "0 < unat (ds_next_sequence s')" "unat (ds_next_sequence s') \<le> Suc (Suc n)"
    using nx succ ih(2,3) by auto
  have old: "event_ok plat d" "ev_sequence d < ds_next_sequence ?s"
      "ev_fence d = None \<longleftrightarrow> \<not> (plat = Windows \<and> ds_queue ?s \<noteq> None \<and> ds_device ?s)"
    if "d \<in> set (tl_events t)" for d
    using ih(1) that by (simp_all add: timeline_ok_def)
  have sorted: "sorted_wrt (<) (map ev_sequence (tl_events t))"
      "sorted_wrt (\<lambda>d e. finished plat e \<longrightarrow> finished plat d) (tl_events t)"
    using ih(1) by (simp_all add: timeline_ok_def)
  show ?case
  proof (cases out)
    case None
    then show ?thesis
      using old lt' sorted bound by (simp add: timeline_ok_def q)
  next
    case (Some e)
    have e: "ev_sequence e = ds_next_sequence ?s" "ds_next_sequence s' = ds_next_sequence ?s + 1"
      "if plat = Windows \<and> ds_queue ?s \<noteq> None \<and> ds_device ?s
       then ev_fence e = Some 0 \<and> ev_wait_handle e \<and> \<not> ev_complete e
       else ev_fence e = None \<and> ev_complete e \<and> \<not> ev_wait_handle e"
      using r Some by simp_all
    have ok: "event_ok plat e"
      using e(3) ih(2) by (auto simp: event_ok_def unat_gt_0 e(1) split: if_splits)
    have fence: "ev_fence e = None \<longleftrightarrow> \<not> (plat = Windows \<and> ds_queue ?s \<noteq> None \<and> ds_device ?s)"
      using e(3) by (simp split: if_splits)
    have "finished plat d" if d: "d \<in> set (tl_events t)" and f: "finished plat e" for d
    proof -
      have "ev_fence e \<noteq> Some (ev_sequence e)" using e(1,3) ih(2) by (auto simp: unat_gt_0 split: if_splits)
      then have "ev_fence e = None" using f finished_iff [OF ok] by simp
      then have "ev_fence d = None" using fence old(3) [OF d] by simp
      then show ?thesis using finished_iff [OF old(1) [OF d]] by simp
    qed
    then show ?thesis
      using old lt' sorted bound ok fence lt e(1,2) Some
      by (simp add: timeline_ok_def sorted_wrt_append q)
  qed
next
  case (run_device n t)
  then have ih: "timeline_ok plat t" by simp
  let ?P = "\<lambda>sq b. sq < ds_next_sequence (tl_stream t) \<and>
      (b \<longleftrightarrow> \<not> (plat = Windows \<and> ds_queue (tl_stream t) \<noteq> None \<and> ds_device (tl_stream t)))"
  have "\<forall>e \<in> set (signal_first (tl_events t)). ?P (ev_sequence e) (ev_fence e = None)"
    using ih by (intro signal_first_fence) (simp add: timeline_ok_def)
  moreover have "\<forall>e \<in> set (signal_first (tl_events t)). event_ok plat e"
    using ih by (intro signal_first_ok) (simp add: timeline_ok_def)
  moreover have "sorted_wrt (\<lambda>d e. finished plat e \<longrightarrow> finished plat d) (signal_first (tl_events t))"
    using ih by (intro signal_first_finished) (simp_all add: timeline_ok_def)
  ultimately show ?case using run_device ih by (simp add: timeline_ok_def)
qed

text \<open>
  Events of a stream are ordered: over every run of a stream, with any failures, the events
  handed out carry strictly increasing non-zero sequence numbers, and they complete in that
  order: an event that reports completion implies that every event recorded before it does.
\<close>

theorem stream_events_ordered:
  assumes "timeline_run plat n t" "n < 18446744073709551615" "i < j" "j < length (tl_events t)"
  shows "0 < dx_event_sequence (Some (tl_events t ! i)) \<and>
    dx_event_sequence (Some (tl_events t ! i)) < dx_event_sequence (Some (tl_events t ! j)) \<and>
    (dx_event_is_complete plat (Some (tl_events t ! j)) = 1 \<longrightarrow>
      dx_event_is_complete plat (Some (tl_events t ! i)) = 1)"
proof -
  have ok: "timeline_ok plat t" using timeline_run_ok [OF assms(1,2)] by simp
  then have "event_ok plat (tl_events t ! i)" using assms(3,4) by (simp add: timeline_ok_def)
  with ok show ?thesis
    using assms(3,4)
    by (auto simp: timeline_ok_def event_ok_def dx_event_sequence_def sorted_wrt_iff_nth_less word_gt_0)
qed

definition example_record_env :: record_env where
  "example_record_env = \<lparr> re_throw_new = NoThrow, re_fence = True, re_event = True, re_signal = True,
     re_throw_log = NoThrow \<rparr>"

lemma example_record:
  "\<exists>s' e. dx_stream_record_event plat example_log_env example_record_env (Some s) (Some None) =
     (0, Some s', Some (Some e))"
  by (simp add: dx_stream_record_event_def example_record_env_def Let_def)

lemma example_timeline:
  "\<exists>t. timeline_run plat 2 t \<and> length (tl_events t) = 2 \<and>
     (plat = Portable \<longrightarrow> ds_queue (tl_stream t) = None)"
proof -
  have "\<exists>s. create_stream_internal plat example_log_env NoThrow NoThrow True True 0 (Some None) = (0, Some (Some s)) \<and>
      (plat = Portable \<longrightarrow> ds_queue s = None)"
    by (auto simp: create_stream_internal_def dx_component_logger_create_def valid_kind_def Let_def
        stream_log_debug_def)
  then obtain s where s: "create_stream_internal plat example_log_env NoThrow NoThrow True True 0 (Some None) = (0, Some (Some s))"
    "plat = Portable \<longrightarrow> ds_queue s = None" by blast
  obtain s1 e1 where r1: "dx_stream_record_event plat example_log_env example_record_env (Some s) (Some None) =
     (0, Some s1, Some (Some e1))" using example_record by blast
  obtain s2 e2 where r2: "dx_stream_record_event plat example_log_env example_record_env (Some s1) (Some None) =
     (0, Some s2, Some (Some e2))" using example_record by blast
  have "timeline_run plat 1 \<lparr> tl_stream = s1, tl_events = [e1] \<rparr>"
    using run_record [OF run_create [OF s(1)], of example_log_env example_record_env None 0 s1 "Some e1"] r1
    by simp
  from run_record [OF this, of example_log_env example_record_env None 0 s2 "Some e2"] r2
  have "timeline_run plat 2 \<lparr> tl_stream = s2, tl_events = [e1, e2] \<rparr>" by (simp add: numeral_2_eq_2)
  moreover have "ds_queue s2 = ds_queue s" using record_cases [OF r1] record_cases [OF r2] by simp
  ultimately show ?thesis using s(2) by (intro exI [of _ "\<lparr> tl_stream = s2, tl_events = [e1, e2] \<rparr>"]) simp
qed

theorem stream_events_ordered_witness:
  "\<exists>t. timeline_run Windows 2 t \<and>
     dx_event_sequence (Some (tl_events t ! 0)) < dx_event_sequence (Some (tl_events t ! 1))"
  using example_timeline [of Windows] stream_events_ordered [of Windows 2 _ 0 1] by fastforce

text \<open>
  Waiting agrees with asking, and a host event never blocks: for every event of a run, a
  wait returns 0 whenever the event reports completion, an event without a device queue is
  complete from the start, and a wait on it returns 0 at once for every timeout.
\<close>

theorem event_wait_completion:
  assumes "timeline_run plat n t" "n < 18446744073709551615" "e \<in> set (tl_events t)"
  shows "(dx_event_is_complete plat (Some e) = 1 \<longrightarrow> dx_event_wait plat env (Some e) timeout = Some 0) \<and>
    (\<not> (plat = Windows \<and> ds_queue (tl_stream t) \<noteq> None \<and> ds_device (tl_stream t)) \<longrightarrow>
      dx_event_is_complete plat (Some e) = 1) \<and>
    (\<exists>st. dx_event_wait plat env (Some e) timeout = Some st)"
proof -
  have ok: "timeline_ok plat t" using timeline_run_ok [OF assms(1,2)] by simp
  then have e: "event_ok plat e" and
    f: "ev_fence e = None \<longleftrightarrow> \<not> (plat = Windows \<and> ds_queue (tl_stream t) \<noteq> None \<and> ds_device (tl_stream t))"
    using assms(3) by (auto simp: timeline_ok_def)
  show ?thesis
  proof (cases "ev_fence e")
    case None
    then have "finished plat e" using finished_iff [OF e] by simp
    moreover have "dx_event_wait plat env (Some e) timeout = Some 0"
      using e None by (auto simp: dx_event_wait_def event_ok_def split: platform.splits)
    ultimately show ?thesis by simp
  next
    case (Some c)
    then have "plat = Windows" "ev_wait_handle e" using e by (auto simp: event_ok_def)
    then show ?thesis
      using Some f by (auto simp: dx_event_wait_def dx_event_is_complete_def)
  qed
qed

theorem event_wait_completion_witness:
  "\<exists>t e. timeline_run Portable 2 t \<and> e \<in> set (tl_events t) \<and>
     dx_event_wait Portable \<lparr> we_set_event = True, we_wait = WAIT_TIMEOUT \<rparr> (Some e) 4294967295 = Some 0"
proof -
  obtain t where t: "timeline_run Portable 2 t" "length (tl_events t) = 2"
    using example_timeline [of Portable] by blast
  then have "tl_events t ! 0 \<in> set (tl_events t)" by simp
  with t(1) event_wait_completion [OF t(1), of "tl_events t ! 0"
      "\<lparr> we_set_event = True, we_wait = WAIT_TIMEOUT \<rparr>" 4294967295]
  show ?thesis by (intro exI [of _ t] exI [of _ "tl_events t ! 0"]) simp
qed

end
