(* ===== verification/TraceSession.thy ===== *)
theory TraceSession
  imports Diagnostics
begin

text \<open>
  Trace sessions and spans and the Chrome-trace export, \<open>src/core/dx_trace_api.cpp\<close>.

  A span points to its event, which the session owns; the pointer is the event's position in
  the session's list (events are never removed). The steady clock is the argument \<open>now\<close>, in
  microseconds. The export is the text written to the file; a reader for that text is the
  specification it is proved against.
\<close>

section \<open>State\<close>

record dx_trace_event_t =
  te_category :: string
  te_name :: string
  te_request_id :: u64
  te_thread_id :: u64
  te_begin_us :: u64
  te_duration_us :: u64
  te_complete :: bool

record dx_trace_session_t =
  ts_logger :: "dx_component_logger_t option"
  ts_name :: string
  ts_origin :: nat
  ts_events :: "dx_trace_event_t list"

record dx_trace_span_t =
  tp_event :: nat
  tp_ended :: bool

section \<open>Operations\<close>

definition trace_escape_char :: "char \<Rightarrow> string" where
  "trace_escape_char ch =
    (if ch = Backslash then [Backslash, Backslash]
     else if ch = Quote then [Backslash, Quote]
     else if ch = Newline then [Backslash, CHR ''n'']
     else if ch = Return then [Backslash, CHR ''r'']
     else [ch])"

definition trace_json_escape :: "string \<Rightarrow> string" where
  "trace_json_escape value' = concat (map trace_escape_char value')"

definition elapsed_us :: "nat \<Rightarrow> dx_trace_session_t \<Rightarrow> u64" where
  "elapsed_us now session = of_nat (now - ts_origin session)"

definition dx_trace_session_create ::
  "platform \<Rightarrow> log_env \<Rightarrow> thrown \<Rightarrow> thrown \<Rightarrow> nat \<Rightarrow> string option \<Rightarrow> dx_trace_session_t option option \<Rightarrow>
   status \<times> dx_trace_session_t option option" where
  "dx_trace_session_create plat lenv thr thr_log now name out =
    (if \<not> valid_text name \<or> out = None then (-1, out)
     else (case thr of
         BadAlloc \<Rightarrow> (-3, Some None)
       | OtherThrow \<Rightarrow> (-4, Some None)
       | NoThrow \<Rightarrow>
           (case dx_component_logger_create plat lenv thr_log (Some ''dxtrace'') (Some None) of
              (st, logger) \<Rightarrow>
                if st \<noteq> 0 then (-2, Some None)
                else (0, Some (Some \<lparr> ts_logger = the logger, ts_name = the name, ts_origin = now,
                        ts_events = [] \<rparr>)))))"

definition dx_trace_session_destroy :: "dx_trace_session_t option \<Rightarrow> ComponentLogger option" where
  "dx_trace_session_destroy session =
    (case session of None \<Rightarrow> None | Some s \<Rightarrow> dx_component_logger_destroy (ts_logger s))"

definition dx_trace_begin ::
  "thrown \<Rightarrow> nat \<Rightarrow> u64 \<Rightarrow> dx_trace_session_t option \<Rightarrow> string option \<Rightarrow> string option \<Rightarrow> u64 \<Rightarrow>
   dx_trace_span_t option option \<Rightarrow> status \<times> dx_trace_session_t option \<times> dx_trace_span_t option option" where
  "dx_trace_begin thr now thread session category name request_id out =
    (case session of
       None \<Rightarrow> (-1, session, out)
     | Some s \<Rightarrow>
         if \<not> valid_text category \<or> \<not> valid_text name \<or> out = None then (-1, session, out)
         else (case thr of
             BadAlloc \<Rightarrow> (-2, session, Some None)
           | OtherThrow \<Rightarrow> (-3, session, Some None)
           | NoThrow \<Rightarrow>
               let event = \<lparr> te_category = the category, te_name = the name,
                     te_request_id = request_id, te_thread_id = thread,
                     te_begin_us = elapsed_us now s, te_duration_us = 0, te_complete = False \<rparr>
               in (0, Some (s\<lparr>ts_events := ts_events s @ [event]\<rparr>),
                   Some (Some \<lparr> tp_event = length (ts_events s), tp_ended = False \<rparr>))))"

definition dx_trace_end ::
  "log_env \<Rightarrow> nat \<Rightarrow> dx_trace_session_t \<Rightarrow> dx_trace_span_t option \<Rightarrow>
   status \<times> dx_trace_session_t \<times> dx_trace_span_t option" where
  "dx_trace_end lenv now session span =
    (case span of
       None \<Rightarrow> (-1, session, span)
     | Some sp \<Rightarrow>
         if tp_ended sp then (-1, session, span)
         else
           let e = ts_events session ! tp_event sp
           in if te_complete e then (-2, session, span)
           else
             let e1 = e\<lparr>te_duration_us := elapsed_us now session - te_begin_us e, te_complete := True\<rparr>;
                 s1 = session\<lparr>ts_events := (ts_events session)[tp_event sp := e1]\<rparr>
             in (0,
                 s1\<lparr>ts_logger := dx_component_logger_write lenv (ts_logger s1)
                     DX_COMPONENT_LEVEL_PERFORMANCE (Some ''trace_span_complete'')
                     (Some ''dx_trace_api.cpp'') 161\<rparr>,
                 Some (sp\<lparr>tp_ended := True\<rparr>)))"

section \<open>Export\<close>

definition trace_event_text :: "dx_trace_event_t \<Rightarrow> string" where
  "trace_event_text e =
     ''{'' @ quoted ''name'' @ '':'' @ quoted (trace_json_escape (te_name e)) @
     '','' @ quoted ''cat'' @ '':'' @ quoted (trace_json_escape (te_category e)) @
     '','' @ quoted ''ph'' @ '':'' @ quoted ''X'' @
     '','' @ quoted ''ts'' @ '':'' @ to_string_u64 (te_begin_us e) @
     '','' @ quoted ''dur'' @ '':'' @ to_string_u64 (te_duration_us e) @
     '','' @ quoted ''pid'' @ '':1'' @
     '','' @ quoted ''tid'' @ '':'' @ to_string_u64 (te_thread_id e) @
     '','' @ quoted ''args'' @ '':{'' @ quoted ''request_id'' @ '':'' @ to_string_u64 (te_request_id e) @ ''}}''"

text \<open>The loop over the events; \<open>first\<close> says that no event was written yet.\<close>

fun export_events :: "bool \<Rightarrow> dx_trace_event_t list \<Rightarrow> string" where
  "export_events first [] = []"
| "export_events first (e # es) =
    (if \<not> te_complete e then export_events first es
     else (if first then [] else '','') @ trace_event_text e @ export_events False es)"

definition trace_text :: "dx_trace_session_t \<Rightarrow> string" where
  "trace_text s = ''{'' @ quoted ''traceEvents'' @ '':['' @ export_events True (ts_events s) @ '']}'' @ [Newline]"

text \<open>
  \<open>dx_trace_export\<close>: status and the contents the file ends up with (\<open>None\<close>: not opened). The
  flags say whether the file opens, whether the stream is still good, and whether a call throws.
\<close>

definition dx_trace_export ::
  "bool \<Rightarrow> bool \<Rightarrow> bool \<Rightarrow> dx_trace_session_t option \<Rightarrow> string option \<Rightarrow> status \<times> string option" where
  "dx_trace_export opens good throws session path =
    (case session of
       None \<Rightarrow> (-1, None)
     | Some s \<Rightarrow>
         if \<not> valid_text path then (-1, None)
         else if throws then (-4, None)
         else if \<not> opens then (-2, None)
         else (if good then 0 else -3, Some (trace_text s)))"

definition dx_trace_event_count :: "dx_trace_session_t option \<Rightarrow> u64" where
  "dx_trace_event_count session = (case session of None \<Rightarrow> 0 | Some s \<Rightarrow> of_nat (length (ts_events s)))"

section \<open>A reader for the exported text\<close>

fun expect :: "string \<Rightarrow> string \<Rightarrow> string option" where
  "expect [] s = Some s"
| "expect (c # cs) [] = None"
| "expect (c # cs) (d # ds) = (if c = d then expect cs ds else None)"

definition read_number :: "string \<Rightarrow> (nat \<times> string) option" where
  "read_number s = (case takeWhile is_digit s of [] \<Rightarrow> None
     | ds \<Rightarrow> Some (read_dec 0 ds, dropWhile is_digit s))"

type_synonym read_record = "string \<times> string \<times> nat \<times> nat \<times> nat \<times> nat"

definition read_event :: "string \<Rightarrow> (read_record \<times> string) option" where
  "read_event s0 =
    Option.bind (expect (''{'' @ quoted ''name'' @ '':'' @ [Quote]) s0) (\<lambda>s1.
    Option.bind (json_string_body s1) (\<lambda>(name, s2).
    Option.bind (expect ('','' @ quoted ''cat'' @ '':'' @ [Quote]) s2) (\<lambda>s3.
    Option.bind (json_string_body s3) (\<lambda>(cat, s4).
    Option.bind (expect ('','' @ quoted ''ph'' @ '':'' @ quoted ''X'' @ '','' @ quoted ''ts'' @ '':'') s4) (\<lambda>s5.
    Option.bind (read_number s5) (\<lambda>(ts, s6).
    Option.bind (expect ('','' @ quoted ''dur'' @ '':'') s6) (\<lambda>s7.
    Option.bind (read_number s7) (\<lambda>(dur, s8).
    Option.bind (expect ('','' @ quoted ''pid'' @ '':1'' @ '','' @ quoted ''tid'' @ '':'') s8) (\<lambda>s9.
    Option.bind (read_number s9) (\<lambda>(tid, s10).
    Option.bind (expect ('','' @ quoted ''args'' @ '':{'' @ quoted ''request_id'' @ '':'') s10) (\<lambda>s11.
    Option.bind (read_number s11) (\<lambda>(rid, s12).
    Option.bind (expect ''}}'' s12) (\<lambda>s13.
    Some ((name, cat, ts, dur, tid, rid), s13))))))))))))))"

text \<open>Reads the comma-separated events up to the closing bracket; fuel bounds their number.\<close>

fun read_events :: "nat \<Rightarrow> string \<Rightarrow> read_record list option" where
  "read_events 0 s = None"
| "read_events (Suc fuel) s =
    (case read_event s of
       None \<Rightarrow> None
     | Some (r, rest) \<Rightarrow>
         if expect ('']}'' @ [Newline]) rest = Some [] then Some [r]
         else (case expect '','' rest of
             None \<Rightarrow> None | Some rest' \<Rightarrow> map_option ((#) r) (read_events fuel rest')))"

definition read_trace :: "nat \<Rightarrow> string \<Rightarrow> read_record list option" where
  "read_trace fuel s =
    (case expect (''{'' @ quoted ''traceEvents'' @ '':['') s of
       None \<Rightarrow> None
     | Some rest \<Rightarrow> if expect ('']}'' @ [Newline]) rest = Some [] then Some [] else read_events fuel rest)"

definition event_record :: "dx_trace_event_t \<Rightarrow> read_record" where
  "event_record e = (te_name e, te_category e, unat (te_begin_us e), unat (te_duration_us e),
     unat (te_thread_id e), unat (te_request_id e))"

lemma expect_append [simp]: "expect p (p @ r) = Some r"
  by (induction p) auto

lemma read_number_digits:
  assumes "r = [] \<or> \<not> is_digit (hd r)"
  shows "read_number (dec_digits n @ r) = Some (n, r)"
proof -
  have d: "\<forall>c \<in> set (dec_digits n). is_digit c" by (simp add: dec_digits_digit)
  then have "takeWhile is_digit (dec_digits n @ r) = dec_digits n"
    using assms by (cases r) (simp_all add: takeWhile_append)
  moreover have "dropWhile is_digit (dec_digits n @ r) = r"
    using d assms by (cases r) (simp_all add: dropWhile_append)
  moreover have "read_number x = (if takeWhile is_digit x = [] then None
      else Some (read_dec 0 (takeWhile is_digit x), dropWhile is_digit x))" for x
    by (simp only: read_number_def split: list.split) simp
  ultimately show ?thesis by (simp add: read_dec_digits)
qed

definition trace_char :: "char \<Rightarrow> bool" where
  "trace_char c \<longleftrightarrow> 32 \<le> (of_char c :: nat) \<or> c \<in> {Newline, Return}"

lemma trace_escape_step:
  assumes "trace_char c" "json_string_body r = Some (s, t)"
  shows "json_string_body (trace_escape_char c @ r) = Some (c # s, t)"
  using assms by (auto simp: trace_char_def trace_escape_char_def json_unescape_def)

lemma trace_escape_body:
  "\<forall>c \<in> set s. trace_char c \<Longrightarrow> json_string_body (trace_json_escape s @ Quote # rest) = Some (s, rest)"
  unfolding trace_json_escape_def by (intro json_body_concat trace_escape_step) auto

text \<open>A tab is written as it is, which a JSON reader rejects.\<close>

lemma trace_escape_tab: "json_string_body (trace_json_escape [Tab] @ Quote # rest) = None"
  by (simp add: trace_json_escape_def trace_escape_char_def)

definition plain_event :: "dx_trace_event_t \<Rightarrow> bool" where
  "plain_event e \<longleftrightarrow> (\<forall>c \<in> set (te_name e). trace_char c) \<and> (\<forall>c \<in> set (te_category e). trace_char c)"

lemma quoted_append: "quoted a @ b = Quote # a @ Quote # b"
  by (simp add: quoted_def)

lemma read_event_text:
  assumes "plain_event e"
  shows "read_event (trace_event_text e @ rest) = Some (event_record e, rest)"
  using assms
  by (simp add: read_event_def trace_event_text_def event_record_def quoted_def plain_event_def
      trace_escape_body to_string_u64_def read_number_digits is_digit_def)

lemma export_none: "filter te_complete es = [] \<Longrightarrow> export_events first es = []"
  by (induction es) (auto split: if_splits)

lemma export_starts:
  "filter te_complete es \<noteq> [] \<Longrightarrow> \<exists>t. export_events True es = CHR ''{'' # t"
  by (induction es) (auto simp: trace_event_text_def split: if_splits)

lemma export_events_read:
  assumes "\<forall>e \<in> set es. plain_event e" "filter te_complete es \<noteq> []" "length (filter te_complete es) \<le> fuel"
  shows "\<exists>t. export_events first es = (if first then [] else '','') @ t \<and>
    read_events fuel (t @ '']}'' @ [Newline]) = Some (map event_record (filter te_complete es))"
  using assms
proof (induction es arbitrary: first fuel)
  case (Cons e es)
  show ?case
  proof (cases "te_complete e")
    case False
    with Cons.IH [of fuel first] Cons.prems show ?thesis by simp
  next
    case True
    obtain f where f: "fuel = Suc f" using Cons.prems(3) True by (cases fuel) auto
    have pe: "plain_event e" using Cons.prems(1) by simp
    show ?thesis
    proof (cases "filter te_complete es = []")
      case None: True
      then have "export_events False es = []" by (rule export_none)
      then show ?thesis
        using True None f read_event_text [OF pe, of "'']}'' @ [Newline]"] by simp
    next
      case more: False
      then obtain t where t: "export_events False es = '','' @ t"
        "read_events f (t @ '']}'' @ [Newline]) = Some (map event_record (filter te_complete es))"
        using Cons.IH [of f False] Cons.prems True f by auto
      have "read_event (trace_event_text e @ '','' @ t @ '']}'' @ [Newline]) =
          Some (event_record e, '','' @ t @ '']}'' @ [Newline])"
        by (rule read_event_text [OF pe])
      then show ?thesis using True f t by simp
    qed
  qed
qed simp

text \<open>
  C18. The exported file is a faithful record: whenever names and categories contain no control
  characters other than line breaks, reading the exported text back gives exactly the completed
  spans of the session, in the order in which they began, each with its name, category, start,
  duration, thread and request id; spans that never ended are left out.
\<close>

theorem trace_export_roundtrip:
  assumes "\<forall>e \<in> set (ts_events s). plain_event e" "path \<noteq> []"
  shows "\<exists>txt. dx_trace_export True True False (Some s) (Some path) = (0, Some txt) \<and>
    read_trace (length (ts_events s)) txt = Some (map event_record (filter te_complete (ts_events s)))"
proof -
  have "read_trace (length (ts_events s)) (trace_text s) =
      Some (map event_record (filter te_complete (ts_events s)))"
  proof (cases "filter te_complete (ts_events s) = []")
    case True
    then have "export_events True (ts_events s) = []" by (rule export_none)
    then show ?thesis using True by (simp add: read_trace_def trace_text_def quoted_def)
  next
    case False
    obtain t where t: "export_events True (ts_events s) = t"
      "read_events (length (ts_events s)) (t @ '']}'' @ [Newline]) =
         Some (map event_record (filter te_complete (ts_events s)))"
      using export_events_read [OF assms(1) False, of "length (ts_events s)" True] by auto
    moreover from t False have "expect ('']}'' @ [Newline]) (t @ '']}'' @ [Newline]) \<noteq> Some []"
      using export_starts [OF False] by auto
    ultimately show ?thesis by (simp add: read_trace_def trace_text_def quoted_def)
  qed
  then show ?thesis using assms(2) by (simp add: dx_trace_export_def)
qed

definition example_event :: "string \<Rightarrow> bool \<Rightarrow> dx_trace_event_t" where
  "example_event name c = \<lparr> te_category = ''io'', te_name = name, te_request_id = 42, te_thread_id = 7,
     te_begin_us = 100, te_duration_us = 15, te_complete = c \<rparr>"

definition example_session :: dx_trace_session_t where
  "example_session = \<lparr> ts_logger = None, ts_name = ''demo'', ts_origin = 0,
     ts_events = [example_event ''re,ad'' True, example_event ''never'' False,
       example_event [CHR ''a'', Quote, CHR ''b''] True] \<rparr>"

theorem trace_export_roundtrip_witness:
  "\<exists>txt. dx_trace_export True True False (Some example_session) (Some ''t.json'') = (0, Some txt) \<and>
     read_trace 3 txt = Some [(''re,ad'', ''io'', 100, 15, 7, 42), ([CHR ''a'', Quote, CHR ''b''], ''io'', 100, 15, 7, 42)]"
proof -
  have "\<forall>e \<in> set (ts_events example_session). plain_event e"
    by (simp add: example_session_def example_event_def plain_event_def trace_char_def)
  moreover have "map event_record (filter te_complete (ts_events example_session)) =
      [(''re,ad'', ''io'', 100, 15, 7, 42), ([CHR ''a'', Quote, CHR ''b''], ''io'', 100, 15, 7, 42)]"
    by (simp add: example_session_def example_event_def event_record_def)
  moreover have "length (ts_events example_session) = 3" by (simp add: example_session_def)
  ultimately show ?thesis using trace_export_roundtrip [of example_session "''t.json''"] by simp
qed

section \<open>Life of a span\<close>

text \<open>A session with the spans its callers hold, after any sequence of calls.\<close>

inductive trace_run :: "dx_trace_session_t \<Rightarrow> dx_trace_span_t list \<Rightarrow> bool" where
  run_create: "dx_trace_session_create plat lenv thr thr_log now name out = (0, Some (Some s)) \<Longrightarrow>
      trace_run s []"
| run_begin: "\<lbrakk>trace_run s sps;
      dx_trace_begin thr now thread (Some s) category name request_id (Some old) = (st, Some s', Some out);
      valid_text category; valid_text name\<rbrakk> \<Longrightarrow>
      trace_run s' (sps @ (case out of None \<Rightarrow> [] | Some sp \<Rightarrow> [sp]))"
| run_end: "\<lbrakk>trace_run s sps; k < length sps;
      dx_trace_end lenv now s (Some (sps ! k)) = (st, s', Some sp')\<rbrakk> \<Longrightarrow>
      trace_run s' (sps[k := sp'])"
| run_drop: "trace_run s (sps1 @ sp # sps2) \<Longrightarrow> trace_run s (sps1 @ sps2)"

definition spans_ok :: "dx_trace_session_t \<Rightarrow> dx_trace_span_t list \<Rightarrow> bool" where
  "spans_ok s sps \<longleftrightarrow> distinct (map tp_event sps) \<and>
     (\<forall>sp \<in> set sps. tp_event sp < length (ts_events s) \<and>
        (te_complete (ts_events s ! tp_event sp) \<longleftrightarrow> tp_ended sp))"

lemma trace_end_open:
  assumes "\<not> tp_ended sp" "\<not> te_complete (ts_events s ! tp_event sp)"
  shows "\<exists>l. dx_trace_end lenv now s (Some sp) =
    (0, s\<lparr>ts_events := (ts_events s)[tp_event sp := (ts_events s ! tp_event sp)
          \<lparr>te_duration_us := elapsed_us now s - te_begin_us (ts_events s ! tp_event sp), te_complete := True\<rparr>],
        ts_logger := l\<rparr>, Some (sp\<lparr>tp_ended := True\<rparr>))"
  using assms by (auto simp: dx_trace_end_def Let_def intro!: exI)

lemma trace_end_ended: "tp_ended sp \<Longrightarrow> dx_trace_end lenv now s (Some sp) = (-1, s, Some sp)"
  by (simp add: dx_trace_end_def)

lemma spans_ok_end:
  assumes "spans_ok s sps" "k < length sps" "dx_trace_end lenv now s (Some (sps ! k)) = (st, s', Some sp')"
  shows "spans_ok s' (sps[k := sp'])"
proof (cases "tp_ended (sps ! k)")
  case True
  then show ?thesis using assms by (auto simp: dx_trace_end_def)
next
  case False
  let ?sp = "sps ! k"
  have sp: "tp_event ?sp < length (ts_events s)" "\<not> te_complete (ts_events s ! tp_event ?sp)"
    using assms(1,2) False by (auto simp: spans_ok_def)
  have ev: "map tp_event (sps[k := ?sp\<lparr>tp_ended := True\<rparr>]) = map tp_event sps"
    by (rule nth_equalityI) (use assms(2) in \<open>simp_all add: nth_list_update\<close>)
  have other: "tp_event (sps ! j) \<noteq> tp_event ?sp" if "j < length sps" "j \<noteq> k" for j
    using assms(1,2) that by (auto simp: spans_ok_def distinct_conv_nth)
  obtain l where r: "s' = s\<lparr>ts_events := (ts_events s)[tp_event ?sp := (ts_events s ! tp_event ?sp)
          \<lparr>te_duration_us := elapsed_us now s - te_begin_us (ts_events s ! tp_event ?sp), te_complete := True\<rparr>],
        ts_logger := l\<rparr>" "sp' = ?sp\<lparr>tp_ended := True\<rparr>"
    using trace_end_open [OF False sp(2), of lenv now] assms(3) by auto
  have "tp_event x < length (ts_events s') \<and> (te_complete (ts_events s' ! tp_event x) \<longleftrightarrow> tp_ended x)"
    if "x \<in> set (sps[k := sp'])" for x
  proof -
    from that obtain j where j: "j < length sps" "x = sps[k := sp'] ! j"
      by (auto simp: in_set_conv_nth)
    show ?thesis
    proof (cases "j = k")
      case True
      then show ?thesis using j sp by (simp add: r)
    next
      case False
      then show ?thesis using j other [OF j(1) False] assms(1) by (simp add: r spans_ok_def)
    qed
  qed
  then show ?thesis using assms(1) ev by (simp add: spans_ok_def r(2))
qed

lemma trace_begin_cases:
  assumes "dx_trace_begin thr now thread (Some s) category name request_id (Some old) = (st, Some s', Some out)"
    "valid_text category" "valid_text name"
  shows "s' = s \<and> out = None \<or>
    (\<exists>e. \<not> te_complete e \<and> s' = s\<lparr>ts_events := ts_events s @ [e]\<rparr> \<and>
       out = Some \<lparr> tp_event = length (ts_events s), tp_ended = False \<rparr>)"
proof (cases thr)
  case NoThrow
  let ?e = "\<lparr> te_category = the category, te_name = the name, te_request_id = request_id,
      te_thread_id = thread, te_begin_us = elapsed_us now s, te_duration_us = 0, te_complete = False \<rparr>"
  show ?thesis
    using assms NoThrow by (intro disjI2 exI [of _ ?e]) (auto simp: dx_trace_begin_def Let_def)
qed (use assms in \<open>auto simp: dx_trace_begin_def\<close>)

lemma trace_run_ok: "trace_run s sps \<Longrightarrow> spans_ok s sps"
proof (induction rule: trace_run.induct)
  case (run_begin s sps thr now thread category name request_id old st s' out)
  note r = trace_begin_cases [OF run_begin.hyps(2-4)]
  have old: "tp_event sp < length (ts_events s)" if "sp \<in> set sps" for sp
    using run_begin.IH that by (simp add: spans_ok_def)
  then have new: "length (ts_events s) \<notin> tp_event ` set sps" by force
  from r show ?case
  proof
    assume "s' = s \<and> out = None"
    then show ?thesis using run_begin.IH by simp
  next
    assume "\<exists>e. \<not> te_complete e \<and> s' = s\<lparr>ts_events := ts_events s @ [e]\<rparr> \<and>
       out = Some \<lparr> tp_event = length (ts_events s), tp_ended = False \<rparr>"
    then show ?thesis
      using run_begin.IH new
      by (auto simp: spans_ok_def nth_append less_Suc_eq image_iff)
  qed
next
  case (run_end s sps k lenv now st s' sp')
  then show ?case by (blast intro: spans_ok_end)
qed (auto simp: spans_ok_def)

text \<open>
  C40. Every span ends exactly once, whatever the other spans do: in any session reached through
  the interface, ending a span succeeds precisely when it has not been ended; success completes
  its own event with the time elapsed since it began and touches no other event, and ending it
  again is refused with -1 without any effect.
\<close>

theorem trace_span_ends_once:
  assumes "trace_run s sps" "k < length sps"
  shows "\<exists>st s' sp'. dx_trace_end lenv now s (Some (sps ! k)) = (st, s', Some sp') \<and>
    (if tp_ended (sps ! k) then st = -1 \<and> s' = s \<and> sp' = sps ! k
     else st = 0 \<and> length (ts_events s') = length (ts_events s) \<and>
       (\<forall>i < length (ts_events s). ts_events s' ! i =
          (if i = tp_event (sps ! k)
           then (ts_events s ! i)\<lparr>te_duration_us := elapsed_us now s - te_begin_us (ts_events s ! i),
                                  te_complete := True\<rparr>
           else ts_events s ! i)) \<and>
       dx_trace_end lenv' now' s' (Some sp') = (-1, s', Some sp'))"
proof (cases "tp_ended (sps ! k)")
  case True
  then show ?thesis by (simp add: trace_end_ended)
next
  case False
  have ok: "spans_ok s sps" using assms(1) by (rule trace_run_ok)
  then have "\<not> te_complete (ts_events s ! tp_event (sps ! k))"
    using assms(2) False by (auto simp: spans_ok_def)
  from trace_end_open [OF False this, of lenv now] obtain l where
    r: "dx_trace_end lenv now s (Some (sps ! k)) =
      (0, s\<lparr>ts_events := (ts_events s)[tp_event (sps ! k) := (ts_events s ! tp_event (sps ! k))
            \<lparr>te_duration_us := elapsed_us now s - te_begin_us (ts_events s ! tp_event (sps ! k)), te_complete := True\<rparr>],
          ts_logger := l\<rparr>, Some ((sps ! k)\<lparr>tp_ended := True\<rparr>))" by blast
  show ?thesis
    unfolding r using False by (simp add: trace_end_ended nth_list_update)
qed

theorem trace_span_ends_once_witness:
  "\<exists>s sp s' sp'. trace_run s [sp] \<and> dx_trace_end example_log_env 9 s (Some sp) = (0, s', Some sp') \<and>
     dx_trace_end example_log_env 12 s' (Some sp') = (-1, s', Some sp')"
proof -
  have "\<exists>s. dx_trace_session_create Portable example_log_env NoThrow NoThrow 3 (Some ''t'') (Some None) =
      (0, Some (Some s))"
    by (simp add: dx_trace_session_create_def dx_component_logger_create_def)
  then obtain s0 where "trace_run s0 []" using run_create by blast
  moreover have "\<exists>s sp. dx_trace_begin NoThrow 5 7 (Some s0) (Some ''c'') (Some ''n'') 1 (Some None) =
      (0, Some s, Some (Some sp)) \<and> \<not> tp_ended sp"
    by (simp add: dx_trace_begin_def)
  ultimately obtain s sp where "trace_run s [sp]" "\<not> tp_ended sp"
    using run_begin [of s0 "[]"] by fastforce
  then show ?thesis
    using trace_span_ends_once [of s "[sp]" 0 example_log_env 9 example_log_env 12] by auto
qed

end
