(* ===== verification/DeviceRuntime.thy ===== *)
theory DeviceRuntime
  imports Diagnostics
begin

text \<open>
  The adapter inventory (\<open>src/core/dx_device_api.cpp\<close>), the runtime handle with its backend
  selection (\<open>src/core/dx_runtime_api.cpp\<close>) and the shader compiler entry point
  (\<open>src/core/dx_shader_api.cpp\<close>).

  DXGI is a parameter: whether the factory can be created and what each adapter index answers
  until \<open>DXGI_ERROR_NOT_FOUND\<close> ends the enumeration (a driver that never answers that is not
  modelled: the loop in the source then does not end). Fixed-size name arrays hold their C
  string.
\<close>

section \<open>Devices\<close>

abbreviation (input) DX_DEVICE_BACKEND_UNKNOWN :: u32 where "DX_DEVICE_BACKEND_UNKNOWN \<equiv> 0"
abbreviation (input) DX_DEVICE_BACKEND_DX12 :: u32 where "DX_DEVICE_BACKEND_DX12 \<equiv> 1"
abbreviation (input) DX_DEVICE_BACKEND_CPU :: u32 where "DX_DEVICE_BACKEND_CPU \<equiv> 2"
abbreviation (input) DX_DEVICE_CAP_COMPUTE :: u32 where "DX_DEVICE_CAP_COMPUTE \<equiv> 1"
abbreviation (input) DX_DEVICE_CAP_FP16 :: u32 where "DX_DEVICE_CAP_FP16 \<equiv> 2"
abbreviation (input) DX_DEVICE_CAP_CPU_REFERENCE :: u32 where "DX_DEVICE_CAP_CPU_REFERENCE \<equiv> 2147483648"

record dx_device_info_t =
  di_struct_size :: u32
  di_api_version :: u32
  di_backend :: u32
  di_vendor_id :: u32
  di_device_id :: u32
  di_capabilities :: u32
  di_is_software :: u32
  di_dedicated_video_memory :: u64
  di_dedicated_system_memory :: u64
  di_shared_system_memory :: u64
  di_name :: string

text \<open>Seven 32-bit fields, padding, three 64-bit fields and 128 characters.\<close>

abbreviation (input) sizeof_device_info :: u32 where "sizeof_device_info \<equiv> 184"

record dxgi_adapter_desc =
  ad_vendor_id :: u32
  ad_device_id :: u32
  ad_flags :: u32
  ad_dedicated_video_memory :: u64
  ad_dedicated_system_memory :: u64
  ad_shared_system_memory :: u64
  ad_name :: "string option"

datatype adapter_probe = EnumFailed | DescFailed | Adapter dxgi_adapter_desc

record dx_execution_device_t =
  xd_backend :: u32
  xd_dx12_device :: "nat option"

record dx_device_manager_t =
  dm_logger :: "dx_component_logger_t option"
  dm_devices :: "dx_device_info_t list"
  dm_adapters :: "nat list"

definition device_log :: "log_env \<Rightarrow> u32 \<Rightarrow> dx_device_manager_t \<Rightarrow> string \<Rightarrow> dx_device_manager_t" where
  "device_log lenv level m message =
     m\<lparr>dm_logger := dx_component_logger_write lenv (dm_logger m) level (Some message)
       (Some ''dx_device_api.cpp'') 46\<rparr>"

definition initialize_cpu_info :: dx_device_info_t where
  "initialize_cpu_info =
    \<lparr> di_struct_size = sizeof_device_info, di_api_version = 1, di_backend = DX_DEVICE_BACKEND_CPU,
      di_vendor_id = 0, di_device_id = 0, di_capabilities = DX_DEVICE_CAP_CPU_REFERENCE,
      di_is_software = 1, di_dedicated_video_memory = 0, di_dedicated_system_memory = 0,
      di_shared_system_memory = 0, di_name = ''CPU reference backend'' \<rparr>"

definition adapter_info :: "dxgi_adapter_desc \<Rightarrow> dx_device_info_t" where
  "adapter_info d =
    \<lparr> di_struct_size = sizeof_device_info, di_api_version = 1, di_backend = DX_DEVICE_BACKEND_DX12,
      di_vendor_id = ad_vendor_id d, di_device_id = ad_device_id d,
      di_capabilities = DX_DEVICE_CAP_COMPUTE OR DX_DEVICE_CAP_FP16, di_is_software = 0,
      di_dedicated_video_memory = ad_dedicated_video_memory d,
      di_dedicated_system_memory = ad_dedicated_system_memory d,
      di_shared_system_memory = ad_shared_system_memory d,
      di_name = (case ad_name d of None \<Rightarrow> [] | Some n \<Rightarrow> n) \<rparr>"

text \<open>Bit 2 of the flags is \<open>DXGI_ADAPTER_FLAG3_SOFTWARE\<close>.\<close>

definition software_adapter :: "dxgi_adapter_desc \<Rightarrow> bool" where
  "software_adapter d \<longleftrightarrow> ad_flags d AND 2 \<noteq> 0"

fun enumerate_adapters ::
  "log_env \<Rightarrow> nat \<Rightarrow> adapter_probe list \<Rightarrow> dx_device_manager_t \<Rightarrow> dx_device_manager_t" where
  "enumerate_adapters lenv index [] m = m"
| "enumerate_adapters lenv index (p # ps) m =
    enumerate_adapters lenv (Suc index) ps
      (case p of
         EnumFailed \<Rightarrow> device_log lenv DX_COMPONENT_LEVEL_DIAGNOSTIC m
           (''EnumAdapterByGpuPreference failed index='' @ dec_digits index)
       | DescFailed \<Rightarrow> m
       | Adapter d \<Rightarrow>
           if software_adapter d then m
           else m\<lparr>dm_devices := dm_devices m @ [adapter_info d], dm_adapters := dm_adapters m @ [index]\<rparr>)"

text \<open>\<open>Inl hr\<close>: the factory cannot be created, with the code as printed.\<close>

definition append_dxgi_adapters ::
  "log_env \<Rightarrow> string + adapter_probe list \<Rightarrow> dx_device_manager_t \<Rightarrow> dx_device_manager_t" where
  "append_dxgi_adapters lenv dxgi m =
    (case dxgi of
       Inl hr \<Rightarrow> device_log lenv DX_COMPONENT_LEVEL_DIAGNOSTIC m (''CreateDXGIFactory2 failed hr=0x'' @ hr)
     | Inr probes \<Rightarrow> enumerate_adapters lenv 0 probes m)"

definition dx_device_manager_create ::
  "platform \<Rightarrow> log_env \<Rightarrow> thrown \<Rightarrow> thrown \<Rightarrow> string + adapter_probe list \<Rightarrow>
   dx_device_manager_t option option \<Rightarrow> status \<times> dx_device_manager_t option option" where
  "dx_device_manager_create plat lenv thr thr_log dxgi out =
    (if out = None then (-1, out)
     else (case thr of
         BadAlloc \<Rightarrow> (-3, Some None)
       | OtherThrow \<Rightarrow> (-4, Some None)
       | NoThrow \<Rightarrow>
           (case dx_component_logger_create plat lenv thr_log (Some ''dxdevice'') (Some None) of
              (st, logger) \<Rightarrow>
                if st \<noteq> 0 then (-2, Some None)
                else
                  let m0 = \<lparr> dm_logger = the logger, dm_devices = [], dm_adapters = [] \<rparr>;
                      m1 = (if plat = Windows then append_dxgi_adapters lenv dxgi m0 else m0);
                      m2 = m1\<lparr>dm_devices := dm_devices m1 @ [initialize_cpu_info]\<rparr>
                  in (0, Some (Some (device_log lenv DX_COMPONENT_LEVEL_DEBUG m2
                        (''device_count='' @ dec_digits (length (dm_devices m2)))))))))"

definition dx_device_manager_destroy :: "dx_device_manager_t option \<Rightarrow> ComponentLogger option" where
  "dx_device_manager_destroy manager =
    (case manager of None \<Rightarrow> None | Some m \<Rightarrow> dx_component_logger_destroy (dm_logger m))"

definition dx_device_manager_count :: "dx_device_manager_t option \<Rightarrow> u32" where
  "dx_device_manager_count manager =
    (case manager of None \<Rightarrow> 0 | Some m \<Rightarrow> of_nat (length (dm_devices m)))"

definition dx_device_manager_get_info ::
  "dx_device_manager_t option \<Rightarrow> u32 \<Rightarrow> dx_device_info_t option \<Rightarrow> status \<times> dx_device_info_t option" where
  "dx_device_manager_get_info manager index out_info =
    (case (manager, out_info) of
       (Some m, Some i) \<Rightarrow>
         if unat index \<ge> length (dm_devices m) \<or> di_struct_size i < sizeof_device_info then (-1, out_info)
         else (0, Some (dm_devices m ! unat index))
     | _ \<Rightarrow> (-1, out_info))"

text \<open>\<open>create_ok\<close>: whether \<open>D3D12CreateDevice\<close> succeeds on an adapter.\<close>

definition dx_device_manager_open ::
  "platform \<Rightarrow> thrown \<Rightarrow> (nat \<Rightarrow> bool) \<Rightarrow> dx_device_manager_t option \<Rightarrow> u32 \<Rightarrow>
   dx_execution_device_t option option \<Rightarrow> status \<times> dx_execution_device_t option option" where
  "dx_device_manager_open plat thr create_ok manager index out =
    (case (manager, out) of
       (Some m, Some _) \<Rightarrow>
         if unat index \<ge> length (dm_devices m) then (-1, out)
         else (case thr of
             BadAlloc \<Rightarrow> (-3, Some None)
           | OtherThrow \<Rightarrow> (-4, Some None)
           | NoThrow \<Rightarrow>
               let info = dm_devices m ! unat index;
                   device = \<lparr> xd_backend = di_backend info, xd_dx12_device = None \<rparr>
               in if plat = Windows \<and> di_backend info = DX_DEVICE_BACKEND_DX12 then
                    (if unat index \<ge> length (dm_adapters m) then (-2, Some None)
                     else if \<not> create_ok (dm_adapters m ! unat index) then (-2, Some None)
                     else (0, Some (Some (device\<lparr>xd_dx12_device := Some (dm_adapters m ! unat index)\<rparr>))))
                  else (0, Some (Some device)))
     | _ \<Rightarrow> (-1, out))"

definition dx_execution_device_backend :: "dx_execution_device_t option \<Rightarrow> u32" where
  "dx_execution_device_backend device =
    (case device of None \<Rightarrow> DX_DEVICE_BACKEND_UNKNOWN | Some d \<Rightarrow> xd_backend d)"

definition dx_execution_device_native_handle ::
  "platform \<Rightarrow> dx_execution_device_t option \<Rightarrow> nat option" where
  "dx_execution_device_native_handle plat device =
    (if plat = Windows then Option.bind device xd_dx12_device else None)"

section \<open>Runtime\<close>

abbreviation (input) DX_BACKEND_AUTO :: u32 where "DX_BACKEND_AUTO \<equiv> 0"
abbreviation (input) DX_BACKEND_DX12 :: u32 where "DX_BACKEND_DX12 \<equiv> 1"
abbreviation (input) DX_BACKEND_HIP :: u32 where "DX_BACKEND_HIP \<equiv> 2"
abbreviation (input) DX_BACKEND_CPU :: u32 where "DX_BACKEND_CPU \<equiv> 3"

record dx_runtime_info_t =
  ri_struct_size :: u32
  ri_api_version :: u32
  ri_selected_backend :: u32
  ri_logger_modes :: u32
  ri_device_count :: u32
  ri_backend_name :: string

abbreviation (input) sizeof_runtime_info :: u32 where "sizeof_runtime_info \<equiv> 52"

record dx_runtime_t =
  rt_logger :: "dx_component_logger_t option"
  rt_devices :: "dx_device_manager_t option"
  rt_requested_backend :: u32
  rt_selected_backend :: u32
  rt_backend_name :: string

definition valid_backend :: "u32 \<Rightarrow> bool" where
  "valid_backend value' \<longleftrightarrow> value' \<le> DX_BACKEND_CPU"

definition blank_device_info :: dx_device_info_t where
  "blank_device_info =
    \<lparr> di_struct_size = sizeof_device_info, di_api_version = 0, di_backend = 0, di_vendor_id = 0,
      di_device_id = 0, di_capabilities = 0, di_is_software = 0, di_dedicated_video_memory = 0,
      di_dedicated_system_memory = 0, di_shared_system_memory = 0, di_name = [] \<rparr>"

definition has_dx12_device :: "dx_device_manager_t option \<Rightarrow> bool" where
  "has_dx12_device devices =
    (devices \<noteq> None \<and>
     list_ex (\<lambda>k. case dx_device_manager_get_info devices (of_nat k) (Some blank_device_info) of
        (st, info) \<Rightarrow> st = 0 \<and> di_backend (the info) = DX_DEVICE_BACKEND_DX12)
      [0..<unat (dx_device_manager_count devices)])"

definition select_backend :: "platform \<Rightarrow> dx_runtime_t \<Rightarrow> u32 \<Rightarrow> dx_runtime_t" where
  "select_backend plat runtime preference =
    (let r = runtime\<lparr>rt_requested_backend := preference\<rparr>
     in if plat = Windows then
          (if preference = DX_BACKEND_CPU
           then r\<lparr>rt_selected_backend := DX_BACKEND_CPU, rt_backend_name := ''cpu''\<rparr>
           else if preference = DX_BACKEND_HIP
           then r\<lparr>rt_selected_backend := DX_BACKEND_HIP, rt_backend_name := ''hip''\<rparr>
           else if has_dx12_device (rt_devices r)
           then r\<lparr>rt_selected_backend := DX_BACKEND_DX12, rt_backend_name := ''dx12''\<rparr>
           else r\<lparr>rt_selected_backend := DX_BACKEND_CPU, rt_backend_name := ''cpu''\<rparr>)
        else r\<lparr>rt_selected_backend := DX_BACKEND_CPU, rt_backend_name := ''cpu''\<rparr>)"

text \<open>
  \<open>dx_runtime_create\<close>. \<open>preference\<close> is the configuration's backend field, \<open>None\<close> for a null
  configuration; the last three arguments of the device manager are passed on.
\<close>

definition dx_runtime_create ::
  "platform \<Rightarrow> log_env \<Rightarrow> thrown \<Rightarrow> thrown \<Rightarrow> thrown \<Rightarrow> thrown \<Rightarrow> string + adapter_probe list \<Rightarrow>
   u32 option \<Rightarrow> dx_runtime_t option option \<Rightarrow> status \<times> dx_runtime_t option option" where
  "dx_runtime_create plat lenv thr thr_log thr_dm thr_dmlog dxgi preference out =
    (if out = None then (-1, out)
     else
       let requested = (case preference of None \<Rightarrow> DX_BACKEND_AUTO | Some p \<Rightarrow> p)
       in if \<not> valid_backend requested then (-2, Some None)
       else (case thr of
           BadAlloc \<Rightarrow> (-5, Some None)
         | OtherThrow \<Rightarrow> (-6, Some None)
         | NoThrow \<Rightarrow>
             (case dx_component_logger_create plat lenv thr_log (Some ''dxruntime'') (Some None) of
                (st, logger) \<Rightarrow>
                  if st \<noteq> 0 then (-3, Some None)
                  else (case dx_device_manager_create plat lenv thr_dm thr_dmlog dxgi (Some None) of
                      (st2, devices) \<Rightarrow>
                        if st2 \<noteq> 0 then (-4, Some None)
                        else
                          let r = select_backend plat
                                \<lparr> rt_logger = the logger, rt_devices = the devices,
                                  rt_requested_backend = DX_BACKEND_AUTO,
                                  rt_selected_backend = DX_BACKEND_CPU, rt_backend_name = ''cpu'' \<rparr> requested
                          in (0, Some (Some (r\<lparr>rt_logger := dx_component_logger_write lenv (rt_logger r)
                               DX_COMPONENT_LEVEL_DEBUG
                               (Some (''runtime_create selected_backend='' @ rt_backend_name r))
                               (Some ''dx_runtime_api.cpp'') 107\<rparr>)))))))"

definition dx_runtime_destroy :: "dx_runtime_t option \<Rightarrow> ComponentLogger option \<times> ComponentLogger option" where
  "dx_runtime_destroy runtime =
    (case runtime of
       None \<Rightarrow> (None, None)
     | Some r \<Rightarrow> (dx_device_manager_destroy (rt_devices r), dx_component_logger_destroy (rt_logger r)))"

definition dx_runtime_get_info ::
  "dx_runtime_t option \<Rightarrow> dx_runtime_info_t option \<Rightarrow> status \<times> dx_runtime_info_t option" where
  "dx_runtime_get_info runtime out_info =
    (case (runtime, out_info) of
       (Some r, Some i) \<Rightarrow>
         if ri_struct_size i < sizeof_runtime_info then (-1, out_info)
         else (0, Some \<lparr> ri_struct_size = sizeof_runtime_info, ri_api_version = 1,
                ri_selected_backend = rt_selected_backend r,
                ri_logger_modes = (case rt_logger r of None \<Rightarrow> DX_COMPONENT_LOG_NONE
                  | Some l \<Rightarrow> dx_component_logger_modes (rt_logger r)),
                ri_device_count = dx_device_manager_count (rt_devices r),
                ri_backend_name = take (min (length (rt_backend_name r)) 31) (rt_backend_name r) \<rparr>)
     | _ \<Rightarrow> (-1, out_info))"

definition dx_runtime_component_enabled :: "dx_runtime_t option \<Rightarrow> u32 \<Rightarrow> status" where
  "dx_runtime_component_enabled runtime mode =
    (case runtime of
       None \<Rightarrow> 0
     | Some r \<Rightarrow> if rt_logger r = None then 0 else dx_component_logger_enabled (rt_logger r) mode)"

section \<open>Shaders\<close>

text \<open>
  \<open>dx_shader_compile_file\<close>: the DXC calls are the fields of \<open>dxc_env\<close>; \<open>dx_object\<close> is the
  compiled object. The portable build never produces a blob.
\<close>

record dxc_env =
  dx_throw :: thrown
  dx_instances :: bool
  dx_widen :: "string \<Rightarrow> string"
  dx_load :: "string \<Rightarrow> bool"
  dx_compile :: bool
  dx_status :: bool
  dx_object :: "u8 list option"

definition dx_shader_compile_file ::
  "platform \<Rightarrow> dxc_env \<Rightarrow> string option \<Rightarrow> string option \<Rightarrow> string option \<Rightarrow> u8 list option option \<Rightarrow>
   status \<times> u8 list option option" where
  "dx_shader_compile_file plat env source_path entry_point target_profile out =
    (if \<not> valid_text source_path \<or> \<not> valid_text entry_point \<or> \<not> valid_text target_profile \<or> out = None
     then (-1, out)
     else if plat \<noteq> Windows then (-2, Some None)
     else (case dx_throw env of
         BadAlloc \<Rightarrow> (-7, Some None)
       | OtherThrow \<Rightarrow> (-8, Some None)
       | NoThrow \<Rightarrow>
           if \<not> dx_instances env then (-2, Some None)
           else if dx_widen env (the source_path) = [] \<or> \<not> dx_load env (dx_widen env (the source_path))
           then (-3, Some None)
           else if dx_widen env (the entry_point) = [] \<or> dx_widen env (the target_profile) = []
           then (-4, Some None)
           else if \<not> dx_compile env then (-4, Some None)
           else if \<not> dx_status env then (-5, Some None)
           else (case dx_object env of None \<Rightarrow> (-6, Some None) | Some code \<Rightarrow> (0, Some (Some code)))))"

definition dx_shader_blob_data :: "u8 list option \<Rightarrow> u8 list option" where
  "dx_shader_blob_data blob = (case blob of None \<Rightarrow> None | Some b \<Rightarrow> if b = [] then None else Some b)"

definition dx_shader_blob_size :: "u8 list option \<Rightarrow> u64" where
  "dx_shader_blob_size blob = (case blob of None \<Rightarrow> 0 | Some b \<Rightarrow> of_nat (length b))"

section \<open>The inventory\<close>

text \<open>The hardware adapters among the probes, with their index.\<close>

fun hardware_adapters :: "nat \<Rightarrow> adapter_probe list \<Rightarrow> (nat \<times> dxgi_adapter_desc) list" where
  "hardware_adapters k [] = []"
| "hardware_adapters k (p # ps) =
    (case p of Adapter d \<Rightarrow> if software_adapter d then [] else [(k, d)] | _ \<Rightarrow> []) @ hardware_adapters (Suc k) ps"

definition adapters_of :: "platform \<Rightarrow> string + adapter_probe list \<Rightarrow> (nat \<times> dxgi_adapter_desc) list" where
  "adapters_of plat dxgi =
    (if plat = Windows then (case dxgi of Inl _ \<Rightarrow> [] | Inr ps \<Rightarrow> hardware_adapters 0 ps) else [])"

lemma enumerate_adapters_spec:
  "dm_devices (enumerate_adapters lenv k ps m) = dm_devices m @ map (\<lambda>(i, d). adapter_info d) (hardware_adapters k ps) \<and>
   dm_adapters (enumerate_adapters lenv k ps m) = dm_adapters m @ map fst (hardware_adapters k ps)"
  by (induction lenv k ps m rule: enumerate_adapters.induct)
    (auto simp: device_log_def split: adapter_probe.splits)

lemma manager_contents:
  assumes "dx_device_manager_create plat lenv thr thr_log dxgi out = (0, Some (Some m))"
  shows "dm_devices m = map (\<lambda>(i, d). adapter_info d) (adapters_of plat dxgi) @ [initialize_cpu_info] \<and>
    dm_adapters m = map fst (adapters_of plat dxgi)"
  using assms
  by (auto simp: dx_device_manager_create_def device_log_def append_dxgi_adapters_def adapters_of_def
      enumerate_adapters_spec Let_def split: thrown.splits prod.splits if_splits sum.splits)

lemma backend_of_adapter [simp]: "di_backend (adapter_info d) = DX_DEVICE_BACKEND_DX12"
  by (simp add: adapter_info_def)

lemma backend_of_cpu [simp]: "di_backend initialize_cpu_info = DX_DEVICE_BACKEND_CPU"
  by (simp add: initialize_cpu_info_def)

text \<open>
  Opening devices matches the inventory: a manager lists the hardware adapters in
  enumeration order and the CPU entry last. Every listed index below the last opens exactly the
  adapter it describes, failing (-2) only if that adapter's device cannot be created; the last
  index always opens the CPU device; any other index is refused with -1.
\<close>

theorem device_open_matches_inventory:
  assumes "dx_device_manager_create plat lenv thr thr_log dxgi out = (0, Some (Some m))"
    and "adapters = adapters_of plat dxgi"
  shows "dx_device_manager_open plat NoThrow create_ok (Some m) index (Some old) =
    (if unat index < length adapters then
       (if create_ok (fst (adapters ! unat index))
        then (0, Some (Some \<lparr> xd_backend = DX_DEVICE_BACKEND_DX12,
                xd_dx12_device = Some (fst (adapters ! unat index)) \<rparr>))
        else (-2, Some None))
     else if unat index = length adapters
     then (0, Some (Some \<lparr> xd_backend = DX_DEVICE_BACKEND_CPU, xd_dx12_device = None \<rparr>))
     else (-1, Some old))"
proof -
  have d: "dm_devices m = map (\<lambda>(i, d). adapter_info d) adapters @ [initialize_cpu_info]"
    and a: "dm_adapters m = map fst adapters"
    using manager_contents [OF assms(1)] assms(2) by auto
  have w: "adapters \<noteq> [] \<Longrightarrow> plat = Windows" using assms(2) by (auto simp: adapters_of_def split: if_splits)
  consider "unat index < length adapters" | "unat index = length adapters" | "length adapters < unat index"
    by linarith
  then show ?thesis
  proof cases
    case 1
    then have "plat = Windows" by (intro w) auto
    with 1 show ?thesis
      by (simp add: dx_device_manager_open_def d a nth_append Let_def split_beta)
  next
    case 2
    then show ?thesis by (simp add: dx_device_manager_open_def d nth_append Let_def)
  next
    case 3
    then show ?thesis by (simp add: dx_device_manager_open_def d)
  qed
qed

definition example_adapter :: "u32 \<Rightarrow> dxgi_adapter_desc" where
  "example_adapter flags = \<lparr> ad_vendor_id = 0x1002, ad_device_id = 0x744c, ad_flags = flags,
     ad_dedicated_video_memory = 25753026560, ad_dedicated_system_memory = 0,
     ad_shared_system_memory = 17179869184, ad_name = Some ''AMD Radeon RX 7900 XTX'' \<rparr>"

lemma manager_created:
  "\<exists>m. dx_device_manager_create plat lenv NoThrow NoThrow dxgi (Some None) = (0, Some (Some m))"
  by (simp add: dx_device_manager_create_def dx_component_logger_create_def Let_def)

theorem device_open_matches_inventory_witness:
  "\<exists>m. dx_device_manager_open Windows NoThrow (\<lambda>_. True) (Some m) 0 (Some None) =
      (0, Some (Some \<lparr> xd_backend = 1, xd_dx12_device = Some 1 \<rparr>)) \<and>
    dx_device_manager_open Windows NoThrow (\<lambda>_. True) (Some m) 1 (Some None) =
      (0, Some (Some \<lparr> xd_backend = 2, xd_dx12_device = None \<rparr>))"
proof -
  let ?dxgi = "Inr [Adapter (example_adapter 2), Adapter (example_adapter 0)]"
  obtain m where m: "dx_device_manager_create Windows example_log_env NoThrow NoThrow ?dxgi (Some None) =
      (0, Some (Some m))" using manager_created by blast
  have "adapters_of Windows ?dxgi = [(1, example_adapter 0)]"
    by (simp add: adapters_of_def software_adapter_def example_adapter_def)
  then show ?thesis
    using device_open_matches_inventory [OF m refl, of "\<lambda>_. True" 0 None]
      device_open_matches_inventory [OF m refl, of "\<lambda>_. True" 1 None] by auto
qed

lemma has_dx12_device_iff:
  assumes "dx_device_manager_create plat lenv thr thr_log dxgi out = (0, Some (Some m))"
    "length (dm_devices m) < 4294967296"
  shows "has_dx12_device (Some m) \<longleftrightarrow> adapters_of plat dxgi \<noteq> []"
proof -
  have d: "dm_devices m = map (\<lambda>(i, d). adapter_info d) (adapters_of plat dxgi) @ [initialize_cpu_info]"
    using manager_contents [OF assms(1)] by simp
  have n: "unat (of_nat (length (dm_devices m)) :: u32) = length (dm_devices m)"
    using assms(2) by (rule unat_of_nat_u32)
  have get: "dx_device_manager_get_info (Some m) (of_nat k) (Some blank_device_info) = (0, Some (dm_devices m ! k))"
    if "k < length (dm_devices m)" for k
    using that assms(2) unat_of_nat_u32 [of k]
    by (simp add: dx_device_manager_get_info_def blank_device_info_def)
  have "has_dx12_device (Some m) \<longleftrightarrow>
      (\<exists>k < length (dm_devices m). di_backend (dm_devices m ! k) = DX_DEVICE_BACKEND_DX12)"
    unfolding has_dx12_device_def dx_device_manager_count_def list_ex_iff
    using get by (auto simp: n)
  also have "\<dots> \<longleftrightarrow> (\<exists>i \<in> set (dm_devices m). di_backend i = DX_DEVICE_BACKEND_DX12)"
    by (metis in_set_conv_nth)
  also have "\<dots> \<longleftrightarrow> adapters_of plat dxgi \<noteq> []"
    by (cases "adapters_of plat dxgi") (auto simp: d)
  finally show ?thesis .
qed

text \<open>
  Backend selection is sound and reported consistently: a runtime is created for every valid
  preference; DX12 is selected only on Windows with a hardware adapter, HIP only on an explicit
  Windows request, the CPU in all other cases; and \<open>dx_runtime_get_info\<close> reports the selected
  backend, its name and the number of devices.
\<close>

theorem runtime_selects_backend:
  assumes "pref \<le> DX_BACKEND_CPU" "length (adapters_of plat dxgi) < 4294967295"
    and "sizeof_runtime_info \<le> ri_struct_size info"
    and "sel = (if plat = Windows \<and> pref = DX_BACKEND_HIP then DX_BACKEND_HIP
      else if plat = Windows \<and> pref \<noteq> DX_BACKEND_CPU \<and> adapters_of plat dxgi \<noteq> [] then DX_BACKEND_DX12
      else DX_BACKEND_CPU)"
  shows "\<exists>r i. dx_runtime_create plat lenv NoThrow NoThrow NoThrow NoThrow dxgi (Some pref) (Some old) =
        (0, Some (Some r)) \<and>
      dx_runtime_get_info (Some r) (Some info) = (0, Some i) \<and>
      ri_selected_backend i = sel \<and>
      ri_backend_name i = (if sel = DX_BACKEND_DX12 then ''dx12'' else if sel = DX_BACKEND_HIP then ''hip'' else ''cpu'') \<and>
      unat (ri_device_count i) = length (adapters_of plat dxgi) + 1"
proof -
  obtain m where m: "dx_device_manager_create plat lenv NoThrow NoThrow dxgi (Some None) = (0, Some (Some m))"
    using manager_created by blast
  have len: "length (dm_devices m) = length (adapters_of plat dxgi) + 1"
    using manager_contents [OF m] by simp
  then have n: "unat (of_nat (length (dm_devices m)) :: u32) = length (adapters_of plat dxgi) + 1"
    using assms(2) by (simp only: unat_of_nat_u32)
  have hw: "has_dx12_device (Some m) \<longleftrightarrow> adapters_of plat dxgi \<noteq> []"
    using has_dx12_device_iff [OF m] len assms(2) by simp
  have v: "valid_backend pref" using assms(1) by (simp add: valid_backend_def)
  obtain l where l: "dx_component_logger_create plat lenv NoThrow (Some ''dxruntime'') (Some None) = (0, Some (Some l))"
    by (simp add: dx_component_logger_create_def)
  let ?r0 = "\<lparr> rt_logger = Some l, rt_devices = Some m, rt_requested_backend = DX_BACKEND_AUTO,
      rt_selected_backend = DX_BACKEND_CPU, rt_backend_name = ''cpu'' \<rparr>"
  let ?r1 = "select_backend plat ?r0 pref"
  obtain l' where "dx_runtime_create plat lenv NoThrow NoThrow NoThrow NoThrow dxgi (Some pref) (Some old) =
      (0, Some (Some (?r1\<lparr>rt_logger := l'\<rparr>)))"
    using v by (simp add: dx_runtime_create_def l m Let_def)
  moreover have "rt_selected_backend ?r1 = sel"
    "rt_backend_name ?r1 = (if sel = DX_BACKEND_DX12 then ''dx12'' else if sel = DX_BACKEND_HIP then ''hip'' else ''cpu'')"
    "rt_devices ?r1 = Some m"
    unfolding assms(4) select_backend_def by (simp_all add: hw Let_def)
  moreover have "\<not> ri_struct_size info < sizeof_runtime_info" using assms(3) by simp
  ultimately show ?thesis
    using n by (simp add: dx_runtime_get_info_def dx_device_manager_count_def)
qed

theorem runtime_selects_backend_witness:
  "\<exists>r i. dx_runtime_create Windows example_log_env NoThrow NoThrow NoThrow NoThrow
        (Inr [Adapter (example_adapter 0)]) (Some 0) (Some None) = (0, Some (Some r)) \<and>
      dx_runtime_get_info (Some r) (Some \<lparr> ri_struct_size = 52, ri_api_version = 0,
        ri_selected_backend = 0, ri_logger_modes = 0, ri_device_count = 0, ri_backend_name = [] \<rparr>) = (0, Some i) \<and>
      ri_backend_name i = ''dx12''"
proof -
  have a: "adapters_of Windows (Inr [Adapter (example_adapter 0)]) = [(0, example_adapter 0)]"
    by (simp add: adapters_of_def software_adapter_def example_adapter_def)
  show ?thesis
    using runtime_selects_backend [of 0 Windows "Inr [Adapter (example_adapter 0)]"
        "\<lparr> ri_struct_size = 52, ri_api_version = 0, ri_selected_backend = 0, ri_logger_modes = 0,
          ri_device_count = 0, ri_backend_name = [] \<rparr>" DX_BACKEND_DX12 example_log_env None]
    by (simp add: a) blast
qed

end
