(* ===== verification/IoModel.thy ===== *)
theory IoModel
  imports Diagnostics
begin

text \<open>
  The I/O provider (\<open>src/core/dx_io_api.cpp\<close>) and the model-file handle built on it
  (\<open>src/core/dx_model_api.cpp\<close>).

  The file system is a function from paths to file contents, \<open>None\<close> for a file that cannot be
  opened. \<open>io_delivers\<close> bounds how many bytes a stream read delivers (\<open>gcount\<close>), and
  \<open>io_throws\<close> says whether a call inside the \<open>try\<close> block throws.
\<close>

section \<open>Provider\<close>

abbreviation (input) DX_IO_PROVIDER_AUTO :: u32 where "DX_IO_PROVIDER_AUTO \<equiv> 0"
abbreviation (input) DX_IO_PROVIDER_DIRECTSTORAGE :: u32 where "DX_IO_PROVIDER_DIRECTSTORAGE \<equiv> 1"
abbreviation (input) DX_IO_PROVIDER_WIN32 :: u32 where "DX_IO_PROVIDER_WIN32 \<equiv> 2"
abbreviation (input) DX_IO_PROVIDER_PORTABLE :: u32 where "DX_IO_PROVIDER_PORTABLE \<equiv> 3"

record dx_io_provider_t =
  io_logger :: "dx_component_logger_t option"
  io_kind :: u32

record io_env =
  io_files :: "string \<Rightarrow> u8 list option"
  io_delivers :: nat
  io_throws :: bool

definition valid_io_kind :: "u32 \<Rightarrow> bool" where
  "valid_io_kind kind \<longleftrightarrow> kind \<le> DX_IO_PROVIDER_PORTABLE"

definition valid_path :: "string option \<Rightarrow> bool" where
  "valid_path path \<longleftrightarrow> valid_text path"

definition io_log_debug :: "log_env \<Rightarrow> dx_io_provider_t \<Rightarrow> string \<Rightarrow> dx_io_provider_t" where
  "io_log_debug lenv provider message =
     provider\<lparr>io_logger := dx_component_logger_write lenv (io_logger provider)
       DX_COMPONENT_LEVEL_DEBUG (Some message) (Some ''dx_io_api.cpp'') 37\<rparr>"

text \<open>\<open>has_directstorage\<close>: the build defines \<open>DXAIT_HAS_DIRECTSTORAGE\<close>.\<close>

definition provider_kind :: "platform \<Rightarrow> bool \<Rightarrow> u32 \<Rightarrow> u32" where
  "provider_kind plat has_directstorage requested_kind =
    (if plat = Windows then
       (if has_directstorage
        then (if requested_kind = DX_IO_PROVIDER_WIN32 then DX_IO_PROVIDER_WIN32 else DX_IO_PROVIDER_DIRECTSTORAGE)
        else DX_IO_PROVIDER_WIN32)
     else DX_IO_PROVIDER_PORTABLE)"

definition dx_io_provider_create ::
  "platform \<Rightarrow> bool \<Rightarrow> log_env \<Rightarrow> thrown \<Rightarrow> thrown \<Rightarrow> u32 \<Rightarrow> dx_io_provider_t option option \<Rightarrow>
   status \<times> dx_io_provider_t option option" where
  "dx_io_provider_create plat has_directstorage lenv thr thr_log requested_kind out =
    (if out = None \<or> \<not> valid_io_kind requested_kind then (-1, out)
     else (case thr of
         BadAlloc \<Rightarrow> (-3, Some None)
       | OtherThrow \<Rightarrow> (-4, Some None)
       | NoThrow \<Rightarrow>
           (case dx_component_logger_create plat lenv thr_log (Some ''dxio'') (Some None) of
              (st, logger) \<Rightarrow>
                if st \<noteq> 0 then (-2, Some None)
                else
                  let kind = provider_kind plat has_directstorage requested_kind
                  in (0, Some (Some (io_log_debug lenv \<lparr> io_logger = the logger, io_kind = kind \<rparr>
                        (''io_provider_kind='' @ to_string_u32 kind)))))))"

definition dx_io_provider_destroy :: "dx_io_provider_t option \<Rightarrow> ComponentLogger option" where
  "dx_io_provider_destroy provider =
    (case provider of None \<Rightarrow> None | Some p \<Rightarrow> dx_component_logger_destroy (io_logger p))"

definition dx_io_provider_kind :: "dx_io_provider_t option \<Rightarrow> u32" where
  "dx_io_provider_kind provider = (case provider of None \<Rightarrow> DX_IO_PROVIDER_AUTO | Some p \<Rightarrow> io_kind p)"

text \<open>
  \<open>dx_io_read_file\<close>: status, provider, buffer and byte count. The buffer has room for
  \<open>capacity\<close> bytes.
\<close>

definition dx_io_read_file ::
  "io_env \<Rightarrow> log_env \<Rightarrow> dx_io_provider_t option \<Rightarrow> string option \<Rightarrow> u64 \<Rightarrow> u8 list option \<Rightarrow> u64 \<Rightarrow>
   u64 option \<Rightarrow> status \<times> dx_io_provider_t option \<times> u8 list option \<times> u64 option" where
  "dx_io_read_file env lenv provider path offset buffer capacity out_bytes_read =
    (case provider of
       None \<Rightarrow> (-1, provider, buffer, out_bytes_read)
     | Some p \<Rightarrow>
         if \<not> valid_path path \<or> buffer = None \<or> out_bytes_read = None
         then (-1, provider, buffer, out_bytes_read)
         else if capacity = 0 then (-2, provider, buffer, Some 0)
         else if io_throws env then (-4, provider, buffer, Some 0)
         else (case io_files env (the path) of
             None \<Rightarrow> (-3, provider, buffer, Some 0)
           | Some contents \<Rightarrow>
               if unat offset \<ge> length contents then (1, provider, buffer, Some 0)
               else
                 let available = length contents - unat offset;
                     requested = min available (unat capacity);
                     read_count = min requested (io_delivers env);
                     data = read_at (unat offset) read_count contents;
                     provider' = io_log_debug lenv p (''io_read bytes='' @ dec_digits read_count)
                 in (if read_count = requested then 0 else 1, Some provider',
                     Some (write_at 0 data (the buffer)), Some (of_nat read_count))))"

section \<open>Model files\<close>

abbreviation (input) DX_MODEL_FORMAT_UNKNOWN :: u32 where "DX_MODEL_FORMAT_UNKNOWN \<equiv> 0"
abbreviation (input) DX_MODEL_FORMAT_GGUF :: u32 where "DX_MODEL_FORMAT_GGUF \<equiv> 1"
abbreviation (input) DX_MODEL_FORMAT_SAFETENSORS :: u32 where "DX_MODEL_FORMAT_SAFETENSORS \<equiv> 2"
abbreviation (input) DX_MODEL_FORMAT_ONNX :: u32 where "DX_MODEL_FORMAT_ONNX \<equiv> 3"
abbreviation (input) DX_MODEL_FORMAT_GENERIC :: u32 where "DX_MODEL_FORMAT_GENERIC \<equiv> 4"

record dx_model_t =
  mo_logger :: "dx_component_logger_t option"
  mo_provider :: "dx_io_provider_t option"
  mo_bytes :: u64
  mo_format :: u32
  mo_path :: string

definition model_file_size :: "io_env \<Rightarrow> string \<Rightarrow> u64" where
  "model_file_size env path =
    (case io_files env path of None \<Rightarrow> 0 | Some contents \<Rightarrow> of_nat (length contents))"

text \<open>The extension: from the last dot on, empty without a dot.\<close>

definition path_extension :: "string \<Rightarrow> string" where
  "path_extension name =
    (if CHR ''.'' \<in> set name then CHR ''.'' # rev (takeWhile (\<lambda>c. c \<noteq> CHR ''.'') (rev name)) else [])"

definition GGUF_MAGIC :: "u8 list" where
  "GGUF_MAGIC = [0x47, 0x47, 0x55, 0x46]"

definition detect_format :: "string \<Rightarrow> u8 list \<Rightarrow> u64 \<Rightarrow> u32" where
  "detect_format path prefix' count =
    (let extension = path_extension path
     in if count \<ge> 4 \<and> take 4 prefix' = GGUF_MAGIC then DX_MODEL_FORMAT_GGUF
        else if extension = ''.safetensors'' then DX_MODEL_FORMAT_SAFETENSORS
        else if extension = ''.onnx'' then DX_MODEL_FORMAT_ONNX
        else DX_MODEL_FORMAT_GENERIC)"

definition dx_model_open ::
  "platform \<Rightarrow> bool \<Rightarrow> io_env \<Rightarrow> log_env \<Rightarrow> thrown \<Rightarrow> thrown \<Rightarrow> thrown \<Rightarrow> string option \<Rightarrow>
   dx_model_t option option \<Rightarrow> status \<times> dx_model_t option option" where
  "dx_model_open plat has_directstorage env lenv thr thr_log thr_io path out =
    (if \<not> valid_text path \<or> out = None then (-1, out)
     else if model_file_size env (the path) = 0 then (-2, Some None)
     else (case thr of
         BadAlloc \<Rightarrow> (-4, Some None)
       | OtherThrow \<Rightarrow> (-5, Some None)
       | NoThrow \<Rightarrow>
           (case dx_component_logger_create plat lenv thr_log (Some ''dxmodel'') (Some None) of
              (st, logger) \<Rightarrow>
                if st \<noteq> 0 then (-3, Some None)
                else (case dx_io_provider_create plat has_directstorage lenv thr_io NoThrow
                      DX_IO_PROVIDER_AUTO (Some None) of
                    (st2, provider) \<Rightarrow>
                      if st2 \<noteq> 0 then (-3, Some None)
                      else (case dx_io_read_file env lenv (the provider) path 0 (Some (replicate 8 0)) 8 (Some 0) of
                          (_, provider', prefix', read) \<Rightarrow>
                            (0, Some (Some \<lparr> mo_logger = the logger, mo_provider = provider',
                               mo_bytes = model_file_size env (the path),
                               mo_format = detect_format (the path) (the prefix') (the read),
                               mo_path = the path \<rparr>)))))))"

definition dx_model_destroy :: "dx_model_t option \<Rightarrow> ComponentLogger option \<times> ComponentLogger option" where
  "dx_model_destroy model =
    (case model of
       None \<Rightarrow> (None, None)
     | Some m \<Rightarrow> (dx_io_provider_destroy (mo_provider m), dx_component_logger_destroy (mo_logger m)))"

definition dx_model_format :: "dx_model_t option \<Rightarrow> u32" where
  "dx_model_format model = (case model of None \<Rightarrow> DX_MODEL_FORMAT_UNKNOWN | Some m \<Rightarrow> mo_format m)"

definition dx_model_size :: "dx_model_t option \<Rightarrow> u64" where
  "dx_model_size model = (case model of None \<Rightarrow> 0 | Some m \<Rightarrow> mo_bytes m)"

definition dx_model_read ::
  "io_env \<Rightarrow> log_env \<Rightarrow> dx_model_t option \<Rightarrow> u64 \<Rightarrow> u8 list option \<Rightarrow> u64 \<Rightarrow> u64 option \<Rightarrow>
   status \<times> dx_model_t option \<times> u8 list option \<times> u64 option" where
  "dx_model_read env lenv model offset buffer capacity out_bytes_read =
    (case model of
       None \<Rightarrow> (-1, model, buffer, out_bytes_read)
     | Some m \<Rightarrow>
         if mo_provider m = None then (-1, model, buffer, out_bytes_read)
         else (case dx_io_read_file env lenv (mo_provider m) (Some (mo_path m)) offset buffer capacity out_bytes_read of
             (st, provider, buffer', out) \<Rightarrow> (st, Some (m\<lparr>mo_provider := provider\<rparr>), buffer', out)))"

section \<open>Ranged reads\<close>

text \<open>
  The interface a reader of a file relies on: a read of \<open>n\<close> bytes at an offset delivers what is
  there, at most \<open>n\<close> bytes, and leaves the handle usable.
\<close>

locale ranged_reader =
  fixes ok :: "'h \<Rightarrow> bool"
    and contents :: "u8 list"
    and read :: "'h \<Rightarrow> nat \<Rightarrow> nat \<Rightarrow> 'h \<times> u8 list"
  assumes read_ok: "ok h \<Longrightarrow> ok (fst (read h off n))"
    and read_data: "ok h \<Longrightarrow> off \<le> length contents \<Longrightarrow> 0 < n \<Longrightarrow> n < 18446744073709551616 \<Longrightarrow>
      snd (read h off n) = read_at off n contents"
begin

text \<open>Reading on in chunks of \<open>n\<close> bytes until a read delivers nothing.\<close>

fun read_all :: "nat \<Rightarrow> 'h \<Rightarrow> nat \<Rightarrow> nat \<Rightarrow> u8 list option" where
  "read_all 0 h off n = None"
| "read_all (Suc fuel) h off n =
    (case read h off n of (h', data) \<Rightarrow>
       if data = [] then Some [] else map_option ((@) data) (read_all fuel h' (off + length data) n))"

lemma read_all_contents:
  assumes "ok h" "off \<le> length contents" "0 < n" "n < 18446744073709551616"
    "length contents - off < fuel"
  shows "read_all fuel h off n = Some (drop off contents)"
  using assms
proof (induction fuel arbitrary: h off)
  case (Suc fuel)
  obtain h' data where r: "read h off n = (h', data)" by force
  have d: "data = read_at off n contents" using read_data [of h off n] Suc.prems r by simp
  show ?case
  proof (cases "off = length contents")
    case True
    then show ?thesis using r d by (simp add: read_at_def)
  next
    case False
    then have "data \<noteq> []" using d Suc.prems by (simp add: read_at_def)
    moreover have "read_all fuel h' (off + length data) n = Some (drop (off + length data) contents)"
      using Suc.prems False d read_ok [of h off n] r
      by (intro Suc.IH) (auto simp: read_at_def min_def)
    moreover have "data @ drop (off + length data) contents = drop off contents"
    proof -
      have "take n xs @ drop (length (take n xs)) xs = xs" for xs :: "u8 list"
        by (simp add: min_def)
      then have "take n (drop off contents) @ drop (length (take n (drop off contents))) (drop off contents) =
          drop off contents" .
      then show ?thesis unfolding d read_at_def by (simp only: drop_drop add.commute)
    qed
    ultimately show ?thesis using r by simp
  qed
qed simp

end

lemma io_read_value:
  assumes "io_files env path = Some contents" "path \<noteq> []" "\<not> io_throws env" "capacity \<noteq> 0"
    "length contents < 18446744073709551616" "length contents \<le> io_delivers env"
  shows "\<exists>p'. dx_io_read_file env lenv (Some p) (Some path) offset (Some buf) capacity (Some old) =
    (if length contents \<le> unat offset then (1, Some p, Some buf, Some 0)
     else (0, Some p', Some (write_at 0 (read_at (unat offset) (unat capacity) contents) buf),
           Some (of_nat (min (length contents - unat offset) (unat capacity)))))"
proof (cases "length contents \<le> unat offset")
  case True
  then show ?thesis using assms by (simp add: dx_io_read_file_def valid_path_def)
next
  case False
  let ?r = "min (length contents - unat offset) (unat capacity)"
  have "min ?r (io_delivers env) = ?r" using assms(6) by simp
  moreover have "read_at (unat offset) ?r contents = read_at (unat offset) (unat capacity) contents"
    by (cases "unat capacity \<le> length contents - unat offset") (simp_all add: read_at_def min_def)
  ultimately show ?thesis
    using False assms by (simp add: dx_io_read_file_def valid_path_def Let_def)
qed

lemma io_read_spec:
  assumes "io_files env path = Some contents" "path \<noteq> []" "\<not> io_throws env" "capacity \<noteq> 0"
    "length contents < 18446744073709551616" "length contents \<le> io_delivers env"
    "unat capacity \<le> length buf"
  shows "\<exists>st p' buf' n. dx_io_read_file env lenv (Some p) (Some path) offset (Some buf) capacity (Some old) =
      (st, Some p', Some buf', Some n) \<and>
    unat n = min (length contents - unat offset) (unat capacity) \<and>
    st = (if unat offset < length contents then 0 else 1) \<and>
    length buf' = length buf \<and>
    (\<forall>i < length buf. buf' ! i = (if i < unat n then contents ! (unat offset + i) else buf ! i))"
proof -
  obtain p' where r: "dx_io_read_file env lenv (Some p) (Some path) offset (Some buf) capacity (Some old) =
    (if length contents \<le> unat offset then (1, Some p, Some buf, Some 0)
     else (0, Some p', Some (write_at 0 (read_at (unat offset) (unat capacity) contents) buf),
           Some (of_nat (min (length contents - unat offset) (unat capacity)))))"
    using io_read_value [OF assms(1-6), of lenv p offset buf old] by blast
  show ?thesis
  proof (cases "length contents \<le> unat offset")
    case True
    then show ?thesis using r by simp
  next
    case False
    let ?n = "min (length contents - unat offset) (unat capacity)"
    let ?d = "read_at (unat offset) (unat capacity) contents"
    have n: "unat (of_nat ?n :: u64) = ?n"
      using assms(5) by (intro unat_of_nat_u64) simp
    have len: "length ?d = ?n" by (simp add: read_at_def min.commute)
    then have fits: "0 + length ?d \<le> length buf" using assms(7) by simp
    have "write_at 0 ?d buf ! i = (if i < ?n then contents ! (unat offset + i) else buf ! i)"
      if "i < length buf" for i
      using nth_write_at [OF fits that] len
      by (simp add: nth_read_at less_diff_conv add.commute)
    then show ?thesis
      using r False n length_write_at [OF fits] by simp
  qed
qed

text \<open>
  A ranged read delivers exactly the bytes of the file: for an open file it copies the
  bytes from the offset on, as many as there are up to the capacity, to the front of the buffer,
  leaves the rest of the buffer alone and reports their number with status 0; an offset at or
  past the end reads nothing and reports 1.
\<close>

theorem io_read_exact:
  assumes "io_files env path = Some contents" "path \<noteq> []" "\<not> io_throws env" "capacity \<noteq> 0"
    "length contents < 18446744073709551616" "length contents \<le> io_delivers env"
    "unat capacity \<le> length buf"
  shows "\<exists>st p' buf' n. dx_io_read_file env lenv (Some p) (Some path) offset (Some buf) capacity (Some old) =
      (st, Some p', Some buf', Some n) \<and>
    unat n = min (length contents - unat offset) (unat capacity) \<and>
    st = (if unat offset < length contents then 0 else 1) \<and>
    length buf' = length buf \<and>
    (\<forall>i < length buf. buf' ! i = (if i < unat n then contents ! (unat offset + i) else buf ! i))"
  using assms by (rule io_read_spec)

definition example_io_env :: io_env where
  "example_io_env = \<lparr> io_files = (\<lambda>p. if p = ''m.gguf'' then Some [0x47, 0x47, 0x55, 0x46, 3, 0] else None),
     io_delivers = 100, io_throws = False \<rparr>"

theorem io_read_exact_witness:
  "\<exists>p' buf' n. dx_io_read_file example_io_env example_log_env (Some \<lparr> io_logger = None, io_kind = 3 \<rparr>)
      (Some ''m.gguf'') 4 (Some [9, 9, 9]) 3 (Some 77) = (0, Some p', Some buf', Some n) \<and>
    unat n = 2 \<and> buf' ! 0 = 3 \<and> buf' ! 2 = 9"
proof -
  have "\<exists>st p' buf' n. dx_io_read_file example_io_env example_log_env (Some \<lparr> io_logger = None, io_kind = 3 \<rparr>)
      (Some ''m.gguf'') 4 (Some [9, 9, 9]) 3 (Some 77) = (st, Some p', Some buf', Some n) \<and>
    unat n = min (length [0x47, 0x47, 0x55, 0x46, 3, 0 :: u8] - unat (4 :: u64)) (unat (3 :: u64)) \<and>
    st = (if unat (4 :: u64) < length [0x47, 0x47, 0x55, 0x46, 3, 0 :: u8] then 0 else 1) \<and>
    length buf' = length [9, 9, 9 :: u8] \<and>
    (\<forall>i < length [9, 9, 9 :: u8]. buf' ! i =
       (if i < unat n then [0x47, 0x47, 0x55, 0x46, 3, 0] ! (unat (4 :: u64) + i) else [9, 9, 9] ! i))"
    by (rule io_read_exact) (simp_all add: example_io_env_def)
  then obtain st p' buf' n where r:
    "dx_io_read_file example_io_env example_log_env (Some \<lparr> io_logger = None, io_kind = 3 \<rparr>)
      (Some ''m.gguf'') 4 (Some [9, 9, 9]) 3 (Some 77) = (st, Some p', Some buf', Some n)"
    "unat n = 2" "st = 0"
    "\<forall>i < 3. buf' ! i = (if i < unat n then [0x47, 0x47, 0x55, 0x46, 3, 0] ! (4 + i) else [9, 9, 9] ! i)"
    by auto
  then have "buf' ! 0 = 3" "buf' ! 2 = 9" by simp_all
  with r show ?thesis by blast
qed

text \<open>The model handle as a ranged reader, for a client that passes a fresh buffer.\<close>

definition model_read_bytes ::
  "io_env \<Rightarrow> log_env \<Rightarrow> dx_model_t \<Rightarrow> nat \<Rightarrow> nat \<Rightarrow> dx_model_t \<times> u8 list" where
  "model_read_bytes env lenv m off n =
    (case dx_model_read env lenv (Some m) (of_nat off) (Some (replicate n 0)) (of_nat n) (Some 0) of
       (_, m', buf, k) \<Rightarrow> (the m', take (unat (the k)) (the buf)))"

definition model_usable :: "io_env \<Rightarrow> u8 list \<Rightarrow> dx_model_t \<Rightarrow> bool" where
  "model_usable env contents m \<longleftrightarrow> mo_provider m \<noteq> None \<and> mo_path m \<noteq> [] \<and>
     io_files env (mo_path m) = Some contents \<and> \<not> io_throws env \<and>
     length contents < 18446744073709551616 \<and> length contents \<le> io_delivers env"

lemma io_read_keeps:
  "dx_io_read_file env lenv (Some p) path off buf n old = (st, p', buf', k) \<Longrightarrow> p' \<noteq> None"
  by (auto simp: dx_io_read_file_def Let_def split: if_splits option.splits)

lemma model_read_keeps:
  assumes "dx_model_read env lenv (Some m) off buf n old = (st, m', buf', k)" "mo_provider m \<noteq> None"
  shows "\<exists>l. m' = Some (m\<lparr>mo_provider := Some l\<rparr>)"
  using assms io_read_keeps by (fastforce simp: dx_model_read_def split: prod.splits)

interpretation mr: ranged_reader "model_usable env contents" contents "model_read_bytes env lenv"
  for env contents lenv
proof unfold_locales
  fix m and off n :: nat
  assume ok: "model_usable env contents m"
  obtain st m' buf k where r: "dx_model_read env lenv (Some m) (of_nat off) (Some (replicate n 0)) (of_nat n) (Some 0) =
      (st, m', buf, k)" by (metis prod_cases4)
  then show "model_usable env contents (fst (model_read_bytes env lenv m off n))"
    using ok model_read_keeps [OF r] by (auto simp: model_read_bytes_def model_usable_def)
next
  fix m and off n :: nat
  assume ok: "model_usable env contents m" and o: "off \<le> length contents" "0 < n" "n < 18446744073709551616"
  then obtain p where p: "mo_provider m = Some p" by (auto simp: model_usable_def)
  have n: "unat (of_nat n :: u64) = n" using o(3) by (rule unat_of_nat_u64)
  have off: "unat (of_nat off :: u64) = off"
    using o(1) ok by (intro unat_of_nat_u64) (auto simp: model_usable_def)
  have nz: "(of_nat n :: u64) \<noteq> 0" using n o(2) by (metis unat_0 less_irrefl)
  have f: "io_files env (mo_path m) = Some contents" "mo_path m \<noteq> []" "\<not> io_throws env"
      "length contents < 18446744073709551616" "length contents \<le> io_delivers env"
    using ok by (simp_all add: model_usable_def)
  obtain st p' buf' k where r: "dx_io_read_file env lenv (Some p) (Some (mo_path m)) (of_nat off)
        (Some (replicate n 0)) (of_nat n) (Some 0) = (st, Some p', Some buf', Some k)"
    "unat k = min (length contents - off) n" "length buf' = n"
    "\<forall>i < n. buf' ! i = (if i < unat k then contents ! (off + i) else replicate n 0 ! i)"
    using io_read_spec [OF f(1-3) nz f(4,5), of "replicate n 0" lenv p "of_nat off" 0]
    unfolding n off length_replicate by blast
  have "take (unat k) buf' = read_at off n contents"
  proof (rule nth_equalityI)
    show len: "length (take (unat k) buf') = length (read_at off n contents)"
      using r(2,3) by (simp add: read_at_def)
    fix i assume "i < length (take (unat k) buf')"
    then have "i < unat k" "i < n" "off + i < length contents" using r(2,3) by auto
    then show "take (unat k) buf' ! i = read_at off n contents ! i"
      using r(4) by (simp add: nth_read_at)
  qed
  then show "snd (model_read_bytes env lenv m off n) = read_at off n contents"
    using r(1) p by (simp add: model_read_bytes_def dx_model_read_def)
qed

text \<open>A client that reads on in chunks of \<open>n\<close> bytes until a read delivers nothing.\<close>

fun read_chunks :: "io_env \<Rightarrow> log_env \<Rightarrow> nat \<Rightarrow> dx_model_t \<Rightarrow> nat \<Rightarrow> nat \<Rightarrow> u8 list option" where
  "read_chunks env lenv 0 m off n = None"
| "read_chunks env lenv (Suc fuel) m off n =
    (case model_read_bytes env lenv m off n of (m', data) \<Rightarrow>
       if data = [] then Some [] else map_option ((@) data) (read_chunks env lenv fuel m' (off + length data) n))"

lemma read_chunks_read_all: "read_chunks env lenv fuel m off n = mr.read_all env lenv fuel m off n"
  by (induction fuel arbitrary: m off) (auto split: prod.splits)

text \<open>
  C19. Reading a model front to back in chunks of any positive size gives the file: started at
  any offset, the chunks concatenate to the rest of the file, and the read after the last byte
  delivers nothing, which ends the reading within one call more than the bytes that are left.
\<close>

theorem model_read_in_chunks:
  fixes off n :: nat
  assumes "model_usable env contents m" "off \<le> length contents" "0 < n" "n < 18446744073709551616"
  shows "read_chunks env lenv (Suc (length contents - off)) m off n = Some (drop off contents)"
  unfolding read_chunks_read_all by (rule mr.read_all_contents [OF assms]) simp

definition example_model :: dx_model_t where
  "example_model = \<lparr> mo_logger = None, mo_provider = Some \<lparr> io_logger = None, io_kind = 3 \<rparr>,
     mo_bytes = 6, mo_format = 1, mo_path = ''m.gguf'' \<rparr>"

theorem model_read_in_chunks_witness:
  "read_chunks example_io_env example_log_env 7 example_model 0 4 = Some [0x47, 0x47, 0x55, 0x46, 3, 0]"
proof -
  let ?c = "[0x47, 0x47, 0x55, 0x46, 3, 0 :: u8]"
  have "read_chunks example_io_env example_log_env (Suc (length ?c - 0)) example_model 0 4 = Some (drop 0 ?c)"
    by (rule model_read_in_chunks) (simp_all add: model_usable_def example_io_env_def example_model_def)
  moreover have "Suc (length ?c - 0) = 7" by simp
  ultimately show ?thesis by (simp only: drop_0)
qed

lemma prefix_magic:
  fixes n :: u64
  assumes "length buf = 8" "unat n = min (length contents) 8"
    "\<forall>i < 8. buf ! i = (if i < unat n then contents ! i else 0)"
  shows "(n \<ge> 4 \<and> take 4 buf = GGUF_MAGIC) \<longleftrightarrow> take 4 contents = GGUF_MAGIC"
proof (cases "4 \<le> length contents")
  case True
  then have "4 \<le> unat n" using assms(2) by simp
  moreover have "take 4 buf = take 4 contents"
    using assms True by (intro nth_equalityI) auto
  ultimately show ?thesis by (simp add: word_le_nat_alt)
next
  case False
  then have "unat n < 4" "length (take 4 contents) \<noteq> 4" using assms(2) by auto
  then show ?thesis by (auto simp: word_le_nat_alt GGUF_MAGIC_def)
qed

text \<open>
  Opening a model succeeds on every non-empty readable file and classifies it: the size is
  the file's, the format is GGUF exactly when the file starts with the magic bytes, and
  otherwise is decided by the file extension alone.
\<close>

theorem model_open_classifies:
  assumes "io_files env path = Some contents" "path \<noteq> []" "contents \<noteq> []" "\<not> io_throws env"
    "length contents < 18446744073709551616" "length contents \<le> io_delivers env"
  shows "\<exists>m. dx_model_open plat has_directstorage env lenv NoThrow NoThrow NoThrow (Some path) (Some old) =
      (0, Some (Some m)) \<and>
    unat (dx_model_size (Some m)) = length contents \<and>
    dx_model_format (Some m) =
      (if take 4 contents = GGUF_MAGIC then DX_MODEL_FORMAT_GGUF
       else if path_extension path = ''.safetensors'' then DX_MODEL_FORMAT_SAFETENSORS
       else if path_extension path = ''.onnx'' then DX_MODEL_FORMAT_ONNX
       else DX_MODEL_FORMAT_GENERIC)"
proof -
  have size': "unat (model_file_size env path) = length contents"
    using assms(1,5) by (simp add: model_file_size_def unat_of_nat_u64)
  then have nz: "model_file_size env path \<noteq> 0" using assms(3) by (metis unat_0 length_0_conv)
  obtain p where p: "dx_io_provider_create plat has_directstorage lenv NoThrow NoThrow DX_IO_PROVIDER_AUTO (Some None) =
      (0, Some (Some p))"
    by (simp add: dx_io_provider_create_def valid_io_kind_def dx_component_logger_create_def Let_def)
  have "(8 :: u64) \<noteq> 0" "unat (8 :: u64) \<le> length (replicate 8 (0 :: u8))" by simp_all
  from io_read_spec [OF assms(1,2,4) this(1) assms(5,6) this(2), of lenv p 0 0]
  obtain st p' buf n where r: "dx_io_read_file env lenv (Some p) (Some path) 0 (Some (replicate 8 0)) 8 (Some 0) =
      (st, Some p', Some buf, Some n)"
    "unat n = min (length contents) 8" "length buf = 8"
    "\<forall>i < 8. buf ! i = (if i < unat n then contents ! i else 0)"
    by auto
  obtain l where l: "dx_component_logger_create plat lenv NoThrow (Some ''dxmodel'') (Some None) = (0, Some (Some l))"
    by (simp add: dx_component_logger_create_def)
  let ?m = "\<lparr> mo_logger = Some l, mo_provider = Some p', mo_bytes = model_file_size env path,
      mo_format = detect_format path buf n, mo_path = path \<rparr>"
  have "dx_model_open plat has_directstorage env lenv NoThrow NoThrow NoThrow (Some path) (Some old) =
      (0, Some (Some ?m))"
    using assms(2) nz by (simp add: dx_model_open_def p r l)
  then show ?thesis
    using size' prefix_magic [OF r(3,2,4)]
    by (simp add: dx_model_size_def dx_model_format_def detect_format_def Let_def)
qed

theorem model_open_classifies_witness:
  "\<exists>m. dx_model_open Portable False example_io_env example_log_env NoThrow NoThrow NoThrow
      (Some ''m.gguf'') (Some None) = (0, Some (Some m)) \<and> dx_model_format (Some m) = 1"
  using model_open_classifies [of example_io_env "''m.gguf''" "[0x47, 0x47, 0x55, 0x46, 3, 0]" Portable
      False example_log_env None]
  by (auto simp: example_io_env_def GGUF_MAGIC_def)

end
