(* ===== verification/ByteCodec.thy ===== *)
theory ByteCodec
  imports DxPrelude
begin

text \<open>
  Little-endian integers in byte buffers: what \<open>memcpy\<close> between a buffer and a 16-, 32- or
  64-bit object does on the little-endian hosts the program targets, and arrays of 32-bit
  values (\<open>float\<close> arrays, by their bit patterns).
\<close>

section \<open>Little-endian numbers\<close>

fun le_nat :: "u8 list \<Rightarrow> nat" where
  "le_nat [] = 0"
| "le_nat (b # bs) = unat b + 256 * le_nat bs"

fun le_bytes :: "nat \<Rightarrow> nat \<Rightarrow> u8 list" where
  "le_bytes 0 x = []"
| "le_bytes (Suc n) x = of_nat (x mod 256) # le_bytes n (x div 256)"

lemma length_le_bytes [simp]: "length (le_bytes n x) = n"
  by (induction n arbitrary: x) auto

lemma unat_byte: "k < 256 \<Longrightarrow> unat (of_nat k :: u8) = k"
  by (simp add: unsigned_of_nat take_bit_nat_eq_self_iff)

lemma u8_lt: "unat (b :: u8) < 256"
proof -
  have "unat b < 2 ^ LENGTH(8)" by (rule unsigned_less)
  then show ?thesis by simp
qed

lemma le_nat_bytes: "le_nat (le_bytes n x) = x mod 256 ^ n"
  by (induction n arbitrary: x) (simp_all add: unat_byte mod_mult2_eq)

lemma le_bytes_nat: "le_bytes (length bs) (le_nat bs) = bs"
proof (induction bs)
  case (Cons b bs)
  have "unat b < 256" by (rule u8_lt)
  then show ?case using Cons by simp
qed simp

lemma le_nat_lt: "le_nat bs < 256 ^ length bs"
proof (induction bs)
  case (Cons b bs)
  have "unat b < 256" by (rule u8_lt)
  with Cons show ?case by simp
qed simp

definition u16_of_le :: "u8 list \<Rightarrow> u16" where "u16_of_le bs = of_nat (le_nat bs)"
definition u32_of_le :: "u8 list \<Rightarrow> u32" where "u32_of_le bs = of_nat (le_nat bs)"
definition u64_of_le :: "u8 list \<Rightarrow> u64" where "u64_of_le bs = of_nat (le_nat bs)"
definition le_of_u16 :: "u16 \<Rightarrow> u8 list" where "le_of_u16 w = le_bytes 2 (unat w)"
definition le_of_u32 :: "u32 \<Rightarrow> u8 list" where "le_of_u32 w = le_bytes 4 (unat w)"
definition le_of_u64 :: "u64 \<Rightarrow> u8 list" where "le_of_u64 w = le_bytes 8 (unat w)"

lemma length_le_of [simp]:
  "length (le_of_u16 w) = 2" "length (le_of_u32 x) = 4" "length (le_of_u64 y) = 8"
  by (simp_all add: le_of_u16_def le_of_u32_def le_of_u64_def)

lemma u32_of_le_of [simp]: "u32_of_le (le_of_u32 w) = w"
  using u32_lt [of w] by (simp add: u32_of_le_def le_of_u32_def le_nat_bytes)

lemma u64_of_le_of [simp]: "u64_of_le (le_of_u64 w) = w"
  using u64_lt [of w] by (simp add: u64_of_le_def le_of_u64_def le_nat_bytes)

lemma le_of_u32_of:
  assumes "length bs = 4" shows "le_of_u32 (u32_of_le bs) = bs"
proof -
  have "le_nat bs < 4294967296" using le_nat_lt [of bs] assms by simp
  then have "unat (u32_of_le bs) = le_nat bs" by (simp add: u32_of_le_def unat_of_nat_u32)
  then show ?thesis using le_bytes_nat [of bs] assms by (simp add: le_of_u32_def)
qed

section \<open>Arrays of 32-bit values\<close>

fun words_of_bytes :: "u8 list \<Rightarrow> u32 list" where
  "words_of_bytes (a # b # c # d # bs) = u32_of_le [a, b, c, d] # words_of_bytes bs"
| "words_of_bytes bs = []"

definition bytes_of_words :: "u32 list \<Rightarrow> u8 list" where
  "bytes_of_words ws = concat (map le_of_u32 ws)"

lemma bytes_of_words_simps [simp]:
  "bytes_of_words [] = []" "bytes_of_words (w # ws) = le_of_u32 w @ bytes_of_words ws"
  by (simp_all add: bytes_of_words_def)

lemma length_bytes_of_words [simp]: "length (bytes_of_words ws) = 4 * length ws"
  by (induction ws) auto

lemma le_of_u32_cases:
  obtains a b c d where "le_of_u32 w = [a, b, c, d]"
proof -
  have "length (le_of_u32 w) = Suc (Suc (Suc (Suc 0)))" by simp
  then show thesis
    by (cases "le_of_u32 w" rule: words_of_bytes.cases) (auto intro: that)
qed

lemma words_of_bytes_of_words [simp]: "words_of_bytes (bytes_of_words ws) = ws"
proof (induction ws)
  case (Cons w ws)
  obtain a b c d where w: "le_of_u32 w = [a, b, c, d]" by (rule le_of_u32_cases)
  then have "u32_of_le [a, b, c, d] = w" using u32_of_le_of [of w] by simp
  then show ?case using Cons w by simp
qed simp

lemma length_words_of_bytes: "length (words_of_bytes bs) = length bs div 4"
  by (induction bs rule: words_of_bytes.induct) auto

end
