(* ===== verification/RefOps.thy ===== *)
theory RefOps
  imports Diagnostics
begin

text \<open>
  The reference operators \<open>src/core/dx_ops_api.cpp\<close>.

  A \<open>float\<close> is its 32-bit pattern; the arithmetic of the C++ implementation is the record
  \<open>float_ops\<close>, so that the development fixes which operations run in which order and
  nothing about rounding. Arrays passed by pointer are lists; \<open>c\<close> does not overlap \<open>a\<close> and
  \<open>b\<close> in \<open>dx_op_gemm_f32\<close>.
\<close>

type_synonym f32 = u32

record float_ops =
  fo_add :: "f32 \<Rightarrow> f32 \<Rightarrow> f32"
  fo_sub :: "f32 \<Rightarrow> f32 \<Rightarrow> f32"
  fo_mul :: "f32 \<Rightarrow> f32 \<Rightarrow> f32"
  fo_div :: "f32 \<Rightarrow> f32 \<Rightarrow> f32"
  fo_less :: "f32 \<Rightarrow> f32 \<Rightarrow> bool"
  fo_eq :: "f32 \<Rightarrow> f32 \<Rightarrow> bool"
  fo_neg :: "f32 \<Rightarrow> f32"
  fo_sqrt :: "f32 \<Rightarrow> f32"
  fo_exp :: "f32 \<Rightarrow> f32"
  fo_erf :: "f32 \<Rightarrow> f32"
  fo_tanh :: "f32 \<Rightarrow> f32"
  fo_of_u32 :: "u32 \<Rightarrow> f32"

abbreviation (input) f32_zero :: f32 where "f32_zero \<equiv> 0"
abbreviation (input) f32_one :: f32 where "f32_one \<equiv> 0x3F800000"
abbreviation (input) f32_half :: f32 where "f32_half \<equiv> 0x3F000000"

text \<open>\<open>std::max(a, b)\<close> is \<open>(a < b) ? b : a\<close>, \<open>std::min(a, b)\<close> is \<open>(b < a) ? b : a\<close>.\<close>

definition std_max :: "float_ops \<Rightarrow> f32 \<Rightarrow> f32 \<Rightarrow> f32" where
  "std_max F a b = (if fo_less F a b then b else a)"

definition std_min :: "float_ops \<Rightarrow> f32 \<Rightarrow> f32 \<Rightarrow> f32" where
  "std_min F a b = (if fo_less F b a then b else a)"

section \<open>Operators\<close>

definition matrix_size_ok :: "u64 \<Rightarrow> u64 \<Rightarrow> u64 option" where
  "matrix_size_ok lhs rhs = (if lhs \<noteq> 0 \<and> rhs > UINT64_MAX div lhs then None else Some (lhs * rhs))"

text \<open>\<open>log_perf\<close> opens a logger of its own for one message; the result is its final state.\<close>

definition ops_log_perf :: "platform \<Rightarrow> log_env \<Rightarrow> thrown \<Rightarrow> string \<Rightarrow> ComponentLogger option" where
  "ops_log_perf plat lenv thr message =
    (case dx_component_logger_create plat lenv thr (Some ''dxops'') (Some None) of
       (st, logger) \<Rightarrow>
         if st = 0 then dx_component_logger_destroy (dx_component_logger_write lenv (the logger)
             DX_COMPONENT_LEVEL_PERFORMANCE (Some message) (Some ''dx_ops_api.cpp'') 28)
         else None)"

definition dx_op_copy_f32 :: "f32 list option \<Rightarrow> f32 list option \<Rightarrow> u64 \<Rightarrow> status \<times> f32 list option" where
  "dx_op_copy_f32 input output count =
    (if input = None \<or> output = None then (-1, output)
     else if count > 0 \<and> count > UINT64_MAX div 4 then (-2, output)
     else (0, Some (write_at 0 (take (unat count) (the input)) (the output))))"

definition dx_op_fill_f32 :: "f32 list option \<Rightarrow> u64 \<Rightarrow> f32 \<Rightarrow> status \<times> f32 list option" where
  "dx_op_fill_f32 output count value' =
    (if output = None then (-1, output)
     else (0, Some (fold (\<lambda>index out. out[index := value']) [0..<unat count] (the output))))"

definition gemm_dot :: "float_ops \<Rightarrow> f32 list \<Rightarrow> f32 list \<Rightarrow> nat \<Rightarrow> nat \<Rightarrow> nat \<Rightarrow> nat \<Rightarrow> f32" where
  "gemm_dot F a b n k row column =
     fold (\<lambda>inner sum. fo_add F sum (fo_mul F (a ! (row * k + inner)) (b ! (inner * n + column))))
       [0..<k] f32_zero"

definition gemm_cell ::
  "float_ops \<Rightarrow> f32 list \<Rightarrow> f32 list \<Rightarrow> nat \<Rightarrow> nat \<Rightarrow> f32 \<Rightarrow> f32 \<Rightarrow> nat \<Rightarrow> nat \<Rightarrow> f32 list \<Rightarrow> f32 list" where
  "gemm_cell F a b n k alpha beta row column c =
     c[row * n + column := fo_add F (fo_mul F alpha (gemm_dot F a b n k row column))
       (fo_mul F beta (c ! (row * n + column)))]"

definition gemm_loops ::
  "float_ops \<Rightarrow> f32 list \<Rightarrow> f32 list \<Rightarrow> nat \<Rightarrow> nat \<Rightarrow> nat \<Rightarrow> f32 \<Rightarrow> f32 \<Rightarrow> f32 list \<Rightarrow> f32 list" where
  "gemm_loops F a b m n k alpha beta c =
     fold (\<lambda>row c. fold (\<lambda>column c. gemm_cell F a b n k alpha beta row column c) [0..<n] c) [0..<m] c"

definition dx_op_gemm_f32 ::
  "float_ops \<Rightarrow> platform \<Rightarrow> log_env \<Rightarrow> thrown \<Rightarrow> f32 list option \<Rightarrow> f32 list option \<Rightarrow> f32 list option \<Rightarrow>
   u64 \<Rightarrow> u64 \<Rightarrow> u64 \<Rightarrow> f32 \<Rightarrow> f32 \<Rightarrow> status \<times> f32 list option \<times> ComponentLogger option" where
  "dx_op_gemm_f32 F plat lenv thr a b c m n k alpha beta =
    (if a = None \<or> b = None \<or> c = None \<or> m = 0 \<or> n = 0 \<or> k = 0 then (-1, c, None)
     else (case (matrix_size_ok m n, matrix_size_ok m k, matrix_size_ok k n) of
         (Some mn, Some mk, Some kn) \<Rightarrow>
           if mn > UINT64_MAX div 4 \<or> mk > UINT64_MAX div 4 \<or> kn > UINT64_MAX div 4 then (-2, c, None)
           else (0, Some (gemm_loops F (the a) (the b) (unat m) (unat n) (unat k) alpha beta (the c)),
                 ops_log_perf plat lenv thr ''reference_gemm_f32_complete'')
       | _ \<Rightarrow> (-2, c, None)))"

section \<open>Correctness of the loops\<close>

text \<open>A loop that overwrites one entry per step, each computed from that entry's old value.\<close>

lemma fold_update_nth:
  assumes "distinct ks" "\<forall>k \<in> set ks. k < length xs" "i < length xs"
  shows "fold (\<lambda>k xs. xs[k := f k (xs ! k)]) ks xs ! i = (if i \<in> set ks then f i (xs ! i) else xs ! i)"
  using assms
proof (induction ks arbitrary: xs)
  case (Cons k ks)
  then show ?case by (cases "i = k") auto
qed simp

lemma length_fold_update [simp]: "length (fold (\<lambda>k xs. xs[g k := f k xs]) ks xs) = length xs"
  by (induction ks arbitrary: xs) auto

lemma fill_nth:
  "i < length out \<Longrightarrow> n \<le> length out \<Longrightarrow>
    fold (\<lambda>index out. out[index := v]) [0..<n] out ! i = (if i < n then v else out ! i)"
  using fold_update_nth [of "[0..<n]" out i "\<lambda>_ _. v"] by simp

lemma fold_pairs:
  "fold (\<lambda>row c. fold (\<lambda>column c. h row column c) [0..<n] c) rows c =
    fold (\<lambda>(row, column) c. h row column c) (concat (map (\<lambda>row. map (Pair row) [0..<n]) rows)) c"
  by (induction rows arbitrary: c) (simp_all add: fold_map comp_def)

lemma cell_index_inj:
  assumes "column < (n :: nat)" "column' < n" "row * n + column = row' * n + column'"
  shows "row = row' \<and> column = column'"
proof -
  have "row = (row * n + column) div n" "column = (row * n + column) mod n"
    "row' = (row' * n + column') div n" "column' = (row' * n + column') mod n"
    using assms(1,2) by simp_all
  then show ?thesis using assms(3) by metis
qed

lemma cell_index_lt: "row < (m :: nat) \<Longrightarrow> column < n \<Longrightarrow> row * n + column < m * n"
proof -
  assume "row < m" "column < n"
  then have "row * n + column < (row + 1) * n" by simp
  also have "\<dots> \<le> m * n" using \<open>row < m\<close> by (intro mult_le_mono1) simp
  finally show ?thesis .
qed

lemma fold_cells_nth:
  assumes "distinct ps" "\<forall>(r, q) \<in> set ps. q < n \<and> r * n + q < length c" "i < length c"
  shows "fold (\<lambda>(r, q) c. c[r * n + q := f r q (c ! (r * n + q))]) ps c ! i =
    (if \<exists>(r, q) \<in> set ps. i = r * n + q then f (i div n) (i mod n) (c ! i) else c ! i)"
  using assms
proof (induction ps arbitrary: c)
  case (Cons p ps)
  obtain r q where p: "p = (r, q)" by force
  let ?c = "c[r * n + q := f r q (c ! (r * n + q))]"
  have q: "q < n" "r * n + q < length c" using Cons.prems(2) p by auto
  have ih: "fold (\<lambda>(r, q) c. c[r * n + q := f r q (c ! (r * n + q))]) ps ?c ! i =
    (if \<exists>(r, q) \<in> set ps. i = r * n + q then f (i div n) (i mod n) (?c ! i) else ?c ! i)"
    using Cons.prems by (intro Cons.IH) auto
  show ?case
  proof (cases "i = r * n + q")
    case True
    have "\<not> (\<exists>(r', q') \<in> set ps. i = r' * n + q')"
      using Cons.prems(1,2) True q(1) cell_index_inj [of q n _ r] p by fastforce
    then show ?thesis using ih True q p by simp
  next
    case False
    then show ?thesis using ih p by simp
  qed
qed simp

lemma gemm_loops_nth:
  assumes "length c = m * n" "row < m" "column < n"
  shows "gemm_loops F a b m n k alpha beta c ! (row * n + column) =
    fo_add F (fo_mul F alpha (gemm_dot F a b n k row column)) (fo_mul F beta (c ! (row * n + column)))"
proof -
  let ?ps = "concat (map (\<lambda>row. map (Pair row) [0..<n]) [0..<m])"
  let ?f = "\<lambda>r q v. fo_add F (fo_mul F alpha (gemm_dot F a b n k r q)) (fo_mul F beta v)"
  have "distinct ?ps"
    using distinct_product [of "[0..<m]" "[0..<n]"] by (simp add: product_concat_map)
  moreover have "\<forall>(r, q) \<in> set ?ps. q < n \<and> r * n + q < length c"
    using assms(1) cell_index_lt by auto
  moreover have lt: "row * n + column < length c" using assms cell_index_lt by simp
  moreover have "(\<exists>(r, q) \<in> set ?ps. row * n + column = r * n + q)" using assms(2,3) by force
  ultimately show ?thesis
    using fold_cells_nth [of ?ps n c "row * n + column" ?f] assms(3)
    by (simp add: gemm_loops_def gemm_cell_def fold_pairs)
qed

lemma length_gemm_loops [simp]: "length (gemm_loops F a b m n k alpha beta c) = length c"
proof -
  have inner: "length (fold (\<lambda>column c. gemm_cell F a b n k alpha beta row column c) cs c) = length c" for row cs c
    by (induction cs arbitrary: c) (simp_all add: gemm_cell_def)
  have "length (fold (\<lambda>row c. fold (\<lambda>column c. gemm_cell F a b n k alpha beta row column c) [0..<n] c) rows c) = length c" for rows c
    by (induction rows arbitrary: c) (simp_all add: inner)
  then show ?thesis by (simp add: gemm_loops_def)
qed

lemma matrix_size_ok_iff:
  "matrix_size_ok l r = (if unat l * unat r < 18446744073709551616 then Some (l * r) else None)"
proof (cases "l = 0")
  case False
  then show ?thesis using mult_fits_iff_div [of l r] by (simp add: matrix_size_ok_def not_less)
qed (simp add: matrix_size_ok_def)

text \<open>
  The reference matrix product is the textbook one: for non-empty shapes whose arrays fit
  the address space, with arrays of the right sizes, it succeeds and every entry of the result is
  \<open>alpha\<close> times the inner product of its row and column, accumulated in order from zero, plus
  \<open>beta\<close> times the old entry; a shape that does not fit is refused with -2 and leaves \<open>c\<close> alone.
\<close>

theorem gemm_reference:
  assumes "m \<noteq> 0" "n \<noteq> 0" "k \<noteq> 0" "length c = unat m * unat n"
  shows "(if unat m * unat n \<le> 4611686018427387903 \<and> unat m * unat k \<le> 4611686018427387903 \<and>
         unat k * unat n \<le> 4611686018427387903
     then \<exists>c' l. dx_op_gemm_f32 F plat lenv thr (Some a) (Some b) (Some c) m n k alpha beta = (0, Some c', l) \<and>
       length c' = length c \<and>
       (\<forall>row < unat m. \<forall>column < unat n. c' ! (row * unat n + column) =
          fo_add F (fo_mul F alpha (fold (\<lambda>inner sum. fo_add F sum
              (fo_mul F (a ! (row * unat k + inner)) (b ! (inner * unat n + column)))) [0..<unat k] 0))
            (fo_mul F beta (c ! (row * unat n + column))))
     else dx_op_gemm_f32 F plat lenv thr (Some a) (Some b) (Some c) m n k alpha beta = (-2, Some c, None))"
proof -
  have bound: "unat (x * y) = unat x * unat y" if "unat x * unat y < 18446744073709551616" for x y :: u64
    using that by (rule u64_mult_unat)
  have quarter: "x * y > UINT64_MAX div 4 \<longleftrightarrow> unat x * unat y > 4611686018427387903"
    if "unat x * unat y < 18446744073709551616" for x y :: u64
    using bound [OF that] by (simp add: word_less_nat_alt unat_div)
  have "dx_op_gemm_f32 F plat lenv thr (Some a) (Some b) (Some c) m n k alpha beta =
     (if unat m * unat n \<le> 4611686018427387903 \<and> unat m * unat k \<le> 4611686018427387903 \<and>
         unat k * unat n \<le> 4611686018427387903
      then (0, Some (gemm_loops F a b (unat m) (unat n) (unat k) alpha beta c),
            ops_log_perf plat lenv thr ''reference_gemm_f32_complete'') else (-2, Some c, None))"
    using assms(1-3) quarter [of m n] quarter [of m k] quarter [of k n]
    by (simp add: dx_op_gemm_f32_def matrix_size_ok_iff not_less split: if_splits)
  then show ?thesis
    using gemm_loops_nth [OF assms(4)] by (simp add: gemm_dot_def)
qed

definition toy_floats :: float_ops where
  "toy_floats = \<lparr> fo_add = (+), fo_sub = (-), fo_mul = (*), fo_div = (div), fo_less = (<), fo_eq = (=),
     fo_neg = uminus, fo_sqrt = id, fo_exp = id, fo_erf = id, fo_tanh = id, fo_of_u32 = id \<rparr>"

theorem gemm_reference_witness:
  "\<exists>c' l. dx_op_gemm_f32 toy_floats Portable example_log_env NoThrow (Some [1, 2]) (Some [3, 4]) (Some [10])
       1 1 2 5 1 = (0, Some c', l) \<and> c' ! 0 = 65"
proof -
  have "\<exists>c' l. dx_op_gemm_f32 toy_floats Portable example_log_env NoThrow (Some [1, 2]) (Some [3, 4]) (Some [10])
       1 1 2 5 1 = (0, Some c', l) \<and>
     (\<forall>row < 1. \<forall>column < 1. c' ! (row * 1 + column) =
        fo_add toy_floats (fo_mul toy_floats 5 (fold (\<lambda>inner sum. fo_add toy_floats sum
            (fo_mul toy_floats ([1, 2] ! (row * 2 + inner)) ([3, 4] ! (inner * 1 + column)))) [0..<2] 0))
          (fo_mul toy_floats 1 ([10] ! (row * 1 + column))))"
    using gemm_reference [of 1 1 2 "[10]" toy_floats Portable example_log_env NoThrow "[1, 2]" "[3, 4]" 5 1]
    by auto
  moreover have "[0..<2] = [0, 1 :: nat]" by code_simp
  ultimately show ?thesis by (simp add: toy_floats_def)
qed

end
