(* ===== verification/CApi.thy ===== *)
theory CApi
  imports MemoryPool DeviceRuntime StreamEvents RefOps ByteCodec
begin

text \<open>
  The versioned C interface \<open>src/core/dx_c_api.cpp\<close>: devices, queues and buffers as opaque
  handles over the device, stream and memory components, with the thread-local error text and
  the legacy linear-algebra entry points.

  One thread is modelled. The objects behind the handles are the maps of \<open>capi\<close>; a handle is a
  \<open>nat option\<close>, \<open>None\<close> for the null pointer. A released handle is undefined behaviour in C; here
  it reads as null. The linear-algebra functions copy buffers into temporary vectors: their
  outer \<open>None\<close> is a copy past the end of such a vector, which is undefined behaviour too. A
  temporary vector without elements has a null data pointer.
\<close>

section \<open>State\<close>

abbreviation (input) DX_C_STATUS_OK :: status where "DX_C_STATUS_OK \<equiv> 0"
abbreviation (input) DX_C_STATUS_INVALID_ARGUMENT :: status where "DX_C_STATUS_INVALID_ARGUMENT \<equiv> -1"
abbreviation (input) DX_C_STATUS_NOT_FOUND :: status where "DX_C_STATUS_NOT_FOUND \<equiv> -2"
abbreviation (input) DX_C_STATUS_ALLOCATION_FAILED :: status where "DX_C_STATUS_ALLOCATION_FAILED \<equiv> -3"
abbreviation (input) DX_C_STATUS_DEPENDENCY_FAILED :: status where "DX_C_STATUS_DEPENDENCY_FAILED \<equiv> -4"
abbreviation (input) DX_C_STATUS_UNSUPPORTED :: status where "DX_C_STATUS_UNSUPPORTED \<equiv> -6"
abbreviation (input) DX_C_STATUS_DEVICE_ERROR :: status where "DX_C_STATUS_DEVICE_ERROR \<equiv> -7"
abbreviation (input) DX_C_STATUS_INTERNAL_ERROR :: status where "DX_C_STATUS_INTERNAL_ERROR \<equiv> -8"

record dx_device_s =
  cd_execution :: dx_execution_device_t
  cd_memory :: dx_memory_pool_t
  cd_info :: dx_device_info_t

record dx_queue_s =
  cq_device :: nat
  cq_stream :: dx_stream_t

record dx_buffer_s =
  cb_device :: nat
  cb_allocation :: nat

record capi =
  ca_last_error :: string
  ca_devices :: "nat \<rightharpoonup> dx_device_s"
  ca_queues :: "nat \<rightharpoonup> dx_queue_s"
  ca_buffers :: "nat \<rightharpoonup> dx_buffer_s"

record dx_c_buffer_desc_t =
  bd_struct_size :: u32
  bd_api_version :: u32
  bd_bytes :: u64
  bd_alignment :: u64
  bd_location :: u32
  bd_flags :: u32

text \<open>
  What the system decides during one call: \<open>xe_throw k\<close> is what the \<open>k\<close>-th component
  constructor of the call throws, \<open>xe_new_ok\<close> whether the no-throw allocation of the handle
  succeeds and \<open>xe_handle\<close> its address.
\<close>

record capi_env =
  xe_plat :: platform
  xe_lenv :: log_env
  xe_throw :: "nat \<Rightarrow> thrown"
  xe_dxgi :: "string + adapter_probe list"
  xe_create_ok :: "nat \<Rightarrow> bool"
  xe_queue_ok :: bool
  xe_new_ok :: bool
  xe_handle :: nat
  xe_alloc :: alloc_env
  xe_copy :: copy_env

section \<open>Errors\<close>

definition fail :: "status \<Rightarrow> string \<Rightarrow> capi \<Rightarrow> status \<times> capi" where
  "fail st message s = (st, s\<lparr>ca_last_error := message\<rparr>)"

definition clear_error :: "capi \<Rightarrow> capi" where
  "clear_error s = s\<lparr>ca_last_error := []\<rparr>"

definition component_result :: "status \<Rightarrow> string \<Rightarrow> capi \<Rightarrow> status \<times> capi" where
  "component_result result operation s =
    (if result = 0 then (0, clear_error s)
     else if result = -1 then fail DX_C_STATUS_INVALID_ARGUMENT operation s
     else if result = -3 then fail DX_C_STATUS_ALLOCATION_FAILED operation s
     else fail DX_C_STATUS_DEPENDENCY_FAILED operation s)"

definition operator_result :: "status \<Rightarrow> string \<Rightarrow> capi \<Rightarrow> status \<times> capi" where
  "operator_result result operation s =
    (if result = 0 then (0, clear_error s)
     else if result = -1 \<or> result = -2 then fail DX_C_STATUS_INVALID_ARGUMENT operation s
     else fail DX_C_STATUS_INTERNAL_ERROR operation s)"

definition valid_header :: "u32 \<Rightarrow> u32 \<Rightarrow> u32 \<Rightarrow> bool" where
  "valid_header struct_size api_version expected_size \<longleftrightarrow>
     struct_size \<ge> expected_size \<and> api_version = 1"

definition map_location :: "u32 \<Rightarrow> u32" where
  "map_location location =
    (if location = 1 then DX_MEMORY_DEVICE else if location = 2 then DX_MEMORY_UPLOAD
     else if location = 3 then DX_MEMORY_READBACK else UINT32_MAX)"

definition dx_c_api_version :: u32 where
  "dx_c_api_version = 1"

definition dx_last_error :: "capi \<Rightarrow> string" where
  "dx_last_error s = ca_last_error s"

section \<open>Devices\<close>

text \<open>
  \<open>dx_create_device\<close>: status, out-parameter and state. The manager and the components created
  on the way are destroyed again on every error path, which leaves no trace in the state.
\<close>

definition dx_create_device ::
  "capi_env \<Rightarrow> u32 \<Rightarrow> nat option option \<Rightarrow> capi \<Rightarrow> status \<times> nat option option \<times> capi" where
  "dx_create_device env index out s =
    (let ret = (\<lambda>(st, s'). (st, if out = None then None else Some None, s'))
     in if out = None then ret (fail DX_C_STATUS_INVALID_ARGUMENT ''dx_create_device: out_device is null'' s)
     else (case dx_device_manager_create (xe_plat env) (xe_lenv env) (xe_throw env 0) (xe_throw env 1)
             (xe_dxgi env) (Some None) of
         (result, manager) \<Rightarrow>
           if result \<noteq> 0 then ret (component_result result ''dx_create_device: device manager creation failed'' s)
           else
             (let (result_info, info) = dx_device_manager_get_info (the manager) index (Some blank_device_info)
              in if index \<ge> dx_device_manager_count (the manager) \<or> result_info \<noteq> 0
              then ret (fail DX_C_STATUS_NOT_FOUND ''dx_create_device: device index not found'' s)
              else (case dx_device_manager_open (xe_plat env) (xe_throw env 2) (xe_create_ok env)
                     (the manager) index (Some None) of
                  (result_open, execution) \<Rightarrow>
                    if result_open \<noteq> 0
                    then ret (component_result result_open ''dx_create_device: execution device open failed'' s)
                    else
                      (let native = dx_execution_device_native_handle (xe_plat env) (the execution);
                           (result_pool, memory) =
                             (if native = None
                              then dx_memory_pool_create (xe_plat env) (xe_lenv env) (xe_throw env 3) (xe_throw env 4) (Some None)
                              else dx_memory_pool_create_for_native_device (xe_plat env) (xe_lenv env)
                                     (xe_throw env 3) (xe_throw env 4) True (Some None))
                       in if result_pool \<noteq> 0
                       then ret (component_result result_pool ''dx_create_device: memory pool creation failed'' s)
                       else if \<not> xe_new_ok env
                       then ret (fail DX_C_STATUS_ALLOCATION_FAILED ''dx_create_device: allocation failed'' s)
                       else
                         (let device = \<lparr> cd_execution = the (the execution), cd_memory = the (the memory),
                                cd_info = (the info)\<lparr>di_struct_size := sizeof_device_info, di_api_version := 1\<rparr> \<rparr>
                          in (0, Some (Some (xe_handle env)),
                              clear_error (s\<lparr>ca_devices := (ca_devices s)(xe_handle env \<mapsto> device)\<rparr>))))))))"

definition device_of :: "capi \<Rightarrow> nat option \<Rightarrow> dx_device_s option" where
  "device_of s h = Option.bind h (ca_devices s)"

definition queue_of :: "capi \<Rightarrow> nat option \<Rightarrow> dx_queue_s option" where
  "queue_of s h = Option.bind h (ca_queues s)"

definition buffer_of :: "capi \<Rightarrow> nat option \<Rightarrow> dx_buffer_s option" where
  "buffer_of s h = Option.bind h (ca_buffers s)"

definition dx_destroy_device :: "nat option \<Rightarrow> capi \<Rightarrow> capi" where
  "dx_destroy_device device s =
    (case device of None \<Rightarrow> s | Some h \<Rightarrow> s\<lparr>ca_devices := (ca_devices s)(h := None)\<rparr>)"

definition dx_device_get_info ::
  "nat option \<Rightarrow> dx_device_info_t option \<Rightarrow> capi \<Rightarrow> status \<times> dx_device_info_t option \<times> capi" where
  "dx_device_get_info device out_info s =
    (case (device_of s device, out_info) of
       (Some d, Some i) \<Rightarrow>
         if \<not> valid_header (di_struct_size i) (di_api_version i) sizeof_device_info
         then (case fail DX_C_STATUS_INVALID_ARGUMENT ''dx_device_get_info: invalid argument'' s of
             (st, s') \<Rightarrow> (st, out_info, s'))
         else (0, Some (cd_info d), clear_error s)
     | _ \<Rightarrow> (case fail DX_C_STATUS_INVALID_ARGUMENT ''dx_device_get_info: invalid argument'' s of
             (st, s') \<Rightarrow> (st, out_info, s')))"

section \<open>Queues\<close>

definition dx_device_queue ::
  "capi_env \<Rightarrow> nat option \<Rightarrow> nat option option \<Rightarrow> capi \<Rightarrow> status \<times> nat option option \<times> capi" where
  "dx_device_queue env device out s =
    (case (device_of s device, out) of
       (Some d, Some _) \<Rightarrow>
         (let native = dx_execution_device_native_handle (xe_plat env) (Some (cd_execution d));
              (result, stream) =
                (if dx_execution_device_backend (Some (cd_execution d)) = DX_DEVICE_BACKEND_DX12
                 then dx_stream_create_for_native_device (xe_plat env) (xe_lenv env) (xe_throw env 0)
                        (xe_throw env 1) (xe_queue_ok env) (native \<noteq> None) DX_STREAM_COMPUTE (Some None)
                 else dx_stream_create (xe_plat env) (xe_lenv env) (xe_throw env 0) (xe_throw env 1)
                        DX_STREAM_HOST (Some None))
          in if result \<noteq> 0
          then (case component_result result ''dx_device_queue: stream creation failed'' s of
              (st, s') \<Rightarrow> (st, Some None, s'))
          else if \<not> xe_new_ok env
          then (case fail DX_C_STATUS_ALLOCATION_FAILED ''dx_device_queue: allocation failed'' s of
              (st, s') \<Rightarrow> (st, Some None, s'))
          else (0, Some (Some (xe_handle env)),
                clear_error (s\<lparr>ca_queues := (ca_queues s)(xe_handle env \<mapsto>
                  \<lparr> cq_device = the device, cq_stream = the (the stream) \<rparr>)\<rparr>)))
     | _ \<Rightarrow> (case fail DX_C_STATUS_INVALID_ARGUMENT ''dx_device_queue: invalid argument'' s of
         (st, s') \<Rightarrow> (st, out, s')))"

definition dx_destroy_queue :: "nat option \<Rightarrow> capi \<Rightarrow> capi" where
  "dx_destroy_queue queue s =
    (case queue of None \<Rightarrow> s | Some h \<Rightarrow> s\<lparr>ca_queues := (ca_queues s)(h := None)\<rparr>)"

section \<open>Buffers\<close>

definition set_memory :: "nat \<Rightarrow> dx_memory_pool_t \<Rightarrow> capi \<Rightarrow> capi" where
  "set_memory h pool s =
    (case ca_devices s h of
       None \<Rightarrow> s | Some d \<Rightarrow> s\<lparr>ca_devices := (ca_devices s)(h \<mapsto> d\<lparr>cd_memory := pool\<rparr>)\<rparr>)"

definition dx_create_buffer_ex ::
  "capi_env \<Rightarrow> nat option \<Rightarrow> dx_c_buffer_desc_t option \<Rightarrow> nat option option \<Rightarrow> capi \<Rightarrow>
   status \<times> nat option option \<times> capi" where
  "dx_create_buffer_ex env device desc out s =
    (case (device_of s device, desc, out) of
       (Some d, Some ds, Some _) \<Rightarrow>
         if \<not> valid_header (bd_struct_size ds) (bd_api_version ds) 32 \<or> bd_bytes ds = 0
         then (case fail DX_C_STATUS_INVALID_ARGUMENT ''dx_create_buffer: invalid argument'' s of
             (st, s') \<Rightarrow> (st, out, s'))
         else if map_location (bd_location ds) = UINT32_MAX
         then (case fail DX_C_STATUS_INVALID_ARGUMENT ''dx_create_buffer: invalid location'' s of
             (st, s') \<Rightarrow> (st, Some None, s'))
         else
           (case dx_memory_alloc (xe_plat env) (xe_alloc env) (Some (cd_memory d))
                   (Some \<lparr> md_struct_size = sizeof_memory_desc, md_api_version = 1, md_bytes = bd_bytes ds,
                     md_alignment = bd_alignment ds, md_location = map_location (bd_location ds),
                     md_flags = bd_flags ds \<rparr>) (Some None) of
              (result, pool, allocation) \<Rightarrow>
                let s1 = set_memory (the device) (the pool) s
                in if result \<noteq> 0
                then (case component_result result ''dx_create_buffer: allocation failed'' s1 of
                    (st, s') \<Rightarrow> (st, Some None, s'))
                else if \<not> xe_new_ok env
                then (case dx_memory_free (xe_plat env) pool (the allocation) of
                    (_, pool', _) \<Rightarrow>
                      (case fail DX_C_STATUS_ALLOCATION_FAILED ''dx_create_buffer: allocation failed''
                              (set_memory (the device) (the pool') s1) of
                         (st, s') \<Rightarrow> (st, Some None, s')))
                else (0, Some (Some (xe_handle env)),
                      clear_error (s1\<lparr>ca_buffers := (ca_buffers s1)(xe_handle env \<mapsto>
                        \<lparr> cb_device = the device, cb_allocation = the (the allocation) \<rparr>)\<rparr>)))
     | _ \<Rightarrow> (case fail DX_C_STATUS_INVALID_ARGUMENT ''dx_create_buffer: invalid argument'' s of
         (st, s') \<Rightarrow> (st, out, s')))"

definition dx_create_buffer ::
  "capi_env \<Rightarrow> nat option \<Rightarrow> u64 \<Rightarrow> int \<Rightarrow> nat option option \<Rightarrow> capi \<Rightarrow>
   status \<times> nat option option \<times> capi" where
  "dx_create_buffer env device bytes location out s =
     dx_create_buffer_ex env device
       (Some \<lparr> bd_struct_size = 32, bd_api_version = 1, bd_bytes = bytes, bd_alignment = 0,
         bd_location = (if location < 0 then UINT32_MAX else of_int location), bd_flags = 0 \<rparr>) out s"

definition dx_destroy_buffer :: "platform \<Rightarrow> nat option \<Rightarrow> capi \<Rightarrow> capi" where
  "dx_destroy_buffer plat buffer s =
    (case buffer_of s buffer of
       None \<Rightarrow> s
     | Some b \<Rightarrow>
         let s1 = (case device_of s (Some (cb_device b)) of
               None \<Rightarrow> s
             | Some d \<Rightarrow>
                 (case dx_memory_free plat (Some (cd_memory d)) (Some (cb_allocation b)) of
                    (_, pool, _) \<Rightarrow> set_memory (cb_device b) (the pool) s))
         in s1\<lparr>ca_buffers := (ca_buffers s1)(the buffer := None)\<rparr>)"

text \<open>The allocation object behind a buffer.\<close>

definition allocation_of :: "capi \<Rightarrow> dx_buffer_s \<Rightarrow> dx_memory_allocation_t option" where
  "allocation_of s b =
     Option.bind (device_of s (Some (cb_device b))) (\<lambda>d. mp_allocations (cd_memory d) (cb_allocation b))"

definition dx_buffer_map :: "capi \<Rightarrow> nat option \<Rightarrow> data_origin option" where
  "dx_buffer_map s buffer =
    (case buffer_of s buffer of None \<Rightarrow> None | Some b \<Rightarrow> dx_memory_data (allocation_of s b))"

definition dx_buffer_size :: "capi \<Rightarrow> nat option \<Rightarrow> u64" where
  "dx_buffer_size s buffer =
    (case buffer_of s buffer of None \<Rightarrow> 0 | Some b \<Rightarrow> dx_memory_size (allocation_of s b))"

definition dx_buffer_native_resource :: "platform \<Rightarrow> capi \<Rightarrow> nat option \<Rightarrow> bool" where
  "dx_buffer_native_resource plat s buffer =
    (case buffer_of s buffer of None \<Rightarrow> False | Some b \<Rightarrow> dx_memory_native_resource plat (allocation_of s b))"

definition store_allocation :: "dx_buffer_s \<Rightarrow> dx_memory_allocation_t option \<Rightarrow> capi \<Rightarrow> capi" where
  "store_allocation b a s =
    (case device_of s (Some (cb_device b)) of
       None \<Rightarrow> s
     | Some d \<Rightarrow> set_memory (cb_device b) ((cd_memory d)\<lparr>mp_allocations :=
         (mp_allocations (cd_memory d))(cb_allocation b := a)\<rparr>) s)"

section \<open>Transfers\<close>

definition transfer_result :: "status \<Rightarrow> string \<Rightarrow> capi \<Rightarrow> status \<times> capi" where
  "transfer_result result name s =
    (if result = 0 then (0, clear_error s)
     else if result = -1 \<or> result = -2 then fail DX_C_STATUS_INVALID_ARGUMENT (name @ '': invalid range'') s
     else if result = -3 then fail DX_C_STATUS_UNSUPPORTED (name @ '': device transfer unavailable'') s
     else fail DX_C_STATUS_DEVICE_ERROR (name @ '': device transfer failed'') s)"

definition dx_upload ::
  "capi_env \<Rightarrow> nat option \<Rightarrow> nat option \<Rightarrow> u64 \<Rightarrow> u8 list option \<Rightarrow> u64 \<Rightarrow> capi \<Rightarrow> status \<times> capi" where
  "dx_upload env device destination offset source bytes s =
    (case (device_of s device, buffer_of s destination) of
       (Some d, Some b) \<Rightarrow>
         if Some (cb_device b) \<noteq> device \<or> source = None \<or>
            \<not> range_valid (dx_buffer_size s destination) offset bytes
         then fail DX_C_STATUS_INVALID_ARGUMENT ''dx_upload: invalid argument'' s
         else (case dx_memory_upload (xe_plat env) (xe_copy env) (Some (cd_memory d)) (allocation_of s b)
                 offset source bytes of
             (result, a) \<Rightarrow> transfer_result result ''dx_upload'' (store_allocation b a s))
     | _ \<Rightarrow> fail DX_C_STATUS_INVALID_ARGUMENT ''dx_upload: invalid argument'' s)"

definition dx_download ::
  "capi_env \<Rightarrow> nat option \<Rightarrow> nat option \<Rightarrow> u64 \<Rightarrow> u8 list option \<Rightarrow> u64 \<Rightarrow> capi \<Rightarrow>
   status \<times> u8 list option \<times> capi" where
  "dx_download env device source offset destination bytes s =
    (case (device_of s device, buffer_of s source) of
       (Some d, Some b) \<Rightarrow>
         if Some (cb_device b) \<noteq> device \<or> destination = None \<or>
            \<not> range_valid (dx_buffer_size s source) offset bytes
         then (case fail DX_C_STATUS_INVALID_ARGUMENT ''dx_download: invalid argument'' s of
             (st, s') \<Rightarrow> (st, destination, s'))
         else (case dx_memory_download (xe_plat env) (xe_copy env) (Some (cd_memory d)) (allocation_of s b)
                 offset destination bytes of
             (result, dst) \<Rightarrow>
               (case transfer_result result ''dx_download'' s of (st, s') \<Rightarrow> (st, dst, s')))
     | _ \<Rightarrow> (case fail DX_C_STATUS_INVALID_ARGUMENT ''dx_download: invalid argument'' s of
         (st, s') \<Rightarrow> (st, destination, s')))"

section \<open>Temporary vectors\<close>

definition validate_buffers ::
  "nat option \<Rightarrow> nat option \<Rightarrow> nat option \<Rightarrow> nat option \<Rightarrow> nat option \<Rightarrow> capi \<Rightarrow> status \<times> capi" where
  "validate_buffers device queue out a b s =
    (if device_of s device = None \<or>
        (case queue_of s queue of None \<Rightarrow> True | Some q \<Rightarrow> Some (cq_device q) \<noteq> device) \<or>
        (case buffer_of s out of None \<Rightarrow> True | Some x \<Rightarrow> Some (cb_device x) \<noteq> device) \<or>
        (case buffer_of s a of None \<Rightarrow> True | Some x \<Rightarrow> Some (cb_device x) \<noteq> device) \<or>
        (case buffer_of s b of None \<Rightarrow> False | Some x \<Rightarrow> Some (cb_device x) \<noteq> device)
     then fail DX_C_STATUS_INVALID_ARGUMENT ''dx_la: invalid handle ownership'' s
     else (0, s))"

text \<open>\<open>read_bytes\<close> into a zeroed vector of \<open>vec\<close> bytes: status, vector contents and state.\<close>

definition read_bytes ::
  "capi_env \<Rightarrow> nat option \<Rightarrow> nat option \<Rightarrow> nat \<Rightarrow> u64 \<Rightarrow> capi \<Rightarrow> (status \<times> u8 list \<times> capi) option" where
  "read_bytes env device buffer vec bytes s =
    (case buffer_of s buffer of
       None \<Rightarrow> Some (-1, replicate vec 0, s)
     | Some b \<Rightarrow>
         if vec = 0 \<or> bytes > dx_buffer_size s buffer then Some (-1, replicate vec 0, s)
         else if dx_buffer_map s buffer \<noteq> None then
           (if unat bytes > vec then None
            else Some (0, write_at 0 (take (unat bytes) (ma_contents (the (allocation_of s b)))) (replicate vec 0), s))
         else (case dx_download env device buffer 0 (Some (replicate vec 0)) bytes s of
             (st, dst, s') \<Rightarrow> if st = 0 \<and> unat bytes > vec then None else Some (st, the dst, s')))"

definition write_bytes ::
  "capi_env \<Rightarrow> nat option \<Rightarrow> nat option \<Rightarrow> u8 list \<Rightarrow> u64 \<Rightarrow> capi \<Rightarrow> (status \<times> capi) option" where
  "write_bytes env device buffer source bytes s =
    (case buffer_of s buffer of
       None \<Rightarrow> Some (-1, s)
     | Some b \<Rightarrow>
         if source = [] \<or> bytes > dx_buffer_size s buffer then Some (-1, s)
         else if unat bytes > length source then None
         else if dx_buffer_map s buffer \<noteq> None then
           (let a = the (allocation_of s b)
            in Some (0, store_allocation b
                 (Some (a\<lparr>ma_contents := write_at 0 (take (unat bytes) source) (ma_contents a)\<rparr>)) s))
         else Some (dx_upload env device buffer 0 (Some source) bytes s))"

definition f32_bytes :: "u64 \<Rightarrow> u64 option" where
  "f32_bytes count = (if count \<le> UINT64_MAX div 4 then Some (count * 4) else None)"

definition la_finish ::
  "capi_env \<Rightarrow> nat option \<Rightarrow> nat option \<Rightarrow> u8 list \<Rightarrow> u64 \<Rightarrow> string \<Rightarrow> capi \<Rightarrow> (status \<times> capi) option" where
  "la_finish env device out data bytes name s =
     Option.bind (write_bytes env device out data bytes s) (\<lambda>(st, s').
       Some (if st = 0 then (0, s') else fail DX_C_STATUS_DEVICE_ERROR (name @ '': buffer write failed'') s'))"

definition la_read_failed :: "string \<Rightarrow> capi \<Rightarrow> (status \<times> capi) option" where
  "la_read_failed name s = Some (fail DX_C_STATUS_DEVICE_ERROR (name @ '': buffer read failed'') s)"

section \<open>Linear algebra on buffers\<close>

definition elementwise_value :: "float_ops \<Rightarrow> int \<Rightarrow> f32 \<Rightarrow> f32 \<Rightarrow> f32" where
  "elementwise_value F op x y =
    (if op = 0 then fo_add F x y else if op = 1 then fo_sub F x y else if op = 2 then fo_mul F x y
     else if op = 3 then (if fo_eq F y f32_zero then f32_zero else fo_div F x y) else f32_zero)"

definition dx_la_elementwise ::
  "float_ops \<Rightarrow> capi_env \<Rightarrow> nat option \<Rightarrow> nat option \<Rightarrow> nat option \<Rightarrow> nat option \<Rightarrow> nat option \<Rightarrow>
   u32 \<Rightarrow> int \<Rightarrow> f32 \<Rightarrow> f32 \<Rightarrow> capi \<Rightarrow> (status \<times> capi) option" where
  "dx_la_elementwise F env device queue out a b count op alpha beta s =
    (let name = ''dx_la_elementwise''; (handles, s0) = validate_buffers device queue out a b s
     in if handles \<noteq> 0 then Some (handles, s0)
     else if op < 0 \<or> op > 3 then Some (fail DX_C_STATUS_INVALID_ARGUMENT (name @ '': invalid op'') s0)
     else (case f32_bytes (ucast count) of
         None \<Rightarrow> Some (fail DX_C_STATUS_INVALID_ARGUMENT (name @ '': buffer too small'') s0)
       | Some bytes \<Rightarrow>
           if dx_buffer_size s0 out < bytes \<or> dx_buffer_size s0 a < bytes \<or> dx_buffer_size s0 b < bytes
           then Some (fail DX_C_STATUS_INVALID_ARGUMENT (name @ '': buffer too small'') s0)
           else
             Option.bind (read_bytes env device a (4 * unat count) bytes s0) (\<lambda>(st1, av, s1).
             if st1 \<noteq> 0 then la_read_failed name s1 else
             Option.bind (read_bytes env device b (4 * unat count) bytes s1) (\<lambda>(st2, bv, s2).
             if st2 \<noteq> 0 then la_read_failed name s2 else
             Option.bind (if \<not> fo_eq F beta f32_zero then read_bytes env device out (4 * unat count) bytes s2
                          else Some (0, replicate (4 * unat count) 0, s2)) (\<lambda>(st3, ov, s3).
             if st3 \<noteq> 0 then la_read_failed name s3 else
             let result = map (\<lambda>i. fo_add F
                   (fo_mul F alpha (elementwise_value F op (words_of_bytes av ! i) (words_of_bytes bv ! i)))
                   (fo_mul F beta (words_of_bytes ov ! i))) [0..<unat count]
             in la_finish env device out (bytes_of_words result) bytes name s3)))))"

text \<open>\<open>None\<close>: the activation code is not known (\<open>valid\<close> becomes false).\<close>

definition activation_value :: "float_ops \<Rightarrow> f32 \<Rightarrow> int \<Rightarrow> f32 \<Rightarrow> f32 option" where
  "activation_value F x act alpha =
    (if act = 0 then Some (std_max F f32_zero x)
     else if act = 1 then Some (fo_mul F (fo_mul F f32_half x) (fo_add F f32_one (fo_erf F (fo_div F x 0x3FB504F3))))
     else if act = 2 then Some (fo_div F x (fo_add F f32_one (fo_exp F (fo_neg F x))))
     else if act = 3 then Some (fo_tanh F x)
     else if act = 4 then Some (fo_div F f32_one (fo_add F f32_one (fo_exp F (fo_neg F x))))
     else if act = 5 then Some (if fo_less F f32_zero x \<or> fo_eq F f32_zero x then x else fo_mul F alpha x)
     else None)"

definition dx_la_activation ::
  "float_ops \<Rightarrow> capi_env \<Rightarrow> nat option \<Rightarrow> nat option \<Rightarrow> nat option \<Rightarrow> nat option \<Rightarrow> u32 \<Rightarrow> int \<Rightarrow>
   f32 \<Rightarrow> capi \<Rightarrow> (status \<times> capi) option" where
  "dx_la_activation F env device queue out input count act alpha s =
    (let name = ''dx_la_activation''; (handles, s0) = validate_buffers device queue out input None s
     in if handles \<noteq> 0 then Some (handles, s0)
     else (case f32_bytes (ucast count) of
         None \<Rightarrow> Some (fail DX_C_STATUS_INVALID_ARGUMENT (name @ '': buffer too small'') s0)
       | Some bytes \<Rightarrow>
           if dx_buffer_size s0 out < bytes \<or> dx_buffer_size s0 input < bytes
           then Some (fail DX_C_STATUS_INVALID_ARGUMENT (name @ '': buffer too small'') s0)
           else
             Option.bind (read_bytes env device input (4 * unat count) bytes s0) (\<lambda>(st1, xs, s1).
             if st1 \<noteq> 0 then la_read_failed name s1 else
             let values = map (\<lambda>x. activation_value F x act alpha) (words_of_bytes xs)
             in if None \<in> set values
                then Some (fail DX_C_STATUS_INVALID_ARGUMENT (name @ '': invalid activation'') s1)
                else la_finish env device out (bytes_of_words (map the values)) bytes name s1)))"

definition rms_row :: "float_ops \<Rightarrow> f32 list \<Rightarrow> nat \<Rightarrow> u32 \<Rightarrow> f32 \<Rightarrow> f32 list \<Rightarrow> f32 list" where
  "rms_row F gamma row dim eps values =
    (let sum = fold (\<lambda>col sum. let value' = values ! (row * unat dim + col)
                in fo_add F sum (fo_mul F value' value')) [0..<unat dim] f32_zero;
         scale = fo_div F f32_one (fo_sqrt F (fo_add F (fo_div F sum (fo_of_u32 F dim)) eps))
     in fold (\<lambda>col vs. vs[row * unat dim + col :=
                fo_mul F (vs ! (row * unat dim + col)) (fo_mul F scale (gamma ! col))])
          [0..<unat dim] values)"

text \<open>
  \<open>dx_la_rmsnorm\<close>. The vector for the values has \<open>rows * dim\<close> elements, a product of two 32-bit
  integers in the source, while the number of bytes copied is computed with 64 bits.
\<close>

definition dx_la_rmsnorm ::
  "float_ops \<Rightarrow> capi_env \<Rightarrow> nat option \<Rightarrow> nat option \<Rightarrow> nat option \<Rightarrow> nat option \<Rightarrow> nat option \<Rightarrow>
   u32 \<Rightarrow> u32 \<Rightarrow> f32 \<Rightarrow> capi \<Rightarrow> (status \<times> capi) option" where
  "dx_la_rmsnorm F env device queue out input gamma rows dim eps s =
    (let name = ''dx_la_rmsnorm''; (handles, s0) = validate_buffers device queue out input gamma s
     in if handles \<noteq> 0 then Some (handles, s0)
     else if dim = 0 \<or> fo_less F eps f32_zero
     then Some (fail DX_C_STATUS_INVALID_ARGUMENT (name @ '': invalid shape'') s0)
     else (case (f32_bytes (ucast rows * ucast dim), f32_bytes (ucast dim)) of
         (Some bytes, Some elements) \<Rightarrow>
           if dx_buffer_size s0 out < bytes \<or> dx_buffer_size s0 input < bytes \<or> dx_buffer_size s0 gamma < elements
           then Some (fail DX_C_STATUS_INVALID_ARGUMENT (name @ '': buffer too small'') s0)
           else
             Option.bind (read_bytes env device input (4 * unat (rows * dim)) bytes s0) (\<lambda>(st1, xs, s1).
             if st1 \<noteq> 0 then la_read_failed name s1 else
             Option.bind (read_bytes env device gamma (4 * unat dim) elements s1) (\<lambda>(st2, gs, s2).
             if st2 \<noteq> 0 then la_read_failed name s2 else
             let values = fold (\<lambda>row vs. rms_row F (words_of_bytes gs) row dim eps vs) [0..<unat rows] (words_of_bytes xs)
             in la_finish env device out (bytes_of_words values) bytes name s2))
       | _ \<Rightarrow> Some (fail DX_C_STATUS_INVALID_ARGUMENT (name @ '': buffer too small'') s0)))"

definition softmax_row :: "float_ops \<Rightarrow> nat \<Rightarrow> nat \<Rightarrow> f32 list \<Rightarrow> f32 list" where
  "softmax_row F row dim values =
    (let maximum = fold (\<lambda>col m. std_max F m (values ! (row * dim + col))) [1..<dim] (values ! (row * dim));
         (values1, sum) = fold (\<lambda>col (vs, sum).
             let value' = fo_exp F (fo_sub F (vs ! (row * dim + col)) maximum)
             in (vs[row * dim + col := value'], fo_add F sum value')) [0..<dim] (values, f32_zero)
     in fold (\<lambda>col vs. vs[row * dim + col := fo_div F (vs ! (row * dim + col)) sum]) [0..<dim] values1)"

definition dx_la_softmax ::
  "float_ops \<Rightarrow> capi_env \<Rightarrow> nat option \<Rightarrow> nat option \<Rightarrow> nat option \<Rightarrow> nat option \<Rightarrow> u32 \<Rightarrow> u32 \<Rightarrow>
   capi \<Rightarrow> (status \<times> capi) option" where
  "dx_la_softmax F env device queue out input rows dim s =
    (let name = ''dx_la_softmax''; (handles, s0) = validate_buffers device queue out input None s
     in if handles \<noteq> 0 then Some (handles, s0)
     else if dim = 0 then Some (fail DX_C_STATUS_INVALID_ARGUMENT (name @ '': invalid shape'') s0)
     else (let elements = ucast rows * ucast dim :: u64 in
       case f32_bytes elements of
         None \<Rightarrow> Some (fail DX_C_STATUS_INVALID_ARGUMENT (name @ '': buffer too small'') s0)
       | Some bytes \<Rightarrow>
           if dx_buffer_size s0 out < bytes \<or> dx_buffer_size s0 input < bytes
           then Some (fail DX_C_STATUS_INVALID_ARGUMENT (name @ '': buffer too small'') s0)
           else
             Option.bind (read_bytes env device input (4 * unat elements) bytes s0) (\<lambda>(st1, xs, s1).
             if st1 \<noteq> 0 then la_read_failed name s1 else
             let values = fold (\<lambda>row vs. softmax_row F row (unat dim) vs) [0..<unat rows] (words_of_bytes xs)
             in la_finish env device out (bytes_of_words values) bytes name s1)))"

definition reduce_row :: "float_ops \<Rightarrow> int \<Rightarrow> nat \<Rightarrow> u32 \<Rightarrow> f32 list \<Rightarrow> f32" where
  "reduce_row F op row dim values =
    (let value' = fold (\<lambda>col v. let current = values ! (row * unat dim + col)
             in if op = 0 \<or> op = 3 then fo_add F v current
                else if op = 1 then std_max F v current else std_min F v current)
           [1..<unat dim] (values ! (row * unat dim))
     in if op = 3 then fo_div F value' (fo_of_u32 F dim) else value')"

definition dx_la_reduce ::
  "float_ops \<Rightarrow> capi_env \<Rightarrow> nat option \<Rightarrow> nat option \<Rightarrow> nat option \<Rightarrow> nat option \<Rightarrow> u32 \<Rightarrow> u32 \<Rightarrow> int \<Rightarrow>
   capi \<Rightarrow> (status \<times> capi) option" where
  "dx_la_reduce F env device queue out input rows dim op s =
    (let name = ''dx_la_reduce''; (handles, s0) = validate_buffers device queue out input None s
     in if handles \<noteq> 0 then Some (handles, s0)
     else if dim = 0 \<or> op < 0 \<or> op > 3
     then Some (fail DX_C_STATUS_INVALID_ARGUMENT (name @ '': invalid argument'') s0)
     else (let elements = ucast rows * ucast dim :: u64; out_bytes = ucast rows * 4 :: u64 in
       case f32_bytes elements of
         None \<Rightarrow> Some (fail DX_C_STATUS_INVALID_ARGUMENT (name @ '': buffer too small'') s0)
       | Some bytes \<Rightarrow>
           if dx_buffer_size s0 out < out_bytes \<or> dx_buffer_size s0 input < bytes
           then Some (fail DX_C_STATUS_INVALID_ARGUMENT (name @ '': buffer too small'') s0)
           else
             Option.bind (read_bytes env device input (4 * unat elements) bytes s0) (\<lambda>(st1, xs, s1).
             if st1 \<noteq> 0 then la_read_failed name s1 else
             let result = map (\<lambda>row. reduce_row F op row dim (words_of_bytes xs)) [0..<unat rows]
             in la_finish env device out (bytes_of_words result) out_bytes name s1)))"

text \<open>
  \<open>half_to_float\<close>: the bits of the float. The subnormal branch multiplies floats; its constants
  are 1024 and 2 to the minus 14.
\<close>

definition half_to_float :: "float_ops \<Rightarrow> u16 \<Rightarrow> f32" where
  "half_to_float F value' =
    (let sign = push_bit 16 (ucast (value' AND 0x8000)) :: u32;
         exponent = ucast (drop_bit 10 value' AND 0x1f) :: u32;
         mantissa = ucast (value' AND 0x3ff) :: u32
     in if exponent = 0 then
          (if mantissa \<noteq> 0 then
             (let subnormal = fo_div F (fo_of_u32 F mantissa) 0x44800000
              in fo_mul F (if value' AND 0x8000 \<noteq> 0 then fo_neg F subnormal else subnormal) 0x38800000)
           else sign)
        else if exponent = 0x1f then sign OR 0x7f800000 OR push_bit 13 mantissa
        else sign OR push_bit 23 (exponent + 112) OR push_bit 13 mantissa)"

fun halves_of_bytes :: "u8 list \<Rightarrow> u16 list" where
  "halves_of_bytes (a # b # bs) = u16_of_le [a, b] # halves_of_bytes bs"
| "halves_of_bytes bs = []"

definition gemm_f16_loops ::
  "float_ops \<Rightarrow> u16 list \<Rightarrow> u16 list \<Rightarrow> nat \<Rightarrow> nat \<Rightarrow> nat \<Rightarrow> f32 list" where
  "gemm_f16_loops F av bv M N K =
     fold (\<lambda>row cv. fold (\<lambda>col cv. fold (\<lambda>inner cv.
         cv[row * N + col := fo_add F (cv ! (row * N + col))
              (fo_mul F (half_to_float F (av ! (row * K + inner))) (half_to_float F (bv ! (inner * N + col))))])
       [0..<K] cv) [0..<N] cv) [0..<M] (replicate (M * N) f32_zero)"

definition dx_la_gemm_f16_dot2 ::
  "float_ops \<Rightarrow> capi_env \<Rightarrow> nat option \<Rightarrow> nat option \<Rightarrow> nat option \<Rightarrow> nat option \<Rightarrow> nat option \<Rightarrow>
   u32 \<Rightarrow> u32 \<Rightarrow> u32 \<Rightarrow> capi \<Rightarrow> (status \<times> capi) option" where
  "dx_la_gemm_f16_dot2 F env device queue out a b M N K s =
    (let name = ''dx_la_gemm_f16_dot2''; (handles, s0) = validate_buffers device queue out a b s
     in if handles \<noteq> 0 then Some (handles, s0)
     else if M = 0 \<or> N = 0 \<or> K = 0
     then Some (fail DX_C_STATUS_INVALID_ARGUMENT (name @ '': invalid shape'') s0)
     else (let a_bytes = ucast M * ucast K * 2 :: u64; b_bytes = ucast K * ucast N * 2 :: u64;
               c_bytes = ucast M * ucast N * 4 :: u64 in
       if dx_buffer_size s0 a < a_bytes \<or> dx_buffer_size s0 b < b_bytes \<or> dx_buffer_size s0 out < c_bytes
       then Some (fail DX_C_STATUS_INVALID_ARGUMENT (name @ '': buffer too small'') s0)
       else
         Option.bind (read_bytes env device a (2 * (unat M * unat K)) a_bytes s0) (\<lambda>(st1, av, s1).
         if st1 \<noteq> 0 then la_read_failed name s1 else
         Option.bind (read_bytes env device b (2 * (unat K * unat N)) b_bytes s1) (\<lambda>(st2, bv, s2).
         if st2 \<noteq> 0 then la_read_failed name s2 else
         la_finish env device out
           (bytes_of_words (gemm_f16_loops F (halves_of_bytes av) (halves_of_bytes bv) (unat M) (unat N) (unat K)))
           c_bytes name s2))))"

definition dx_la_gemm_f16_wmma ::
  "float_ops \<Rightarrow> capi_env \<Rightarrow> nat option \<Rightarrow> nat option \<Rightarrow> nat option \<Rightarrow> nat option \<Rightarrow> nat option \<Rightarrow>
   u32 \<Rightarrow> u32 \<Rightarrow> u32 \<Rightarrow> capi \<Rightarrow> (status \<times> capi) option" where
  "dx_la_gemm_f16_wmma F env device queue out a b M N K s =
     dx_la_gemm_f16_dot2 F env device queue out a b M N K s"

section \<open>Reference operators and the rest\<close>

text \<open>A queue always has a stream, so only the null queue is refused.\<close>

definition dx_copy_f32 ::
  "nat option \<Rightarrow> f32 list option \<Rightarrow> f32 list option \<Rightarrow> u64 \<Rightarrow> capi \<Rightarrow> status \<times> f32 list option \<times> capi" where
  "dx_copy_f32 queue input output count s =
    (if queue_of s queue = None
     then (case fail DX_C_STATUS_INVALID_ARGUMENT ''dx_copy_f32: queue is null'' s of (st, s') \<Rightarrow> (st, output, s'))
     else (case dx_op_copy_f32 input output count of
         (result, output') \<Rightarrow> (case operator_result result ''dx_copy_f32 failed'' s of
             (st, s') \<Rightarrow> (st, output', s'))))"

definition dx_fill_f32 ::
  "nat option \<Rightarrow> f32 list option \<Rightarrow> u64 \<Rightarrow> f32 \<Rightarrow> capi \<Rightarrow> status \<times> f32 list option \<times> capi" where
  "dx_fill_f32 queue output count value' s =
    (if queue_of s queue = None
     then (case fail DX_C_STATUS_INVALID_ARGUMENT ''dx_fill_f32: queue is null'' s of (st, s') \<Rightarrow> (st, output, s'))
     else (case dx_op_fill_f32 output count value' of
         (result, output') \<Rightarrow> (case operator_result result ''dx_fill_f32 failed'' s of
             (st, s') \<Rightarrow> (st, output', s'))))"

definition dx_gemm_f32 ::
  "float_ops \<Rightarrow> capi_env \<Rightarrow> nat option \<Rightarrow> f32 list option \<Rightarrow> f32 list option \<Rightarrow> f32 list option \<Rightarrow>
   u64 \<Rightarrow> u64 \<Rightarrow> u64 \<Rightarrow> f32 \<Rightarrow> f32 \<Rightarrow> capi \<Rightarrow> status \<times> f32 list option \<times> capi" where
  "dx_gemm_f32 F env queue a b c m n k alpha beta s =
    (if queue_of s queue = None
     then (case fail DX_C_STATUS_INVALID_ARGUMENT ''dx_gemm_f32: queue is null'' s of (st, s') \<Rightarrow> (st, c, s'))
     else (case dx_op_gemm_f32 F (xe_plat env) (xe_lenv env) (xe_throw env 0) a b c m n k alpha beta of
         (result, c', _) \<Rightarrow> (case operator_result result ''dx_gemm_f32 failed'' s of
             (st, s') \<Rightarrow> (st, c', s'))))"

definition dx_wait :: "nat option \<Rightarrow> capi \<Rightarrow> status \<times> capi" where
  "dx_wait device s =
    (if device_of s device = None then fail DX_C_STATUS_INVALID_ARGUMENT ''dx_wait: device is null'' s
     else (0, clear_error s))"

text \<open>Lower-case hexadecimal, at least four digits, as \<open>%04x\<close> prints it.\<close>

definition hex4 :: "u32 \<Rightarrow> string" where
  "hex4 w = (let d = hex_digits (unat w) in replicate (4 - length d) (CHR ''0'') @ d)"

definition device_text :: "dx_device_info_t \<Rightarrow> string" where
  "device_text i = di_name i @ '' backend='' @ to_string_u32 (di_backend i) @
     '' vendor=0x'' @ hex4 (di_vendor_id i) @ '' device=0x'' @ hex4 (di_device_id i)"

text \<open>\<open>snprintf\<close> writes at most \<open>capacity - 1\<close> characters and a NUL.\<close>

definition dx_device_desc ::
  "nat option \<Rightarrow> string option \<Rightarrow> u32 \<Rightarrow> capi \<Rightarrow> status \<times> string option \<times> capi" where
  "dx_device_desc device buffer capacity s =
    (case (device_of s device, buffer) of
       (Some d, Some buf) \<Rightarrow>
         if capacity = 0 then (case fail DX_C_STATUS_INVALID_ARGUMENT ''dx_device_desc: invalid argument'' s of
             (st, s') \<Rightarrow> (st, buffer, s'))
         else
           let txt = device_text (cd_info d);
               buf1 = write_at 0 (take (unat capacity - 1) txt @ [CHR 0x00]) buf
           in if length txt \<ge> unat capacity
           then (case fail DX_C_STATUS_INVALID_ARGUMENT ''dx_device_desc: buffer too small'' s of
               (st, s') \<Rightarrow> (st, Some (buf1[0 := CHR 0x00]), s'))
           else (0, Some buf1, clear_error s)
     | _ \<Rightarrow> (case fail DX_C_STATUS_INVALID_ARGUMENT ''dx_device_desc: invalid argument'' s of
         (st, s') \<Rightarrow> (st, buffer, s')))"

section \<open>The error text\<close>

text \<open>A result that agrees with the error text: the text is empty exactly on success.\<close>

definition settled :: "status \<Rightarrow> capi \<Rightarrow> bool" where
  "settled st s \<longleftrightarrow> (st = 0 \<longleftrightarrow> dx_last_error s = [])"

named_theorems settled_intros \<open>results that agree with the error text\<close>

lemma fail_sel [simp]:
  "fst (fail st m s) = st" "ca_devices (snd (fail st m s)) = ca_devices s"
  "ca_queues (snd (fail st m s)) = ca_queues s" "ca_buffers (snd (fail st m s)) = ca_buffers s"
  by (simp_all add: fail_def)

lemma settled_clear [settled_intros]: "settled 0 (clear_error s)"
  by (simp add: settled_def clear_error_def dx_last_error_def)

lemma settled_fail [settled_intros]:
  "fail st m s = (st', s') \<Longrightarrow> st \<noteq> 0 \<Longrightarrow> m \<noteq> [] \<Longrightarrow> settled st' s'"
  by (auto simp: settled_def fail_def dx_last_error_def)

lemma settled_component [settled_intros]:
  "component_result r m s = (st, s') \<Longrightarrow> m \<noteq> [] \<Longrightarrow> settled st s'"
  by (auto simp: component_result_def intro: settled_intros split: if_splits)

lemma settled_operator [settled_intros]:
  "operator_result r m s = (st, s') \<Longrightarrow> m \<noteq> [] \<Longrightarrow> settled st s'"
  by (auto simp: operator_result_def intro: settled_intros split: if_splits)

lemma settled_transfer [settled_intros]:
  "transfer_result r m s = (st, s') \<Longrightarrow> settled st s'"
  by (auto simp: transfer_result_def intro: settled_intros split: if_splits)

lemma settled_create_device:
  "dx_create_device env index out s = (st, out', s') \<Longrightarrow> settled st s'"
  by (auto simp: dx_create_device_def Let_def intro: settled_intros split: if_splits prod.splits)

lemma settled_get_info: "dx_device_get_info device info s = (st, info', s') \<Longrightarrow> settled st s'"
  by (auto simp: dx_device_get_info_def intro: settled_intros split: if_splits prod.splits option.splits)

lemma settled_queue: "dx_device_queue env device out s = (st, out', s') \<Longrightarrow> settled st s'"
  by (auto simp: dx_device_queue_def Let_def intro: settled_intros split: if_splits prod.splits option.splits)

lemma settled_buffer: "dx_create_buffer_ex env device desc out s = (st, out', s') \<Longrightarrow> settled st s'"
  by (auto simp: dx_create_buffer_ex_def Let_def intro: settled_intros split: if_splits prod.splits option.splits)

lemma settled_upload: "dx_upload env device dst off src n s = (st, s') \<Longrightarrow> settled st s'"
  by (auto simp: dx_upload_def intro: settled_intros split: if_splits prod.splits option.splits)

lemma settled_download: "dx_download env device b off dst n s = (st, dst', s') \<Longrightarrow> settled st s'"
  by (auto simp: dx_download_def intro: settled_intros split: if_splits prod.splits option.splits)

lemma settled_copy: "dx_copy_f32 queue x y n s = (st, y', s') \<Longrightarrow> settled st s'"
  by (auto simp: dx_copy_f32_def intro: settled_intros split: if_splits prod.splits)

lemma settled_fill: "dx_fill_f32 queue y n v s = (st, y', s') \<Longrightarrow> settled st s'"
  by (auto simp: dx_fill_f32_def intro: settled_intros split: if_splits prod.splits)

lemma settled_gemm: "dx_gemm_f32 F env queue a b c m n k alpha beta s = (st, c', s') \<Longrightarrow> settled st s'"
  by (auto simp: dx_gemm_f32_def intro: settled_intros split: if_splits prod.splits)

lemma settled_wait: "dx_wait device s = (st, s') \<Longrightarrow> settled st s'"
  by (auto simp: dx_wait_def intro: settled_intros split: if_splits)

lemma settled_desc: "dx_device_desc device buf cap s = (st, buf', s') \<Longrightarrow> settled st s'"
  by (auto simp: dx_device_desc_def Let_def intro: settled_intros split: if_splits prod.splits option.splits)

text \<open>The calls of the interface that report through \<open>dx_last_error\<close>.\<close>

inductive capi_call :: "capi \<Rightarrow> status \<Rightarrow> capi \<Rightarrow> bool" where
  call_create_device: "dx_create_device env index out s = (st, out', s') \<Longrightarrow> capi_call s st s'"
| call_get_info: "dx_device_get_info device info s = (st, info', s') \<Longrightarrow> capi_call s st s'"
| call_queue: "dx_device_queue env device out s = (st, out', s') \<Longrightarrow> capi_call s st s'"
| call_buffer_ex: "dx_create_buffer_ex env device desc out s = (st, out', s') \<Longrightarrow> capi_call s st s'"
| call_buffer: "dx_create_buffer env device bytes location out s = (st, out', s') \<Longrightarrow> capi_call s st s'"
| call_upload: "dx_upload env device dst off src n s = (st, s') \<Longrightarrow> capi_call s st s'"
| call_download: "dx_download env device b off dst n s = (st, dst', s') \<Longrightarrow> capi_call s st s'"
| call_copy: "dx_copy_f32 queue x y n s = (st, y', s') \<Longrightarrow> capi_call s st s'"
| call_fill: "dx_fill_f32 queue y n v s = (st, y', s') \<Longrightarrow> capi_call s st s'"
| call_gemm: "dx_gemm_f32 F env queue a b c m n k alpha beta s = (st, c', s') \<Longrightarrow> capi_call s st s'"
| call_wait: "dx_wait device s = (st, s') \<Longrightarrow> capi_call s st s'"
| call_desc: "dx_device_desc device buf cap s = (st, buf', s') \<Longrightarrow> capi_call s st s'"

inductive_cases capi_call_cases: "capi_call s st s'"

lemma settled_create_buffer: "dx_create_buffer env device bytes location out s = (st, out', s') \<Longrightarrow> settled st s'"
  unfolding dx_create_buffer_def by (rule settled_buffer)

lemmas settled_calls = settled_create_device settled_get_info settled_queue settled_buffer
  settled_create_buffer settled_upload settled_download settled_copy settled_fill settled_gemm
  settled_wait settled_desc

lemma capi_call_settled: "capi_call s st s' \<Longrightarrow> settled st s'"
  by (erule capi_call_cases) (erule settled_calls)+

text \<open>
  C20. The error text always belongs to the last call: after any of the device, queue, buffer,
  transfer, operator, wait and description calls, with any arguments and any failure underneath,
  \<open>dx_last_error\<close> is empty if and only if the call returned 0.
\<close>

theorem last_error_matches_status:
  assumes "capi_call s st s'"
  shows "dx_last_error s' = [] \<longleftrightarrow> st = 0"
  using capi_call_settled [OF assms] by (simp add: settled_def)

definition empty_capi :: capi where
  "empty_capi = \<lparr> ca_last_error = ''old'', ca_devices = Map.empty, ca_queues = Map.empty, ca_buffers = Map.empty \<rparr>"

theorem last_error_matches_status_witness:
  "dx_last_error (snd (dx_wait (Some 3) empty_capi)) \<noteq> []"
proof -
  have "capi_call empty_capi (-1) (snd (dx_wait (Some 3) empty_capi))"
    by (rule call_wait [of "Some 3"]) (simp add: dx_wait_def device_of_def empty_capi_def fail_def)
  from last_error_matches_status [OF this] show ?thesis by simp
qed

section \<open>Buffers and their owners\<close>

text \<open>A live buffer: the handle's device, its buffer object and the allocation behind it.\<close>

definition live_buffer ::
  "capi \<Rightarrow> nat \<Rightarrow> nat \<Rightarrow> dx_device_s \<Rightarrow> dx_buffer_s \<Rightarrow> dx_memory_allocation_t \<Rightarrow> bool" where
  "live_buffer s h k d b a \<longleftrightarrow> ca_devices s h = Some d \<and> ca_buffers s k = Some b \<and> cb_device b = h \<and>
     mp_allocations (cd_memory d) (cb_allocation b) = Some a"

lemma live_buffer_sel:
  assumes "live_buffer s h k d b a"
  shows "device_of s (Some h) = Some d" "buffer_of s (Some k) = Some b" "cb_device b = h"
    "allocation_of s b = Some a" "dx_buffer_size s (Some k) = ma_bytes a" "dx_buffer_map s (Some k) = ma_data a"
  using assms
  by (simp_all add: live_buffer_def device_of_def buffer_of_def allocation_of_def dx_buffer_size_def
      dx_memory_size_def dx_buffer_map_def dx_memory_data_def)

text \<open>The device with the allocation replaced.\<close>

definition with_allocation :: "dx_device_s \<Rightarrow> nat \<Rightarrow> dx_memory_allocation_t \<Rightarrow> dx_device_s" where
  "with_allocation d x a = d\<lparr>cd_memory := (cd_memory d)\<lparr>mp_allocations := (mp_allocations (cd_memory d))(x \<mapsto> a)\<rparr>\<rparr>"

lemma store_allocation_value:
  assumes "live_buffer s h k d b a"
  shows "store_allocation b (Some a') s = s\<lparr>ca_devices := (ca_devices s)(h \<mapsto> with_allocation d (cb_allocation b) a')\<rparr>"
  using live_buffer_sel [OF assms] assms
  by (simp add: store_allocation_def set_memory_def with_allocation_def live_buffer_def)

lemma live_buffer_store:
  assumes "live_buffer s h k d b a"
  shows "live_buffer (s\<lparr>ca_devices := (ca_devices s)(h \<mapsto> with_allocation d (cb_allocation b) a'), ca_last_error := e\<rparr>)
    h k (with_allocation d (cb_allocation b) a') b a'"
  using assms by (simp add: live_buffer_def with_allocation_def)

lemma upload_live:
  assumes "live_buffer s h k d b a" "transferable (xe_plat env) (xe_copy env) (cd_memory d) a"
    "range_valid (ma_bytes a) off n" "unat n = length bs" "n \<noteq> 0 \<or> ma_data a \<noteq> None"
  shows "dx_upload env (Some h) (Some k) off (Some bs) n s =
    (0, s\<lparr>ca_devices := (ca_devices s)(h \<mapsto> with_allocation d (cb_allocation b)
          (a\<lparr>ma_contents := write_at (unat off) bs (ma_contents a)\<rparr>)), ca_last_error := []\<rparr>)"
  using live_buffer_sel [OF assms(1)] assms(3,5) upload_value [OF assms(2-4)]
    store_allocation_value [OF assms(1)]
  by (auto simp: dx_upload_def transfer_result_def clear_error_def)

lemma download_live:
  assumes "live_buffer s h k d b a" "transferable (xe_plat env) (xe_copy env) (cd_memory d) a"
    "range_valid (ma_bytes a) off n" "unat n \<le> length dst" "n \<noteq> 0 \<or> ma_data a \<noteq> None"
  shows "dx_download env (Some h) (Some k) off (Some dst) n s =
    (0, Some (write_at 0 (read_at (unat off) (unat n) (ma_contents a)) dst), s\<lparr>ca_last_error := []\<rparr>)"
  using live_buffer_sel [OF assms(1)] assms(3,5) download_value [OF assms(2-4)]
  by (auto simp: dx_download_def transfer_result_def clear_error_def)

text \<open>
  An empty block: nothing is stored, and where the buffer has no host pointer both calls report
  an invalid range (\<open>execute_buffer_copy\<close> refuses zero bytes).
\<close>

lemma empty_transfer:
  assumes "live_buffer s h k d b a" "transferable (xe_plat env) (xe_copy env) (cd_memory d) a"
    "range_valid (ma_bytes a) off 0" "ma_data a = None"
  shows "dx_upload env (Some h) (Some k) off (Some []) 0 s =
      (-1, s\<lparr>ca_last_error := ''dx_upload: invalid range''\<rparr>)"
    and "dx_download env (Some h) (Some k) off (Some dst) 0 s =
      (-1, Some dst, s\<lparr>ca_last_error := ''dx_download: invalid range''\<rparr>)"
proof -
  have "a\<lparr>ma_contents := write_at (unat off) [] (ma_contents a)\<rparr> = a"
    using assms(2,3) by (simp add: write_at_def transferable_def alloc_ok_def range_valid_iff)
  moreover have "with_allocation d (cb_allocation b) a = d"
    using assms(1) by (simp add: with_allocation_def live_buffer_def fun_upd_idem)
  moreover have "(ca_devices s)(h \<mapsto> d) = ca_devices s"
    using assms(1) by (simp add: live_buffer_def fun_upd_idem)
  ultimately show "dx_upload env (Some h) (Some k) off (Some []) 0 s =
      (-1, s\<lparr>ca_last_error := ''dx_upload: invalid range''\<rparr>)"
    using live_buffer_sel [OF assms(1)] assms(3,4) upload_value [OF assms(2,3), of "[]"]
      store_allocation_value [OF assms(1)]
    by (simp add: dx_upload_def transfer_result_def fail_def)
  show "dx_download env (Some h) (Some k) off (Some dst) 0 s =
      (-1, Some dst, s\<lparr>ca_last_error := ''dx_download: invalid range''\<rparr>)"
    using live_buffer_sel [OF assms(1)] assms(3,4) download_value [OF assms(2,3), of dst]
    by (simp add: dx_download_def transfer_result_def fail_def write_at_def read_at_def)
qed

text \<open>The owner checks of the two transfers.\<close>

lemma foreign_transfer:
  assumes "live_buffer s h k d b a" "h' \<noteq> h"
  shows "dx_upload env (Some h') (Some k) off src n s =
      (-1, s\<lparr>ca_last_error := ''dx_upload: invalid argument''\<rparr>)"
    and "dx_download env (Some h') (Some k) off dst n s =
      (-1, dst, s\<lparr>ca_last_error := ''dx_download: invalid argument''\<rparr>)"
  using assms(2) live_buffer_sel(2,3) [OF assms(1)]
  by (simp_all add: dx_upload_def dx_download_def fail_def split: option.splits)

text \<open>
  C7. Transfers through the C interface are faithful and respect ownership. On a live buffer of
  a device whose transfers work, uploading a block to a range inside the buffer and downloading
  the same range returns the block with status 0 both times, and no other device, buffer or
  allocation changes; only an empty block on a buffer without a host pointer is refused by both
  calls, with -1 and the text of an invalid range. Naming any device but the owner is refused by
  dx_upload and by dx_download alike, whatever the other arguments are: the status is -1, the
  destination keeps its bytes and nothing changes but the error text.
\<close>

theorem capi_upload_download:
  assumes "live_buffer s h k d b a" "transferable (xe_plat env) (xe_copy env) (cd_memory d) a"
    and "range_valid (ma_bytes a) off n" "unat n = length bs"
  shows "\<exists>st s1 s2. dx_upload env (Some h) (Some k) off (Some bs) n s = (st, s1) \<and>
      dx_download env (Some h) (Some k) off (Some (replicate (unat n) 0)) n s1 = (st, Some bs, s2) \<and>
      st = (if n = 0 \<and> ma_data a = None then -1 else 0) \<and>
      ca_last_error s1 = (if st = 0 then [] else ''dx_upload: invalid range'') \<and>
      ca_last_error s2 = (if st = 0 then [] else ''dx_download: invalid range'') \<and>
      ca_buffers s2 = ca_buffers s \<and> ca_queues s2 = ca_queues s \<and>
      (\<forall>h'. h' \<noteq> h \<longrightarrow> ca_devices s2 h' = ca_devices s h') \<and>
      (\<exists>d2. ca_devices s2 h = Some d2 \<and> (\<forall>x. x \<noteq> cb_allocation b \<longrightarrow>
         mp_allocations (cd_memory d2) x = mp_allocations (cd_memory d) x)) \<and>
      (\<forall>h' off' src n'. h' \<noteq> h \<longrightarrow> dx_upload env (Some h') (Some k) off' src n' s =
         (-1, s\<lparr>ca_last_error := ''dx_upload: invalid argument''\<rparr>)) \<and>
      (\<forall>h' off' dst n'. h' \<noteq> h \<longrightarrow> dx_download env (Some h') (Some k) off' dst n' s1 =
         (-1, dst, s1\<lparr>ca_last_error := ''dx_download: invalid argument''\<rparr>))"
proof (cases "n \<noteq> 0 \<or> ma_data a \<noteq> None")
  case True
  let ?a = "a\<lparr>ma_contents := write_at (unat off) bs (ma_contents a)\<rparr>"
  let ?d = "with_allocation d (cb_allocation b) ?a"
  let ?s1 = "s\<lparr>ca_devices := (ca_devices s)(h \<mapsto> ?d), ca_last_error := []\<rparr>"
  have range: "unat off + unat n \<le> unat (ma_bytes a)" using assms(3) by (simp add: range_valid_iff)
  have up: "dx_upload env (Some h) (Some k) off (Some bs) n s = (0, ?s1)"
    by (rule upload_live [OF assms True])
  have live: "live_buffer ?s1 h k ?d b ?a" by (rule live_buffer_store [OF assms(1)])
  have len: "length (ma_contents a) = unat (ma_bytes a)"
    using assms(2) by (simp add: transferable_def alloc_ok_def)
  have "transferable (xe_plat env) (xe_copy env) (cd_memory ?d) ?a"
    using transferable_write [OF assms(2), of "unat off" bs] range assms(4)
    by (simp add: transferable_def with_allocation_def)
  then have "dx_download env (Some h) (Some k) off (Some (replicate (unat n) 0)) n ?s1 =
      (0, Some (write_at 0 (read_at (unat off) (unat n) (ma_contents ?a)) (replicate (unat n) 0)),
       ?s1\<lparr>ca_last_error := []\<rparr>)"
    using assms(3) True by (intro download_live [OF live]) auto
  moreover have "read_at (unat off) (unat n) (ma_contents ?a) = bs"
    using read_write_same [of "unat off" bs "ma_contents a"] range assms(4) len by simp
  moreover have "write_at 0 bs (replicate (unat n) 0) = bs"
    by (simp add: write_at_def assms(4))
  ultimately show ?thesis
    using up True foreign_transfer [OF assms(1)] foreign_transfer [OF live]
    by (simp add: with_allocation_def)
next
  case False
  then have n: "n = 0" "ma_data a = None" "bs = []" using assms(4) by auto
  let ?s1 = "s\<lparr>ca_last_error := ''dx_upload: invalid range''\<rparr>"
  have live: "live_buffer ?s1 h k d b a" using assms(1) by (simp add: live_buffer_def)
  have r: "range_valid (ma_bytes a) off 0" using assms(3) n by simp
  have "ca_devices s h = Some d" using assms(1) by (simp add: live_buffer_def)
  then show ?thesis
    using n empty_transfer(1) [OF assms(1,2) r n(2)] empty_transfer(2) [OF live assms(2) r n(2), of "[]"]
      foreign_transfer [OF assms(1)] foreign_transfer [OF live]
    by simp
qed

definition example_capi_env :: capi_env where
  "example_capi_env = \<lparr> xe_plat = Windows, xe_lenv = example_log_env, xe_throw = (\<lambda>_. NoThrow), xe_dxgi = Inr [],
     xe_create_ok = (\<lambda>_. True), xe_queue_ok = True, xe_new_ok = True, xe_handle = 9,
     xe_alloc = example_alloc_env 9, xe_copy = example_copy_env \<rparr>"

text \<open>A device at address 1 whose pool holds the four bytes of the buffer at address 2.\<close>

definition example_device :: dx_device_s where
  "example_device = \<lparr> cd_execution = \<lparr> xd_backend = 1, xd_dx12_device = Some 5 \<rparr>,
     cd_memory = (example_pool True)\<lparr>mp_allocations := [7 \<mapsto> example_device_allocation]\<rparr>,
     cd_info = \<lparr> di_struct_size = 168, di_api_version = 1, di_backend = 1, di_vendor_id = 0, di_device_id = 0,
       di_capabilities = 0, di_is_software = 0, di_dedicated_video_memory = 0,
       di_dedicated_system_memory = 0, di_shared_system_memory = 0, di_name = ''gpu'' \<rparr> \<rparr>"

definition example_capi :: capi where
  "example_capi = empty_capi\<lparr> ca_devices := [1 \<mapsto> example_device],
     ca_buffers := [2 \<mapsto> \<lparr> cb_device = 1, cb_allocation = 7 \<rparr>]\<rparr>"

theorem capi_upload_download_witness:
  "\<exists>s1 s2. dx_upload example_capi_env (Some 1) (Some 2) 1 (Some [8, 9]) 2 example_capi = (0, s1) \<and>
     dx_download example_capi_env (Some 4) (Some 2) 1 (Some [0, 0]) 2 s1 =
       (-1, Some [0, 0], s1\<lparr>ca_last_error := ''dx_download: invalid argument''\<rparr>) \<and>
     dx_download example_capi_env (Some 1) (Some 2) 1 (Some [0, 0]) 2 s1 = (0, Some [8, 9], s2)"
proof -
  have live: "live_buffer example_capi 1 2 example_device
      \<lparr> cb_device = 1, cb_allocation = 7 \<rparr> example_device_allocation"
    by (simp add: live_buffer_def example_capi_def example_device_def empty_capi_def)
  have ok: "transferable (xe_plat example_capi_env) (xe_copy example_capi_env)
      (cd_memory example_device) example_device_allocation"
    by (simp add: transferable_def alloc_ok_def example_device_allocation_def example_pool_def example_device_def
        example_capi_env_def copies_succeed_def copy_wait_def example_copy_env_def is_power_of_two_def heap_type_def)
  have range: "range_valid (ma_bytes example_device_allocation) 1 2"
    by (simp add: range_valid_def example_device_allocation_def)
  have two: "replicate 2 (0 :: u8) = [0, 0]" by (simp add: numeral_2_eq_2)
  show ?thesis
    using capi_upload_download [OF live ok range, of "[8, 9]"] by (auto simp: two)
qed

section \<open>Temporary vectors are large enough, except one\<close>

lemma f32_bytes_Some: "f32_bytes c = Some b \<Longrightarrow> unat b = 4 * unat c"
proof -
  assume "f32_bytes c = Some b"
  then have c: "c \<le> UINT64_MAX div 4" and b: "b = c * 4"
    by (simp_all add: f32_bytes_def split: if_splits)
  then have "unat c \<le> 4611686018427387903" by (simp add: word_le_nat_alt unat_div)
  then have "unat c * unat (4 :: u64) < 18446744073709551616" by simp
  then show ?thesis using u64_mult_unat [of c 4] b by simp
qed

lemma read_bytes_safe:
  assumes "unat bytes \<le> vec"
  shows "\<exists>st xs s'. read_bytes env device buffer vec bytes s = Some (st, xs, s')"
  using assms by (auto simp: read_bytes_def split: option.splits prod.splits)

lemma write_bytes_safe:
  assumes "unat bytes \<le> length source"
  shows "\<exists>st s'. write_bytes env device buffer source bytes s = Some (st, s')"
  using assms by (auto simp: write_bytes_def Let_def split: option.splits)

lemma la_finish_safe: "unat bytes \<le> length data \<Longrightarrow> la_finish env device out data bytes name s \<noteq> None"
  using write_bytes_safe [of bytes data env device out s] by (auto simp: la_finish_def)

lemma length_write_front: "length xs \<le> length ys \<Longrightarrow> length (write_at 0 xs ys) = length ys"
  by (simp add: length_write_at)

lemma length_read_le: "length (read_at off n xs) \<le> n"
  by (simp add: read_at_def)

lemma memory_download_length:
  assumes "dx_memory_download plat env pool a off (Some dst) n = (st, dst')" "unat n \<le> length dst"
  shows "\<exists>ys. dst' = Some ys \<and> length ys = length dst"
proof -
  have "length (write_at 0 (read_at o' (unat n) xs) dst) = length dst" for o' xs
    using assms(2) length_read_le [of o' "unat n" xs] by (intro length_write_front) linarith
  then show ?thesis
    using assms(1)
    by (auto simp: dx_memory_download_def execute_buffer_copy_def Let_def
        split: option.splits if_splits prod.splits)
qed

lemma read_bytes_length:
  assumes "read_bytes env device buffer vec bytes s = Some (st, xs, s')" "unat bytes \<le> vec"
  shows "length xs = vec"
proof -
  have "length (write_at 0 (take (unat bytes) ys) (replicate vec 0)) = vec" for ys :: "u8 list"
    using assms(2) by (simp add: length_write_front min_def)
  moreover have "length (the dst) = vec"
    if "dx_download env device buffer 0 (Some (replicate vec 0)) bytes s = (st', dst, s'')" for st' dst s''
    using that memory_download_length [of "xe_plat env" "xe_copy env" _ _ _ "replicate vec 0" bytes] assms(2)
    by (fastforce simp: dx_download_def split: option.splits if_splits prod.splits)
  ultimately show ?thesis
    using assms by (auto simp: read_bytes_def split: option.splits if_splits prod.splits)
qed

declare unat_ucast_u64 [simp]

lemma unat_area: "unat (ucast (r :: u32) * ucast (c :: u32) :: u64) = unat r * unat c"
proof -
  have "unat r * unat c \<le> 4294967295 * 4294967295"
    using u32_lt [of r] u32_lt [of c] by (intro mult_le_mono) auto
  then show ?thesis by (subst u64_mult_unat) simp_all
qed

lemma length_fold_inv: "(\<And>x v. length (f x v) = length v) \<Longrightarrow> length (fold f xs v) = length v"
  by (induction xs arbitrary: v) auto

lemma length_rms_row [simp]: "length (rms_row F g row dim eps v) = length v"
  by (simp add: rms_row_def Let_def length_fold_inv)

lemma length_softmax_row [simp]: "length (softmax_row F row dim v) = length v"
proof -
  have "length (fst (fold (\<lambda>col (vs, sum). let value' = g col vs in (vs[row * dim + col := value'], h sum value')) cs (v, z))) = length v"
    for g h cs z
    by (induction cs arbitrary: v z) (auto simp: Let_def)
  then show ?thesis
    by (simp add: softmax_row_def Let_def split_beta length_fold_inv)
qed

lemma length_gemm_f16 [simp]: "length (gemm_f16_loops F av bv M N K) = M * N"
  by (simp add: gemm_f16_loops_def length_fold_inv)

text \<open>A read into a temporary of the right size, then a continuation that is safe.\<close>

definition copies_safe :: "'a option \<Rightarrow> bool" where
  "copies_safe r \<longleftrightarrow> r \<noteq> None"

lemma copies_safe_Some [simp]: "copies_safe (Some x)"
  by (simp add: copies_safe_def)

lemma copies_safe_finish: "unat bytes \<le> length data \<Longrightarrow> copies_safe (la_finish env device out data bytes name s)"
  unfolding copies_safe_def by (rule la_finish_safe)

lemma bind_read_safe:
  assumes "unat bytes \<le> vec"
    and "\<And>st xs s'. length xs = vec \<Longrightarrow> copies_safe (k (st, xs, s'))"
  shows "copies_safe (Option.bind (read_bytes env device buffer vec bytes s) k)"
  using read_bytes_safe [OF assms(1), of env device buffer s] read_bytes_length [of env device buffer vec bytes s] assms
  by (auto simp: copies_safe_def)

lemma elementwise_safe: "copies_safe (dx_la_elementwise F env device queue out a b count op alpha beta s)"
proof -
  have n: "unat bytes \<le> 4 * unat count" if "f32_bytes (ucast count) = Some bytes" for bytes
    using f32_bytes_Some [OF that] by simp
  show ?thesis
    unfolding dx_la_elementwise_def Let_def
    by (auto simp: la_read_failed_def split: prod.splits option.splits
        intro!: bind_read_safe copies_safe_finish n)
qed

lemma activation_safe: "copies_safe (dx_la_activation F env device queue out input count act alpha s)"
proof -
  have n: "unat bytes \<le> 4 * unat count" if "f32_bytes (ucast count) = Some bytes" for bytes
    using f32_bytes_Some [OF that] by simp
  show ?thesis
    unfolding dx_la_activation_def Let_def
    by (auto simp: la_read_failed_def length_words_of_bytes split: prod.splits option.splits
        intro!: bind_read_safe copies_safe_finish n)
qed

lemma softmax_safe: "copies_safe (dx_la_softmax F env device queue out input rows dim s)"
proof -
  have n: "unat bytes \<le> 4 * unat (ucast rows * ucast dim :: u64)"
    if "f32_bytes (ucast rows * ucast dim) = Some bytes" for bytes
    using f32_bytes_Some [OF that] by simp
  show ?thesis
    unfolding dx_la_softmax_def Let_def
    by (auto simp: la_read_failed_def length_words_of_bytes length_fold_inv split: prod.splits option.splits
        intro!: bind_read_safe copies_safe_finish n)
qed

lemma reduce_safe: "copies_safe (dx_la_reduce F env device queue out input rows dim op s)"
proof -
  have n: "unat bytes \<le> 4 * unat (ucast rows * ucast dim :: u64)"
    if "f32_bytes (ucast rows * ucast dim) = Some bytes" for bytes
    using f32_bytes_Some [OF that] by simp
  have "unat rows * 4 < 18446744073709551616" using u32_lt [of rows] by simp
  then have o': "unat (ucast rows * 4 :: u64) = 4 * unat rows"
    using u64_mult_unat [of "ucast rows" 4] by simp
  show ?thesis
    unfolding dx_la_reduce_def Let_def
    by (auto simp: la_read_failed_def o' split: prod.splits option.splits
        intro!: bind_read_safe copies_safe_finish n)
qed

lemma unat_mult_le: "unat (x * y :: u64) \<le> unat x * unat y"
  by (simp add: unat_word_ariths)

lemma gemm_f16_safe: "copies_safe (dx_la_gemm_f16_dot2 F env device queue out a b M N K s)"
proof -
  have two: "unat (ucast r * ucast c * 2 :: u64) \<le> 2 * (unat r * unat c)" for r c :: u32
    using unat_mult_le [of "ucast r * ucast c" 2] by (simp add: unat_area)
  have four: "unat (ucast r * ucast c * 4 :: u64) \<le> 4 * (unat r * unat c)" for r c :: u32
    using unat_mult_le [of "ucast r * ucast c" 4] by (simp add: unat_area)
  show ?thesis
    unfolding dx_la_gemm_f16_dot2_def Let_def
    by (auto simp: la_read_failed_def split: prod.splits
        intro!: bind_read_safe copies_safe_finish two four)
qed

lemma rmsnorm_safe:
  assumes "unat rows * unat dim < 4294967296"
  shows "copies_safe (dx_la_rmsnorm F env device queue out input gamma rows dim eps s)"
proof -
  have "unat (rows * dim) = unat rows * unat dim"
    using assms by (simp add: unat_word_ariths)
  then have n: "unat bytes \<le> 4 * unat (rows * dim)" if "f32_bytes (ucast rows * ucast dim) = Some bytes" for bytes
    using f32_bytes_Some [OF that] by (simp add: unat_area)
  have g: "unat elements \<le> 4 * unat dim" if "f32_bytes (ucast dim) = Some elements" for elements
    using f32_bytes_Some [OF that] by simp
  show ?thesis
    unfolding dx_la_rmsnorm_def Let_def
    by (auto simp: la_read_failed_def length_words_of_bytes length_fold_inv split: prod.splits option.splits
        intro!: bind_read_safe copies_safe_finish n g)
qed

text \<open>
  The linear-algebra entry points never copy past their temporary vectors: elementwise,
  activation, softmax, reduction and half-precision product are free of it for all arguments and
  buffers, and so is the RMS normalisation as long as \<open>rows * dim\<close> fits 32 bits.
\<close>

theorem la_temporaries_fit:
  "dx_la_elementwise F env device queue out a b count op alpha beta s \<noteq> None \<and>
   dx_la_activation F env device queue out a count op alpha s \<noteq> None \<and>
   dx_la_softmax F env device queue out a rows dim s \<noteq> None \<and>
   dx_la_reduce F env device queue out a rows dim op s \<noteq> None \<and>
   dx_la_gemm_f16_dot2 F env device queue out a b rows dim count s \<noteq> None \<and>
   (unat rows * unat dim < 4294967296 \<longrightarrow>
     dx_la_rmsnorm F env device queue out a b rows dim eps s \<noteq> None)"
  by (intro conjI impI elementwise_safe [unfolded copies_safe_def]
      activation_safe [unfolded copies_safe_def] softmax_safe [unfolded copies_safe_def]
      reduce_safe [unfolded copies_safe_def] gemm_f16_safe [unfolded copies_safe_def]
      rmsnorm_safe [unfolded copies_safe_def])

theorem la_temporaries_fit_witness:
  "dx_la_rmsnorm toy_floats example_capi_env (Some 1) (Some 2) (Some 3) (Some 4) (Some 5) 65535 65537 0 example_capi \<noteq> None"
proof -
  have "unat (65535 :: u32) * unat (65537 :: u32) < 4294967296" by simp
  then show ?thesis
    using la_temporaries_fit [of toy_floats example_capi_env "Some 1" "Some 2" "Some 3" "Some 4" "Some 5" 0 0 0 0 example_capi 65535 65537 0]
    by blast
qed

text \<open>
  When \<open>rows * dim\<close> does not fit 32 bits the vector is too small and the copy runs past its end:
  for instance 65537 rows of 65536 values need a vector of \<open>2 ^ 32 + 2 ^ 16\<close> elements and get one
  of \<open>2 ^ 16\<close>.
\<close>

lemma rmsnorm_overflow:
  assumes "validate_buffers device queue out input gamma s = (0, s)"
    and "\<not> fo_less F eps f32_zero" "buffer_of s input = Some b" "dx_buffer_map s input \<noteq> None"
    and "dx_buffer_size s out \<ge> 17180131328" "dx_buffer_size s input \<ge> 17180131328"
    and "dx_buffer_size s gamma \<ge> 262144"
  shows "dx_la_rmsnorm F env device queue out input gamma 65537 65536 eps s = None"
proof -
  have f: "f32_bytes (ucast (65537 :: u32) * ucast (65536 :: u32)) = Some 17180131328"
    "f32_bytes (ucast (65536 :: u32)) = Some 262144"
    by (simp_all add: f32_bytes_def)
  have v: "4 * unat (65537 * 65536 :: u32) = 262144" by simp
  have "read_bytes env device input 262144 17180131328 s = None"
    using assms(3,4,6) by (simp add: read_bytes_def not_less)
  then show ?thesis
    using assms(1,2,5-7)
    by (simp add: dx_la_rmsnorm_def f [simplified] v [simplified] Let_def not_less)
qed

end
