(* ===== verification/DirectStorage.thy ===== *)
theory DirectStorage
  imports DxPrelude
begin

text \<open>
  The DirectStorage queue of \<open>src/dxio/dxio.cpp\<close>: \<open>DirectStorageContext\<close> opens files once,
  probes the volume behind each for BypassIO, turns reads into queue requests, and follows every
  group of reads with status writes and a fence signal. The queue object itself is not code of
  the repository; what the context puts into it, in order, is the list \<open>dc_queue\<close>.
\<close>

section \<open>State\<close>

datatype BypassPath = Unsupported | Unaligned | Enabled | DisabledByConfig

record FetchRecord =
  fr_expert :: string
  fr_offset :: u64
  fr_size :: u64
  fr_path :: BypassPath
  fr_status :: u32

record BypassCapability =
  bc_queried :: bool
  bc_compatible_storage :: bool
  bc_filter_blocked :: bool
  bc_failing_driver :: string
  bc_failure_reason :: string

record Pending =
  pd_file_path :: string
  pd_expert :: string
  pd_offset :: u64
  pd_size :: u64
  pd_status_slot :: u32
  pd_request_id :: u64
  pd_path :: BypassPath

text \<open>
  The commands the context gives its queue: a file read (path, offset, 32-bit size, destination
  resource, destination offset), a status write, a fence signal, a submission.
\<close>

datatype ds_command =
    EnqueueRequest string u64 u32 nat u64
  | EnqueueStatus u32
  | EnqueueSignal nat u64
  | Submit

record DirectStorageContext =
  dc_enable_bypassio :: bool
  dc_files :: "string list"
  dc_capabilities :: "string \<rightharpoonup> BypassCapability"
  dc_pending :: "Pending list"
  dc_total_submitted :: u64
  dc_statuses_issued :: u64
  dc_queue :: "ds_command list"
  dc_log :: "(FetchRecord \<times> string) list"

text \<open>
  The volume's reply to the BypassIO query: the two output flags and the two texts, each empty
  when its length field is 0.
\<close>

record bpio_reply =
  bo_compatible :: bool
  bo_filter_blocked :: bool
  bo_driver :: string
  bo_reason :: string

text \<open>
  What the system answers: whether a file opens through the factory, whether it opens for the
  probe and what the query replies (\<open>None\<close> when it fails or replies too little), and what
  a status slot reports before the five-second deadline (\<open>None\<close> when it does not).
\<close>

record ds_env =
  dv_open :: "string \<Rightarrow> bool"
  dv_probe_open :: "string \<Rightarrow> bool"
  dv_query :: "string \<Rightarrow> bpio_reply option"
  dv_status :: "u32 \<Rightarrow> u32 option"

abbreviation (input) k_status_capacity :: u64 where "k_status_capacity \<equiv> 128"
abbreviation (input) E_UNEXPECTED :: u32 where "E_UNEXPECTED \<equiv> 0x8000FFFF"

section \<open>Operations\<close>

definition no_capability :: BypassCapability where
  "no_capability = \<lparr> bc_queried = False, bc_compatible_storage = False, bc_filter_blocked = False,
     bc_failing_driver = [], bc_failure_reason = [] \<rparr>"

definition probe_file_bypassio :: "ds_env \<Rightarrow> string \<Rightarrow> BypassCapability" where
  "probe_file_bypassio env path =
    (if \<not> dv_probe_open env path then no_capability
     else (case dv_query env path of
         None \<Rightarrow> no_capability\<lparr>bc_queried := True, bc_compatible_storage := False\<rparr>
       | Some r \<Rightarrow> \<lparr> bc_queried = True, bc_compatible_storage = bo_compatible r,
           bc_filter_blocked = bo_filter_blocked r, bc_failing_driver = bo_driver r,
           bc_failure_reason = bo_reason r \<rparr>))"

definition new_DirectStorageContext :: "bool \<Rightarrow> DirectStorageContext" where
  "new_DirectStorageContext bypassio = \<lparr> dc_enable_bypassio = bypassio, dc_files = [],
     dc_capabilities = Map.empty, dc_pending = [], dc_total_submitted = 0, dc_statuses_issued = 0,
     dc_queue = [], dc_log = [] \<rparr>"

definition bypass_capability ::
  "ds_env \<Rightarrow> string \<Rightarrow> DirectStorageContext \<Rightarrow> BypassCapability \<times> DirectStorageContext" where
  "bypass_capability env path c =
    (case dc_capabilities c path of
       None \<Rightarrow> let cap = (probe_file_bypassio env path)\<lparr>bc_queried := True\<rparr>
         in (cap, c\<lparr>dc_capabilities := (dc_capabilities c)(path \<mapsto> cap)\<rparr>)
     | Some cap \<Rightarrow> (cap, c))"

text \<open>\<open>open_file\<close>: false stands for the exception it throws when the factory cannot open the file.\<close>

definition open_file :: "ds_env \<Rightarrow> string \<Rightarrow> DirectStorageContext \<Rightarrow> bool \<times> DirectStorageContext" where
  "open_file env path c =
    (if path \<in> set (dc_files c) then (True, c)
     else if \<not> dv_open env path then (False, c)
     else (True, (snd (bypass_capability env path c))\<lparr>dc_files := path # dc_files c\<rparr>))"

definition bypass_path :: "DirectStorageContext \<Rightarrow> string \<Rightarrow> u64 \<Rightarrow> u64 \<Rightarrow> BypassPath" where
  "bypass_path c path offset bytes =
    (let vol_supported = (case dc_capabilities c path of
           None \<Rightarrow> False
         | Some cap \<Rightarrow> bc_compatible_storage cap \<and> \<not> bc_filter_blocked cap);
         aligned = offset mod 4096 = 0 \<and> bytes mod 4096 = 0
     in if \<not> dc_enable_bypassio c then DisabledByConfig
        else if \<not> vol_supported then Unsupported
        else if \<not> aligned then Unaligned
        else Enabled)"

text \<open>\<open>enqueue_read\<close>: the request's number, or the text of the exception.\<close>

definition enqueue_read ::
  "ds_env \<Rightarrow> string \<Rightarrow> u64 \<Rightarrow> u64 \<Rightarrow> nat \<Rightarrow> u64 \<Rightarrow> string \<Rightarrow> DirectStorageContext \<Rightarrow>
   (string + u64) \<times> DirectStorageContext" where
  "enqueue_read env path offset bytes destination dest_offset expert c =
    (if bytes > ucast UINT32_MAX then (Inl ''enqueue_read: size exceeds UINT32_MAX; split into chunks'', c)
     else (case open_file env path c of
         (False, c1) \<Rightarrow> (Inl (''IDStorageFactory::OpenFile failed: '' @ path), c1)
       | (True, c1) \<Rightarrow>
           let p = \<lparr> pd_file_path = path, pd_expert = expert, pd_offset = offset, pd_size = bytes,
                     pd_status_slot = ucast (dc_total_submitted c1 mod k_status_capacity),
                     pd_request_id = dc_total_submitted c1,
                     pd_path = bypass_path c1 path offset bytes \<rparr>
           in (Inr (dc_total_submitted c1),
               c1\<lparr>dc_queue := dc_queue c1 @ [EnqueueRequest path offset (ucast bytes) destination dest_offset],
                  dc_pending := dc_pending c1 @ [p],
                  dc_total_submitted := dc_total_submitted c1 + 1\<rparr>)))"

definition submit :: "DirectStorageContext \<Rightarrow> DirectStorageContext" where
  "submit c = c\<lparr>dc_queue := dc_queue c @ [Submit]\<rparr>"

text \<open>
  One round of the status loop for the request number \<open>k\<close>: the first pending request with that
  number gets a status write.
\<close>

definition issue_status :: "nat \<Rightarrow> DirectStorageContext \<Rightarrow> DirectStorageContext" where
  "issue_status k c =
    (case find (\<lambda>p. unat (pd_request_id p) = k) (dc_pending c) of
       None \<Rightarrow> c
     | Some p \<Rightarrow> c\<lparr>dc_queue := dc_queue c @ [EnqueueStatus (pd_status_slot p)]\<rparr>)
     \<lparr>dc_statuses_issued := of_nat (Suc k)\<rparr>"

definition enqueue_signal_and_submit :: "nat \<Rightarrow> u64 \<Rightarrow> DirectStorageContext \<Rightarrow> DirectStorageContext" where
  "enqueue_signal_and_submit fence val c =
    (let c1 = fold issue_status [unat (dc_statuses_issued c)..<unat (dc_total_submitted c)] c
     in c1\<lparr>dc_queue := dc_queue c1 @ [EnqueueSignal fence val, Submit]\<rparr>)"

definition fetch_record :: "Pending \<Rightarrow> u32 \<Rightarrow> FetchRecord" where
  "fetch_record p status = \<lparr> fr_expert = pd_expert p, fr_offset = pd_offset p, fr_size = pd_size p,
     fr_path = pd_path p, fr_status = status \<rparr>"

definition timeout_one :: string where
  "timeout_one = ''TIMEOUT '' @ [CHR 0xE2, CHR 0x80, CHR 0x94] @ '' DS rejected request (e.g. unaligned offset); no completion''"

definition timeout_all :: string where
  "timeout_all = ''TIMEOUT '' @ [CHR 0xE2, CHR 0x80, CHR 0x94] @ '' DS rejected request; no completion''"

definition wait_for_request :: "ds_env \<Rightarrow> u64 \<Rightarrow> DirectStorageContext \<Rightarrow> DirectStorageContext" where
  "wait_for_request env i c =
    (case find (\<lambda>p. pd_request_id p = i) (dc_pending c) of
       None \<Rightarrow> c
     | Some p \<Rightarrow>
         c\<lparr>dc_log := dc_log c @ [case dv_status env (pd_status_slot p) of
               None \<Rightarrow> (fetch_record p E_UNEXPECTED, timeout_one)
             | Some hr \<Rightarrow> (fetch_record p hr, ''done'')],
           dc_pending := takeWhile (\<lambda>q. pd_request_id q \<noteq> i) (dc_pending c) @
             tl (dropWhile (\<lambda>q. pd_request_id q \<noteq> i) (dc_pending c))\<rparr>)"

text \<open>The lines \<open>wait_all\<close> logs: at the first time-out every pending request is logged, from the first on.\<close>

fun wait_lines :: "ds_env \<Rightarrow> Pending list \<Rightarrow> Pending list \<Rightarrow> (FetchRecord \<times> string) list" where
  "wait_lines env every [] = []"
| "wait_lines env every (p # ps) =
    (case dv_status env (pd_status_slot p) of
       None \<Rightarrow> map (\<lambda>q. (fetch_record q E_UNEXPECTED, timeout_all)) every
     | Some hr \<Rightarrow> (fetch_record p hr, ''done'') # wait_lines env every ps)"

definition wait_all :: "ds_env \<Rightarrow> DirectStorageContext \<Rightarrow> DirectStorageContext" where
  "wait_all env c = c\<lparr>dc_log := dc_log c @ wait_lines env (dc_pending c) (dc_pending c), dc_pending := []\<rparr>"

section \<open>Frames\<close>

lemma bypass_capability_frame:
  assumes "bypass_capability env path c = (cap, c')"
  shows "dc_queue c' = dc_queue c \<and> dc_pending c' = dc_pending c \<and>
    dc_total_submitted c' = dc_total_submitted c \<and> dc_statuses_issued c' = dc_statuses_issued c \<and>
    dc_enable_bypassio c' = dc_enable_bypassio c \<and> dc_capabilities c' path = Some cap"
  using assms by (auto simp: bypass_capability_def Let_def split: option.splits)

lemma open_file_frame:
  assumes "open_file env path c = (ok, c')"
  shows "dc_queue c' = dc_queue c \<and> dc_pending c' = dc_pending c \<and>
    dc_total_submitted c' = dc_total_submitted c \<and> dc_statuses_issued c' = dc_statuses_issued c \<and>
    dc_enable_bypassio c' = dc_enable_bypassio c"
  using assms bypass_capability_frame [of env path c "fst (bypass_capability env path c)"
      "snd (bypass_capability env path c)"]
  by (auto simp: open_file_def split: if_splits)

lemma issue_status_frame [simp]:
  "dc_pending (issue_status k c) = dc_pending c"
  "dc_total_submitted (issue_status k c) = dc_total_submitted c"
  "dc_statuses_issued (issue_status k c) = of_nat (Suc k)"
  by (simp_all add: issue_status_def split: option.splits)

lemma fold_issue_status:
  "dc_pending (fold issue_status ks c) = dc_pending c"
  "dc_total_submitted (fold issue_status ks c) = dc_total_submitted c"
  "dc_statuses_issued (fold issue_status ks c) = (if ks = [] then dc_statuses_issued c else of_nat (Suc (last ks)))"
  by (induction ks arbitrary: c) auto

text \<open>The status writes of a range of request numbers.\<close>

definition status_writes :: "Pending list \<Rightarrow> nat list \<Rightarrow> ds_command list" where
  "status_writes ps ks = concat (map (\<lambda>k. case find (\<lambda>p. unat (pd_request_id p) = k) ps of
     None \<Rightarrow> [] | Some p \<Rightarrow> [EnqueueStatus (pd_status_slot p)]) ks)"

lemma fold_issue_queue: "dc_queue (fold issue_status ks c) = dc_queue c @ status_writes (dc_pending c) ks"
proof (induction ks arbitrary: c)
  case (Cons k ks)
  have "dc_queue (issue_status k c) = dc_queue c @ status_writes (dc_pending c) [k]"
    by (simp add: issue_status_def status_writes_def split: option.splits)
  then show ?case using Cons [of "issue_status k c"] by (simp add: status_writes_def)
qed (simp add: status_writes_def)

section \<open>Requests, statuses and signals in order\<close>

text \<open>
  The tracking invariant: the pending requests carry the numbers \<open>m, ..., total - 1\<close> in order,
  each with the status slot of its number, and no status is ahead of the requests.
\<close>

definition tracked :: "DirectStorageContext \<Rightarrow> bool" where
  "tracked c \<longleftrightarrow> dc_statuses_issued c \<le> dc_total_submitted c \<and>
     map (\<lambda>p. unat (pd_request_id p)) (dc_pending c) =
       [unat (dc_total_submitted c) - length (dc_pending c)..<unat (dc_total_submitted c)] \<and>
     length (dc_pending c) \<le> unat (dc_total_submitted c) \<and>
     (\<forall>p \<in> set (dc_pending c). pd_status_slot p = ucast (pd_request_id p mod k_status_capacity))"

lemma tracked_new [simp]: "tracked (new_DirectStorageContext b)"
  by (simp add: tracked_def new_DirectStorageContext_def)

lemma enqueue_read_step:
  assumes "enqueue_read env path offset bytes dst dof expert c = (Inr i, c')"
  shows "i = dc_total_submitted c \<and> unat bytes < 4294967296 \<and>
    dc_queue c' = dc_queue c @ [EnqueueRequest path offset (ucast bytes) dst dof] \<and>
    dc_total_submitted c' = dc_total_submitted c + 1 \<and> dc_statuses_issued c' = dc_statuses_issued c \<and>
    (\<exists>p. dc_pending c' = dc_pending c @ [p] \<and> pd_request_id p = i \<and>
      pd_status_slot p = ucast (i mod k_status_capacity))"
proof -
  have le: "\<not> 4294967295 < bytes"
    using assms by (auto simp: enqueue_read_def split: if_splits)
  then have "unat bytes < 4294967296" by (simp add: word_less_nat_alt)
  moreover obtain ok c1 where o: "open_file env path c = (ok, c1)" by fastforce
  ultimately show ?thesis
    using assms le open_file_frame [OF o]
    by (cases ok) (auto simp: enqueue_read_def o Let_def)
qed

lemma enqueue_read_error:
  assumes "enqueue_read env path offset bytes dst dof expert c = (Inl e, c')"
  shows "dc_queue c' = dc_queue c \<and> dc_pending c' = dc_pending c \<and>
    dc_total_submitted c' = dc_total_submitted c \<and> dc_statuses_issued c' = dc_statuses_issued c"
proof -
  obtain ok c1 where o: "open_file env path c = (ok, c1)" by fastforce
  show ?thesis
    using assms open_file_frame [OF o]
    by (cases ok) (auto simp: enqueue_read_def o Let_def split: if_splits)
qed

lemma tracked_enqueue:
  assumes "tracked c" "enqueue_read env path offset bytes dst dof expert c = (r, c')"
    and "dc_total_submitted c < UINT64_MAX"
  shows "tracked c'"
proof (cases r)
  case (Inl e)
  then show ?thesis using assms(1) enqueue_read_error assms(2) by (fastforce simp: tracked_def)
next
  case (Inr i)
  let ?t = "unat (dc_total_submitted c)"
  note step = enqueue_read_step [OF assms(2) [unfolded Inr]]
  obtain p where p: "dc_pending c' = dc_pending c @ [p]" "pd_request_id p = i"
      "pd_status_slot p = ucast (i mod k_status_capacity)"
    using step by blast
  have "?t < 18446744073709551615"
    using assms(3) by (simp add: word_less_nat_alt)
  then have t: "unat (dc_total_submitted c') = Suc ?t"
    using step u64_add_unat [of "dc_total_submitted c" 1] by simp
  moreover have "unat (dc_statuses_issued c) \<le> ?t"
    using assms(1) by (simp add: tracked_def word_le_nat_alt)
  ultimately show ?thesis
    using assms(1) step p
    by (auto simp: tracked_def word_le_nat_alt)
qed

lemma tracked_signal: "tracked c \<Longrightarrow> tracked (enqueue_signal_and_submit f v c)"
proof -
  assume t: "tracked c"
  let ?ks = "[unat (dc_statuses_issued c)..<unat (dc_total_submitted c)]"
  have "dc_statuses_issued (fold issue_status ?ks c) \<le> dc_total_submitted c"
  proof (cases "?ks = []")
    case True
    then show ?thesis using t by (simp add: fold_issue_status tracked_def)
  next
    case False
    then have "Suc (last ?ks) = unat (dc_total_submitted c)" by auto
    then show ?thesis using False by (simp add: fold_issue_status)
  qed
  then show ?thesis
    using t by (simp add: tracked_def enqueue_signal_and_submit_def Let_def fold_issue_status)
qed

lemma find_pending:
  assumes "map (\<lambda>p. unat (pd_request_id p)) ps = [m..<n]" "m \<le> k" "k < n"
    and "\<forall>p \<in> set ps. pd_status_slot p = ucast (pd_request_id p mod k_status_capacity)"
  shows "\<exists>p. find (\<lambda>p. unat (pd_request_id p) = k) ps = Some p \<and>
    pd_status_slot p = ucast (word_of_nat k mod k_status_capacity :: u64)"
proof -
  have "k \<in> set (map (\<lambda>p. unat (pd_request_id p)) ps)" using assms(1-3) by simp
  then have "find (\<lambda>p. unat (pd_request_id p) = k) ps \<noteq> None"
    by (auto simp: find_None_iff)
  then obtain p where p: "find (\<lambda>p. unat (pd_request_id p) = k) ps = Some p" by blast
  then have "p \<in> set ps" "unat (pd_request_id p) = k"
    by (auto simp: find_Some_iff)
  then show ?thesis using p assms(4) by auto
qed

lemma status_writes_all:
  assumes "map (\<lambda>p. unat (pd_request_id p)) ps = [m..<n]" "m \<le> j" "set ks \<subseteq> {j..<n}"
    and "\<forall>p \<in> set ps. pd_status_slot p = ucast (pd_request_id p mod k_status_capacity)"
  shows "status_writes ps ks = map (\<lambda>k. EnqueueStatus (ucast (word_of_nat k mod k_status_capacity :: u64))) ks"
  using assms(3)
proof (induction ks)
  case (Cons k ks)
  then show ?case
    using find_pending [OF assms(1) _ _ assms(4), of k] assms(2)
    by (auto simp: status_writes_def)
qed (simp add: status_writes_def)

text \<open>
  A fence signal never overtakes the reads it stands for: in a context whose requests are
  tracked, queueing a read and then a signal appends exactly the read request, one status write
  for every request that has none yet (in the order of the requests, this read last), the signal
  and the submission; afterwards no status is missing.
\<close>

theorem ds_read_then_signal:
  assumes "tracked c" "dc_total_submitted c < UINT64_MAX"
    and "unat (dc_total_submitted c) - length (dc_pending c) \<le> unat (dc_statuses_issued c)"
    and "enqueue_read env path offset bytes dst dof expert c = (Inr i, c1)"
  shows "dc_queue (enqueue_signal_and_submit f v c1) = dc_queue c @
      [EnqueueRequest path offset (ucast bytes) dst dof] @
      map (\<lambda>k. EnqueueStatus (ucast (word_of_nat k mod k_status_capacity :: u64)))
        [unat (dc_statuses_issued c)..<Suc (unat (dc_total_submitted c))] @
      [EnqueueSignal f v, Submit] \<and>
    tracked (enqueue_signal_and_submit f v c1) \<and>
    dc_statuses_issued (enqueue_signal_and_submit f v c1) = dc_total_submitted c1"
proof -
  note step = enqueue_read_step [OF assms(4)]
  let ?t = "unat (dc_total_submitted c)" and ?s = "unat (dc_statuses_issued c)"
  have c1: "tracked c1" by (rule tracked_enqueue [OF assms(1,4,2)])
  have "?t < 18446744073709551615"
    using assms(2) by (simp add: word_less_nat_alt)
  then have t: "unat (dc_total_submitted c1) = Suc ?t"
    using step u64_add_unat [of "dc_total_submitted c" 1] by simp
  have st: "?s \<le> ?t" using assms(1) by (simp add: tracked_def word_le_nat_alt)
  have len: "length (dc_pending c1) = Suc (length (dc_pending c))" using step by auto
  have issued: "dc_statuses_issued c1 = dc_statuses_issued c"
    and queue: "dc_queue c1 = dc_queue c @ [EnqueueRequest path offset (ucast bytes) dst dof]"
    using step by blast+
  have sw: "status_writes (dc_pending c1) [?s..<Suc ?t] =
      map (\<lambda>k. EnqueueStatus (ucast (word_of_nat k mod k_status_capacity :: u64))) [?s..<Suc ?t]"
    using c1 t len assms(3)
    by (intro status_writes_all [of _ "?t - length (dc_pending c)" "Suc ?t" ?s]) (auto simp: tracked_def)
  have "dc_statuses_issued (enqueue_signal_and_submit f v c1) =
      dc_statuses_issued (fold issue_status [?s..<Suc ?t] c1)"
    by (simp add: enqueue_signal_and_submit_def Let_def t issued del: upt_Suc)
  also have "\<dots> = of_nat (Suc ?t)"
    using st by (simp add: fold_issue_status del: upt_Suc)
  also have "\<dots> = dc_total_submitted c1" unfolding t [symmetric] by simp
  finally have "dc_statuses_issued (enqueue_signal_and_submit f v c1) = dc_total_submitted c1" .
  moreover have "dc_queue (enqueue_signal_and_submit f v c1) =
      dc_queue c1 @ status_writes (dc_pending c1) [?s..<Suc ?t] @ [EnqueueSignal f v, Submit]"
    by (simp add: enqueue_signal_and_submit_def Let_def fold_issue_queue t issued del: upt_Suc)
  ultimately show ?thesis
    using tracked_signal [OF c1, of f v] by (simp only: sw queue append_assoc)
qed

definition example_ds_env :: ds_env where
  "example_ds_env = \<lparr> dv_open = (\<lambda>_. True), dv_probe_open = (\<lambda>_. True), dv_query = (\<lambda>_. None),
     dv_status = (\<lambda>_. Some 0) \<rparr>"

theorem ds_read_then_signal_witness:
  "dc_queue (enqueue_signal_and_submit 5 1
      (snd (enqueue_read example_ds_env ''w'' 4096 512 7 0 ''e'' (new_DirectStorageContext True)))) =
    [EnqueueRequest ''w'' 4096 512 7 0, EnqueueStatus 0, EnqueueSignal 5 1, Submit]"
proof -
  have r: "enqueue_read example_ds_env ''w'' 4096 512 7 0 ''e'' (new_DirectStorageContext True) =
      (Inr 0, snd (enqueue_read example_ds_env ''w'' 4096 512 7 0 ''e'' (new_DirectStorageContext True)))"
    by (simp add: enqueue_read_def open_file_def example_ds_env_def new_DirectStorageContext_def
        bypass_capability_def Let_def)
  show ?thesis
    using ds_read_then_signal [OF tracked_new _ _ r, of 5 1]
    by (simp add: new_DirectStorageContext_def)
qed

text \<open>
  A request that times out in \<open>wait_all\<close> makes the requests before it, already reported as
  done, be reported a second time as timed out.
\<close>

lemma wait_all_reports_twice:
  assumes "dc_pending c = [p, q]" "dv_status env (pd_status_slot p) = Some hr"
    "dv_status env (pd_status_slot q) = None"
  shows "dc_log (wait_all env c) = dc_log c @ [(fetch_record p hr, ''done''),
    (fetch_record p E_UNEXPECTED, timeout_all), (fetch_record q E_UNEXPECTED, timeout_all)]"
  using assms by (simp add: wait_all_def)

end
