(* ===== verification/TensorStream.thy ===== *)
theory TensorStream
  imports DirectStorage ByteCodec TextFormat
begin

text \<open>
  Expert streaming, \<open>src/dxstream/dxstream.cpp\<close>: the coordinate index \<open>TensorIndex\<close> with its
  blob format, and the slot cache \<open>StreamingMoE\<close> that seats tensors in a ring of video-memory
  slots, evicting the least recently used one. Contents:
  \<^item> FNV-1a and the index: \<open>build\<close>, \<open>lookup\<close>, \<open>to_blob\<close>/\<open>from_blob\<close>, \<open>save\<close>/\<open>load\<close>;
  \<^item> the cache: construction, \<open>fetch\<close> split into its hit and its miss, \<open>flush\<close>;
  \<^item> the round trip of the blob, the effect of one miss, and the promise a working set that
    fits the ring relies on. A run in which that promise breaks once the ring is too small is
    \<open>stale_hit\<close>.
\<close>

section \<open>The index\<close>

record TensorCoordinate =
  tc_absolute_offset :: u64
  tc_byte_size :: u64
  tc_quant_type :: u32
  tc_padding :: u32

record IndexHeader =
  ih_magic :: u64
  ih_count :: u32
  ih_alignment :: u32
  ih_payload_size :: u64
  ih_reserved :: "u64 list"

record TensorIndex =
  ti_header :: IndexHeader
  ti_entries :: "(string \<times> TensorCoordinate) list"
  ti_hash_to_index :: "u64 \<rightharpoonup> u32"

definition k_index_magic :: u64 where "k_index_magic = 0x7375697374495844"

definition fnv1a64 :: "string \<Rightarrow> u64" where
  "fnv1a64 s = fold (\<lambda>c h. (h XOR of_nat (of_char c)) * 1099511628211) s 14695981039346656037"

definition new_TensorIndex :: TensorIndex where
  "new_TensorIndex = \<lparr> ti_header = \<lparr> ih_magic = 0, ih_count = 0, ih_alignment = 0, ih_payload_size = 0,
     ih_reserved = [0, 0, 0, 0] \<rparr>, ti_entries = [], ti_hash_to_index = Map.empty \<rparr>"

fun hash_from :: "nat \<Rightarrow> (string \<times> TensorCoordinate) list \<Rightarrow> (u64 \<rightharpoonup> u32) \<Rightarrow> (u64 \<rightharpoonup> u32)" where
  "hash_from i [] m = m"
| "hash_from i (e # es) m = hash_from (Suc i) es (m(fnv1a64 (fst e) \<mapsto> of_nat i))"

definition hash_entries :: "(string \<times> TensorCoordinate) list \<Rightarrow> (u64 \<rightharpoonup> u32)" where
  "hash_entries es = hash_from 0 es Map.empty"

text \<open>
  \<open>build\<close>. Its loop counts with 32 bits against the 64-bit size of the vector, so with
  \<open>2 ^ 32\<close> entries or more it never ends: \<open>None\<close>.
\<close>

definition build :: "(string \<times> TensorCoordinate) list \<Rightarrow> u64 \<Rightarrow> u32 \<Rightarrow> TensorIndex option" where
  "build entries payload_size alignment =
    (if length entries < 4294967296
     then Some \<lparr> ti_header = \<lparr> ih_magic = k_index_magic, ih_count = of_nat (length entries),
            ih_alignment = alignment, ih_payload_size = payload_size, ih_reserved = [0, 0, 0, 0] \<rparr>,
          ti_entries = entries, ti_hash_to_index = hash_entries entries \<rparr>
     else None)"

text \<open>\<open>lookup\<close>: the coordinate it stores through its out-parameter, \<open>None\<close> when it returns false.\<close>

definition lookup :: "TensorIndex \<Rightarrow> string \<Rightarrow> TensorCoordinate option" where
  "lookup ix tag =
    (case ti_hash_to_index ix (fnv1a64 tag) of
       None \<Rightarrow> None
     | Some i \<Rightarrow> Some (snd (ti_entries ix ! unat i)))"

section \<open>The blob\<close>

text \<open>The header takes 56 bytes, a packed coordinate 24.\<close>

definition header_bytes :: "IndexHeader \<Rightarrow> u8 list" where
  "header_bytes h = le_of_u64 (ih_magic h) @ le_of_u32 (ih_count h) @ le_of_u32 (ih_alignment h) @
     le_of_u64 (ih_payload_size h) @ concat (map le_of_u64 (ih_reserved h))"

definition header_of_bytes :: "u8 list \<Rightarrow> IndexHeader" where
  "header_of_bytes bs = \<lparr> ih_magic = u64_of_le (read_at 0 8 bs), ih_count = u32_of_le (read_at 8 4 bs),
     ih_alignment = u32_of_le (read_at 12 4 bs), ih_payload_size = u64_of_le (read_at 16 8 bs),
     ih_reserved = map (\<lambda>i. u64_of_le (read_at (24 + 8 * i) 8 bs)) [0..<4] \<rparr>"

definition coordinate_bytes :: "TensorCoordinate \<Rightarrow> u8 list" where
  "coordinate_bytes c = le_of_u64 (tc_absolute_offset c) @ le_of_u64 (tc_byte_size c) @
     le_of_u32 (tc_quant_type c) @ le_of_u32 (tc_padding c)"

definition coordinate_of_bytes :: "u8 list \<Rightarrow> TensorCoordinate" where
  "coordinate_of_bytes bs = \<lparr> tc_absolute_offset = u64_of_le (read_at 0 8 bs),
     tc_byte_size = u64_of_le (read_at 8 8 bs), tc_quant_type = u32_of_le (read_at 16 4 bs),
     tc_padding = u32_of_le (read_at 20 4 bs) \<rparr>"

definition to_blob :: "TensorIndex \<Rightarrow> u8 list" where
  "to_blob ix = header_bytes (ti_header ix) @ concat (map (\<lambda>e. coordinate_bytes (snd e)) (ti_entries ix))"

text \<open>
  \<open>from_blob\<close>: the index is the object it runs on, whose header is already overwritten when the
  magic number or the size turns out wrong.
\<close>

definition from_blob :: "u8 list \<Rightarrow> TensorIndex \<Rightarrow> bool \<times> TensorIndex" where
  "from_blob bs ix =
    (if length bs < 56 then (False, ix)
     else let h = header_of_bytes bs; ix1 = ix\<lparr>ti_header := h\<rparr>; n = unat (ih_count h)
       in if ih_magic h \<noteq> k_index_magic then (False, ix1)
          else if length bs < 56 + n * 24 then (False, ix1)
          else let es = map (\<lambda>i. (dec_digits i, coordinate_of_bytes (read_at (56 + i * 24) 24 bs))) [0..<n]
            in (True, ix1\<lparr>ti_entries := es, ti_hash_to_index := hash_entries es\<rparr>))"

text \<open>
  \<open>save\<close> and \<open>load\<close>: the file's new contents and whether the stream is good after the write;
  the contents read, if the file opens and can be read. A file of exactly 56 bytes, an index
  without coordinates, is not loaded.
\<close>

definition save :: "bool \<Rightarrow> bool \<Rightarrow> TensorIndex \<Rightarrow> bool \<times> u8 list option" where
  "save opens written ix = (if \<not> opens then (False, None) else (written, Some (to_blob ix)))"

definition load :: "u8 list option \<Rightarrow> bool \<Rightarrow> TensorIndex \<Rightarrow> bool \<times> TensorIndex" where
  "load contents readable ix =
    (case contents of
       None \<Rightarrow> (False, ix)
     | Some bs \<Rightarrow> if length bs \<le> 56 \<or> \<not> readable then (False, ix) else from_blob bs ix)"

section \<open>The slot cache\<close>

record StreamStats =
  st_fetch_hits :: u64
  st_fetch_misses :: u64
  st_evictions :: u64
  st_stall_events :: u64
  st_stall_wait_ns :: u64
  st_bytes_streamed :: u64
  st_bytes_resident :: u64

record SlotView =
  sv_slot :: int
  sv_fence_value :: u64
  sv_resource :: "nat option"
  sv_is_hit :: bool

text \<open>A slot's buffer and fence are named by their addresses.\<close>

record StreamingMoE =
  sm_dstorage :: DirectStorageContext
  sm_payload_path :: string
  sm_index :: TensorIndex
  sm_slot_count :: u32
  sm_slot_size :: u64
  sm_slots :: "nat list"
  sm_slot_fences :: "nat list"
  sm_slot_versions :: "u64 list"
  sm_slot_has_payload :: "bool list"
  sm_slot_resident_bytes :: "u64 list"
  sm_resident :: "u64 \<rightharpoonup> nat"
  sm_lru_last_tick :: "u64 list"
  sm_stats :: StreamStats
  sm_tick :: u64

text \<open>
  During one fetch: the storage answers, whether the victim's fence has reached its value, and
  the nanoseconds the fence check took.
\<close>

record fetch_env =
  fe_ds :: ds_env
  fe_completed :: bool
  fe_wait_ns :: u64

definition bad_view :: SlotView where
  "bad_view = \<lparr> sv_slot = -1, sv_fence_value = 0, sv_resource = None, sv_is_hit = False \<rparr>"

text \<open>The constructor, once the device has created the buffers and fences; false when opening the payload throws.\<close>

definition new_StreamingMoE ::
  "ds_env \<Rightarrow> DirectStorageContext \<Rightarrow> string \<Rightarrow> TensorIndex \<Rightarrow> u32 \<Rightarrow> u64 \<Rightarrow> nat list \<Rightarrow> nat list \<Rightarrow>
   bool \<times> StreamingMoE" where
  "new_StreamingMoE env ds path ix slot_count slot_size slots fences =
    (case open_file env path ds of
       (ok, ds1) \<Rightarrow> (ok, \<lparr> sm_dstorage = ds1, sm_payload_path = path, sm_index = ix,
         sm_slot_count = slot_count, sm_slot_size = slot_size, sm_slots = slots, sm_slot_fences = fences,
         sm_slot_versions = replicate (unat slot_count) 0,
         sm_slot_has_payload = replicate (unat slot_count) False,
         sm_slot_resident_bytes = replicate (unat slot_count) 0,
         sm_resident = Map.empty, sm_lru_last_tick = replicate (unat slot_count) 0,
         sm_stats = \<lparr> st_fetch_hits = 0, st_fetch_misses = 0, st_evictions = 0, st_stall_events = 0,
           st_stall_wait_ns = 0, st_bytes_streamed = 0, st_bytes_resident = 0 \<rparr>,
         sm_tick = 0 \<rparr>))"

definition victim_step :: "u64 list \<Rightarrow> nat \<Rightarrow> int \<times> u64 \<Rightarrow> int \<times> u64" where
  "victim_step ticks i acc = (if ticks ! i < snd acc then (int i, ticks ! i) else acc)"

definition find_victim :: "u64 list \<Rightarrow> nat \<Rightarrow> int" where
  "find_victim ticks n = fst (fold (victim_step ticks) [0..<n] (-1, UINT64_MAX))"

text \<open>The counters of a slot that is taken over, and the wait for its work in flight.\<close>

definition stall_stats :: "fetch_env \<Rightarrow> StreamStats \<Rightarrow> StreamStats" where
  "stall_stats env st =
    (let st1 = (if fe_completed env then st else st\<lparr>st_stall_events := st_stall_events st + 1\<rparr>)
     in st1\<lparr>st_stall_wait_ns := st_stall_wait_ns st1 + fe_wait_ns env, st_evictions := st_evictions st1 + 1\<rparr>)"

text \<open>
  The part of a miss after the victim is chosen. The exception of \<open>enqueue_read\<close> leaves
  the counters and the erased entry as they are at that point.
\<close>

definition fetch_into ::
  "fetch_env \<Rightarrow> string \<Rightarrow> TensorCoordinate \<Rightarrow> nat \<Rightarrow> StreamingMoE \<Rightarrow> (string + SlotView) \<times> StreamingMoE" where
  "fetch_into env tag coord v m =
    (let hash = fnv1a64 tag;
         st0 = (if sm_slot_has_payload m ! v then stall_stats env (sm_stats m) else sm_stats m);
         st1 = st0\<lparr>st_bytes_streamed := st_bytes_streamed st0 + tc_byte_size coord,
           st_bytes_resident := st_bytes_resident st0 - sm_slot_resident_bytes m ! v\<rparr>;
         m1 = m\<lparr>sm_stats := st1, sm_resident := (sm_resident m)(hash := None)\<rparr>;
         next_val = sm_slot_versions m ! v + 1
     in case enqueue_read (fe_ds env) (sm_payload_path m) (tc_absolute_offset coord) (tc_byte_size coord)
             (sm_slots m ! v) 0 tag (sm_dstorage m) of
          (Inl e, ds1) \<Rightarrow> (Inl e, m1\<lparr>sm_dstorage := ds1\<rparr>)
        | (Inr _, ds1) \<Rightarrow>
            (Inr \<lparr> sv_slot = int v, sv_fence_value = next_val, sv_resource = Some (sm_slots m ! v), sv_is_hit = False \<rparr>,
             m1\<lparr>sm_dstorage := enqueue_signal_and_submit (sm_slot_fences m ! v) next_val ds1,
                sm_slot_versions := (sm_slot_versions m)[v := next_val],
                sm_slot_has_payload := (sm_slot_has_payload m)[v := True],
                sm_slot_resident_bytes := (sm_slot_resident_bytes m)[v := tc_byte_size coord],
                sm_stats := st1\<lparr>st_bytes_resident := st_bytes_resident st1 + tc_byte_size coord\<rparr>,
                sm_lru_last_tick := (sm_lru_last_tick m)[v := sm_tick m],
                sm_resident := (sm_resident m)(hash \<mapsto> v)\<rparr>))"

definition fetch ::
  "fetch_env \<Rightarrow> string \<Rightarrow> StreamingMoE \<Rightarrow> (string + SlotView) \<times> StreamingMoE" where
  "fetch env tag m =
    (case lookup (sm_index m) tag of
       None \<Rightarrow> (Inr bad_view, m)
     | Some coord \<Rightarrow>
         let m1 = m\<lparr>sm_tick := sm_tick m + 1\<rparr>; st = sm_stats m
         in (case sm_resident m (fnv1a64 tag) of
             Some s \<Rightarrow>
               (Inr \<lparr> sv_slot = int s, sv_fence_value = sm_slot_versions m ! s,
                   sv_resource = Some (sm_slots m ! s), sv_is_hit = True \<rparr>,
                m1\<lparr>sm_lru_last_tick := (sm_lru_last_tick m)[s := sm_tick m1],
                   sm_stats := st\<lparr>st_fetch_hits := st_fetch_hits st + 1\<rparr>\<rparr>)
           | None \<Rightarrow>
               let m2 = m1\<lparr>sm_stats := st\<lparr>st_fetch_misses := st_fetch_misses st + 1\<rparr>\<rparr>;
                   v = find_victim (sm_lru_last_tick m) (unat (sm_slot_count m))
               in if v < 0 then (Inr bad_view, m2)
                  else fetch_into env tag coord (nat v) m2))"

text \<open>\<open>flush\<close>: the fence waits it makes, in order.\<close>

definition flush :: "StreamingMoE \<Rightarrow> (nat \<times> u64) list" where
  "flush m = map (\<lambda>i. (sm_slot_fences m ! i, sm_slot_versions m ! i))
     (filter (\<lambda>i. sm_slot_has_payload m ! i) [0..<unat (sm_slot_count m)])"

section \<open>Reading back what was written\<close>

lemma read_at_front: "length a = n \<Longrightarrow> read_at 0 n (a @ b) = a"
  by (simp add: read_at_def)

lemma read_at_skip: "length a \<le> off \<Longrightarrow> read_at off n (a @ b) = read_at (off - length a) n b"
  by (simp add: read_at_def)

lemma read_at_chunks:
  assumes "\<forall>c \<in> set cs. length c = k" "i < length cs"
  shows "read_at (i * k) k (concat cs) = cs ! i"
  using assms
proof (induction cs arbitrary: i)
  case (Cons c cs)
  then show ?case
    by (cases i) (simp_all add: read_at_front read_at_skip)
qed simp

lemma length_header_bytes: "length (ih_reserved h) = 4 \<Longrightarrow> length (header_bytes h) = 56"
  by (simp add: header_bytes_def length_concat comp_def sum_list_triv)

lemma length_coordinate_bytes [simp]: "length (coordinate_bytes c) = 24"
  by (simp add: coordinate_bytes_def)

lemma coordinate_roundtrip [simp]: "coordinate_of_bytes (coordinate_bytes c) = c"
  by (simp add: coordinate_of_bytes_def coordinate_bytes_def read_at_front read_at_skip)
    (simp add: read_at_def)

lemma header_roundtrip:
  assumes "length (ih_reserved h) = 4"
  shows "header_of_bytes (header_bytes h @ rest) = h"
proof -
  obtain a b c d where r: "ih_reserved h = [a, b, c, d]"
    using assms by (auto simp: eval_nat_numeral length_Suc_conv)
  have four: "[0..<4] = [0, 1, 2, 3 :: nat]" by code_simp
  show ?thesis
    by (cases h) (use r in \<open>simp add: header_of_bytes_def header_bytes_def four read_at_front read_at_skip\<close>)
qed

section \<open>The hash table\<close>

lemma hash_from_base:
  "hash_from k es m h =
    (if h \<in> (\<lambda>e. fnv1a64 (fst e)) ` set es then hash_from k es Map.empty h else m h)"
proof (induction es arbitrary: k m)
  case (Cons e es)
  show ?case
    by (simp only: hash_from.simps Cons [of "Suc k" "m(fnv1a64 (fst e) \<mapsto> of_nat k)"]
        Cons [of "Suc k" "[fnv1a64 (fst e) \<mapsto> of_nat k]"]) auto
qed simp

lemma hash_from_Some:
  "hash_from k es Map.empty h = Some j \<Longrightarrow>
   \<exists>i < length es. j = of_nat (k + i) \<and> fnv1a64 (fst (es ! i)) = h"
proof (induction es arbitrary: k)
  case (Cons e es)
  show ?case
  proof (cases "h \<in> (\<lambda>e. fnv1a64 (fst e)) ` set es")
    case True
    then have "hash_from (Suc k) es Map.empty h = Some j"
      using Cons.prems by (subst (asm) hash_from.simps, subst (asm) hash_from_base) simp
    from Cons.IH [OF this] obtain i where "i < length es" "j = of_nat (Suc k + i)" "fnv1a64 (fst (es ! i)) = h"
      by blast
    then show ?thesis by (intro exI [of _ "Suc i"]) simp
  next
    case False
    then have "h = fnv1a64 (fst e) \<and> j = of_nat k"
      using Cons.prems by (subst (asm) hash_from.simps, subst (asm) hash_from_base) (simp split: if_splits)
    then show ?thesis by (intro exI [of _ 0]) simp
  qed
qed simp

lemma hash_entries_Some:
  assumes "hash_entries es h = Some j"
  shows "\<exists>i < length es. j = of_nat i \<and> fnv1a64 (fst (es ! i)) = h"
  using hash_from_Some [of 0 es h j] assms by (simp add: hash_entries_def)

lemma hash_from_present:
  "h \<in> (\<lambda>e. fnv1a64 (fst e)) ` set es \<Longrightarrow> hash_from k es Map.empty h \<noteq> None"
proof (induction es arbitrary: k)
  case (Cons e es)
  have "hash_from k (e # es) Map.empty h =
      (if h \<in> (\<lambda>e. fnv1a64 (fst e)) ` set es then hash_from (Suc k) es Map.empty h
       else [fnv1a64 (fst e) \<mapsto> of_nat k] h)"
    by (subst hash_from.simps, subst hash_from_base) (rule refl)
  with Cons show ?case by (simp only:) auto
qed simp

lemma lookup_distinct:
  assumes "ti_hash_to_index ix = hash_entries (ti_entries ix)" "length (ti_entries ix) < 4294967296"
    and "distinct (map (\<lambda>e. fnv1a64 (fst e)) (ti_entries ix))" "i < length (ti_entries ix)"
  shows "lookup ix (fst (ti_entries ix ! i)) = Some (snd (ti_entries ix ! i))"
proof -
  let ?es = "ti_entries ix" and ?h = "fnv1a64 (fst (ti_entries ix ! i))"
  have "?h \<in> (\<lambda>e. fnv1a64 (fst e)) ` set ?es" using assms(4) by force
  then obtain j where j: "hash_entries ?es ?h = Some j"
    using hash_from_present [of ?h ?es 0] by (auto simp: hash_entries_def)
  then obtain k where k: "k < length ?es" "j = of_nat k" "fnv1a64 (fst (?es ! k)) = ?h"
    using hash_entries_Some by blast
  then have "k = i"
    using assms(3,4) nth_eq_iff_index_eq [of "map (\<lambda>e. fnv1a64 (fst e)) ?es" k i] by simp
  then show ?thesis
    using j k assms(1,2) by (simp add: lookup_def unat_of_nat_u32)
qed

lemma built_blob_read:
  assumes "build es payload alignment = Some ix"
  shows "length (to_blob ix) = 56 + length es * 24 \<and> from_blob (to_blob ix) ix0 =
    (True, ix0\<lparr>ti_header := ti_header ix, ti_entries := map (\<lambda>i. (dec_digits i, snd (es ! i))) [0..<length es],
       ti_hash_to_index := hash_entries (map (\<lambda>i. (dec_digits i, snd (es ! i))) [0..<length es])\<rparr>)"
proof -
  let ?es' = "map (\<lambda>i. (dec_digits i, snd (es ! i))) [0..<length es]"
  have n: "length es < 4294967296" and h: "ti_entries ix = es" "ih_magic (ti_header ix) = k_index_magic"
      "unat (ih_count (ti_header ix)) = length es" "length (ih_reserved (ti_header ix)) = 4"
      "ti_hash_to_index ix = hash_entries es"
    using assms by (auto simp: build_def unat_of_nat_u32 split: if_splits)
  let ?cs = "map (\<lambda>e. coordinate_bytes (snd e)) es"
  have blob: "to_blob ix = header_bytes (ti_header ix) @ concat ?cs" by (simp add: to_blob_def h(1))
  have hdr: "header_of_bytes (to_blob ix) = ti_header ix"
    unfolding blob by (rule header_roundtrip [OF h(4)])
  have len: "length (to_blob ix) = 56 + length es * 24"
    unfolding blob by (simp add: length_header_bytes h(4) length_concat comp_def sum_list_triv)
  have "read_at (56 + i * 24) 24 (to_blob ix) = coordinate_bytes (snd (es ! i))" if "i < length es" for i
    using read_at_chunks [of ?cs 24 i] that
    by (simp add: blob read_at_skip length_header_bytes h(4))
  then have es: "map (\<lambda>i. (dec_digits i, coordinate_of_bytes (read_at (56 + i * 24) 24 (to_blob ix)))) [0..<length es] = ?es'"
    by simp
  have "from_blob (to_blob ix) ix0 =
      (True, ix0\<lparr>ti_header := ti_header ix, ti_entries := ?es', ti_hash_to_index := hash_entries ?es'\<rparr>)"
    by (simp only: from_blob_def hdr h(2,3) len Let_def es) simp
  then show ?thesis using len by blast
qed

lemma numbered_lookup:
  assumes "n < 4294967296" and "distinct (map (\<lambda>i. fnv1a64 (dec_digits i)) [0..<n])" and "i < n"
    and "ti_entries ix = map (\<lambda>i. (dec_digits i, f i)) [0..<n]" and "ti_hash_to_index ix = hash_entries (ti_entries ix)"
  shows "lookup ix (dec_digits i) = Some (f i)"
  using lookup_distinct [of ix i] assms by (simp add: comp_def)

text \<open>
  C21. The index survives its blob: what \<open>from_blob\<close> makes of the blob of a built index, in any
  object, is accepted, has the same header, and lists the same coordinates in the same order
  under their decimal numbers. Where the hashes of the names do not collide, every name finds
  its own coordinate, in the built index and, by number, in the one read back.
\<close>

theorem index_blob_roundtrip:
  assumes "build es payload alignment = Some ix"
  shows "\<exists>ix'. from_blob (to_blob ix) ix0 = (True, ix') \<and> ti_header ix' = ti_header ix \<and>
      ti_entries ix' = map (\<lambda>i. (dec_digits i, snd (es ! i))) [0..<length es] \<and>
      (distinct (map (\<lambda>i. fnv1a64 (dec_digits i)) [0..<length es]) \<longrightarrow>
        (\<forall>i < length es. lookup ix' (dec_digits i) = Some (snd (es ! i)))) \<and>
      (distinct (map (\<lambda>e. fnv1a64 (fst e)) es) \<longrightarrow> (\<forall>(t, c) \<in> set es. lookup ix t = Some c))"
proof -
  let ?es' = "map (\<lambda>i. (dec_digits i, snd (es ! i))) [0..<length es]"
  let ?ix = "ix0\<lparr>ti_header := ti_header ix, ti_entries := ?es', ti_hash_to_index := hash_entries ?es'\<rparr>"
  have n: "length es < 4294967296" and h: "ti_entries ix = es" "ti_hash_to_index ix = hash_entries es"
    using assms by (auto simp: build_def split: if_splits)
  have "from_blob (to_blob ix) ix0 = (True, ?ix)" using built_blob_read [OF assms] by blast
  moreover have "lookup ?ix (dec_digits i) = Some (snd (es ! i))"
    if "distinct (map (\<lambda>i. fnv1a64 (dec_digits i)) [0..<length es])" "i < length es" for i
    using numbered_lookup [OF n that, of ?ix "\<lambda>i. snd (es ! i)"] by simp
  moreover have "\<forall>(t, c) \<in> set es. lookup ix t = Some c" if "distinct (map (\<lambda>e. fnv1a64 (fst e)) es)"
    using lookup_distinct [of ix] that n h by (force simp: in_set_conv_nth)
  ultimately show ?thesis by simp
qed

definition example_entries :: "(string \<times> TensorCoordinate) list" where
  "example_entries =
    [(''a'', \<lparr> tc_absolute_offset = 0, tc_byte_size = 4096, tc_quant_type = 7, tc_padding = 0 \<rparr>),
     (''b'', \<lparr> tc_absolute_offset = 65536, tc_byte_size = 512, tc_quant_type = 2, tc_padding = 0 \<rparr>)]"

definition example_index :: TensorIndex where
  "example_index = the (build example_entries 66048 65536)"

theorem index_blob_roundtrip_witness:
  "fst (from_blob (to_blob example_index) new_TensorIndex) \<and>
   length (ti_entries (snd (from_blob (to_blob example_index) new_TensorIndex))) = 2"
proof -
  have "build example_entries 66048 65536 = Some example_index"
    by (simp add: example_index_def build_def example_entries_def)
  from index_blob_roundtrip [OF this, of new_TensorIndex] show ?thesis
    by (auto simp: example_entries_def)
qed

section \<open>The victim\<close>

lemma victim_fold:
  "n \<le> length ticks \<Longrightarrow>
   (case fold (victim_step ticks) [0..<n] (-1, UINT64_MAX) of (v, oldest) \<Rightarrow>
     (v = -1 \<and> oldest = UINT64_MAX \<and> (\<forall>j < n. ticks ! j = UINT64_MAX)) \<or>
     (0 \<le> v \<and> nat v < n \<and> oldest = ticks ! nat v \<and> oldest < UINT64_MAX \<and>
      (\<forall>j < n. oldest \<le> ticks ! j) \<and> (\<forall>j < nat v. oldest < ticks ! j)))"
proof (induction n)
  case (Suc n)
  obtain v oldest where r: "fold (victim_step ticks) [0..<n] (-1, UINT64_MAX) = (v, oldest)" by fastforce
  have max: "ticks ! n = UINT64_MAX" if "\<not> ticks ! n < UINT64_MAX"
    using that u64_le_max [of "ticks ! n"] by simp
  from Suc r have ih: "(v = -1 \<and> oldest = UINT64_MAX \<and> (\<forall>j < n. ticks ! j = UINT64_MAX)) \<or>
     (0 \<le> v \<and> nat v < n \<and> oldest = ticks ! nat v \<and> oldest < UINT64_MAX \<and>
      (\<forall>j < n. oldest \<le> ticks ! j) \<and> (\<forall>j < nat v. oldest < ticks ! j))" by simp
  have step: "fold (victim_step ticks) [0..<Suc n] (-1, UINT64_MAX) = victim_step ticks n (v, oldest)"
    by (simp add: r)
  show ?case
  proof (cases "ticks ! n < oldest")
    case True
    have "ticks ! n < UINT64_MAX" using True ih by auto
    moreover have "ticks ! n < ticks ! j" if "j < n" for j
      using that True ih calculation by auto
    ultimately show ?thesis
      using True unfolding step by (auto simp: victim_step_def less_Suc_eq intro: less_imp_le)
  next
    case False
    then show ?thesis
      using ih max unfolding step by (auto simp: victim_step_def less_Suc_eq not_less)
  qed
qed simp

lemma find_victim_lru:
  assumes "n \<le> length ticks" "k < n" "ticks ! k \<noteq> UINT64_MAX"
  shows "\<exists>v. find_victim ticks n = int v \<and> v < n \<and> (\<forall>j < n. ticks ! v \<le> ticks ! j) \<and>
    (\<forall>j < v. ticks ! v < ticks ! j)"
proof -
  obtain v oldest where r: "fold (victim_step ticks) [0..<n] (-1, UINT64_MAX) = (v, oldest)" by fastforce
  have "0 \<le> v \<and> nat v < n \<and> oldest = ticks ! nat v \<and> (\<forall>j < n. oldest \<le> ticks ! j) \<and>
      (\<forall>j < nat v. oldest < ticks ! j)"
    using victim_fold [OF assms(1)] r assms(2,3) by auto
  then show ?thesis
    by (intro exI [of _ "nat v"]) (auto simp: find_victim_def r)
qed

section \<open>What a slot holds\<close>

text \<open>The last read the queue was given for a resource: its file offset and size.\<close>

fun last_read :: "ds_command list \<Rightarrow> nat \<Rightarrow> (u64 \<times> u32) option" where
  "last_read [] r = None"
| "last_read (c # cs) r =
    (case last_read cs r of
       Some x \<Rightarrow> Some x
     | None \<Rightarrow> (case c of EnqueueRequest p off n d dof \<Rightarrow> if d = r then Some (off, n) else None | _ \<Rightarrow> None))"

lemma last_read_append:
  "last_read (xs @ ys) r = (case last_read ys r of Some x \<Rightarrow> Some x | None \<Rightarrow> last_read xs r)"
  by (induction xs) (auto split: option.splits)

lemma last_read_status_writes: "last_read (status_writes ps ks) r = None"
  by (induction ks) (auto simp: status_writes_def last_read_append split: option.splits)

lemma last_read_signal: "last_read (dc_queue (enqueue_signal_and_submit f v c)) r = last_read (dc_queue c) r"
  by (simp add: enqueue_signal_and_submit_def Let_def fold_issue_queue last_read_append last_read_status_writes)

definition holds :: "StreamingMoE \<Rightarrow> nat \<Rightarrow> TensorCoordinate \<Rightarrow> bool" where
  "holds m s c \<longleftrightarrow> last_read (dc_queue (sm_dstorage m)) (sm_slots m ! s) =
     Some (tc_absolute_offset c, ucast (tc_byte_size c))"

text \<open>The vectors have one entry per slot, the slots are different buffers, and the payload is open.\<close>

definition moe_shape :: "StreamingMoE \<Rightarrow> bool" where
  "moe_shape m \<longleftrightarrow> (let n = unat (sm_slot_count m) in
     length (sm_slots m) = n \<and> distinct (sm_slots m) \<and> length (sm_slot_fences m) = n \<and>
     length (sm_slot_versions m) = n \<and> length (sm_slot_has_payload m) = n \<and>
     length (sm_slot_resident_bytes m) = n \<and> length (sm_lru_last_tick m) = n \<and>
     sm_payload_path m \<in> set (dc_files (sm_dstorage m)))"

lemma open_file_cached: "path \<in> set (dc_files c) \<Longrightarrow> open_file env path c = (True, c)"
  by (simp add: open_file_def)

lemma enqueue_read_cached:
  assumes "path \<in> set (dc_files c)" "unat bytes < 4294967296"
  shows "\<exists>c'. enqueue_read env path off bytes dst dof e c = (Inr (dc_total_submitted c), c') \<and>
    dc_queue c' = dc_queue c @ [EnqueueRequest path off (ucast bytes) dst dof] \<and> dc_files c' = dc_files c"
proof -
  have "\<not> 4294967295 < bytes" using assms(2) by (simp add: word_less_nat_alt)
  then show ?thesis
    using assms(1) by (simp add: enqueue_read_def open_file_cached Let_def)
qed

lemma files_signal [simp]: "dc_files (enqueue_signal_and_submit f v c) = dc_files c"
proof -
  have "dc_files (fold issue_status ks c) = dc_files c" for ks
    by (induction ks arbitrary: c) (auto simp: issue_status_def split: option.splits)
  then show ?thesis by (simp add: enqueue_signal_and_submit_def Let_def)
qed

lemma fetch_hit:
  assumes "lookup (sm_index m) tag = Some c" "sm_resident m (fnv1a64 tag) = Some s"
  shows "fetch env tag m =
    (Inr \<lparr> sv_slot = int s, sv_fence_value = sm_slot_versions m ! s, sv_resource = Some (sm_slots m ! s), sv_is_hit = True \<rparr>,
     m\<lparr>sm_tick := sm_tick m + 1, sm_lru_last_tick := (sm_lru_last_tick m)[s := sm_tick m + 1],
       sm_stats := (sm_stats m)\<lparr>st_fetch_hits := st_fetch_hits (sm_stats m) + 1\<rparr>\<rparr>)"
  using assms by (simp add: fetch_def Let_def)

text \<open>The effect of a miss in full.\<close>

lemma fetch_miss_spec:
  assumes "moe_shape m" "lookup (sm_index m) tag = Some c" "sm_resident m (fnv1a64 tag) = None"
    and "unat (tc_byte_size c) < 4294967296"
    and "k < unat (sm_slot_count m)" "sm_lru_last_tick m ! k \<noteq> UINT64_MAX"
  shows "\<exists>v view m'. fetch env tag m = (Inr view, m') \<and> v < unat (sm_slot_count m) \<and>
    (\<forall>j < unat (sm_slot_count m). sm_lru_last_tick m ! v \<le> sm_lru_last_tick m ! j) \<and>
    (\<forall>j < v. sm_lru_last_tick m ! v < sm_lru_last_tick m ! j) \<and>
    view = \<lparr> sv_slot = int v, sv_fence_value = sm_slot_versions m ! v + 1,
      sv_resource = Some (sm_slots m ! v), sv_is_hit = False \<rparr> \<and>
    (\<exists>mid. dc_queue (sm_dstorage m') = dc_queue (sm_dstorage m) @
      EnqueueRequest (sm_payload_path m) (tc_absolute_offset c) (ucast (tc_byte_size c)) (sm_slots m ! v) 0 #
      mid @ [EnqueueSignal (sm_slot_fences m ! v) (sm_slot_versions m ! v + 1), Submit]) \<and>
    sm_slot_versions m' = (sm_slot_versions m)[v := sm_slot_versions m ! v + 1] \<and>
    sm_lru_last_tick m' = (sm_lru_last_tick m)[v := sm_tick m + 1] \<and>
    sm_slot_resident_bytes m' = (sm_slot_resident_bytes m)[v := tc_byte_size c] \<and>
    sm_slot_has_payload m' = (sm_slot_has_payload m)[v := True] \<and>
    sm_resident m' = (sm_resident m)(fnv1a64 tag \<mapsto> v) \<and>
    holds m' v c \<and>
    (\<forall>j < unat (sm_slot_count m). j \<noteq> v \<longrightarrow> (\<forall>c'. holds m' j c' \<longleftrightarrow> holds m j c')) \<and>
    moe_shape m' \<and> sm_index m' = sm_index m \<and> sm_tick m' = sm_tick m + 1 \<and>
    sm_slot_count m' = sm_slot_count m \<and> sm_slots m' = sm_slots m \<and>
    (\<not> sm_slot_has_payload m ! v \<longrightarrow> st_evictions (sm_stats m') = st_evictions (sm_stats m))"
proof -
  let ?n = "unat (sm_slot_count m)"
  have sh: "length (sm_slots m) = ?n" "distinct (sm_slots m)" "length (sm_lru_last_tick m) = ?n"
    "sm_payload_path m \<in> set (dc_files (sm_dstorage m))"
    using assms(1) by (simp_all add: moe_shape_def Let_def)
  obtain v where v: "find_victim (sm_lru_last_tick m) ?n = int v" "v < ?n"
      "\<forall>j < ?n. sm_lru_last_tick m ! v \<le> sm_lru_last_tick m ! j"
      "\<forall>j < v. sm_lru_last_tick m ! v < sm_lru_last_tick m ! j"
    using find_victim_lru [OF _ assms(5,6)] sh(3) by auto
  obtain ds where ds: "enqueue_read (fe_ds env) (sm_payload_path m) (tc_absolute_offset c) (tc_byte_size c)
        (sm_slots m ! v) 0 tag (sm_dstorage m) = (Inr (dc_total_submitted (sm_dstorage m)), ds)"
      "dc_queue ds = dc_queue (sm_dstorage m) @
        [EnqueueRequest (sm_payload_path m) (tc_absolute_offset c) (ucast (tc_byte_size c)) (sm_slots m ! v) 0]"
      "dc_files ds = dc_files (sm_dstorage m)"
    using enqueue_read_cached [OF sh(4) assms(4)] by blast
  let ?f = "sm_slot_fences m ! v" and ?nv = "sm_slot_versions m ! v + 1"
  obtain view m' where f: "fetch env tag m = (Inr view, m')"
    and view: "view = \<lparr> sv_slot = int v, sv_fence_value = ?nv, sv_resource = Some (sm_slots m ! v), sv_is_hit = False \<rparr>"
    and m': "sm_dstorage m' = enqueue_signal_and_submit ?f ?nv ds"
      "sm_slot_versions m' = (sm_slot_versions m)[v := ?nv]"
      "sm_lru_last_tick m' = (sm_lru_last_tick m)[v := sm_tick m + 1]"
      "sm_slot_resident_bytes m' = (sm_slot_resident_bytes m)[v := tc_byte_size c]"
      "sm_slot_has_payload m' = (sm_slot_has_payload m)[v := True]"
      "sm_resident m' = (sm_resident m)(fnv1a64 tag \<mapsto> v)" "sm_index m' = sm_index m"
      "sm_tick m' = sm_tick m + 1" "sm_slot_count m' = sm_slot_count m" "sm_slots m' = sm_slots m"
      "sm_slot_fences m' = sm_slot_fences m" "sm_payload_path m' = sm_payload_path m"
      "\<not> sm_slot_has_payload m ! v \<longrightarrow> st_evictions (sm_stats m') = st_evictions (sm_stats m)"
    by (simp add: fetch_def fetch_into_def assms(2,3) v(1) ds(1) Let_def fun_upd_def)
  have queue: "dc_queue (sm_dstorage m') = dc_queue (sm_dstorage m) @
      EnqueueRequest (sm_payload_path m) (tc_absolute_offset c) (ucast (tc_byte_size c)) (sm_slots m ! v) 0 #
      status_writes (dc_pending ds) [unat (dc_statuses_issued ds)..<unat (dc_total_submitted ds)] @
      [EnqueueSignal ?f ?nv, Submit]"
    by (simp add: m'(1) enqueue_signal_and_submit_def Let_def fold_issue_queue ds(2))
  have last: "last_read (dc_queue (sm_dstorage m')) r =
      (if r = sm_slots m ! v then Some (tc_absolute_offset c, ucast (tc_byte_size c))
       else last_read (dc_queue (sm_dstorage m)) r)" for r
    by (simp add: m'(1) last_read_signal ds(2) last_read_append)
  have other: "sm_slots m ! j \<noteq> sm_slots m ! v" if "j < ?n" "j \<noteq> v" for j
    using that sh(1,2) v(2) by (simp add: nth_eq_iff_index_eq)
  have "moe_shape m'"
    using assms(1) m' ds(3) by (simp add: moe_shape_def Let_def)
  moreover have "holds m' v c" by (simp add: holds_def last m'(10))
  moreover have "holds m' j c' \<longleftrightarrow> holds m j c'" if "j < ?n" "j \<noteq> v" for j c'
    using other [OF that] by (simp add: holds_def last m'(10))
  ultimately show ?thesis
    using f view m' v(2-4) queue by blast
qed

text \<open>
  A miss takes over exactly the least recently used slot: for a tensor of the index that is
  not resident and fits one request, the view names a slot than which no other slot has been
  used earlier, the first such one, with the slot's next version as fence value; the tensor is
  resident and held by that slot afterwards, and the storage queue is given its read and then
  the signal of the slot's fence. No other slot changes its version, its age or what it holds.
\<close>

theorem fetch_replaces_lru:
  assumes "moe_shape m" "lookup (sm_index m) tag = Some c" "sm_resident m (fnv1a64 tag) = None"
    and "unat (tc_byte_size c) < 4294967296"
    and "k < unat (sm_slot_count m)" "sm_lru_last_tick m ! k \<noteq> UINT64_MAX"
  shows "\<exists>v m'. fetch env tag m = (Inr \<lparr> sv_slot = int v, sv_fence_value = sm_slot_versions m ! v + 1,
      sv_resource = Some (sm_slots m ! v), sv_is_hit = False \<rparr>, m') \<and> v < unat (sm_slot_count m) \<and>
    (\<forall>j < unat (sm_slot_count m). sm_lru_last_tick m ! v \<le> sm_lru_last_tick m ! j) \<and>
    (\<forall>j < v. sm_lru_last_tick m ! v < sm_lru_last_tick m ! j) \<and>
    sm_resident m' (fnv1a64 tag) = Some v \<and> holds m' v c \<and>
    (\<exists>mid. dc_queue (sm_dstorage m') = dc_queue (sm_dstorage m) @
      EnqueueRequest (sm_payload_path m) (tc_absolute_offset c) (ucast (tc_byte_size c)) (sm_slots m ! v) 0 #
      mid @ [EnqueueSignal (sm_slot_fences m ! v) (sm_slot_versions m ! v + 1), Submit]) \<and>
    (\<forall>j < unat (sm_slot_count m). j \<noteq> v \<longrightarrow> sm_slot_versions m' ! j = sm_slot_versions m ! j \<and>
      sm_lru_last_tick m' ! j = sm_lru_last_tick m ! j \<and> (\<forall>c'. holds m' j c' \<longleftrightarrow> holds m j c'))"
proof -
  obtain v view m' where "fetch env tag m = (Inr view, m')"
    "view = \<lparr> sv_slot = int v, sv_fence_value = sm_slot_versions m ! v + 1,
      sv_resource = Some (sm_slots m ! v), sv_is_hit = False \<rparr>"
    "v < unat (sm_slot_count m)"
    "\<forall>j < unat (sm_slot_count m). sm_lru_last_tick m ! v \<le> sm_lru_last_tick m ! j"
    "\<forall>j < v. sm_lru_last_tick m ! v < sm_lru_last_tick m ! j" "holds m' v c"
    "\<exists>mid. dc_queue (sm_dstorage m') = dc_queue (sm_dstorage m) @
      EnqueueRequest (sm_payload_path m) (tc_absolute_offset c) (ucast (tc_byte_size c)) (sm_slots m ! v) 0 #
      mid @ [EnqueueSignal (sm_slot_fences m ! v) (sm_slot_versions m ! v + 1), Submit]"
    "sm_slot_versions m' = (sm_slot_versions m)[v := sm_slot_versions m ! v + 1]"
    "sm_lru_last_tick m' = (sm_lru_last_tick m)[v := sm_tick m + 1]"
    "sm_resident m' = (sm_resident m)(fnv1a64 tag \<mapsto> v)"
    "\<forall>j < unat (sm_slot_count m). j \<noteq> v \<longrightarrow> (\<forall>c'. holds m' j c' \<longleftrightarrow> holds m j c')"
    using fetch_miss_spec [OF assms, of env] by blast
  then show ?thesis by (intro exI [of _ v] exI [of _ m']) simp
qed

definition example_fetch_env :: fetch_env where
  "example_fetch_env = \<lparr> fe_ds = example_ds_env, fe_completed = True, fe_wait_ns = 0 \<rparr>"

definition example_moe :: "u32 \<Rightarrow> StreamingMoE" where
  "example_moe n = snd (new_StreamingMoE example_ds_env (new_DirectStorageContext True) ''w'' example_index n 65536
     (map (\<lambda>i. 100 + i) [0..<unat n]) (map (\<lambda>i. 200 + i) [0..<unat n]))"

lemma moe_shape_new:
  assumes "new_StreamingMoE env ds path ix n sz slots fences = (True, m)"
    and "length slots = unat n" "distinct slots" "length fences = unat n"
  shows "moe_shape m"
  using assms by (auto simp: new_StreamingMoE_def moe_shape_def open_file_def split: prod.splits if_splits)

lemma example_moe_new:
  "new_StreamingMoE example_ds_env (new_DirectStorageContext True) ''w'' example_index n 65536
     (map (\<lambda>i. 100 + i) [0..<unat n]) (map (\<lambda>i. 200 + i) [0..<unat n]) = (True, example_moe n)"
  by (simp add: example_moe_def new_StreamingMoE_def open_file_def example_ds_env_def split_beta)

lemma example_moe_shape: "moe_shape (example_moe n)"
  by (rule moe_shape_new [OF example_moe_new]) (simp_all add: distinct_map)

lemma example_moe_sel [simp]:
  "sm_index (example_moe n) = example_index" "sm_slot_count (example_moe n) = n"
  "sm_resident (example_moe n) = Map.empty" "sm_lru_last_tick (example_moe n) = replicate (unat n) 0"
  by (simp_all add: example_moe_def new_StreamingMoE_def split_beta)

lemma example_hashes: "fnv1a64 ''a'' = 0xAF63DC4C8601EC8C" "fnv1a64 ''b'' = 0xAF63DF4C8601F1A5"
  by (simp_all add: fnv1a64_def)

lemma example_lookup:
  "lookup example_index ''a'' = Some (snd (example_entries ! 0))"
  "lookup example_index ''b'' = Some (snd (example_entries ! 1))"
  by (simp_all add: lookup_def example_hashes example_index_def build_def example_entries_def hash_entries_def)

theorem fetch_replaces_lru_witness:
  "\<exists>v m'. fetch example_fetch_env ''b'' (example_moe 2) = (Inr \<lparr> sv_slot = int v,
      sv_fence_value = sm_slot_versions (example_moe 2) ! v + 1,
      sv_resource = Some (sm_slots (example_moe 2) ! v), sv_is_hit = False \<rparr>, m') \<and>
    holds m' v (snd (example_entries ! 1))"
proof -
  have "unat (tc_byte_size (snd (example_entries ! 1))) < 4294967296" by (simp add: example_entries_def)
  then show ?thesis
    using fetch_replaces_lru [OF example_moe_shape, of 2 "''b''" _ 0 example_fetch_env]
    by (auto simp: example_lookup)
qed

text \<open>
  With one slot, the tensor \<open>a\<close>, replaced by \<open>b\<close>, is still listed as resident: the third fetch
  is a hit on the slot that holds \<open>b\<close>, because the miss erases the entry of the new
  tensor and not that of the one it evicts.
\<close>

lemma stale_hit:
  "(let m1 = snd (fetch example_fetch_env ''a'' (example_moe 1));
        m2 = snd (fetch example_fetch_env ''b'' m1)
    in fst (fetch example_fetch_env ''a'' m2) =
         Inr \<lparr> sv_slot = 0, sv_fence_value = 2, sv_resource = Some 100, sv_is_hit = True \<rparr> \<and>
       holds m2 0 (snd (example_entries ! 1)))"
proof -
  have small: "unat (tc_byte_size (snd (example_entries ! 0))) < 4294967296"
    "unat (tc_byte_size (snd (example_entries ! 1))) < 4294967296"
    by (simp_all add: example_entries_def)
  have one: "(v :: nat) < 1 \<longleftrightarrow> v = 0" for v by auto
  obtain m1 where m1: "snd (fetch example_fetch_env ''a'' (example_moe 1)) = m1"
      "moe_shape m1" "sm_index m1 = example_index" "sm_resident m1 = [fnv1a64 ''a'' \<mapsto> 0]"
      "sm_slot_count m1 = 1" "sm_lru_last_tick m1 = [1]" "sm_slots m1 = [100]" "sm_slot_versions m1 = [1]"
    using fetch_miss_spec [OF example_moe_shape, of 1 "''a''" _ 0 example_fetch_env] small
    by (auto simp: example_lookup one) (auto simp: example_moe_def new_StreamingMoE_def split_beta)
  obtain m2 where m2: "snd (fetch example_fetch_env ''b'' m1) = m2" "sm_index m2 = example_index"
      "sm_resident m2 = [fnv1a64 ''a'' \<mapsto> 0, fnv1a64 ''b'' \<mapsto> 0]" "sm_slots m2 = [100]"
      "sm_slot_versions m2 = [2]" "holds m2 0 (snd (example_entries ! 1))"
    using fetch_miss_spec [OF m1(2), of "''b''" _ 0 example_fetch_env] small m1
    by (auto simp: example_lookup example_hashes one)
  show ?thesis
    using fetch_hit [of m2 "''a''" _ 0 example_fetch_env] m2(6)
    by (simp add: m1(1) m2(1-5) Let_def example_lookup example_hashes)
qed

section \<open>A working set that fits\<close>

fun fetch_run :: "(fetch_env \<times> string) list \<Rightarrow> StreamingMoE \<Rightarrow> (string + SlotView) list \<times> StreamingMoE" where
  "fetch_run [] m = ([], m)"
| "fetch_run ((env, tag) # ts) m =
    (let (r, m1) = fetch env tag m; (rs, m2) = fetch_run ts m1 in (r # rs, m2))"

text \<open>
  The invariant of a run that has not asked for more tensors than there are slots: \<open>H\<close> is the
  set of hashes asked for so far; all of them are resident, in different slots, each holding the
  tensor of its hash, and a slot that was ever used belongs to one of them.
\<close>

definition tensor_of :: "TensorIndex \<Rightarrow> u64 \<Rightarrow> TensorCoordinate" where
  "tensor_of ix h = snd (ti_entries ix ! unat (the (ti_hash_to_index ix h)))"

definition working :: "TensorIndex \<Rightarrow> u64 set \<Rightarrow> StreamingMoE \<Rightarrow> bool" where
  "working ix H m \<longleftrightarrow> moe_shape m \<and> sm_index m = ix \<and> dom (sm_resident m) = H \<and> finite H \<and>
     inj_on (sm_resident m) H \<and> st_evictions (sm_stats m) = 0 \<and>
     (\<forall>h s. sm_resident m h = Some s \<longrightarrow> s < unat (sm_slot_count m) \<and> sm_lru_last_tick m ! s \<noteq> 0 \<and>
        holds m s (tensor_of ix h)) \<and>
     (\<forall>s < unat (sm_slot_count m). sm_lru_last_tick m ! s \<noteq> 0 \<or> sm_slot_has_payload m ! s \<longrightarrow>
        (\<exists>h. sm_resident m h = Some s))"

lemma lookup_tensor: "lookup ix tag = Some c \<Longrightarrow> c = tensor_of ix (fnv1a64 tag)"
  by (auto simp: lookup_def tensor_of_def split: option.splits)

lemma free_slot:
  assumes "working ix H m" "card H < unat (sm_slot_count m)"
  shows "\<exists>k < unat (sm_slot_count m). sm_lru_last_tick m ! k = 0"
proof (rule ccontr)
  assume none: "\<not> (\<exists>k < unat (sm_slot_count m). sm_lru_last_tick m ! k = 0)"
  have "{..<unat (sm_slot_count m)} \<subseteq> (\<lambda>h. the (sm_resident m h)) ` H"
  proof
    fix s assume "s \<in> {..<unat (sm_slot_count m)}"
    then obtain h where h: "sm_resident m h = Some s"
      using none assms(1) by (auto simp: working_def)
    then have "h \<in> H" using assms(1) by (auto simp: working_def)
    then show "s \<in> (\<lambda>h. the (sm_resident m h)) ` H" using h by force
  qed
  moreover have "finite H" using assms(1) by (simp add: working_def)
  ultimately have "card {..<unat (sm_slot_count m)} \<le> card H"
    by (metis card_image_le card_mono finite_imageI le_trans)
  with assms(2) show False by simp
qed

lemma working_hit:
  assumes "working ix H m" "lookup ix tag = Some c" "fnv1a64 tag \<in> H" "unat (sm_tick m) + 1 < 18446744073709551616"
  shows "\<exists>s m'. fetch env tag m = (Inr \<lparr> sv_slot = int s, sv_fence_value = sm_slot_versions m ! s,
      sv_resource = Some (sm_slots m ! s), sv_is_hit = True \<rparr>, m') \<and> working ix H m' \<and>
    sm_resident m' = sm_resident m \<and> sm_resident m (fnv1a64 tag) = Some s \<and>
    sm_tick m' = sm_tick m + 1 \<and> sm_slot_count m' = sm_slot_count m \<and> sm_slots m' = sm_slots m"
proof -
  obtain s where s: "sm_resident m (fnv1a64 tag) = Some s"
    using assms(1,3) by (auto simp: working_def)
  have ix: "sm_index m = ix" using assms(1) by (simp add: working_def)
  let ?m = "m\<lparr>sm_tick := sm_tick m + 1, sm_lru_last_tick := (sm_lru_last_tick m)[s := sm_tick m + 1],
       sm_stats := (sm_stats m)\<lparr>st_fetch_hits := st_fetch_hits (sm_stats m) + 1\<rparr>\<rparr>"
  have f: "fetch env tag m = (Inr \<lparr> sv_slot = int s, sv_fence_value = sm_slot_versions m ! s,
      sv_resource = Some (sm_slots m ! s), sv_is_hit = True \<rparr>, ?m)"
    using fetch_hit [of m tag c s env] assms(2) s ix by simp
  have "unat (sm_tick m + 1) = Suc (unat (sm_tick m))" using assms(4) u64_add_unat [of "sm_tick m" 1] by simp
  then have t: "sm_tick m + 1 \<noteq> 0" by (metis nat.distinct(1) unat_0)
  have len: "length (sm_lru_last_tick m) = unat (sm_slot_count m)" "s < unat (sm_slot_count m)"
    using assms(1) s by (auto simp: working_def moe_shape_def Let_def)
  have "sm_lru_last_tick ?m ! j \<noteq> 0 \<longleftrightarrow> j = s \<or> sm_lru_last_tick m ! j \<noteq> 0" if "j < unat (sm_slot_count m)" for j
    using t len that by (simp add: nth_list_update)
  moreover have "holds ?m j c' = holds m j c'" for j c' by (simp add: holds_def)
  moreover have "moe_shape ?m" using assms(1) by (simp add: working_def moe_shape_def Let_def)
  ultimately have "working ix H ?m"
    using assms(1) s unfolding working_def by simp blast
  then show ?thesis using f s by (intro exI [of _ s] exI [of _ ?m]) simp
qed

lemma working_miss:
  assumes "working ix H m" "lookup ix tag = Some c" "fnv1a64 tag \<notin> H" "unat (sm_tick m) + 1 < 18446744073709551616"
    and "card H < unat (sm_slot_count m)" "unat (tc_byte_size c) < 4294967296"
  shows "\<exists>s m'. fetch env tag m = (Inr \<lparr> sv_slot = int s, sv_fence_value = sm_slot_versions m ! s + 1,
      sv_resource = Some (sm_slots m ! s), sv_is_hit = False \<rparr>, m') \<and> working ix (insert (fnv1a64 tag) H) m' \<and>
    sm_resident m' = (sm_resident m)(fnv1a64 tag \<mapsto> s) \<and>
    sm_tick m' = sm_tick m + 1 \<and> sm_slot_count m' = sm_slot_count m \<and> sm_slots m' = sm_slots m"
proof -
  let ?n = "unat (sm_slot_count m)" and ?h = "fnv1a64 tag"
  have w: "moe_shape m" "sm_index m = ix" "dom (sm_resident m) = H" "finite H" "inj_on (sm_resident m) H"
    "st_evictions (sm_stats m) = 0"
    "\<And>h s. sm_resident m h = Some s \<Longrightarrow> s < ?n \<and> sm_lru_last_tick m ! s \<noteq> 0 \<and> holds m s (tensor_of ix h)"
    "\<And>s. s < ?n \<Longrightarrow> sm_lru_last_tick m ! s \<noteq> 0 \<or> sm_slot_has_payload m ! s \<Longrightarrow> \<exists>h. sm_resident m h = Some s"
    using assms(1) unfolding working_def by blast+
  obtain k where k: "k < ?n" "sm_lru_last_tick m ! k = 0" using free_slot [OF assms(1,5)] by blast
  have res: "sm_resident m ?h = None" using assms(3) w(3) by blast
  have max: "sm_lru_last_tick m ! k \<noteq> UINT64_MAX" using k(2) by simp
  have look: "lookup (sm_index m) tag = Some c" using assms(2) w(2) by simp
  obtain v m' where m': "fetch env tag m = (Inr \<lparr> sv_slot = int v, sv_fence_value = sm_slot_versions m ! v + 1,
        sv_resource = Some (sm_slots m ! v), sv_is_hit = False \<rparr>, m')" "v < ?n"
      "\<forall>j < ?n. sm_lru_last_tick m ! v \<le> sm_lru_last_tick m ! j"
      "sm_lru_last_tick m' = (sm_lru_last_tick m)[v := sm_tick m + 1]"
      "sm_slot_has_payload m' = (sm_slot_has_payload m)[v := True]"
      "sm_resident m' = (sm_resident m)(?h \<mapsto> v)" "holds m' v c"
      "\<forall>j < ?n. j \<noteq> v \<longrightarrow> (\<forall>c'. holds m' j c' \<longleftrightarrow> holds m j c')"
      "moe_shape m'" "sm_index m' = sm_index m" "sm_tick m' = sm_tick m + 1"
      "sm_slot_count m' = sm_slot_count m" "sm_slots m' = sm_slots m"
      "\<not> sm_slot_has_payload m ! v \<longrightarrow> st_evictions (sm_stats m') = st_evictions (sm_stats m)"
    using fetch_miss_spec [OF w(1) look res assms(6) k(1) max, of env] by blast
  have v0: "sm_lru_last_tick m ! v = 0" using m'(3) k by (metis word_le_0_iff)
  have unused: "sm_resident m h \<noteq> Some v" for h using w(7) v0 by blast
  then have "\<not> sm_slot_has_payload m ! v" using w(8) m'(2) by blast
  then have ev: "st_evictions (sm_stats m') = 0" using m'(14) w(6) by simp
  have "unat (sm_tick m + 1) = Suc (unat (sm_tick m))" using assms(4) u64_add_unat [of "sm_tick m" 1] by simp
  then have t: "sm_tick m + 1 \<noteq> 0" by (metis nat.distinct(1) unat_0)
  have len: "length (sm_lru_last_tick m) = ?n" "length (sm_slot_has_payload m) = ?n"
    using w(1) by (auto simp: moe_shape_def Let_def)
  have c: "c = tensor_of ix ?h" by (rule lookup_tensor [OF assms(2)])
  have "s < ?n \<and> sm_lru_last_tick m' ! s \<noteq> 0 \<and> holds m' s (tensor_of ix h)" if "sm_resident m' h = Some s" for h s
  proof (cases "h = ?h")
    case True
    then show ?thesis using that m'(2,4,6,7) len(1) t c by simp
  next
    case False
    then have r: "sm_resident m h = Some s" using that m'(6) by simp
    then have "s \<noteq> v" using unused by blast
    then show ?thesis using w(7) [OF r] m'(4,8) len(1) by simp
  qed
  moreover have "\<exists>h. sm_resident m' h = Some s"
    if "s < ?n" "sm_lru_last_tick m' ! s \<noteq> 0 \<or> sm_slot_has_payload m' ! s" for s
  proof (cases "s = v")
    case True
    then show ?thesis using m'(6) by (intro exI [of _ ?h]) simp
  next
    case False
    then have "sm_lru_last_tick m ! s \<noteq> 0 \<or> sm_slot_has_payload m ! s" using that(2) m'(4,5) by simp
    then have "\<exists>h. sm_resident m h = Some s" using w(8) [OF that(1)] by blast
    then obtain h where h: "sm_resident m h = Some s" by blast
    then have "h \<noteq> ?h" using res by auto
    then show ?thesis using h m'(6) by (intro exI [of _ h]) simp
  qed
  moreover have "dom (sm_resident m') = insert ?h H" using w(3) m'(6) by auto
  moreover have "inj_on (sm_resident m') (insert ?h H)"
  proof -
    show ?thesis
      using w(3,5) unused assms(3) unfolding m'(6) inj_on_def
      by (metis fun_upd_other fun_upd_same insert_iff)
  qed
  ultimately have "working ix (insert ?h H) m'"
    using m'(9,10,12) w(2,4) ev unfolding working_def by simp
  then show ?thesis using m' by blast
qed

lemma fetch_run_working:
  assumes "working ix H m" "\<forall>(env, tag) \<in> set ts. \<exists>c. lookup ix tag = Some c \<and> unat (tc_byte_size c) < 4294967296"
    and "card (H \<union> (\<lambda>(env, tag). fnv1a64 tag) ` set ts) \<le> unat (sm_slot_count m)"
    and "unat (sm_tick m) + length ts < 18446744073709551616"
    and "fetch_run ts m = (rs, m')"
  shows "working ix (H \<union> (\<lambda>(env, tag). fnv1a64 tag) ` set ts) m' \<and> sm_resident m \<subseteq>\<^sub>m sm_resident m' \<and>
    sm_slots m' = sm_slots m \<and> length rs = length ts \<and>
    (\<forall>i < length ts. \<exists>s f. sm_resident m' (fnv1a64 (snd (ts ! i))) = Some s \<and>
      rs ! i = Inr \<lparr> sv_slot = int s, sv_fence_value = f, sv_resource = Some (sm_slots m' ! s),
        sv_is_hit = (fnv1a64 (snd (ts ! i)) \<in> H \<union> (\<lambda>(env, tag). fnv1a64 tag) ` set (take i ts)) \<rparr>)"
  using assms
proof (induction ts arbitrary: H m rs)
  case (Cons t ts)
  obtain env tag where t: "t = (env, tag)" by fastforce
  let ?h = "fnv1a64 tag" and ?S = "(\<lambda>(env :: fetch_env, tag). fnv1a64 tag) ` set ts"
  obtain c where c: "lookup ix tag = Some c" "unat (tc_byte_size c) < 4294967296"
    using Cons.prems(2) t by auto
  have fin: "finite H" using Cons.prems(1) by (simp add: working_def)
  have tick: "unat (sm_tick m) + 1 < 18446744073709551616" using Cons.prems(4) by simp
  obtain s f m1 where m1: "fetch env tag m = (Inr \<lparr> sv_slot = int s, sv_fence_value = f,
        sv_resource = Some (sm_slots m ! s), sv_is_hit = (?h \<in> H) \<rparr>, m1)" "working ix (insert ?h H) m1"
      "sm_resident m \<subseteq>\<^sub>m sm_resident m1" "sm_resident m1 ?h = Some s" "sm_tick m1 = sm_tick m + 1"
      "sm_slot_count m1 = sm_slot_count m" "sm_slots m1 = sm_slots m"
  proof (cases "?h \<in> H")
    case True
    then have "insert ?h H = H" by blast
    then show thesis
      using working_hit [OF Cons.prems(1) c(1) True tick, of env] True by (auto intro: that)
  next
    case False
    have "Suc (card H) \<le> card (H \<union> (\<lambda>(env, tag). fnv1a64 tag) ` set (t # ts))"
    proof -
      have "Suc (card H) = card (insert ?h H)" using False fin by simp
      also have "\<dots> \<le> card (H \<union> (\<lambda>(env, tag). fnv1a64 tag) ` set (t # ts))"
        using fin by (intro card_mono) (auto simp: t)
      finally show ?thesis .
    qed
    then have card: "card H < unat (sm_slot_count m)" using Cons.prems(3) by simp
    have "sm_resident m ?h = None" using Cons.prems(1) False by (auto simp: working_def)
    then have "sm_resident m \<subseteq>\<^sub>m (sm_resident m)(?h \<mapsto> s)" for s by (auto simp: map_le_def)
    then show thesis
      using working_miss [OF Cons.prems(1) c(1) False tick card c(2), of env] False
      by (auto intro: that)
  qed
  obtain rs' where rs: "fetch_run ts m1 = (rs', m')" "rs = Inr \<lparr> sv_slot = int s, sv_fence_value = f,
        sv_resource = Some (sm_slots m ! s), sv_is_hit = (?h \<in> H) \<rparr> # rs'"
    using Cons.prems(5) by (auto simp: t m1(1) Let_def split: prod.splits)
  have set: "insert ?h H \<union> ?S = H \<union> (\<lambda>(env, tag). fnv1a64 tag) ` set (t # ts)" by (simp add: t)
  have tick1: "unat (sm_tick m1) + length ts < 18446744073709551616"
    using Cons.prems(4) tick u64_add_unat [of "sm_tick m" 1] by (simp add: m1(5))
  have "\<forall>(env, tag) \<in> set ts. \<exists>c. lookup ix tag = Some c \<and> unat (tc_byte_size c) < 4294967296"
    using Cons.prems(2) by simp
  note ih = Cons.IH [OF m1(2) this _ tick1 rs(1), unfolded set m1(6,7), OF Cons.prems(3)]
  have first: "sm_resident m' ?h = Some s" using ih m1(4) unfolding map_le_def by (metis domI)
  have "\<exists>s' f'. sm_resident m' (fnv1a64 (snd ((t # ts) ! i))) = Some s' \<and>
      rs ! i = Inr \<lparr> sv_slot = int s', sv_fence_value = f', sv_resource = Some (sm_slots m' ! s'),
        sv_is_hit = (fnv1a64 (snd ((t # ts) ! i)) \<in> H \<union> (\<lambda>(env, tag). fnv1a64 tag) ` set (take i (t # ts))) \<rparr>"
    if "i < length (t # ts)" for i
  proof (cases i)
    case 0
    then show ?thesis using first ih by (simp add: t rs(2))
  next
    case (Suc j)
    then have "j < length ts" using that by simp
    then show ?thesis using ih by (auto simp: Suc t rs(2))
  qed
  then show ?case
    using ih m1(3) map_le_trans by (auto simp: rs(2))
qed simp

text \<open>
  C8. While the tensors asked for fit the ring, the cache is right: after any sequence of fetches
  on a new cache with different buffers, for tensors of the index no more in number (by hash) than
  the slots, every fetch has returned the slot that now holds exactly its tensor, with that slot's
  buffer; a fetch was a hit if and only if its tensor had been asked for before; nothing was evicted.
\<close>

theorem fetch_working_set:
  assumes "new_StreamingMoE env0 ds path ix n sz slots fences = (True, m)"
    and "length slots = unat n" "distinct slots" "length fences = unat n"
    and "\<forall>(env, tag) \<in> set ts. \<exists>c. lookup ix tag = Some c \<and> unat (tc_byte_size c) < 4294967296"
    and "card ((\<lambda>(env, tag). fnv1a64 tag) ` set ts) \<le> unat n" "length ts < 18446744073709551616"
    and "fetch_run ts m = (rs, m')"
  shows "length rs = length ts \<and> st_evictions (sm_stats m') = 0 \<and>
    (\<forall>i < length ts. \<exists>s f c. s < unat n \<and> lookup ix (snd (ts ! i)) = Some c \<and> holds m' s c \<and>
      rs ! i = Inr \<lparr> sv_slot = int s, sv_fence_value = f, sv_resource = Some (slots ! s),
        sv_is_hit = (fnv1a64 (snd (ts ! i)) \<in> (\<lambda>(env, tag). fnv1a64 tag) ` set (take i ts)) \<rparr>)"
proof -
  have sel: "sm_index m = ix" "sm_slot_count m = n" "sm_resident m = Map.empty"
    "sm_lru_last_tick m = replicate (unat n) 0" "sm_slot_has_payload m = replicate (unat n) False"
    "sm_slots m = slots" "sm_tick m = 0" "st_evictions (sm_stats m) = 0"
    using assms(1) by (auto simp: new_StreamingMoE_def split: prod.splits)
  have w0: "working ix {} m"
    using moe_shape_new [OF assms(1-4)] sel by (simp add: working_def)
  have run: "working ix ((\<lambda>(env, tag). fnv1a64 tag) ` set ts) m'" "sm_slots m' = slots" "length rs = length ts"
    "\<forall>i < length ts. \<exists>s f. sm_resident m' (fnv1a64 (snd (ts ! i))) = Some s \<and>
      rs ! i = Inr \<lparr> sv_slot = int s, sv_fence_value = f, sv_resource = Some (sm_slots m' ! s),
        sv_is_hit = (fnv1a64 (snd (ts ! i)) \<in> (\<lambda>(env, tag). fnv1a64 tag) ` set (take i ts)) \<rparr>"
    using fetch_run_working [OF w0 assms(5) _ _ assms(8)] assms(6,7) sel by auto
  have len: "unat (sm_slot_count m') = unat n"
    using run(1,2) assms(2) by (simp add: working_def moe_shape_def Let_def)
  have "\<exists>s f c. s < unat n \<and> lookup ix (snd (ts ! i)) = Some c \<and> holds m' s c \<and>
      rs ! i = Inr \<lparr> sv_slot = int s, sv_fence_value = f, sv_resource = Some (slots ! s),
        sv_is_hit = (fnv1a64 (snd (ts ! i)) \<in> (\<lambda>(env, tag). fnv1a64 tag) ` set (take i ts)) \<rparr>"
    if "i < length ts" for i
  proof -
    obtain s f where s: "sm_resident m' (fnv1a64 (snd (ts ! i))) = Some s"
        "rs ! i = Inr \<lparr> sv_slot = int s, sv_fence_value = f, sv_resource = Some (slots ! s),
          sv_is_hit = (fnv1a64 (snd (ts ! i)) \<in> (\<lambda>(env, tag). fnv1a64 tag) ` set (take i ts)) \<rparr>"
      using run(2,4) \<open>i < length ts\<close> by force
    obtain c where c: "lookup ix (snd (ts ! i)) = Some c"
      using assms(5) \<open>i < length ts\<close> nth_mem [of i ts] by fastforce
    have "s < unat n \<and> holds m' s (tensor_of ix (fnv1a64 (snd (ts ! i))))"
      using run(1) s(1) len unfolding working_def by auto
    then show ?thesis using s(2) c lookup_tensor [OF c] by blast
  qed
  then show ?thesis using run(1,3) by (auto simp: working_def)
qed

theorem fetch_working_set_witness:
  "\<exists>s f. fst (fetch_run [(example_fetch_env, ''a''), (example_fetch_env, ''b''), (example_fetch_env, ''a'')]
      (example_moe 2)) ! 2 = Inr \<lparr> sv_slot = int s, sv_fence_value = f,
        sv_resource = Some (map (\<lambda>i. 100 + i) [0..<unat (2 :: u32)] ! s), sv_is_hit = True \<rparr>"
proof -
  let ?ts = "[(example_fetch_env, ''a''), (example_fetch_env, ''b''), (example_fetch_env, ''a'')]"
  have small: "unat (tc_byte_size (snd (example_entries ! 0))) < 4294967296"
    "unat (tc_byte_size (snd (example_entries ! 1))) < 4294967296"
    by (simp_all add: example_entries_def)
  have known: "\<forall>(env, tag) \<in> set ?ts. \<exists>c. lookup example_index tag = Some c \<and> unat (tc_byte_size c) < 4294967296"
    using small by (simp add: example_lookup)
  have card: "card ((\<lambda>(env, tag). fnv1a64 tag) ` set ?ts) \<le> unat (2 :: u32)"
    by (simp add: example_hashes insert_commute card_insert_if)
  obtain rs m' where run: "fetch_run ?ts (example_moe 2) = (rs, m')" by fastforce
  have two: "2 < length ?ts" by simp
  have slots: "length (map (\<lambda>i. 100 + i) [0..<unat (2 :: u32)]) = unat (2 :: u32)"
    "distinct (map (\<lambda>i. 100 + i) [0..<unat (2 :: u32)])"
    "length (map (\<lambda>i. 200 + i) [0..<unat (2 :: u32)]) = unat (2 :: u32)" "length ?ts < 18446744073709551616"
    by (simp_all add: distinct_map)
  obtain s f where "rs ! 2 = Inr \<lparr> sv_slot = int s, sv_fence_value = f,
        sv_resource = Some (map (\<lambda>i. 100 + i) [0..<unat (2 :: u32)] ! s),
        sv_is_hit = (fnv1a64 (snd (?ts ! 2)) \<in> (\<lambda>(env, tag). fnv1a64 tag) ` set (take 2 ?ts)) \<rparr>"
    using fetch_working_set [OF example_moe_new slots(1-3) known card slots(4) run] two by blast
  moreover have "fnv1a64 (snd (?ts ! 2)) \<in> (\<lambda>(env, tag). fnv1a64 tag) ` set (take 2 ?ts)"
    by (simp add: example_hashes)
  ultimately show ?thesis by (intro exI [of _ s] exI [of _ f]) (simp only: run fst_conv simp_thms)
qed

end
