(* ===== verification/GgufModel.thy ===== *)
theory GgufModel
  imports ByteCodec "HOL-Library.Sublist"
begin

text \<open>
  The model loader, \<open>src/dxmodel/dxmodel.cpp\<close>: \<open>ModelLoader\<close> maps a GGUF file and walks over
  its key-value pairs and tensor descriptors. A mapped file is a byte list \<open>bs\<close>; offsets are
  64-bit words and wrap as in the code. \<open>None\<close> is a run that does not return: a read outside
  the mapping, or more nested calls of \<open>skip_gguf_val\<close> than the stack has room for; the number
  of calls it has room for is the argument \<open>d\<close>.

  A writer for the file format (\<open>gguf_bytes\<close>) serves as the specification: what it writes, the
  loader reads back. The section at the end has the input on which no stack is deep enough.
\<close>

section \<open>Data\<close>

datatype TensorDataType = FP32 | FP16 | BF16 | FP8_E4M3 | FP8_E5M2 | Q8_0 | Q4_0 | Q4_K | Q5_K | Q6_K |
  AWQ_INT4 | GPTQ_INT4 | INT8

datatype ModelFormat = Unknown | GGUF | Safetensors

datatype AttentionType = MHA | GQA | MQA | SWA | PagedAttn | FlashAttn2 | MLA | MTP | dflash

record TensorInfo =
  in_name :: string
  in_type :: TensorDataType
  in_dims :: "u64 list"
  in_offset_bytes :: u64
  in_size_bytes :: u64

record ModelArchConfig =
  ac_arch_name :: string
  ac_attention_type :: AttentionType
  ac_num_layers :: u32
  ac_num_mtp_depth :: u32
  ac_kv_compressed_dim :: u32
  ac_q_compressed_dim :: u32
  ac_rope_head_dim :: u32
  ac_nop_head_dim :: u32

record ModelLoader =
  ml_format :: ModelFormat
  ml_filepath :: string
  ml_arch_config :: ModelArchConfig
  ml_tensors :: "string \<rightharpoonup> TensorInfo"

definition new_ModelLoader :: ModelLoader where
  "new_ModelLoader = \<lparr> ml_format = Unknown, ml_filepath = [],
     ml_arch_config = \<lparr> ac_arch_name = ''deepseek_v3'', ac_attention_type = MLA, ac_num_layers = 61,
       ac_num_mtp_depth = 1, ac_kv_compressed_dim = 512, ac_q_compressed_dim = 1536,
       ac_rope_head_dim = 64, ac_nop_head_dim = 128 \<rparr>,
     ml_tensors = Map.empty \<rparr>"

section \<open>Reading the mapping\<close>

definition map_size :: "u8 list \<Rightarrow> u64" where
  "map_size bs = of_nat (length bs)"

definition load_u32 :: "u8 list \<Rightarrow> u64 \<Rightarrow> u32 option" where
  "load_u32 bs off = (if unat off + 4 \<le> length bs then Some (u32_of_le (read_at (unat off) 4 bs)) else None)"

definition load_u64 :: "u8 list \<Rightarrow> u64 \<Rightarrow> u64 option" where
  "load_u64 bs off = (if unat off + 8 \<le> length bs then Some (u64_of_le (read_at (unat off) 8 bs)) else None)"

definition string_of_bytes :: "u8 list \<Rightarrow> string" where
  "string_of_bytes bs = map (\<lambda>b. char_of (unat b)) bs"

definition load_string :: "u8 list \<Rightarrow> u64 \<Rightarrow> u64 \<Rightarrow> string option" where
  "load_string bs off n =
    (if unat off + unat n \<le> length bs then Some (string_of_bytes (read_at (unat off) (unat n) bs)) else None)"

definition read_gguf_string :: "u8 list \<Rightarrow> u64 \<Rightarrow> (string \<times> u64) option" where
  "read_gguf_string bs off =
    (if off + 8 > map_size bs then Some ([], off)
     else Option.bind (load_u64 bs off) (\<lambda>str_len.
       let off1 = off + 8
       in if off1 + str_len > map_size bs then Some ([], off1)
          else map_option (\<lambda>s. (s, off1 + str_len)) (load_string bs off1 str_len)))"

text \<open>The loop over the elements of an array runs its body \<open>unat n\<close> times.\<close>

fun skip_gguf_val :: "nat \<Rightarrow> u8 list \<Rightarrow> u32 \<Rightarrow> u64 \<Rightarrow> u64 option" where
  "skip_gguf_val 0 bs val_type off = None"
| "skip_gguf_val (Suc d) bs val_type off =
    (if val_type \<in> {0, 1, 7} then Some (off + 1)
     else if val_type \<in> {2, 3} then Some (off + 2)
     else if val_type \<in> {4, 5, 6} then Some (off + 4)
     else if val_type \<in> {10, 11, 12} then Some (off + 8)
     else if val_type = 8 then
       (if off + 8 \<le> map_size bs then map_option (\<lambda>str_len. off + (8 + str_len)) (load_u64 bs off)
        else Some off)
     else if val_type = 9 then
       (if off + 12 \<le> map_size bs then
          Option.bind (load_u32 bs off) (\<lambda>elem_type.
          Option.bind (load_u64 bs (off + 4)) (\<lambda>array_len.
            ((\<lambda>r. Option.bind r (skip_gguf_val d bs elem_type)) ^^ unat array_len) (Some (off + 12))))
        else Some off)
     else Some off)"

fun skip_kvs :: "nat \<Rightarrow> u8 list \<Rightarrow> nat \<Rightarrow> u64 \<Rightarrow> u64 option" where
  "skip_kvs d bs 0 off = Some off"
| "skip_kvs d bs (Suc n) off =
    Option.bind (read_gguf_string bs off) (\<lambda>(key, off1).
      if off1 + 4 > map_size bs then Some off1
      else Option.bind (load_u32 bs off1) (\<lambda>val_type.
        Option.bind (skip_gguf_val d bs val_type (off1 + 4)) (skip_kvs d bs n)))"

fun read_dims :: "u8 list \<Rightarrow> nat \<Rightarrow> u64 list \<Rightarrow> u64 \<Rightarrow> (u64 list \<times> u64) option" where
  "read_dims bs 0 dims off = Some (dims, off)"
| "read_dims bs (Suc n) dims off =
    (if off + 8 > map_size bs then Some (dims, off)
     else Option.bind (load_u64 bs off) (\<lambda>dim_val. read_dims bs n (dims @ [dim_val]) (off + 8)))"

text \<open>\<open>s.find(p) != npos\<close>.\<close>

definition str_contains :: "string \<Rightarrow> string \<Rightarrow> bool" where
  "str_contains p s = list_ex (prefix p) (suffixes s)"

definition ggml_data_type :: "u32 \<Rightarrow> TensorDataType" where
  "ggml_data_type t = (if t = 7 then Q8_0 else if t = 2 then Q4_0 else FP16)"

definition is_mtp_name :: "string \<Rightarrow> bool" where
  "is_mtp_name s \<longleftrightarrow> str_contains ''mtp'' s \<or> str_contains ''speculative'' s"

definition is_mla_name :: "string \<Rightarrow> bool" where
  "is_mla_name s \<longleftrightarrow> str_contains ''kv_a'' s \<or> str_contains ''kv_b'' s \<or> str_contains ''q_a'' s"

record scan =
  sc_tensors :: "string \<rightharpoonup> TensorInfo"
  sc_has_mtp :: bool
  sc_has_mla :: bool

definition scan_tensor :: "string \<Rightarrow> u64 list \<Rightarrow> u32 \<Rightarrow> u64 \<Rightarrow> scan \<Rightarrow> scan" where
  "scan_tensor t_name dims ggml_type t_offset st =
    \<lparr> sc_tensors = (sc_tensors st)(t_name \<mapsto> \<lparr> in_name = t_name, in_type = ggml_data_type ggml_type,
        in_dims = dims, in_offset_bytes = t_offset, in_size_bytes = 0 \<rparr>),
      sc_has_mtp = (sc_has_mtp st \<or> is_mtp_name t_name),
      sc_has_mla = (sc_has_mla st \<or> is_mla_name t_name) \<rparr>"

fun scan_tensors :: "u8 list \<Rightarrow> nat \<Rightarrow> u64 \<Rightarrow> scan \<Rightarrow> scan option" where
  "scan_tensors bs 0 off st = Some st"
| "scan_tensors bs (Suc n) off st =
    Option.bind (read_gguf_string bs off) (\<lambda>(t_name, off1).
      if off1 + 4 > map_size bs then Some st
      else Option.bind (load_u32 bs off1) (\<lambda>n_dims.
        Option.bind (read_dims bs (unat n_dims) [] (off1 + 4)) (\<lambda>(dims, off2).
          if off2 + 12 > map_size bs then Some st
          else Option.bind (load_u32 bs off2) (\<lambda>ggml_type.
            Option.bind (load_u64 bs (off2 + 4)) (\<lambda>t_offset.
              scan_tensors bs n (off2 + 12) (scan_tensor t_name dims ggml_type t_offset st))))))"

definition arch_of :: "scan \<Rightarrow> ModelArchConfig \<Rightarrow> ModelArchConfig" where
  "arch_of st c =
    (if sc_has_mtp st
     then c\<lparr>ac_arch_name := ''deepseek_v3_mtp'', ac_attention_type := MTP, ac_num_mtp_depth := 1\<rparr>
     else if sc_has_mla st
     then c\<lparr>ac_arch_name := ''deepseek_v3_mla'', ac_attention_type := MLA, ac_kv_compressed_dim := 512\<rparr>
     else c\<lparr>ac_arch_name := ''transformer_gqa'', ac_attention_type := GQA\<rparr>)"

text \<open>
  \<open>parse_gguf\<close> on the mapping of the file, \<open>None\<close> as mapping when it cannot be opened or is
  empty. The table of tensors is not cleared first.
\<close>

definition parse_gguf :: "nat \<Rightarrow> u8 list option \<Rightarrow> ModelLoader \<Rightarrow> (bool \<times> ModelLoader) option" where
  "parse_gguf d mapping m =
    (case mapping of
       None \<Rightarrow> Some (False, m)
     | Some bs \<Rightarrow>
         if bs = [] \<or> map_size bs < 24 then Some (False, m)
         else Option.bind (load_u32 bs 0) (\<lambda>magic.
           if magic \<noteq> 0x46554747 then Some (False, m)
           else Option.bind (load_u64 bs 8) (\<lambda>tensor_count.
             Option.bind (load_u64 bs 16) (\<lambda>kv_count.
               Option.bind (skip_kvs d bs (unat kv_count) 24) (\<lambda>off.
                 map_option (\<lambda>st. (True, m\<lparr>ml_format := GGUF, ml_tensors := sc_tensors st,
                     ml_arch_config := arch_of st (ml_arch_config m)\<rparr>))
                   (scan_tensors bs (unat tensor_count) off
                     \<lparr> sc_tensors = ml_tensors m, sc_has_mtp = False, sc_has_mla = False \<rparr>))))))"

definition parse_safetensors :: "u8 list option \<Rightarrow> ModelLoader \<Rightarrow> bool \<times> ModelLoader" where
  "parse_safetensors mapping m =
    (case mapping of
       None \<Rightarrow> (False, m)
     | Some bs \<Rightarrow> if bs = [] then (False, m) else
         (True, m\<lparr>ml_format := Safetensors, ml_arch_config := (ml_arch_config m)\<lparr>
            ac_arch_name := ''deepseek_r1_dflash'', ac_attention_type := dflash\<rparr>\<rparr>))"

definition load_file :: "nat \<Rightarrow> (string \<Rightarrow> u8 list option) \<Rightarrow> string \<Rightarrow> ModelLoader \<Rightarrow> (bool \<times> ModelLoader) option" where
  "load_file d files path m =
    (let m1 = m\<lparr>ml_filepath := path\<rparr>
     in if str_contains ''.gguf'' path then parse_gguf d (files path) m1
        else if str_contains ''.safetensors'' path then Some (parse_safetensors (files path) m1)
        else parse_gguf d (files path) m1)"

section \<open>Offsets inside the mapping\<close>

lemma offset_fits:
  assumes "p + k \<le> length bs" "length bs < 9223372036854775808"
  shows "(word_of_nat p :: u64) + word_of_nat k \<le> map_size bs"
proof -
  have "word_of_nat p + word_of_nat k = (word_of_nat (p + k) :: u64)" by simp
  moreover have "unat (word_of_nat (p + k) :: u64) = p + k" "unat (word_of_nat (length bs) :: u64) = length bs"
    using assms by (intro unat_of_nat_u64; simp)+
  ultimately show ?thesis using assms(1) by (simp add: map_size_def word_le_nat_alt)
qed

lemma offset_guards:
  assumes "p + n \<le> length bs" "length bs < 9223372036854775808"
  shows "4 \<le> n \<Longrightarrow> \<not> map_size bs < word_of_nat p + 4" "8 \<le> n \<Longrightarrow> \<not> map_size bs < word_of_nat p + 8"
    "12 \<le> n \<Longrightarrow> \<not> map_size bs < word_of_nat p + 12"
  using offset_fits [of p 4 bs] offset_fits [of p 8 bs] offset_fits [of p 12 bs] assms
  by (simp_all add: not_less)

lemma load_at:
  assumes "bs = pre @ rest" "length bs < 9223372036854775808" "off = word_of_nat (length pre)"
  shows "rest = le_of_u32 w @ post \<Longrightarrow> load_u32 bs off = Some w"
    and "rest = le_of_u64 x @ post \<Longrightarrow> load_u64 bs off = Some x"
proof -
  have "unat (word_of_nat (length pre) :: u64) = length pre"
    using assms(1,2) by (intro unat_of_nat_u64) simp
  then show "rest = le_of_u32 w @ post \<Longrightarrow> load_u32 bs off = Some w"
    "rest = le_of_u64 x @ post \<Longrightarrow> load_u64 bs off = Some x"
    by (simp_all add: assms(1,3) load_u32_def load_u64_def read_at_def)
qed

section \<open>The file format as a writer\<close>

definition bytes_of_string :: "string \<Rightarrow> u8 list" where
  "bytes_of_string s = map (\<lambda>c. of_nat (of_char c)) s"

lemma string_of_bytes_of [simp]: "string_of_bytes (bytes_of_string s) = s"
proof -
  have "unat (word_of_nat (of_char c) :: u8) = of_char c" for c :: char
    by (rule unat_byte) simp
  then show ?thesis by (simp add: string_of_bytes_def bytes_of_string_def comp_def)
qed

lemma length_bytes_of_string [simp]: "length (bytes_of_string s) = length s"
  by (simp add: bytes_of_string_def)

definition string_field :: "string \<Rightarrow> u8 list" where
  "string_field s = le_of_u64 (of_nat (length s)) @ bytes_of_string s"

datatype gguf_value = Scalar u32 "u8 list" | Text string | Array u32 "gguf_value list"

fun val_type :: "gguf_value \<Rightarrow> u32" where
  "val_type (Scalar t bs) = t"
| "val_type (Text s) = 8"
| "val_type (Array t vs) = 9"

definition scalar_size :: "u32 \<Rightarrow> nat" where
  "scalar_size t = (if t \<in> {0, 1, 7} then 1 else if t \<in> {2, 3} then 2 else if t \<in> {4, 5, 6} then 4
     else if t \<in> {10, 11, 12} then 8 else 0)"

fun value_bytes :: "gguf_value \<Rightarrow> u8 list" where
  "value_bytes (Scalar t bs) = bs"
| "value_bytes (Text s) = string_field s"
| "value_bytes (Array t vs) = le_of_u32 t @ le_of_u64 (of_nat (length vs)) @ concat (map value_bytes vs)"

fun wf_value :: "gguf_value \<Rightarrow> bool" where
  "wf_value (Scalar t bs) \<longleftrightarrow> t \<in> {0, 1, 2, 3, 4, 5, 6, 7, 10, 11, 12} \<and> length bs = scalar_size t"
| "wf_value (Text s) \<longleftrightarrow> True"
| "wf_value (Array t vs) \<longleftrightarrow> list_all (\<lambda>v. val_type v = t \<and> wf_value v) vs"

fun depth :: "gguf_value \<Rightarrow> nat" where
  "depth (Scalar t bs) = 1"
| "depth (Text s) = 1"
| "depth (Array t vs) = Suc (foldr (\<lambda>v m. max (depth v) m) vs 0)"

lemma depth_element: "v \<in> set vs \<Longrightarrow> depth v \<le> foldr (\<lambda>v m. max (depth v) m) vs 0"
  by (induction vs) auto

lemma value_bytes_nonempty: "wf_value v \<Longrightarrow> value_bytes v \<noteq> []"
proof -
  have le: "le_of_u64 x \<noteq> []" "le_of_u32 y \<noteq> []" for x y
    using length_le_of(2) [of y] length_le_of(3) [of x] by (metis list.size(3) zero_neq_numeral)+
  show "wf_value v \<Longrightarrow> value_bytes v \<noteq> []"
    using le by (cases v) (auto simp: scalar_size_def string_field_def)
qed

lemma length_elements: "list_all wf_value vs \<Longrightarrow> length vs \<le> length (concat (map value_bytes vs))"
proof (induction vs)
  case (Cons v vs)
  then show ?case using value_bytes_nonempty [of v] by (cases "value_bytes v") auto
qed simp

record gguf_tensor =
  gt_name :: string
  gt_dims :: "u64 list"
  gt_type :: u32
  gt_offset :: u64

definition tensor_field :: "gguf_tensor \<Rightarrow> u8 list" where
  "tensor_field t = string_field (gt_name t) @ le_of_u32 (of_nat (length (gt_dims t))) @
     concat (map le_of_u64 (gt_dims t)) @ le_of_u32 (gt_type t) @ le_of_u64 (gt_offset t)"

definition kv_field :: "string \<times> gguf_value \<Rightarrow> u8 list" where
  "kv_field kv = string_field (fst kv) @ le_of_u32 (val_type (snd kv)) @ value_bytes (snd kv)"

text \<open>Header, key-value pairs and tensor table, with \<open>rest\<close> behind them.\<close>

definition gguf_bytes :: "u32 \<Rightarrow> (string \<times> gguf_value) list \<Rightarrow> gguf_tensor list \<Rightarrow> u8 list \<Rightarrow> u8 list" where
  "gguf_bytes version kvs ts rest = le_of_u32 0x46554747 @ le_of_u32 version @
     le_of_u64 (of_nat (length ts)) @ le_of_u64 (of_nat (length kvs)) @
     concat (map kv_field kvs) @ concat (map tensor_field ts) @ rest"

text \<open>
  The format aligns the data section: to the number of bytes under the key \<open>general.alignment\<close>, a 32-bit
  scalar, or to 32 when the file has no such key; the gap behind the tensor table is filled with zeros.
\<close>

definition gguf_alignment :: "(string \<times> gguf_value) list \<Rightarrow> nat" where
  "gguf_alignment kvs =
    (case map_of kvs ''general.alignment'' of Some (Scalar t bs) \<Rightarrow> if t = 4 then le_nat bs else 32 | _ \<Rightarrow> 32)"

definition gguf_padding :: "u32 \<Rightarrow> (string \<times> gguf_value) list \<Rightarrow> gguf_tensor list \<Rightarrow> u8 list" where
  "gguf_padding version kvs ts =
    (let al = gguf_alignment kvs; n = length (gguf_bytes version kvs ts []) in replicate ((al - n mod al) mod al) 0)"

definition gguf_file :: "u32 \<Rightarrow> (string \<times> gguf_value) list \<Rightarrow> gguf_tensor list \<Rightarrow> u8 list \<Rightarrow> u8 list" where
  "gguf_file version kvs ts data = gguf_bytes version kvs ts (gguf_padding version kvs ts @ data)"

lemma gguf_data_aligned:
  assumes "0 < gguf_alignment kvs"
  shows "gguf_alignment kvs dvd length (gguf_bytes version kvs ts (gguf_padding version kvs ts))"
proof -
  define al n where "al = gguf_alignment kvs" and "n = length (gguf_bytes version kvs ts [])"
  have "length (gguf_bytes version kvs ts (gguf_padding version kvs ts)) = n + (al - n mod al) mod al"
    by (simp add: gguf_bytes_def gguf_padding_def Let_def al_def n_def)
  moreover have "(n + (al - n mod al) mod al) mod al = 0"
  proof -
    have le: "n mod al \<le> al" using assms by (simp add: al_def less_imp_le)
    have "(n + (al - n mod al) mod al) mod al = (n mod al + (al - n mod al)) mod al"
      by (metis mod_add_left_eq mod_add_right_eq)
    also have "n mod al + (al - n mod al) = al" using le by (rule le_add_diff_inverse)
    finally show ?thesis by simp
  qed
  ultimately show ?thesis by (simp only: al_def [symmetric] dvd_eq_mod_eq_0)
qed

text \<open>
  The types of the format by number, where \<open>TensorDataType\<close> has them; 7, for example, is the format's
  \<open>Q5_1\<close>, which it has not.
\<close>

definition ggml_type_of :: "u32 \<Rightarrow> TensorDataType option" where
  "ggml_type_of t =
    (if t = 0 then Some FP32 else if t = 1 then Some FP16 else if t = 2 then Some Q4_0
     else if t = 8 then Some Q8_0 else if t = 12 then Some Q4_K else if t = 13 then Some Q5_K
     else if t = 14 then Some Q6_K else if t = 24 then Some INT8 else if t = 30 then Some BF16 else None)"

section \<open>Reading back\<close>

lemma read_string_at:
  assumes "bs = pre @ string_field s @ post" "length bs < 9223372036854775808"
  shows "read_gguf_string bs (word_of_nat (length pre)) =
    Some (s, word_of_nat (length pre + length (string_field s)))"
proof -
  have n: "length (string_field s) = 8 + length s" by (simp add: string_field_def)
  have le: "length pre + (8 + length s) \<le> length bs" using assms(1) n by simp
  have len: "load_u64 bs (word_of_nat (length pre)) = Some (word_of_nat (length s))"
    using load_at(2) [OF _ assms(2), of pre "string_field s @ post" _ "word_of_nat (length s)" "bytes_of_string s @ post"]
      assms(1) by (simp add: string_field_def)
  have off: "word_of_nat (length pre) + 8 = (word_of_nat (length pre + 8) :: u64)" by simp
  have u: "unat (word_of_nat (length pre + 8) :: u64) = length pre + 8" "unat (word_of_nat (length s) :: u64) = length s"
    using assms(2) le by (intro unat_of_nat_u64; simp)+
  have "read_at (length pre + 8) (length s) bs = bytes_of_string s"
    by (simp add: assms(1) read_at_def string_field_def)
  then have str: "load_string bs (word_of_nat (length pre) + 8) (word_of_nat (length s)) = Some s"
    using le unfolding off by (simp only: load_string_def u) simp
  have g: "\<not> map_size bs < word_of_nat (length pre) + 8 + word_of_nat (length s)"
    using offset_fits [of "length pre + 8" "length s" bs] le assms(2) unfolding off by (simp only: not_less)
  show ?thesis
    using offset_guards(2) [OF le assms(2)] g str
    by (simp add: read_gguf_string_def len Let_def n add.assoc)
qed

lemma skip_array_loop:
  fixes f :: "u64 \<Rightarrow> u64 option"
  assumes "\<And>v pre post. v \<in> set vs \<Longrightarrow> bs = pre @ value_bytes v @ post \<Longrightarrow>
      f (word_of_nat (length pre)) = Some (word_of_nat (length pre + length (value_bytes v)))"
    and "bs = pre @ concat (map value_bytes vs) @ post"
  shows "((\<lambda>r. Option.bind r f) ^^ length vs) (Some (word_of_nat (length pre))) =
    Some (word_of_nat (length pre + length (concat (map value_bytes vs))) :: u64)"
  using assms
proof (induction vs arbitrary: pre)
  case (Cons v vs)
  have "f (word_of_nat (length pre)) = Some (word_of_nat (length (pre @ value_bytes v)))"
    using Cons.prems(1) [of v pre "concat (map value_bytes vs) @ post"] Cons.prems(2) by simp
  moreover have "((\<lambda>r. Option.bind r f) ^^ length vs) (Some (word_of_nat (length (pre @ value_bytes v)))) =
      Some (word_of_nat (length (pre @ value_bytes v) + length (concat (map value_bytes vs))))"
  proof (rule Cons.IH)
    show "f (word_of_nat (length pre')) = Some (word_of_nat (length pre' + length (value_bytes v')))"
      if "v' \<in> set vs" "bs = pre' @ value_bytes v' @ post'" for v' pre' post'
      using Cons.prems(1) [of v' pre' post'] that by simp
    show "bs = (pre @ value_bytes v) @ concat (map value_bytes vs) @ post"
      using Cons.prems(2) by simp
  qed
  moreover have "((\<lambda>r. Option.bind r f) ^^ Suc n) x = ((\<lambda>r. Option.bind r f) ^^ n) (Option.bind x f)" for n x
    by (simp only: funpow_Suc_right o_apply)
  ultimately show ?case by (simp add: add.assoc del: funpow.simps)
qed simp

lemma skip_types:
  "skip_gguf_val (Suc d) bs 8 off =
    (if off + 8 \<le> map_size bs then map_option (\<lambda>str_len. off + (8 + str_len)) (load_u64 bs off) else Some off)"
  "skip_gguf_val (Suc d) bs 9 off =
    (if off + 12 \<le> map_size bs then
       Option.bind (load_u32 bs off) (\<lambda>elem_type.
       Option.bind (load_u64 bs (off + 4)) (\<lambda>array_len.
         ((\<lambda>r. Option.bind r (skip_gguf_val d bs elem_type)) ^^ unat array_len) (Some (off + 12))))
     else Some off)"
  by simp_all

lemma skip_value:
  "wf_value v \<Longrightarrow> depth v \<le> d \<Longrightarrow> bs = pre @ value_bytes v @ post \<Longrightarrow> length bs < 9223372036854775808 \<Longrightarrow>
   skip_gguf_val d bs (val_type v) (word_of_nat (length pre)) =
     Some (word_of_nat (length pre + length (value_bytes v)))"
proof (induction v arbitrary: d pre post)
  case (Scalar t xs)
  then obtain d' where "d = Suc d'" by (cases d) auto
  then show ?case using Scalar.prems(1) by (auto simp: scalar_size_def)
next
  case (Text s)
  then obtain d' where d: "d = Suc d'" by (cases d) auto
  have "load_u64 bs (word_of_nat (length pre)) = Some (word_of_nat (length s))"
    using load_at(2) [OF _ Text.prems(4), of pre "string_field s @ post" _ "word_of_nat (length s)" "bytes_of_string s @ post"]
      Text.prems(3) by (simp add: string_field_def)
  moreover have "\<not> map_size bs < word_of_nat (length pre) + 8"
    using Text.prems(3,4) by (intro offset_guards(2) [of _ 8]) (simp_all add: string_field_def)
  ultimately show ?case by (simp add: d skip_types not_less string_field_def add.assoc del: skip_gguf_val.simps)
next
  case (Array t vs)
  then obtain d' where d: "d = Suc d'" and le: "foldr (\<lambda>v m. max (depth v) m) vs 0 \<le> d'" by (cases d) auto
  let ?h = "pre @ le_of_u32 t @ le_of_u64 (word_of_nat (length vs))"
  have bs: "bs = ?h @ concat (map value_bytes vs) @ post" using Array.prems(3) by simp
  have wf: "val_type v = t \<and> wf_value v" if "v \<in> set vs" for v
    using that Array.prems(1) by (auto simp: list_all_iff)
  have "list_all wf_value vs" using wf by (simp add: list_all_iff)
  then have n: "length vs < 18446744073709551616"
    using length_elements [of vs] Array.prems(4) bs by simp
  have elem: "load_u32 bs (word_of_nat (length pre)) = Some t"
    using load_at(1) [OF _ Array.prems(4), of pre _ _ t] Array.prems(3) by simp
  have "word_of_nat (length pre) + 4 = (word_of_nat (length (pre @ le_of_u32 t)) :: u64)" by simp
  then have len: "load_u64 bs (word_of_nat (length pre) + 4) = Some (word_of_nat (length vs))"
    using load_at(2) [OF _ Array.prems(4), of "pre @ le_of_u32 t" _ _ "word_of_nat (length vs)"] Array.prems(3) by simp
  have "skip_gguf_val d' bs t (word_of_nat (length pre')) = Some (word_of_nat (length pre' + length (value_bytes v)))"
    if "v \<in> set vs" "bs = pre' @ value_bytes v @ post'" for v pre' post'
    using Array.IH [OF that(1) _ _ that(2) Array.prems(4), of d'] wf [OF that(1)] depth_element [OF that(1)] le by simp
  from skip_array_loop [of vs bs "skip_gguf_val d' bs t", OF this bs]
  have loop: "((\<lambda>r. Option.bind r (skip_gguf_val d' bs t)) ^^ length vs) (Some (word_of_nat (length pre) + 12)) =
      Some (word_of_nat (length pre + length (value_bytes (Array t vs))))"
    by (simp add: algebra_simps)
  have "\<not> map_size bs < word_of_nat (length pre) + 12"
    using bs Array.prems(4) by (intro offset_guards(3) [of _ 12]) simp_all
  then show ?case
    using elem len loop n by (simp add: d skip_types not_less unat_of_nat_u64 del: skip_gguf_val.simps)
qed

lemma skip_kvs_at:
  assumes "\<forall>kv \<in> set kvs. wf_value (snd kv) \<and> depth (snd kv) \<le> d" "length bs < 9223372036854775808"
    and "bs = pre @ concat (map kv_field kvs) @ post"
  shows "skip_kvs d bs (length kvs) (word_of_nat (length pre)) =
    Some (word_of_nat (length pre + length (concat (map kv_field kvs))))"
  using assms(1,3)
proof (induction kvs arbitrary: pre)
  case (Cons kv kvs)
  obtain k v where kv: "kv = (k, v)" by fastforce
  let ?p1 = "pre @ string_field k" and ?p2 = "pre @ string_field k @ le_of_u32 (val_type v)"
  let ?p3 = "pre @ kv_field kv"
  have wf: "wf_value v" "depth v \<le> d" using Cons.prems(1) by (simp_all add: kv)
  have field: "kv_field kv = string_field k @ le_of_u32 (val_type v) @ value_bytes v"
    by (simp add: kv kv_field_def)
  have bs: "bs = pre @ string_field k @ le_of_u32 (val_type v) @ value_bytes v @ concat (map kv_field kvs) @ post"
    using Cons.prems(2) by (simp add: field)
  have key: "read_gguf_string bs (word_of_nat (length pre)) = Some (k, word_of_nat (length ?p1))"
    using read_string_at [OF bs assms(2)] by simp
  have ty: "load_u32 bs (word_of_nat (length ?p1)) = Some (val_type v)"
    using load_at(1) [OF _ assms(2), of ?p1 _ _ "val_type v"] bs by simp
  have g: "\<not> map_size bs < word_of_nat (length ?p1) + 4"
    using bs assms(2) by (intro offset_guards(1) [of _ 4]) simp_all
  have val: "skip_gguf_val d bs (val_type v) (word_of_nat (length ?p1) + 4) = Some (word_of_nat (length ?p3))"
    using skip_value [of v d bs ?p2] wf bs assms(2)
    by (simp add: field algebra_simps)
  have "skip_kvs d bs (length kvs) (word_of_nat (length ?p3)) =
      Some (word_of_nat (length ?p3 + length (concat (map kv_field kvs))))"
    using Cons.prems by (intro Cons.IH) auto
  then show ?case using key ty g val by (simp add: add.assoc)
qed simp

lemma read_dims_at:
  assumes "length bs < 9223372036854775808" "bs = pre @ concat (map le_of_u64 ds) @ post"
  shows "read_dims bs (length ds) acc (word_of_nat (length pre)) =
    Some (acc @ ds, word_of_nat (length pre + 8 * length ds))"
  using assms(2)
proof (induction ds arbitrary: pre acc)
  case (Cons x ds)
  have "load_u64 bs (word_of_nat (length pre)) = Some x"
    using load_at(2) [OF _ assms(1), of pre _ _ x] Cons.prems by simp
  moreover have "\<not> map_size bs < word_of_nat (length pre) + 8"
    using Cons.prems assms(1) by (intro offset_guards(2) [of _ 8]) simp_all
  moreover have "read_dims bs (length ds) (acc @ [x]) (word_of_nat (length (pre @ le_of_u64 x))) =
      Some ((acc @ [x]) @ ds, word_of_nat (length (pre @ le_of_u64 x) + 8 * length ds))"
    using Cons.prems by (intro Cons.IH) simp
  ultimately show ?case by (simp add: add.assoc)
qed simp

text \<open>What the loader keeps of a listed tensor.\<close>

definition loaded_info :: "gguf_tensor \<Rightarrow> TensorInfo" where
  "loaded_info t = \<lparr> in_name = gt_name t, in_type = ggml_data_type (gt_type t), in_dims = gt_dims t,
     in_offset_bytes = gt_offset t, in_size_bytes = 0 \<rparr>"

definition scan_list :: "gguf_tensor list \<Rightarrow> scan \<Rightarrow> scan" where
  "scan_list ts st = \<lparr> sc_tensors = sc_tensors st ++ map_of (rev (map (\<lambda>t. (gt_name t, loaded_info t)) ts)),
     sc_has_mtp = (sc_has_mtp st \<or> list_ex (\<lambda>t. is_mtp_name (gt_name t)) ts),
     sc_has_mla = (sc_has_mla st \<or> list_ex (\<lambda>t. is_mla_name (gt_name t)) ts) \<rparr>"

lemma scan_list_Cons:
  "scan_list (t # ts) st = scan_list ts (scan_tensor (gt_name t) (gt_dims t) (gt_type t) (gt_offset t) st)"
proof -
  have upd: "m ++ (map_of xs ++ [k \<mapsto> v]) = m ++ map_of xs ++ [k \<mapsto> v]" for m :: "string \<rightharpoonup> TensorInfo" and xs k v
    by simp
  have "m ++ map_of (rev (map f ts) @ [(k, v)]) = m(k \<mapsto> v) ++ map_of (rev (map f ts))"
    for m :: "string \<rightharpoonup> TensorInfo" and f :: "gguf_tensor \<Rightarrow> string \<times> TensorInfo" and k v
    by (auto simp: map_add_def fun_eq_iff split: option.splits)
  then show ?thesis
    by (auto simp: scan_list_def scan_tensor_def loaded_info_def)
qed

lemma scan_tensors_at:
  assumes "length bs < 9223372036854775808" "\<forall>t \<in> set ts. length (gt_dims t) < 4294967296"
    and "bs = pre @ concat (map tensor_field ts) @ post"
  shows "scan_tensors bs (length ts) (word_of_nat (length pre)) st = Some (scan_list ts st)"
  using assms(2,3)
proof (induction ts arbitrary: pre st)
  case Nil
  show ?case by (simp add: scan_list_def)
next
  case (Cons t ts)
  let ?n = "word_of_nat (length (gt_dims t)) :: u32" and ?D = "concat (map le_of_u64 (gt_dims t))"
  let ?p1 = "pre @ string_field (gt_name t)" and ?p2 = "pre @ string_field (gt_name t) @ le_of_u32 ?n"
  let ?p3 = "pre @ string_field (gt_name t) @ le_of_u32 ?n @ ?D" and ?p4 = "pre @ tensor_field t"
  have field: "tensor_field t = string_field (gt_name t) @ le_of_u32 ?n @ ?D @ le_of_u32 (gt_type t) @ le_of_u64 (gt_offset t)"
    by (simp add: tensor_field_def)
  have D: "length ?D = 8 * length (gt_dims t)" by (simp add: length_concat comp_def sum_list_triv)
  have bs: "bs = pre @ string_field (gt_name t) @ le_of_u32 ?n @ ?D @ le_of_u32 (gt_type t) @
      le_of_u64 (gt_offset t) @ concat (map tensor_field ts) @ post"
    using Cons.prems(2) by (simp add: field)
  have name: "read_gguf_string bs (word_of_nat (length pre)) = Some (gt_name t, word_of_nat (length ?p1))"
    using read_string_at [OF bs assms(1)] by simp
  have dims: "load_u32 bs (word_of_nat (length ?p1)) = Some ?n"
    using load_at(1) [OF _ assms(1), of ?p1 _ _ ?n] bs by simp
  have n: "unat ?n = length (gt_dims t)" using Cons.prems(1) by (intro unat_of_nat_u32) simp
  have g1: "\<not> map_size bs < word_of_nat (length ?p1) + 4"
    using bs assms(1) by (intro offset_guards(1) [of _ 4]) simp_all
  have "bs = ?p2 @ ?D @ (le_of_u32 (gt_type t) @ le_of_u64 (gt_offset t) @ concat (map tensor_field ts) @ post)"
    using bs by simp
  from read_dims_at [OF assms(1) this, of "[]"]
  have read: "read_dims bs (unat ?n) [] (word_of_nat (length ?p1) + 4) = Some (gt_dims t, word_of_nat (length ?p3))"
    by (simp add: n D algebra_simps)
  have g2: "\<not> map_size bs < word_of_nat (length ?p3) + 12"
    using bs assms(1) by (intro offset_guards(3) [of _ 12]) simp_all
  have ty: "load_u32 bs (word_of_nat (length ?p3)) = Some (gt_type t)"
    using load_at(1) [OF _ assms(1), of ?p3 _ _ "gt_type t"] bs by simp
  have off: "load_u64 bs (word_of_nat (length ?p3) + 4) = Some (gt_offset t)"
    using load_at(2) [OF _ assms(1), of "?p3 @ le_of_u32 (gt_type t)" _ _ "gt_offset t"] bs
    by (simp add: add.assoc)
  have p4: "word_of_nat (length ?p3) + 12 = (word_of_nat (length ?p4) :: u64)"
    by (simp add: field algebra_simps)
  have "scan_tensors bs (length ts) (word_of_nat (length ?p4)) st' = Some (scan_list ts st')" for st'
    using Cons.prems by (intro Cons.IH) auto
  then show ?case
    unfolding list.size add_Suc_right add_0_right scan_tensors.simps name
    using dims g1 read g2 ty off by (simp only: bind.bind_lunit prod.case if_False p4 scan_list_Cons)
qed

lemma gguf_read:
  assumes "\<forall>kv \<in> set kvs. wf_value (snd kv) \<and> depth (snd kv) \<le> d"
    and "\<forall>t \<in> set ts. length (gt_dims t) < 4294967296"
    and "length (gguf_bytes version kvs ts data) < 9223372036854775808"
  shows "parse_gguf d (Some (gguf_bytes version kvs ts data)) m =
    Some (True, m\<lparr>ml_format := GGUF,
      ml_tensors := ml_tensors m ++ map_of (rev (map (\<lambda>t. (gt_name t, loaded_info t)) ts)),
      ml_arch_config := arch_of \<lparr> sc_tensors = Map.empty,
        sc_has_mtp = list_ex (\<lambda>t. is_mtp_name (gt_name t)) ts,
        sc_has_mla = list_ex (\<lambda>t. is_mla_name (gt_name t)) ts \<rparr> (ml_arch_config m)\<rparr>)"
proof -
  let ?bs = "gguf_bytes version kvs ts data"
  let ?h = "le_of_u32 0x46554747 @ le_of_u32 version @ le_of_u64 (of_nat (length ts)) @ le_of_u64 (of_nat (length kvs))"
  have h: "length ?h = 24" by simp
  have bs: "?bs = ?h @ concat (map kv_field kvs) @ concat (map tensor_field ts) @ data"
    by (simp add: gguf_bytes_def)
  have string_field: "length (string_field s) \<ge> 1" for s by (simp add: string_field_def)
  have "length kvs \<le> length (concat (map kv_field kvs))"
    by (induction kvs) (auto simp: kv_field_def)
  then have nk: "unat (word_of_nat (length kvs) :: u64) = length kvs"
    using assms(3) bs by (intro unat_of_nat_u64) simp
  have "length ts \<le> length (concat (map tensor_field ts))"
    by (induction ts) (auto simp: tensor_field_def)
  then have nt: "unat (word_of_nat (length ts) :: u64) = length ts"
    using assms(3) bs by (intro unat_of_nat_u64) simp
  have magic: "load_u32 ?bs 0 = Some 0x46554747"
    using load_at(1) [OF _ assms(3), of "[]" _ 0 "0x46554747"] by (simp add: gguf_bytes_def)
  have tc: "load_u64 ?bs 8 = Some (of_nat (length ts))"
    using load_at(2) [OF _ assms(3), of "le_of_u32 0x46554747 @ le_of_u32 version" _ 8 "of_nat (length ts)"]
    by (simp add: gguf_bytes_def)
  have kc: "load_u64 ?bs 16 = Some (of_nat (length kvs))"
    using load_at(2) [OF _ assms(3), of "le_of_u32 0x46554747 @ le_of_u32 version @ le_of_u64 (of_nat (length ts))"
        _ 16 "of_nat (length kvs)"]
    by (simp add: gguf_bytes_def)
  let ?p = "?h @ concat (map kv_field kvs)"
  have "skip_kvs d ?bs (length kvs) (word_of_nat (length ?h)) = Some (word_of_nat (length ?h + length (concat (map kv_field kvs))))"
    by (rule skip_kvs_at [OF assms(1,3) bs])
  then have kv: "skip_kvs d ?bs (length kvs) 24 = Some (word_of_nat (length ?p))"
    unfolding h by simp
  have "?bs = ?p @ concat (map tensor_field ts) @ data" by (simp add: gguf_bytes_def)
  note scan = scan_tensors_at [OF assms(3,2) this]
  have big: "\<not> map_size ?bs < 24"
    using offset_fits [of 0 24 ?bs] bs assms(3) by (simp add: not_less)
  have ne: "?bs \<noteq> []" using h bs by (metis Nil_is_append_conv list.size(3) zero_neq_numeral)
  show ?thesis
    unfolding parse_gguf_def option.case
    using ne big
    by (simp only: magic tc kc nk nt kv scan bind.bind_lunit option.map if_False simp_thms)
      (simp add: scan_list_def arch_of_def)
qed

text \<open>
  C13. The loader reads what a GGUF writer wrote: for every list of key-value pairs (scalars,
  strings, arrays nested as deep as the stack allows) and every list of tensors, with the data
  aligned as the format asks, in a file below \<open>2 ^ 63\<close> bytes, parsing succeeds; every listed tensor is
  found under its name with its dimensions and its offset, the later of two equal names winning,
  no other entry changes, and the architecture follows from the names. The type is the listed
  one for \<open>F16\<close> and \<open>Q4_0\<close> tensors; the loader knows no other number of the format, and gives
  \<open>F32\<close> and \<open>Q8_0\<close> tensors, for example, the type \<open>FP16\<close> (\<open>other_types_misread\<close>).
\<close>

theorem gguf_roundtrip:
  assumes "\<forall>kv \<in> set kvs. wf_value (snd kv) \<and> depth (snd kv) \<le> d"
    and "\<forall>t \<in> set ts. length (gt_dims t) < 4294967296"
    and "length (gguf_file version kvs ts data) < 9223372036854775808"
  shows "\<exists>m'. parse_gguf d (Some (gguf_file version kvs ts data)) m = Some (True, m') \<and> ml_format m' = GGUF \<and>
    ml_arch_config m' = arch_of \<lparr> sc_tensors = Map.empty,
        sc_has_mtp = list_ex (\<lambda>t. is_mtp_name (gt_name t)) ts,
        sc_has_mla = list_ex (\<lambda>t. is_mla_name (gt_name t)) ts \<rparr> (ml_arch_config m) \<and>
    (\<forall>name. case map_of (rev (map (\<lambda>t. (gt_name t, t)) ts)) name of
       None \<Rightarrow> ml_tensors m' name = ml_tensors m name
     | Some t \<Rightarrow> (\<exists>info. ml_tensors m' name = Some info \<and> in_name info = name \<and> in_dims info = gt_dims t \<and>
         in_offset_bytes info = gt_offset t \<and>
         (gt_type t \<in> {1, 2} \<longrightarrow> ggml_type_of (gt_type t) = Some (in_type info))))"
proof -
  have eq: "map_of (rev (map (\<lambda>t. (gt_name t, loaded_info t)) ts)) =
      map_option loaded_info \<circ> map_of (rev (map (\<lambda>t. (gt_name t, t)) ts))"
    using map_of_map [of "loaded_info" "rev (map (\<lambda>t. (gt_name t, t)) ts)"]
    by (simp add: rev_map comp_def case_prod_unfold)
  have name: "gt_name t = x" if "map_of (rev (map (\<lambda>t. (gt_name t, t)) ts)) x = Some t" for t x
    using map_of_SomeD [OF that] by auto
  have look: "case map_of (rev (map (\<lambda>t. (gt_name t, t)) ts)) x of
       None \<Rightarrow> (ml_tensors m ++ (map_option loaded_info \<circ> map_of (rev (map (\<lambda>t. (gt_name t, t)) ts)))) x = ml_tensors m x
     | Some t \<Rightarrow> (\<exists>info. (ml_tensors m ++ (map_option loaded_info \<circ> map_of (rev (map (\<lambda>t. (gt_name t, t)) ts)))) x = Some info \<and>
         in_name info = x \<and> in_dims info = gt_dims t \<and> in_offset_bytes info = gt_offset t \<and>
         (gt_type t \<in> {1, 2} \<longrightarrow> ggml_type_of (gt_type t) = Some (in_type info)))" for x
  proof (cases "map_of (rev (map (\<lambda>t. (gt_name t, t)) ts)) x")
    case None
    then show ?thesis by (simp add: map_add_def)
  next
    case (Some t)
    have "gt_type t \<in> {1, 2} \<longrightarrow> ggml_type_of (gt_type t) = Some (ggml_data_type (gt_type t))"
      by (auto simp: ggml_type_of_def ggml_data_type_def)
    then show ?thesis using Some name [OF Some] by (simp add: map_add_def loaded_info_def)
  qed
  obtain m' where m': "parse_gguf d (Some (gguf_file version kvs ts data)) m = Some (True, m')" "ml_format m' = GGUF"
      "ml_arch_config m' = arch_of \<lparr> sc_tensors = Map.empty, sc_has_mtp = list_ex (\<lambda>t. is_mtp_name (gt_name t)) ts,
        sc_has_mla = list_ex (\<lambda>t. is_mla_name (gt_name t)) ts \<rparr> (ml_arch_config m)"
      "ml_tensors m' = ml_tensors m ++ (map_option loaded_info \<circ> map_of (rev (map (\<lambda>t. (gt_name t, t)) ts)))"
    using gguf_read [OF assms(1,2) assms(3) [unfolded gguf_file_def], where m = m, folded gguf_file_def] eq by simp
  show ?thesis
    by (rule exI [of _ m'], intro conjI allI) (rule m'(1), rule m'(2), rule m'(3), unfold m'(4), rule look)
qed

text \<open>Three numbers of the format that the loader takes for another type.\<close>

lemma other_types_misread:
  "ggml_type_of 0 = Some FP32 \<and> ggml_data_type 0 = FP16" "ggml_type_of 8 = Some Q8_0 \<and> ggml_data_type 8 = FP16"
  "ggml_type_of 7 = None \<and> ggml_data_type 7 = Q8_0"
  by (simp_all add: ggml_type_of_def ggml_data_type_def)

definition example_kvs :: "(string \<times> gguf_value) list" where
  "example_kvs = [(''k'', Array 9 [Array 8 [Text ''x''], Array 2 [Scalar 2 [1, 0]]]), (''n'', Scalar 7 [1])]"

definition example_tensors :: "gguf_tensor list" where
  "example_tensors = [\<lparr> gt_name = ''blk.0.mtp'', gt_dims = [4, 2], gt_type = 2, gt_offset = 0 \<rparr>]"

theorem gguf_roundtrip_witness:
  "\<exists>m info. parse_gguf 3 (Some (gguf_file 3 example_kvs example_tensors [9, 9])) new_ModelLoader = Some (True, m) \<and>
    ml_tensors m ''blk.0.mtp'' = Some info \<and> in_type info = Q4_0 \<and> in_dims info = [4, 2] \<and> in_offset_bytes info = 0 \<and>
    ac_attention_type (ml_arch_config m) = MTP"
proof -
  have kvs: "\<forall>kv \<in> set example_kvs. wf_value (snd kv) \<and> depth (snd kv) \<le> 3"
    by (simp add: example_kvs_def scalar_size_def)
  have ts: "\<forall>t \<in> set example_tensors. length (gt_dims t) < 4294967296"
    by (simp add: example_tensors_def)
  have len: "length (gguf_file 3 example_kvs example_tensors [9, 9]) < 9223372036854775808"
    by (simp add: gguf_file_def gguf_bytes_def gguf_padding_def gguf_alignment_def example_kvs_def example_tensors_def
        kv_field_def tensor_field_def string_field_def)
  have mtp: "is_mtp_name ''blk.0.mtp''" by (simp add: is_mtp_name_def str_contains_def)
  obtain m where m: "parse_gguf 3 (Some (gguf_file 3 example_kvs example_tensors [9, 9])) new_ModelLoader = Some (True, m)"
      "ac_attention_type (ml_arch_config m) = MTP"
    and e: "\<forall>name. case map_of (rev (map (\<lambda>t. (gt_name t, t)) example_tensors)) name of
       None \<Rightarrow> ml_tensors m name = ml_tensors new_ModelLoader name
     | Some t \<Rightarrow> (\<exists>info. ml_tensors m name = Some info \<and> in_name info = name \<and> in_dims info = gt_dims t \<and>
         in_offset_bytes info = gt_offset t \<and>
         (gt_type t \<in> {1, 2} \<longrightarrow> ggml_type_of (gt_type t) = Some (in_type info)))"
    using gguf_roundtrip [OF kvs ts len, of new_ModelLoader] mtp by (auto simp: example_tensors_def arch_of_def)
  show ?thesis
    using m spec [OF e, of "''blk.0.mtp''"] by (auto simp: example_tensors_def ggml_type_of_def)
qed

text \<open>
  Lengths are checked with sums that wrap, and a string length of \<open>2 ^ 64 - 32\<close> takes the offset
  backwards: in the array below, whose first element is such a string array and whose second
  is found at the array's own start, the calls nest without end, so no stack is deep enough.
\<close>

definition looping_value :: "u8 list" where
  "looping_value = le_of_u32 9 @ le_of_u64 2 @ le_of_u32 8 @ le_of_u64 1 @ le_of_u64 (- 32)"

lemma skip_diverges: "skip_gguf_val d looping_value 9 0 = None"
proof (induction d)
  case (Suc d)
  have len: "length looping_value < 9223372036854775808" "map_size looping_value = 32"
    by (simp_all add: looping_value_def map_size_def)
  have l: "load_u32 looping_value 0 = Some 9" "load_u64 looping_value 4 = Some 2"
    "load_u32 looping_value 12 = Some 8" "load_u64 looping_value 16 = Some 1" "load_u64 looping_value 24 = Some (- 32)"
    using load_at(1) [OF _ len(1), of "[]" _ 0 9] load_at(2) [OF _ len(1), of "le_of_u32 9" _ 4 2]
      load_at(1) [OF _ len(1), of "le_of_u32 9 @ le_of_u64 2" _ 12 8]
      load_at(2) [OF _ len(1), of "le_of_u32 9 @ le_of_u64 2 @ le_of_u32 8" _ 16 1]
      load_at(2) [OF _ len(1), of "le_of_u32 9 @ le_of_u64 2 @ le_of_u32 8 @ le_of_u64 1" _ 24 "- 32"]
    by (simp_all add: looping_value_def)
  have txt8: "skip_gguf_val k looping_value 8 24 \<in> {None, Some 0}" for k
    by (cases k) (simp_all add: skip_types len l del: skip_gguf_val.simps(2))
  have u: "unat (1 :: u64) = Suc 0" "unat (2 :: u64) = Suc (Suc 0)" by simp_all
  have one: "(f ^^ unat (1 :: u64)) x = f x" and two: "(f ^^ 2) x = f (f x)"
    for f :: "u64 option \<Rightarrow> u64 option" and x
    by (simp_all only: u funpow.simps o_apply id_apply numeral_2_eq_2)
  have "skip_gguf_val d looping_value 9 12 \<in> {None, Some 0}"
    using txt8 [of "d - 1"]
    by (cases d) (auto simp: skip_types len l one simp del: skip_gguf_val.simps(2))
  then show ?case
    using Suc by (auto simp: skip_types len l two simp del: skip_gguf_val.simps(2))
qed simp

end
