(* ===== verification/GgufIngest.thy ===== *)
theory GgufIngest
  imports GgufModel TensorStream "HOL-Library.Multiset"
begin

text \<open>
  The offline ingestor \<open>ingest_gguf\<close> of \<open>src/dxstream/dxstream.cpp\<close>: it reads the tensor table of
  a GGUF file through an input stream and rewrites the payload into aligned slices of a new file
  \<open>weights.bin\<close>. The stream is its contents, its position and its fail bit; writes to the new file
  are taken to succeed (the code does not look at their outcome). \<open>std::sort\<close> leaves the order of
  equal keys open and is the argument \<open>srt\<close>. \<open>Crash\<close> is a run that does not return: too many nested
  calls for the stack, a table too large to reserve, a division by a zero alignment.
\<close>

section \<open>Streams\<close>

datatype 'a run = Crash | ReturnFalse | Value 'a

fun run_bind :: "'a run \<Rightarrow> ('a \<Rightarrow> 'b run) \<Rightarrow> 'b run" where
  "run_bind Crash k = Crash"
| "run_bind ReturnFalse k = ReturnFalse"
| "run_bind (Value x) k = k x"

record ifstream =
  is_data :: "u8 list"
  is_pos :: nat
  is_fail :: bool

text \<open>\<open>seekg\<close>: no effect on a failed stream; a position that is negative as a stream offset fails.\<close>

definition seekg :: "u64 \<Rightarrow> ifstream \<Rightarrow> ifstream" where
  "seekg off f = (if is_fail f then f else if off > INT64_MAX then f\<lparr>is_fail := True\<rparr>
     else f\<lparr>is_pos := unat off\<rparr>)"

text \<open>\<open>read\<close>: all \<open>n\<close> bytes, or none of use and a failed stream.\<close>

definition stream_read :: "nat \<Rightarrow> ifstream \<Rightarrow> u8 list option \<times> ifstream" where
  "stream_read n f =
    (if is_fail f then (None, f)
     else if n = 0 \<or> is_pos f + n \<le> length (is_data f)
     then (Some (read_at (is_pos f) n (is_data f)), f\<lparr>is_pos := is_pos f + n\<rparr>)
     else (None, f\<lparr>is_pos := max (is_pos f) (length (is_data f)), is_fail := True\<rparr>))"

record ofstream =
  os_data :: "u8 list"
  os_pos :: nat
  os_fail :: bool

definition seekp :: "u64 \<Rightarrow> ofstream \<Rightarrow> ofstream" where
  "seekp off w = (if os_fail w then w else if off > INT64_MAX then w\<lparr>os_fail := True\<rparr>
     else w\<lparr>os_pos := unat off\<rparr>)"

text \<open>A write past the end of the file fills the gap with zeros; an empty one does nothing.\<close>

definition stream_write :: "u8 list \<Rightarrow> ofstream \<Rightarrow> ofstream" where
  "stream_write bs w =
    (if os_fail w \<or> bs = [] then w
     else w\<lparr>os_data := write_at (os_pos w) bs
              (os_data w @ replicate (os_pos w - length (os_data w)) 0),
            os_pos := os_pos w + length bs\<rparr>)"

section \<open>The tensor table\<close>

record GgufTensor =
  gg_name :: string
  gg_offset :: u64
  gg_size :: u64
  gg_type :: u32

definition ingest_read_string :: "ifstream \<Rightarrow> u64 \<Rightarrow> (string \<times> u64 \<times> ifstream) run" where
  "ingest_read_string f off =
    (let f1 = seekg off f
     in if is_fail f1 then ReturnFalse
     else (case stream_read 8 f1 of
         (None, f2) \<Rightarrow> ReturnFalse
       | (Some lb, f2) \<Rightarrow>
           let n = u64_of_le lb
           in if n > 67108864 then ReturnFalse
           else (case stream_read (unat n) f2 of
               (None, f3) \<Rightarrow> ReturnFalse
             | (Some bs, f3) \<Rightarrow> Value (string_of_bytes bs, off + (8 + n), f3))))"

text \<open>
  \<open>skip_gguf_val\<close> of the ingestor; a read that fails leaves the offset where it is and the
  stream failed. The nesting the stack allows is \<open>d\<close>.
\<close>

fun ingest_skip_val :: "nat \<Rightarrow> u32 \<Rightarrow> ifstream \<times> u64 \<Rightarrow> (ifstream \<times> u64) option" where
  "ingest_skip_val 0 vt s = None"
| "ingest_skip_val (Suc d) vt (f, off) =
    (if vt \<in> {0, 1, 7} then Some (f, off + 1)
     else if vt \<in> {2, 3, 4, 5, 6} then Some (f, off + 4)
     else if vt \<in> {10, 11, 12} then Some (f, off + 8)
     else if vt = 8 then
       (case stream_read 8 (seekg off f) of
          (None, f1) \<Rightarrow> Some (f1, off)
        | (Some lb, f1) \<Rightarrow> Some (f1, off + (8 + u64_of_le lb)))
     else if vt = 9 then
       (case stream_read 4 (seekg off f) of
          (None, f1) \<Rightarrow> Some (f1, off)
        | (Some eb, f1) \<Rightarrow>
            (case stream_read 8 f1 of
               (None, f2) \<Rightarrow> Some (f2, off)
             | (Some nb, f2) \<Rightarrow>
                 ((\<lambda>r. Option.bind r (ingest_skip_val d (u32_of_le eb))) ^^ unat (u64_of_le nb))
                   (Some (f2, off + 12))))
     else Some (f, off))"

fun ingest_kvs :: "nat \<Rightarrow> nat \<Rightarrow> ifstream \<times> u64 \<Rightarrow> (ifstream \<times> u64) run" where
  "ingest_kvs d 0 s = Value s"
| "ingest_kvs d (Suc n) (f, off) =
    run_bind (ingest_read_string f off) (\<lambda>(k, off1, f1).
      let f2 = seekg off1 f1
      in if is_fail f2 then ReturnFalse
      else (case stream_read 4 f2 of
          (None, f3) \<Rightarrow> ReturnFalse
        | (Some tb, f3) \<Rightarrow>
            (case ingest_skip_val d (u32_of_le tb) (f3, off1 + 4) of
               None \<Rightarrow> Crash
             | Some s \<Rightarrow> ingest_kvs d n s)))"

text \<open>The seek over the dimensions is not checked; the read after it is.\<close>

fun ingest_tensors :: "nat \<Rightarrow> ifstream \<times> u64 \<Rightarrow> GgufTensor list \<Rightarrow> (GgufTensor list \<times> ifstream \<times> u64) run" where
  "ingest_tensors 0 (f, off) ts = Value (ts, f, off)"
| "ingest_tensors (Suc n) (f, off) ts =
    run_bind (ingest_read_string f off) (\<lambda>(name, off1, f1).
      let f2 = seekg off1 f1
      in if is_fail f2 then ReturnFalse
      else (case stream_read 4 f2 of
          (None, f3) \<Rightarrow> ReturnFalse
        | (Some db, f3) \<Rightarrow>
            let off2 = off1 + 4 + 8 * ucast (u32_of_le db)
            in (case stream_read 4 (seekg off2 f3) of
                (None, f4) \<Rightarrow> ReturnFalse
              | (Some tb, f4) \<Rightarrow>
                  (case stream_read 8 f4 of
                     (None, f5) \<Rightarrow> ReturnFalse
                   | (Some ob, f5) \<Rightarrow>
                       ingest_tensors n (f5, off2 + 12) (ts @
                         [\<lparr> gg_name = name, gg_offset = u64_of_le ob, gg_size = 0, gg_type = u32_of_le tb \<rparr>])))))"

section \<open>Sizes and slices\<close>

fun assign_sizes :: "u64 \<Rightarrow> u64 \<Rightarrow> GgufTensor list \<Rightarrow> GgufTensor list" where
  "assign_sizes data_start file_size [] = []"
| "assign_sizes data_start file_size [t] =
    [t\<lparr>gg_size := let last_end = data_start + gg_offset t
       in if last_end \<le> file_size then file_size - last_end else 0\<rparr>]"
| "assign_sizes data_start file_size (t # u # ts) =
    t\<lparr>gg_size := gg_offset u - gg_offset t\<rparr> # assign_sizes data_start file_size (u # ts)"

abbreviation (input) chunk_bytes :: nat where "chunk_bytes \<equiv> 16777216"

text \<open>The copy loop: what it has written and what is still missing when a read fails.\<close>

function copy_chunks :: "nat \<Rightarrow> ifstream \<Rightarrow> ofstream \<Rightarrow> nat \<times> ifstream \<times> ofstream" where
  "copy_chunks remaining f w =
    (if remaining = 0 then (0, f, w)
     else case stream_read (min remaining chunk_bytes) f of
         (None, f1) \<Rightarrow> (remaining, f1, w)
       | (Some bs, f1) \<Rightarrow> copy_chunks (remaining - min remaining chunk_bytes) f1 (stream_write bs w))"
  by pat_completeness auto
termination by (relation "measure fst") auto

declare copy_chunks.simps [simp del]

function pad_zeros :: "nat \<Rightarrow> ofstream \<Rightarrow> ofstream" where
  "pad_zeros remaining w =
    (if remaining = 0 then w
     else pad_zeros (remaining - min remaining chunk_bytes) (stream_write (replicate (min remaining chunk_bytes) 0) w))"
  by pat_completeness auto
termination by (relation "measure fst") auto

declare pad_zeros.simps [simp del]

record IngestResult =
  ig_payload_path :: string
  ig_coords :: "(string \<times> TensorCoordinate) list"
  ig_payload_size :: u64

fun repack ::
  "u32 \<Rightarrow> u64 \<Rightarrow> GgufTensor list \<Rightarrow> u64 \<Rightarrow> ifstream \<Rightarrow> ofstream \<Rightarrow> (string \<times> TensorCoordinate) list \<Rightarrow>
   (u64 \<times> ofstream \<times> (string \<times> TensorCoordinate) list) run" where
  "repack alignment data_start [] cursor f w coords = Value (cursor, w, coords)"
| "repack alignment data_start (t # ts) cursor f w coords =
    (if alignment = 0 then Crash
     else let aligned = (cursor + ucast alignment - 1) div ucast alignment * ucast alignment;
              w1 = seekp aligned w;
              f1 = seekg (data_start + gg_offset t) (f\<lparr>is_fail := False\<rparr>);
              (remaining, f2, w2) = copy_chunks (unat (gg_size t)) f1 w1;
              w3 = pad_zeros remaining w2
          in repack alignment data_start ts (aligned + gg_size t) f2 w3
               (coords @ [(gg_name t, \<lparr> tc_absolute_offset = aligned, tc_byte_size = gg_size t,
                  tc_quant_type = gg_type t, tc_padding = 0 \<rparr>)]))"

text \<open>
  \<open>ingest_gguf\<close>: the contents of the source file if it opens, whether \<open>weights.bin\<close> can be
  created under \<open>out_path\<close>, and which table sizes can be reserved. The value is the returned
  truth value, the result structure (its list of coordinates is extended, not replaced) and the
  new file.
\<close>

definition ingest_gguf ::
  "nat \<Rightarrow> (u64 \<Rightarrow> bool) \<Rightarrow> (GgufTensor list \<Rightarrow> GgufTensor list) \<Rightarrow> u8 list option \<Rightarrow> bool \<Rightarrow> string \<Rightarrow> u32 \<Rightarrow>
   IngestResult \<Rightarrow> (bool \<times> IngestResult \<times> u8 list) run" where
  "ingest_gguf d can_reserve srt source can_create out_path alignment out =
    (case source of
       None \<Rightarrow> ReturnFalse
     | Some bs \<Rightarrow>
         let f0 = \<lparr> is_data = bs, is_pos = 0, is_fail = False \<rparr>
         in (case stream_read 4 f0 of
             (None, _) \<Rightarrow> ReturnFalse
           | (Some mb, f1) \<Rightarrow>
               if u32_of_le mb \<noteq> 0x46554747 then ReturnFalse
               else (case stream_read 4 f1 of
                   (None, _) \<Rightarrow> ReturnFalse
                 | (Some vb, f2) \<Rightarrow> (case stream_read 8 f2 of
                     (None, _) \<Rightarrow> ReturnFalse
                   | (Some tb, f3) \<Rightarrow> (case stream_read 8 f3 of
                       (None, _) \<Rightarrow> ReturnFalse
                     | (Some kb, f4) \<Rightarrow>
                         run_bind (ingest_kvs d (unat (u64_of_le kb)) (f4, 24)) (\<lambda>(f5, off).
                         if \<not> can_reserve (u64_of_le tb) then Crash
                         else run_bind (ingest_tensors (unat (u64_of_le tb)) (f5, off) []) (\<lambda>(ts, f6, data_start).
                         let sized = assign_sizes data_start (of_nat (length bs)) (srt ts)
                         in if \<not> can_create then ReturnFalse
                         else run_bind (repack alignment data_start sized 0 f6
                               \<lparr> os_data = [], os_pos = 0, os_fail = False \<rparr> (ig_coords out)) (\<lambda>(cursor, w, coords).
                           Value (coords \<noteq> [] \<and> cursor > 0,
                             \<lparr> ig_payload_path = out_path, ig_coords = coords, ig_payload_size = cursor \<rparr>,
                             os_data w)))))))))"

section \<open>Reading the table\<close>

definition at :: "u8 list \<Rightarrow> nat \<Rightarrow> ifstream" where
  "at bs p = \<lparr> is_data = bs, is_pos = p, is_fail = False \<rparr>"

lemma at_sel [simp]: "is_data (at bs p) = bs" "is_pos (at bs p) = p" "\<not> is_fail (at bs p)"
  by (simp_all add: at_def)

lemma seekg_at: "p < 9223372036854775808 \<Longrightarrow> seekg (word_of_nat p) (at bs q) = at bs p"
  by (simp add: seekg_def at_def word_less_nat_alt unat_of_nat_u64)

lemma read_at_stream:
  assumes "bs = pre @ x @ post" "length x = n" "p = length pre"
  shows "stream_read n (at bs p) = (Some x, at bs (p + n))"
  using assms by (auto simp: stream_read_def at_def read_at_def)

lemma ingest_string_at:
  assumes "bs = pre @ string_field s @ post" "length bs < 9223372036854775808" "length s \<le> 67108864"
  shows "ingest_read_string (at bs q) (word_of_nat (length pre)) =
    Value (s, word_of_nat (length pre + length (string_field s)), at bs (length pre + length (string_field s)))"
proof -
  have n: "length (string_field s) = 8 + length s" by (simp add: string_field_def)
  have "length pre < 9223372036854775808" using assms(1,2) by simp
  note seek = seekg_at [OF this, of bs q]
  have r1: "stream_read 8 (at bs (length pre)) = (Some (le_of_u64 (word_of_nat (length s))), at bs (length pre + 8))"
    using assms(1) by (intro read_at_stream [of _ pre _ "bytes_of_string s @ post"]) (simp_all add: string_field_def)
  have r2: "stream_read (length s) (at bs (length pre + 8)) = (Some (bytes_of_string s), at bs (length pre + 8 + length s))"
    using assms(1) by (intro read_at_stream [of _ "pre @ le_of_u64 (word_of_nat (length s))" _ post])
      (simp_all add: string_field_def)
  have u: "unat (word_of_nat (length s) :: u64) = length s" using assms(3) by (intro unat_of_nat_u64) simp
  then have small: "\<not> (67108864 :: u64) < word_of_nat (length s)" using assms(3) by (simp add: word_less_nat_alt)
  show ?thesis
    using small by (simp add: ingest_read_string_def Let_def seek r1 u r2 n add.assoc)
qed

text \<open>Values without 16-bit scalars, whose width the ingestor gets wrong.\<close>

fun no_short :: "gguf_value \<Rightarrow> bool" where
  "no_short (Scalar t bs) \<longleftrightarrow> t \<notin> {2, 3}"
| "no_short (Text s) \<longleftrightarrow> True"
| "no_short (Array t vs) \<longleftrightarrow> list_all no_short vs"

lemma ingest_skip_types:
  "ingest_skip_val (Suc d) 8 (f, off) =
     (case stream_read 8 (seekg off f) of
        (None, f1) \<Rightarrow> Some (f1, off)
      | (Some lb, f1) \<Rightarrow> Some (f1, off + (8 + u64_of_le lb)))"
  "ingest_skip_val (Suc d) 9 (f, off) =
     (case stream_read 4 (seekg off f) of
        (None, f1) \<Rightarrow> Some (f1, off)
      | (Some eb, f1) \<Rightarrow>
          (case stream_read 8 f1 of
             (None, f2) \<Rightarrow> Some (f2, off)
           | (Some nb, f2) \<Rightarrow>
               ((\<lambda>r. Option.bind r (ingest_skip_val d (u32_of_le eb))) ^^ unat (u64_of_le nb))
                 (Some (f2, off + 12))))"
  by simp_all

lemma ingest_array_loop:
  fixes f :: "ifstream \<times> u64 \<Rightarrow> (ifstream \<times> u64) option"
  assumes "\<And>v pre post q. v \<in> set vs \<Longrightarrow> bs = pre @ value_bytes v @ post \<Longrightarrow>
      \<exists>q'. f (at bs q, word_of_nat (length pre)) = Some (at bs q', word_of_nat (length pre + length (value_bytes v)))"
    and "bs = pre @ concat (map value_bytes vs) @ post"
  shows "\<exists>q'. ((\<lambda>r. Option.bind r f) ^^ length vs) (Some (at bs q, word_of_nat (length pre))) =
    Some (at bs q', word_of_nat (length pre + length (concat (map value_bytes vs))))"
  using assms
proof (induction vs arbitrary: pre q)
  case (Cons v vs)
  obtain q1 where q1: "f (at bs q, word_of_nat (length pre)) = Some (at bs q1, word_of_nat (length (pre @ value_bytes v)))"
    using Cons.prems(1) [of v pre "concat (map value_bytes vs) @ post" q] Cons.prems(2) by auto
  have "\<exists>q'. ((\<lambda>r. Option.bind r f) ^^ length vs) (Some (at bs q1, word_of_nat (length (pre @ value_bytes v)))) =
      Some (at bs q', word_of_nat (length (pre @ value_bytes v) + length (concat (map value_bytes vs))))"
  proof (rule Cons.IH)
    show "\<exists>q'. f (at bs q, word_of_nat (length pre')) = Some (at bs q', word_of_nat (length pre' + length (value_bytes v')))"
      if "v' \<in> set vs" "bs = pre' @ value_bytes v' @ post'" for v' pre' post' q
      using Cons.prems(1) [of v' pre' post'] that by simp
    show "bs = (pre @ value_bytes v) @ concat (map value_bytes vs) @ post"
      using Cons.prems(2) by simp
  qed
  moreover have "((\<lambda>r. Option.bind r f) ^^ Suc n) x = ((\<lambda>r. Option.bind r f) ^^ n) (Option.bind x f)" for n x
    by (simp only: funpow_Suc_right o_apply)
  ultimately show ?case using q1 by (simp add: add.assoc del: funpow.simps)
qed auto

lemma ingest_skip_value:
  "wf_value v \<Longrightarrow> no_short v \<Longrightarrow> depth v \<le> d \<Longrightarrow> bs = pre @ value_bytes v @ post \<Longrightarrow>
   length bs < 9223372036854775808 \<Longrightarrow>
   \<exists>q'. ingest_skip_val d (val_type v) (at bs q, word_of_nat (length pre)) =
     Some (at bs q', word_of_nat (length pre + length (value_bytes v)))"
proof (induction v arbitrary: d pre post q)
  case (Scalar t xs)
  then obtain d' where "d = Suc d'" by (cases d) auto
  then show ?case using Scalar.prems(1,2) by (auto simp: scalar_size_def)
next
  case (Text s)
  then obtain d' where d: "d = Suc d'" by (cases d) auto
  have p: "length pre < 9223372036854775808" using Text.prems(4,5) by simp
  have "stream_read 8 (at bs (length pre)) = (Some (le_of_u64 (word_of_nat (length s))), at bs (length pre + 8))"
    using Text.prems(4) by (intro read_at_stream [of _ pre _ "bytes_of_string s @ post"]) (simp_all add: string_field_def)
  then show ?case
    by (intro exI [of _ "length pre + 8"])
      (simp add: d ingest_skip_types seekg_at [OF p] string_field_def add.assoc del: ingest_skip_val.simps)
next
  case (Array t vs)
  then obtain d' where d: "d = Suc d'" and le: "foldr (\<lambda>v m. max (depth v) m) vs 0 \<le> d'" by (cases d) auto
  let ?h = "pre @ le_of_u32 t @ le_of_u64 (word_of_nat (length vs))"
  have bs: "bs = ?h @ concat (map value_bytes vs) @ post" using Array.prems(4) by simp
  have wf: "val_type v = t \<and> wf_value v \<and> no_short v" if "v \<in> set vs" for v
    using that Array.prems(1,2) by (auto simp: list_all_iff)
  have "list_all wf_value vs" using wf by (simp add: list_all_iff)
  then have n: "length vs < 18446744073709551616"
    using length_elements [of vs] Array.prems(5) bs by simp
  have p: "length pre < 9223372036854775808" using Array.prems(4,5) by simp
  have r1: "stream_read 4 (at bs (length pre)) = (Some (le_of_u32 t), at bs (length pre + 4))"
    using bs by (intro read_at_stream [of _ pre]) simp_all
  have r2: "stream_read 8 (at bs (length pre + 4)) =
      (Some (le_of_u64 (word_of_nat (length vs))), at bs (length pre + 4 + 8))"
    using bs by (intro read_at_stream [of _ "pre @ le_of_u32 t"]) simp_all
  have "\<exists>q'. ingest_skip_val d' t (at bs q, word_of_nat (length pre')) =
      Some (at bs q', word_of_nat (length pre' + length (value_bytes v)))"
    if "v \<in> set vs" "bs = pre' @ value_bytes v @ post'" for v pre' post' q
    using Array.IH [OF that(1) _ _ _ that(2) Array.prems(5), of d'] wf [OF that(1)] depth_element [OF that(1)] le by simp
  from ingest_array_loop [of vs bs "ingest_skip_val d' t", OF this bs]
  obtain q' where "((\<lambda>r. Option.bind r (ingest_skip_val d' t)) ^^ length vs)
      (Some (at bs (length pre + 4 + 8), word_of_nat (length pre) + 12)) =
      Some (at bs q', word_of_nat (length pre + length (value_bytes (Array t vs))))"
    by (fastforce simp: algebra_simps)
  then show ?case
    using n
    by (intro exI [of _ q'])
      (simp add: d ingest_skip_types seekg_at [OF p] r1 r2 unat_of_nat_u64 add.assoc del: ingest_skip_val.simps)
qed

lemma ingest_kvs_at:
  assumes "\<forall>kv \<in> set kvs. wf_value (snd kv) \<and> no_short (snd kv) \<and> depth (snd kv) \<le> d \<and> length (fst kv) \<le> 67108864"
    and "length bs < 9223372036854775808" "bs = pre @ concat (map kv_field kvs) @ post"
  shows "\<exists>q'. ingest_kvs d (length kvs) (at bs q, word_of_nat (length pre)) =
    Value (at bs q', word_of_nat (length pre + length (concat (map kv_field kvs))))"
  using assms(1,3)
proof (induction kvs arbitrary: pre q)
  case (Cons kv kvs)
  obtain k v where kv: "kv = (k, v)" by fastforce
  let ?p1 = "pre @ string_field k" and ?p2 = "pre @ string_field k @ le_of_u32 (val_type v)"
  let ?p3 = "pre @ kv_field kv"
  have wf: "wf_value v" "no_short v" "depth v \<le> d" "length k \<le> 67108864" using Cons.prems(1) by (simp_all add: kv)
  have field: "kv_field kv = string_field k @ le_of_u32 (val_type v) @ value_bytes v"
    by (simp add: kv kv_field_def)
  have bs: "bs = pre @ string_field k @ le_of_u32 (val_type v) @ value_bytes v @ concat (map kv_field kvs) @ post"
    using Cons.prems(2) by (simp add: field)
  have key: "ingest_read_string (at bs q) (word_of_nat (length pre)) =
      Value (k, word_of_nat (length ?p1), at bs (length ?p1))"
    using ingest_string_at [OF bs assms(2) wf(4)] by simp
  have p1: "length ?p1 < 9223372036854775808" using bs assms(2) by simp
  have ty: "stream_read 4 (at bs (length ?p1)) = (Some (le_of_u32 (val_type v)), at bs (length ?p1 + 4))"
    using bs by (intro read_at_stream [of _ ?p1]) simp_all
  have "word_of_nat (length ?p1) + 4 = (word_of_nat (length ?p2) :: u64)" by simp
  then obtain q1 where val: "ingest_skip_val d (val_type v) (at bs (length ?p1 + 4), word_of_nat (length ?p1) + 4) =
      Some (at bs q1, word_of_nat (length ?p3))"
    using ingest_skip_value [OF wf(1-3), of bs ?p2 _ "length ?p1 + 4"] bs assms(2) by (auto simp: field add.assoc)
  obtain q' where "ingest_kvs d (length kvs) (at bs q1, word_of_nat (length ?p3)) =
      Value (at bs q', word_of_nat (length ?p3 + length (concat (map kv_field kvs))))"
    using Cons.IH [of ?p3 q1] Cons.prems by auto
  then have "ingest_kvs d (length (kv # kvs)) (at bs q, word_of_nat (length pre)) =
      Value (at bs q', word_of_nat (length ?p3 + length (concat (map kv_field kvs))))"
    unfolding list.size add_Suc_right add_0_right ingest_kvs.simps
    by (simp only: key run_bind.simps prod.case Let_def seekg_at [OF p1] at_sel if_False option.case ty u32_of_le_of val)
  then show ?case by (auto simp: add.assoc)
qed auto

definition table_entry :: "gguf_tensor \<Rightarrow> GgufTensor" where
  "table_entry t = \<lparr> gg_name = gt_name t, gg_offset = gt_offset t, gg_size = 0, gg_type = gt_type t \<rparr>"

lemma ingest_tensors_at:
  assumes "\<forall>t \<in> set ts. length (gt_dims t) < 4294967296 \<and> length (gt_name t) \<le> 67108864"
    and "length bs < 9223372036854775808" "bs = pre @ concat (map tensor_field ts) @ post"
  shows "\<exists>q'. ingest_tensors (length ts) (at bs q, word_of_nat (length pre)) acc =
    Value (acc @ map table_entry ts, at bs q', word_of_nat (length pre + length (concat (map tensor_field ts))))"
  using assms(1,3)
proof (induction ts arbitrary: pre q acc)
  case (Cons t ts)
  let ?n = "word_of_nat (length (gt_dims t)) :: u32" and ?D = "concat (map le_of_u64 (gt_dims t))"
  let ?p1 = "pre @ string_field (gt_name t)" and ?p2 = "pre @ string_field (gt_name t) @ le_of_u32 ?n"
  let ?p3 = "pre @ string_field (gt_name t) @ le_of_u32 ?n @ ?D" and ?p4 = "pre @ tensor_field t"
  have field: "tensor_field t = string_field (gt_name t) @ le_of_u32 ?n @ ?D @ le_of_u32 (gt_type t) @ le_of_u64 (gt_offset t)"
    by (simp add: tensor_field_def)
  have D: "length ?D = 8 * length (gt_dims t)" by (simp add: length_concat comp_def sum_list_triv)
  have bs: "bs = pre @ string_field (gt_name t) @ le_of_u32 ?n @ ?D @ le_of_u32 (gt_type t) @
      le_of_u64 (gt_offset t) @ concat (map tensor_field ts) @ post"
    using Cons.prems(2) by (simp add: field)
  have name: "ingest_read_string (at bs q) (word_of_nat (length pre)) =
      Value (gt_name t, word_of_nat (length ?p1), at bs (length ?p1))"
    using ingest_string_at [OF bs assms(2)] Cons.prems(1) by simp
  have p1: "length ?p1 < 9223372036854775808" and p3: "length ?p3 < 9223372036854775808"
    using bs assms(2) by (simp_all add: D)
  have dims: "stream_read 4 (at bs (length ?p1)) = (Some (le_of_u32 ?n), at bs (length ?p1 + 4))"
    using bs by (intro read_at_stream [of _ ?p1]) simp_all
  have "unat ?n = length (gt_dims t)" using Cons.prems(1) by (intro unat_of_nat_u32) simp
  moreover have "word_of_nat (unat (ucast ?n :: u64)) = (ucast ?n :: u64)" by simp
  ultimately have "ucast ?n = (word_of_nat (length (gt_dims t)) :: u64)"
    unfolding unat_ucast_u64 by simp
  then have off: "word_of_nat (length ?p1) + 4 + 8 * ucast ?n = (word_of_nat (length ?p3) :: u64)"
    by (simp add: D algebra_simps)
  have ty: "stream_read 4 (at bs (length ?p3)) = (Some (le_of_u32 (gt_type t)), at bs (length ?p3 + 4))"
    using bs by (intro read_at_stream [of _ ?p3]) simp_all
  have to: "stream_read 8 (at bs (length ?p3 + 4)) = (Some (le_of_u64 (gt_offset t)), at bs (length ?p3 + 4 + 8))"
    using bs by (intro read_at_stream [of _ "?p3 @ le_of_u32 (gt_type t)"]) simp_all
  have p4: "word_of_nat (length ?p3) + 12 = (word_of_nat (length ?p4) :: u64)"
    by (simp add: field algebra_simps)
  obtain q' where "ingest_tensors (length ts) (at bs (length ?p3 + 4 + 8), word_of_nat (length ?p4)) (acc @ [table_entry t]) =
      Value ((acc @ [table_entry t]) @ map table_entry ts, at bs q', word_of_nat (length ?p4 + length (concat (map tensor_field ts))))"
    using Cons.IH [of ?p4 "length ?p3 + 4 + 8" "acc @ [table_entry t]"] Cons.prems by auto
  then have "ingest_tensors (length (t # ts)) (at bs q, word_of_nat (length pre)) acc =
      Value ((acc @ [table_entry t]) @ map table_entry ts, at bs q', word_of_nat (length ?p4 + length (concat (map tensor_field ts))))"
    unfolding list.size add_Suc_right add_0_right ingest_tensors.simps
    by (simp only: name run_bind.simps prod.case Let_def seekg_at [OF p1] at_sel if_False option.case dims
        u32_of_le_of off seekg_at [OF p3] ty to u64_of_le_of p4 table_entry_def [symmetric])
  then show ?case by (auto simp: add.assoc)
qed auto

section \<open>Writing the slices\<close>

lemma write_at_twice:
  assumes "p \<le> length d"
  shows "write_at (p + length x) y (write_at p x d) = write_at p (x @ y) d"
  using assms by (simp add: write_at_def min_def ac_simps)

lemma stream_write_append: "stream_write (x @ y) w = stream_write y (stream_write x w)"
proof (cases "os_fail w \<or> x = [] \<or> y = []")
  case True
  then show ?thesis by (auto simp: stream_write_def)
next
  case False
  let ?D = "os_data w @ replicate (os_pos w - length (os_data w)) 0"
  have le: "os_pos w \<le> length ?D" by simp
  then have "os_pos w + length x \<le> length (write_at (os_pos w) x ?D)" by (simp add: write_at_def)
  then show ?thesis
    using False write_at_twice [OF le, of x y] by (simp add: stream_write_def add.assoc)
qed

lemma stream_write_Nil [simp]: "stream_write [] w = w"
  by (simp add: stream_write_def)

lemma copy_chunks_at:
  "p + r \<le> length bs \<Longrightarrow> copy_chunks r (at bs p) w = (0, at bs (p + r), stream_write (read_at p r bs) w)"
proof (induction r arbitrary: p w rule: less_induct)
  case (less r)
  show ?case
  proof (cases "r = 0")
    case True
    then show ?thesis by (simp add: copy_chunks.simps [of 0] read_at_def)
  next
    case False
    let ?m = "min r chunk_bytes"
    have m: "?m \<le> r" "r - ?m < r" "p + ?m + (r - ?m) = p + r" using False by auto
    have "stream_read ?m (at bs p) = (Some (read_at p ?m bs), at bs (p + ?m))"
    proof -
      have "p + ?m \<le> length bs" using less.prems m(1) by linarith
      then show ?thesis by (simp add: stream_read_def at_def)
    qed
    moreover have "copy_chunks (r - ?m) (at bs (p + ?m)) (stream_write (read_at p ?m bs) w) =
        (0, at bs (p + r), stream_write (read_at (p + ?m) (r - ?m) bs) (stream_write (read_at p ?m bs) w))"
      using less.IH [OF m(2), of "p + ?m"] less.prems m(3) by simp
    ultimately show ?thesis
      using False read_at_split [OF m(1), of p bs]
      by (subst copy_chunks.simps) (simp add: stream_write_append [symmetric])
  qed
qed

definition out_at :: "u8 list \<Rightarrow> nat \<Rightarrow> ofstream" where
  "out_at d q = \<lparr> os_data = d, os_pos = q, os_fail = False \<rparr>"

text \<open>A slice written at or behind the end of the file.\<close>

lemma write_slice:
  assumes "length d \<le> a" "a < 9223372036854775808"
  shows "\<exists>ext q'. stream_write x (seekp (word_of_nat a) (out_at d q)) = out_at (d @ ext) q' \<and>
    length (d @ ext) \<le> a + length x \<and> read_at a (length x) (d @ ext) = x"
proof -
  have "seekp (word_of_nat a) (out_at d q) = out_at d a"
    using assms(2) by (simp add: seekp_def out_at_def word_less_nat_alt unat_of_nat_u64)
  moreover have "write_at a x (d @ replicate (a - length d) 0) = d @ (replicate (a - length d) 0 @ x)"
    using assms(1) by (simp add: write_at_def)
  ultimately show ?thesis
    using assms(1)
    by (cases "x = []")
      (auto simp: stream_write_def out_at_def read_at_def intro: exI [of _ "[]"]
        exI [of _ "replicate (a - length d) 0 @ x"])
qed

lemma align_up:
  fixes c :: u64 and al :: u32
  assumes "unat c + unat al < 9223372036854775808" "al \<noteq> 0"
  shows "\<exists>a. (c + ucast al - 1) div ucast al * ucast al = word_of_nat a \<and> unat c \<le> a \<and> a < unat c + unat al \<and> unat al dvd a"
proof -
  let ?a = "(unat c + unat al - 1) div unat al * unat al"
  have pos: "0 < unat al" using assms(2) by (simp add: unat_gt_0)
  have u: "unat (ucast al :: u64) = unat al" by (rule unat_ucast_u64)
  have s: "unat (c + ucast al) = unat c + unat al"
    using u64_add_unat [of c "ucast al"] assms(1) by (simp add: u)
  then have "c + ucast al \<noteq> 0" using pos by (metis add_is_0 less_irrefl unat_0)
  then have m: "unat (c + ucast al - 1) = unat c + unat al - 1" by (simp add: u64_pred_unat s)
  have le: "?a \<le> unat c + unat al - 1" by simp
  have "unat ((c + ucast al - 1) div ucast al * ucast al) = ?a"
  proof -
    have d: "unat ((c + ucast al - 1) div ucast al) = (unat c + unat al - 1) div unat al"
      by (simp add: unat_div m u)
    have "?a < 18446744073709551616" using le assms(1) by linarith
    then show ?thesis
      using u64_mult_unat [of "(c + ucast al - 1) div ucast al" "ucast al"] by (simp only: d u)
  qed
  moreover have "word_of_nat (unat x) = x" for x :: u64 by simp
  ultimately have "(c + ucast al - 1) div ucast al * ucast al = word_of_nat ?a" by metis
  moreover have "unat c \<le> ?a"
  proof -
    have "unat c + unat al - 1 = ?a + (unat c + unat al - 1) mod unat al" by simp
    moreover have "(unat c + unat al - 1) mod unat al < unat al" using pos by simp
    ultimately show ?thesis by linarith
  qed
  moreover have "?a < unat c + unat al" using le pos by linarith
  ultimately show ?thesis by (intro exI [of _ ?a]) simp
qed

text \<open>
  What a repacked file is: tensor by tensor, a coordinate of the tensor's type behind everything
  before it, aligned, under which the new file has the source bytes up to the next tensor's.
\<close>

definition tensor_end :: "u8 list \<Rightarrow> GgufTensor list \<Rightarrow> nat" where
  "tensor_end data ts = (case ts of [] \<Rightarrow> length data | u # _ \<Rightarrow> unat (gg_offset u))"

fun payload_slices ::
  "nat \<Rightarrow> u8 list \<Rightarrow> u8 list \<Rightarrow> nat \<Rightarrow> GgufTensor list \<Rightarrow> (string \<times> TensorCoordinate) list \<Rightarrow> bool" where
  "payload_slices al data out c [] [] \<longleftrightarrow> True"
| "payload_slices al data out c (t # ts) ((n, k) # ks) \<longleftrightarrow>
    (let sz = tensor_end data ts - unat (gg_offset t) in
     n = gg_name t \<and> tc_quant_type k = gg_type t \<and> unat (tc_byte_size k) = sz \<and>
     c \<le> unat (tc_absolute_offset k) \<and> al dvd unat (tc_absolute_offset k) \<and>
     read_at (unat (tc_absolute_offset k)) sz out = read_at (unat (gg_offset t)) sz data \<and>
     payload_slices al data out (unat (tc_absolute_offset k) + sz) ts ks)"
| "payload_slices al data out c _ _ \<longleftrightarrow> False"

fun offsets_ascend :: "u8 list \<Rightarrow> GgufTensor list \<Rightarrow> bool" where
  "offsets_ascend data [] \<longleftrightarrow> True"
| "offsets_ascend data (t # ts) \<longleftrightarrow> unat (gg_offset t) \<le> tensor_end data ts \<and> offsets_ascend data ts"

lemma tensor_end_le: "offsets_ascend data ts \<Longrightarrow> tensor_end data ts \<le> length data"
  by (induction ts) (auto simp: tensor_end_def split: list.splits)

lemma assign_sizes_Cons:
  assumes "offsets_ascend data (t # ts)" "ds + length data < 9223372036854775808"
  shows "\<exists>sz. assign_sizes (word_of_nat ds) (word_of_nat (ds + length data)) (t # ts) =
      t\<lparr>gg_size := sz\<rparr> # assign_sizes (word_of_nat ds) (word_of_nat (ds + length data)) ts \<and>
    unat sz = tensor_end data ts - unat (gg_offset t)"
proof (cases ts)
  case Nil
  have le: "unat (gg_offset t) \<le> length data" using assms(1) Nil by (simp add: tensor_end_def)
  have u: "unat (word_of_nat ds :: u64) = ds" "unat (word_of_nat (ds + length data) :: u64) = ds + length data"
    using assms(2) by (simp_all only: unat_of_nat_u64)
  have e: "unat (word_of_nat ds + gg_offset t) = ds + unat (gg_offset t)"
    using u64_add_unat [of "word_of_nat ds" "gg_offset t"] le assms(2) by (simp add: u)
  then have "word_of_nat ds + gg_offset t \<le> word_of_nat (ds + length data)"
    using le by (simp add: word_le_nat_alt u del: of_nat_add)
  moreover from this have "unat (word_of_nat (ds + length data) - (word_of_nat ds + gg_offset t)) =
      length data - unat (gg_offset t)"
    by (simp add: unat_sub e u del: of_nat_add)
  ultimately show ?thesis
    using Nil by (intro exI [of _ "word_of_nat (ds + length data) - (word_of_nat ds + gg_offset t)"])
      (simp add: tensor_end_def Let_def del: of_nat_add)
next
  case (Cons u us)
  then have "gg_offset t \<le> gg_offset u" using assms(1) by (simp add: tensor_end_def word_le_nat_alt)
  then show ?thesis
    using Cons by (intro exI [of _ "gg_offset u - gg_offset t"]) (simp add: tensor_end_def unat_sub)
qed

lemma copy_slice:
  assumes "is_data f = bs" "a + n \<le> length bs" "length bs < 9223372036854775808" "c \<le> b" "length d \<le> b"
    "b < 9223372036854775808"
  shows "\<exists>f' ext q'. is_data f' = bs \<and>
    copy_chunks n (seekg (word_of_nat a) (f\<lparr>is_fail := False\<rparr>)) (seekp (word_of_nat b) (out_at d q)) =
      (0, f', out_at (d @ ext) q') \<and>
    length (d @ ext) \<le> b + n \<and> read_at b n (d @ ext) = read_at a n bs"
proof -
  have "f\<lparr>is_fail := False\<rparr> = at bs (is_pos f)" using assms(1) by (cases f) (simp add: at_def)
  moreover have "a < 9223372036854775808" using assms(2,3) by linarith
  ultimately have seek: "seekg (word_of_nat a) (f\<lparr>is_fail := False\<rparr>) = at bs a" by (simp add: seekg_at)
  have n: "length (read_at a n bs) = n" using assms(2) by (simp add: read_at_def)
  from write_slice [OF assms(5,6), of "read_at a n bs" q] obtain ext q' where
    "stream_write (read_at a n bs) (seekp (word_of_nat b) (out_at d q)) = out_at (d @ ext) q'"
    "length (d @ ext) \<le> b + n" "read_at b n (d @ ext) = read_at a n bs"
    unfolding n by blast
  then show ?thesis
    unfolding seek copy_chunks_at [OF assms(2)] by (intro exI [of _ "at bs (a + n)"]) auto
qed

lemma read_at_prefix: "length (read_at a n d) = n \<Longrightarrow> read_at a n (d @ e) = read_at a n d"
  by (auto simp: read_at_def)

lemma repack_slices:
  assumes "al \<noteq> 0" "length pre + length data < 9223372036854775808"
    and "offsets_ascend data ts"
    and "unat c + (length data - tensor_end data ts) + length ts * unat al < 9223372036854775808"
    and "is_data f = pre @ data" "length d \<le> unat c"
  shows "\<exists>ext q' ks c'. repack al (word_of_nat (length pre))
      (assign_sizes (word_of_nat (length pre)) (word_of_nat (length pre + length data)) ts) c f (out_at d q) coords =
      Value (c', out_at (d @ ext) q', coords @ ks) \<and> length (d @ ext) \<le> unat c' \<and> c \<le> c' \<and>
      payload_slices (unat al) data (d @ ext) (unat c) ts ks"
  using assms(3-6)
proof (induction ts arbitrary: c f d q coords)
  case (Cons t ts)
  let ?bs = "pre @ data" and ?n = "tensor_end data ts - unat (gg_offset t)"
  have asc: "unat (gg_offset t) \<le> tensor_end data ts" "offsets_ascend data ts" using Cons.prems(1) by simp_all
  have le: "tensor_end data ts \<le> length data" by (rule tensor_end_le [OF asc(2)])
  have hd: "tensor_end data (t # ts) = unat (gg_offset t)" by (simp add: tensor_end_def)
  obtain sz where sz: "assign_sizes (word_of_nat (length pre)) (word_of_nat (length pre + length data)) (t # ts) =
      t\<lparr>gg_size := sz\<rparr> # assign_sizes (word_of_nat (length pre)) (word_of_nat (length pre + length data)) ts"
      "unat sz = ?n"
    using assign_sizes_Cons [OF Cons.prems(1) assms(2)] by blast
  have room: "unat c + (length data - unat (gg_offset t)) + unat al + length ts * unat al < 9223372036854775808"
    using Cons.prems(2) unfolding hd list.size by (simp add: algebra_simps)
  then have "unat c + unat al < 9223372036854775808" by linarith
  from align_up [OF this assms(1)] obtain b where b:
      "(c + ucast al - 1) div ucast al * ucast al = word_of_nat b" "unat c \<le> b" "b < unat c + unat al" "unat al dvd b"
    by blast
  have b63: "b + ?n < 9223372036854775808" using room b(3) le by linarith
  then have ub: "unat (word_of_nat b :: u64) = b" by (intro unat_of_nat_u64) linarith
  have src: "word_of_nat (length pre) + gg_offset t = word_of_nat (length pre + unat (gg_offset t))" by simp
  have off: "length pre + unat (gg_offset t) + ?n \<le> length ?bs" using asc(1) le by simp
  have d: "length d \<le> b" and b0: "b < 9223372036854775808" using Cons.prems(4) b(2) b63 by linarith+
  have bs: "length ?bs < 9223372036854775808" using assms(2) by simp
  from copy_slice [OF Cons.prems(3) off bs order_refl d b0, of q] obtain f' ext q' where cp: "is_data f' = ?bs"
      "copy_chunks ?n (seekg (word_of_nat (length pre + unat (gg_offset t))) (f\<lparr>is_fail := False\<rparr>))
        (seekp (word_of_nat b) (out_at d q)) = (0, f', out_at (d @ ext) q')"
      "length (d @ ext) \<le> b + ?n"
      "read_at b ?n (d @ ext) = read_at (length pre + unat (gg_offset t)) ?n ?bs"
    by blast
  have c': "unat (word_of_nat b + sz) = b + ?n"
    using u64_add_unat [of "word_of_nat b" sz] b63 by (simp add: ub sz(2))
  let ?k = "(gg_name t, \<lparr> tc_absolute_offset = word_of_nat b, tc_byte_size = sz, tc_quant_type = gg_type t, tc_padding = 0 \<rparr>)"
  have "unat (word_of_nat b + sz) + (length data - tensor_end data ts) + length ts * unat al < 9223372036854775808"
    using room b(3) asc(1) le by (simp only: c')
  from Cons.IH [OF asc(2) this cp(1), of "d @ ext" q' "coords @ [?k]"] cp(3)
  obtain ext2 q2 ks c2 where ih: "repack al (word_of_nat (length pre))
      (assign_sizes (word_of_nat (length pre)) (word_of_nat (length pre + length data)) ts) (word_of_nat b + sz) f'
        (out_at (d @ ext) q') (coords @ [?k]) = Value (c2, out_at (d @ ext @ ext2) q2, coords @ ?k # ks)"
      "length (d @ ext @ ext2) \<le> unat c2" "word_of_nat b + sz \<le> c2"
      "payload_slices (unat al) data (d @ ext @ ext2) (b + ?n) ts ks"
    unfolding c' by auto
  have "read_at (length pre + unat (gg_offset t)) ?n ?bs = read_at (unat (gg_offset t)) ?n data"
    by (simp add: read_at_def)
  moreover have "length (read_at (unat (gg_offset t)) ?n data) = ?n" using asc(1) le by (simp add: read_at_def)
  ultimately have "read_at b ?n (d @ ext @ ext2) = read_at (unat (gg_offset t)) ?n data"
    using read_at_prefix [of b ?n "d @ ext" ext2] cp(4) by simp
  then have "payload_slices (unat al) data (d @ ext @ ext2) (unat c) (t # ts) (?k # ks)"
    using b(2,4) ih(4) sz(2) ub by (simp add: Let_def)
  moreover have "c \<le> c2" using ih(3) b(2) c' by (simp add: word_le_nat_alt)
  moreover have "repack al (word_of_nat (length pre))
      (assign_sizes (word_of_nat (length pre)) (word_of_nat (length pre + length data)) (t # ts)) c f (out_at d q) coords =
      Value (c2, out_at (d @ ext @ ext2) q2, coords @ ?k # ks)"
    using ih(1) by (simp add: sz(1) Let_def assms(1) b(1) src cp(2) sz(2) pad_zeros.simps [of 0] del: of_nat_add)
  ultimately show ?case using ih(2) by (intro exI [of _ "ext @ ext2"] exI [of _ q2] exI [of _ "?k # ks"] exI [of _ c2]) simp
next
  case Nil
  then show ?case by (intro exI [of _ "[]"] exI [of _ q] exI [of _ c]) simp
qed

lemma slices_names: "payload_slices al data out c ts ks \<Longrightarrow> map fst ks = map gg_name ts"
  by (induction al data out c ts ks rule: payload_slices.induct) (auto simp: Let_def)

lemma sorted_offsets_ascend:
  "sorted (map gg_offset ts) \<Longrightarrow> \<forall>t \<in> set ts. unat (gg_offset t) \<le> length data \<Longrightarrow> offsets_ascend data ts"
  by (induction ts) (auto simp: tensor_end_def word_le_nat_alt split: list.splits)

lemma ingest_header:
  assumes "bs = le_of_u32 m @ le_of_u32 v @ le_of_u64 nt @ le_of_u64 nk @ rest"
  shows "stream_read 4 (at bs 0) = (Some (le_of_u32 m), at bs 4)"
    and "stream_read 4 (at bs 4) = (Some (le_of_u32 v), at bs 8)"
    and "stream_read 8 (at bs 8) = (Some (le_of_u64 nt), at bs 16)"
    and "stream_read 8 (at bs 16) = (Some (le_of_u64 nk), at bs 24)"
proof -
  have l: "length (le_of_u32 m) = 4" "length (le_of_u32 v) = 4" "length (le_of_u64 nt) = 8" "length (le_of_u64 nk) = 8"
    by simp_all
  show "stream_read 4 (at bs 0) = (Some (le_of_u32 m), at bs 4)"
    using read_at_stream [of bs "[]", OF _ l(1), of _ 0] assms by simp
  show "stream_read 4 (at bs 4) = (Some (le_of_u32 v), at bs 8)"
    using read_at_stream [of bs "le_of_u32 m", OF _ l(2), of _ 4] assms l(1) by simp
  show "stream_read 8 (at bs 8) = (Some (le_of_u64 nt), at bs 16)"
    using read_at_stream [of bs "le_of_u32 m @ le_of_u32 v", OF _ l(3), of _ 8] assms l(1,2) by simp
  show "stream_read 8 (at bs 16) = (Some (le_of_u64 nk), at bs 24)"
    using read_at_stream [of bs "le_of_u32 m @ le_of_u32 v @ le_of_u64 nt", OF _ l(4), of _ 16] assms l(1-3) by simp
qed

text \<open>
  Ingesting a file of the writer's repacks \<open>data\<close>, all that lies behind the tensor table: where \<open>std::sort\<close> returns the table
  ordered by offset, no value is a 16-bit scalar, offsets lie inside the payload and positions
  stay below 2 to the 63, the call returns, adds one coordinate per tensor, and under every
  coordinate, aligned and behind the one before it, the new file has the bytes the source file
  has from the tensor's offset to the next one's.
\<close>

lemma ingest_slices:
  assumes srt: "\<forall>xs. mset (srt xs) = mset xs \<and> sorted (map gg_offset (srt xs))"
    and kvs: "\<forall>kv \<in> set kvs. wf_value (snd kv) \<and> no_short (snd kv) \<and> depth (snd kv) \<le> d \<and> length (fst kv) \<le> 67108864"
    and ts: "\<forall>t \<in> set ts. length (gt_dims t) < 4294967296 \<and> length (gt_name t) \<le> 67108864 \<and>
      unat (gt_offset t) \<le> length data"
    and al: "al \<noteq> 0" and res: "can_reserve (of_nat (length ts))"
    and len: "length (gguf_bytes version kvs ts data) + length ts * unat al < 9223372036854775808"
  shows "\<exists>cursor ks out_bytes.
    ingest_gguf d can_reserve srt (Some (gguf_bytes version kvs ts data)) True path al out =
      Value (ig_coords out @ ks \<noteq> [] \<and> cursor > 0,
        \<lparr> ig_payload_path = path, ig_coords = ig_coords out @ ks, ig_payload_size = cursor \<rparr>, out_bytes) \<and>
    length out_bytes \<le> unat cursor \<and> mset (map fst ks) = mset (map gt_name ts) \<and>
    payload_slices (unat al) data out_bytes 0 (srt (map table_entry ts)) ks"
proof -
  let ?bs = "gguf_bytes version kvs ts data" and ?K = "concat (map kv_field kvs)" and ?T = "concat (map tensor_field ts)"
  let ?h = "le_of_u32 0x46554747 @ le_of_u32 version @ le_of_u64 (of_nat (length ts)) @ le_of_u64 (of_nat (length kvs))"
  let ?S = "srt (map table_entry ts)"
  have bs: "?bs = ?h @ ?K @ ?T @ data" "?bs = (?h @ ?K) @ ?T @ data" "?bs = (?h @ ?K @ ?T) @ data"
    by (simp_all add: gguf_bytes_def)
  have b63: "length ?bs < 9223372036854775808" using len by linarith
  have "length kvs \<le> length ?K" by (induction kvs) (auto simp: kv_field_def)
  moreover have "length ts \<le> length ?T" by (induction ts) (auto simp: tensor_field_def)
  ultimately have nk: "unat (word_of_nat (length kvs) :: u64) = length kvs" and nt: "unat (word_of_nat (length ts) :: u64) = length ts"
    using b63 bs(1) by (auto intro!: unat_of_nat_u64)
  note hdr = ingest_header [OF gguf_bytes_def [unfolded append_assoc], of version kvs ts data]
  obtain q1 where k: "ingest_kvs d (length kvs) (at ?bs 24, 24) = Value (at ?bs q1, word_of_nat (length (?h @ ?K)))"
    using ingest_kvs_at [OF kvs b63 bs(1), of 24] by auto
  have ts': "\<forall>t \<in> set ts. length (gt_dims t) < 4294967296 \<and> length (gt_name t) \<le> 67108864" using ts by blast
  obtain q2 where t: "ingest_tensors (length ts) (at ?bs q1, word_of_nat (length (?h @ ?K))) [] =
      Value (map table_entry ts, at ?bs q2, word_of_nat (length (?h @ ?K @ ?T)))"
    using ingest_tensors_at [OF ts' b63 bs(2), of q1 "[]"] by auto
  have set: "set ?S = set (map table_entry ts)" "length ?S = length ts"
    using srt by (metis set_mset_mset, metis length_map size_mset)
  then have asc: "offsets_ascend data ?S"
    using srt ts by (intro sorted_offsets_ascend) (auto simp: table_entry_def)
  have sum: "unat (0 :: u64) + (length data - tensor_end data ?S) + length ?S * unat al < 9223372036854775808"
    using len bs(3) by (simp add: set(2))
  have pd: "length (?h @ ?K @ ?T) + length data < 9223372036854775808" using b63 bs(3) by simp
  have "is_data (at ?bs q2) = (?h @ ?K @ ?T) @ data" using bs(3) by simp
  from repack_slices [OF al pd asc sum this, of "[]" 0 "ig_coords out"]
  obtain w q' ks c where r: "repack al (word_of_nat (length (?h @ ?K @ ?T)))
      (assign_sizes (word_of_nat (length (?h @ ?K @ ?T))) (word_of_nat (length (?h @ ?K @ ?T) + length data)) ?S) 0
      (at ?bs q2) (out_at [] 0) (ig_coords out) = Value (c, out_at w q', ig_coords out @ ks)"
    "length w \<le> unat c" "payload_slices (unat al) data w 0 ?S ks" by auto
  have lb: "length ?bs = length (?h @ ?K @ ?T) + length data" using bs(3) by simp
  have "mset (map fst ks) = image_mset gg_name (mset ?S)" using slices_names [OF r(3)] by simp
  then have "mset (map fst ks) = mset (map gt_name ts)" using srt by (simp add: table_entry_def image_mset.compositionality comp_def)
  moreover have "ingest_gguf d can_reserve srt (Some ?bs) True path al out =
      Value (ig_coords out @ ks \<noteq> [] \<and> c > 0,
        \<lparr> ig_payload_path = path, ig_coords = ig_coords out @ ks, ig_payload_size = c \<rparr>, w)"
    unfolding ingest_gguf_def option.case Let_def at_def [symmetric] hdr out_at_def [symmetric]
    by (simp only: hdr prod.case option.case u32_of_le_of u64_of_le_of nk nt k t run_bind.simps res lb r(1)
        simp_thms if_False if_True) (simp add: out_at_def)
  ultimately show ?thesis using r(2,3) by blast
qed

text \<open>
  The ingestor takes the first byte behind the tensor table for the start of the data section. In a file with
  alignment padding it therefore cuts its slices from the padding and the data together, each as many bytes too early
  as there is padding.
\<close>

lemma ingest_takes_padding:
  assumes "\<forall>xs. mset (srt xs) = mset xs \<and> sorted (map gg_offset (srt xs))"
    and "\<forall>kv \<in> set kvs. wf_value (snd kv) \<and> no_short (snd kv) \<and> depth (snd kv) \<le> d \<and> length (fst kv) \<le> 67108864"
    and "\<forall>t \<in> set ts. length (gt_dims t) < 4294967296 \<and> length (gt_name t) \<le> 67108864 \<and>
      unat (gt_offset t) \<le> length data"
    and "al \<noteq> 0" "can_reserve (of_nat (length ts))"
    and "length (gguf_file version kvs ts data) + length ts * unat al < 9223372036854775808"
  shows "\<exists>cursor ks out_bytes.
    ingest_gguf d can_reserve srt (Some (gguf_file version kvs ts data)) True path al out =
      Value (ig_coords out @ ks \<noteq> [] \<and> cursor > 0,
        \<lparr> ig_payload_path = path, ig_coords = ig_coords out @ ks, ig_payload_size = cursor \<rparr>, out_bytes) \<and>
    payload_slices (unat al) (gguf_padding version kvs ts @ data) out_bytes 0 (srt (map table_entry ts)) ks"
proof -
  have ts: "\<forall>t \<in> set ts. length (gt_dims t) < 4294967296 \<and> length (gt_name t) \<le> 67108864 \<and>
      unat (gt_offset t) \<le> length (gguf_padding version kvs ts @ data)"
    using assms(3) by fastforce
  show ?thesis
    using ingest_slices [where can_reserve = can_reserve, OF assms(1,2) ts assms(4,5) assms(6) [unfolded gguf_file_def], of path out]
    unfolding gguf_file_def by blast
qed

definition ingest_example :: "gguf_tensor list" where
  "ingest_example =
    [\<lparr> gt_name = ''b'', gt_dims = [4, 2], gt_type = 8, gt_offset = 2 \<rparr>,
     \<lparr> gt_name = ''a'', gt_dims = [], gt_type = 0, gt_offset = 0 \<rparr>]"

lemma ingest_slices_example:
  "\<exists>cursor ks out_bytes.
    ingest_gguf 1 (\<lambda>n. n < 1000) (sort_key gg_offset) (Some (gguf_bytes 3 [(''n'', Scalar 7 [1])] ingest_example [9, 8, 7]))
      True ''o'' 4096 \<lparr> ig_payload_path = '''', ig_coords = [], ig_payload_size = 0 \<rparr> =
      Value (cursor > 0, \<lparr> ig_payload_path = ''o'', ig_coords = ks, ig_payload_size = cursor \<rparr>, out_bytes) \<and>
    payload_slices 4096 [9, 8, 7] out_bytes 0 (sort_key gg_offset (map table_entry ingest_example)) ks"
proof -
  have kvs: "\<forall>kv \<in> set [(''n'', Scalar 7 [1])]. wf_value (snd kv) \<and> no_short (snd kv) \<and> depth (snd kv) \<le> 1 \<and>
      length (fst kv) \<le> 67108864"
    by (simp add: scalar_size_def)
  have ts: "\<forall>t \<in> set ingest_example. length (gt_dims t) < 4294967296 \<and> length (gt_name t) \<le> 67108864 \<and>
      unat (gt_offset t) \<le> length [9 :: u8, 8, 7]"
    by (simp add: ingest_example_def)
  have len: "length (gguf_bytes 3 [(''n'', Scalar 7 [1])] ingest_example [9, 8, 7]) + length ingest_example * unat (4096 :: u32) <
      9223372036854775808"
    by (simp add: gguf_bytes_def ingest_example_def kv_field_def tensor_field_def string_field_def)
  have res: "(of_nat (length ingest_example) :: u64) < 1000" by (simp add: ingest_example_def)
  have al: "(4096 :: u32) \<noteq> 0" by simp
  have srt: "\<forall>xs. mset (sort_key gg_offset xs) = mset xs \<and> sorted (map gg_offset (sort_key gg_offset xs))" by simp
  from ingest_slices [OF srt kvs ts al _ len, of "\<lambda>n. n < 1000" "''o''"
      "\<lparr> ig_payload_path = '''', ig_coords = [], ig_payload_size = 0 \<rparr>", OF res]
  obtain c ks out_bytes where
    r: "ingest_gguf 1 (\<lambda>n. n < 1000) (sort_key gg_offset) (Some (gguf_bytes 3 [(''n'', Scalar 7 [1])] ingest_example [9, 8, 7]))
      True ''o'' 4096 \<lparr> ig_payload_path = '''', ig_coords = [], ig_payload_size = 0 \<rparr> =
      Value (ks \<noteq> [] \<and> c > 0, \<lparr> ig_payload_path = ''o'', ig_coords = ks, ig_payload_size = c \<rparr>, out_bytes)"
    and m: "mset (map fst ks) = mset (map gt_name ingest_example)"
    and s: "payload_slices 4096 [9, 8, 7] out_bytes 0 (sort_key gg_offset (map table_entry ingest_example)) ks"
    by auto
  have "ks \<noteq> []" using m by (auto simp: ingest_example_def)
  then show ?thesis using r s by auto
qed

end
