(* ===== verification/KahnGraph.thy ===== *)
theory KahnGraph
  imports DxPrelude
begin

text \<open>
  The command graph of \<open>src/dxgraph/dxgraph.cpp\<close>: nodes with dependencies, an execution order by
  Kahn's algorithm, and the execution of the nodes' functions on a command list in that order. A
  node's function maps the state of the command list to the next, or throws (\<open>None\<close>). The device
  calls that create, reset and submit the command list are outside the model.
\<close>

section \<open>The graph\<close>

record 'l GraphNode =
  gn_id :: u32
  gn_name :: string
  gn_func :: "'l \<Rightarrow> 'l option"
  gn_dependencies :: "u32 list"

record 'l CommandGraph =
  cg_nodes :: "'l GraphNode list"
  cg_order :: "u32 list"
  cg_compiled :: bool

datatype graph_error = Invalid_Dependency | Graph_Cycle | Node_Throws

definition new_CommandGraph :: "'l CommandGraph" where
  "new_CommandGraph = \<lparr> cg_nodes = [], cg_order = [], cg_compiled = False \<rparr>"

definition add_node ::
  "string \<Rightarrow> ('l \<Rightarrow> 'l option) \<Rightarrow> u32 list \<Rightarrow> 'l CommandGraph \<Rightarrow> u32 \<times> 'l CommandGraph" where
  "add_node name f deps g =
    (let id = of_nat (length (cg_nodes g))
     in (id, g\<lparr>cg_nodes := cg_nodes g @
          [\<lparr> gn_id = id, gn_name = name, gn_func = f, gn_dependencies = deps \<rparr>], cg_compiled := False\<rparr>))"

text \<open>The adjacency lists and in-degrees; a dependency out of range throws.\<close>

fun link_deps :: "nat \<Rightarrow> u32 \<Rightarrow> u32 list \<Rightarrow> u32 list list \<times> u32 list \<Rightarrow> (u32 list list \<times> u32 list) option" where
  "link_deps n i [] s = Some s"
| "link_deps n i (d # ds) (adj, deg) =
    (if unat d \<ge> n then None
     else link_deps n i ds (adj[unat d := adj ! unat d @ [i]], deg[unat i := deg ! unat i + 1]))"

fun link_nodes :: "nat \<Rightarrow> 'l GraphNode list \<Rightarrow> u32 list list \<times> u32 list \<Rightarrow> (u32 list list \<times> u32 list) option" where
  "link_nodes n [] s = Some s"
| "link_nodes n (node # ns) s =
    (case link_deps n (gn_id node) (gn_dependencies node) s of
       None \<Rightarrow> None
     | Some s' \<Rightarrow> link_nodes n ns s')"

fun release :: "u32 list \<Rightarrow> u32 list \<Rightarrow> u32 list \<Rightarrow> u32 list \<times> u32 list" where
  "release [] deg ready = (deg, ready)"
| "release (x # xs) deg ready =
    (let deg' = deg[unat x := deg ! unat x - 1]
     in release xs deg' (if deg' ! unat x = 0 then ready @ [x] else ready))"

partial_function (option) kahn ::
  "u32 list list \<Rightarrow> u32 list \<Rightarrow> u32 list \<Rightarrow> u32 list \<Rightarrow> u32 list option" where
  "kahn adj deg ready order =
    (case ready of
       [] \<Rightarrow> Some order
     | x # rest \<Rightarrow>
         (case release (adj ! unat x) deg rest of (deg', ready') \<Rightarrow> kahn adj deg' ready' (order @ [x])))"

definition roots :: "nat \<Rightarrow> u32 list \<Rightarrow> u32 list" where
  "roots n deg = filter (\<lambda>i. deg ! unat i = 0) (map of_nat [0..<n])"

text \<open>
  \<open>compile\<close>: \<open>None\<close> if the loop does not end, otherwise what it throws, if anything, and the new
  state. A cycle leaves the nodes that could be ordered in \<open>m_order\<close>.
\<close>

definition graph_compile :: "'l CommandGraph \<Rightarrow> ((graph_error + unit) \<times> 'l CommandGraph) option" where
  "graph_compile g =
    (let ns = cg_nodes g; n = length ns
     in (case link_nodes n ns (replicate n [], replicate n 0) of
         None \<Rightarrow> Some (Inl Invalid_Dependency, g)
       | Some (adj, deg) \<Rightarrow>
           map_option (\<lambda>order.
             if length order \<noteq> n then (Inl Graph_Cycle, g\<lparr>cg_order := order\<rparr>)
             else (Inr (), g\<lparr>cg_order := order, cg_compiled := True\<rparr>))
           (kahn adj deg (roots n deg) [])))"

fun run_nodes :: "'l GraphNode list \<Rightarrow> u32 list \<Rightarrow> 'l \<Rightarrow> 'l option" where
  "run_nodes ns [] l = Some l"
| "run_nodes ns (i # is) l = Option.bind (gn_func (ns ! unat i) l) (run_nodes ns is)"

definition graph_execute :: "'l \<Rightarrow> 'l CommandGraph \<Rightarrow> ((graph_error + 'l) \<times> 'l CommandGraph) option" where
  "graph_execute l g =
    Option.bind (if cg_compiled g then Some (Inr (), g) else graph_compile g) (\<lambda>(r, g').
      case r of
        Inl e \<Rightarrow> Some (Inl e, g')
      | Inr _ \<Rightarrow>
          (case run_nodes (cg_nodes g') (cg_order g') l of
             None \<Rightarrow> Some (Inl Node_Throws, g')
           | Some l' \<Rightarrow> Some (Inr l', g')))"

section \<open>Linking\<close>

lemma unat_eq [simp]: "unat x = unat y \<longleftrightarrow> x = y"
  by (simp add: word_unat_eq_iff)

definition graph_edges :: "'l GraphNode list \<Rightarrow> (u32 \<times> u32) list" where
  "graph_edges ns = concat (map (\<lambda>v. map (Pair (gn_id v)) (gn_dependencies v)) ns)"

fun link_edges :: "nat \<Rightarrow> (u32 \<times> u32) list \<Rightarrow> u32 list list \<times> u32 list \<Rightarrow> (u32 list list \<times> u32 list) option" where
  "link_edges n [] s = Some s"
| "link_edges n ((i, d) # es) (adj, deg) =
    (if unat d \<ge> n then None
     else link_edges n es (adj[unat d := adj ! unat d @ [i]], deg[unat i := deg ! unat i + 1]))"

lemma link_edges_append:
  "link_edges n (es @ es') s = Option.bind (link_edges n es s) (link_edges n es')"
  by (induction n es s rule: link_edges.induct) auto

lemma link_deps_edges: "link_deps n i ds s = link_edges n (map (Pair i) ds) s"
  by (induction n i ds s rule: link_deps.induct) auto

lemma link_nodes_edges: "link_nodes n ns s = link_edges n (graph_edges ns) s"
  by (induction ns arbitrary: s)
    (auto simp: graph_edges_def link_deps_edges link_edges_append split: option.splits)

lemma link_edges_bad: "\<exists>(i, d) \<in> set es. n \<le> unat d \<Longrightarrow> link_edges n es s = None"
  by (induction n es s rule: link_edges.induct) auto

lemma link_edges_good:
  assumes "\<forall>(i, d) \<in> set es. unat i < n \<and> unat d < n" "length adj = n" "length deg = n"
    and "\<forall>i :: u32. unat i < n \<longrightarrow> unat (deg ! unat i) + count_list (map fst es) i < 4294967296"
  shows "\<exists>adj' deg'. link_edges n es (adj, deg) = Some (adj', deg') \<and> length adj' = n \<and> length deg' = n \<and>
    (\<forall>(i :: u32) (d :: u32). unat i < n \<longrightarrow> unat d < n \<longrightarrow>
      count_list (adj' ! unat d) i = count_list (adj ! unat d) i + count_list es (i, d)) \<and>
    (\<forall>i :: u32. unat i < n \<longrightarrow> unat (deg' ! unat i) = unat (deg ! unat i) + count_list (map fst es) i) \<and>
    (\<forall>d :: u32. unat d < n \<longrightarrow> set (adj' ! unat d) \<subseteq> set (adj ! unat d) \<union> fst ` set es)"
  using assms
proof (induction es arbitrary: adj deg)
  case (Cons e es)
  obtain i d where e: "e = (i, d)" by fastforce
  have lt: "unat i < n" "unat d < n" using Cons.prems(1) by (auto simp: e)
  let ?adj = "adj[unat d := adj ! unat d @ [i]]" and ?deg = "deg[unat i := deg ! unat i + 1]"
  have "unat (deg ! unat i) + 1 < 4294967296" using Cons.prems(4) lt(1) by (fastforce simp: e)
  then have one: "unat (deg ! unat i + 1) = unat (deg ! unat i) + 1" using u32_add_unat [of "deg ! unat i" 1] by simp
  have deg: "unat (?deg ! unat j) = unat (deg ! unat j) + (if j = i then 1 else 0)" if "unat j < n" for j :: u32
    using one lt(1) Cons.prems(3) by (auto simp: nth_list_update)
  have adj: "?adj ! unat c = adj ! unat c @ (if c = d then [i] else [])" if "unat c < n" for c :: u32
    using lt(2) Cons.prems(2) by (auto simp: nth_list_update)
  have "\<forall>j :: u32. unat j < n \<longrightarrow> unat (?deg ! unat j) + count_list (map fst es) j < 4294967296"
    using Cons.prems(4) by (auto simp: deg e split: if_splits)
  with Cons.IH [of ?adj ?deg] Cons.prems(1-3) obtain adj' deg' where
    ih: "link_edges n es (?adj, ?deg) = Some (adj', deg')" "length adj' = n" "length deg' = n"
      "\<forall>(i :: u32) (d :: u32). unat i < n \<longrightarrow> unat d < n \<longrightarrow>
        count_list (adj' ! unat d) i = count_list (?adj ! unat d) i + count_list es (i, d)"
      "\<forall>i :: u32. unat i < n \<longrightarrow> unat (deg' ! unat i) = unat (?deg ! unat i) + count_list (map fst es) i"
      "\<forall>d :: u32. unat d < n \<longrightarrow> set (adj' ! unat d) \<subseteq> set (?adj ! unat d) \<union> fst ` set es"
    by (auto simp: split_beta)
  have "link_edges n (e # es) (adj, deg) = Some (adj', deg')" using ih(1) lt(2) by (simp add: e)
  moreover have "count_list (adj' ! unat c) j = count_list (adj ! unat c) j + count_list (e # es) (j, c)"
    if "unat j < n" "unat c < n" for j c :: u32
    using ih(4) that by (auto simp: adj e)
  moreover have "unat (deg' ! unat j) = unat (deg ! unat j) + count_list (map fst (e # es)) j" if "unat j < n" for j :: u32
    using ih(5) that by (simp add: deg e)
  moreover have "set (adj' ! unat c) \<subseteq> set (adj ! unat c) \<union> fst ` set (e # es)" if "unat c < n" for c :: u32
    using ih(6) that by (fastforce simp: adj e split: if_splits)
  ultimately show ?case using ih(2,3) by blast
qed auto

section \<open>The loop\<close>

lemma release_spec:
  assumes "length deg = n" "\<forall>x \<in> set xs. unat x < n"
    and "\<forall>i :: u32. unat i < n \<longrightarrow> count_list xs i \<le> unat (deg ! unat i)"
  shows "\<exists>deg' new. release xs deg q = (deg', q @ new) \<and> length deg' = n \<and>
    (\<forall>i :: u32. unat i < n \<longrightarrow> unat (deg' ! unat i) = unat (deg ! unat i) - count_list xs i) \<and>
    distinct new \<and> (\<forall>i. i \<in> set new \<longleftrightarrow> unat i < n \<and> 0 < unat (deg ! unat i) \<and> unat (deg ! unat i) = count_list xs i)"
  using assms
proof (induction xs arbitrary: deg q)
  case (Cons x xs)
  let ?deg = "deg[unat x := deg ! unat x - 1]"
  have x: "unat x < n" using Cons.prems(2) by simp
  have "1 \<le> unat (deg ! unat x)" using Cons.prems(3) x by (metis One_nat_def Suc_leI count_list.simps(2) le_add2 le_trans)
  then have "deg ! unat x \<noteq> 0" by (auto simp: unat_eq_0)
  then have pred: "unat (deg ! unat x - 1) = unat (deg ! unat x) - 1" by (rule unat_minus_one)
  have deg: "unat (?deg ! unat j) = unat (deg ! unat j) - (if j = x then 1 else 0)" if "unat j < n" for j :: u32
    using pred x Cons.prems(1) by (auto simp: nth_list_update)
  have "\<forall>i :: u32. unat i < n \<longrightarrow> count_list xs i \<le> unat (?deg ! unat i)"
    using Cons.prems(3) by (fastforce simp: deg)
  with Cons.IH [of ?deg "if ?deg ! unat x = 0 then q @ [x] else q"] Cons.prems(1,2) obtain deg' new where
    ih: "release xs ?deg (if ?deg ! unat x = 0 then q @ [x] else q) = (deg', (if ?deg ! unat x = 0 then q @ [x] else q) @ new)"
      "length deg' = n" "\<forall>i :: u32. unat i < n \<longrightarrow> unat (deg' ! unat i) = unat (?deg ! unat i) - count_list xs i"
      "distinct new" "\<forall>i. i \<in> set new \<longleftrightarrow> unat i < n \<and> 0 < unat (?deg ! unat i) \<and> unat (?deg ! unat i) = count_list xs i"
    by auto
  let ?new = "if ?deg ! unat x = 0 then x # new else new"
  have "unat (?deg ! unat x) = 0 \<longleftrightarrow> unat (deg ! unat x) = 1"
    using deg [OF x] \<open>1 \<le> unat (deg ! unat x)\<close> by (simp only: refl if_True) linarith
  then have zero: "?deg ! unat x = 0 \<longleftrightarrow> unat (deg ! unat x) = 1" by (simp only: unat_eq_0)
  have "release (x # xs) deg q = (deg', q @ ?new)" using ih(1) by (simp add: Let_def)
  moreover have "unat (deg' ! unat i) = unat (deg ! unat i) - count_list (x # xs) i" if "unat i < n" for i :: u32
    using ih(3) that by (simp add: deg)
  moreover have "distinct ?new" using ih(4,5) by auto
  moreover have "i \<in> set ?new \<longleftrightarrow> unat i < n \<and> 0 < unat (deg ! unat i) \<and> unat (deg ! unat i) = count_list (x # xs) i" for i
  proof (cases "i = x")
    case True
    have "count_list xs x \<le> unat (deg ! unat x) - 1" using Cons.prems(3) x by fastforce
    then show ?thesis using True ih(5) zero x \<open>1 \<le> unat (deg ! unat x)\<close> by (auto simp: deg)
  next
    case False
    then show ?thesis using ih(5) deg by auto
  qed
  ultimately show ?case using ih(2) by blast
qed auto

lemma count_filter: "count_list xs x + length (filter (\<lambda>d. d \<notin> insert x S) xs) = length (filter (\<lambda>d. d \<notin> S) xs)"
  if "x \<notin> S"
  using that by (induction xs) auto

text \<open>Every node of the order comes after its dependencies.\<close>

definition after_deps :: "(u32 \<Rightarrow> u32 list) \<Rightarrow> u32 list \<Rightarrow> bool" where
  "after_deps deps order \<longleftrightarrow> (\<forall>j < length order. set (deps (order ! j)) \<subseteq> set (take j order))"

lemma after_deps_snoc: "after_deps deps order \<Longrightarrow> set (deps x) \<subseteq> set order \<Longrightarrow> after_deps deps (order @ [x])"
  by (auto simp: after_deps_def nth_append less_Suc_eq)

lemma small_ids:
  assumes "distinct xs" "\<forall>x \<in> set xs. unat (x :: u32) < n"
  shows "length xs \<le> n"
proof -
  have "distinct (map unat xs)" using assms(1) by (simp add: distinct_map inj_on_def)
  moreover have "set (map unat xs) \<subseteq> {..<n}" using assms(2) by auto
  ultimately show ?thesis by (metis card_lessThan card_mono distinct_card finite_lessThan length_map)
qed

lemma kahn_spec:
  assumes adj: "\<forall>(i :: u32) (d :: u32). unat i < n \<longrightarrow> unat d < n \<longrightarrow> count_list (adj ! unat d) i = count_list (deps i) d"
    and adj_set: "\<forall>d :: u32. unat d < n \<longrightarrow> (\<forall>x \<in> set (adj ! unat d). unat x < n)"
    and "length deg = n" "distinct (order @ ready)" "\<forall>x \<in> set (order @ ready). unat x < n"
    and "\<forall>i :: u32. unat i < n \<longrightarrow> unat (deg ! unat i) = length (filter (\<lambda>d. d \<notin> set order) (deps i)) \<and>
      (i \<in> set (order @ ready) \<longleftrightarrow> unat (deg ! unat i) = 0)"
    and "after_deps deps order"
  shows "\<exists>order'. kahn adj deg ready order = Some order' \<and> distinct order' \<and> (\<forall>x \<in> set order'. unat x < n) \<and>
    after_deps deps order' \<and> (\<forall>i :: u32. unat i < n \<longrightarrow> (i \<in> set order' \<longleftrightarrow> set (deps i) \<subseteq> set order'))"
  using assms(3-7)
proof (induction "n - length order" arbitrary: deg ready order rule: less_induct)
  case less
  show ?case
  proof (cases ready)
    case Nil
    have "i \<in> set order \<longleftrightarrow> set (deps i) \<subseteq> set order" if "unat i < n" for i :: u32
      using less.prems(4) that Nil by (auto simp: filter_empty_conv)
    then show ?thesis using less.prems Nil by (auto simp: kahn.simps)
  next
    case (Cons x rest)
    have x: "unat x < n" "x \<notin> set order" using less.prems(2,3) Cons by auto
    have cnt: "count_list (adj ! unat x) i + length (filter (\<lambda>d. d \<notin> set (order @ [x])) (deps i)) = unat (deg ! unat i)"
      if "unat i < n" for i :: u32
      using count_filter [OF x(2), of "deps i"] less.prems(4) adj that x(1) by simp
    then have le: "\<forall>i :: u32. unat i < n \<longrightarrow> count_list (adj ! unat x) i \<le> unat (deg ! unat i)" by (metis le_add1)
    have "\<forall>y \<in> set (adj ! unat x). unat y < n" using adj_set x(1) by blast
    from release_spec [OF less.prems(1) this le, of rest] obtain deg' new where
      rel: "release (adj ! unat x) deg rest = (deg', rest @ new)" "length deg' = n"
        "\<forall>i :: u32. unat i < n \<longrightarrow> unat (deg' ! unat i) = unat (deg ! unat i) - count_list (adj ! unat x) i"
        "distinct new" "\<forall>i. i \<in> set new \<longleftrightarrow> unat i < n \<and> 0 < unat (deg ! unat i) \<and>
          unat (deg ! unat i) = count_list (adj ! unat x) i"
      by blast
    have old: "i \<in> set (order @ x # rest) \<longleftrightarrow> unat (deg ! unat i) = 0" if "unat i < n" for i :: u32
      using less.prems(4) that Cons by simp
    have "distinct (order @ x # rest)" using less.prems(2) Cons by simp
    moreover have "set new \<inter> set (order @ x # rest) = {}"
    proof -
      have "i \<notin> set (order @ x # rest)" if "i \<in> set new" for i
        using old [of i] rel(5) [rule_format, of i] that by (simp only: less_irrefl) auto
      then show ?thesis by blast
    qed
    ultimately have dist: "distinct ((order @ [x]) @ rest @ new)" using rel(4) by auto
    moreover have lt: "\<forall>y \<in> set ((order @ [x]) @ rest @ new). unat y < n" using less.prems(3) Cons rel(5) by auto
    moreover have "unat (deg' ! unat i) = length (filter (\<lambda>d. d \<notin> set (order @ [x])) (deps i)) \<and>
        (i \<in> set ((order @ [x]) @ rest @ new) \<longleftrightarrow> unat (deg' ! unat i) = 0)" if "unat i < n" for i :: u32
      using rel(3,5) cnt [OF that] old [OF that] that by auto
    moreover have "after_deps deps (order @ [x])"
    proof (rule after_deps_snoc [OF less.prems(5)])
      have "unat (deg ! unat x) = 0" using old [OF x(1)] by simp
      then show "set (deps x) \<subseteq> set order" using less.prems(4) x(1) by (auto simp: filter_empty_conv)
    qed
    moreover have "n - length (order @ [x]) < n - length order"
      using small_ids [of "order @ [x]" n] dist lt by auto
    ultimately have "\<exists>order'. kahn adj deg' (rest @ new) (order @ [x]) = Some order' \<and> distinct order' \<and>
        (\<forall>x \<in> set order'. unat x < n) \<and> after_deps deps order' \<and>
        (\<forall>i :: u32. unat i < n \<longrightarrow> (i \<in> set order' \<longleftrightarrow> set (deps i) \<subseteq> set order'))"
      by (intro less.hyps rel(2)) blast+
    moreover have "kahn adj deg ready order = kahn adj deg' (rest @ new) (order @ [x])"
      by (subst kahn.simps) (simp add: Cons rel(1))
    ultimately show ?thesis by simp
  qed
qed

section \<open>Compilation and execution\<close>

text \<open>Graphs built with \<open>add_node\<close>: the identifier of a node is its position.\<close>

definition wf_graph :: "'l CommandGraph \<Rightarrow> bool" where
  "wf_graph g \<longleftrightarrow> length (cg_nodes g) < 4294967296 \<and>
     (\<forall>i < length (cg_nodes g). gn_id (cg_nodes g ! i) = of_nat i) \<and>
     (\<forall>v \<in> set (cg_nodes g). length (gn_dependencies v) < 4294967296)"

definition good_deps :: "'l CommandGraph \<Rightarrow> bool" where
  "good_deps g \<longleftrightarrow> (\<forall>v \<in> set (cg_nodes g). \<forall>d \<in> set (gn_dependencies v). unat d < length (cg_nodes g))"

definition deps_of :: "'l CommandGraph \<Rightarrow> u32 \<Rightarrow> u32 list" where
  "deps_of g i = gn_dependencies (cg_nodes g ! unat i)"

definition dep_rel :: "'l CommandGraph \<Rightarrow> (u32 \<times> u32) set" where
  "dep_rel g = {(d, i). unat i < length (cg_nodes g) \<and> d \<in> set (deps_of g i)}"

lemma new_graph_wf: "wf_graph new_CommandGraph"
  by (simp add: wf_graph_def new_CommandGraph_def)

lemma add_node_wf:
  assumes "wf_graph g" "length (cg_nodes g) < 4294967295" "length ds < 4294967296"
  shows "wf_graph (snd (add_node name f ds g))"
  using assms by (auto simp: wf_graph_def add_node_def Let_def nth_append less_Suc_eq)

lemma distinct_ids: "wf_graph g \<Longrightarrow> distinct (map gn_id (cg_nodes g))"
proof -
  assume wf: "wf_graph g"
  have "gn_id (cg_nodes g ! i) \<noteq> gn_id (cg_nodes g ! j)" if "i < length (cg_nodes g)" "j < length (cg_nodes g)" "i \<noteq> j" for i j
    using wf that unat_of_nat_u32 [of i] unat_of_nat_u32 [of j] by (auto simp: wf_graph_def)
  then show ?thesis by (simp add: distinct_conv_nth)
qed

lemma count_edges:
  assumes "distinct (map gn_id ns)" "v \<in> set ns"
  shows "count_list (graph_edges ns) (gn_id v, d) = count_list (gn_dependencies v) d"
    and "count_list (map fst (graph_edges ns)) (gn_id v) = length (gn_dependencies v)"
proof -
  have none: "count_list (map (Pair i) ds) (j, d) = (if i = j then count_list ds d else 0)"
    "count_list (map (fst \<circ> Pair i) ds) j = (if i = j then length ds else 0)" for i j :: u32 and ds :: "u32 list"
    by (induction ds) auto
  have out: "count_list (graph_edges ns) (i, d) = 0" "count_list (map fst (graph_edges ns)) i = 0"
    if "i \<notin> gn_id ` set ns" for i and ns :: "'a GraphNode list"
    using that by (auto simp: graph_edges_def count_list_0_iff)
  show "count_list (graph_edges ns) (gn_id v, d) = count_list (gn_dependencies v) d"
    using assms by (induction ns) (auto simp: graph_edges_def none image_iff dest!: out(1) [unfolded graph_edges_def])
  show "count_list (map fst (graph_edges ns)) (gn_id v) = length (gn_dependencies v)"
    using assms by (induction ns) (auto simp: graph_edges_def none image_iff dest!: out(2) [unfolded graph_edges_def])
qed

lemma after_deps_acyclic:
  assumes "after_deps (deps_of g) order" "distinct order" "\<forall>i. unat i < length (cg_nodes g) \<longrightarrow> i \<in> set order"
  shows "acyclic (dep_rel g)"
proof -
  define pos where "pos i = length (takeWhile (\<lambda>j. j \<noteq> i) order)" for i
  have pos: "pos (order ! j) = j" if "j < length order" for j
  proof -
    have "takeWhile (\<lambda>k. k \<noteq> order ! j) order = take j order"
      using assms(2) that by (intro takeWhile_eq_take_P_nth) (auto simp: nth_eq_iff_index_eq)
    then show ?thesis using that by (simp add: pos_def)
  qed
  have "pos d < pos i" if di: "(d, i) \<in> dep_rel g" for d i
  proof -
    obtain j where j: "i = order ! j" "j < length order"
      using di assms(3) by (auto simp: dep_rel_def in_set_conv_nth)
    then have "d \<in> set (take j order)" using assms(1) di by (auto simp: after_deps_def dep_rel_def)
    then obtain k where "d = order ! k" "k < j" using j(2) by (auto simp: in_set_conv_nth)
    then show ?thesis using j pos by simp
  qed
  then have "dep_rel g \<subseteq> measure pos" by auto
  then show ?thesis by (meson wf_acyclic wf_measure wf_subset)
qed

lemma acyclic_all_ordered:
  assumes "acyclic (dep_rel g)" "good_deps g"
    and "\<forall>i. unat i < length (cg_nodes g) \<longrightarrow> (i \<in> set order \<longleftrightarrow> set (deps_of g i) \<subseteq> set order)"
  shows "\<forall>i. unat i < length (cg_nodes g) \<longrightarrow> i \<in> set order"
proof -
  have "finite (dep_rel g)" by (rule finite_subset [OF subset_UNIV]) simp
  then have "wf (dep_rel g)" using assms(1) by (rule finite_acyclic_wf)
  then have "unat i < length (cg_nodes g) \<longrightarrow> i \<in> set order" for i
  proof (induction i rule: wf_induct_rule)
    case (less i)
    have "unat d < length (cg_nodes g) \<and> (d, i) \<in> dep_rel g" if "d \<in> set (deps_of g i)" "unat i < length (cg_nodes g)" for d
      using assms(2) that by (auto simp: good_deps_def dep_rel_def deps_of_def)
    then show ?case using less assms(3) by blast
  qed
  then show ?thesis by blast
qed

lemma ids_range: "n < 4294967296 \<Longrightarrow> (of_nat :: nat \<Rightarrow> u32) ` {..<n} = {i. unat i < n}"
proof (intro set_eqI iffI)
  fix i :: u32
  assume "i \<in> {i. unat i < n}"
  then show "i \<in> of_nat ` {..<n}" by (intro image_eqI [of _ _ "unat i"]) simp_all
qed (auto simp: unat_of_nat_u32)

lemma ids_inj: "n < 4294967296 \<Longrightarrow> inj_on (of_nat :: nat \<Rightarrow> u32) {..<n}"
  by (intro inj_onI) (metis lessThan_iff order_less_trans unat_of_nat_u32)

lemma order_full:
  assumes "n < 4294967296" "distinct order" "\<forall>i \<in> set order. unat (i :: u32) < n"
  shows "length order = n \<longleftrightarrow> (\<forall>i. unat i < n \<longrightarrow> i \<in> set order)"
proof -
  have "card {i :: u32. unat i < n} = n"
    using ids_range [OF assms(1)] ids_inj [OF assms(1)] by (metis card_image card_lessThan)
  moreover have "set order \<subseteq> {i. unat i < n}" "finite {i :: u32. unat i < n}" using assms(3) by auto
  ultimately have "card (set order) = n \<longleftrightarrow> set order = {i. unat i < n}" by (metis card_subset_eq)
  then show ?thesis using assms(2,3) by (auto simp: distinct_card)
qed

lemma compile_loop:
  assumes wf: "wf_graph g" and good: "good_deps g"
  shows "\<exists>adj deg order. link_nodes (length (cg_nodes g)) (cg_nodes g)
      (replicate (length (cg_nodes g)) [], replicate (length (cg_nodes g)) 0) = Some (adj, deg) \<and>
    kahn adj deg (roots (length (cg_nodes g)) deg) [] = Some order \<and> distinct order \<and>
    (\<forall>i \<in> set order. unat i < length (cg_nodes g)) \<and> after_deps (deps_of g) order \<and>
    (\<forall>i. unat i < length (cg_nodes g) \<longrightarrow> (i \<in> set order \<longleftrightarrow> set (deps_of g i) \<subseteq> set order))"
proof -
  let ?ns = "cg_nodes g" and ?n = "length (cg_nodes g)"
  have n: "?n < 4294967296" and ids: "\<And>i. i < ?n \<Longrightarrow> gn_id (?ns ! i) = of_nat i"
    and few: "\<And>v. v \<in> set ?ns \<Longrightarrow> length (gn_dependencies v) < 4294967296"
    using wf by (auto simp: wf_graph_def)
  have node: "?ns ! unat i \<in> set ?ns" "gn_id (?ns ! unat i) = i" if "unat i < ?n" for i :: u32
    using that ids [OF that] by auto
  have "\<forall>(i, d) \<in> set (graph_edges ?ns). unat i < ?n \<and> unat d < ?n"
    using good n ids by (fastforce simp: graph_edges_def good_deps_def in_set_conv_nth unat_of_nat_u32)
  moreover have "\<forall>i :: u32. unat i < ?n \<longrightarrow>
      unat (replicate ?n (0 :: u32) ! unat i) + count_list (map fst (graph_edges ?ns)) i < 4294967296"
    using count_edges(2) [OF distinct_ids [OF wf] node(1)] node(2) few [OF node(1)] by fastforce
  ultimately obtain adj deg where link:
      "link_edges ?n (graph_edges ?ns) (replicate ?n [], replicate ?n 0) = Some (adj, deg)" "length deg = ?n"
      "\<forall>(i :: u32) (d :: u32). unat i < ?n \<longrightarrow> unat d < ?n \<longrightarrow> count_list (adj ! unat d) i = count_list (graph_edges ?ns) (i, d)"
      "\<forall>i :: u32. unat i < ?n \<longrightarrow> unat (deg ! unat i) = count_list (map fst (graph_edges ?ns)) i"
      "\<forall>d :: u32. unat d < ?n \<longrightarrow> set (adj ! unat d) \<subseteq> fst ` set (graph_edges ?ns)"
    using link_edges_good [of "graph_edges ?ns" ?n "replicate ?n []" "replicate ?n 0"] by auto
  have deg: "unat (deg ! unat i) = length (deps_of g i)" if "unat i < ?n" for i :: u32
    using link(4) count_edges(2) [OF distinct_ids [OF wf] node(1)] node(2) that by (metis deps_of_def)
  have adj: "count_list (adj ! unat d) i = count_list (deps_of g i) d" if "unat i < ?n" "unat d < ?n" for i d :: u32
    using link(3) count_edges(1) [OF distinct_ids [OF wf] node(1)] node(2) that by (metis deps_of_def)
  have adj_set: "unat x < ?n" if "unat d < ?n" "x \<in> set (adj ! unat d)" for d x :: u32
    using link(5) that \<open>\<forall>(i, d) \<in> set (graph_edges ?ns). unat i < ?n \<and> unat d < ?n\<close> by fastforce
  let ?r = "roots ?n deg"
  have dist: "distinct ([] @ ?r)" using ids_inj [OF n] by (auto simp: roots_def distinct_map atLeast0LessThan)
  have "set ?r = {i \<in> (of_nat :: nat \<Rightarrow> u32) ` {..<?n}. deg ! unat i = 0}" by (auto simp: roots_def)
  then have root: "i \<in> set ?r \<longleftrightarrow> unat i < ?n \<and> deg ! unat i = 0" for i
    unfolding ids_range [OF n] by simp
  have init: "\<forall>i :: u32. unat i < ?n \<longrightarrow> unat (deg ! unat i) = length (filter (\<lambda>d. d \<notin> set []) (deps_of g i)) \<and>
      (i \<in> set ([] @ ?r) \<longleftrightarrow> unat (deg ! unat i) = 0)"
  proof (intro allI impI)
    fix i :: u32
    assume i: "unat i < ?n"
    have "deg ! unat i = 0 \<longleftrightarrow> deps_of g i = []" using deg [OF i] by (simp only: unat_eq_0 [symmetric]) simp
    then show "unat (deg ! unat i) = length (filter (\<lambda>d. d \<notin> set []) (deps_of g i)) \<and>
        (i \<in> set ([] @ ?r) \<longleftrightarrow> unat (deg ! unat i) = 0)"
      using deg [OF i] root i by simp
  qed
  have a1: "\<forall>(i :: u32) (d :: u32). unat i < ?n \<longrightarrow> unat d < ?n \<longrightarrow> count_list (adj ! unat d) i = count_list (deps_of g i) d"
    using adj by blast
  have a2: "\<forall>d :: u32. unat d < ?n \<longrightarrow> (\<forall>x \<in> set (adj ! unat d). unat x < ?n)" using adj_set by blast
  have a3: "\<forall>x \<in> set ([] @ ?r). unat x < ?n" using root by simp
  have a4: "after_deps (deps_of g) []" by (simp add: after_deps_def)
  obtain order where "kahn adj deg ?r [] = Some order" "distinct order" "\<forall>x \<in> set order. unat x < ?n"
      "after_deps (deps_of g) order" "\<forall>i. unat i < ?n \<longrightarrow> (i \<in> set order \<longleftrightarrow> set (deps_of g i) \<subseteq> set order)"
    using kahn_spec [OF a1 a2 link(2) dist a3 init a4] by blast
  moreover have "link_nodes ?n ?ns (replicate ?n [], replicate ?n 0) = Some (adj, deg)"
    using link(1) by (simp add: link_nodes_edges)
  ultimately show ?thesis by blast
qed

lemma link_nodes_bad: "\<not> good_deps g \<Longrightarrow> link_nodes (length (cg_nodes g)) (cg_nodes g) s = None"
  unfolding link_nodes_edges
  by (rule link_edges_bad) (auto simp: good_deps_def graph_edges_def not_less)

text \<open>
  C23. Compilation always ends, and is right about the graph: with a dependency out of range it
  throws and changes nothing; on a graph with a cycle it throws; on an acyclic graph it succeeds
  with an order in which every node occurs exactly once and after all its dependencies, and the
  execution that follows runs the nodes in that order.
\<close>

theorem compile_topological:
  assumes "wf_graph g"
  shows "if \<not> good_deps g then graph_compile g = Some (Inl Invalid_Dependency, g)
    else if acyclic (dep_rel g) then \<exists>order. graph_compile g = Some (Inr (), g\<lparr>cg_order := order, cg_compiled := True\<rparr>) \<and>
      distinct order \<and> set order = {i. unat i < length (cg_nodes g)} \<and> after_deps (deps_of g) order \<and>
      (\<not> cg_compiled g \<longrightarrow> (\<forall>l. graph_execute l g =
        Some (case run_nodes (cg_nodes g) order l of None \<Rightarrow> Inl Node_Throws | Some l' \<Rightarrow> Inr l',
          g\<lparr>cg_order := order, cg_compiled := True\<rparr>)))
    else \<exists>order. graph_compile g = Some (Inl Graph_Cycle, g\<lparr>cg_order := order\<rparr>)"
proof (cases "good_deps g")
  case False
  then show ?thesis by (simp add: graph_compile_def Let_def link_nodes_bad)
next
  case True
  let ?n = "length (cg_nodes g)"
  obtain adj deg order where
    l: "link_nodes ?n (cg_nodes g) (replicate ?n [], replicate ?n 0) = Some (adj, deg)"
      "kahn adj deg (roots ?n deg) [] = Some order" and
    o: "distinct order" "\<forall>i \<in> set order. unat i < ?n" "after_deps (deps_of g) order"
      "\<forall>i. unat i < ?n \<longrightarrow> (i \<in> set order \<longleftrightarrow> set (deps_of g i) \<subseteq> set order)"
    using compile_loop [OF assms True] by blast
  have c: "graph_compile g = Some (if length order \<noteq> ?n then (Inl Graph_Cycle, g\<lparr>cg_order := order\<rparr>)
      else (Inr (), g\<lparr>cg_order := order, cg_compiled := True\<rparr>))"
    by (simp add: graph_compile_def Let_def l)
  have full: "length order = ?n \<longleftrightarrow> (\<forall>i. unat i < ?n \<longrightarrow> i \<in> set order)"
    using assms o(1,2) by (intro order_full) (simp_all add: wf_graph_def)
  show ?thesis
  proof (cases "acyclic (dep_rel g)")
    case True
    then have all: "\<forall>i. unat i < ?n \<longrightarrow> i \<in> set order"
      using acyclic_all_ordered \<open>good_deps g\<close> o(4) by blast
    then have "length order = ?n" using full by blast
    then have "graph_compile g = Some (Inr (), g\<lparr>cg_order := order, cg_compiled := True\<rparr>)" by (simp add: c)
    moreover have "set order = {i. unat i < ?n}" using all o(2) by auto
    ultimately show ?thesis
      using True \<open>good_deps g\<close> o(1,3)
      by (simp add: graph_execute_def) (intro exI [of _ order], auto split: option.splits)
  next
    case False
    then have "length order \<noteq> ?n" using full after_deps_acyclic [OF o(3,1)] by blast
    then show ?thesis using False \<open>good_deps g\<close> by (auto simp: c)
  qed
qed

definition example_graph :: "u32 list \<Rightarrow> nat CommandGraph" where
  "example_graph deps =
    \<lparr> cg_nodes =
        [\<lparr> gn_id = 0, gn_name = ''a'', gn_func = \<lambda>l. Some (2 * l), gn_dependencies = deps \<rparr>,
         \<lparr> gn_id = 1, gn_name = ''b'', gn_func = Some, gn_dependencies = [2] \<rparr>,
         \<lparr> gn_id = 2, gn_name = ''c'', gn_func = \<lambda>l. Some (l + 1), gn_dependencies = [0, 0] \<rparr>],
      cg_order = [], cg_compiled = False \<rparr>"

theorem compile_topological_witness:
  "(\<exists>order. graph_compile (example_graph []) = Some (Inr (), (example_graph [])\<lparr>cg_order := order, cg_compiled := True\<rparr>) \<and>
     distinct order \<and> after_deps (deps_of (example_graph [])) order) \<and>
   (\<exists>order. graph_compile (example_graph [1]) = Some (Inl Graph_Cycle, (example_graph [1])\<lparr>cg_order := order\<rparr>)) \<and>
   graph_compile (example_graph [7]) = Some (Inl Invalid_Dependency, example_graph [7])"
proof -
  have wf: "wf_graph (example_graph ds)" if "length ds < 4294967296" for ds
    using that by (auto simp: wf_graph_def example_graph_def less_Suc_eq numeral_3_eq_3)
  have small: "i = 0 \<or> i = 1 \<or> i = 2" if "unat i < 3" for i :: u32
  proof -
    have "unat i = unat (0 :: u32) \<or> unat i = unat (1 :: u32) \<or> unat i = unat (2 :: u32)" using that by (simp, linarith)
    then show ?thesis by (simp only: unat_eq)
  qed
  have n: "length (cg_nodes (example_graph ds)) = 3" for ds by (simp add: example_graph_def)
  have good: "good_deps (example_graph [])" "good_deps (example_graph [1])" "\<not> good_deps (example_graph [7])"
    by (auto simp: good_deps_def example_graph_def)
  have "acyclic (dep_rel (example_graph []))"
  proof (rule after_deps_acyclic)
    show "after_deps (deps_of (example_graph [])) [0, 2, 1]"
      by (auto simp: after_deps_def deps_of_def example_graph_def less_Suc_eq)
    have "i \<in> set [0, 2, 1]" if "unat i < 3" for i :: u32 using small [OF that] by auto
    then show "\<forall>i :: u32. unat i < length (cg_nodes (example_graph [])) \<longrightarrow> i \<in> set [0, 2, 1]"
      unfolding n by blast
  qed simp
  moreover have "\<not> acyclic (dep_rel (example_graph [1]))"
  proof -
    have "(1, 0) \<in> dep_rel (example_graph [1])" "(2, 1) \<in> dep_rel (example_graph [1])" "(0, 2) \<in> dep_rel (example_graph [1])"
      by (simp_all add: dep_rel_def deps_of_def example_graph_def)
    then have "(0, 0) \<in> (dep_rel (example_graph [1]))\<^sup>+" by (meson trancl.simps)
    then show ?thesis by (auto simp: acyclic_def)
  qed
  ultimately show ?thesis
    using compile_topological [OF wf, of "[]"] compile_topological [OF wf, of "[1]"] compile_topological [OF wf, of "[7]"] good
    by auto
qed

end
