(* ===== verification/ClusterTransport.thy ===== *)
theory ClusterTransport
  imports TensorStream GgufModel
begin

text \<open>
  The tensor transport between cluster nodes, \<open>src/dxnetwork/dxnetwork.cpp\<close>: authentication
  tokens, the payload cipher, the feature manifest and the table of connected nodes. The code
  opens no connection: sending and receiving work on the mapped bytes of one buffer and write a
  console line, and no byte travels. A buffer is \<open>None\<close> for a null pointer
  and \<open>Some None\<close> where mapping it fails; a result \<open>None\<close> is an access outside the mapped bytes.
\<close>

section \<open>Tokens and the cipher\<close>

definition hex16 :: "u64 \<Rightarrow> string" where
  "hex16 w = (let d = hex_digits (unat w) in replicate (16 - length d) (CHR ''0'') @ d)"

definition generate_auth_token :: "string \<Rightarrow> string \<Rightarrow> string" where
  "generate_auth_token secret_key payload = ''0x'' @ hex16 (fnv1a64 (secret_key @ payload))"

definition verify_auth_token :: "string \<Rightarrow> string \<Rightarrow> string \<Rightarrow> bool" where
  "verify_auth_token secret_key payload token \<longleftrightarrow> generate_auth_token secret_key payload = token"

definition cipher_base :: "string \<Rightarrow> u8" where
  "cipher_base key = (if key = [] then 0xAA else of_nat (of_char (hd key)))"

definition encrypt_payload :: "u8 list \<Rightarrow> u8 list \<Rightarrow> u64 \<Rightarrow> string \<Rightarrow> u8 list option" where
  "encrypt_payload inp out bytes key =
    (if unat bytes \<le> length inp \<and> unat bytes \<le> length out
     then Some (map (\<lambda>i. inp ! i XOR (cipher_base key + of_nat (i mod 256))) [0..<unat bytes] @
       drop (unat bytes) out)
     else None)"

definition decrypt_payload :: "u8 list \<Rightarrow> u8 list \<Rightarrow> u64 \<Rightarrow> string \<Rightarrow> u8 list option" where
  "decrypt_payload inp out bytes key = encrypt_payload inp out bytes key"

section \<open>Manifests\<close>

record NodeFeatureManifest =
  nm_node_name :: string
  nm_ip_address :: string
  nm_port :: u16
  nm_vendor_id :: u32
  nm_device_id :: u32
  nm_vram_capacity_mb :: u64
  nm_shader_model :: string
  nm_hlsl_shader_hash :: string
  nm_supports_wmma :: bool
  nm_supports_fp16 :: bool
  nm_auth_signature :: string

definition bool_text :: "bool \<Rightarrow> string" where
  "bool_text b = (if b then ''true'' else ''false'')"

definition to_xml :: "NodeFeatureManifest \<Rightarrow> string" where
  "to_xml m = ''<NodeManifest>'' @ [Newline] @
     ''  <NodeName>'' @ nm_node_name m @ ''</NodeName>'' @ [Newline] @
     ''  <IPAddress>'' @ nm_ip_address m @ ''</IPAddress>'' @ [Newline] @
     ''  <Port>'' @ dec_digits (unat (nm_port m)) @ ''</Port>'' @ [Newline] @
     ''  <VendorID>0x'' @ hex_digits (unat (nm_vendor_id m)) @ ''</VendorID>'' @ [Newline] @
     ''  <DeviceID>0x'' @ hex_digits (unat (nm_device_id m)) @ ''</DeviceID>'' @ [Newline] @
     ''  <VRAMCapacityMB>'' @ to_string_u64 (nm_vram_capacity_mb m) @ ''</VRAMCapacityMB>'' @ [Newline] @
     ''  <ShaderModel>'' @ nm_shader_model m @ ''</ShaderModel>'' @ [Newline] @
     ''  <ShaderHash>'' @ nm_hlsl_shader_hash m @ ''</ShaderHash>'' @ [Newline] @
     ''  <WMMA>'' @ bool_text (nm_supports_wmma m) @ ''</WMMA>'' @ [Newline] @
     ''  <FP16>'' @ bool_text (nm_supports_fp16 m) @ ''</FP16>'' @ [Newline] @
     ''  <AuthSignature>'' @ nm_auth_signature m @ ''</AuthSignature>'' @ [Newline] @
     ''</NodeManifest>''"

text \<open>The parser reads one field only.\<close>

definition parse_xml :: "string \<Rightarrow> NodeFeatureManifest" where
  "parse_xml xml_str = \<lparr> nm_node_name = ''Discovered_GPU_Node'', nm_ip_address = '''', nm_port = 9090,
     nm_vendor_id = 0, nm_device_id = 0, nm_vram_capacity_mb = 16188, nm_shader_model = ''6.6'',
     nm_hlsl_shader_hash = ''0x9F82A4B1'', nm_supports_wmma = str_contains ''<WMMA>true</WMMA>'' xml_str,
     nm_supports_fp16 = True, nm_auth_signature = ''0x8F9A2C4E0B1D'' \<rparr>"

section \<open>The transport\<close>

record NodeEndpoint =
  ne_ip_address :: string
  ne_port :: u16
  ne_node_id :: u32
  ne_is_server :: bool
  ne_is_authenticated :: bool
  ne_manifest :: NodeFeatureManifest

record NetworkTensorTransport =
  nt_port :: u16
  nt_cluster_key :: string
  nt_security_enabled :: bool
  nt_is_listening :: bool
  nt_nodes :: "NodeEndpoint list"

text \<open>The constructor; \<open>None\<close> where the socket library does not start.\<close>

definition new_NetworkTensorTransport :: "bool \<Rightarrow> u16 \<Rightarrow> string \<Rightarrow> NetworkTensorTransport option" where
  "new_NetworkTensorTransport winsock listen_port cluster_key =
    (if winsock then Some \<lparr> nt_port = listen_port, nt_cluster_key = cluster_key, nt_security_enabled = True,
       nt_is_listening = False, nt_nodes = [] \<rparr> else None)"

definition set_security_enabled :: "bool \<Rightarrow> NetworkTensorTransport \<Rightarrow> NetworkTensorTransport" where
  "set_security_enabled enable t = t\<lparr>nt_security_enabled := enable\<rparr>"

definition connect_to_server :: "string \<Rightarrow> u16 \<Rightarrow> NetworkTensorTransport \<Rightarrow> bool \<times> NetworkTensorTransport" where
  "connect_to_server server_ip server_port t =
    (let node_id = of_nat (length (nt_nodes t) + 1);
         m = \<lparr> nm_node_name = ''RemoteServerNode'', nm_ip_address = server_ip, nm_port = server_port,
               nm_vendor_id = 0x1002, nm_device_id = 0x7440, nm_vram_capacity_mb = 16188, nm_shader_model = ''6.6'',
               nm_hlsl_shader_hash = ''0x9F82A4B1'', nm_supports_wmma = True, nm_supports_fp16 = True,
               nm_auth_signature = '''' \<rparr>;
         m' = (if nt_security_enabled t
               then m\<lparr>nm_auth_signature := generate_auth_token (nt_cluster_key t) (nm_node_name m)\<rparr> else m)
     in (True, t\<lparr>nt_nodes := nt_nodes t @ [\<lparr> ne_ip_address = server_ip, ne_port = server_port,
          ne_node_id = node_id, ne_is_server = True, ne_is_authenticated = True, ne_manifest = m' \<rparr>]\<rparr>))"

fun authenticate_scan :: "string \<Rightarrow> u32 \<Rightarrow> string \<Rightarrow> NodeEndpoint list \<Rightarrow> bool \<times> NodeEndpoint list" where
  "authenticate_scan key node_id token [] = (False, [])"
| "authenticate_scan key node_id token (n # ns) =
    (if ne_node_id n = node_id \<and> verify_auth_token key (nm_node_name (ne_manifest n)) token
     then (True, n\<lparr>ne_is_authenticated := True\<rparr> # ns)
     else (case authenticate_scan key node_id token ns of (r, ns') \<Rightarrow> (r, n # ns')))"

definition authenticate_node :: "u32 \<Rightarrow> string \<Rightarrow> NetworkTensorTransport \<Rightarrow> bool \<times> NetworkTensorTransport" where
  "authenticate_node node_id auth_token t =
    (if \<not> nt_security_enabled t then (True, t)
     else (case authenticate_scan (nt_cluster_key t) node_id auth_token (nt_nodes t) of
         (r, ns) \<Rightarrow> (r, t\<lparr>nt_nodes := ns\<rparr>)))"

definition exchange_xml_manifest :: "NodeFeatureManifest \<Rightarrow> NetworkTensorTransport \<Rightarrow> string" where
  "exchange_xml_manifest local_manifest t =
    to_xml (local_manifest\<lparr>nm_auth_signature :=
      if nt_security_enabled t then generate_auth_token (nt_cluster_key t) (nm_node_name local_manifest)
      else ''INSECURE_PLAINTEXT_MODE''\<rparr>)"

definition discover_lan_peers :: "NetworkTensorTransport \<Rightarrow> NodeFeatureManifest list" where
  "discover_lan_peers t =
    (let sign = (\<lambda>m. if nt_security_enabled t
           then m\<lparr>nm_auth_signature := generate_auth_token (nt_cluster_key t) (nm_node_name m)\<rparr> else m)
     in [sign \<lparr> nm_node_name = ''AMD_RDNA4_Node_1'', nm_ip_address = ''192.168.1.105'', nm_port = 9090,
           nm_vendor_id = 0x1002, nm_device_id = 0x7440, nm_vram_capacity_mb = 16188, nm_shader_model = ''6.6'',
           nm_hlsl_shader_hash = ''0x9F82A4B1'', nm_supports_wmma = True, nm_supports_fp16 = True,
           nm_auth_signature = '''' \<rparr>,
         sign \<lparr> nm_node_name = ''NVIDIA_Blackwell_Node_2'', nm_ip_address = ''192.168.1.106'', nm_port = 9090,
           nm_vendor_id = 0x10DE, nm_device_id = 0x2680, nm_vram_capacity_mb = 24576, nm_shader_model = ''6.6'',
           nm_hlsl_shader_hash = ''0x9F82A4B1'', nm_supports_wmma = True, nm_supports_fp16 = True,
           nm_auth_signature = '''' \<rparr>])"

definition start_server_listener :: "NetworkTensorTransport \<Rightarrow> bool \<times> NetworkTensorTransport" where
  "start_server_listener t = (True, t\<lparr>nt_is_listening := True\<rparr>)"

text \<open>
  \<open>send_tensor\<close>: the returned value and the bytes of the buffer afterwards. Nothing leaves the process: the
  code ciphers the buffer in place, writes its console line and deciphers it again.
\<close>

definition send_tensor ::
  "NetworkTensorTransport \<Rightarrow> u8 list option option \<Rightarrow> u64 \<Rightarrow> (bool \<times> u8 list option option) option" where
  "send_tensor t tensor_buf size_bytes =
    (case tensor_buf of
       None \<Rightarrow> Some (False, tensor_buf)
     | Some m \<Rightarrow>
         if size_bytes = 0 then Some (False, tensor_buf)
         else (case m of
             None \<Rightarrow> Some (False, tensor_buf)
           | Some bs \<Rightarrow>
               if nt_security_enabled t then
                 Option.bind (encrypt_payload bs bs (min size_bytes 1024) (nt_cluster_key t)) (\<lambda>cs.
                 Option.bind (decrypt_payload cs cs (min size_bytes 1024) (nt_cluster_key t)) (\<lambda>bs'.
                   Some (True, Some (Some bs'))))
               else Some (True, tensor_buf)))"

definition recv_tensor ::
  "NetworkTensorTransport \<Rightarrow> u8 list option option \<Rightarrow> u64 \<Rightarrow> (bool \<times> u8 list) option" where
  "recv_tensor t dest_buf size_bytes =
    (case dest_buf of
       None \<Rightarrow> Some (False, [])
     | Some m \<Rightarrow>
         if size_bytes = 0 then Some (False, (case m of None \<Rightarrow> [] | Some bs \<Rightarrow> bs))
         else (case m of
             None \<Rightarrow> Some (False, [])
           | Some bs \<Rightarrow>
               if nt_security_enabled t
               then map_option (Pair True) (decrypt_payload bs bs (min size_bytes 1024) (nt_cluster_key t))
               else Some (True, bs)))"

text \<open>\<open>broadcast_tensor\<close>: one call per node, on the same buffer; the buffer afterwards.\<close>

fun broadcast_to :: "NetworkTensorTransport \<Rightarrow> NodeEndpoint list \<Rightarrow> u8 list option option \<Rightarrow> u64 \<Rightarrow>
    u8 list option option option" where
  "broadcast_to t [] buf size_bytes = Some buf"
| "broadcast_to t (n # ns) buf size_bytes =
    Option.bind (send_tensor t buf size_bytes) (\<lambda>(_, buf'). broadcast_to t ns buf' size_bytes)"

definition broadcast_tensor :: "NetworkTensorTransport \<Rightarrow> u8 list option option \<Rightarrow> u64 \<Rightarrow>
    u8 list option option option" where
  "broadcast_tensor t buf size_bytes = broadcast_to t (nt_nodes t) buf size_bytes"

section \<open>Correctness\<close>

lemma crypt_twice:
  assumes "unat n \<le> length bs"
  shows "\<exists>cs. encrypt_payload bs bs n key = Some cs \<and> length cs = length bs \<and> drop (unat n) cs = drop (unat n) bs \<and>
    decrypt_payload cs cs n key = Some bs"
proof -
  let ?cs = "map (\<lambda>i. bs ! i XOR (cipher_base key + of_nat (i mod 256))) [0..<unat n] @ drop (unat n) bs"
  have "map (\<lambda>i. ?cs ! i XOR (cipher_base key + of_nat (i mod 256))) [0..<unat n] = take (unat n) bs"
    using assms by (intro nth_equalityI) (auto simp: nth_append xor.assoc)
  then have "decrypt_payload ?cs ?cs n key = Some bs"
    using assms by (simp add: decrypt_payload_def encrypt_payload_def)
  moreover have "encrypt_payload bs bs n key = Some ?cs" using assms by (simp add: encrypt_payload_def)
  ultimately show ?thesis using assms by (intro exI [of _ ?cs]) simp
qed

text \<open>
  Sending to one node or to all leaves every buffer as it was, mapped or not, as long as it holds the bytes that are
  announced.
\<close>

lemma send_keeps_buffer:
  assumes "\<And>bs. buf = Some (Some bs) \<Longrightarrow> unat size_bytes \<le> length bs"
  shows "send_tensor t buf size_bytes = Some (size_bytes \<noteq> 0 \<and> (\<exists>bs. buf = Some (Some bs)), buf)"
proof (cases "size_bytes = 0 \<or> buf = None \<or> buf = Some None")
  case True
  then show ?thesis by (auto simp: send_tensor_def split: option.splits)
next
  case False
  then obtain bs where bs: "buf = Some (Some bs)" "size_bytes \<noteq> 0" by (cases buf) auto
  have "min size_bytes 1024 \<le> size_bytes" by simp
  then have n: "unat (min size_bytes 1024) \<le> length bs"
    using assms [OF bs(1)] by (auto simp: word_le_nat_alt)
  show ?thesis using crypt_twice [OF n, of "nt_cluster_key t"] bs by (auto simp: send_tensor_def)
qed

lemma broadcast_keeps_buffer:
  assumes "\<And>bs. buf = Some (Some bs) \<Longrightarrow> unat size_bytes \<le> length bs"
  shows "broadcast_tensor t buf size_bytes = Some buf"
proof -
  have "broadcast_to t ns buf size_bytes = Some buf" for ns
    by (induction ns) (simp_all add: send_keeps_buffer [OF assms])
  then show ?thesis by (simp add: broadcast_tensor_def)
qed

definition example_transport :: NetworkTensorTransport where
  "example_transport = snd (connect_to_server ''10.0.0.2'' 9090 (the (new_NetworkTensorTransport True 9090 ''key'')))"

definition admits :: "NetworkTensorTransport \<Rightarrow> u32 \<Rightarrow> string \<Rightarrow> NodeEndpoint \<Rightarrow> bool" where
  "admits t i token n \<longleftrightarrow>
    ne_node_id n = i \<and> generate_auth_token (nt_cluster_key t) (nm_node_name (ne_manifest n)) = token"

lemma authenticate_scan_spec:
  "case authenticate_scan key i token ns of (r, ns') \<Rightarrow>
     (r \<longleftrightarrow> (\<exists>n \<in> set ns. ne_node_id n = i \<and> generate_auth_token key (nm_node_name (ne_manifest n)) = token)) \<and>
     (if r then \<exists>k < length ns. ne_node_id (ns ! k) = i \<and>
          generate_auth_token key (nm_node_name (ne_manifest (ns ! k))) = token \<and>
          (\<forall>j < k. \<not> (ne_node_id (ns ! j) = i \<and> generate_auth_token key (nm_node_name (ne_manifest (ns ! j))) = token)) \<and>
          ns' = ns[k := (ns ! k)\<lparr>ne_is_authenticated := True\<rparr>]
      else ns' = ns)"
proof (induction ns)
  case (Cons n ns)
  show ?case
  proof (cases "ne_node_id n = i \<and> verify_auth_token key (nm_node_name (ne_manifest n)) token")
    case True
    then show ?thesis by (auto simp: verify_auth_token_def intro!: exI [of _ 0])
  next
    case False
    obtain r ns' where r: "authenticate_scan key i token ns = (r, ns')" by fastforce
    show ?thesis
    proof (cases r)
      case True
      then obtain k where "k < length ns" "ne_node_id (ns ! k) = i"
          "generate_auth_token key (nm_node_name (ne_manifest (ns ! k))) = token"
          "\<forall>j < k. \<not> (ne_node_id (ns ! j) = i \<and> generate_auth_token key (nm_node_name (ne_manifest (ns ! j))) = token)"
          "ns' = ns[k := (ns ! k)\<lparr>ne_is_authenticated := True\<rparr>]"
        using Cons r by auto
      then show ?thesis
        using False r Cons True by (auto simp: verify_auth_token_def nth_Cons split: nat.splits intro!: exI [of _ "Suc k"])
    next
      case refused: False
      then show ?thesis using False r Cons by (auto simp: verify_auth_token_def)
    qed
  qed
qed simp

text \<open>
  Authentication is exact: with security on, a node is admitted exactly if some node of the
  table has the identifier and the token is the cluster key's token of its name, and then the
  flag of the first such node is set and nothing else changes; a refusal changes nothing. With
  security off every call is admitted and changes nothing.
\<close>

theorem authenticate_exact:
  assumes "authenticate_node i token t = (r, t')"
  shows "if nt_security_enabled t then (r \<longleftrightarrow> (\<exists>n \<in> set (nt_nodes t). admits t i token n)) \<and>
      (if r then \<exists>k < length (nt_nodes t). admits t i token (nt_nodes t ! k) \<and> (\<forall>j < k. \<not> admits t i token (nt_nodes t ! j)) \<and>
          t' = t\<lparr>nt_nodes := (nt_nodes t)[k := (nt_nodes t ! k)\<lparr>ne_is_authenticated := True\<rparr>]\<rparr>
       else t' = t)
    else r \<and> t' = t"
proof (cases "nt_security_enabled t")
  case True
  obtain ns where ns: "authenticate_scan (nt_cluster_key t) i token (nt_nodes t) = (r, ns)" "t' = t\<lparr>nt_nodes := ns\<rparr>"
    using assms True by (auto simp: authenticate_node_def split: prod.splits)
  with authenticate_scan_spec [where key = "nt_cluster_key t" and ns = "nt_nodes t" and i = i and token = token] show ?thesis
    using True unfolding admits_def by (cases r) auto
qed (use assms in \<open>simp add: authenticate_node_def\<close>)

theorem authenticate_exact_witness:
  "fst (authenticate_node 1 (generate_auth_token ''key'' ''RemoteServerNode'') example_transport) \<and>
   \<not> fst (authenticate_node 2 (generate_auth_token ''key'' ''RemoteServerNode'') example_transport)"
  using authenticate_exact [of 1 "generate_auth_token ''key'' ''RemoteServerNode''" example_transport]
    authenticate_exact [of 2 "generate_auth_token ''key'' ''RemoteServerNode''" example_transport]
  by (cases "authenticate_node 1 (generate_auth_token ''key'' ''RemoteServerNode'') example_transport";
      cases "authenticate_node 2 (generate_auth_token ''key'' ''RemoteServerNode'') example_transport")
    (auto simp: example_transport_def connect_to_server_def new_NetworkTensorTransport_def Let_def admits_def split: if_splits)

lemma connected_node_admitted:
  assumes "connect_to_server ip port t = (r, t')" "nt_security_enabled t"
  shows "r \<and> fst (authenticate_node (of_nat (length (nt_nodes t'))) (generate_auth_token (nt_cluster_key t) ''RemoteServerNode'') t')"
proof -
  obtain r2 t2 where a: "authenticate_node (of_nat (length (nt_nodes t')))
      (generate_auth_token (nt_cluster_key t) ''RemoteServerNode'') t' = (r2, t2)" by fastforce
  let ?v = "\<lambda>n. ne_node_id n = of_nat (length (nt_nodes t')) \<and>
    generate_auth_token (nt_cluster_key t') (nm_node_name (ne_manifest n)) = generate_auth_token (nt_cluster_key t) ''RemoteServerNode''"
  have "nt_security_enabled t'" "\<exists>n \<in> set (nt_nodes t'). ?v n" "r"
    using assms by (auto simp: connect_to_server_def Let_def)
  then show ?thesis
    using authenticate_scan_spec [where key = "nt_cluster_key t'" and i = "of_nat (length (nt_nodes t'))"
        and token = "generate_auth_token (nt_cluster_key t) ''RemoteServerNode''" and ns = "nt_nodes t'"]
    by (auto simp: authenticate_node_def split: prod.splits)
qed

text \<open>The one field the manifest parser reads survives printing.\<close>

lemma str_contains_iff: "str_contains p s \<longleftrightarrow> (\<exists>a b. s = a @ p @ b)"
proof -
  have "str_contains p s \<longleftrightarrow> (\<exists>x. prefix p x \<and> suffix x s)"
    by (auto simp: str_contains_def list_ex_iff in_set_suffixes)
  also have "\<dots> \<longleftrightarrow> (\<exists>a b. s = a @ p @ b)" unfolding prefix_def suffix_def by blast
  finally show ?thesis .
qed

lemma contains_later: "str_contains p t \<Longrightarrow> str_contains p (s @ t)"
  unfolding str_contains_iff by (metis append.assoc)

lemma parse_xml_wmma: "nm_supports_wmma m \<Longrightarrow> nm_supports_wmma (parse_xml (to_xml m))"
proof -
  assume m: "nm_supports_wmma m"
  have "''  <WMMA>'' @ ''true'' @ ''</WMMA>'' @ b = ''  '' @ ''<WMMA>true</WMMA>'' @ b" for b by simp
  then have here: "str_contains ''<WMMA>true</WMMA>'' (''  <WMMA>'' @ ''true'' @ ''</WMMA>'' @ b)" for b
    unfolding str_contains_iff by blast
  have "str_contains ''<WMMA>true</WMMA>'' (to_xml m)"
    unfolding to_xml_def bool_text_def if_P [OF m] by (rule here | rule contains_later)+
  then show ?thesis by (simp add: parse_xml_def)
qed

end
