(* ===== verification/RetrieveDB.thy ===== *)
theory RetrieveDB
  imports RefOps "HOL-Library.Multiset"
begin

text \<open>
  The in-memory vector database of \<open>src/dxdb/dxdb.cpp\<close>. Its contract is a finite map from document
  identifiers to text and embedding: the locale \<open>document_store\<close> states it and follows any sequence
  of operations, and the interpretation shows that tombstones, the index and compaction implement
  it. Float arithmetic is the record \<open>float_ops\<close>; \<open>std::partial_sort\<close> is the argument \<open>psort\<close>.
\<close>

section \<open>The store\<close>

record VectorDocument =
  vd_id :: string
  vd_text :: string
  vd_embedding :: "f32 list"
  vd_deleted :: bool

record RAGQueryResult =
  rr_id :: string
  rr_text :: string
  rr_similarity :: f32

record FastRetrieveDB =
  db_embedding_dim :: u32
  db_docs :: "VectorDocument list"
  db_id_to_index :: "string \<rightharpoonup> nat"

definition new_FastRetrieveDB :: "u32 \<Rightarrow> FastRetrieveDB" where
  "new_FastRetrieveDB embedding_dim =
    \<lparr> db_embedding_dim = embedding_dim, db_docs = [], db_id_to_index = Map.empty \<rparr>"

fun cosine_sums :: "float_ops \<Rightarrow> f32 list \<Rightarrow> f32 list \<Rightarrow> nat \<Rightarrow> nat \<Rightarrow> f32 \<times> f32 \<times> f32 \<Rightarrow> f32 \<times> f32 \<times> f32" where
  "cosine_sums F a b i 0 s = s"
| "cosine_sums F a b i (Suc n) (dot, na, nb) =
    cosine_sums F a b (Suc i) n
      (fo_add F dot (fo_mul F (a ! i) (b ! i)), fo_add F na (fo_mul F (a ! i) (a ! i)),
       fo_add F nb (fo_mul F (b ! i) (b ! i)))"

text \<open>\<open>1e-8f\<close> is the bit pattern \<open>0x322BCC77\<close>.\<close>

definition cosine_similarity :: "float_ops \<Rightarrow> f32 list \<Rightarrow> f32 list \<Rightarrow> nat \<Rightarrow> f32" where
  "cosine_similarity F a b dim =
    (case cosine_sums F a b 0 dim (f32_zero, f32_zero, f32_zero) of
       (dot, na, nb) \<Rightarrow>
         let denom = fo_mul F (fo_sqrt F na) (fo_sqrt F nb)
         in if fo_less F 0x322BCC77 denom then fo_div F dot denom else f32_zero)"

definition db_insert :: "string \<Rightarrow> string \<Rightarrow> f32 list \<Rightarrow> FastRetrieveDB \<Rightarrow> FastRetrieveDB" where
  "db_insert i txt embedding db =
    (let doc = \<lparr> vd_id = i, vd_text = txt, vd_embedding = embedding, vd_deleted = False \<rparr>
     in (case db_id_to_index db i of
         Some idx \<Rightarrow> db\<lparr>db_docs := (db_docs db)[idx := doc]\<rparr>
       | None \<Rightarrow> db\<lparr>db_docs := db_docs db @ [doc],
           db_id_to_index := (db_id_to_index db)(i \<mapsto> length (db_docs db))\<rparr>))"

definition db_remove :: "string \<Rightarrow> FastRetrieveDB \<Rightarrow> FastRetrieveDB" where
  "db_remove i db =
    (case db_id_to_index db i of
       None \<Rightarrow> db
     | Some idx \<Rightarrow> db\<lparr>db_docs := (db_docs db)[idx := (db_docs db ! idx)\<lparr>vd_deleted := True\<rparr>]\<rparr>)"

definition rag_candidates :: "float_ops \<Rightarrow> f32 list \<Rightarrow> FastRetrieveDB \<Rightarrow> RAGQueryResult list" where
  "rag_candidates F q db =
    map (\<lambda>d. \<lparr> rr_id = vd_id d, rr_text = vd_text d,
        rr_similarity = cosine_similarity F q (vd_embedding d) (unat (db_embedding_dim db)) \<rparr>)
      (filter (\<lambda>d. \<not> (vd_deleted d \<or> length (vd_embedding d) \<noteq> unat (db_embedding_dim db))) (db_docs db))"

definition more_similar :: "float_ops \<Rightarrow> RAGQueryResult \<Rightarrow> RAGQueryResult \<Rightarrow> bool" where
  "more_similar F a b = fo_less F (rr_similarity b) (rr_similarity a)"

type_synonym sorter = "(RAGQueryResult \<Rightarrow> RAGQueryResult \<Rightarrow> bool) \<Rightarrow> nat \<Rightarrow> RAGQueryResult list \<Rightarrow> RAGQueryResult list"

definition search_rag :: "float_ops \<Rightarrow> sorter \<Rightarrow> f32 list \<Rightarrow> u32 \<Rightarrow> FastRetrieveDB \<Rightarrow> RAGQueryResult list" where
  "search_rag F psort q top_k db =
    (if length q \<noteq> unat (db_embedding_dim db) \<or> db_docs db = [] then []
     else let cs = rag_candidates F q db;
              rs = psort (more_similar F) (min (unat top_k) (length cs)) cs
          in if length rs > unat top_k then take (unat top_k) rs else rs)"

fun compact_docs ::
  "VectorDocument list \<Rightarrow> VectorDocument list \<times> (string \<rightharpoonup> nat) \<Rightarrow> VectorDocument list \<times> (string \<rightharpoonup> nat)" where
  "compact_docs [] s = s"
| "compact_docs (d # ds) (active, m) =
    compact_docs ds (if vd_deleted d then (active, m) else (active @ [d], m(vd_id d \<mapsto> length active)))"

definition db_compact :: "FastRetrieveDB \<Rightarrow> FastRetrieveDB" where
  "db_compact db =
    (case compact_docs (db_docs db) ([], Map.empty) of
       (active, m) \<Rightarrow> db\<lparr>db_docs := active, db_id_to_index := m\<rparr>)"

definition db_size :: "FastRetrieveDB \<Rightarrow> nat" where
  "db_size db = length (db_docs db)"

definition active_count :: "FastRetrieveDB \<Rightarrow> nat" where
  "active_count db = length (filter (\<lambda>d. \<not> vd_deleted d) (db_docs db))"

section \<open>The contract\<close>

datatype ('k, 'v) store_op = Put 'k 'v | Del 'k | Tidy

fun map_step :: "('k, 'v) store_op \<Rightarrow> ('k \<rightharpoonup> 'v) \<Rightarrow> ('k \<rightharpoonup> 'v)" where
  "map_step (Put k v) m = m(k \<mapsto> v)"
| "map_step (Del k) m = m(k := None)"
| "map_step Tidy m = m"

locale document_store =
  fixes ok :: "'s \<Rightarrow> bool"
    and contents :: "'s \<Rightarrow> 'k \<rightharpoonup> 'v"
    and put :: "'k \<Rightarrow> 'v \<Rightarrow> 's \<Rightarrow> 's"
    and del :: "'k \<Rightarrow> 's \<Rightarrow> 's"
    and tidy :: "'s \<Rightarrow> 's"
  assumes put_ok: "ok s \<Longrightarrow> ok (put k v s)"
    and put_contents: "ok s \<Longrightarrow> contents (put k v s) = (contents s)(k \<mapsto> v)"
    and del_ok: "ok s \<Longrightarrow> ok (del k s)"
    and del_contents: "ok s \<Longrightarrow> contents (del k s) = (contents s)(k := None)"
    and tidy_ok: "ok s \<Longrightarrow> ok (tidy s)"
    and tidy_contents: "ok s \<Longrightarrow> contents (tidy s) = contents s"
begin

definition store_step :: "('k, 'v) store_op \<Rightarrow> 's \<Rightarrow> 's" where
  "store_step op = (case op of Put k v \<Rightarrow> put k v | Del k \<Rightarrow> del k | Tidy \<Rightarrow> tidy)"

lemma step_refines: "ok s \<Longrightarrow> ok (store_step op s) \<and> contents (store_step op s) = map_step op (contents s)"
  by (cases op) (simp_all add: store_step_def put_ok put_contents del_ok del_contents tidy_ok tidy_contents)

lemma run_refines:
  "ok s \<Longrightarrow> ok (fold store_step ops s) \<and> contents (fold store_step ops s) = fold map_step ops (contents s)"
  using step_refines by (induction ops arbitrary: s) auto

end

section \<open>The implementation keeps it\<close>

definition db_ok :: "FastRetrieveDB \<Rightarrow> bool" where
  "db_ok db \<longleftrightarrow> (\<forall>i < length (db_docs db). db_id_to_index db (vd_id (db_docs db ! i)) = Some i) \<and>
     (\<forall>k i. db_id_to_index db k = Some i \<longrightarrow> i < length (db_docs db) \<and> vd_id (db_docs db ! i) = k)"

definition db_contents :: "FastRetrieveDB \<Rightarrow> string \<rightharpoonup> string \<times> f32 list" where
  "db_contents db k =
    (case db_id_to_index db k of
       None \<Rightarrow> None
     | Some i \<Rightarrow> if vd_deleted (db_docs db ! i) then None
         else Some (vd_text (db_docs db ! i), vd_embedding (db_docs db ! i)))"

lemma new_db_ok: "db_ok (new_FastRetrieveDB dim)" "db_contents (new_FastRetrieveDB dim) = Map.empty"
  by (auto simp: db_ok_def db_contents_def new_FastRetrieveDB_def)

lemma db_okI:
  "(\<And>i. i < length (db_docs db) \<Longrightarrow> db_id_to_index db (vd_id (db_docs db ! i)) = Some i) \<Longrightarrow>
   (\<And>k i. db_id_to_index db k = Some i \<Longrightarrow> i < length (db_docs db) \<and> vd_id (db_docs db ! i) = k) \<Longrightarrow> db_ok db"
  by (simp add: db_ok_def)

lemma db_okD:
  assumes "db_ok db"
  shows "db_id_to_index db k = Some i \<Longrightarrow> i < length (db_docs db) \<and> vd_id (db_docs db ! i) = k"
    and "i < length (db_docs db) \<Longrightarrow> db_id_to_index db (vd_id (db_docs db ! i)) = Some i"
  using assms by (simp_all add: db_ok_def)

lemma db_ok_distinct: "db_ok db \<Longrightarrow> distinct (map vd_id (db_docs db))"
  unfolding distinct_conv_nth by (metis db_okD(2) length_map nth_map option.inject)

lemma db_ok_member:
  "db_ok db \<Longrightarrow> d \<in> set (db_docs db) \<Longrightarrow> \<exists>i < length (db_docs db). db_id_to_index db (vd_id d) = Some i \<and> db_docs db ! i = d"
  by (metis db_okD(2) in_set_conv_nth)

lemma db_insert_ok:
  assumes "db_ok db"
  shows "db_ok (db_insert k t e db)"
proof (cases "db_id_to_index db k")
  case None
  then show ?thesis using assms by (auto simp: db_ok_def db_insert_def Let_def nth_append less_Suc_eq split: if_splits)
next
  case (Some a)
  have k: "a < length (db_docs db)" "vd_id (db_docs db ! a) = k" using db_okD(1) [OF assms Some] by simp_all
  let ?db = "db_insert k t e db"
  have idx: "db_id_to_index ?db = db_id_to_index db" and len: "length (db_docs ?db) = length (db_docs db)"
    and ids: "vd_id (db_docs ?db ! i) = vd_id (db_docs db ! i)" if "i < length (db_docs db)" for i
    using Some k that by (auto simp: db_insert_def Let_def nth_list_update)
  show ?thesis
  proof (rule db_okI)
    show "i < length (db_docs ?db) \<Longrightarrow> db_id_to_index ?db (vd_id (db_docs ?db ! i)) = Some i" for i
      using db_okD(2) [OF assms] idx [OF k(1)] len [OF k(1)] ids by simp
    show "db_id_to_index ?db l = Some i \<Longrightarrow> i < length (db_docs ?db) \<and> vd_id (db_docs ?db ! i) = l" for l i
      using db_okD(1) [OF assms, of l i] idx [OF k(1)] len [OF k(1)] ids by simp
  qed
qed

lemma db_insert_contents: "db_ok db \<Longrightarrow> db_contents (db_insert k t e db) = (db_contents db)(k \<mapsto> (t, e))"
proof (rule ext)
  fix j
  assume "db_ok db"
  then have "i < length (db_docs db) \<and> vd_id (db_docs db ! i) = l" if "db_id_to_index db l = Some i" for l i
    using that by (simp add: db_ok_def)
  from this [of k] this [of j] show "db_contents (db_insert k t e db) j = ((db_contents db)(k \<mapsto> (t, e))) j"
    by (cases "db_id_to_index db k"; cases "db_id_to_index db j")
      (auto simp: db_contents_def db_insert_def Let_def nth_append nth_list_update)
qed

lemma db_remove_ok: "db_ok db \<Longrightarrow> db_ok (db_remove k db)"
  unfolding db_ok_def db_remove_def
  by (cases "db_id_to_index db k") (auto simp: nth_list_update)

lemma db_remove_contents: "db_ok db \<Longrightarrow> db_contents (db_remove k db) = (db_contents db)(k := None)"
proof (rule ext)
  fix j
  assume "db_ok db"
  then have "i < length (db_docs db) \<and> vd_id (db_docs db ! i) = l" if "db_id_to_index db l = Some i" for l i
    using that by (simp add: db_ok_def)
  from this [of k] this [of j] show "db_contents (db_remove k db) j = ((db_contents db)(k := None)) j"
    by (cases "db_id_to_index db k"; cases "db_id_to_index db j")
      (auto simp: db_contents_def db_remove_def nth_list_update)
qed

lemma contents_iff:
  assumes "db_ok db"
  shows "db_contents db k = Some (t, e) \<longleftrightarrow>
    (\<exists>d \<in> set (db_docs db). vd_id d = k \<and> \<not> vd_deleted d \<and> vd_text d = t \<and> vd_embedding d = e)"
proof
  assume "db_contents db k = Some (t, e)"
  then obtain i where "db_id_to_index db k = Some i" "\<not> vd_deleted (db_docs db ! i)"
      "t = vd_text (db_docs db ! i)" "e = vd_embedding (db_docs db ! i)"
    by (auto simp: db_contents_def split: option.splits if_splits)
  with db_okD(1) [OF assms] show "\<exists>d \<in> set (db_docs db). vd_id d = k \<and> \<not> vd_deleted d \<and> vd_text d = t \<and> vd_embedding d = e"
    by (metis nth_mem)
next
  assume "\<exists>d \<in> set (db_docs db). vd_id d = k \<and> \<not> vd_deleted d \<and> vd_text d = t \<and> vd_embedding d = e"
  with db_ok_member [OF assms] show "db_contents db k = Some (t, e)" by (fastforce simp: db_contents_def)
qed

lemma compact_docs_spec:
  assumes "db_ok (db\<lparr>db_docs := acc, db_id_to_index := m\<rparr>)" "distinct (map vd_id (acc @ ds))"
  shows "\<exists>m'. compact_docs ds (acc, m) = (acc @ filter (\<lambda>d. \<not> vd_deleted d) ds, m') \<and>
    db_ok (db\<lparr>db_docs := acc @ filter (\<lambda>d. \<not> vd_deleted d) ds, db_id_to_index := m'\<rparr>)"
  using assms
proof (induction ds arbitrary: acc m)
  case (Cons d ds)
  show ?case
  proof (cases "vd_deleted d")
    case True
    then show ?thesis using Cons.IH [OF Cons.prems(1)] Cons.prems(2) by simp
  next
    case False
    have new: "vd_id d \<notin> set (map vd_id acc)" using Cons.prems(2) by auto
    then have none: "m (vd_id d) = None"
      using db_okD(1) [OF Cons.prems(1), of "vd_id d"] by (cases "m (vd_id d)") (auto simp: image_iff, metis nth_mem)
    have "db_ok (db\<lparr>db_docs := acc @ [d], db_id_to_index := m(vd_id d \<mapsto> length acc)\<rparr>)"
    proof (rule db_okI, goal_cases)
      case (1 i)
      have "m (vd_id (acc ! i)) = Some i" if "i < length acc" using db_okD(2) [OF Cons.prems(1)] that by simp
      then show ?case using 1 none by (cases "i = length acc") (auto simp: nth_append)
    next
      case (2 k i)
      have "i < length acc \<and> vd_id (acc ! i) = k" if "m k = Some i" using db_okD(1) [OF Cons.prems(1)] that by simp
      then show ?case using 2 by (cases "k = vd_id d") (auto simp: nth_append)
    qed
    then show ?thesis using Cons.IH [where acc = "acc @ [d]" and m = "m(vd_id d \<mapsto> length acc)"] Cons.prems(2) False
      by (simp del: fun_upd_apply)
  qed
qed simp

lemma db_compact_docs:
  assumes "db_ok db"
  shows "db_docs (db_compact db) = filter (\<lambda>d. \<not> vd_deleted d) (db_docs db) \<and> db_ok (db_compact db) \<and>
    db_embedding_dim (db_compact db) = db_embedding_dim db"
proof -
  have "db_ok (db\<lparr>db_docs := [], db_id_to_index := Map.empty\<rparr>)" by (simp add: db_ok_def)
  from compact_docs_spec [OF this, of "db_docs db"] db_ok_distinct [OF assms] show ?thesis
    by (auto simp: db_compact_def)
qed

lemma db_compact_contents:
  assumes "db_ok db"
  shows "db_contents (db_compact db) = db_contents db"
proof (rule ext)
  fix k
  have "db_contents (db_compact db) k = Some (t, e) \<longleftrightarrow> db_contents db k = Some (t, e)" for t e
    using db_compact_docs [OF assms] contents_iff [OF assms] contents_iff [of "db_compact db"]
    by (simp only: set_filter mem_Collect_eq) blast
  then show "db_contents (db_compact db) k = db_contents db k" by (metis not_None_eq surj_pair)
qed

interpretation rag: document_store db_ok db_contents "\<lambda>k (t, e). db_insert k t e" db_remove db_compact
  by unfold_locales
    (auto simp: db_insert_ok db_insert_contents db_remove_ok db_remove_contents db_compact_docs db_compact_contents)

text \<open>Inserting, removing and compacting, in any order.\<close>

definition db_step :: "(string, string \<times> f32 list) store_op \<Rightarrow> FastRetrieveDB \<Rightarrow> FastRetrieveDB" where
  "db_step op = (case op of Put k (t, e) \<Rightarrow> db_insert k t e | Del k \<Rightarrow> db_remove k | Tidy \<Rightarrow> db_compact)"

lemma db_step_store: "db_step = rag.store_step"
  by (intro ext) (auto simp: db_step_def rag.store_step_def split: store_op.splits)

lemma db_run:
  "db_ok (fold db_step ops (new_FastRetrieveDB dim)) \<and>
   db_contents (fold db_step ops (new_FastRetrieveDB dim)) = fold map_step ops Map.empty"
  using rag.run_refines [OF new_db_ok(1), of ops dim] by (simp add: db_step_store new_db_ok(2))

lemma db_step_dim: "db_ok db \<Longrightarrow> db_embedding_dim (db_step op db) = db_embedding_dim db"
  by (auto simp: db_step_def db_insert_def db_remove_def db_compact_docs Let_def split: store_op.splits option.splits)

lemma db_run_dim: "db_embedding_dim (fold db_step ops (new_FastRetrieveDB dim)) = dim"
proof -
  have "db_embedding_dim (fold db_step ops db) = db_embedding_dim db" if "db_ok db" for db
    using that
  proof (induction ops arbitrary: db)
    case (Cons op ops)
    have "db_ok (db_step op db)" using rag.step_refines [OF Cons.prems] by (simp add: db_step_store)
    then show ?case using Cons db_step_dim by simp
  qed simp
  then show ?thesis by (simp add: new_db_ok(1)) (simp add: new_FastRetrieveDB_def)
qed

lemma active_count_card:
  assumes "db_ok db"
  shows "active_count db = card (dom (db_contents db))"
proof -
  let ?ds = "filter (\<lambda>d. \<not> vd_deleted d) (db_docs db)"
  have "distinct (map vd_id ?ds)" using db_ok_distinct [OF assms] by (simp add: distinct_map_filter)
  then have "card (set (map vd_id ?ds)) = active_count db"
    by (simp only: active_count_def distinct_card length_map)
  moreover have "dom (db_contents db) = set (map vd_id ?ds)"
    using contents_iff [OF assms] by (fastforce simp: dom_def)
  ultimately show ?thesis by simp
qed

section \<open>Search\<close>

text \<open>
  What \<open>std::partial_sort\<close> promises for a strict weak order: a permutation whose first \<open>k\<close>
  elements are in order and not preceded by any later one.
\<close>

definition strict_weak :: "('a \<Rightarrow> 'a \<Rightarrow> bool) \<Rightarrow> 'a set \<Rightarrow> bool" where
  "strict_weak r S \<longleftrightarrow> (\<forall>x \<in> S. \<not> r x x) \<and> (\<forall>x \<in> S. \<forall>y \<in> S. \<forall>z \<in> S. r x y \<longrightarrow> r y z \<longrightarrow> r x z) \<and>
     (\<forall>x \<in> S. \<forall>y \<in> S. \<forall>z \<in> S. r x z \<longrightarrow> r x y \<or> r y z)"

definition partial_sorter :: "sorter \<Rightarrow> bool" where
  "partial_sorter psort \<longleftrightarrow> (\<forall>before k xs. strict_weak before (set xs) \<longrightarrow> k \<le> length xs \<longrightarrow>
     mset (psort before k xs) = mset xs \<and>
     (\<forall>i < k. \<forall>j < length xs. i < j \<longrightarrow> \<not> before (psort before k xs ! j) (psort before k xs ! i)))"

lemma candidate_iff:
  assumes "db_ok db"
  shows "r \<in> set (rag_candidates F q db) \<longleftrightarrow> (\<exists>t e. db_contents db (rr_id r) = Some (t, e) \<and>
    length e = unat (db_embedding_dim db) \<and> rr_text r = t \<and>
    rr_similarity r = cosine_similarity F q e (unat (db_embedding_dim db)))"
  by (cases r) (auto simp: rag_candidates_def contents_iff [OF assms])

lemma candidates_distinct:
  assumes "db_ok db"
  shows "distinct (map rr_id (rag_candidates F q db))"
  using db_ok_distinct [OF assms] by (simp add: rag_candidates_def comp_def distinct_map_filter)

lemma more_similar_weak:
  assumes "strict_weak (fo_less F) (rr_similarity ` S)"
  shows "strict_weak (more_similar F) S"
proof -
  let ?s = rr_similarity
  have "\<forall>x \<in> S. \<not> fo_less F (?s x) (?s x)"
    "\<forall>x \<in> S. \<forall>y \<in> S. \<forall>z \<in> S. fo_less F (?s x) (?s y) \<longrightarrow> fo_less F (?s y) (?s z) \<longrightarrow> fo_less F (?s x) (?s z)"
    "\<forall>x \<in> S. \<forall>y \<in> S. \<forall>z \<in> S. fo_less F (?s x) (?s z) \<longrightarrow> fo_less F (?s x) (?s y) \<or> fo_less F (?s y) (?s z)"
    using assms unfolding strict_weak_def by blast+
  then show ?thesis unfolding strict_weak_def more_similar_def by blast
qed

lemma strict_weak_subset: "strict_weak r S \<Longrightarrow> T \<subseteq> S \<Longrightarrow> strict_weak r T"
  unfolding strict_weak_def by (meson subsetD)

lemma take_best:
  fixes psort :: sorter and n :: nat and cs :: "RAGQueryResult list"
    and before :: "RAGQueryResult \<Rightarrow> RAGQueryResult \<Rightarrow> bool"
  assumes "partial_sorter psort" "strict_weak before (set cs)"
  defines "rs \<equiv> take n (psort before (min n (length cs)) cs)"
  shows "length rs = min n (length cs)" "set rs \<subseteq> set cs" "distinct (map f cs) \<Longrightarrow> distinct (map f rs)"
    and "i < j \<Longrightarrow> j < length rs \<Longrightarrow> \<not> before (rs ! j) (rs ! i)"
    and "c \<in> set cs \<Longrightarrow> c \<notin> set rs \<Longrightarrow> r \<in> set rs \<Longrightarrow> \<not> before c r"
proof -
  let ?ps = "psort before (min n (length cs)) cs"
  have m: "mset ?ps = mset cs" and s: "\<forall>i < min n (length cs). \<forall>j < length cs. i < j \<longrightarrow> \<not> before (?ps ! j) (?ps ! i)"
    using assms(1,2) unfolding partial_sorter_def by (metis min.cobounded2)+
  have len: "length ?ps = length cs" using m by (metis size_mset)
  show l: "length rs = min n (length cs)" by (simp add: rs_def len min.commute)
  have set: "set ?ps = set cs" using m by (metis set_mset_mset)
  then show "set rs \<subseteq> set cs" by (auto simp: rs_def dest: in_set_takeD)
  show "distinct (map f cs) \<Longrightarrow> distinct (map f rs)"
  proof -
    assume "distinct (map f cs)"
    moreover have "mset (map f ?ps) = mset (map f cs)" using m by simp
    ultimately have "distinct (map f ?ps)" using mset_eq_imp_distinct_iff by blast
    then show ?thesis by (simp add: rs_def take_map [symmetric])
  qed
  show "i < j \<Longrightarrow> j < length rs \<Longrightarrow> \<not> before (rs ! j) (rs ! i)"
    using s l by (simp add: rs_def len)
  show "c \<in> set cs \<Longrightarrow> c \<notin> set rs \<Longrightarrow> r \<in> set rs \<Longrightarrow> \<not> before c r"
  proof -
    assume c: "c \<in> set cs" "c \<notin> set rs" and r: "r \<in> set rs"
    obtain j where j: "j < length cs" "c = ?ps ! j" using c(1) set len by (metis in_set_conv_nth)
    have "n \<le> j" using c(2) j len by (metis in_set_conv_nth l leI min_less_iff_conj nth_take rs_def)
    obtain i where "i < min n (length cs)" "r = ?ps ! i" using r l by (auto simp: in_set_conv_nth rs_def len)
    then show ?thesis using s j \<open>n \<le> j\<close> by auto
  qed
qed

lemma search_rag_take:
  assumes "partial_sorter psort" "strict_weak (more_similar F) (set (rag_candidates F q db))"
    and "length q = unat (db_embedding_dim db)"
  shows "search_rag F psort q k db = take (unat k)
    (psort (more_similar F) (min (unat k) (length (rag_candidates F q db))) (rag_candidates F q db))"
proof (cases "db_docs db = []")
  case True
  let ?cs = "rag_candidates F q db"
  have "?cs = []" using True by (simp add: rag_candidates_def)
  then have "length (take (unat k) (psort (more_similar F) (min (unat k) (length ?cs)) ?cs)) = 0"
    using take_best(1) [OF assms(1,2), of "unat k"] by simp
  then have "take (unat k) (psort (more_similar F) (min (unat k) (length ?cs)) ?cs) = []" by (simp only: length_0_conv)
  moreover have "search_rag F psort q k db = []" by (simp add: search_rag_def True)
  ultimately show ?thesis by (simp only:)
next
  case False
  then show ?thesis using assms(3) by (simp add: search_rag_def Let_def)
qed

lemma candidates_count:
  assumes "db_ok db"
  shows "length (rag_candidates F q db) =
    card {i. \<exists>t e. db_contents db i = Some (t, e) \<and> length e = unat (db_embedding_dim db)}"
proof -
  let ?n = "unat (db_embedding_dim db)"
  have "rr_id ` set (rag_candidates F q db) = {i. \<exists>t e. db_contents db i = Some (t, e) \<and> length e = ?n}"
  proof (intro set_eqI iffI)
    fix i
    assume "i \<in> {i. \<exists>t e. db_contents db i = Some (t, e) \<and> length e = ?n}"
    then obtain t e where "db_contents db i = Some (t, e)" "length e = ?n" by blast
    then have "\<lparr> rr_id = i, rr_text = t, rr_similarity = cosine_similarity F q e ?n \<rparr> \<in> set (rag_candidates F q db)"
      unfolding candidate_iff [OF assms] by simp
    then show "i \<in> rr_id ` set (rag_candidates F q db)" by force
  qed (use candidate_iff [OF assms] in auto)
  then show ?thesis using distinct_card [OF candidates_distinct [OF assms, of F q]] by (simp add: image_set [symmetric])
qed

lemma search_rag_best:
  assumes "partial_sorter psort" "length q = unat dim"
    and "strict_weak (fo_less F) {cosine_similarity F q e (unat dim) |t e.
      (t, e) \<in> ran (fold map_step ops Map.empty) \<and> length e = unat dim}"
  shows "\<exists>rs M. rs = search_rag F psort q k (fold db_step ops (new_FastRetrieveDB dim)) \<and>
    M = fold map_step ops Map.empty \<and> active_count (fold db_step ops (new_FastRetrieveDB dim)) = card (dom M) \<and>
    distinct (map rr_id rs) \<and> length rs = min (unat k) (card {i. \<exists>t e. M i = Some (t, e) \<and> length e = unat dim}) \<and>
    (\<forall>r \<in> set rs. \<exists>e. M (rr_id r) = Some (rr_text r, e) \<and> length e = unat dim \<and>
      rr_similarity r = cosine_similarity F q e (unat dim)) \<and>
    (\<forall>j < length rs. \<forall>i < j. \<not> fo_less F (rr_similarity (rs ! i)) (rr_similarity (rs ! j))) \<and>
    (\<forall>i t e. M i = Some (t, e) \<longrightarrow> length e = unat dim \<longrightarrow> i \<notin> set (map rr_id rs) \<longrightarrow>
      (\<forall>r \<in> set rs. \<not> fo_less F (rr_similarity r) (cosine_similarity F q e (unat dim))))"
proof -
  let ?db = "fold db_step ops (new_FastRetrieveDB dim)" and ?M = "fold map_step ops Map.empty"
  let ?cs = "rag_candidates F q ?db" and ?rs = "search_rag F psort q k ?db"
  have ok: "db_ok ?db" and M: "db_contents ?db = ?M" and dim: "db_embedding_dim ?db = dim"
    using db_run db_run_dim by blast+
  note cand = candidate_iff [OF ok, of _ F q, unfolded M dim]
  have "strict_weak (fo_less F) (rr_similarity ` set ?cs)"
  proof -
    have "rr_similarity ` set ?cs \<subseteq> {cosine_similarity F q e (unat dim) |t e. (t, e) \<in> ran ?M \<and> length e = unat dim}"
      using cand by (fastforce simp: ran_def)
    with assms(3) show ?thesis by (rule strict_weak_subset)
  qed
  then have weak: "strict_weak (more_similar F) (set ?cs)" by (rule more_similar_weak)
  note best = take_best [OF assms(1) weak, where n = "unat k"]
  have rs: "?rs = take (unat k) (psort (more_similar F) (min (unat k) (length ?cs)) ?cs)"
    using search_rag_take [OF assms(1) weak] assms(2) by (simp add: dim)
  have sound: "\<exists>e. ?M (rr_id r) = Some (rr_text r, e) \<and> length e = unat dim \<and>
      rr_similarity r = cosine_similarity F q e (unat dim)" if "r \<in> set ?rs" for r
    using best(2) that cand [of r] unfolding rs by blast
  have complete: "\<not> fo_less F (rr_similarity r) (cosine_similarity F q e (unat dim))"
    if "?M i = Some (t, e)" "length e = unat dim" "i \<notin> set (map rr_id ?rs)" "r \<in> set ?rs" for i t e r
  proof -
    let ?c = "\<lparr> rr_id = i, rr_text = t, rr_similarity = cosine_similarity F q e (unat dim) \<rparr>"
    have "?c \<in> set ?cs" using that(1,2) unfolding cand by simp
    moreover have "?c \<notin> set ?rs" using that(3) by force
    ultimately have "\<not> more_similar F ?c r" using best(5) that(4) unfolding rs by blast
    then show ?thesis by (simp add: more_similar_def)
  qed
  show ?thesis
    using best(1,3,4) candidates_distinct [OF ok, of F q] active_count_card [OF ok] sound complete
      candidates_count [OF ok, of F q, unfolded M dim]
    unfolding rs [symmetric] by (intro exI [of _ ?rs] exI [of _ ?M]) (auto simp: M more_similar_def)
qed

text \<open>
  C4. Search sees the map the operations describe: after any sequence of insertions, removals and
  compactions the database returns the k best of the documents that are in the map with an
  embedding of the right dimension (all of them if there are fewer), each once, with its text and
  its similarity, best first; no document that is left out is more similar than one returned. The
  number of active documents is the size of the map.
\<close>

theorem search_top_k:
  assumes "partial_sorter psort" "length q = unat dim"
    and "strict_weak (fo_less F) {cosine_similarity F q e (unat dim) |t e.
      (t, e) \<in> ran (fold map_step ops Map.empty) \<and> length e = unat dim}"
  shows "\<exists>rs M. rs = search_rag F psort q k (fold db_step ops (new_FastRetrieveDB dim)) \<and>
    M = fold map_step ops Map.empty \<and> active_count (fold db_step ops (new_FastRetrieveDB dim)) = card (dom M) \<and>
    distinct (map rr_id rs) \<and> length rs = min (unat k) (card {i. \<exists>t e. M i = Some (t, e) \<and> length e = unat dim}) \<and>
    (\<forall>r \<in> set rs. \<exists>e. M (rr_id r) = Some (rr_text r, e) \<and> length e = unat dim \<and>
      rr_similarity r = cosine_similarity F q e (unat dim)) \<and>
    (\<forall>j < length rs. \<forall>i < j. \<not> fo_less F (rr_similarity (rs ! i)) (rr_similarity (rs ! j))) \<and>
    (\<forall>i t e. M i = Some (t, e) \<longrightarrow> length e = unat dim \<longrightarrow> i \<notin> set (map rr_id rs) \<longrightarrow>
      (\<forall>r \<in> set rs. \<not> fo_less F (rr_similarity r) (cosine_similarity F q e (unat dim))))"
  by (rule search_rag_best [OF assms])

text \<open>A sorter that keeps the promise: insertion sort.\<close>

fun insert_before :: "('a \<Rightarrow> 'a \<Rightarrow> bool) \<Rightarrow> 'a \<Rightarrow> 'a list \<Rightarrow> 'a list" where
  "insert_before r x [] = [x]"
| "insert_before r x (y # ys) = (if r y x then y # insert_before r x ys else x # y # ys)"

definition insertion_sorter :: sorter where
  "insertion_sorter before k xs = foldr (insert_before before) xs []"

lemma insert_before_mset: "mset (insert_before r x ys) = add_mset x (mset ys)"
  by (induction ys) auto

lemma insert_before_sorted:
  assumes "strict_weak r S" "x \<in> S" "set ys \<subseteq> S" "sorted_wrt (\<lambda>a b. \<not> r b a) ys"
  shows "sorted_wrt (\<lambda>a b. \<not> r b a) (insert_before r x ys)"
  using assms(3,4)
proof (induction ys)
  case (Cons y ys)
  have set: "set (insert_before r x ys) = insert x (set ys)"
    using insert_before_mset [of r x ys] by (metis set_mset_add_mset_insert set_mset_mset)
  have neg: "r z x \<Longrightarrow> r z y \<or> r y x" and asym: "r y x \<Longrightarrow> \<not> r x y" if "z \<in> set ys" for z
    using assms(1,2) Cons.prems(1) that unfolding strict_weak_def by (meson list.set_intros subsetD)+
  show ?case
  proof (cases "r y x")
    case True
    then have "\<not> r x y" using assms(1,2) Cons.prems(1) unfolding strict_weak_def by (meson list.set_intros(1) subsetD)
    then show ?thesis using Cons True set by auto
  next
    case False
    then show ?thesis using Cons.prems neg by auto
  qed
qed simp

lemma insertion_sorter_ok: "partial_sorter insertion_sorter"
proof -
  have m: "mset (insertion_sorter before k xs) = mset xs" for before k xs
    by (induction xs) (auto simp: insertion_sorter_def insert_before_mset)
  have "sorted_wrt (\<lambda>a b. \<not> before b a) (insertion_sorter before k xs)" if w: "strict_weak before (set xs)" for before k xs
    using w
  proof (induction xs)
    case (Cons x xs)
    have "strict_weak before (set xs)" using Cons.prems by (rule strict_weak_subset) auto
    then have s: "sorted_wrt (\<lambda>a b. \<not> before b a) (insertion_sorter before k xs)" by (rule Cons.IH)
    have "set (insertion_sorter before k xs) \<subseteq> set (x # xs)" using m by (metis set_mset_mset set_subset_Cons)
    from insert_before_sorted [OF Cons.prems _ this s, of x] show ?case by (simp add: insertion_sorter_def)
  qed (simp add: insertion_sorter_def)
  then show ?thesis
    using m unfolding partial_sorter_def
    by (auto simp: sorted_wrt_iff_nth_less) (metis size_mset)
qed

definition word_ops :: float_ops where
  "word_ops = \<lparr> fo_add = (+), fo_sub = (-), fo_mul = (*), fo_div = (div), fo_less = (<), fo_eq = (=), fo_neg = uminus,
     fo_sqrt = id, fo_exp = id, fo_erf = id, fo_tanh = id, fo_of_u32 = id \<rparr>"

definition example_db_ops :: "(string, string \<times> f32 list) store_op list" where
  "example_db_ops = [Put ''a'' (''x'', [1]), Put ''b'' (''y'', [2]), Del ''a'', Tidy, Put ''c'' (''z'', [1, 1])]"

theorem search_top_k_witness:
  "map rr_id (search_rag word_ops insertion_sorter [3] 5 (fold db_step example_db_ops (new_FastRetrieveDB 1))) = [''b''] \<and>
   active_count (fold db_step example_db_ops (new_FastRetrieveDB 1)) = 2"
proof -
  have M: "fold map_step example_db_ops Map.empty = [''b'' \<mapsto> (''y'', [2]), ''c'' \<mapsto> (''z'', [1, 1])]"
    by (rule ext) (simp add: example_db_ops_def)
  have weak: "strict_weak (fo_less word_ops) S" for S
    by (auto simp: strict_weak_def word_ops_def)
  have one: "length [3 :: f32] = unat (1 :: u32)" by simp
  have "{i. \<exists>t e. fold map_step example_db_ops Map.empty i = Some (t, e) \<and> length e = unat (1 :: u32)} = {''b''}"
    by (auto simp: M split: if_splits)
  moreover have "card (dom (fold map_step example_db_ops Map.empty)) = 2" by (simp add: M)
  moreover from search_top_k [OF insertion_sorter_ok one weak, of 5 example_db_ops]
  obtain rs M where rs: "rs = search_rag word_ops insertion_sorter [3] 5 (fold db_step example_db_ops (new_FastRetrieveDB 1))"
    and "M = fold map_step example_db_ops Map.empty"
    and "active_count (fold db_step example_db_ops (new_FastRetrieveDB 1)) = card (dom M)"
    and "length rs = min (unat (5 :: u32)) (card {i. \<exists>t e. M i = Some (t, e) \<and> length e = unat (1 :: u32)})"
    and found: "\<forall>r \<in> set rs. \<exists>e. M (rr_id r) = Some (rr_text r, e) \<and> length e = unat (1 :: u32) \<and>
      rr_similarity r = cosine_similarity word_ops [3] e (unat (1 :: u32))"
    by blast
  ultimately have "length rs = 1" "active_count (fold db_step example_db_ops (new_FastRetrieveDB 1)) = 2" by simp_all
  then obtain r where "rs = [r]" by (auto simp: length_Suc_conv)
  then have "rr_id r = ''b''"
    using found \<open>M = fold map_step example_db_ops Map.empty\<close> by (auto simp: M split: if_splits)
  then show ?thesis
    using \<open>active_count (fold db_step example_db_ops (new_FastRetrieveDB 1)) = 2\<close> \<open>rs = [r]\<close>
    unfolding rs [symmetric] by simp
qed

end
