(* ===== verification/StreamProtocol.thy ===== *)
theory StreamProtocol
  imports ByteCodec
begin

text \<open>
  The remote payload provider of \<open>src/dxiocp/dxiocp.cpp\<close>: a server that answers requests for the
  index and for byte ranges of the payload file, and a client that receives each chunk with an
  overlapped receive, stages it and queues its copy into a VRAM slot.

  A connection carries the bytes the peer has sent (\<open>so_in\<close>) and the bytes sent to it; how much a
  call of \<open>send\<close>, \<open>recv\<close> or \<open>WSARecv\<close> moves is decided by the network and listed in the connection's
  outcome lists. An empty list, a count of zero and the end of the incoming bytes are a closed
  connection. An overlapped receive completes asynchronously, through the completion port, or at
  once; in the second case Windows queues a completion packet as well (\<open>so_port\<close>). After an
  exception the client's state is not described. Times are not modelled.
\<close>

section \<open>Connections\<close>

datatype recv_event = Recv_Async nat | Recv_Sync nat | Recv_Failed

record connection =
  so_in :: "u8 list"
  so_recvs :: "nat list"
  so_overlapped :: "recv_event list"
  so_port :: "nat list"
  so_sends :: "nat list"
  so_out :: "u8 list"

text \<open>
  \<open>Escapes\<close> is a receive that is still under way when the buffer and the \<open>OVERLAPPED\<close> structure
  it works on are gone, or a write outside a buffer.
\<close>

datatype 'a net = Done 'a | Throws | Escapes

fun net_bind :: "'a net \<Rightarrow> ('a \<Rightarrow> 'b net) \<Rightarrow> 'b net" where
  "net_bind (Done x) k = k x"
| "net_bind Throws k = Throws"
| "net_bind Escapes k = Escapes"

text \<open>Sending \<open>bs\<close> in calls of at most \<open>cap\<close> bytes; false where a call sends nothing.\<close>

fun send_calls :: "nat \<Rightarrow> u8 list \<Rightarrow> nat list \<Rightarrow> u8 list \<Rightarrow> bool \<times> nat list \<times> u8 list" where
  "send_calls cap [] ks out = (True, ks, out)"
| "send_calls cap (b # bs) [] out = (False, [], out)"
| "send_calls cap (b # bs) (k # ks) out =
    (let m = min k (min cap (length (b # bs)))
     in if m = 0 then (False, ks, out) else send_calls cap (drop m (b # bs)) ks (out @ take m (b # bs)))"

definition send_all :: "nat \<Rightarrow> u8 list \<Rightarrow> connection \<Rightarrow> bool \<times> connection" where
  "send_all cap bs so =
    (case send_calls cap bs (so_sends so) (so_out so) of
       (ok, ks, out) \<Rightarrow> (ok, so\<lparr>so_sends := ks, so_out := out\<rparr>))"

text \<open>One call of \<open>send\<close>, which has to take all the bytes.\<close>

definition send_once :: "u8 list \<Rightarrow> connection \<Rightarrow> bool \<times> connection" where
  "send_once bs so =
    (case so_sends so of
       [] \<Rightarrow> (False, so)
     | k # ks \<Rightarrow> (length bs \<le> k, so\<lparr>so_sends := ks, so_out := so_out so @ take k bs\<rparr>))"

text \<open>Blocking receives of the \<open>n\<close> bytes that are missing; the count passed is an \<open>int\<close>.\<close>

fun recv_calls :: "nat \<Rightarrow> u8 list \<Rightarrow> nat list \<Rightarrow> (u8 list \<times> u8 list \<times> nat list) option" where
  "recv_calls 0 ins ks = Some ([], ins, ks)"
| "recv_calls (Suc n) ins [] = None"
| "recv_calls (Suc n) ins (k # ks) =
    (let c = Suc n mod 4294967296; m = min k (min c (length ins))
     in if c \<ge> 2147483648 \<or> m = 0 then None
        else map_option (\<lambda>(bs, ins', ks'). (take m ins @ bs, ins', ks')) (recv_calls (Suc n - m) (drop m ins) ks))"

definition recv_all :: "nat \<Rightarrow> connection \<Rightarrow> (u8 list \<times> connection) option" where
  "recv_all n so =
    map_option (\<lambda>(bs, ins, ks). (bs, so\<lparr>so_in := ins, so_recvs := ks\<rparr>)) (recv_calls n (so_in so) (so_recvs so))"

section \<open>Messages\<close>

record ChunkRequest =
  rq_op :: u32
  rq_padding :: u32
  rq_offset :: u64
  rq_size :: u64

record ChunkHeader =
  hd_op :: u32
  hd_flags :: u32
  hd_size :: u64

definition request_bytes :: "ChunkRequest \<Rightarrow> u8 list" where
  "request_bytes r = le_of_u32 (rq_op r) @ le_of_u32 (rq_padding r) @ le_of_u64 (rq_offset r) @ le_of_u64 (rq_size r)"

definition request_of :: "u8 list \<Rightarrow> ChunkRequest" where
  "request_of bs = \<lparr> rq_op = u32_of_le (read_at 0 4 bs), rq_padding = u32_of_le (read_at 4 4 bs),
     rq_offset = u64_of_le (read_at 8 8 bs), rq_size = u64_of_le (read_at 16 8 bs) \<rparr>"

definition header_bytes :: "ChunkHeader \<Rightarrow> u8 list" where
  "header_bytes h = le_of_u32 (hd_op h) @ le_of_u32 (hd_flags h) @ le_of_u64 (hd_size h)"

definition header_of :: "u8 list \<Rightarrow> ChunkHeader" where
  "header_of bs = \<lparr> hd_op = u32_of_le (read_at 0 4 bs), hd_flags = u32_of_le (read_at 4 4 bs),
     hd_size = u64_of_le (read_at 8 8 bs) \<rparr>"

section \<open>The server\<close>

record IocpStreamServer =
  sv_index :: "u8 list"
  sv_zstd :: bool
  sv_port :: u16
  sv_listening :: bool
  sv_running :: bool

text \<open>
  \<open>start\<close>: what \<open>socket\<close>, \<open>bind\<close>, \<open>listen\<close> answer, and the port \<open>getsockname\<close> reports. A refusal
  after \<open>socket\<close> leaves the listening socket open.
\<close>

definition server_start :: "bool \<Rightarrow> bool \<Rightarrow> bool \<Rightarrow> u16 option \<Rightarrow> IocpStreamServer \<Rightarrow> bool \<times> IocpStreamServer" where
  "server_start socket_ok bind_ok listen_ok bound s =
    (if \<not> socket_ok then (False, s\<lparr>sv_listening := False\<rparr>)
     else let s1 = s\<lparr>sv_listening := True\<rparr>
     in if \<not> bind_ok \<or> \<not> listen_ok then (False, s1)
     else (True, s1\<lparr>sv_port := (case bound of None \<Rightarrow> sv_port s | Some p \<Rightarrow> p), sv_running := True\<rparr>))"

definition server_stop :: "IocpStreamServer \<Rightarrow> IocpStreamServer" where
  "server_stop s = s\<lparr>sv_running := False, sv_listening := False\<rparr>"

text \<open>The payload range, read and sent in pieces of at most 1 MiB; false where the connection ends.\<close>

abbreviation (input) piece_bytes :: nat where "piece_bytes \<equiv> 1048576"

function serve_range :: "u8 list \<Rightarrow> nat \<Rightarrow> nat \<Rightarrow> connection \<Rightarrow> bool \<times> connection" where
  "serve_range file pos remaining so =
    (if remaining = 0 then (True, so)
     else let got = min (min remaining piece_bytes) (length file - pos)
     in if got = 0 then (False, so)
     else (case send_all got (read_at pos got file) so of
         (False, so') \<Rightarrow> (False, so')
       | (True, so') \<Rightarrow> serve_range file (pos + got) (remaining - got) so'))"
  by pat_completeness auto
termination by (relation "measure (\<lambda>(_, _, r, _). r)") auto

declare serve_range.simps [simp del]

text \<open>
  The payload stream of a connection: not open, good on the bytes of the file, or failed on an open
  file, after a seek to a negative position. A failed stream is cleared and opened anew before it is
  used; opening fails on a stream that is open, so it stays failed.
\<close>

datatype payload_stream = Not_Open | Open_Good "u8 list" | Open_Failed

definition open_payload :: "u8 list option \<Rightarrow> payload_stream" where
  "open_payload payload = (case payload of None \<Rightarrow> Not_Open | Some f \<Rightarrow> Open_Good f)"

definition payload_again :: "u8 list option \<Rightarrow> payload_stream \<Rightarrow> payload_stream" where
  "payload_again payload st =
    (case st of Open_Good f \<Rightarrow> Open_Good f | Open_Failed \<Rightarrow> Open_Failed | Not_Open \<Rightarrow> open_payload payload)"

definition serve_one ::
  "IocpStreamServer \<Rightarrow> u8 list option \<Rightarrow> payload_stream \<Rightarrow> connection \<Rightarrow> bool \<times> payload_stream \<times> connection" where
  "serve_one s payload st so =
    (case recv_all 24 so of
       None \<Rightarrow> (False, st, so)
     | Some (bs, so1) \<Rightarrow>
         let req = request_of bs
         in if rq_op req = 0 then
              (case send_once (header_bytes \<lparr> hd_op = 0, hd_flags = 0, hd_size = of_nat (length (sv_index s)) \<rparr>) so1 of
                 (False, so2) \<Rightarrow> (False, st, so2)
               | (True, so2) \<Rightarrow> (case send_all piece_bytes (sv_index s) so2 of (ok, so3) \<Rightarrow> (ok, st, so3)))
            else if rq_op req = 1 then
              (case payload_again payload st of
                 Open_Good f \<Rightarrow>
                   (let st1 = if rq_offset req > INT64_MAX then Open_Failed else Open_Good f
                    in case send_once (header_bytes \<lparr> hd_op = 1, hd_flags = if sv_zstd s then 1 else 0, hd_size = rq_size req \<rparr>) so1 of
                      (False, so2) \<Rightarrow> (False, st1, so2)
                    | (True, so2) \<Rightarrow>
                        (case serve_range f (if st1 = Open_Failed then length f else unat (rq_offset req)) (unat (rq_size req)) so2 of
                           (ok, so3) \<Rightarrow> (ok, st1, so3)))
               | st1 \<Rightarrow> (False, st1, so1))
            else (True, st, so1))"

text \<open>
  A connection's thread, for as many rounds as the server is running; the stream is opened once and
  keeps its state from round to round.
\<close>

fun serve_rounds :: "nat \<Rightarrow> IocpStreamServer \<Rightarrow> u8 list option \<Rightarrow> payload_stream \<Rightarrow> connection \<Rightarrow> connection" where
  "serve_rounds 0 s payload st so = so"
| "serve_rounds (Suc n) s payload st so =
    (case serve_one s payload st so of
       (False, st', so') \<Rightarrow> so'
     | (True, st', so') \<Rightarrow> serve_rounds n s payload st' so')"

definition serve_conn :: "nat \<Rightarrow> IocpStreamServer \<Rightarrow> u8 list option \<Rightarrow> connection \<Rightarrow> connection" where
  "serve_conn n s payload so = serve_rounds n s payload (open_payload payload) so"

section \<open>The client\<close>

datatype copy_source = Staging_Buffer | Warmup_Buffer

datatype copy_event =
    Stage_Write "u8 list"
  | Promote_Slot nat
  | Copy_Region nat copy_source u64
  | Signal_Fence u64
  | Wait_Fence u64

record IocpStreamClient =
  ic_slot_size :: u64
  ic_sock :: connection
  ic_staging :: "u8 list option"
  ic_copy_fence_value :: u64
  ic_last_copy_fv :: u64
  ic_copied_slots :: "nat set"
  ic_chunks_received :: u64
  ic_bytes_received :: u64
  ic_zstd_engaged :: u64
  ic_copy_async_issued :: u64
  ic_copies_that_waited :: u64
  ic_log :: "copy_event list"

definition closed_connection :: connection where
  "closed_connection = \<lparr> so_in = [], so_recvs = [], so_overlapped = [], so_port = [], so_sends = [], so_out = [] \<rparr>"

definition new_IocpStreamClient :: "u64 \<Rightarrow> IocpStreamClient" where
  "new_IocpStreamClient slot_size = \<lparr> ic_slot_size = slot_size, ic_sock = closed_connection, ic_staging = None,
     ic_copy_fence_value = 0, ic_last_copy_fv = 0, ic_copied_slots = {}, ic_chunks_received = 0,
     ic_bytes_received = 0, ic_zstd_engaged = 0, ic_copy_async_issued = 0, ic_copies_that_waited = 0, ic_log = [] \<rparr>"

definition send_request :: "ChunkRequest \<Rightarrow> IocpStreamClient \<Rightarrow> IocpStreamClient net" where
  "send_request req c =
    (case send_all 24 (request_bytes req) (ic_sock c) of
       (False, so) \<Rightarrow> Throws
     | (True, so) \<Rightarrow> Done (c\<lparr>ic_sock := so\<rparr>))"

text \<open>
  \<open>recv_exact\<close>: the length of the overlapped receive is a 32-bit \<open>ULONG\<close>. A pending receive waits
  for the next packet of the completion port, which is its own only if the port is empty.
\<close>

definition overlapped_recv :: "nat \<Rightarrow> connection \<Rightarrow> (u8 list \<times> connection) net" where
  "overlapped_recv n so =
    (case so_overlapped so of
       [] \<Rightarrow> Throws
     | e # es \<Rightarrow>
         let moved = (\<lambda>k. min k (min (n mod 4294967296) (length (so_in so))));
             taken = (\<lambda>k. (take (moved k) (so_in so), so\<lparr>so_in := drop (moved k) (so_in so), so_overlapped := es\<rparr>))
         in (case e of
             Recv_Failed \<Rightarrow> Throws
           | Recv_Sync k \<Rightarrow> (case taken k of (bs, so') \<Rightarrow> Done (bs, so'\<lparr>so_port := so_port so @ [moved k]\<rparr>))
           | Recv_Async k \<Rightarrow> (if so_port so \<noteq> [] then Escapes else Done (taken k))))"

definition recv_exact :: "nat \<Rightarrow> IocpStreamClient \<Rightarrow> (u8 list \<times> IocpStreamClient) net" where
  "recv_exact n c =
    net_bind (overlapped_recv n (ic_sock c)) (\<lambda>(bs, so).
      let c1 = c\<lparr>ic_sock := so, ic_chunks_received := ic_chunks_received c + 1,
            ic_bytes_received := ic_bytes_received c + of_nat (length bs)\<rparr>
      in if length bs < n then
           (case recv_all (n - length bs) so of
              None \<Rightarrow> Throws
            | Some (bs', so') \<Rightarrow> Done (bs @ bs', c1\<lparr>ic_sock := so'\<rparr>))
         else Done (bs, c1))"

definition recv_header :: "IocpStreamClient \<Rightarrow> (ChunkHeader \<times> IocpStreamClient) net" where
  "recv_header c = net_bind (recv_exact 16 c) (\<lambda>(bs, c1). Done (header_of bs, c1))"

definition fetch_index :: "IocpStreamClient \<Rightarrow> (u8 list \<times> IocpStreamClient) net" where
  "fetch_index c =
    net_bind (send_request \<lparr> rq_op = 0, rq_padding = 0, rq_offset = 0, rq_size = 0 \<rparr> c) (\<lambda>c1.
    net_bind (recv_header c1) (\<lambda>(hdr, c2). recv_exact (unat (hd_size hdr)) c2))"

text \<open>The fence wait of the caller, which is counted, and the plain one.\<close>

definition fence_wait :: "u64 \<Rightarrow> IocpStreamClient \<Rightarrow> IocpStreamClient" where
  "fence_wait fv c = c\<lparr>ic_log := ic_log c @ [Wait_Fence fv]\<rparr>"

definition wait_copy :: "u64 \<Rightarrow> IocpStreamClient \<Rightarrow> IocpStreamClient" where
  "wait_copy fv c = (fence_wait fv c)\<lparr>ic_copies_that_waited := ic_copies_that_waited c + 1\<rparr>"

definition submit_copy :: "bool \<Rightarrow> nat \<Rightarrow> copy_source \<Rightarrow> u64 \<Rightarrow> IocpStreamClient \<Rightarrow> (u64 \<times> IocpStreamClient) net" where
  "submit_copy d3d dst src bytes c =
    (if \<not> d3d then Throws
     else let fv = ic_copy_fence_value c + 1
     in Done (fv, c\<lparr>ic_log := ic_log c @ (if dst \<in> ic_copied_slots c then [] else [Promote_Slot dst]) @
            [Copy_Region dst src bytes, Signal_Fence fv],
          ic_copied_slots := insert dst (ic_copied_slots c), ic_copy_fence_value := fv, ic_last_copy_fv := fv\<rparr>))"

definition stage_write :: "u8 list \<Rightarrow> IocpStreamClient \<Rightarrow> IocpStreamClient net" where
  "stage_write bs c =
    (case ic_staging c of
       None \<Rightarrow> Escapes
     | Some st \<Rightarrow>
         if length bs > length st then Escapes
         else Done (c\<lparr>ic_staging := Some (write_at 0 bs st), ic_log := ic_log c @ [Stage_Write bs]\<rparr>))"

text \<open>
  \<open>fetch_chunk\<close>: \<open>zstd\<close> is the decompressor, absent where the library cannot be loaded; it answers
  the size it reports and the bytes it wrote. The slot is \<open>None\<close> for a null pointer.
\<close>

type_synonym decompressor = "u8 list \<Rightarrow> u64 \<Rightarrow> u64 \<times> u8 list"

definition unpack_chunk ::
  "decompressor option \<Rightarrow> ChunkHeader \<Rightarrow> u8 list \<Rightarrow> IocpStreamClient \<Rightarrow> (u64 \<times> IocpStreamClient) net" where
  "unpack_chunk zstd hdr payload c =
    (let plain = (\<lambda>c. net_bind (stage_write payload c) (\<lambda>c1. Done (hd_size hdr, c1)))
     in if hd_flags hdr AND 1 \<noteq> 0 then
       (case zstd of
          None \<Rightarrow> plain c
        | Some f \<Rightarrow>
            (case f payload (ic_slot_size c) of
               (out_size, written) \<Rightarrow>
                 net_bind (stage_write written c) (\<lambda>c1.
                   if out_size > 0 then Done (out_size, c1\<lparr>ic_zstd_engaged := ic_zstd_engaged c1 + 1\<rparr>)
                   else plain c1)))
     else plain c)"

definition fetch_chunk ::
  "bool \<Rightarrow> bool \<Rightarrow> decompressor option \<Rightarrow> u64 \<Rightarrow> u64 \<Rightarrow> nat option \<Rightarrow> IocpStreamClient \<Rightarrow> (u64 \<times> IocpStreamClient) net" where
  "fetch_chunk map_ok d3d zstd offset bytes vram_slot c =
    (case vram_slot of
       None \<Rightarrow> Throws
     | Some slot \<Rightarrow>
         if ic_staging c = None then Throws
         else let c0 = (if ic_last_copy_fv c > 0 then wait_copy (ic_last_copy_fv c) c else c)
         in net_bind (send_request \<lparr> rq_op = 1, rq_padding = 0, rq_offset = offset, rq_size = bytes \<rparr> c0) (\<lambda>c1.
            net_bind (recv_header c1) (\<lambda>(hdr, c2).
            net_bind (recv_exact (unat (hd_size hdr)) c2) (\<lambda>(payload, c3).
            if \<not> map_ok then Throws
            else net_bind (unpack_chunk zstd hdr payload c3) (\<lambda>(final_size, c4).
            net_bind (submit_copy d3d slot Staging_Buffer final_size c4) (\<lambda>(fv, c5).
            Done (fv, c5\<lparr>ic_copy_async_issued := ic_copy_async_issued c5 + 1\<rparr>)))))))"

definition warm_copy_queue :: "bool \<Rightarrow> nat \<Rightarrow> IocpStreamClient \<Rightarrow> IocpStreamClient net" where
  "warm_copy_queue d3d dst c =
    net_bind (submit_copy d3d dst Warmup_Buffer 4 c) (\<lambda>(fv, c1). Done (fence_wait fv c1))"

definition warm_vram :: "bool \<Rightarrow> bool \<Rightarrow> nat \<Rightarrow> nat option \<Rightarrow> u32 \<Rightarrow> IocpStreamClient \<Rightarrow> IocpStreamClient net" where
  "warm_vram map_ok d3d fresh slot mb c =
    (case (slot, ic_staging c) of
       (Some s, Some st) \<Rightarrow>
         let bytes = ucast mb * 1024 * 1024;
             n = (if bytes < ic_slot_size c then bytes else ic_slot_size c)
         in net_bind (if map_ok then stage_write (replicate (unat n) 0xAB) c else Done c) (\<lambda>c1.
            net_bind (submit_copy d3d s Staging_Buffer n c1) (\<lambda>(fv, c2). Done (fence_wait fv c2)))
     | _ \<Rightarrow> warm_copy_queue d3d fresh c)"

text \<open>
  \<open>connect\<close>: whether the device is removed, whether the socket connects (and then the connection)
  and whether the completion port is created; \<open>dst\<close> is the buffer the warm-up copy writes.
\<close>

definition client_connect ::
  "bool \<Rightarrow> bool \<Rightarrow> nat \<Rightarrow> connection option \<Rightarrow> bool \<Rightarrow> IocpStreamClient \<Rightarrow> (bool \<times> IocpStreamClient) net" where
  "client_connect removed d3d dst sock port_ok c =
    (if removed then Done (False, c)
     else net_bind (warm_copy_queue d3d dst (c\<lparr>ic_staging := Some (replicate (unat (ic_slot_size c)) 0)\<rparr>)) (\<lambda>c1.
       case sock of
         None \<Rightarrow> Done (False, c1)
       | Some so \<Rightarrow> Done (port_ok, c1\<lparr>ic_sock := so\<rparr>)))"

section \<open>Messages and segments\<close>

lemma request_roundtrip [simp]: "request_of (request_bytes r) = r" "length (request_bytes r) = 24"
  by (cases r) (simp_all add: request_of_def request_bytes_def read_at_def)

lemma chunk_header_roundtrip [simp]: "header_of (header_bytes h) = h" "length (header_bytes h) = 16"
  by (cases h) (simp_all add: header_of_def header_bytes_def read_at_def)

text \<open>A network that keeps sending: at least \<open>n\<close> more calls, each of which takes 16 bytes or more.\<close>

definition steady :: "nat \<Rightarrow> nat list \<Rightarrow> bool" where
  "steady n ks \<longleftrightarrow> n \<le> length ks \<and> (\<forall>k \<in> set ks. 16 \<le> k)"

definition flowing :: "nat \<Rightarrow> nat list \<Rightarrow> bool" where
  "flowing n ks \<longleftrightarrow> n \<le> length ks \<and> (\<forall>k \<in> set ks. 0 < k)"

lemma steady_drop: "steady n ks \<Longrightarrow> u + m \<le> n \<Longrightarrow> steady m (drop u ks)"
  by (auto simp: steady_def dest: in_set_dropD)

lemma flowing_drop: "flowing n ks \<Longrightarrow> u + m \<le> n \<Longrightarrow> flowing m (drop u ks)"
  by (auto simp: flowing_def dest: in_set_dropD)

lemma send_calls_ok:
  "0 < cap \<Longrightarrow> length bs \<le> length ks \<Longrightarrow> \<forall>k \<in> set ks. 0 < k \<Longrightarrow>
   \<exists>u \<le> length bs. send_calls cap bs ks out = (True, drop u ks, out @ bs)"
proof (induction cap bs ks out rule: send_calls.induct)
  case (3 cap b bs k ks out)
  let ?m = "min k (min cap (length (b # bs)))"
  have m: "?m \<noteq> 0" "?m \<le> length (b # bs)" using "3.prems" by auto
  have "length (drop ?m (b # bs)) \<le> length ks" using "3.prems"(2) m(1) unfolding length_drop list.size by linarith
  then obtain u where u: "u \<le> length (drop ?m (b # bs))"
      "send_calls cap (drop ?m (b # bs)) ks (out @ take ?m (b # bs)) =
        (True, drop u ks, (out @ take ?m (b # bs)) @ drop ?m (b # bs))"
    using "3.IH" [OF refl m(1) "3.prems"(1)] "3.prems"(3) by auto
  then have "send_calls cap (b # bs) (k # ks) out = (True, drop (Suc u) (k # ks), out @ b # bs)"
    using m(1) by (simp add: Let_def)
  moreover have "Suc u \<le> length (b # bs)" using u(1) m(1) unfolding length_drop list.size by linarith
  ultimately show ?case by blast
qed auto

lemma send_all_ok:
  assumes "0 < cap" "steady n (so_sends so)" "length bs \<le> n"
  shows "\<exists>u \<le> length bs. send_all cap bs so = (True, so\<lparr>so_sends := drop u (so_sends so), so_out := so_out so @ bs\<rparr>)"
proof -
  have "length bs \<le> length (so_sends so)" "\<forall>k \<in> set (so_sends so). 0 < k"
    using assms(2,3) by (auto simp: steady_def)
  from send_calls_ok [OF assms(1) this, of "so_out so"] show ?thesis by (auto simp: send_all_def)
qed

lemma send_once_ok:
  assumes "steady (Suc n) (so_sends so)" "length bs \<le> 16"
  shows "send_once bs so = (True, so\<lparr>so_sends := drop 1 (so_sends so), so_out := so_out so @ bs\<rparr>)"
  using assms by (cases "so_sends so") (auto simp: send_once_def steady_def)

lemma recv_calls_ok:
  "n \<le> length ks \<Longrightarrow> \<forall>k \<in> set ks. 0 < k \<Longrightarrow> length x = n \<Longrightarrow> n < 2147483648 \<Longrightarrow>
   \<exists>u \<le> n. recv_calls n (x @ rest) ks = Some (x, rest, drop u ks)"
proof (induction n "x @ rest" ks arbitrary: x rule: recv_calls.induct)
  case (3 n k ks)
  let ?m = "min k (min (Suc n) (length (x @ rest)))"
  have small: "Suc n mod 4294967296 = Suc n" using "3.prems"(4) by simp
  have m: "0 < ?m" "?m \<le> Suc n" "?m \<le> length x" using "3.prems" by auto
  have "\<exists>u \<le> Suc n - ?m. recv_calls (Suc n - ?m) (drop ?m x @ rest) ks = Some (drop ?m x, rest, drop u ks)"
  proof (rule "3.hyps" [of "Suc n" ?m])
    show "Suc n - ?m \<le> length ks" using "3.prems"(1) m(1) unfolding list.size by linarith
  qed (use "3.prems" m small in auto)
  then obtain u where u: "u \<le> Suc n - ?m" "recv_calls (Suc n - ?m) (drop ?m x @ rest) ks = Some (drop ?m x, rest, drop u ks)"
    by blast
  have cut: "drop ?m (x @ rest) = drop ?m x @ rest" "take ?m (x @ rest) = take ?m x" using m(3) by auto
  have "\<not> (2147483648 \<le> Suc n \<or> ?m = 0)" using "3.prems"(4) m(1) by linarith
  then have "recv_calls (Suc n) (x @ rest) (k # ks) = Some (x, rest, drop (Suc u) (k # ks))"
    unfolding recv_calls.simps Let_def small
    by (simp only: if_False cut u(2) option.map prod.case append_take_drop_id drop_Suc_Cons)
  moreover have "Suc u \<le> Suc n" using u(1) m(1) by linarith
  ultimately show ?case by blast
qed auto

lemma recv_all_ok:
  assumes "so_in so = x @ rest" "length x = n" "n < 2147483648" "flowing n (so_recvs so)"
  shows "\<exists>u \<le> n. recv_all n so = Some (x, so\<lparr>so_in := rest, so_recvs := drop u (so_recvs so)\<rparr>)"
  using recv_calls_ok [of n "so_recvs so" x rest] assms by (auto simp: recv_all_def flowing_def)

section \<open>What the server sends\<close>

lemma serve_range_ok:
  assumes "pos + r \<le> length f" "steady r (so_sends so)"
  shows "\<exists>u \<le> r. serve_range f pos r so =
    (True, so\<lparr>so_sends := drop u (so_sends so), so_out := so_out so @ read_at pos r f\<rparr>)"
  using assms
proof (induction r arbitrary: pos so rule: less_induct)
  case (less r)
  show ?case
  proof (cases "r = 0")
    case True
    then show ?thesis by (simp add: serve_range.simps read_at_def)
  next
    case False
    let ?g = "min r piece_bytes"
    have g: "min ?g (length f - pos) = ?g" "0 < ?g" "?g \<le> r" "r - ?g < r" using less.prems(1) False by auto
    have len: "length (read_at pos ?g f) = ?g" using less.prems(1) g(3) by (simp add: read_at_def)
    obtain u where u: "u \<le> ?g" "send_all ?g (read_at pos ?g f) so =
        (True, so\<lparr>so_sends := drop u (so_sends so), so_out := so_out so @ read_at pos ?g f\<rparr>)"
      using send_all_ok [OF g(2) less.prems(2), of "read_at pos ?g f"] g(3) unfolding len by blast
    let ?so = "so\<lparr>so_sends := drop u (so_sends so), so_out := so_out so @ read_at pos ?g f\<rparr>"
    have "steady (r - ?g) (so_sends ?so)" proof -
      have "u + (r - ?g) \<le> r" using u(1) g(3) by linarith
      from steady_drop [OF less.prems(2) this] show ?thesis by simp
    qed
    moreover have "pos + ?g + (r - ?g) \<le> length f" using less.prems(1) g(3) by simp
    ultimately obtain v where v: "v \<le> r - ?g" "serve_range f (pos + ?g) (r - ?g) ?so =
        (True, ?so\<lparr>so_sends := drop v (so_sends ?so), so_out := so_out ?so @ read_at (pos + ?g) (r - ?g) f\<rparr>)"
      using less.IH [OF g(4)] by blast
    note split = read_at_split [OF g(3), of pos f]
    have "serve_range f pos r so =
        (True, so\<lparr>so_sends := drop (v + u) (so_sends so), so_out := so_out so @ read_at pos r f\<rparr>)"
    proof -
      have "serve_range f pos r so = serve_range f (pos + ?g) (r - ?g) ?so"
        using False g(2) [THEN less_not_refl2]
        by (subst serve_range.simps) (simp only: Let_def g(1) u(2) prod.case bool.case if_False)
      also have "\<dots> = (True, so\<lparr>so_sends := drop (v + u) (so_sends so), so_out := so_out so @ read_at pos r f\<rparr>)"
        unfolding v(2) split [symmetric] by simp
      finally show ?thesis .
    qed
    moreover have "v + u \<le> r" using u(1) v(1) g(3) by linarith
    ultimately show ?thesis by blast
  qed
qed

lemma serve_one_chunk:
  assumes "so_in so = request_bytes \<lparr> rq_op = 1, rq_padding = 0, rq_offset = off, rq_size = sz \<rparr> @ tail"
    and "flowing 24 (so_recvs so)" "steady (Suc (unat sz)) (so_sends so)"
    and "unat off + unat sz \<le> length f" "length f < 9223372036854775808"
    and "payload_again payload st = Open_Good f"
  shows "\<exists>so'. serve_one s payload st so = (True, Open_Good f, so') \<and> so_in so' = tail \<and>
    so_out so' = so_out so @ header_bytes \<lparr> hd_op = 1, hd_flags = if sv_zstd s then 1 else 0, hd_size = sz \<rparr> @
      read_at (unat off) (unat sz) f"
proof -
  let ?req = "\<lparr> rq_op = 1, rq_padding = 0, rq_offset = off, rq_size = sz \<rparr>"
  let ?h = "header_bytes \<lparr> hd_op = 1, hd_flags = if sv_zstd s then 1 else 0, hd_size = sz \<rparr>"
  obtain u where u: "recv_all 24 so = Some (request_bytes ?req, so\<lparr>so_in := tail, so_recvs := drop u (so_recvs so)\<rparr>)"
    using recv_all_ok [OF assms(1) _ _ assms(2)] by auto
  let ?s1 = "so\<lparr>so_in := tail, so_recvs := drop u (so_recvs so)\<rparr>"
  let ?s2 = "?s1\<lparr>so_sends := drop 1 (so_sends ?s1), so_out := so_out ?s1 @ ?h\<rparr>"
  have h: "send_once ?h ?s1 = (True, ?s2)" using assms(3) by (intro send_once_ok [of "unat sz"]) simp_all
  have "unat off < 9223372036854775808" using assms(4,5) by linarith
  then have "\<not> off > INT64_MAX" by (simp add: word_less_nat_alt)
  moreover have "steady (unat sz) (so_sends ?s2)" using steady_drop [OF assms(3), of 1 "unat sz"] by simp
  then obtain v where "serve_range f (unat off) (unat sz) ?s2 =
      (True, ?s2\<lparr>so_sends := drop v (so_sends ?s2), so_out := so_out ?s2 @ read_at (unat off) (unat sz) f\<rparr>)"
    using serve_range_ok [OF assms(4)] by blast
  ultimately show ?thesis by (simp add: serve_one_def u Let_def h assms(6))
qed

text \<open>
  A request of no bytes at a negative offset is answered and leaves the stream failed; from then on
  every chunk request of that connection is dropped without an answer.
\<close>

lemma failed_stream_drops:
  assumes "recv_all 24 so = Some (bs, so1)" "rq_op (request_of bs) = 1"
  shows "serve_one s payload Open_Failed so = (False, Open_Failed, so1)"
  using assms by (simp add: serve_one_def payload_again_def)

lemma bad_offset_fails:
  assumes "recv_all 24 so = Some (bs, so1)" "rq_op (request_of bs) = 1" "INT64_MAX < rq_offset (request_of bs)"
    and "rq_size (request_of bs) = 0" "serve_one s payload (Open_Good f) so = (r, st, so')"
  shows "st = Open_Failed"
  using assms by (auto simp: serve_one_def payload_again_def Let_def split: prod.splits bool.splits)


section \<open>What the client receives\<close>

lemma overlapped_ok:
  assumes "so_in so = x @ rest" "length x = n" "n < 2147483648"
    and "so_overlapped so = Recv_Async k # es" "so_port so = []"
  shows "\<exists>m \<le> n. overlapped_recv n so = Done (take m x, so\<lparr>so_in := drop m x @ rest, so_overlapped := es\<rparr>)"
proof -
  let ?m = "min k (min n (length (x @ rest)))"
  have small: "n mod 4294967296 = n" using assms(3) by simp
  have m: "?m \<le> n" "?m \<le> length x" using assms(2) by auto
  have cut: "take ?m (x @ rest) = take ?m x" "drop ?m (x @ rest) = drop ?m x @ rest" using m(2) by auto
  have "overlapped_recv n so = Done (take ?m x, so\<lparr>so_in := drop ?m x @ rest, so_overlapped := es\<rparr>)"
    unfolding overlapped_recv_def assms(4) list.case Let_def recv_event.case assms(1,5) small
    by (simp only: cut simp_thms if_False)
  then show ?thesis using m(1) by blast
qed

lemma recv_exact_ok:
  assumes "so_in (ic_sock c) = x @ rest" "length x = n" "n < 2147483648" "flowing n (so_recvs (ic_sock c))"
    and "so_overlapped (ic_sock c) = Recv_Async k # es" "so_port (ic_sock c) = []"
  shows "\<exists>u b. u \<le> n \<and> recv_exact n c = Done (x, c\<lparr>ic_sock := (ic_sock c)\<lparr>so_in := rest, so_overlapped := es,
      so_recvs := drop u (so_recvs (ic_sock c))\<rparr>,
    ic_chunks_received := ic_chunks_received c + 1, ic_bytes_received := b\<rparr>)"
proof -
  let ?so = "ic_sock c"
  obtain m where m: "m \<le> n" and o: "overlapped_recv n ?so = Done (take m x, ?so\<lparr>so_in := drop m x @ rest, so_overlapped := es\<rparr>)"
    using overlapped_ok [OF assms(1-3,5,6)] by blast
  let ?s1 = "?so\<lparr>so_in := drop m x @ rest, so_overlapped := es\<rparr>"
  have l: "length (take m x) = m" using m assms(2) by simp
  let ?c1 = "c\<lparr>ic_sock := ?s1, ic_chunks_received := ic_chunks_received c + 1,
      ic_bytes_received := ic_bytes_received c + of_nat m\<rparr>"
  show ?thesis
  proof (cases "m < n")
    case True
    have "flowing (n - m) (so_recvs ?s1)" using flowing_drop [OF assms(4), of 0 "n - m"] by simp
    moreover have "length (drop m x) = n - m" "n - m < 2147483648" using assms(2,3) by auto
    ultimately obtain u where u: "u \<le> n - m"
        "recv_all (n - m) ?s1 = Some (drop m x, ?s1\<lparr>so_in := rest, so_recvs := drop u (so_recvs ?s1)\<rparr>)"
      using recv_all_ok [of ?s1 "drop m x" rest "n - m"] by auto
    have "recv_exact n c = Done (x, ?c1\<lparr>ic_sock := ?s1\<lparr>so_in := rest, so_recvs := drop u (so_recvs ?s1)\<rparr>\<rparr>)"
      unfolding recv_exact_def o net_bind.simps prod.case Let_def l if_P [OF True] u(2) option.case append_take_drop_id ..
    then show ?thesis
      using u(1) by (intro exI [of _ u] exI [of _ "ic_bytes_received c + of_nat m"]) simp
  next
    case False
    then have "m = n" using m by linarith
    then have x: "take m x = x" "drop m x = []" using assms(2) by simp_all
    have "recv_exact n c = Done (take m x, ?c1)"
      unfolding recv_exact_def o net_bind.simps prod.case Let_def l if_not_P [OF False] ..
    then have "recv_exact n c = Done (x, c\<lparr>ic_sock := (ic_sock c)\<lparr>so_in := rest, so_overlapped := es\<rparr>,
        ic_chunks_received := ic_chunks_received c + 1, ic_bytes_received := ic_bytes_received c + of_nat m\<rparr>)"
      unfolding x by (simp only: append_Nil)
    then show ?thesis by (intro exI [of _ 0] exI [of _ "ic_bytes_received c + of_nat m"]) simp
  qed
qed

lemma send_request_ok:
  assumes "steady 24 (so_sends (ic_sock c))"
  shows "\<exists>ks. send_request r c = Done (c\<lparr>ic_sock := (ic_sock c)\<lparr>so_sends := ks,
    so_out := so_out (ic_sock c) @ request_bytes r\<rparr>\<rparr>)"
proof -
  have "length (request_bytes r) \<le> 24" by simp
  from send_all_ok [OF _ assms this, of 24] show ?thesis by (auto simp: send_request_def)
qed

text \<open>A reply without compression is staged and copied whole.\<close>

definition chunk_log :: "nat \<Rightarrow> u8 list \<Rightarrow> IocpStreamClient \<Rightarrow> copy_event list" where
  "chunk_log slot bs c = (if ic_last_copy_fv c > 0 then [Wait_Fence (ic_last_copy_fv c)] else []) @ [Stage_Write bs] @
     (if slot \<in> ic_copied_slots c then [] else [Promote_Slot slot]) @
     [Copy_Region slot Staging_Buffer (of_nat (length bs)), Signal_Fence (ic_copy_fence_value c + 1)]"

lemma fetch_chunk_reply:
  fixes sz off :: u64
  defines "req \<equiv> \<lparr> rq_op = 1, rq_padding = 0, rq_offset = off, rq_size = sz \<rparr>"
    and "hdr \<equiv> \<lparr> hd_op = 1, hd_flags = 0, hd_size = sz \<rparr>"
  assumes "so_in (ic_sock c) = header_bytes hdr @ bs @ rest" "length bs = unat sz" "unat sz < 2147483648"
    and "flowing (16 + unat sz) (so_recvs (ic_sock c))" "steady 24 (so_sends (ic_sock c))"
    and "so_overlapped (ic_sock c) = Recv_Async k1 # Recv_Async k2 # es" "so_port (ic_sock c) = []"
    and "ic_staging c = Some st" "unat sz \<le> length st"
  shows "\<exists>c'. fetch_chunk True True zstd off sz (Some slot) c = Done (ic_copy_fence_value c + 1, c') \<and>
    so_out (ic_sock c') = so_out (ic_sock c) @ request_bytes req \<and> so_in (ic_sock c') = rest \<and>
    so_overlapped (ic_sock c') = es \<and> so_port (ic_sock c') = [] \<and>
    ic_staging c' = Some (write_at 0 bs st) \<and> ic_log c' = ic_log c @ chunk_log slot bs c \<and>
    ic_copy_fence_value c' = ic_copy_fence_value c + 1 \<and> ic_last_copy_fv c' = ic_copy_fence_value c + 1"
proof -
  let ?c0 = "if ic_last_copy_fv c > 0 then wait_copy (ic_last_copy_fv c) c else c"
  let ?w = "if ic_last_copy_fv c > 0 then [Wait_Fence (ic_last_copy_fv c)] else []"
  have c0: "ic_sock ?c0 = ic_sock c" "ic_staging ?c0 = Some st" "ic_log ?c0 = ic_log c @ ?w"
    "ic_copy_fence_value ?c0 = ic_copy_fence_value c" "ic_copied_slots ?c0 = ic_copied_slots c"
    using assms(10) by (simp_all add: wait_copy_def fence_wait_def)
  obtain ks where s: "send_request req ?c0 = Done (?c0\<lparr>ic_sock := (ic_sock c)\<lparr>so_sends := ks,
      so_out := so_out (ic_sock c) @ request_bytes req\<rparr>\<rparr>)"
    using send_request_ok [of ?c0 req] assms(7) unfolding c0(1) by blast
  define c1 where "c1 = ?c0\<lparr>ic_sock := (ic_sock c)\<lparr>so_sends := ks, so_out := so_out (ic_sock c) @ request_bytes req\<rparr>\<rparr>"
  have c1: "so_in (ic_sock c1) = header_bytes hdr @ bs @ rest" "so_recvs (ic_sock c1) = so_recvs (ic_sock c)"
    "so_overlapped (ic_sock c1) = Recv_Async k1 # Recv_Async k2 # es" "so_port (ic_sock c1) = []"
    "so_out (ic_sock c1) = so_out (ic_sock c) @ request_bytes req"
    using assms(3,8,9) by (simp_all add: c1_def)
  have f1: "flowing 16 (so_recvs (ic_sock c1))" using flowing_drop [OF assms(6), of 0 16] by (simp add: c1(2))
  obtain u b where u: "u \<le> 16" and r1: "recv_exact 16 c1 = Done (header_bytes hdr,
      c1\<lparr>ic_sock := (ic_sock c1)\<lparr>so_in := bs @ rest, so_overlapped := Recv_Async k2 # es,
        so_recvs := drop u (so_recvs (ic_sock c1))\<rparr>, ic_chunks_received := ic_chunks_received c1 + 1, ic_bytes_received := b\<rparr>)"
    using recv_exact_ok [OF c1(1) chunk_header_roundtrip(2) _ f1 c1(3,4)] by auto
  define c2 where "c2 = c1\<lparr>ic_sock := (ic_sock c1)\<lparr>so_in := bs @ rest, so_overlapped := Recv_Async k2 # es,
        so_recvs := drop u (so_recvs (ic_sock c1))\<rparr>, ic_chunks_received := ic_chunks_received c1 + 1, ic_bytes_received := b\<rparr>"
  have c2: "so_in (ic_sock c2) = bs @ rest" "so_overlapped (ic_sock c2) = Recv_Async k2 # es" "so_port (ic_sock c2) = []"
    using c1(4) by (simp_all add: c2_def)
  have "flowing (unat sz) (so_recvs (ic_sock c2))"
    using flowing_drop [OF assms(6), of u "unat sz"] u by (simp add: c2_def c1(2))
  from recv_exact_ok [OF c2(1) assms(4,5) this c2(2,3)] obtain v b' where r2: "recv_exact (unat sz) c2 = Done (bs,
      c2\<lparr>ic_sock := (ic_sock c2)\<lparr>so_in := rest, so_overlapped := es, so_recvs := drop v (so_recvs (ic_sock c2))\<rparr>,
        ic_chunks_received := ic_chunks_received c2 + 1, ic_bytes_received := b'\<rparr>)" by blast
  have h: "recv_header c1 = Done (hdr, c2)" unfolding recv_header_def r1 c2_def [symmetric] by simp
  have sz: "hd_size hdr = sz" "hd_flags hdr = 0" by (simp_all add: hdr_def)
  have "of_nat (length bs) = sz" using assms(4) by simp
  then show ?thesis
    using assms(4,9,10,11) c0 c1(5)
    unfolding fetch_chunk_def option.case Let_def req_def [symmetric] s c1_def [symmetric] net_bind.simps h prod.case sz r2
    by (simp add: unpack_chunk_def sz Let_def stage_write_def submit_copy_def chunk_log_def c2_def c1_def wait_copy_def fence_wait_def)
qed

section \<open>From file to slot\<close>

text \<open>
  C3. A chunk reaches its slot unchanged: if the client's request is what the server reads next, on a
  connection whose payload stream is good (and stays so), and the client's incoming bytes are what the server answers, then, however the network cuts
  the bytes into segments, a range inside the payload file is staged and copied whole into the
  slot, behind a wait for the copy before it, and the fence value returned is the next one. This
  needs overlapped receives that complete through the port, an uncompressed stream, chunks below
  2 GiB that fit the staging buffer, and a network that keeps moving bytes: each of the
  receives gets at least one, and each of the sends takes at least 16.
\<close>

theorem chunk_transfer:
  fixes sz off :: u64
  defines "req \<equiv> \<lparr> rq_op = 1, rq_padding = 0, rq_offset = off, rq_size = sz \<rparr>"
  assumes "unat off + unat sz \<le> length f" "length f < 9223372036854775808" "unat sz < 2147483648" "\<not> sv_zstd s"
    and "so_in so = request_bytes req @ later" "flowing 24 (so_recvs so)" "steady (Suc (unat sz)) (so_sends so)"
    and "payload_again payload st0 = Open_Good f" "serve_one s payload st0 so = (r, st1, so')"
    and "so_in (ic_sock c) = drop (length (so_out so)) (so_out so') @ rest"
    and "flowing (16 + unat sz) (so_recvs (ic_sock c))" "steady 24 (so_sends (ic_sock c))"
    and "so_overlapped (ic_sock c) = Recv_Async k1 # Recv_Async k2 # es" "so_port (ic_sock c) = []"
    and "ic_staging c = Some st" "unat sz \<le> length st"
  shows "r \<and> st1 = Open_Good f \<and> so_in so' = later \<and> (\<exists>c'. fetch_chunk True True zstd off sz (Some slot) c = Done (ic_copy_fence_value c + 1, c') \<and>
    so_out (ic_sock c') = so_out (ic_sock c) @ request_bytes req \<and> so_in (ic_sock c') = rest \<and>
    ic_staging c' = Some (write_at 0 (read_at (unat off) (unat sz) f) st) \<and>
    ic_log c' = ic_log c @ chunk_log slot (read_at (unat off) (unat sz) f) c)"
proof -
  let ?bs = "read_at (unat off) (unat sz) f"
  have "length ?bs = unat sz" using assms(2) by (simp add: read_at_def)
  moreover from serve_one_chunk [OF assms(6) [unfolded req_def] assms(7,8,2,3,9), of s] assms(5,10)
  have srv: "r" "st1 = Open_Good f" "so_in so' = later" "so_out so' = so_out so @ header_bytes \<lparr> hd_op = 1, hd_flags = 0, hd_size = sz \<rparr> @ ?bs"
    by auto
  moreover have "so_in (ic_sock c) = header_bytes \<lparr> hd_op = 1, hd_flags = 0, hd_size = sz \<rparr> @ ?bs @ rest"
    using assms(11) srv(4) by simp
  ultimately show ?thesis
    using fetch_chunk_reply [of c sz ?bs rest k1 k2 es st zstd off slot] assms(4,12-17) unfolding req_def by blast
qed

definition example_server :: IocpStreamServer where
  "example_server = \<lparr> sv_index = [], sv_zstd = False, sv_port = 9095, sv_listening = True, sv_running = True \<rparr>"

definition example_client :: "u8 list \<Rightarrow> IocpStreamClient" where
  "example_client ins = (new_IocpStreamClient 4)\<lparr>ic_staging := Some [0, 0, 0, 0],
     ic_sock := \<lparr> so_in = ins, so_recvs = replicate 18 1, so_overlapped = [Recv_Async 5, Recv_Async 1], so_port = [],
       so_sends = replicate 24 20, so_out = [] \<rparr>\<rparr>"

theorem chunk_transfer_witness:
  "\<exists>so' c'. serve_one example_server None (Open_Good [7, 8, 9, 6])
      \<lparr> so_in = request_bytes \<lparr> rq_op = 1, rq_padding = 0, rq_offset = 1, rq_size = 2 \<rparr>, so_recvs = replicate 24 3,
        so_overlapped = [], so_port = [], so_sends = replicate 3 16, so_out = [] \<rparr> = (True, Open_Good [7, 8, 9, 6], so') \<and>
    fetch_chunk True True None 1 2 (Some 5) (example_client (so_out so')) = Done (1, c') \<and>
    ic_staging c' = Some [8, 9, 0, 0] \<and> ic_log c' = [Stage_Write [8, 9], Promote_Slot 5, Copy_Region 5 Staging_Buffer 2, Signal_Fence 1]"
proof -
  let ?so = "\<lparr> so_in = request_bytes \<lparr> rq_op = 1, rq_padding = 0, rq_offset = 1, rq_size = 2 \<rparr>, so_recvs = replicate 24 3,
        so_overlapped = [], so_port = [], so_sends = replicate 3 16, so_out = [] \<rparr>"
  obtain r st so' where s: "serve_one example_server None (Open_Good [7, 8, 9, 6]) ?so = (r, st, so')"
    by (metis surj_pair)
  have "unat (1 :: u64) + unat (2 :: u64) \<le> length [7 :: u8, 8, 9, 6]" "length [7 :: u8, 8, 9, 6] < 9223372036854775808"
    "unat (2 :: u64) < 2147483648" "\<not> sv_zstd example_server"
    "so_in ?so = request_bytes \<lparr> rq_op = 1, rq_padding = 0, rq_offset = 1, rq_size = 2 \<rparr> @ []"
    "flowing 24 (so_recvs ?so)" "steady (Suc (unat (2 :: u64))) (so_sends ?so)"
    "payload_again None (Open_Good [7, 8, 9, 6]) = Open_Good [7 :: u8, 8, 9, 6]"
    by (simp_all add: example_server_def flowing_def steady_def payload_again_def)
  moreover have "so_in (ic_sock (example_client (so_out so'))) = drop (length (so_out ?so)) (so_out so') @ []"
    "flowing (16 + unat (2 :: u64)) (so_recvs (ic_sock (example_client (so_out so'))))"
    "steady 24 (so_sends (ic_sock (example_client (so_out so'))))"
    "so_overlapped (ic_sock (example_client (so_out so'))) = Recv_Async 5 # Recv_Async 1 # []"
    "so_port (ic_sock (example_client (so_out so'))) = []"
    "ic_staging (example_client (so_out so')) = Some [0, 0, 0, 0]" "unat (2 :: u64) \<le> length [0 :: u8, 0, 0, 0]"
    by (simp_all add: example_client_def flowing_def steady_def)
  ultimately have "r \<and> st = Open_Good [7, 8, 9, 6] \<and> so_in so' = [] \<and> (\<exists>c'. fetch_chunk True True None 1 2 (Some 5) (example_client (so_out so')) =
      Done (ic_copy_fence_value (example_client (so_out so')) + 1, c') \<and>
    so_out (ic_sock c') = so_out (ic_sock (example_client (so_out so'))) @ request_bytes \<lparr> rq_op = 1, rq_padding = 0, rq_offset = 1, rq_size = 2 \<rparr> \<and>
    so_in (ic_sock c') = [] \<and>
    ic_staging c' = Some (write_at 0 (read_at (unat (1 :: u64)) (unat (2 :: u64)) [7, 8, 9, 6]) [0, 0, 0, 0]) \<and>
    ic_log c' = ic_log (example_client (so_out so')) @ chunk_log 5 (read_at (unat (1 :: u64)) (unat (2 :: u64)) [7, 8, 9, 6]) (example_client (so_out so')))"
    using s by (intro chunk_transfer)
  then show ?thesis
    using s by (auto simp: example_client_def new_IocpStreamClient_def chunk_log_def read_at_def write_at_def)
qed

section \<open>The staging buffer\<close>

text \<open>
  Along a log: whether a copy out of the staging buffer is recorded but not yet signalled, the
  fence value that the last signalled one is still to reach, and whether no write to the buffer
  has come in between.
\<close>

fun staging_step :: "copy_event \<Rightarrow> bool \<times> u64 option \<times> bool \<Rightarrow> bool \<times> u64 option \<times> bool" where
  "staging_step (Stage_Write bs) (copying, pend, ok) = (copying, pend, ok \<and> \<not> copying \<and> pend = None)"
| "staging_step (Promote_Slot s) st = st"
| "staging_step (Copy_Region s src n) (copying, pend, ok) = (copying \<or> src = Staging_Buffer, pend, ok)"
| "staging_step (Signal_Fence fv) (copying, pend, ok) = (if copying then (False, Some fv, ok) else (copying, pend, ok))"
| "staging_step (Wait_Fence fv) (copying, pend, ok) =
    (copying, (case pend of None \<Rightarrow> None | Some p \<Rightarrow> if p \<le> fv then None else Some p), ok)"

definition staging_state :: "copy_event list \<Rightarrow> bool \<times> u64 option \<times> bool" where
  "staging_state log = fold staging_step log (False, None, True)"

definition staging_safe :: "copy_event list \<Rightarrow> bool" where
  "staging_safe log \<longleftrightarrow> snd (snd (staging_state log))"

datatype client_op =
    Fetch_Chunk bool bool "decompressor option" u64 u64 "nat option"
  | Fetch_Index
  | Wait_Copy u64
  | Warm_Queue bool nat

fun client_step :: "client_op \<Rightarrow> IocpStreamClient \<Rightarrow> IocpStreamClient net" where
  "client_step (Fetch_Chunk map_ok d3d zstd off n slot) c = net_bind (fetch_chunk map_ok d3d zstd off n slot c) (\<lambda>(fv, c'). Done c')"
| "client_step Fetch_Index c = net_bind (fetch_index c) (\<lambda>(bs, c'). Done c')"
| "client_step (Wait_Copy fv) c = Done (wait_copy fv c)"
| "client_step (Warm_Queue d3d dst) c = warm_copy_queue d3d dst c"

fun client_run :: "client_op list \<Rightarrow> IocpStreamClient \<Rightarrow> IocpStreamClient net" where
  "client_run [] c = Done c"
| "client_run (op # ops) c = net_bind (client_step op c) (client_run ops)"

definition staged :: "nat \<Rightarrow> bool \<Rightarrow> IocpStreamClient \<Rightarrow> bool" where
  "staged k idle c \<longleftrightarrow> (\<exists>pend. staging_state (ic_log c) = (False, pend, True) \<and>
     (\<forall>p. pend = Some p \<longrightarrow> \<not> idle \<and> p \<le> ic_last_copy_fv c \<and> 0 < ic_last_copy_fv c) \<and>
     ic_last_copy_fv c \<le> ic_copy_fence_value c \<and> unat (ic_copy_fence_value c) + k < 18446744073709551616)"

definition same_copies :: "IocpStreamClient \<Rightarrow> IocpStreamClient \<Rightarrow> bool" where
  "same_copies c c' \<longleftrightarrow> ic_log c' = ic_log c \<and> ic_last_copy_fv c' = ic_last_copy_fv c \<and>
     ic_copy_fence_value c' = ic_copy_fence_value c"

lemma staged_same: "same_copies c c' \<Longrightarrow> staged k i c' = staged k i c"
  by (simp add: same_copies_def staged_def)

lemma staged_weaken: "staged k i c \<Longrightarrow> k' \<le> k \<Longrightarrow> staged k' False c"
  by (auto simp: staged_def)

lemma net_bind_Done: "net_bind m k = Done y \<longleftrightarrow> (\<exists>x. m = Done x \<and> k x = Done y)"
  by (cases m) auto

lemma send_request_same: "send_request r c = Done c' \<Longrightarrow> same_copies c c'"
  by (auto simp: send_request_def same_copies_def split: prod.splits bool.splits)

lemma recv_exact_same: "recv_exact n c = Done (x, c') \<Longrightarrow> same_copies c c'"
  by (auto simp: recv_exact_def net_bind_Done Let_def same_copies_def split: if_splits option.splits)

lemma recv_header_same: "recv_header c = Done (h, c') \<Longrightarrow> same_copies c c'"
  by (auto simp: recv_header_def net_bind_Done dest: recv_exact_same)

lemma staging_snoc: "staging_state (log @ es) = fold staging_step es (staging_state log)"
  by (simp add: staging_state_def)

lemma fence_wait_staged: "staged k i c \<Longrightarrow> staged k i (fence_wait fv c)"
  by (auto simp: staged_def fence_wait_def staging_snoc split: option.splits)

lemma wait_last_idle:
  "staged k i c \<Longrightarrow> staged k True (if 0 < ic_last_copy_fv c then wait_copy (ic_last_copy_fv c) c else c)"
  by (auto simp: staged_def wait_copy_def fence_wait_def staging_snoc split: option.splits)

lemma stage_write_idle: "staged k True c \<Longrightarrow> stage_write bs c = Done c' \<Longrightarrow> staged k True c'"
  by (auto simp: stage_write_def staged_def staging_snoc split: option.splits if_splits)

lemma unpack_idle:
  assumes "staged k True c" "unpack_chunk zstd hdr bs c = Done (n, c')"
  shows "staged k True c'"
proof -
  have more: "staged k True (c\<lparr>ic_zstd_engaged := z\<rparr>) = staged k True c" for c z by (simp add: staged_def)
  have plain: "staged k True c'" if "staged k True c" "net_bind (stage_write bs c) (\<lambda>c1. Done (hd_size hdr, c1)) = Done (n, c')" for c
    using that stage_write_idle by (auto simp: net_bind_Done)
  show ?thesis
    using assms plain
    by (auto simp: unpack_chunk_def Let_def net_bind_Done more split: if_splits option.splits prod.splits
        dest: stage_write_idle [rotated, where k = k])
qed

lemma submit_staged:
  assumes "staged (Suc k) i c" "submit_copy d3d dst src n c = Done (fv, c')" "src = Staging_Buffer \<longrightarrow> i"
  shows "staged k False c'"
proof -
  have u: "unat (ic_copy_fence_value c + 1) = unat (ic_copy_fence_value c) + 1"
    using u64_add_unat [of "ic_copy_fence_value c" 1] assms(1) by (auto simp: staged_def)
  then have pos: "0 < ic_copy_fence_value c + 1" by (simp add: word_less_nat_alt)
  have le: "p \<le> ic_copy_fence_value c + 1" if "p \<le> ic_last_copy_fv c" "ic_last_copy_fv c \<le> ic_copy_fence_value c" for p
    using that u by (simp add: word_le_nat_alt)
  show ?thesis
    using assms u pos le
    by (auto simp: staged_def submit_copy_def staging_snoc Let_def split: if_splits)
qed

lemma fetch_chunk_staged:
  assumes "staged (Suc k) i c" "fetch_chunk map_ok d3d zstd off n slot c = Done (fv, c')"
  shows "staged k False c'"
proof -
  let ?c0 = "if 0 < ic_last_copy_fv c then wait_copy (ic_last_copy_fv c) c else c"
  obtain s c1 h c2 bs c3 fin c4 c5 where st:
      "send_request \<lparr> rq_op = 1, rq_padding = 0, rq_offset = off, rq_size = n \<rparr> ?c0 = Done c1"
      "recv_header c1 = Done (h, c2)" "recv_exact (unat (hd_size h)) c2 = Done (bs, c3)"
      "unpack_chunk zstd h bs c3 = Done (fin, c4)" "submit_copy d3d s Staging_Buffer fin c4 = Done (fv, c5)"
      "c' = c5\<lparr>ic_copy_async_issued := ic_copy_async_issued c5 + 1\<rparr>"
    using assms(2) by (auto simp: fetch_chunk_def Let_def net_bind_Done split: option.splits if_splits)
  have "staged (Suc k) True ?c0" by (rule wait_last_idle [OF assms(1)])
  then have "staged (Suc k) True c3"
    using st(1-3) staged_same by (metis recv_exact_same recv_header_same send_request_same)
  then have "staged (Suc k) True c4" using st(4) by (rule unpack_idle)
  then have "staged k False c5" using st(5) by (rule submit_staged) simp
  then show ?thesis by (simp add: st(6) staged_def)
qed

lemma client_step_staged:
  assumes "staged (Suc k) False c" "client_step op c = Done c'"
  shows "staged k False c'"
proof (cases op)
  case (Fetch_Chunk map_ok d3d zstd off n slot)
  then show ?thesis using assms fetch_chunk_staged by (auto simp: net_bind_Done)
next
  case Fetch_Index
  then obtain bs where "fetch_index c = Done (bs, c')" using assms(2) by (auto simp: net_bind_Done)
  then have "same_copies c c'"
    by (auto simp: fetch_index_def net_bind_Done dest!: send_request_same recv_header_same recv_exact_same)
      (simp add: same_copies_def)
  then show ?thesis using staged_same staged_weaken [OF assms(1), of k] by simp
next
  case (Wait_Copy fv)
  have "staged k False (wait_copy fv c) = staged k False (fence_wait fv c)" by (simp add: wait_copy_def staged_def)
  then show ?thesis using Wait_Copy assms fence_wait_staged [OF staged_weaken, of "Suc k" False c k fv] by simp
next
  case (Warm_Queue d3d dst)
  then show ?thesis
    using assms submit_staged [OF assms(1), of d3d dst Warmup_Buffer 4] fence_wait_staged
    by (auto simp: warm_copy_queue_def net_bind_Done)
qed

text \<open>
  C5. The staging buffer is never overwritten under a copy: in the log of every sequence of chunk
  and index fetches, waits and queue warm-ups on a fresh connected client, each write to the
  staging buffer comes after a wait that covers every earlier copy out of it.
\<close>

theorem staging_not_overwritten:
  assumes "client_connect removed d3d dst sock port_ok (new_IocpStreamClient n) = Done (True, c)"
    and "client_run ops c = Done c'" "length ops < 18446744073709551614"
  shows "staging_safe (ic_log c')"
proof -
  have "staged (length ops) False c"
    using assms(1,3) by (auto simp: client_connect_def warm_copy_queue_def net_bind_Done submit_copy_def
        new_IocpStreamClient_def fence_wait_def staged_def staging_state_def split: if_splits option.splits)
  then have "staged 0 False c'" using assms(2)
  proof (induction ops arbitrary: c)
    case (Cons op ops)
    then obtain c1 where "client_step op c = Done c1" "client_run ops c1 = Done c'" by (auto simp: net_bind_Done)
    then show ?case using Cons.IH client_step_staged Cons.prems(1) by (metis length_Cons)
  qed simp
  then show ?thesis by (auto simp: staged_def staging_safe_def)
qed

definition example_sock :: connection where
  "example_sock = \<lparr> so_in = header_bytes \<lparr> hd_op = 1, hd_flags = 0, hd_size = 1 \<rparr> @ [7], so_recvs = replicate 17 3,
     so_overlapped = [Recv_Async 16, Recv_Async 16], so_port = [], so_sends = replicate 24 24, so_out = [] \<rparr>"

theorem staging_not_overwritten_witness:
  "\<exists>c c'. client_connect False True 99 (Some example_sock) True (new_IocpStreamClient 4) = Done (True, c) \<and>
    client_run [Fetch_Chunk True True None 3 1 (Some 5), Wait_Copy 2] c = Done c' \<and> staging_safe (ic_log c') \<and>
    ic_log c' = [Promote_Slot 99, Copy_Region 99 Warmup_Buffer 4, Signal_Fence 1, Wait_Fence 1, Wait_Fence 1,
      Stage_Write [7], Promote_Slot 5, Copy_Region 5 Staging_Buffer 1, Signal_Fence 2, Wait_Fence 2]"
proof -
  obtain c where con: "client_connect False True 99 (Some example_sock) True (new_IocpStreamClient 4) = Done (True, c)"
    by (auto simp: client_connect_def warm_copy_queue_def submit_copy_def Let_def)
  have c: "ic_sock c = example_sock" "ic_staging c = Some (replicate 4 0)" "ic_copied_slots c = {99}"
      "ic_copy_fence_value c = 1" "ic_last_copy_fv c = 1"
      "ic_log c = [Promote_Slot 99, Copy_Region 99 Warmup_Buffer 4, Signal_Fence 1, Wait_Fence 1]"
    using con by (auto simp: client_connect_def warm_copy_queue_def submit_copy_def new_IocpStreamClient_def fence_wait_def)
  obtain c1 where f: "fetch_chunk True True None 3 1 (Some 5) c = Done (2, c1)" "ic_log c1 = ic_log c @ chunk_log 5 [7] c"
    using fetch_chunk_reply [of c 1 "[7]" "[]" 16 16 "[]" "replicate 4 0" None 3 5]
    by (auto simp: c example_sock_def flowing_def steady_def)
  then have run: "client_run [Fetch_Chunk True True None 3 1 (Some 5), Wait_Copy 2] c = Done (wait_copy 2 c1)" by simp
  with con staging_not_overwritten [OF con run] f(2) show ?thesis
    by (auto simp: chunk_log_def c wait_copy_def fence_wait_def)
qed

text \<open>
  The hypotheses matter. A receive that completes at once leaves its packet on the completion
  port, and the next receive that has to wait takes it for its own.
\<close>

lemma stale_completion:
  assumes "so_overlapped so = Recv_Sync k # Recv_Async k' # es" "so_port so = []"
  shows "\<exists>bs so'. overlapped_recv n so = Done (bs, so') \<and> overlapped_recv n' so' = Escapes"
  using assms by (auto simp: overlapped_recv_def Let_def)

text \<open>
  The server flags its chunks as compressed without compressing them; what a decompressor
  answers for such bytes, an error code or not, becomes the number of bytes copied into the slot.
\<close>

lemma flagged_chunk_size:
  assumes "zstd bs (ic_slot_size c) = (n, [])" "0 < n" "ic_staging c = Some st"
  shows "\<exists>c'. unpack_chunk (Some zstd) \<lparr> hd_op = 1, hd_flags = 1, hd_size = sz \<rparr> bs c = Done (n, c')"
  using assms by (auto simp: unpack_chunk_def stage_write_def)

text \<open>Warming a slot writes the staging buffer without a wait for the last copy.\<close>

lemma warm_vram_overwrites:
  assumes "staging_state (ic_log c) = (False, Some p, True)" "warm_vram True d3d fresh (Some s) mb c = Done c'"
    "ic_staging c = Some st"
  shows "\<not> staging_safe (ic_log c')"
  using assms
  by (auto simp: warm_vram_def Let_def net_bind_Done stage_write_def submit_copy_def fence_wait_def staging_safe_def
      staging_snoc split: if_splits)

end
