(* ===== verification/ServerThreads.thy ===== *)
theory ServerThreads
  imports StreamProtocol
begin

text \<open>
  The threads of \<open>IocpStreamServer\<close> in \<open>src/dxiocp/dxiocp.cpp\<close>: \<open>start\<close> opens the listening socket and a thread of
  \<open>accept_loop\<close>; that thread makes an element of \<open>m_conns\<close> and a thread of \<open>serve_conn\<close> for each client; \<open>stop\<close>
  closes and joins what there is. The requests of one connection are those of \<open>StreamProtocol\<close>.

  A step is an event of one thread. Sockets are numbered as the system hands them out, and a number is not given twice.
  The elements of \<open>m_conns\<close> live in the vector's current allocation; a connection's thread captures a
  reference to its element, that is the allocation and the index, and reads the socket through it when it
  first runs. How far the vector grows is the argument \<open>grow\<close>. That two accept threads use the vector at once is not
  described: each appends in one step.
\<close>

section \<open>State\<close>

type_synonym SOCKET = "nat option"

text \<open>
  A connection's thread: not yet run (with the reference captured), serving a socket, returned, or having read
  through a reference into memory that was given back.
\<close>

datatype serve_pc = Fresh nat nat | Serving nat | Returned | Dangling

record Conn =
  cn_sock :: SOCKET
  cn_thread :: serve_pc

text \<open>The accepting thread: before the test of \<open>m_running\<close>, inside \<open>accept\<close> on a socket, left.\<close>

datatype accept_pc = Loop_Head | In_Accept SOCKET | Accept_Left

text \<open>The owner's thread inside \<open>stop\<close>: after clearing \<open>m_running\<close>, in the joins, in the loop over connections.\<close>

datatype stop_pc = Stop_Idle | Stop_Listen | Stop_Join_Accept nat | Stop_Close nat | Stop_Join nat

record server_threads =
  ts_server :: IocpStreamServer
  ts_listen :: SOCKET
  ts_open :: "nat set"
  ts_next :: nat
  ts_accepts :: "accept_pc list"
  ts_conns :: "Conn list"
  ts_capacity :: nat
  ts_buffer :: nat
  ts_stop :: stop_pc

definition new_server :: "u8 list \<Rightarrow> bool \<Rightarrow> u16 \<Rightarrow> server_threads" where
  "new_server index zstd port = \<lparr> ts_server = \<lparr> sv_index = index, sv_zstd = zstd, sv_port = port, sv_listening = False, sv_running = False \<rparr>,
     ts_listen = None, ts_open = {}, ts_next = 0, ts_accepts = [], ts_conns = [], ts_capacity = 0, ts_buffer = 0,
     ts_stop = Stop_Idle \<rparr>"

abbreviation (input) running :: "server_threads \<Rightarrow> bool" where "running s \<equiv> sv_running (ts_server s)"

section \<open>Steps\<close>

text \<open>A socket the system hands out.\<close>

definition new_socket :: "server_threads \<Rightarrow> server_threads" where
  "new_socket s = s\<lparr>ts_open := insert (ts_next s) (ts_open s), ts_next := Suc (ts_next s)\<rparr>"

text \<open>\<open>m_listen\<close> is overwritten whatever it held.\<close>

definition start :: "bool \<Rightarrow> bool \<Rightarrow> bool \<Rightarrow> u16 option \<Rightarrow> server_threads \<Rightarrow> server_threads" where
  "start socket_ok bind_ok listen_ok bound s =
    (let s1 = s\<lparr>ts_server := snd (server_start socket_ok bind_ok listen_ok bound (ts_server s))\<rparr>
     in if \<not> socket_ok then s1\<lparr>ts_listen := None\<rparr>
     else let s2 = (new_socket s1)\<lparr>ts_listen := Some (ts_next s)\<rparr>
     in if \<not> bind_ok \<or> \<not> listen_ok then s2 else s2\<lparr>ts_accepts := ts_accepts s @ [Loop_Head]\<rparr>)"

text \<open>\<open>m_conns.push_back\<close> and the start of the connection's thread with its reference.\<close>

definition push_conn :: "(nat \<Rightarrow> nat) \<Rightarrow> nat \<Rightarrow> server_threads \<Rightarrow> server_threads" where
  "push_conn grow h s =
    (let s1 = (if length (ts_conns s) < ts_capacity s then s
               else s\<lparr>ts_capacity := max (Suc (length (ts_conns s))) (grow (ts_capacity s)), ts_buffer := Suc (ts_buffer s)\<rparr>)
     in s1\<lparr>ts_conns := ts_conns s1 @ [\<lparr> cn_sock = Some h, cn_thread = Fresh (ts_buffer s1) (length (ts_conns s1)) \<rparr>]\<rparr>)"

definition accept_set :: "nat \<Rightarrow> accept_pc \<Rightarrow> server_threads \<Rightarrow> server_threads" where
  "accept_set j pc s = s\<lparr>ts_accepts := (ts_accepts s)[j := pc]\<rparr>"

definition loop_test :: "nat \<Rightarrow> server_threads \<Rightarrow> server_threads option" where
  "loop_test j s =
    (if j < length (ts_accepts s) \<and> ts_accepts s ! j = Loop_Head
     then Some (accept_set j (if running s then In_Accept (ts_listen s) else Accept_Left) s) else None)"

definition is_open :: "SOCKET \<Rightarrow> server_threads \<Rightarrow> bool" where
  "is_open so s = (case so of None \<Rightarrow> False | Some h \<Rightarrow> h \<in> ts_open s)"

text \<open>\<open>accept\<close> returns: a client's socket, or \<open>INVALID_SOCKET\<close>, which ends the loop only when the server has stopped.\<close>

definition accept_returns :: "(nat \<Rightarrow> nat) \<Rightarrow> bool \<Rightarrow> nat \<Rightarrow> server_threads \<Rightarrow> server_threads option" where
  "accept_returns grow client j s =
    (if j < length (ts_accepts s) then
       (case ts_accepts s ! j of
          In_Accept so \<Rightarrow>
            (if client then
               (if is_open so s
                then Some (push_conn grow (ts_next s) (new_socket (accept_set j Loop_Head s)))
                else None)
             else Some (accept_set j (if running s then Loop_Head else Accept_Left) s))
        | _ \<Rightarrow> None)
     else None)"

definition thread_set :: "nat \<Rightarrow> serve_pc \<Rightarrow> server_threads \<Rightarrow> server_threads" where
  "thread_set i pc s = s\<lparr>ts_conns := (ts_conns s)[i := (ts_conns s ! i)\<lparr>cn_thread := pc\<rparr>]\<rparr>"

text \<open>\<open>SOCKET s = c->sock;\<close> through the reference captured.\<close>

definition read_sock :: "nat \<Rightarrow> server_threads \<Rightarrow> server_threads option" where
  "read_sock i s =
    (if i < length (ts_conns s) then
       (case cn_thread (ts_conns s ! i) of
          Fresh b k \<Rightarrow>
            Some (thread_set i (if b = ts_buffer s \<and> k < length (ts_conns s) then
                    (case cn_sock (ts_conns s ! k) of None \<Rightarrow> Returned | Some h \<Rightarrow> Serving h) else Dangling) s)
        | _ \<Rightarrow> None)
     else None)"

text \<open>A request served, with the loop's test after it; or a \<open>return\<close> because a call on the socket failed.\<close>

definition serve_round :: "bool \<Rightarrow> nat \<Rightarrow> server_threads \<Rightarrow> server_threads option" where
  "serve_round served i s =
    (if i < length (ts_conns s) then
       (case cn_thread (ts_conns s ! i) of
          Serving h \<Rightarrow> Some (if served \<and> running s then s else thread_set i Returned s)
        | _ \<Rightarrow> None)
     else None)"

definition close_socket :: "SOCKET \<Rightarrow> server_threads \<Rightarrow> server_threads" where
  "close_socket so s = (case so of None \<Rightarrow> s | Some h \<Rightarrow> s\<lparr>ts_open := ts_open s - {h}\<rparr>)"

definition stop_begin :: "server_threads \<Rightarrow> server_threads option" where
  "stop_begin s = (if ts_stop s = Stop_Idle
     then Some (s\<lparr>ts_server := (ts_server s)\<lparr>sv_running := False\<rparr>, ts_stop := Stop_Listen\<rparr>) else None)"

text \<open>The statements of \<open>stop\<close> after the first; a \<open>join\<close> returns when its thread has.\<close>

definition stop_step :: "server_threads \<Rightarrow> server_threads option" where
  "stop_step s =
    (case ts_stop s of
       Stop_Idle \<Rightarrow> None
     | Stop_Listen \<Rightarrow> Some ((close_socket (ts_listen s) s)\<lparr>ts_listen := None, ts_server := server_stop (ts_server s), ts_stop := Stop_Join_Accept 0\<rparr>)
     | Stop_Join_Accept j \<Rightarrow>
         (if j < length (ts_accepts s) then
            (if ts_accepts s ! j = Accept_Left then Some (s\<lparr>ts_stop := Stop_Join_Accept (Suc j)\<rparr>) else None)
          else Some (s\<lparr>ts_accepts := [], ts_stop := Stop_Close 0\<rparr>))
     | Stop_Close i \<Rightarrow>
         (if i < length (ts_conns s) then Some ((close_socket (cn_sock (ts_conns s ! i)) s)\<lparr>ts_stop := Stop_Join i\<rparr>)
          else Some (s\<lparr>ts_conns := [], ts_stop := Stop_Idle\<rparr>))
     | Stop_Join i \<Rightarrow> (if cn_thread (ts_conns s ! i) = Returned then Some (s\<lparr>ts_stop := Stop_Close (Suc i)\<rparr>) else None))"

text \<open>
  The events. \<open>Accept_Client\<close>, \<open>Accept_Lost\<close>, \<open>Request\<close> and \<open>Peer_Lost\<close> are the clients' doing; the others happen without them:
  \<open>Accept_Closed\<close> and \<open>Recv_Closed\<close> are calls that fail because their socket is closed.
\<close>

datatype srv_event =
    Start bool bool bool "u16 option"
  | Stop
  | Stop_Step
  | Loop_Test nat
  | Accept_Client nat
  | Accept_Lost nat
  | Accept_Closed nat
  | Read_Sock nat
  | Request nat
  | Peer_Lost nat
  | Recv_Closed nat

fun of_the_owner :: "srv_event \<Rightarrow> bool" where
  "of_the_owner (Start a b c d) = True"
| "of_the_owner Stop = True"
| "of_the_owner e = False"

fun of_a_client :: "srv_event \<Rightarrow> bool" where
  "of_a_client (Accept_Client j) = True"
| "of_a_client (Accept_Lost j) = True"
| "of_a_client (Request i) = True"
| "of_a_client (Peer_Lost i) = True"
| "of_a_client e = False"

fun srv_step :: "(nat \<Rightarrow> nat) \<Rightarrow> srv_event \<Rightarrow> server_threads \<Rightarrow> server_threads option" where
  "srv_step grow (Start a b c d) s = (if ts_stop s = Stop_Idle then Some (start a b c d s) else None)"
| "srv_step grow Stop s = stop_begin s"
| "srv_step grow Stop_Step s = stop_step s"
| "srv_step grow (Loop_Test j) s = loop_test j s"
| "srv_step grow (Accept_Client j) s = accept_returns grow True j s"
| "srv_step grow (Accept_Lost j) s = accept_returns grow False j s"
| "srv_step grow (Accept_Closed j) s =
    (if j < length (ts_accepts s) \<and> (\<forall>h. ts_accepts s ! j = In_Accept h \<longrightarrow> \<not> is_open h s) then accept_returns grow False j s else None)"
| "srv_step grow (Read_Sock i) s = read_sock i s"
| "srv_step grow (Request i) s = serve_round True i s"
| "srv_step grow (Peer_Lost i) s = serve_round False i s"
| "srv_step grow (Recv_Closed i) s =
    (if i < length (ts_conns s) \<and> (\<forall>h. cn_thread (ts_conns s ! i) = Serving h \<longrightarrow> h \<notin> ts_open s) then serve_round False i s else None)"

fun srv_run :: "(nat \<Rightarrow> nat) \<Rightarrow> srv_event list \<Rightarrow> server_threads \<Rightarrow> server_threads option" where
  "srv_run grow [] s = Some s"
| "srv_run grow (e # es) s = (case srv_step grow e s of None \<Rightarrow> None | Some s' \<Rightarrow> srv_run grow es s')"

text \<open>The states of a server that is started only when it has no listening socket.\<close>

fun starts_once :: "srv_event \<Rightarrow> server_threads \<Rightarrow> bool" where
  "starts_once (Start a b c d) s = (ts_listen s = None)"
| "starts_once e s = True"

inductive srv_reach :: "(nat \<Rightarrow> nat) \<Rightarrow> server_threads \<Rightarrow> bool" for grow where
  init: "srv_reach grow (new_server index zstd port)"
| step: "srv_reach grow s \<Longrightarrow> starts_once e s \<Longrightarrow> srv_step grow e s = Some s' \<Longrightarrow> srv_reach grow s'"

section \<open>The invariant\<close>

abbreviation (input) socks :: "server_threads \<Rightarrow> SOCKET list" where "socks s \<equiv> map cn_sock (ts_conns s)"

fun closed_upto :: "stop_pc \<Rightarrow> nat" where
  "closed_upto (Stop_Close i) = i"
| "closed_upto (Stop_Join i) = Suc i"
| "closed_upto pc = 0"

definition sockets_owned :: "server_threads \<Rightarrow> bool" where
  "sockets_owned s \<longleftrightarrow>
     ts_open s = set_option (ts_listen s) \<union> {h. Some h \<in> set (drop (closed_upto (ts_stop s)) (socks s))} \<and>
     None \<notin> set (socks s) \<and> distinct (socks s) \<and>
     (\<forall>h. Some h \<in> set (socks s) \<longrightarrow> h < ts_next s \<and> ts_listen s \<noteq> Some h) \<and>
     (\<forall>h. ts_listen s = Some h \<longrightarrow> h < ts_next s) \<and>
     (\<forall>h. In_Accept (Some h) \<in> set (ts_accepts s) \<longrightarrow> h < ts_next s \<and> Some h \<notin> set (socks s))"

definition thread_ok :: "nat \<Rightarrow> nat \<Rightarrow> Conn \<Rightarrow> bool" where
  "thread_ok b k c \<longleftrightarrow> (case cn_thread c of Serving h \<Rightarrow> cn_sock c = Some h | Fresh b' k' \<Rightarrow> b' \<le> b \<and> k' = k | _ \<Rightarrow> True)"

definition threads_ok :: "server_threads \<Rightarrow> bool" where
  "threads_ok s \<longleftrightarrow> (\<forall>k < length (ts_conns s). thread_ok (ts_buffer s) k (ts_conns s ! k))"

definition all_returned :: "nat \<Rightarrow> server_threads \<Rightarrow> bool" where
  "all_returned i s \<longleftrightarrow> (\<forall>k < i. cn_thread (ts_conns s ! k) = Returned)"

definition stop_ok :: "server_threads \<Rightarrow> bool" where
  "stop_ok s \<longleftrightarrow>
     (sv_listening (ts_server s) \<longleftrightarrow> ts_listen s \<noteq> None) \<and>
     (case ts_stop s of
        Stop_Idle \<Rightarrow> ts_listen s = None \<longrightarrow> ts_accepts s = [] \<and> ts_conns s = []
      | Stop_Listen \<Rightarrow> \<not> running s
      | Stop_Join_Accept j \<Rightarrow> \<not> running s \<and> ts_listen s = None \<and> j \<le> length (ts_accepts s)
      | Stop_Close i \<Rightarrow> \<not> running s \<and> ts_listen s = None \<and> ts_accepts s = [] \<and> i \<le> length (ts_conns s) \<and> all_returned i s
      | Stop_Join i \<Rightarrow> \<not> running s \<and> ts_listen s = None \<and> ts_accepts s = [] \<and> i < length (ts_conns s) \<and> all_returned i s)"

abbreviation (input) srv_inv :: "server_threads \<Rightarrow> bool" where
  "srv_inv s \<equiv> sockets_owned s \<and> threads_ok s \<and> stop_ok s"

lemma new_server_inv: "srv_inv (new_server index zstd port)"
  by (simp add: new_server_def sockets_owned_def threads_ok_def stop_ok_def)

lemma sockets_owned_mono:
  assumes "sockets_owned s" and "ts_open s' = ts_open s" and "ts_listen s' = ts_listen s" and "socks s' = socks s"
    and "ts_next s' = ts_next s" and "closed_upto (ts_stop s') = closed_upto (ts_stop s)"
    and "set (ts_accepts s') \<subseteq> set (ts_accepts s)"
  shows "sockets_owned s'"
  using assms unfolding sockets_owned_def by (simp add: subset_iff del: set_map)

subsection \<open>Steps that leave the connections' sockets alone\<close>

lemma map_sock_set [simp]: "map cn_sock ((ts_conns s)[i := (ts_conns s ! i)\<lparr>cn_thread := pc\<rparr>]) = socks s"
  by (simp add: map_update list_update_same_conv) (metis length_map list_update_beyond list_update_id map_update not_le_imp_less nth_map)

lemma thread_set_inv:
  assumes inv: "srv_inv s" and i: "i < length (ts_conns s)"
    and ok: "thread_ok (ts_buffer s) i ((ts_conns s ! i)\<lparr>cn_thread := pc\<rparr>)"
    and live: "cn_thread (ts_conns s ! i) \<noteq> Returned"
  shows "srv_inv (thread_set i pc s)"
proof -
  have "sockets_owned (thread_set i pc s)"
    using inv unfolding sockets_owned_def thread_set_def by simp
  moreover have "threads_ok (thread_set i pc s)"
    using inv ok i unfolding threads_ok_def thread_set_def by (simp add: nth_list_update)
  moreover have "all_returned n (thread_set i pc s)" if "all_returned n s" for n
    using that live i by (auto simp: all_returned_def thread_set_def nth_list_update)
  then have "stop_ok (thread_set i pc s)"
    using inv unfolding stop_ok_def by (auto simp: thread_set_def split: stop_pc.splits)
  ultimately show ?thesis by blast
qed

lemma accept_set_inv:
  assumes "srv_inv s" and "j < length (ts_accepts s)" and "\<And>h. pc = In_Accept (Some h) \<Longrightarrow> ts_listen s = Some h"
  shows "srv_inv (accept_set j pc s)"
proof -
  have acc: "h < ts_next s \<and> Some h \<notin> set (socks s)" if "In_Accept (Some h) \<in> set ((ts_accepts s)[j := pc])" for h
  proof -
    have "In_Accept (Some h) \<in> set (ts_accepts s) \<or> pc = In_Accept (Some h)"
      using that set_update_subset_insert [of "ts_accepts s" j pc] by blast
    then show ?thesis using assms unfolding sockets_owned_def by blast
  qed
  have "sockets_owned (accept_set j pc s)"
    using assms(1) acc unfolding sockets_owned_def accept_set_def by simp
  moreover have "threads_ok (accept_set j pc s)" using assms(1) unfolding threads_ok_def accept_set_def by simp
  moreover have "stop_ok (accept_set j pc s)"
    using assms(1,2) unfolding stop_ok_def accept_set_def all_returned_def by (auto split: stop_pc.splits)
  ultimately show ?thesis by blast
qed

lemma loop_test_inv: "srv_inv s \<Longrightarrow> loop_test j s = Some s' \<Longrightarrow> srv_inv s'"
  unfolding loop_test_def by (auto split: if_splits intro!: accept_set_inv [THEN conjunct1]
    accept_set_inv [THEN conjunct2, THEN conjunct1] accept_set_inv [THEN conjunct2, THEN conjunct2])

lemma read_sock_inv:
  assumes inv: "srv_inv s" and "read_sock i s = Some s'"
  shows "srv_inv s'"
proof -
  from assms(2) obtain b k where i: "i < length (ts_conns s)" and fresh: "cn_thread (ts_conns s ! i) = Fresh b k"
    unfolding read_sock_def by (auto split: if_splits serve_pc.splits)
  have k: "k = i" using inv i fresh unfolding threads_ok_def thread_ok_def by force
  then show ?thesis
    using assms fresh i thread_set_inv [OF inv i]
    unfolding read_sock_def by (auto simp: thread_ok_def split: if_splits option.splits)
qed

lemma serve_round_inv:
  assumes inv: "srv_inv s" and "serve_round served i s = Some s'"
  shows "srv_inv s'"
proof -
  from assms(2) obtain h where i: "i < length (ts_conns s)" and serving: "cn_thread (ts_conns s ! i) = Serving h"
    unfolding serve_round_def by (auto split: if_splits serve_pc.splits)
  have "srv_inv (thread_set i Returned s)" by (rule thread_set_inv [OF inv i]) (simp_all add: thread_ok_def serving)
  then show ?thesis using assms serving i unfolding serve_round_def by (auto split: if_splits)
qed

subsection \<open>Starting, accepting and stopping\<close>

lemma start_inv:
  assumes inv: "srv_inv s" and "ts_listen s = None" and "ts_stop s = Stop_Idle"
  shows "srv_inv (start so bo lo bound s)"
proof -
  have none: "ts_accepts s = []" "ts_conns s = []" "ts_open s = {}"
    using assms unfolding stop_ok_def sockets_owned_def by auto
  show ?thesis
    using assms none unfolding start_def new_socket_def server_start_def sockets_owned_def threads_ok_def stop_ok_def
    by (auto simp: Let_def)
qed

lemma push_conn_inv:
  assumes inv: "srv_inv s" and acc: "j < length (ts_accepts s)"
  shows "srv_inv (push_conn grow (ts_next s) (new_socket s))"
proof -
  let ?s = "push_conn grow (ts_next s) (new_socket s)"
  have upto: "closed_upto (ts_stop s) = 0" using inv acc unfolding stop_ok_def by (auto split: stop_pc.splits)
  have "sockets_owned ?s"
    using inv upto unfolding sockets_owned_def push_conn_def new_socket_def by (auto simp: Let_def)
  moreover have "threads_ok ?s"
    using inv unfolding threads_ok_def push_conn_def new_socket_def
    by (auto simp: Let_def nth_append thread_ok_def less_Suc_eq split: serve_pc.splits; fastforce)
  moreover have "stop_ok ?s"
    using inv acc unfolding stop_ok_def push_conn_def new_socket_def by (auto simp: Let_def split: stop_pc.splits)
  ultimately show ?thesis by blast
qed

lemma accept_returns_inv:
  assumes inv: "srv_inv s" and step: "accept_returns grow client j s = Some s'"
  shows "srv_inv s'"
proof -
  have j: "j < length (ts_accepts s)" using step unfolding accept_returns_def by (auto split: if_splits)
  have acc: "srv_inv (accept_set j pc s)" if "pc = Loop_Head \<or> pc = Accept_Left" for pc
    using accept_set_inv [OF inv j, of pc] that by blast
  have "srv_inv (push_conn grow (ts_next s) (new_socket (accept_set j Loop_Head s)))"
    using push_conn_inv [of "accept_set j Loop_Head s" j] acc j by (simp add: accept_set_def)
  then show ?thesis
    using step acc unfolding accept_returns_def by (auto split: if_splits accept_pc.splits)
qed

lemma stop_begin_inv: "srv_inv s \<Longrightarrow> stop_begin s = Some s' \<Longrightarrow> srv_inv s'"
  unfolding stop_begin_def threads_ok_def stop_ok_def by (auto split: if_splits intro: sockets_owned_mono [of s])

lemma close_listen_inv:
  assumes inv: "srv_inv s" and pc: "ts_stop s = Stop_Listen"
  shows "srv_inv ((close_socket (ts_listen s) s)\<lparr>ts_listen := None, ts_server := server_stop (ts_server s), ts_stop := Stop_Join_Accept 0\<rparr>)"
proof -
  let ?s = "(close_socket (ts_listen s) s)\<lparr>ts_listen := None, ts_server := server_stop (ts_server s), ts_stop := Stop_Join_Accept 0\<rparr>"
  have "sockets_owned ?s"
    using inv pc unfolding sockets_owned_def close_socket_def
    by (cases "ts_listen s") (simp_all del: set_map, blast)
  moreover have "threads_ok ?s" using inv unfolding threads_ok_def close_socket_def by (simp split: option.splits)
  moreover have "stop_ok ?s" using inv unfolding stop_ok_def close_socket_def server_stop_def by (simp split: option.splits)
  ultimately show ?thesis by blast
qed

lemma close_conn_inv:
  assumes inv: "srv_inv s" and pc: "ts_stop s = Stop_Close i" and i: "i < length (ts_conns s)"
  shows "srv_inv ((close_socket (cn_sock (ts_conns s ! i)) s)\<lparr>ts_stop := Stop_Join i\<rparr>)"
proof -
  let ?s = "(close_socket (cn_sock (ts_conns s ! i)) s)\<lparr>ts_stop := Stop_Join i\<rparr>"
  have in_set: "socks s ! i \<in> set (socks s)" using i by (intro nth_mem) simp
  have "None \<notin> set (socks s)" using inv unfolding sockets_owned_def by blast
  with in_set have "socks s ! i \<noteq> None" by metis
  then obtain h where h: "socks s ! i = Some h" by blast
  have split: "drop i (socks s) = Some h # drop (Suc i) (socks s)"
    using i h by (metis Cons_nth_drop_Suc length_map)
  have fresh: "Some h \<notin> set (drop (Suc i) (socks s))"
    using inv split distinct_drop [of "socks s" i] unfolding sockets_owned_def by simp
  have listen: "ts_listen s = None" using inv pc unfolding stop_ok_def by simp
  have "ts_open s = {h'. Some h' \<in> set (drop i (socks s))}" using inv pc listen unfolding sockets_owned_def by simp
  then have "ts_open s - {h} = {h'. Some h' \<in> set (drop (Suc i) (socks s))}" using split fresh by auto
  then have "sockets_owned ?s"
    using inv listen h i unfolding sockets_owned_def close_socket_def by (simp del: set_map)
  moreover have "threads_ok ?s" using inv i h unfolding threads_ok_def close_socket_def by simp
  moreover have "stop_ok ?s" using inv pc i h unfolding stop_ok_def close_socket_def all_returned_def by simp
  ultimately show ?thesis by blast
qed

lemma stop_step_inv:
  assumes inv: "srv_inv s" and step: "stop_step s = Some s'"
  shows "srv_inv s'"
proof (cases "ts_stop s")
  case Stop_Listen
  then show ?thesis using step close_listen_inv [OF inv Stop_Listen] unfolding stop_step_def by simp
next
  case (Stop_Join_Accept j)
  then have "sockets_owned s'" using step inv unfolding stop_step_def
    by (auto split: if_splits intro: sockets_owned_mono [of s])
  moreover have "threads_ok s' \<and> stop_ok s'" using step inv Stop_Join_Accept unfolding stop_step_def threads_ok_def stop_ok_def
    by (auto split: if_splits simp: all_returned_def)
  ultimately show ?thesis by blast
next
  case (Stop_Close i)
  then show ?thesis
  proof (cases "i < length (ts_conns s)")
    case True
    then show ?thesis using step close_conn_inv [OF inv Stop_Close True] Stop_Close unfolding stop_step_def by simp
  next
    case False
    then show ?thesis using step Stop_Close inv unfolding stop_step_def sockets_owned_def threads_ok_def stop_ok_def by auto
  qed
next
  case (Stop_Join i)
  then have "sockets_owned s'" using step inv unfolding stop_step_def
    by (auto split: if_splits intro: sockets_owned_mono [of s])
  moreover have "threads_ok s' \<and> stop_ok s'" using step inv Stop_Join unfolding stop_step_def threads_ok_def stop_ok_def all_returned_def
    by (auto split: if_splits simp: less_Suc_eq)
  ultimately show ?thesis by blast
qed (use step in \<open>simp add: stop_step_def\<close>)

lemma srv_step_inv:
  assumes "srv_inv s" and "starts_once e s" and "srv_step grow e s = Some s'"
  shows "srv_inv s'"
proof (cases e)
  case (Start a b c d)
  then show ?thesis using assms start_inv by (auto split: if_splits)
next
  case (Accept_Closed j)
  then have "accept_returns grow False j s = Some s'" using assms(3) by (simp split: if_splits)
  then show ?thesis using accept_returns_inv [OF assms(1)] by blast
next
  case (Recv_Closed i)
  then have "serve_round False i s = Some s'" using assms(3) by (simp split: if_splits)
  then show ?thesis using serve_round_inv [OF assms(1)] by blast
qed (use assms loop_test_inv [OF assms(1)] accept_returns_inv [OF assms(1)] read_sock_inv [OF assms(1)]
       serve_round_inv [OF assms(1)] stop_begin_inv [OF assms(1)] stop_step_inv [OF assms(1)] in \<open>simp; blast\<close>)+

lemma srv_reach_inv: "srv_reach grow s \<Longrightarrow> srv_inv s"
  by (induction rule: srv_reach.induct) (use new_server_inv srv_step_inv in blast)+

section \<open>Stopping\<close>

text \<open>A weight of what is left to do once \<open>m_running\<close> is clear.\<close>

fun accept_weight :: "accept_pc \<Rightarrow> nat" where
  "accept_weight (In_Accept so) = 6"
| "accept_weight Loop_Head = 1"
| "accept_weight Accept_Left = 0"

fun serve_weight :: "serve_pc \<Rightarrow> nat" where
  "serve_weight (Fresh b k) = 2"
| "serve_weight (Serving h) = 1"
| "serve_weight pc = 0"

fun stop_weight :: "nat \<Rightarrow> nat \<Rightarrow> stop_pc \<Rightarrow> nat" where
  "stop_weight a n Stop_Idle = 0"
| "stop_weight a n Stop_Listen = a + 2 * n + 3"
| "stop_weight a n (Stop_Join_Accept j) = (a - j) + 2 * n + 2"
| "stop_weight a n (Stop_Close i) = 2 * (n - i) + 1"
| "stop_weight a n (Stop_Join i) = 2 * (n - i)"

definition stop_measure :: "server_threads \<Rightarrow> nat" where
  "stop_measure s = stop_weight (length (ts_accepts s)) (length (ts_conns s)) (ts_stop s)
     + (\<Sum>pc\<leftarrow>ts_accepts s. accept_weight pc) + (\<Sum>c\<leftarrow>ts_conns s. serve_weight (cn_thread c))"

lemma sum_map_update:
  "i < length xs \<Longrightarrow> (\<Sum>x\<leftarrow>xs[i := y]. f x) + f (xs ! i) = (\<Sum>x\<leftarrow>xs. f x) + (f y :: nat)"
  by (induction xs arbitrary: i) (auto split: nat.splits simp: add.assoc)

lemma stopping_not_running: "srv_inv s \<Longrightarrow> ts_stop s \<noteq> Stop_Idle \<Longrightarrow> \<not> running s"
  unfolding stop_ok_def by (auto split: stop_pc.splits)

lemma accept_set_lighter:
  "j < length (ts_accepts s) \<Longrightarrow> accept_weight pc + n \<le> accept_weight (ts_accepts s ! j) \<Longrightarrow>
   stop_measure (accept_set j pc s) + n \<le> stop_measure s"
  using sum_map_update [of j "ts_accepts s" accept_weight pc] by (simp add: stop_measure_def accept_set_def)

lemma thread_set_lighter:
  "i < length (ts_conns s) \<Longrightarrow> serve_weight pc < serve_weight (cn_thread (ts_conns s ! i)) \<Longrightarrow>
   stop_measure (thread_set i pc s) < stop_measure s"
  using sum_map_update [of i "ts_conns s" "\<lambda>c. serve_weight (cn_thread c)" "(ts_conns s ! i)\<lparr>cn_thread := pc\<rparr>"]
  by (simp add: stop_measure_def thread_set_def)

lemma push_conn_heavier: "stop_measure (push_conn grow h (new_socket s)) \<le> stop_measure s + 4"
  by (cases "ts_stop s") (auto simp: stop_measure_def push_conn_def new_socket_def Let_def)

lemma accept_returns_lighter:
  assumes "\<not> running s" and "accept_returns grow client j s = Some s'"
  shows "stop_measure s' < stop_measure s"
proof -
  from assms(2) obtain so where j: "j < length (ts_accepts s)" and pc: "ts_accepts s ! j = In_Accept so"
    unfolding accept_returns_def by (auto split: if_splits accept_pc.splits)
  have "stop_measure (accept_set j Accept_Left s) + 6 \<le> stop_measure s"
    and "stop_measure (accept_set j Loop_Head s) + 5 \<le> stop_measure s"
    by (rule accept_set_lighter [OF j], simp add: pc)+
  then show ?thesis
    using assms j pc push_conn_heavier [of grow "ts_next s" "accept_set j Loop_Head s"]
    unfolding accept_returns_def by (auto split: if_splits)
qed

lemma stop_step_lighter: "stop_step s = Some s' \<Longrightarrow> srv_inv s \<Longrightarrow> stop_measure s' < stop_measure s"
  unfolding stop_step_def stop_measure_def stop_ok_def close_socket_def
  by (auto split: stop_pc.splits if_splits option.splits)

lemma srv_step_lighter:
  assumes inv: "srv_inv s" and stopping: "ts_stop s \<noteq> Stop_Idle" and step: "srv_step grow e s = Some s'"
  shows "stop_measure s' < stop_measure s"
proof -
  have off: "\<not> running s" by (rule stopping_not_running [OF inv stopping])
  have rnd: "stop_measure s' < stop_measure s" if "serve_round served i s = Some s'" for served i
    using that off thread_set_lighter [of i s Returned] unfolding serve_round_def by (auto split: if_splits serve_pc.splits)
  have rd: "stop_measure s' < stop_measure s" if "read_sock i s = Some s'" for i
    using that thread_set_lighter [of i s] unfolding read_sock_def
    by (auto split: if_splits serve_pc.splits option.splits intro!: thread_set_lighter)
  have lp: "stop_measure s' < stop_measure s" if "loop_test j s = Some s'" for j
    using that off accept_set_lighter [of j s Accept_Left 1] unfolding loop_test_def by (auto split: if_splits)
  show ?thesis
    using step stopping rnd rd lp accept_returns_lighter [OF off] stop_step_lighter [OF _ inv]
    by (cases e) (auto simp: stop_begin_def split: if_splits)
qed

lemma accept_socket_closed:
  assumes inv: "srv_inv s" and pc: "ts_stop s = Stop_Join_Accept j" and mem: "In_Accept so \<in> set (ts_accepts s)"
  shows "\<not> is_open so s"
proof (cases so)
  case (Some h)
  then have "Some h \<notin> set (socks s)" and "ts_listen s = None"
    using inv mem pc unfolding sockets_owned_def stop_ok_def by (blast, simp)
  then show ?thesis using inv pc Some unfolding sockets_owned_def is_open_def by (simp del: set_map)
qed (simp add: is_open_def)

lemma joined_socket_closed:
  assumes inv: "srv_inv s" and pc: "ts_stop s = Stop_Join i" and i: "i < length (ts_conns s)"
    and serving: "cn_thread (ts_conns s ! i) = Serving h"
  shows "h \<notin> ts_open s"
proof -
  have h: "socks s ! i = Some h" using inv i serving unfolding threads_ok_def thread_ok_def by force
  have "distinct (socks s)" and none: "ts_listen s = None"
    using inv pc unfolding sockets_owned_def stop_ok_def by (blast, simp)
  then have "Some h \<notin> set (drop (Suc i) (socks s))"
    using i h distinct_drop [of "socks s" i] Cons_nth_drop_Suc [of i "socks s"] by (metis distinct.simps(2) length_map)
  then show ?thesis using inv none pc unfolding sockets_owned_def by (simp del: set_map)
qed

lemma stopping_progress:
  assumes inv: "srv_inv s" and stopping: "ts_stop s \<noteq> Stop_Idle" and safe: "Dangling \<notin> cn_thread ` set (ts_conns s)"
  shows "\<exists>e s'. \<not> of_a_client e \<and> \<not> of_the_owner e \<and> srv_step grow e s = Some s'"
proof (cases "ts_stop s")
  case Stop_Listen
  then show ?thesis by (intro exI [of _ Stop_Step]) (simp add: stop_step_def)
next
  case (Stop_Join_Accept j)
  show ?thesis
  proof (cases "j < length (ts_accepts s)")
    case True
    show ?thesis
    proof (cases "ts_accepts s ! j")
      case Loop_Head
      then show ?thesis using True by (intro exI [of _ "Loop_Test j"]) (simp add: loop_test_def)
    next
      case (In_Accept so)
      have mem: "In_Accept so \<in> set (ts_accepts s)" using True In_Accept by (metis nth_mem)
      have "\<not> is_open so s" by (rule accept_socket_closed [OF inv Stop_Join_Accept mem])
      then show ?thesis using True In_Accept by (intro exI [of _ "Accept_Closed j"]) (simp add: accept_returns_def)
    next
      case Accept_Left
      then show ?thesis using True Stop_Join_Accept by (intro exI [of _ Stop_Step]) (simp add: stop_step_def)
    qed
  next
    case False
    then show ?thesis using Stop_Join_Accept by (intro exI [of _ Stop_Step]) (simp add: stop_step_def)
  qed
next
  case (Stop_Close i)
  then show ?thesis by (intro exI [of _ Stop_Step]) (simp add: stop_step_def)
next
  case (Stop_Join i)
  have i: "i < length (ts_conns s)" using inv Stop_Join unfolding stop_ok_def by simp
  show ?thesis
  proof (cases "cn_thread (ts_conns s ! i)")
    case (Fresh b k)
    then show ?thesis using i by (intro exI [of _ "Read_Sock i"]) (simp add: read_sock_def)
  next
    case (Serving h)
    have "h \<notin> ts_open s" by (rule joined_socket_closed [OF inv Stop_Join i Serving])
    then show ?thesis using i Serving by (intro exI [of _ "Recv_Closed i"]) (simp add: serve_round_def)
  next
    case Returned
    then show ?thesis using Stop_Join by (intro exI [of _ Stop_Step]) (simp add: stop_step_def)
  next
    case Dangling
    then show ?thesis using safe i by (metis imageI nth_mem)
  qed
qed (use stopping in simp)

section \<open>Properties\<close>

lemma stop_returns:
  assumes "srv_inv s" and "ts_stop s \<noteq> Stop_Idle" and "srv_step grow e s = Some s'" and "\<not> of_a_client e" and "\<not> of_the_owner e"
    and "ts_stop s' = Stop_Idle"
  shows "ts_listen s' = None"
  using assms by (cases e) (auto simp: loop_test_def accept_returns_def read_sock_def serve_round_def stop_step_def accept_set_def
    thread_set_def stop_ok_def close_socket_def split: if_splits accept_pc.splits serve_pc.splits stop_pc.splits option.splits)

lemma stopping_ends:
  assumes "srv_inv s" and "ts_stop s \<noteq> Stop_Idle"
  shows "\<exists>es s'. (\<forall>e \<in> set es. \<not> of_a_client e \<and> \<not> of_the_owner e) \<and> srv_run grow es s = Some s' \<and> srv_inv s' \<and>
     (ts_stop s' = Stop_Idle \<and> ts_listen s' = None \<or> Dangling \<in> cn_thread ` set (ts_conns s'))"
  using assms
proof (induction "stop_measure s" arbitrary: s rule: less_induct)
  case less
  show ?case
  proof (cases "Dangling \<in> cn_thread ` set (ts_conns s)")
    case True
    then show ?thesis using less.prems by (intro exI [of _ "[]"] exI [of _ s]) simp
  next
    case False
    obtain e s1 where e: "\<not> of_a_client e" "\<not> of_the_owner e" "srv_step grow e s = Some s1"
      using stopping_progress [OF less.prems False] by blast
    have inv1: "srv_inv s1" by (rule srv_step_inv [OF less.prems(1) _ e(3)]) (use e(2) in \<open>cases e; simp\<close>)
    show ?thesis
    proof (cases "ts_stop s1 = Stop_Idle")
      case True
      then show ?thesis
        using e inv1 stop_returns [OF less.prems e(3) e(1,2)] by (intro exI [of _ "[e]"] exI [of _ s1]) simp
    next
      case on: False
      obtain es s' where "\<forall>e \<in> set es. \<not> of_a_client e \<and> \<not> of_the_owner e" "srv_run grow es s1 = Some s'" "srv_inv s'"
        "ts_stop s' = Stop_Idle \<and> ts_listen s' = None \<or> Dangling \<in> cn_thread ` set (ts_conns s')"
        using less.hyps [OF srv_step_lighter [OF less.prems e(3)] inv1 on] by blast
      then show ?thesis using e by (intro exI [of _ "e # es"] exI [of _ s']) simp
    qed
  qed
qed

lemma stopped_owns_nothing:
  "srv_inv s \<Longrightarrow> ts_stop s = Stop_Idle \<Longrightarrow> ts_listen s = None \<Longrightarrow> ts_open s = {} \<and> ts_accepts s = [] \<and> ts_conns s = []"
  unfolding stop_ok_def sockets_owned_def by simp

text \<open>
  C6. Stopping the server ends. Whenever \<open>stop\<close> has begun in a server that is started only when it has no listening
  socket, then whatever step any thread takes, a client's doing included, brings the end nearer; and the server's own
  threads can finish \<open>stop\<close> without any client's help, after which no socket is open and no thread is left, unless a
  connection's thread has read through a reference into a vector that has moved.
\<close>

theorem stop_terminates:
  assumes "srv_reach grow s" and "ts_stop s \<noteq> Stop_Idle"
  shows "(\<forall>e s'. srv_step grow e s = Some s' \<longrightarrow> stop_measure s' < stop_measure s) \<and>
    (\<exists>es s'. (\<forall>e \<in> set es. \<not> of_a_client e \<and> \<not> of_the_owner e) \<and> srv_run grow es s = Some s' \<and>
       (ts_stop s' = Stop_Idle \<and> ts_open s' = {} \<and> ts_accepts s' = [] \<and> ts_conns s' = [] \<or>
        Dangling \<in> cn_thread ` set (ts_conns s')))"
proof -
  have inv: "srv_inv s" by (rule srv_reach_inv [OF assms(1)])
  then have "\<forall>e s'. srv_step grow e s = Some s' \<longrightarrow> stop_measure s' < stop_measure s"
    using srv_step_lighter [OF inv assms(2)] by blast
  moreover obtain es s' where run: "\<forall>e \<in> set es. \<not> of_a_client e \<and> \<not> of_the_owner e" "srv_run grow es s = Some s'" "srv_inv s'"
    "ts_stop s' = Stop_Idle \<and> ts_listen s' = None \<or> Dangling \<in> cn_thread ` set (ts_conns s')"
    using stopping_ends [OF inv assms(2)] by blast
  ultimately show ?thesis using stopped_owns_nothing [OF run(3)] run by blast
qed

abbreviation (input) msvc_growth :: "nat \<Rightarrow> nat" where "msvc_growth \<equiv> \<lambda>n. n + n div 2"

definition one_client_stopping :: server_threads where
  "one_client_stopping = the (srv_run msvc_growth [Start True True True None, Loop_Test 0, Accept_Client 0, Read_Sock 0, Stop] (new_server [] False 9095))"

lemmas srv_eval = start_def new_socket_def push_conn_def accept_set_def loop_test_def is_open_def accept_returns_def thread_set_def
  read_sock_def serve_round_def close_socket_def stop_begin_def stop_step_def new_server_def server_start_def server_stop_def Let_def

fun disciplined :: "(nat \<Rightarrow> nat) \<Rightarrow> srv_event list \<Rightarrow> server_threads \<Rightarrow> bool" where
  "disciplined grow [] s = True"
| "disciplined grow (e # es) s = (starts_once e s \<and> (case srv_step grow e s of None \<Rightarrow> False | Some s' \<Rightarrow> disciplined grow es s'))"

lemma srv_run_reach: "srv_reach grow s \<Longrightarrow> disciplined grow es s \<Longrightarrow> srv_reach grow (the (srv_run grow es s))"
  by (induction es arbitrary: s) (auto split: option.splits intro: srv_reach.step)

theorem stop_terminates_witness:
  "srv_reach msvc_growth one_client_stopping \<and> ts_stop one_client_stopping = Stop_Listen \<and>
   (\<exists>es s'. srv_run msvc_growth es one_client_stopping = Some s' \<and>
      (ts_stop s' = Stop_Idle \<and> ts_open s' = {} \<or> Dangling \<in> cn_thread ` set (ts_conns s')))"
proof -
  have reach: "srv_reach msvc_growth one_client_stopping"
    unfolding one_client_stopping_def by (rule srv_run_reach [OF srv_reach.init]) (simp add: srv_eval)
  have pc: "ts_stop one_client_stopping = Stop_Listen" unfolding one_client_stopping_def by (simp add: srv_eval)
  then show ?thesis using reach stop_terminates [OF reach] by auto
qed

text \<open>
  While a server that is started only without a listening socket runs, a connection's thread that read
  its socket serves the socket of its own element, no two elements have the same socket, the sockets open are the listening one and
  those of the elements, also of those whose thread has returned, and a server that is not listening has no thread at all.
\<close>

lemma server_sockets:
  assumes "srv_reach grow s" and "ts_stop s = Stop_Idle"
  shows "ts_open s = set_option (ts_listen s) \<union> {h. Some h \<in> set (map cn_sock (ts_conns s))} \<and>
    distinct (map cn_sock (ts_conns s)) \<and> (\<forall>h. ts_listen s = Some h \<longrightarrow> Some h \<notin> set (map cn_sock (ts_conns s))) \<and>
    (\<forall>c \<in> set (ts_conns s). \<forall>h. cn_thread c = Serving h \<longrightarrow> cn_sock c = Some h) \<and>
    (ts_listen s = None \<longrightarrow> ts_accepts s = [] \<and> ts_conns s = [])"
proof -
  have inv: "srv_inv s" by (rule srv_reach_inv [OF assms(1)])
  have "\<forall>c \<in> set (ts_conns s). \<forall>h. cn_thread c = Serving h \<longrightarrow> cn_sock c = Some h"
    using inv unfolding threads_ok_def thread_ok_def by (fastforce simp: in_set_conv_nth)
  moreover have "ts_listen s = None \<longrightarrow> ts_accepts s = [] \<and> ts_conns s = []"
    using inv assms(2) unfolding stop_ok_def by simp
  ultimately show ?thesis using inv assms(2) unfolding sockets_owned_def by (simp del: set_map) blast
qed

lemma server_sockets_example:
  "\<exists>s. srv_run msvc_growth [Start True True True None, Loop_Test 0, Accept_Client 0, Read_Sock 0, Loop_Test 0, Accept_Client 0, Peer_Lost 0]
        (new_server [] False 9095) = Some s \<and>
      ts_open s = set_option (ts_listen s) \<union> {h. Some h \<in> set (map cn_sock (ts_conns s))} \<and> ts_open s = {0, 1, 2}"
proof -
  let ?es = "[Start True True True None, Loop_Test 0, Accept_Client 0, Read_Sock 0, Loop_Test 0, Accept_Client 0, Peer_Lost 0]"
  let ?s = "the (srv_run msvc_growth ?es (new_server [] False 9095))"
  have "srv_reach msvc_growth ?s" by (rule srv_run_reach [OF srv_reach.init]) (simp add: srv_eval)
  moreover have "ts_stop ?s = Stop_Idle" by (simp add: srv_eval)
  ultimately have "ts_open ?s = set_option (ts_listen ?s) \<union> {h. Some h \<in> set (map cn_sock (ts_conns ?s))}"
    using server_sockets by blast
  moreover have "srv_run msvc_growth ?es (new_server [] False 9095) = Some ?s" by (simp add: srv_eval)
  moreover have "ts_open ?s = {0, 1, 2}" by (auto simp: srv_eval)
  ultimately show ?thesis by blast
qed

section \<open>What the discipline and the growth guard against\<close>

text \<open>A thread that returns leaves its socket open; nothing but \<open>stop\<close> closes one. A client whose request cannot be served is left waiting.\<close>

lemma running_server_closes_nothing:
  "ts_stop s = Stop_Idle \<Longrightarrow> srv_step grow e s = Some s' \<Longrightarrow>
   ts_open s \<subseteq> ts_open s' \<and> length (ts_conns s) \<le> length (ts_conns s')"
  by (cases e) (auto simp: start_def new_socket_def push_conn_def accept_set_def loop_test_def accept_returns_def thread_set_def
    read_sock_def serve_round_def stop_begin_def stop_step_def Let_def split: if_splits accept_pc.splits serve_pc.splits)

text \<open>
  Two clients accepted before the first one's thread has run: the second element moves the vector, and the first
  thread reads through a reference into the memory given back.
\<close>

lemma second_client_moves_the_first:
  "srv_reach msvc_growth (the (srv_run msvc_growth
     [Start True True True None, Loop_Test 0, Accept_Client 0, Loop_Test 0, Accept_Client 0, Read_Sock 0] (new_server [] False 9095)))"
  "map cn_thread (ts_conns (the (srv_run msvc_growth
     [Start True True True None, Loop_Test 0, Accept_Client 0, Loop_Test 0, Accept_Client 0, Read_Sock 0] (new_server [] False 9095))))
   = [Dangling, Fresh 2 1]"
proof -
  show "srv_reach msvc_growth (the (srv_run msvc_growth
     [Start True True True None, Loop_Test 0, Accept_Client 0, Loop_Test 0, Accept_Client 0, Read_Sock 0] (new_server [] False 9095)))"
    by (rule srv_run_reach [OF srv_reach.init]) (simp add: srv_eval)
  show "map cn_thread (ts_conns (the (srv_run msvc_growth
     [Start True True True None, Loop_Test 0, Accept_Client 0, Loop_Test 0, Accept_Client 0, Read_Sock 0] (new_server [] False 9095))))
   = [Dangling, Fresh 2 1]"
    by (simp add: srv_eval)
qed

text \<open>
  Starting twice: the first socket is no longer known to the server. \<open>stop\<close> closes the second and then joins the first accept
  thread, which waits on the first; only a client of the old socket can end that wait.
\<close>

lemma started_twice_stop_waits:
  "\<exists>s. srv_run grow [Start True True True (Some 9095), Loop_Test 0, Start True True True (Some 9095), Loop_Test 1, Stop, Stop_Step, Accept_Closed 1]
        (new_server [] False 9095) = Some s \<and> ts_stop s = Stop_Join_Accept 0 \<and> ts_open s = {0} \<and>
      (\<forall>e. \<not> of_a_client e \<longrightarrow> srv_step grow e s = None)"
proof -
  let ?es = "[Start True True True (Some 9095), Loop_Test 0, Start True True True (Some 9095), Loop_Test 1, Stop, Stop_Step, Accept_Closed 1]"
  let ?s = "\<lparr> ts_server = \<lparr> sv_index = [], sv_zstd = False, sv_port = 9095, sv_listening = False, sv_running = False \<rparr>,
     ts_listen = None, ts_open = {0}, ts_next = 2, ts_accepts = [In_Accept (Some 0), Accept_Left], ts_conns = [],
     ts_capacity = 0, ts_buffer = 0, ts_stop = Stop_Join_Accept 0 \<rparr>"
  have "srv_run grow ?es (new_server [] False 9095) = Some ?s" by (simp add: srv_eval)
  moreover have "srv_step grow e ?s = None" if "\<not> of_a_client e" for e
    using that by (cases e) (auto simp: srv_eval nth_Cons' split: if_splits)
  ultimately show ?thesis by (intro exI [of _ ?s]) simp
qed

text \<open>A second \<open>start\<close> that gets no socket: the loop calls \<open>accept\<close> on an invalid socket over and over.\<close>

lemma invalid_listen_spins:
  assumes "ts_accepts s = [Loop_Head]" and "ts_listen s = None" and "running s"
  shows "srv_run grow [Loop_Test 0, Accept_Closed 0] s = Some s"
  using assms by (simp add: srv_eval)

end
