(* ===== verification/ClientHandles.thy ===== *)
theory ClientHandles
  imports StreamProtocol
begin

text \<open>
  What \<open>IocpStreamClient\<close> of \<open>src/dxiocp/dxiocp.cpp\<close> owns besides the data it moves: the Winsock library, the socket and
  the completion port from \<open>connect\<close> to the destructor, the persistent copy commands, and the optional decompressor.
  Sockets and ports are numbered as the system hands them out. What the system answers is an argument.
\<close>

section \<open>Socket and completion port\<close>

record client_handles =
  ch_sock :: "nat option"
  ch_iocp :: "nat option"
  ch_open :: "nat set"
  ch_next :: nat

definition new_handles :: client_handles where
  "new_handles = \<lparr> ch_sock = None, ch_iocp = None, ch_open = {}, ch_next = 0 \<rparr>"

text \<open>\<open>wsa_start_once\<close>: \<open>done\<close> is the flag of the process; \<open>None\<close> is the exception.\<close>

definition wsa_start_once :: "bool \<Rightarrow> bool \<Rightarrow> bool option" where
  "wsa_start_once startup_ok started = (if started then Some True else if startup_ok then Some True else None)"

definition handle_made :: "client_handles \<Rightarrow> nat \<times> client_handles" where
  "handle_made c = (ch_next c, c\<lparr>ch_open := insert (ch_next c) (ch_open c), ch_next := Suc (ch_next c)\<rparr>)"

definition connect_socket :: "bool \<Rightarrow> bool \<Rightarrow> client_handles \<Rightarrow> bool \<times> client_handles" where
  "connect_socket socket_ok connected c =
    (if \<not> socket_ok then (False, c\<lparr>ch_sock := None\<rparr>)
     else let (h, c1) = handle_made c; c2 = c1\<lparr>ch_sock := Some h\<rparr>
     in if \<not> connected then (False, c2) else (True, c2))"

text \<open>The part of \<open>connect\<close> after the staging buffer and the warm-up copy, which are in \<open>client_connect\<close>.\<close>

definition connect_handles :: "bool \<Rightarrow> bool \<Rightarrow> bool \<Rightarrow> bool \<Rightarrow> client_handles \<Rightarrow> bool \<times> client_handles" where
  "connect_handles removed socket_ok connected port_ok c =
    (if removed then (False, c)
     else (case connect_socket socket_ok connected c of
         (False, c1) \<Rightarrow> (False, c1)
       | (True, c1) \<Rightarrow>
           (if \<not> port_ok then (False, c1\<lparr>ch_iocp := None\<rparr>)
            else let (h, c2) = handle_made c1 in (True, c2\<lparr>ch_iocp := Some h\<rparr>))))"

definition close_handle :: "nat option \<Rightarrow> client_handles \<Rightarrow> client_handles" where
  "close_handle h c = (case h of None \<Rightarrow> c | Some n \<Rightarrow> c\<lparr>ch_open := ch_open c - {n}\<rparr>)"

definition destroy_client :: "client_handles \<Rightarrow> client_handles" where
  "destroy_client c =
    (let c1 = (close_handle (ch_sock c) c)\<lparr>ch_sock := None\<rparr>
     in (close_handle (ch_iocp c1) c1)\<lparr>ch_iocp := None\<rparr>)"

text \<open>A client of \<open>n\<close> calls of \<open>connect\<close>, each with what the system answers.\<close>

fun connects :: "(bool \<times> bool \<times> bool \<times> bool) list \<Rightarrow> client_handles \<Rightarrow> client_handles" where
  "connects [] c = c"
| "connects ((rm, so, co, po) # as) c = connects as (snd (connect_handles rm so co po c))"

lemma connect_handles_cases:
  "snd (connect_handles rm so co po c) \<in>
     {c, c\<lparr>ch_sock := None\<rparr>,
      c\<lparr>ch_sock := Some (ch_next c), ch_open := insert (ch_next c) (ch_open c), ch_next := Suc (ch_next c)\<rparr>,
      c\<lparr>ch_sock := Some (ch_next c), ch_iocp := None, ch_open := insert (ch_next c) (ch_open c), ch_next := Suc (ch_next c)\<rparr>,
      c\<lparr>ch_sock := Some (ch_next c), ch_iocp := Some (Suc (ch_next c)),
        ch_open := insert (Suc (ch_next c)) (insert (ch_next c) (ch_open c)), ch_next := Suc (Suc (ch_next c))\<rparr>}"
  by (auto simp: connect_handles_def connect_socket_def handle_made_def Let_def)

lemma destroy_open: "ch_open (destroy_client c) = ch_open c - set_option (ch_sock c) - set_option (ch_iocp c)"
  by (cases "ch_sock c"; cases "ch_iocp c") (auto simp: destroy_client_def close_handle_def Let_def)

text \<open>The destructor closes everything that one call of \<open>connect\<close> has opened, whatever that call came to.\<close>

lemma connected_once_closes_all: "ch_open (destroy_client (connects [a] new_handles)) = {}"
proof (cases a)
  case (fields rm so co po)
  then show ?thesis
    using connect_handles_cases [of rm so co po new_handles] unfolding destroy_open by (auto simp: new_handles_def)
qed

text \<open>The destructor closes each handle at most once and only handles that are open.\<close>

lemma connects_keeps:
  "ch_open c \<subseteq> {..<ch_next c} \<Longrightarrow> set_option (ch_sock c) \<union> set_option (ch_iocp c) \<subseteq> ch_open c \<Longrightarrow>
   (\<forall>h. ch_sock c = Some h \<longrightarrow> ch_iocp c \<noteq> Some h) \<Longrightarrow>
   set_option (ch_sock (connects as c)) \<union> set_option (ch_iocp (connects as c)) \<subseteq> ch_open (connects as c) \<and>
   (\<forall>h. ch_sock (connects as c) = Some h \<longrightarrow> ch_iocp (connects as c) \<noteq> Some h)"
proof (induction as c rule: connects.induct)
  case (2 rm so co po as c)
  let ?c = "snd (connect_handles rm so co po c)"
  have "ch_open ?c \<subseteq> {..<ch_next ?c} \<and> set_option (ch_sock ?c) \<union> set_option (ch_iocp ?c) \<subseteq> ch_open ?c \<and>
      (\<forall>h. ch_sock ?c = Some h \<longrightarrow> ch_iocp ?c \<noteq> Some h)"
    using connect_handles_cases [of rm so co po c] "2.prems" by (fastforce simp: subset_iff less_Suc_eq)
  then show ?case using "2.IH" by simp
qed simp

text \<open>Connecting again, after a failure or not, drops the handles the client had: they stay open for good.\<close>

lemma connecting_again_leaks:
  "ch_open (destroy_client (connects [(False, True, True, True), (False, True, True, True)] new_handles)) = {0, 1}"
  "ch_open (destroy_client (connects [(False, True, False, True), (False, True, True, True)] new_handles)) = {0}"
  by (auto simp: destroy_open connect_handles_def connect_socket_def handle_made_def new_handles_def)

section \<open>The copy commands\<close>

text \<open>\<open>ensure_copy_cmd\<close> makes the allocator and the list once; a list is made in the recording state and closed at once.\<close>

datatype list_state = No_List | Recording | Closed

record copy_commands =
  cc_alloc :: bool
  cc_list :: list_state

definition ensure_copy_cmd :: "bool \<Rightarrow> bool \<Rightarrow> copy_commands \<Rightarrow> copy_commands net" where
  "ensure_copy_cmd alloc_ok list_ok c =
    (if cc_alloc c \<and> cc_list c \<noteq> No_List then Done c
     else if \<not> alloc_ok then Throws
     else if \<not> list_ok then Throws
     else Done (c\<lparr>cc_alloc := True, cc_list := Closed\<rparr>))"

lemma ensure_copy_cmd_idle:
  assumes "cc_list c \<noteq> Recording" and "ensure_copy_cmd a l c = Done c'"
  shows "cc_alloc c' \<and> cc_list c' = Closed \<and> ensure_copy_cmd a' l' c' = Done c'"
  using assms by (cases "cc_list c") (auto simp: ensure_copy_cmd_def split: if_splits)

section \<open>The decompressor\<close>

text \<open>The two library names are tried once per process; \<open>entry\<close> is \<open>ZSTD_decompress\<close>, if the library has it.\<close>

record zstd_library =
  zs_tried :: bool
  zs_loaded :: bool

definition zstd_loadable :: "bool \<Rightarrow> bool \<Rightarrow> zstd_library \<Rightarrow> bool \<times> zstd_library" where
  "zstd_loadable dll dll_v1 z =
    (let z1 = (if zs_tried z then z else \<lparr> zs_tried = True, zs_loaded = dll \<or> dll_v1 \<rparr>) in (zs_loaded z1, z1))"

definition zstd_decompress ::
  "bool \<Rightarrow> bool \<Rightarrow> decompressor option \<Rightarrow> u64 \<Rightarrow> u8 list \<Rightarrow> zstd_library \<Rightarrow> (u64 \<times> u8 list) \<times> zstd_library" where
  "zstd_decompress dll dll_v1 entry dst_cap src z =
    (case zstd_loadable dll dll_v1 z of
       (False, z1) \<Rightarrow> ((0, []), z1)
     | (True, z1) \<Rightarrow> (case entry of None \<Rightarrow> ((0, []), z1) | Some fn \<Rightarrow> (fn src dst_cap, z1)))"

text \<open>The answer of the first attempt stands: a library that appears later is not found.\<close>

lemma zstd_first_attempt_stands:
  "zstd_loadable a b (snd (zstd_loadable dll dll_v1 z)) = zstd_loadable dll dll_v1 z"
  by (simp add: zstd_loadable_def Let_def)

text \<open>
  The argument \<open>zstd\<close> of \<open>unpack_chunk\<close> stands for this function: a decompressor when a library with the entry is loaded,
  and otherwise none, which reports 0 and writes nothing.
\<close>

definition loaded_decompressor :: "bool \<Rightarrow> bool \<Rightarrow> decompressor option \<Rightarrow> zstd_library \<Rightarrow> decompressor option" where
  "loaded_decompressor dll dll_v1 entry z = (if fst (zstd_loadable dll dll_v1 z) then entry else None)"

lemma zstd_decompress_loaded:
  "fst (zstd_decompress dll dll_v1 entry cap src z) =
    (case loaded_decompressor dll dll_v1 entry z of None \<Rightarrow> (0, []) | Some fn \<Rightarrow> fn src cap)"
  by (cases "zstd_loadable dll dll_v1 z") (auto simp: loaded_decompressor_def zstd_decompress_def split: option.splits)

end
