(* ===== verification/StorageSetup.thy ===== *)
theory StorageSetup
  imports DirectStorage TextFormat
begin

text \<open>
  The parts of \<open>src/dxio/dxio.cpp\<close> around \<open>DirectStorage\<close>: the configuration of the process, which the first context
  decides, the constructor with its failures, the line logged for each fetch, and how far status slots identify requests.
\<close>

section \<open>The configuration of the process\<close>

text \<open>
  \<open>g_config_once\<close>, \<open>g_config_bypassio_on\<close>, and whether DirectStorage itself runs with BypassIO, which it does until it is
  told otherwise.
\<close>

record ds_process =
  dp_once :: bool
  dp_bypassio_on :: bool
  dp_effective :: bool

definition fresh_process :: ds_process where
  "fresh_process = \<lparr> dp_once = False, dp_bypassio_on = True, dp_effective = True \<rparr>"

definition ensure_process_config :: "bool \<Rightarrow> bool \<Rightarrow> ds_process \<Rightarrow> ds_process" where
  "ensure_process_config accepted enable p =
    (if dp_once p then p
     else \<lparr> dp_once = True, dp_bypassio_on = enable, dp_effective = (if accepted then enable else dp_effective p) \<rparr>)"

text \<open>The constructor: what the factory, the queue and the status array answer.\<close>

definition construct_context ::
  "bool \<Rightarrow> bool \<Rightarrow> bool \<Rightarrow> bool \<Rightarrow> bool \<Rightarrow> ds_process \<Rightarrow> (string + DirectStorageContext) \<times> ds_process" where
  "construct_context accepted factory_ok queue_ok array_ok enable p =
    (let p1 = ensure_process_config accepted enable p
     in (if \<not> factory_ok then Inl ''DStorageGetFactory failed''
         else if \<not> queue_ok then Inl ''IDStorageFactory::CreateQueue failed''
         else if \<not> array_ok then Inl ''CreateStatusArray failed''
         else Inr (new_DirectStorageContext (dp_bypassio_on p1)), p1))"

text \<open>The contexts of a process, one after the other.\<close>

fun construct_all :: "(bool \<times> bool \<times> bool \<times> bool \<times> bool) list \<Rightarrow> ds_process \<Rightarrow> (string + DirectStorageContext) list" where
  "construct_all [] p = []"
| "construct_all ((ac, fa, qu, ar, en) # rs) p =
    (case construct_context ac fa qu ar en p of (r, p1) \<Rightarrow> r # construct_all rs p1)"

lemma configured_stays: "dp_once p \<Longrightarrow> snd (construct_context ac fa qu ar en p) = p"
  by (simp add: construct_context_def ensure_process_config_def)

lemma later_contexts:
  "dp_once p \<Longrightarrow> Inr c \<in> set (construct_all rs p) \<Longrightarrow> dc_enable_bypassio c = dp_bypassio_on p"
proof (induction rs p rule: construct_all.induct)
  case (2 ac fa qu ar en rs p)
  then show ?case using configured_stays [OF "2.prems"(1), of ac fa qu ar en]
    by (cases "construct_context ac fa qu ar en p")
      (auto simp: construct_context_def ensure_process_config_def new_DirectStorageContext_def Let_def split: if_splits)
qed simp

text \<open>Every context of a process logs paths by the choice of the first constructor, even of one that failed.\<close>

lemma first_context_decides:
  assumes "Inr c \<in> set (construct_all ((ac, fa, qu, ar, en) # rs) fresh_process)"
  shows "dc_enable_bypassio c = en"
proof -
  have p: "snd (construct_context ac fa qu ar en fresh_process) =
      \<lparr> dp_once = True, dp_bypassio_on = en, dp_effective = (if ac then en else True) \<rparr>"
    by (simp add: construct_context_def ensure_process_config_def fresh_process_def Let_def)
  show ?thesis
    using assms later_contexts [of "snd (construct_context ac fa qu ar en fresh_process)" c rs]
    by (cases "construct_context ac fa qu ar en fresh_process")
      (auto simp: p [unfolded prod.sel] construct_context_def ensure_process_config_def fresh_process_def
        new_DirectStorageContext_def Let_def split: if_splits)
qed

text \<open>A configuration that DirectStorage refuses is logged as if it were in force.\<close>

lemma refused_configuration_reported:
  "dp_bypassio_on (ensure_process_config False False fresh_process) = False"
  "dp_effective (ensure_process_config False False fresh_process) = True"
  by (simp_all add: ensure_process_config_def fresh_process_def)

section \<open>The line of a fetch\<close>

fun path_name :: "BypassPath \<Rightarrow> string" where
  "path_name Unsupported = ''UNSUPPORTED''"
| "path_name Unaligned = ''STAGED''"
| "path_name Enabled = ''BYPASSIO''"
| "path_name DisabledByConfig = ''STAGED''"

text \<open>\<open>std::hex << std::showbase\<close> puts the base in front of all numbers but 0.\<close>

definition hex_status :: "u32 \<Rightarrow> string" where
  "hex_status w = (if w = 0 then ''0'' else ''0x'' @ hex_digits (unat w))"

definition log_fetch :: "FetchRecord \<Rightarrow> string \<Rightarrow> string" where
  "log_fetch r stage =
    ''[DX12 DSTORAGE] expert='' @ fr_expert r @ '' offset='' @ to_string_u64 (fr_offset r) @ '' size='' @ to_string_u64 (fr_size r) @
    '' path='' @ path_name (fr_path r) @ '' status='' @ hex_status (fr_status r) @ '' ('' @ stage @ '')'' @ [Newline]"

text \<open>The line does not tell a read that was not aligned from one for which BypassIO is off.\<close>

lemma staged_paths_look_alike: "log_fetch (r\<lparr>fr_path := Unaligned\<rparr>) stage = log_fetch (r\<lparr>fr_path := DisabledByConfig\<rparr>) stage"
  by (simp add: log_fetch_def)

section \<open>Status slots\<close>

text \<open>
  Up to 128 requests that have not been waited for have slots of their own; beyond that the status of a request is
  reported for an older one as well.
\<close>

lemma slot_number:
  assumes "tracked c" and "p \<in> set (dc_pending c)"
  shows "unat (pd_status_slot p) = unat (pd_request_id p) mod 128"
proof -
  have "pd_status_slot p = ucast (pd_request_id p mod k_status_capacity)" using assms by (simp add: tracked_def)
  moreover have "unat (pd_request_id p mod k_status_capacity) = unat (pd_request_id p) mod 128" by (simp add: unat_mod)
  moreover have "unat (pd_request_id p) mod 128 < 4294967296" by (rule less_trans [of _ 128]) simp_all
  ultimately show ?thesis by (simp add: unsigned_ucast_eq take_bit_nat_eq_self_iff)
qed

lemma pending_number:
  assumes "tracked c" and "i < length (dc_pending c)"
  shows "unat (pd_request_id (dc_pending c ! i)) = unat (dc_total_submitted c) - length (dc_pending c) + i"
proof -
  have "map (\<lambda>p. unat (pd_request_id p)) (dc_pending c) =
      [unat (dc_total_submitted c) - length (dc_pending c)..<unat (dc_total_submitted c)]"
    and len: "length (dc_pending c) \<le> unat (dc_total_submitted c)"
    using assms(1) unfolding tracked_def by blast+
  then have "map (\<lambda>p. unat (pd_request_id p)) (dc_pending c) ! i =
      [unat (dc_total_submitted c) - length (dc_pending c)..<unat (dc_total_submitted c)] ! i"
    by metis
  then show ?thesis using assms(2) len by simp
qed

lemma window_mod: "(b + i) mod 128 = (b + j) mod 128 \<Longrightarrow> i < j \<Longrightarrow> j < 128 \<Longrightarrow> False" for b i j :: nat
proof -
  assume eq: "(b + i) mod 128 = (b + j) mod 128" and ij: "i < j" "j < 128"
  have "128 dvd (b + j) - (b + i)" using mod_eq_dvd_iff_nat [of "b + i" "b + j" 128] eq ij(1) by simp
  then have "128 dvd j - i" by simp
  then show False using ij nat_dvd_not_less [of "j - i" 128] by simp
qed

lemma status_slots_distinct:
  assumes t: "tracked c" and len: "length (dc_pending c) \<le> 128" and ij: "i < j" "j < length (dc_pending c)"
  shows "pd_status_slot (dc_pending c ! i) \<noteq> pd_status_slot (dc_pending c ! j)"
proof
  let ?b = "unat (dc_total_submitted c) - length (dc_pending c)"
  assume eq: "pd_status_slot (dc_pending c ! i) = pd_status_slot (dc_pending c ! j)"
  have slot: "unat (pd_status_slot (dc_pending c ! k)) = (?b + k) mod 128" if "k < length (dc_pending c)" for k
    using slot_number [OF t nth_mem [OF that]] pending_number [OF t that] by simp
  have "(?b + i) mod 128 = (?b + j) mod 128"
    using slot [OF less_trans [OF ij]] slot [OF ij(2)] eq by metis
  then show False by (rule window_mod) (use ij len in simp_all)
qed

lemma status_slot_shared:
  assumes t: "tracked c" and i: "i + 128 < length (dc_pending c)"
  shows "pd_status_slot (dc_pending c ! i) = pd_status_slot (dc_pending c ! (i + 128))"
proof -
  have "unat (pd_status_slot (dc_pending c ! i)) = unat (pd_status_slot (dc_pending c ! (i + 128)))"
    using slot_number [OF t] pending_number [OF t] i by (simp add: add.assoc [symmetric])
  then show ?thesis by (simp add: word_unat_eq_iff)
qed

end
