(* ===== verification/TraceMarkers.thy ===== *)
theory TraceMarkers
  imports DxPrelude
begin

text \<open>
  The event markers of \<open>src/dxtrace/dxtrace.cpp\<close>. A command list is the list of what was recorded in it, \<open>None\<close> a null
  pointer. \<open>label\<close> stands for \<open>MultiByteToWideChar\<close> into the buffer of 256 units, up to the terminator.
  A \<open>ProfileScope\<close> is an object of a block: its destructor runs at the end of the block, inner objects first.
\<close>

datatype marker = Begin_Event "u16 list" | End_Event | Other_Command nat

definition trace_begin_event :: "(string \<Rightarrow> u16 list) \<Rightarrow> string option \<Rightarrow> marker list option \<Rightarrow> marker list option" where
  "trace_begin_event label name cmd_list =
    (case cmd_list of
       None \<Rightarrow> None
     | Some l \<Rightarrow> (case name of None \<Rightarrow> Some l | Some s \<Rightarrow> Some (l @ [Begin_Event (label s)])))"

definition trace_end_event :: "marker list option \<Rightarrow> marker list option" where
  "trace_end_event cmd_list = (case cmd_list of None \<Rightarrow> None | Some l \<Rightarrow> Some (l @ [End_Event]))"

text \<open>A block: commands, and inner blocks that begin with a scope object.\<close>

datatype stmt = Record_Command nat | In_Scope "string option" "stmt list"

definition record_command :: "nat \<Rightarrow> marker list option \<Rightarrow> marker list option" where
  "record_command c cmd_list = map_option (\<lambda>l. l @ [Other_Command c]) cmd_list"

fun ProfileScope :: "(string \<Rightarrow> u16 list) \<Rightarrow> stmt \<Rightarrow> marker list option \<Rightarrow> marker list option"
and run_block :: "(string \<Rightarrow> u16 list) \<Rightarrow> stmt list \<Rightarrow> marker list option \<Rightarrow> marker list option" where
  "ProfileScope label (Record_Command c) cl = record_command c cl"
| "ProfileScope label (In_Scope name body) cl = trace_end_event (run_block label body (trace_begin_event label name cl))"
| "run_block label [] cl = cl"
| "run_block label (st # sts) cl = run_block label sts (ProfileScope label st cl)"

text \<open>The number of events open after a list of markers; an end without a begin has none.\<close>

fun open_events :: "nat \<Rightarrow> marker list \<Rightarrow> nat option" where
  "open_events n [] = Some n"
| "open_events n (Begin_Event w # ms) = open_events (Suc n) ms"
| "open_events n (Other_Command c # ms) = open_events n ms"
| "open_events n (End_Event # ms) = (case n of 0 \<Rightarrow> None | Suc k \<Rightarrow> open_events k ms)"

fun all_named :: "stmt \<Rightarrow> bool" where
  "all_named (Record_Command c) = True"
| "all_named (In_Scope name body) = (name \<noteq> None \<and> (\<forall>st \<in> set body. all_named st))"

lemma open_events_append: "open_events n xs = Some k \<Longrightarrow> open_events n (xs @ ys) = open_events k ys"
  by (induction n xs rule: open_events.induct) (auto split: nat.splits)

definition nests :: "(marker list option \<Rightarrow> marker list option) \<Rightarrow> bool" where
  "nests f \<longleftrightarrow> f None = None \<and> (\<forall>l. \<exists>ms. f (Some l) = Some (l @ ms) \<and> (\<forall>n. open_events n ms = Some n))"

lemma nests_id: "nests (\<lambda>cl. cl)"
  by (force simp: nests_def)

lemma nests_comp:
  assumes "nests f" and "nests g"
  shows "nests (\<lambda>cl. g (f cl))"
proof -
  have "\<exists>ms. g (f (Some l)) = Some (l @ ms) \<and> (\<forall>n. open_events n ms = Some n)" for l
  proof -
    obtain xs where x: "f (Some l) = Some (l @ xs)" "\<forall>n. open_events n xs = Some n" using assms(1) unfolding nests_def by blast
    obtain ys where y: "g (Some (l @ xs)) = Some ((l @ xs) @ ys)" "\<forall>n. open_events n ys = Some n" using assms(2) unfolding nests_def by blast
    have "open_events n (xs @ ys) = Some n" for n using x(2) y(2) by (simp add: open_events_append)
    then show ?thesis using x(1) y(1) by auto
  qed
  then show ?thesis using assms unfolding nests_def by auto
qed

lemma nests_scope:
  assumes "nests f"
  shows "nests (\<lambda>cl. trace_end_event (f (trace_begin_event label (Some s) cl)))"
proof -
  have "\<exists>ms. trace_end_event (f (trace_begin_event label (Some s) (Some l))) = Some (l @ ms) \<and> (\<forall>n. open_events n ms = Some n)" for l
  proof -
    obtain xs where x: "f (Some (l @ [Begin_Event (label s)])) = Some ((l @ [Begin_Event (label s)]) @ xs)" "\<forall>n. open_events n xs = Some n"
      using assms unfolding nests_def by blast
    have "open_events n (Begin_Event (label s) # xs @ [End_Event]) = Some n" for n
      using x(2) by (simp add: open_events_append [of "Suc n" xs "Suc n"])
    then show ?thesis using x(1) by (simp add: trace_end_event_def trace_begin_event_def)
  qed
  then show ?thesis using assms unfolding nests_def by (simp add: trace_end_event_def trace_begin_event_def)
qed

lemma nests_command: "nests (record_command c)"
  by (simp add: nests_def record_command_def)

text \<open>
  Scopes with names leave the events of a command list nested: whatever was open before is open after, and
  every end closes the begin of its own scope. A null list stays null.
\<close>

lemma named_scopes_nest: "all_named st \<Longrightarrow> nests (ProfileScope label st)"
proof (induction st)
  case (Record_Command c)
  have "ProfileScope label (Record_Command c) = record_command c" by (rule ext) simp
  then show ?case using nests_command by simp
next
  case (In_Scope name body)
  have "nests (run_block label sts)" if "set sts \<subseteq> set body" for sts
    using that
  proof (induction sts)
    case Nil
    have "run_block label [] = (\<lambda>cl. cl)" by (rule ext) simp
    then show ?case using nests_id by simp
  next
    case (Cons st sts)
    have "run_block label (st # sts) = (\<lambda>cl. run_block label sts (ProfileScope label st cl))" by (rule ext) simp
    moreover have "nests (ProfileScope label st)" using Cons.prems In_Scope by auto
    ultimately show ?case using nests_comp Cons by auto
  qed
  then have "nests (run_block label body)" by simp
  moreover obtain s where "name = Some s" using In_Scope.prems by auto
  moreover have "ProfileScope label (In_Scope name body) = (\<lambda>cl. trace_end_event (run_block label body (trace_begin_event label name cl)))"
    by (rule ext) simp
  ultimately show ?case using nests_scope by simp
qed

text \<open>A scope without a name records no begin and still records an end, which closes the event around it.\<close>

lemma unnamed_scope_ends_outer:
  "run_block label [In_Scope (Some s) [In_Scope None [], Record_Command 7]] (Some []) =
     Some [Begin_Event (label s), End_Event, Other_Command 7, End_Event]"
  "open_events 0 [Begin_Event (label s), End_Event, Other_Command 7, End_Event] = None"
  by (simp_all add: trace_begin_event_def trace_end_event_def record_command_def)

end
