(* ===== verification/IngestTool.thy ===== *)
theory IngestTool
  imports GgufIngest TensorStream TextFormat
begin

text \<open>
  The command \<open>dxai_ingest\<close> of \<open>tools/dxai_ingest/main.cpp\<close>: it repacks a model with \<open>ingest_gguf\<close>, builds the index
  of the new file and saves it beside it. What a later process makes of the two files is \<open>load\<close> of
  \<open>TensorStream\<close>. What the file system answers is a record; the files written are part of the result.
\<close>

section \<open>The command\<close>

text \<open>\<open>std::stoul\<close> with a 32-bit \<open>unsigned long\<close>; \<open>None\<close> is the exception.\<close>

definition is_space :: "char \<Rightarrow> bool" where
  "is_space c \<longleftrightarrow> c = CHR '' '' \<or> (9 \<le> (of_char c :: nat) \<and> (of_char c :: nat) \<le> 13)"

definition stoul :: "string \<Rightarrow> u32 option" where
  "stoul s =
    (let s1 = dropWhile is_space s;
         neg = (s1 \<noteq> [] \<and> hd s1 = CHR ''-'');
         s2 = (if s1 \<noteq> [] \<and> hd s1 \<in> {CHR ''-'', CHR ''+''} then tl s1 else s1);
         ds = takeWhile is_digit s2; n = read_dec 0 ds
     in if ds = [] \<or> n \<ge> 4294967296 then None
        else Some (if neg then - of_nat n else of_nat n))"

text \<open>An exit code, a process that ends by an exception or a fault, a loop without end.\<close>

datatype tool_end = Exit int | Terminated | Runs_On

text \<open>
  Whether the input exists, its contents if it opens, whether the directories, the payload and the index can be
  created and the index be written.
\<close>

record tool_env =
  te_exists :: bool
  te_source :: "u8 list option"
  te_directories :: bool
  te_payload_opens :: bool
  te_index_opens :: bool
  te_index_written :: bool

definition empty_result :: IngestResult where
  "empty_result = \<lparr> ig_payload_path = [], ig_coords = [], ig_payload_size = 0 \<rparr>"

text \<open>\<open>main\<close>: the end, \<open>weights.bin\<close> and \<open>index.bin\<close>, where the run has written them.\<close>

definition ingest_main ::
  "nat \<Rightarrow> (u64 \<Rightarrow> bool) \<Rightarrow> (GgufTensor list \<Rightarrow> GgufTensor list) \<Rightarrow> tool_env \<Rightarrow> string list \<Rightarrow>
   tool_end \<times> u8 list option \<times> u8 list option" where
  "ingest_main d can_reserve srt env argv =
    (if length argv < 3 then (Exit 2, None, None)
     else (case (if length argv > 3 then stoul (argv ! 3) else Some 65536) of
         None \<Rightarrow> (Terminated, None, None)
       | Some alignment \<Rightarrow>
           if \<not> te_exists env then (Exit 2, None, None)
           else if \<not> te_directories env then (Terminated, None, None)
           else (case ingest_gguf d can_reserve srt (te_source env) (te_payload_opens env) (argv ! 2 @ ''/weights.bin'') alignment empty_result of
               Crash \<Rightarrow> (Terminated, None, None)
             | ReturnFalse \<Rightarrow> (Exit 1, None, None)
             | Value (ok, res, payload) \<Rightarrow>
                 if \<not> ok then (Exit 1, Some payload, None)
                 else (case build (ig_coords res) (ig_payload_size res) alignment of
                     None \<Rightarrow> (Runs_On, Some payload, None)
                   | Some index \<Rightarrow>
                       (case save (te_index_opens env) (te_index_written env) index of
                          (saved, blob) \<Rightarrow> (Exit (if saved then 0 else 1), Some payload, blob))))))"

lemma stoul_prints: "n < 4294967296 \<Longrightarrow> stoul (dec_digits n) = Some (of_nat n)"
proof -
  assume n: "n < 4294967296"
  obtain c cs where d: "dec_digits n = c # cs" using dec_digits_nonempty by (cases "dec_digits n") auto
  have dig: "\<forall>x \<in> set (dec_digits n). is_digit x" using dec_digits_digit by blast
  then have c: "is_digit c" using d by simp
  then have "\<not> is_space c" and "c \<noteq> CHR ''-''" and "c \<noteq> CHR ''+''"
    by (auto simp: is_digit_def is_space_def)
  then have "dropWhile is_space (dec_digits n) = dec_digits n" using d by simp
  moreover have "takeWhile is_digit (dec_digits n) = dec_digits n" using dig by (simp add: takeWhile_eq_all_conv)
  ultimately show ?thesis
    using n d \<open>c \<noteq> CHR ''-''\<close> \<open>c \<noteq> CHR ''+''\<close> read_dec_digits [of n] by (simp add: stoul_def Let_def)
qed

text \<open>A third argument that is no number ends the process with an exception, before the input is looked for; an alignment of 0 is a division by zero.\<close>

lemma bad_alignment_terminates:
  "stoul a = None \<Longrightarrow> ingest_main d r srt env [p, gguf, out_dir, a] = (Terminated, None, None)"
  by (simp add: ingest_main_def)

section \<open>From the model to the index read back\<close>

lemma slices_nth:
  "payload_slices al data out c ts ks \<Longrightarrow> i < length ts \<Longrightarrow>
   i < length ks \<and> fst (ks ! i) = gg_name (ts ! i) \<and> tc_quant_type (snd (ks ! i)) = gg_type (ts ! i) \<and>
   al dvd unat (tc_absolute_offset (snd (ks ! i))) \<and>
   read_at (unat (tc_absolute_offset (snd (ks ! i)))) (unat (tc_byte_size (snd (ks ! i)))) out =
     read_at (unat (gg_offset (ts ! i))) (tensor_end data (drop (Suc i) ts) - unat (gg_offset (ts ! i))) data"
proof (induction al data out c ts ks arbitrary: i rule: payload_slices.induct)
  case (2 al data out c t ts n k ks)
  then show ?case by (cases i) (auto simp: Let_def)
qed auto

lemma slices_nonempty:
  "payload_slices al data out c ts ks \<Longrightarrow> tensor_end data ts < length data \<Longrightarrow> out \<noteq> []"
proof (induction al data out c ts ks rule: payload_slices.induct)
  case (2 al data out c t ts n k ks)
  show ?case
  proof (cases "tensor_end data ts < length data")
    case True
    then show ?thesis using "2.IH" "2.prems"(1) by (simp add: Let_def)
  next
    case False
    then have sz: "0 < tensor_end data ts - unat (gg_offset t)" using "2.prems"(2) by (simp add: tensor_end_def)
    have "unat (gg_offset t) < length data" using "2.prems"(2) by (simp add: tensor_end_def)
    then have "read_at (unat (gg_offset t)) (tensor_end data ts - unat (gg_offset t)) data \<noteq> []"
      using sz by (simp add: read_at_def)
    then show ?thesis using "2.prems"(1) by (auto simp: Let_def read_at_def)
  qed
qed (simp_all add: tensor_end_def)

lemma first_offset_inside:
  assumes "\<exists>t \<in> set ts. unat (gt_offset t) < length data"
    and "length S = length ts" "set S = set (map table_entry ts)" and "sorted (map gg_offset S)"
  shows "tensor_end data S < length data"
proof -
  obtain t where t: "t \<in> set ts" "unat (gt_offset t) < length data" using assms(1) by blast
  then have "table_entry t \<in> set S" using assms(3) by simp
  then obtain u us where S: "S = u # us" by (cases S) auto
  then have "gg_offset u \<le> gg_offset (table_entry t)" using \<open>table_entry t \<in> set S\<close> assms(4) by auto
  then show ?thesis using t(2) S by (simp add: tensor_end_def table_entry_def word_le_nat_alt)
qed

text \<open>
  C22. What the ingest command writes is what a later process reads. For a model file of the writer's with tensors and a
  payload, an alignment in the range of the command line and a file system that answers, \<open>main\<close> exits with 0; loading the
  \<open>index.bin\<close> it wrote succeeds, gives one aligned coordinate per tensor in the order of their offsets, found under its number where the
  numbers' hashes differ, and the bytes of \<open>weights.bin\<close> under each coordinate are the model's bytes of that tensor.
  The file is one that the ingestor reads as it was written: its metadata has no 16-bit scalars (which the
  ingestor skips as if they had four bytes) and nests no deeper than the stack, keys and names have at most 64 MiB,
  the tensor table ends where the data section may begin, so that there is no alignment padding (which the
  ingestor takes for data, \<open>ingest_takes_padding\<close>), offsets lie inside the payload and positions below 2 to the 63.
\<close>

theorem ingested_model_loads:
  assumes srt: "\<forall>xs. mset (srt xs) = mset xs \<and> sorted (map gg_offset (srt xs))"
    and kvs: "\<forall>kv \<in> set kvs. wf_value (snd kv) \<and> no_short (snd kv) \<and> depth (snd kv) \<le> d \<and> length (fst kv) \<le> 67108864"
    and ts: "\<forall>t \<in> set ts. length (gt_dims t) < 4294967296 \<and> length (gt_name t) \<le> 67108864 \<and> unat (gt_offset t) \<le> length data"
    and data: "\<exists>t \<in> set ts. unat (gt_offset t) < length data"
    and al: "0 < al" "al < 4294967296" and res: "can_reserve (of_nat (length ts))" and n: "length ts < 4294967296"
    and len: "length (gguf_file version kvs ts data) + length ts * al < 9223372036854775808"
    and pad: "gguf_padding version kvs ts = []"
    and env: "te_exists env" "te_directories env" "te_source env = Some (gguf_file version kvs ts data)"
      "te_payload_opens env" "te_index_opens env" "te_index_written env"
  shows "\<exists>weights blob index.
    ingest_main d can_reserve srt env [prog, gguf, out_dir, dec_digits al] = (Exit 0, Some weights, Some blob) \<and>
    load (Some blob) True old = (True, index) \<and> length (ti_entries index) = length ts \<and>
    (\<forall>i < length ts.
       let t = srt (map table_entry ts) ! i; next_offset = tensor_end data (drop (Suc i) (srt (map table_entry ts)));
           k = snd (ti_entries index ! i) in
       al dvd unat (tc_absolute_offset k) \<and> tc_quant_type k = gg_type t \<and>
       read_at (unat (tc_absolute_offset k)) (unat (tc_byte_size k)) weights =
         read_at (unat (gg_offset t)) (next_offset - unat (gg_offset t)) data \<and>
       (distinct (map (\<lambda>i. fnv1a64 (dec_digits i)) [0..<length ts]) \<longrightarrow> lookup index (dec_digits i) = Some k))"
proof -
  have src: "gguf_file version kvs ts data = gguf_bytes version kvs ts data" by (simp add: gguf_file_def pad)
  let ?bs = "gguf_bytes version kvs ts data" and ?S = "srt (map table_entry ts)" and ?al = "of_nat al :: u32"
  let ?es = "\<lambda>ks. map (\<lambda>i. (dec_digits i, snd (ks ! i))) [0..<length ks]"
  have a: "unat ?al = al" "?al \<noteq> 0" using al by (simp_all add: unat_of_nat_u32) (metis gr_implies_not0 unat_0 unat_of_nat_u32)
  have S: "length ?S = length ts" "set ?S = set (map table_entry ts)" using srt by (metis length_map size_mset, metis set_mset_mset)
  obtain c ks out where run: "ingest_gguf d can_reserve srt (Some ?bs) True (out_dir @ ''/weights.bin'') ?al empty_result =
      Value (ks \<noteq> [] \<and> c > 0, \<lparr> ig_payload_path = out_dir @ ''/weights.bin'', ig_coords = ks, ig_payload_size = c \<rparr>, out)"
    and fits: "length out \<le> unat c" and names: "mset (map fst ks) = mset (map gt_name ts)"
    and slices: "payload_slices al data out 0 ?S ks"
    using ingest_slices [where can_reserve = can_reserve and ts = ts and version = version and path = "out_dir @ ''/weights.bin''"
        and out = empty_result, OF srt kvs ts a(2) res] len [unfolded src]
    unfolding a(1) by (auto simp: empty_result_def)
  have ks: "length ks = length ts" using names by (metis length_map size_mset)
  have "tensor_end data ?S < length data" using first_offset_inside [OF data S] srt by blast
  then have "out \<noteq> []" by (rule slices_nonempty [OF slices])
  then have ok: "ks \<noteq> [] \<and> c > 0" using fits ks data by (auto simp: word_gt_0)
  obtain ix where ix: "build ks c ?al = Some ix" using n ks by (simp add: build_def)
  have main: "ingest_main d can_reserve srt env [prog, gguf, out_dir, dec_digits al] = (Exit 0, Some out, Some (to_blob ix))"
    using ok ix by (simp add: ingest_main_def env src stoul_prints [OF al(2)] run save_def)
  let ?ix = "old\<lparr>ti_header := ti_header ix, ti_entries := ?es ks, ti_hash_to_index := hash_entries (?es ks)\<rparr>"
  have load: "load (Some (to_blob ix)) True old = (True, ?ix)"
    using built_blob_read [OF ix, of old] ok by (simp add: load_def)
  have "lookup ?ix (dec_digits i) = Some (snd (ks ! i))"
    if "distinct (map (\<lambda>i. fnv1a64 (dec_digits i)) [0..<length ts])" "i < length ts" for i
    using numbered_lookup [of "length ts" i ?ix "\<lambda>i. snd (ks ! i)"] that n ks by simp
  then show ?thesis
    using main load slices_nth [OF slices] by (intro exI conjI) (auto simp: ks S Let_def)
qed

definition example_tool_env :: tool_env where
  "example_tool_env = \<lparr> te_exists = True, te_source = Some (gguf_file 3 [(''general.architecture_type'', Scalar 7 [1])] ingest_example [9, 8, 7]),
     te_directories = True, te_payload_opens = True, te_index_opens = True, te_index_written = True \<rparr>"

theorem ingested_model_loads_witness:
  "\<exists>weights blob index.
    ingest_main 1 (\<lambda>n. n < 1000) (sort_key gg_offset) example_tool_env [''p'', ''m'', ''o'', dec_digits 4096] =
      (Exit 0, Some weights, Some blob) \<and>
    load (Some blob) True new_TensorIndex = (True, index) \<and> length (ti_entries index) = 2 \<and>
    (let k = snd (ti_entries index ! 0) in
       read_at (unat (tc_absolute_offset k)) (unat (tc_byte_size k)) weights = [9, 8]) \<and>
    (let k = snd (ti_entries index ! 1) in
       read_at (unat (tc_absolute_offset k)) (unat (tc_byte_size k)) weights = [7])"
proof -
  let ?kvs = "[(''general.architecture_type'', Scalar 7 [1])]"
  have kvs: "\<forall>kv \<in> set ?kvs. wf_value (snd kv) \<and> no_short (snd kv) \<and> depth (snd kv) \<le> 1 \<and> length (fst kv) \<le> 67108864"
    by (simp add: scalar_size_def)
  have ts: "\<forall>t \<in> set ingest_example. length (gt_dims t) < 4294967296 \<and> length (gt_name t) \<le> 67108864 \<and>
      unat (gt_offset t) \<le> length [9 :: u8, 8, 7]"
    by (simp add: ingest_example_def)
  have data: "\<exists>t \<in> set ingest_example. unat (gt_offset t) < length [9 :: u8, 8, 7]" by (simp add: ingest_example_def)
  have len: "length (gguf_file 3 ?kvs ingest_example [9, 8, 7]) + length ingest_example * 4096 < 9223372036854775808"
    by (simp add: gguf_file_def gguf_bytes_def gguf_padding_def gguf_alignment_def ingest_example_def kv_field_def tensor_field_def
        string_field_def)
  have pad: "gguf_padding 3 ?kvs ingest_example = []"
    by (simp add: gguf_bytes_def gguf_padding_def gguf_alignment_def ingest_example_def kv_field_def tensor_field_def string_field_def)
  have res: "(of_nat (length ingest_example) :: u64) < 1000" by (simp add: ingest_example_def)
  have two: "length ingest_example = 2" by (simp add: ingest_example_def)
  have sorted: "sort_key gg_offset (map table_entry ingest_example) =
      [table_entry \<lparr> gt_name = ''a'', gt_dims = [], gt_type = 0, gt_offset = 0 \<rparr>,
       table_entry \<lparr> gt_name = ''b'', gt_dims = [4, 2], gt_type = 8, gt_offset = 2 \<rparr>]"
    by (simp add: ingest_example_def table_entry_def)
  obtain weights blob index where run:
    "ingest_main 1 (\<lambda>n. n < 1000) (sort_key gg_offset) example_tool_env [''p'', ''m'', ''o'', dec_digits 4096] =
      (Exit 0, Some weights, Some blob)" "load (Some blob) True new_TensorIndex = (True, index)" "length (ti_entries index) = 2"
    and bytes: "\<forall>i < 2. read_at (unat (tc_absolute_offset (snd (ti_entries index ! i)))) (unat (tc_byte_size (snd (ti_entries index ! i)))) weights =
         read_at (unat (gg_offset (sort_key gg_offset (map table_entry ingest_example) ! i)))
           (tensor_end [9, 8, 7] (drop (Suc i) (sort_key gg_offset (map table_entry ingest_example))) -
            unat (gg_offset (sort_key gg_offset (map table_entry ingest_example) ! i))) [9, 8, 7]"
    using ingested_model_loads [where can_reserve = "\<lambda>n. n < 1000" and srt = "sort_key gg_offset" and al = 4096 and ts = ingest_example
        and kvs = ?kvs and data = "[9, 8, 7]" and version = 3 and d = 1 and env = example_tool_env and prog = "''p''"
        and gguf = "''m''" and out_dir = "''o''" and old = new_TensorIndex, OF _ kvs ts data _ _ res _ len pad]
    unfolding two by (auto simp: example_tool_env_def Let_def)
  show ?thesis
    using run bytes [rule_format, of 0] bytes [rule_format, of 1]
    by (intro exI conjI) (auto simp: sorted table_entry_def tensor_end_def read_at_def)
qed

end
