(* ===== verification/JsonText.thy ===== *)
theory JsonText
  imports Diagnostics
begin

text \<open>
  A reader for JSON texts, the specification that the messages of the library are held against: white
  space between tokens, the three literals, numbers by the grammar of RFC 8259 (so neither
  \<open>nan\<close> nor \<open>inf\<close>), strings with the escapes of one character (those of four hexadecimal digits are
  refused), arrays and objects, whose members are kept in order. The nesting is bounded by fuel;
  twice the length of the text and one is what \<open>json_read\<close> starts with.
\<close>

section \<open>Tokens\<close>

definition json_space :: "char \<Rightarrow> bool" where
  "json_space c \<longleftrightarrow> c \<in> {CHR '' '', Tab, Newline, Return}"

definition json_token :: "char \<Rightarrow> string \<Rightarrow> string option" where
  "json_token t s = (case dropWhile json_space s of [] \<Rightarrow> None | c # cs \<Rightarrow> if c = t then Some cs else None)"

definition json_literal :: "string \<Rightarrow> string \<Rightarrow> string option" where
  "json_literal p s = (if take (length p) s = p then Some (drop (length p) s) else None)"

section \<open>Numbers\<close>

definition json_digits :: "string \<Rightarrow> (string \<times> string) option" where
  "json_digits s = (if takeWhile is_digit s = [] then None else Some (takeWhile is_digit s, dropWhile is_digit s))"

fun json_int :: "string \<Rightarrow> (string \<times> string) option" where
  "json_int [] = None"
| "json_int (c # cs) =
    (if c = CHR ''0'' then Some ([c], cs)
     else if is_digit c then Some (c # takeWhile is_digit cs, dropWhile is_digit cs) else None)"

fun json_fraction :: "string \<Rightarrow> (string \<times> string) option" where
  "json_fraction [] = Some ([], [])"
| "json_fraction (c # cs) =
    (if c = CHR ''.'' then map_option (\<lambda>(d, r). (c # d, r)) (json_digits cs) else Some ([], c # cs))"

fun json_exponent :: "string \<Rightarrow> (string \<times> string) option" where
  "json_exponent [] = Some ([], [])"
| "json_exponent [c] = (if c = CHR ''e'' \<or> c = CHR ''E'' then None else Some ([], [c]))"
| "json_exponent (c # s # cs) =
    (if c = CHR ''e'' \<or> c = CHR ''E'' then
       (if s = CHR ''+'' \<or> s = CHR ''-'' then map_option (\<lambda>(d, r). (c # s # d, r)) (json_digits cs)
        else map_option (\<lambda>(d, r). (c # d, r)) (json_digits (s # cs)))
     else Some ([], c # s # cs))"

definition json_unsigned :: "string \<Rightarrow> (string \<times> string) option" where
  "json_unsigned s =
    Option.bind (json_int s) (\<lambda>(i, s1).
    Option.bind (json_fraction s1) (\<lambda>(f, s2).
    map_option (\<lambda>(e, s3). (i @ f @ e, s3)) (json_exponent s2)))"

fun json_number :: "string \<Rightarrow> (string \<times> string) option" where
  "json_number [] = None"
| "json_number (c # cs) =
    (if c = CHR ''-'' then map_option (\<lambda>(n, r). (c # n, r)) (json_unsigned cs) else json_unsigned (c # cs))"

definition json_numeral :: "string \<Rightarrow> bool" where
  "json_numeral s \<longleftrightarrow> json_number s = Some (s, [])"

section \<open>Values\<close>

datatype json = JNull | JBool bool | JNum string | JStr string | JArr "json list" | JObj "(string \<times> json) list"

fun json_value :: "nat \<Rightarrow> string \<Rightarrow> (json \<times> string) option"
and json_elements :: "nat \<Rightarrow> string \<Rightarrow> (json list \<times> string) option"
and json_members :: "nat \<Rightarrow> string \<Rightarrow> ((string \<times> json) list \<times> string) option" where
  "json_value 0 s = None"
| "json_value (Suc n) s =
    (case dropWhile json_space s of
       [] \<Rightarrow> None
     | c # cs \<Rightarrow>
         if c = Quote then map_option (\<lambda>(t, r). (JStr t, r)) (json_string_body cs)
         else if c = CHR ''['' then
           (case json_token (CHR '']'') cs of
              Some r \<Rightarrow> Some (JArr [], r)
            | None \<Rightarrow> map_option (\<lambda>(xs, r). (JArr xs, r)) (json_elements n cs))
         else if c = CHR ''{'' then
           (case json_token (CHR ''}'') cs of
              Some r \<Rightarrow> Some (JObj [], r)
            | None \<Rightarrow> map_option (\<lambda>(ms, r). (JObj ms, r)) (json_members n cs))
         else if c = CHR ''t'' then map_option (Pair (JBool True)) (json_literal ''rue'' cs)
         else if c = CHR ''f'' then map_option (Pair (JBool False)) (json_literal ''alse'' cs)
         else if c = CHR ''n'' then map_option (Pair JNull) (json_literal ''ull'' cs)
         else map_option (\<lambda>(t, r). (JNum t, r)) (json_number (c # cs)))"
| "json_elements 0 s = None"
| "json_elements (Suc n) s =
    Option.bind (json_value n s) (\<lambda>(x, r).
      case json_token (CHR '','') r of
        Some r' \<Rightarrow> map_option (\<lambda>(xs, r'). (x # xs, r')) (json_elements n r')
      | None \<Rightarrow> map_option (Pair [x]) (json_token (CHR '']'') r))"
| "json_members 0 s = None"
| "json_members (Suc n) s =
    Option.bind (json_token Quote s) (\<lambda>s1.
    Option.bind (json_string_body s1) (\<lambda>(k, s2).
    Option.bind (json_token (CHR '':'') s2) (\<lambda>s3.
    Option.bind (json_value n s3) (\<lambda>(v, r).
      case json_token (CHR '','') r of
        Some r' \<Rightarrow> map_option (\<lambda>(ms, r'). ((k, v) # ms, r')) (json_members n r')
      | None \<Rightarrow> map_option (Pair [(k, v)]) (json_token (CHR ''}'') r)))))"

definition json_read :: "string \<Rightarrow> json option" where
  "json_read s =
    (case json_value (2 * length s + 1) s of
       None \<Rightarrow> None
     | Some (v, r) \<Rightarrow> if dropWhile json_space r = [] then Some v else None)"

lemma json_read_examples:
  "json_read ''[1, -2.5e+3, true]'' = Some (JArr [JNum ''1'', JNum ''-2.5e+3'', JBool True])"
  "json_read ''[nan]'' = None" "json_read ''inf'' = None" "json_read ''01'' = None" "json_read ''1.'' = None"
  "json_read ''{}'' = Some (JObj [])"
  by code_simp+

section \<open>Reading what was written\<close>

text \<open>A text behind a number that does not continue it.\<close>

fun number_stops :: "string \<Rightarrow> bool" where
  "number_stops [] \<longleftrightarrow> True"
| "number_stops (c # cs) \<longleftrightarrow> \<not> is_digit c \<and> c \<notin> {CHR ''.'', CHR ''e'', CHR ''E''}"

lemma digits_stop:
  assumes "number_stops rest"
  shows "takeWhile is_digit (s @ rest) = takeWhile is_digit s" "dropWhile is_digit (s @ rest) = dropWhile is_digit s @ rest"
proof -
  have "takeWhile is_digit rest = []" "dropWhile is_digit rest = rest" using assms by (cases rest; simp)+
  then show "takeWhile is_digit (s @ rest) = takeWhile is_digit s" "dropWhile is_digit (s @ rest) = dropWhile is_digit s @ rest"
    by (induction s) simp_all
qed

lemma json_digits_stop: "number_stops rest \<Longrightarrow> json_digits s = Some (d, r) \<Longrightarrow> json_digits (s @ rest) = Some (d, r @ rest)"
  by (auto simp: json_digits_def digits_stop split: if_splits)

lemma json_int_stop: "number_stops rest \<Longrightarrow> json_int s = Some (d, r) \<Longrightarrow> json_int (s @ rest) = Some (d, r @ rest)"
  by (cases s) (auto simp: digits_stop split: if_splits)

lemma json_fraction_stop:
  assumes "number_stops rest" "json_fraction s = Some (d, r)"
  shows "json_fraction (s @ rest) = Some (d, r @ rest)"
proof (cases s)
  case Nil
  then show ?thesis using assms by (cases rest) auto
next
  case (Cons c cs)
  then show ?thesis using assms json_digits_stop [OF assms(1), of cs] by (auto split: if_splits)
qed

lemma json_exponent_stop:
  assumes "number_stops rest" "json_exponent s = Some (d, r)"
  shows "json_exponent (s @ rest) = Some (d, r @ rest)"
  using assms(2)
proof (cases s rule: json_exponent.cases)
  case 1
  then show ?thesis using assms by (cases rest; cases "tl rest") auto
next
  case (2 c)
  then show ?thesis using assms(2) by (cases rest) (auto split: if_splits)
next
  case (3 c x cs)
  then show ?thesis
    using assms(2) json_digits_stop [OF assms(1), of cs] json_digits_stop [OF assms(1), of "x # cs"]
    by (auto split: if_splits)
qed

lemma json_unsigned_stop:
  assumes "number_stops rest" "json_unsigned s = Some (d, r)"
  shows "json_unsigned (s @ rest) = Some (d, r @ rest)"
  using assms(2)
  by (auto simp: json_unsigned_def json_int_stop [OF assms(1)] json_fraction_stop [OF assms(1)] json_exponent_stop [OF assms(1)]
      split: bind_splits)

lemma json_number_stop:
  assumes "number_stops rest" "json_number s = Some (d, r)"
  shows "json_number (s @ rest) = Some (d, r @ rest)"
  using assms(2) json_unsigned_stop [OF assms(1)]
  by (cases s) (fastforce split: if_splits)+

lemma numeral_head:
  assumes "json_numeral s"
  obtains c cs where "s = c # cs" "c = CHR ''-'' \<or> is_digit c"
proof (cases s)
  case (Cons c cs)
  have "c = CHR ''-'' \<or> is_digit c"
    using assms Cons by (auto simp: json_numeral_def json_unsigned_def is_digit_def split: if_splits bind_splits)
  then show thesis using that Cons by blast
qed (use assms in \<open>simp add: json_numeral_def\<close>)

definition json_plain :: "string \<Rightarrow> bool" where
  "json_plain s \<longleftrightarrow> (\<forall>c \<in> set s. c \<noteq> Quote \<and> c \<noteq> Backslash \<and> 32 \<le> (of_char c :: nat))"

lemma plain_body: "json_plain s \<Longrightarrow> json_string_body (s @ Quote # rest) = Some (s, rest)"
  unfolding json_plain_def by (induction s) auto

lemma quoted_then: "quoted a @ b = Quote # a @ Quote # b"
  by (simp add: quoted_def)

lemma json_token_here [simp]: "\<not> json_space c \<Longrightarrow> json_token t (c # cs) = (if c = t then Some cs else None)"
  by (simp add: json_token_def)

lemma json_spaces [simp]:
  "\<not> json_space Quote" "\<not> json_space (CHR ''['')" "\<not> json_space (CHR '']'')" "\<not> json_space (CHR ''{'')"
  "\<not> json_space (CHR ''}'')" "\<not> json_space (CHR '','')" "\<not> json_space (CHR '':'')"
  by (simp_all add: json_space_def)

lemma read_string_value: "json_plain t \<Longrightarrow> json_value (Suc n) (Quote # t @ Quote # r) = Some (JStr t, r)"
  by (simp add: plain_body)

lemma read_number_value:
  assumes "json_numeral t" "number_stops r"
  shows "json_value (Suc n) (t @ r) = Some (JNum t, r)"
proof -
  obtain c cs where t: "t = c # cs" "c = CHR ''-'' \<or> is_digit c" using numeral_head [OF assms(1)] by blast
  have "c \<notin> {Quote, CHR ''['', CHR ''{'', CHR ''t'', CHR ''f'', CHR ''n''}" "\<not> json_space c"
    using t(2) by (auto simp: is_digit_def json_space_def)
  moreover have "json_number (t @ r) = Some (t, r)"
    using json_number_stop [OF assms(2), of t t "[]"] assms(1) by (simp add: json_numeral_def)
  ultimately show ?thesis by (simp add: t(1) del: json_number.simps)
qed

lemma read_object:
  "json_members n (Quote # s) = Some (ms, r) \<Longrightarrow> json_value (Suc n) (CHR ''{'' # Quote # s) = Some (JObj ms, r)"
  by simp

lemma read_member:
  assumes "json_plain k"
  shows "json_value n s = Some (v, CHR '','' # r) \<Longrightarrow> json_members n r = Some (ms, r') \<Longrightarrow>
      json_members (Suc n) (Quote # k @ Quote # CHR '':'' # s) = Some ((k, v) # ms, r')"
    and "json_value n s = Some (v, CHR ''}'' # r) \<Longrightarrow>
      json_members (Suc n) (Quote # k @ Quote # CHR '':'' # s) = Some ([(k, v)], r)"
  by (simp_all add: plain_body [OF assms])

lemma read_element:
  "json_value n s = Some (v, CHR '','' # r) \<Longrightarrow> json_elements n r = Some (xs, r') \<Longrightarrow>
    json_elements (Suc n) s = Some (v # xs, r')"
  "json_value n s = Some (v, CHR '']'' # r) \<Longrightarrow> json_elements (Suc n) s = Some ([v], r)"
  by simp_all

end
