(* ===== verification/Quantize.thy ===== *)
theory Quantize
  imports RefOps
begin

text \<open>
  The CPU side of \<open>src/dxquant/dxquant.cpp\<close>: half-precision scales, and the block formats Q8_0 and
  Q4_0 of 32 elements. The conversions of a half to a float and back work on bit patterns and are
  modelled exactly; the float operations of the quantizers are arguments (\<open>float_ops\<close> and, for what
  only this file uses, \<open>quant_ops\<close>).
\<close>

section \<open>Half precision\<close>

definition float_to_fp16 :: "f32 \<Rightarrow> u16" where
  "float_to_fp16 v =
    (let sign = drop_bit 16 v AND 0x8000;
         exp = int (unat (drop_bit 23 v AND 0xFF)) - 127 + 15;
         frac = drop_bit 13 v AND 0x03FF
     in if exp \<le> 0 then ucast sign
        else if exp \<ge> 31 then ucast (sign OR 0x7C00)
        else ucast (sign OR push_bit 10 (of_int exp) OR frac))"

definition fp16_to_float :: "u16 \<Rightarrow> f32" where
  "fp16_to_float h =
    (let sign = push_bit 16 (ucast (h AND 0x8000)) :: u32;
         exp = drop_bit 10 (ucast (h AND 0x7C00)) :: u32;
         frac = push_bit 13 (ucast (h AND 0x03FF)) :: u32
     in if exp = 0 then 0
        else sign OR push_bit 23 (exp - 15 + 127) OR frac)"

section \<open>Blocks\<close>

text \<open>Element \<open>j\<close> of block \<open>i\<close>: both indices are 32 bits wide, and so is their sum.\<close>

definition elem :: "nat \<Rightarrow> nat \<Rightarrow> nat" where
  "elem i j = unat (of_nat i * 32 + of_nat j :: u32)"

record quant_ops =
  qo_abs :: "f32 \<Rightarrow> f32"
  qo_round :: "f32 \<Rightarrow> int"
  qo_trunc :: "f32 \<Rightarrow> int"
  qo_of_int :: "int \<Rightarrow> f32"

record BlockQ8_0 =
  q8_d :: u16
  q8_qs :: "8 word list"

record BlockQ4_0 =
  q4_d :: u16
  q4_qs :: "u8 list"

text \<open>The largest magnitude of a block, and the scale and its inverse for the divisor given.\<close>

definition block_amax :: "float_ops \<Rightarrow> quant_ops \<Rightarrow> f32 list \<Rightarrow> nat \<Rightarrow> f32" where
  "block_amax F Q src i = fold (\<lambda>j amax. std_max F amax (qo_abs Q (src ! elem i j))) [0..<32] f32_zero"

definition inverse_scale :: "float_ops \<Rightarrow> f32 \<Rightarrow> f32" where
  "inverse_scale F d = (if fo_eq F d f32_zero then f32_zero else fo_div F f32_one d)"

definition clamp :: "int \<Rightarrow> int \<Rightarrow> int \<Rightarrow> int" where
  "clamp lo hi v = min hi (max lo v)"

text \<open>\<open>127.0f\<close>, \<open>-8.0f\<close> and \<open>8.5f\<close> by their patterns.\<close>

definition quantize_block_q8_0 :: "float_ops \<Rightarrow> quant_ops \<Rightarrow> f32 list \<Rightarrow> nat \<Rightarrow> BlockQ8_0" where
  "quantize_block_q8_0 F Q src i =
    (let d = fo_div F (block_amax F Q src i) 0x42FE0000; id = inverse_scale F d
     in \<lparr> q8_d = float_to_fp16 d,
          q8_qs = map (\<lambda>j. of_int (clamp (-127) 127 (qo_round Q (fo_mul F (src ! elem i j) id)))) [0..<32] \<rparr>)"

definition quantize_block_q4_0 :: "float_ops \<Rightarrow> quant_ops \<Rightarrow> f32 list \<Rightarrow> nat \<Rightarrow> BlockQ4_0" where
  "quantize_block_q4_0 F Q src i =
    (let d = fo_div F (block_amax F Q src i) 0xC1000000; id = inverse_scale F d;
         nibble = (\<lambda>j. of_int (clamp 0 15 (qo_trunc Q (fo_add F (fo_mul F (src ! elem i j) id) 0x41080000))) :: u8)
     in \<lparr> q4_d = float_to_fp16 d, q4_qs = map (\<lambda>j. nibble j OR push_bit 4 (nibble (j + 16))) [0..<16] \<rparr>)"

section \<open>Rows\<close>

text \<open>The number of blocks is a 32-bit count.\<close>

definition block_count :: "u64 \<Rightarrow> nat" where
  "block_count k = unat (ucast (k div 32) :: u32)"

definition quantize_row_q8_0 :: "float_ops \<Rightarrow> quant_ops \<Rightarrow> f32 list \<Rightarrow> BlockQ8_0 list \<Rightarrow> u64 \<Rightarrow> BlockQ8_0 list" where
  "quantize_row_q8_0 F Q src dst k =
    fold (\<lambda>i out. out[i := quantize_block_q8_0 F Q src i]) [0..<block_count k] dst"

definition quantize_row_q4_0 :: "float_ops \<Rightarrow> quant_ops \<Rightarrow> f32 list \<Rightarrow> BlockQ4_0 list \<Rightarrow> u64 \<Rightarrow> BlockQ4_0 list" where
  "quantize_row_q4_0 F Q src dst k =
    fold (\<lambda>i out. out[i := quantize_block_q4_0 F Q src i]) [0..<block_count k] dst"

text \<open>The dequantizers store element by element, Q4_0 two at a time.\<close>

definition dequantize_block_q8_0 :: "float_ops \<Rightarrow> quant_ops \<Rightarrow> BlockQ8_0 list \<Rightarrow> nat \<Rightarrow> f32 list \<Rightarrow> f32 list" where
  "dequantize_block_q8_0 F Q src i dst =
    fold (\<lambda>j out. out[elem i j := fo_mul F (qo_of_int Q (sint (q8_qs (src ! i) ! j))) (fp16_to_float (q8_d (src ! i)))])
      [0..<32] dst"

definition dequantize_row_q8_0 :: "float_ops \<Rightarrow> quant_ops \<Rightarrow> BlockQ8_0 list \<Rightarrow> f32 list \<Rightarrow> u64 \<Rightarrow> f32 list" where
  "dequantize_row_q8_0 F Q src dst k = fold (dequantize_block_q8_0 F Q src) [0..<block_count k] dst"

definition dequantize_block_q4_0 :: "float_ops \<Rightarrow> quant_ops \<Rightarrow> BlockQ4_0 list \<Rightarrow> nat \<Rightarrow> f32 list \<Rightarrow> f32 list" where
  "dequantize_block_q4_0 F Q src i dst =
    fold (\<lambda>j out.
        let d = fp16_to_float (q4_d (src ! i)); vi = q4_qs (src ! i) ! j;
            x0 = int (unat (vi AND 0x0F)) - 8; x1 = int (unat (drop_bit 4 vi)) - 8
        in out[elem i j := fo_mul F (qo_of_int Q x0) d, elem i (j + 16) := fo_mul F (qo_of_int Q x1) d])
      [0..<16] dst"

definition dequantize_row_q4_0 :: "float_ops \<Rightarrow> quant_ops \<Rightarrow> BlockQ4_0 list \<Rightarrow> f32 list \<Rightarrow> u64 \<Rightarrow> f32 list" where
  "dequantize_row_q4_0 F Q src dst k = fold (dequantize_block_q4_0 F Q src) [0..<block_count k] dst"

section \<open>Scales survive\<close>

lemma sign_bits: "bit (0x8000 :: u16) k \<longleftrightarrow> k = 15" "bit (0x8000 :: u32) k \<longleftrightarrow> k = 15"
    "bit (0x8000 :: int) k \<longleftrightarrow> k = 15"
proof -
  have i: "(0x8000 :: int) = push_bit 15 1" by simp
  show "bit (0x8000 :: int) k \<longleftrightarrow> k = 15" unfolding i bit_push_bit_iff bit_1_iff by auto
  have p: "(0x8000 :: u16) = push_bit 15 1" "(0x8000 :: u32) = push_bit 15 1" by simp_all
  show "bit (0x8000 :: u16) k \<longleftrightarrow> k = 15" unfolding p bit_push_bit_iff bit_1_iff by (auto simp: possible_bit_word)
  show "bit (0x8000 :: u32) k \<longleftrightarrow> k = 15" unfolding p bit_push_bit_iff bit_1_iff by (auto simp: possible_bit_word)
qed

lemma field_masks: "(0x7C00 :: u16) = push_bit 10 (mask 5)" "(0x03FF :: u16) = mask 10" "(0xFF :: u32) = mask 8"
    "(0x03FF :: u32) = mask 10"
  by (simp_all add: mask_eq_exp_minus_1 push_bit_eq_mult)

lemma bit_below: "unat (w :: 'a :: len word) < 2 ^ m \<Longrightarrow> bit w n \<Longrightarrow> n < m"
proof (rule ccontr)
  assume w: "unat w < 2 ^ m" "bit w n" "\<not> n < m"
  then have "(2 :: nat) ^ m \<le> 2 ^ n" by (intro power_increasing) simp_all
  then have "unat w div 2 ^ n = 0" using w(1) by (intro div_less) linarith
  moreover have "bit (unat w) n" using w(2) by (simp add: bit_unsigned_iff)
  ultimately show False by (simp add: bit_iff_odd)
qed

lemma fp16_fields:
  fixes h :: u16
  defines "e \<equiv> (drop_bit 10 (ucast (h AND 0x7C00)) :: u32)"
  assumes "0 < unat e" "unat e < 31"
  shows "drop_bit 23 (fp16_to_float h) AND 0xFF = e + 112"
    and "drop_bit 13 (fp16_to_float h) AND 0x03FF = ucast (h AND 0x03FF)"
    and "drop_bit 16 (fp16_to_float h) AND 0x8000 = ucast (h AND 0x8000)"
proof -
  have "e \<noteq> 0" using assms(2) by auto
  then have f: "fp16_to_float h = push_bit 16 (ucast (h AND 0x8000)) OR push_bit 23 (e + 112) OR push_bit 13 (ucast (h AND 0x03FF))"
    by (simp add: fp16_to_float_def e_def Let_def add.commute)
  have "unat (e + 112) = unat e + 112" using u32_add_unat [of e 112] assms(3) by simp
  then have E: "bit (e + 112) n \<Longrightarrow> n < 8" for n using bit_below [of "e + 112" 8 n] assms(3) by simp
  show "drop_bit 23 (fp16_to_float h) AND 0xFF = e + 112"
    unfolding f field_masks by (rule bit_word_eqI) (auto simp: bit_simps sign_bits dest: E)
  show "drop_bit 13 (fp16_to_float h) AND 0x03FF = ucast (h AND 0x03FF)"
    unfolding f field_masks by (rule bit_word_eqI) (auto simp: bit_simps sign_bits dest: E)
  show "drop_bit 16 (fp16_to_float h) AND 0x8000 = ucast (h AND 0x8000)"
    unfolding f field_masks by (rule bit_word_eqI) (auto simp: bit_simps sign_bits dest: E)
qed

definition normal_half :: "u16 \<Rightarrow> bool" where
  "normal_half h \<longleftrightarrow> h AND 0x7C00 \<noteq> 0 \<and> h AND 0x7C00 \<noteq> 0x7C00"

lemma half_fields:
  fixes h :: u16
  defines "e \<equiv> (drop_bit 10 (ucast (h AND 0x7C00)) :: u32)"
  shows "(ucast (h AND 0x8000) :: u32) OR push_bit 10 e OR ucast (h AND 0x03FF) = ucast h"
    and "unat e < 32" and "normal_half h \<Longrightarrow> 0 < unat e \<and> unat e < 31"
proof -
  show all: "(ucast (h AND 0x8000) :: u32) OR push_bit 10 e OR ucast (h AND 0x03FF) = ucast h"
    unfolding e_def field_masks
  proof (rule bit_word_eqI)
    fix n
    assume "n < LENGTH(32)"
    have "bit h n \<Longrightarrow> n < 16" using bit_imp_le_length by fastforce
    then show "bit (ucast (h AND 0x8000) OR push_bit 10 (drop_bit 10 (ucast (h AND push_bit 10 (mask 5)))) OR
        ucast (h AND mask 10) :: u32) n = bit (ucast h :: u32) n"
      by (auto simp: bit_simps sign_bits)
  qed
  have small: "take_bit 5 e = e"
    unfolding e_def field_masks by (rule bit_word_eqI) (auto simp: bit_simps)
  then have "unat e = take_bit 5 (unat e)" by (metis unsigned_take_bit_eq)
  then show lt: "unat e < 32" using take_bit_nat_less_exp [of 5 "unat e"] by simp
  have pe: "push_bit 10 e = ucast (h AND 0x7C00)"
    unfolding e_def field_masks by (rule bit_word_eqI) (auto simp: bit_simps)
  show "0 < unat e \<and> unat e < 31" if n: "normal_half h"
  proof -
    have u: "unat (ucast x :: u32) = unat x" for x :: u16
    proof -
      have "unat x < 2 ^ LENGTH(16)" by (rule unsigned_less)
      then show ?thesis by (simp add: unsigned_ucast_eq take_bit_nat_eq_self_iff)
    qed
    have "e \<noteq> 0"
    proof
      assume "e = 0"
      then have "unat (h AND 0x7C00) = 0" using pe u [of "h AND 0x7C00"] by (simp only: push_bit_of_0 unat_0)
      then show False using n by (simp add: normal_half_def unat_eq_0)
    qed
    moreover have "e \<noteq> 31"
    proof
      assume "e = 31"
      then have "ucast (h AND 0x7C00) = (0x7C00 :: u32)" using pe by simp
      then have "unat (h AND 0x7C00) = unat (0x7C00 :: u32)" using u [of "h AND 0x7C00"] by simp
      then have "unat (h AND 0x7C00) = unat (0x7C00 :: u16)" by simp
      then show False using n by (simp add: normal_half_def word_unat_eq_iff)
    qed
    then have "unat e \<noteq> unat (31 :: u32)" by (simp add: word_unat_eq_iff)
    ultimately show ?thesis using lt by (simp add: unat_gt_0)
  qed
qed

lemma fp16_roundtrip:
  assumes "normal_half h"
  shows "float_to_fp16 (fp16_to_float h) = h"
proof -
  let ?e = "drop_bit 10 (ucast (h AND 0x7C00)) :: u32"
  have e: "0 < unat ?e" "unat ?e < 31" using half_fields(3) [OF assms] by simp_all
  note f = fp16_fields [OF e]
  have u: "unat (?e + 112) = unat ?e + 112" using u32_add_unat [of ?e 112] e(2) by simp
  then have x: "int (unat (?e + 112)) - 127 + 15 = int (unat ?e)" by simp
  have o: "(of_int (int (unat ?e)) :: u32) = ?e" by simp
  have n: "\<not> int (unat ?e) \<le> 0" "\<not> 31 \<le> int (unat ?e)" using e by linarith+
  have "float_to_fp16 (fp16_to_float h) = ucast (ucast h :: u32)"
    unfolding float_to_fp16_def Let_def f x if_not_P [OF n(1)] if_not_P [OF n(2)] o half_fields(1) ..
  also have "\<dots> = h" by (rule bit_word_eqI) (auto simp: bit_simps)
  finally show ?thesis .
qed

section \<open>Rows, element by element\<close>

text \<open>What a row becomes when it is quantized and read back: the reference, one element at a time.\<close>

definition q8_reference :: "float_ops \<Rightarrow> quant_ops \<Rightarrow> f32 list \<Rightarrow> nat \<Rightarrow> f32" where
  "q8_reference F Q src n =
    (let d = fo_div F (block_amax F Q src (n div 32)) 0x42FE0000
     in fo_mul F (qo_of_int Q (clamp (-127) 127 (qo_round Q (fo_mul F (src ! n) (inverse_scale F d)))))
          (fp16_to_float (float_to_fp16 d)))"

definition q4_reference :: "float_ops \<Rightarrow> quant_ops \<Rightarrow> f32 list \<Rightarrow> nat \<Rightarrow> f32" where
  "q4_reference F Q src n =
    (let d = fo_div F (block_amax F Q src (n div 32)) 0xC1000000
     in fo_mul F (qo_of_int Q (clamp 0 15 (qo_trunc Q (fo_add F (fo_mul F (src ! n) (inverse_scale F d)) 0x41080000)) - 8))
          (fp16_to_float (float_to_fp16 d)))"

lemma elem_nat: "i * 32 + j < 4294967296 \<Longrightarrow> elem i j = i * 32 + j"
  unfolding elem_def using unat_of_nat_u32 [of "i * 32 + j"] by simp

lemma clamp_bounds: "lo \<le> hi \<Longrightarrow> lo \<le> clamp lo hi v \<and> clamp lo hi v \<le> hi"
  by (simp add: clamp_def)

lemma signed_byte: "- 127 \<le> v \<Longrightarrow> v \<le> 127 \<Longrightarrow> sint (of_int v :: 8 word) = v"
  by (simp add: signed_of_int signed_take_bit_int_eq_self)

lemma nibbles:
  assumes "0 \<le> v" "v \<le> 15" "0 \<le> w" "w \<le> 15"
  shows "int (unat ((of_int v OR push_bit 4 (of_int w) :: u8) AND 0x0F)) = v"
    and "int (unat (drop_bit 4 (of_int v OR push_bit 4 (of_int w) :: u8))) = w"
proof -
  have u: "int (unat (of_int z :: u8)) = z" if "0 \<le> z" "z \<le> 15" for z
    using that by (simp add: unsigned_of_int take_bit_int_eq_self)
  have small: "bit (of_int z :: u8) n \<Longrightarrow> n < 4" if "0 \<le> z" "z \<le> 15" for z n
  proof -
    have "int (unat (of_int z :: u8)) < int (2 ^ 4)" unfolding u [OF that] using that(2) by simp
    then have "unat (of_int z :: u8) < 2 ^ 4" by (simp only: of_nat_less_iff)
    then show "bit (of_int z :: u8) n \<Longrightarrow> n < 4" by (rule bit_below)
  qed
  define a b where "a = (of_int v :: u8)" and "b = (of_int w :: u8)"
  have ab: "bit a n \<Longrightarrow> n < 4" "bit b n \<Longrightarrow> n < 4" for n
    using small assms unfolding a_def b_def by blast+
  have m: "(0x0F :: u8) = mask 4" by (simp add: mask_eq_exp_minus_1)
  have "(a OR push_bit 4 b) AND 0x0F = a"
    unfolding m by (rule bit_word_eqI) (auto simp: bit_simps dest: ab)
  moreover have "drop_bit 4 (a OR push_bit 4 b) = b"
    by (rule bit_word_eqI) (auto simp: bit_simps dest: ab)
  ultimately show "int (unat ((of_int v OR push_bit 4 (of_int w) :: u8) AND 0x0F)) = v"
    "int (unat (drop_bit 4 (of_int v OR push_bit 4 (of_int w) :: u8))) = w"
    using u assms by (simp_all only: a_def [symmetric] b_def [symmetric]) (simp_all add: a_def b_def)
qed

lemma block_stores:
  assumes "n \<le> 32" "i * 32 + 32 \<le> length dst" "i * 32 + 32 \<le> 4294967296"
  shows "fold (\<lambda>j out. out[elem i j := g j]) [0..<n] dst ! m =
    (if i * 32 \<le> m \<and> m < i * 32 + n then g (m - i * 32) else dst ! m)"
  using assms(1)
proof (induction n)
  case (Suc n)
  let ?out = "fold (\<lambda>j out. out[elem i j := g j]) [0..<n] dst"
  have e: "elem i n = i * 32 + n" using Suc.prems assms(3) by (intro elem_nat) linarith
  have l: "i * 32 + n < length ?out" using Suc.prems assms(2) by simp
  show ?case
    using Suc.IH Suc.prems l by (cases "m = i * 32 + n") (auto simp: e)
qed auto

lemma pair_stores:
  assumes "n \<le> 16" "i * 32 + 32 \<le> length dst" "i * 32 + 32 \<le> 4294967296"
  shows "fold (\<lambda>j out. out[elem i j := g j, elem i (j + 16) := h j]) [0..<n] dst ! m =
      (if i * 32 \<le> m \<and> m < i * 32 + n then g (m - i * 32)
       else if i * 32 + 16 \<le> m \<and> m < i * 32 + 16 + n then h (m - (i * 32 + 16)) else dst ! m) \<and>
    length (fold (\<lambda>j out. out[elem i j := g j, elem i (j + 16) := h j]) [0..<n] dst) = length dst"
  using assms(1)
proof (induction n)
  case (Suc n)
  let ?out = "fold (\<lambda>j out. out[elem i j := g j, elem i (j + 16) := h j]) [0..<n] dst"
  have e: "elem i n = i * 32 + n" "elem i (n + 16) = i * 32 + n + 16"
    using Suc.prems assms(3) elem_nat [of i n] elem_nat [of i "n + 16"] by auto
  have l: "i * 32 + n + 16 < length ?out" using Suc assms(2) by simp
  show ?case
    using Suc.IH Suc.prems l
    by (cases "m = i * 32 + n"; cases "m = i * 32 + n + 16") (auto simp: e)
qed auto

lemma block_stores_length: "length (fold (\<lambda>j out. out[ix j := g j]) js dst) = length dst"
  by (induction js arbitrary: dst) simp_all

lemma index_stores: "n \<le> length dst \<Longrightarrow> i < n \<Longrightarrow> fold (\<lambda>i out. out[i := g i]) [0..<n] dst ! i = g i"
proof (induction n)
  case (Suc n)
  then show ?case by (cases "i = n") (simp_all add: block_stores_length)
qed simp

text \<open>Blocks that each write their own 32 elements write the row.\<close>

lemma row_stores:
  assumes "\<And>i out. i < nb \<Longrightarrow> length out = length dst \<Longrightarrow>
      length (B i out) = length dst \<and>
      (\<forall>m. B i out ! m = (if i * 32 \<le> m \<and> m < i * 32 + 32 then r m else out ! m))"
  shows "length (fold B [0..<nb] dst) = length dst \<and>
    (\<forall>m. fold B [0..<nb] dst ! m = (if m < nb * 32 then r m else dst ! m))"
  using assms
proof (induction nb)
  case (Suc nb)
  have IH: "length (fold B [0..<nb] dst) = length dst"
    "\<And>m. fold B [0..<nb] dst ! m = (if m < nb * 32 then r m else dst ! m)"
    using Suc.IH Suc.prems by (simp_all add: less_SucI)
  show ?case
    using Suc.prems [OF lessI IH(1)] IH by (auto simp del: add_Suc_right)
qed simp

lemma block_count_exact: "unat k < 4294967296 \<Longrightarrow> block_count k = unat k div 32"
  by (simp add: block_count_def unsigned_ucast_eq take_bit_nat_eq_self_iff unat_div)

lemma block_position: "i * 32 \<le> m \<Longrightarrow> m < i * 32 + 32 \<Longrightarrow> m div 32 = i \<and> i * 32 + (m - i * 32) = (m :: nat)"
  by (metis add.commute le_add_diff_inverse2 div_nat_eqI mult_Suc mult.commute)

lemma q8_block:
  assumes "i * 32 + 32 \<le> length dst" "i * 32 + 32 \<le> 4294967296" "blocks ! i = quantize_block_q8_0 F Q src i"
  shows "length (dequantize_block_q8_0 F Q blocks i dst) = length dst"
    and "dequantize_block_q8_0 F Q blocks i dst ! m =
      (if i * 32 \<le> m \<and> m < i * 32 + 32 then q8_reference F Q src m else dst ! m)"
proof -
  show "length (dequantize_block_q8_0 F Q blocks i dst) = length dst"
    unfolding dequantize_block_q8_0_def by (rule block_stores_length)
  have v: "sint (of_int (clamp (-127) 127 x) :: 8 word) = clamp (-127) 127 x" for x
    by (intro signed_byte) (use clamp_bounds [of "-127" 127] in simp_all)
  have g: "fo_mul F (qo_of_int Q (sint (q8_qs (blocks ! i) ! (m - i * 32)))) (fp16_to_float (q8_d (blocks ! i))) = q8_reference F Q src m"
    if m: "i * 32 \<le> m" "m < i * 32 + 32"
  proof -
    have e: "elem i (m - i * 32) = m" using elem_nat [of i "m - i * 32"] m assms(2) by simp
    have j: "[0..<32] ! (m - i * 32) = m - i * 32" "m - i * 32 < length [0..<32]" using m by simp_all
    show ?thesis
      unfolding assms(3) quantize_block_q8_0_def Let_def BlockQ8_0.simps nth_map [OF j(2)] j(1) v e
        q8_reference_def conjunct1 [OF block_position [OF m]] ..
  qed
  show "dequantize_block_q8_0 F Q blocks i dst ! m =
      (if i * 32 \<le> m \<and> m < i * 32 + 32 then q8_reference F Q src m else dst ! m)"
    unfolding dequantize_block_q8_0_def block_stores [OF order_refl assms(1,2)] using g by simp
qed

lemma q4_block:
  assumes "i * 32 + 32 \<le> length dst" "i * 32 + 32 \<le> 4294967296" "blocks ! i = quantize_block_q4_0 F Q src i"
  shows "length (dequantize_block_q4_0 F Q blocks i dst) = length dst"
    and "dequantize_block_q4_0 F Q blocks i dst ! m =
      (if i * 32 \<le> m \<and> m < i * 32 + 32 then q4_reference F Q src m else dst ! m)"
proof -
  note p = pair_stores [OF order_refl assms(1,2)]
  show "length (dequantize_block_q4_0 F Q blocks i dst) = length dst"
    unfolding dequantize_block_q4_0_def Let_def by (rule conjunct2 [OF p])
  have b: "0 \<le> clamp 0 15 x" "clamp 0 15 x \<le> 15" for x using clamp_bounds [of 0 15] by simp_all
  note v = nibbles [OF b b]
  have j: "[0..<16] ! j = j" "j < length [0..<16]" if "j < 16" for j using that by simp_all
  have lo: "fo_mul F (qo_of_int Q (int (unat (q4_qs (blocks ! i) ! (m - i * 32) AND 0x0F)) - 8)) (fp16_to_float (q4_d (blocks ! i))) =
      q4_reference F Q src m" if m: "i * 32 \<le> m" "m < i * 32 + 16"
  proof -
    have e: "elem i (m - i * 32) = m" using elem_nat [of i "m - i * 32"] m assms(2) by simp
    have k: "m - i * 32 < 16" "m < i * 32 + 32" using m by linarith+
    show ?thesis
      unfolding assms(3) quantize_block_q4_0_def Let_def BlockQ4_0.simps nth_map [OF j(2) [OF k(1)]] j(1) [OF k(1)] v e
        q4_reference_def conjunct1 [OF block_position [OF m(1) k(2)]] ..
  qed
  have hi: "fo_mul F (qo_of_int Q (int (unat (drop_bit 4 (q4_qs (blocks ! i) ! (m - (i * 32 + 16))))) - 8)) (fp16_to_float (q4_d (blocks ! i))) =
      q4_reference F Q src m" if m: "i * 32 + 16 \<le> m" "m < i * 32 + 32"
  proof -
    have e: "elem i (m - (i * 32 + 16) + 16) = m" using elem_nat [of i "m - (i * 32 + 16) + 16"] m assms(2) by simp
    have k: "m - (i * 32 + 16) < 16" "i * 32 \<le> m" using m by linarith+
    show ?thesis
      unfolding assms(3) quantize_block_q4_0_def Let_def BlockQ4_0.simps nth_map [OF j(2) [OF k(1)]] j(1) [OF k(1)] v e
        q4_reference_def conjunct1 [OF block_position [OF k(2) m(2)]] ..
  qed
  show "dequantize_block_q4_0 F Q blocks i dst ! m =
      (if i * 32 \<le> m \<and> m < i * 32 + 32 then q4_reference F Q src m else dst ! m)"
    unfolding dequantize_block_q4_0_def Let_def conjunct1 [OF p] using lo hi by auto
qed

lemma block_room:
  assumes "unat (k :: u64) < 4294967296" "i < block_count k" "unat k \<le> n"
  shows "i * 32 + 32 \<le> n" "i * 32 + 32 \<le> 4294967296"
proof -
  have "i + 1 \<le> unat k div 32" using assms block_count_exact by simp
  then have "(i + 1) * 32 \<le> unat k div 32 * 32" by (rule mult_le_mono1)
  also have "\<dots> \<le> unat k" by (rule div_times_less_eq_dividend)
  finally show "i * 32 + 32 \<le> n" "i * 32 + 32 \<le> 4294967296" using assms by simp_all
qed

text \<open>
  C32. Quantizing a row and reading it back gives, for Q8_0 as for Q4_0, each element of the whole
  blocks as the reference computes it on its own: the block scale through the half format, the
  rounded and clamped level of that element, nothing of its neighbours in the packed byte and
  nothing past the blocks. Rows of fewer than \<open>2^32\<close> elements, which is where the 32-bit
  element index is exact.
\<close>

theorem quant_elementwise:
  assumes "unat (k :: u64) < 4294967296" "unat k \<le> length out"
    and "block_count k \<le> length b8" "block_count k \<le> length b4"
  shows "dequantize_row_q8_0 F Q (quantize_row_q8_0 F Q src b8 k) out k ! n =
        (if n < block_count k * 32 then q8_reference F Q src n else out ! n) \<and>
      dequantize_row_q4_0 F Q (quantize_row_q4_0 F Q src b4 k) out k ! n =
        (if n < block_count k * 32 then q4_reference F Q src n else out ! n)"
proof -
  note room = block_room [OF assms(1) _ assms(2)]
  have q8: "length (dequantize_block_q8_0 F Q (quantize_row_q8_0 F Q src b8 k) i o1) = length out \<and>
      (\<forall>m. dequantize_block_q8_0 F Q (quantize_row_q8_0 F Q src b8 k) i o1 ! m =
        (if i * 32 \<le> m \<and> m < i * 32 + 32 then q8_reference F Q src m else o1 ! m))"
    if i: "i < block_count k" "length o1 = length out" for i o1
    using q8_block [of i o1 "quantize_row_q8_0 F Q src b8 k"] room [OF i(1)] index_stores [OF assms(3) i(1)] i(2)
    by (simp add: quantize_row_q8_0_def)
  have q4: "length (dequantize_block_q4_0 F Q (quantize_row_q4_0 F Q src b4 k) i o1) = length out \<and>
      (\<forall>m. dequantize_block_q4_0 F Q (quantize_row_q4_0 F Q src b4 k) i o1 ! m =
        (if i * 32 \<le> m \<and> m < i * 32 + 32 then q4_reference F Q src m else o1 ! m))"
    if i: "i < block_count k" "length o1 = length out" for i o1
    using q4_block [of i o1 "quantize_row_q4_0 F Q src b4 k"] room [OF i(1)] index_stores [OF assms(4) i(1)] i(2)
    by (simp add: quantize_row_q4_0_def)
  show ?thesis
    unfolding dequantize_row_q8_0_def dequantize_row_q4_0_def
    using row_stores [OF q8] row_stores [OF q4] by simp
qed

definition level_ops :: float_ops where
  "level_ops = toy_floats \<lparr> fo_add := \<lambda>a _. a, fo_mul := \<lambda>a _. a, fo_div := \<lambda>_ _. f32_one \<rparr>"

definition level_quant :: quant_ops where
  "level_quant = \<lparr> qo_abs = id, qo_round = (\<lambda>w. int (unat w)), qo_trunc = (\<lambda>w. int (unat w)), qo_of_int = of_int \<rparr>"

theorem quant_elementwise_witness:
  "dequantize_row_q8_0 level_ops level_quant
      (quantize_row_q8_0 level_ops level_quant (replicate 40 200) [\<lparr> q8_d = 0, q8_qs = [] \<rparr>] 40) (replicate 40 7) 40 ! 3 = 127 \<and>
   dequantize_row_q4_0 level_ops level_quant
      (quantize_row_q4_0 level_ops level_quant (replicate 40 200) [\<lparr> q4_d = 0, q4_qs = [] \<rparr>] 40) (replicate 40 7) 40 ! 3 = 7"
proof -
  have b: "block_count 40 = 1" using block_count_exact [of 40] by simp
  have r: "q8_reference level_ops level_quant (replicate 40 200) 3 = 127"
    "q4_reference level_ops level_quant (replicate 40 200) 3 = 7"
    by (simp_all add: q8_reference_def q4_reference_def level_ops_def level_quant_def clamp_def)
  show ?thesis
    using quant_elementwise [of 40 "replicate 40 7" "[\<lparr> q8_d = 0, q8_qs = [] \<rparr>]" "[\<lparr> q4_d = 0, q4_qs = [] \<rparr>]"
        level_ops level_quant "replicate 40 200" 3] unfolding b r by simp
qed

end
