(* ===== verification/GpuDevice.thy ===== *)
theory GpuDevice
  imports DxPrelude
begin

text \<open>
  The native device layer: \<open>src/dxadapter/dxadapter.cpp\<close> and \<open>src/dxruntime/dxruntime.cpp\<close> (adapters,
  their classification and capabilities, device creation, process configuration, the watchdog
  guard), \<open>src/dxmem/dxmem.cpp\<close> (buffers), \<open>src/dxqueue/dxqueue.cpp\<close> and \<open>src/dxsched/dxsched.cpp\<close>
  (queues, fences, the scheduler over two queues), \<open>src/dxbarrier/dxbarrier.cpp\<close>.

  DXGI, the loader and the driver are the environment: an adapter is a record of what they answer
  for it. A queue with the fence it signals is a \<open>timeline\<close>: the commands the device has not
  executed yet, the memory the executed ones produced and the completed value of the fence.
\<close>

section \<open>Adapters\<close>

datatype ArchitectureFamily =
  Unknown | AMD_RDNA2 | AMD_RDNA3 | AMD_RDNA4 | NVIDIA_Ampere_Ada_Blackwell | Intel_Arc_Xe

definition is_rdna2 :: "u32 \<Rightarrow> u32 \<Rightarrow> bool" where
  "is_rdna2 vendor_id device_id =
    (if vendor_id \<noteq> 0x1002 then False else device_id \<ge> 0x73A0 \<and> device_id \<le> 0x73DF)"

definition classify_gpu_architecture :: "u32 \<Rightarrow> u32 \<Rightarrow> ArchitectureFamily" where
  "classify_gpu_architecture vendor_id device_id =
    (if vendor_id = 0x10DE then NVIDIA_Ampere_Ada_Blackwell
     else if vendor_id = 0x8086 then Intel_Arc_Xe
     else if vendor_id \<noteq> 0x1002 then Unknown
     else if device_id \<ge> 0x73A0 \<and> device_id \<le> 0x73DF then AMD_RDNA2
     else if device_id \<ge> 0x7400 \<and> device_id \<le> 0x74BF then AMD_RDNA3
     else if device_id \<ge> 0x74C0 then AMD_RDNA4
     else Unknown)"

record adapter_desc =
  ad_name :: string
  ad_vendor_id :: u32
  ad_device_id :: u32
  ad_dedicated_video_memory :: u64
  ad_shared_system_memory :: u64
  ad_flags :: u32

datatype entry_point = System_D3D12 | Agility_D3D12

text \<open>
  What the environment answers for one adapter: its description, which of the two libraries load,
  whether device creation succeeds through an entry point and through the linked function, and the
  two feature queries.
\<close>

record adapter =
  ax_desc :: "adapter_desc option"
  ax_system_dll :: bool
  ax_agility_dll :: bool
  ax_create :: "entry_point \<Rightarrow> bool"
  ax_linked_create :: bool
  ax_options1 :: "(bool \<times> u32 \<times> u32) option"
  ax_shader_model :: "u32 option"

text \<open>The function-static pointers of \<open>load_d3d12_create\<close>.\<close>

record entry_cache =
  ec_sys :: "entry_point option"
  ec_ag :: "entry_point option"

definition no_entries :: entry_cache where
  "no_entries = \<lparr> ec_sys = None, ec_ag = None \<rparr>"

definition load_d3d12_create :: "adapter \<Rightarrow> u32 \<Rightarrow> u32 \<Rightarrow> entry_cache \<Rightarrow> entry_point option \<times> entry_cache" where
  "load_d3d12_create a vendor_id device_id c =
    (let c1 = (if ec_sys c = None \<and> ax_system_dll a then c\<lparr>ec_sys := Some System_D3D12\<rparr> else c)
     in if is_rdna2 vendor_id device_id then (ec_sys c1, c1)
        else let c2 = (if ec_ag c1 = None \<and> ax_agility_dll a then c1\<lparr>ec_ag := Some Agility_D3D12\<rparr> else c1)
             in (if ec_ag c2 \<noteq> None then ec_ag c2 else ec_sys c2, c2))"

text \<open>\<open>system_d3d12_create_device\<close> keeps a pointer of its own.\<close>

definition system_d3d12_create_device :: "adapter \<Rightarrow> entry_point option \<Rightarrow> bool \<times> entry_point option" where
  "system_d3d12_create_device a fn =
    (let fn1 = (if fn = None \<and> ax_system_dll a then Some System_D3D12 else fn)
     in (case fn1 of None \<Rightarrow> False | Some f \<Rightarrow> ax_create a f, fn1))"

definition arch_conditional_create_device :: "adapter \<Rightarrow> entry_cache \<Rightarrow> bool \<times> entry_cache" where
  "arch_conditional_create_device a c =
    (case ax_desc a of
       None \<Rightarrow> (False, c)
     | Some desc \<Rightarrow>
         let (fn, c1) = load_d3d12_create a (ad_vendor_id desc) (ad_device_id desc) c
         in (case fn of None \<Rightarrow> False | Some f \<Rightarrow> ax_create a f, c1))"

record AdapterCaps =
  cp_name :: string
  cp_vendor_id :: u32
  cp_device_id :: u32
  cp_dedicated_video_memory :: u64
  cp_shared_system_memory :: u64
  cp_feature_level :: u32
  cp_shader_model :: u32
  cp_wave_min :: u32
  cp_wave_max :: u32
  cp_wave_ops :: bool
  cp_fp16 :: bool
  cp_int8 :: bool
  cp_wmma_supported :: bool
  cp_dot4_supported :: bool
  cp_enhanced_barriers :: bool
  cp_work_graphs :: bool
  cp_direct_storage :: bool
  cp_ray_tracing :: bool
  cp_mesh_shaders :: bool
  cp_vrs_tier2 :: bool
  cp_arch_family :: ArchitectureFamily
  cp_preferred_wave_size :: u32

definition default_caps :: AdapterCaps where
  "default_caps = \<lparr> cp_name = [], cp_vendor_id = 0, cp_device_id = 0, cp_dedicated_video_memory = 0,
     cp_shared_system_memory = 0, cp_feature_level = 0xB000, cp_shader_model = 0x60, cp_wave_min = 0, cp_wave_max = 0,
     cp_wave_ops = False, cp_fp16 = False, cp_int8 = False, cp_wmma_supported = False, cp_dot4_supported = False,
     cp_enhanced_barriers = False, cp_work_graphs = False, cp_direct_storage = True, cp_ray_tracing = False,
     cp_mesh_shaders = False, cp_vrs_tier2 = False, cp_arch_family = Unknown, cp_preferred_wave_size = 32 \<rparr>"

definition zero_desc :: adapter_desc where
  "zero_desc = \<lparr> ad_name = [], ad_vendor_id = 0, ad_device_id = 0, ad_dedicated_video_memory = 0,
     ad_shared_system_memory = 0, ad_flags = 0 \<rparr>"

text \<open>The tail of both \<open>Adapter::enumerate\<close> and the constructor of \<open>Device\<close>.\<close>

definition query_options1 :: "adapter \<Rightarrow> AdapterCaps \<Rightarrow> AdapterCaps" where
  "query_options1 a caps =
    (case ax_options1 a of
       None \<Rightarrow> caps
     | Some (ops, lo, hi) \<Rightarrow> caps\<lparr>cp_wave_ops := ops, cp_wave_min := lo, cp_wave_max := hi\<rparr>)"

definition query_shader_model :: "adapter \<Rightarrow> AdapterCaps \<Rightarrow> AdapterCaps" where
  "query_shader_model a caps = caps\<lparr>cp_shader_model := (case ax_shader_model a of None \<Rightarrow> 0x60 | Some m \<Rightarrow> m)\<rparr>"

definition select_waves :: "AdapterCaps \<Rightarrow> AdapterCaps" where
  "select_waves caps0 =
    (let caps = caps0\<lparr>cp_arch_family := classify_gpu_architecture (cp_vendor_id caps0) (cp_device_id caps0)\<rparr>
     in case cp_arch_family caps of
          AMD_RDNA2 \<Rightarrow> caps\<lparr>cp_preferred_wave_size := 64, cp_dot4_supported := True, cp_wmma_supported := False\<rparr>
        | AMD_RDNA3 \<Rightarrow> caps\<lparr>cp_preferred_wave_size := 32, cp_dot4_supported := True, cp_wmma_supported := True\<rparr>
        | AMD_RDNA4 \<Rightarrow> caps\<lparr>cp_preferred_wave_size := 32, cp_dot4_supported := True, cp_wmma_supported := True\<rparr>
        | _ \<Rightarrow> caps\<lparr>cp_preferred_wave_size := (if cp_wave_min caps \<le> 32 \<and> cp_wave_max caps \<ge> 64 then 64 else 32),
                   cp_dot4_supported := cp_wave_ops caps, cp_wmma_supported := False\<rparr>)"

definition describe :: "adapter_desc \<Rightarrow> AdapterCaps \<Rightarrow> AdapterCaps" where
  "describe desc caps = caps\<lparr>cp_name := ad_name desc, cp_vendor_id := ad_vendor_id desc, cp_device_id := ad_device_id desc,
     cp_dedicated_video_memory := ad_dedicated_video_memory desc, cp_shared_system_memory := ad_shared_system_memory desc\<rparr>"

text \<open>\<open>Adapter::enumerate\<close> over the adapters of the factory (\<open>None\<close>: the factory cannot be created).\<close>

fun enumerate_from :: "adapter list \<Rightarrow> AdapterCaps list \<Rightarrow> entry_cache \<Rightarrow> AdapterCaps list \<times> entry_cache" where
  "enumerate_from [] caps_list c = (caps_list, c)"
| "enumerate_from (a # as) caps_list c =
    (case ax_desc a of
       None \<Rightarrow> enumerate_from as caps_list c
     | Some desc \<Rightarrow>
         if ad_flags desc AND 2 \<noteq> 0 then enumerate_from as caps_list c
         else let (ok, c1) = arch_conditional_create_device a c
              in if \<not> ok then enumerate_from as caps_list c1
                 else enumerate_from as
                   (caps_list @ [select_waves (query_shader_model a (query_options1 a (describe desc default_caps)))]) c1)"

definition enumerate :: "adapter list option \<Rightarrow> entry_cache \<Rightarrow> AdapterCaps list \<times> entry_cache" where
  "enumerate factory c = (case factory of None \<Rightarrow> ([], c) | Some as \<Rightarrow> enumerate_from as [] c)"

text \<open>The constructor of \<open>Device\<close>: the exception's text or the capabilities.\<close>

definition new_Device :: "adapter \<Rightarrow> entry_cache \<Rightarrow> (string + AdapterCaps) \<times> entry_cache" where
  "new_Device a c =
    (let (created, c1) = arch_conditional_create_device a c;
         created1 = (if \<not> created then ax_linked_create a else created);
         desc = (case ax_desc a of None \<Rightarrow> zero_desc | Some d \<Rightarrow> d)
     in if \<not> created1 then (Inl ''D3D12CreateDevice failed'', c1)
        else (Inr (select_waves (query_shader_model a (query_options1 a (describe desc default_caps)))), c1))"

definition create_device :: "adapter list option \<Rightarrow> u32 \<Rightarrow> entry_cache \<Rightarrow> (string + AdapterCaps) option \<times> entry_cache" where
  "create_device factory index c =
    (case factory of
       None \<Rightarrow> (None, c)
     | Some as \<Rightarrow>
         if unat index \<ge> length as then (None, c)
         else let (d, c1) = new_Device (as ! unat index) c in (Some d, c1))"

section \<open>Process configuration and the watchdog\<close>

record 'd ConfigState =
  cf_chunk_size_bytes :: u64
  cf_vram_margin_ratio :: 'd
  cf_async_prefetch_enabled :: bool

definition default_config :: "'d \<Rightarrow> 'd ConfigState" where
  "default_config ratio = \<lparr> cf_chunk_size_bytes = 1024 * 1024, cf_vram_margin_ratio = ratio, cf_async_prefetch_enabled = True \<rparr>"

text \<open>\<open>is_device_removed\<close>: no device, or the reason the device reports (\<open>None\<close>: none).\<close>

definition is_device_removed :: "int option option \<Rightarrow> bool" where
  "is_device_removed device = (case device of None \<Rightarrow> True | Some None \<Rightarrow> False | Some (Some hr) \<Rightarrow> hr < 0)"

section \<open>Buffers\<close>

text \<open>
  The enumerators of \<open>MemLocation\<close> are numbers: the first three are Direct3D's heap types
  \<open>DEFAULT\<close> 1, \<open>UPLOAD\<close> 2 and \<open>READBACK\<close> 3, and \<open>ReBAR\<close> is written as 3.
\<close>

type_synonym MemLocation = int

abbreviation (input) Loc_Default :: MemLocation where "Loc_Default \<equiv> 1"
abbreviation (input) Loc_Upload :: MemLocation where "Loc_Upload \<equiv> 2"
abbreviation (input) Loc_Readback :: MemLocation where "Loc_Readback \<equiv> 3"
abbreviation (input) Loc_ReBAR :: MemLocation where "Loc_ReBAR \<equiv> 3"

datatype cpu_page = Page_Unknown | Page_Write_Combine
datatype memory_pool = Pool_Unknown | Pool_L1
datatype resource_state = State_Common | State_Generic_Read | State_Copy_Dest

record Buffer =
  bu_size :: u64
  bu_location :: MemLocation
  bu_heap_type :: int
  bu_cpu_page :: cpu_page
  bu_pool :: memory_pool
  bu_state :: resource_state
  bu_bytes :: "u8 list"

definition new_Buffer :: "bool \<Rightarrow> u64 \<Rightarrow> MemLocation \<Rightarrow> string + Buffer" where
  "new_Buffer ok n loc =
    (let (heap, page, pool) =
           (if loc = Loc_ReBAR then (4, Page_Write_Combine, Pool_L1) else (loc, Page_Unknown, Pool_Unknown));
         state = (if loc = Loc_Upload \<or> loc = Loc_ReBAR then State_Generic_Read
                  else if loc = Loc_Readback then State_Copy_Dest else State_Common)
     in if \<not> ok then Inl ''CreateCommittedResource failed''
        else Inr \<lparr> bu_size = n, bu_location = loc, bu_heap_type = heap, bu_cpu_page = page, bu_pool = pool,
                  bu_state = state, bu_bytes = replicate (unat n) 0 \<rparr>)"

section \<open>Queues and fences\<close>

text \<open>A fence is a number, with the value it has completed; a queue may signal several.\<close>

datatype 'w gpu_op = Work 'w | Signal nat u64

record ('w, 'm) timeline =
  tl_pending :: "'w gpu_op list"
  tl_memory :: 'm
  tl_completed :: "nat \<Rightarrow> u64"

definition queue_execute :: "'w \<Rightarrow> ('w, 'm) timeline \<Rightarrow> ('w, 'm) timeline" where
  "queue_execute w t = t\<lparr>tl_pending := tl_pending t @ [Work w]\<rparr>"

definition queue_signal :: "nat \<Rightarrow> u64 \<Rightarrow> ('w, 'm) timeline \<Rightarrow> ('w, 'm) timeline" where
  "queue_signal f v t = t\<lparr>tl_pending := tl_pending t @ [Signal f v]\<rparr>"

definition create_fence :: "nat \<Rightarrow> u64 \<Rightarrow> ('w, 'm) timeline \<Rightarrow> ('w, 'm) timeline" where
  "create_fence f v t = t\<lparr>tl_completed := (tl_completed t)(f := v)\<rparr>"

text \<open>The device takes the next command.\<close>

definition gpu_step :: "('w \<Rightarrow> 'm \<Rightarrow> 'm) \<Rightarrow> ('w, 'm) timeline \<Rightarrow> ('w, 'm) timeline" where
  "gpu_step exec t =
    (case tl_pending t of
       [] \<Rightarrow> t
     | Work w # ops \<Rightarrow> t\<lparr>tl_pending := ops, tl_memory := exec w (tl_memory t)\<rparr>
     | Signal f v # ops \<Rightarrow> t\<lparr>tl_pending := ops, tl_completed := (tl_completed t)(f := v)\<rparr>)"

definition is_completed :: "nat \<Rightarrow> u64 \<Rightarrow> ('w, 'm) timeline \<Rightarrow> bool" where
  "is_completed f v t \<longleftrightarrow> tl_completed t f \<ge> v"

text \<open>
  \<open>Fence::wait\<close> returns when the device has got as far as the value; \<open>None\<close> when nothing that is
  queued signals it, so that the call never returns.
\<close>

function fence_wait :: "('w \<Rightarrow> 'm \<Rightarrow> 'm) \<Rightarrow> nat \<Rightarrow> u64 \<Rightarrow> ('w, 'm) timeline \<Rightarrow> ('w, 'm) timeline option" where
  "fence_wait exec f v t =
    (if \<not> tl_completed t f < v then Some t
     else if tl_pending t = [] then None
     else fence_wait exec f v (gpu_step exec t))"
  by pat_completeness auto
termination
  by (relation "measure (\<lambda>(_, _, _, t). length (tl_pending t))")
    (auto simp: gpu_step_def neq_Nil_conv split: gpu_op.splits)

declare fence_wait.simps [simp del]

text \<open>
  \<open>TDRGuard::yield_gpu_breather\<close> waits for half a second at most: \<open>steps\<close> commands get done in it.
\<close>

definition yield_gpu_breather ::
  "('w \<Rightarrow> 'm \<Rightarrow> 'm) \<Rightarrow> nat \<Rightarrow> ('w, 'm) timeline option \<Rightarrow> nat option \<Rightarrow> u64 \<Rightarrow> ('w, 'm) timeline option \<times> u64" where
  "yield_gpu_breather exec steps q fence fence_val =
    (case (q, fence) of
       (Some t, Some f) \<Rightarrow>
         let v = fence_val + 1; t1 = queue_signal f v t
         in if is_completed f v t1 then (Some t1, v) else (Some ((gpu_step exec ^^ steps) t1), v)
     | _ \<Rightarrow> (q, fence_val))"

section \<open>The scheduler\<close>

text \<open>Work is a number; what the device executed is recorded in order.\<close>

type_synonym work_timeline = "(nat, nat list) timeline"

text \<open>Each of the two queues signals one fence, number 0 on its timeline.\<close>

abbreviation (input) record_work :: "nat \<Rightarrow> nat list \<Rightarrow> nat list" where
  "record_work \<equiv> \<lambda>w done. done @ [w]"

record MultiQueueScheduler =
  mq_direct :: work_timeline
  mq_compute :: work_timeline
  mq_direct_val :: u64
  mq_compute_val :: u64

definition new_timeline :: "'m \<Rightarrow> ('w, 'm) timeline" where
  "new_timeline m = \<lparr> tl_pending = [], tl_memory = m, tl_completed = (\<lambda>_. 0) \<rparr>"

definition new_MultiQueueScheduler :: MultiQueueScheduler where
  "new_MultiQueueScheduler = \<lparr> mq_direct = new_timeline [], mq_compute = new_timeline [], mq_direct_val = 0, mq_compute_val = 0 \<rparr>"

definition submit_direct_work :: "nat \<Rightarrow> MultiQueueScheduler \<Rightarrow> MultiQueueScheduler" where
  "submit_direct_work l s =
    (let v = mq_direct_val s + 1
     in s\<lparr>mq_direct := queue_signal 0 v (queue_execute l (mq_direct s)), mq_direct_val := v\<rparr>)"

definition submit_compute_work :: "nat \<Rightarrow> MultiQueueScheduler \<Rightarrow> MultiQueueScheduler" where
  "submit_compute_work l s =
    (let v = mq_compute_val s + 1
     in s\<lparr>mq_compute := queue_signal 0 v (queue_execute l (mq_compute s)), mq_compute_val := v\<rparr>)"

definition wait_all :: "MultiQueueScheduler \<Rightarrow> MultiQueueScheduler option" where
  "wait_all s =
    (case (if mq_direct_val s > 0 then fence_wait record_work 0 (mq_direct_val s) (mq_direct s) else Some (mq_direct s)) of
       None \<Rightarrow> None
     | Some d \<Rightarrow>
         (case (if mq_compute_val s > 0 then fence_wait record_work 0 (mq_compute_val s) (mq_compute s) else Some (mq_compute s)) of
            None \<Rightarrow> None
          | Some c \<Rightarrow> Some (s\<lparr>mq_direct := d, mq_compute := c\<rparr>)))"

text \<open>Every way the two queues can run: submissions, commands the device takes, waits.\<close>

inductive sched_run :: "MultiQueueScheduler \<Rightarrow> nat list \<Rightarrow> nat list \<Rightarrow> bool" where
  Start: "sched_run new_MultiQueueScheduler [] []"
| Submit_Direct: "sched_run s ds cs \<Longrightarrow> sched_run (submit_direct_work w s) (ds @ [w]) cs"
| Submit_Compute: "sched_run s ds cs \<Longrightarrow> sched_run (submit_compute_work w s) ds (cs @ [w])"
| Direct_Runs: "sched_run s ds cs \<Longrightarrow> sched_run (s\<lparr>mq_direct := gpu_step record_work (mq_direct s)\<rparr>) ds cs"
| Compute_Runs: "sched_run s ds cs \<Longrightarrow> sched_run (s\<lparr>mq_compute := gpu_step record_work (mq_compute s)\<rparr>) ds cs"
| Wait: "sched_run s ds cs \<Longrightarrow> wait_all s = Some s' \<Longrightarrow> sched_run s' ds cs"

section \<open>Barriers\<close>

datatype resource_barrier = Transition nat u32 u32 u32 | UAV nat

type_synonym BarrierBatch = "resource_barrier list"

definition add_transition :: "nat \<Rightarrow> u32 \<Rightarrow> u32 \<Rightarrow> u32 \<Rightarrow> BarrierBatch \<Rightarrow> BarrierBatch" where
  "add_transition resource state_before state_after subresource bs =
    (if state_before = state_after then bs else bs @ [Transition resource state_before state_after subresource])"

definition add_uav :: "nat \<Rightarrow> BarrierBatch \<Rightarrow> BarrierBatch" where
  "add_uav resource bs = bs @ [UAV resource]"

text \<open>The command list is the list of its \<open>ResourceBarrier\<close> calls.\<close>

definition barrier_flush :: "BarrierBatch \<Rightarrow> resource_barrier list list \<Rightarrow> BarrierBatch \<times> resource_barrier list list" where
  "barrier_flush bs cmds = (if bs = [] then (bs, cmds) else ([], cmds @ [bs]))"

definition barrier_clear :: "BarrierBatch \<Rightarrow> BarrierBatch" where
  "barrier_clear bs = []"

section \<open>What enumeration lists, construction delivers\<close>

definition device_caps :: "adapter \<Rightarrow> AdapterCaps" where
  "device_caps a = select_waves (query_shader_model a (query_options1 a
     (describe (case ax_desc a of None \<Rightarrow> zero_desc | Some d \<Rightarrow> d) default_caps)))"

text \<open>The entry point for an adapter when the libraries' answers do not change.\<close>

definition entry_for :: "bool \<Rightarrow> bool \<Rightarrow> adapter_desc \<Rightarrow> entry_point option" where
  "entry_for sys ag d =
    (if ag \<and> \<not> is_rdna2 (ad_vendor_id d) (ad_device_id d) then Some Agility_D3D12
     else if sys then Some System_D3D12 else None)"

definition usable :: "bool \<Rightarrow> bool \<Rightarrow> adapter \<Rightarrow> bool" where
  "usable sys ag a =
    (case ax_desc a of
       None \<Rightarrow> False
     | Some d \<Rightarrow> (case entry_for sys ag d of None \<Rightarrow> False | Some f \<Rightarrow> ax_create a f))"

definition listed :: "bool \<Rightarrow> bool \<Rightarrow> adapter \<Rightarrow> bool" where
  "listed sys ag a \<longleftrightarrow> usable sys ag a \<and> (case ax_desc a of None \<Rightarrow> False | Some d \<Rightarrow> ad_flags d AND 2 = 0)"

definition cache_ok :: "bool \<Rightarrow> bool \<Rightarrow> entry_cache \<Rightarrow> bool" where
  "cache_ok sys ag c \<longleftrightarrow> (ec_sys c = None \<or> sys \<and> ec_sys c = Some System_D3D12) \<and>
    (ec_ag c = None \<or> ag \<and> ec_ag c = Some Agility_D3D12)"

lemma load_entry:
  assumes "ax_system_dll a = sys" "ax_agility_dll a = ag" "cache_ok sys ag c"
  shows "fst (load_d3d12_create a (ad_vendor_id d) (ad_device_id d) c) = entry_for sys ag d"
    and "cache_ok sys ag (snd (load_d3d12_create a (ad_vendor_id d) (ad_device_id d) c))"
  using assms by (auto simp: load_d3d12_create_def entry_for_def cache_ok_def Let_def)

lemma arch_create:
  assumes "ax_system_dll a = sys" "ax_agility_dll a = ag" "cache_ok sys ag c"
  shows "fst (arch_conditional_create_device a c) = usable sys ag a"
    and "cache_ok sys ag (snd (arch_conditional_create_device a c))"
proof -
  have "fst (arch_conditional_create_device a c) = usable sys ag a \<and> cache_ok sys ag (snd (arch_conditional_create_device a c))"
  proof (cases "ax_desc a")
    case (Some d)
    obtain fn c1 where l: "load_d3d12_create a (ad_vendor_id d) (ad_device_id d) c = (fn, c1)" by fastforce
    then show ?thesis using load_entry [OF assms, of d] by (simp add: arch_conditional_create_device_def usable_def Some)
  qed (use assms(3) in \<open>simp add: arch_conditional_create_device_def usable_def\<close>)
  then show "fst (arch_conditional_create_device a c) = usable sys ag a"
    "cache_ok sys ag (snd (arch_conditional_create_device a c))" by blast+
qed

lemma enumerate_from_listed:
  "\<forall>a \<in> set as. ax_system_dll a = sys \<and> ax_agility_dll a = ag \<Longrightarrow> cache_ok sys ag c \<Longrightarrow>
   fst (enumerate_from as acc c) = acc @ map device_caps (filter (listed sys ag) as)"
proof (induction as arbitrary: acc c)
  case (Cons a as)
  obtain ok c1 where r: "arch_conditional_create_device a c = (ok, c1)" by fastforce
  then have ok: "ok = usable sys ag a" "cache_ok sys ag c1" using arch_create [of a sys ag c] Cons.prems by simp_all
  show ?case
  proof (cases "ax_desc a")
    case None
    then show ?thesis using Cons by (simp add: listed_def)
  next
    case (Some d)
    then show ?thesis using Cons ok by (auto simp: r listed_def device_caps_def)
  qed
qed simp

text \<open>
  \<open>Adapter::enumerate\<close> lists, in order, exactly the adapters that are described, are not
  software rasterizers and can be opened through the entry point their architecture calls for
  (never the Agility runtime on RDNA2), each with the capabilities a \<open>Device\<close> constructed on that
  adapter has: the two copies of the query code agree. This holds for any state of the cached entry
  points that matches libraries whose presence does not change.
\<close>

theorem enumerate_matches_devices:
  assumes "\<forall>a \<in> set as. ax_system_dll a = sys \<and> ax_agility_dll a = ag" "cache_ok sys ag c"
  shows "fst (enumerate (Some as) c) = map device_caps (filter (listed sys ag) as) \<and>
    (\<forall>i :: u32. unat i < length as \<longrightarrow>
      fst (create_device (Some as) i c) =
        Some (if usable sys ag (as ! unat i) \<or> ax_linked_create (as ! unat i) then Inr (device_caps (as ! unat i))
              else Inl ''D3D12CreateDevice failed''))"
proof (intro conjI allI impI)
  show "fst (enumerate (Some as) c) = map device_caps (filter (listed sys ag) as)"
    using enumerate_from_listed [OF assms] by (simp add: enumerate_def)
next
  fix i :: u32
  assume i: "unat i < length as"
  let ?a = "as ! unat i"
  obtain ok c1 where r: "arch_conditional_create_device ?a c = (ok, c1)" by fastforce
  then have "ok = usable sys ag ?a" using arch_create [of ?a sys ag c] assms i by simp
  then show "fst (create_device (Some as) i c) =
      Some (if usable sys ag ?a \<or> ax_linked_create ?a then Inr (device_caps ?a) else Inl ''D3D12CreateDevice failed'')"
    using i by (simp add: create_device_def new_Device_def r device_caps_def Let_def)
qed

definition example_gpu :: "u32 \<Rightarrow> u32 \<Rightarrow> adapter" where
  "example_gpu device flags = \<lparr> ax_desc = Some (zero_desc\<lparr>ad_vendor_id := 0x1002, ad_device_id := device, ad_flags := flags\<rparr>),
     ax_system_dll = True, ax_agility_dll = True, ax_create = (\<lambda>_. True), ax_linked_create = True,
     ax_options1 = Some (True, 32, 64), ax_shader_model = None \<rparr>"

theorem enumerate_matches_devices_witness:
  "map cp_preferred_wave_size (fst (enumerate (Some [example_gpu 0x73BF 0, example_gpu 0x1 2, example_gpu 0x7550 0]) no_entries)) = [64, 32]"
proof -
  have "fst (enumerate (Some [example_gpu 0x73BF 0, example_gpu 0x1 2, example_gpu 0x7550 0]) no_entries) =
      map device_caps (filter (listed True True) [example_gpu 0x73BF 0, example_gpu 0x1 2, example_gpu 0x7550 0])"
    by (rule conjunct1 [OF enumerate_matches_devices]) (simp_all add: example_gpu_def cache_ok_def no_entries_def)
  then show ?thesis
    by (simp add: listed_def usable_def entry_for_def example_gpu_def is_rdna2_def device_caps_def select_waves_def
        query_shader_model_def query_options1_def describe_def default_caps_def zero_desc_def classify_gpu_architecture_def)
qed

text \<open>An index into the list is not an index for \<open>create_device\<close> once an adapter was skipped.\<close>

lemma enumerate_index_shifts:
  "map cp_device_id (fst (enumerate (Some [example_gpu 0x1 2, example_gpu 0x73BF 0]) no_entries)) = [0x73BF]"
  "map_option (map_sum id cp_device_id) (fst (create_device (Some [example_gpu 0x1 2, example_gpu 0x73BF 0]) 0 no_entries)) =
    Some (Inr 0x1)"
  by (simp_all add: enumerate_def create_device_def new_Device_def arch_conditional_create_device_def load_d3d12_create_def
      example_gpu_def no_entries_def is_rdna2_def select_waves_def query_shader_model_def query_options1_def describe_def
      default_caps_def zero_desc_def classify_gpu_architecture_def Let_def)

text \<open>The matrix path is taken exactly on AMD devices from RDNA3 on; the example the comment gives for RDNA4 is an RDNA3 here.\<close>

lemma wmma_exact:
  "cp_wmma_supported (select_waves caps) \<longleftrightarrow> cp_vendor_id caps = 0x1002 \<and> cp_device_id caps \<ge> 0x7400"
  by (auto simp: select_waves_def classify_gpu_architecture_def Let_def word_le_nat_alt)

lemma rx_9070_classified: "classify_gpu_architecture 0x1002 0x7440 = AMD_RDNA3"
  by (simp add: classify_gpu_architecture_def)

lemma readback_is_rebar:
  "new_Buffer True n Loc_Readback = Inr b \<Longrightarrow> bu_heap_type b = 4 \<and> bu_cpu_page b = Page_Write_Combine \<and> bu_state b = State_Generic_Read"
  by (auto simp: new_Buffer_def)

section \<open>Waiting for the scheduler\<close>

lemma gpu_step_work [simp]: "tl_pending t = Work w # ops \<Longrightarrow> gpu_step exec t = t\<lparr>tl_pending := ops, tl_memory := exec w (tl_memory t)\<rparr>"
  and gpu_step_signal [simp]: "tl_pending t = Signal f v # ops \<Longrightarrow> gpu_step exec t = t\<lparr>tl_pending := ops, tl_completed := (tl_completed t)(f := v)\<rparr>"
  and gpu_step_idle [simp]: "tl_pending t = [] \<Longrightarrow> gpu_step exec t = t"
  by (simp_all add: gpu_step_def)

text \<open>A command submitted to an idle queue and waited for.\<close>

lemma submit_and_wait:
  assumes "tl_pending t = []" "tl_completed t f < v"
  shows "fence_wait exec f v (queue_signal f v (queue_execute w t)) =
    Some (t\<lparr>tl_pending := [], tl_memory := exec w (tl_memory t), tl_completed := (tl_completed t)(f := v)\<rparr>)"
  using assms by (simp add: queue_signal_def queue_execute_def fence_wait.simps)

text \<open>A wait only lets the device run.\<close>

lemma fence_wait_preserves:
  assumes "\<And>t. P t \<Longrightarrow> P (gpu_step exec t)"
  shows "fence_wait exec f v t = Some t' \<Longrightarrow> P t \<Longrightarrow> P t'"
  using assms
proof (induction exec f v t rule: fence_wait.induct)
  case (1 exec f v t)
  from 1(2) show ?case
    unfolding fence_wait.simps [of exec f v t] using 1(1) [OF _ _ _ 1(4) [OF 1(3)] 1(4)] 1(3)
    by (cases "tl_completed t f < v"; cases "tl_pending t = []") simp_all
qed

definition queued :: "nat list \<Rightarrow> nat \<Rightarrow> nat gpu_op list" where
  "queued ws k = concat (map (\<lambda>i. [Work (ws ! i), Signal 0 (of_nat (Suc i))]) [k..<length ws])"

text \<open>
  The device has signalled \<open>k\<close> of the works submitted, and may have executed one more; the rest
  is queued, each work followed by its signal.
\<close>

definition timeline_ok :: "nat list \<Rightarrow> u64 \<Rightarrow> work_timeline \<Rightarrow> bool" where
  "timeline_ok ws v t \<longleftrightarrow> v = of_nat (length ws) \<and>
    (\<exists>k \<le> length ws. tl_completed t 0 = of_nat k \<and>
      (tl_pending t = queued ws k \<and> tl_memory t = take k ws \<or>
       k < length ws \<and> tl_pending t = Signal 0 (of_nat (Suc k)) # queued ws (Suc k) \<and> tl_memory t = take (Suc k) ws))"

lemma queued_Cons: "k < length ws \<Longrightarrow> queued ws k = Work (ws ! k) # Signal 0 (of_nat (Suc k)) # queued ws (Suc k)"
  by (simp add: queued_def upt_conv_Cons)

lemma queued_none [simp]: "queued ws (length ws) = []"
  by (simp add: queued_def)

lemma queued_snoc: "k \<le> length ws \<Longrightarrow> queued (ws @ [w]) k = queued ws k @ [Work w, Signal 0 (of_nat (Suc (length ws)))]"
proof -
  have m: "map (\<lambda>i. [Work ((ws @ [w]) ! i), Signal 0 (of_nat (Suc i))]) [k..<length ws] =
      map (\<lambda>i. [Work (ws ! i), Signal 0 (of_nat (Suc i))]) [k..<length ws]"
    by (rule map_cong) (simp_all add: nth_append)
  show ?thesis if "k \<le> length ws"
    unfolding queued_def length_append_singleton upt_Suc_append [OF that] map_append concat_append m by simp
qed

lemma timeline_new: "timeline_ok [] 0 (new_timeline [])"
  by (auto simp: timeline_ok_def new_timeline_def queued_def)

lemma timeline_submit:
  assumes "timeline_ok ws v t"
  shows "timeline_ok (ws @ [w]) (v + 1) (queue_signal 0 (v + 1) (queue_execute w t))"
proof -
  obtain k where k: "k \<le> length ws" "tl_completed t 0 = of_nat k" "v = of_nat (length ws)"
    "tl_pending t = queued ws k \<and> tl_memory t = take k ws \<or>
     k < length ws \<and> tl_pending t = Signal 0 (of_nat (Suc k)) # queued ws (Suc k) \<and> tl_memory t = take (Suc k) ws"
    using assms unfolding timeline_ok_def by blast
  have "v + 1 = of_nat (Suc (length ws))" using k(3) by simp
  then show ?thesis
    unfolding timeline_ok_def using k
    by (intro conjI exI [of _ k]) (auto simp: queue_signal_def queue_execute_def queued_snoc)
qed

lemma timeline_runs:
  assumes "timeline_ok ws v t"
  shows "timeline_ok ws v (gpu_step record_work t)"
proof -
  obtain k where k: "k \<le> length ws" "tl_completed t 0 = of_nat k" "v = of_nat (length ws)"
    "tl_pending t = queued ws k \<and> tl_memory t = take k ws \<or>
     k < length ws \<and> tl_pending t = Signal 0 (of_nat (Suc k)) # queued ws (Suc k) \<and> tl_memory t = take (Suc k) ws"
    using assms unfolding timeline_ok_def by blast
  show ?thesis
  proof (cases "tl_pending t = queued ws k \<and> tl_memory t = take k ws")
    case work: True
    show ?thesis
    proof (cases "k = length ws")
      case True
      then show ?thesis using assms work by simp
    next
      case False
      then have lt: "k < length ws" using k(1) by simp
      then have p: "tl_pending t = Work (ws ! k) # Signal 0 (of_nat (Suc k)) # queued ws (Suc k)"
        using work queued_Cons by simp
      show ?thesis
        unfolding timeline_ok_def gpu_step_work [OF p] using k work lt
        by (intro conjI exI [of _ k]) (auto simp: take_Suc_conv_app_nth)
    qed
  next
    case False
    then have s: "k < length ws" "tl_pending t = Signal 0 (of_nat (Suc k)) # queued ws (Suc k)" "tl_memory t = take (Suc k) ws"
      using k(4) by blast+
    then show ?thesis
      unfolding timeline_ok_def gpu_step_signal [OF s(2)] using k
      by (intro conjI exI [of _ "Suc k"]) auto
  qed
qed

text \<open>Once the last value is signalled, everything submitted has been executed.\<close>

lemma timeline_drained:
  assumes "timeline_ok ws v t" "length ws < 18446744073709551616" "\<not> tl_completed t 0 < v"
  shows "tl_pending t = [] \<and> tl_memory t = ws"
proof -
  obtain k where k: "k \<le> length ws" "tl_completed t 0 = of_nat k" "v = of_nat (length ws)"
    "tl_pending t = queued ws k \<and> tl_memory t = take k ws \<or>
     k < length ws \<and> tl_pending t = Signal 0 (of_nat (Suc k)) # queued ws (Suc k) \<and> tl_memory t = take (Suc k) ws"
    using assms(1) unfolding timeline_ok_def by blast
  have "\<not> k < length ws"
    using assms(2,3) k(1) unfolding k(2,3) word_less_nat_alt by (simp add: unat_of_nat_u64)
  then show ?thesis using k(1,4) by auto
qed

lemma timeline_blocked:
  assumes "timeline_ok ws v t" "tl_pending t = []"
  shows "\<not> tl_completed t 0 < v"
proof -
  obtain k where k: "k \<le> length ws" "tl_completed t 0 = of_nat k" "v = of_nat (length ws)" "tl_pending t = queued ws k"
    using assms unfolding timeline_ok_def by auto
  then have "k = length ws" using assms(2) queued_Cons [of k ws] by (cases "k < length ws") auto
  then show ?thesis using k by simp
qed

lemma timeline_wait:
  assumes "timeline_ok ws v t" "length ws < 18446744073709551616"
  shows "\<exists>t'. fence_wait record_work 0 v t = Some t' \<and> timeline_ok ws v t' \<and> tl_pending t' = [] \<and> tl_memory t' = ws"
  using assms(1)
proof (induction "length (tl_pending t)" arbitrary: t rule: less_induct)
  case less
  show ?case
  proof (cases "tl_completed t 0 < v")
    case False
    then show ?thesis
      using less.prems timeline_drained [OF less.prems assms(2) False] by (subst fence_wait.simps) auto
  next
    case True
    then have ne: "tl_pending t \<noteq> []" using timeline_blocked less.prems by blast
    then have "length (tl_pending (gpu_step record_work t)) < length (tl_pending t)"
      by (cases "tl_pending t"; cases "hd (tl_pending t)") (auto simp: gpu_step_def)
    then show ?thesis
      using less.hyps [OF _ timeline_runs [OF less.prems]] True ne by (subst fence_wait.simps) auto
  qed
qed

lemma timeline_wait_unused:
  "timeline_ok ws v t \<Longrightarrow> length ws < 18446744073709551616 \<Longrightarrow> \<not> 0 < v \<Longrightarrow> tl_pending t = [] \<and> tl_memory t = ws"
  by (rule timeline_drained) (auto simp: word_less_nat_alt)

definition sched_ok :: "MultiQueueScheduler \<Rightarrow> nat list \<Rightarrow> nat list \<Rightarrow> bool" where
  "sched_ok s ds cs \<longleftrightarrow> timeline_ok ds (mq_direct_val s) (mq_direct s) \<and> timeline_ok cs (mq_compute_val s) (mq_compute s)"

lemma wait_preserves:
  assumes "sched_ok s ds cs" "wait_all s = Some s'"
  shows "sched_ok s' ds cs"
proof -
  have w: "fence_wait record_work 0 v t = Some t' \<Longrightarrow> timeline_ok ws v t \<Longrightarrow> timeline_ok ws v t'" for ws v t t'
    by (rule fence_wait_preserves [of "timeline_ok ws v", OF timeline_runs])
  show ?thesis
    using assms by (auto simp: sched_ok_def wait_all_def split: option.splits if_splits intro: w)
qed

lemma sched_run_ok: "sched_run s ds cs \<Longrightarrow> sched_ok s ds cs"
proof (induction rule: sched_run.induct)
  case Start
  then show ?case by (simp add: sched_ok_def new_MultiQueueScheduler_def timeline_new)
next
  case (Wait s ds cs s')
  then show ?case by (blast intro: wait_preserves)
qed (auto simp: sched_ok_def submit_direct_work_def submit_compute_work_def Let_def intro: timeline_submit timeline_runs)

text \<open>
  C29. However submissions to the two queues, the progress of the device on each and waits
  interleave, \<open>wait_all\<close> returns, and when it does each queue has executed exactly the command lists
  submitted to it, in the order of submission, with nothing left queued. The destructor, which
  waits, therefore returns as well. Fewer than \<open>2^64\<close> submissions per queue: the fence value is
  a 64-bit counter. Neither device is removed meanwhile.
\<close>

theorem scheduler_drains:
  assumes "sched_run s ds cs" "length ds < 18446744073709551616" "length cs < 18446744073709551616"
  shows "\<exists>s'. wait_all s = Some s' \<and> tl_memory (mq_direct s') = ds \<and> tl_memory (mq_compute s') = cs \<and>
    tl_pending (mq_direct s') = [] \<and> tl_pending (mq_compute s') = []"
proof -
  have ok: "timeline_ok ds (mq_direct_val s) (mq_direct s)" "timeline_ok cs (mq_compute_val s) (mq_compute s)"
    using sched_run_ok [OF assms(1)] by (simp_all add: sched_ok_def)
  note d = timeline_wait [OF ok(1) assms(2)] timeline_wait_unused [OF ok(1) assms(2)]
  note c = timeline_wait [OF ok(2) assms(3)] timeline_wait_unused [OF ok(2) assms(3)]
  show ?thesis
    unfolding wait_all_def using d c
    by (cases "0 < mq_direct_val s"; cases "0 < mq_compute_val s") auto
qed

theorem scheduler_drains_witness:
  "\<exists>s'. wait_all (submit_compute_work 9 (submit_direct_work 8 (submit_direct_work 7 new_MultiQueueScheduler))) = Some s' \<and>
    tl_memory (mq_direct s') = [7, 8] \<and> tl_memory (mq_compute s') = [9]"
proof -
  have "sched_run (submit_compute_work 9 (submit_direct_work 8 (submit_direct_work 7 new_MultiQueueScheduler)))
      (([] @ [7]) @ [8]) ([] @ [9])"
    by (intro sched_run.intros)
  from scheduler_drains [OF this] show ?thesis by auto
qed

text \<open>Everything the batch holds reaches the command list, except transitions that change nothing.\<close>

lemma barriers_flushed:
  "concat (snd (barrier_flush (add_uav r2 (add_transition r sb sa sub bs)) cmds)) =
    concat cmds @ bs @ (if sb = sa then [] else [Transition r sb sa sub]) @ [UAV r2]"
  by (simp add: barrier_flush_def add_uav_def add_transition_def)


end
