(* ===== verification/Placement.thy ===== *)
theory Placement
  imports GpuDevice
begin

text \<open>
  Where model data is placed: \<open>src/dxchunk/dxchunk.cpp\<close> (the shard planner and the streaming of
  chunks of a model file through two staging buffers), \<open>src/dxshard/dxshard.cpp\<close> (shards over
  devices, the offload partitions) and \<open>src/dxkv/dxkv.cpp\<close> (pages of the KV cache).

  Buffers live in a heap, a map from numbers to buffers, which is the memory of the copy queue's
  timeline. What a call may meet (allocations, mappings, the file) is a record.
\<close>

section \<open>The shard planner\<close>

datatype ShardPolicy = AutoVRAMSpill | LayerPipeline | EvenSplit5050

record ShardPlan =
  sp_total_layers :: u32
  sp_vram_layers :: u32
  sp_sysram_layers :: u32
  sp_vram_bytes :: u64
  sp_sysram_bytes :: u64

text \<open>
  \<open>margin\<close> is the conversion \<open>static_cast<uint64_t>(vram_capacity * 0.80)\<close>; \<open>None\<close> is the division
  by zero of a model with layers of no bytes.
\<close>

definition layers_in_budget :: "u64 \<Rightarrow> u32 \<Rightarrow> u64 \<Rightarrow> u32 option" where
  "layers_in_budget vram_budget num_layers bytes_per_layer =
    (if bytes_per_layer = 0 then None
     else Some (ucast (min (ucast num_layers) (vram_budget div bytes_per_layer))))"

definition plan_sharding :: "(u64 \<Rightarrow> u64) \<Rightarrow> u64 \<Rightarrow> u32 \<Rightarrow> u64 \<Rightarrow> ShardPolicy \<Rightarrow> ShardPlan option" where
  "plan_sharding margin vram_capacity num_layers bytes_per_layer policy =
    (let vram_budget = margin vram_capacity
     in case (case policy of
           AutoVRAMSpill \<Rightarrow> layers_in_budget vram_budget num_layers bytes_per_layer
         | EvenSplit5050 \<Rightarrow> Some (num_layers div 2)
         | LayerPipeline \<Rightarrow> layers_in_budget vram_budget num_layers bytes_per_layer) of
          None \<Rightarrow> None
        | Some vram \<Rightarrow>
            let sysram = num_layers - vram
            in Some \<lparr> sp_total_layers = num_layers, sp_vram_layers = vram, sp_sysram_layers = sysram,
                      sp_vram_bytes = ucast vram * bytes_per_layer, sp_sysram_bytes = ucast sysram * bytes_per_layer \<rparr>)"

section \<open>Chunks of a file\<close>

record TensorChunk =
  ck_name :: string
  ck_file_offset :: u64
  ck_size_bytes :: u64
  ck_location :: MemLocation
  ck_in_vram :: bool
  ck_in_ram :: bool

text \<open>A copy command: target, source and number of bytes.\<close>

type_synonym buffer_heap = "nat \<rightharpoonup> Buffer"
type_synonym copy_command = "nat \<times> nat \<times> u64"

definition run_copy :: "copy_command \<Rightarrow> buffer_heap \<Rightarrow> buffer_heap" where
  "run_copy c m =
    (let (dst, src, n) = c
     in case (m dst, m src) of
          (Some d, Some s) \<Rightarrow> m(dst \<mapsto> d\<lparr>bu_bytes := write_at 0 (read_at 0 (unat n) (bu_bytes s)) (bu_bytes d)\<rparr>)
        | _ \<Rightarrow> m)"

record ChunkStreamer =
  cs_chunks :: "TensorChunk list"
  cs_queue :: "(copy_command, buffer_heap) timeline"
  cs_next :: nat
  cs_fence_val :: u64
  cs_staging_a :: "nat option"
  cs_staging_b :: "nat option"
  cs_staging_size :: u64
  cs_active_idx :: u32

definition new_ChunkStreamer :: "buffer_heap \<Rightarrow> nat \<Rightarrow> ChunkStreamer" where
  "new_ChunkStreamer heap n = \<lparr> cs_chunks = [], cs_queue = new_timeline heap, cs_next = n, cs_fence_val = 0,
     cs_staging_a = None, cs_staging_b = None, cs_staging_size = 0, cs_active_idx = 0 \<rparr>"

definition register_chunk :: "string \<Rightarrow> u64 \<Rightarrow> u64 \<Rightarrow> MemLocation \<Rightarrow> ChunkStreamer \<Rightarrow> ChunkStreamer" where
  "register_chunk name offset n loc st =
    st\<lparr>cs_chunks := cs_chunks st @ [\<lparr> ck_name = name, ck_file_offset = offset, ck_size_bytes = n, ck_location = loc,
       ck_in_vram = False, ck_in_ram = False \<rparr>]\<rparr>"

text \<open>The environment of one call.\<close>

record chunk_env =
  ce_target :: bool
  ce_staging_a :: bool
  ce_staging_b :: bool
  ce_map :: bool
  ce_file :: "u8 list option"

text \<open>A call returns, throws, touches memory it does not have, or waits for ever.\<close>

datatype 'a call = Returned 'a | Thrown string | Faults | Hangs

definition heap_of :: "ChunkStreamer \<Rightarrow> buffer_heap" where
  "heap_of st = tl_memory (cs_queue st)"

definition set_heap :: "buffer_heap \<Rightarrow> ChunkStreamer \<Rightarrow> ChunkStreamer" where
  "set_heap m st = st\<lparr>cs_queue := (cs_queue st)\<lparr>tl_memory := m\<rparr>\<rparr>"

definition create_buffer :: "bool \<Rightarrow> u64 \<Rightarrow> MemLocation \<Rightarrow> ChunkStreamer \<Rightarrow> (string + nat) \<times> ChunkStreamer" where
  "create_buffer ok n loc st =
    (case new_Buffer ok n loc of
       Inl e \<Rightarrow> (Inl e, st)
     | Inr b \<Rightarrow> (Inr (cs_next st), (set_heap ((heap_of st)(cs_next st \<mapsto> b)) st)\<lparr>cs_next := cs_next st + 1\<rparr>))"

definition release :: "nat option \<Rightarrow> ChunkStreamer \<Rightarrow> ChunkStreamer" where
  "release b st = (case b of None \<Rightarrow> st | Some i \<Rightarrow> set_heap ((heap_of st)(i := None)) st)"

text \<open>\<open>memcpy\<close> of a range of the mapped file to the mapped buffer \<open>i\<close>.\<close>

definition copy_from_file :: "bool \<Rightarrow> u8 list \<Rightarrow> u64 \<Rightarrow> u64 \<Rightarrow> nat \<Rightarrow> ChunkStreamer \<Rightarrow> ChunkStreamer option" where
  "copy_from_file mapped file off n i st =
    (case heap_of st i of
       None \<Rightarrow> None
     | Some b \<Rightarrow>
         if \<not> mapped \<or> unat off + unat n > length file \<or> unat n > length (bu_bytes b) then None
         else Some (set_heap ((heap_of st)(i \<mapsto> b\<lparr>bu_bytes := write_at 0 (read_at (unat off) (unat n) file) (bu_bytes b)\<rparr>)) st))"

fun find_chunk :: "string \<Rightarrow> TensorChunk list \<Rightarrow> nat option" where
  "find_chunk name [] = None"
| "find_chunk name (c # cs) = (if ck_name c = name then Some 0 else map_option Suc (find_chunk name cs))"

definition update_chunk :: "nat \<Rightarrow> (TensorChunk \<Rightarrow> TensorChunk) \<Rightarrow> ChunkStreamer \<Rightarrow> ChunkStreamer" where
  "update_chunk i f st = st\<lparr>cs_chunks := (cs_chunks st)[i := f (cs_chunks st ! i)]\<rparr>"

definition load_chunk_to_cpu ::
  "chunk_env \<Rightarrow> string \<Rightarrow> u8 list option \<Rightarrow> ChunkStreamer \<Rightarrow> (bool \<times> u8 list option) call \<times> ChunkStreamer" where
  "load_chunk_to_cpu env name dest st =
    (case ce_file env of
       None \<Rightarrow> (Returned (False, dest), st)
     | Some file \<Rightarrow>
         (case find_chunk name (cs_chunks st) of
            None \<Rightarrow> (Returned (False, dest), st)
          | Some i \<Rightarrow>
              let c = cs_chunks st ! i; off = unat (ck_file_offset c); n = unat (ck_size_bytes c)
              in (case dest of
                    None \<Rightarrow> (Faults, st)
                  | Some d \<Rightarrow>
                      if off + n > length file \<or> n > length d then (Faults, st)
                      else (Returned (True, Some (write_at 0 (read_at off n file) d)), update_chunk i (ck_in_ram_update (\<lambda>_. True)) st))))"

text \<open>The staging pair is replaced when there is none or it is too small; an exception between the two stays visible.\<close>

definition ensure_staging :: "chunk_env \<Rightarrow> u64 \<Rightarrow> ChunkStreamer \<Rightarrow> string option \<times> ChunkStreamer" where
  "ensure_staging env n st =
    (if cs_staging_a st = None \<or> cs_staging_size st < n then
       (case create_buffer (ce_staging_a env) n Loc_Upload st of
          (Inl e, st1) \<Rightarrow> (Some e, st1)
        | (Inr a, st1) \<Rightarrow>
            let st2 = (release (cs_staging_a st1) st1)\<lparr>cs_staging_a := Some a\<rparr>
            in (case create_buffer (ce_staging_b env) n Loc_Upload st2 of
                  (Inl e, st3) \<Rightarrow> (Some e, st3)
                | (Inr b, st3) \<Rightarrow> (None, (release (cs_staging_b st3) st3)\<lparr>cs_staging_b := Some b, cs_staging_size := n\<rparr>)))
     else (None, st))"

text \<open>The copy through the staging buffer \<open>active\<close>, with its fence (number 0 on the timeline).\<close>

definition stage_and_copy ::
  "chunk_env \<Rightarrow> nat \<Rightarrow> nat \<Rightarrow> nat option \<Rightarrow> ChunkStreamer \<Rightarrow> nat option call \<times> ChunkStreamer" where
  "stage_and_copy env i tgt active st =
    (let c = cs_chunks st ! i; n = ck_size_bytes c
     in case active of
          None \<Rightarrow> (Faults, st)
        | Some s \<Rightarrow>
            (case ce_file env of
               None \<Rightarrow> (Returned None, release (Some tgt) st)
             | Some file \<Rightarrow>
                 (case copy_from_file (ce_map env) file (ck_file_offset c) n s st of
                    None \<Rightarrow> (Faults, st)
                  | Some st1 \<Rightarrow>
                      let v = cs_fence_val st1 + 1;
                          q = queue_signal 0 v (queue_execute (tgt, s, n) (cs_queue st1))
                      in (case fence_wait run_copy 0 v q of
                            None \<Rightarrow> (Hangs, st1)
                          | Some q1 \<Rightarrow> (Returned (Some tgt),
                              update_chunk i (ck_in_vram_update (\<lambda>_. True)) (st1\<lparr>cs_queue := q1, cs_fence_val := v\<rparr>))))))"

definition stream_chunk_to_gpu :: "chunk_env \<Rightarrow> string \<Rightarrow> ChunkStreamer \<Rightarrow> nat option call \<times> ChunkStreamer" where
  "stream_chunk_to_gpu env name st =
    (case find_chunk name (cs_chunks st) of
       None \<Rightarrow> (Returned None, st)
     | Some i \<Rightarrow>
         let c = cs_chunks st ! i; n = ck_size_bytes c
         in (case create_buffer (ce_target env) n (ck_location c) st of
               (Inl e, st1) \<Rightarrow> (Thrown e, st1)
             | (Inr tgt, st1) \<Rightarrow>
                 if ck_location c = Loc_Upload then
                   (case (case ce_file env of
                       None \<Rightarrow> Some st1
                     | Some file \<Rightarrow> copy_from_file (ce_map env) file (ck_file_offset c) n tgt st1) of
                      None \<Rightarrow> (Faults, st1)
                    | Some st2 \<Rightarrow> (Returned (Some tgt), update_chunk i (ck_in_ram_update (\<lambda>_. True)) st2))
                 else
                   (case ensure_staging env n st1 of
                      (Some e, st2) \<Rightarrow> (Thrown e, release (Some tgt) st2)
                    | (None, st2) \<Rightarrow>
                        let active = (if cs_active_idx st2 = 0 then cs_staging_a st2 else cs_staging_b st2)
                        in stage_and_copy env i tgt active (st2\<lparr>cs_active_idx := 1 - cs_active_idx st2\<rparr>))))"

section \<open>Shards and partitions\<close>

text \<open>
  \<open>shard_buffer\<close>: the device and the size of each shard; \<open>None\<close> when the first of no devices is
  asked for; \<open>ok\<close> says which allocations succeed.
\<close>

fun shards_from :: "(nat \<Rightarrow> bool) \<Rightarrow> nat \<Rightarrow> u64 \<Rightarrow> nat \<Rightarrow> nat \<Rightarrow> (string + (nat \<times> u64) list) option" where
  "shards_from ok devices shard_size i 0 = Some (Inr [])"
| "shards_from ok devices shard_size i (Suc n) =
    (if devices = 0 then None
     else case new_Buffer (ok i) shard_size Loc_Default of
            Inl e \<Rightarrow> Some (Inl e)
          | Inr b \<Rightarrow> map_option (map_sum id ((#) (if i < devices then i else 0, shard_size)))
              (shards_from ok devices shard_size (i + 1) n))"

definition shard_buffer :: "(nat \<Rightarrow> bool) \<Rightarrow> nat \<Rightarrow> u64 \<Rightarrow> u32 \<Rightarrow> (string + (nat \<times> u64) list) option" where
  "shard_buffer ok devices total_size num_shards =
    (if num_shards = 0 then Some (Inr [])
     else shards_from ok devices (total_size div ucast num_shards) 0 (unat num_shards))"

definition allocate_vram_partition :: "bool \<Rightarrow> u64 \<Rightarrow> string + Buffer" where
  "allocate_vram_partition ok bytes = new_Buffer ok bytes Loc_Default"

definition allocate_ram_partition :: "bool \<Rightarrow> u64 \<Rightarrow> string + Buffer" where
  "allocate_ram_partition ok bytes = new_Buffer ok bytes Loc_Upload"

text \<open>\<open>f\<close> is the fence the call creates; the two flags are the allocator and the command list.\<close>

definition page_swap ::
  "bool \<Rightarrow> bool \<Rightarrow> nat \<Rightarrow> nat \<Rightarrow> nat \<Rightarrow> u64 \<Rightarrow> (copy_command, buffer_heap) timeline \<Rightarrow> (copy_command, buffer_heap) timeline call" where
  "page_swap alloc_ok list_ok f ram_buf vram_buf bytes t0 =
    (let t = create_fence f 0 t0
     in if \<not> alloc_ok then Returned t
        else if \<not> list_ok then Returned t
        else case fence_wait run_copy f 1 (queue_signal f 1 (queue_execute (vram_buf, ram_buf, bytes) t)) of
               None \<Rightarrow> Hangs
             | Some t1 \<Rightarrow> Returned t1)"

section \<open>Pages of the KV cache\<close>

record KVCacheConfig =
  kc_num_layers :: u32
  kc_num_heads :: u32
  kc_head_dim :: u32
  kc_max_seq_len :: u32
  kc_page_size :: u32

record KVCacheManager =
  kv_config :: KVCacheConfig
  kv_key_buffer :: Buffer
  kv_val_buffer :: Buffer
  kv_allocated_pages :: "bool list"

definition new_KVCacheManager :: "bool \<Rightarrow> bool \<Rightarrow> KVCacheConfig \<Rightarrow> KVCacheManager call" where
  "new_KVCacheManager key_ok val_ok cfg =
    (let total_elements = ucast (kc_num_layers cfg) * ucast (kc_num_heads cfg) * ucast (kc_max_seq_len cfg) * ucast (kc_head_dim cfg) :: u64;
         bytes_per_buffer = total_elements * 2
     in case new_Buffer key_ok bytes_per_buffer Loc_Default of
          Inl e \<Rightarrow> Thrown e
        | Inr k \<Rightarrow>
            (case new_Buffer val_ok bytes_per_buffer Loc_Default of
               Inl e \<Rightarrow> Thrown e
             | Inr v \<Rightarrow>
                 if kc_page_size cfg = 0 then Faults
                 else Returned \<lparr> kv_config = cfg, kv_key_buffer = k, kv_val_buffer = v,
                   kv_allocated_pages = replicate (unat ((kc_max_seq_len cfg + kc_page_size cfg - 1) div kc_page_size cfg)) False \<rparr>))"

fun first_free :: "bool list \<Rightarrow> nat option" where
  "first_free [] = None"
| "first_free (p # ps) = (if \<not> p then Some 0 else map_option Suc (first_free ps))"

definition allocate_sequence :: "KVCacheManager \<Rightarrow> u32 \<times> KVCacheManager" where
  "allocate_sequence kv =
    (case first_free (kv_allocated_pages kv) of
       None \<Rightarrow> (0xFFFFFFFF, kv)
     | Some i \<Rightarrow> (of_nat i, kv\<lparr>kv_allocated_pages := (kv_allocated_pages kv)[i := True]\<rparr>))"

definition free_sequence :: "u32 \<Rightarrow> KVCacheManager \<Rightarrow> KVCacheManager" where
  "free_sequence seq_id kv =
    (if unat seq_id < length (kv_allocated_pages kv)
     then kv\<lparr>kv_allocated_pages := (kv_allocated_pages kv)[unat seq_id := False]\<rparr> else kv)"

section \<open>Plans fit the budget\<close>

lemma layers_in_budget_exact:
  assumes "layers_in_budget budget n b = Some v"
  shows "b \<noteq> 0 \<and> unat v = min (unat n) (unat budget div unat b)"
proof -
  have b: "b \<noteq> 0" and v: "v = ucast (min (ucast n) (budget div b))"
    using assms by (simp_all add: layers_in_budget_def split: if_splits)
  have m: "unat (min (ucast n) (budget div b)) = min (unat n) (unat budget div unat b)"
    by (simp add: min_def word_le_nat_alt unat_div unat_ucast_u64)
  have "unat (min (ucast n) (budget div b)) < 4294967296"
    unfolding m using u32_lt [of n] by simp
  then have "unat v = unat (min (ucast n) (budget div b))"
    unfolding v by (simp add: unsigned_ucast_eq take_bit_nat_eq_self_iff)
  then show ?thesis using b m by simp
qed

lemma budget_product:
  assumes "unat (b :: u64) \<noteq> 0" "v = min n (m div unat b)"
  shows "v * unat b \<le> m" and "v < n \<Longrightarrow> m < (v + 1) * unat b"
proof -
  have "v * unat b \<le> m div unat b * unat b" using assms(2) by (intro mult_le_mono1) simp
  also have "\<dots> \<le> m" by (rule div_times_less_eq_dividend)
  finally show "v * unat b \<le> m" .
  assume "v < n"
  then have "v = m div unat b" using assms(2) by linarith
  then show "m < (v + 1) * unat b"
    using assms(1) dividend_less_div_times [of "unat b" m] by (simp add: algebra_simps)
qed

text \<open>
  A shard plan places every layer exactly once; under the two policies that look at the
  video memory the layers placed there fit the budget, are as many as fit, and their byte count is
  exact. Planning fails only for these policies, on layers of zero bytes (a division by zero).
\<close>

theorem plan_sharding_fits:
  "case plan_sharding margin cap n b policy of
     None \<Rightarrow> policy \<noteq> EvenSplit5050 \<and> b = 0
   | Some p \<Rightarrow> sp_total_layers p = n \<and> unat (sp_vram_layers p) + unat (sp_sysram_layers p) = unat n \<and>
       (policy \<noteq> EvenSplit5050 \<longrightarrow>
          unat (sp_vram_bytes p) = unat (sp_vram_layers p) * unat b \<and> sp_vram_bytes p \<le> margin cap \<and>
          (sp_vram_layers p < n \<longrightarrow> unat (margin cap) < (unat (sp_vram_layers p) + 1) * unat b))"
proof -
  define choice where "choice = (case policy of
      AutoVRAMSpill \<Rightarrow> layers_in_budget (margin cap) n b
    | EvenSplit5050 \<Rightarrow> Some (n div 2)
    | LayerPipeline \<Rightarrow> layers_in_budget (margin cap) n b)"
  have plan: "plan_sharding margin cap n b policy = (case choice of None \<Rightarrow> None
      | Some v \<Rightarrow> Some \<lparr> sp_total_layers = n, sp_vram_layers = v, sp_sysram_layers = n - v,
          sp_vram_bytes = ucast v * b, sp_sysram_bytes = ucast (n - v) * b \<rparr>)"
    unfolding plan_sharding_def Let_def choice_def ..
  show ?thesis
  proof (cases choice)
    case None
    then have "policy \<noteq> EvenSplit5050 \<and> b = 0"
      by (cases policy) (simp_all add: choice_def layers_in_budget_def split: if_splits)
    then show ?thesis unfolding plan None by simp
  next
    case (Some v)
    have le: "v \<le> n"
    proof (cases "policy = EvenSplit5050")
      case True
      then have "v = n div 2" using Some by (simp add: choice_def)
      then show ?thesis by (simp add: word_le_nat_alt unat_div)
    next
      case False
      then have "layers_in_budget (margin cap) n b = Some v" using Some by (cases policy) (simp_all add: choice_def)
      then show ?thesis using layers_in_budget_exact by (simp add: word_le_nat_alt)
    qed
    have parts: "unat v + unat (n - v) = unat n" using le by (simp add: unat_sub word_le_nat_alt)
    have fits: "unat (ucast v * b) = unat v * unat b \<and> ucast v * b \<le> margin cap \<and>
        (v < n \<longrightarrow> unat (margin cap) < (unat v + 1) * unat b)" if "policy \<noteq> EvenSplit5050"
    proof -
      have "layers_in_budget (margin cap) n b = Some v" using Some that by (cases policy) (simp_all add: choice_def)
      then have v: "b \<noteq> 0" "unat v = min (unat n) (unat (margin cap) div unat b)" using layers_in_budget_exact by blast+
      then have b: "unat b \<noteq> 0" by (simp add: unat_eq_0)
      note p = budget_product [OF b v(2)]
      have "unat (ucast v * b) = unat v * unat b"
        using p(1) u64_lt [of "margin cap"] u64_mult_unat [of "ucast v" b] by (simp add: unat_ucast_u64)
      then show ?thesis using p by (simp add: word_le_nat_alt word_less_nat_alt)
    qed
    show ?thesis unfolding plan Some using parts fits by simp
  qed
qed

theorem plan_sharding_fits_witness:
  "case plan_sharding (\<lambda>cap. cap div 10 * 8) 1000 32 100 AutoVRAMSpill of
     None \<Rightarrow> False | Some p \<Rightarrow> unat (sp_vram_bytes p) = unat (sp_vram_layers p) * 100 \<and> sp_vram_layers p = 8"
proof -
  have p: "plan_sharding (\<lambda>cap. cap div 10 * 8) 1000 32 100 AutoVRAMSpill = Some \<lparr> sp_total_layers = 32, sp_vram_layers = 8,
      sp_sysram_layers = 24, sp_vram_bytes = 800, sp_sysram_bytes = 2400 \<rparr>"
    by (simp add: plan_sharding_def layers_in_budget_def)
  show ?thesis
    using plan_sharding_fits [where margin = "\<lambda>cap. cap div 10 * 8" and cap = 1000 and n = 32 and b = 100 and policy = AutoVRAMSpill] unfolding p by simp
qed

text \<open>The policy documented to split the layers evenly does what the spilling one does.\<close>

lemma layer_pipeline_spills: "plan_sharding margin cap n b LayerPipeline = plan_sharding margin cap n b AutoVRAMSpill"
  by (simp add: plan_sharding_def)


section \<open>Streaming a chunk\<close>

lemma heap_of_set_heap [simp]: "heap_of (set_heap m st) = m"
  by (simp add: heap_of_def set_heap_def)

lemma set_heap_fields [simp]:
  "cs_chunks (set_heap m st) = cs_chunks st" "cs_next (set_heap m st) = cs_next st"
  "cs_fence_val (set_heap m st) = cs_fence_val st" "cs_staging_a (set_heap m st) = cs_staging_a st"
  "cs_staging_b (set_heap m st) = cs_staging_b st" "cs_staging_size (set_heap m st) = cs_staging_size st"
  "cs_active_idx (set_heap m st) = cs_active_idx st"
  "tl_pending (cs_queue (set_heap m st)) = tl_pending (cs_queue st)"
  "tl_completed (cs_queue (set_heap m st)) = tl_completed (cs_queue st)"
  by (simp_all add: set_heap_def)

lemma heap_of_update [simp]:
  "heap_of (st\<lparr>cs_chunks := x1\<rparr>) = heap_of st" "heap_of (st\<lparr>cs_next := x2\<rparr>) = heap_of st"
  "heap_of (st\<lparr>cs_fence_val := x3\<rparr>) = heap_of st" "heap_of (st\<lparr>cs_staging_a := x4\<rparr>) = heap_of st"
  "heap_of (st\<lparr>cs_staging_b := x5\<rparr>) = heap_of st" "heap_of (st\<lparr>cs_staging_size := x6\<rparr>) = heap_of st"
  "heap_of (st\<lparr>cs_active_idx := x7\<rparr>) = heap_of st" "heap_of (st\<lparr>cs_queue := q\<rparr>) = tl_memory q"
  by (simp_all add: heap_of_def)

text \<open>Buffer \<open>i\<close> has room for \<open>n\<close> bytes.\<close>

definition has_room :: "buffer_heap \<Rightarrow> nat \<Rightarrow> u64 \<Rightarrow> bool" where
  "has_room m i n \<longleftrightarrow> (\<exists>b. m i = Some b \<and> length (bu_bytes b) = unat (bu_size b) \<and> n \<le> bu_size b)"

text \<open>
  Between calls: the queue is idle and its fence at the streamer's value, numbers not yet given out
  are free, and each staging buffer that exists has room for \<open>m_staging_size\<close> bytes.
\<close>

definition streamer_ok :: "ChunkStreamer \<Rightarrow> bool" where
  "streamer_ok st \<longleftrightarrow>
    tl_pending (cs_queue st) = [] \<and> tl_completed (cs_queue st) 0 = cs_fence_val st \<and>
    cs_active_idx st \<in> {0, 1} \<and> (\<forall>i \<ge> cs_next st. heap_of st i = None) \<and>
    (\<forall>a. cs_staging_a st = Some a \<longrightarrow> has_room (heap_of st) a (cs_staging_size st)) \<and>
    (\<forall>b. cs_staging_b st = Some b \<longrightarrow> has_room (heap_of st) b (cs_staging_size st)) \<and>
    (cs_staging_a st = None \<or> cs_staging_b st = None \<longrightarrow> cs_staging_size st = 0) \<and>
    (cs_staging_b st \<noteq> None \<longrightarrow> cs_staging_a st \<noteq> cs_staging_b st)"

lemma new_Buffer_fails: "new_Buffer False n loc = Inl ''CreateCommittedResource failed''"
  by (simp add: new_Buffer_def split: prod.split)

lemma new_Buffer_ok:
  obtains b where "new_Buffer True n loc = Inr b" "bu_size b = n" "bu_bytes b = replicate (unat n) 0"
proof -
  have "\<exists>b. new_Buffer True n loc = Inr b \<and> bu_size b = n \<and> bu_bytes b = replicate (unat n) 0"
    by (cases "loc = Loc_ReBAR") (simp_all add: new_Buffer_def)
  then show ?thesis using that by blast
qed

lemma new_Buffer_size: "new_Buffer ok n loc = Inr b \<Longrightarrow> bu_size b = n"
  by (cases ok; cases "loc = Loc_ReBAR") (auto simp: new_Buffer_def)

lemma has_room_mono: "has_room m i n \<Longrightarrow> k \<le> n \<Longrightarrow> has_room m i k"
  by (auto simp: has_room_def)

lemma has_room_cong: "m i = m' i \<Longrightarrow> has_room m i n = has_room m' i n"
  by (simp add: has_room_def)

lemma streamer_okI:
  assumes "tl_pending (cs_queue st) = []" "tl_completed (cs_queue st) 0 = cs_fence_val st" "cs_active_idx st \<in> {0, 1}"
    and "\<And>i. cs_next st \<le> i \<Longrightarrow> heap_of st i = None"
    and "\<And>a. cs_staging_a st = Some a \<Longrightarrow> has_room (heap_of st) a (cs_staging_size st)"
    and "\<And>b. cs_staging_b st = Some b \<Longrightarrow> has_room (heap_of st) b (cs_staging_size st)"
    and "cs_staging_a st = None \<or> cs_staging_b st = None \<Longrightarrow> cs_staging_size st = 0"
    and "cs_staging_b st \<noteq> None \<Longrightarrow> cs_staging_a st \<noteq> cs_staging_b st"
  shows "streamer_ok st"
  using assms unfolding streamer_ok_def by blast

lemma streamer_okD:
  assumes "streamer_ok st"
  shows "tl_pending (cs_queue st) = []" "tl_completed (cs_queue st) 0 = cs_fence_val st" "cs_active_idx st \<in> {0, 1}"
    and "cs_next st \<le> i \<Longrightarrow> heap_of st i = None"
    and "cs_staging_a st = Some a \<Longrightarrow> has_room (heap_of st) a (cs_staging_size st)"
    and "cs_staging_b st = Some b \<Longrightarrow> has_room (heap_of st) b (cs_staging_size st)"
    and "cs_staging_a st = None \<or> cs_staging_b st = None \<Longrightarrow> cs_staging_size st = 0"
    and "cs_staging_b st \<noteq> None \<Longrightarrow> cs_staging_a st \<noteq> cs_staging_b st"
  using assms unfolding streamer_ok_def by blast+

text \<open>A new buffer gets a number of its own.\<close>

lemma staging_below:
  assumes "streamer_ok st"
  shows "cs_staging_a st = Some a \<Longrightarrow> a < cs_next st" "cs_staging_b st = Some b \<Longrightarrow> b < cs_next st"
  using streamer_okD(4-6) [OF assms] by (metis has_room_def not_le option.distinct(1))+

lemma next_not_staging:
  assumes "streamer_ok st"
  shows "Some (cs_next st) \<noteq> cs_staging_a st" "Some (cs_next st) \<noteq> cs_staging_b st"
  using staging_below [OF assms, of "cs_next st"] by auto

lemma create_buffer_ok:
  assumes "streamer_ok st"
  shows "streamer_ok (snd (create_buffer ok n loc st))"
    and "ok \<Longrightarrow> \<exists>b. create_buffer ok n loc st =
          (Inr (cs_next st), (set_heap ((heap_of st)(cs_next st \<mapsto> b)) st)\<lparr>cs_next := cs_next st + 1\<rparr>) \<and>
        bu_size b = n \<and> bu_bytes b = replicate (unat n) 0"
    and "\<not> ok \<Longrightarrow> create_buffer ok n loc st = (Inl ''CreateCommittedResource failed'', st)"
proof -
  obtain b where b: "new_Buffer True n loc = Inr b" "bu_size b = n" "bu_bytes b = replicate (unat n) 0"
    by (rule new_Buffer_ok)
  show F: "\<not> ok \<Longrightarrow> create_buffer ok n loc st = (Inl ''CreateCommittedResource failed'', st)"
    by (simp add: create_buffer_def new_Buffer_fails)
  have T: "ok \<Longrightarrow> create_buffer ok n loc st =
      (Inr (cs_next st), (set_heap ((heap_of st)(cs_next st \<mapsto> b)) st)\<lparr>cs_next := cs_next st + 1\<rparr>)"
    by (simp add: create_buffer_def b)
  then show "ok \<Longrightarrow> \<exists>b. create_buffer ok n loc st =
          (Inr (cs_next st), (set_heap ((heap_of st)(cs_next st \<mapsto> b)) st)\<lparr>cs_next := cs_next st + 1\<rparr>) \<and>
        bu_size b = n \<and> bu_bytes b = replicate (unat n) 0" using b by blast
  let ?st = "(set_heap ((heap_of st)(cs_next st \<mapsto> b)) st)\<lparr>cs_next := cs_next st + 1\<rparr>"
  have room: "has_room (heap_of ?st) i k = has_room (heap_of st) i k" if "i < cs_next st" for i k
    using that by (intro has_room_cong) simp
  have "streamer_ok ?st"
    by (rule streamer_okI) (use streamer_okD [OF assms] staging_below [OF assms] room in auto)
  then show "streamer_ok (snd (create_buffer ok n loc st))" using T F assms by (cases ok) simp_all
qed


text \<open>What a step may do to the heap: buffers other than the ones named stay.\<close>

definition only_changes :: "nat set \<Rightarrow> ChunkStreamer \<Rightarrow> ChunkStreamer \<Rightarrow> bool" where
  "only_changes I st st' \<longleftrightarrow> (\<forall>i. i \<notin> I \<longrightarrow> heap_of st' i = heap_of st i)"

lemma staging_same:
  assumes "streamer_ok st" "only_changes I st st'" "I \<inter> (set_option (cs_staging_a st) \<union> set_option (cs_staging_b st)) = {}"
    and "cs_staging_a st' = cs_staging_a st" "cs_staging_b st' = cs_staging_b st" "cs_staging_size st' = cs_staging_size st"
    and "tl_pending (cs_queue st') = []" "tl_completed (cs_queue st') 0 = cs_fence_val st'" "cs_active_idx st' \<in> {0, 1}"
    and "\<And>i. cs_next st' \<le> i \<Longrightarrow> heap_of st' i = None"
  shows "streamer_ok st'"
proof -
  have room: "has_room (heap_of st') i k = has_room (heap_of st) i k" if "i \<notin> I" for i k
    using assms(2) that unfolding only_changes_def by (intro has_room_cong) blast
  show ?thesis
    by (rule streamer_okI) (use assms streamer_okD [OF assms(1)] room in auto)
qed

lemma release_ok:
  assumes "streamer_ok st" "set_option b \<inter> (set_option (cs_staging_a st) \<union> set_option (cs_staging_b st)) = {}"
  shows "streamer_ok (release b st)"
proof (cases b)
  case None
  then show ?thesis using assms(1) by (simp add: release_def)
next
  case (Some i)
  show ?thesis
    by (rule staging_same [OF assms(1), of "{i}"])
      (use assms streamer_okD [OF assms(1)] Some in \<open>auto simp: release_def only_changes_def\<close>)
qed

lemma release_fields [simp]:
  "cs_chunks (release b st) = cs_chunks st" "cs_next (release b st) = cs_next st"
  "cs_fence_val (release b st) = cs_fence_val st" "cs_staging_a (release b st) = cs_staging_a st"
  "cs_staging_b (release b st) = cs_staging_b st" "cs_staging_size (release b st) = cs_staging_size st"
  "cs_active_idx (release b st) = cs_active_idx st"
  "tl_pending (cs_queue (release b st)) = tl_pending (cs_queue st)"
  "tl_completed (cs_queue (release b st)) = tl_completed (cs_queue st)"
  by (simp_all add: release_def split: option.split)

lemma heap_of_release: "heap_of (release b st) i = (if b = Some i then None else heap_of st i)"
  by (simp add: release_def split: option.split)

text \<open>Replacing the pair, also when the second allocation throws.\<close>

lemma ensure_staging_ok:
  assumes ok: "streamer_ok st" and e: "ensure_staging env n st = (err, st')"
  shows "streamer_ok st' \<and> cs_chunks st' = cs_chunks st \<and> cs_fence_val st' = cs_fence_val st \<and>
    cs_next st \<le> cs_next st' \<and>
    (\<forall>i < cs_next st. Some i \<noteq> cs_staging_a st \<longrightarrow> Some i \<noteq> cs_staging_b st \<longrightarrow>
       heap_of st' i = heap_of st i \<and> Some i \<noteq> cs_staging_a st' \<and> Some i \<noteq> cs_staging_b st') \<and>
    (err = None \<longrightarrow> n \<noteq> 0 \<longrightarrow> (\<exists>a b. cs_staging_a st' = Some a \<and> cs_staging_b st' = Some b \<and>
       has_room (heap_of st') a n \<and> has_room (heap_of st') b n)) \<and>
    (ce_staging_a env \<longrightarrow> ce_staging_b env \<longrightarrow> err = None)"
proof (cases "cs_staging_a st = None \<or> cs_staging_size st < n")
  case False
  then obtain a where a: "cs_staging_a st = Some a" "n \<le> cs_staging_size st" by auto
  have "cs_staging_b st \<noteq> None" if "n \<noteq> 0"
  proof
    assume "cs_staging_b st = None"
    then have "cs_staging_size st = 0" using streamer_okD(7) [OF ok] by simp
    then show False using a(2) that by (simp add: word_le_nat_alt unat_eq_0)
  qed
  then show ?thesis
    using e False a streamer_okD(5,6) [OF ok] ok has_room_mono by (auto simp: ensure_staging_def)
next
  case True
  show ?thesis
  proof (cases "ce_staging_a env")
    case fa: False
    then have "err = Some ''CreateCommittedResource failed'' \<and> st' = st"
      using e True create_buffer_ok(3) [OF ok] by (simp add: ensure_staging_def)
    then show ?thesis using ok fa by simp
  next
    case ta: True
    let ?a = "cs_next st"
    obtain ba where ba: "create_buffer True n Loc_Upload st =
        (Inr ?a, (set_heap ((heap_of st)(?a \<mapsto> ba)) st)\<lparr>cs_next := ?a + 1\<rparr>)"
      "bu_size ba = n" "bu_bytes ba = replicate (unat n) 0"
      using create_buffer_ok(2) [OF ok TrueI] by blast
    define st1 where "st1 = (set_heap ((heap_of st)(?a \<mapsto> ba)) st)\<lparr>cs_next := ?a + 1\<rparr>"
    have st1: "streamer_ok st1" using create_buffer_ok(1) [OF ok, of True n Loc_Upload] by (simp add: ba(1) st1_def)
    define st2 where "st2 = (release (cs_staging_a st1) st1)\<lparr>cs_staging_a := Some ?a\<rparr>"
    have s1: "cs_staging_a st1 = cs_staging_a st" "cs_staging_b st1 = cs_staging_b st" "cs_staging_size st1 = cs_staging_size st"
      "cs_chunks st1 = cs_chunks st" "cs_next st1 = ?a + 1" "cs_fence_val st1 = cs_fence_val st" "heap_of st1 ?a = Some ba"
      "i \<noteq> ?a \<Longrightarrow> heap_of st1 i = heap_of st i" for i by (simp_all add: st1_def)
    note below = staging_below [OF ok]
    have size_le: "cs_staging_size st \<le> n"
      using True streamer_okD(7) [OF ok] by (auto simp: less_imp_le)
    have room_a: "has_room (heap_of st2) ?a k" if "k \<le> n" for k
      using ba that below(1) by (auto simp: st2_def has_room_def heap_of_release s1)
    have same2: "heap_of st2 i = heap_of st i" if "i \<noteq> ?a" "Some i \<noteq> cs_staging_a st" for i
      using that by (auto simp: st2_def heap_of_release s1)
    have st2: "streamer_ok st2"
    proof (rule streamer_okI, goal_cases)
      case (4 i)
      then show ?case using streamer_okD(4) [OF st1, of i] by (auto simp: st2_def heap_of_release s1)
    next
      case (5 a)
      then show ?case using room_a [OF size_le] by (simp add: st2_def s1)
    next
      case (6 b)
      then have b: "cs_staging_b st = Some b" by (simp add: st2_def s1)
      then have "b \<noteq> ?a" "Some b \<noteq> cs_staging_a st" using below(2) streamer_okD(8) [OF ok] by auto
      then have "has_room (heap_of st2) b (cs_staging_size st) = has_room (heap_of st) b (cs_staging_size st)"
        by (intro has_room_cong same2)
      then show ?case using streamer_okD(6) [OF ok b] by (simp add: st2_def s1)
    next
      case 8
      then show ?case using below(2) by (auto simp: st2_def s1)
    qed (use streamer_okD [OF st1] in \<open>auto simp: st2_def s1\<close>)
    have s2: "cs_staging_a st2 = Some ?a" "cs_staging_b st2 = cs_staging_b st" "cs_chunks st2 = cs_chunks st"
      "cs_fence_val st2 = cs_fence_val st" "cs_next st2 = Suc ?a" by (simp_all add: st2_def s1)
    have e2: "ensure_staging env n st = (case create_buffer (ce_staging_b env) n Loc_Upload st2 of
        (Inl e, st3) \<Rightarrow> (Some e, st3)
      | (Inr b, st3) \<Rightarrow> (None, (release (cs_staging_b st3) st3)\<lparr>cs_staging_b := Some b, cs_staging_size := n\<rparr>))"
      using True ta by (simp add: ensure_staging_def ba(1) st2_def flip: st1_def) (simp add: st1_def)
    show ?thesis
    proof (cases "ce_staging_b env")
      case fb: False
      then have r: "err = Some ''CreateCommittedResource failed''" "st' = st2"
        using e unfolding e2 by (simp_all add: create_buffer_ok(3) [OF st2])
      have "Some i \<noteq> cs_staging_a st2" if "i < ?a" for i using that by (simp add: s2)
      then show ?thesis using st2 same2 fb by (auto simp: r s2)
    next
      case tb: True
      let ?b = "Suc ?a"
      obtain bb where bb: "create_buffer True n Loc_Upload st2 =
          (Inr ?b, (set_heap ((heap_of st2)(?b \<mapsto> bb)) st2)\<lparr>cs_next := ?b + 1\<rparr>)"
        "bu_size bb = n" "bu_bytes bb = replicate (unat n) 0"
        using create_buffer_ok(2) [OF st2 TrueI] unfolding s2 by blast
      define st3 where "st3 = (set_heap ((heap_of st2)(?b \<mapsto> bb)) st2)\<lparr>cs_next := ?b + 1\<rparr>"
      have bb1: "create_buffer True n Loc_Upload st2 = (Inr ?b, st3)" unfolding bb(1) st3_def ..
      have st3: "streamer_ok st3" using create_buffer_ok(1) [OF st2, of True n Loc_Upload] by (simp add: bb(1) st3_def)
      have s3: "cs_staging_a st3 = Some ?a" "cs_staging_b st3 = cs_staging_b st" "cs_chunks st3 = cs_chunks st"
        "cs_fence_val st3 = cs_fence_val st" "cs_next st3 = ?b + 1" "heap_of st3 ?b = Some bb"
        "i \<noteq> ?b \<Longrightarrow> heap_of st3 i = heap_of st2 i" for i by (simp_all add: st3_def s2)
      have r: "err = None" "st' = (release (cs_staging_b st3) st3)\<lparr>cs_staging_b := Some ?b, cs_staging_size := n\<rparr>"
        using e unfolding e2 by (simp_all add: tb bb1)
      have hb: "cs_staging_b st \<noteq> Some ?a" "cs_staging_b st \<noteq> Some ?b" using below(2) by fastforce+
      have rb: "has_room (heap_of st') ?b n"
        using bb hb by (auto simp: r has_room_def heap_of_release s3)
      have "has_room (heap_of st') ?a n = has_room (heap_of st2) ?a n"
        using hb by (intro has_room_cong) (simp add: r heap_of_release s3)
      then have ra: "has_room (heap_of st') ?a n" using room_a by simp
      have ok': "streamer_ok st'"
      proof (rule streamer_okI, goal_cases)
        case (4 i)
        then show ?case using streamer_okD(4) [OF st3, of i] by (auto simp: r heap_of_release s3)
      qed (use streamer_okD(1-3) [OF st3] ra rb in \<open>auto simp: r s3\<close>)
      have "heap_of st' i = heap_of st i" if "i < ?a" "Some i \<noteq> cs_staging_a st" "Some i \<noteq> cs_staging_b st" for i
        using that same2 [of i] by (auto simp: r heap_of_release s3)
      then show ?thesis using ok' ra rb by (auto simp: r s3)
    qed
  qed
qed


lemma copy_from_file_ok:
  assumes "streamer_ok st" "copy_from_file mapped file off n i st = Some st'"
  shows "streamer_ok st' \<and> (\<exists>b. heap_of st i = Some b \<and> unat off + unat n \<le> length file \<and> unat n \<le> length (bu_bytes b) \<and>
    st' = set_heap ((heap_of st)(i \<mapsto> b\<lparr>bu_bytes := write_at 0 (read_at (unat off) (unat n) file) (bu_bytes b)\<rparr>)) st)"
proof -
  obtain b where b: "heap_of st i = Some b" "unat off + unat n \<le> length file" "unat n \<le> length (bu_bytes b)"
    "st' = set_heap ((heap_of st)(i \<mapsto> b\<lparr>bu_bytes := write_at 0 (read_at (unat off) (unat n) file) (bu_bytes b)\<rparr>)) st"
    using assms(2) by (auto simp: copy_from_file_def split: option.splits if_splits)
  have l: "length (write_at 0 (read_at (unat off) (unat n) file) (bu_bytes b)) = length (bu_bytes b)"
    using b(2,3) by (simp add: write_at_def read_at_def)
  have room: "has_room (heap_of st') j k = has_room (heap_of st) j k" for j k
    using b(1) l by (simp add: b(4) has_room_def)
  have "cs_next st \<le> j \<Longrightarrow> j \<noteq> i" for j using streamer_okD(4) [OF assms(1), of j] b(1) by auto
  then have "streamer_ok st'"
    by (intro streamer_okI) (use streamer_okD [OF assms(1)] room in \<open>auto simp: b(4)\<close>)
  then show ?thesis using b by blast
qed

lemma update_chunk_fields [simp]:
  "heap_of (update_chunk i f st) = heap_of st" "cs_queue (update_chunk i f st) = cs_queue st"
  "cs_next (update_chunk i f st) = cs_next st"
  "cs_fence_val (update_chunk i f st) = cs_fence_val st" "cs_staging_a (update_chunk i f st) = cs_staging_a st"
  "cs_staging_b (update_chunk i f st) = cs_staging_b st" "cs_staging_size (update_chunk i f st) = cs_staging_size st"
  "cs_active_idx (update_chunk i f st) = cs_active_idx st"
  by (simp_all add: update_chunk_def)

lemma streamer_ok_update_chunk [simp]: "streamer_ok (update_chunk i f st) = streamer_ok st"
  by (simp add: streamer_ok_def)

lemma next_fence_value:
  assumes "v \<noteq> (UINT64_MAX :: u64)"
  shows "v < v + 1"
proof -
  have "unat v \<noteq> 18446744073709551615" using assms by (metis unat_max64 word_unat_eq_iff)
  then have "unat (v + 1) = unat v + 1" using u64_lt [of v] u64_add_unat [of v 1] by simp
  then show ?thesis by (simp add: word_less_nat_alt)
qed

lemma stage_and_copy_ok:
  assumes ok: "streamer_ok st" and f: "cs_fence_val st \<noteq> UINT64_MAX"
    and t: "heap_of st tgt = Some bt" "Some tgt \<noteq> cs_staging_a st" "Some tgt \<noteq> cs_staging_b st" "Some tgt \<noteq> active"
    and r: "stage_and_copy env i tgt active st = (r, st')" "r \<noteq> Faults"
  shows "streamer_ok st' \<and> r \<noteq> Hangs \<and> (\<forall>j. j \<noteq> tgt \<longrightarrow> Some j \<noteq> active \<longrightarrow> heap_of st' j = heap_of st j)"
proof -
  define c where "c = cs_chunks st ! i"
  obtain s where s: "active = Some s" using r by (cases active) (auto simp: stage_and_copy_def)
  show ?thesis
  proof (cases "ce_file env")
    case None
    then have "st' = release (Some tgt) st" "r = Returned None" using r s by (simp_all add: stage_and_copy_def)
    then show ?thesis using release_ok [OF ok, of "Some tgt"] t by (auto simp: heap_of_release)
  next
    case (Some bytes)
    obtain st1 where st1: "copy_from_file (ce_map env) bytes (ck_file_offset c) (ck_size_bytes c) s st = Some st1"
      using r s Some by (auto simp: stage_and_copy_def c_def Let_def split: option.splits)
    obtain b where b: "streamer_ok st1" "heap_of st s = Some b"
      "st1 = set_heap ((heap_of st)(s \<mapsto> b\<lparr>bu_bytes := write_at 0 (read_at (unat (ck_file_offset c)) (unat (ck_size_bytes c)) bytes) (bu_bytes b)\<rparr>)) st"
      using copy_from_file_ok [OF ok st1] by blast
    have v: "cs_fence_val st1 = cs_fence_val st" by (simp add: b(3))
    have idle: "tl_pending (cs_queue st1) = []" "tl_completed (cs_queue st1) 0 < cs_fence_val st + 1"
      using streamer_okD(1,2) [OF b(1)] next_fence_value [OF f] by (simp_all add: v)
    define q1 where "q1 = (cs_queue st1)\<lparr>tl_pending := [], tl_memory := run_copy (tgt, s, ck_size_bytes c) (tl_memory (cs_queue st1)),
        tl_completed := (tl_completed (cs_queue st1))(0 := cs_fence_val st + 1)\<rparr>"
    have r': "r = Returned (Some tgt)" "st' = update_chunk i (ck_in_vram_update (\<lambda>_. True)) (st1\<lparr>cs_queue := q1, cs_fence_val := cs_fence_val st + 1\<rparr>)"
      using r s Some submit_and_wait [OF idle, of run_copy "(tgt, s, ck_size_bytes c)"]
      by (auto simp: stage_and_copy_def c_def [symmetric] st1 v q1_def Let_def)
    have ht: "heap_of st1 tgt = Some bt" using t s by (auto simp: b(3))
    have same: "heap_of st' j = heap_of st1 j" if "j \<noteq> tgt" for j
      using that by (simp add: r' q1_def run_copy_def heap_of_def split: option.split)
    have fresh: "cs_next st1 \<le> j \<Longrightarrow> j \<noteq> tgt" for j using streamer_okD(4) [OF b(1), of j] ht by auto
    have "streamer_ok st'"
      by (rule staging_same [OF b(1), of "{tgt}"])
        (use same fresh streamer_okD [OF b(1)] t in \<open>auto simp: only_changes_def r'(2) q1_def b(3)\<close>)
    then show ?thesis using same s by (auto simp: r'(1) b(3))
  qed
qed


lemma stage_and_copy_exact:
  assumes ok: "streamer_ok st" and fv: "cs_fence_val st \<noteq> UINT64_MAX"
    and t: "heap_of st tgt = Some bt" "length (bu_bytes bt) = unat (ck_size_bytes c)" "tgt \<noteq> s"
    and s: "has_room (heap_of st) s (ck_size_bytes c)"
    and c: "c = cs_chunks st ! i" "unat (ck_file_offset c) + unat (ck_size_bytes c) \<le> length f"
    and env: "ce_map env" "ce_file env = Some f"
  shows "\<exists>st'. stage_and_copy env i tgt (Some s) st = (Returned (Some tgt), st') \<and>
    heap_of st' tgt = Some (bt\<lparr>bu_bytes := read_at (unat (ck_file_offset c)) (unat (ck_size_bytes c)) f\<rparr>)"
proof -
  let ?bs = "read_at (unat (ck_file_offset c)) (unat (ck_size_bytes c)) f"
  have l: "length ?bs = unat (ck_size_bytes c)" using c(2) by (simp add: read_at_def)
  obtain b where b: "heap_of st s = Some b" "length (bu_bytes b) = unat (bu_size b)" "ck_size_bytes c \<le> bu_size b"
    using s unfolding has_room_def by blast
  then have room: "unat (ck_size_bytes c) \<le> length (bu_bytes b)" by (simp add: word_le_nat_alt)
  define st1 where "st1 = set_heap ((heap_of st)(s \<mapsto> b\<lparr>bu_bytes := write_at 0 ?bs (bu_bytes b)\<rparr>)) st"
  have cf: "copy_from_file True f (ck_file_offset c) (ck_size_bytes c) s st = Some st1"
    using room b c(2) by (simp add: copy_from_file_def st1_def)
  have s1: "streamer_ok st1" using copy_from_file_ok [OF ok cf] by blast
  have v: "cs_fence_val st1 = cs_fence_val st" by (simp add: st1_def)
  have idle: "tl_pending (cs_queue st1) = []" "tl_completed (cs_queue st1) 0 < cs_fence_val st + 1"
    using streamer_okD(1,2) [OF s1] next_fence_value [OF fv] by (simp_all add: v)
  have h: "tl_memory (cs_queue st1) tgt = Some bt" "tl_memory (cs_queue st1) s = Some (b\<lparr>bu_bytes := write_at 0 ?bs (bu_bytes b)\<rparr>)"
    using t by (simp_all add: st1_def flip: heap_of_def)
  have w: "write_at 0 (read_at 0 (unat (ck_size_bytes c)) (write_at 0 ?bs (bu_bytes b))) (bu_bytes bt) = ?bs"
    using l t(2) by (simp add: write_at_def read_at_def)
  show ?thesis
    using submit_and_wait [OF idle, of run_copy "(tgt, s, ck_size_bytes c)"] env
    by (simp add: stage_and_copy_def c(1) [symmetric] cf v Let_def run_copy_def h w)
qed

lemma stream_chunk_unfold:
  assumes "find_chunk name (cs_chunks st) = Some i" "c = cs_chunks st ! i"
    and "create_buffer (ce_target env) (ck_size_bytes c) (ck_location c) st = (Inr tgt, st1)"
  shows "stream_chunk_to_gpu env name st =
    (if ck_location c = Loc_Upload then
       (case (case ce_file env of None \<Rightarrow> Some st1
             | Some f \<Rightarrow> copy_from_file (ce_map env) f (ck_file_offset c) (ck_size_bytes c) tgt st1) of
          None \<Rightarrow> (Faults, st1)
        | Some st2 \<Rightarrow> (Returned (Some tgt), update_chunk i (ck_in_ram_update (\<lambda>_. True)) st2))
     else (case ensure_staging env (ck_size_bytes c) st1 of
          (Some e, st2) \<Rightarrow> (Thrown e, release (Some tgt) st2)
        | (None, st2) \<Rightarrow> stage_and_copy env i tgt (if cs_active_idx st2 = 0 then cs_staging_a st2 else cs_staging_b st2)
            (st2\<lparr>cs_active_idx := 1 - cs_active_idx st2\<rparr>)))"
  unfolding stream_chunk_to_gpu_def assms(1) option.case Let_def assms(2) [symmetric] assms(3) prod.case sum.case ..

lemma stream_chunk_ok:
  assumes ok: "streamer_ok st" and fv: "cs_fence_val st \<noteq> UINT64_MAX"
    and r: "stream_chunk_to_gpu env name st = (r, st')" "r \<noteq> Faults"
  shows "streamer_ok st' \<and> r \<noteq> Hangs"
proof (cases "find_chunk name (cs_chunks st)")
  case None
  then show ?thesis using r ok by (auto simp: stream_chunk_to_gpu_def)
next
  case i: (Some i)
  define c where "c = cs_chunks st ! i"
  show ?thesis
  proof (cases "ce_target env")
    case False
    then show ?thesis
      using r ok by (auto simp: stream_chunk_to_gpu_def i create_buffer_ok(3) Let_def)
  next
    case tg: True
    define tgt where "tgt = cs_next st"
    obtain bt where bt: "create_buffer True (ck_size_bytes c) (ck_location c) st =
        (Inr tgt, (set_heap ((heap_of st)(tgt \<mapsto> bt)) st)\<lparr>cs_next := tgt + 1\<rparr>)"
      using create_buffer_ok(2) [OF ok TrueI] unfolding tgt_def by blast
    define st1 where "st1 = (set_heap ((heap_of st)(tgt \<mapsto> bt)) st)\<lparr>cs_next := tgt + 1\<rparr>"
    have st1: "streamer_ok st1"
      using create_buffer_ok(1) [OF ok, of True "ck_size_bytes c" "ck_location c"] by (simp add: bt st1_def)
    have f1: "cs_fence_val st1 = cs_fence_val st" "tgt < cs_next st1" "heap_of st1 tgt = Some bt"
      "cs_staging_a st1 = cs_staging_a st" "cs_staging_b st1 = cs_staging_b st" by (simp_all add: st1_def)
    have nt: "Some tgt \<noteq> cs_staging_a st1" "Some tgt \<noteq> cs_staging_b st1"
      using next_not_staging [OF ok] by (simp_all add: f1 tgt_def)
    have bt1: "create_buffer (ce_target env) (ck_size_bytes c) (ck_location c) st = (Inr tgt, st1)"
      using tg by (simp add: bt st1_def)
    note unfolded = stream_chunk_unfold [OF i c_def bt1]
    show ?thesis
    proof (cases "ck_location c = Loc_Upload")
      case True
      then show ?thesis
        using r st1 copy_from_file_ok [OF st1] unfolding unfolded by (auto split: option.splits)
    next
      case up: False
      obtain err st2 where e: "ensure_staging env (ck_size_bytes c) st1 = (err, st2)" by fastforce
      note es = ensure_staging_ok [OF st1 e]
      have kept: "heap_of st2 tgt = Some bt" "Some tgt \<noteq> cs_staging_a st2" "Some tgt \<noteq> cs_staging_b st2"
        using es f1(2,3) nt by auto
      show ?thesis
      proof (cases err)
        case (Some x)
        then have "r = Thrown x" "st' = release (Some tgt) st2" using r up e unfolding unfolded by simp_all
        then show ?thesis using release_ok [of st2 "Some tgt"] es kept by auto
      next
        case None
        let ?active = "if cs_active_idx st2 = 0 then cs_staging_a st2 else cs_staging_b st2"
        let ?st = "st2\<lparr>cs_active_idx := 1 - cs_active_idx st2\<rparr>"
        have ok2: "streamer_ok st2" using es by blast
        then have "streamer_ok ?st"
          using streamer_okD(3) [OF ok2] by (auto simp: streamer_ok_def)
        then show ?thesis
          using stage_and_copy_ok [of ?st tgt bt ?active env i r st'] r up e es kept fv unfolding unfolded
          by (simp add: None f1 split: if_splits)
      qed
    qed
  qed
qed


text \<open>
  Every history of a streamer: registrations, loads and streams under any environment (the file
  missing, allocations failing, mappings failing), and whatever the callers do with the buffers that
  are theirs. A call that touches memory it does not have has no successor.
\<close>

inductive streamer_run :: "ChunkStreamer \<Rightarrow> bool" where
  Start: "(\<And>i. n \<le> i \<Longrightarrow> heap i = None) \<Longrightarrow> streamer_run (new_ChunkStreamer heap n)"
| Register: "streamer_run st \<Longrightarrow> streamer_run (register_chunk name offset k loc st)"
| Load: "streamer_run st \<Longrightarrow> load_chunk_to_cpu env name dest st = (r, st') \<Longrightarrow> r \<noteq> Faults \<Longrightarrow> streamer_run st'"
| Stream: "streamer_run st \<Longrightarrow> cs_fence_val st \<noteq> UINT64_MAX \<Longrightarrow> stream_chunk_to_gpu env name st = (r, st') \<Longrightarrow> r \<noteq> Faults \<Longrightarrow>
    streamer_run st'"
| Owner: "streamer_run st \<Longrightarrow> (\<And>i. cs_next st \<le> i \<Longrightarrow> m i = None) \<Longrightarrow>
    (\<And>i. Some i = cs_staging_a st \<or> Some i = cs_staging_b st \<Longrightarrow> m i = heap_of st i) \<Longrightarrow> streamer_run (set_heap m st)"

lemma load_fields:
  "load_chunk_to_cpu env name dest st = (r, st') \<Longrightarrow> streamer_ok st \<Longrightarrow> streamer_ok st'"
  by (auto simp: load_chunk_to_cpu_def Let_def split: option.splits if_splits)

lemma streamer_run_ok: "streamer_run st \<Longrightarrow> streamer_ok st"
proof (induction rule: streamer_run.induct)
  case (Start n heap)
  then show ?case by (simp add: streamer_ok_def new_ChunkStreamer_def new_timeline_def heap_of_def)
next
  case (Register st name offset k loc)
  then show ?case by (simp add: streamer_ok_def register_chunk_def heap_of_def)
next
  case (Load st env name dest r st')
  then show ?case by (blast intro: load_fields)
next
  case (Stream st env name r st')
  then show ?case using stream_chunk_ok by blast
next
  case (Owner st m)
  have "has_room m i k = has_room (heap_of st) i k" if "Some i = cs_staging_a st \<or> Some i = cs_staging_b st" for i k
    using Owner.hyps(3) [OF that] by (rule has_room_cong)
  then show ?case using Owner.IH Owner.hyps(2) by (auto simp: streamer_ok_def)
qed

lemma find_chunk_first:
  "find_chunk name cs = Some i \<Longrightarrow> i < length cs \<and> ck_name (cs ! i) = name \<and> (\<forall>j < i. ck_name (cs ! j) \<noteq> name)"
proof (induction cs arbitrary: i)
  case (Cons c cs)
  show ?case
  proof (cases "ck_name c = name")
    case False
    then obtain k where k: "find_chunk name cs = Some k" "i = Suc k" using Cons.prems by auto
    then show ?thesis using Cons.IH [OF k(1)] False by (auto simp: nth_Cons split: nat.splits)
  qed (use Cons.prems in simp)
qed simp

text \<open>
  C24. After any history of a chunk streamer, including calls that threw between the two
  staging allocations, streaming a registered chunk of at least one byte whose range lies in the
  file, where every allocation and the mapping succeed and the fence value is not the last one of 64 bits, returns a
  buffer of its own that holds exactly the bytes of that range, whether it goes to system memory
  directly or to video memory through a staging buffer; the call returns, and no buffer of a
  caller changes. Of chunks registered under one name the first is meant.
\<close>

theorem chunk_stream_exact:
  assumes run: "streamer_run st" and fv: "cs_fence_val st \<noteq> UINT64_MAX"
    and i: "find_chunk name (cs_chunks st) = Some i" and c: "c = cs_chunks st ! i"
    and n: "ck_size_bytes c \<noteq> 0" and f: "unat (ck_file_offset c) + unat (ck_size_bytes c) \<le> length f"
    and env: "env = \<lparr> ce_target = True, ce_staging_a = True, ce_staging_b = True, ce_map = True, ce_file = Some f \<rparr>"
  shows "\<exists>tgt b st'. stream_chunk_to_gpu env name st = (Returned (Some tgt), st') \<and> heap_of st tgt = None \<and>
    heap_of st' tgt = Some b \<and> bu_bytes b = read_at (unat (ck_file_offset c)) (unat (ck_size_bytes c)) f \<and>
    (\<forall>j < cs_next st. Some j \<noteq> cs_staging_a st \<longrightarrow> Some j \<noteq> cs_staging_b st \<longrightarrow> heap_of st' j = heap_of st j)"
proof -
  have ok: "streamer_ok st" using streamer_run_ok [OF run] .
  have en: "ce_target env" "ce_staging_a env" "ce_staging_b env" "ce_map env" "ce_file env = Some f"
    using env by simp_all
  define tgt where "tgt = cs_next st"
  obtain bt where bt: "create_buffer True (ck_size_bytes c) (ck_location c) st =
      (Inr tgt, (set_heap ((heap_of st)(tgt \<mapsto> bt)) st)\<lparr>cs_next := tgt + 1\<rparr>)"
    "bu_size bt = ck_size_bytes c" "bu_bytes bt = replicate (unat (ck_size_bytes c)) 0"
    using create_buffer_ok(2) [OF ok TrueI] unfolding tgt_def by blast
  define st1 where "st1 = (set_heap ((heap_of st)(tgt \<mapsto> bt)) st)\<lparr>cs_next := tgt + 1\<rparr>"
  have st1: "streamer_ok st1"
    using create_buffer_ok(1) [OF ok, of True "ck_size_bytes c" "ck_location c"] by (simp add: bt(1) st1_def)
  have bt1: "create_buffer (ce_target env) (ck_size_bytes c) (ck_location c) st = (Inr tgt, st1)"
    using en by (simp add: bt(1) st1_def)
  note unfolded = stream_chunk_unfold [OF i c bt1]
  have f1: "cs_fence_val st1 = cs_fence_val st" "cs_next st1 = tgt + 1" "heap_of st1 tgt = Some bt"
    "cs_staging_a st1 = cs_staging_a st" "cs_staging_b st1 = cs_staging_b st" "cs_chunks st1 = cs_chunks st"
    "j < tgt \<Longrightarrow> heap_of st1 j = heap_of st j" for j by (simp_all add: st1_def)
  have fresh: "heap_of st tgt = None" using streamer_okD(4) [OF ok, of tgt] by (simp add: tgt_def)
  show ?thesis
  proof (cases "ck_location c = Loc_Upload")
    case True
    let ?b = "bt\<lparr>bu_bytes := write_at 0 (read_at (unat (ck_file_offset c)) (unat (ck_size_bytes c)) f) (bu_bytes bt)\<rparr>"
    have cf: "copy_from_file True f (ck_file_offset c) (ck_size_bytes c) tgt st1 = Some (set_heap ((heap_of st1)(tgt \<mapsto> ?b)) st1)"
      using f by (simp add: copy_from_file_def f1 bt(3))
    have "bu_bytes ?b = read_at (unat (ck_file_offset c)) (unat (ck_size_bytes c)) f"
      using f by (simp add: bt(3) write_at_def read_at_def)
    moreover have "stream_chunk_to_gpu env name st =
        (Returned (Some tgt), update_chunk i (ck_in_ram_update (\<lambda>_. True)) (set_heap ((heap_of st1)(tgt \<mapsto> ?b)) st1))"
      using True cf by (simp add: unfolded en)
    ultimately show ?thesis using fresh f1(7) by (intro exI conjI) (assumption | simp add: tgt_def)+
  next
    case up: False
    obtain err st2 where e: "ensure_staging env (ck_size_bytes c) st1 = (err, st2)" by fastforce
    note es = ensure_staging_ok [OF st1 e]
    have err: "err = None" using es en by simp
    obtain a b where ab: "cs_staging_a st2 = Some a" "cs_staging_b st2 = Some b"
      "has_room (heap_of st2) a (ck_size_bytes c)" "has_room (heap_of st2) b (ck_size_bytes c)"
      using es err n by blast
    have nt: "Some tgt \<noteq> cs_staging_a st1" "Some tgt \<noteq> cs_staging_b st1"
      using next_not_staging [OF ok] by (simp_all add: f1 tgt_def)
    have kept: "heap_of st2 tgt = Some bt" "tgt \<noteq> a" "tgt \<noteq> b"
      using es f1(2,3) nt ab(1,2) by auto
    define s where "s = (if cs_active_idx st2 = 0 then a else b)"
    let ?st = "st2\<lparr>cs_active_idx := 1 - cs_active_idx st2\<rparr>"
    have ok2: "streamer_ok st2" using es by blast
    then have ok3: "streamer_ok ?st" using streamer_okD(3) [OF ok2] by (auto simp: streamer_ok_def)
    have ch: "cs_chunks ?st ! i = c" "cs_fence_val ?st \<noteq> UINT64_MAX" using es fv by (simp_all add: f1 c)
    have hs: "heap_of ?st tgt = Some bt" "length (bu_bytes bt) = unat (ck_size_bytes c)" "tgt \<noteq> s"
      "has_room (heap_of ?st) s (ck_size_bytes c)"
      using kept ab(3,4) by (simp_all add: s_def bt(3))
    obtain st' where st': "stage_and_copy env i tgt (Some s) ?st = (Returned (Some tgt), st')"
      "heap_of st' tgt = Some (bt\<lparr>bu_bytes := read_at (unat (ck_file_offset c)) (unat (ck_size_bytes c)) f\<rparr>)"
      using stage_and_copy_exact [OF ok3 ch(2) hs(1) hs(2) hs(3) hs(4) ch(1) [symmetric] f en(4,5)] by blast
    have un: "stream_chunk_to_gpu env name st = (Returned (Some tgt), st')"
      using up st'(1) e err ab(1,2) by (simp add: unfolded s_def split: if_splits)
    have same: "heap_of st' j = heap_of st j" if j: "j < cs_next st" "Some j \<noteq> cs_staging_a st" "Some j \<noteq> cs_staging_b st" for j
    proof -
      have j2: "heap_of st2 j = heap_of st1 j \<and> Some j \<noteq> cs_staging_a st2 \<and> Some j \<noteq> cs_staging_b st2"
        using es j by (simp add: f1 tgt_def)
      then have "heap_of st' j = heap_of ?st j"
        using stage_and_copy_ok [OF ok3 ch(2) hs(1) _ _ _ st'(1)] es nt hs(3) ab(1,2) j(1) j2 f1(2)
        by (simp add: s_def tgt_def split: if_splits)
      then show ?thesis using j2 f1(7) j(1) by (simp add: tgt_def)
    qed
    show ?thesis using un fresh st'(2) same by (intro exI conjI) (assumption | simp)+
  qed
qed


definition example_streamer :: ChunkStreamer where
  "example_streamer = register_chunk ''w'' 1 2 Loc_Default (new_ChunkStreamer Map.empty 0)"

theorem chunk_stream_exact_witness:
  "\<exists>tgt b st'. stream_chunk_to_gpu \<lparr> ce_target = True, ce_staging_a = True, ce_staging_b = True, ce_map = True,
      ce_file = Some [1, 2, 3, 4] \<rparr> ''w'' example_streamer = (Returned (Some tgt), st') \<and>
    heap_of st' tgt = Some b \<and> bu_bytes b = [2, 3]"
proof -
  let ?c = "\<lparr> ck_name = ''w'', ck_file_offset = 1, ck_size_bytes = 2, ck_location = Loc_Default, ck_in_vram = False, ck_in_ram = False \<rparr>"
  have run: "streamer_run example_streamer"
    unfolding example_streamer_def by (intro streamer_run.intros) simp
  have c: "cs_chunks example_streamer = [?c]" "cs_fence_val example_streamer \<noteq> UINT64_MAX"
    by (simp_all add: example_streamer_def register_chunk_def new_ChunkStreamer_def)
  have r: "read_at (unat (ck_file_offset ?c)) (unat (ck_size_bytes ?c)) [1, 2, 3, 4 :: u8] = [2, 3]"
    by (simp add: read_at_def)
  have i: "find_chunk ''w'' (cs_chunks example_streamer) = Some 0" "?c = cs_chunks example_streamer ! 0" by (simp_all add: c(1))
  have n: "ck_size_bytes ?c \<noteq> 0" "unat (ck_file_offset ?c) + unat (ck_size_bytes ?c) \<le> length [1, 2, 3, 4 :: u8]" by simp_all
  show ?thesis
    using chunk_stream_exact [OF run c(2) i n refl] unfolding r by blast
qed

text \<open>Without the file, the direct path still returns a buffer, of zeros, where the staged path returns none.\<close>

lemma missing_file_upload:
  "\<exists>st'. stream_chunk_to_gpu \<lparr> ce_target = True, ce_staging_a = True, ce_staging_b = True, ce_map = True, ce_file = None \<rparr> ''w''
      (register_chunk ''w'' 1 2 Loc_Upload (new_ChunkStreamer Map.empty 0)) = (Returned (Some 0), st') \<and>
    map_option bu_bytes (heap_of st' 0) = Some (replicate 2 0) \<and> ck_in_ram (hd (cs_chunks st'))"
  by (simp add: stream_chunk_to_gpu_def register_chunk_def new_ChunkStreamer_def create_buffer_def new_Buffer_def
      new_timeline_def heap_of_def set_heap_def update_chunk_def)

section \<open>Allocating pages\<close>

datatype 'i slot_op = Take | Give 'i

text \<open>The specification: the first slot in order that is not in use, the set of those that are.\<close>

fun slot_spec :: "'i list \<Rightarrow> 'i slot_op list \<Rightarrow> 'i set \<Rightarrow> 'i option list \<times> 'i set" where
  "slot_spec slots [] used = ([], used)"
| "slot_spec slots (Take # ops) used =
    (let r = find (\<lambda>i. i \<notin> used) slots; (rs, u) = slot_spec slots ops (used \<union> set_option r) in (r # rs, u))"
| "slot_spec slots (Give i # ops) used = slot_spec slots ops (used - {i})"

fun slot_run :: "('s \<Rightarrow> 'i option \<times> 's) \<Rightarrow> ('i \<Rightarrow> 's \<Rightarrow> 's) \<Rightarrow> 'i slot_op list \<Rightarrow> 's \<Rightarrow> 'i option list \<times> 's" where
  "slot_run take_one give [] s = ([], s)"
| "slot_run take_one give (Take # ops) s =
    (let (r, s1) = take_one s; (rs, s2) = slot_run take_one give ops s1 in (r # rs, s2))"
| "slot_run take_one give (Give i # ops) s = slot_run take_one give ops (give i s)"

locale slot_allocator =
  fixes ok :: "'s \<Rightarrow> bool"
    and slots :: "'s \<Rightarrow> 'i list"
    and in_use :: "'s \<Rightarrow> 'i set"
    and take_one :: "'s \<Rightarrow> 'i option \<times> 's"
    and give :: "'i \<Rightarrow> 's \<Rightarrow> 's"
  assumes take_first: "ok s \<Longrightarrow> fst (take_one s) = find (\<lambda>i. i \<notin> in_use s) (slots s)"
    and take_marks: "ok s \<Longrightarrow> in_use (snd (take_one s)) = in_use s \<union> set_option (fst (take_one s))"
    and take_keeps: "ok s \<Longrightarrow> ok (snd (take_one s)) \<and> slots (snd (take_one s)) = slots s"
    and give_clears: "ok s \<Longrightarrow> in_use (give i s) = in_use s - {i}"
    and give_keeps: "ok s \<Longrightarrow> ok (give i s) \<and> slots (give i s) = slots s"
begin

lemma run_refines:
  "ok s \<Longrightarrow> slot_spec (slots s) ops (in_use s) =
    (fst (slot_run take_one give ops s), in_use (snd (slot_run take_one give ops s)))"
proof (induction take_one\<equiv>take_one give\<equiv>give ops s rule: slot_run.induct)
  case (2 ops s)
  obtain r s1 where t: "take_one s = (r, s1)" by fastforce
  obtain rs s2 where rest: "slot_run take_one give ops s1 = (rs, s2)" by fastforce
  have s1: "ok s1" "slots s1 = slots s" "in_use s1 = in_use s \<union> set_option r" "find (\<lambda>i. i \<notin> in_use s) (slots s) = r"
    using take_first take_marks take_keeps "2.prems" t by (metis fst_conv snd_conv)+
  have "slot_spec (slots s) ops (in_use s \<union> set_option r) = (rs, in_use s2)"
    using "2.hyps" [OF t [symmetric] refl s1(1)] rest s1 by simp
  then show ?case by (simp add: t rest s1(4) Let_def)
next
  case (3 i ops s)
  then show ?case using give_clears give_keeps by simp
qed simp

text \<open>No slot is handed out while it is in use.\<close>

lemma taken_was_free: "ok s \<Longrightarrow> fst (take_one s) = Some i \<Longrightarrow> i \<notin> in_use s \<and> i \<in> set (slots s)"
  using take_first [of s] by (auto simp: find_Some_iff)

lemma refused_when_full: "ok s \<Longrightarrow> fst (take_one s) = None \<longleftrightarrow> set (slots s) \<subseteq> in_use s"
  using take_first [of s] by (auto simp: find_None_iff)

end

definition kv_ok :: "KVCacheManager \<Rightarrow> bool" where
  "kv_ok kv \<longleftrightarrow> length (kv_allocated_pages kv) < 4294967296"

definition kv_slots :: "KVCacheManager \<Rightarrow> u32 list" where
  "kv_slots kv = map of_nat [0..<length (kv_allocated_pages kv)]"

definition kv_in_use :: "KVCacheManager \<Rightarrow> u32 set" where
  "kv_in_use kv = {i. unat i < length (kv_allocated_pages kv) \<and> kv_allocated_pages kv ! unat i}"

text \<open>\<open>allocate_sequence\<close> with its \<open>0xFFFFFFFF\<close> read as no page.\<close>

definition kv_take :: "KVCacheManager \<Rightarrow> u32 option \<times> KVCacheManager" where
  "kv_take kv = (let (i, kv') = allocate_sequence kv in (if i = 0xFFFFFFFF then None else Some i, kv'))"

lemma find_map_cong: "find P (map f xs) = map_option f (find (P \<circ> f) xs)"
  by (induction xs) simp_all

lemma first_free_find: "first_free ps = find (\<lambda>i. \<not> ps ! i) [0..<length ps]"
proof (induction ps)
  case (Cons p ps)
  have "find (\<lambda>i. \<not> (p # ps) ! i) [Suc 0..<Suc (length ps)] = map_option Suc (find (\<lambda>i. \<not> ps ! i) [0..<length ps])"
    unfolding map_Suc_upt [symmetric] by (simp add: find_map_cong comp_def)
  then show ?case using Cons by (cases p) (simp_all add: upt_conv_Cons del: upt_Suc)
qed simp

lemma kv_first_page:
  assumes "kv_ok kv"
  shows "find (\<lambda>i. i \<notin> kv_in_use kv) (kv_slots kv) = map_option of_nat (first_free (kv_allocated_pages kv))"
proof -
  have "find ((\<lambda>i. i \<notin> kv_in_use kv) \<circ> of_nat) [0..<length (kv_allocated_pages kv)] =
      find (\<lambda>i. \<not> kv_allocated_pages kv ! i) [0..<length (kv_allocated_pages kv)]"
    using assms by (intro find_cong) (auto simp: kv_in_use_def kv_ok_def unat_of_nat_u32)
  then show ?thesis by (simp add: kv_slots_def find_map_cong first_free_find)
qed


lemma kv_take_marks:
  assumes "kv_ok kv"
  shows "fst (kv_take kv) = find (\<lambda>i. i \<notin> kv_in_use kv) (kv_slots kv)"
    and "kv_in_use (snd (kv_take kv)) = kv_in_use kv \<union> set_option (fst (kv_take kv))"
    and "kv_ok (snd (kv_take kv)) \<and> kv_slots (snd (kv_take kv)) = kv_slots kv"
proof -
  let ?ps = "kv_allocated_pages kv"
  have len: "length ?ps < 4294967296" using assms by (simp add: kv_ok_def)
  have "fst (kv_take kv) = find (\<lambda>i. i \<notin> kv_in_use kv) (kv_slots kv) \<and>
    kv_in_use (snd (kv_take kv)) = kv_in_use kv \<union> set_option (fst (kv_take kv)) \<and>
    kv_ok (snd (kv_take kv)) \<and> kv_slots (snd (kv_take kv)) = kv_slots kv"
  proof (cases "first_free ?ps")
    case None
    then show ?thesis using assms by (simp add: kv_take_def allocate_sequence_def kv_first_page)
  next
    case (Some i)
    then have i: "i < length ?ps" "\<not> ?ps ! i" by (auto simp: first_free_find find_Some_iff)
    have u: "unat (of_nat i :: u32) = i" using i len by (intro unat_of_nat_u32) simp
    have "of_nat i \<noteq> (0xFFFFFFFF :: u32)"
    proof
      assume "of_nat i = (0xFFFFFFFF :: u32)"
      then have "i = 4294967295" using u by simp
      then show False using i(1) len by simp
    qed
    then have t: "kv_take kv = (Some (of_nat i), kv\<lparr>kv_allocated_pages := ?ps[i := True]\<rparr>)"
      by (simp add: kv_take_def allocate_sequence_def Some)
    have "kv_in_use (kv\<lparr>kv_allocated_pages := ?ps[i := True]\<rparr>) = insert (of_nat i) (kv_in_use kv)"
      using i u by (auto simp: kv_in_use_def nth_list_update word_unat_eq_iff)
    moreover have "kv_slots (kv\<lparr>kv_allocated_pages := ?ps[i := True]\<rparr>) = kv_slots kv" by (simp add: kv_slots_def)
    moreover have "find (\<lambda>i. i \<notin> kv_in_use kv) (kv_slots kv) = Some (of_nat i)" by (simp add: kv_first_page assms Some)
    ultimately show ?thesis using len by (simp add: t kv_ok_def)
  qed
  then show "fst (kv_take kv) = find (\<lambda>i. i \<notin> kv_in_use kv) (kv_slots kv)"
    "kv_in_use (snd (kv_take kv)) = kv_in_use kv \<union> set_option (fst (kv_take kv))"
    "kv_ok (snd (kv_take kv)) \<and> kv_slots (snd (kv_take kv)) = kv_slots kv" by blast+
qed

lemma kv_give_clears:
  assumes "kv_ok kv"
  shows "kv_in_use (free_sequence i kv) = kv_in_use kv - {i}"
    and "kv_ok (free_sequence i kv) \<and> kv_slots (free_sequence i kv) = kv_slots kv"
  using assms by (auto simp: free_sequence_def kv_in_use_def kv_ok_def kv_slots_def nth_list_update word_unat_eq_iff)

interpretation kv_pages: slot_allocator kv_ok kv_slots kv_in_use kv_take free_sequence
  by unfold_locales (auto simp: kv_take_marks kv_give_clears)

text \<open>
  C30. Over every sequence of allocations and releases, starting from the constructor, the KV
  cache hands out pages as the specification does: always the lowest page not in use, never one
  that is in use, and \<open>0xFFFFFFFF\<close> exactly when every page is; a release of a page that does not
  exist changes nothing. The number of pages is the rounded quotient of the sequence length, in
  32-bit arithmetic.
\<close>

theorem kv_pages_first_fit:
  assumes "new_KVCacheManager key_ok val_ok cfg = Returned kv"
  shows "fst (slot_run kv_take free_sequence ops kv) =
    fst (slot_spec (map of_nat [0..<unat ((kc_max_seq_len cfg + kc_page_size cfg - 1) div kc_page_size cfg)]) ops {})"
proof -
  have p: "kv_allocated_pages kv = replicate (unat ((kc_max_seq_len cfg + kc_page_size cfg - 1) div kc_page_size cfg)) False"
    using assms by (auto simp: new_KVCacheManager_def Let_def split: sum.splits if_splits)
  then have "kv_ok kv" "kv_in_use kv = {}" by (simp_all add: kv_ok_def kv_in_use_def u32_lt)
  then show ?thesis
    using kv_pages.run_refines [of kv ops] by (simp add: kv_slots_def p)
qed

definition example_kv_config :: KVCacheConfig where
  "example_kv_config = \<lparr> kc_num_layers = 1, kc_num_heads = 1, kc_head_dim = 1, kc_max_seq_len = 17, kc_page_size = 16 \<rparr>"

theorem kv_pages_first_fit_witness:
  "\<exists>kv. new_KVCacheManager True True example_kv_config = Returned kv \<and>
    fst (slot_run kv_take free_sequence [Take, Take, Take, Give 0, Take] kv) = [Some 0, Some 1, None, Some 0]"
proof -
  obtain b where b: "new_Buffer True (ucast (1 :: u32) * ucast (1 :: u32) * ucast (17 :: u32) * ucast (1 :: u32) * 2) Loc_Default = Inr b"
    by (rule new_Buffer_ok)
  then have n: "new_KVCacheManager True True example_kv_config = Returned \<lparr> kv_config = example_kv_config,
      kv_key_buffer = b, kv_val_buffer = b, kv_allocated_pages = replicate (unat ((17 + 16 - 1 :: u32) div 16)) False \<rparr>"
    by (simp add: new_KVCacheManager_def example_kv_config_def)
  have pages: "map of_nat [0..<unat ((kc_max_seq_len example_kv_config + kc_page_size example_kv_config - 1) div
      kc_page_size example_kv_config)] = [0, 1 :: u32]"
    by (simp add: example_kv_config_def upt_rec)
  have spec: "fst (slot_spec [0, 1 :: u32] [Take, Take, Take, Give 0, Take] {}) = [Some 0, Some 1, None, Some 0]"
    by (simp add: Let_def)
  show ?thesis
    using n kv_pages_first_fit [OF n, of "[Take, Take, Take, Give 0, Take]"] unfolding pages spec by blast
qed

text \<open>Two ways the sizes wrap: no pages for the longest sequences, no bytes for large caches.\<close>

lemma kv_pages_wrap: "(0xFFFFFFFF + 16 - 1 :: u32) div 16 = 0"
  by simp

text \<open>What a division into shards loses.\<close>

lemma shards_equal:
  "shards_from (\<lambda>_. True) d n i k = Some (Inr xs) \<Longrightarrow> length xs = k \<and> (\<forall>x \<in> set xs. snd x = n)"
proof (induction k arbitrary: i xs)
  case (Suc k)
  obtain b where "new_Buffer True n Loc_Default = Inr b" by (rule new_Buffer_ok)
  then show ?case
    using Suc.prems
    by (cases "shards_from (\<lambda>_. True) d n (Suc i) k") (auto split: if_splits simp: map_sum_def split: sum.splits dest!: Suc.IH)
qed simp


lemma shards_lose_remainder:
  assumes "shard_buffer (\<lambda>_. True) d bytes k = Some (Inr xs)" "k \<noteq> 0"
  shows "sum_list (map (\<lambda>x. unat (snd x)) xs) = unat bytes - unat bytes mod unat k"
proof -
  have s: "length xs = unat k" "\<forall>x \<in> set xs. snd x = bytes div ucast k"
    using assms shards_equal unfolding shard_buffer_def by auto
  have "map (\<lambda>x. unat (snd x)) xs = replicate (length xs) (unat (bytes div ucast k))"
    using s(2) by (intro replicate_eqI) auto
  then have "sum_list (map (\<lambda>x. unat (snd x)) xs) = unat k * (unat bytes div unat k)"
    by (simp add: s(1) sum_list_replicate unat_div unat_ucast_u64)
  then show ?thesis by (simp add: minus_mod_eq_mult_div)
qed

text \<open>\<open>page_swap\<close> copies one way: the bytes of the system buffer reach video memory, nothing comes back.\<close>

lemma page_swap_one_way:
  assumes "tl_pending t = []" "tl_memory t ram = Some r" "tl_memory t vram = Some v" "ram \<noteq> vram"
  shows "\<exists>t'. page_swap True True f ram vram n t = Returned t' \<and> tl_memory t' ram = Some r \<and>
    map_option bu_bytes (tl_memory t' vram) = Some (write_at 0 (read_at 0 (unat n) (bu_bytes r)) (bu_bytes v))"
proof -
  have i: "tl_pending (create_fence f 0 t) = []" "tl_completed (create_fence f 0 t) f < 1"
    "tl_memory (create_fence f 0 t) = tl_memory t"
    using assms(1) by (simp_all add: create_fence_def)
  show ?thesis
    using submit_and_wait [OF i(1,2), of run_copy "(vram, ram, n)"] assms(2-4)
    by (simp add: page_swap_def Let_def run_copy_def i(3))
qed


end
