(* ===== verification/ContextServer.thy ===== *)
theory ContextServer
  imports Placement RetrieveDB TraceSession JsonText
begin

text \<open>
  The long context engine of \<open>src/dxcontext/dxcontext.cpp\<close>, which accounts for the tokens of a
  conversation between a window in video memory and a cold store in system memory, and the
  JSON-RPC server of \<open>src/dxmcp/dxmcp.cpp\<close>, which serves it together with the vector database of
  \<open>RetrieveDB\<close>. The engine's buffers are numbers in the heap of \<open>Placement\<close>. The answers are held against the reader of
  \<open>JsonText\<close>.
\<close>

section \<open>The engine\<close>

datatype ContextQuantType = Quant_None | Quant_Int8 | Quant_Q4_0

record ContextConfig =
  cx_max_tokens :: u32
  cx_active_target_tokens :: u32
  cx_num_heads :: u32
  cx_head_dim :: u32
  cx_sliding_window :: u32
  cx_quant_type :: ContextQuantType
  cx_enable_offloading :: bool
  cx_enable_compression :: bool

record ContextStats =
  st_active_tokens :: u32
  st_target_tokens :: u32
  st_vram_tokens :: u32
  st_sysram_tokens :: u32
  st_vram_bytes :: u64
  st_sysram_bytes :: u64
  st_compression_ratio :: f32

record LongContextEngine =
  lc_config :: ContextConfig
  lc_stats :: ContextStats
  lc_vram_kv_cache :: nat
  lc_sysram_kv_cache :: "nat option"

definition calculate_kv_bytes :: "u32 \<Rightarrow> u32 \<Rightarrow> u32 \<Rightarrow> ContextQuantType \<Rightarrow> u64" where
  "calculate_kv_bytes tokens heads dim quant =
    (let raw_bytes = ucast tokens * ucast heads * ucast dim * 2 * 4
     in case quant of Quant_Int8 \<Rightarrow> raw_bytes div 2 | Quant_Q4_0 \<Rightarrow> raw_bytes div 4 | Quant_None \<Rightarrow> raw_bytes)"

definition cold_tokens_of :: "ContextConfig \<Rightarrow> u32" where
  "cold_tokens_of cfg =
    (if cx_active_target_tokens cfg > cx_sliding_window cfg then cx_active_target_tokens cfg - cx_sliding_window cfg else 0)"

definition config_bytes :: "ContextConfig \<Rightarrow> u32 \<Rightarrow> u64" where
  "config_bytes cfg tokens = calculate_kv_bytes tokens (cx_num_heads cfg) (cx_head_dim cfg) (cx_quant_type cfg)"

text \<open>\<open>4.0f\<close>, \<open>2.0f\<close> and \<open>1.0f\<close> by their patterns.\<close>

definition quant_ratio :: "ContextQuantType \<Rightarrow> f32" where
  "quant_ratio q = (if q = Quant_Q4_0 then 0x40800000 else if q = Quant_Int8 then 0x40000000 else f32_one)"

text \<open>
  The constructor: the two flags are the allocations, \<open>i\<close> and \<open>i + 1\<close> the numbers of the
  buffers, \<open>m\<close> the heap they are put into.
\<close>

definition new_LongContextEngine ::
  "bool \<Rightarrow> bool \<Rightarrow> ContextConfig \<Rightarrow> nat \<Rightarrow> buffer_heap \<Rightarrow> (string + LongContextEngine) \<times> buffer_heap" where
  "new_LongContextEngine vram_ok sys_ok cfg i m =
    (let vram_bytes = config_bytes cfg (cx_sliding_window cfg); cold_tokens = cold_tokens_of cfg;
         stats = \<lparr> st_active_tokens = 0, st_target_tokens = cx_active_target_tokens cfg, st_vram_tokens = 0,
                   st_sysram_tokens = 0, st_vram_bytes = vram_bytes, st_sysram_bytes = 0, st_compression_ratio = f32_one \<rparr>
     in case new_Buffer vram_ok vram_bytes Loc_Default of
          Inl e \<Rightarrow> (Inl e, m)
        | Inr v \<Rightarrow>
            if cx_enable_offloading cfg \<and> cold_tokens > 0 then
              (let sys_bytes = config_bytes cfg cold_tokens
               in case new_Buffer sys_ok sys_bytes Loc_Upload of
                    Inl e \<Rightarrow> (Inl e, m)
                  | Inr s \<Rightarrow> (Inr \<lparr> lc_config = cfg,
                        lc_stats = stats\<lparr>st_sysram_bytes := sys_bytes, st_compression_ratio := quant_ratio (cx_quant_type cfg)\<rparr>,
                        lc_vram_kv_cache = i, lc_sysram_kv_cache = Some (i + 1) \<rparr>, m(i \<mapsto> v, i + 1 \<mapsto> s)))
            else (Inr \<lparr> lc_config = cfg, lc_stats = stats\<lparr>st_compression_ratio := quant_ratio (cx_quant_type cfg)\<rparr>,
                   lc_vram_kv_cache = i, lc_sysram_kv_cache = None \<rparr>, m(i \<mapsto> v)))"

text \<open>A failed allocation throws after the new target has been stored.\<close>

definition set_target_context_length ::
  "bool \<Rightarrow> nat \<Rightarrow> u32 \<Rightarrow> LongContextEngine \<Rightarrow> buffer_heap \<Rightarrow> string option \<times> LongContextEngine \<times> buffer_heap" where
  "set_target_context_length ok i target_tokens e m =
    (let cfg = (lc_config e)\<lparr>cx_active_target_tokens := min target_tokens (cx_max_tokens (lc_config e))\<rparr>;
         e1 = e\<lparr>lc_config := cfg, lc_stats := (lc_stats e)\<lparr>st_target_tokens := cx_active_target_tokens cfg\<rparr>\<rparr>;
         sys_bytes = config_bytes cfg (cold_tokens_of cfg)
     in if cx_enable_offloading cfg \<and> sys_bytes > 0 then
          (case new_Buffer ok sys_bytes Loc_Upload of
             Inl err \<Rightarrow> (Some err, e1, m)
           | Inr s \<Rightarrow> (None, e1\<lparr>lc_sysram_kv_cache := Some i, lc_stats := (lc_stats e1)\<lparr>st_sysram_bytes := sys_bytes\<rparr>\<rparr>,
               (case lc_sysram_kv_cache e of None \<Rightarrow> m | Some old \<Rightarrow> m(old := None))(i \<mapsto> s)))
        else (None, e1, m))"

definition append_tokens :: "u32 \<Rightarrow> LongContextEngine \<Rightarrow> LongContextEngine" where
  "append_tokens num_tokens e =
    (let active = st_active_tokens (lc_stats e) + num_tokens; window = cx_sliding_window (lc_config e)
     in e\<lparr>lc_stats := (lc_stats e)\<lparr>st_active_tokens := active, st_vram_tokens := min active window,
          st_sysram_tokens := (if active > window then active - window else 0)\<rparr>\<rparr>)"

text \<open>\<open>translate_context_for_model\<close> prints three numbers: the anchor, the recent window and the rest.\<close>

definition translate_context_for_model :: "u32 \<Rightarrow> LongContextEngine \<Rightarrow> (u32 \<times> u32 \<times> u32) option" where
  "translate_context_for_model model_max_context e =
    (if st_active_tokens (lc_stats e) \<le> model_max_context then None
     else let prompt_anchor_tokens = 128;
              recent_window_tokens = (if model_max_context > prompt_anchor_tokens then model_max_context - prompt_anchor_tokens
                                      else model_max_context)
          in Some (prompt_anchor_tokens, recent_window_tokens,
               st_active_tokens (lc_stats e) - (prompt_anchor_tokens + recent_window_tokens)))"

text \<open>
  The two copies between the stores, each on a queue with a fence \<open>f\<close> of its own; the flags are
  the command allocator and the command list. A copy that leaves a buffer faults.
\<close>

definition context_copy ::
  "bool \<Rightarrow> bool \<Rightarrow> nat \<Rightarrow> nat \<Rightarrow> nat \<Rightarrow> u64 \<Rightarrow> (copy_command, buffer_heap) timeline \<Rightarrow> (copy_command, buffer_heap) timeline call" where
  "context_copy alloc_ok list_ok f dst src bytes t0 =
    (let t = create_fence f 0 t0
     in if \<not> alloc_ok \<or> \<not> list_ok then Returned t
        else case (tl_memory t dst, tl_memory t src) of
               (Some d, Some s) \<Rightarrow>
                 if bytes > bu_size d \<or> bytes > bu_size s then Faults
                 else (case fence_wait run_copy f 1 (queue_signal f 1 (queue_execute (dst, src, bytes) t)) of
                         None \<Rightarrow> Hangs | Some t1 \<Rightarrow> Returned t1)
             | _ \<Rightarrow> Faults)"

definition offload_cold_context ::
  "bool \<Rightarrow> bool \<Rightarrow> nat \<Rightarrow> LongContextEngine \<Rightarrow> (copy_command, buffer_heap) timeline \<Rightarrow> (copy_command, buffer_heap) timeline call" where
  "offload_cold_context alloc_ok list_ok f e t =
    (case lc_sysram_kv_cache e of
       None \<Rightarrow> Returned t
     | Some s \<Rightarrow>
         if \<not> cx_enable_offloading (lc_config e) \<or> st_sysram_tokens (lc_stats e) = 0 then Returned t
         else context_copy alloc_ok list_ok f s (lc_vram_kv_cache e) (config_bytes (lc_config e) 1024) t)"

definition prefetch_context ::
  "bool \<Rightarrow> bool \<Rightarrow> nat \<Rightarrow> u32 \<Rightarrow> LongContextEngine \<Rightarrow> (copy_command, buffer_heap) timeline \<Rightarrow> (copy_command, buffer_heap) timeline call" where
  "prefetch_context alloc_ok list_ok f tokens e t =
    (case lc_sysram_kv_cache e of
       None \<Rightarrow> Returned t
     | Some s \<Rightarrow>
         if \<not> cx_enable_offloading (lc_config e) \<or> tokens = 0 then Returned t
         else context_copy alloc_ok list_ok f (lc_vram_kv_cache e) s (config_bytes (lc_config e) tokens) t)"

definition compress_context_tokens :: "float_ops \<Rightarrow> u32 \<Rightarrow> f32 \<Rightarrow> LongContextEngine \<Rightarrow> LongContextEngine" where
  "compress_context_tokens F current_tokens ratio e =
    (if \<not> cx_enable_compression (lc_config e) \<or> current_tokens = 0 then e
     else e\<lparr>lc_stats := (lc_stats e)\<lparr>st_compression_ratio := fo_mul F (st_compression_ratio (lc_stats e)) ratio\<rparr>\<rparr>)"

section \<open>The server\<close>

record MCPTool =
  tool_name :: string
  tool_description :: string

definition list_tools :: "MCPTool list" where
  "list_tools =
    [\<lparr> tool_name = ''rag_search'',
       tool_description = ''Retrieve top-K relevant documents from in-memory FastRetrieveDB using vector embeddings'' \<rparr>,
     \<lparr> tool_name = ''context_compact'',
       tool_description = ''Compact and vacuum tombstoned vector documents and defragment KV cache'' \<rparr>,
     \<lparr> tool_name = ''context_stats'',
       tool_description = ''Get real-time statistics for 512K Long-Context Engine and VRAM/System RAM offloading'' \<rparr>]"

text \<open>\<open>find(...) != npos\<close>.\<close>

fun occurs :: "string \<Rightarrow> string \<Rightarrow> bool" where
  "occurs p [] = (p = [])"
| "occurs p (c # cs) = (expect p (c # cs) \<noteq> None \<or> occurs p cs)"

definition json_result :: string where
  "json_result = ''{'' @ quoted ''jsonrpc'' @ '':'' @ quoted ''2.0'' @ '','' @ quoted ''result'' @ '':{''"

definition json_tail :: string where
  "json_tail = ''},'' @ quoted ''id'' @ '':1}''"

text \<open>Elements with a comma after each but the last.\<close>

fun comma_list :: "string list \<Rightarrow> string" where
  "comma_list [] = []"
| "comma_list [x] = x"
| "comma_list (x # y # xs) = x @ '','' @ comma_list (y # xs)"

definition tool_text :: "MCPTool \<Rightarrow> string" where
  "tool_text t = ''{'' @ quoted ''name'' @ '':'' @ quoted (tool_name t) @ '','' @ quoted ''description'' @ '':'' @
     quoted (tool_description t) @ ''}''"

definition tools_response :: string where
  "tools_response = json_result @ quoted ''tools'' @ '':['' @ comma_list (map tool_text list_tools) @ '']'' @ json_tail"

definition doc_text :: "(f32 \<Rightarrow> string) \<Rightarrow> RAGQueryResult \<Rightarrow> string" where
  "doc_text show_float r = ''{'' @ quoted ''id'' @ '':'' @ quoted (rr_id r) @ '','' @ quoted ''text'' @ '':'' @ quoted (rr_text r) @
     '','' @ quoted ''similarity'' @ '':'' @ show_float (rr_similarity r) @ ''}''"

text \<open>The query itself is not used: the embedding is \<open>0.1f\<close> throughout.\<close>

definition handle_rag_search :: "float_ops \<Rightarrow> sorter \<Rightarrow> (f32 \<Rightarrow> string) \<Rightarrow> u32 \<Rightarrow> FastRetrieveDB \<Rightarrow> string" where
  "handle_rag_search F psort show_float top_k db =
    (let results = search_rag F psort (replicate 1536 0x3DCCCCCD) top_k db
     in json_result @ quoted ''retrieved_docs'' @ '':['' @ comma_list (map (doc_text show_float) results) @ '']'' @ json_tail)"

definition handle_context_compact :: "FastRetrieveDB \<Rightarrow> string \<times> FastRetrieveDB" where
  "handle_context_compact db =
    (let before = db_size db; db1 = db_compact db; after = db_size db1
     in (json_result @ quoted ''compacted'' @ '':true,'' @ quoted ''before_count'' @ '':'' @ dec_digits before @ '','' @
           quoted ''after_count'' @ '':'' @ dec_digits after @ json_tail, db1))"

definition handle_context_stats :: "(f32 \<Rightarrow> string) \<Rightarrow> LongContextEngine \<Rightarrow> string" where
  "handle_context_stats show_float e =
    (let stats = lc_stats e
     in json_result @ quoted ''active_tokens'' @ '':'' @ to_string_u32 (st_active_tokens stats) @ '','' @
        quoted ''vram_tokens'' @ '':'' @ to_string_u32 (st_vram_tokens stats) @ '','' @
        quoted ''sysram_tokens'' @ '':'' @ to_string_u32 (st_sysram_tokens stats) @ '','' @
        quoted ''vram_bytes'' @ '':'' @ to_string_u64 (st_vram_bytes stats) @ '','' @
        quoted ''compression_ratio'' @ '':'' @ show_float (st_compression_ratio stats) @ json_tail)"

definition not_found_response :: string where
  "not_found_response = ''{'' @ quoted ''jsonrpc'' @ '':'' @ quoted ''2.0'' @ '','' @ quoted ''error'' @ '':{'' @ quoted ''code'' @
     '':-32601,'' @ quoted ''message'' @ '':'' @ quoted ''Method not found'' @ json_tail"

definition handle_json_rpc ::
  "float_ops \<Rightarrow> sorter \<Rightarrow> (f32 \<Rightarrow> string) \<Rightarrow> string \<Rightarrow> FastRetrieveDB \<Rightarrow> LongContextEngine \<Rightarrow> string \<times> FastRetrieveDB" where
  "handle_json_rpc F psort show_float request_json db e =
    (if occurs ''tools/list'' request_json then (tools_response, db)
     else if occurs ''context_stats'' request_json then (handle_context_stats show_float e, db)
     else if occurs ''context_compact'' request_json then handle_context_compact db
     else if occurs ''rag_search'' request_json then (handle_rag_search F psort show_float 3 db, db)
     else (not_found_response, db))"

section \<open>Tokens and bytes add up\<close>

text \<open>
  Every history of an engine: targets set (the allocation may throw), tokens appended, ratios
  adjusted, and whatever happens to the rest of the heap.
\<close>

inductive context_run :: "LongContextEngine \<Rightarrow> buffer_heap \<Rightarrow> bool" where
  Start: "new_LongContextEngine vram_ok sys_ok cfg i m = (Inr e, m') \<Longrightarrow> context_run e m'"
| Target: "context_run e m \<Longrightarrow> m i = None \<Longrightarrow> set_target_context_length ok i n e m = (err, e', m') \<Longrightarrow> context_run e' m'"
| Append: "context_run e m \<Longrightarrow> context_run (append_tokens n e) m"
| Compress: "context_run e m \<Longrightarrow> context_run (compress_context_tokens F n ratio e) m"
| Others: "context_run e m \<Longrightarrow> m' (lc_vram_kv_cache e) = m (lc_vram_kv_cache e) \<Longrightarrow>
    (\<And>s. lc_sysram_kv_cache e = Some s \<Longrightarrow> m' s = m s) \<Longrightarrow> context_run e m'"

definition sized :: "buffer_heap \<Rightarrow> nat \<Rightarrow> u64 \<Rightarrow> bool" where
  "sized m i n \<longleftrightarrow> (\<exists>b. m i = Some b \<and> bu_size b = n)"

definition tokens_ok :: "LongContextEngine \<Rightarrow> bool" where
  "tokens_ok e \<longleftrightarrow>
    unat (st_vram_tokens (lc_stats e)) + unat (st_sysram_tokens (lc_stats e)) = unat (st_active_tokens (lc_stats e)) \<and>
    st_vram_tokens (lc_stats e) \<le> cx_sliding_window (lc_config e) \<and>
    (st_vram_tokens (lc_stats e) < cx_sliding_window (lc_config e) \<longrightarrow> st_sysram_tokens (lc_stats e) = 0) \<and>
    st_target_tokens (lc_stats e) = cx_active_target_tokens (lc_config e)"

definition buffers_ok :: "LongContextEngine \<Rightarrow> buffer_heap \<Rightarrow> bool" where
  "buffers_ok e m \<longleftrightarrow>
    st_vram_bytes (lc_stats e) = config_bytes (lc_config e) (cx_sliding_window (lc_config e)) \<and>
    sized m (lc_vram_kv_cache e) (st_vram_bytes (lc_stats e)) \<and>
    (case lc_sysram_kv_cache e of
       None \<Rightarrow> st_sysram_bytes (lc_stats e) = 0
     | Some s \<Rightarrow> s \<noteq> lc_vram_kv_cache e \<and> sized m s (st_sysram_bytes (lc_stats e)))"

lemma new_context_ok:
  assumes "new_LongContextEngine vram_ok sys_ok cfg i m = (Inr e, m')"
  shows "tokens_ok e \<and> buffers_ok e m'"
  using assms
  by (auto simp: new_LongContextEngine_def Let_def tokens_ok_def buffers_ok_def sized_def new_Buffer_size
      split: sum.splits if_splits)

lemma set_target_ok:
  assumes "tokens_ok e" "buffers_ok e m" "m i = None" "set_target_context_length ok i n e m = (err, e', m')"
  shows "tokens_ok e' \<and> buffers_ok e' m'"
proof -
  have i: "i \<noteq> lc_vram_kv_cache e" using assms(2,3) by (auto simp: buffers_ok_def sized_def)
  let ?cfg = "(lc_config e)\<lparr>cx_active_target_tokens := min n (cx_max_tokens (lc_config e))\<rparr>"
  have c: "config_bytes ?cfg t = config_bytes (lc_config e) t" for t by (simp add: config_bytes_def)
  define e1 where "e1 = e\<lparr>lc_config := ?cfg, lc_stats := (lc_stats e)\<lparr>st_target_tokens := cx_active_target_tokens ?cfg\<rparr>\<rparr>"
  define sys where "sys = config_bytes ?cfg (cold_tokens_of ?cfg)"
  have e1: "tokens_ok e1" "buffers_ok e1 m"
    using assms(1,2) c by (auto simp: e1_def tokens_ok_def buffers_ok_def split: option.splits)
  have r: "(if cx_enable_offloading ?cfg \<and> sys > 0 then
          (case new_Buffer ok sys Loc_Upload of
             Inl err \<Rightarrow> (Some err, e1, m)
           | Inr s \<Rightarrow> (None, e1\<lparr>lc_sysram_kv_cache := Some i, lc_stats := (lc_stats e1)\<lparr>st_sysram_bytes := sys\<rparr>\<rparr>,
               (case lc_sysram_kv_cache e of None \<Rightarrow> m | Some old \<Rightarrow> m(old := None))(i \<mapsto> s)))
        else (None, e1, m)) = (err, e', m')"
    using assms(4) unfolding set_target_context_length_def Let_def e1_def sys_def by simp
  show ?thesis
  proof (cases "cx_enable_offloading ?cfg \<and> sys > 0 \<and> ok")
    case False
    then have "e' = e1 \<and> m' = m" using r by (cases ok) (auto simp: new_Buffer_fails split: if_splits)
    then show ?thesis using e1 by simp
  next
    case True
    obtain s where s: "new_Buffer True sys Loc_Upload = Inr s" "bu_size s = sys" using new_Buffer_ok by metis
    let ?m = "case lc_sysram_kv_cache e of None \<Rightarrow> m | Some old \<Rightarrow> m(old := None)"
    have e': "e' = e1\<lparr>lc_sysram_kv_cache := Some i, lc_stats := (lc_stats e1)\<lparr>st_sysram_bytes := sys\<rparr>\<rparr>"
      and m': "m' = ?m(i \<mapsto> s)" using r True s(1) by simp_all
    have v: "m' (lc_vram_kv_cache e) = m (lc_vram_kv_cache e)"
      using i assms(2) by (auto simp: m' buffers_ok_def split: option.splits)
    have e1v: "lc_vram_kv_cache e1 = lc_vram_kv_cache e" by (simp add: e1_def)
    show ?thesis
      using e1 i v s(2) e1v by (auto simp: e' m' tokens_ok_def buffers_ok_def sized_def)
  qed
qed

lemma append_tokens_ok: "tokens_ok e \<Longrightarrow> buffers_ok e m \<Longrightarrow> tokens_ok (append_tokens n e) \<and> buffers_ok (append_tokens n e) m"
  by (auto simp: append_tokens_def Let_def tokens_ok_def buffers_ok_def unat_sub word_le_nat_alt word_less_nat_alt
      min_def split: option.splits)

lemma context_run_ok: "context_run e m \<Longrightarrow> tokens_ok e \<and> buffers_ok e m"
proof (induction rule: context_run.induct)
  case (Start vram_ok sys_ok cfg i m e m')
  then show ?case by (rule new_context_ok)
next
  case (Target e m i ok n err e' m')
  then show ?case using set_target_ok by blast
next
  case (Append e m n)
  then show ?case using append_tokens_ok by blast
next
  case (Compress e m F n ratio)
  then show ?case by (auto simp: compress_context_tokens_def tokens_ok_def buffers_ok_def split: option.splits)
next
  case (Others e m m')
  then show ?case by (auto simp: buffers_ok_def sized_def split: option.splits)
qed

text \<open>
  C31. Over every history of a long context engine, failed re-allocations included, the tokens in
  video memory and in the cold store add up to the active tokens, the window is never exceeded
  and is full before anything is cold, the target reported is the one configured, and the byte
  counts reported are the sizes of the two buffers the engine holds.
\<close>

theorem context_accounting:
  assumes "context_run e m"
  shows "unat (st_vram_tokens (lc_stats e)) + unat (st_sysram_tokens (lc_stats e)) = unat (st_active_tokens (lc_stats e)) \<and>
    st_vram_tokens (lc_stats e) \<le> cx_sliding_window (lc_config e) \<and>
    (st_vram_tokens (lc_stats e) < cx_sliding_window (lc_config e) \<longrightarrow> st_sysram_tokens (lc_stats e) = 0) \<and>
    st_target_tokens (lc_stats e) = cx_active_target_tokens (lc_config e) \<and>
    map_option bu_size (m (lc_vram_kv_cache e)) = Some (st_vram_bytes (lc_stats e)) \<and>
    st_sysram_bytes (lc_stats e) = (case lc_sysram_kv_cache e of None \<Rightarrow> 0 | Some s \<Rightarrow> bu_size (the (m s)))"
  using context_run_ok [OF assms] by (auto simp: tokens_ok_def buffers_ok_def sized_def split: option.splits)

definition example_context :: ContextConfig where
  "example_context = \<lparr> cx_max_tokens = 100, cx_active_target_tokens = 20, cx_num_heads = 1, cx_head_dim = 1,
     cx_sliding_window = 4, cx_quant_type = Quant_Q4_0, cx_enable_offloading = True, cx_enable_compression = True \<rparr>"

lemma example_engine:
  "\<exists>e m. new_LongContextEngine True True example_context 0 Map.empty = (Inr e, m) \<and> lc_config e = example_context \<and>
    st_active_tokens (lc_stats e) = 0"
proof -
  obtain v where v: "new_Buffer True (config_bytes example_context 4) Loc_Default = Inr v" by (rule new_Buffer_ok)
  obtain s where s: "new_Buffer True (config_bytes example_context 16) Loc_Upload = Inr s" by (rule new_Buffer_ok)
  have c: "cold_tokens_of example_context = 16" "cx_sliding_window example_context = 4" "cx_enable_offloading example_context"
    by (simp_all add: cold_tokens_of_def example_context_def)
  show ?thesis by (simp add: new_LongContextEngine_def Let_def c v s)
qed

theorem context_accounting_witness:
  "\<exists>e m. context_run e m \<and> st_active_tokens (lc_stats e) = 6 \<and>
    unat (st_vram_tokens (lc_stats e)) + unat (st_sysram_tokens (lc_stats e)) = 6"
proof -
  obtain e m where e: "new_LongContextEngine True True example_context 0 Map.empty = (Inr e, m)"
    "st_active_tokens (lc_stats e) = 0" using example_engine by blast
  have run: "context_run (append_tokens 6 e) m" using e(1) by (blast intro: context_run.intros)
  have a: "st_active_tokens (lc_stats (append_tokens 6 e)) = 6" using e(2) by (simp add: append_tokens_def Let_def)
  have "unat (st_active_tokens (lc_stats (append_tokens 6 e))) = 6" unfolding a by simp
  then show ?thesis using run a conjunct1 [OF context_accounting [OF run]] by metis
qed

text \<open>
  Off-loading always moves 1024 tokens, so it leaves the buffer of a smaller window; a model window
  of 128 tokens or less gets more tokens than it holds; and a target that fits the window keeps
  the cold store of the target before.
\<close>

lemma offload_overruns:
  assumes "tl_memory t 1 = Some s" "tl_memory t 0 = Some v" "bu_size v = config_bytes example_context 4"
    "lc_config e = example_context" "lc_sysram_kv_cache e = Some 1" "lc_vram_kv_cache e = 0" "st_sysram_tokens (lc_stats e) = 2"
  shows "offload_cold_context True True f e t = Faults"
proof -
  have b: "config_bytes example_context 4 = 8" "config_bytes example_context 1024 = 2048" "cx_enable_offloading example_context"
    by (simp_all add: config_bytes_def calculate_kv_bytes_def example_context_def)
  show ?thesis
    using assms by (simp add: offload_cold_context_def context_copy_def create_fence_def Let_def b)
qed

lemma translate_small_model:
  "model \<le> 128 \<Longrightarrow> translate_context_for_model model e = Some (anchor, recent, mid) \<Longrightarrow> anchor = 128 \<and> recent = model"
  by (auto simp: translate_context_for_model_def Let_def word_less_nat_alt word_le_nat_alt split: if_splits)

lemma lower_target_keeps_store:
  "n \<le> cx_sliding_window (lc_config e) \<Longrightarrow> set_target_context_length ok i n e m = (err, e', m') \<Longrightarrow>
    lc_sysram_kv_cache e' = lc_sysram_kv_cache e \<and> st_sysram_bytes (lc_stats e') = st_sysram_bytes (lc_stats e)"
proof -
  assume n: "n \<le> cx_sliding_window (lc_config e)" and r: "set_target_context_length ok i n e m = (err, e', m')"
  let ?cfg = "(lc_config e)\<lparr>cx_active_target_tokens := min n (cx_max_tokens (lc_config e))\<rparr>"
  have "cold_tokens_of ?cfg = 0" using n by (auto simp: cold_tokens_of_def)
  then have "config_bytes ?cfg (cold_tokens_of ?cfg) = 0"
    by (simp add: config_bytes_def calculate_kv_bytes_def split: ContextQuantType.split)
  then show ?thesis using r by (auto simp: set_target_context_length_def Let_def)
qed


section \<open>Serving requests\<close>

fun mcp_run ::
  "float_ops \<Rightarrow> sorter \<Rightarrow> (f32 \<Rightarrow> string) \<Rightarrow> LongContextEngine \<Rightarrow> string list \<Rightarrow> FastRetrieveDB \<Rightarrow> string list \<times> FastRetrieveDB" where
  "mcp_run F psort show_float e [] db = ([], db)"
| "mcp_run F psort show_float e (q # qs) db =
    (let (r, db1) = handle_json_rpc F psort show_float q db e; (rs, db2) = mcp_run F psort show_float e qs db1 in (r # rs, db2))"

text \<open>The document that a response to a search should be.\<close>

definition doc_json :: "(f32 \<Rightarrow> string) \<Rightarrow> RAGQueryResult \<Rightarrow> json" where
  "doc_json show_float r = JObj [(''id'', JStr (rr_id r)), (''text'', JStr (rr_text r)),
     (''similarity'', JNum (show_float (rr_similarity r)))]"

definition search_json :: "(f32 \<Rightarrow> string) \<Rightarrow> RAGQueryResult list \<Rightarrow> json" where
  "search_json show_float rs = JObj [(''jsonrpc'', JStr ''2.0''),
     (''result'', JObj [(''retrieved_docs'', JArr (map (doc_json show_float) rs))]), (''id'', JNum ''1'')]"

definition doc_plain :: "(f32 \<Rightarrow> string) \<Rightarrow> RAGQueryResult \<Rightarrow> bool" where
  "doc_plain show_float r \<longleftrightarrow> json_plain (rr_id r) \<and> json_plain (rr_text r) \<and> json_numeral (show_float (rr_similarity r))"

lemma plain_keys [simp]:
  "json_plain ''id''" "json_plain ''text''" "json_plain ''similarity''" "json_plain ''jsonrpc''" "json_plain ''2.0''"
  "json_plain ''result''" "json_plain ''retrieved_docs''"
  by (simp_all add: json_plain_def)

lemma read_doc:
  assumes "doc_plain show_float r"
  shows "json_value (Suc (Suc (Suc (Suc (Suc n))))) (doc_text show_float r @ rest) = Some (doc_json show_float r, rest)"
proof -
  let ?x = "show_float (rr_similarity r)"
  have p: "json_plain (rr_id r)" "json_plain (rr_text r)" "json_numeral ?x" using assms by (simp_all add: doc_plain_def)
  have "number_stops (CHR ''}'' # rest)" by (simp add: is_digit_def)
  then have "json_value (Suc n) (?x @ CHR ''}'' # rest) = Some (JNum ?x, CHR ''}'' # rest)"
    by (rule read_number_value [OF p(3)])
  then have 1: "json_members (Suc (Suc n)) (Quote # ''similarity'' @ Quote # CHR '':'' # ?x @ CHR ''}'' # rest) =
      Some ([(''similarity'', JNum ?x)], rest)"
    by (rule read_member(2) [rotated]) simp
  note 2 = read_member(1) [OF plain_keys(2) read_string_value [OF p(2)] 1]
  note 3 = read_object [OF read_member(1) [OF plain_keys(1) read_string_value [OF p(1)] 2]]
  then show ?thesis by (simp add: doc_text_def doc_json_def quoted_then del: json_value.simps)
qed

lemma read_docs:
  assumes "rs \<noteq> []" "\<And>r. r \<in> set rs \<Longrightarrow> doc_plain show_float r"
  shows "json_elements (length rs + Suc (Suc (Suc (Suc (Suc n))))) (comma_list (map (doc_text show_float) rs) @ CHR '']'' # rest) =
    Some (map (doc_json show_float) rs, rest)"
  using assms
proof (induction rs)
  case (Cons r rs)
  have r: "doc_plain show_float r" using Cons.prems(2) by simp
  show ?case
  proof (cases rs)
    case Nil
    show ?thesis using read_element(2) [OF read_doc [OF r]] by (simp add: Nil del: json_elements.simps)
  next
    case (Cons r' rs')
    have "json_elements (length rs + Suc (Suc (Suc (Suc (Suc n))))) (comma_list (map (doc_text show_float) rs) @ CHR '']'' # rest) =
        Some (map (doc_json show_float) rs, rest)"
      using Cons Cons.prems by (intro Cons.IH) simp_all
    from read_element(1) [OF _ this] read_doc [OF r, of "length rs + n"] show ?thesis
      by (simp add: Cons del: json_elements.simps json_value.simps)
  qed
qed simp

lemma search_response_length: "length rs + 10 \<le> length (json_result @ quoted ''retrieved_docs'' @ '':['' @
    comma_list (map (doc_text show_float) rs) @ '']'' @ json_tail)"
proof -
  have "length rs \<le> length (comma_list (map (doc_text show_float) rs))"
  proof (induction rs)
    case (Cons r rs)
    then show ?case by (cases rs) (simp_all add: doc_text_def)
  qed simp
  then show ?thesis by (simp add: json_result_def quoted_def)
qed

lemma read_doc_list:
  assumes "\<And>r. r \<in> set rs \<Longrightarrow> doc_plain show_float r"
  shows "json_value (Suc (length rs + Suc (Suc (Suc (Suc (Suc n)))))) (CHR ''['' # comma_list (map (doc_text show_float) rs) @ CHR '']'' # rest) =
    Some (JArr (map (doc_json show_float) rs), rest)"
proof (cases rs)
  case (Cons r rs')
  obtain cs where "comma_list (map (doc_text show_float) rs) = CHR ''{'' # cs"
    by (cases rs') (simp_all add: Cons doc_text_def)
  then have "json_token (CHR '']'') (comma_list (map (doc_text show_float) rs) @ CHR '']'' # rest) = None" by simp
  then show ?thesis using read_docs [of rs show_float n rest] assms by (simp add: Cons del: json_elements.simps)
qed simp

lemma read_search:
  assumes "\<And>r. r \<in> set rs \<Longrightarrow> doc_plain show_float r"
  shows "json_read (json_result @ quoted ''retrieved_docs'' @ '':['' @ comma_list (map (doc_text show_float) rs) @ '']'' @ json_tail) =
    Some (search_json show_float rs)"
proof -
  let ?s = "json_result @ quoted ''retrieved_docs'' @ '':['' @ comma_list (map (doc_text show_float) rs) @ '']'' @ json_tail"
  obtain n where n: "2 * length ?s + 1 = Suc (Suc (Suc (Suc (Suc (Suc (length rs + Suc (Suc (Suc (Suc (Suc n))))))))))"
    using search_response_length [of rs show_float] le_Suc_ex [of "length rs + 11" "2 * length ?s + 1"] by auto
  have docs: "json_value (Suc (length rs + Suc (Suc (Suc (Suc (Suc n)))))) (CHR ''['' # comma_list (map (doc_text show_float) rs) @
      CHR '']'' # CHR ''}'' # CHR '','' # Quote # ''id'' @ Quote # '':1}'') =
      Some (JArr (map (doc_json show_float) rs), CHR ''}'' # CHR '','' # Quote # ''id'' @ Quote # '':1}'')"
    using assms by (rule read_doc_list)
  note result = read_object [OF read_member(2) [OF plain_keys(7) docs]]
  have one: "json_value (Suc k) (CHR ''1'' # CHR ''}'' # []) = Some (JNum ''1'', ''}'')" for k
    using read_number_value [of "''1''" "''}''" k] by (simp add: json_numeral_def json_unsigned_def is_digit_def)
  note members = read_member(1) [OF plain_keys(6) result read_member(2) [OF plain_keys(1) one]]
  note all = read_object [OF read_member(1) [OF plain_keys(4) read_string_value [OF plain_keys(5)] members]]
  show ?thesis
    unfolding json_read_def n
    using all by (simp add: json_result_def json_tail_def quoted_then search_json_def del: json_value.simps json_members.simps)
qed

text \<open>A quote in an identifier ends the string early.\<close>

lemma mcp_unescaped:
  "json_read (doc_text (\<lambda>_. ''1'') \<lparr> rr_id = [CHR ''a'', Quote], rr_text = ''t'', rr_similarity = 0 \<rparr>) = None"
  by code_simp

text \<open>
  C38. A search request (one that names \<open>rag_search\<close> and none of the tools looked for before it) leaves
  the database alone, and the JSON reader \<open>json_read\<close> gets from the answer a result object whose list
  \<open>retrieved_docs\<close> holds three documents (all of them if there are fewer), each with its identifier,
  its text and its similarity: the best of the documents that the history of insertions, removals
  and compactions left with an embedding of 1536 numbers, best first, none that is left out more
  similar to the query vector (\<open>0.1\<close> throughout, whatever was asked) than one that is served. The
  server escapes nothing, so identifiers and texts have to be free of quotes, backslashes and
  control characters (\<open>mcp_unescaped\<close>), and the stream has to print each similarity as a JSON
  number, which \<open>nan\<close> and \<open>inf\<close> are not. The similarities have to be comparable (a strict weak
  order, so no \<open>nan\<close>), and the sorter is any that keeps the promise of \<open>std::partial_sort\<close>.
\<close>

theorem mcp_search_readable:
  assumes "occurs ''rag_search'' request" "\<not> occurs ''tools/list'' request" "\<not> occurs ''context_stats'' request"
    "\<not> occurs ''context_compact'' request"
    and "partial_sorter psort"
    and "strict_weak (fo_less F) {cosine_similarity F (replicate 1536 0x3DCCCCCD) e 1536 |t e.
      (t, e) \<in> ran (fold map_step ops Map.empty) \<and> length e = 1536}"
    and "\<And>i t e. fold map_step ops Map.empty i = Some (t, e) \<Longrightarrow> length e = 1536 \<Longrightarrow> json_plain i \<and> json_plain t \<and>
      json_numeral (show_float (cosine_similarity F (replicate 1536 0x3DCCCCCD) e 1536))"
  shows "\<exists>response rs M db. db = fold db_step ops (new_FastRetrieveDB 1536) \<and> M = fold map_step ops Map.empty \<and>
    handle_json_rpc F psort show_float request db engine = (response, db) \<and>
    json_read response = Some (search_json show_float rs) \<and>
    distinct (map rr_id rs) \<and> length rs = min 3 (card {i. \<exists>t e. M i = Some (t, e) \<and> length e = 1536}) \<and>
    (\<forall>r \<in> set rs. \<exists>e. M (rr_id r) = Some (rr_text r, e) \<and> length e = 1536 \<and>
      rr_similarity r = cosine_similarity F (replicate 1536 0x3DCCCCCD) e 1536) \<and>
    (\<forall>j < length rs. \<forall>i < j. \<not> fo_less F (rr_similarity (rs ! i)) (rr_similarity (rs ! j))) \<and>
    (\<forall>i t e. M i = Some (t, e) \<longrightarrow> length e = 1536 \<longrightarrow> i \<notin> set (map rr_id rs) \<longrightarrow>
      (\<forall>r \<in> set rs. \<not> fo_less F (rr_similarity r) (cosine_similarity F (replicate 1536 0x3DCCCCCD) e 1536)))"
proof -
  let ?q = "replicate 1536 0x3DCCCCCD :: f32 list"
  let ?db = "fold db_step ops (new_FastRetrieveDB 1536)" and ?M = "fold map_step ops Map.empty"
  let ?rs = "search_rag F psort ?q 3 ?db"
  have u: "unat (1536 :: u32) = 1536" "unat (3 :: u32) = 3" "length ?q = unat (1536 :: u32)" by simp_all
  obtain rs where rs: "rs = ?rs" "distinct (map rr_id rs)"
      "length rs = min 3 (card {i. \<exists>t e. ?M i = Some (t, e) \<and> length e = 1536})"
    and found: "\<forall>r \<in> set rs. \<exists>e. ?M (rr_id r) = Some (rr_text r, e) \<and> length e = 1536 \<and>
      rr_similarity r = cosine_similarity F ?q e 1536"
    and best: "\<forall>j < length rs. \<forall>i < j. \<not> fo_less F (rr_similarity (rs ! i)) (rr_similarity (rs ! j))"
      "\<forall>i t e. ?M i = Some (t, e) \<longrightarrow> length e = 1536 \<longrightarrow> i \<notin> set (map rr_id rs) \<longrightarrow>
        (\<forall>r \<in> set rs. \<not> fo_less F (rr_similarity r) (cosine_similarity F ?q e 1536))"
    using search_rag_best [OF assms(5) u(3), of F ops 3] assms(6) unfolding u(1,2) by blast
  have "doc_plain show_float r" if "r \<in> set rs" for r
    using found assms(7) that unfolding doc_plain_def by metis
  from read_search [OF this]
  have read: "json_read (handle_rag_search F psort show_float 3 ?db) = Some (search_json show_float rs)"
    unfolding handle_rag_search_def Let_def rs(1) [symmetric] by simp
  have "handle_json_rpc F psort show_float request ?db engine = (handle_rag_search F psort show_float 3 ?db, ?db)"
    using assms(1-4) by (simp add: handle_json_rpc_def)
  with read show ?thesis using rs(2,3) found best by blast
qed

definition served_ops :: "(string, string \<times> f32 list) store_op list" where
  "served_ops = [Put ''a'' (''x'', replicate 1536 f32_one), Put ''b'' (''y'', []), Del ''b'', Tidy]"

theorem mcp_search_readable_witness:
  "\<forall>e. json_read (fst (handle_json_rpc word_ops insertion_sorter (\<lambda>_. ''0.5'') ''rag_search''
      (fold db_step served_ops (new_FastRetrieveDB 1536)) e)) =
    Some (search_json (\<lambda>_. ''0.5'') [\<lparr> rr_id = ''a'', rr_text = ''x'', rr_similarity =
      cosine_similarity word_ops (replicate 1536 0x3DCCCCCD) (replicate 1536 f32_one) 1536 \<rparr>])"
proof
  fix e
  have M: "fold map_step served_ops Map.empty = [''a'' \<mapsto> (''x'', replicate 1536 f32_one)]"
    by (rule ext) (simp add: served_ops_def)
  have weak: "strict_weak (fo_less word_ops) S" for S by (auto simp: strict_weak_def word_ops_def)
  have req: "occurs ''rag_search'' ''rag_search''" "\<not> occurs ''tools/list'' ''rag_search''" "\<not> occurs ''context_stats'' ''rag_search''"
    "\<not> occurs ''context_compact'' ''rag_search''" by simp_all
  have plain: "json_plain i \<and> json_plain t \<and> json_numeral ''0.5''" if "fold map_step served_ops Map.empty i = Some (t, v)" "length v = 1536" for i t v
    using that(1) by (auto simp: M json_plain_def json_numeral_def json_unsigned_def json_digits_def is_digit_def split: if_splits)
  have one: "{i. \<exists>t e. fold map_step served_ops Map.empty i = Some (t, e) \<and> length e = 1536} = {''a''}" by (auto simp: M)
  note searched = mcp_search_readable [where ops = served_ops and show_float = "\<lambda>_. ''0.5''" and engine = e,
    OF req insertion_sorter_ok weak plain]
  obtain response rs M db where M': "M = fold map_step served_ops Map.empty"
    and db: "db = fold db_step served_ops (new_FastRetrieveDB 1536)"
    and h: "handle_json_rpc word_ops insertion_sorter (\<lambda>_. ''0.5'') ''rag_search'' db e = (response, db)"
    and read: "json_read response = Some (search_json (\<lambda>_. ''0.5'') rs)"
    and len: "length rs = min 3 (card {i. \<exists>t e. M i = Some (t, e) \<and> length e = 1536})"
    and found: "\<forall>r \<in> set rs. \<exists>e. M (rr_id r) = Some (rr_text r, e) \<and> length e = 1536 \<and>
      rr_similarity r = cosine_similarity word_ops (replicate 1536 0x3DCCCCCD) e 1536"
    by (rule searched [elim_format], assumption, assumption, elim exE conjE) (rule that, assumption+)
  have "length rs = 1" unfolding len M' one by simp
  then obtain r where "rs = [r]" by (auto simp: length_Suc_conv)
  with found have "r = \<lparr> rr_id = ''a'', rr_text = ''x'', rr_similarity =
      cosine_similarity word_ops (replicate 1536 0x3DCCCCCD) (replicate 1536 f32_one) 1536 \<rparr>"
    by (cases r) (auto simp: M M' split: if_splits)
  with read show "json_read (fst (handle_json_rpc word_ops insertion_sorter (\<lambda>_. ''0.5'') ''rag_search''
      (fold db_step served_ops (new_FastRetrieveDB 1536)) e)) =
    Some (search_json (\<lambda>_. ''0.5'') [\<lparr> rr_id = ''a'', rr_text = ''x'', rr_similarity =
      cosine_similarity word_ops (replicate 1536 0x3DCCCCCD) (replicate 1536 f32_one) 1536 \<rparr>])"
    unfolding h [unfolded db] \<open>rs = [r]\<close> by simp
qed

lemma handle_json_rpc_db:
  "snd (handle_json_rpc F psort show_float q db e) = db \<or>
   snd (handle_json_rpc F psort show_float q db e) = db_compact db"
  by (simp add: handle_json_rpc_def handle_context_compact_def Let_def)

lemma mcp_run_contents:
  "db_ok db \<Longrightarrow> db_ok (snd (mcp_run F psort show_float e qs db)) \<and>
    db_contents (snd (mcp_run F psort show_float e qs db)) = db_contents db"
proof (induction qs arbitrary: db)
  case (Cons q qs)
  obtain r db1 where h: "handle_json_rpc F psort show_float q db e = (r, db1)" by fastforce
  obtain rs db2 where rest: "mcp_run F psort show_float e qs db1 = (rs, db2)" by fastforce
  have "db_ok db1 \<and> db_contents db1 = db_contents db"
    using handle_json_rpc_db [of F psort show_float q db e] rag.tidy_ok [OF Cons.prems] rag.tidy_contents [OF Cons.prems]
      Cons.prems unfolding h by auto
  then show ?case using Cons.IH [of db1] by (simp add: h rest)
qed simp

text \<open>
  Whatever requests the server gets, the documents it serves stay those of the history of
  insertions and removals: no request adds, drops or alters one. A compaction request leaves a
  database with no tombstone and reports as its size the number of live documents.
\<close>

theorem mcp_keeps_documents:
  "db_contents (snd (mcp_run F psort show_float e qs (fold db_step ops (new_FastRetrieveDB dim)))) = fold map_step ops Map.empty \<and>
    (let db1 = snd (mcp_run F psort show_float e qs (fold db_step ops (new_FastRetrieveDB dim))) in
      handle_json_rpc F psort show_float ''context_compact'' db1 e =
        (json_result @ quoted ''compacted'' @ '':true,'' @ quoted ''before_count'' @ '':'' @ dec_digits (db_size db1) @ '','' @
           quoted ''after_count'' @ '':'' @ dec_digits (card (dom (fold map_step ops Map.empty))) @ json_tail, db_compact db1))"
proof -
  let ?db = "snd (mcp_run F psort show_float e qs (fold db_step ops (new_FastRetrieveDB dim)))"
  have ok: "db_ok ?db" "db_contents ?db = fold map_step ops Map.empty"
    using mcp_run_contents [of "fold db_step ops (new_FastRetrieveDB dim)" F psort show_float e qs] db_run [of ops dim] by simp_all
  have size: "db_size (db_compact ?db) = card (dom (fold map_step ops Map.empty))"
    using db_compact_docs [OF ok(1)] active_count_card [OF ok(1)] ok(2) by (simp add: db_size_def active_count_def)
  have d: "occurs ''context_compact'' ''context_compact''" "\<not> occurs ''tools/list'' ''context_compact''"
    "\<not> occurs ''context_stats'' ''context_compact''" by simp_all
  have h: "handle_json_rpc F psort show_float ''context_compact'' ?db e = handle_context_compact ?db"
    using d by (simp only: handle_json_rpc_def if_False if_True simp_thms)
  show ?thesis using ok(2) size unfolding h handle_context_compact_def Let_def by simp
qed


end
