(* ===== verification/ComputeKernels.thy ===== *)
theory ComputeKernels
  imports GpuDevice RefOps "HOL-Library.Multiset"
begin

text \<open>
  The compute kernels embedded in \<open>src/dxblas\<close>, \<open>src/dxmath\<close> and \<open>src/dxla\<close> and the calls that dispatch them.

  Device memory is a function of cells, a cell being a buffer and an index (root descriptors carry no
  bounds, so nothing is checked). The threads of a dispatch run in any order; a kernel is a function
  of the thread's number and the memory. Index arithmetic of HLSL is 32 bits wide. The float operations
  are \<open>float_ops\<close>, the intrinsics of HLSL beyond it \<open>hlsl_ops\<close>.
\<close>

section \<open>Dispatches\<close>

type_synonym cell = "nat \<times> nat"
type_synonym gpu_mem = "cell \<Rightarrow> f32"

record hlsl_ops =
  ho_max :: "f32 \<Rightarrow> f32 \<Rightarrow> f32"
  ho_min :: "f32 \<Rightarrow> f32 \<Rightarrow> f32"
  ho_rsqrt :: "f32 \<Rightarrow> f32"
  ho_pow :: "f32 \<Rightarrow> f32 \<Rightarrow> f32"
  ho_cos :: "f32 \<Rightarrow> f32"
  ho_sin :: "f32 \<Rightarrow> f32"
  ho_abs :: "f32 \<Rightarrow> f32"

text \<open>\<open>(count + 63) / 64\<close> groups of 64 threads, in 32-bit arithmetic.\<close>

definition group_count :: "u32 \<Rightarrow> u32" where
  "group_count n = (n + 63) div 64"

definition dispatch :: "(nat \<Rightarrow> gpu_mem \<Rightarrow> gpu_mem) \<Rightarrow> nat list \<Rightarrow> gpu_mem \<Rightarrow> gpu_mem" where
  "dispatch thread order m = fold thread order m"

text \<open>An order in which the threads of \<open>groups\<close> groups may run.\<close>

definition schedule :: "u32 \<Rightarrow> nat list \<Rightarrow> bool" where
  "schedule groups order \<longleftrightarrow> mset order = mset [0..<unat groups * 64]"

text \<open>
  Threads that write only cells no other thread reads or writes: then the order does not matter, and
  each cell is what its thread computes from the memory the dispatch started with.
\<close>

locale disjoint_threads =
  fixes thread :: "nat \<Rightarrow> gpu_mem \<Rightarrow> gpu_mem"
    and writes :: "nat \<Rightarrow> cell set"
    and reads :: "nat \<Rightarrow> cell set"
    and bound :: nat
  assumes frame: "t < bound \<Longrightarrow> c \<notin> writes t \<Longrightarrow> thread t m c = m c"
    and local: "t < bound \<Longrightarrow> (\<And>c. c \<in> reads t \<Longrightarrow> m c = m' c) \<Longrightarrow> c \<in> writes t \<Longrightarrow> thread t m c = thread t m' c"
    and apart: "s < bound \<Longrightarrow> t < bound \<Longrightarrow> s \<noteq> t \<Longrightarrow> writes s \<inter> (writes t \<union> reads t) = {}"
begin

lemma others_unchanged:
  "t \<notin> set order \<Longrightarrow> t < bound \<Longrightarrow> (\<And>s. s \<in> set order \<Longrightarrow> s < bound) \<Longrightarrow> c \<in> writes t \<union> reads t \<Longrightarrow> dispatch thread order m c = m c"
proof (induction order arbitrary: m)
  case (Cons s order)
  have s: "s < bound" "s \<noteq> t" using Cons.prems by auto
  have "c \<notin> writes s" using apart [OF s(1) Cons.prems(2) s(2)] Cons.prems(4) by blast
  then have "thread s m c = m c" by (rule frame [OF s(1)])
  then show ?case using Cons.IH [of "thread s m"] Cons.prems by (simp add: dispatch_def)
qed (simp add: dispatch_def)

lemma dispatch_writes:
  assumes "distinct order" "\<And>s. s \<in> set order \<Longrightarrow> s < bound" "t \<in> set order" "c \<in> writes t"
  shows "dispatch thread order m c = thread t m c"
proof -
  obtain before after where o: "order = before @ t # after" using assms(3) by (meson split_list)
  have nt: "t \<notin> set before" "t \<notin> set after" using assms(1) unfolding o by simp_all
  have tb: "t < bound" using assms(2,3) by blast
  define m1 where "m1 = dispatch thread before m"
  have rd: "m1 d = m d" if "d \<in> reads t" for d
    unfolding m1_def using that assms(2) by (intro others_unchanged [OF nt(1) tb]) (auto simp: o)
  have "dispatch thread order m c = dispatch thread after (thread t m1) c" by (simp add: dispatch_def o m1_def)
  also have "\<dots> = thread t m1 c"
    using assms(2,4) by (intro others_unchanged [OF nt(2) tb]) (auto simp: o)
  also have "\<dots> = thread t m c" using rd assms(4) by (intro local [OF tb]) auto
  finally show ?thesis .
qed

lemma dispatch_frame:
  "(\<And>s. s \<in> set order \<Longrightarrow> s < bound) \<Longrightarrow> (\<And>t. t \<in> set order \<Longrightarrow> c \<notin> writes t) \<Longrightarrow> dispatch thread order m c = m c"
  by (induction order arbitrary: m) (simp_all add: dispatch_def frame)

lemma any_order:
  assumes "mset order = mset [0..<bound]"
  shows "dispatch thread order m = dispatch thread [0..<bound] m"
proof
  fix c
  have o: "distinct order" "\<And>t. t \<in> set order \<longleftrightarrow> t < bound"
    using assms mset_eq_imp_distinct_iff [OF assms] by (simp, metis atLeast0LessThan lessThan_iff mset_eq_setD set_upt)
  show "dispatch thread order m c = dispatch thread [0..<bound] m c"
  proof (cases "\<exists>t < bound. c \<in> writes t")
    case True
    then obtain t where "t < bound" "c \<in> writes t" by blast
    then show ?thesis using dispatch_writes [of order t c m] dispatch_writes [of "[0..<bound]" t c m] o by simp
  next
    case False
    then show ?thesis using dispatch_frame [of order c m] dispatch_frame [of "[0..<bound]" c m] o by simp
  qed
qed

lemma schedule_writes:
  assumes "schedule groups order" "unat groups * 64 \<le> bound" "t < unat groups * 64" "c \<in> writes t"
  shows "dispatch thread order m c = thread t m c"
proof -
  have "distinct order" "\<And>s. s \<in> set order \<longleftrightarrow> s < unat groups * 64"
    using assms(1) unfolding schedule_def
    by (metis distinct_upt mset_eq_imp_distinct_iff, metis atLeast0LessThan lessThan_iff mset_eq_setD set_upt)
  then show ?thesis using assms(2-4) by (intro dispatch_writes) auto
qed

lemma schedule_frame:
  assumes "schedule groups order" "unat groups * 64 \<le> bound" "\<And>t. t < unat groups * 64 \<Longrightarrow> c \<notin> writes t"
  shows "dispatch thread order m c = m c"
proof -
  have "\<And>s. s \<in> set order \<longleftrightarrow> s < unat groups * 64"
    using assms(1) unfolding schedule_def by (metis atLeast0LessThan lessThan_iff mset_eq_setD set_upt)
  then show ?thesis using assms(2,3) by (intro dispatch_frame) auto
qed

end

text \<open>The groups cover every element and no more than 63 idle threads, short of the wrap-around of the sum.\<close>

lemma group_count_covers:
  assumes "unat n \<le> 4294967232"
  shows "unat n \<le> unat (group_count n) * 64" "unat (group_count n) * 64 < unat n + 64"
proof -
  have s: "unat (n + 63) = unat n + 63" using assms u32_add_unat [of n 63] by simp
  then have g: "unat (group_count n) = (unat n + 63) div 64" by (simp add: group_count_def unat_div)
  show "unat n \<le> unat (group_count n) * 64" "unat (group_count n) * 64 < unat n + 64"
    unfolding g by presburger+
qed

lemma group_count_wraps: "group_count 0xFFFFFFC1 = 0"
  by (simp add: group_count_def)

section \<open>Kernels over single elements\<close>

text \<open>The literals of the shaders as bit patterns.\<close>

abbreviation (input) f32_1em6 :: f32 where "f32_1em6 \<equiv> 0x358637BD"
abbreviation (input) f32_m1e30 :: f32 where "f32_m1e30 \<equiv> 0xF149F2CA"
abbreviation (input) f32_3_4e38 :: f32 where "f32_3_4e38 \<equiv> 0x7F7FC99E"
abbreviation (input) f32_m3_4e38 :: f32 where "f32_m3_4e38 \<equiv> 0xFF7FC99E"
abbreviation (input) f32_mone :: f32 where "f32_mone \<equiv> 0xBF800000"

definition vec_add_thread ::
  "float_ops \<Rightarrow> nat \<Rightarrow> nat \<Rightarrow> nat \<Rightarrow> u32 \<Rightarrow> f32 \<Rightarrow> f32 \<Rightarrow> nat \<Rightarrow> gpu_mem \<Rightarrow> gpu_mem" where
  "vec_add_thread F out in1 in2 g_count g_alpha g_beta t m =
    (let x = of_nat t :: u32
     in if x < g_count
        then m((out, unat x) := fo_add F (fo_mul F g_alpha (m (in1, unat x))) (fo_mul F g_beta (m (in2, unat x))))
        else m)"

definition la_elementwise_thread ::
  "float_ops \<Rightarrow> nat \<Rightarrow> nat \<Rightarrow> nat \<Rightarrow> u32 \<Rightarrow> int \<Rightarrow> f32 \<Rightarrow> f32 \<Rightarrow> nat \<Rightarrow> gpu_mem \<Rightarrow> gpu_mem" where
  "la_elementwise_thread F out a b g_count g_op g_alpha g_beta t m =
    (let i = of_nat t :: u32
     in if i \<ge> g_count then m
        else let x = m (a, unat i); y = m (b, unat i);
                 r = (if g_op = 0 then fo_add F x y else if g_op = 1 then fo_sub F x y
                      else if g_op = 2 then fo_mul F x y else fo_div F x y)
             in m((out, unat i) := fo_add F (fo_mul F g_alpha r) g_beta))"

definition erf_approx :: "float_ops \<Rightarrow> hlsl_ops \<Rightarrow> f32 \<Rightarrow> f32" where
  "erf_approx F X x =
    (let sgn = (if fo_less F x f32_zero then f32_mone else f32_one);
         ax = ho_abs X x;
         tt = fo_div F f32_one (fo_add F f32_one (fo_mul F 0x3EA7BA05 ax));
         p1 = fo_sub F (fo_mul F 0x3F87DC22 tt) 0x3FBA00E3;
         p2 = fo_add F (fo_mul F p1 tt) 0x3FB5F0E3;
         p3 = fo_sub F (fo_mul F p2 tt) 0x3E91A98E;
         p4 = fo_add F (fo_mul F p3 tt) 0x3E827906;
         y = fo_sub F f32_one (fo_mul F (fo_mul F p4 tt) (fo_exp F (fo_mul F (fo_neg F ax) ax)))
     in fo_mul F sgn y)"

definition la_activation_value :: "float_ops \<Rightarrow> hlsl_ops \<Rightarrow> int \<Rightarrow> f32 \<Rightarrow> f32 \<Rightarrow> f32" where
  "la_activation_value F X g_act g_alpha x =
    (if g_act = 0 then (if fo_less F f32_zero x then x else f32_zero)
     else if g_act = 1 then
       fo_mul F (fo_mul F x f32_half) (fo_add F f32_one (erf_approx F X (fo_mul F x 0x3F3504F3)))
     else if g_act = 2 then fo_div F x (fo_add F f32_one (fo_exp F (fo_neg F x)))
     else if g_act = 3 then fo_tanh F x
     else if g_act = 4 then fo_div F f32_one (fo_add F f32_one (fo_exp F (fo_neg F x)))
     else if fo_less F f32_zero x \<or> fo_eq F x f32_zero then x else fo_mul F g_alpha x)"

definition la_activation_thread ::
  "float_ops \<Rightarrow> hlsl_ops \<Rightarrow> nat \<Rightarrow> nat \<Rightarrow> u32 \<Rightarrow> int \<Rightarrow> f32 \<Rightarrow> nat \<Rightarrow> gpu_mem \<Rightarrow> gpu_mem" where
  "la_activation_thread F X out inp g_count g_act g_alpha t m =
    (let i = of_nat t :: u32
     in if i \<ge> g_count then m else m((out, unat i) := la_activation_value F X g_act g_alpha (m (inp, unat i))))"

lemma u32_thread: "t < 4294967296 \<Longrightarrow> unat (of_nat t :: u32) = t"
  by (rule unat_of_nat_u32)

lemma u32_thread_less: "t < 4294967296 \<Longrightarrow> (of_nat t :: u32) < n \<longleftrightarrow> t < unat n"
  by (simp add: word_less_nat_alt u32_thread)

lemma u32_thread_le: "t < 4294967296 \<Longrightarrow> n \<le> (of_nat t :: u32) \<longleftrightarrow> \<not> t < unat n"
  by (simp add: word_le_nat_alt u32_thread not_less)

text \<open>The entry a thread owns.\<close>

definition entry :: "nat \<Rightarrow> u32 \<Rightarrow> nat \<Rightarrow> cell set" where
  "entry b n t = (if t < unat n then {(b, t)} else {})"

lemmas thread_simps = Let_def u32_thread u32_thread_less u32_thread_le entry_def

interpretation va: disjoint_threads "vec_add_thread F out in1 in2 n alpha beta" "entry out n"
    "\<lambda>t. {(in1, t), (in2, t)}" 4294967296 for F out in1 in2 n alpha beta
  by unfold_locales (auto simp: vec_add_thread_def thread_simps split: if_splits)

interpretation ew: disjoint_threads "la_elementwise_thread F out a b n op alpha beta" "entry out n"
    "\<lambda>t. {(a, t), (b, t)}" 4294967296 for F out a b n op alpha beta
  by unfold_locales (auto simp: la_elementwise_thread_def thread_simps split: if_splits)

interpretation act: disjoint_threads "la_activation_thread F X out inp n op alpha" "entry out n"
    "\<lambda>t. {(inp, t)}" 4294967296 for F X out inp n op alpha
  by unfold_locales (auto simp: la_activation_thread_def thread_simps split: if_splits)

section \<open>Kernels over rows\<close>

text \<open>Entry \<open>i\<close> of a row, as the shaders compute the index.\<close>

definition row_at :: "u32 \<Rightarrow> u32 \<Rightarrow> nat \<Rightarrow> nat" where
  "row_at dim row i = unat (row * dim + of_nat i)"

definition rms_norm_thread ::
  "float_ops \<Rightarrow> hlsl_ops \<Rightarrow> nat \<Rightarrow> nat \<Rightarrow> nat \<Rightarrow> u32 \<Rightarrow> f32 \<Rightarrow> u32 \<Rightarrow> nat \<Rightarrow> gpu_mem \<Rightarrow> gpu_mem" where
  "rms_norm_thread F X out inp weight g_row_dim g_eps g_num_rows t m =
    (let row = of_nat t :: u32
     in if row \<ge> g_num_rows then m
        else let ss = fold (\<lambda>i ss. fo_add F ss (fo_mul F (m (inp, row_at g_row_dim row i)) (m (inp, row_at g_row_dim row i))))
                        [0..<unat g_row_dim] f32_zero;
                 scale = ho_rsqrt X (fo_add F (fo_div F ss (fo_of_u32 F g_row_dim)) g_eps)
             in fold (\<lambda>i m. m((out, row_at g_row_dim row i) :=
                   fo_mul F (fo_mul F (m (inp, row_at g_row_dim row i)) scale) (m (weight, i)))) [0..<unat g_row_dim] m)"

definition softmax_thread ::
  "float_ops \<Rightarrow> hlsl_ops \<Rightarrow> nat \<Rightarrow> nat \<Rightarrow> u32 \<Rightarrow> f32 \<Rightarrow> u32 \<Rightarrow> nat \<Rightarrow> gpu_mem \<Rightarrow> gpu_mem" where
  "softmax_thread F X out inp g_row_dim g_temp g_num_rows t m =
    (let row = of_nat t :: u32
     in if row \<ge> g_num_rows then m
        else let inv_temp = fo_div F f32_one (ho_max X g_temp f32_1em6);
                 max_val = fold (\<lambda>i v. ho_max X v (fo_mul F (m (inp, row_at g_row_dim row i)) inv_temp))
                   [0..<unat g_row_dim] f32_m1e30;
                 (m1, sum) = fold (\<lambda>i (m, sum).
                     let ex = fo_exp F (fo_sub F (fo_mul F (m (inp, row_at g_row_dim row i)) inv_temp) max_val)
                     in (m((out, row_at g_row_dim row i) := ex), fo_add F sum ex)) [0..<unat g_row_dim] (m, f32_zero);
                 inv_sum = fo_div F f32_one sum
             in fold (\<lambda>i m. m((out, row_at g_row_dim row i) := fo_mul F (m (out, row_at g_row_dim row i)) inv_sum))
                  [0..<unat g_row_dim] m1)"

text \<open>\<open>rope\<close> has no test of the row. The counter \<open>i += 2\<close> visits \<open>0, 2, \<dots>\<close> below \<open>g_head_dim\<close>.\<close>

definition rope_thread ::
  "float_ops \<Rightarrow> hlsl_ops \<Rightarrow> nat \<Rightarrow> nat \<Rightarrow> u32 \<Rightarrow> u32 \<Rightarrow> u32 \<Rightarrow> f32 \<Rightarrow> nat \<Rightarrow> gpu_mem \<Rightarrow> gpu_mem" where
  "rope_thread F X out inp g_row_dim g_head_dim g_pos g_theta t m =
    (let row = of_nat t :: u32
     in fold (\<lambda>h m.
          let i = 2 * h;
              freq = ho_pow X g_theta (fo_div F (fo_neg F (fo_of_u32 F (of_nat i))) (fo_of_u32 F g_head_dim));
              arg = fo_mul F (fo_of_u32 F g_pos) freq;
              cos_a = ho_cos X arg; sin_a = ho_sin X arg;
              v0 = m (inp, row_at g_row_dim row i); v1 = m (inp, row_at g_row_dim row (i + 1));
              m1 = m((out, row_at g_row_dim row i) := fo_sub F (fo_mul F v0 cos_a) (fo_mul F v1 sin_a))
          in m1((out, row_at g_row_dim row (i + 1)) := fo_add F (fo_mul F v0 sin_a) (fo_mul F v1 cos_a)))
        [0..<(unat g_head_dim + 1) div 2] m)"

text \<open>The kernels of \<open>dxla\<close> over rows compute one entry per thread.\<close>

definition la_rmsnorm_thread ::
  "float_ops \<Rightarrow> hlsl_ops \<Rightarrow> nat \<Rightarrow> nat \<Rightarrow> nat \<Rightarrow> u32 \<Rightarrow> u32 \<Rightarrow> f32 \<Rightarrow> nat \<Rightarrow> gpu_mem \<Rightarrow> gpu_mem" where
  "la_rmsnorm_thread F X out inp gamma g_rows g_dim g_eps t m =
    (let idx = of_nat t :: u32
     in if idx \<ge> g_rows * g_dim then m
        else let row = idx div g_dim; col = idx mod g_dim;
                 s = fold (\<lambda>j s. fo_add F s (fo_mul F (m (inp, row_at g_dim row j)) (m (inp, row_at g_dim row j))))
                   [0..<unat g_dim] f32_zero;
                 rstd = ho_rsqrt X (fo_add F (fo_div F s (fo_of_u32 F g_dim)) g_eps)
             in m((out, unat idx) := fo_mul F (fo_mul F (m (gamma, unat col)) (m (inp, unat idx))) rstd))"

definition la_softmax_thread ::
  "float_ops \<Rightarrow> hlsl_ops \<Rightarrow> nat \<Rightarrow> nat \<Rightarrow> u32 \<Rightarrow> u32 \<Rightarrow> nat \<Rightarrow> gpu_mem \<Rightarrow> gpu_mem" where
  "la_softmax_thread F X out inp g_rows g_dim t m =
    (let idx = of_nat t :: u32
     in if idx \<ge> g_rows * g_dim then m
        else let row = idx div g_dim;
                 mx = fold (\<lambda>j v. ho_max X v (m (inp, row_at g_dim row j))) [0..<unat g_dim] f32_m3_4e38;
                 s = fold (\<lambda>j s. fo_add F s (fo_exp F (fo_sub F (m (inp, row_at g_dim row j)) mx))) [0..<unat g_dim] f32_zero
             in m((out, unat idx) := fo_div F (fo_exp F (fo_sub F (m (inp, unat idx)) mx)) s))"

definition la_reduce_thread ::
  "float_ops \<Rightarrow> hlsl_ops \<Rightarrow> nat \<Rightarrow> nat \<Rightarrow> u32 \<Rightarrow> u32 \<Rightarrow> int \<Rightarrow> nat \<Rightarrow> gpu_mem \<Rightarrow> gpu_mem" where
  "la_reduce_thread F X out inp g_rows g_dim g_op t m =
    (let row = of_nat t :: u32
     in if row \<ge> g_rows then m
        else let acc0 = (if g_op = 1 then f32_m3_4e38 else if g_op = 2 then f32_3_4e38 else f32_zero);
                 acc = fold (\<lambda>j acc. let x = m (inp, row_at g_dim row j)
                     in if g_op = 0 then fo_add F acc x else if g_op = 1 then ho_max X acc x
                        else if g_op = 2 then ho_min X acc x else fo_add F acc x) [0..<unat g_dim] acc0
             in m((out, unat row) := (if g_op = 3 then fo_div F acc (fo_of_u32 F g_dim) else acc)))"


text \<open>A loop that stores to one cell in each step, computed from cells no other step stores to.\<close>

lemma loop_frame: "c \<notin> a ` {..<n} \<Longrightarrow> fold (\<lambda>i m. m(a i := f i m)) [0..<n] m c = m (c :: cell)"
  by (induction n) (auto simp: lessThan_Suc)

lemma loop_at:
  fixes f :: "nat \<Rightarrow> gpu_mem \<Rightarrow> f32" and a :: "nat \<Rightarrow> cell"
  assumes inj: "inj_on a {..<n}"
    and loc: "\<And>i m m'. i < n \<Longrightarrow> (\<And>c. c \<notin> a ` ({..<n} - {i}) \<Longrightarrow> m c = m' c) \<Longrightarrow> f i m = f i m'"
    and i: "i < n"
  shows "fold (\<lambda>i m. m(a i := f i m)) [0..<n] m (a i) = f i m"
proof -
  have L: "disjoint_threads (\<lambda>i m. m(a i := f i m)) (\<lambda>i. {a i}) (\<lambda>i. - a ` ({..<n} - {i})) n"
  proof (unfold_locales, goal_cases)
    case (2 t m m' c)
    then have "f t m = f t m'" by (intro loc) auto
    then show ?case using 2 by simp
  next
    case (3 s t)
    then show ?case using inj by (auto simp: inj_on_def)
  qed auto
  show ?thesis using disjoint_threads.dispatch_writes [OF L, of "[0..<n]" i "a i" m] i by (simp add: dispatch_def)
qed

text \<open>The cells of a row, and where the shaders find them while the index fits 32 bits.\<close>

definition row_cells :: "nat \<Rightarrow> u32 \<Rightarrow> u32 \<Rightarrow> nat \<Rightarrow> cell set" where
  "row_cells b rows dim t = (if t < unat rows then (\<lambda>i. (b, t * unat dim + i)) ` {..<unat dim} else {})"

abbreviation fits32 :: "u32 \<Rightarrow> u32 \<Rightarrow> bool" where
  "fits32 rows dim \<equiv> unat rows * unat dim \<le> 4294967296"

lemma row_at_nat:
  assumes "fits32 rows dim" "t < unat rows" "i < unat dim"
  shows "row_at dim (of_nat t) i = t * unat dim + i"
proof -
  have "t * unat dim + i < unat rows * unat dim" by (rule cell_index_lt [OF assms(2,3)])
  then have "t * unat dim + i < 4294967296" using assms(1) by linarith
  moreover have "of_nat t * dim + of_nat i = (of_nat (t * unat dim + i) :: u32)" by simp
  ultimately show ?thesis by (simp only: row_at_def u32_thread)
qed

lemma row_cells_apart:
  assumes "s \<noteq> t" shows "row_cells b rows dim s \<inter> row_cells b' rows dim t = {}"
proof -
  have False if "i < d" "j < d" "s * d + i = t * d + j" for i j d :: nat
    using cell_index_inj [OF that] assms by simp
  then show ?thesis unfolding row_cells_def by auto
qed


text \<open>A loop that stores and sums up what it stores.\<close>

lemma loop_sum:
  fixes f :: "nat \<Rightarrow> gpu_mem \<Rightarrow> f32" and a :: "nat \<Rightarrow> cell"
  assumes inj: "inj_on a {..<n}"
    and loc: "\<And>i m m'. i < n \<Longrightarrow> (\<And>c. c \<notin> a ` ({..<n} - {i}) \<Longrightarrow> m c = m' c) \<Longrightarrow> f i m = f i m'"
  shows "k \<le> n \<Longrightarrow> fold (\<lambda>i (m, s). let e = f i m in (m(a i := e), plus' s e)) [0..<k] (m, z) =
    (fold (\<lambda>i m. m(a i := f i m)) [0..<k] m, fold (\<lambda>i s. plus' s (f i m)) [0..<k] z)"
proof (induction k)
  case (Suc k)
  have "f k (fold (\<lambda>i m. m(a i := f i m)) [0..<k] m) = f k m"
  proof (rule loc)
    fix c assume "c \<notin> a ` ({..<n} - {k})"
    moreover have "{..<k} \<subseteq> {..<n} - {k}" using Suc.prems by auto
    ultimately show "fold (\<lambda>i m. m(a i := f i m)) [0..<k] m c = m c" by (intro loop_frame) blast
  qed (use Suc.prems in simp)
  then show ?case using Suc by (simp add: Let_def del: fun_upd_apply)
qed simp

text \<open>Row \<open>t\<close> of a buffer.\<close>

definition row_read :: "gpu_mem \<Rightarrow> nat \<Rightarrow> u32 \<Rightarrow> nat \<Rightarrow> f32 list" where
  "row_read m b dim t = map (\<lambda>i. m (b, t * unat dim + i)) [0..<unat dim]"

lemma row_read_cong:
  "t < unat rows \<Longrightarrow> (\<And>c. c \<in> row_cells b rows dim t \<Longrightarrow> m c = m' c) \<Longrightarrow> row_read m b dim t = row_read m' b dim t"
  by (auto simp: row_read_def row_cells_def)

text \<open>
  A kernel whose threads compute one row each, from the same row of an input and from a row of
  weights: it may work in place, but not on the weights.
\<close>

lemma row_kernel_disjoint:
  assumes frame: "\<And>t m c. t < 4294967296 \<Longrightarrow> c \<notin> row_cells out rows dim t \<Longrightarrow> thread t m c = m c"
    and at: "\<And>t m i. t < unat rows \<Longrightarrow> i < unat dim \<Longrightarrow>
      thread t m (out, t * unat dim + i) = v (row_read m inp dim t) (row_read m w dim 0) ! i"
    and w: "out \<noteq> w"
  shows "disjoint_threads thread (row_cells out rows dim)
    (\<lambda>t. row_cells inp rows dim t \<union> row_cells w 1 dim 0) 4294967296"
proof (unfold_locales, goal_cases)
  case (1 t c m)
  then show ?case by (intro frame)
next
  case (2 t m m' c)
  then obtain i where c: "t < unat rows" "i < unat dim" "c = (out, t * unat dim + i)"
    by (auto simp: row_cells_def split: if_splits)
  have "row_read m inp dim t = row_read m' inp dim t" using 2(2) by (intro row_read_cong [OF c(1)]) blast
  moreover have "row_read m w dim 0 = row_read m' w dim 0" using 2(2) by (intro row_read_cong [of 0 1]) auto
  ultimately show ?case unfolding c(3) by (simp add: at [OF c(1,2)])
next
  case (3 s t)
  have "row_cells out rows dim s \<inter> row_cells w 1 dim 0 = {}" using w by (auto simp: row_cells_def)
  then show ?case using row_cells_apart [OF 3(3), of out rows dim] by blast
qed

lemma row_kernel_dispatch:
  assumes frame: "\<And>t m c. t < 4294967296 \<Longrightarrow> c \<notin> row_cells out rows dim t \<Longrightarrow> thread t m c = m c"
    and at: "\<And>t m i. t < unat rows \<Longrightarrow> i < unat dim \<Longrightarrow>
      thread t m (out, t * unat dim + i) = v (row_read m inp dim t) (row_read m w dim 0) ! i"
    and v: "\<And>xs ws. length xs = unat dim \<Longrightarrow> length ws = unat dim \<Longrightarrow> length (v xs ws) = unat dim"
    and w: "out \<noteq> w" and rows: "unat rows \<le> 4194240" and order: "schedule (group_count rows) order"
  shows "t < unat rows \<Longrightarrow> row_read (dispatch thread order m) out dim t = v (row_read m inp dim t) (row_read m w dim 0)"
    and "(\<And>t. c \<notin> row_cells out rows dim t) \<Longrightarrow> dispatch thread order m c = m c"
proof -
  have D: "disjoint_threads thread (row_cells out rows dim) (\<lambda>t. row_cells inp rows dim t \<union> row_cells w 1 dim 0) 4294967296"
    by (rule row_kernel_disjoint [OF _ _ w, where v = v]) (fact frame, fact at)
  have r: "unat rows \<le> 4294967232" using rows by simp
  note g = group_count_covers [OF r]
  have b: "unat (group_count rows) * 64 \<le> 4294967296" using g(2) rows by linarith
  show "row_read (dispatch thread order m) out dim t = v (row_read m inp dim t) (row_read m w dim 0)" if t: "t < unat rows"
  proof (rule nth_equalityI)
    show "length (row_read (dispatch thread order m) out dim t) = length (v (row_read m inp dim t) (row_read m w dim 0))"
      using v [of "row_read m inp dim t" "row_read m w dim 0"] by (simp add: row_read_def)
  next
    fix i assume "i < length (row_read (dispatch thread order m) out dim t)"
    then have i: "i < unat dim" by (simp add: row_read_def)
    then have c: "(out, t * unat dim + i) \<in> row_cells out rows dim t" using t by (simp add: row_cells_def)
    have "t < unat (group_count rows) * 64" using t g(1) by linarith
    then have "dispatch thread order m (out, t * unat dim + i) = thread t m (out, t * unat dim + i)"
      by (rule disjoint_threads.schedule_writes [OF D order b _ c])
    then show "row_read (dispatch thread order m) out dim t ! i = v (row_read m inp dim t) (row_read m w dim 0) ! i"
      using i at [OF t i] by (simp add: row_read_def)
  qed
  show "(\<And>t. c \<notin> row_cells out rows dim t) \<Longrightarrow> dispatch thread order m c = m c"
    by (rule disjoint_threads.schedule_frame [OF D order b])
qed


subsection \<open>What the row kernels compute\<close>

definition rms_norm_row :: "float_ops \<Rightarrow> hlsl_ops \<Rightarrow> u32 \<Rightarrow> f32 \<Rightarrow> f32 list \<Rightarrow> f32 list \<Rightarrow> f32 list" where
  "rms_norm_row F X dim eps xs ws =
    (let ss = foldl (\<lambda>ss v. fo_add F ss (fo_mul F v v)) f32_zero xs;
         scale = ho_rsqrt X (fo_add F (fo_div F ss (fo_of_u32 F dim)) eps)
     in map2 (\<lambda>x w. fo_mul F (fo_mul F x scale) w) xs ws)"

definition softmax_of_row :: "float_ops \<Rightarrow> hlsl_ops \<Rightarrow> f32 \<Rightarrow> f32 list \<Rightarrow> f32 list" where
  "softmax_of_row F X temp xs =
    (let scaled = map (\<lambda>x. fo_mul F x (fo_div F f32_one (ho_max X temp f32_1em6))) xs;
         top = foldl (ho_max X) f32_m1e30 scaled;
         es = map (\<lambda>x. fo_exp F (fo_sub F x top)) scaled
     in map (\<lambda>e. fo_mul F e (fo_div F f32_one (foldl (fo_add F) f32_zero es))) es)"

lemma row_at_image:
  assumes "fits32 rows dim" "t < unat rows"
  shows "(\<lambda>i. (b, row_at dim (of_nat t) i)) ` {..<unat dim} = row_cells b rows dim t"
  unfolding row_cells_def using assms by (auto intro!: image_cong row_at_nat [OF assms])

lemma row_at_inj: "fits32 rows dim \<Longrightarrow> t < unat rows \<Longrightarrow> inj_on (\<lambda>i. (b, row_at dim (of_nat t) i)) {..<unat dim}"
  by (auto simp: inj_on_def row_at_nat)

lemma row_at_other:
  assumes "fits32 rows dim" "t < unat rows" "i < unat dim"
  shows "(b, row_at dim (of_nat t) i) \<notin> (\<lambda>i. (b', row_at dim (of_nat t) i)) ` ({..<unat dim} - {i})"
  using assms by (auto simp: row_at_nat)

lemma fold_row_read:
  assumes "fits32 rows dim" "t < unat rows"
  shows "fold (\<lambda>i s. h s (m (b, row_at dim (of_nat t) i))) [0..<unat dim] z = foldl h z (row_read m b dim t)"
proof -
  have "foldl h z (row_read m b dim t) = fold (\<lambda>i s. h s (m (b, t * unat dim + i))) [0..<unat dim] z"
    by (simp add: row_read_def foldl_conv_fold fold_map comp_def)
  also have "\<dots> = fold (\<lambda>i s. h s (m (b, row_at dim (of_nat t) i))) [0..<unat dim] z"
    by (rule fold_cong) (simp_all add: row_at_nat [OF assms])
  finally show ?thesis by simp
qed

lemma fits32_row: "fits32 rows dim \<Longrightarrow> t < unat rows \<Longrightarrow> t < 4294967296"
  using u32_lt [of rows] by simp

lemma rms_norm_frame:
  assumes "fits32 rows dim" "t < 4294967296" "c \<notin> row_cells out rows dim t"
  shows "rms_norm_thread F X out inp w dim eps rows t m c = m c"
proof (cases "t < unat rows")
  case True
  then show ?thesis using assms
    by (simp add: rms_norm_thread_def Let_def u32_thread_le loop_frame row_at_image del: fun_upd_apply)
qed (simp add: rms_norm_thread_def u32_thread_le assms(2))

lemma rms_norm_at:
  assumes f: "fits32 rows dim" and t: "t < unat rows" and i: "i < unat dim" and w: "out \<noteq> w"
  shows "rms_norm_thread F X out inp w dim eps rows t m (out, t * unat dim + i) =
    rms_norm_row F X dim eps (row_read m inp dim t) (row_read m w dim 0) ! i"
proof -
  define scale where "scale = ho_rsqrt X (fo_add F (fo_div F
    (foldl (\<lambda>ss v. fo_add F ss (fo_mul F v v)) f32_zero (row_read m inp dim t)) (fo_of_u32 F dim)) eps)"
  have s: "fold (\<lambda>i ss. fo_add F ss (fo_mul F (m (inp, row_at dim (of_nat t) i)) (m (inp, row_at dim (of_nat t) i))))
      [0..<unat dim] f32_zero = foldl (\<lambda>ss v. fo_add F ss (fo_mul F v v)) f32_zero (row_read m inp dim t)"
    by (rule fold_row_read [OF f t])
  have "rms_norm_thread F X out inp w dim eps rows t m (out, row_at dim (of_nat t) i) =
      fold (\<lambda>i m. m((out, row_at dim (of_nat t) i) :=
        fo_mul F (fo_mul F (m (inp, row_at dim (of_nat t) i)) scale) (m (w, i)))) [0..<unat dim] m (out, row_at dim (of_nat t) i)"
    using t fits32_row [OF f t] by (simp add: rms_norm_thread_def u32_thread_le Let_def s scale_def del: fun_upd_apply)
  also have "\<dots> = fo_mul F (fo_mul F (m (inp, row_at dim (of_nat t) i)) scale) (m (w, i))"
  proof (rule loop_at [OF row_at_inj [OF f t] _ i])
    fix j and m m' :: gpu_mem assume j: "j < unat dim"
      and eq: "\<And>c. c \<notin> (\<lambda>i. (out, row_at dim (of_nat t) i)) ` ({..<unat dim} - {j}) \<Longrightarrow> m c = m' c"
    have "m (inp, row_at dim (of_nat t) j) = m' (inp, row_at dim (of_nat t) j)"
      by (rule eq [OF row_at_other [OF f t j]])
    moreover have "m (w, j) = m' (w, j)" using w by (intro eq) auto
    ultimately show "fo_mul F (fo_mul F (m (inp, row_at dim (of_nat t) j)) scale) (m (w, j)) =
      fo_mul F (fo_mul F (m' (inp, row_at dim (of_nat t) j)) scale) (m' (w, j))" by simp
  qed
  finally show ?thesis using i by (simp add: row_at_nat [OF f t i] rms_norm_row_def scale_def row_read_def Let_def)
qed


lemma softmax_of_thread:
  assumes f: "fits32 rows dim" and t: "t < unat rows"
  shows "i < unat dim \<Longrightarrow> softmax_thread F X out inp dim temp rows t m (out, t * unat dim + i) =
    softmax_of_row F X temp (row_read m inp dim t) ! i"
    and "c \<notin> row_cells out rows dim t \<Longrightarrow> softmax_thread F X out inp dim temp rows t m c = m c"
proof -
  define a where "a i = (out, row_at dim (of_nat t) i)" for i
  define r where "r m i = m (inp, row_at dim (of_nat t) i)" for m :: gpu_mem and i
  define inv where "inv = fo_div F f32_one (ho_max X temp f32_1em6)"
  define top where "top = foldl (\<lambda>v x. ho_max X v (fo_mul F x inv)) f32_m1e30 (row_read m inp dim t)"
  define e where "e i m = fo_exp F (fo_sub F (fo_mul F (r m i) inv) top)" for i m
  define total' where "total' = fold (\<lambda>i s. fo_add F s (e i m)) [0..<unat dim] f32_zero"
  note inj = row_at_inj [OF f t, of out, folded a_def]
  have loc: "e j m = e j m'" if "j < unat dim" "\<And>c. c \<notin> a ` ({..<unat dim} - {j}) \<Longrightarrow> m c = m' c" for j m m'
    using that(2) [OF row_at_other [OF f t that(1), of inp out, folded a_def]] by (simp add: e_def r_def)
  have top: "fold (\<lambda>i v. ho_max X v (fo_mul F (r m i) inv)) [0..<unat dim] f32_m1e30 = top"
    unfolding top_def r_def by (rule fold_row_read [OF f t])
  have "softmax_thread F X out inp dim temp rows t m =
      (case fold (\<lambda>i (m, s). let x = e i m in (m(a i := x), fo_add F s x)) [0..<unat dim] (m, f32_zero) of
         (m1, s) \<Rightarrow> fold (\<lambda>i m. m(a i := fo_mul F (m (a i)) (fo_div F f32_one s))) [0..<unat dim] m1)"
    unfolding softmax_thread_def Let_def [of "of_nat t"] u32_thread_le [OF fits32_row [OF f t]]
    using t top by (simp add: Let_def a_def e_def r_def inv_def del: fun_upd_apply)
  also have "fold (\<lambda>i (m, s). let x = e i m in (m(a i := x), fo_add F s x)) [0..<unat dim] (m, f32_zero) =
      (fold (\<lambda>i m. m(a i := e i m)) [0..<unat dim] m, total')"
    unfolding total'_def by (rule loop_sum [OF inj _ order_refl]) (fact loc)
  finally have th: "softmax_thread F X out inp dim temp rows t m =
      fold (\<lambda>i m. m(a i := fo_mul F (m (a i)) (fo_div F f32_one total'))) [0..<unat dim]
        (fold (\<lambda>i m. m(a i := e i m)) [0..<unat dim] m)"
    by (simp del: fun_upd_apply)
  show "softmax_thread F X out inp dim temp rows t m c = m c" if "c \<notin> row_cells out rows dim t"
  proof -
    have c: "c \<notin> a ` {..<unat dim}" using that row_at_image [OF f t, of out] unfolding a_def by simp
    show ?thesis unfolding th by (rule loop_frame [OF c, THEN trans], rule loop_frame [OF c])
  qed
  assume i: "i < unat dim"
  have "softmax_thread F X out inp dim temp rows t m (a i) =
      fo_mul F (fold (\<lambda>i m. m(a i := e i m)) [0..<unat dim] m (a i)) (fo_div F f32_one total')"
    unfolding th
  proof (rule loop_at [OF inj _ i])
    fix j and m m' :: gpu_mem
    assume j: "j < unat dim" and eq: "\<And>c. c \<notin> a ` ({..<unat dim} - {j}) \<Longrightarrow> m c = m' c"
    have "m (a j) = m' (a j)" by (rule eq [OF row_at_other [OF f t j, of out out, folded a_def]])
    then show "fo_mul F (m (a j)) (fo_div F f32_one total') = fo_mul F (m' (a j)) (fo_div F f32_one total')" by simp
  qed
  also have "fold (\<lambda>i m. m(a i := e i m)) [0..<unat dim] m (a i) = e i m"
    by (rule loop_at [OF inj _ i]) (fact loc)
  finally have "softmax_thread F X out inp dim temp rows t m (a i) = fo_mul F (e i m) (fo_div F f32_one total')" .
  moreover have "total' = foldl (\<lambda>s x. fo_add F s (fo_exp F (fo_sub F (fo_mul F x inv) top))) f32_zero (row_read m inp dim t)"
    unfolding total'_def e_def r_def by (rule fold_row_read [OF f t])
  ultimately show "softmax_thread F X out inp dim temp rows t m (out, t * unat dim + i) =
      softmax_of_row F X temp (row_read m inp dim t) ! i" using i
    by (simp add: a_def e_def r_def row_at_nat [OF f t i] softmax_of_row_def Let_def inv_def top_def row_read_def
      foldl_map)
qed

lemma softmax_frame:
  assumes "fits32 rows dim" "t < 4294967296" "c \<notin> row_cells out rows dim t"
  shows "softmax_thread F X out inp dim temp rows t m c = m c"
proof (cases "t < unat rows")
  case True
  show ?thesis by (rule softmax_of_thread(2) [OF assms(1) True assms(3)])
qed (simp add: softmax_thread_def u32_thread_le assms(2))

section \<open>Submitting the kernels\<close>

record kernel_call =
  kc_thread :: "nat \<Rightarrow> gpu_mem \<Rightarrow> gpu_mem"
  kc_groups :: u32
  kc_size :: nat

text \<open>
  \<open>kc_size\<close> is the number of threads of a group, or 1 where a group runs as a whole. The order in which the
  threads of a call run is any order of all of them.
\<close>

definition call_schedule :: "kernel_call \<Rightarrow> nat list \<Rightarrow> bool" where
  "call_schedule c order \<longleftrightarrow> mset order = mset [0..<unat (kc_groups c) * kc_size c]"

lemma call_schedule_64 [simp]: "kc_size c = 64 \<Longrightarrow> call_schedule c order \<longleftrightarrow> schedule (kc_groups c) order"
  by (simp add: call_schedule_def schedule_def)

definition BLAS_vec_add :: "float_ops \<Rightarrow> nat \<Rightarrow> nat \<Rightarrow> nat \<Rightarrow> u32 \<Rightarrow> f32 \<Rightarrow> f32 \<Rightarrow> kernel_call" where
  "BLAS_vec_add F out in1 in2 n alpha beta =
    \<lparr> kc_thread = vec_add_thread F out in1 in2 n alpha beta, kc_groups = group_count n, kc_size = 64 \<rparr>"

definition MathOps_rms_norm :: "float_ops \<Rightarrow> hlsl_ops \<Rightarrow> nat \<Rightarrow> nat \<Rightarrow> nat \<Rightarrow> u32 \<Rightarrow> u32 \<Rightarrow> f32 \<Rightarrow> kernel_call" where
  "MathOps_rms_norm F X out inp weight num_rows row_dim eps =
    \<lparr> kc_thread = rms_norm_thread F X out inp weight row_dim eps num_rows, kc_groups = group_count num_rows, kc_size = 64 \<rparr>"

definition MathOps_softmax :: "float_ops \<Rightarrow> hlsl_ops \<Rightarrow> nat \<Rightarrow> nat \<Rightarrow> u32 \<Rightarrow> u32 \<Rightarrow> f32 \<Rightarrow> kernel_call" where
  "MathOps_softmax F X out inp num_rows row_dim temperature =
    \<lparr> kc_thread = softmax_thread F X out inp row_dim temperature num_rows, kc_groups = group_count num_rows, kc_size = 64 \<rparr>"

text \<open>The row length \<open>rope\<close> passes is the size of the whole input.\<close>

definition MathOps_rope :: "float_ops \<Rightarrow> hlsl_ops \<Rightarrow> nat \<Rightarrow> nat \<Rightarrow> u32 \<Rightarrow> u32 \<Rightarrow> u32 \<Rightarrow> f32 \<Rightarrow> kernel_call" where
  "MathOps_rope F X out inp num_rows head_dim pos theta =
    \<lparr> kc_thread = rope_thread F X out inp (num_rows * head_dim) head_dim pos theta, kc_groups = group_count num_rows, kc_size = 64 \<rparr>"

definition LA_elementwise :: "float_ops \<Rightarrow> nat \<Rightarrow> nat \<Rightarrow> nat \<Rightarrow> u32 \<Rightarrow> int \<Rightarrow> f32 \<Rightarrow> f32 \<Rightarrow> kernel_call" where
  "LA_elementwise F out in0 in1 n op alpha beta =
    \<lparr> kc_thread = la_elementwise_thread F out in0 in1 n op alpha beta, kc_groups = group_count n, kc_size = 64 \<rparr>"

definition LA_activation :: "float_ops \<Rightarrow> hlsl_ops \<Rightarrow> nat \<Rightarrow> nat \<Rightarrow> u32 \<Rightarrow> int \<Rightarrow> f32 \<Rightarrow> kernel_call" where
  "LA_activation F X out inp n act alpha =
    \<lparr> kc_thread = la_activation_thread F X out inp n act alpha, kc_groups = group_count n, kc_size = 64 \<rparr>"

text \<open>\<open>((uint64_t)rows * dim + 63) / 64\<close>, passed as a \<open>UINT\<close>.\<close>

definition entry_groups :: "u32 \<Rightarrow> u32 \<Rightarrow> u32" where
  "entry_groups rows dim = ucast (((ucast rows :: u64) * ucast dim + 63) div 64)"

definition LA_rmsnorm :: "float_ops \<Rightarrow> hlsl_ops \<Rightarrow> nat \<Rightarrow> nat \<Rightarrow> nat \<Rightarrow> u32 \<Rightarrow> u32 \<Rightarrow> f32 \<Rightarrow> kernel_call" where
  "LA_rmsnorm F X out inp gamma rows dim eps =
    \<lparr> kc_thread = la_rmsnorm_thread F X out inp gamma rows dim eps, kc_groups = entry_groups rows dim, kc_size = 64 \<rparr>"

definition LA_softmax :: "float_ops \<Rightarrow> hlsl_ops \<Rightarrow> nat \<Rightarrow> nat \<Rightarrow> u32 \<Rightarrow> u32 \<Rightarrow> kernel_call" where
  "LA_softmax F X out inp rows dim = \<lparr> kc_thread = la_softmax_thread F X out inp rows dim, kc_groups = entry_groups rows dim, kc_size = 64 \<rparr>"

definition LA_reduce :: "float_ops \<Rightarrow> hlsl_ops \<Rightarrow> nat \<Rightarrow> nat \<Rightarrow> u32 \<Rightarrow> u32 \<Rightarrow> int \<Rightarrow> kernel_call" where
  "LA_reduce F X out inp rows dim op =
    \<lparr> kc_thread = la_reduce_thread F X out inp rows dim op, kc_groups = group_count rows, kc_size = 64 \<rparr>"

text \<open>
  Objects of \<open>BLAS\<close>, \<open>MathOps\<close>, \<open>LA\<close> over one queue. Each has a command allocator, a fence and the last
  value signalled; object \<open>e\<close> owns fence \<open>e\<close> of the timeline. A submitted call carries the order in
  which the device will run its threads. \<open>oh_reset_busy\<close>: some allocator was reset while commands
  recorded from it were still to be executed, which Direct3D forbids.
\<close>

type_synonym submitted = "nat \<times> kernel_call \<times> nat list"

record ops_host =
  oh_line :: "(submitted, gpu_mem) timeline"
  oh_vals :: "nat \<Rightarrow> u64"
  oh_reset_busy :: bool

definition exec_call :: "submitted \<Rightarrow> gpu_mem \<Rightarrow> gpu_mem" where
  "exec_call s m = (case s of (e, c, order) \<Rightarrow> dispatch (kc_thread c) order m)"

lemma exec_call_pair: "exec_call (e, c, order) m = dispatch (kc_thread c) order m"
  by (simp add: exec_call_def)

definition allocator_busy :: "nat \<Rightarrow> (submitted, gpu_mem) timeline \<Rightarrow> bool" where
  "allocator_busy e t \<longleftrightarrow> list_ex (\<lambda>op. case op of Work (e', _) \<Rightarrow> e' = e | Signal _ _ \<Rightarrow> False) (tl_pending t)"

text \<open>\<open>if (m_fence_val > 0) m_fence->wait(m_fence_val); m_cmd_alloc->Reset();\<close>\<close>

definition ensure_idle :: "nat \<Rightarrow> ops_host \<Rightarrow> ops_host option" where
  "ensure_idle e h =
    (case (if oh_vals h e > 0 then fence_wait exec_call e (oh_vals h e) (oh_line h) else Some (oh_line h)) of
       None \<Rightarrow> None
     | Some t \<Rightarrow> Some (h\<lparr>oh_line := t, oh_reset_busy := oh_reset_busy h \<or> allocator_busy e t\<rparr>))"

text \<open>Record, close, execute, signal.\<close>

definition ops_submit :: "nat \<Rightarrow> kernel_call \<Rightarrow> nat list \<Rightarrow> ops_host \<Rightarrow> ops_host option" where
  "ops_submit e c order h =
    (case ensure_idle e h of
       None \<Rightarrow> None
     | Some h1 \<Rightarrow>
         let v = oh_vals h1 e + 1
         in Some (h1\<lparr>oh_line := queue_signal e v (queue_execute (e, c, order) (oh_line h1)), oh_vals := (oh_vals h1)(e := v)\<rparr>))"

text \<open>\<open>BLAS::vec_add\<close> neither waits nor signals.\<close>

definition ops_submit_unfenced :: "nat \<Rightarrow> kernel_call \<Rightarrow> nat list \<Rightarrow> ops_host \<Rightarrow> ops_host" where
  "ops_submit_unfenced e c order h =
    h\<lparr>oh_line := queue_execute (e, c, order) (oh_line h), oh_reset_busy := oh_reset_busy h \<or> allocator_busy e (oh_line h)\<rparr>"

definition ops_start :: "gpu_mem \<Rightarrow> ops_host" where
  "ops_start m = \<lparr> oh_line = new_timeline m, oh_vals = (\<lambda>_. 0), oh_reset_busy = False \<rparr>"

inductive ops_run :: "gpu_mem \<Rightarrow> ops_host \<Rightarrow> submitted list \<Rightarrow> bool" for m0 where
  Start: "ops_run m0 (ops_start m0) []"
| Submit: "ops_run m0 h ws \<Longrightarrow> ops_submit e c order h = Some h' \<Longrightarrow> call_schedule c order \<Longrightarrow>
    ops_run m0 h' (ws @ [(e, c, order)])"
| Device: "ops_run m0 h ws \<Longrightarrow> ops_run m0 (h\<lparr>oh_line := gpu_step exec_call (oh_line h)\<rparr>) ws"

text \<open>Intrinsics for examples.\<close>

definition toy_hlsl :: hlsl_ops where
  "toy_hlsl = \<lparr> ho_max = max, ho_min = min, ho_rsqrt = id, ho_pow = (*), ho_cos = id, ho_sin = id, ho_abs = id \<rparr>"

section \<open>The allocators are never reset too early\<close>

definition of_engine :: "nat \<Rightarrow> submitted gpu_op \<Rightarrow> bool" where
  "of_engine e op = (case op of Work (e', _) \<Rightarrow> e' = e | Signal f _ \<Rightarrow> f = e)"

lemma of_engine_simps [simp]:
  "of_engine e (Work (e', c)) \<longleftrightarrow> e' = e" "of_engine e (Signal f v) \<longleftrightarrow> f = e"
  by (simp_all add: of_engine_def)

text \<open>Of an object at most one call is under way: none, the signal, or the call and its signal.\<close>

definition engine_ok :: "nat \<Rightarrow> u64 \<Rightarrow> (submitted, gpu_mem) timeline \<Rightarrow> bool" where
  "engine_ok e v t \<longleftrightarrow>
    filter (of_engine e) (tl_pending t) = [] \<and> tl_completed t e = v \<or>
    v \<noteq> 0 \<and> tl_completed t e = v - 1 \<and>
      (filter (of_engine e) (tl_pending t) = [Signal e v] \<or>
       (\<exists>c. filter (of_engine e) (tl_pending t) = [Work (e, c), Signal e v]))"

definition works_of :: "'w gpu_op list \<Rightarrow> 'w list" where
  "works_of ops = concat (map (\<lambda>op. case op of Work w \<Rightarrow> [w] | Signal _ _ \<Rightarrow> []) ops)"

lemma works_of_simps [simp]:
  "works_of [] = []" "works_of (Work w # ops) = w # works_of ops" "works_of (Signal f v # ops) = works_of ops"
  "works_of (xs @ ys) = works_of xs @ works_of ys"
  by (simp_all add: works_of_def)

lemma engine_ok_step:
  assumes "engine_ok e v t" shows "engine_ok e v (gpu_step exec_call t)"
proof (cases "tl_pending t")
  case (Cons op ops)
  show ?thesis
  proof (cases op)
    case (Work w)
    obtain e' c where w: "w = (e', c)" by (cases w)
    have "gpu_step exec_call t = t\<lparr>tl_pending := ops, tl_memory := exec_call w (tl_memory t)\<rparr>"
      using Cons Work by simp
    then show ?thesis using assms Cons Work w by (cases "e' = e") (auto simp: engine_ok_def)
  next
    case (Signal f u)
    have "gpu_step exec_call t = t\<lparr>tl_pending := ops, tl_completed := (tl_completed t)(f := u)\<rparr>"
      using Cons Signal by simp
    then show ?thesis using assms Cons Signal by (cases "f = e") (auto simp: engine_ok_def)
  qed
qed (use assms in simp)

lemma engine_ok_idle: "engine_ok e v t \<Longrightarrow> \<not> tl_completed t e < v \<Longrightarrow> filter (of_engine e) (tl_pending t) = [] \<and> tl_completed t e = v"
proof -
  assume "engine_ok e v t" "\<not> tl_completed t e < v"
  moreover have "v \<noteq> 0 \<Longrightarrow> v - 1 < v"
    using unat_minus_one [of v] by (simp add: word_less_nat_alt unat_gt_0)
  ultimately show ?thesis by (auto simp: engine_ok_def)
qed


lemma engine_ok_submit:
  assumes "engine_ok e v t" "e \<noteq> f"
  shows "engine_ok e v (queue_signal f u (queue_execute (f, c) t))"
  using assms by (simp add: engine_ok_def queue_signal_def queue_execute_def)

lemma engine_ok_next:
  assumes "filter (of_engine e) (tl_pending t) = []" "tl_completed t e = v" "v + 1 \<noteq> 0"
  shows "engine_ok e (v + 1) (queue_signal e (v + 1) (queue_execute (e, c) t))"
  using assms by (simp add: engine_ok_def queue_signal_def queue_execute_def)

text \<open>What the commands still queued will make of the memory.\<close>

definition eventually_memory :: "(submitted, gpu_mem) timeline \<Rightarrow> gpu_mem" where
  "eventually_memory t = fold exec_call (works_of (tl_pending t)) (tl_memory t)"

lemma eventually_step [simp]: "eventually_memory (gpu_step exec_call t) = eventually_memory t"
  by (cases "tl_pending t"; cases "hd (tl_pending t)") (auto simp: eventually_memory_def gpu_step_def)

lemma eventually_submit: "eventually_memory (queue_signal f u (queue_execute w t)) = exec_call w (eventually_memory t)"
  by (simp add: eventually_memory_def queue_signal_def queue_execute_def)

lemma fence_wait_returns:
  assumes step: "\<And>t. P t \<Longrightarrow> P (gpu_step exec t)"
    and busy: "\<And>t. P t \<Longrightarrow> tl_completed t f < v \<Longrightarrow> tl_pending t \<noteq> []"
  shows "P t \<Longrightarrow> \<exists>t'. fence_wait exec f v t = Some t' \<and> P t' \<and> \<not> tl_completed t' f < v"
proof (induction "length (tl_pending t)" arbitrary: t rule: less_induct)
  case less
  show ?case
  proof (cases "tl_completed t f < v")
    case True
    then have ne: "tl_pending t \<noteq> []" by (rule busy [OF less.prems])
    then have "length (tl_pending (gpu_step exec t)) < length (tl_pending t)"
      by (cases "tl_pending t"; cases "hd (tl_pending t)") (auto simp: gpu_step_def)
    then show ?thesis
      using less.hyps [OF _ step [OF less.prems]] True ne by (subst fence_wait.simps) auto
  qed (use less.prems in \<open>subst fence_wait.simps, auto\<close>)
qed

text \<open>The state of a run: every object's fence, the memory to come, no early reset.\<close>

definition ops_ok :: "gpu_mem \<Rightarrow> ops_host \<Rightarrow> submitted list \<Rightarrow> bool" where
  "ops_ok m0 h ws \<longleftrightarrow> (\<forall>e. engine_ok e (oh_vals h e) (oh_line h)) \<and> (\<forall>e. unat (oh_vals h e) \<le> length ws) \<and>
    eventually_memory (oh_line h) = fold exec_call ws m0 \<and> \<not> oh_reset_busy h"

lemma ensure_idle_ok:
  assumes "ops_ok m0 h ws"
  shows "\<exists>h'. ensure_idle e h = Some h' \<and> ops_ok m0 h' ws \<and> oh_vals h' = oh_vals h \<and>
    filter (of_engine e) (tl_pending (oh_line h')) = [] \<and> tl_completed (oh_line h') e = oh_vals h e"
proof -
  define P where "P t \<longleftrightarrow> (\<forall>e. engine_ok e (oh_vals h e) t) \<and> eventually_memory t = fold exec_call ws m0" for t
  have P0: "P (oh_line h)" using assms by (simp add: P_def ops_ok_def)
  have "\<exists>t. fence_wait exec_call e (oh_vals h e) (oh_line h) = Some t \<and> P t \<and> \<not> tl_completed t e < oh_vals h e"
  proof (rule fence_wait_returns [where P = P, OF _ _ P0])
    fix t assume p: "P t" and lt: "tl_completed t e < oh_vals h e"
    have "engine_ok e (oh_vals h e) t" using p by (simp add: P_def)
    with lt show "tl_pending t \<noteq> []" by (auto simp: engine_ok_def)
  qed (simp add: P_def engine_ok_step)
  moreover have "\<not> tl_completed (oh_line h) e < oh_vals h e" if "\<not> 0 < oh_vals h e"
    using that by (simp add: word_less_nat_alt)
  ultimately obtain t where t: "(if oh_vals h e > 0 then fence_wait exec_call e (oh_vals h e) (oh_line h) else Some (oh_line h)) = Some t"
      and p: "P t" and c: "\<not> tl_completed t e < oh_vals h e"
    using P0 by (cases "0 < oh_vals h e") auto
  have i: "filter (of_engine e) (tl_pending t) = []" "tl_completed t e = oh_vals h e"
    using engine_ok_idle [OF _ c] p by (simp_all add: P_def)
  have "\<not> allocator_busy e t"
    using i(1) by (auto simp: allocator_busy_def list_ex_iff filter_empty_conv split: gpu_op.splits)
  then show ?thesis using assms p i by (simp add: ensure_idle_def t ops_ok_def P_def)
qed

lemma ops_submit_ok:
  assumes "ops_ok m0 h ws" "length ws + 1 < 18446744073709551616"
  shows "\<exists>h'. ops_submit e c order h = Some h' \<and> ops_ok m0 h' (ws @ [(e, c, order)])"
proof -
  obtain h1 where h1: "ensure_idle e h = Some h1" "ops_ok m0 h1 ws" "oh_vals h1 = oh_vals h"
      "filter (of_engine e) (tl_pending (oh_line h1)) = []" "tl_completed (oh_line h1) e = oh_vals h e"
    using ensure_idle_ok [OF assms(1)] by blast
  have b: "unat (oh_vals h e) \<le> length ws" using assms(1) by (simp add: ops_ok_def)
  then have v: "unat (oh_vals h e + 1) = unat (oh_vals h e) + 1"
    using assms(2) u64_add_unat [of "oh_vals h e" 1] by simp
  then have v0: "oh_vals h e + 1 \<noteq> 0" by auto
  have "engine_ok f (if f = e then oh_vals h e + 1 else oh_vals h f)
      (queue_signal e (oh_vals h e + 1) (queue_execute (e, c, order) (oh_line h1)))" for f
  proof (cases "f = e")
    case True
    then show ?thesis using engine_ok_next [OF h1(4,5) v0] by simp
  next
    case False
    then show ?thesis using engine_ok_submit [of f _ "oh_line h1" e] h1(2,3) by (simp add: ops_ok_def)
  qed
  moreover have "unat (if f = e then oh_vals h e + 1 else oh_vals h f) \<le> Suc (length ws)" for f
    using b v assms(1) by (auto simp: ops_ok_def intro: le_SucI)
  ultimately have "ops_ok m0 (h1\<lparr>oh_line := queue_signal e (oh_vals h e + 1) (queue_execute (e, c, order) (oh_line h1)),
      oh_vals := (oh_vals h)(e := oh_vals h e + 1)\<rparr>) (ws @ [(e, c, order)])"
    using h1(2) by (simp add: ops_ok_def eventually_submit)
  then show ?thesis by (simp add: ops_submit_def h1(1,3) Let_def)
qed


lemma ops_run_ok:
  "ops_run m0 h ws \<Longrightarrow> length ws < 18446744073709551616 \<Longrightarrow> ops_ok m0 h ws"
proof (induction rule: ops_run.induct)
  case Start
  then show ?case by (simp add: ops_ok_def ops_start_def engine_ok_def new_timeline_def eventually_memory_def)
next
  case (Submit h ws e c order h')
  then have "ops_ok m0 h ws" "length ws + 1 < 18446744073709551616" by simp_all
  from ops_submit_ok [OF this, of e c order] show ?case using Submit.hyps(2) by simp
next
  case (Device h ws)
  then show ?case by (simp add: ops_ok_def engine_ok_step)
qed

lemma ops_run_submits:
  assumes "ops_run m0 h ws" "length ws + 1 < 18446744073709551616"
  shows "\<not> oh_reset_busy h \<and> (\<exists>h'. ops_submit e c order h = Some h' \<and> \<not> oh_reset_busy h')"
proof -
  have "ops_ok m0 h ws" using ops_run_ok [OF assms(1)] assms(2) by simp
  then show ?thesis using ops_submit_ok [OF _ assms(2), of m0 h e c order] by (auto simp: ops_ok_def)
qed

text \<open>
  C35. However calls of any number of \<open>MathOps\<close>, \<open>LA\<close> and (but for \<open>vec_add\<close>) \<open>BLAS\<close> objects on a queue
  interleave with the progress of the device, no command allocator is reset while commands recorded
  from it are still to be executed, and the next call of any object returns: its wait on the fence
  always ends.
\<close>

theorem allocators_idle_on_reset:
  assumes "ops_run m0 h ws" "length ws + 1 < 18446744073709551616"
  shows "\<not> oh_reset_busy h \<and> (\<exists>h'. ops_submit e c order h = Some h' \<and> \<not> oh_reset_busy h')"
  by (rule ops_run_submits [OF assms])

theorem allocators_idle_on_reset_witness:
  "\<exists>h'. ops_submit 1 (MathOps_softmax toy_floats toy_hlsl 0 0 1 2 1) [0..<64] (ops_start (\<lambda>_. 0)) = Some h' \<and> \<not> oh_reset_busy h'"
  using allocators_idle_on_reset [of "\<lambda>_. 0" "ops_start (\<lambda>_. 0)" "[]" 1
      "MathOps_softmax toy_floats toy_hlsl 0 0 1 2 1" "[0..<64]"] ops_run.Start [of "\<lambda>_. 0"]
  by auto

text \<open>A \<open>vec_add\<close> does not wait and its commands are not signalled: a second one resets the allocator under the first.\<close>

lemma vec_add_resets_busy:
  "oh_reset_busy (ops_submit_unfenced e c2 o2 (ops_submit_unfenced e c1 o1 (ops_start m)))"
  by (simp add: ops_submit_unfenced_def allocator_busy_def queue_execute_def)

section \<open>Reading the results\<close>

text \<open>The caller signals a fence of its own behind everything and waits for it.\<close>

definition host_sync :: "nat \<Rightarrow> ops_host \<Rightarrow> (submitted, gpu_mem) timeline option" where
  "host_sync g h = fence_wait exec_call g 1 (queue_signal g 1 (create_fence g 0 (oh_line h)))"

lemma run_fences:
  "ops_run m0 h ws \<Longrightarrow> (\<And>s. s \<in> set ws \<Longrightarrow> fst s \<noteq> g) \<Longrightarrow> oh_vals h g = 0"
proof (induction rule: ops_run.induct)
  case (Submit h ws e c order h')
  have "e \<noteq> g" "oh_vals h g = 0" using Submit.prems [of "(e, c, order)"] Submit.IH Submit.prems by auto
  then show ?case using Submit.hyps(2)
    by (auto simp: ops_submit_def ensure_idle_def Let_def split: option.splits if_splits)
qed (simp_all add: ops_start_def)

text \<open>A wait for the last command queued, a signal of a fence nothing before it signals, empties the queue.\<close>

lemma last_signal_drains:
  assumes "tl_pending t = pre @ [Signal f v]" "\<And>u. Signal f u \<notin> set pre" "tl_completed t f < v"
  shows "\<exists>t'. fence_wait exec_call f v t = Some t' \<and> tl_pending t' = [] \<and> tl_memory t' = eventually_memory t"
  using assms
proof (induction pre arbitrary: t)
  case Nil
  then have "gpu_step exec_call t = t\<lparr>tl_pending := [], tl_completed := (tl_completed t)(f := v)\<rparr>" by (simp add: gpu_step_def)
  then show ?case using Nil by (simp add: fence_wait.simps eventually_memory_def)
next
  case (Cons op pre)
  have "tl_pending (gpu_step exec_call t) = pre @ [Signal f v]" "tl_completed (gpu_step exec_call t) f < v"
    using Cons.prems by (cases op; auto simp: gpu_step_def)+
  from Cons.IH [OF this(1) _ this(2)] have "\<exists>t'. fence_wait exec_call f v (gpu_step exec_call t) = Some t' \<and>
      tl_pending t' = [] \<and> tl_memory t' = eventually_memory t"
    using Cons.prems(2) by auto
  then show ?case using Cons.prems(1,3) by (subst fence_wait.simps) simp
qed

lemma host_sync_reads:
  assumes "ops_run m0 h ws" "length ws < 18446744073709551616" "\<And>s. s \<in> set ws \<Longrightarrow> fst s \<noteq> g"
  shows "\<exists>t. host_sync g h = Some t \<and> tl_memory t = fold exec_call ws m0"
proof -
  have ok: "ops_ok m0 h ws" by (rule ops_run_ok [OF assms(1,2)])
  have "engine_ok g 0 (oh_line h)" using ok run_fences [OF assms(1,3)] by (auto simp: ops_ok_def dest: spec [of _ g])
  then have none: "Signal g u \<notin> set (tl_pending (oh_line h))" for u by (auto simp: engine_ok_def filter_empty_conv)
  define t where "t = queue_signal g 1 (create_fence g 0 (oh_line h))"
  have "eventually_memory t = fold exec_call ws m0"
    using ok by (simp add: t_def ops_ok_def eventually_memory_def queue_signal_def create_fence_def)
  moreover have "tl_pending t = tl_pending (oh_line h) @ [Signal g 1]" "tl_completed t g < 1"
    by (simp_all add: t_def queue_signal_def create_fence_def)
  ultimately show ?thesis
    using last_signal_drains [of t "tl_pending (oh_line h)" g 1] none by (auto simp: host_sync_def t_def)
qed

text \<open>An object that waits for its own call right after it.\<close>

lemma ops_submit_then_wait:
  assumes "ops_run m0 h ws" "length ws + 1 < 18446744073709551616" "ops_submit e c order h = Some h'"
  shows "\<exists>t. fence_wait exec_call e (oh_vals h' e) (oh_line h') = Some t \<and> tl_pending t = [] \<and>
    tl_memory t = fold exec_call (ws @ [(e, c, order)]) m0"
proof -
  have ok: "ops_ok m0 h ws" using ops_run_ok [OF assms(1)] assms(2) by simp
  obtain h1 where h1: "ensure_idle e h = Some h1" "ops_ok m0 h1 ws" "oh_vals h1 = oh_vals h"
      "filter (of_engine e) (tl_pending (oh_line h1)) = []" "tl_completed (oh_line h1) e = oh_vals h e"
    using ensure_idle_ok [OF ok] by blast
  define v where "v = oh_vals h e + 1"
  have h': "h' = h1\<lparr>oh_line := queue_signal e v (queue_execute (e, c, order) (oh_line h1)), oh_vals := (oh_vals h1)(e := v)\<rparr>"
    using assms(3) h1(1,3) by (simp add: ops_submit_def Let_def v_def)
  have "unat (oh_vals h e) \<le> length ws" using ok by (simp add: ops_ok_def)
  then have "unat v = unat (oh_vals h e) + 1" using u64_add_unat [of "oh_vals h e" 1] assms(2) by (simp add: v_def)
  then have "tl_completed (oh_line h') e < v"
    by (simp add: h' queue_signal_def queue_execute_def h1(5) word_less_nat_alt)
  moreover have "tl_pending (oh_line h') = (tl_pending (oh_line h1) @ [Work (e, c, order)]) @ [Signal e v]"
    by (simp add: h' queue_signal_def queue_execute_def)
  moreover have "Signal e u \<notin> set (tl_pending (oh_line h1) @ [Work (e, c, order)])" for u
    using h1(4) by (auto simp: filter_empty_conv)
  moreover have "eventually_memory (oh_line h') = fold exec_call (ws @ [(e, c, order)]) m0"
    using h1(2) by (simp add: h' eventually_submit ops_ok_def)
  ultimately show ?thesis
    using last_signal_drains [of "oh_line h'" "tl_pending (oh_line h1) @ [Work (e, c, order)]" e v] by (simp add: h')
qed

text \<open>Several calls of one object in a row.\<close>

fun ops_submit_all :: "nat \<Rightarrow> (kernel_call \<times> nat list) list \<Rightarrow> ops_host \<Rightarrow> ops_host option" where
  "ops_submit_all e [] h = Some h"
| "ops_submit_all e ((c, order) # calls) h =
    (case ops_submit e c order h of None \<Rightarrow> None | Some h' \<Rightarrow> ops_submit_all e calls h')"

lemma ops_submit_all_run:
  "ops_run m0 h ws \<Longrightarrow> length ws + length calls < 18446744073709551616 \<Longrightarrow>
    list_all (\<lambda>(c, order). call_schedule c order) calls \<Longrightarrow>
    \<exists>h'. ops_submit_all e calls h = Some h' \<and> ops_run m0 h' (ws @ map (Pair e) calls)"
proof (induction calls arbitrary: h ws)
  case (Cons call calls)
  obtain c order where c: "call = (c, order)" by (cases call)
  obtain h1 where h1: "ops_submit e c order h = Some h1"
    using ops_run_submits [OF Cons.prems(1), of e c order] Cons.prems(2) by auto
  have "ops_run m0 h1 (ws @ [(e, c, order)])"
    using ops_run.Submit [OF Cons.prems(1) h1] Cons.prems(3) c by simp
  from Cons.IH [OF this] show ?case using Cons.prems(2,3) by (simp add: c h1)
qed simp

text \<open>The memory after calls of one object behind earlier work, when the caller has waited for them.\<close>

lemma ops_submit_all_reads:
  assumes "ops_run m0 h ws" "length ws + length calls < 18446744073709551616"
    and "list_all (\<lambda>(c, order). call_schedule c order) calls"
    and fresh: "\<And>s. s \<in> set ws \<Longrightarrow> fst s \<noteq> g" "e \<noteq> g"
  shows "\<exists>h' t. ops_submit_all e calls h = Some h' \<and> host_sync g h' = Some t \<and>
    tl_memory t = fold (\<lambda>(c, order). dispatch (kc_thread c) order) calls (fold exec_call ws m0)"
proof -
  obtain h' where h': "ops_submit_all e calls h = Some h'" "ops_run m0 h' (ws @ map (Pair e) calls)"
    using ops_submit_all_run [OF assms(1-3)] by blast
  have f: "fst s \<noteq> g" if "s \<in> set (ws @ map (Pair e) calls)" for s using that fresh(1) [of s] fresh(2) by auto
  obtain t where t: "host_sync g h' = Some t" "tl_memory t = fold exec_call (ws @ map (Pair e) calls) m0"
    using host_sync_reads [OF h'(2) _ f] assms(2) by auto
  have "fold exec_call (map (Pair e) calls) m = fold (\<lambda>(c, order). dispatch (kc_thread c) order) calls m" for m
    by (induction calls arbitrary: m) (simp_all add: exec_call_def case_prod_beta)
  then show ?thesis using h'(1) t by auto
qed

lemma ops_submit_all_then_wait:
  "ops_run m0 h ws \<Longrightarrow> length ws + length calls < 18446744073709551616 \<Longrightarrow>
    list_all (\<lambda>(c, order). call_schedule c order) calls \<Longrightarrow> calls \<noteq> [] \<Longrightarrow>
    \<exists>h' t. ops_submit_all e calls h = Some h' \<and> fence_wait exec_call e (oh_vals h' e) (oh_line h') = Some t \<and>
      tl_pending t = [] \<and> tl_memory t = fold (\<lambda>(c, order). dispatch (kc_thread c) order) calls (fold exec_call ws m0)"
proof (induction calls arbitrary: h ws)
  case (Cons call calls)
  obtain c order where c: "call = (c, order)" by (cases call)
  have b: "length ws + 1 < 18446744073709551616" using Cons.prems(2) by simp
  obtain h1 where h1: "ops_submit e c order h = Some h1"
    using ops_run_submits [OF Cons.prems(1) b, of e c order] by auto
  show ?case
  proof (cases "calls = []")
    case True
    then show ?thesis using ops_submit_then_wait [OF Cons.prems(1) b h1] h1 c by (simp add: exec_call_pair)
  next
    case False
    have r: "ops_run m0 h1 (ws @ [(e, c, order)])"
      using ops_run.Submit [OF Cons.prems(1) h1] Cons.prems(3) c by simp
    show ?thesis using Cons.IH [OF r _ _ False] Cons.prems(2,3) by (simp add: c h1 exec_call_pair)
  qed
qed simp

section \<open>Row kernels from submission to result\<close>

lemma length_rms_norm_row [simp]: "length (rms_norm_row F X dim eps xs ws) = min (length xs) (length ws)"
  by (simp add: rms_norm_row_def Let_def)

lemma length_softmax_of_row [simp]: "length (softmax_of_row F X temp xs) = length xs"
  by (simp add: softmax_of_row_def Let_def)

lemma rms_norm_rows:
  fixes F X inp eps e m
  assumes "fits32 rows dim" "unat rows \<le> 4194240" "schedule (group_count rows) order" "out \<noteq> w"
  defines "m' \<equiv> exec_call (e, MathOps_rms_norm F X out inp w rows dim eps, order) m"
  shows "r < unat rows \<Longrightarrow> row_read m' out dim r = rms_norm_row F X dim eps (row_read m inp dim r) (row_read m w dim 0)"
    and "(\<And>r. c \<notin> row_cells out rows dim r) \<Longrightarrow> m' c = m c"
proof -
  note row = row_kernel_dispatch [where thread = "rms_norm_thread F X out inp w dim eps rows" and inp = inp
      and v = "rms_norm_row F X dim eps" and w = w, OF rms_norm_frame [OF assms(1)] rms_norm_at [OF assms(1) _ _ assms(4)] _
      assms(4,2,3)]
  show "r < unat rows \<Longrightarrow> row_read m' out dim r = rms_norm_row F X dim eps (row_read m inp dim r) (row_read m w dim 0)"
    unfolding m'_def exec_call_def MathOps_rms_norm_def by (simp, rule row(1)) auto
  show "(\<And>r. c \<notin> row_cells out rows dim r) \<Longrightarrow> m' c = m c"
    unfolding m'_def exec_call_def MathOps_rms_norm_def by (simp, rule row(2)) auto
qed

lemma softmax_rows:
  fixes F X out inp temp e m
  assumes "fits32 rows dim" "unat rows \<le> 4194240" "schedule (group_count rows) order"
  defines "m' \<equiv> exec_call (e, MathOps_softmax F X out inp rows dim temp, order) m"
  shows "r < unat rows \<Longrightarrow> row_read m' out dim r = softmax_of_row F X temp (row_read m inp dim r)"
    and "(\<And>r. c \<notin> row_cells out rows dim r) \<Longrightarrow> m' c = m c"
proof -
  have o: "out \<noteq> Suc out" by simp
  note row = row_kernel_dispatch [where thread = "softmax_thread F X out inp dim temp rows" and inp = inp
      and v = "\<lambda>xs _. softmax_of_row F X temp xs" and w = "Suc out", OF softmax_frame [OF assms(1)]
      softmax_of_thread(1) [OF assms(1)] _ o assms(2,3)]
  show "r < unat rows \<Longrightarrow> row_read m' out dim r = softmax_of_row F X temp (row_read m inp dim r)"
    unfolding m'_def exec_call_def MathOps_softmax_def by (simp, rule row(1)) auto
  show "(\<And>r. c \<notin> row_cells out rows dim r) \<Longrightarrow> m' c = m c"
    unfolding m'_def exec_call_def MathOps_softmax_def by (simp, rule row(2)) auto
qed

text \<open>
  C34. The forward pass of the inference tools: an RMS normalisation into an output buffer, a softmax
  in place on it, submitted behind any other work without waiting, then a fence of the caller's
  awaited. Both submissions and the wait return, and every row of the output is the softmax of the
  normalised row of what the input held when the earlier work was finished; every cell outside the
  output rows is as that work left it. The order in which the device runs the threads does not
  matter. Bounds: the entries are numbered in 32 bits and Direct3D allows 65535 groups of 64
  threads; the output may be the input but not the weights.
\<close>

theorem norm_then_softmax:
  assumes "ops_run m0 h ws" "length ws + 2 < 18446744073709551616" "\<And>s. s \<in> set ws \<Longrightarrow> fst s \<noteq> g" "e \<noteq> g"
    and "fits32 rows dim" "unat rows \<le> 4194240" "out \<noteq> w"
    and "schedule (group_count rows) o1" "schedule (group_count rows) o2"
  shows "\<exists>h1 h2 t. ops_submit e (MathOps_rms_norm F X out inp w rows dim eps) o1 h = Some h1 \<and>
    ops_submit e (MathOps_softmax F X out out rows dim temp) o2 h1 = Some h2 \<and> host_sync g h2 = Some t \<and>
    (let m = fold exec_call ws m0
     in (\<forall>r < unat rows. row_read (tl_memory t) out dim r =
           softmax_of_row F X temp (rms_norm_row F X dim eps (row_read m inp dim r) (row_read m w dim 0))) \<and>
        (\<forall>c. (\<forall>r. c \<notin> row_cells out rows dim r) \<longrightarrow> tl_memory t c = m c))"
proof -
  let ?c1 = "MathOps_rms_norm F X out inp w rows dim eps" and ?c2 = "MathOps_softmax F X out out rows dim temp"
  obtain h1 where h1: "ops_submit e ?c1 o1 h = Some h1"
    using ops_run_submits [OF assms(1), of e ?c1 o1] assms(2) by auto
  have r1: "ops_run m0 h1 (ws @ [(e, ?c1, o1)])"
    by (rule ops_run.Submit [OF assms(1) h1]) (simp add: MathOps_rms_norm_def assms(8))
  obtain h2 where h2: "ops_submit e ?c2 o2 h1 = Some h2"
    using ops_run_submits [OF r1, of e ?c2 o2] assms(2) by auto
  have r2: "ops_run m0 h2 ((ws @ [(e, ?c1, o1)]) @ [(e, ?c2, o2)])"
    by (rule ops_run.Submit [OF r1 h2]) (simp add: MathOps_softmax_def assms(9))
  have fresh: "fst s \<noteq> g" if "s \<in> set ((ws @ [(e, ?c1, o1)]) @ [(e, ?c2, o2)])" for s
    using that assms(3) [of s] assms(4) by auto
  obtain t where t: "host_sync g h2 = Some t" "tl_memory t = fold exec_call ((ws @ [(e, ?c1, o1)]) @ [(e, ?c2, o2)]) m0"
    using host_sync_reads [OF r2 _ fresh] assms(2) by auto
  define m where "m = fold exec_call ws m0"
  define m1 where "m1 = exec_call (e, ?c1, o1) m"
  have t2: "tl_memory t = exec_call (e, ?c2, o2) m1" using t(2) by (simp add: m_def m1_def)
  note n = rms_norm_rows [OF assms(5,6,8,7), where e = e and F = F and X = X and inp = inp and eps = eps and m = m, folded m1_def]
  note s = softmax_rows [OF assms(5,6,9), where e = e and F = F and X = X and out = out and inp = out and temp = temp and m = m1, folded t2]
  have "\<forall>r < unat rows. row_read (tl_memory t) out dim r =
      softmax_of_row F X temp (rms_norm_row F X dim eps (row_read m inp dim r) (row_read m w dim 0))"
    by (simp add: s(1) n(1))
  moreover have "\<forall>c. (\<forall>r. c \<notin> row_cells out rows dim r) \<longrightarrow> tl_memory t c = m c"
    by (simp add: s(2) n(2))
  ultimately show ?thesis using h1 h2 t(1) unfolding Let_def m_def by blast
qed


theorem norm_then_softmax_witness:
  "\<exists>h1 h2 t. ops_submit 1 (MathOps_rms_norm toy_floats toy_hlsl 5 6 7 1 2 0) [0..<64] (ops_start (\<lambda>(b, i). of_nat (b + i))) = Some h1 \<and>
    ops_submit 1 (MathOps_softmax toy_floats toy_hlsl 5 5 1 2 1) (rev [0..<64]) h1 = Some h2 \<and> host_sync 2 h2 = Some t \<and>
    row_read (tl_memory t) 5 2 0 =
      softmax_of_row toy_floats toy_hlsl 1 (rms_norm_row toy_floats toy_hlsl 2 0 [6, 7] [7, 8])"
proof -
  let ?m = "\<lambda>(b, i). of_nat (b + i) :: f32"
  have s: "schedule (group_count 1) [0..<64]" "schedule (group_count 1) (rev [0..<64])"
    by (simp_all add: schedule_def group_count_def)
  have r: "row_read ?m 6 2 0 = [6, 7]" "row_read ?m 7 2 0 = [7, 8]" by (simp_all add: row_read_def upt_rec)
  have "\<exists>h1 h2 t. ops_submit 1 (MathOps_rms_norm toy_floats toy_hlsl 5 6 7 1 2 0) [0..<64] (ops_start ?m) = Some h1 \<and>
    ops_submit 1 (MathOps_softmax toy_floats toy_hlsl 5 5 1 2 1) (rev [0..<64]) h1 = Some h2 \<and> host_sync 2 h2 = Some t \<and>
    (let m = fold exec_call [] ?m
     in (\<forall>r < unat (1 :: u32). row_read (tl_memory t) 5 2 r =
           softmax_of_row toy_floats toy_hlsl 1 (rms_norm_row toy_floats toy_hlsl 2 0 (row_read m 6 2 r) (row_read m 7 2 0))) \<and>
        (\<forall>c. (\<forall>r. c \<notin> row_cells 5 1 2 r) \<longrightarrow> tl_memory t c = m c))"
    by (rule norm_then_softmax [OF ops_run.Start]) (simp_all add: s)
  then show ?thesis using r by (auto simp: Let_def)
qed

section \<open>Kernels with a thread per entry\<close>

text \<open>The output may be an input of \<open>vec_add\<close>, as in the accumulation of \<open>all_reduce_sum\<close>.\<close>

lemma vec_add_entries:
  fixes F out in1 in2 alpha beta e m
  assumes "unat n \<le> 4194240" "schedule (group_count n) order"
  defines "m' \<equiv> exec_call (e, BLAS_vec_add F out in1 in2 n alpha beta, order) m"
  shows "i < unat n \<Longrightarrow> m' (out, i) = fo_add F (fo_mul F alpha (m (in1, i))) (fo_mul F beta (m (in2, i)))"
    and "(\<And>i. i < unat n \<Longrightarrow> c \<noteq> (out, i)) \<Longrightarrow> m' c = m c"
proof -
  have "unat n \<le> 4294967232" using assms(1) by simp
  note g = group_count_covers [OF this]
  have b: "unat (group_count n) * 64 \<le> 4294967296" using g(2) assms(1) by linarith
  show "m' (out, i) = fo_add F (fo_mul F alpha (m (in1, i))) (fo_mul F beta (m (in2, i)))" if i: "i < unat n"
    using va.schedule_writes [OF assms(2) b, of i "(out, i)" out n F in1 in2 alpha beta m] g(1) i assms(1)
    by (simp add: m'_def exec_call_def BLAS_vec_add_def entry_def vec_add_thread_def Let_def u32_thread u32_thread_less)
  show "m' c = m c" if c: "\<And>i. i < unat n \<Longrightarrow> c \<noteq> (out, i)"
    unfolding m'_def exec_call_def BLAS_vec_add_def
    by (simp, rule va.schedule_frame [OF assms(2) b]) (use c in \<open>auto simp: entry_def split: if_splits\<close>)
qed

text \<open>A thread computes one entry from buffers the dispatch does not write.\<close>

lemma entry_kernel_dispatch:
  assumes at: "\<And>t m. t < 4294967296 \<Longrightarrow> thread t m = (if t < n then m((out, t) := v t m) else m)"
    and v: "\<And>t m m'. (\<And>c. fst c \<noteq> out \<Longrightarrow> m c = m' c) \<Longrightarrow> v t m = v t m'"
    and g: "n \<le> unat groups * 64" "unat groups * 64 \<le> 4294967296" and order: "schedule groups order"
  shows "t < n \<Longrightarrow> dispatch thread order m (out, t) = v t m"
    and "(\<And>t. t < n \<Longrightarrow> c \<noteq> (out, t)) \<Longrightarrow> dispatch thread order m c = m c"
proof -
  have D: "disjoint_threads thread (\<lambda>t. if t < n then {(out, t)} else {}) (\<lambda>t. {c. fst c \<noteq> out}) 4294967296"
  proof (unfold_locales, goal_cases)
    case (2 t m m' c)
    then have "v t m = v t m'" by (intro v) simp
    then show ?case using 2(1,3) by (simp add: at split: if_splits)
  qed (auto simp: at split: if_splits)
  show "t < n \<Longrightarrow> dispatch thread order m (out, t) = v t m"
    using disjoint_threads.schedule_writes [OF D order g(2), of t "(out, t)" m] g(1) g(2) at [of t m] by simp
  show "(\<And>t. t < n \<Longrightarrow> c \<noteq> (out, t)) \<Longrightarrow> dispatch thread order m c = m c"
    by (rule disjoint_threads.schedule_frame [OF D order g(2)]) auto
qed


definition la_rmsnorm_row :: "float_ops \<Rightarrow> hlsl_ops \<Rightarrow> u32 \<Rightarrow> f32 \<Rightarrow> f32 list \<Rightarrow> f32 list \<Rightarrow> f32 list" where
  "la_rmsnorm_row F X dim eps xs gs =
    (let s = foldl (\<lambda>s v. fo_add F s (fo_mul F v v)) f32_zero xs;
         rstd = ho_rsqrt X (fo_add F (fo_div F s (fo_of_u32 F dim)) eps)
     in map2 (\<lambda>x g. fo_mul F (fo_mul F g x) rstd) xs gs)"

definition la_softmax_row :: "float_ops \<Rightarrow> hlsl_ops \<Rightarrow> f32 list \<Rightarrow> f32 list" where
  "la_softmax_row F X xs =
    (let mx = foldl (ho_max X) f32_m3_4e38 xs;
         s = foldl (\<lambda>s x. fo_add F s (fo_exp F (fo_sub F x mx))) f32_zero xs
     in map (\<lambda>x. fo_div F (fo_exp F (fo_sub F x mx)) s) xs)"

lemma u32_mult_unat: "unat (a :: u32) * unat b < 4294967296 \<Longrightarrow> unat (a * b) = unat a * unat b"
  by (simp add: unat_word_ariths)

lemma entry_groups_cover:
  assumes "unat rows * unat dim \<le> 4194240"
  shows "unat rows * unat dim \<le> unat (entry_groups rows dim) * 64" "unat (entry_groups rows dim) * 64 \<le> 4294967296"
proof -
  have "unat ((ucast rows :: u64) * ucast dim) = unat rows * unat dim"
    using u64_mult_unat [of "ucast rows" "ucast dim"] assms by (simp add: unat_ucast_u64)
  then have "unat ((ucast rows :: u64) * ucast dim + 63) = unat rows * unat dim + 63"
    using u64_add_unat [of "ucast rows * ucast dim" 63] assms by simp
  then have q: "unat (((ucast rows :: u64) * ucast dim + 63) div 64) = (unat rows * unat dim + 63) div 64"
    by (simp add: unat_div)
  have "(unat rows * unat dim + 63) div 64 < 4294967296" using assms by (simp add: div_less_iff_less_mult)
  then have g: "unat (entry_groups rows dim) = (unat rows * unat dim + 63) div 64"
    by (simp add: entry_groups_def unsigned_ucast_eq q take_bit_nat_eq_self)
  show "unat rows * unat dim \<le> unat (entry_groups rows dim) * 64" unfolding g by presburger
  show "unat (entry_groups rows dim) * 64 \<le> 4294967296" unfolding g using assms by linarith
qed

lemma entry_guard:
  fixes rows dim :: u32
  assumes "unat rows * unat dim \<le> 4194240" "t < 4294967296"
  shows "rows * dim \<le> of_nat t \<longleftrightarrow> \<not> t < unat rows * unat dim"
  using u32_thread_le [OF assms(2), of "rows * dim"] assms(1) u32_mult_unat [of rows dim] by simp

text \<open>Entry \<open>t\<close> belongs to row \<open>t div dim\<close>.\<close>

lemma entry_row:
  fixes rows dim :: u32
  assumes "unat rows * unat dim \<le> 4194240" "r < unat rows" "i < unat dim"
  defines "t \<equiv> r * unat dim + i"
  shows "t < unat rows * unat dim" "(of_nat t :: u32) div dim = of_nat r" "(of_nat t :: u32) mod dim = of_nat i"
    "unat (of_nat t :: u32) = t" "unat (of_nat i :: u32) = i"
proof -
  show t: "t < unat rows * unat dim" unfolding t_def by (rule cell_index_lt [OF assms(2,3)])
  then have u: "unat (of_nat t :: u32) = t" using assms(1) by (intro u32_thread) linarith
  have r: "unat (of_nat r :: u32) = r" using u32_lt [of rows] assms(2) by (intro u32_thread) linarith
  show i: "unat (of_nat i :: u32) = i" using u32_lt [of dim] assms(3) by (intro u32_thread) linarith
  show "unat (of_nat t :: u32) = t" by (rule u)
  have "unat ((of_nat t :: u32) div dim) = t div unat dim" by (simp only: unat_div u)
  then show "(of_nat t :: u32) div dim = of_nat r"
    using assms(3) by (simp only: word_unat_eq_iff r) (simp add: t_def)
  have "unat ((of_nat t :: u32) mod dim) = t mod unat dim" by (simp only: unat_mod u)
  then show "(of_nat t :: u32) mod dim = of_nat i"
    using assms(3) by (simp only: word_unat_eq_iff i) (simp add: t_def)
qed

lemma entry_kernel_rows:
  assumes n: "unat rows * unat dim \<le> 4194240" and order: "schedule (entry_groups rows dim) order"
    and at: "\<And>t m. t < 4294967296 \<Longrightarrow> thread t m = (if t < unat rows * unat dim then m((out, t) := v t m) else m)"
    and loc: "\<And>t m m'. (\<And>c. fst c \<noteq> out \<Longrightarrow> m c = m' c) \<Longrightarrow> v t m = v t m'"
    and val: "\<And>r i m. r < unat rows \<Longrightarrow> i < unat dim \<Longrightarrow> v (r * unat dim + i) m = g m r ! i"
    and len: "\<And>m r. length (g m r) = unat dim"
  shows "r < unat rows \<Longrightarrow> row_read (dispatch thread order m) out dim r = g m r"
    and "(\<And>r. c \<notin> row_cells out rows dim r) \<Longrightarrow> dispatch thread order m c = m c"
proof -
  show "row_read (dispatch thread order m) out dim r = g m r" if r: "r < unat rows"
  proof (rule nth_equalityI)
    fix i assume "i < length (row_read (dispatch thread order m) out dim r)"
    then have i: "i < unat dim" by (simp add: row_read_def)
    have "dispatch thread order m (out, r * unat dim + i) = v (r * unat dim + i) m"
      by (rule entry_kernel_dispatch(1) [where v = v, OF _ _ entry_groups_cover [OF n] order entry_row(1) [OF n r i]])
        (fact at, fact loc)
    then show "row_read (dispatch thread order m) out dim r ! i = g m r ! i"
      using i by (simp add: row_read_def val [OF r i])
  qed (simp add: row_read_def len)
  assume c: "\<And>r. c \<notin> row_cells out rows dim r"
  have away: "c \<noteq> (out, t)" if t: "t < unat rows * unat dim" for t
  proof -
    have d: "0 < unat dim" using t by (cases "unat dim") auto
    have "t div unat dim < unat rows" using t d by (simp add: div_less_iff_less_mult)
    moreover have "t = t div unat dim * unat dim + t mod unat dim" "t mod unat dim < unat dim" using d by simp_all
    ultimately have "(out, t) \<in> row_cells out rows dim (t div unat dim)"
      unfolding row_cells_def by (auto intro: image_eqI [of _ _ "t mod unat dim"])
    then show ?thesis using c by blast
  qed
  show "dispatch thread order m c = m c"
    by (rule entry_kernel_dispatch(2) [where v = v and out = out, OF _ _ entry_groups_cover [OF n] order])
      (fact at, fact loc, fact away)
qed

lemma la_softmax_rows:
  fixes F X e m
  assumes n: "unat rows * unat dim \<le> 4194240" and order: "schedule (entry_groups rows dim) order" and io: "out \<noteq> inp"
  defines "m' \<equiv> exec_call (e, LA_softmax F X out inp rows dim, order) m"
  shows "r < unat rows \<Longrightarrow> row_read m' out dim r = la_softmax_row F X (row_read m inp dim r)"
    and "(\<And>r. c \<notin> row_cells out rows dim r) \<Longrightarrow> m' c = m c"
proof -
  define v where "v t m = (let row = of_nat t div dim;
      mx = fold (\<lambda>j v. ho_max X v (m (inp, row_at dim row j))) [0..<unat dim] f32_m3_4e38;
      s = fold (\<lambda>j s. fo_add F s (fo_exp F (fo_sub F (m (inp, row_at dim row j)) mx))) [0..<unat dim] f32_zero
    in fo_div F (fo_exp F (fo_sub F (m (inp, t)) mx)) s)" for t and m :: gpu_mem
  have at: "la_softmax_thread F X out inp rows dim t m = (if t < unat rows * unat dim then m((out, t) := v t m) else m)"
    if "t < 4294967296" for t m
    using that by (simp add: la_softmax_thread_def entry_guard [OF n] v_def Let_def u32_thread)
  have loc: "v t m = v t m'" if "\<And>c. fst c \<noteq> out \<Longrightarrow> m c = m' c" for t m m'
  proof -
    have "m (inp, x) = m' (inp, x)" for x using that [of "(inp, x)"] io by simp
    then show ?thesis by (simp add: v_def)
  qed
  have f: "fits32 rows dim" using n by linarith
  have val: "v (r * unat dim + i) m = la_softmax_row F X (row_read m inp dim r) ! i"
    if r: "r < unat rows" and i: "i < unat dim" for r i m
  proof -
    define mx where "mx = foldl (ho_max X) f32_m3_4e38 (row_read m inp dim r)"
    have s: "fold (\<lambda>j v. ho_max X v (m (inp, row_at dim (of_nat r) j))) [0..<unat dim] f32_m3_4e38 = mx"
      "fold (\<lambda>j s. fo_add F s (fo_exp F (fo_sub F (m (inp, row_at dim (of_nat r) j)) mx))) [0..<unat dim] f32_zero =
        foldl (\<lambda>s x. fo_add F s (fo_exp F (fo_sub F x mx))) f32_zero (row_read m inp dim r)"
      unfolding mx_def by (rule fold_row_read [OF f r])+
    show ?thesis
      unfolding v_def entry_row(2) [OF n r i] Let_def s la_softmax_row_def mx_def [symmetric]
      using i by (simp add: row_read_def)
  qed
  have len: "length (la_softmax_row F X (row_read m inp dim r)) = unat dim" for m r
    by (simp add: la_softmax_row_def row_read_def Let_def)
  have m': "m' = dispatch (la_softmax_thread F X out inp rows dim) order m"
    by (simp add: m'_def exec_call_def LA_softmax_def)
  note D = entry_kernel_rows [where v = v and g = "\<lambda>m r. la_softmax_row F X (row_read m inp dim r)", OF n order _ _ _ len]
  show "row_read m' out dim r = la_softmax_row F X (row_read m inp dim r)" if "r < unat rows"
    unfolding m' by (rule D(1) [OF _ _ _ that]) (fact at, fact loc, fact val)
  show "m' c = m c" if "\<And>r. c \<notin> row_cells out rows dim r"
    unfolding m' by (rule D(2) [OF _ _ _ that]) (fact at, fact loc, fact val)
qed

lemma la_rmsnorm_rows:
  fixes F X e eps m
  assumes n: "unat rows * unat dim \<le> 4194240" and order: "schedule (entry_groups rows dim) order"
    and io: "out \<noteq> inp" "out \<noteq> gamma"
  defines "m' \<equiv> exec_call (e, LA_rmsnorm F X out inp gamma rows dim eps, order) m"
  shows "r < unat rows \<Longrightarrow> row_read m' out dim r = la_rmsnorm_row F X dim eps (row_read m inp dim r) (row_read m gamma dim 0)"
    and "(\<And>r. c \<notin> row_cells out rows dim r) \<Longrightarrow> m' c = m c"
proof -
  define v where "v t m = (let row = of_nat t div dim; col = of_nat t mod dim;
      s = fold (\<lambda>j s. fo_add F s (fo_mul F (m (inp, row_at dim row j)) (m (inp, row_at dim row j)))) [0..<unat dim] f32_zero;
      rstd = ho_rsqrt X (fo_add F (fo_div F s (fo_of_u32 F dim)) eps)
    in fo_mul F (fo_mul F (m (gamma, unat col)) (m (inp, t))) rstd)" for t and m :: gpu_mem
  have at: "la_rmsnorm_thread F X out inp gamma rows dim eps t m =
      (if t < unat rows * unat dim then m((out, t) := v t m) else m)" if "t < 4294967296" for t m
    using that by (simp add: la_rmsnorm_thread_def entry_guard [OF n] v_def Let_def u32_thread)
  have loc: "v t m = v t m'" if "\<And>c. fst c \<noteq> out \<Longrightarrow> m c = m' c" for t m m'
  proof -
    have "m (inp, x) = m' (inp, x)" "m (gamma, x) = m' (gamma, x)" for x
      using that [of "(inp, x)"] that [of "(gamma, x)"] io by simp_all
    then show ?thesis by (simp add: v_def)
  qed
  have f: "fits32 rows dim" using n by linarith
  have val: "v (r * unat dim + i) m = la_rmsnorm_row F X dim eps (row_read m inp dim r) (row_read m gamma dim 0) ! i"
    if r: "r < unat rows" and i: "i < unat dim" for r i m
  proof -
    have s: "fold (\<lambda>j s. fo_add F s (fo_mul F (m (inp, row_at dim (of_nat r) j)) (m (inp, row_at dim (of_nat r) j))))
        [0..<unat dim] f32_zero = foldl (\<lambda>s v. fo_add F s (fo_mul F v v)) f32_zero (row_read m inp dim r)"
      by (rule fold_row_read [OF f r])
    show ?thesis
      unfolding v_def entry_row(2,3) [OF n r i] Let_def s entry_row(5) [OF n r i]
      using i by (simp add: la_rmsnorm_row_def Let_def, simp add: row_read_def)
  qed
  have len: "length (la_rmsnorm_row F X dim eps (row_read m inp dim r) (row_read m gamma dim 0)) = unat dim" for m r
    by (simp add: la_rmsnorm_row_def row_read_def Let_def)
  have m': "m' = dispatch (la_rmsnorm_thread F X out inp gamma rows dim eps) order m"
    by (simp add: m'_def exec_call_def LA_rmsnorm_def)
  note D = entry_kernel_rows [where v = v and g = "\<lambda>m r. la_rmsnorm_row F X dim eps (row_read m inp dim r) (row_read m gamma dim 0)",
      OF n order _ _ _ len]
  show "row_read m' out dim r = la_rmsnorm_row F X dim eps (row_read m inp dim r) (row_read m gamma dim 0)" if "r < unat rows"
    unfolding m' by (rule D(1) [OF _ _ _ that]) (fact at, fact loc, fact val)
  show "m' c = m c" if "\<And>r. c \<notin> row_cells out rows dim r"
    unfolding m' by (rule D(2) [OF _ _ _ that]) (fact at, fact loc, fact val)
qed

text \<open>
  In place the threads of a row race: with one thread per entry, the second thread reads what the
  first has stored, and which is first is up to the device.
\<close>

lemma la_softmax_in_place_races:
  defines "m \<equiv> (\<lambda>_. 3) ((0, 0) := 1, (0, 1) := 2) :: gpu_mem"
  defines "X \<equiv> toy_hlsl\<lparr>ho_max := (\<lambda>a b. b)\<rparr>"
  shows "dispatch (la_softmax_thread (toy_floats\<lparr>fo_div := (+)\<rparr>) X 0 0 1 2) [0, 1] m (0, 0) \<noteq>
    dispatch (la_softmax_thread (toy_floats\<lparr>fo_div := (+)\<rparr>) X 0 0 1 2) [1, 0] m (0, 0)"
  by (simp add: m_def X_def dispatch_def la_softmax_thread_def row_at_def toy_floats_def toy_hlsl_def Let_def upt_rec word_le_nat_alt)

section \<open>Rotary embedding and sampling\<close>

text \<open>
  The row length of \<open>rope\<close> is that of the whole input, so the second row lands behind the buffer;
  and the idle threads of the last group have no test to stop them.
\<close>

lemma rope_second_row:
  assumes "unat num_rows * unat head_dim < 4294967296"
  shows "row_at (num_rows * head_dim) 1 0 = unat num_rows * unat head_dim"
  using assms by (simp add: row_at_def u32_mult_unat)

lemma rope_idle_thread_writes:
  "kc_thread (MathOps_rope toy_floats toy_hlsl 0 1 1 2 0 1) 5 (\<lambda>_. 7) (0, 10) \<noteq> 7"
  by (simp add: MathOps_rope_def rope_thread_def row_at_def toy_floats_def toy_hlsl_def Let_def upt_rec)

text \<open>\<open>MathOps::sample\<close>: the size of the logits buffer and what mapping it gives.\<close>

definition MathOps_sample :: "float_ops \<Rightarrow> (u64 \<times> f32 list option) option \<Rightarrow> u32 \<Rightarrow> u32" where
  "MathOps_sample F logits vocab_size =
    (case logits of
       None \<Rightarrow> 0
     | Some (n, mapped) \<Rightarrow>
         if vocab_size = 0 \<or> n < ucast vocab_size * 4 then 0
         else (case mapped of
                 None \<Rightarrow> 0
               | Some ptr \<Rightarrow> of_nat (fst (fold (\<lambda>i (max_idx, max_val).
                   if fo_less F max_val (ptr ! i) then (i, ptr ! i) else (max_idx, max_val))
                   [0..<unat vocab_size] (0, f32_m1e30)))))"

definition sample_loop :: "float_ops \<Rightarrow> f32 list \<Rightarrow> nat \<Rightarrow> nat \<times> f32" where
  "sample_loop F ptr k = fold (\<lambda>i (max_idx, max_val).
     if fo_less F max_val (ptr ! i) then (i, ptr ! i) else (max_idx, max_val)) [0..<k] (0, f32_m1e30)"

lemma sample_loop_max:
  assumes neg: "\<And>a b c. a \<in> insert f32_m1e30 (set ptr) \<Longrightarrow> b \<in> insert f32_m1e30 (set ptr) \<Longrightarrow> c \<in> insert f32_m1e30 (set ptr) \<Longrightarrow>
      \<not> fo_less F a b \<Longrightarrow> \<not> fo_less F b c \<Longrightarrow> \<not> fo_less F a c"
    and asym: "\<And>a b. fo_less F a b \<Longrightarrow> \<not> fo_less F b a"
  shows "k \<le> length ptr \<Longrightarrow> sample_loop F ptr k = (i, v) \<Longrightarrow>
    i = 0 \<and> v = f32_m1e30 \<and> (\<forall>j < k. \<not> fo_less F f32_m1e30 (ptr ! j)) \<or>
    i < k \<and> v = ptr ! i \<and> fo_less F f32_m1e30 v \<and> (\<forall>j < k. \<not> fo_less F v (ptr ! j)) \<and> (\<forall>j < i. fo_less F (ptr ! j) v)"
proof (induction k arbitrary: i v)
  case 0
  then show ?case by (simp add: sample_loop_def)
next
  case (Suc k)
  obtain i0 v0 where s: "sample_loop F ptr k = (i0, v0)" by (cases "sample_loop F ptr k")
  have st: "(i, v) = (if fo_less F v0 (ptr ! k) then (k, ptr ! k) else (i0, v0))"
    using Suc.prems(2) s by (simp add: sample_loop_def)
  have k: "k < length ptr" "k \<le> length ptr" using Suc.prems(1) by simp_all
  note ih = Suc.IH [OF k(2) s]
  have v0: "v0 \<in> insert f32_m1e30 (set ptr)" using ih k by auto
  have old: "\<not> fo_less F v0 (ptr ! j)" if "j < k" for j using ih that by blast
  show ?case
  proof (cases "fo_less F v0 (ptr ! k)")
    case True
    have below: "fo_less F (ptr ! j) (ptr ! k)" if "j < k" for j
      using neg [of v0 "ptr ! j" "ptr ! k"] v0 old [OF that] True that k by auto
    have irr: "\<not> fo_less F (ptr ! k) (ptr ! k)" using asym by blast
    have "fo_less F f32_m1e30 (ptr ! k)"
    proof (cases "v0 = f32_m1e30")
      case False
      then have "fo_less F f32_m1e30 v0" using ih by blast
      then show ?thesis using neg [of v0 f32_m1e30 "ptr ! k"] neg [of f32_m1e30 "ptr ! k" v0] v0 True asym k by auto
    qed (use True in simp)
    moreover have "\<not> fo_less F (ptr ! k) (ptr ! j)" if "j < Suc k" for j
      using that irr below asym by (auto simp: less_Suc_eq)
    ultimately show ?thesis using st True below by simp
  next
    case False
    then show ?thesis using st ih by (auto simp: less_Suc_eq)
  qed
qed


text \<open>
  Greedy sampling: with no NaN among the logits, the token is the first one whose logit no other
  exceeds, as long as some logit exceeds \<open>-1e30\<close>, and token 0 otherwise.
\<close>

theorem sample_argmax:
  assumes "0 < unat vocab" "unat vocab * 4 \<le> unat n" "unat vocab \<le> length ptr"
    and "\<And>a b c. a \<in> insert f32_m1e30 (set ptr) \<Longrightarrow> b \<in> insert f32_m1e30 (set ptr) \<Longrightarrow> c \<in> insert f32_m1e30 (set ptr) \<Longrightarrow>
      \<not> fo_less F a b \<Longrightarrow> \<not> fo_less F b c \<Longrightarrow> \<not> fo_less F a c"
    and "\<And>a b. fo_less F a b \<Longrightarrow> \<not> fo_less F b a"
  shows "let i = unat (MathOps_sample F (Some (n, Some ptr)) vocab)
    in if \<exists>j < unat vocab. fo_less F f32_m1e30 (ptr ! j)
       then i < unat vocab \<and> (\<forall>j < unat vocab. \<not> fo_less F (ptr ! i) (ptr ! j)) \<and> (\<forall>j < i. fo_less F (ptr ! j) (ptr ! i))
       else i = 0"
proof -
  obtain i v where s: "sample_loop F ptr (unat vocab) = (i, v)" by (cases "sample_loop F ptr (unat vocab)")
  have "unat ((ucast vocab :: u64) * 4) = unat vocab * 4"
    using u64_mult_unat [of "ucast vocab" 4] u32_lt [of vocab] by (simp add: unat_ucast_u64)
  then have "MathOps_sample F (Some (n, Some ptr)) vocab = of_nat i"
    using assms(1,2) s by (auto simp: MathOps_sample_def sample_loop_def word_less_nat_alt)
  moreover have m: "i = 0 \<and> v = f32_m1e30 \<and> (\<forall>j < unat vocab. \<not> fo_less F f32_m1e30 (ptr ! j)) \<or>
    i < unat vocab \<and> v = ptr ! i \<and> fo_less F f32_m1e30 v \<and> (\<forall>j < unat vocab. \<not> fo_less F v (ptr ! j)) \<and>
    (\<forall>j < i. fo_less F (ptr ! j) v)"
    by (rule sample_loop_max [where F = F and ptr = ptr, OF _ _ assms(3) s]) (fact assms(4), fact assms(5))
  moreover have "i < 4294967296" using m u32_lt [of vocab] by linarith
  then have "unat (of_nat i :: u32) = i" by (rule u32_thread)
  ultimately show ?thesis by (auto simp: Let_def)
qed

theorem sample_argmax_witness:
  "MathOps_sample toy_floats (Some (16, Some [0xF2000000, 0xF3000000, 0xF3000000, 1])) 4 = 1"
proof -
  let ?p = "[0xF2000000, 0xF3000000, 0xF3000000, 1] :: f32 list"
  let ?i = "unat (MathOps_sample toy_floats (Some (16, Some ?p)) 4)"
  have ex: "\<exists>j < unat (4 :: u32). fo_less toy_floats f32_m1e30 (?p ! j)"
    by (rule exI [of _ 0]) (simp add: toy_floats_def)
  have "let i = ?i in if \<exists>j < unat (4 :: u32). fo_less toy_floats f32_m1e30 (?p ! j)
      then i < unat (4 :: u32) \<and> (\<forall>j < unat (4 :: u32). \<not> fo_less toy_floats (?p ! i) (?p ! j)) \<and>
        (\<forall>j < i. fo_less toy_floats (?p ! j) (?p ! i)) else i = 0"
    by (rule sample_argmax) (simp_all add: toy_floats_def)
  then have r: "?i < 4 \<and> (\<forall>j < 4. \<not> fo_less toy_floats (?p ! ?i) (?p ! j)) \<and> (\<forall>j < ?i. fo_less toy_floats (?p ! j) (?p ! ?i))"
    unfolding Let_def if_P [OF ex] by simp
  consider "?i = 0" | "?i = 1" | "?i = 2" | "?i = 3" using r by linarith
  then have "?i = 1"
  proof cases
    case 1
    then show ?thesis using r [THEN conjunct2, THEN conjunct1, rule_format, of 1] by (simp add: toy_floats_def)
  next
    case 3
    then show ?thesis using r [THEN conjunct2, THEN conjunct2, rule_format, of 1] by (simp add: toy_floats_def)
  next
    case 4
    then show ?thesis using r [THEN conjunct2, THEN conjunct1, rule_format, of 1] by (simp add: toy_floats_def)
  qed simp
  then show ?thesis by (simp add: word_unat_eq_iff)
qed


end
