(* ===== verification/Butterflies.thy ===== *)
theory Butterflies
  imports ComputeKernels Complex_Main
begin

text \<open>
  The transforms that run in stages of butterflies: the radix-2 FFT of \<open>src/dxfft/dxfft.cpp\<close> and the
  Walsh-Hadamard transform of the key-value cache in \<open>src/dxcache/dxcache.cpp\<close>.

  The result of the FFT is stated against the recursive decimation in time \<open>dit\<close> with the butterfly of the
  shader; with the exact complex butterfly \<open>dit\<close> is the discrete Fourier transform.
\<close>

section \<open>Kernels\<close>

definition bit_reverse :: "u32 \<Rightarrow> u32 \<Rightarrow> u32" where
  "bit_reverse x bits = fst (fold (\<lambda>_ (r, x). (push_bit 1 r OR (x AND 1), drop_bit 1 x)) [0..<unat bits] (0, x))"

definition bit_reverse_thread :: "nat \<Rightarrow> nat \<Rightarrow> nat \<Rightarrow> nat \<Rightarrow> u32 \<Rightarrow> u32 \<Rightarrow> nat \<Rightarrow> gpu_mem \<Rightarrow> gpu_mem" where
  "bit_reverse_thread out_r out_i in_r in_i g_n g_log2n t m =
    (let x = of_nat t :: u32
     in if x \<ge> g_n then m
        else let rev = bit_reverse x g_log2n;
                 m1 = m((out_r, unat rev) := m (in_r, unat x))
             in m1((out_i, unat rev) := m1 (in_i, unat x)))"

definition fft_butterfly ::
  "float_ops \<Rightarrow> hlsl_ops \<Rightarrow> u32 \<Rightarrow> u32 \<Rightarrow> f32 \<times> f32 \<Rightarrow> f32 \<times> f32 \<Rightarrow> (f32 \<times> f32) \<times> (f32 \<times> f32)" where
  "fft_butterfly F X g_len inner a b =
    (let angle = fo_div F (fo_mul F (fo_mul F 0xC0000000 0x40490FDB) (fo_of_u32 F inner)) (fo_of_u32 F g_len);
         cw = ho_cos X angle; sw = ho_sin X angle;
         tr = fo_sub F (fo_mul F (fst b) cw) (fo_mul F (snd b) sw);
         ti = fo_add F (fo_mul F (fst b) sw) (fo_mul F (snd b) cw)
     in ((fo_add F (fst a) tr, fo_add F (snd a) ti), (fo_sub F (fst a) tr, fo_sub F (snd a) ti)))"

definition fft_stage_thread ::
  "float_ops \<Rightarrow> hlsl_ops \<Rightarrow> nat \<Rightarrow> nat \<Rightarrow> u32 \<Rightarrow> u32 \<Rightarrow> nat \<Rightarrow> gpu_mem \<Rightarrow> gpu_mem" where
  "fft_stage_thread F X out_r out_i g_n g_len t m =
    (let k = of_nat t :: u32
     in if k \<ge> g_n div 2 then m
        else let block = k div (g_len div 2); inner = k mod (g_len div 2);
                 i0 = unat (block * g_len + inner); i1 = unat (block * g_len + inner + g_len div 2);
                 ((r0, c0), (r1, c1)) = fft_butterfly F X g_len inner (m (out_r, i0), m (out_i, i0)) (m (out_r, i1), m (out_i, i1))
             in (((m((out_r, i0) := r0))((out_i, i0) := c0))((out_r, i1) := r1))((out_i, i1) := c1))"

definition hadamard_thread :: "float_ops \<Rightarrow> nat \<Rightarrow> u32 \<Rightarrow> u32 \<Rightarrow> nat \<Rightarrow> gpu_mem \<Rightarrow> gpu_mem" where
  "hadamard_thread F data g_n g_len t m =
    (let k = of_nat t :: u32
     in if k \<ge> g_n div 2 then m
        else let block = k div (g_len div 2); inner = k mod (g_len div 2);
                 i0 = unat (block * g_len + inner); i1 = unat (block * g_len + inner + g_len div 2);
                 a = m (data, i0); b = m (data, i1)
             in (m((data, i0) := fo_add F a b))((data, i1) := fo_sub F a b))"

section \<open>One stage\<close>

text \<open>Butterfly \<open>k\<close> of a stage joins entries \<open>pair_lo half k\<close> and \<open>pair_lo half k + half\<close>.\<close>

definition pair_lo :: "nat \<Rightarrow> nat \<Rightarrow> nat" where
  "pair_lo half k = k div half * (2 * half) + k mod half"

lemma pair_lo_block: "j < half \<Longrightarrow> pair_lo half (q * half + j) = q * (2 * half) + j"
  by (simp add: pair_lo_def)

lemma pair_lo_inj:
  assumes "0 < half" "pair_lo half k + a * half = pair_lo half l + b * half" "a < 2" "b < 2"
  shows "k = l \<and> a = b"
proof -
  have r: "k mod half < half" "l mod half < half" using assms(1) by simp_all
  have "(2 * (k div half) + a) * half + k mod half = (2 * (l div half) + b) * half + l mod half"
    using assms(2) by (simp add: pair_lo_def algebra_simps)
  from cell_index_inj [OF r this] have e: "2 * (k div half) + a = 2 * (l div half) + b" "k mod half = l mod half" by auto
  have "a = b \<and> x = y" if "2 * x + a = 2 * y + b" for x y :: nat using that assms(3,4) by presburger
  from this [OF e(1)] show ?thesis using e(2) by (metis div_mult_mod_eq)
qed

text \<open>
  Threads that each replace the values of one pair: \<open>own i\<close> are the cells of entry \<open>i\<close>, \<open>val m i\<close> its value.
\<close>

lemma stage_dispatch:
  fixes val :: "gpu_mem \<Rightarrow> nat \<Rightarrow> 'v" and own :: "nat \<Rightarrow> cell set"
  assumes half: "0 < half"
    and own: "\<And>i j. i \<noteq> j \<Longrightarrow> own i \<inter> own j = {}"
    and val: "\<And>m m' i. val m i = val m' i \<longleftrightarrow> (\<forall>c \<in> own i. m c = m' c)"
    and idle: "\<And>t m. pairs \<le> t \<Longrightarrow> t < 4294967296 \<Longrightarrow> thread t m = m"
    and frame: "\<And>t m c. t < pairs \<Longrightarrow> c \<notin> own (pair_lo half t) \<union> own (pair_lo half t + half) \<Longrightarrow> thread t m c = m c"
    and lo: "\<And>t m. t < pairs \<Longrightarrow> val (thread t m) (pair_lo half t) =
      fst (B (t mod half) (val m (pair_lo half t)) (val m (pair_lo half t + half)))"
    and hi: "\<And>t m. t < pairs \<Longrightarrow> val (thread t m) (pair_lo half t + half) =
      snd (B (t mod half) (val m (pair_lo half t)) (val m (pair_lo half t + half)))"
    and order: "schedule groups order" and g: "pairs \<le> unat groups * 64" "unat groups * 64 \<le> 4294967296"
  shows "t < pairs \<Longrightarrow> val (dispatch thread order m) (pair_lo half t) =
      fst (B (t mod half) (val m (pair_lo half t)) (val m (pair_lo half t + half)))"
    and "t < pairs \<Longrightarrow> val (dispatch thread order m) (pair_lo half t + half) =
      snd (B (t mod half) (val m (pair_lo half t)) (val m (pair_lo half t + half)))"
    and "(\<And>t. t < pairs \<Longrightarrow> c \<notin> own (pair_lo half t) \<union> own (pair_lo half t + half)) \<Longrightarrow> dispatch thread order m c = m c"
proof -
  define cells where "cells t = (if t < pairs then own (pair_lo half t) \<union> own (pair_lo half t + half) else {})" for t
  have apart: "pair_lo half s \<noteq> pair_lo half t" "pair_lo half s + half \<noteq> pair_lo half t"
    "pair_lo half s \<noteq> pair_lo half t + half" if "s \<noteq> t" for s t
    using pair_lo_inj [OF half, of s 0 t 0] pair_lo_inj [OF half, of s 1 t 0] pair_lo_inj [OF half, of s 0 t 1] that by auto
  have D: "disjoint_threads thread cells cells 4294967296"
  proof (unfold_locales, goal_cases)
    case (1 t c m)
    then show ?case using frame [of t c m] idle [of t m] by (cases "t < pairs") (auto simp: cells_def)
  next
    case (2 t m m' c)
    then have t: "t < pairs" and c: "c \<in> own (pair_lo half t) \<or> c \<in> own (pair_lo half t + half)"
      by (auto simp: cells_def split: if_splits)
    have "val m (pair_lo half t) = val m' (pair_lo half t)" "val m (pair_lo half t + half) = val m' (pair_lo half t + half)"
      using 2(2) t by (simp_all add: val cells_def)
    then have "val (thread t m) (pair_lo half t) = val (thread t m') (pair_lo half t)"
      "val (thread t m) (pair_lo half t + half) = val (thread t m') (pair_lo half t + half)"
      by (simp_all add: lo [OF t] hi [OF t])
    then show ?case using c by (auto simp: val)
  next
    case (3 s t)
    have "own (pair_lo half s) \<inter> own (pair_lo half t) = {}" "own (pair_lo half s + half) \<inter> own (pair_lo half t) = {}"
      "own (pair_lo half s) \<inter> own (pair_lo half t + half) = {}" "own (pair_lo half s + half) \<inter> own (pair_lo half t + half) = {}"
      using apart [OF 3(3)] by (auto intro!: own)
    then show ?case by (auto simp: cells_def)
  qed
  have w: "val (dispatch thread order m) i = val (thread t m) i" if "t < pairs" "own i \<subseteq> cells t" for t i
    unfolding val using that disjoint_threads.schedule_writes [OF D order g(2), of t _ m] g(1) by auto
  show "val (dispatch thread order m) (pair_lo half t) =
      fst (B (t mod half) (val m (pair_lo half t)) (val m (pair_lo half t + half)))" if "t < pairs"
    using w [OF that, of "pair_lo half t"] lo [OF that] that by (simp add: cells_def)
  show "val (dispatch thread order m) (pair_lo half t + half) =
      snd (B (t mod half) (val m (pair_lo half t)) (val m (pair_lo half t + half)))" if "t < pairs"
    using w [OF that, of "pair_lo half t + half"] hi [OF that] that by (simp add: cells_def)
  show "dispatch thread order m c = m c"
    if "\<And>t. t < pairs \<Longrightarrow> c \<notin> own (pair_lo half t) \<union> own (pair_lo half t + half)"
    by (rule disjoint_threads.schedule_frame [OF D order g(2)]) (use that in \<open>auto simp: cells_def\<close>)
qed

text \<open>The indices of a butterfly, computed in 32 bits, for \<open>n = 2 ^ m\<close> and \<open>len = 2 ^ (s + 1)\<close>.\<close>

lemma pow_u32: "k < 32 \<Longrightarrow> unat (2 ^ k :: u32) = 2 ^ k"
proof -
  assume "k < 32"
  then have "(2 :: nat) ^ k < 2 ^ 32" by (intro power_strict_increasing) simp_all
  then have "unat (of_nat (2 ^ k) :: u32) = 2 ^ k" by (intro u32_thread) simp
  then show ?thesis by simp
qed

lemma half_u32: "k < 31 \<Longrightarrow> (2 ^ Suc k :: u32) div 2 = 2 ^ k"
  by (rule word_unat_eq_iff [THEN iffD2]) (simp add: unat_div pow_u32 del: power_Suc, simp)

lemma pair_hi_bound:
  assumes "t < pairs" "half dvd pairs" "0 < half"
  shows "pair_lo half t + half < 2 * pairs"
proof -
  obtain c where c: "pairs = half * c" using assms(2) by blast
  then have "t div half < c" using assms by (simp add: div_less_iff_less_mult mult.commute)
  then have "(t div half + 1) * (2 * half) \<le> c * (2 * half)" by (intro mult_le_mono1) simp
  moreover have "t mod half < half" using assms(3) by simp
  ultimately show ?thesis unfolding c pair_lo_def by (simp add: algebra_simps)
qed

lemma pair_inside:
  assumes "s < m" "t < 2 ^ (m - 1)"
  shows "pair_lo (2 ^ s) t < 2 ^ m" "pair_lo (2 ^ s) t + 2 ^ s < 2 ^ m"
proof -
  have "(2 :: nat) ^ s dvd 2 ^ (m - 1)" using assms(1) by (intro le_imp_power_dvd) simp
  then have "pair_lo (2 ^ s) t + 2 ^ s < 2 * 2 ^ (m - 1)" by (rule pair_hi_bound [OF assms(2)]) simp
  then show "pair_lo (2 ^ s) t + 2 ^ s < 2 ^ m" using assms(1) by (cases m) simp_all
  then show "pair_lo (2 ^ s) t < 2 ^ m" by simp
qed

text \<open>Stages one after the other.\<close>

lemma stages_run:
  fixes thread :: "nat \<Rightarrow> nat \<Rightarrow> gpu_mem \<Rightarrow> gpu_mem"
  assumes step: "\<And>s order mem. s < m \<Longrightarrow> schedule groups order \<Longrightarrow> P s mem \<Longrightarrow> P (Suc s) (dispatch (thread s) order mem)"
    and frame: "\<And>s order mem. s < m \<Longrightarrow> schedule groups order \<Longrightarrow> dispatch (thread s) order mem c = mem c"
    and orders: "length orders = m" "list_all (schedule groups) orders"
    and start: "P 0 mem"
  shows "P m (fold (\<lambda>(s, order). dispatch (thread s) order) (zip [0..<m] orders) mem) \<and>
    fold (\<lambda>(s, order). dispatch (thread s) order) (zip [0..<m] orders) mem c = mem c"
proof -
  define run where "run k = fold (\<lambda>(s, order). dispatch (thread s) order) (zip [0..<k] (take k orders)) mem" for k
  have "P k (run k) \<and> run k c = mem c" if "k \<le> m" for k
    using that
  proof (induction k)
    case (Suc k)
    have r: "run (Suc k) = dispatch (thread k) (orders ! k) (run k)"
      using Suc.prems orders(1) by (simp add: run_def take_Suc_conv_app_nth zip_append)
    have "schedule groups (orders ! k)" using orders Suc.prems by (simp add: list_all_length)
    then show ?case unfolding r using Suc step [of k "orders ! k" "run k"] frame [of k "orders ! k" "run k"] by simp
  qed (simp add: run_def start)
  from this [OF order_refl] show ?thesis using orders(1) by (simp add: run_def)
qed

lemma stage_words:
  assumes "s < m" "m < 32" "t < 2 ^ (m - 1)"
  defines "len \<equiv> 2 ^ Suc s :: u32" and "k \<equiv> of_nat t :: u32"
  shows "\<not> (2 ^ m :: u32) div 2 \<le> k"
    and "unat (k div (len div 2) * len + k mod (len div 2)) = pair_lo (2 ^ s) t"
    and "unat (k div (len div 2) * len + k mod (len div 2) + len div 2) = pair_lo (2 ^ s) t + 2 ^ s"
    and "k mod (len div 2) = of_nat (t mod 2 ^ s)"
proof -
  obtain m' where m: "m = Suc m'" using assms(1) by (cases m) auto
  have "(2 :: nat) ^ m' < 2 ^ 31" using assms(2) m by (intro power_strict_increasing) simp_all
  then have t: "t < 2 ^ 31" "t < 2 ^ m'" using assms(3) m by simp_all
  have k: "unat k = t" unfolding k_def using t(1) by (intro u32_thread) simp
  have s31: "s < 31" using assms(1,2) by simp
  then have h: "unat (len div 2) = 2 ^ s" unfolding len_def by (simp add: half_u32 pow_u32 del: power_Suc)
  have "(2 ^ m :: u32) div 2 = 2 ^ m'" using assms(2) m by (simp add: half_u32 del: power_Suc)
  then show "\<not> (2 ^ m :: u32) div 2 \<le> k"
    using t(2) k assms(2) m by (simp add: word_le_nat_alt pow_u32)
  have "(2 :: nat) ^ s dvd 2 ^ m'" using assms(1) m by (intro le_imp_power_dvd) simp
  then have b: "pair_lo (2 ^ s) t + 2 ^ s < 2 * 2 ^ m'" by (rule pair_hi_bound [OF t(2)]) simp
  also have "2 * (2 :: nat) ^ m' \<le> 2 ^ 32" using assms(2) m power_increasing [of m 32 "2 :: nat"] by simp
  finally have b32: "pair_lo (2 ^ s) t + 2 ^ s < 4294967296" by simp
  have d: "k div (len div 2) = of_nat (t div 2 ^ s)" "k mod (len div 2) = of_nat (t mod 2 ^ s)"
    by (metis unat_div h k of_nat_unat ucast_id, metis unat_mod h k of_nat_unat ucast_id)
  then show "k mod (len div 2) = of_nat (t mod 2 ^ s)" by blast
  have l: "len div 2 = of_nat (2 ^ s)" unfolding len_def using s31 by (simp add: half_u32 del: power_Suc)
  have lo: "k div (len div 2) * len + k mod (len div 2) = of_nat (pair_lo (2 ^ s) t)"
  proof -
    have "k div (len div 2) * len + k mod (len div 2) = of_nat (t div 2 ^ s) * 2 ^ Suc s + of_nat (t mod 2 ^ s)"
      by (simp only: d) (simp only: len_def)
    also have "\<dots> = of_nat (pair_lo (2 ^ s) t)"
      by (simp only: pair_lo_def of_nat_add of_nat_mult of_nat_power of_nat_numeral power_Suc)
    finally show ?thesis .
  qed
  show "unat (k div (len div 2) * len + k mod (len div 2)) = pair_lo (2 ^ s) t"
    unfolding lo using b32 by (intro u32_thread) simp
  have hi: "k div (len div 2) * len + k mod (len div 2) + len div 2 = of_nat (pair_lo (2 ^ s) t + 2 ^ s)"
    by (simp only: lo of_nat_add) (simp only: l)
  show "unat (k div (len div 2) * len + k mod (len div 2) + len div 2) = pair_lo (2 ^ s) t + 2 ^ s"
    unfolding hi by (rule u32_thread [OF b32])
qed

lemma stage_idle:
  assumes "0 < m" "m < 32" "2 ^ (m - 1) \<le> t" "t < 4294967296"
  shows "(2 ^ m :: u32) div 2 \<le> of_nat t"
proof -
  obtain m' where m: "m = Suc m'" using assms(1) by (cases m) auto
  then have "(2 ^ m :: u32) div 2 = 2 ^ m'" using assms(2) by (simp add: half_u32 del: power_Suc)
  then show ?thesis using assms m by (simp add: word_le_nat_alt pow_u32 u32_thread)
qed

text \<open>A stage on blocks: blocks \<open>2 q\<close> and \<open>2 q + 1\<close> become block \<open>q\<close> of the next stage.\<close>

lemma stage_blocks:
  assumes "s < m"
    and lo: "\<And>t. t < 2 ^ (m - 1) \<Longrightarrow> v' (pair_lo (2 ^ s) t) =
      fst (B (t mod 2 ^ s) (v (pair_lo (2 ^ s) t)) (v (pair_lo (2 ^ s) t + 2 ^ s)))"
    and hi: "\<And>t. t < 2 ^ (m - 1) \<Longrightarrow> v' (pair_lo (2 ^ s) t + 2 ^ s) =
      snd (B (t mod 2 ^ s) (v (pair_lo (2 ^ s) t)) (v (pair_lo (2 ^ s) t + 2 ^ s)))"
    and blocks: "\<And>q j. q < 2 ^ (m - s) \<Longrightarrow> j < 2 ^ s \<Longrightarrow> v (q * 2 ^ s + j) = V q j"
    and q: "q < 2 ^ (m - Suc s)" and j: "j < 2 ^ Suc s"
  shows "v' (q * 2 ^ Suc s + j) =
    (if j < 2 ^ s then fst (B j (V (2 * q) j) (V (2 * q + 1) j))
     else snd (B (j - 2 ^ s) (V (2 * q) (j - 2 ^ s)) (V (2 * q + 1) (j - 2 ^ s))))"
proof -
  define i where "i = (if j < 2 ^ s then j else j - 2 ^ s)"
  have i: "i < 2 ^ s" using j by (auto simp: i_def)
  define t where "t = q * 2 ^ s + i"
  have ms: "m - s = Suc (m - Suc s)" "m - 1 = (m - Suc s) + s" using assms(1) by simp_all
  have t: "t < 2 ^ (m - 1)" unfolding t_def ms(2) power_add by (rule cell_index_lt [OF q i])
  have p: "pair_lo (2 ^ s) t = q * (2 * 2 ^ s) + i" "t mod 2 ^ s = i" unfolding t_def using i by (simp_all add: pair_lo_block)
  have "v (q * (2 * 2 ^ s) + i) = V (2 * q) i" using blocks [of "2 * q" i] q i by (simp add: ms(1) mult.assoc mult.left_commute)
  moreover have "v (q * (2 * 2 ^ s) + i + 2 ^ s) = V (2 * q + 1) i"
    using blocks [of "2 * q + 1" i] q i by (simp add: ms(1) algebra_simps)
  ultimately show ?thesis
    using lo [OF t] hi [OF t] j by (auto simp: p i_def split: if_splits)
qed

section \<open>The recursive transforms\<close>

fun dit :: "(nat \<Rightarrow> nat \<Rightarrow> 'v \<Rightarrow> 'v \<Rightarrow> 'v \<times> 'v) \<Rightarrow> nat \<Rightarrow> (nat \<Rightarrow> 'v) \<Rightarrow> nat \<Rightarrow> 'v" where
  "dit B 0 x j = x 0"
| "dit B (Suc s) x j =
    (if j < 2 ^ s then fst (B s j (dit B s (\<lambda>i. x (2 * i)) j) (dit B s (\<lambda>i. x (2 * i + 1)) j))
     else snd (B s (j - 2 ^ s) (dit B s (\<lambda>i. x (2 * i)) (j - 2 ^ s)) (dit B s (\<lambda>i. x (2 * i + 1)) (j - 2 ^ s))))"

fun wht :: "('v \<Rightarrow> 'v \<Rightarrow> 'v) \<Rightarrow> ('v \<Rightarrow> 'v \<Rightarrow> 'v) \<Rightarrow> nat \<Rightarrow> (nat \<Rightarrow> 'v) \<Rightarrow> nat \<Rightarrow> 'v" where
  "wht add sub 0 x j = x 0"
| "wht add sub (Suc s) x j =
    (if j < 2 ^ s then add (wht add sub s x j) (wht add sub s (\<lambda>i. x (2 ^ s + i)) j)
     else sub (wht add sub s x (j - 2 ^ s)) (wht add sub s (\<lambda>i. x (2 ^ s + i)) (j - 2 ^ s)))"

text \<open>Bit reversal of numbers below \<open>2 ^ m\<close>.\<close>

fun rev_bits :: "nat \<Rightarrow> nat \<Rightarrow> nat" where
  "rev_bits 0 x = 0"
| "rev_bits (Suc m) x = x mod 2 * 2 ^ m + rev_bits m (x div 2)"

lemma rev_bits_lt: "rev_bits m x < 2 ^ m"
proof (induction m arbitrary: x)
  case (Suc m)
  have "x mod 2 * 2 ^ m + rev_bits m (x div 2) < 2 * 2 ^ m" by (rule cell_index_lt [OF _ Suc]) simp
  then show ?case by simp
qed simp

lemma rev_bits_snoc: "rev_bits (Suc m) x = 2 * rev_bits m x + x div 2 ^ m mod 2"
proof (induction m arbitrary: x)
  case (Suc m)
  have "rev_bits (Suc (Suc m)) x = x mod 2 * 2 ^ Suc m + (2 * rev_bits m (x div 2) + x div 2 div 2 ^ m mod 2)"
    using Suc [of "x div 2"] by simp
  then show ?case by (simp add: div_mult2_eq)
qed simp

lemma rev_bits_involution: "rev_bits m (rev_bits m x) = x mod 2 ^ m"
proof (induction m)
  case (Suc m)
  define y where "y = rev_bits (Suc m) x"
  have y: "y mod 2 = x div 2 ^ m mod 2" "y div 2 = rev_bits m x"
    unfolding y_def rev_bits_snoc by simp_all
  have "rev_bits (Suc m) y = x div 2 ^ m mod 2 * 2 ^ m + x mod 2 ^ m"
    by (simp add: y Suc)
  also have "\<dots> = x mod 2 ^ Suc m" using mod_mult2_eq [of x "2 ^ m" 2] by (simp add: mult.commute)
  finally show ?case by (simp only: y_def)
qed simp

lemma bit_reverse_step:
  "push_bit 1 r OR (drop_bit k x AND 1) = (2 * r + of_bool (bit x k) :: u32)"
proof -
  have "drop_bit k x AND 1 = of_bool (bit x k)" by (simp add: and_one_eq odd_iff_mod_2_eq_one [symmetric] bit_drop_bit_eq mod2_eq_if bit_iff_odd_drop_bit)
  moreover have "push_bit 1 r OR 1 = 2 * r + 1" by (simp add: or_one_eq push_bit_eq_mult mult.commute)
  ultimately show ?thesis by (cases "bit x k") (simp_all add: push_bit_eq_mult mult.commute)
qed

lemma bit_reverse_nat:
  assumes "m < 32"
  shows "unat (bit_reverse x (of_nat m)) = rev_bits m (unat x)"
proof -
  define f :: "nat \<Rightarrow> u32 \<times> u32 \<Rightarrow> u32 \<times> u32" where
    "f = (\<lambda>_ (r, x). (push_bit 1 r OR (x AND 1), drop_bit 1 x))"
  have step: "f k (r, drop_bit k x) = (2 * r + of_bool (bit x k), drop_bit (Suc k) x)" for k r
    by (simp only: f_def prod.case bit_reverse_step drop_bit_drop_bit) simp
  have loop: "fold f [0..<k] (0, x) = (of_nat (rev_bits k (unat x)), drop_bit k x)" for k
  proof (induction k)
    case (Suc k)
    have "bit (unat x) k \<longleftrightarrow> bit x k" by (simp add: bit_unsigned_iff)
    then have "bit x k \<longleftrightarrow> odd (unat x div 2 ^ k)" using bit_iff_odd [of "unat x" k] by simp
    then have "of_bool (bit x k) = (of_nat (unat x div 2 ^ k mod 2) :: u32)" by (simp add: mod_2_eq_odd)
    then show ?case using Suc by (simp add: step rev_bits_snoc del: rev_bits.simps(2))
  qed simp
  have "(2 :: nat) ^ m < 2 ^ 32" using assms by (intro power_strict_increasing) simp_all
  then have "unat (of_nat (rev_bits m (unat x)) :: u32) = rev_bits m (unat x)"
    using rev_bits_lt [of m "unat x"] by (intro u32_thread) simp
  moreover have "unat (of_nat m :: u32) = m" using assms by (intro u32_thread) simp
  ultimately show ?thesis by (simp only: bit_reverse_def f_def [symmetric] loop fst_conv)
qed

section \<open>The stages of the FFT\<close>

definition cval :: "nat \<Rightarrow> nat \<Rightarrow> gpu_mem \<Rightarrow> nat \<Rightarrow> f32 \<times> f32" where
  "cval r i m j = (m (r, j), m (i, j))"

lemma group_count_half:
  assumes "0 < m" "m < 23"
  shows "2 ^ (m - 1) \<le> unat (group_count ((2 ^ m :: u32) div 2)) * 64"
    "unat (group_count ((2 ^ m :: u32) div 2)) * 64 \<le> 4294967296"
proof -
  obtain m' where m: "m = Suc m'" using assms(1) by (cases m) auto
  have h: "(2 ^ m :: u32) div 2 = 2 ^ m'" using assms(2) m by (simp add: half_u32 del: power_Suc)
  have "(2 :: nat) ^ m' \<le> 2 ^ 21" using assms(2) m by (intro power_increasing) simp_all
  then have b: "unat (2 ^ m' :: u32) \<le> 4294967232" "(2 :: nat) ^ m' \<le> 2097152" using assms(2) m by (simp_all add: pow_u32)
  note g = group_count_covers [OF b(1)]
  show "2 ^ (m - 1) \<le> unat (group_count ((2 ^ m :: u32) div 2)) * 64"
    using g(1) assms(2) m unfolding h by (simp add: pow_u32)
  show "unat (group_count ((2 ^ m :: u32) div 2)) * 64 \<le> 4294967296"
    using g(2) b(2) assms(2) m unfolding h by (simp add: pow_u32)
qed

lemma fft_stage_thread_nat:
  assumes "s < m" "m < 32" "t < 2 ^ (m - 1)"
  shows "fft_stage_thread F X r i (2 ^ m) (2 ^ Suc s) t mem =
    (let lo = pair_lo (2 ^ s) t; hi = lo + 2 ^ s;
         ((r0, c0), (r1, c1)) = fft_butterfly F X (2 ^ Suc s) (of_nat (t mod 2 ^ s)) (cval r i mem lo) (cval r i mem hi)
     in (((mem((r, lo) := r0))((i, lo) := c0))((r, hi) := r1))((i, hi) := c1))"
  unfolding fft_stage_thread_def Let_def if_not_P [OF stage_words(1) [OF assms]] stage_words(2,3) [OF assms] cval_def
  unfolding stage_words(4) [OF assms] ..

lemma fft_stage_dispatch:
  fixes F X mem
  assumes "s < m" "m < 23" "r \<noteq> i" and order: "schedule (group_count ((2 ^ m :: u32) div 2)) order"
  defines "m' \<equiv> dispatch (fft_stage_thread F X r i (2 ^ m) (2 ^ Suc s)) order mem"
    and "B \<equiv> \<lambda>j. fft_butterfly F X (2 ^ Suc s) (of_nat j)"
  shows "t < 2 ^ (m - 1) \<Longrightarrow> cval r i m' (pair_lo (2 ^ s) t) =
      fst (B (t mod 2 ^ s) (cval r i mem (pair_lo (2 ^ s) t)) (cval r i mem (pair_lo (2 ^ s) t + 2 ^ s)))"
    and "t < 2 ^ (m - 1) \<Longrightarrow> cval r i m' (pair_lo (2 ^ s) t + 2 ^ s) =
      snd (B (t mod 2 ^ s) (cval r i mem (pair_lo (2 ^ s) t)) (cval r i mem (pair_lo (2 ^ s) t + 2 ^ s)))"
    and "(\<And>j. j < 2 ^ m \<Longrightarrow> c \<noteq> (r, j) \<and> c \<noteq> (i, j)) \<Longrightarrow> m' c = mem c"
proof -
  have m: "0 < m" "m < 32" using assms(1,2) by simp_all
  define own where "own j = {(r, j :: nat), (i, j)}" for j
  have th: "fft_stage_thread F X r i (2 ^ m) (2 ^ Suc s) t mem =
    (let lo = pair_lo (2 ^ s) t; hi = lo + 2 ^ s;
         ((r0, c0), (r1, c1)) = B (t mod 2 ^ s) (cval r i mem lo) (cval r i mem hi)
     in (((mem((r, lo) := r0))((i, lo) := c0))((r, hi) := r1))((i, hi) := c1))" if "t < 2 ^ (m - 1)" for t mem
    unfolding B_def by (rule fft_stage_thread_nat [OF assms(1) m(2) that])
  have o: "a \<noteq> b \<Longrightarrow> own a \<inter> own b = {}" for a b using assms(3) by (auto simp: own_def)
  have v: "cval r i ma j = cval r i mb j \<longleftrightarrow> (\<forall>c \<in> own j. ma c = mb c)" for ma mb j by (auto simp: cval_def own_def)
  have idle: "fft_stage_thread F X r i (2 ^ m) (2 ^ Suc s) t mem = mem" if "2 ^ (m - 1) \<le> t" "t < 4294967296" for t mem
    using stage_idle [OF m that] by (simp add: fft_stage_thread_def)
  have frame: "fft_stage_thread F X r i (2 ^ m) (2 ^ Suc s) t mem c = mem c"
    if "t < 2 ^ (m - 1)" "c \<notin> own (pair_lo (2 ^ s) t) \<union> own (pair_lo (2 ^ s) t + 2 ^ s)" for t mem c
    using that(2) unfolding th [OF that(1)] by (auto simp: own_def Let_def split: prod.splits)
  have lo: "cval r i (fft_stage_thread F X r i (2 ^ m) (2 ^ Suc s) t mem) (pair_lo (2 ^ s) t) =
      fst (B (t mod 2 ^ s) (cval r i mem (pair_lo (2 ^ s) t)) (cval r i mem (pair_lo (2 ^ s) t + 2 ^ s)))"
    and hi: "cval r i (fft_stage_thread F X r i (2 ^ m) (2 ^ Suc s) t mem) (pair_lo (2 ^ s) t + 2 ^ s) =
      snd (B (t mod 2 ^ s) (cval r i mem (pair_lo (2 ^ s) t)) (cval r i mem (pair_lo (2 ^ s) t + 2 ^ s)))"
    if "t < 2 ^ (m - 1)" for t mem
    unfolding th [OF that] using assms(3) by (auto simp: cval_def Let_def split: prod.splits)
  note D = stage_dispatch [where own = own and val = "cval r i" and B = B and pairs = "2 ^ (m - 1)" and half = "2 ^ s",
      OF _ o v idle frame lo hi order group_count_half [OF m(1) assms(2)]]
  show "t < 2 ^ (m - 1) \<Longrightarrow> cval r i m' (pair_lo (2 ^ s) t) =
      fst (B (t mod 2 ^ s) (cval r i mem (pair_lo (2 ^ s) t)) (cval r i mem (pair_lo (2 ^ s) t + 2 ^ s)))"
    unfolding m'_def by (rule D(1)) auto
  show "t < 2 ^ (m - 1) \<Longrightarrow> cval r i m' (pair_lo (2 ^ s) t + 2 ^ s) =
      snd (B (t mod 2 ^ s) (cval r i mem (pair_lo (2 ^ s) t)) (cval r i mem (pair_lo (2 ^ s) t + 2 ^ s)))"
    unfolding m'_def by (rule D(2)) auto
  assume c: "\<And>j. j < 2 ^ m \<Longrightarrow> c \<noteq> (r, j) \<and> c \<noteq> (i, j)"
  have "c \<notin> own (pair_lo (2 ^ s) t) \<union> own (pair_lo (2 ^ s) t + 2 ^ s)" if t: "t < 2 ^ (m - 1)" for t
    using c [OF pair_inside(1) [OF assms(1) t]] c [OF pair_inside(2) [OF assms(1) t]] by (simp add: own_def)
  then show "m' c = mem c" unfolding m'_def by (intro D(3)) auto
qed


lemma if_not_swap: "(if \<not> P then a else b) = (if P then b else a)"
  by simp

text \<open>The permutation: entry \<open>y\<close> of the output is entry \<open>rev_bits m y\<close> of the input.\<close>

lemma bit_reverse_dispatch:
  fixes mem
  assumes m: "m < 22" and d: "r \<noteq> i" "r \<noteq> in_r" "r \<noteq> in_i" "i \<noteq> in_r" "i \<noteq> in_i"
    and order: "schedule (group_count (2 ^ m)) order"
  defines "m' \<equiv> dispatch (bit_reverse_thread r i in_r in_i (2 ^ m) (of_nat m)) order mem"
  shows "y < 2 ^ m \<Longrightarrow> cval r i m' y = cval in_r in_i mem (rev_bits m y)"
    and "(\<And>j. j < 2 ^ m \<Longrightarrow> c \<noteq> (r, j) \<and> c \<noteq> (i, j)) \<Longrightarrow> m' c = mem c"
proof -
  let ?th = "bit_reverse_thread r i in_r in_i (2 ^ m) (of_nat m)"
  define cells where "cells t = (if t < 2 ^ m then {(r, rev_bits m t), (i, rev_bits m t)} else {})" for t
  have th: "?th t mem = (if t < 2 ^ m then (mem((r, rev_bits m t) := mem (in_r, t)))((i, rev_bits m t) := mem (in_i, t)) else mem)"
    if t: "t < 4294967296" for t mem
  proof -
    have m32: "m < 32" using m by simp
    have g: "(2 ^ m :: u32) \<le> of_nat t \<longleftrightarrow> \<not> t < 2 ^ m" by (simp only: u32_thread_le [OF t] pow_u32 [OF m32])
    have x: "(in_i, t) \<noteq> (r, rev_bits m t)" using d(3) by simp
    show ?thesis
      unfolding bit_reverse_thread_def Let_def g bit_reverse_nat [OF m32] u32_thread [OF t] fun_upd_other [OF x] if_not_swap ..
  qed
  have inj: "s = t" if "s < 2 ^ m" "t < 2 ^ m" "rev_bits m s = rev_bits m t" for s t
    using that by (metis mod_less rev_bits_involution)
  have D: "disjoint_threads ?th cells (\<lambda>_. {c. fst c \<noteq> r \<and> fst c \<noteq> i}) 4294967296"
  proof (unfold_locales, goal_cases)
    case (1 t c m)
    then show ?case by (auto simp: th cells_def)
  next
    case (2 t ma mb c)
    then have "ma (in_r, t) = mb (in_r, t)" "ma (in_i, t) = mb (in_i, t)" using d by auto
    then show ?case using 2 by (auto simp: th cells_def split: if_splits)
  next
    case (3 s t)
    have "rev_bits m s \<noteq> rev_bits m t" if "s < 2 ^ m" "t < 2 ^ m" using inj [OF that] 3(3) by blast
    then have "cells s \<inter> cells t = {}" using d(1) by (auto simp: cells_def)
    moreover have "cells s \<inter> {c. fst c \<noteq> r \<and> fst c \<noteq> i} = {}" by (auto simp: cells_def)
    ultimately show ?case by blast
  qed
  have "(2 :: nat) ^ m \<le> 2 ^ 21" using m by (intro power_increasing) simp_all
  then have b: "unat (2 ^ m :: u32) \<le> 4294967232" "(2 :: nat) ^ m \<le> 2097152" using m by (simp_all add: pow_u32)
  note g = group_count_covers [OF b(1)]
  have g2: "unat (group_count (2 ^ m :: u32)) * 64 \<le> 4294967296" using g(2) b(2) m by (simp add: pow_u32)
  show "cval r i m' y = cval in_r in_i mem (rev_bits m y)" if y: "y < 2 ^ m"
  proof -
    let ?t = "rev_bits m y"
    have t: "?t < 2 ^ m" "rev_bits m ?t = y" using rev_bits_lt [of m y] rev_bits_involution [of m y] y by simp_all
    then have tg: "?t < unat (group_count (2 ^ m :: u32)) * 64" "?t < 4294967296" using g(1) m b(2) by (simp_all add: pow_u32)
    have w: "m' c = ?th ?t mem c" if "c \<in> cells ?t" for c
      unfolding m'_def by (rule disjoint_threads.schedule_writes [OF D order g2 tg(1) that])
    have c: "(r, y) \<in> cells ?t" "(i, y) \<in> cells ?t" using t by (simp_all add: cells_def)
    show ?thesis using w [OF c(1)] w [OF c(2)] t d(1) by (simp add: th [OF tg(2)] cval_def)
  qed
  assume c: "\<And>j. j < 2 ^ m \<Longrightarrow> c \<noteq> (r, j) \<and> c \<noteq> (i, j)"
  have "c \<notin> cells t" for t using c [OF rev_bits_lt, of t] by (simp add: cells_def)
  then show "m' c = mem c" unfolding m'_def by (intro disjoint_threads.schedule_frame [OF D order g2])
qed

text \<open>After the permutation and \<open>s\<close> stages every block of \<open>2 ^ s\<close> entries is a transform.\<close>

definition fft_blocks ::
  "float_ops \<Rightarrow> hlsl_ops \<Rightarrow> nat \<Rightarrow> nat \<Rightarrow> nat \<Rightarrow> (nat \<Rightarrow> f32 \<times> f32) \<Rightarrow> nat \<Rightarrow> gpu_mem \<Rightarrow> bool" where
  "fft_blocks F X r i m x s mem \<longleftrightarrow> (\<forall>q < 2 ^ (m - s). \<forall>j < 2 ^ s. cval r i mem (q * 2 ^ s + j) =
     dit (\<lambda>s j. fft_butterfly F X (2 ^ Suc s) (of_nat j)) s (\<lambda>k. x (rev_bits (m - s) q + k * 2 ^ (m - s))) j)"

lemma fft_blocks_step:
  assumes "s < m" "m < 23" "r \<noteq> i" "schedule (group_count ((2 ^ m :: u32) div 2)) order" "fft_blocks F X r i m x s mem"
  shows "fft_blocks F X r i m x (Suc s) (dispatch (fft_stage_thread F X r i (2 ^ m) (2 ^ Suc s)) order mem)"
proof -
  define V where "V q j = dit (\<lambda>s j. fft_butterfly F X (2 ^ Suc s) (of_nat j)) s (\<lambda>k. x (rev_bits (m - s) q + k * 2 ^ (m - s))) j" for q j
  have w: "m - s = Suc (m - Suc s)" using assms(1) by simp
  have even: "V (2 * q) = dit (\<lambda>s j. fft_butterfly F X (2 ^ Suc s) (of_nat j)) s
      (\<lambda>k. x (rev_bits (m - Suc s) q + 2 * k * 2 ^ (m - Suc s)))" for q
    by (rule ext) (simp add: V_def w mult.assoc mult.left_commute)
  have odd: "V (2 * q + 1) = dit (\<lambda>s j. fft_butterfly F X (2 ^ Suc s) (of_nat j)) s
      (\<lambda>k. x (rev_bits (m - Suc s) q + (2 * k + 1) * 2 ^ (m - Suc s)))" for q
  proof (rule ext)
    fix j
    have "rev_bits (m - s) (2 * q + 1) = 2 ^ (m - Suc s) + rev_bits (m - Suc s) q" unfolding w rev_bits.simps by simp
    moreover have "2 ^ (m - Suc s) + rev_bits (m - Suc s) q + k * 2 ^ (m - s) =
        rev_bits (m - Suc s) q + (2 * k + 1) * 2 ^ (m - Suc s)" for k by (simp add: w algebra_simps)
    ultimately show "V (2 * q + 1) j = dit (\<lambda>s j. fft_butterfly F X (2 ^ Suc s) (of_nat j)) s
      (\<lambda>k. x (rev_bits (m - Suc s) q + (2 * k + 1) * 2 ^ (m - Suc s))) j" unfolding V_def by (simp only:)
  qed
  have blocks: "cval r i mem (q * 2 ^ s + j) = V q j" if "q < 2 ^ (m - s)" "j < 2 ^ s" for q j
    using assms(5) that by (simp add: fft_blocks_def V_def)
  note D = fft_stage_dispatch [OF assms(1-4), where F = F and X = X and mem = mem]
  show ?thesis
    unfolding fft_blocks_def
  proof (intro allI impI)
    fix q j :: nat assume q: "q < 2 ^ (m - Suc s)" and j: "j < 2 ^ Suc s"
    show "cval r i (dispatch (fft_stage_thread F X r i (2 ^ m) (2 ^ Suc s)) order mem) (q * 2 ^ Suc s + j) =
      dit (\<lambda>s j. fft_butterfly F X (2 ^ Suc s) (of_nat j)) (Suc s) (\<lambda>k. x (rev_bits (m - Suc s) q + k * 2 ^ (m - Suc s))) j"
      unfolding dit.simps even [symmetric] odd [symmetric]
      by (rule stage_blocks [OF assms(1) D(1) D(2) blocks q j])
  qed
qed


section \<open>\<open>fft_1d_radix2\<close>\<close>

function log2_loop :: "u32 \<Rightarrow> u32 \<Rightarrow> u32" where
  "log2_loop t log2n = (if t > 1 then log2_loop (drop_bit 1 t) (log2n + 1) else log2n)"
  by pat_completeness auto
termination
proof (relation "measure (\<lambda>(t, _). unat t)", goal_cases)
  case (2 t log2n)
  then have "1 < unat t" by (simp add: word_less_nat_alt)
  then show ?case by (simp add: drop_bit_eq_div unat_div)
qed simp

declare log2_loop.simps [simp del]

text \<open>\<open>for (len = 2; len <= n; len <<= 1)\<close>: \<open>None\<close> when the loop never ends.\<close>

partial_function (option) stage_lens :: "u32 \<Rightarrow> u32 \<Rightarrow> u32 list \<Rightarrow> u32 list option" where
  "stage_lens n len acc = (if len \<le> n then stage_lens n (push_bit 1 len) (acc @ [len]) else Some acc)"

definition fft_1d_radix2 ::
  "float_ops \<Rightarrow> hlsl_ops \<Rightarrow> nat \<Rightarrow> nat \<Rightarrow> nat \<Rightarrow> nat \<Rightarrow> u32 \<Rightarrow> kernel_call list option" where
  "fft_1d_radix2 F X out_real out_imag in_real in_imag n =
    (if n < 2 \<or> n AND (n - 1) \<noteq> 0 then Some []
     else map_option (\<lambda>lens.
         \<lparr> kc_thread = bit_reverse_thread out_real out_imag in_real in_imag n (log2_loop n 0), kc_groups = group_count n, kc_size = 64 \<rparr> #
         map (\<lambda>len. \<lparr> kc_thread = fft_stage_thread F X out_real out_imag n len, kc_groups = group_count (n div 2), kc_size = 64 \<rparr>) lens)
       (stage_lens n 2 []))"

lemma log2_loop_pow: "m < 32 \<Longrightarrow> log2_loop (2 ^ m) a = a + of_nat m"
proof (induction m arbitrary: a)
  case 0
  then show ?case by (subst log2_loop.simps) simp
next
  case (Suc m)
  have "unat (2 ^ Suc m :: u32) = 2 ^ Suc m" using Suc.prems by (rule pow_u32)
  moreover have "1 < (2 :: nat) ^ Suc m" by (rule one_less_power) simp_all
  ultimately have "1 < (2 ^ Suc m :: u32)" by (simp only: word_less_nat_alt unat_1)
  moreover have "drop_bit 1 (2 ^ Suc m :: u32) = 2 ^ m"
    using half_u32 [of m] Suc.prems by (simp add: drop_bit_eq_div del: power_Suc)
  ultimately show ?case using Suc by (subst log2_loop.simps) (simp del: power_Suc)
qed

lemma stage_lens_pow:
  assumes "m < 31" "s \<le> m"
  shows "stage_lens (2 ^ m) (2 ^ Suc s) acc = Some (acc @ map (\<lambda>s. 2 ^ Suc s) [s..<m])"
  using assms(2)
proof (induction "m - s" arbitrary: s acc)
  case 0
  then have s: "s = m" by simp
  have "\<not> (2 ^ Suc m :: u32) \<le> 2 ^ m" using assms(1) by (simp add: word_le_nat_alt pow_u32 del: power_Suc)
  then show ?case unfolding s by (subst stage_lens.simps) simp
next
  case (Suc d)
  then have s: "s < m" "d = m - Suc s" by simp_all
  have "(2 :: nat) ^ Suc s \<le> 2 ^ m" using s(1) by (intro power_increasing) simp_all
  then have "(2 ^ Suc s :: u32) \<le> 2 ^ m" using s(1) assms(1) by (simp add: word_le_nat_alt pow_u32 del: power_Suc)
  moreover have "push_bit 1 (2 ^ Suc s :: u32) = 2 ^ Suc (Suc s)" by (simp add: push_bit_eq_mult)
  moreover have "stage_lens (2 ^ m) (2 ^ Suc (Suc s)) (acc @ [2 ^ Suc s]) =
      Some ((acc @ [2 ^ Suc s]) @ map (\<lambda>s. 2 ^ Suc s) [Suc s..<m])"
    using Suc.hyps(1) [OF s(2)] s(1) by simp
  ultimately show ?case using s(1)
    by (subst stage_lens.simps) (simp add: upt_conv_Cons del: power_Suc)
qed

text \<open>With \<open>n = 2 ^ 31\<close> the span wraps to 0 and the loop never ends.\<close>

lemma stage_lens_never:
  assumes "stage_lens n len acc = Some r"
  shows "(len = 0 \<or> (\<exists>k < 32. len = 2 ^ k)) \<and> n = 0x80000000 \<longrightarrow> False"
proof (rule stage_lens.raw_induct [OF _ assms], goal_cases)
  case (1 rec n len acc r)
  show ?case
  proof
    assume a: "(len = 0 \<or> (\<exists>k < 32. len = 2 ^ k)) \<and> n = 0x80000000"
    have "len \<le> n"
    proof (cases "len = 0")
      case False
      then obtain k where k: "k < 32" "len = 2 ^ k" using a by blast
      then have "(2 :: nat) ^ k \<le> 2 ^ 31" by (intro power_increasing) simp_all
      then show ?thesis using k a by (simp add: word_le_nat_alt pow_u32)
    qed simp
    then have eq: "rec n (push_bit 1 len) (acc @ [len]) = Some r" using 1(2) by simp
    have "push_bit 1 len = 0 \<or> (\<exists>k < 32. push_bit 1 len = 2 ^ k)"
    proof (cases "len = 0 \<or> len = 2 ^ 31")
      case False
      then obtain k where k: "k < 32" "len = 2 ^ k" using a by blast
      then have "k \<noteq> 31" using False by blast
      then have "Suc k < 32" "push_bit 1 len = 2 ^ Suc k" using k by (simp_all add: push_bit_eq_mult)
      then show ?thesis by blast
    qed auto
    then show False using 1(1) [OF eq] a by blast
  qed
qed

lemma stage_lens_diverges: "stage_lens 0x80000000 2 [] = None"
proof (cases "stage_lens 0x80000000 2 []")
  case (Some r)
  moreover have "(2 :: u32) = 2 ^ 1" by simp
  moreover have "(1 :: nat) < 32" by simp
  ultimately show ?thesis using stage_lens_never [OF Some] by blast
qed simp

lemma pow_and: "(2 ^ m :: u32) AND (2 ^ m - 1) = 0"
proof -
  have "(2 ^ m - 1 :: u32) = mask m" by (simp add: mask_eq_exp_minus_1)
  moreover have "take_bit m (2 ^ m :: u32) = 0" by (rule bit_eqI) (auto simp: bit_simps)
  ultimately show ?thesis by (simp add: take_bit_eq_mask [symmetric])
qed

text \<open>The calls for \<open>n = 2 ^ m\<close>.\<close>

lemma fft_calls:
  assumes "0 < m" "m < 31"
  shows "fft_1d_radix2 F X r i in_r in_i (2 ^ m) =
    Some (\<lparr> kc_thread = bit_reverse_thread r i in_r in_i (2 ^ m) (of_nat m), kc_groups = group_count (2 ^ m), kc_size = 64 \<rparr> #
      map (\<lambda>s. \<lparr> kc_thread = fft_stage_thread F X r i (2 ^ m) (2 ^ Suc s), kc_groups = group_count (2 ^ m div 2), kc_size = 64 \<rparr>) [0..<m])"
proof -
  have "(2 :: nat) ^ 1 \<le> 2 ^ m" using assms(1) by (intro power_increasing) simp_all
  then have "\<not> (2 ^ m :: u32) < 2" using assms(2) by (simp add: word_less_nat_alt pow_u32)
  moreover have "stage_lens (2 ^ m) 2 [] = Some (map (\<lambda>s. 2 ^ Suc s) [0..<m])"
    using stage_lens_pow [OF assms(2), of 0 "[]"] by simp
  moreover have "log2_loop (2 ^ m) 0 = of_nat m" using log2_loop_pow [of m 0] assms(2) by simp
  ultimately show ?thesis by (simp add: fft_1d_radix2_def pow_and comp_def del: power_Suc)
qed

lemma fft_run:
  assumes "0 < m" "m < 22" and "r \<noteq> i" "r \<noteq> in_r" "r \<noteq> in_i" "i \<noteq> in_r" "i \<noteq> in_i"
    and "ops_run m0 h ws" "length ws + 22 < 18446744073709551616" "\<And>s. s \<in> set ws \<Longrightarrow> fst s \<noteq> g" "e \<noteq> g"
    and "fft_1d_radix2 F X r i in_r in_i (2 ^ m) = Some calls"
    and "list_all2 (\<lambda>c order. call_schedule c order) calls orders"
  shows "length calls = m + 1 \<and> (\<exists>h' t. ops_submit_all e (zip calls orders) h = Some h' \<and> host_sync g h' = Some t \<and>
    (let mem = fold exec_call ws m0
     in (\<forall>j < 2 ^ m. (tl_memory t (r, j), tl_memory t (i, j)) =
           dit (\<lambda>s j. fft_butterfly F X (2 ^ Suc s) (of_nat j)) m (\<lambda>k. (mem (in_r, k), mem (in_i, k))) j) \<and>
        (\<forall>c. (\<forall>j < 2 ^ m. c \<noteq> (r, j) \<and> c \<noteq> (i, j)) \<longrightarrow> tl_memory t c = mem c)))"
proof -
  have m23: "m < 23" using assms(2) by simp
  define mem where "mem = fold exec_call ws m0"
  define stage where "stage s = \<lparr> kc_thread = fft_stage_thread F X r i (2 ^ m) (2 ^ Suc s), kc_groups = group_count (2 ^ m div 2), kc_size = 64 \<rparr>" for s
  define rev where "rev = \<lparr> kc_thread = bit_reverse_thread r i in_r in_i (2 ^ m) (of_nat m), kc_groups = group_count (2 ^ m), kc_size = 64 \<rparr>"
  have calls: "calls = rev # map stage [0..<m]"
    using fft_calls [OF assms(1), of F X r i in_r in_i] assms(2,12) unfolding stage_def rev_def by simp
  obtain o1 os where orders: "orders = o1 # os" "schedule (group_count (2 ^ m)) o1"
      "list_all2 (\<lambda>c order. call_schedule c order) (map stage [0..<m]) os"
    using assms(13) unfolding calls by (auto simp: list_all2_Cons1 rev_def)
  have los: "length os = m" using list_all2_lengthD [OF orders(3)] by simp
  have os: "list_all (schedule (group_count ((2 ^ m :: u32) div 2))) os"
    using orders(3) los by (simp add: list_all2_conv_all_nth list_all_length stage_def)
  have sch: "list_all (\<lambda>(c, order). call_schedule c order) (zip calls orders)"
    using assms(13) by (simp add: list_all2_iff list_all_iff)
  have len: "length ws + length (zip calls orders) < 18446744073709551616"
    using assms(2,9) by (simp add: calls orders(1) los)
  obtain h' t where ht: "ops_submit_all e (zip calls orders) h = Some h'" "host_sync g h' = Some t"
      "tl_memory t = fold (\<lambda>(c, order). dispatch (kc_thread c) order) (zip calls orders) mem"
    using ops_submit_all_reads [OF assms(8) len sch assms(10,11)] unfolding mem_def by blast
  define m1 where "m1 = dispatch (bit_reverse_thread r i in_r in_i (2 ^ m) (of_nat m)) o1 mem"
  note br = bit_reverse_dispatch [OF assms(2,3-7) orders(2), where mem = mem, folded m1_def]
  have t: "tl_memory t = fold (\<lambda>(s, order). dispatch (fft_stage_thread F X r i (2 ^ m) (2 ^ Suc s)) order) (zip [0..<m] os) m1"
    unfolding ht(3) calls orders(1) m1_def rev_def stage_def
    by (simp add: zip_map1 fold_map comp_def case_prod_unfold los del: power_Suc)
  have b0: "fft_blocks F X r i m (\<lambda>k. (mem (in_r, k), mem (in_i, k))) 0 m1"
    using br(1) by (simp add: fft_blocks_def cval_def)
  have run: "fft_blocks F X r i m (\<lambda>k. (mem (in_r, k), mem (in_i, k))) m (tl_memory t) \<and> tl_memory t c = m1 c"
    if "\<And>j. j < 2 ^ m \<Longrightarrow> c \<noteq> (r, j) \<and> c \<noteq> (i, j)" for c
    unfolding t
  proof (rule stages_run [where P = "fft_blocks F X r i m (\<lambda>k. (mem (in_r, k), mem (in_i, k)))", OF _ _ los os b0])
    fix s order mm
    assume "s < m" "schedule (group_count ((2 ^ m :: u32) div 2)) order"
    then show "dispatch (fft_stage_thread F X r i (2 ^ m) (2 ^ Suc s)) order mm c = mm c"
      using fft_stage_dispatch(3) [OF _ m23 assms(3) _ that] by blast
  qed (rule fft_blocks_step [OF _ m23 assms(3)])
  have b: "fft_blocks F X r i m (\<lambda>k. (mem (in_r, k), mem (in_i, k))) m (tl_memory t)"
    by (rule run [of "(r, 2 ^ m)", THEN conjunct1]) simp
  have "(tl_memory t (r, j), tl_memory t (i, j)) =
      dit (\<lambda>s j. fft_butterfly F X (2 ^ Suc s) (of_nat j)) m (\<lambda>k. (mem (in_r, k), mem (in_i, k))) j" if "j < 2 ^ m" for j
    using b that unfolding fft_blocks_def cval_def by (simp del: power_Suc dit.simps)
  moreover have "tl_memory t c = mem c" if "\<And>j. j < 2 ^ m \<Longrightarrow> c \<noteq> (r, j) \<and> c \<noteq> (i, j)" for c
    using run [OF that] br(2) [OF that] by simp
  ultimately show ?thesis
    using ht(1,2) by (auto simp: calls mem_def Let_def)
qed

text \<open>
  C33. \<open>fft_1d_radix2\<close> for \<open>n = 2 ^ m\<close> points, in place in the output buffers after the permutation: the host
  loop ends, after the permutation and \<open>m\<close> stages; and however the threads of these dispatches are
  ordered, submitting them behind earlier work in any state of the queue and waiting succeeds,
  the two output buffers hold the recursive decimation in time of the input, by the butterfly of
  the shader in its order of operations, and no other cell has changed. Direct3D's 65535 groups
  bound \<open>n\<close> by \<open>2 ^ 21\<close>; with \<open>n = 2 ^ 31\<close> the loop does not end (\<open>stage_lens_diverges\<close>).
\<close>

theorem fft_radix2_correct:
  assumes "0 < m" "m < 22" and "r \<noteq> i" "r \<noteq> in_r" "r \<noteq> in_i" "i \<noteq> in_r" "i \<noteq> in_i"
    and "ops_run m0 h ws" "length ws + 22 < 18446744073709551616" "\<And>s. s \<in> set ws \<Longrightarrow> fst s \<noteq> g" "e \<noteq> g"
  shows "\<exists>calls. fft_1d_radix2 F X r i in_r in_i (2 ^ m) = Some calls \<and> length calls = m + 1 \<and>
    (\<forall>orders. list_all2 call_schedule calls orders \<longrightarrow>
      (\<exists>h' t. ops_submit_all e (zip calls orders) h = Some h' \<and> host_sync g h' = Some t \<and>
        (let mem = fold exec_call ws m0
         in (\<forall>j < 2 ^ m. (tl_memory t (r, j), tl_memory t (i, j)) =
               dit (\<lambda>s j. fft_butterfly F X (2 ^ Suc s) (of_nat j)) m (\<lambda>k. (mem (in_r, k), mem (in_i, k))) j) \<and>
            (\<forall>c. (\<forall>j < 2 ^ m. c \<noteq> (r, j) \<and> c \<noteq> (i, j)) \<longrightarrow> tl_memory t c = mem c))))"
proof -
  have "m < 31" using assms(2) by simp
  then obtain calls where calls: "fft_1d_radix2 F X r i in_r in_i (2 ^ m) = Some calls" "length calls = m + 1"
    using fft_calls [OF assms(1), of F X r i in_r in_i] by simp
  then show ?thesis
    using fft_run [OF assms calls(1)] by blast
qed

theorem fft_radix2_correct_witness:
  "\<exists>calls h' t. fft_1d_radix2 toy_floats toy_hlsl 0 1 2 3 2 = Some calls \<and> length calls = 2 \<and>
    ops_submit_all 1 (zip calls [[0..<64], rev [0..<64]]) (ops_start (\<lambda>(b, i). of_nat (b + i))) = Some h' \<and>
    host_sync 2 h' = Some t \<and>
    (tl_memory t (0, 1), tl_memory t (1, 1)) =
      snd (fft_butterfly toy_floats toy_hlsl 2 0 (2, 3) (3, 4))"
proof -
  let ?m = "\<lambda>(b, i). of_nat (b + i) :: f32"
  have c: "fft_1d_radix2 toy_floats toy_hlsl 0 1 2 3 (2 ^ 1) =
    Some (\<lparr> kc_thread = bit_reverse_thread 0 1 2 3 (2 ^ 1) (of_nat 1), kc_groups = group_count (2 ^ 1), kc_size = 64 \<rparr> #
      map (\<lambda>s. \<lparr> kc_thread = fft_stage_thread toy_floats toy_hlsl 0 1 (2 ^ 1) (2 ^ Suc s), kc_groups = group_count (2 ^ 1 div 2), kc_size = 64 \<rparr>) [0..<1])"
    (is "_ = Some ?calls") by (rule fft_calls) simp_all
  have s: "list_all2 (\<lambda>c order. call_schedule c order) ?calls [[0..<64], rev [0..<64]]"
    by (simp add: schedule_def group_count_def)
  have "\<exists>calls. fft_1d_radix2 toy_floats toy_hlsl 0 1 2 3 (2 ^ 1) = Some calls \<and> length calls = 1 + 1 \<and>
    (\<forall>orders. list_all2 call_schedule calls orders \<longrightarrow>
      (\<exists>h' t. ops_submit_all 1 (zip calls orders) (ops_start ?m) = Some h' \<and> host_sync 2 h' = Some t \<and>
        (let mem = fold exec_call [] ?m
         in (\<forall>j < 2 ^ 1. (tl_memory t (0, j), tl_memory t (1, j)) =
               dit (\<lambda>s j. fft_butterfly toy_floats toy_hlsl (2 ^ Suc s) (of_nat j)) 1 (\<lambda>k. (mem (2, k), mem (3, k))) j) \<and>
            (\<forall>c. (\<forall>j < 2 ^ 1. c \<noteq> (0, j) \<and> c \<noteq> (1, j)) \<longrightarrow> tl_memory t c = mem c))))"
    by (rule fft_radix2_correct [OF _ _ _ _ _ _ _ ops_run.Start]) simp_all
  then have "\<exists>h' t. ops_submit_all 1 (zip ?calls [[0..<64], rev [0..<64]]) (ops_start ?m) = Some h' \<and> host_sync 2 h' = Some t \<and>
        (let mem = fold exec_call [] ?m
         in (\<forall>j < 2 ^ 1. (tl_memory t (0, j), tl_memory t (1, j)) =
               dit (\<lambda>s j. fft_butterfly toy_floats toy_hlsl (2 ^ Suc s) (of_nat j)) 1 (\<lambda>k. (mem (2, k), mem (3, k))) j) \<and>
            (\<forall>c. (\<forall>j < 2 ^ 1. c \<noteq> (0, j) \<and> c \<noteq> (1, j)) \<longrightarrow> tl_memory t c = mem c))"
    unfolding c option.inject using s by blast
  then obtain h' t where r: "ops_submit_all 1 (zip ?calls [[0..<64], rev [0..<64]]) (ops_start ?m) = Some h'"
      "host_sync 2 h' = Some t"
      and q: "\<forall>j < 2 ^ 1. (tl_memory t (0, j), tl_memory t (1, j)) =
        dit (\<lambda>s j. fft_butterfly toy_floats toy_hlsl (2 ^ Suc s) (of_nat j)) 1 (\<lambda>k. (?m (2, k), ?m (3, k))) j"
    unfolding Let_def fold_simps by blast
  have "(1 :: nat) < 2 ^ 1" by simp
  note q1 = q [rule_format, OF this]
  have "dit (\<lambda>s j. fft_butterfly toy_floats toy_hlsl (2 ^ Suc s) (of_nat j)) 1 (\<lambda>k. (?m (2, k), ?m (3, k))) 1 =
      snd (fft_butterfly toy_floats toy_hlsl 2 0 (2, 3) (3, 4))"
    unfolding One_nat_def dit.simps by simp
  with q1 have "(tl_memory t (0, 1), tl_memory t (1, 1)) = snd (fft_butterfly toy_floats toy_hlsl 2 0 (2, 3) (3, 4))"
    by (simp only:)
  moreover have "length ?calls = 2" by simp
  moreover have "fft_1d_radix2 toy_floats toy_hlsl 0 1 2 3 2 = Some ?calls" using c by simp
  ultimately show ?thesis using r by blast
qed

section \<open>Exact arithmetic: the discrete Fourier transform\<close>

definition exact_butterfly :: "nat \<Rightarrow> nat \<Rightarrow> complex \<Rightarrow> complex \<Rightarrow> complex \<times> complex" where
  "exact_butterfly s j a b =
    (let w = cis (- (2 * pi * real j / 2 ^ Suc s)) in (a + w * b, a - w * b))"

lemma sum_even_odd: "(\<Sum>k < 2 * n. f k) = (\<Sum>k < n. f (2 * k)) + (\<Sum>k < n. f (2 * k + 1 :: nat) :: complex)"
  by (induction n) (simp_all add: algebra_simps)

lemma cis_whole: "cis (- (2 * pi * real k)) = 1"
  using cis_multiple_2pi [of "- real k"] by simp

lemma twiddle_even: "cis (- (2 * pi * real (2 * k) * real j / 2 ^ Suc s)) = cis (- (2 * pi * real k * real j / 2 ^ s))"
  by (rule arg_cong [of _ _ cis]) (simp add: field_simps)

lemma twiddle_odd: "cis (- (2 * pi * real (2 * k + 1) * real j / 2 ^ Suc s)) =
    cis (- (2 * pi * real j / 2 ^ Suc s)) * cis (- (2 * pi * real k * real j / 2 ^ s))"
  unfolding cis_mult by (rule arg_cong [of _ _ cis]) (simp add: field_simps)

lemma twiddle_shift: "cis (- (2 * pi * real k * real (2 ^ s + j) / 2 ^ s)) = cis (- (2 * pi * real k * real j / 2 ^ s))"
proof -
  have "- (2 * pi * real k * real (2 ^ s + j) / 2 ^ s) = - (2 * pi * real k * real j / 2 ^ s) + - (2 * pi * real k)"
    by (simp add: field_simps)
  then show ?thesis by (simp only: cis_mult [symmetric] cis_whole mult_1_right)
qed

lemma twiddle_half: "cis (- (2 * pi * real (2 ^ s + j) / 2 ^ Suc s)) = - cis (- (2 * pi * real j / 2 ^ Suc s))"
proof -
  have "- (2 * pi * real (2 ^ s + j) / 2 ^ Suc s) = - (2 * pi * real j / 2 ^ Suc s) + - pi"
    by (simp add: field_simps)
  then have "cis (- (2 * pi * real (2 ^ s + j) / 2 ^ Suc s)) = cis (- (2 * pi * real j / 2 ^ Suc s)) * cis (- pi)"
    by (simp only: cis_mult)
  also have "cis (- pi) = - 1" by (simp add: complex_eq_iff)
  finally show ?thesis by simp
qed

text \<open>
  The scheme of the FFT kernels is right: with exact complex arithmetic, the recursion that the
  permutation and the stages carry out is the discrete Fourier transform of the \<open>2 ^ m\<close> points.
\<close>

theorem dit_is_dft:
  "\<forall>j < 2 ^ m. dit exact_butterfly m x j = (\<Sum>k < 2 ^ m. x k * cis (- (2 * pi * real k * real j / 2 ^ m)))"
proof (induction m arbitrary: x)
  case 0
  then show ?case by (simp add: lessThan_Suc)
next
  case (Suc s)
  show ?case
  proof (intro allI impI)
    fix j :: nat assume j: "j < 2 ^ Suc s"
    define i where "i = (if j < 2 ^ s then j else j - 2 ^ s)"
    have i: "i < 2 ^ s" using j by (auto simp: i_def)
    define E where "E = (\<Sum>k < 2 ^ s. x (2 * k) * cis (- (2 * pi * real k * real i / 2 ^ s)))"
    define O' where "O' = (\<Sum>k < 2 ^ s. x (2 * k + 1) * cis (- (2 * pi * real k * real i / 2 ^ s)))"
    have eo: "dit exact_butterfly s (\<lambda>k. x (2 * k)) i = E" "dit exact_butterfly s (\<lambda>k. x (2 * k + 1)) i = O'"
      unfolding E_def O'_def using Suc [of "\<lambda>k. x (2 * k)"] Suc [of "\<lambda>k. x (2 * k + 1)"] i by blast+
    have sum: "(\<Sum>k < 2 ^ Suc s. x k * cis (- (2 * pi * real k * real j / 2 ^ Suc s))) =
        (\<Sum>k < 2 ^ s. x (2 * k) * cis (- (2 * pi * real k * real j / 2 ^ s))) +
        cis (- (2 * pi * real j / 2 ^ Suc s)) * (\<Sum>k < 2 ^ s. x (2 * k + 1) * cis (- (2 * pi * real k * real j / 2 ^ s)))"
      unfolding power_Suc [of 2 s] sum_even_odd sum_distrib_left
      unfolding power_Suc [symmetric] twiddle_even twiddle_odd by (simp only: mult.left_commute)
    show "dit exact_butterfly (Suc s) x j = (\<Sum>k < 2 ^ Suc s. x k * cis (- (2 * pi * real k * real j / 2 ^ Suc s)))"
    proof (cases "j < 2 ^ s")
      case True
      then show ?thesis unfolding sum using eo by (simp add: i_def E_def O'_def exact_butterfly_def Let_def)
    next
      case False
      then have ji: "j = 2 ^ s + i" by (simp add: i_def)
      show ?thesis unfolding sum unfolding ji twiddle_shift twiddle_half E_def [symmetric] O'_def [symmetric]
        using eo by (simp add: exact_butterfly_def Let_def)
    qed
  qed
qed


section \<open>The Walsh-Hadamard transform of the cache\<close>

lemma hadamard_thread_nat:
  assumes "s < m" "m < 32" "t < 2 ^ (m - 1)"
  shows "hadamard_thread F data (2 ^ m) (2 ^ Suc s) t mem =
    (let lo = pair_lo (2 ^ s) t; hi = lo + 2 ^ s; a = mem (data, lo); b = mem (data, hi)
     in (mem((data, lo) := fo_add F a b))((data, hi) := fo_sub F a b))"
  unfolding hadamard_thread_def Let_def if_not_P [OF stage_words(1) [OF assms]] stage_words(2,3) [OF assms] ..

lemma hadamard_dispatch:
  fixes F data mem
  assumes "s < m" "m < 23" and order: "schedule (group_count ((2 ^ m :: u32) div 2)) order"
  defines "m' \<equiv> dispatch (hadamard_thread F data (2 ^ m) (2 ^ Suc s)) order mem"
  shows "t < 2 ^ (m - 1) \<Longrightarrow> m' (data, pair_lo (2 ^ s) t) =
      fo_add F (mem (data, pair_lo (2 ^ s) t)) (mem (data, pair_lo (2 ^ s) t + 2 ^ s))"
    and "t < 2 ^ (m - 1) \<Longrightarrow> m' (data, pair_lo (2 ^ s) t + 2 ^ s) =
      fo_sub F (mem (data, pair_lo (2 ^ s) t)) (mem (data, pair_lo (2 ^ s) t + 2 ^ s))"
    and "(\<And>j. j < 2 ^ m \<Longrightarrow> c \<noteq> (data, j)) \<Longrightarrow> m' c = mem c"
proof -
  have m: "0 < m" "m < 32" using assms(1,2) by simp_all
  define own where "own j = {(data, j :: nat)}" for j
  define B where "B (j :: nat) a b = (fo_add F a b, fo_sub F a b)" for j a b
  define val where "val mem j = mem (data, j)" for mem :: gpu_mem and j
  have th: "hadamard_thread F data (2 ^ m) (2 ^ Suc s) t mem =
    (let lo = pair_lo (2 ^ s) t; hi = lo + 2 ^ s; a = mem (data, lo); b = mem (data, hi)
     in (mem((data, lo) := fo_add F a b))((data, hi) := fo_sub F a b))" if "t < 2 ^ (m - 1)" for t mem
    by (rule hadamard_thread_nat [OF assms(1) m(2) that])
  have o: "a \<noteq> b \<Longrightarrow> own a \<inter> own b = {}" for a b by (auto simp: own_def)
  have v: "val ma j = val mb j \<longleftrightarrow> (\<forall>c \<in> own j. ma c = mb c)" for ma mb j by (auto simp: val_def own_def)
  have idle: "hadamard_thread F data (2 ^ m) (2 ^ Suc s) t mem = mem" if "2 ^ (m - 1) \<le> t" "t < 4294967296" for t mem
    using stage_idle [OF m that] by (simp add: hadamard_thread_def)
  have frame: "hadamard_thread F data (2 ^ m) (2 ^ Suc s) t mem c = mem c"
    if "t < 2 ^ (m - 1)" "c \<notin> own (pair_lo (2 ^ s) t) \<union> own (pair_lo (2 ^ s) t + 2 ^ s)" for t mem c
    using that(2) unfolding th [OF that(1)] by (auto simp: own_def Let_def)
  have lo: "val (hadamard_thread F data (2 ^ m) (2 ^ Suc s) t mem) (pair_lo (2 ^ s) t) =
      fst (B (t mod 2 ^ s) (val mem (pair_lo (2 ^ s) t)) (val mem (pair_lo (2 ^ s) t + 2 ^ s)))"
    and hi: "val (hadamard_thread F data (2 ^ m) (2 ^ Suc s) t mem) (pair_lo (2 ^ s) t + 2 ^ s) =
      snd (B (t mod 2 ^ s) (val mem (pair_lo (2 ^ s) t)) (val mem (pair_lo (2 ^ s) t + 2 ^ s)))"
    if "t < 2 ^ (m - 1)" for t mem
    unfolding th [OF that] by (simp_all add: val_def B_def Let_def)
  note D = stage_dispatch [where own = own and val = val and B = B and pairs = "2 ^ (m - 1)" and half = "2 ^ s",
      OF _ o v idle frame lo hi order group_count_half [OF m(1) assms(2)]]
  have "val m' (pair_lo (2 ^ s) t) = fst (B (t mod 2 ^ s) (val mem (pair_lo (2 ^ s) t)) (val mem (pair_lo (2 ^ s) t + 2 ^ s)))"
    if "t < 2 ^ (m - 1)" for t unfolding m'_def by (rule D(1)) (use that in auto)
  then show "t < 2 ^ (m - 1) \<Longrightarrow> m' (data, pair_lo (2 ^ s) t) =
      fo_add F (mem (data, pair_lo (2 ^ s) t)) (mem (data, pair_lo (2 ^ s) t + 2 ^ s))" by (simp add: val_def B_def)
  have "val m' (pair_lo (2 ^ s) t + 2 ^ s) =
      snd (B (t mod 2 ^ s) (val mem (pair_lo (2 ^ s) t)) (val mem (pair_lo (2 ^ s) t + 2 ^ s)))"
    if "t < 2 ^ (m - 1)" for t unfolding m'_def by (rule D(2)) (use that in auto)
  then show "t < 2 ^ (m - 1) \<Longrightarrow> m' (data, pair_lo (2 ^ s) t + 2 ^ s) =
      fo_sub F (mem (data, pair_lo (2 ^ s) t)) (mem (data, pair_lo (2 ^ s) t + 2 ^ s))" by (simp add: val_def B_def)
  assume c: "\<And>j. j < 2 ^ m \<Longrightarrow> c \<noteq> (data, j)"
  have "c \<notin> own (pair_lo (2 ^ s) t) \<union> own (pair_lo (2 ^ s) t + 2 ^ s)" if t: "t < 2 ^ (m - 1)" for t
    using c [OF pair_inside(1) [OF assms(1) t]] c [OF pair_inside(2) [OF assms(1) t]] by (simp add: own_def)
  then show "m' c = mem c" unfolding m'_def by (intro D(3)) auto
qed

definition wht_blocks :: "float_ops \<Rightarrow> nat \<Rightarrow> nat \<Rightarrow> (nat \<Rightarrow> f32) \<Rightarrow> nat \<Rightarrow> gpu_mem \<Rightarrow> bool" where
  "wht_blocks F data m x s mem \<longleftrightarrow> (\<forall>q < 2 ^ (m - s). \<forall>j < 2 ^ s.
     mem (data, q * 2 ^ s + j) = wht (fo_add F) (fo_sub F) s (\<lambda>k. x (q * 2 ^ s + k)) j)"

lemma wht_blocks_step:
  assumes "s < m" "m < 23" "schedule (group_count ((2 ^ m :: u32) div 2)) order" "wht_blocks F data m x s mem"
  shows "wht_blocks F data m x (Suc s) (dispatch (hadamard_thread F data (2 ^ m) (2 ^ Suc s)) order mem)"
proof -
  define V where "V q j = wht (fo_add F) (fo_sub F) s (\<lambda>k. x (q * 2 ^ s + k)) j" for q j
  define B where "B (j :: nat) a b = (fo_add F a b, fo_sub F a b)" for j a b
  have even: "V (2 * q) = wht (fo_add F) (fo_sub F) s (\<lambda>k. x (q * 2 ^ Suc s + k))"
    and odd: "V (2 * q + 1) = wht (fo_add F) (fo_sub F) s (\<lambda>k. x (q * 2 ^ Suc s + (2 ^ s + k)))" for q
    by (rule ext, simp add: V_def algebra_simps)+
  have blocks: "mem (data, q * 2 ^ s + j) = V q j" if "q < 2 ^ (m - s)" "j < 2 ^ s" for q j
    using assms(4) that by (simp add: wht_blocks_def V_def)
  note D = hadamard_dispatch [OF assms(1-3), where F = F and mem = mem and data = data]
  show ?thesis
    unfolding wht_blocks_def
  proof (intro allI impI)
    fix q j :: nat assume q: "q < 2 ^ (m - Suc s)" and j: "j < 2 ^ Suc s"
    have "dispatch (hadamard_thread F data (2 ^ m) (2 ^ Suc s)) order mem (data, q * 2 ^ Suc s + j) =
      (if j < 2 ^ s then fst (B j (V (2 * q) j) (V (2 * q + 1) j))
       else snd (B (j - 2 ^ s) (V (2 * q) (j - 2 ^ s)) (V (2 * q + 1) (j - 2 ^ s))))"
      by (rule stage_blocks [where v = "\<lambda>j. mem (data, j)" and V = V and B = B, OF assms(1) _ _ blocks q j])
        (simp_all only: D(1,2) B_def fst_conv snd_conv)
    then show "dispatch (hadamard_thread F data (2 ^ m) (2 ^ Suc s)) order mem (data, q * 2 ^ Suc s + j) =
      wht (fo_add F) (fo_sub F) (Suc s) (\<lambda>k. x (q * 2 ^ Suc s + k)) j"
      unfolding wht.simps even odd by (simp add: B_def)
  qed
qed

datatype KVCacheType = Standard | RadixTree | HadamardTransform

text \<open>\<open>while ((uint64_t)(n << 1) <= float_count) n <<= 1;\<close> with a 32-bit shift.\<close>

partial_function (option) clamp_pow2 :: "u64 \<Rightarrow> u32 \<Rightarrow> u32 option" where
  "clamp_pow2 float_count n =
    (if ucast (push_bit 1 n) \<le> float_count then clamp_pow2 float_count (push_bit 1 n) else Some n)"

definition hadamard_calls :: "float_ops \<Rightarrow> KVCacheType \<Rightarrow> nat \<Rightarrow> u64 \<Rightarrow> kernel_call list option" where
  "hadamard_calls F type buffer n_bytes =
    (if type \<noteq> HadamardTransform then Some []
     else case clamp_pow2 (n_bytes div 4) 1 of
            None \<Rightarrow> None
          | Some n \<Rightarrow>
              if n < 2 then Some []
              else map_option (map (\<lambda>len. \<lparr> kc_thread = hadamard_thread F buffer n len, kc_groups = group_count (n div 2), kc_size = 64 \<rparr>))
                (stage_lens n 2 []))"

text \<open>
  \<open>apply_hadamard_transform\<close>: each call resets, executes, signals and waits. The reset of a call follows
  the wait of the call before it, so the sequence is that of \<open>ops_submit_all\<close> on an object \<open>e\<close> of its own,
  and one wait at the end.
\<close>

definition apply_hadamard_transform ::
  "float_ops \<Rightarrow> KVCacheType \<Rightarrow> nat \<Rightarrow> u64 \<Rightarrow> nat \<Rightarrow> nat list list \<Rightarrow> ops_host \<Rightarrow> ops_host option" where
  "apply_hadamard_transform F type buffer n_bytes e orders h =
    (case hadamard_calls F type buffer n_bytes of
       None \<Rightarrow> None
     | Some calls \<Rightarrow>
         (case ops_submit_all e (zip calls orders) h of
            None \<Rightarrow> None
          | Some h' \<Rightarrow>
              if calls = [] then Some h'
              else map_option (\<lambda>t. h'\<lparr>oh_line := t\<rparr>) (fence_wait exec_call e (oh_vals h' e) (oh_line h'))))"

lemma clamp_pow2_pow:
  assumes "m < 31" "2 ^ m \<le> unat fc" "unat fc < 2 ^ Suc m" "k \<le> m"
  shows "clamp_pow2 fc (2 ^ k) = Some (2 ^ m)"
  using assms(4)
proof (induction "m - k" arbitrary: k)
  case 0
  then have k: "k = m" by simp
  have p: "push_bit 1 (2 ^ m :: u32) = 2 ^ Suc m" by (simp add: push_bit_eq_mult)
  have "\<not> ucast (2 ^ Suc m :: u32) \<le> fc"
    using assms(1,3) by (simp add: word_le_nat_alt unat_ucast_u64 pow_u32 not_le del: power_Suc)
  then show ?case unfolding k clamp_pow2.simps [of fc "2 ^ m"] p by (simp only: if_False)
next
  case (Suc d)
  then have k: "k < m" "d = m - Suc k" by simp_all
  have p: "push_bit 1 (2 ^ k :: u32) = 2 ^ Suc k" by (simp add: push_bit_eq_mult)
  have "(2 :: nat) ^ Suc k \<le> 2 ^ m" using k(1) by (intro power_increasing) simp_all
  then have "(2 :: nat) ^ Suc k \<le> unat fc" using assms(2) by (rule order_trans)
  then have "ucast (2 ^ Suc k :: u32) \<le> fc"
    using assms(1) k(1) by (simp add: word_le_nat_alt unat_ucast_u64 pow_u32 del: power_Suc)
  then show ?case unfolding clamp_pow2.simps [of fc "2 ^ k"] p using Suc.hyps(1) [OF k(2)] k(1) by (simp only: if_True)
qed

text \<open>With \<open>2 ^ 31\<close> floats or more the shift wraps to 0 and the loop never ends.\<close>

lemma clamp_pow2_never:
  assumes "clamp_pow2 fc n = Some r"
  shows "(n = 0 \<or> (\<exists>k < 32. n = 2 ^ k)) \<and> 2 ^ 31 \<le> unat fc \<longrightarrow> False"
proof (rule clamp_pow2.raw_induct [OF _ assms], goal_cases)
  case (1 rec fc n r)
  show ?case
  proof
    assume a: "(n = 0 \<or> (\<exists>k < 32. n = 2 ^ k)) \<and> 2 ^ 31 \<le> unat fc"
    have s: "push_bit 1 n = 0 \<or> (\<exists>k < 32. push_bit 1 n = 2 ^ k)"
    proof (cases "n = 0 \<or> n = 2 ^ 31")
      case False
      then obtain k where k: "k < 32" "n = 2 ^ k" using a by blast
      then have "k \<noteq> 31" using False by blast
      then have "Suc k < 32" "push_bit 1 n = 2 ^ Suc k" using k by (simp_all add: push_bit_eq_mult)
      then show ?thesis by blast
    qed auto
    have "unat (push_bit 1 n) \<le> 2 ^ 31"
      using s
    proof
      assume "\<exists>k < 32. push_bit 1 n = 2 ^ k"
      then obtain k where k: "k < 32" "push_bit 1 n = 2 ^ k" by blast
      then have "(2 :: nat) ^ k \<le> 2 ^ 31" by (intro power_increasing) simp_all
      then show ?thesis by (simp only: k pow_u32)
    qed simp
    then have "ucast (push_bit 1 n) \<le> fc" using a by (simp add: word_le_nat_alt unat_ucast_u64)
    then have "rec fc (push_bit 1 n) = Some r" using 1(2) by simp
    from 1(1) [OF this] show False using s a by blast
  qed
qed

lemma clamp_pow2_diverges: "2 ^ 31 \<le> unat fc \<Longrightarrow> clamp_pow2 fc 1 = None"
proof (rule ccontr)
  assume "2 ^ 31 \<le> unat fc" "clamp_pow2 fc 1 \<noteq> None"
  then obtain r where r: "clamp_pow2 fc 1 = Some r" by blast
  have "(1 :: u32) = 2 ^ 0" "(0 :: nat) < 32" by simp_all
  then show False using clamp_pow2_never [OF r] \<open>2 ^ 31 \<le> unat fc\<close> by blast
qed

lemma hadamard_calls_pow:
  assumes "0 < m" "m < 31" "2 ^ m \<le> unat n_bytes div 4" "unat n_bytes div 4 < 2 ^ Suc m"
  shows "hadamard_calls F HadamardTransform buffer n_bytes =
    Some (map (\<lambda>s. \<lparr> kc_thread = hadamard_thread F buffer (2 ^ m) (2 ^ Suc s), kc_groups = group_count (2 ^ m div 2), kc_size = 64 \<rparr>) [0..<m])"
proof -
  have "unat (n_bytes div 4) = unat n_bytes div 4" by (simp add: unat_div)
  then have "clamp_pow2 (n_bytes div 4) 1 = Some (2 ^ m)"
    using clamp_pow2_pow [of m "n_bytes div 4" 0] assms by (simp del: power_Suc)
  moreover have "(2 :: nat) ^ 1 \<le> 2 ^ m" using assms(1) by (intro power_increasing) simp_all
  then have "\<not> (2 ^ m :: u32) < 2" using assms(2) by (simp add: word_less_nat_alt pow_u32)
  moreover have "stage_lens (2 ^ m) 2 [] = Some (map (\<lambda>s. 2 ^ Suc s) [0..<m])"
    using stage_lens_pow [OF assms(2), of 0 "[]"] by simp
  ultimately show ?thesis by (simp add: hadamard_calls_def comp_def del: power_Suc)
qed

text \<open>
  C39. \<open>apply_hadamard_transform\<close> on a cache of \<open>2 ^ m\<close> to \<open>2 ^ (m + 1) - 1\<close> floats, for \<open>m\<close> from 1 to 22,
  that is from 2 to \<open>2 ^ 23 - 1\<close> floats: the call returns, and when it does the first \<open>2 ^ m\<close> floats are
  the Walsh-Hadamard transform of what the work submitted before left there, in the order of
  operations of the butterflies, everything else is unchanged and no command is left in the
  queue, whatever the order of the threads. The bound is that of the code: from \<open>2 ^ 23\<close> floats on
  the dispatch asks for more than Direct3D's 65535 groups, and from \<open>2 ^ 31\<close> floats on the call never
  returns (\<open>clamp_pow2_diverges\<close>).
\<close>

theorem hadamard_correct:
  assumes "0 < m" "m < 23" "2 ^ m \<le> unat n_bytes div 4" "unat n_bytes div 4 < 2 ^ Suc m"
    and "ops_run m0 h ws" "length ws + 22 < 18446744073709551616"
    and "list_all (schedule (group_count ((2 ^ m :: u32) div 2))) orders" "length orders = m"
  shows "\<exists>h'. apply_hadamard_transform F HadamardTransform buffer n_bytes e orders h = Some h' \<and> tl_pending (oh_line h') = [] \<and>
    (let mem = fold exec_call ws m0
     in (\<forall>j < 2 ^ m. tl_memory (oh_line h') (buffer, j) = wht (fo_add F) (fo_sub F) m (\<lambda>k. mem (buffer, k)) j) \<and>
        (\<forall>c. (\<forall>j < 2 ^ m. c \<noteq> (buffer, j)) \<longrightarrow> tl_memory (oh_line h') c = mem c))"
proof -
  define mem where "mem = fold exec_call ws m0"
  define stage where "stage s = \<lparr> kc_thread = hadamard_thread F buffer (2 ^ m) (2 ^ Suc s), kc_groups = group_count (2 ^ m div 2), kc_size = 64 \<rparr>" for s
  define calls where "calls = map stage [0..<m]"
  have c: "hadamard_calls F HadamardTransform buffer n_bytes = Some calls"
    using hadamard_calls_pow [OF assms(1) _ assms(3,4)] assms(2) unfolding calls_def stage_def by simp
  have sch: "list_all (\<lambda>(c, order). call_schedule c order) (zip calls orders)"
    using assms(7,8) by (auto simp: list_all_length calls_def stage_def)
  have ne: "zip calls orders \<noteq> []" "calls \<noteq> []" using assms(1,8) by (auto simp: calls_def)
  have len: "length ws + length (zip calls orders) < 18446744073709551616" using assms(2,6,8) by (simp add: calls_def)
  obtain h1 t where ht: "ops_submit_all e (zip calls orders) h = Some h1"
      "fence_wait exec_call e (oh_vals h1 e) (oh_line h1) = Some t" "tl_pending t = []"
      "tl_memory t = fold (\<lambda>(c, order). dispatch (kc_thread c) order) (zip calls orders) mem"
    using ops_submit_all_then_wait [OF assms(5) len sch ne(1)] unfolding mem_def by blast
  have t: "tl_memory t = fold (\<lambda>(s, order). dispatch (hadamard_thread F buffer (2 ^ m) (2 ^ Suc s)) order) (zip [0..<m] orders) mem"
    unfolding ht(4) calls_def stage_def by (simp add: zip_map1 fold_map comp_def case_prod_unfold del: power_Suc)
  have b0: "wht_blocks F buffer m (\<lambda>k. mem (buffer, k)) 0 mem" by (simp add: wht_blocks_def)
  have run: "wht_blocks F buffer m (\<lambda>k. mem (buffer, k)) m (tl_memory t) \<and> tl_memory t c = mem c"
    if "\<And>j. j < 2 ^ m \<Longrightarrow> c \<noteq> (buffer, j)" for c
    unfolding t
  proof (rule stages_run [where P = "wht_blocks F buffer m (\<lambda>k. mem (buffer, k))", OF _ _ assms(8,7) b0])
    fix s order mm
    assume "s < m" "schedule (group_count ((2 ^ m :: u32) div 2)) order"
    then show "dispatch (hadamard_thread F buffer (2 ^ m) (2 ^ Suc s)) order mm c = mm c"
      using hadamard_dispatch(3) [OF _ assms(2) _ that] by blast
  qed (rule wht_blocks_step [OF _ assms(2)])
  have b: "wht_blocks F buffer m (\<lambda>k. mem (buffer, k)) m (tl_memory t)"
    by (rule run [of "(buffer, 2 ^ m)", THEN conjunct1]) simp
  have "tl_memory t (buffer, j) = wht (fo_add F) (fo_sub F) m (\<lambda>k. mem (buffer, k)) j" if "j < 2 ^ m" for j
    using b that unfolding wht_blocks_def by (simp del: wht.simps)
  moreover have "tl_memory t c = mem c" if "\<And>j. j < 2 ^ m \<Longrightarrow> c \<noteq> (buffer, j)" for c
    using run [OF that] by blast
  ultimately have "(\<forall>j < 2 ^ m. tl_memory t (buffer, j) = wht (fo_add F) (fo_sub F) m (\<lambda>k. mem (buffer, k)) j) \<and>
      (\<forall>c. (\<forall>j < 2 ^ m. c \<noteq> (buffer, j)) \<longrightarrow> tl_memory t c = mem c)" by blast
  then show ?thesis
    using ht(1-3) ne(2) unfolding apply_hadamard_transform_def c mem_def Let_def by simp
qed

theorem hadamard_correct_witness:
  "\<exists>h'. apply_hadamard_transform toy_floats HadamardTransform 5 12 1 [rev [0..<64]] (ops_start (\<lambda>(b, i). of_nat (b + i))) = Some h' \<and>
    tl_memory (oh_line h') (5, 0) = 11 \<and> tl_memory (oh_line h') (5, 1) = - 1 \<and> tl_memory (oh_line h') (5, 2) = 7"
proof -
  let ?m = "\<lambda>(b, i). of_nat (b + i) :: f32"
  have "\<exists>h'. apply_hadamard_transform toy_floats HadamardTransform 5 12 1 [rev [0..<64]] (ops_start ?m) = Some h' \<and>
    tl_pending (oh_line h') = [] \<and>
    (let mem = fold exec_call [] ?m
     in (\<forall>j < 2 ^ 1. tl_memory (oh_line h') (5, j) = wht (fo_add toy_floats) (fo_sub toy_floats) 1 (\<lambda>k. mem (5, k)) j) \<and>
        (\<forall>c. (\<forall>j < 2 ^ 1. c \<noteq> (5, j)) \<longrightarrow> tl_memory (oh_line h') c = mem c))"
    by (rule hadamard_correct [OF _ _ _ _ ops_run.Start]) (simp_all add: schedule_def group_count_def)
  then obtain h' where h': "apply_hadamard_transform toy_floats HadamardTransform 5 12 1 [rev [0..<64]] (ops_start ?m) = Some h'"
      and v: "\<forall>j < 2 ^ 1. tl_memory (oh_line h') (5, j) = wht (fo_add toy_floats) (fo_sub toy_floats) 1 (\<lambda>k. ?m (5, k)) j"
      and f: "\<forall>c. (\<forall>j < 2 ^ 1. c \<noteq> (5, j)) \<longrightarrow> tl_memory (oh_line h') c = ?m c"
    unfolding Let_def fold_simps by blast
  have "tl_memory (oh_line h') (5, 0) = 11" using v [rule_format, of 0] by (simp add: toy_floats_def)
  moreover have "tl_memory (oh_line h') (5, 1) = - 1" using v [rule_format, of 1] by (simp add: toy_floats_def)
  moreover have "tl_memory (oh_line h') (5, 2) = 7" using f [rule_format, of "(5, 2)"] by simp
  ultimately show ?thesis using h' by blast
qed

text \<open>In exact arithmetic the transform is linear, and applied twice it only scales.\<close>

lemma wht_cong: "(\<And>k. k < 2 ^ m \<Longrightarrow> x k = y k) \<Longrightarrow> wht f g m x j = wht f g m y j"
proof (induction m arbitrary: x y j)
  case (Suc s)
  have "wht f g s x i = wht f g s y i" "wht f g s (\<lambda>k. x (2 ^ s + k)) i = wht f g s (\<lambda>k. y (2 ^ s + k)) i" for i
    by (rule Suc.IH; simp add: Suc.prems)+
  then show ?case by simp
qed simp

lemma wht_linear:
  fixes x y :: "nat \<Rightarrow> real"
  shows "wht (+) (-) m (\<lambda>k. x k + y k) j = wht (+) (-) m x j + wht (+) (-) m y j"
    and "wht (+) (-) m (\<lambda>k. x k - y k) j = wht (+) (-) m x j - wht (+) (-) m y j"
  by (induction m arbitrary: x y j) simp_all

text \<open>
  The transform of the cache is undone by itself up to the scale: in exact arithmetic, applying
  it twice multiplies each of the \<open>2 ^ m\<close> values by \<open>2 ^ m\<close>, so no information is lost.
\<close>

theorem wht_involution:
  "\<forall>j < 2 ^ m. wht (+) (-) m (wht (+) (-) m x) j = (2 ^ m * x j :: real)"
proof (induction m arbitrary: x)
  case (Suc s)
  show ?case
  proof (intro allI impI)
    fix j :: nat assume j: "j < 2 ^ Suc s"
    let ?W = "wht (+) (-) s :: (nat \<Rightarrow> real) \<Rightarrow> nat \<Rightarrow> real"
    define a where "a = ?W x"
    define b where "b = ?W (\<lambda>k. x (2 ^ s + k))"
    have lo: "?W (wht (+) (-) (Suc s) x) i = ?W a i + ?W b i" for i
      unfolding wht_linear(1) [symmetric] by (rule wht_cong) (simp add: a_def b_def)
    have hi: "?W (\<lambda>k. wht (+) (-) (Suc s) x (2 ^ s + k)) i = ?W a i - ?W b i" for i
      unfolding wht_linear(2) [symmetric] by (rule wht_cong) (simp add: a_def b_def)
    have ab: "?W a i = 2 ^ s * x i" "?W b i = 2 ^ s * x (2 ^ s + i)" if "i < 2 ^ s" for i
      using Suc that by (simp_all add: a_def b_def)
    show "wht (+) (-) (Suc s) (wht (+) (-) (Suc s) x) j = 2 ^ Suc s * x j"
    proof (cases "j < 2 ^ s")
      case True
      have "wht (+) (-) (Suc s) (wht (+) (-) (Suc s) x) j = (?W a j + ?W b j) + (?W a j - ?W b j)"
        using True lo [of j] hi [of j] by (subst wht.simps(2)) simp
      then show ?thesis using ab(1) [OF True] by simp
    next
      case False
      define i where "i = j - 2 ^ s"
      have i: "i < 2 ^ s" "j = 2 ^ s + i" using False j by (simp_all add: i_def)
      have "wht (+) (-) (Suc s) (wht (+) (-) (Suc s) x) j = (?W a i + ?W b i) - (?W a i - ?W b i)"
        using False lo [of i] hi [of i] i(2) by (subst wht.simps(2)) simp
      then show ?thesis using ab(2) [OF i(1)] i(2) by simp
    qed
  qed
qed simp


end
