(* ===== verification/AttentionMath.thy ===== *)
theory AttentionMath
  imports Complex_Main
begin

text \<open>
  The algorithms of the shaders of \<open>src/dxattention/dxattention.cpp\<close> over an arbitrary arithmetic, so that
  they can be read with the floats of the device and with real numbers.

  A query is a function from dimensions to numbers, the keys and values functions from positions and
  dimensions to numbers. Local arrays of a shader are functions too; a loop that updates every entry
  of an array once is a pointwise update. With real numbers the three-pass kernel, the tiled kernel
  with its running maximum and the recurrent kernel are shown to be the textbook formulas.
\<close>

section \<open>Arithmetics\<close>

text \<open>\<open>ar_floor\<close> is the start value of a maximum, \<open>-1e30f\<close>; \<open>ar_pos x\<close> is \<open>x > 0.0f\<close>.\<close>

record 'v arith =
  ar_zero :: 'v
  ar_floor :: 'v
  ar_add :: "'v \<Rightarrow> 'v \<Rightarrow> 'v"
  ar_sub :: "'v \<Rightarrow> 'v \<Rightarrow> 'v"
  ar_mul :: "'v \<Rightarrow> 'v \<Rightarrow> 'v"
  ar_div :: "'v \<Rightarrow> 'v \<Rightarrow> 'v"
  ar_max :: "'v \<Rightarrow> 'v \<Rightarrow> 'v"
  ar_min :: "'v \<Rightarrow> 'v \<Rightarrow> 'v"
  ar_exp :: "'v \<Rightarrow> 'v"
  ar_pos :: "'v \<Rightarrow> bool"

definition exact_arith :: "real arith" where
  "exact_arith = \<lparr> ar_zero = 0, ar_floor = - (10 ^ 30), ar_add = (+), ar_sub = (-), ar_mul = (*), ar_div = (/),
    ar_max = max, ar_min = min, ar_exp = exp, ar_pos = (\<lambda>x. 0 < x) \<rparr>"

lemma exact_arith_simps [simp]:
  "ar_zero exact_arith = 0" "ar_floor exact_arith = - (10 ^ 30)" "ar_add exact_arith = (+)" "ar_sub exact_arith = (-)"
  "ar_mul exact_arith = (*)" "ar_div exact_arith = (/)" "ar_max exact_arith = max" "ar_min exact_arith = min"
  "ar_exp exact_arith = exp" "ar_pos exact_arith = (\<lambda>x. 0 < x)"
  by (simp_all add: exact_arith_def)

section \<open>Attention in three passes\<close>

definition dot_product :: "'v arith \<Rightarrow> nat \<Rightarrow> (nat \<Rightarrow> 'v) \<Rightarrow> (nat \<Rightarrow> 'v) \<Rightarrow> 'v" where
  "dot_product A n a b = fold (\<lambda>d s. ar_add A s (ar_mul A (a d) (b d))) [0..<n] (ar_zero A)"

definition score :: "'v arith \<Rightarrow> nat \<Rightarrow> 'v \<Rightarrow> (nat \<Rightarrow> 'v) \<Rightarrow> (nat \<Rightarrow> nat \<Rightarrow> 'v) \<Rightarrow> nat \<Rightarrow> 'v" where
  "score A n scale q k j = ar_mul A (dot_product A n q (k j)) scale"

definition score_max :: "'v arith \<Rightarrow> (nat \<Rightarrow> 'v) \<Rightarrow> nat list \<Rightarrow> 'v" where
  "score_max A s js = fold (\<lambda>j peak. ar_max A peak (s j)) js (ar_floor A)"

definition score_sum :: "'v arith \<Rightarrow> (nat \<Rightarrow> 'v) \<Rightarrow> 'v \<Rightarrow> nat list \<Rightarrow> 'v" where
  "score_sum A s peak js = fold (\<lambda>j acc. ar_add A acc (ar_exp A (ar_sub A (s j) peak))) js (ar_zero A)"

definition weighted :: "'v arith \<Rightarrow> (nat \<Rightarrow> 'v) \<Rightarrow> 'v \<Rightarrow> 'v \<Rightarrow> (nat \<Rightarrow> nat \<Rightarrow> 'v) \<Rightarrow> nat list \<Rightarrow> nat \<Rightarrow> 'v" where
  "weighted A s peak denom v js d =
    fold (\<lambda>j o'. ar_add A o' (ar_mul A (ar_div A (ar_exp A (ar_sub A (s j) peak)) denom) (v j d))) js (ar_zero A)"

definition attend ::
  "'v arith \<Rightarrow> nat \<Rightarrow> 'v \<Rightarrow> (nat \<Rightarrow> 'v) \<Rightarrow> (nat \<Rightarrow> nat \<Rightarrow> 'v) \<Rightarrow> (nat \<Rightarrow> nat \<Rightarrow> 'v) \<Rightarrow> nat list \<Rightarrow> 'v list" where
  "attend A n scale q k v js =
    (let s = score A n scale q k; peak = score_max A s js; denom = score_sum A s peak js
     in map (weighted A s peak denom v js) [0..<n])"

text \<open>The textbook formula: the mean of the values, weighted with the exponentials of the scores.\<close>

definition softmax_mean :: "(nat \<Rightarrow> real) \<Rightarrow> (nat \<Rightarrow> nat \<Rightarrow> real) \<Rightarrow> nat list \<Rightarrow> nat \<Rightarrow> real" where
  "softmax_mean s v js d = (\<Sum>j\<leftarrow>js. exp (s j) * v j d) / (\<Sum>j\<leftarrow>js. exp (s j))"

lemma fold_plus: "fold (\<lambda>j acc. acc + f j) js z = z + (\<Sum>j\<leftarrow>js. f j)" for z :: real
  by (induction js arbitrary: z) (simp_all add: add.assoc)

lemma shifted_sums:
  "(\<Sum>j\<leftarrow>js. exp (s j - c)) = exp (- c) * (\<Sum>j\<leftarrow>js. exp (s j))"
  "(\<Sum>j\<leftarrow>js. exp (s j - c) * v j) = exp (- c) * (\<Sum>j\<leftarrow>js. exp (s j) * v j)" for c :: real
  by (induction js) (simp_all add: exp_diff exp_minus field_simps)

text \<open>Whatever number the exponents are shifted by, the quotient is the same.\<close>

lemma softmax_mean_shifted:
  "(\<Sum>j\<leftarrow>js. exp (s j - c) * v j d) / (\<Sum>j\<leftarrow>js. exp (s j - c)) = softmax_mean s v js d"
  unfolding shifted_sums(1) shifted_sums(2) [of s c "\<lambda>j. v j d"] softmax_mean_def by simp

lemma weighted_exact: "weighted exact_arith s c (score_sum exact_arith s c js) v js d = softmax_mean s v js d"
proof -
  have "weighted exact_arith s c denom v js d = (\<Sum>j\<leftarrow>js. exp (s j - c) * v j d) / denom" for denom
  proof -
    have "weighted exact_arith s c denom v js d = (\<Sum>j\<leftarrow>js. exp (s j - c) / denom * v j d)"
      by (simp add: weighted_def fold_plus)
    also have "\<dots> = (\<Sum>j\<leftarrow>js. exp (s j - c) * v j d) / denom"
      by (induction js) (simp_all add: add_divide_distrib)
    finally show ?thesis .
  qed
  then show ?thesis using softmax_mean_shifted [of s c v d js] by (simp add: score_sum_def fold_plus)
qed

lemma attend_exact:
  "attend exact_arith n scale q k v js = map (softmax_mean (score exact_arith n scale q k) v js) [0..<n]"
  by (simp add: attend_def Let_def weighted_exact)

section \<open>The tiled kernel\<close>

text \<open>The keys of a block: both inner loops break at the end of the sequence and behind the query.\<close>

definition flash_keys :: "nat \<Rightarrow> nat \<Rightarrow> nat \<Rightarrow> nat list" where
  "flash_keys seq i j0 = takeWhile (\<lambda>j. j < seq \<and> \<not> i < j) (map (\<lambda>b. j0 + b) [0..<16])"

definition flash_block ::
  "'v arith \<Rightarrow> (nat \<Rightarrow> 'v) \<Rightarrow> (nat \<Rightarrow> nat \<Rightarrow> 'v) \<Rightarrow> nat list \<Rightarrow> 'v \<times> 'v \<times> (nat \<Rightarrow> 'v) \<Rightarrow> 'v \<times> 'v \<times> (nat \<Rightarrow> 'v)" where
  "flash_block A s v js st =
    (case st of (m, l, acc) \<Rightarrow>
      let block_max = score_max A s js;
          new_m = ar_max A m block_max;
          rescale = ar_exp A (ar_sub A m new_m);
          (block_l, tmp) = fold (\<lambda>j (bl, tmp). let p = ar_exp A (ar_sub A (s j) new_m)
             in (ar_add A bl p, \<lambda>d. ar_add A (tmp d) (ar_mul A p (v j d)))) js (ar_zero A, \<lambda>_. ar_zero A)
      in (new_m, ar_add A (ar_mul A l rescale) block_l, \<lambda>d. ar_add A (ar_mul A (acc d) rescale) (tmp d)))"

text \<open>\<open>for (j0 = 0; j0 < g_seq_len; j0 += FLASH_BLOCK)\<close>, then the quotient.\<close>

definition flash_attend ::
  "'v arith \<Rightarrow> nat \<Rightarrow> 'v \<Rightarrow> (nat \<Rightarrow> 'v) \<Rightarrow> (nat \<Rightarrow> nat \<Rightarrow> 'v) \<Rightarrow> (nat \<Rightarrow> nat \<Rightarrow> 'v) \<Rightarrow> nat \<Rightarrow> nat \<Rightarrow> 'v list" where
  "flash_attend A n scale q k v seq i =
    (case fold (\<lambda>b. flash_block A (score A n scale q k) v (flash_keys seq i (16 * b))) [0..<(seq + 15) div 16]
        (ar_floor A, ar_zero A, \<lambda>_. ar_zero A) of
       (m, l, acc) \<Rightarrow> map (\<lambda>d. if ar_pos A l then ar_div A (acc d) l else ar_zero A) [0..<n])"

lemma takeWhile_upt: "takeWhile (\<lambda>j. j < k) [a..<b] = [a..<min k b]"
proof (induction b)
  case (Suc b)
  show ?case
  proof (cases "a \<le> b \<and> b < k")
    case True
    then have "takeWhile (\<lambda>j. j < k) [a..<b] = [a..<b]" by (auto simp: takeWhile_eq_all_conv)
    then show ?thesis using True by (simp add: takeWhile_append2)
  next
    case False
    then have "takeWhile (\<lambda>j. j < k) [a..<Suc b] = takeWhile (\<lambda>j. j < k) [a..<b]"
      by (auto simp: takeWhile_tail not_le)
    then show ?thesis using Suc False by (auto simp: min_def)
  qed
qed simp

lemma flash_keys_upt: "i < seq \<Longrightarrow> flash_keys seq i j0 = [j0..<min (Suc i) (j0 + 16)]"
proof -
  assume i: "i < seq"
  have "map (\<lambda>b. j0 + b) [0..<16] = [j0..<j0 + 16]"
    using map_add_upt [of j0 16] by (simp add: add.commute)
  moreover have "(\<lambda>j. j < seq \<and> \<not> i < j) = (\<lambda>j. j < Suc i)" using i by auto
  ultimately show ?thesis by (simp add: flash_keys_def takeWhile_upt)
qed

lemma flash_keys_concat:
  "i < seq \<Longrightarrow> concat (map (\<lambda>b. flash_keys seq i (16 * b)) [0..<n]) = [0..<min (Suc i) (16 * n)]"
proof (induction n)
  case (Suc n)
  have "[0..<min (Suc i) (16 * n)] @ [16 * n..<min (Suc i) (16 * n + 16)] = [0..<min (Suc i) (16 * Suc n)]"
  proof (cases "Suc i \<le> 16 * n")
    case False
    then have "16 * n \<le> min (Suc i) (16 * Suc n)" by simp
    then show ?thesis using upt_add_eq_append [of 0 "16 * n" "min (Suc i) (16 * Suc n) - 16 * n"] by (simp add: add.commute)
  qed simp
  then show ?case using Suc by (simp add: flash_keys_upt)
qed simp

text \<open>The running state after some keys: sums of exponentials shifted by the running maximum.\<close>

definition flash_state :: "(nat \<Rightarrow> real) \<Rightarrow> (nat \<Rightarrow> nat \<Rightarrow> real) \<Rightarrow> nat list \<Rightarrow> real \<times> real \<times> (nat \<Rightarrow> real) \<Rightarrow> bool" where
  "flash_state s v js st = (case st of (m, l, acc) \<Rightarrow>
    l = (\<Sum>j\<leftarrow>js. exp (s j - m)) \<and> (\<forall>d. acc d = (\<Sum>j\<leftarrow>js. exp (s j - m) * v j d)))"

lemma block_sums:
  "fold (\<lambda>j (bl, tmp). (bl + exp (s j - c), \<lambda>d. tmp d + exp (s j - c) * v j d)) js (a, t) =
    (a + (\<Sum>j\<leftarrow>js. exp (s j - c)), \<lambda>d. t d + (\<Sum>j\<leftarrow>js. exp (s j - c) * v j d))" for c :: real
  by (induction js arbitrary: a t) (simp_all add: Let_def add.assoc)

lemma rescaled_sums:
  "(\<Sum>j\<leftarrow>js. exp (s j - m)) * exp (m - c) = (\<Sum>j\<leftarrow>js. exp (s j - c))"
  "(\<Sum>j\<leftarrow>js. exp (s j - m) * v j) * exp (m - c) = (\<Sum>j\<leftarrow>js. exp (s j - c) * v j)" for c :: real
  unfolding shifted_sums(1) [of s m] shifted_sums(1) [of s c] shifted_sums(2) [of s m] shifted_sums(2) [of s c]
  by (simp_all add: exp_diff exp_minus field_simps)

lemma flash_block_state:
  assumes "flash_state s v js st"
  shows "flash_state s v (js @ ks) (flash_block exact_arith s v ks st)"
proof -
  obtain m l acc where st: "st = (m, l, acc)" by (cases st) auto
  define c where "c = max m (score_max exact_arith s ks)"
  have "flash_block exact_arith s v ks st =
      (c, l * exp (m - c) + (\<Sum>j\<leftarrow>ks. exp (s j - c)), \<lambda>d. acc d * exp (m - c) + (\<Sum>j\<leftarrow>ks. exp (s j - c) * v j d))"
    unfolding flash_block_def st prod.case Let_def exact_arith_simps c_def [symmetric] block_sums by simp
  moreover have "l = (\<Sum>j\<leftarrow>js. exp (s j - m))" "acc d = (\<Sum>j\<leftarrow>js. exp (s j - m) * v j d)" for d
    using assms by (simp_all add: st flash_state_def)
  ultimately show ?thesis using rescaled_sums(1) [of s m js c] by (simp add: flash_state_def rescaled_sums(2))
qed

lemma flash_blocks_state:
  "flash_state s v js st \<Longrightarrow>
    flash_state s v (js @ concat (map f bs)) (fold (\<lambda>b. flash_block exact_arith s v (f b)) bs st)"
proof (induction bs arbitrary: js st)
  case (Cons b bs)
  show ?case using Cons.IH [OF flash_block_state [OF Cons.prems, of "f b"]] by simp
qed simp

lemma flash_attend_exact:
  assumes "i < seq"
  shows "flash_attend exact_arith n scale q k v seq i =
    map (softmax_mean (score exact_arith n scale q k) v [0..<Suc i]) [0..<n]"
proof -
  let ?s = "score exact_arith n scale q k" and ?n = "(seq + 15) div 16"
  define st where "st = fold (\<lambda>b. flash_block exact_arith ?s v (flash_keys seq i (16 * b))) [0..<?n] (- (10 ^ 30), 0, \<lambda>_. 0)"
  obtain m l acc where mla: "st = (m, l, acc)" by (cases st) auto
  have "flash_state ?s v [] (- (10 ^ 30), 0, \<lambda>_. 0)" by (simp add: flash_state_def)
  from flash_blocks_state [OF this, of "\<lambda>b. flash_keys seq i (16 * b)" "[0..<?n]", folded st_def]
  have "flash_state ?s v ([] @ [0..<min (Suc i) (16 * ?n)]) st" unfolding flash_keys_concat [OF assms] .
  moreover have "min (Suc i) (16 * ?n) = Suc i" using assms by linarith
  ultimately have f: "l = (\<Sum>j\<leftarrow>[0..<Suc i]. exp (?s j - m))" "\<And>d. acc d = (\<Sum>j\<leftarrow>[0..<Suc i]. exp (?s j - m) * v j d)"
    unfolding mla flash_state_def by (simp_all del: upt_Suc)
  have "0 < (\<Sum>j\<leftarrow>j # js. exp (?s j - m))" for j js
  proof -
    have "0 \<le> (\<Sum>j\<leftarrow>js. exp (?s j - m))" by (rule sum_list_nonneg) auto
    then show ?thesis by (simp add: add_pos_nonneg)
  qed
  then have "0 < l" unfolding f(1) upt_conv_Cons [OF zero_less_Suc] .
  then show ?thesis
    unfolding flash_attend_def exact_arith_simps st_def [symmetric] mla
    by (simp add: f softmax_mean_shifted del: upt_Suc)
qed

section \<open>The recurrent kernel\<close>

text \<open>The feature map \<open>elu(x) + 1\<close>.\<close>

definition feature :: "'v arith \<Rightarrow> 'v \<Rightarrow> 'v" where
  "feature A x = ar_add A (ar_max A x (ar_zero A)) (ar_exp A (ar_min A x (ar_zero A)))"

definition linear_state ::
  "'v arith \<Rightarrow> (nat \<Rightarrow> nat \<Rightarrow> 'v) \<Rightarrow> (nat \<Rightarrow> nat \<Rightarrow> 'v) \<Rightarrow> nat list \<Rightarrow> (nat \<Rightarrow> 'v) \<times> (nat \<Rightarrow> nat \<Rightarrow> 'v)" where
  "linear_state A k v js =
    fold (\<lambda>j (z, S). (\<lambda>d. ar_add A (z d) (feature A (k j d)),
        \<lambda>d e. ar_add A (S d e) (ar_mul A (feature A (k j d)) (v j e)))) js (\<lambda>_. ar_zero A, \<lambda>_ _. ar_zero A)"

definition linear_attend ::
  "'v arith \<Rightarrow> nat \<Rightarrow> (nat \<Rightarrow> 'v) \<Rightarrow> (nat \<Rightarrow> nat \<Rightarrow> 'v) \<Rightarrow> (nat \<Rightarrow> nat \<Rightarrow> 'v) \<Rightarrow> nat list \<Rightarrow> 'v list" where
  "linear_attend A n q k v js =
    (case linear_state A k v js of (z, S) \<Rightarrow>
      let norm = fold (\<lambda>d acc. ar_add A acc (ar_mul A (feature A (q d)) (z d))) [0..<n] (ar_zero A);
          o' = (\<lambda>e. fold (\<lambda>d acc. ar_add A acc (ar_mul A (feature A (q d)) (S d e))) [0..<n] (ar_zero A))
      in map (\<lambda>e. if ar_pos A norm then ar_div A (o' e) norm else ar_zero A) [0..<n])"

text \<open>Kernelised attention: the mean of the values, weighted with the products of the features.\<close>

definition kernel_mean ::
  "nat \<Rightarrow> (nat \<Rightarrow> real) \<Rightarrow> (nat \<Rightarrow> nat \<Rightarrow> real) \<Rightarrow> (nat \<Rightarrow> nat \<Rightarrow> real) \<Rightarrow> nat list \<Rightarrow> nat \<Rightarrow> real" where
  "kernel_mean n q k v js e =
    (let w = (\<lambda>j. \<Sum>d\<leftarrow>[0..<n]. feature exact_arith (q d) * feature exact_arith (k j d))
     in (\<Sum>j\<leftarrow>js. w j * v j e) / (\<Sum>j\<leftarrow>js. w j))"

lemma linear_state_exact:
  "linear_state exact_arith k v js =
    (\<lambda>d. \<Sum>j\<leftarrow>js. feature exact_arith (k j d), \<lambda>d e. \<Sum>j\<leftarrow>js. feature exact_arith (k j d) * v j e)"
proof -
  have "fold (\<lambda>j (z, S). (\<lambda>d. z d + g j d, \<lambda>d e. S d e + g j d * v j e)) js (z, S) =
      (\<lambda>d. z d + (\<Sum>j\<leftarrow>js. g j d), \<lambda>d e. S d e + (\<Sum>j\<leftarrow>js. g j d * v j e))"
    for g :: "nat \<Rightarrow> nat \<Rightarrow> real" and z S
    by (induction js arbitrary: z S) (simp_all add: add.assoc)
  from this [of "\<lambda>j d. feature exact_arith (k j d)"] show ?thesis by (simp add: linear_state_def)
qed

lemma sum_list_swap:
  "(\<Sum>d\<leftarrow>ds. a d * (\<Sum>j\<leftarrow>js. b j d * c j)) = (\<Sum>j\<leftarrow>js. (\<Sum>d\<leftarrow>ds. a d * b j d) * c j)" for a :: "nat \<Rightarrow> real"
proof (induction js)
  case (Cons j js)
  have "(\<Sum>d\<leftarrow>ds. a d * (\<Sum>j\<leftarrow>j # js. b j d * c j)) =
      (\<Sum>d\<leftarrow>ds. a d * b j d) * c j + (\<Sum>d\<leftarrow>ds. a d * (\<Sum>j\<leftarrow>js. b j d * c j))"
    by (induction ds) (simp_all add: algebra_simps)
  then show ?case using Cons by simp
qed (simp add: sum_list_triv)

lemma feature_pos: "0 < feature exact_arith x"
  by (simp add: feature_def add_nonneg_pos)

lemma linear_attend_exact: "linear_attend exact_arith n q k v js = map (kernel_mean n q k v js) [0..<n]"
proof -
  let ?f = "feature exact_arith"
  define w where "w j = (\<Sum>d\<leftarrow>[0..<n]. ?f (q d) * ?f (k j d))" for j
  have norm: "(\<Sum>d\<leftarrow>[0..<n]. ?f (q d) * (\<Sum>j\<leftarrow>js. ?f (k j d))) = (\<Sum>j\<leftarrow>js. w j)"
    using sum_list_swap [where c = "\<lambda>_. 1" and a = "\<lambda>d. ?f (q d)" and b = "\<lambda>j d. ?f (k j d)"] by (simp add: w_def)
  have num: "(\<Sum>d\<leftarrow>[0..<n]. ?f (q d) * (\<Sum>j\<leftarrow>js. ?f (k j d) * v j e)) = (\<Sum>j\<leftarrow>js. w j * v j e)" for e
    unfolding w_def by (rule sum_list_swap)
  have "0 \<le> w j" for j unfolding w_def by (intro sum_list_nonneg) (auto simp: less_imp_le feature_pos)
  then have "0 \<le> (\<Sum>j\<leftarrow>js. w j)" by (intro sum_list_nonneg) auto
  then have q: "(if 0 < (\<Sum>j\<leftarrow>js. w j) then x / (\<Sum>j\<leftarrow>js. w j) else 0) = x / (\<Sum>j\<leftarrow>js. w j)" for x
    by (cases "(\<Sum>j\<leftarrow>js. w j) = 0") auto
  show ?thesis
    unfolding linear_attend_def linear_state_exact prod.case exact_arith_simps fold_plus add_0 norm num Let_def q
      kernel_mean_def w_def [symmetric] ..
qed

section \<open>What the algorithms read\<close>

lemma dot_product_cong: "(\<And>d. d < n \<Longrightarrow> a d = a' d) \<Longrightarrow> (\<And>d. d < n \<Longrightarrow> b d = b' d) \<Longrightarrow> dot_product A n a b = dot_product A n a' b'"
  unfolding dot_product_def by (rule fold_cong) auto

lemma score_cong: "(\<And>d. d < n \<Longrightarrow> q d = q' d) \<Longrightarrow> (\<And>d. d < n \<Longrightarrow> k j d = k' j d) \<Longrightarrow> score A n scale q k j = score A n scale q' k' j"
  unfolding score_def using dot_product_cong [of n q q' "k j" "k' j" A] by simp

lemma score_max_cong: "(\<And>j. j \<in> set js \<Longrightarrow> s j = s' j) \<Longrightarrow> score_max A s js = score_max A s' js"
  unfolding score_max_def by (rule fold_cong) auto

lemma score_sum_cong: "(\<And>j. j \<in> set js \<Longrightarrow> s j = s' j) \<Longrightarrow> score_sum A s c js = score_sum A s' c js"
  unfolding score_sum_def by (rule fold_cong) auto

lemma weighted_cong:
  "(\<And>j. j \<in> set js \<Longrightarrow> s j = s' j) \<Longrightarrow> (\<And>j. j \<in> set js \<Longrightarrow> v j d = v' j d) \<Longrightarrow> weighted A s c denom v js d = weighted A s' c denom v' js d"
  unfolding weighted_def by (rule fold_cong) auto

lemma attend_cong:
  assumes "\<And>d. d < n \<Longrightarrow> q d = q' d" "\<And>j d. j \<in> set js \<Longrightarrow> d < n \<Longrightarrow> k j d = k' j d \<and> v j d = v' j d"
  shows "attend A n scale q k v js = attend A n scale q' k' v' js"
proof -
  have s: "score A n scale q k j = score A n scale q' k' j" if "j \<in> set js" for j
    by (rule score_cong) (use assms that in auto)
  have m: "score_max A (score A n scale q k) js = score_max A (score A n scale q' k') js" by (rule score_max_cong [OF s])
  have u: "score_sum A (score A n scale q k) c js = score_sum A (score A n scale q' k') c js" for c by (rule score_sum_cong [OF s])
  show ?thesis unfolding attend_def Let_def m u
    by (rule map_cong [OF refl], rule weighted_cong) (use s assms(2) in auto)
qed

lemma flash_keys_lt: "j \<in> set (flash_keys seq i j0) \<Longrightarrow> j < seq"
  unfolding flash_keys_def by (auto dest: set_takeWhileD)

lemma flash_block_cong:
  assumes "\<And>j. j \<in> set js \<Longrightarrow> s j = s' j" "\<And>j d. j \<in> set js \<Longrightarrow> d < n \<Longrightarrow> v j d = v' j d"
    and "\<And>d. d < n \<Longrightarrow> acc d = acc' d"
  shows "\<exists>m2 l2 a a'. flash_block A s v js (m, l, acc) = (m2, l2, a) \<and> flash_block A s' v' js (m, l, acc') = (m2, l2, a') \<and>
    (\<forall>d < n. a d = a' d)"
proof -
  have "\<exists>bl t t'. fold (\<lambda>j (bl, tmp). let p = ar_exp A (ar_sub A (s j) c) in (ar_add A bl p, \<lambda>d. ar_add A (tmp d) (ar_mul A p (v j d)))) js (b0, t0) = (bl, t) \<and>
      fold (\<lambda>j (bl, tmp). let p = ar_exp A (ar_sub A (s' j) c) in (ar_add A bl p, \<lambda>d. ar_add A (tmp d) (ar_mul A p (v' j d)))) js (b0, t0') = (bl, t') \<and>
      (\<forall>d < n. t d = t' d)" if "\<And>d. d < n \<Longrightarrow> t0 d = t0' d" for c b0 t0 t0'
    using assms(1,2) that
  proof (induction js arbitrary: b0 t0 t0')
    case (Cons j js)
    show ?case unfolding fold_simps comp_def prod.case Let_def
      using Cons.prems Cons.IH unfolding Let_def by auto
  qed simp
  note loop = this
  have mx: "score_max A s js = score_max A s' js" by (rule score_max_cong [OF assms(1)])
  obtain bl t t' where "fold (\<lambda>j (bl, tmp). let p = ar_exp A (ar_sub A (s j) (ar_max A m (score_max A s' js))) in (ar_add A bl p, \<lambda>d. ar_add A (tmp d) (ar_mul A p (v j d)))) js (ar_zero A, \<lambda>_. ar_zero A) = (bl, t)"
      "fold (\<lambda>j (bl, tmp). let p = ar_exp A (ar_sub A (s' j) (ar_max A m (score_max A s' js))) in (ar_add A bl p, \<lambda>d. ar_add A (tmp d) (ar_mul A p (v' j d)))) js (ar_zero A, \<lambda>_. ar_zero A) = (bl, t')"
      "\<forall>d < n. t d = t' d"
    using loop [of "\<lambda>_. ar_zero A" "\<lambda>_. ar_zero A" "ar_max A m (score_max A s' js)" "ar_zero A"] by blast
  then show ?thesis using assms(3) unfolding flash_block_def mx by (simp add: Let_def)
qed

lemma flash_attend_cong:
  assumes "\<And>d. d < n \<Longrightarrow> q d = q' d" "\<And>j d. j < seq \<Longrightarrow> d < n \<Longrightarrow> k j d = k' j d \<and> v j d = v' j d"
  shows "flash_attend A n scale q k v seq i = flash_attend A n scale q' k' v' seq i"
proof -
  let ?s = "score A n scale q k" and ?s' = "score A n scale q' k'"
  have s: "?s j = ?s' j" if "j < seq" for j by (rule score_cong) (use assms that in auto)
  have "\<exists>m2 l2 a a'. fold (\<lambda>b. flash_block A ?s v (flash_keys seq i (16 * b))) bs (m, l, acc) = (m2, l2, a) \<and>
      fold (\<lambda>b. flash_block A ?s' v' (flash_keys seq i (16 * b))) bs (m, l, acc') = (m2, l2, a') \<and> (\<forall>d < n. a d = a' d)"
    if "\<And>d. d < n \<Longrightarrow> acc d = acc' d" for bs m l acc acc'
    using that
  proof (induction bs arbitrary: m l acc acc')
    case (Cons b bs)
    obtain m2 l2 a a' where "flash_block A ?s v (flash_keys seq i (16 * b)) (m, l, acc) = (m2, l2, a)"
        "flash_block A ?s' v' (flash_keys seq i (16 * b)) (m, l, acc') = (m2, l2, a')" "\<forall>d < n. a d = a' d"
      using flash_block_cong [of "flash_keys seq i (16 * b)" ?s ?s' n v v' acc acc' A m l] s flash_keys_lt assms(2) Cons.prems by metis
    then show ?case using Cons.IH [of a a' m2 l2] by simp
  qed simp
  from this [of "\<lambda>_. ar_zero A" "\<lambda>_. ar_zero A" "[0..<(seq + 15) div 16]" "ar_floor A" "ar_zero A"]
  show ?thesis unfolding flash_attend_def by auto
qed

lemma linear_state_cong:
  assumes "\<And>j d. j \<in> set js \<Longrightarrow> d < n \<Longrightarrow> k j d = k' j d \<and> v j d = v' j d"
  shows "\<exists>z z' S S'. linear_state A k v js = (z, S) \<and> linear_state A k' v' js = (z', S') \<and>
    (\<forall>d < n. z d = z' d) \<and> (\<forall>d < n. \<forall>e < n. S d e = S' d e)"
proof -
  have "\<exists>z2 z2' S2 S2'. fold (\<lambda>j (z, S). (\<lambda>d. ar_add A (z d) (feature A (k j d)),
        \<lambda>d e. ar_add A (S d e) (ar_mul A (feature A (k j d)) (v j e)))) js (z, S) = (z2, S2) \<and>
      fold (\<lambda>j (z, S). (\<lambda>d. ar_add A (z d) (feature A (k' j d)),
        \<lambda>d e. ar_add A (S d e) (ar_mul A (feature A (k' j d)) (v' j e)))) js (z', S') = (z2', S2') \<and>
      (\<forall>d < n. z2 d = z2' d) \<and> (\<forall>d < n. \<forall>e < n. S2 d e = S2' d e)"
    if "\<forall>d < n. z d = z' d" "\<forall>d < n. \<forall>e < n. S d e = S' d e" for z z' S S'
    using assms that
  proof (induction js arbitrary: z z' S S')
    case (Cons j js)
    show ?case unfolding fold_simps comp_def prod.case
      by (rule Cons.IH) (use Cons.prems in auto)
  qed simp
  from this [of "\<lambda>_. ar_zero A" "\<lambda>_. ar_zero A" "\<lambda>_ _. ar_zero A" "\<lambda>_ _. ar_zero A"] show ?thesis
    unfolding linear_state_def by blast
qed

lemma linear_attend_cong:
  assumes "\<And>d. d < n \<Longrightarrow> q d = q' d" "\<And>j d. j \<in> set js \<Longrightarrow> d < n \<Longrightarrow> k j d = k' j d \<and> v j d = v' j d"
  shows "linear_attend A n q k v js = linear_attend A n q' k' v' js"
proof -
  obtain z z' S S' where st: "linear_state A k v js = (z, S)" "linear_state A k' v' js = (z', S')"
      and eq: "\<forall>d < n. z d = z' d" "\<forall>d < n. \<forall>e < n. S d e = S' d e"
    using linear_state_cong [of js n k k' v v' A] assms(2) by blast
  have norm: "fold (\<lambda>d acc. ar_add A acc (ar_mul A (feature A (q d)) (z d))) [0..<n] (ar_zero A) =
      fold (\<lambda>d acc. ar_add A acc (ar_mul A (feature A (q' d)) (z' d))) [0..<n] (ar_zero A)"
    by (rule fold_cong) (use eq assms(1) in auto)
  have o': "fold (\<lambda>d acc. ar_add A acc (ar_mul A (feature A (q d)) (S d e))) [0..<n] (ar_zero A) =
      fold (\<lambda>d acc. ar_add A acc (ar_mul A (feature A (q' d)) (S' d e))) [0..<n] (ar_zero A)" if "e < n" for e
    by (rule fold_cong) (use eq assms(1) that in auto)
  show ?thesis unfolding linear_attend_def st prod.case Let_def norm by (rule map_cong [OF refl]) (simp add: o')
qed

lemma attend_lengths [simp]:
  "length (attend A n scale q k v js) = n" "length (flash_attend A n scale q k v seq i) = n" "length (linear_attend A n q k v js) = n"
  by (simp_all add: attend_def Let_def flash_attend_def linear_attend_def split: prod.splits)

section \<open>The fast forms are attention\<close>

text \<open>
  C10. The tiled kernel computes causal attention: with exact arithmetic, going through the keys in blocks
  of 16 with a running maximum and rescaled partial sums gives, for every query position of
  the sequence, the same row as the three passes over all keys up to the position, and both are
  the mean of the values weighted with the exponentials of the scores.
\<close>

theorem flash_is_attention:
  assumes "i < seq"
  shows "flash_attend exact_arith n scale q k v seq i = attend exact_arith n scale q k v [0..<Suc i] \<and>
    attend exact_arith n scale q k v [0..<Suc i] = map (softmax_mean (score exact_arith n scale q k) v [0..<Suc i]) [0..<n]"
  by (simp only: flash_attend_exact [OF assms] attend_exact simp_thms)

text \<open>Position 20 of 40: two blocks hold visible keys, the third none.\<close>

theorem flash_is_attention_witness:
  "flash_attend exact_arith 1 1 (\<lambda>_. 0) (\<lambda>_ _. 0) (\<lambda>j _. real j) 40 20 = [10]"
proof -
  have "score exact_arith 1 1 (\<lambda>_. 0) (\<lambda>_ _. 0) = (\<lambda>_. 0)" by (simp add: fun_eq_iff score_def dot_product_def)
  then have "flash_attend exact_arith 1 1 (\<lambda>_. 0) (\<lambda>_ _. 0) (\<lambda>j _. real j) 40 20 =
      map (softmax_mean (\<lambda>_. 0) (\<lambda>j _. real j) [0..<Suc 20]) [0..<1]"
    using flash_is_attention [of 20 40 1 1 "\<lambda>_. 0" "\<lambda>_ _. 0" "\<lambda>j _. real j"] by (simp only: simp_thms)
  then show ?thesis by (simp add: softmax_mean_def upt_rec)
qed

text \<open>The mean is a mean: the weights are positive, so that it lies between the smallest and the largest value.\<close>

lemma kernel_mean_between:
  assumes "0 < n" "js \<noteq> []" "\<And>j. j \<in> set js \<Longrightarrow> lo \<le> v j e \<and> v j e \<le> hi"
  shows "lo \<le> kernel_mean n q k v js e \<and> kernel_mean n q k v js e \<le> hi"
proof -
  define w where "w j = (\<Sum>d\<leftarrow>[0..<n]. feature exact_arith (q d) * feature exact_arith (k j d))" for j
  have terms: "0 < feature exact_arith (q d) * feature exact_arith (k j d)" for j d by (simp add: feature_pos)
  have w: "0 < w j" for j
  proof -
    have "0 \<le> (\<Sum>d\<leftarrow>[1..<n]. feature exact_arith (q d) * feature exact_arith (k j d))"
      by (rule sum_list_nonneg) (use terms in \<open>auto intro: less_imp_le\<close>)
    then show ?thesis using terms [of 0 j] assms(1) by (simp add: w_def upt_conv_Cons add_pos_nonneg)
  qed
  obtain j0 js' where js: "js = j0 # js'" using assms(2) by (cases js) auto
  have "0 \<le> (\<Sum>j\<leftarrow>js'. w j)" by (rule sum_list_nonneg) (use w in \<open>auto intro: less_imp_le\<close>)
  then have s: "0 < (\<Sum>j\<leftarrow>js. w j)" using w [of j0] by (simp add: js add_pos_nonneg)
  have "lo * (\<Sum>j\<leftarrow>js. w j) \<le> (\<Sum>j\<leftarrow>js. w j * v j e)"
    unfolding sum_list_const_mult [symmetric]
    by (rule sum_list_mono) (use assms(3) w in \<open>auto simp: mult.commute [of lo] intro: mult_left_mono less_imp_le\<close>)
  moreover have "(\<Sum>j\<leftarrow>js. w j * v j e) \<le> hi * (\<Sum>j\<leftarrow>js. w j)"
    unfolding sum_list_const_mult [symmetric]
    by (rule sum_list_mono) (use assms(3) w in \<open>auto simp: mult.commute [of hi] intro: mult_left_mono less_imp_le\<close>)
  ultimately show ?thesis
    using s by (simp add: kernel_mean_def w_def [symmetric] Let_def le_divide_eq divide_le_eq)
qed

text \<open>
  C36. The recurrent algorithm of \<open>linear_attn\<close>, with exact arithmetic, is causal kernelised attention: the state
  gathered key by key over the positions up to \<open>i\<close> and read once by the query gives, in every
  component, the mean of the values up to \<open>i\<close> weighted with the products of the features, and that
  mean lies between the smallest and the largest of these values. The kernel has room for heads
  of at most 32 numbers; for larger ones, the default of 128 included, it stores nothing
  (\<open>linear_stores_nothing\<close> in \<open>Attention\<close>).
\<close>

theorem linear_is_kernel_attention:
  assumes "i < seq" "0 < n"
  shows "linear_attend exact_arith n q k v (takeWhile (\<lambda>j. j \<le> i) [0..<seq]) = map (kernel_mean n q k v [0..<Suc i]) [0..<n] \<and>
    (\<forall>e lo hi. (\<forall>j \<le> i. lo \<le> v j e \<and> v j e \<le> hi) \<longrightarrow>
       lo \<le> kernel_mean n q k v [0..<Suc i] e \<and> kernel_mean n q k v [0..<Suc i] e \<le> hi)"
proof -
  have "takeWhile (\<lambda>j. j \<le> i) [0..<seq] = [0..<Suc i]"
    using takeWhile_upt [of "Suc i" 0 seq] assms(1) by (simp add: less_Suc_eq_le min_def del: upt_Suc)
  moreover have "lo \<le> kernel_mean n q k v [0..<Suc i] e \<and> kernel_mean n q k v [0..<Suc i] e \<le> hi"
    if "\<forall>j \<le> i. lo \<le> v j e \<and> v j e \<le> hi" for e lo hi
    using that by (intro kernel_mean_between assms(2)) (auto simp: less_Suc_eq_le simp del: upt_Suc)
  ultimately show ?thesis unfolding linear_attend_exact by auto
qed

text \<open>Position 2 of 5, equal features: the mean of the values 0, 1 and 2.\<close>

theorem linear_is_kernel_attention_witness:
  "linear_attend exact_arith 1 (\<lambda>_. 0) (\<lambda>_ _. 0) (\<lambda>j _. real j) (takeWhile (\<lambda>j. j \<le> 2) [0..<5]) = [1]"
proof -
  have "linear_attend exact_arith 1 (\<lambda>_. 0) (\<lambda>_ _. 0) (\<lambda>j _. real j) (takeWhile (\<lambda>j. j \<le> 2) [0..<5]) =
      map (kernel_mean 1 (\<lambda>_. 0) (\<lambda>_ _. 0) (\<lambda>j _. real j) [0..<Suc 2]) [0..<1]"
    using linear_is_kernel_attention [of 2 5 1 "\<lambda>_. 0" "\<lambda>_ _. 0" "\<lambda>j _. real j"] by (simp del: upt_Suc)
  then show ?thesis by (simp add: kernel_mean_def feature_def exact_arith_def numeral_2_eq_2)
qed

end
