(* ===== verification/Attention.thy ===== *)
theory Attention
  imports ComputeKernels AttentionMath
begin

text \<open>
  The attention kernels of \<open>src/dxattention/dxattention.cpp\<close> and \<open>AttentionOps\<close>, which dispatches them.

  A dispatch has one thread per query position and head. The algorithms are those of
  \<open>AttentionMath\<close> in the float arithmetic of the device; the index arithmetic is 32 bits wide. The result
  is stated for whole dispatches, from the submission to the end of the wait.
\<close>

section \<open>Kernels\<close>

definition f32_arith :: "float_ops \<Rightarrow> hlsl_ops \<Rightarrow> f32 arith" where
  "f32_arith F X = \<lparr> ar_zero = f32_zero, ar_floor = f32_m1e30, ar_add = fo_add F, ar_sub = fo_sub F, ar_mul = fo_mul F,
    ar_div = fo_div F, ar_max = ho_max X, ar_min = ho_min X, ar_exp = fo_exp F, ar_pos = fo_less F f32_zero \<rparr>"

text \<open>
  \<open>Dispatch(grid_x, grid_y, 1)\<close> of groups of 64: the groups are numbered row by row, a thread's position in
  the grid is \<open>id.x\<close>, \<open>id.y\<close>.
\<close>

definition thread_xy :: "u32 \<Rightarrow> nat \<Rightarrow> u32 \<times> u32" where
  "thread_xy grid_x t = (of_nat (t mod (unat grid_x * 64)), of_nat (t div (unat grid_x * 64)))"

definition kv_head_of :: "u32 \<Rightarrow> u32 \<Rightarrow> u32 \<Rightarrow> u32" where
  "kv_head_of q_head g_num_q_heads g_num_kv_heads =
    min (q_head * g_num_kv_heads div max g_num_q_heads 1) (g_num_kv_heads - 1)"

definition seq_base :: "u32 \<Rightarrow> u32 \<Rightarrow> u32 \<Rightarrow> nat \<Rightarrow> u32" where
  "seq_base head g_seq_len g_head_dim j = (head * g_seq_len + of_nat j) * g_head_dim"

definition cells_at :: "gpu_mem \<Rightarrow> nat \<Rightarrow> u32 \<Rightarrow> nat \<Rightarrow> f32" where
  "cells_at m b base d = m (b, unat (base + of_nat d))"

definition store_row :: "nat \<Rightarrow> u32 \<Rightarrow> u32 \<Rightarrow> (gpu_mem \<Rightarrow> nat \<Rightarrow> f32) \<Rightarrow> gpu_mem \<Rightarrow> gpu_mem" where
  "store_row out base g_head_dim val m =
    fold (\<lambda>d m. m((out, unat (base + of_nat d)) := val m d)) [0..<unat g_head_dim] m"

text \<open>
  The body \<open>sdpa\<close>, \<open>paged_attn\<close> and \<open>h2o_attn\<close> share: the greatest score, the sum, then one entry after the
  other, for which the scores are computed again. They differ in the keys and where these are.
\<close>

definition three_pass ::
  "float_ops \<Rightarrow> hlsl_ops \<Rightarrow> f32 \<Rightarrow> u32 \<Rightarrow> nat \<Rightarrow> nat \<Rightarrow> nat \<Rightarrow> nat \<Rightarrow> u32 \<Rightarrow> (gpu_mem \<Rightarrow> nat \<Rightarrow> u32) \<Rightarrow>
    (gpu_mem \<Rightarrow> nat list) \<Rightarrow> gpu_mem \<Rightarrow> gpu_mem" where
  "three_pass F X g_scale g_head_dim out q k v q_base kv_base keys m =
    (let A = f32_arith F X;
         s = (\<lambda>m. score A (unat g_head_dim) g_scale (cells_at m q q_base) (\<lambda>j. cells_at m k (kv_base m j)));
         max_s = score_max A (s m) (keys m);
         sum = score_sum A (s m) max_s (keys m)
     in store_row out q_base g_head_dim
          (\<lambda>m. weighted A (s m) max_s sum (\<lambda>j. cells_at m v (kv_base m j)) (keys m)) m)"

text \<open>\<open>if (g_causal && j > i) break;\<close> and \<open>if (g_window > 0 && (i > j + g_window)) continue;\<close>\<close>

definition visible :: "u32 \<Rightarrow> u32 \<Rightarrow> u32 \<Rightarrow> u32 \<Rightarrow> nat list" where
  "visible g_causal g_window g_seq_len i =
    filter (\<lambda>j. \<not> (g_window > 0 \<and> i > of_nat j + g_window))
      (takeWhile (\<lambda>j. \<not> (g_causal \<noteq> 0 \<and> of_nat j > i)) [0..<unat g_seq_len])"

definition sdpa_thread ::
  "float_ops \<Rightarrow> hlsl_ops \<Rightarrow> nat \<Rightarrow> nat \<Rightarrow> nat \<Rightarrow> nat \<Rightarrow> u32 \<Rightarrow> u32 \<Rightarrow> u32 \<Rightarrow> u32 \<Rightarrow> f32 \<Rightarrow> u32 \<Rightarrow> u32 \<Rightarrow> u32 \<Rightarrow>
    nat \<Rightarrow> gpu_mem \<Rightarrow> gpu_mem" where
  "sdpa_thread F X out q k v g_seq_len g_head_dim g_num_q_heads g_num_kv_heads g_scale g_causal g_window grid_x t m =
    (let (i, q_head) = thread_xy grid_x t
     in if i \<ge> g_seq_len then m
        else let kv_head = kv_head_of q_head g_num_q_heads g_num_kv_heads
             in three_pass F X g_scale g_head_dim out q k v (seq_base q_head g_seq_len g_head_dim (unat i))
                  (\<lambda>_. seq_base kv_head g_seq_len g_head_dim) (\<lambda>_. visible g_causal g_window g_seq_len i) m)"

definition flash_thread ::
  "float_ops \<Rightarrow> hlsl_ops \<Rightarrow> nat \<Rightarrow> nat \<Rightarrow> nat \<Rightarrow> nat \<Rightarrow> u32 \<Rightarrow> u32 \<Rightarrow> u32 \<Rightarrow> u32 \<Rightarrow> f32 \<Rightarrow> u32 \<Rightarrow> nat \<Rightarrow> gpu_mem \<Rightarrow> gpu_mem" where
  "flash_thread F X out q k v g_seq_len g_head_dim g_num_q_heads g_num_kv_heads g_scale grid_x t m =
    (let (i, q_head) = thread_xy grid_x t
     in if i \<ge> g_seq_len then m
        else if g_head_dim > 128 then m
        else let kv_head = kv_head_of q_head g_num_q_heads g_num_kv_heads;
                 q_base = seq_base q_head g_seq_len g_head_dim (unat i);
                 rows = (\<lambda>b j. cells_at m b (seq_base kv_head g_seq_len g_head_dim j));
                 r = flash_attend (f32_arith F X) (unat g_head_dim) g_scale (cells_at m q q_base) (rows k) (rows v)
                       (unat g_seq_len) (unat i)
             in store_row out q_base g_head_dim (\<lambda>_ d. r ! d) m)"

definition linear_thread ::
  "float_ops \<Rightarrow> hlsl_ops \<Rightarrow> nat \<Rightarrow> nat \<Rightarrow> nat \<Rightarrow> nat \<Rightarrow> u32 \<Rightarrow> u32 \<Rightarrow> u32 \<Rightarrow> u32 \<Rightarrow> u32 \<Rightarrow> nat \<Rightarrow> gpu_mem \<Rightarrow> gpu_mem" where
  "linear_thread F X out q k v g_seq_len g_head_dim g_num_q_heads g_num_kv_heads grid_x t m =
    (let (i, q_head) = thread_xy grid_x t
     in if i \<ge> g_seq_len then m
        else if g_head_dim > 32 then m
        else let kv_head = kv_head_of q_head g_num_q_heads g_num_kv_heads;
                 q_base = seq_base q_head g_seq_len g_head_dim (unat i);
                 rows = (\<lambda>b j. cells_at m b (seq_base kv_head g_seq_len g_head_dim j));
                 r = linear_attend (f32_arith F X) (unat g_head_dim) (cells_at m q q_base) (rows k) (rows v)
                       (takeWhile (\<lambda>j. j \<le> unat i) [0..<unat g_seq_len])
             in store_row out q_base g_head_dim (\<lambda>_ d. r ! d) m)"

text \<open>Where \<open>paged_attn\<close> finds a key: the table names the physical block of the logical one.\<close>

definition paged_base :: "nat \<Rightarrow> u32 \<Rightarrow> u32 \<Rightarrow> u32 \<Rightarrow> u32 \<Rightarrow> gpu_mem \<Rightarrow> nat \<Rightarrow> u32" where
  "paged_base table kv_head g_head_dim g_page_size g_n_blocks m j =
    (let logical_block = of_nat j div g_page_size; in_block = of_nat j mod g_page_size;
         phys = m (table, unat (kv_head * g_n_blocks + logical_block))
     in ((kv_head * g_n_blocks + phys) * g_page_size + in_block) * g_head_dim)"

definition paged_thread ::
  "float_ops \<Rightarrow> hlsl_ops \<Rightarrow> nat \<Rightarrow> nat \<Rightarrow> nat \<Rightarrow> nat \<Rightarrow> nat \<Rightarrow> u32 \<Rightarrow> u32 \<Rightarrow> u32 \<Rightarrow> u32 \<Rightarrow> f32 \<Rightarrow> u32 \<Rightarrow> u32 \<Rightarrow> u32 \<Rightarrow>
    nat \<Rightarrow> gpu_mem \<Rightarrow> gpu_mem" where
  "paged_thread F X out q k v table g_seq_len g_head_dim g_page_size g_n_blocks g_scale g_num_q_heads g_num_kv_heads grid_x t m =
    (let (i, q_head) = thread_xy grid_x t
     in if i \<ge> g_seq_len then m
        else let kv_head = kv_head_of q_head g_num_q_heads g_num_kv_heads
             in three_pass F X g_scale g_head_dim out q k v (seq_base q_head g_seq_len g_head_dim (unat i))
                  (paged_base table kv_head g_head_dim g_page_size g_n_blocks) (\<lambda>_. [0..<unat g_seq_len]) m)"

definition h2o_thread ::
  "float_ops \<Rightarrow> hlsl_ops \<Rightarrow> nat \<Rightarrow> nat \<Rightarrow> nat \<Rightarrow> nat \<Rightarrow> nat \<Rightarrow> u32 \<Rightarrow> u32 \<Rightarrow> u32 \<Rightarrow> u32 \<Rightarrow> f32 \<Rightarrow> u32 \<Rightarrow> nat \<Rightarrow> gpu_mem \<Rightarrow> gpu_mem" where
  "h2o_thread F X out q k v keep g_seq_len g_head_dim g_num_q_heads g_num_kv_heads g_scale grid_x t m =
    (let (i, q_head) = thread_xy grid_x t
     in if i \<ge> g_seq_len then m
        else let kv_head = kv_head_of q_head g_num_q_heads g_num_kv_heads
             in three_pass F X g_scale g_head_dim out q k v (seq_base q_head g_seq_len g_head_dim (unat i))
                  (\<lambda>_. seq_base kv_head g_seq_len g_head_dim) (\<lambda>m. filter (\<lambda>j. m (keep, j) \<noteq> 0) [0..<unat g_seq_len]) m)"

section \<open>\<open>AttentionOps\<close>\<close>

datatype AttentionMechanism = MHA | GQA | MQA | FlashAttention | SlidingWindow | PagedAttention | ChunkedPrefill |
  RingAttention | HeavyHitterH2O | LinearAttention

record AttentionConfig =
  ac_mechanism :: AttentionMechanism
  ac_num_q_heads :: u32
  ac_num_kv_heads :: u32
  ac_head_dim :: u32
  ac_seq_len :: u32
  ac_sliding_window_size :: u32
  ac_page_block_size :: u32
  ac_scale :: f32
  ac_use_quantized_kv :: bool

text \<open>
  \<open>dispatch_attention\<close> up to the dispatch. All kernels are passed the same eight words: length, head size,
  query heads, key heads, scale, causal, window, 0. The cbuffer of \<open>paged_attn\<close> names the third and fourth page
  size and number of blocks, the sixth and seventh query heads and key heads. When no extra
  buffer is passed the kernel reads what happens to be bound, \<open>unbound\<close>.
\<close>

definition dispatch_attention ::
  "float_ops \<Rightarrow> hlsl_ops \<Rightarrow> nat \<Rightarrow> nat \<Rightarrow> nat \<Rightarrow> nat \<Rightarrow> nat \<Rightarrow> AttentionConfig \<Rightarrow> nat option \<Rightarrow> kernel_call" where
  "dispatch_attention F X unbound out q k v cfg extra =
    (let causal = (if ac_mechanism cfg \<in> {FlashAttention, SlidingWindow, PagedAttention, ChunkedPrefill, RingAttention} then 1 else 0);
         window = (if ac_mechanism cfg = SlidingWindow then ac_sliding_window_size cfg else 0);
         w0 = ac_seq_len cfg; w1 = ac_head_dim cfg; w2 = ac_num_q_heads cfg; w3 = ac_num_kv_heads cfg; w4 = ac_scale cfg;
         t3 = (case extra of Some b \<Rightarrow> b | None \<Rightarrow> unbound);
         grid_x = group_count (ac_seq_len cfg)
     in \<lparr> kc_thread = (case ac_mechanism cfg of
            FlashAttention \<Rightarrow> flash_thread F X out q k v w0 w1 w2 w3 w4 grid_x
          | ChunkedPrefill \<Rightarrow> flash_thread F X out q k v w0 w1 w2 w3 w4 grid_x
          | RingAttention \<Rightarrow> flash_thread F X out q k v w0 w1 w2 w3 w4 grid_x
          | LinearAttention \<Rightarrow> linear_thread F X out q k v w0 w1 w2 w3 grid_x
          | PagedAttention \<Rightarrow> paged_thread F X out q k v t3 w0 w1 w2 w3 w4 causal window grid_x
          | HeavyHitterH2O \<Rightarrow> h2o_thread F X out q k v t3 w0 w1 w2 w3 w4 grid_x
          | _ \<Rightarrow> sdpa_thread F X out q k v w0 w1 w2 w3 w4 causal window grid_x),
          kc_groups = grid_x * ac_num_q_heads cfg, kc_size = 64 \<rparr>)"

text \<open>Submission, then \<open>m_fence->wait(m_fence_val)\<close>.\<close>

definition attention_run :: "nat \<Rightarrow> kernel_call \<Rightarrow> nat list \<Rightarrow> ops_host \<Rightarrow> ops_host option" where
  "attention_run e c order h =
    (case ops_submit e c order h of
       None \<Rightarrow> None
     | Some h' \<Rightarrow> map_option (\<lambda>t. h'\<lparr>oh_line := t\<rparr>) (fence_wait exec_call e (oh_vals h' e) (oh_line h')))"

definition default_config :: AttentionConfig where
  "default_config = \<lparr> ac_mechanism = FlashAttention, ac_num_q_heads = 32, ac_num_kv_heads = 8, ac_head_dim = 128, ac_seq_len = 4096,
    ac_sliding_window_size = 4096, ac_page_block_size = 16, ac_scale = 0x3DB504F3, ac_use_quantized_kv = True \<rparr>"

definition scaled_dot_product_attention ::
  "float_ops \<Rightarrow> hlsl_ops \<Rightarrow> nat \<Rightarrow> nat \<Rightarrow> nat \<Rightarrow> nat \<Rightarrow> nat \<Rightarrow> u32 \<Rightarrow> u32 \<Rightarrow> f32 \<Rightarrow> kernel_call" where
  "scaled_dot_product_attention F X unbound out q k v seq_len head_dim scale =
    dispatch_attention F X unbound out q k v
      (default_config\<lparr>ac_mechanism := MHA, ac_num_q_heads := 1, ac_num_kv_heads := 1, ac_head_dim := head_dim,
        ac_seq_len := seq_len, ac_scale := scale\<rparr>) None"

section \<open>What a dispatch computes\<close>

text \<open>Where a configuration stays inside 32-bit indices, the limits of a dispatch and the local arrays.\<close>

definition attention_fits :: "AttentionConfig \<Rightarrow> bool" where
  "attention_fits cfg \<longleftrightarrow>
    unat (ac_seq_len cfg) \<le> 4194240 \<and> unat (ac_num_q_heads cfg) \<le> 65535 \<and> 0 < unat (ac_num_kv_heads cfg) \<and>
    unat (ac_num_q_heads cfg) * unat (ac_seq_len cfg) * unat (ac_head_dim cfg) \<le> 4294967296 \<and>
    unat (ac_num_kv_heads cfg) * unat (ac_seq_len cfg) * unat (ac_head_dim cfg) \<le> 4294967296 \<and>
    (ac_mechanism cfg = SlidingWindow \<longrightarrow> unat (ac_seq_len cfg) + unat (ac_sliding_window_size cfg) < 4294967296) \<and>
    (ac_mechanism cfg \<in> {FlashAttention, ChunkedPrefill, RingAttention} \<longrightarrow> unat (ac_head_dim cfg) \<le> 128) \<and>
    (ac_mechanism cfg = LinearAttention \<longrightarrow> unat (ac_head_dim cfg) \<le> 32)"

definition row_cell :: "gpu_mem \<Rightarrow> nat \<Rightarrow> u32 \<Rightarrow> nat \<Rightarrow> nat \<Rightarrow> f32" where
  "row_cell m b width r d = m (b, r * unat width + d)"

text \<open>
  Where paged attention finds key \<open>j\<close> of key head \<open>kvh\<close>: the sequence is cut into blocks of
  \<open>page_block_size\<close> positions, every key head has as many blocks as the sequence needs, and the block table names
  the physical block of a logical one.
\<close>

definition page_cells :: "nat \<Rightarrow> AttentionConfig \<Rightarrow> u32 \<Rightarrow> gpu_mem \<Rightarrow> nat \<Rightarrow> nat \<Rightarrow> nat \<Rightarrow> f32" where
  "page_cells table cfg kvh m b j =
    (let ps = ac_page_block_size cfg; blocks = of_nat ((unat (ac_seq_len cfg) + unat ps - 1) div unat ps)
     in cells_at m b (paged_base table kvh (ac_head_dim cfg) ps blocks m j))"

text \<open>
  The output row of head \<open>h\<close> and position \<open>i\<close> that the configuration asks for: rows of head \<open>h\<close> are
  \<open>h * seq_len\<close> onwards in the query and output buffers, and so for the shared head in the key and value buffers.
\<close>

definition attention_row ::
  "float_ops \<Rightarrow> hlsl_ops \<Rightarrow> nat \<Rightarrow> nat \<Rightarrow> nat \<Rightarrow> nat \<Rightarrow> AttentionConfig \<Rightarrow> gpu_mem \<Rightarrow> nat \<Rightarrow> nat \<Rightarrow> f32 list" where
  "attention_row F X q k v extra cfg m h i =
    (let A = f32_arith F X; n = unat (ac_head_dim cfg); seq = unat (ac_seq_len cfg);
         kvh = kv_head_of (of_nat h) (ac_num_q_heads cfg) (ac_num_kv_heads cfg);
         query = row_cell m q (ac_head_dim cfg) (h * seq + i);
         key = (\<lambda>j. row_cell m k (ac_head_dim cfg) (unat kvh * seq + j));
         val = (\<lambda>j. row_cell m v (ac_head_dim cfg) (unat kvh * seq + j));
         window = unat (ac_sliding_window_size cfg)
     in case ac_mechanism cfg of
          FlashAttention \<Rightarrow> flash_attend A n (ac_scale cfg) query key val seq i
        | ChunkedPrefill \<Rightarrow> flash_attend A n (ac_scale cfg) query key val seq i
        | RingAttention \<Rightarrow> flash_attend A n (ac_scale cfg) query key val seq i
        | LinearAttention \<Rightarrow> linear_attend A n query key val [0..<Suc i]
        | PagedAttention \<Rightarrow>
            attend A n (ac_scale cfg) query (page_cells extra cfg kvh m k) (page_cells extra cfg kvh m v) [0..<seq]
        | HeavyHitterH2O \<Rightarrow> attend A n (ac_scale cfg) query key val (filter (\<lambda>j. m (extra, j) \<noteq> 0) [0..<seq])
        | SlidingWindow \<Rightarrow> attend A n (ac_scale cfg) query key val (filter (\<lambda>j. window = 0 \<or> i \<le> j + window) [0..<Suc i])
        | _ \<Rightarrow> attend A n (ac_scale cfg) query key val [0..<seq])"

text \<open>
  The row that the dispatched kernel computes. It is the one asked for, except that \<open>paged_attn\<close> reads the constants
  under other names than the dispatcher gives them: the page size is the number of query heads, the
  number of blocks the number of key heads, and the key head is always 0.
\<close>

definition computed_row ::
  "float_ops \<Rightarrow> hlsl_ops \<Rightarrow> nat \<Rightarrow> nat \<Rightarrow> nat \<Rightarrow> nat \<Rightarrow> AttentionConfig \<Rightarrow> gpu_mem \<Rightarrow> nat \<Rightarrow> nat \<Rightarrow> f32 list" where
  "computed_row F X q k v extra cfg m h i =
    (if ac_mechanism cfg = PagedAttention then
       attend (f32_arith F X) (unat (ac_head_dim cfg)) (ac_scale cfg)
         (row_cell m q (ac_head_dim cfg) (h * unat (ac_seq_len cfg) + i))
         (\<lambda>j. cells_at m k (paged_base extra 0 (ac_head_dim cfg) (ac_num_q_heads cfg) (ac_num_kv_heads cfg) m j))
         (\<lambda>j. cells_at m v (paged_base extra 0 (ac_head_dim cfg) (ac_num_q_heads cfg) (ac_num_kv_heads cfg) m j))
         [0..<unat (ac_seq_len cfg)]
     else attention_row F X q k v extra cfg m h i)"

lemma seq_base_nat:
  assumes "unat heads * unat seq * unat width \<le> 4294967296" "unat head < unat heads" "j < unat seq" "d < unat width"
  shows "unat (seq_base head seq width j + of_nat d) = (unat head * unat seq + j) * unat width + d"
proof -
  have "unat head * unat seq + j < unat heads * unat seq" by (rule cell_index_lt [OF assms(2,3)])
  then have "(unat head * unat seq + j) * unat width + d < unat heads * unat seq * unat width" by (rule cell_index_lt [OF _ assms(4)])
  then have "(unat head * unat seq + j) * unat width + d < 4294967296" using assms(1) by linarith
  moreover have "seq_base head seq width j + of_nat d = of_nat ((unat head * unat seq + j) * unat width + d)"
    by (simp add: seq_base_def)
  ultimately show ?thesis by (simp only: u32_thread)
qed

lemma store_row_cells:
  assumes base: "\<And>d. d < unat width \<Longrightarrow> unat (base + of_nat d) = r * unat width + d"
    and val: "\<And>m' d. d < unat width \<Longrightarrow> (\<And>c. fst c \<noteq> out \<Longrightarrow> m' c = m c) \<Longrightarrow> val m' d = w ! d"
  shows "d < unat width \<Longrightarrow> store_row out base width val m (out, r * unat width + d) = w ! d"
    and "c \<notin> (\<lambda>d. (out, r * unat width + d)) ` {..<unat width} \<Longrightarrow> store_row out base width val m c = m c"
proof -
  define loop where "loop k = fold (\<lambda>d m. m((out, unat (base + of_nat d)) := val m d)) [0..<k] m" for k
  have loop: "loop 0 = m" "loop (Suc k) = (loop k)((out, unat (base + of_nat k)) := val (loop k) k)" for k
    by (simp_all add: loop_def)
  have st: "store_row out base width val m = loop (unat width)" by (simp add: store_row_def loop_def)
  have img: "(\<lambda>d. (out, unat (base + of_nat d))) ` {..<unat width} = (\<lambda>d. (out, r * unat width + d)) ` {..<unat width}"
    by (rule image_cong) (simp_all add: base)
  show "c \<notin> (\<lambda>d. (out, r * unat width + d)) ` {..<unat width} \<Longrightarrow> store_row out base width val m c = m c"
    unfolding st loop_def by (rule loop_frame) (simp add: img)
  have "k \<le> unat width \<Longrightarrow> (\<forall>d < k. loop k (out, r * unat width + d) = w ! d) \<and> (\<forall>c. fst c \<noteq> out \<longrightarrow> loop k c = m c)" for k
  proof (induction k)
    case (Suc k)
    have "val (loop k) k = w ! k" by (rule val) (use Suc in auto)
    then show ?case using Suc base [of k] by (auto simp: less_Suc_eq loop)
  qed (simp add: loop)
  then show "d < unat width \<Longrightarrow> store_row out base width val m (out, r * unat width + d) = w ! d" by (simp add: st)
qed

text \<open>A dispatch of a kernel whose thread at position \<open>i\<close> and head \<open>h\<close> stores row \<open>h * seq + i\<close>.\<close>

definition grid_cells :: "nat \<Rightarrow> u32 \<Rightarrow> u32 \<Rightarrow> u32 \<Rightarrow> nat \<Rightarrow> cell set" where
  "grid_cells out seq width grid_x t =
    (let i = t mod (unat grid_x * 64); h = t div (unat grid_x * 64)
     in if i < unat seq then (\<lambda>d. (out, (h * unat seq + i) * unat width + d)) ` {..<unat width} else {})"

lemma grid_cells_apart:
  assumes "s \<noteq> t" shows "grid_cells out seq width grid s \<inter> grid_cells out seq width grid t = {}"
proof -
  define g where "g = unat grid * 64"
  have no: False if "c \<in> grid_cells out seq width grid s" "c \<in> grid_cells out seq width grid t" for c
  proof -
    from that(1) obtain d where d: "s mod g < unat seq" "d < unat width" "c = (out, (s div g * unat seq + s mod g) * unat width + d)"
      unfolding grid_cells_def Let_def g_def [symmetric] by (auto split: if_split_asm)
    from that(2) obtain e where e: "t mod g < unat seq" "e < unat width" "c = (out, (t div g * unat seq + t mod g) * unat width + e)"
      unfolding grid_cells_def Let_def g_def [symmetric] by (auto split: if_split_asm)
    from d(3) e(3) have "(s div g * unat seq + s mod g) * unat width + d = (t div g * unat seq + t mod g) * unat width + e" by blast
    from cell_index_inj [OF d(2) e(2) this] have "s div g * unat seq + s mod g = t div g * unat seq + t mod g" by blast
    from cell_index_inj [OF d(1) e(1) this] have "s div g = t div g" "s mod g = t mod g" by blast+
    then have "s = t" by (metis div_mult_mod_eq)
    then show False using assms by blast
  qed
  then show ?thesis by blast
qed

lemma grid_dispatch:
  assumes seq: "unat seq \<le> 4194240" and heads: "unat heads \<le> 65535"
    and order: "schedule (group_count seq * heads) order"
    and frame: "\<And>t m c. t < unat (group_count seq) * unat heads * 64 \<Longrightarrow> c \<notin> grid_cells out seq width (group_count seq) t \<Longrightarrow>
      thread t m c = m c"
    and at: "\<And>t m d. t < unat (group_count seq) * unat heads * 64 \<Longrightarrow> t mod (unat (group_count seq) * 64) < unat seq \<Longrightarrow>
      d < unat width \<Longrightarrow> thread t m (out, (t div (unat (group_count seq) * 64) * unat seq + t mod (unat (group_count seq) * 64)) * unat width + d) =
        w m (t div (unat (group_count seq) * 64)) (t mod (unat (group_count seq) * 64)) ! d"
    and local: "\<And>m m' h i. (\<And>c. fst c \<noteq> out \<Longrightarrow> m c = m' c) \<Longrightarrow> w m h i = w m' h i"
  shows "h < unat heads \<Longrightarrow> i < unat seq \<Longrightarrow> d < unat width \<Longrightarrow>
      dispatch thread order m (out, (h * unat seq + i) * unat width + d) = w m h i ! d"
    and "(\<And>r d. r < unat heads * unat seq \<Longrightarrow> d < unat width \<Longrightarrow> c \<noteq> (out, r * unat width + d)) \<Longrightarrow> dispatch thread order m c = m c"
proof -
  let ?g = "group_count seq" and ?cells = "grid_cells out seq width (group_count seq)"
  have s': "unat seq \<le> 4294967232" using seq by simp
  note gc = group_count_covers [OF s']
  have g: "unat ?g \<le> 65535" using gc(2) seq by linarith
  have "unat ?g * unat heads \<le> 65535 * 65535" by (rule mult_le_mono [OF g heads])
  then have gh: "unat (?g * heads) = unat ?g * unat heads" by (intro u32_mult_unat) simp
  define bound where "bound = unat ?g * unat heads * 64"
  have D: "disjoint_threads thread ?cells (\<lambda>_. {c. fst c \<noteq> out}) bound"
  proof (unfold_locales, goal_cases)
    case (1 t c m)
    then show ?case using frame by (simp add: bound_def)
  next
    case (2 t m m' c)
    then obtain d where c: "t mod (unat ?g * 64) < unat seq" "d < unat width"
        "c = (out, (t div (unat ?g * 64) * unat seq + t mod (unat ?g * 64)) * unat width + d)"
      by (auto simp: grid_cells_def Let_def split: if_splits)
    show ?case unfolding c(3) at [OF 2(1) [unfolded bound_def] c(1,2)] using local [of m m'] 2(2) by simp
  next
    case (3 s t)
    have "?cells s \<inter> {c. fst c \<noteq> out} = {}" by (auto simp: grid_cells_def Let_def)
    then show ?case using grid_cells_apart [OF 3(3)] by blast
  qed
  have b: "unat (?g * heads) * 64 \<le> bound" by (simp add: gh bound_def)
  show "dispatch thread order m (out, (h * unat seq + i) * unat width + d) = w m h i ! d"
    if h: "h < unat heads" and i: "i < unat seq" and d: "d < unat width"
  proof -
    define t where "t = h * (unat ?g * 64) + i"
    have ig: "i < unat ?g * 64" using i gc(1) by linarith
    then have t: "t div (unat ?g * 64) = h" "t mod (unat ?g * 64) = i" by (simp_all add: t_def)
    have "t < unat heads * (unat ?g * 64)" unfolding t_def by (rule cell_index_lt [OF h ig])
    then have tb: "t < unat ?g * unat heads * 64" by (simp add: ac_simps)
    have c: "(out, (h * unat seq + i) * unat width + d) \<in> ?cells t" using i d by (simp add: grid_cells_def Let_def t)
    have "dispatch thread order m (out, (h * unat seq + i) * unat width + d) = thread t m (out, (h * unat seq + i) * unat width + d)"
      by (rule disjoint_threads.schedule_writes [OF D order b _ c]) (simp add: gh tb)
    then show ?thesis using at [OF tb, of d m] i d by (simp add: t)
  qed
  show "dispatch thread order m c = m c" if c: "\<And>r d. r < unat heads * unat seq \<Longrightarrow> d < unat width \<Longrightarrow> c \<noteq> (out, r * unat width + d)"
  proof (rule disjoint_threads.schedule_frame [OF D order b])
    fix t assume "t < unat (?g * heads) * 64"
    then have "t < unat heads * (unat ?g * 64)" unfolding gh by (simp only: ac_simps)
    then have h: "t div (unat ?g * 64) < unat heads" by (simp add: less_mult_imp_div_less)
    show "c \<notin> ?cells t"
      unfolding grid_cells_def Let_def using c cell_index_lt [OF h] by (auto split: if_splits)
  qed
qed

section \<open>The kernels store their rows\<close>

abbreviation same_but :: "nat \<Rightarrow> gpu_mem \<Rightarrow> gpu_mem \<Rightarrow> bool" where
  "same_but out m m' \<equiv> \<forall>c. fst c \<noteq> out \<longrightarrow> m c = m' c"

lemma cells_at_same: "same_but out m' m \<Longrightarrow> b \<noteq> out \<Longrightarrow> cells_at m' b base = cells_at m b base"
  by (simp add: cells_at_def fun_eq_iff)

lemma row_cell_same: "same_but out m' m \<Longrightarrow> b \<noteq> out \<Longrightarrow> row_cell m' b width r = row_cell m b width r"
  by (simp add: row_cell_def fun_eq_iff)

lemma three_pass_cells:
  assumes base: "\<And>d. d < unat n \<Longrightarrow> unat (q_base + of_nat d) = r * unat n + d"
    and bufs: "q \<noteq> out" "k \<noteq> out" "v \<noteq> out"
    and same: "\<And>m'. same_but out m' m \<Longrightarrow> kv_base m' = kv_base m \<and> keys m' = keys m"
  shows "d < unat n \<Longrightarrow> three_pass F X scale n out q k v q_base kv_base keys m (out, r * unat n + d) =
      attend (f32_arith F X) (unat n) scale (cells_at m q q_base) (\<lambda>j. cells_at m k (kv_base m j))
        (\<lambda>j. cells_at m v (kv_base m j)) (keys m) ! d"
    and "c \<notin> (\<lambda>d. (out, r * unat n + d)) ` {..<unat n} \<Longrightarrow> three_pass F X scale n out q k v q_base kv_base keys m c = m c"
proof -
  define s where "s m = score (f32_arith F X) (unat n) scale (cells_at m q q_base) (\<lambda>j. cells_at m k (kv_base m j))" for m
  define max_s where "max_s = score_max (f32_arith F X) (s m) (keys m)"
  define sum where "sum = score_sum (f32_arith F X) (s m) max_s (keys m)"
  define val where "val m = weighted (f32_arith F X) (s m) max_s sum (\<lambda>j. cells_at m v (kv_base m j)) (keys m)" for m
  have t: "three_pass F X scale n out q k v q_base kv_base keys m = store_row out q_base n val m"
    unfolding three_pass_def Let_def val_def sum_def max_s_def s_def ..
  define w where "w = attend (f32_arith F X) (unat n) scale (cells_at m q q_base) (\<lambda>j. cells_at m k (kv_base m j))
        (\<lambda>j. cells_at m v (kv_base m j)) (keys m)"
  have w: "w = map (val m) [0..<unat n]" unfolding w_def attend_def Let_def val_def sum_def max_s_def s_def ..
  have val: "val m' d = w ! d" if d: "d < unat n" and "\<And>c. fst c \<noteq> out \<Longrightarrow> m' c = m c" for m' d
  proof -
    have sm: "same_but out m' m" using that(2) by blast
    have "val m' = val m"
      unfolding val_def s_def same [OF sm, THEN conjunct1] same [OF sm, THEN conjunct2]
      using cells_at_same [OF sm bufs(1)] cells_at_same [OF sm bufs(2)] cells_at_same [OF sm bufs(3)] by simp
    then show ?thesis using d by (simp add: w)
  qed
  show "d < unat n \<Longrightarrow> three_pass F X scale n out q k v q_base kv_base keys m (out, r * unat n + d) =
      attend (f32_arith F X) (unat n) scale (cells_at m q q_base) (\<lambda>j. cells_at m k (kv_base m j))
        (\<lambda>j. cells_at m v (kv_base m j)) (keys m) ! d"
    unfolding t w_def [symmetric] by (rule store_row_cells(1) [OF base val]) auto
  show "c \<notin> (\<lambda>d. (out, r * unat n + d)) ` {..<unat n} \<Longrightarrow> three_pass F X scale n out q k v q_base kv_base keys m c = m c"
    unfolding t by (rule store_row_cells(2) [OF base val]) auto
qed

lemma kv_head_lt: "0 < unat nkv \<Longrightarrow> unat (kv_head_of h nq nkv) < unat nkv"
proof -
  assume n: "0 < unat nkv"
  have "kv_head_of h nq nkv \<le> nkv - 1" unfolding kv_head_of_def by (rule min.cobounded2)
  then have "unat (kv_head_of h nq nkv) \<le> unat (nkv - 1)" by (simp add: word_le_nat_alt)
  also have "unat (nkv - 1) < unat nkv" using n by (simp add: unat_minus_one unat_gt_0)
  finally show ?thesis .
qed

text \<open>The position and the head of thread \<open>t\<close> of a dispatch that fits.\<close>

lemma thread_place:
  assumes "unat seq \<le> 4194240" "unat heads \<le> 65535" "t < unat (group_count seq) * unat heads * 64"
  shows "thread_xy (group_count seq) t = (of_nat (t mod (unat (group_count seq) * 64)), of_nat (t div (unat (group_count seq) * 64)))"
    and "unat (of_nat (t mod (unat (group_count seq) * 64)) :: u32) = t mod (unat (group_count seq) * 64)"
    and "unat (of_nat (t div (unat (group_count seq) * 64)) :: u32) = t div (unat (group_count seq) * 64)"
    and "t div (unat (group_count seq) * 64) < unat heads"
proof -
  let ?g = "unat (group_count seq)"
  have g: "?g * 64 < unat seq + 64" by (rule group_count_covers(2)) (use assms(1) in simp)
  have "t < unat heads * (?g * 64)" using assms(3) by (simp only: ac_simps)
  then show h: "t div (?g * 64) < unat heads" by (rule less_mult_imp_div_less)
  have "0 < ?g * 64" using assms(3) by (cases "?g = 0") auto
  then have "t mod (?g * 64) < ?g * 64" by (rule mod_less_divisor)
  then have "t mod (?g * 64) < 4294967296" using g assms(1) by linarith
  then show "unat (of_nat (t mod (?g * 64)) :: u32) = t mod (?g * 64)" by (rule u32_thread)
  have "t div (?g * 64) < 4294967296" using h assms(2) by linarith
  then show "unat (of_nat (t div (?g * 64)) :: u32) = t div (?g * 64)" by (rule u32_thread)
qed (simp add: thread_xy_def)

text \<open>The keys of the four ways of masking.\<close>

lemma visible_all: "visible 0 0 seq i = [0..<unat seq]"
  by (simp add: visible_def)

lemma visible_window:
  assumes "unat seq + unat window < 4294967296" "unat i < unat seq"
  shows "visible 1 window seq i = filter (\<lambda>j. unat window = 0 \<or> unat i \<le> j + unat window) [0..<Suc (unat i)]"
proof -
  have a: "(of_nat j > i) = (\<not> j < Suc (unat i))" if "j < unat seq" for j
    using that assms(1) by (simp add: word_less_nat_alt u32_thread not_le less_Suc_eq_le not_less)
  have "takeWhile (\<lambda>j. \<not> ((1 :: u32) \<noteq> 0 \<and> of_nat j > i)) [0..<unat seq] = takeWhile (\<lambda>j. j < Suc (unat i)) [0..<unat seq]"
    by (rule takeWhile_cong [OF refl]) (simp add: a)
  also have "\<dots> = [0..<Suc (unat i)]" using assms(2) by (simp add: takeWhile_upt min_def del: upt_Suc)
  finally have t: "takeWhile (\<lambda>j. \<not> ((1 :: u32) \<noteq> 0 \<and> of_nat j > i)) [0..<unat seq] = [0..<Suc (unat i)]" .
  have b: "(\<not> (window > 0 \<and> i > of_nat j + window)) = (unat window = 0 \<or> unat i \<le> j + unat window)" if "j \<in> set [0..<Suc (unat i)]" for j
  proof -
    have "j \<le> unat i" using that by auto
    then have "j + unat window < 4294967296" using assms by linarith
    then have "unat (of_nat (j + unat window) :: u32) = j + unat window" by (rule u32_thread)
    then have "unat (of_nat j + window) = j + unat window" by simp
    then show ?thesis by (auto simp: word_less_nat_alt not_less)
  qed
  show ?thesis unfolding visible_def t by (rule filter_cong [OF refl b])
qed

lemma visible_below: "set (visible causal window seq i) \<subseteq> {..<unat seq}"
  unfolding visible_def by (auto dest: set_takeWhileD)

lemma takeWhile_le: "i < n \<Longrightarrow> takeWhile (\<lambda>j. j \<le> i) [0..<n] = [0..<Suc i]"
  using takeWhile_upt [of "Suc i" 0 n] by (simp add: less_Suc_eq_le min_def del: upt_Suc)

lemma cells_at_row:
  assumes "unat heads * unat seq * unat n \<le> 4294967296" "unat head < unat heads" "j < unat seq" "d < unat n"
  shows "cells_at m b (seq_base head seq n j) d = row_cell m b n (unat head * unat seq + j) d"
  by (simp add: cells_at_def row_cell_def seq_base_nat [OF assms])

text \<open>The bounds and buffers of a configuration, for position \<open>i\<close> of head \<open>h\<close>.\<close>

definition row_fits :: "u32 \<Rightarrow> u32 \<Rightarrow> u32 \<Rightarrow> u32 \<Rightarrow> u32 \<Rightarrow> u32 \<Rightarrow> bool" where
  "row_fits seq n nq nkv i h \<longleftrightarrow>
    unat nq * unat seq * unat n \<le> 4294967296 \<and> unat nkv * unat seq * unat n \<le> 4294967296 \<and> 0 < unat nkv \<and>
    unat i < unat seq \<and> unat h < unat nq"

lemma row_fitsD:
  assumes "row_fits seq n nq nkv i h"
  shows "unat nq * unat seq * unat n \<le> 4294967296" "unat h < unat nq" "unat i < unat seq"
    and "unat nkv * unat seq * unat n \<le> 4294967296" "unat (kv_head_of h nq nkv) < unat nkv"
  using assms kv_head_lt [of nkv h nq] by (simp_all add: row_fits_def)

lemma seq_three_pass:
  assumes fits: "row_fits seq n nq nkv i h" and bufs: "q \<noteq> out" "k \<noteq> out" "v \<noteq> out"
    and keys: "\<And>m'. same_but out m' m \<Longrightarrow> keys m' = keys m" "set (keys m) \<subseteq> {..<unat seq}"
  defines "r \<equiv> unat h * unat seq + unat i" and "kvh \<equiv> kv_head_of h nq nkv"
  shows "d < unat n \<Longrightarrow> three_pass F X scale n out q k v (seq_base h seq n (unat i)) (\<lambda>_. seq_base kvh seq n) keys m (out, r * unat n + d) =
      attend (f32_arith F X) (unat n) scale (row_cell m q n r) (\<lambda>j. row_cell m k n (unat kvh * unat seq + j))
        (\<lambda>j. row_cell m v n (unat kvh * unat seq + j)) (keys m) ! d"
    and "c \<notin> (\<lambda>d. (out, r * unat n + d)) ` {..<unat n} \<Longrightarrow>
      three_pass F X scale n out q k v (seq_base h seq n (unat i)) (\<lambda>_. seq_base kvh seq n) keys m c = m c"
proof -
  note f = row_fitsD [OF fits]
  have base: "unat (seq_base h seq n (unat i) + of_nat d) = r * unat n + d" if "d < unat n" for d
    unfolding r_def by (rule seq_base_nat [OF f(1-3) that])
  have q: "cells_at m q (seq_base h seq n (unat i)) d = row_cell m q n r d" if "d < unat n" for d
    unfolding r_def by (rule cells_at_row [OF f(1-3) that])
  have kv: "cells_at m k (seq_base kvh seq n j) d = row_cell m k n (unat kvh * unat seq + j) d \<and>
      cells_at m v (seq_base kvh seq n j) d = row_cell m v n (unat kvh * unat seq + j) d" if "j \<in> set (keys m)" "d < unat n" for j d
    using that keys(2) cells_at_row [OF f(4,5), of j d m] unfolding kvh_def by blast
  have a: "attend (f32_arith F X) (unat n) scale (cells_at m q (seq_base h seq n (unat i))) (\<lambda>j. cells_at m k (seq_base kvh seq n j))
        (\<lambda>j. cells_at m v (seq_base kvh seq n j)) (keys m) =
      attend (f32_arith F X) (unat n) scale (row_cell m q n r) (\<lambda>j. row_cell m k n (unat kvh * unat seq + j))
        (\<lambda>j. row_cell m v n (unat kvh * unat seq + j)) (keys m)"
    by (rule attend_cong [OF q kv])
  show "d < unat n \<Longrightarrow> three_pass F X scale n out q k v (seq_base h seq n (unat i)) (\<lambda>_. seq_base kvh seq n) keys m (out, r * unat n + d) =
      attend (f32_arith F X) (unat n) scale (row_cell m q n r) (\<lambda>j. row_cell m k n (unat kvh * unat seq + j))
        (\<lambda>j. row_cell m v n (unat kvh * unat seq + j)) (keys m) ! d"
    unfolding a [symmetric]
    by (rule three_pass_cells(1) [where kv_base = "\<lambda>_. seq_base kvh seq n" and keys = keys, OF base bufs]) (use keys(1) in blast)+
  show "c \<notin> (\<lambda>d. (out, r * unat n + d)) ` {..<unat n} \<Longrightarrow>
      three_pass F X scale n out q k v (seq_base h seq n (unat i)) (\<lambda>_. seq_base kvh seq n) keys m c = m c"
    by (rule three_pass_cells(2) [where kv_base = "\<lambda>_. seq_base kvh seq n" and keys = keys, OF base bufs]) (use keys(1) in blast)+
qed

text \<open>The kernels with a result computed before the first store.\<close>

lemma store_result:
  assumes fits: "row_fits seq n nq nkv i h" and w: "length w = unat n"
  defines "r \<equiv> unat h * unat seq + unat i"
  shows "d < unat n \<Longrightarrow> store_row out (seq_base h seq n (unat i)) n (\<lambda>_ d. w ! d) m (out, r * unat n + d) = w ! d"
    and "c \<notin> (\<lambda>d. (out, r * unat n + d)) ` {..<unat n} \<Longrightarrow> store_row out (seq_base h seq n (unat i)) n (\<lambda>_ d. w ! d) m c = m c"
proof -
  note f = row_fitsD [OF fits]
  have base: "unat (seq_base h seq n (unat i) + of_nat d) = r * unat n + d" if "d < unat n" for d
    unfolding r_def by (rule seq_base_nat [OF f(1-3) that])
  show "d < unat n \<Longrightarrow> store_row out (seq_base h seq n (unat i)) n (\<lambda>_ d. w ! d) m (out, r * unat n + d) = w ! d"
    by (rule store_row_cells(1) [OF base]) auto
  show "c \<notin> (\<lambda>d. (out, r * unat n + d)) ` {..<unat n} \<Longrightarrow> store_row out (seq_base h seq n (unat i)) n (\<lambda>_ d. w ! d) m c = m c"
    by (rule store_row_cells(2) [OF base refl])
qed

lemma flash_row_of:
  assumes fits: "row_fits seq n nq nkv i h"
  defines "r \<equiv> unat h * unat seq + unat i" and "kvh \<equiv> kv_head_of h nq nkv"
  shows "flash_attend A (unat n) scale (cells_at m q (seq_base h seq n (unat i))) (\<lambda>j. cells_at m k (seq_base kvh seq n j))
      (\<lambda>j. cells_at m v (seq_base kvh seq n j)) (unat seq) (unat i) =
    flash_attend A (unat n) scale (row_cell m q n r) (\<lambda>j. row_cell m k n (unat kvh * unat seq + j))
      (\<lambda>j. row_cell m v n (unat kvh * unat seq + j)) (unat seq) (unat i)"
    and "linear_attend A (unat n) (cells_at m q (seq_base h seq n (unat i))) (\<lambda>j. cells_at m k (seq_base kvh seq n j))
      (\<lambda>j. cells_at m v (seq_base kvh seq n j)) [0..<Suc (unat i)] =
    linear_attend A (unat n) (row_cell m q n r) (\<lambda>j. row_cell m k n (unat kvh * unat seq + j))
      (\<lambda>j. row_cell m v n (unat kvh * unat seq + j)) [0..<Suc (unat i)]"
proof -
  note f = row_fitsD [OF fits]
  have q: "cells_at m q (seq_base h seq n (unat i)) d = row_cell m q n r d" if "d < unat n" for d
    unfolding r_def by (rule cells_at_row [OF f(1-3) that])
  have kv: "cells_at m k (seq_base kvh seq n j) d = row_cell m k n (unat kvh * unat seq + j) d \<and>
      cells_at m v (seq_base kvh seq n j) d = row_cell m v n (unat kvh * unat seq + j) d" if "j < unat seq" "d < unat n" for j d
    using that cells_at_row [OF f(4,5), of j d m] unfolding kvh_def by blast
  show "flash_attend A (unat n) scale (cells_at m q (seq_base h seq n (unat i))) (\<lambda>j. cells_at m k (seq_base kvh seq n j))
      (\<lambda>j. cells_at m v (seq_base kvh seq n j)) (unat seq) (unat i) =
    flash_attend A (unat n) scale (row_cell m q n r) (\<lambda>j. row_cell m k n (unat kvh * unat seq + j))
      (\<lambda>j. row_cell m v n (unat kvh * unat seq + j)) (unat seq) (unat i)"
    by (rule flash_attend_cong [OF q kv])
  have js: "j < unat seq" if "j \<in> set [0..<Suc (unat i)]" for j using that f(3) by auto
  show "linear_attend A (unat n) (cells_at m q (seq_base h seq n (unat i))) (\<lambda>j. cells_at m k (seq_base kvh seq n j))
      (\<lambda>j. cells_at m v (seq_base kvh seq n j)) [0..<Suc (unat i)] =
    linear_attend A (unat n) (row_cell m q n r) (\<lambda>j. row_cell m k n (unat kvh * unat seq + j))
      (\<lambda>j. row_cell m v n (unat kvh * unat seq + j)) [0..<Suc (unat i)]"
    by (rule linear_attend_cong [OF q kv [OF js]])
qed

lemma paged_three_pass:
  fixes kvh page blocks :: u32
  assumes fits: "row_fits seq n nq nkv i h" and bufs: "q \<noteq> out" "k \<noteq> out" "v \<noteq> out" "table \<noteq> out"
  defines "r \<equiv> unat h * unat seq + unat i" and "base \<equiv> paged_base table kvh n page blocks"
  shows "d < unat n \<Longrightarrow> three_pass F X scale n out q k v (seq_base h seq n (unat i)) base (\<lambda>_. js) m (out, r * unat n + d) =
      attend (f32_arith F X) (unat n) scale (row_cell m q n r) (\<lambda>j. cells_at m k (base m j)) (\<lambda>j. cells_at m v (base m j)) js ! d"
    and "c \<notin> (\<lambda>d. (out, r * unat n + d)) ` {..<unat n} \<Longrightarrow>
      three_pass F X scale n out q k v (seq_base h seq n (unat i)) base (\<lambda>_. js) m c = m c"
proof -
  note f = row_fitsD [OF fits]
  have sb: "unat (seq_base h seq n (unat i) + of_nat d) = r * unat n + d" if "d < unat n" for d
    unfolding r_def by (rule seq_base_nat [OF f(1-3) that])
  have same: "base m' = base m" if "same_but out m' m" for m'
    unfolding base_def paged_base_def fun_eq_iff Let_def using that bufs(4) by simp
  have q: "cells_at m q (seq_base h seq n (unat i)) d = row_cell m q n r d" if "d < unat n" for d
    unfolding r_def by (rule cells_at_row [OF f(1-3) that])
  have a: "attend (f32_arith F X) (unat n) scale (cells_at m q (seq_base h seq n (unat i))) (\<lambda>j. cells_at m k (base m j))
        (\<lambda>j. cells_at m v (base m j)) js =
      attend (f32_arith F X) (unat n) scale (row_cell m q n r) (\<lambda>j. cells_at m k (base m j)) (\<lambda>j. cells_at m v (base m j)) js"
    by (rule attend_cong [OF q]) simp_all
  show "d < unat n \<Longrightarrow> three_pass F X scale n out q k v (seq_base h seq n (unat i)) base (\<lambda>_. js) m (out, r * unat n + d) =
      attend (f32_arith F X) (unat n) scale (row_cell m q n r) (\<lambda>j. cells_at m k (base m j)) (\<lambda>j. cells_at m v (base m j)) js ! d"
    unfolding a [symmetric]
    by (rule three_pass_cells(1) [where kv_base = base and keys = "\<lambda>_. js", OF sb bufs(1-3)]) (use same in blast)+
  show "c \<notin> (\<lambda>d. (out, r * unat n + d)) ` {..<unat n} \<Longrightarrow>
      three_pass F X scale n out q k v (seq_base h seq n (unat i)) base (\<lambda>_. js) m c = m c"
    by (rule three_pass_cells(2) [where kv_base = base and keys = "\<lambda>_. js", OF sb bufs(1-3)]) (use same in blast)+
qed

lemma computed_row_local:
  assumes "q \<noteq> out" "k \<noteq> out" "v \<noteq> out" "extra \<noteq> out" "\<And>c. fst c \<noteq> out \<Longrightarrow> m c = m' c"
  shows "computed_row F X q k v extra cfg m h i = computed_row F X q k v extra cfg m' h i"
proof -
  have sm: "same_but out m m'" using assms(5) by blast
  have ex: "m (extra, j) = m' (extra, j)" for j using assms(4,5) by simp
  have pb: "paged_base extra kh n p b m = paged_base extra kh n p b m'" for kh n p b
    by (simp add: fun_eq_iff paged_base_def Let_def ex)
  show ?thesis unfolding computed_row_def attention_row_def page_cells_def Let_def
    by (simp only: row_cell_same [OF sm assms(1)] row_cell_same [OF sm assms(2)] row_cell_same [OF sm assms(3)] ex pb
      cells_at_same [OF sm assms(2)] cells_at_same [OF sm assms(3)])
qed

lemma attention_thread_row:
  fixes F X
  assumes fits: "attention_fits cfg" and bufs: "q \<noteq> out" "k \<noteq> out" "v \<noteq> out" "case_option unbound id extra \<noteq> out"
    and xy: "thread_xy (group_count (ac_seq_len cfg)) t = (i, h)" and h: "unat h < unat (ac_num_q_heads cfg)"
  defines "thread \<equiv> kc_thread (dispatch_attention F X unbound out q k v cfg extra)"
    and "r \<equiv> unat h * unat (ac_seq_len cfg) + unat i" and "n \<equiv> unat (ac_head_dim cfg)"
  shows "\<not> unat i < unat (ac_seq_len cfg) \<Longrightarrow> thread t m = m"
    and "unat i < unat (ac_seq_len cfg) \<Longrightarrow> d < n \<Longrightarrow>
      thread t m (out, r * n + d) = computed_row F X q k v (case_option unbound id extra) cfg m (unat h) (unat i) ! d"
    and "unat i < unat (ac_seq_len cfg) \<Longrightarrow> c \<notin> (\<lambda>d. (out, r * n + d)) ` {..<n} \<Longrightarrow> thread t m c = m c"
proof -
  let ?seq = "ac_seq_len cfg" and ?n = "ac_head_dim cfg" and ?nq = "ac_num_q_heads cfg" and ?nkv = "ac_num_kv_heads cfg"
  let ?x = "case_option unbound id extra"
  have x: "(case extra of None \<Rightarrow> unbound | Some b \<Rightarrow> b) = ?x" by (cases extra) simp_all
  have idle: "?seq \<le> i \<longleftrightarrow> \<not> unat i < unat ?seq" by (simp add: word_le_nat_alt not_less)
  have hh: "of_nat (unat h) = h" by simp
  have fl: "\<not> 128 < ?n" if "ac_mechanism cfg \<in> {FlashAttention, ChunkedPrefill, RingAttention}"
    using fits that by (auto simp: attention_fits_def word_less_nat_alt not_less)
  have li: "\<not> 32 < ?n" if "ac_mechanism cfg = LinearAttention"
    using fits that by (simp add: attention_fits_def word_less_nat_alt not_less)
  have wi: "unat ?seq + unat (ac_sliding_window_size cfg) < 4294967296" if "ac_mechanism cfg = SlidingWindow"
    using fits that by (simp add: attention_fits_def)
  have kv0: "kv_head_of h 1 0 = 0" by (simp add: kv_head_of_def)
  note defs = thread_def dispatch_attention_def Let_def sdpa_thread_def flash_thread_def linear_thread_def paged_thread_def
    h2o_thread_def xy idle x
  show "thread t m = m" if "\<not> unat i < unat ?seq"
    using that by (cases "ac_mechanism cfg") (simp_all add: defs)
  let ?w = "computed_row F X q k v ?x cfg m (unat h) (unat i)" and ?kvh = "kv_head_of h ?nq ?nkv"
  let ?cells = "(\<lambda>d. (out, r * n + d)) ` {..<n}"
  have res: "(\<forall>d < n. thread t m (out, r * n + d) = ?w ! d) \<and> (\<forall>c. c \<notin> ?cells \<longrightarrow> thread t m c = m c)"
    if i: "unat i < unat ?seq"
  proof -
    have rf: "row_fits ?seq ?n ?nq ?nkv i h" using fits i h by (simp add: attention_fits_def row_fits_def)
    have masked: ?thesis if th: "thread t m = three_pass F X (ac_scale cfg) ?n out q k v (seq_base h ?seq ?n (unat i)) (\<lambda>_. seq_base ?kvh ?seq ?n) keys m"
        and w: "?w = attend (f32_arith F X) n (ac_scale cfg) (row_cell m q ?n r) (\<lambda>j. row_cell m k ?n (unat ?kvh * unat ?seq + j))
          (\<lambda>j. row_cell m v ?n (unat ?kvh * unat ?seq + j)) (keys m)"
        and keys: "\<And>m'. same_but out m' m \<Longrightarrow> keys m' = keys m" "set (keys m) \<subseteq> {..<unat ?seq}" for keys
      unfolding th w r_def n_def using seq_three_pass [OF rf bufs(1-3), where keys = keys and m = m] keys by blast
    have stored: ?thesis if th: "thread t m = store_row out (seq_base h ?seq ?n (unat i)) ?n (\<lambda>_ d. w ! d) m"
        and w: "?w = w" "length w = n" for w
      unfolding th w(1) r_def n_def using store_result [OF rf w(2) [unfolded n_def]] by blast
    have vis: "visible 1 (ac_sliding_window_size cfg) ?seq i = filter (\<lambda>j. unat (ac_sliding_window_size cfg) = 0 \<or> unat i \<le> j + unat (ac_sliding_window_size cfg)) [0..<Suc (unat i)]"
      if "ac_mechanism cfg = SlidingWindow" by (rule visible_window [OF wi [OF that] i])
    note fr = flash_row_of [OF rf, folded n_def r_def]
    note row = computed_row_def attention_row_def Let_def hh r_def [symmetric] n_def [symmetric]
    show ?thesis
    proof (cases "ac_mechanism cfg")
      case MHA
      show ?thesis by (rule masked [where keys = "\<lambda>_. [0..<unat ?seq]"]) (auto simp: defs i MHA row visible_all)
    next
      case GQA
      show ?thesis by (rule masked [where keys = "\<lambda>_. [0..<unat ?seq]"]) (auto simp: defs i GQA row visible_all)
    next
      case MQA
      show ?thesis by (rule masked [where keys = "\<lambda>_. [0..<unat ?seq]"]) (auto simp: defs i MQA row visible_all)
    next
      case SlidingWindow
      show ?thesis
      proof (rule masked [where keys = "\<lambda>_. visible 1 (ac_sliding_window_size cfg) ?seq i"])
        show "?w = attend (f32_arith F X) n (ac_scale cfg) (row_cell m q ?n r) (\<lambda>j. row_cell m k ?n (unat ?kvh * unat ?seq + j))
          (\<lambda>j. row_cell m v ?n (unat ?kvh * unat ?seq + j)) (visible 1 (ac_sliding_window_size cfg) ?seq i)"
          unfolding vis [OF SlidingWindow] by (simp add: SlidingWindow row del: upt_Suc)
      qed (simp_all add: defs i SlidingWindow visible_below)
    next
      case HeavyHitterH2O
      show ?thesis
        by (rule masked [where keys = "\<lambda>m. filter (\<lambda>j. m (?x, j) \<noteq> 0) [0..<unat ?seq]"])
          (use bufs(4) in \<open>auto simp: defs i HeavyHitterH2O row\<close>)
    next
      case FlashAttention
      show ?thesis by (rule stored [OF _ _ attend_lengths(2)]) (simp_all add: defs i FlashAttention fl row fr)
    next
      case ChunkedPrefill
      show ?thesis by (rule stored [OF _ _ attend_lengths(2)]) (simp_all add: defs i ChunkedPrefill fl row fr)
    next
      case RingAttention
      show ?thesis by (rule stored [OF _ _ attend_lengths(2)]) (simp_all add: defs i RingAttention fl row fr)
    next
      case LinearAttention
      show ?thesis
        by (rule stored [OF _ _ attend_lengths(3)])
          (simp_all add: defs i LinearAttention li row fr takeWhile_le [OF i] del: upt_Suc)
    next
      case PagedAttention
      have th: "thread t m = three_pass F X (ac_scale cfg) ?n out q k v (seq_base h ?seq ?n (unat i)) (paged_base ?x 0 ?n ?nq ?nkv) (\<lambda>_. [0..<unat ?seq]) m"
        by (simp add: defs i PagedAttention kv0)
      have w: "?w = attend (f32_arith F X) n (ac_scale cfg) (row_cell m q ?n r) (\<lambda>j. cells_at m k (paged_base ?x 0 ?n ?nq ?nkv m j))
          (\<lambda>j. cells_at m v (paged_base ?x 0 ?n ?nq ?nkv m j)) [0..<unat ?seq]"
        by (simp add: PagedAttention row)
      show ?thesis unfolding th w r_def n_def
        using paged_three_pass [OF rf bufs, where kvh = 0 and page = ?nq and blocks = ?nkv and js = "[0..<unat ?seq]" and m = m] by blast
    qed
  qed
  then show "unat i < unat ?seq \<Longrightarrow> d < n \<Longrightarrow> thread t m (out, r * n + d) = ?w ! d"
    and "unat i < unat ?seq \<Longrightarrow> c \<notin> ?cells \<Longrightarrow> thread t m c = m c" by blast+
qed

section \<open>From submission to result\<close>

lemma length_computed_row: "length (computed_row F X q k v extra cfg m h i) = unat (ac_head_dim cfg)"
  unfolding computed_row_def attention_row_def Let_def by (cases "ac_mechanism cfg") simp_all

lemma attention_dispatch_rows:
  fixes F X unbound extra m
  assumes fits: "attention_fits cfg" and bufs: "q \<noteq> out" "k \<noteq> out" "v \<noteq> out" "case_option unbound id extra \<noteq> out"
    and order: "schedule (group_count (ac_seq_len cfg) * ac_num_q_heads cfg) order"
  defines "m' \<equiv> dispatch (kc_thread (dispatch_attention F X unbound out q k v cfg extra)) order m"
  shows "h < unat (ac_num_q_heads cfg) \<Longrightarrow> i < unat (ac_seq_len cfg) \<Longrightarrow>
      row_read m' out (ac_head_dim cfg) (h * unat (ac_seq_len cfg) + i) = computed_row F X q k v (case_option unbound id extra) cfg m h i"
    and "(\<And>r d. r < unat (ac_num_q_heads cfg) * unat (ac_seq_len cfg) \<Longrightarrow> d < unat (ac_head_dim cfg) \<Longrightarrow>
      c \<noteq> (out, r * unat (ac_head_dim cfg) + d)) \<Longrightarrow> m' c = m c"
proof -
  let ?seq = "ac_seq_len cfg" and ?n = "ac_head_dim cfg" and ?nq = "ac_num_q_heads cfg"
  let ?thread = "kc_thread (dispatch_attention F X unbound out q k v cfg extra)"
  let ?row = "computed_row F X q k v (case_option unbound id extra) cfg"
  let ?g = "unat (group_count ?seq) * 64"
  have lim: "unat ?seq \<le> 4194240" "unat ?nq \<le> 65535" using fits by (simp_all add: attention_fits_def)
  have place: "thread_xy (group_count ?seq) t = (of_nat (t mod ?g), of_nat (t div ?g))"
      "unat (of_nat (t mod ?g) :: u32) = t mod ?g" "unat (of_nat (t div ?g) :: u32) = t div ?g"
      "unat (of_nat (t div ?g) :: u32) < unat ?nq"
    if "t < unat (group_count ?seq) * unat ?nq * 64" for t
    using thread_place [OF lim that] by simp_all
  have frame: "?thread t m c = m c"
    if t: "t < unat (group_count ?seq) * unat ?nq * 64" and c: "c \<notin> grid_cells out ?seq ?n (group_count ?seq) t" for t m c
  proof (cases "t mod ?g < unat ?seq")
    case True
    have i: "unat (of_nat (t mod ?g) :: u32) < unat ?seq" unfolding place(2) [OF t] by (rule True)
    have "c \<notin> (\<lambda>d. (out, (unat (of_nat (t div ?g) :: u32) * unat ?seq + unat (of_nat (t mod ?g) :: u32)) * unat ?n + d)) ` {..<unat ?n}"
      using c True unfolding grid_cells_def Let_def place(2,3) [OF t] by simp
    then show ?thesis by (rule attention_thread_row(3) [OF fits bufs place(1) [OF t] place(4) [OF t] i])
  next
    case False
    then have "\<not> unat (of_nat (t mod ?g) :: u32) < unat ?seq" unfolding place(2) [OF t] .
    then show ?thesis by (simp add: attention_thread_row(1) [OF fits bufs place(1) [OF t] place(4) [OF t]])
  qed
  have at: "?thread t m (out, (t div ?g * unat ?seq + t mod ?g) * unat ?n + d) = ?row m (t div ?g) (t mod ?g) ! d"
    if t: "t < unat (group_count ?seq) * unat ?nq * 64" and i: "t mod ?g < unat ?seq" and d: "d < unat ?n" for t m d
  proof -
    have i': "unat (of_nat (t mod ?g) :: u32) < unat ?seq" unfolding place(2) [OF t] by (rule i)
    show ?thesis
      using attention_thread_row(2) [OF fits bufs place(1) [OF t] place(4) [OF t] i' d, where F = F and X = X and m = m]
      unfolding place(2,3) [OF t] .
  qed
  have loc: "?row m h i = ?row m' h i" if "\<And>c. fst c \<noteq> out \<Longrightarrow> m c = m' c" for m m' h i
    by (rule computed_row_local [OF bufs that])
  note grid = grid_dispatch [where thread = ?thread and w = ?row and out = out and width = ?n, OF lim order]
  show "row_read m' out ?n (h * unat ?seq + i) = ?row m h i" if "h < unat ?nq" "i < unat ?seq"
  proof (rule nth_equalityI)
    fix d assume "d < length (row_read m' out ?n (h * unat ?seq + i))"
    then have d: "d < unat ?n" by (simp add: row_read_def)
    have "m' (out, (h * unat ?seq + i) * unat ?n + d) = ?row m h i ! d"
      unfolding m'_def by (rule grid(1) [OF _ _ _ that d]) (fact frame, fact at, fact loc)
    then show "row_read m' out ?n (h * unat ?seq + i) ! d = ?row m h i ! d" using d by (simp add: row_read_def)
  qed (simp add: row_read_def length_computed_row)
  show "m' c = m c" if "\<And>r d. r < unat ?nq * unat ?seq \<Longrightarrow> d < unat ?n \<Longrightarrow> c \<noteq> (out, r * unat ?n + d)"
    unfolding m'_def by (rule grid(2)) (fact frame, fact at, fact loc, fact that)
qed

lemma attention_run_rows:
  assumes "attention_fits cfg" "q \<noteq> out" "k \<noteq> out" "v \<noteq> out" "case_option unbound id extra \<noteq> out"
    and "schedule (group_count (ac_seq_len cfg) * ac_num_q_heads cfg) order"
    and "ops_run m0 h ws" "length ws + 1 < 18446744073709551616"
  shows "\<exists>h'. attention_run e (dispatch_attention F X unbound out q k v cfg extra) order h = Some h' \<and> tl_pending (oh_line h') = [] \<and>
    (let m = fold exec_call ws m0; seq = unat (ac_seq_len cfg); n = unat (ac_head_dim cfg)
     in (\<forall>head < unat (ac_num_q_heads cfg). \<forall>i < seq.
           row_read (tl_memory (oh_line h')) out (ac_head_dim cfg) (head * seq + i) =
           computed_row F X q k v (case_option unbound id extra) cfg m head i) \<and>
        (\<forall>c. (\<forall>r < unat (ac_num_q_heads cfg) * seq. \<forall>d < n. c \<noteq> (out, r * n + d)) \<longrightarrow> tl_memory (oh_line h') c = m c))"
proof -
  let ?c = "dispatch_attention F X unbound out q k v cfg extra"
  obtain h1 where h1: "ops_submit e ?c order h = Some h1" using ops_run_submits [OF assms(7,8), of e ?c order] by blast
  obtain t where t: "fence_wait exec_call e (oh_vals h1 e) (oh_line h1) = Some t" "tl_pending t = []"
      "tl_memory t = fold exec_call (ws @ [(e, ?c, order)]) m0"
    using ops_submit_then_wait [OF assms(7,8) h1] by blast
  define m where "m = fold exec_call ws m0"
  have mem: "tl_memory t = dispatch (kc_thread ?c) order m" using t(3) by (simp add: m_def exec_call_pair)
  note d = attention_dispatch_rows [OF assms(1-6), where m = m and F = F and X = X, folded mem]
  have "attention_run e ?c order h = Some (h1\<lparr>oh_line := t\<rparr>)" by (simp add: attention_run_def h1 t(1))
  moreover have "\<forall>head < unat (ac_num_q_heads cfg). \<forall>i < unat (ac_seq_len cfg).
      row_read (tl_memory t) out (ac_head_dim cfg) (head * unat (ac_seq_len cfg) + i) =
        computed_row F X q k v (case_option unbound id extra) cfg m head i"
    using d(1) by blast
  moreover have "\<forall>c. (\<forall>r < unat (ac_num_q_heads cfg) * unat (ac_seq_len cfg). \<forall>d < unat (ac_head_dim cfg). c \<noteq> (out, r * unat (ac_head_dim cfg) + d)) \<longrightarrow>
      tl_memory t c = m c"
    using d(2) by blast
  ultimately show ?thesis using t(2) unfolding Let_def m_def by auto
qed

text \<open>
  C9. A call of \<open>dispatch_attention\<close> for any mechanism but paged attention, behind any work of other objects on
  the queue: it returns, with no command left in the queue, and the row of every query head and
  position is what its mechanism asks for, from the memory the earlier work left -- softmax
  attention over all keys, over the causal window or over the kept keys, the tiled or the
  recurrent form -- with the key head that the head shares; nothing else changes, whatever the
  order of the threads. Bounds: 65535 groups in each direction of the grid, indices of 32 bits, and
  the sizes of the local arrays; the output is none of the inputs. Paged attention is left out
  because the dispatcher's constants are not those its kernel expects
  (\<open>paged_page_size\<close>, \<open>page_size_ignored\<close>); with the constants that it names the
  kernel computes the row asked for (\<open>paged_kernel_row\<close>).
\<close>

theorem attention_correct:
  assumes "attention_fits cfg" "q \<noteq> out" "k \<noteq> out" "v \<noteq> out" "case_option unbound id extra \<noteq> out"
    and "schedule (group_count (ac_seq_len cfg) * ac_num_q_heads cfg) order"
    and "ops_run m0 h ws" "length ws + 1 < 18446744073709551616"
    and "ac_mechanism cfg \<noteq> PagedAttention"
  shows "\<exists>h'. attention_run e (dispatch_attention F X unbound out q k v cfg extra) order h = Some h' \<and> tl_pending (oh_line h') = [] \<and>
    (let m = fold exec_call ws m0; seq = unat (ac_seq_len cfg); n = unat (ac_head_dim cfg)
     in (\<forall>head < unat (ac_num_q_heads cfg). \<forall>i < seq.
           row_read (tl_memory (oh_line h')) out (ac_head_dim cfg) (head * seq + i) =
           attention_row F X q k v (case_option unbound id extra) cfg m head i) \<and>
        (\<forall>c. (\<forall>r < unat (ac_num_q_heads cfg) * seq. \<forall>d < n. c \<noteq> (out, r * n + d)) \<longrightarrow> tl_memory (oh_line h') c = m c))"
  using attention_run_rows [OF assms(1-8), of e F X] assms(9) by (simp add: computed_row_def)

text \<open>Two query heads sharing one key head, two positions.\<close>

theorem attention_correct_witness:
  "\<exists>h'. attention_run 1 (dispatch_attention toy_floats toy_hlsl 9 5 6 7 8
      (default_config\<lparr>ac_mechanism := GQA, ac_num_q_heads := 2, ac_num_kv_heads := 1, ac_head_dim := 1, ac_seq_len := 2\<rparr>) None)
      (rev [0..<128]) (ops_start (\<lambda>(b, i). of_nat (b + i))) = Some h' \<and>
    row_read (tl_memory (oh_line h')) 5 1 3 =
      attend (f32_arith toy_floats toy_hlsl) 1 0x3DB504F3 (\<lambda>d. of_nat (9 + d)) (\<lambda>j d. of_nat (7 + j + d)) (\<lambda>j d. of_nat (8 + j + d)) [0, 1]"
proof -
  let ?cfg = "default_config\<lparr>ac_mechanism := GQA, ac_num_q_heads := 2, ac_num_kv_heads := 1, ac_head_dim := 1, ac_seq_len := 2\<rparr>"
  let ?m = "\<lambda>(b, i). of_nat (b + i) :: f32"
  have fits: "attention_fits ?cfg" by (simp add: attention_fits_def default_config_def)
  have s: "schedule (group_count (ac_seq_len ?cfg) * ac_num_q_heads ?cfg) (rev [0..<128])"
    by (simp add: schedule_def group_count_def default_config_def)
  obtain h' where h': "attention_run 1 (dispatch_attention toy_floats toy_hlsl 9 5 6 7 8 ?cfg None) (rev [0..<128]) (ops_start ?m) = Some h'"
      and r: "\<forall>head < unat (ac_num_q_heads ?cfg). \<forall>i < unat (ac_seq_len ?cfg).
        row_read (tl_memory (oh_line h')) 5 (ac_head_dim ?cfg) (head * unat (ac_seq_len ?cfg) + i) =
          attention_row toy_floats toy_hlsl 6 7 8 9 ?cfg ?m head i"
    using attention_correct [OF fits _ _ _ _ s ops_run.Start [of ?m], of 6 5 7 8 9 None 1 toy_floats toy_hlsl] by (auto simp: Let_def default_config_def)
  have "row_read (tl_memory (oh_line h')) 5 1 3 = attention_row toy_floats toy_hlsl 6 7 8 9 ?cfg ?m 1 1"
    using r [rule_format, of 1 1] by (simp add: default_config_def)
  also have "\<dots> = attend (f32_arith toy_floats toy_hlsl) 1 0x3DB504F3 (\<lambda>d. of_nat (9 + d)) (\<lambda>j d. of_nat (7 + j + d)) (\<lambda>j d. of_nat (8 + j + d)) [0, 1]"
    by (simp add: attention_row_def default_config_def kv_head_of_def row_cell_def [abs_def] upt_rec add.assoc [symmetric])
  finally show ?thesis using h' by blast
qed

section \<open>What the dispatcher passes\<close>

text \<open>Grouped queries: with \<open>s\<close> query heads for each key head, head \<open>h\<close> reads key head \<open>h div s\<close>.\<close>

lemma grouped_heads:
  assumes "unat nkv * s = unat nq" "unat h < unat nq" "unat nq * unat nkv < 4294967296"
  shows "unat (kv_head_of h nq nkv) = unat h div s"
proof -
  have pos: "0 < unat nkv" "0 < s" "0 < unat nq" using assms(1,2) by (cases "unat nkv", simp_all, cases s, simp_all)
  have "unat h * unat nkv \<le> unat nq * unat nkv" using assms(2) by simp
  then have hn: "unat (h * nkv) = unat h * unat nkv" using assms(3) by (intro u32_mult_unat) linarith
  have "1 \<le> nq" using pos(3) by (simp add: word_le_nat_alt)
  then have mx: "max nq 1 = nq" by (rule max_absorb1)
  have "unat (h * nkv div max nq 1) = unat h * unat nkv div (unat nkv * s)" by (simp add: unat_div hn mx assms(1))
  also have "\<dots> = unat h div s" using div_mult_mult1 [of "unat nkv" "unat h" s] pos(1) by (simp add: mult.commute)
  finally have q: "unat (h * nkv div max nq 1) = unat h div s" .
  have "unat h div s < unat nkv" using assms(1,2) pos(2) by (simp add: div_less_iff_less_mult)
  moreover have "unat (nkv - 1) = unat nkv - 1" using pos(1) by (simp add: unat_minus_one unat_gt_0)
  ultimately have "h * nkv div max nq 1 \<le> nkv - 1" by (simp add: word_le_nat_alt q)
  then show ?thesis by (simp add: kv_head_of_def min_def q)
qed

text \<open>Heads of more than 32 numbers, and 128 is the default, make the recurrent kernel store nothing; the call succeeds.\<close>

lemma linear_stores_nothing:
  assumes "32 < ac_head_dim cfg" "ac_mechanism cfg = LinearAttention"
  shows "kc_thread (dispatch_attention F X unbound out q k v cfg extra) t m = m"
  using assms by (simp add: dispatch_attention_def Let_def linear_thread_def case_prod_unfold)

lemma flash_stores_nothing:
  assumes "128 < ac_head_dim cfg" "ac_mechanism cfg = FlashAttention"
  shows "kc_thread (dispatch_attention F X unbound out q k v cfg extra) t m = m"
  using assms by (simp add: dispatch_attention_def Let_def flash_thread_def case_prod_unfold)

lemma default_linear_stores_nothing:
  "kc_thread (dispatch_attention F X unbound out q k v (default_config\<lparr>ac_mechanism := LinearAttention\<rparr>) extra) t m = m"
  by (rule linear_stores_nothing) (simp_all add: default_config_def)

text \<open>The page size of the configuration reaches no kernel; \<open>paged_attn\<close> takes the number of query heads for it.\<close>

lemma page_size_ignored:
  "dispatch_attention F X unbound out q k v (cfg\<lparr>ac_page_block_size := p\<rparr>) extra = dispatch_attention F X unbound out q k v cfg extra"
  by (simp add: dispatch_attention_def)

lemma paged_page_size:
  "ac_mechanism cfg = PagedAttention \<Longrightarrow> kc_thread (dispatch_attention F X unbound out q k v cfg (Some table)) =
    paged_thread F X out q k v table (ac_seq_len cfg) (ac_head_dim cfg) (ac_num_q_heads cfg) (ac_num_kv_heads cfg) (ac_scale cfg) 1 0
      (group_count (ac_seq_len cfg))"
  by (simp add: dispatch_attention_def Let_def)

text \<open>With its constants as \<open>PagedCB\<close> names them, a thread of \<open>paged_attn\<close> writes the row asked for, and nothing else.\<close>

lemma paged_kernel_row:
  fixes F X
  assumes fits: "attention_fits cfg" and bufs: "q \<noteq> out" "k \<noteq> out" "v \<noteq> out" "table \<noteq> out"
    and xy: "thread_xy (group_count (ac_seq_len cfg)) t = (i, h)"
    and i: "unat i < unat (ac_seq_len cfg)" and h: "unat h < unat (ac_num_q_heads cfg)" and mech: "ac_mechanism cfg = PagedAttention"
  defines "ps \<equiv> ac_page_block_size cfg"
  defines "thread \<equiv> paged_thread F X out q k v table (ac_seq_len cfg) (ac_head_dim cfg) ps
      (of_nat ((unat (ac_seq_len cfg) + unat ps - 1) div unat ps)) (ac_scale cfg) (ac_num_q_heads cfg) (ac_num_kv_heads cfg)
      (group_count (ac_seq_len cfg))"
    and "r \<equiv> unat h * unat (ac_seq_len cfg) + unat i" and "n \<equiv> unat (ac_head_dim cfg)"
  shows "d < n \<Longrightarrow> thread t m (out, r * n + d) = attention_row F X q k v table cfg m (unat h) (unat i) ! d"
    and "c \<notin> (\<lambda>d. (out, r * n + d)) ` {..<n} \<Longrightarrow> thread t m c = m c"
proof -
  let ?seq = "ac_seq_len cfg" and ?n = "ac_head_dim cfg" and ?nq = "ac_num_q_heads cfg" and ?nkv = "ac_num_kv_heads cfg"
  let ?blocks = "of_nat ((unat ?seq + unat ps - 1) div unat ps)" and ?kvh = "kv_head_of h ?nq ?nkv"
  have rf: "row_fits ?seq ?n ?nq ?nkv i h"
    using fits i h by (simp add: attention_fits_def row_fits_def)
  have "\<not> ?seq \<le> i" using i by (simp add: word_le_nat_alt not_le)
  then have th: "thread t m = three_pass F X (ac_scale cfg) ?n out q k v (seq_base h ?seq ?n (unat i))
      (paged_base table ?kvh ?n ps ?blocks) (\<lambda>_. [0..<unat ?seq]) m"
    by (simp add: thread_def paged_thread_def xy)
  have w: "attention_row F X q k v table cfg m (unat h) (unat i) =
      attend (f32_arith F X) n (ac_scale cfg) (row_cell m q ?n r) (\<lambda>j. cells_at m k (paged_base table ?kvh ?n ps ?blocks m j))
        (\<lambda>j. cells_at m v (paged_base table ?kvh ?n ps ?blocks m j)) [0..<unat ?seq]"
    by (simp add: attention_row_def Let_def mech page_cells_def [abs_def] ps_def n_def r_def)
  note p = paged_three_pass [OF rf bufs, where kvh = ?kvh and page = ps and blocks = ?blocks and js = "[0..<unat ?seq]" and m = m]
  show "d < n \<Longrightarrow> thread t m (out, r * n + d) = attention_row F X q k v table cfg m (unat h) (unat i) ! d"
    unfolding th w r_def n_def by (rule p(1))
  show "c \<notin> (\<lambda>d. (out, r * n + d)) ` {..<n} \<Longrightarrow> thread t m c = m c"
    unfolding th r_def n_def by (rule p(2))
qed

end
