(* ===== verification/TiledGemm.thy ===== *)
theory TiledGemm
  imports ComputeKernels
begin

text \<open>
  The matrix products on the device: \<open>gemm_tiled\<close> and \<open>gemm_f16_dot2\<close> of \<open>src/dxblas/dxblas.cpp\<close>, \<open>gemm_f16_dot2\<close> of
  \<open>src/dxla/dxla.cpp\<close> and the kernel that \<open>src/dxtriton/dxtriton.cpp\<close> generates.

  A group of \<open>gemm_tiled\<close> has 256 threads that share two tiles and meet at barriers. Between two barriers the
  threads run in any order; threads outside the matrix have returned and load nothing. The groups run
  in any order too, each as a whole, since a group writes entries no other group reads or writes.
\<close>

section \<open>The tiled kernel\<close>

text \<open>The tiles \<open>s_a\<close>, \<open>s_b\<close>, whose first contents are whatever the memory held, and \<open>acc\<close> of every thread.\<close>

record tile_state =
  ts_a :: "nat \<Rightarrow> nat \<Rightarrow> f32"
  ts_b :: "nat \<Rightarrow> nat \<Rightarrow> f32"
  ts_acc :: "nat \<Rightarrow> f32"

definition gemm_row :: "u32 \<Rightarrow> nat \<Rightarrow> u32" where
  "gemm_row gy ltid = gy * 16 + of_nat (ltid div 16)"

definition gemm_col :: "u32 \<Rightarrow> nat \<Rightarrow> u32" where
  "gemm_col gx ltid = gx * 16 + of_nat (ltid mod 16)"

text \<open>\<open>if (row >= g_M || col >= g_N) return;\<close>\<close>

definition gemm_active :: "u32 \<Rightarrow> u32 \<Rightarrow> u32 \<Rightarrow> u32 \<Rightarrow> nat \<Rightarrow> bool" where
  "gemm_active g_M g_N gx gy ltid \<longleftrightarrow> \<not> (gemm_row gy ltid \<ge> g_M \<or> gemm_col gx ltid \<ge> g_N)"

definition load_a :: "nat \<Rightarrow> u32 \<Rightarrow> u32 \<Rightarrow> gpu_mem \<Rightarrow> u32 \<Rightarrow> u32 \<Rightarrow> nat \<Rightarrow> f32" where
  "load_a a g_M g_K m kk gy ltid =
    (let row = gemm_row gy ltid; ak = kk + of_nat (ltid mod 16)
     in if row < g_M \<and> ak < g_K then m (a, unat (row * g_K + ak)) else f32_zero)"

definition load_b :: "nat \<Rightarrow> u32 \<Rightarrow> u32 \<Rightarrow> gpu_mem \<Rightarrow> u32 \<Rightarrow> u32 \<Rightarrow> nat \<Rightarrow> f32" where
  "load_b b g_N g_K m kk gx ltid =
    (let col = gemm_col gx ltid; bk = kk + of_nat (ltid div 16)
     in if bk < g_K \<and> col < g_N then m (b, unat (bk * g_N + col)) else f32_zero)"

definition gemm_load :: "(nat \<Rightarrow> f32) \<Rightarrow> (nat \<Rightarrow> f32) \<Rightarrow> nat \<Rightarrow> tile_state \<Rightarrow> tile_state" where
  "gemm_load va vb ltid st =
    st\<lparr>ts_a := (ts_a st)(ltid div 16 := (ts_a st (ltid div 16))(ltid mod 16 := va ltid)),
       ts_b := (ts_b st)(ltid div 16 := (ts_b st (ltid div 16))(ltid mod 16 := vb ltid))\<rparr>"

text \<open>\<open>for (k = 0; k < TILE; ++k) acc += s_a[ty][k] * s_b[k][tx];\<close>\<close>

definition tile_product :: "float_ops \<Rightarrow> (nat \<Rightarrow> nat \<Rightarrow> f32) \<Rightarrow> (nat \<Rightarrow> nat \<Rightarrow> f32) \<Rightarrow> nat \<Rightarrow> f32 \<Rightarrow> f32" where
  "tile_product F s_a s_b ltid acc =
    fold (\<lambda>k acc. fo_add F acc (fo_mul F (s_a (ltid div 16) k) (s_b k (ltid mod 16)))) [0..<16] acc"

definition gemm_multiply :: "float_ops \<Rightarrow> nat \<Rightarrow> tile_state \<Rightarrow> tile_state" where
  "gemm_multiply F ltid st = st\<lparr>ts_acc := (ts_acc st)(ltid := tile_product F (ts_a st) (ts_b st) ltid (ts_acc st ltid))\<rparr>"

text \<open>
  Iteration \<open>i\<close> of \<open>for (kk = 0; kk < g_K; kk += TILE)\<close>: the loads, a barrier, the products, a barrier. The
  schedule \<open>lanes\<close> gives the order of the threads in each phase.
\<close>

definition gemm_tile ::
  "float_ops \<Rightarrow> nat \<Rightarrow> nat \<Rightarrow> u32 \<Rightarrow> u32 \<Rightarrow> u32 \<Rightarrow> gpu_mem \<Rightarrow> u32 \<Rightarrow> u32 \<Rightarrow> (nat \<Rightarrow> nat list) \<Rightarrow> nat \<Rightarrow> tile_state \<Rightarrow> tile_state" where
  "gemm_tile F a b g_M g_N g_K m gx gy lanes i st =
    (let kk = of_nat (16 * i); run = filter (gemm_active g_M g_N gx gy);
         st1 = fold (gemm_load (load_a a g_M g_K m kk gy) (load_b b g_N g_K m kk gx)) (run (lanes (2 * i))) st
     in fold (gemm_multiply F) (run (lanes (2 * i + 1))) st1)"

definition gemm_group ::
  "float_ops \<Rightarrow> nat \<Rightarrow> nat \<Rightarrow> nat \<Rightarrow> u32 \<Rightarrow> u32 \<Rightarrow> u32 \<Rightarrow> u32 \<Rightarrow> (nat \<Rightarrow> nat \<Rightarrow> nat list) \<Rightarrow> (nat \<Rightarrow> tile_state) \<Rightarrow> nat \<Rightarrow> gpu_mem \<Rightarrow> gpu_mem" where
  "gemm_group F out a b g_M g_N g_K grid_x lanes tiles g m =
    (let gx = of_nat (g mod unat grid_x); gy = of_nat (g div unat grid_x); n = (unat g_K + 15) div 16;
         st = fold (gemm_tile F a b g_M g_N g_K m gx gy (lanes g)) [0..<n] ((tiles g)\<lparr>ts_acc := \<lambda>_. f32_zero\<rparr>)
     in fold (\<lambda>ltid m. m((out, unat (gemm_row gy ltid * g_N + gemm_col gx ltid)) := ts_acc st ltid))
          (filter (gemm_active g_M g_N gx gy) (lanes g (2 * n))) m)"

text \<open>\<open>BLAS::gemm\<close>. Its reset, execution and signal are those of \<open>ops_submit\<close>.\<close>

definition tile_count :: "u32 \<Rightarrow> u32" where
  "tile_count n = (n + 15) div 16"

definition BLAS_gemm ::
  "float_ops \<Rightarrow> (nat \<Rightarrow> nat \<Rightarrow> nat list) \<Rightarrow> (nat \<Rightarrow> tile_state) \<Rightarrow> nat \<Rightarrow> nat \<Rightarrow> nat \<Rightarrow> u32 \<Rightarrow> u32 \<Rightarrow> u32 \<Rightarrow> kernel_call" where
  "BLAS_gemm F lanes tiles out a b M N K =
    \<lparr> kc_thread = gemm_group F out a b M N K (tile_count N) lanes tiles, kc_groups = tile_count N * tile_count M, kc_size = 1 \<rparr>"

section \<open>A group\<close>

text \<open>The threads of a phase in an order: every one once.\<close>

definition all_lanes :: "nat list \<Rightarrow> bool" where
  "all_lanes ls \<longleftrightarrow> mset ls = mset [0..<256]"

lemma all_lanesD: "all_lanes ls \<Longrightarrow> distinct ls \<and> set ls = {..<256}"
  unfolding all_lanes_def
  by (metis atLeast0LessThan distinct_upt mset_eq_imp_distinct_iff mset_eq_setD set_upt)

lemma gemm_load_one:
  assumes "tx < 16"
  shows "ts_a (gemm_load va vb l st) ty tx = (if l = ty * 16 + tx then va l else ts_a st ty tx)"
    and "ts_b (gemm_load va vb l st) ty tx = (if l = ty * 16 + tx then vb l else ts_b st ty tx)"
proof -
  have "(l div 16 = ty \<and> l mod 16 = tx) = (l = ty * 16 + tx)" using assms div_mult_mod_eq [of l 16] by auto
  then show "ts_a (gemm_load va vb l st) ty tx = (if l = ty * 16 + tx then va l else ts_a st ty tx)"
      "ts_b (gemm_load va vb l st) ty tx = (if l = ty * 16 + tx then vb l else ts_b st ty tx)"
    by (auto simp: gemm_load_def)
qed

lemma gemm_load_run:
  assumes "tx < 16"
  shows "ts_a (fold (gemm_load va vb) ls st) ty tx = (if ty * 16 + tx \<in> set ls then va (ty * 16 + tx) else ts_a st ty tx)"
    and "ts_b (fold (gemm_load va vb) ls st) ty tx = (if ty * 16 + tx \<in> set ls then vb (ty * 16 + tx) else ts_b st ty tx)"
  by (induction ls arbitrary: st) (auto simp: gemm_load_one [OF assms])

lemma gemm_load_acc [simp]: "ts_acc (fold (gemm_load va vb) ls st) = ts_acc st"
  by (induction ls arbitrary: st) (simp_all add: gemm_load_def)

lemma gemm_multiply_run:
  "distinct ls \<Longrightarrow> ts_a (fold (gemm_multiply F) ls st) = ts_a st \<and> ts_b (fold (gemm_multiply F) ls st) = ts_b st \<and>
    ts_acc (fold (gemm_multiply F) ls st) l =
      (if l \<in> set ls then tile_product F (ts_a st) (ts_b st) l (ts_acc st l) else ts_acc st l)"
proof (induction ls arbitrary: st)
  case (Cons k ls)
  then show ?case using Cons.IH [of "gemm_multiply F k st"] by (auto simp: gemm_multiply_def)
qed simp

text \<open>With all threads running, the sum of thread \<open>l\<close> after \<open>n\<close> tiles, over entries padded with zeros.\<close>

definition padded_dot :: "float_ops \<Rightarrow> (nat \<Rightarrow> f32) \<Rightarrow> (nat \<Rightarrow> f32) \<Rightarrow> nat \<Rightarrow> nat \<Rightarrow> f32" where
  "padded_dot F x y k n =
    fold (\<lambda>i acc. fo_add F acc (fo_mul F (if i < k then x i else f32_zero) (if i < k then y i else f32_zero))) [0..<n] f32_zero"

lemma padded_dot_tile:
  "padded_dot F x y k (16 * Suc n) =
    fold (\<lambda>i acc. fo_add F acc (fo_mul F (if 16 * n + i < k then x (16 * n + i) else f32_zero)
      (if 16 * n + i < k then y (16 * n + i) else f32_zero))) [0..<16] (padded_dot F x y k (16 * n))"
proof -
  have "[0..<16 * Suc n] = [0..<16 * n] @ map (\<lambda>i. 16 * n + i) [0..<16]"
    using upt_add_eq_append [of 0 "16 * n" 16] map_add_upt [of "16 * n" 16] by (simp add: add.commute)
  then show ?thesis by (simp only: padded_dot_def fold_append comp_apply fold_map comp_def)
qed

lemma padded_dot_exact:
  assumes "k \<le> n" "n = k \<or> (\<forall>v. fo_add F v (fo_mul F f32_zero f32_zero) = v)"
  shows "padded_dot F x y k n = fold (\<lambda>i acc. fo_add F acc (fo_mul F (x i) (y i))) [0..<k] f32_zero"
proof -
  have "padded_dot F x y k k = fold (\<lambda>i acc. fo_add F acc (fo_mul F (x i) (y i))) [0..<k] f32_zero"
    unfolding padded_dot_def by (rule fold_cong) auto
  moreover have "padded_dot F x y k (k + j) = padded_dot F x y k k" if "\<forall>v. fo_add F v (fo_mul F f32_zero f32_zero) = v" for j
    by (induction j) (simp_all add: padded_dot_def that)
  ultimately show ?thesis using assms by (metis le_add_diff_inverse)
qed

text \<open>Whole tiles only, and indices inside 32 bits and the limits of a dispatch.\<close>

definition gemm_fits :: "u32 \<Rightarrow> u32 \<Rightarrow> u32 \<Rightarrow> bool" where
  "gemm_fits M N K \<longleftrightarrow> 16 dvd unat M \<and> 16 dvd unat N \<and> unat M \<le> 1048560 \<and> unat N \<le> 1048560 \<and> unat K \<le> 4294967280 \<and>
    unat M * unat K \<le> 4294967296 \<and> unat K * unat N \<le> 4294967296 \<and> unat M * unat N \<le> 4294967296"

lemma lane_position:
  assumes "16 dvd unat (n :: u32)" "g < unat n div 16" "j < 16"
  shows "g * 16 + j < unat n" "unat (of_nat g * 16 + of_nat j :: u32) = g * 16 + j"
proof -
  have "g * 16 + j < unat n div 16 * 16" by (rule cell_index_lt [OF assms(2,3)])
  then show p: "g * 16 + j < unat n" using assms(1) by simp
  have "g * 16 + j < 4294967296" using p u32_lt [of n] by linarith
  then have "unat (of_nat (g * 16 + j) :: u32) = g * 16 + j" by (rule u32_thread)
  then show "unat (of_nat g * 16 + of_nat j :: u32) = g * 16 + j" by simp
qed

definition gemm_at :: "u32 \<Rightarrow> u32 \<Rightarrow> u32 \<Rightarrow> nat \<Rightarrow> nat \<Rightarrow> bool" where
  "gemm_at M N K gx gy \<longleftrightarrow> gemm_fits M N K \<and> gx < unat N div 16 \<and> gy < unat M div 16"

definition lane_row :: "nat \<Rightarrow> nat \<Rightarrow> nat" where "lane_row gy l = gy * 16 + l div 16"
definition lane_col :: "nat \<Rightarrow> nat \<Rightarrow> nat" where "lane_col gx l = gx * 16 + l mod 16"

lemma gemm_atD:
  assumes "gemm_at M N K gx gy"
  shows "gemm_fits M N K" "gx < unat N div 16" "gy < unat M div 16" "16 dvd unat M" "16 dvd unat N"
  using assms by (simp_all add: gemm_at_def gemm_fits_def)

lemma lane_row_word: "gemm_at M N K gx gy \<Longrightarrow> l < 256 \<Longrightarrow> lane_row gy l < unat M \<and> unat (gemm_row (of_nat gy) l) = lane_row gy l"
proof -
  assume at: "gemm_at M N K gx gy" and l: "l < 256"
  show ?thesis using lane_position [OF gemm_atD(4) [OF at] gemm_atD(3) [OF at], of "l div 16"] l
    by (simp add: lane_row_def gemm_row_def less_mult_imp_div_less)
qed

lemma lane_col_word: "gemm_at M N K gx gy \<Longrightarrow> lane_col gx l < unat N \<and> unat (gemm_col (of_nat gx) l) = lane_col gx l"
proof -
  assume at: "gemm_at M N K gx gy"
  show ?thesis using lane_position [OF gemm_atD(5) [OF at] gemm_atD(2) [OF at], of "l mod 16"]
    by (simp add: lane_col_def gemm_col_def)
qed

lemma lane_active: "gemm_at M N K gx gy \<Longrightarrow> l < 256 \<Longrightarrow> gemm_active M N (of_nat gx) (of_nat gy) l"
  using lane_row_word [of M N K gx gy l] lane_col_word [of M N K gx gy l] by (simp add: gemm_active_def word_le_nat_alt not_le)

lemma run_all: "gemm_at M N K gx gy \<Longrightarrow> set ls \<subseteq> {..<256} \<Longrightarrow> filter (gemm_active M N (of_nat gx) (of_nat gy)) ls = ls"
  using lane_active by (auto simp: filter_id_conv)

lemma step_word: "gemm_fits M N K \<Longrightarrow> 16 * i < unat K \<Longrightarrow> j < 16 \<Longrightarrow> unat (of_nat (16 * i) + of_nat j :: u32) = 16 * i + j"
proof -
  assume fits: "gemm_fits M N K" and "16 * i < unat K" "j < 16"
  then have "16 * i + j < 4294967296" using fits by (simp add: gemm_fits_def)
  then have "unat (of_nat (16 * i + j) :: u32) = 16 * i + j" by (rule u32_thread)
  then show ?thesis by simp
qed

lemma loaded_a:
  assumes at: "gemm_at M N K gx gy" and "16 * i < unat K" "ty < 16" "tx < 16"
  shows "load_a a M K m (of_nat (16 * i)) (of_nat gy) (ty * 16 + tx) =
    (if 16 * i + tx < unat K then m (a, (gy * 16 + ty) * unat K + (16 * i + tx)) else f32_zero)"
proof -
  have l: "ty * 16 + tx < 256" "(ty * 16 + tx) div 16 = ty" "(ty * 16 + tx) mod 16 = tx" using assms(3,4) by simp_all
  note fits = gemm_atD(1) [OF at] and r = lane_row_word [OF at l(1), unfolded lane_row_def l(2)]
  have "unat (gemm_row (of_nat gy) (ty * 16 + tx) * K + (of_nat (16 * i) + of_nat tx)) = (gy * 16 + ty) * unat K + (16 * i + tx)"
    if k: "16 * i + tx < unat K"
  proof -
    have "(gy * 16 + ty) * unat K + (16 * i + tx) < unat M * unat K" by (rule cell_index_lt [OF _ k]) (use r in simp)
    then have lt: "(gy * 16 + ty) * unat K + (16 * i + tx) < 4294967296" using fits by (simp add: gemm_fits_def)
    have "gemm_row (of_nat gy) (ty * 16 + tx) = of_nat (gy * 16 + ty)" by (simp only: gemm_row_def l(2)) simp
    then have "gemm_row (of_nat gy) (ty * 16 + tx) * K + (of_nat (16 * i) + of_nat tx) =
        of_nat ((gy * 16 + ty) * unat K + (16 * i + tx))" by simp
    then show ?thesis using lt by (simp only: u32_thread)
  qed
  then show ?thesis unfolding load_a_def Let_def l(3)
    by (simp only: word_less_nat_alt step_word [OF fits assms(2,4)] r simp_thms cong: if_cong)
qed

lemma loaded_b:
  assumes at: "gemm_at M N K gx gy" and "16 * i < unat K" "ty < 16" "tx < 16"
  shows "load_b b N K m (of_nat (16 * i)) (of_nat gx) (ty * 16 + tx) =
    (if 16 * i + ty < unat K then m (b, (16 * i + ty) * unat N + (gx * 16 + tx)) else f32_zero)"
proof -
  have l: "(ty * 16 + tx) div 16 = ty" "(ty * 16 + tx) mod 16 = tx" using assms(3,4) by simp_all
  note fits = gemm_atD(1) [OF at] and c = lane_col_word [OF at, of "ty * 16 + tx", unfolded lane_col_def l(2)]
  have "unat ((of_nat (16 * i) + of_nat ty) * N + gemm_col (of_nat gx) (ty * 16 + tx)) = (16 * i + ty) * unat N + (gx * 16 + tx)"
    if k: "16 * i + ty < unat K"
  proof -
    have "(16 * i + ty) * unat N + (gx * 16 + tx) < unat K * unat N" by (rule cell_index_lt [OF k]) (use c in simp)
    then have lt: "(16 * i + ty) * unat N + (gx * 16 + tx) < 4294967296" using fits by (simp add: gemm_fits_def)
    have "gemm_col (of_nat gx) (ty * 16 + tx) = of_nat (gx * 16 + tx)" by (simp only: gemm_col_def l(2)) simp
    then have "(of_nat (16 * i) + of_nat ty) * N + gemm_col (of_nat gx) (ty * 16 + tx) =
        of_nat ((16 * i + ty) * unat N + (gx * 16 + tx))" by simp
    then show ?thesis using lt by (simp only: u32_thread)
  qed
  then show ?thesis unfolding load_b_def Let_def l(1)
    by (simp only: word_less_nat_alt step_word [OF fits assms(2,3)] c simp_thms cong: if_cong)
qed

lemma tile_acc:
  assumes at: "gemm_at M N K gx gy" and i: "16 * i < unat K" and lanes: "all_lanes (lanes (2 * i))" "all_lanes (lanes (2 * i + 1))" and l: "l < 256"
    and acc: "ts_acc st l = padded_dot F (\<lambda>k. m (a, lane_row gy l * unat K + k)) (\<lambda>k. m (b, k * unat N + lane_col gx l)) (unat K) (16 * i)"
  shows "ts_acc (gemm_tile F a b M N K m (of_nat gx) (of_nat gy) lanes i st) l =
    padded_dot F (\<lambda>k. m (a, lane_row gy l * unat K + k)) (\<lambda>k. m (b, k * unat N + lane_col gx l)) (unat K) (16 * Suc i)"
proof -
  let ?va = "load_a a M K m (of_nat (16 * i)) (of_nat gy)" and ?vb = "load_b b N K m (of_nat (16 * i)) (of_nat gx)"
  note L = all_lanesD [OF lanes(1)] all_lanesD [OF lanes(2)]
  define st1 where "st1 = fold (gemm_load ?va ?vb) (lanes (2 * i)) st"
  have tile: "gemm_tile F a b M N K m (of_nat gx) (of_nat gy) lanes i st = fold (gemm_multiply F) (lanes (2 * i + 1)) st1"
    unfolding gemm_tile_def Let_def st1_def using L by (simp add: run_all [OF at])
  have d: "l div 16 < 16" "l mod 16 < 16" "l = l div 16 * 16 + l mod 16" using l by simp_all
  have a1: "ts_a st1 (l div 16) k = (if 16 * i + k < unat K then m (a, lane_row gy l * unat K + (16 * i + k)) else f32_zero)" if k: "k < 16" for k
  proof -
    have "l div 16 * 16 + k < 256" using d k by linarith
    then show ?thesis
      unfolding st1_def gemm_load_run(1) [OF k] using L(1) loaded_a [OF at i d(1) k, of a m] by (simp add: lane_row_def)
  qed
  have b1: "ts_b st1 k (l mod 16) = (if 16 * i + k < unat K then m (b, (16 * i + k) * unat N + lane_col gx l) else f32_zero)" if k: "k < 16" for k
  proof -
    have "k * 16 + l mod 16 < 256" using d k by linarith
    then show ?thesis
      unfolding st1_def gemm_load_run(2) [OF d(2)] using L(1) loaded_b [OF at i k d(2), of b m] by (simp add: lane_col_def)
  qed
  have "ts_acc (fold (gemm_multiply F) (lanes (2 * i + 1)) st1) l = tile_product F (ts_a st1) (ts_b st1) l (ts_acc st1 l)"
    using gemm_multiply_run [of "lanes (2 * i + 1)" F st1 l] L(2) l by simp
  also have "ts_acc st1 l = ts_acc st l" by (simp add: st1_def)
  also have "tile_product F (ts_a st1) (ts_b st1) l (ts_acc st l) =
      padded_dot F (\<lambda>k. m (a, lane_row gy l * unat K + k)) (\<lambda>k. m (b, k * unat N + lane_col gx l)) (unat K) (16 * Suc i)"
    unfolding padded_dot_tile acc tile_product_def by (rule fold_cong) (simp_all add: a1 b1)
  finally show ?thesis unfolding tile .
qed

lemma group_acc:
  assumes at: "gemm_at M N K gx gy" and lanes: "\<And>p. all_lanes (lanes p)" and l: "l < 256" and n: "n \<le> (unat K + 15) div 16"
  shows "ts_acc (fold (gemm_tile F a b M N K m (of_nat gx) (of_nat gy) lanes) [0..<n] (st\<lparr>ts_acc := \<lambda>_. f32_zero\<rparr>)) l =
    padded_dot F (\<lambda>k. m (a, lane_row gy l * unat K + k)) (\<lambda>k. m (b, k * unat N + lane_col gx l)) (unat K) (16 * n)"
  using n
proof (induction n)
  case 0
  then show ?case by (simp add: padded_dot_def)
next
  case (Suc n)
  have i: "16 * n < unat K" using Suc.prems by linarith
  have "n \<le> (unat K + 15) div 16" using Suc.prems by simp
  from tile_acc [OF at i lanes lanes l Suc.IH [OF this]] show ?case by simp
qed

lemma fold_store:
  fixes m :: gpu_mem and a :: "nat \<Rightarrow> cell"
  shows "inj_on a (set ls) \<Longrightarrow> l \<in> set ls \<Longrightarrow> fold (\<lambda>l m. m(a l := v l)) ls m (a l) = v l"
    and "c \<notin> a ` set ls \<Longrightarrow> fold (\<lambda>l m. m(a l := v l)) ls m c = m c"
proof -
  have frame: "c \<notin> a ` set ls \<Longrightarrow> fold (\<lambda>l m. m(a l := v l)) ls m c = m c" for c ls and m :: gpu_mem
    by (induction ls arbitrary: m) auto
  then show "c \<notin> a ` set ls \<Longrightarrow> fold (\<lambda>l m. m(a l := v l)) ls m c = m c" .
  show "inj_on a (set ls) \<Longrightarrow> l \<in> set ls \<Longrightarrow> fold (\<lambda>l m. m(a l := v l)) ls m (a l) = v l"
  proof (induction ls arbitrary: m)
    case (Cons k ls)
    show ?case
    proof (cases "l \<in> set ls")
      case True
      then show ?thesis using Cons by (simp add: inj_on_insert)
    next
      case False
      then have k: "l = k" "a l \<notin> a ` set ls" using Cons.prems by (auto simp: inj_on_def)
      have "fold (\<lambda>l m. m(a l := v l)) (k # ls) m (a l) = (m(a k := v k)) (a l)"
        using frame [OF k(2), of "m(a k := v k)"] by (simp only: fold_simps)
      then show ?thesis using k(1) by (simp del: fun_upd_apply) simp
    qed
  qed simp
qed

text \<open>The entries of a group.\<close>

definition block_cells :: "nat \<Rightarrow> u32 \<Rightarrow> nat \<Rightarrow> nat \<Rightarrow> cell set" where
  "block_cells out N gx gy = (\<lambda>l. (out, lane_row gy l * unat N + lane_col gx l)) ` {..<256}"

text \<open>What an entry of the product is, over operands padded to whole tiles.\<close>

definition gemm_entry :: "float_ops \<Rightarrow> nat \<Rightarrow> nat \<Rightarrow> u32 \<Rightarrow> u32 \<Rightarrow> gpu_mem \<Rightarrow> nat \<Rightarrow> nat \<Rightarrow> f32" where
  "gemm_entry F a b N K m r c =
    padded_dot F (\<lambda>k. m (a, r * unat K + k)) (\<lambda>k. m (b, k * unat N + c)) (unat K) (16 * ((unat K + 15) div 16))"

lemma group_result:
  assumes at: "gemm_at M N K gx gy" and place: "g mod unat grid_x = gx" "g div unat grid_x = gy" and lanes: "\<And>p. all_lanes (lanes g p)"
  shows "l < 256 \<Longrightarrow> gemm_group F out a b M N K grid_x lanes tiles g m (out, lane_row gy l * unat N + lane_col gx l) =
      gemm_entry F a b N K m (lane_row gy l) (lane_col gx l)"
    and "c \<notin> block_cells out N gx gy \<Longrightarrow> gemm_group F out a b M N K grid_x lanes tiles g m c = m c"
proof -
  let ?n = "(unat K + 15) div 16"
  define st where "st = fold (gemm_tile F a b M N K m (of_nat gx) (of_nat gy) (lanes g)) [0..<?n] ((tiles g)\<lparr>ts_acc := \<lambda>_. f32_zero\<rparr>)"
  define ls where "ls = lanes g (2 * ?n)"
  define adr where "adr l = (out, unat (gemm_row (of_nat gy) l * N + gemm_col (of_nat gx) l))" for l
  have L: "distinct ls" "set ls = {..<256}" using all_lanesD [OF lanes] unfolding ls_def by blast+
  have adr: "adr l = (out, lane_row gy l * unat N + lane_col gx l)" if "l < 256" for l
  proof -
    note r = lane_row_word [OF at that] and c = lane_col_word [OF at, of l]
    have "lane_row gy l * unat N + lane_col gx l < unat M * unat N" using r c by (intro cell_index_lt) simp_all
    then have lt: "lane_row gy l * unat N + lane_col gx l < 4294967296" using gemm_atD(1) [OF at] by (simp add: gemm_fits_def)
    have "unat (gemm_row (of_nat gy) l * N) = lane_row gy l * unat N"
      using u32_mult_unat [of "gemm_row (of_nat gy) l" N] r lt by simp
    then show ?thesis
      using u32_add_unat [of "gemm_row (of_nat gy) l * N" "gemm_col (of_nat gx) l"] c lt by (simp add: adr_def)
  qed
  have img: "adr ` set ls = block_cells out N gx gy" unfolding block_cells_def L(2) by (rule image_cong) (simp_all add: adr)
  have inj: "inj_on adr (set ls)"
  proof (rule inj_onI)
    fix l k assume lk: "l \<in> set ls" "k \<in> set ls" "adr l = adr k"
    then have e: "lane_row gy l * unat N + lane_col gx l = lane_row gy k * unat N + lane_col gx k" using L(2) by (simp add: adr)
    have "lane_col gx l < unat N" "lane_col gx k < unat N" using lane_col_word [OF at] by blast+
    from cell_index_inj [OF this e] have "l div 16 = k div 16" "l mod 16 = k mod 16" by (simp_all add: lane_row_def lane_col_def)
    then show "l = k" by (metis div_mult_mod_eq)
  qed
  have run: "filter (gemm_active M N (of_nat gx) (of_nat gy)) ls = ls" using run_all [OF at] L(2) by blast
  have grp: "gemm_group F out a b M N K grid_x lanes tiles g m = fold (\<lambda>l m. m(adr l := ts_acc st l)) ls m"
    unfolding gemm_group_def Let_def place st_def [symmetric] ls_def [symmetric] run adr_def ..
  show "gemm_group F out a b M N K grid_x lanes tiles g m (out, lane_row gy l * unat N + lane_col gx l) =
      gemm_entry F a b N K m (lane_row gy l) (lane_col gx l)" if l: "l < 256"
  proof -
    have "fold (\<lambda>l m. m(adr l := ts_acc st l)) ls m (adr l) = ts_acc st l" by (rule fold_store(1) [OF inj]) (simp add: L(2) l)
    also have "ts_acc st l = gemm_entry F a b N K m (lane_row gy l) (lane_col gx l)"
      unfolding st_def gemm_entry_def by (rule group_acc [OF at lanes l order_refl])
    finally show ?thesis unfolding grp adr [OF l] .
  qed
  show "c \<notin> block_cells out N gx gy \<Longrightarrow> gemm_group F out a b M N K grid_x lanes tiles g m c = m c"
    unfolding grp img [symmetric] by (rule fold_store(2))
qed

section \<open>A dispatch\<close>

lemma tile_count_nat: "unat n \<le> 1048560 \<Longrightarrow> 16 dvd unat n \<Longrightarrow> unat (tile_count n) = unat n div 16"
proof -
  assume "unat n \<le> 1048560" "16 dvd unat n"
  then have "unat (n + 15) = unat n + 15" using u32_add_unat [of n 15] by simp
  then have "unat (tile_count n) = (unat n + 15) div 16" by (simp add: tile_count_def unat_div)
  then show ?thesis using \<open>16 dvd unat n\<close> by auto
qed

lemma gemm_dispatch:
  assumes fits: "gemm_fits M N K" and bufs: "a \<noteq> out" "b \<noteq> out" and lanes: "\<And>g p. all_lanes (lanes g p)"
    and order: "call_schedule (BLAS_gemm F lanes tiles out a b M N K) order"
  shows "r < unat M \<Longrightarrow> c < unat N \<Longrightarrow>
      dispatch (kc_thread (BLAS_gemm F lanes tiles out a b M N K)) order m (out, r * unat N + c) = gemm_entry F a b N K m r c"
    and "(\<And>r c. r < unat M \<Longrightarrow> c < unat N \<Longrightarrow> d \<noteq> (out, r * unat N + c)) \<Longrightarrow>
      dispatch (kc_thread (BLAS_gemm F lanes tiles out a b M N K)) order m d = m d"
proof -
  let ?gx = "unat N div 16" and ?gy = "unat M div 16"
  let ?group = "gemm_group F out a b M N K (tile_count N) lanes tiles"
  let ?cells = "\<lambda>t. block_cells out N (t mod ?gx) (t div ?gx)"
  have lim: "16 dvd unat M" "16 dvd unat N" "unat M \<le> 1048560" "unat N \<le> 1048560" using fits by (simp_all add: gemm_fits_def)
  have tc: "unat (tile_count N) = ?gx" "unat (tile_count M) = ?gy" using tile_count_nat lim by blast+
  have "?gx * ?gy \<le> 65535 * 65535" using lim(3,4) by (intro mult_le_mono) linarith+
  then have gg: "unat (tile_count N * tile_count M) = ?gx * ?gy" using u32_mult_unat [of "tile_count N" "tile_count M"] tc by simp
  have at: "gemm_at M N K (t mod ?gx) (t div ?gx)" if "t < ?gx * ?gy" for t
  proof -
    have "0 < ?gx" using that by (cases "?gx = 0") auto
    moreover have "t div ?gx < ?gy" using that by (simp add: less_mult_imp_div_less mult.commute)
    ultimately show ?thesis using fits by (simp add: gemm_at_def)
  qed
  note res = group_result [OF at _ _ lanes, where grid_x = "tile_count N", unfolded tc]
  have D: "disjoint_threads ?group ?cells (\<lambda>_. {c. fst c \<noteq> out}) (?gx * ?gy)"
  proof (unfold_locales, goal_cases)
    case (1 t c m)
    show ?case by (rule res(2) [OF 1(1) refl refl 1(2)])
  next
    case (2 t m m' c)
    obtain l where l: "l < 256" "c = (out, lane_row (t div ?gx) l * unat N + lane_col (t mod ?gx) l)"
      using 2(3) by (auto simp: block_cells_def)
    have "gemm_entry F a b N K m r' c' = gemm_entry F a b N K m' r' c'" for r' c'
      using 2(2) bufs by (simp add: gemm_entry_def)
    then show ?case unfolding l(2) res(1) [OF 2(1) refl refl l(1)] .
  next
    case (3 s t)
    have no: False if "c \<in> ?cells s" "c \<in> ?cells t" for c
    proof -
      obtain l where l: "l < 256" "c = (out, lane_row (s div ?gx) l * unat N + lane_col (s mod ?gx) l)"
        using \<open>c \<in> ?cells s\<close> by (auto simp: block_cells_def)
      obtain k where k: "k < 256" "c = (out, lane_row (t div ?gx) k * unat N + lane_col (t mod ?gx) k)"
        using \<open>c \<in> ?cells t\<close> by (auto simp: block_cells_def)
      have e: "lane_row (s div ?gx) l * unat N + lane_col (s mod ?gx) l = lane_row (t div ?gx) k * unat N + lane_col (t mod ?gx) k"
        using l(2) k(2) by blast
      have "lane_col (s mod ?gx) l < unat N" "lane_col (t mod ?gx) k < unat N"
        using lane_col_word [OF at [OF 3(1)]] lane_col_word [OF at [OF 3(2)]] by blast+
      from cell_index_inj [OF this e] have rc: "lane_row (s div ?gx) l = lane_row (t div ?gx) k" "lane_col (s mod ?gx) l = lane_col (t mod ?gx) k"
        by blast+
      have "s div ?gx = lane_row (s div ?gx) l div 16" "t div ?gx = lane_row (t div ?gx) k div 16"
        using l(1) k(1) by (simp_all add: lane_row_def)
      moreover have "s mod ?gx = lane_col (s mod ?gx) l div 16" "t mod ?gx = lane_col (t mod ?gx) k div 16"
        by (simp_all add: lane_col_def)
      ultimately have "s div ?gx = t div ?gx" "s mod ?gx = t mod ?gx" using rc by metis+
      then have "s = t" by (metis div_mult_mod_eq)
      then show False using 3(3) by blast
    qed
    have "?cells s \<inter> {c. fst c \<noteq> out} = {}" by (auto simp: block_cells_def)
    then show ?case using no by blast
  qed
  have o: "distinct order" "\<And>t. t \<in> set order \<longleftrightarrow> t < ?gx * ?gy"
    using order unfolding call_schedule_def BLAS_gemm_def kernel_call.simps gg mult_1_right
    by (metis distinct_upt mset_eq_imp_distinct_iff, metis atLeast0LessThan lessThan_iff mset_eq_setD set_upt)
  have k: "kc_thread (BLAS_gemm F lanes tiles out a b M N K) = ?group" by (simp add: BLAS_gemm_def)
  show "dispatch (kc_thread (BLAS_gemm F lanes tiles out a b M N K)) order m (out, r * unat N + c) = gemm_entry F a b N K m r c"
    if r: "r < unat M" and c: "c < unat N"
  proof -
    define t where "t = r div 16 * ?gx + c div 16"
    define l where "l = r mod 16 * 16 + c mod 16"
    have cg: "c div 16 < ?gx" using c lim(2) by auto
    have rg: "r div 16 < ?gy" using r lim(1) by auto
    have t: "t < ?gx * ?gy" unfolding t_def mult.commute [of ?gx ?gy] by (rule cell_index_lt [OF rg cg])
    have tp: "t div ?gx = r div 16" "t mod ?gx = c div 16" using cg by (simp_all add: t_def)
    have l: "l < 256" "l div 16 = r mod 16" "l mod 16 = c mod 16" by (simp_all add: l_def)
    have rc: "lane_row (t div ?gx) l = r" "lane_col (t mod ?gx) l = c" by (simp_all add: lane_row_def lane_col_def tp l)
    have cell: "(out, r * unat N + c) \<in> ?cells t"
      unfolding block_cells_def using rc l(1) by (intro image_eqI [of _ _ l]) simp_all
    have "dispatch ?group order m (out, r * unat N + c) = ?group t m (out, r * unat N + c)"
      by (rule disjoint_threads.dispatch_writes [OF D o(1) _ _ cell]) (use o(2) t in auto)
    then show ?thesis using res(1) [OF t refl refl l(1), where F = F and out = out and a = a and b = b and tiles = tiles and m = m]
      unfolding k rc by simp
  qed
  show "dispatch (kc_thread (BLAS_gemm F lanes tiles out a b M N K)) order m d = m d"
    if d: "\<And>r c. r < unat M \<Longrightarrow> c < unat N \<Longrightarrow> d \<noteq> (out, r * unat N + c)"
    unfolding k
  proof (rule disjoint_threads.dispatch_frame [OF D])
    fix t assume "t \<in> set order"
    then have t: "t < ?gx * ?gy" using o(2) by blast
    show "d \<notin> ?cells t"
      unfolding block_cells_def using d lane_row_word [OF at [OF t]] lane_col_word [OF at [OF t]] by blast
  qed (use o(2) in auto)
qed

section \<open>From submission to result\<close>

text \<open>A call submitted behind other work, and awaited with a fence of the caller's.\<close>

lemma submit_then_sync:
  assumes "ops_run m0 h ws" "length ws + 1 < 18446744073709551616" "call_schedule c order"
    and "\<And>s. s \<in> set ws \<Longrightarrow> fst s \<noteq> f" "e \<noteq> f"
  shows "\<exists>h' t. ops_submit e c order h = Some h' \<and> host_sync f h' = Some t \<and>
    tl_memory t = dispatch (kc_thread c) order (fold exec_call ws m0)"
proof -
  obtain h' where h': "ops_submit e c order h = Some h'" using ops_run_submits [OF assms(1,2), of e c order] by blast
  have r: "ops_run m0 h' (ws @ [(e, c, order)])" by (rule ops_run.Submit [OF assms(1) h' assms(3)])
  have fresh: "fst s \<noteq> f" if "s \<in> set (ws @ [(e, c, order)])" for s using that assms(4) [of s] assms(5) by auto
  obtain t where t: "host_sync f h' = Some t" "tl_memory t = fold exec_call (ws @ [(e, c, order)]) m0"
    using host_sync_reads [OF r _ fresh] assms(2) by auto
  then show ?thesis using h' by (simp add: exec_call_pair)
qed

definition floats_of :: "gpu_mem \<Rightarrow> nat \<Rightarrow> nat \<Rightarrow> f32 list" where
  "floats_of m b n = map (\<lambda>i. m (b, i)) [0..<n]"

lemma gemm_entry_dot:
  assumes rc: "r < unat M" "c < unat N" and pad: "16 dvd unat K \<or> (\<forall>v. fo_add F v (fo_mul F f32_zero f32_zero) = v)"
  shows "gemm_entry F a b N K m r c = gemm_dot F (floats_of m a (unat M * unat K)) (floats_of m b (unat K * unat N)) (unat N) (unat K) r c"
proof -
  have le: "unat K \<le> 16 * ((unat K + 15) div 16)" by presburger
  have eq: "16 * ((unat K + 15) div 16) = unat K \<or> (\<forall>v. fo_add F v (fo_mul F f32_zero f32_zero) = v)" using pad by auto
  have "gemm_entry F a b N K m r c =
      fold (\<lambda>i acc. fo_add F acc (fo_mul F (m (a, r * unat K + i)) (m (b, i * unat N + c)))) [0..<unat K] f32_zero"
    unfolding gemm_entry_def by (rule padded_dot_exact [OF le eq])
  also have "\<dots> = gemm_dot F (floats_of m a (unat M * unat K)) (floats_of m b (unat K * unat N)) (unat N) (unat K) r c"
    unfolding gemm_dot_def floats_of_def
    by (rule fold_cong) (use cell_index_lt [OF rc(1)] cell_index_lt [OF _ rc(2)] in simp_all)
  finally show ?thesis .
qed

text \<open>
  C11. \<open>BLAS::gemm\<close> on whole tiles, submitted behind any other work and awaited: every entry of the output is the
  inner product that the reference \<open>dx_op_gemm_f32\<close> computes on the CPU, with the same additions in the same order,
  from what the operands held when the earlier work was done, and nothing else
  changes -- in whatever order the groups and, between two barriers, the threads of a group run, and whatever
  the shared tiles held before. When the inner dimension is no multiple of 16 the kernel adds
  products of zeros, which must not change a sum. The output is another buffer than the operands, and the
  dimensions are within \<open>gemm_fits\<close>: the output's are multiples of 16 and at most 65535 tiles, no matrix has more
  than \<open>2^32\<close> entries, and the inner dimension is at most \<open>2^32 - 16\<close>.
\<close>

theorem tiled_gemm_is_reference:
  assumes "gemm_fits M N K" "a \<noteq> out" "b \<noteq> out" "16 dvd unat K \<or> (\<forall>v. fo_add F v (fo_mul F f32_zero f32_zero) = v)"
    and "\<And>g p. all_lanes (lanes g p)" "call_schedule (BLAS_gemm F lanes tiles out a b M N K) order"
    and "ops_run m0 h ws" "length ws + 1 < 18446744073709551616" "\<And>s. s \<in> set ws \<Longrightarrow> fst s \<noteq> f" "e \<noteq> f"
  shows "\<exists>h' t. ops_submit e (BLAS_gemm F lanes tiles out a b M N K) order h = Some h' \<and> host_sync f h' = Some t \<and>
    (let m = fold exec_call ws m0
     in (\<forall>r < unat M. \<forall>c < unat N. tl_memory t (out, r * unat N + c) =
           gemm_dot F (floats_of m a (unat M * unat K)) (floats_of m b (unat K * unat N)) (unat N) (unat K) r c) \<and>
        (\<forall>d. (\<forall>r < unat M. \<forall>c < unat N. d \<noteq> (out, r * unat N + c)) \<longrightarrow> tl_memory t d = m d))"
proof -
  let ?c = "BLAS_gemm F lanes tiles out a b M N K"
  define m where "m = fold exec_call ws m0"
  obtain h' t where ht: "ops_submit e ?c order h = Some h'" "host_sync f h' = Some t"
      and mem: "tl_memory t = dispatch (kc_thread ?c) order m"
    using submit_then_sync [OF assms(7,8,6,9,10)] unfolding m_def by blast
  note d = gemm_dispatch [OF assms(1-3,5,6), where m = m, folded mem]
  have "\<forall>r < unat M. \<forall>c < unat N. tl_memory t (out, r * unat N + c) =
      gemm_dot F (floats_of m a (unat M * unat K)) (floats_of m b (unat K * unat N)) (unat N) (unat K) r c"
  proof (intro allI impI)
    fix r c assume rc: "r < unat M" "c < unat N"
    show "tl_memory t (out, r * unat N + c) =
        gemm_dot F (floats_of m a (unat M * unat K)) (floats_of m b (unat K * unat N)) (unat N) (unat K) r c"
      unfolding d(1) [OF rc] by (rule gemm_entry_dot [OF rc assms(4)])
  qed
  moreover have "\<forall>d. (\<forall>r < unat M. \<forall>c < unat N. d \<noteq> (out, r * unat N + c)) \<longrightarrow> tl_memory t d = m d"
    using d(2) by blast
  ultimately show ?thesis using ht unfolding Let_def m_def by blast
qed

text \<open>A product of 16 by 3 and 3 by 16 entries, with tiles that start with other contents than zero.\<close>

theorem tiled_gemm_is_reference_witness:
  "\<exists>h' t. ops_submit 1 (BLAS_gemm toy_floats (\<lambda>_ _. rev [0..<256]) (\<lambda>_. \<lparr>ts_a = (\<lambda>_ _. 9), ts_b = (\<lambda>_ _. 9), ts_acc = (\<lambda>_. 9)\<rparr>) 5 6 7 16 16 3)
      [0] (ops_start (\<lambda>(b, i). if b = 6 \<or> i mod 16 = 0 then of_nat i else 1)) = Some h' \<and> host_sync 2 h' = Some t \<and>
    tl_memory t (5, 16) = 32 * 5 + 16 * 4 \<and> tl_memory t (5, 17) = 12"
proof -
  let ?m = "\<lambda>(b, i). if b = 6 \<or> i mod 16 = 0 then of_nat i else 1 :: f32"
  let ?c = "BLAS_gemm toy_floats (\<lambda>_ _. rev [0..<256]) (\<lambda>_. \<lparr>ts_a = (\<lambda>_ _. 9), ts_b = (\<lambda>_ _. 9), ts_acc = (\<lambda>_. 9)\<rparr>) 5 6 7 16 16 3"
  have fits: "gemm_fits 16 16 3" by (simp add: gemm_fits_def)
  have lanes: "all_lanes (rev [0..<256])" by (simp add: all_lanes_def)
  have s: "call_schedule ?c [0]" by (simp add: call_schedule_def BLAS_gemm_def tile_count_def)
  have n: "16 dvd unat (3 :: u32) \<or> (\<forall>v. fo_add toy_floats v (fo_mul toy_floats f32_zero f32_zero) = v)" by (simp add: toy_floats_def)
  have "\<exists>h' t. ops_submit 1 ?c [0] (ops_start ?m) = Some h' \<and> host_sync 2 h' = Some t \<and>
    (let m = fold exec_call [] ?m
     in (\<forall>r < unat (16 :: u32). \<forall>c < unat (16 :: u32). tl_memory t (5, r * unat (16 :: u32) + c) =
           gemm_dot toy_floats (floats_of m 6 (unat (16 :: u32) * unat (3 :: u32))) (floats_of m 7 (unat (3 :: u32) * unat (16 :: u32)))
             (unat (16 :: u32)) (unat (3 :: u32)) r c) \<and>
        (\<forall>d. (\<forall>r < unat (16 :: u32). \<forall>c < unat (16 :: u32). d \<noteq> (5, r * unat (16 :: u32) + c)) \<longrightarrow> tl_memory t d = m d))"
    by (rule tiled_gemm_is_reference [OF fits _ _ n lanes s ops_run.Start]) simp_all
  then obtain h' t where ht: "ops_submit 1 ?c [0] (ops_start ?m) = Some h'" "host_sync 2 h' = Some t"
      and v: "\<forall>r < 16. \<forall>c < 16. tl_memory t (5, r * 16 + c) = gemm_dot toy_floats (floats_of ?m 6 48) (floats_of ?m 7 48) 16 3 r c"
    by (auto simp: Let_def)
  have "tl_memory t (5, 16) = 32 * 5 + 16 * 4" "tl_memory t (5, 17) = 12"
    using v [rule_format, of 1 0] v [rule_format, of 1 1] by (simp_all add: gemm_dot_def floats_of_def toy_floats_def upt_rec)
  then show ?thesis using ht by blast
qed

section \<open>Ragged sizes\<close>

text \<open>
  With one row and one column a single thread runs: it loads one entry of each tile, and multiplies
  what the other entries happened to hold.
\<close>

lemma single_lane: "gemm_active 1 1 0 0 l \<longleftrightarrow> l = 0" if "l < 256"
proof -
  have "l div 16 < 4294967296" "l mod 16 < 4294967296" using that by simp_all
  then have "gemm_active 1 1 0 0 l \<longleftrightarrow> l div 16 = 0 \<and> l mod 16 = 0"
    by (simp add: gemm_active_def gemm_row_def gemm_col_def u32_thread_le)
  also have "\<dots> \<longleftrightarrow> l = 0" using div_mult_mod_eq [of l 16] by auto
  finally show ?thesis .
qed

lemma gemm_ragged:
  assumes "all_lanes (lanes 0 0)" "all_lanes (lanes 0 1)" "all_lanes (lanes 0 2)" "0 < unat K" "unat K \<le> 16"
  shows "gemm_group F out a b 1 1 K 1 lanes tiles 0 m (out, 0) =
    fold (\<lambda>k acc. fo_add F acc (fo_mul F (if k = 0 then m (a, 0) else ts_a (tiles 0) 0 k) (if k = 0 then m (b, 0) else ts_b (tiles 0) k 0)))
      [0..<16] f32_zero"
proof -
  have one: "filter (gemm_active 1 1 0 0) ls = [0]" if "all_lanes ls" for ls
  proof -
    note L = all_lanesD [OF that]
    have "filter (gemm_active 1 1 0 0) ls = filter (\<lambda>l. l = 0) ls" 
      by (rule filter_cong [OF refl], rule single_lane) (unfold L [THEN conjunct2] lessThan_iff)
    also have "\<dots> = [0]"
    proof -
      have z: "0 \<in> set ls" unfolding L [THEN conjunct2] lessThan_iff by simp
      have "set (filter (\<lambda>l. l = 0) ls) = {0}" using z by auto
      moreover have "distinct (filter (\<lambda>l. l = 0) ls)" by (rule distinct_filter [OF L [THEN conjunct1]])
      ultimately show ?thesis
        by (cases "filter (\<lambda>l. l = 0) ls"; cases "tl (filter (\<lambda>l. l = 0) ls)") auto
    qed
    finally show ?thesis .
  qed
  have n: "(unat K + 15) div 16 = 1" using assms(4,5) by auto
  have k: "0 < K" using assms(4) by (simp add: word_less_nat_alt)
  define st where "st = (tiles 0)\<lparr>ts_acc := \<lambda>_. f32_zero\<rparr>"
  define st1 where "st1 = gemm_load (load_a a 1 K m 0 0) (load_b b 1 K m 0 0) 0 st"
  have tile: "gemm_tile F a b 1 1 K m 0 0 (lanes 0) 0 st = gemm_multiply F 0 st1"
    unfolding gemm_tile_def Let_def st1_def using assms(1,2) by (simp add: one)
  have l: "load_a a 1 K m 0 0 0 = m (a, 0)" "load_b b 1 K m 0 0 0 = m (b, 0)"
    using k by (simp_all add: load_a_def load_b_def gemm_row_def gemm_col_def)
  have "gemm_group F out a b 1 1 K 1 lanes tiles 0 m (out, 0) = ts_acc (gemm_multiply F 0 st1) 0"
    using assms(3) by (simp add: gemm_group_def n st_def [symmetric] tile one gemm_row_def gemm_col_def Let_def)
  also have "\<dots> = tile_product F (ts_a st1) (ts_b st1) 0 f32_zero"
    by (simp add: gemm_multiply_def st1_def gemm_load_def st_def)
  also have "\<dots> = fold (\<lambda>k acc. fo_add F acc (fo_mul F (if k = 0 then m (a, 0) else ts_a (tiles 0) 0 k) (if k = 0 then m (b, 0) else ts_b (tiles 0) k 0)))
      [0..<16] f32_zero"
    unfolding tile_product_def by (rule fold_cong) (auto simp: st1_def gemm_load_def st_def l)
  finally show ?thesis .
qed

text \<open>One row times one column of two entries each: the second products are never formed.\<close>

lemma gemm_ragged_wrong:
  "gemm_group toy_floats 5 6 7 1 1 2 1 (\<lambda>_ _. [0..<256]) (\<lambda>_. \<lparr>ts_a = (\<lambda>_ _. 0), ts_b = (\<lambda>_ _. 0), ts_acc = (\<lambda>_. 0)\<rparr>) 0 (\<lambda>_. 1) (5, 0) = 1"
  "gemm_group toy_floats 5 6 7 1 1 2 1 (\<lambda>_ _. [0..<256]) (\<lambda>_. \<lparr>ts_a = (\<lambda>_ _. 1), ts_b = (\<lambda>_ _. 1), ts_acc = (\<lambda>_. 0)\<rparr>) 0 (\<lambda>_. 1) (5, 0) = 16"
proof -
  have u: "[0..<16] = [0, 1, 2, 3, 4, 5, 6, 7, 8, 9, 10, 11, 12, 13, 14, 15]" by (simp add: upt_rec)
  have l: "all_lanes [0..<256]" by (simp add: all_lanes_def)
  show "gemm_group toy_floats 5 6 7 1 1 2 1 (\<lambda>_ _. [0..<256]) (\<lambda>_. \<lparr>ts_a = (\<lambda>_ _. 0), ts_b = (\<lambda>_ _. 0), ts_acc = (\<lambda>_. 0)\<rparr>) 0 (\<lambda>_. 1) (5, 0) = 1"
      "gemm_group toy_floats 5 6 7 1 1 2 1 (\<lambda>_ _. [0..<256]) (\<lambda>_. \<lparr>ts_a = (\<lambda>_ _. 1), ts_b = (\<lambda>_ _. 1), ts_acc = (\<lambda>_. 0)\<rparr>) 0 (\<lambda>_. 1) (5, 0) = 16"
    by (subst gemm_ragged [where lanes = "\<lambda>_ _. [0..<256]", OF l l l]; simp add: toy_floats_def u)+
qed

section \<open>Half precision\<close>

record half_ops =
  hf_f16tof32 :: "u32 \<Rightarrow> f32"
  hf_dot2add :: "f32 \<times> f32 \<Rightarrow> f32 \<times> f32 \<Rightarrow> f32 \<Rightarrow> f32"

definition unpack_half2 :: "half_ops \<Rightarrow> u32 \<Rightarrow> f32 \<times> f32" where
  "unpack_half2 H w = (hf_f16tof32 H (w AND 0xFFFF), hf_f16tof32 H (drop_bit 16 w))"

text \<open>\<open>for (k = 0; k + 1u < g_K; k += 2u)\<close> visits the pairs \<open>p = k / 2\<close> below \<open>g_K / 2\<close>.\<close>

definition half_pairs :: "half_ops \<Rightarrow> nat \<Rightarrow> nat \<Rightarrow> u32 \<Rightarrow> u32 \<Rightarrow> u32 \<Rightarrow> gpu_mem \<Rightarrow> f32" where
  "half_pairs H a b g_K row col m =
    fold (\<lambda>p acc. hf_dot2add H (unpack_half2 H (m (a, unat (row * (g_K div 2) + of_nat p))))
        (unpack_half2 H (m (b, unat (col * (g_K div 2) + of_nat p)))) acc) [0..<unat g_K div 2] f32_zero"

text \<open>Groups of 16 by 16 threads: thread \<open>t\<close> is lane \<open>t mod 256\<close> of group \<open>t div 256\<close>.\<close>

definition thread_row :: "u32 \<Rightarrow> nat \<Rightarrow> u32" where
  "thread_row grid_x t = gemm_row (of_nat (t div 256 div unat grid_x)) (t mod 256)"

definition thread_col :: "u32 \<Rightarrow> nat \<Rightarrow> u32" where
  "thread_col grid_x t = gemm_col (of_nat (t div 256 mod unat grid_x)) (t mod 256)"

definition la_f16_thread :: "half_ops \<Rightarrow> nat \<Rightarrow> nat \<Rightarrow> nat \<Rightarrow> u32 \<Rightarrow> u32 \<Rightarrow> u32 \<Rightarrow> u32 \<Rightarrow> nat \<Rightarrow> gpu_mem \<Rightarrow> gpu_mem" where
  "la_f16_thread H out a b g_M g_N g_K grid_x t m =
    (let row = thread_row grid_x t; col = thread_col grid_x t
     in if row \<ge> g_M \<or> col \<ge> g_N then m else m((out, unat (row * g_N + col)) := half_pairs H a b g_K row col m))"

text \<open>The kernel of \<open>BLAS\<close> treats an odd inner dimension, for which it reads the last half of B in another layout.\<close>

definition blas_f16_thread :: "float_ops \<Rightarrow> half_ops \<Rightarrow> nat \<Rightarrow> nat \<Rightarrow> nat \<Rightarrow> u32 \<Rightarrow> u32 \<Rightarrow> u32 \<Rightarrow> u32 \<Rightarrow> nat \<Rightarrow> gpu_mem \<Rightarrow> gpu_mem" where
  "blas_f16_thread F H out a b g_M g_N g_K grid_x t m =
    (let row = thread_row grid_x t; col = thread_col grid_x t
     in if row \<ge> g_M \<or> col \<ge> g_N then m
        else let acc = half_pairs H a b g_K row col m;
                 acc = (if g_K AND 1 \<noteq> 0
                    then let k = g_K - 1;
                             aw = m (a, unat (row * (g_K div 2) + k div 2));
                             bw = m (b, unat (k * (g_N div 2) + col div 2));
                             x = hf_f16tof32 H (if k AND 1 \<noteq> 0 then drop_bit 16 aw else aw AND 0xFFFF);
                             y = hf_f16tof32 H (if col AND 1 \<noteq> 0 then drop_bit 16 bw else bw AND 0xFFFF)
                         in fo_add F acc (fo_mul F x y)
                    else acc)
             in m((out, unat (row * g_N + col)) := acc))"

definition BLAS_gemm_f16_dot2 :: "float_ops \<Rightarrow> half_ops \<Rightarrow> nat \<Rightarrow> nat \<Rightarrow> nat \<Rightarrow> u32 \<Rightarrow> u32 \<Rightarrow> u32 \<Rightarrow> kernel_call" where
  "BLAS_gemm_f16_dot2 F H out a b M N K =
    \<lparr> kc_thread = blas_f16_thread F H out a b M N K (tile_count N), kc_groups = tile_count N * tile_count M, kc_size = 256 \<rparr>"

definition LA_gemm_f16_dot2 :: "half_ops \<Rightarrow> nat \<Rightarrow> nat \<Rightarrow> nat \<Rightarrow> u32 \<Rightarrow> u32 \<Rightarrow> u32 \<Rightarrow> kernel_call" where
  "LA_gemm_f16_dot2 H out a b M N K =
    \<lparr> kc_thread = la_f16_thread H out a b M N K (tile_count N), kc_groups = tile_count N * tile_count M, kc_size = 256 \<rparr>"

text \<open>\<open>gemm_f16_wmma\<close> sets a status line and dispatches the same kernel.\<close>

definition wmma_status :: string where
  "wmma_status = ''gemm_f16_wmma: WMMA requires SM6.9/6.10 LinAlg (preview driver + Agility SDK) - excluded; using dot2''"

definition LA_gemm_f16_wmma :: "half_ops \<Rightarrow> nat \<Rightarrow> nat \<Rightarrow> nat \<Rightarrow> u32 \<Rightarrow> u32 \<Rightarrow> u32 \<Rightarrow> string \<times> kernel_call" where
  "LA_gemm_f16_wmma H out a b M N K = (wmma_status, LA_gemm_f16_dot2 H out a b M N K)"

lemma even_kernels_agree:
  "g_K AND 1 = 0 \<Longrightarrow> blas_f16_thread F H out a b g_M g_N g_K grid_x t m = la_f16_thread H out a b g_M g_N g_K grid_x t m"
  by (simp add: blas_f16_thread_def la_f16_thread_def Let_def)

lemma blas_f16_is_la:
  "K AND 1 = 0 \<Longrightarrow> BLAS_gemm_f16_dot2 F H out a b M N K = LA_gemm_f16_dot2 H out a b M N K"
  by (simp add: BLAS_gemm_f16_dot2_def LA_gemm_f16_dot2_def fun_eq_iff even_kernels_agree)

text \<open>
  With an inner dimension of three, a row of A holds one word, and the tail of row 0 takes its third half from the word of
  row 1.
\<close>

lemma odd_tail_reads_next_row:
  assumes "m (a, 0) = 0" "m (b, 0) = 0" "hf_dot2add H = (\<lambda>_ _ acc. acc)"
  shows "blas_f16_thread F H out a b 2 2 3 1 0 m =
    m((out, 0) := fo_add F f32_zero (fo_mul F (hf_f16tof32 H (m (a, 1) AND 0xFFFF)) (hf_f16tof32 H (m (b, 2) AND 0xFFFF))))"
  using assms(3) by (simp add: blas_f16_thread_def thread_row_def thread_col_def gemm_row_def gemm_col_def half_pairs_def Let_def)

text \<open>Groups of 16 by 16 threads that cover a matrix, each thread storing its own entry.\<close>

definition nat_row :: "nat \<Rightarrow> nat \<Rightarrow> nat" where "nat_row gx t = t div 256 div gx * 16 + t mod 256 div 16"
definition nat_col :: "nat \<Rightarrow> nat \<Rightarrow> nat" where "nat_col gx t = t div 256 mod gx * 16 + t mod 256 mod 16"

lemma nat_place_inj:
  assumes "nat_row gx s = nat_row gx t" "nat_col gx s = nat_col gx t"
  shows "s = t"
proof -
  have lo: "u mod 256 div 16 < 16" "u mod 256 mod 16 < 16" for u :: nat by (simp_all add: less_mult_imp_div_less)
  have r: "s div 256 div gx = t div 256 div gx \<and> s mod 256 div 16 = t mod 256 div 16"
    by (rule cell_index_inj [OF lo(1) lo(1)]) (use assms(1) in \<open>simp add: nat_row_def\<close>)
  have c: "s div 256 mod gx = t div 256 mod gx \<and> s mod 256 mod 16 = t mod 256 mod 16"
    by (rule cell_index_inj [OF lo(2) lo(2)]) (use assms(2) in \<open>simp add: nat_col_def\<close>)
  have "s div 256 = t div 256" using r c by (metis div_mult_mod_eq)
  moreover have "s mod 256 = t mod 256" using r c by (metis div_mult_mod_eq)
  ultimately show ?thesis by (metis div_mult_mod_eq)
qed

lemma nat_place_onto:
  assumes "r < 16 * gy" "c < 16 * gx"
  shows "\<exists>t < gx * gy * 256. nat_row gx t = r \<and> nat_col gx t = c"
proof -
  define l where "l = r mod 16 * 16 + c mod 16"
  define g where "g = r div 16 * gx + c div 16"
  have l: "l < 256" "l div 16 = r mod 16" "l mod 16 = c mod 16" by (simp_all add: l_def)
  have cg: "c div 16 < gx" using assms(2) by (simp add: less_mult_imp_div_less mult.commute)
  have rg: "r div 16 < gy" using assms(1) by (simp add: less_mult_imp_div_less mult.commute)
  have g: "g < gy * gx" "g div gx = r div 16" "g mod gx = c div 16"
    using cell_index_lt [OF rg cg] cg by (simp_all add: g_def)
  have "g * 256 + l < gy * gx * 256" by (rule cell_index_lt [OF g(1) l(1)])
  moreover have "(g * 256 + l) div 256 = g" "(g * 256 + l) mod 256 = l" using l(1) by simp_all
  ultimately show ?thesis
    by (intro exI [of _ "g * 256 + l"]) (simp add: nat_row_def nat_col_def g l mult.commute [of gx])
qed

lemma block_dispatch:
  assumes at: "\<And>t m. t < gx * gy * 256 \<Longrightarrow> thread t m =
      (if nat_row gx t < M \<and> nat_col gx t < N then m((out, nat_row gx t * N + nat_col gx t) := v (nat_row gx t) (nat_col gx t) m) else m)"
    and loc: "\<And>m m' r c. (\<And>d. fst d \<noteq> out \<Longrightarrow> m d = m' d) \<Longrightarrow> v r c m = v r c m'"
    and cover: "M \<le> 16 * gy" "N \<le> 16 * gx" and order: "mset order = mset [0..<gx * gy * 256]"
  shows "r < M \<Longrightarrow> c < N \<Longrightarrow> dispatch thread order m (out, r * N + c) = v r c m"
    and "(\<And>r c. r < M \<Longrightarrow> c < N \<Longrightarrow> d \<noteq> (out, r * N + c)) \<Longrightarrow> dispatch thread order m d = m d"
proof -
  let ?cells = "\<lambda>t. if nat_row gx t < M \<and> nat_col gx t < N then {(out, nat_row gx t * N + nat_col gx t)} else {}"
  have D: "disjoint_threads thread ?cells (\<lambda>_. {c. fst c \<noteq> out}) (gx * gy * 256)"
  proof (unfold_locales, goal_cases)
    case (2 t m m' c)
    have "v (nat_row gx t) (nat_col gx t) m = v (nat_row gx t) (nat_col gx t) m'" by (rule loc) (use 2(2) in simp)
    then show ?case using 2(3) by (simp add: at [OF 2(1)] split: if_splits)
  next
    case (3 s t)
    have False if "nat_col gx s < N" "nat_col gx t < N" "nat_row gx s * N + nat_col gx s = nat_row gx t * N + nat_col gx t"
      using cell_index_inj [OF that] nat_place_inj [of gx s t] 3(3) by blast
    then show ?case by auto
  qed (auto simp: at split: if_splits)
  have o: "distinct order" "\<And>t. t \<in> set order \<longleftrightarrow> t < gx * gy * 256"
    using order by (metis distinct_upt mset_eq_imp_distinct_iff, metis atLeast0LessThan lessThan_iff mset_eq_setD order set_upt)
  show "dispatch thread order m (out, r * N + c) = v r c m" if r: "r < M" and c: "c < N"
  proof -
    have "r < 16 * gy" "c < 16 * gx" using r c cover by linarith+
    from nat_place_onto [OF this] obtain t where t: "t < gx * gy * 256" "nat_row gx t = r" "nat_col gx t = c" by blast
    have "dispatch thread order m (out, r * N + c) = thread t m (out, r * N + c)"
      by (rule disjoint_threads.dispatch_writes [OF D o(1)]) (use o(2) t r c in auto)
    then show ?thesis using at [OF t(1), of m] t r c by simp
  qed
  show "dispatch thread order m d = m d" if "\<And>r c. r < M \<Longrightarrow> c < N \<Longrightarrow> d \<noteq> (out, r * N + c)"
    by (rule disjoint_threads.dispatch_frame [OF D]) (use o(2) that in auto)
qed

lemma tile_count_covers:
  assumes "unat n \<le> 1048560"
  shows "unat n \<le> 16 * unat (tile_count n)" "unat (tile_count n) \<le> 65535"
proof -
  have "unat (n + 15) = unat n + 15" using u32_add_unat [of n 15] assms by simp
  then have t: "unat (tile_count n) = (unat n + 15) div 16" by (simp add: tile_count_def unat_div)
  show "unat n \<le> 16 * unat (tile_count n)" unfolding t by presburger
  show "unat (tile_count n) \<le> 65535" unfolding t using assms by linarith
qed

definition halves_fit :: "u32 \<Rightarrow> u32 \<Rightarrow> u32 \<Rightarrow> bool" where
  "halves_fit M N K \<longleftrightarrow> unat M \<le> 1048560 \<and> unat N \<le> 1048560 \<and> unat M * (unat K div 2) \<le> 4294967296 \<and>
    unat N * (unat K div 2) \<le> 4294967296 \<and> unat M * unat N \<le> 4294967296"

text \<open>The sum of an entry: row \<open>r\<close> of the packed A against column \<open>c\<close> of B, whose columns are packed one after the other.\<close>

definition half_entry :: "half_ops \<Rightarrow> nat \<Rightarrow> nat \<Rightarrow> nat \<Rightarrow> gpu_mem \<Rightarrow> nat \<Rightarrow> nat \<Rightarrow> f32" where
  "half_entry H a b words m r c =
    fold (\<lambda>(x, y) acc. hf_dot2add H (unpack_half2 H x) (unpack_half2 H y) acc)
      (zip (map (\<lambda>p. m (a, r * words + p)) [0..<words]) (map (\<lambda>p. m (b, c * words + p)) [0..<words])) f32_zero"

lemma half_pairs_nat:
  fixes M N :: u32
  assumes "unat M * (unat K div 2) \<le> 4294967296" "unat N * (unat K div 2) \<le> 4294967296" "unat row < unat M" "unat col < unat N"
  shows "half_pairs H a b K row col m = half_entry H a b (unat K div 2) m (unat row) (unat col)"
proof -
  have k: "unat (K div 2) = unat K div 2" by (simp add: unat_div)
  have ix: "unat (w * (K div 2) + of_nat p) = unat w * (unat K div 2) + p"
    if "unat w < unat W" "unat W * (unat K div 2) \<le> 4294967296" "p < unat K div 2" for w W :: u32 and p
  proof -
    have "unat w * (unat K div 2) + p < unat W * (unat K div 2)" by (rule cell_index_lt [OF that(1,3)])
    then have lt: "unat w * (unat K div 2) + p < 4294967296" using that(2) by linarith
    have "w * (K div 2) + of_nat p = of_nat (unat w * unat (K div 2) + p)" by simp
    then show ?thesis unfolding k using lt by (simp only: u32_thread)
  qed
  have "zip (map f [0..<n]) (map g [0..<n]) = map (\<lambda>p. (f p, g p)) [0..<n]" for f g :: "nat \<Rightarrow> f32" and n
    by (induction n) simp_all
  then show ?thesis unfolding half_pairs_def half_entry_def
    by (simp only: fold_map comp_def prod.case)
      (rule fold_cong, simp_all add: ix [OF assms(3,1)] ix [OF assms(4,2)])
qed

lemma la_f16_dispatch:
  assumes fits: "halves_fit M N K" and bufs: "a \<noteq> out" "b \<noteq> out" and order: "call_schedule (LA_gemm_f16_dot2 H out a b M N K) order"
  shows "r < unat M \<Longrightarrow> c < unat N \<Longrightarrow>
      dispatch (kc_thread (LA_gemm_f16_dot2 H out a b M N K)) order m (out, r * unat N + c) = half_entry H a b (unat K div 2) m r c"
    and "(\<And>r c. r < unat M \<Longrightarrow> c < unat N \<Longrightarrow> d \<noteq> (out, r * unat N + c)) \<Longrightarrow>
      dispatch (kc_thread (LA_gemm_f16_dot2 H out a b M N K)) order m d = m d"
proof -
  let ?gx = "unat (tile_count N)" and ?gy = "unat (tile_count M)"
  let ?thread = "la_f16_thread H out a b M N K (tile_count N)"
  have lim: "unat M \<le> 1048560" "unat N \<le> 1048560" using fits by (simp_all add: halves_fit_def)
  note cm = tile_count_covers [OF lim(1)] and cn = tile_count_covers [OF lim(2)]
  have "?gx * ?gy \<le> 65535 * 65535" by (rule mult_le_mono [OF cn(2) cm(2)])
  then have gg: "unat (tile_count N * tile_count M) = ?gx * ?gy" by (intro u32_mult_unat) simp
  have o: "mset order = mset [0..<?gx * ?gy * 256]"
    using order unfolding call_schedule_def LA_gemm_f16_dot2_def kernel_call.simps gg .
  have at: "?thread t m = (if nat_row ?gx t < unat M \<and> nat_col ?gx t < unat N
      then m((out, nat_row ?gx t * unat N + nat_col ?gx t) := half_entry H a b (unat K div 2) m (nat_row ?gx t) (nat_col ?gx t)) else m)"
    if t: "t < ?gx * ?gy * 256" for t m
  proof -
    have g: "t div 256 < ?gx * ?gy" using t by (simp add: less_mult_imp_div_less)
    then have gx0: "0 < ?gx" by (cases "?gx = 0") auto
    have gd: "t div 256 div ?gx < ?gy" using g by (simp add: less_mult_imp_div_less mult.commute)
    have "nat_row ?gx t < 4294967296" unfolding nat_row_def using gd cm(2) by (auto simp: less_mult_imp_div_less)
    moreover have "thread_row (tile_count N) t = of_nat (nat_row ?gx t)"
      by (simp add: thread_row_def gemm_row_def nat_row_def)
    ultimately have r: "unat (thread_row (tile_count N) t) = nat_row ?gx t" by (simp only: u32_thread)
    have "t div 256 mod ?gx < ?gx" using gx0 by simp
    then have "nat_col ?gx t < 4294967296" unfolding nat_col_def using cn(2) by auto
    moreover have "thread_col (tile_count N) t = of_nat (nat_col ?gx t)"
      by (simp add: thread_col_def gemm_col_def nat_col_def)
    ultimately have c: "unat (thread_col (tile_count N) t) = nat_col ?gx t" by (simp only: u32_thread)
    show ?thesis
    proof (cases "nat_row ?gx t < unat M \<and> nat_col ?gx t < unat N")
      case True
      have "nat_row ?gx t * unat N + nat_col ?gx t < unat M * unat N" using True by (intro cell_index_lt) simp_all
      then have lt: "nat_row ?gx t * unat N + nat_col ?gx t < 4294967296" using fits by (simp add: halves_fit_def)
      have "unat (thread_row (tile_count N) t * N) = nat_row ?gx t * unat N"
        using u32_mult_unat [of "thread_row (tile_count N) t" N] r lt by simp
      then have ix: "unat (thread_row (tile_count N) t * N + thread_col (tile_count N) t) = nat_row ?gx t * unat N + nat_col ?gx t"
        using u32_add_unat [of "thread_row (tile_count N) t * N" "thread_col (tile_count N) t"] c lt by simp
      have hp: "half_pairs H a b K (thread_row (tile_count N) t) (thread_col (tile_count N) t) m =
          half_entry H a b (unat K div 2) m (nat_row ?gx t) (nat_col ?gx t)"
        using half_pairs_nat [of M K N "thread_row (tile_count N) t" "thread_col (tile_count N) t"] fits True r c
        by (simp add: halves_fit_def)
      show ?thesis using True r c by (simp add: la_f16_thread_def Let_def word_le_nat_alt not_le ix hp)
    next
      case False
      then show ?thesis using r c by (auto simp: la_f16_thread_def Let_def word_le_nat_alt not_le)
    qed
  qed
  have loc: "half_entry H a b (unat K div 2) m r c = half_entry H a b (unat K div 2) m' r c"
    if "\<And>d. fst d \<noteq> out \<Longrightarrow> m d = m' d" for m m' r c
    using that bufs by (simp add: half_entry_def)
  have k: "kc_thread (LA_gemm_f16_dot2 H out a b M N K) = ?thread" by (simp add: LA_gemm_f16_dot2_def)
  note B = block_dispatch [where thread = ?thread and gx = ?gx and gy = ?gy and M = "unat M" and N = "unat N" and out = out
      and v = "\<lambda>r c m. half_entry H a b (unat K div 2) m r c", OF _ _ cm(1) cn(1) o]
  show "dispatch (kc_thread (LA_gemm_f16_dot2 H out a b M N K)) order m (out, r * unat N + c) = half_entry H a b (unat K div 2) m r c"
    if "r < unat M" "c < unat N"
    unfolding k by (rule B(1) [OF _ _ that]) (fact at, fact loc)
  show "dispatch (kc_thread (LA_gemm_f16_dot2 H out a b M N K)) order m d = m d"
    if "\<And>r c. r < unat M \<Longrightarrow> c < unat N \<Longrightarrow> d \<noteq> (out, r * unat N + c)"
    unfolding k by (rule B(2)) (fact at, fact loc, fact that)
qed

text \<open>
  The three half-precision entry points, \<open>BLAS::gemm_f16_dot2\<close>, \<open>LA::gemm_f16_dot2\<close> and \<open>LA::gemm_f16_wmma\<close>, dispatch the same
  computation for an even inner dimension: each, submitted behind any other work and awaited, leaves in
  every entry the pairwise dot product of the packed row of A and the packed column of B, accumulated in order by
  \<open>dot2add\<close>, for matrices of any size, and nothing else changed.
\<close>

theorem half_products_agree:
  assumes "halves_fit M N K" "K AND 1 = 0" "a \<noteq> out" "b \<noteq> out"
    and call: "c \<in> {BLAS_gemm_f16_dot2 F H out a b M N K, LA_gemm_f16_dot2 H out a b M N K, snd (LA_gemm_f16_wmma H out a b M N K)}"
    and "call_schedule c order" "ops_run m0 h ws" "length ws + 1 < 18446744073709551616" "\<And>s. s \<in> set ws \<Longrightarrow> fst s \<noteq> f" "e \<noteq> f"
  shows "\<exists>h' t. ops_submit e c order h = Some h' \<and> host_sync f h' = Some t \<and>
    (let m = fold exec_call ws m0
     in (\<forall>r < unat M. \<forall>q < unat N. tl_memory t (out, r * unat N + q) = half_entry H a b (unat K div 2) m r q) \<and>
        (\<forall>d. (\<forall>r < unat M. \<forall>q < unat N. d \<noteq> (out, r * unat N + q)) \<longrightarrow> tl_memory t d = m d))"
proof -
  have c: "c = LA_gemm_f16_dot2 H out a b M N K" using call blas_f16_is_la [OF assms(2)] by (auto simp: LA_gemm_f16_wmma_def)
  define m where "m = fold exec_call ws m0"
  obtain h' t where ht: "ops_submit e c order h = Some h'" "host_sync f h' = Some t"
      and mem: "tl_memory t = dispatch (kc_thread c) order m"
    using submit_then_sync [OF assms(7,8,6,9,10)] unfolding m_def by blast
  note d = la_f16_dispatch [OF assms(1,3,4) assms(6) [unfolded c], where m = m, folded c, folded mem]
  have "\<forall>r < unat M. \<forall>q < unat N. tl_memory t (out, r * unat N + q) = half_entry H a b (unat K div 2) m r q"
    by (simp add: d(1))
  moreover have "\<forall>d. (\<forall>r < unat M. \<forall>q < unat N. d \<noteq> (out, r * unat N + q)) \<longrightarrow> tl_memory t d = m d"
    using d(2) by blast
  ultimately show ?thesis using ht unfolding Let_def m_def by blast
qed

text \<open>Two rows, one column, an inner dimension of two.\<close>

theorem half_products_agree_witness:
  "\<exists>h' t. ops_submit 1 (snd (LA_gemm_f16_wmma \<lparr>hf_f16tof32 = id, hf_dot2add = (\<lambda>(p, q) (r, s) acc. acc + p * r + q * s)\<rparr> 5 6 7 2 1 2)) [0..<256]
      (ops_start (\<lambda>(b, i). if b = 6 then 0x20003 + of_nat i else 0x50004)) = Some h' \<and> host_sync 2 h' = Some t \<and>
    tl_memory t (5, 0) = 3 * 4 + 2 * 5 \<and> tl_memory t (5, 1) = 4 * 4 + 2 * 5"
proof -
  let ?H = "\<lparr>hf_f16tof32 = id, hf_dot2add = (\<lambda>(p, q) (r, s) acc. acc + p * r + q * s)\<rparr> :: half_ops"
  let ?m = "\<lambda>(b, i). if b = 6 then 0x20003 + of_nat i else 0x50004 :: f32"
  let ?c = "snd (LA_gemm_f16_wmma ?H 5 6 7 2 1 2)"
  have fits: "halves_fit 2 1 2" by (simp add: halves_fit_def)
  have s: "call_schedule ?c [0..<256]" by (simp add: call_schedule_def LA_gemm_f16_wmma_def LA_gemm_f16_dot2_def tile_count_def)
  have "\<exists>h' t. ops_submit 1 ?c [0..<256] (ops_start ?m) = Some h' \<and> host_sync 2 h' = Some t \<and>
    (let m = fold exec_call [] ?m
     in (\<forall>r < unat (2 :: u32). \<forall>q < unat (1 :: u32). tl_memory t (5, r * unat (1 :: u32) + q) = half_entry ?H 6 7 (unat (2 :: u32) div 2) m r q) \<and>
        (\<forall>d. (\<forall>r < unat (2 :: u32). \<forall>q < unat (1 :: u32). d \<noteq> (5, r * unat (1 :: u32) + q)) \<longrightarrow> tl_memory t d = m d))"
    by (rule half_products_agree [OF fits _ _ _ _ s ops_run.Start, where F = toy_floats]) simp_all
  then obtain h' t where ht: "ops_submit 1 ?c [0..<256] (ops_start ?m) = Some h'" "host_sync 2 h' = Some t"
      and v: "\<forall>r < 2. \<forall>q < 1. tl_memory t (5, r * 1 + q) = half_entry ?H 6 7 1 ?m r q"
    by (auto simp: Let_def)
  have "tl_memory t (5, 0) = 3 * 4 + 2 * 5" "tl_memory t (5, 1) = 4 * 4 + 2 * 5"
    using v [rule_format, of 0 0] v [rule_format, of 1 0] by (simp_all add: half_entry_def unpack_half2_def)
  then show ?thesis using ht by blast
qed

end
