(* ===== verification/JitKernels.thy ===== *)
theory JitKernels
  imports TiledGemm TextFormat Attention
begin

text \<open>
  Shader compilation and its cache, \<open>src/dxjit/dxjit.cpp\<close>, and three users of it: the kernel generator
  \<open>src/dxtriton/dxtriton.cpp\<close>, the draft verification \<open>src/dxspeculative/dxspeculative.cpp\<close> and the random numbers
  \<open>src/dxrand/dxrand.cpp\<close>.

  The compiler DXC and the device are arguments; the pipeline a root signature and a binary give is a value.
\<close>

section \<open>\<open>ShaderCompiler\<close>\<close>

text \<open>What \<open>Compile\<close> delivers: a status, the error text if there is one, and the binary.\<close>

record dxc_result =
  dr_ok :: bool
  dr_errors :: "string option"
  dr_object :: string

text \<open>\<open>None\<close> stands for a failed call of the interface.\<close>

record 'pso dxc_env =
  dx_source_blob :: "string \<Rightarrow> bool"
  dx_include_handler :: bool
  dx_compile :: "string \<Rightarrow> string list \<Rightarrow> dxc_result option"
  dx_create_pso :: "nat \<Rightarrow> string \<Rightarrow> 'pso option"

type_synonym macro = "string \<times> string"

definition compile_arguments :: "string \<Rightarrow> string \<Rightarrow> macro list \<Rightarrow> string list" where
  "compile_arguments entry_point target_profile macros =
    [''-E'', entry_point, ''-T'', target_profile, ''-O3'', ''-enable-16bit-types''] @
    concat (map (\<lambda>(name, val). [''-D'', name @ ''='' @ val]) macros)"

definition compile_hlsl :: "'pso dxc_env \<Rightarrow> string \<Rightarrow> string \<Rightarrow> string \<Rightarrow> macro list \<Rightarrow> string + string" where
  "compile_hlsl D hlsl_source entry_point target_profile macros =
    (if \<not> dx_source_blob D hlsl_source then Inl ''Failed to create source blob''
     else if \<not> dx_include_handler D then Inl ''Failed to create default include handler''
     else case dx_compile D hlsl_source (compile_arguments entry_point target_profile macros) of
            None \<Rightarrow> Inl ''DXC compilation failed''
          | Some r \<Rightarrow>
              if \<not> dr_ok r
              then (case dr_errors r of
                      Some e \<Rightarrow> if length e > 0 then Inl (''Shader compilation errors:'' @ [CHR 10] @ e)
                                else Inl ''Shader compilation failed without error string''
                    | None \<Rightarrow> Inl ''Shader compilation failed without error string'')
              else Inr (dr_object r))"

definition create_compute_pso :: "'pso dxc_env \<Rightarrow> nat \<Rightarrow> string \<Rightarrow> string + 'pso" where
  "create_compute_pso D root_sig dxil_blob =
    (case dx_create_pso D root_sig dxil_blob of None \<Rightarrow> Inl ''CreateComputePipelineState failed'' | Some p \<Rightarrow> Inr p)"

text \<open>Serialisation of a root signature: its error text or the serialised blob, then the device.\<close>

definition create_root_signature :: "(string option + 'blob) \<Rightarrow> ('blob \<Rightarrow> 'sig option) \<Rightarrow> string + 'sig" where
  "create_root_signature serialized create =
    (case serialized of
       Inl (Some e) \<Rightarrow> Inl e
     | Inl None \<Rightarrow> Inl ''D3D12SerializeRootSignature failed''
     | Inr b \<Rightarrow> (case create b of None \<Rightarrow> Inl ''CreateRootSignature failed'' | Some s \<Rightarrow> Inr s))"

section \<open>\<open>PipelineCache\<close>\<close>

text \<open>A request: source, root signature, entry point, macros, profile.\<close>

type_synonym pipeline_request = "string \<times> nat \<times> string \<times> macro list \<times> string"

definition compile_pipeline :: "'pso dxc_env \<Rightarrow> pipeline_request \<Rightarrow> string + 'pso" where
  "compile_pipeline D req =
    (case req of (hlsl_source, root_sig, entry_point, macros, target_profile) \<Rightarrow>
      case compile_hlsl D hlsl_source entry_point target_profile macros of
        Inl e \<Rightarrow> Inl e
      | Inr blob \<Rightarrow> create_compute_pso D root_sig blob)"

definition get_or_compile :: "'pso dxc_env \<Rightarrow> string \<Rightarrow> pipeline_request \<Rightarrow> (string \<rightharpoonup> 'pso) \<Rightarrow> (string + 'pso) \<times> (string \<rightharpoonup> 'pso)" where
  "get_or_compile D key req cache =
    (case cache key of
       Some p \<Rightarrow> (Inr p, cache)
     | None \<Rightarrow> (case compile_pipeline D req of
         Inl e \<Rightarrow> (Inl e, cache)
       | Inr p \<Rightarrow> (Inr p, cache(key \<mapsto> p))))"

text \<open>Calls one after the other, each with the compiler as it is at that time.\<close>

fun cache_run :: "('pso dxc_env \<times> string \<times> pipeline_request) list \<Rightarrow> (string \<rightharpoonup> 'pso) \<Rightarrow> (string + 'pso) list \<times> (string \<rightharpoonup> 'pso)" where
  "cache_run [] cache = ([], cache)"
| "cache_run ((D, key, req) # calls) cache =
    (let (r, cache1) = get_or_compile D key req cache; (rs, cache2) = cache_run calls cache1 in (r # rs, cache2))"

text \<open>A cache holds pipelines of the requests their keys stand for only.\<close>

definition cache_typed :: "'pso dxc_env \<Rightarrow> (string \<Rightarrow> pipeline_request) \<Rightarrow> (string \<rightharpoonup> 'pso) \<Rightarrow> bool" where
  "cache_typed D req_of cache \<longleftrightarrow> (\<forall>key p. cache key = Some p \<longrightarrow> compile_pipeline D (req_of key) = Inr p)"

lemma get_or_compile_typed:
  assumes "cache_typed D req_of cache"
  shows "fst (get_or_compile D key (req_of key) cache) = compile_pipeline D (req_of key)"
    and "cache_typed D req_of (snd (get_or_compile D key (req_of key) cache))"
  using assms by (auto simp: get_or_compile_def cache_typed_def split: option.splits sum.splits)

text \<open>As long as every key is used for one request, the cache stays well typed.\<close>

lemma pipeline_cache_typed:
  assumes "cache_typed D req_of cache"
  shows "fst (cache_run (map (\<lambda>key. (D, key, req_of key)) keys) cache) = map (\<lambda>key. compile_pipeline D (req_of key)) keys \<and>
    cache_typed D req_of (snd (cache_run (map (\<lambda>key. (D, key, req_of key)) keys) cache))"
  using assms
proof (induction keys arbitrary: cache)
  case (Cons key keys)
  note g = get_or_compile_typed [OF Cons.prems, of key]
  show ?case using Cons.IH [OF g(2)] g(1) by (simp add: case_prod_unfold Let_def)
qed simp

text \<open>
  What a call gives in general: the first pipeline that an earlier call under its key compiled, and else what it
  compiles itself. Errors are not kept.
\<close>

fun first_ok :: "('e + 'p) \<Rightarrow> ('e + 'p) list \<Rightarrow> 'e + 'p" where
  "first_ok own [] = own"
| "first_ok own (r # rs) = (case r of Inr p \<Rightarrow> Inr p | Inl _ \<Rightarrow> first_ok own rs)"

lemma cache_run_nth:
  assumes "i < length calls"
  shows "fst (cache_run calls cache) ! i =
    (case cache (fst (snd (calls ! i))) of
       Some p \<Rightarrow> Inr p
     | None \<Rightarrow> first_ok (compile_pipeline (fst (calls ! i)) (snd (snd (calls ! i))))
         (map (\<lambda>(D, key, req). compile_pipeline D req)
           (filter (\<lambda>c. fst (snd c) = fst (snd (calls ! i))) (take i calls))))"
  using assms
proof (induction calls arbitrary: cache i)
  case (Cons c calls)
  obtain D key req where c: "c = (D, key, req)" by (cases c)
  show ?case
  proof (cases i)
    case 0
    then show ?thesis
      by (simp add: c get_or_compile_def case_prod_unfold Let_def split: option.splits sum.splits)
  next
    case (Suc j)
    then have "j < length calls" using Cons.prems by simp
    from Cons.IH [OF this, of "snd (get_or_compile D key req cache)"] show ?thesis
      by (auto simp: c Suc get_or_compile_def case_prod_unfold Let_def split: option.splits sum.splits)
  qed
qed simp

section \<open>The pipelines of each class\<close>

text \<open>
  A site is a call of \<open>get_or_compile\<close> in the library: key, name of the constant that holds the source, entry
  point. Every class has a cache and a root signature of its own; \<open>TritonJIT\<close>, whose keys are arguments,
  is below.
\<close>

type_synonym kernel_site = "string \<times> string \<times> string"

definition blas_sites :: "kernel_site list" where
  "blas_sites = [(''vec_add'', ''g_vec_add_hlsl'', ''vec_add''), (''gemm_tiled'', ''g_gemm_tiled_hlsl'', ''gemm_tiled''),
    (''gemm_f16_dot2'', ''g_gemm_f16_dot2_hlsl'', ''gemm_f16_dot2'')]"

definition attention_site :: "AttentionMechanism \<Rightarrow> kernel_site" where
  "attention_site mechanism =
    (case mechanism of
       FlashAttention \<Rightarrow> (''flash_attn'', ''g_flash_hlsl'', ''flash_attn'')
     | ChunkedPrefill \<Rightarrow> (''flash_attn'', ''g_flash_hlsl'', ''flash_attn'')
     | RingAttention \<Rightarrow> (''flash_attn'', ''g_flash_hlsl'', ''flash_attn'')
     | LinearAttention \<Rightarrow> (''linear_attn'', ''g_linear_hlsl'', ''linear_attn'')
     | PagedAttention \<Rightarrow> (''paged_attn'', ''g_paged_hlsl'', ''paged_attn'')
     | HeavyHitterH2O \<Rightarrow> (''h2o_attn'', ''g_h2o_hlsl'', ''h2o_attn'')
     | _ \<Rightarrow> (''sdpa'', ''g_sdpa_hlsl'', ''sdpa''))"

definition hadamard_site :: kernel_site where
  "hadamard_site = (''hadamard_stage'', ''g_hadamard_hlsl'', ''hadamard_kernel'')"

definition fft_sites :: "kernel_site list" where
  "fft_sites = [(''fft_bit_reverse'', ''g_bit_reverse_hlsl'', ''bit_reverse_kernel''),
    (''fft_stage'', ''g_fft_stage_hlsl'', ''fft_stage_kernel'')]"

definition la_sites :: "kernel_site list" where
  "la_sites = [(''la_elementwise'', ''g_elementwise_hlsl'', ''main''), (''la_activation'', ''g_activation_hlsl'', ''main''),
    (''la_rmsnorm'', ''g_rmsnorm_hlsl'', ''main''), (''la_softmax'', ''g_softmax_hlsl'', ''main''),
    (''la_reduce'', ''g_reduce_hlsl'', ''main''), (''la_gemm_f16_dot2'', ''g_gemm_f16_dot2_hlsl'', ''main'')]"

definition dequant_site :: kernel_site where
  "dequant_site = (''dequant_q4_0'', ''g_dequant_q4_0_hlsl'', ''dequant_q4_0'')"

definition math_sites :: "kernel_site list" where
  "math_sites = [(''rms_norm'', ''g_rms_norm_hlsl'', ''rms_norm''), (''softmax'', ''g_softmax_hlsl'', ''softmax''),
    (''rope'', ''g_rope_hlsl'', ''rope'')]"

definition speculative_site :: kernel_site where
  "speculative_site = (''speculative_verify'', ''hlsl_src'', ''speculative_verify_kernel'')"

definition rand_site :: kernel_site where
  "rand_site = (''rand_fill'', ''g_rand_hlsl'', ''rand_fill'')"

datatype kernel_class = BLAS | AttentionOps | AdvancedKVCache | FFTOps | LA | QuantOps | MathOps | SpeculativeEngine |
  RandomGenerator

definition mechanisms :: "AttentionMechanism list" where
  "mechanisms = [MHA, GQA, MQA, FlashAttention, SlidingWindow, PagedAttention, ChunkedPrefill, RingAttention,
    HeavyHitterH2O, LinearAttention]"

definition kernel_sites :: "kernel_class \<Rightarrow> kernel_site list" where
  "kernel_sites c =
    (case c of
       BLAS \<Rightarrow> blas_sites
     | AttentionOps \<Rightarrow> map attention_site mechanisms
     | AdvancedKVCache \<Rightarrow> [hadamard_site]
     | FFTOps \<Rightarrow> fft_sites
     | LA \<Rightarrow> la_sites
     | QuantOps \<Rightarrow> [dequant_site]
     | MathOps \<Rightarrow> math_sites
     | SpeculativeEngine \<Rightarrow> [speculative_site]
     | RandomGenerator \<Rightarrow> [rand_site])"

text \<open>The request of a site, with \<open>text\<close> the sources behind the names; no macros, the default profile.\<close>

definition site_request :: "(string \<Rightarrow> string) \<Rightarrow> nat \<Rightarrow> kernel_site \<Rightarrow> pipeline_request" where
  "site_request source root_sig site = (source (fst (snd site)), root_sig, snd (snd site), [], ''cs_6_6'')"

definition site_call ::
  "(string \<Rightarrow> string) \<Rightarrow> nat \<Rightarrow> 'pso dxc_env \<times> kernel_site \<Rightarrow> 'pso dxc_env \<times> string \<times> pipeline_request" where
  "site_call source root_sig c = (fst c, fst (snd c), site_request source root_sig (snd c))"

lemma attention_site_listed: "attention_site mechanism \<in> set (kernel_sites AttentionOps)"
proof -
  have "mechanism \<in> set mechanisms" by (cases mechanism) (simp_all add: mechanisms_def)
  then show ?thesis by (simp add: kernel_sites_def)
qed

definition keys_decide :: "kernel_site list \<Rightarrow> bool" where
  "keys_decide sites \<longleftrightarrow> list_all (\<lambda>s. list_all (\<lambda>s'. fst s = fst s' \<longrightarrow> s = s') sites) sites"

lemma class_keys_decide: "keys_decide (kernel_sites c)"
  by (cases c) (simp_all only:, code_simp+)

lemma one_site_per_key:
  "s \<in> set (kernel_sites c) \<Longrightarrow> s' \<in> set (kernel_sites c) \<Longrightarrow> fst s = fst s' \<Longrightarrow> s = s'"
  using class_keys_decide [of c] by (simp add: keys_decide_def list_all_iff)

text \<open>
  C27. The pipelines of every class but \<open>TritonJIT\<close>: on the cache of one object, empty at first, and for any
  sequence of the calls the class makes, with a compiler that may fail at some times and not at
  others, a call gives the pipeline of its own source, entry point and root signature: the one
  compiled by the first call of the same kernel that succeeded, else the result of compiling it now, error
  text included. No call gets a pipeline of another kernel, no failure is kept, and nothing is
  compiled twice. \<open>TritonJIT\<close> is excepted because it files different sources under one key
  (\<open>second_spec_gets_first_pipeline\<close>).
\<close>

theorem class_pipelines_exact:
  assumes "set (map snd calls) \<subseteq> set (kernel_sites c)" "i < length calls"
  shows "fst (cache_run (map (site_call source root_sig) calls) Map.empty) ! i =
    (let own = site_request source root_sig (snd (calls ! i))
     in first_ok (compile_pipeline (fst (calls ! i)) own)
          (map (\<lambda>(D, _). compile_pipeline D own) (filter (\<lambda>(_, s). s = snd (calls ! i)) (take i calls))))"
proof -
  let ?own = "site_request source root_sig (snd (calls ! i))"
  have same: "fst s = fst (snd (calls ! i)) \<longleftrightarrow> s = snd (calls ! i)" if "(D, s) \<in> set (take i calls)" for D s
  proof -
    have "(D, s) \<in> set calls" using that by (rule in_set_takeD)
    then have "s \<in> set (kernel_sites c)" "snd (calls ! i) \<in> set (kernel_sites c)"
      using assms by force+
    then show ?thesis using one_site_per_key by blast
  qed
  have "filter (\<lambda>x. fst (snd (site_call source root_sig x)) = fst (snd (site_call source root_sig (calls ! i)))) (take i calls) =
      filter (\<lambda>(_, s). s = snd (calls ! i)) (take i calls)"
    using same by (intro filter_cong) (auto simp: site_call_def)
  then have "fst (cache_run (map (site_call source root_sig) calls) Map.empty) ! i =
      first_ok (compile_pipeline (fst (calls ! i)) ?own)
        (map (\<lambda>x. compile_pipeline (fst x) (site_request source root_sig (snd x)))
          (filter (\<lambda>(_, s). s = snd (calls ! i)) (take i calls)))"
    using cache_run_nth [of i "map (site_call source root_sig) calls" Map.empty] assms(2)
    by (simp add: take_map filter_map comp_def site_call_def case_prod_unfold)
  also have "map (\<lambda>x. compile_pipeline (fst x) (site_request source root_sig (snd x)))
      (filter (\<lambda>(_, s). s = snd (calls ! i)) (take i calls)) =
      map (\<lambda>(D, _). compile_pipeline D ?own) (filter (\<lambda>(_, s). s = snd (calls ! i)) (take i calls))"
    by (rule map_cong) auto
  finally show ?thesis unfolding Let_def .
qed

definition toy_dxc :: "string dxc_env" where
  "toy_dxc = \<lparr> dx_source_blob = (\<lambda>_. True), dx_include_handler = True,
    dx_compile = (\<lambda>src args. Some \<lparr> dr_ok = src \<noteq> [], dr_errors = None, dr_object = src @ concat args \<rparr>),
    dx_create_pso = (\<lambda>_ blob. Some blob) \<rparr>"

definition broken_dxc :: "string dxc_env" where
  "broken_dxc = toy_dxc\<lparr>dx_include_handler := False\<rparr>"

theorem class_pipelines_exact_witness:
  "fst (cache_run (map (site_call tl 7) [(broken_dxc, rand_site), (toy_dxc, rand_site), (broken_dxc, rand_site)]) Map.empty) ! 2 =
    Inr ''_rand_hlsl-Erand_fill-Tcs_6_6-O3-enable-16bit-types''"
proof -
  let ?calls = "[(broken_dxc, rand_site), (toy_dxc, rand_site), (broken_dxc, rand_site)]"
  have "set (map snd ?calls) \<subseteq> set (kernel_sites RandomGenerator)" "2 < length ?calls"
    by (simp_all add: kernel_sites_def)
  note w = class_pipelines_exact [OF this, where source = tl and root_sig = 7]
  show ?thesis
    unfolding w
    by (simp add: Let_def numeral_2_eq_2 site_request_def rand_site_def broken_dxc_def compile_pipeline_def compile_hlsl_def
        create_compute_pso_def compile_arguments_def toy_dxc_def)
qed

text \<open>A key decides alone: another source under a known key is not compiled, whatever it says.\<close>

lemma known_key_decides: "cache key = Some p \<Longrightarrow> get_or_compile D key req cache = (Inr p, cache)"
  by (simp add: get_or_compile_def)

section \<open>\<open>TritonJIT\<close>\<close>

record TritonKernelSpec =
  tk_kernel_name :: string
  tk_block_m :: u32
  tk_block_n :: u32
  tk_block_k :: u32
  tk_num_warps :: u32
  tk_wave_size :: u32

definition nl :: string where "nl = [CHR 10]"

definition generate_triton_matmul_hlsl :: "TritonKernelSpec \<Rightarrow> string" where
  "generate_triton_matmul_hlsl spec =
    ''// DXAiT AITER/Triton-JIT Auto-Generated HLSL Compute Shader'' @ nl @
    ''// Spec: Block ('' @ to_string_u32 (tk_block_m spec) @ ''x'' @ to_string_u32 (tk_block_n spec) @ ''x'' @
      to_string_u32 (tk_block_k spec) @ ''), Warps: '' @ to_string_u32 (tk_num_warps spec) @ nl @
    ''RWStructuredBuffer<float> g_out : register(u0);'' @ nl @
    ''StructuredBuffer<float> g_a : register(t0);'' @ nl @
    ''StructuredBuffer<float> g_b : register(t1);'' @ nl @ nl @
    ''cbuffer TritonCB : register(b0) {'' @ nl @
    ''    uint g_M;'' @ nl @ ''    uint g_N;'' @ nl @ ''    uint g_K;'' @ nl @ ''    uint g_pad;'' @ nl @ ''};'' @ nl @ nl @
    ''[numthreads('' @ to_string_u32 (tk_wave_size spec) @ '', 1, 1)]'' @ nl @
    ''void triton_matmul_kernel(uint3 id : SV_DispatchThreadID, uint3 group_id : SV_GroupID, uint tid : SV_GroupIndex) {'' @ nl @
    ''    uint row = group_id.y * '' @ to_string_u32 (tk_block_m spec) @ '' + tid;'' @ nl @
    ''    uint col = group_id.x * '' @ to_string_u32 (tk_block_n spec) @ '' + tid;'' @ nl @
    ''    if (row >= g_M || col >= g_N) return;'' @ nl @
    ''    float sum = 0.0f;'' @ nl @
    ''    for (uint k = 0; k < g_K; ++k) {'' @ nl @
    ''        sum += g_a[row * g_K + k] * g_b[k * g_N + col];'' @ nl @
    ''    }'' @ nl @
    ''    g_out[row * g_N + col] = sum;'' @ nl @
    ''}'' @ nl"

definition generate_triton_attention_hlsl :: "TritonKernelSpec \<Rightarrow> string" where
  "generate_triton_attention_hlsl spec =
    ''// DXAiT AITER/Triton-JIT FlashAttention HLSL Shader'' @ nl @
    ''RWStructuredBuffer<float> g_out : register(u0);'' @ nl @
    ''StructuredBuffer<float> g_q : register(t0);'' @ nl @
    ''StructuredBuffer<float> g_k : register(t1);'' @ nl @
    ''StructuredBuffer<float> g_v : register(t2);'' @ nl @ nl @
    ''[numthreads('' @ to_string_u32 (tk_wave_size spec) @ '', 1, 1)]'' @ nl @
    ''void triton_attention_kernel(uint3 id : SV_DispatchThreadID) {'' @ nl @
    ''    g_out[id.x] = g_q[id.x] * g_k[id.x];'' @ nl @
    ''}'' @ nl"

text \<open>The key of the cache is the entry point; a null root signature is the object's own.\<close>

definition compile_triton_kernel ::
  "'pso dxc_env \<Rightarrow> nat \<Rightarrow> string \<Rightarrow> string \<Rightarrow> nat option \<Rightarrow> (string \<rightharpoonup> 'pso) \<Rightarrow> (string + 'pso) \<times> (string \<rightharpoonup> 'pso)" where
  "compile_triton_kernel D own_root_sig hlsl_source entry_point root_sig cache =
    get_or_compile D entry_point
      (hlsl_source, (case root_sig of Some r \<Rightarrow> r | None \<Rightarrow> own_root_sig), entry_point, [], ''cs_6_6'') cache"

text \<open>
  All generated products have one entry point, so the second specification an object compiles gets the pipeline of
  the first.
\<close>

lemma second_spec_gets_first_pipeline:
  assumes "compile_triton_kernel D own (generate_triton_matmul_hlsl spec1) ''triton_matmul_kernel'' own_sig cache = (Inr p, cache')"
  shows "compile_triton_kernel D own (generate_triton_matmul_hlsl spec2) ''triton_matmul_kernel'' own_sig cache' = (Inr p, cache')"
proof -
  have "cache' ''triton_matmul_kernel'' = Some p"
    using assms by (auto simp: compile_triton_kernel_def get_or_compile_def split: option.splits sum.splits)
  then show ?thesis by (simp add: compile_triton_kernel_def known_key_decides)
qed

text \<open>The generated kernel: thread \<open>tid\<close> of a group works on row and column \<open>tid\<close> of the block.\<close>

definition triton_matmul_thread ::
  "float_ops \<Rightarrow> TritonKernelSpec \<Rightarrow> nat \<Rightarrow> nat \<Rightarrow> nat \<Rightarrow> u32 \<Rightarrow> u32 \<Rightarrow> u32 \<Rightarrow> u32 \<Rightarrow> nat \<Rightarrow> gpu_mem \<Rightarrow> gpu_mem" where
  "triton_matmul_thread F spec out a b g_M g_N g_K grid_x t m =
    (let tid = of_nat (t mod unat (tk_wave_size spec)); g = t div unat (tk_wave_size spec);
         row = of_nat (g div unat grid_x) * tk_block_m spec + tid;
         col = of_nat (g mod unat grid_x) * tk_block_n spec + tid
     in if row \<ge> g_M \<or> col \<ge> g_N then m
        else m((out, unat (row * g_N + col)) :=
          fold (\<lambda>k sum. fo_add F sum (fo_mul F (m (a, unat (row * g_K + of_nat k))) (m (b, unat (of_nat k * g_N + col)))))
            [0..<unat g_K] f32_zero))"

text \<open>\<open>dispatch_triton_kernel\<close>: a grid for blocks of 64 whatever the specification; it waits for a fence of its own.\<close>

definition dispatch_triton_kernel ::
  "float_ops \<Rightarrow> TritonKernelSpec \<Rightarrow> nat \<Rightarrow> nat \<Rightarrow> nat \<Rightarrow> u32 \<Rightarrow> u32 \<Rightarrow> u32 \<Rightarrow> kernel_call" where
  "dispatch_triton_kernel F spec out a b M N K =
    \<lparr> kc_thread = triton_matmul_thread F spec out a b M N K (group_count N),
      kc_groups = group_count N * group_count M, kc_size = unat (tk_wave_size spec) \<rparr>"

definition triton_spec :: TritonKernelSpec where
  "triton_spec = \<lparr> tk_kernel_name = [], tk_block_m = 64, tk_block_n = 64, tk_block_k = 32, tk_num_warps = 4, tk_wave_size = 32 \<rparr>"

text \<open>
  With the default specification a product of two by two entries: only the diagonal of each block is computed.
\<close>

lemma triton_diagonal:
  assumes "t < 32"
  shows "triton_matmul_thread F triton_spec out a b 2 2 g_K 1 t m (out, 1) = m (out, 1)"
proof -
  have t: "unat (of_nat t :: u32) = t" using assms by (intro u32_thread) simp
  have "t = 0 \<or> t = 1 \<or> 2 \<le> t" by linarith
  then show ?thesis
    using assms t by (elim disjE) (simp_all add: triton_matmul_thread_def triton_spec_def Let_def word_le_nat_alt)
qed

lemma triton_off_diagonal_unwritten:
  assumes "call_schedule (dispatch_triton_kernel F triton_spec out a b 2 2 K) order"
  shows "dispatch (kc_thread (dispatch_triton_kernel F triton_spec out a b 2 2 K)) order m (out, 1) = m (out, 1)"
proof -
  have "mset order = mset [0..<32]"
    using assms unfolding call_schedule_def by (simp add: dispatch_triton_kernel_def triton_spec_def group_count_def)
  from mset_eq_setD [OF this] have "\<forall>t \<in> set order. t < 32" by simp
  then show ?thesis
  proof (induction order arbitrary: m)
    case (Cons t order)
    have g: "group_count 2 = 1" by (simp add: group_count_def)
    have "dispatch (kc_thread (dispatch_triton_kernel F triton_spec out a b 2 2 K)) (t # order) m (out, 1) =
        kc_thread (dispatch_triton_kernel F triton_spec out a b 2 2 K) t m (out, 1)"
      using Cons.IH Cons.prems by (simp add: dispatch_def)
    also have "\<dots> = m (out, 1)" using triton_diagonal Cons.prems by (simp add: dispatch_triton_kernel_def g)
    finally show ?case .
  qed (simp add: dispatch_def)
qed

section \<open>\<open>SpeculativeEngine\<close>\<close>

text \<open>A thread that stores its own entry, from buffers the dispatch does not write.\<close>

lemma entry_dispatch:
  assumes at: "\<And>t m. t < bound \<Longrightarrow> thread t m = (if t < n then m((out, t) := v t m) else m)"
    and loc: "\<And>t m m'. (\<And>c. fst c \<noteq> out \<Longrightarrow> m c = m' c) \<Longrightarrow> v t m = v t m'"
    and cover: "n \<le> bound" and order: "mset order = mset [0..<bound]"
  shows "i < n \<Longrightarrow> dispatch thread order m (out, i) = v i m"
    and "(\<And>i. i < n \<Longrightarrow> c \<noteq> (out, i)) \<Longrightarrow> dispatch thread order m c = m c"
proof -
  have D: "disjoint_threads thread (\<lambda>t. if t < n then {(out, t)} else {}) (\<lambda>_. {c. fst c \<noteq> out}) bound"
  proof (unfold_locales, goal_cases)
    case (2 t m m' c)
    then have "v t m = v t m'" by (intro loc) simp
    then show ?case using 2(1,3) by (simp add: at split: if_splits)
  qed (auto simp: at split: if_splits)
  have "set order = set [0..<bound]" by (rule mset_eq_setD [OF order])
  then have s: "t \<in> set order \<longleftrightarrow> t < bound" for t by simp
  have d: "distinct order" using mset_eq_imp_distinct_iff [OF order] by simp
  show "i < n \<Longrightarrow> dispatch thread order m (out, i) = v i m"
    using disjoint_threads.dispatch_writes [OF D d, of i "(out, i)" m] s cover at [of i m] by simp
  show "(\<And>i. i < n \<Longrightarrow> c \<noteq> (out, i)) \<Longrightarrow> dispatch thread order m c = m c"
    by (rule disjoint_threads.dispatch_frame [OF D]) (use s in auto)
qed

definition speculative_ratio :: "float_ops \<Rightarrow> nat \<Rightarrow> nat \<Rightarrow> u32 \<Rightarrow> u32 \<Rightarrow> gpu_mem \<Rightarrow> f32" where
  "speculative_ratio F target draft g_vocab_size tok m =
    (let p_target = (if tok < g_vocab_size then m (target, unat tok) else f32_zero);
         p_draft = (if tok < g_vocab_size then m (draft, unat tok) else f32_zero)
     in if fo_less F 0x2B8CBCCC p_draft then fo_div F p_target p_draft else f32_zero)"

definition speculative_thread ::
  "float_ops \<Rightarrow> nat \<Rightarrow> nat \<Rightarrow> nat \<Rightarrow> nat \<Rightarrow> u32 \<Rightarrow> u32 \<Rightarrow> f32 \<Rightarrow> nat \<Rightarrow> gpu_mem \<Rightarrow> gpu_mem" where
  "speculative_thread F accept target draft tokens g_num_draft_tokens g_vocab_size g_random_val t m =
    (let token_idx = of_nat t :: u32
     in if token_idx \<ge> g_num_draft_tokens then m
        else let ratio = speculative_ratio F target draft g_vocab_size (m (tokens, unat token_idx)) m;
                 r = g_random_val
             in m((accept, unat token_idx) := (if fo_less F r ratio \<or> fo_eq F r ratio then 1 else 0)))"

text \<open>\<open>(num_draft_tokens + 31) / 32\<close> groups of 32 threads.\<close>

definition verify_draft_tokens ::
  "float_ops \<Rightarrow> nat \<Rightarrow> nat \<Rightarrow> nat \<Rightarrow> nat \<Rightarrow> u32 \<Rightarrow> u32 \<Rightarrow> f32 \<Rightarrow> kernel_call" where
  "verify_draft_tokens F accept target draft tokens num_draft_tokens vocab_size random_val =
    \<lparr> kc_thread = speculative_thread F accept target draft tokens num_draft_tokens vocab_size random_val,
      kc_groups = (num_draft_tokens + 31) div 32, kc_size = 32 \<rparr>"

text \<open>
  A verification of draft tokens, submitted behind any other work and awaited: entry \<open>i\<close> of the mask is 1 exactly
  when the random value is at most the quotient of the target's and the draft's probability of token \<open>i\<close>, a token
  outside the vocabulary or one the draft hardly gives any probability counting as quotient 0;
  nothing else changes.
\<close>

theorem speculative_verdicts:
  assumes "unat n \<le> 2097120" "accept \<noteq> target" "accept \<noteq> draft" "accept \<noteq> tokens"
    and "call_schedule (verify_draft_tokens F accept target draft tokens n vocab r) order"
    and "ops_run m0 h ws" "length ws + 1 < 18446744073709551616" "\<And>s. s \<in> set ws \<Longrightarrow> fst s \<noteq> f" "e \<noteq> f"
  shows "\<exists>h' t. ops_submit e (verify_draft_tokens F accept target draft tokens n vocab r) order h = Some h' \<and> host_sync f h' = Some t \<and>
    (let m = fold exec_call ws m0
     in (\<forall>i < unat n. tl_memory t (accept, i) =
           (let q = speculative_ratio F target draft vocab (m (tokens, i)) m in if fo_less F r q \<or> fo_eq F r q then 1 else 0)) \<and>
        (\<forall>c. (\<forall>i < unat n. c \<noteq> (accept, i)) \<longrightarrow> tl_memory t c = m c))"
proof -
  let ?c = "verify_draft_tokens F accept target draft tokens n vocab r"
  let ?v = "\<lambda>i m. let q = speculative_ratio F target draft vocab (m (tokens, i)) m in if fo_less F r q \<or> fo_eq F r q then 1 else 0 :: f32"
  define m where "m = fold exec_call ws m0"
  obtain h' t where ht: "ops_submit e ?c order h = Some h'" "host_sync f h' = Some t"
      and mem: "tl_memory t = dispatch (kc_thread ?c) order m"
    using submit_then_sync [OF assms(6,7,5,8,9)] unfolding m_def by blast
  have "unat (n + 31) = unat n + 31" using u32_add_unat [of n 31] assms(1) by simp
  then have g: "unat ((n + 31) div 32) = (unat n + 31) div 32" by (simp add: unat_div)
  have b: "(unat n + 31) div 32 * 32 < 4294967296" using assms(1) by linarith
  have at: "kc_thread ?c t m = (if t < unat n then m((accept, t) := ?v t m) else m)" if "t < (unat n + 31) div 32 * 32" for t m
  proof -
    have "t < 4294967296" using that b by linarith
    then show ?thesis
      by (simp add: verify_draft_tokens_def speculative_thread_def Let_def u32_thread u32_thread_le)
  qed
  have loc: "?v t m = ?v t m'" if "\<And>c. fst c \<noteq> accept \<Longrightarrow> m c = m' c" for t m m'
    using that assms(2-4) by (simp add: speculative_ratio_def Let_def)
  have o: "mset order = mset [0..<(unat n + 31) div 32 * 32]"
    using assms(5) unfolding call_schedule_def verify_draft_tokens_def kernel_call.simps g .
  have cover: "unat n \<le> (unat n + 31) div 32 * 32" by presburger
  note E = entry_dispatch [where v = ?v and out = accept, OF _ _ cover o]
  have "tl_memory t (accept, i) = ?v i m" if i: "i < unat n" for i
    unfolding mem by (rule E(1) [OF _ _ i]) (fact at, fact loc)
  moreover have "tl_memory t c = m c" if c: "\<And>i. i < unat n \<Longrightarrow> c \<noteq> (accept, i)" for c
    unfolding mem by (rule E(2)) (fact at, fact loc, fact c)
  ultimately show ?thesis using ht unfolding Let_def m_def by blast
qed

text \<open>Tokens 1 and 9 of a vocabulary of 4, of which the second does not exist.\<close>

theorem speculative_verdicts_witness:
  "\<exists>h' t. ops_submit 1 (verify_draft_tokens toy_floats 5 6 7 8 2 4 2) [0..<32]
      (ops_start (\<lambda>(b, i). if b = 8 then of_nat (1 + 8 * i) else if b = 6 then 0x90000000 else 0x30000000)) = Some h' \<and>
    host_sync 2 h' = Some t \<and> tl_memory t (5, 0) = 1 \<and> tl_memory t (5, 1) = 0"
proof -
  let ?m = "\<lambda>(b, i). if b = 8 then of_nat (1 + 8 * i) else if b = 6 then 0x90000000 else 0x30000000 :: f32"
  let ?c = "verify_draft_tokens toy_floats 5 6 7 8 2 4 2"
  have s: "call_schedule ?c [0..<32]" by (simp add: call_schedule_def verify_draft_tokens_def)
  have "\<exists>h' t. ops_submit 1 ?c [0..<32] (ops_start ?m) = Some h' \<and> host_sync 2 h' = Some t \<and>
    (let m = fold exec_call [] ?m
     in (\<forall>i < unat (2 :: u32). tl_memory t (5, i) =
           (let q = speculative_ratio toy_floats 6 7 4 (m (8, i)) m in if fo_less toy_floats 2 q \<or> fo_eq toy_floats 2 q then 1 else 0)) \<and>
        (\<forall>c. (\<forall>i < unat (2 :: u32). c \<noteq> (5, i)) \<longrightarrow> tl_memory t c = m c))"
    by (rule speculative_verdicts [OF _ _ _ _ s ops_run.Start]) simp_all
  then obtain h' t where ht: "ops_submit 1 ?c [0..<32] (ops_start ?m) = Some h'" "host_sync 2 h' = Some t"
      and v: "\<forall>i < 2. tl_memory t (5, i) =
        (let q = speculative_ratio toy_floats 6 7 4 (?m (8, i)) ?m in if fo_less toy_floats 2 q \<or> fo_eq toy_floats 2 q then 1 else 0)"
    by (auto simp: Let_def)
  have "tl_memory t (5, 0) = 1" "tl_memory t (5, 1) = 0"
    using v [rule_format, of 0] v [rule_format, of 1] by (simp_all add: speculative_ratio_def toy_floats_def)
  then show ?thesis using ht by blast
qed

section \<open>\<open>RandomGenerator\<close>\<close>

text \<open>The value drawn and the new state.\<close>

definition pcg32 :: "u32 \<Rightarrow> u32 \<times> u32" where
  "pcg32 state =
    (let oldstate = state;
         state' = oldstate * 747796405 + 2891336453;
         word = (drop_bit (unat (drop_bit 28 oldstate + 4)) oldstate XOR oldstate) * 277803737
     in (drop_bit 22 word XOR word, state'))"

definition draw :: "u32 \<Rightarrow> nat \<Rightarrow> u32" where
  "draw g_seed_lo i = fst (pcg32 (g_seed_lo + of_nat i * 1664525))"

definition rand_fill_thread :: "float_ops \<Rightarrow> nat \<Rightarrow> u32 \<Rightarrow> u32 \<Rightarrow> u32 \<Rightarrow> nat \<Rightarrow> gpu_mem \<Rightarrow> gpu_mem" where
  "rand_fill_thread F out g_count g_seed_lo g_seed_hi t m =
    (let x = of_nat t :: u32
     in if x < g_count
        then let state = g_seed_lo + x * 1664525; r = fst (pcg32 state)
             in m((out, unat x) := fo_div F (fo_of_u32 F r) 0x4F800000)
        else m)"

text \<open>\<open>fill_uniform\<close> waits for nothing and signals nothing, like \<open>vec_add\<close>.\<close>

definition fill_uniform :: "float_ops \<Rightarrow> nat \<Rightarrow> u32 \<Rightarrow> u64 \<Rightarrow> kernel_call" where
  "fill_uniform F out n seed =
    \<lparr> kc_thread = rand_fill_thread F out n (ucast seed) (ucast (drop_bit 32 seed)), kc_groups = group_count n, kc_size = 64 \<rparr>"

lemma unat_drop: "unat (drop_bit k (x :: u32)) = unat x div 2 ^ k"
  unfolding unat_drop_bit_eq by (rule drop_bit_eq_div)

text \<open>Each step of the output function loses nothing.\<close>

lemma xorshift_inj:
  assumes "0 < k" "drop_bit k x XOR x = drop_bit k y XOR (y :: u32)"
  shows "x = y"
proof -
  define d where "d = x XOR y"
  have "drop_bit k d = d"
  proof (rule bit_eqI)
    fix n
    have "bit (drop_bit k x XOR x) n = bit (drop_bit k y XOR y) n" by (simp only: assms(2))
    then show "bit (drop_bit k d) n = bit d n" by (auto simp: d_def bit_xor_iff bit_drop_bit_eq)
  qed
  then have "unat (drop_bit k d) = unat d" by simp
  then have "unat d div 2 ^ k = unat d" by (simp only: unat_drop)
  moreover have "unat d div 2 ^ k < unat d" if "unat d \<noteq> 0"
  proof (rule div_less_dividend)
    show "1 < (2 :: nat) ^ k" by (rule one_less_power) (use assms(1) in simp_all)
  qed (use that in simp)
  ultimately have "unat d = 0" by force
  then have "d = 0" by (simp only: unat_eq_zero)
  show ?thesis
  proof (rule bit_eqI)
    fix n
    have "bit (x XOR y) n = bit (0 :: u32) n" using \<open>d = 0\<close> by (simp only: d_def)
    then show "bit x n = bit y n" by (simp add: bit_xor_iff)
  qed
qed

lemma high_nibble_kept: "4 \<le> k \<Longrightarrow> drop_bit 28 (drop_bit k x XOR x) = drop_bit 28 (x :: u32)"
proof -
  assume k: "4 \<le> k"
  have "unat (drop_bit (k + 28) x) = 0"
  proof -
    have "unat x < 2 ^ 32" using u32_lt [of x] by simp
    also have "(2 :: nat) ^ 32 \<le> 2 ^ (k + 28)" using k by (intro power_increasing) simp_all
    finally show ?thesis by (simp only: unat_drop div_less)
  qed
  then have "drop_bit (k + 28) x = 0" by (simp only: unat_eq_zero)
  then show ?thesis by (simp add: add.commute)
qed

lemma times_odd_inj:
  "a * 277803737 = b * 277803737 \<Longrightarrow> a = (b :: u32)" "a * 1664525 = b * 1664525 \<Longrightarrow> a = (b :: u32)"
proof -
  have i: "(277803737 :: u32) * 2897767785 = 1" "(1664525 :: u32) * 4276115653 = 1" by simp_all
  show "a = b" if e: "a * 277803737 = b * 277803737"
  proof -
    have "a * 277803737 * 2897767785 = b * 277803737 * 2897767785" by (simp only: e)
    then show ?thesis by (simp only: mult.assoc i(1) mult_1_right)
  qed
  show "a = b" if e: "a * 1664525 = b * 1664525"
  proof -
    have "a * 1664525 * 4276115653 = b * 1664525 * 4276115653" by (simp only: e)
    then show ?thesis by (simp only: mult.assoc i(2) mult_1_right)
  qed
qed

lemma pcg32_inj: "fst (pcg32 x) = fst (pcg32 y) \<Longrightarrow> x = y"
proof -
  define k where "k s = unat (drop_bit 28 s + 4 :: u32)" for s
  define w where "w s = (drop_bit (k s) s XOR s) * 277803737" for s
  have p: "fst (pcg32 s) = drop_bit 22 (w s) XOR w s" for s
    unfolding pcg32_def Let_def w_def k_def fst_conv ..
  assume "fst (pcg32 x) = fst (pcg32 y)"
  then have "drop_bit 22 (w x) XOR w x = drop_bit 22 (w y) XOR w y" unfolding p .
  then have "w x = w y" by (rule xorshift_inj [rotated]) simp
  then have "(drop_bit (k x) x XOR x) * 277803737 = (drop_bit (k y) y XOR y) * 277803737" unfolding w_def .
  then have e: "drop_bit (k x) x XOR x = drop_bit (k y) y XOR y" by (rule times_odd_inj(1))
  have k4: "4 \<le> k s" for s
  proof -
    have "unat (drop_bit 28 s) < 16"
      unfolding unat_drop using u32_lt [of s] by (simp add: less_mult_imp_div_less)
    then have "unat (drop_bit 28 s + 4) = unat (drop_bit 28 s) + 4" using u32_add_unat [of "drop_bit 28 s" 4] by simp
    then show ?thesis by (simp add: k_def)
  qed
  have "drop_bit 28 x = drop_bit 28 y"
    using high_nibble_kept [OF k4, of x x] high_nibble_kept [OF k4, of y y] e by simp
  then have "k x = k y" by (simp add: k_def)
  then show ?thesis using xorshift_inj [of "k x" x y] e k4 [of x] by simp
qed

lemma draw_inj: "inj_on (draw seed) {..<4294967296}"
proof (rule inj_onI)
  fix i j assume ij: "i \<in> {..<4294967296}" "j \<in> {..<4294967296}" "draw seed i = draw seed j"
  from pcg32_inj [OF ij(3) [unfolded draw_def]] have "(of_nat i :: u32) * 1664525 = of_nat j * 1664525"
    by (rule add_left_imp_eq)
  then have "(of_nat i :: u32) = of_nat j" by (rule times_odd_inj(2))
  then have "unat (of_nat i :: u32) = unat (of_nat j :: u32)" by simp
  then show "i = j" using ij(1,2) by (simp only: u32_thread lessThan_iff)
qed

lemma pcg32_bij: "bij (\<lambda>s. fst (pcg32 s))"
  proof -
  have i: "inj (\<lambda>s. fst (pcg32 s))" by (rule injI) (rule pcg32_inj)
  have "finite (UNIV :: u32 set)" by (rule finite_class.finite_UNIV)
  from finite_UNIV_inj_surj [OF this i] i show ?thesis by (simp add: bij_def)
qed

text \<open>
  C37. \<open>fill_uniform\<close> of up to 4194240 entries, which is as far as Direct3D's 65535 groups reach, stores in every
  entry the quotient of a 32-bit draw and \<open>2 ^ 32\<close> and changes nothing else, in whatever order the threads run.
  The output function of the generator is a bijection of the 32-bit words and the states of the entries
  differ, so that within one call no draw occurs twice. The draws depend on the low half of the
  seed alone.
\<close>

theorem fill_uniform_distinct:
  assumes "unat n \<le> 4194240" "call_schedule (fill_uniform F out n seed) order"
  shows "let m' = exec_call (e, fill_uniform F out n seed, order) m
    in (\<forall>i < unat n. m' (out, i) = fo_div F (fo_of_u32 F (draw (ucast seed) i)) 0x4F800000) \<and>
       bij (\<lambda>s. fst (pcg32 s)) \<and> inj_on (draw (ucast seed)) {..<unat n} \<and> (\<forall>c. (\<forall>i < unat n. c \<noteq> (out, i)) \<longrightarrow> m' c = m c)"
proof -
  let ?v = "\<lambda>i m. fo_div F (fo_of_u32 F (draw (ucast seed) i)) 0x4F800000"
  have r: "unat n \<le> 4294967232" using assms(1) by simp
  note g = group_count_covers [OF r]
  have o: "mset order = mset [0..<unat (group_count n) * 64]"
    using assms(2) unfolding call_schedule_def fill_uniform_def kernel_call.simps .
  have at: "kc_thread (fill_uniform F out n seed) t m = (if t < unat n then m((out, t) := ?v t m) else m)"
    if "t < unat (group_count n) * 64" for t m
  proof -
    have "t < 4294967296" using that g(2) assms(1) by linarith
    then show ?thesis
      by (simp add: fill_uniform_def rand_fill_thread_def draw_def Let_def u32_thread u32_thread_less)
  qed
  note E = entry_dispatch [where v = ?v and out = out, OF _ _ g(1) o]
  have "dispatch (kc_thread (fill_uniform F out n seed)) order m (out, i) = ?v i m" if "i < unat n" for i
    by (rule E(1) [OF _ _ that]) (fact at, rule refl)
  moreover have "dispatch (kc_thread (fill_uniform F out n seed)) order m c = m c" if c: "\<And>i. i < unat n \<Longrightarrow> c \<noteq> (out, i)" for c
    by (rule E(2)) (fact at, rule refl, fact c)
  moreover have "inj_on (draw (ucast seed)) {..<unat n}" by (rule inj_on_subset [OF draw_inj]) (use u32_lt [of n] in auto)
  ultimately show ?thesis using pcg32_bij unfolding Let_def exec_call_pair by blast
qed

theorem fill_uniform_distinct_witness:
  "exec_call (1, fill_uniform toy_floats 5 2 42, rev [0..<64]) (\<lambda>_. 0) (5, 2) = 0 \<and> draw 42 0 \<noteq> draw 42 1"
proof -
  have "call_schedule (fill_uniform toy_floats 5 2 42) (rev [0..<64])"
    by (simp add: fill_uniform_def schedule_def group_count_def)
  from fill_uniform_distinct [OF _ this, of 1 "\<lambda>_. 0"] have
    "inj_on (draw 42) {..<2}" "exec_call (1, fill_uniform toy_floats 5 2 42, rev [0..<64]) (\<lambda>_. 0) (5, 2) = 0"
    by (simp_all add: Let_def)
  then show ?thesis using inj_onD [of "draw 42" "{..<2}" 0 1] by (auto simp del: lessThan_iff simp: lessThan_iff [THEN iffD2])
qed

lemma high_seed_ignored:
  assumes "(ucast seed :: u32) = ucast seed'"
  shows "kc_thread (fill_uniform F out n seed) = kc_thread (fill_uniform F out n seed')"
  by (simp add: fill_uniform_def rand_fill_thread_def fun_eq_iff assms)

end
