(* ===== verification/Bindings.thy ===== *)
theory Bindings
  imports JitKernels
begin

text \<open>
  The constructors of the classes that own GPU kernels, with the root signature each of them creates, and the
  registers that the dispatches bind against those that the shaders declare.

  The calls of D3D12 and DXC are outcomes given in \<open>object_env\<close>. All parameters have register space 0 and are
  visible to every stage.
\<close>

section \<open>Root signatures\<close>

datatype root_parameter = Constants32 nat nat | UAV nat | SRV nat

definition AttentionOps_params :: "root_parameter list" where
  "AttentionOps_params = [Constants32 0 8, UAV 0, SRV 0, SRV 1, SRV 2, SRV 3]"

definition BLAS_params :: "root_parameter list" where
  "BLAS_params = [Constants32 0 4, UAV 0, SRV 0, SRV 1]"

definition FFTOps_params :: "root_parameter list" where
  "FFTOps_params = [Constants32 0 4, UAV 0, UAV 1, SRV 0, SRV 1]"

definition LA_params :: "root_parameter list" where
  "LA_params = [Constants32 0 4, UAV 0, SRV 0, SRV 1]"

definition MathOps_params :: "root_parameter list" where
  "MathOps_params = [Constants32 0 4, UAV 0, SRV 0, SRV 1]"

definition QuantOps_params :: "root_parameter list" where
  "QuantOps_params = [Constants32 0 4, UAV 0, SRV 0]"

definition RandomGenerator_params :: "root_parameter list" where
  "RandomGenerator_params = [Constants32 0 4, UAV 0]"

definition SpeculativeEngine_params :: "root_parameter list" where
  "SpeculativeEngine_params = [Constants32 0 4, UAV 0, SRV 0, SRV 1, SRV 2]"

definition TritonJIT_params :: "root_parameter list" where
  "TritonJIT_params = [Constants32 0 4, UAV 0, SRV 0, SRV 1]"

definition hadamard_params :: "root_parameter list" where
  "hadamard_params = [Constants32 0 4, UAV 0]"

section \<open>Constructors\<close>

text \<open>
  The first pair of \<open>DxcCreateInstance\<close> outcomes is that of the pipeline cache, the second that of the compiler which only
  creates the signature.
\<close>

record ('blob, 'sig) object_env =
  oe_cache_dxc :: "bool \<times> bool"
  oe_sig_dxc :: "bool \<times> bool"
  oe_fence :: bool
  oe_event :: bool
  oe_serialize :: "root_parameter list \<Rightarrow> string option + 'blob"
  oe_create_sig :: "'blob \<Rightarrow> 'sig option"
  oe_allocator :: bool
  oe_list :: bool

definition new_ShaderCompiler :: "bool \<times> bool \<Rightarrow> string + unit" where
  "new_ShaderCompiler dxc =
    (if \<not> fst dxc then Inl ''Failed to create IDxcUtils''
     else if \<not> snd dxc then Inl ''Failed to create IDxcCompiler3'' else Inr ())"

definition new_Fence :: "bool \<Rightarrow> bool \<Rightarrow> string + unit" where
  "new_Fence fence event = (if \<not> fence then Inl ''CreateFence failed'' else if \<not> event then Inl ''CreateEvent failed'' else Inr ())"

fun and_then :: "string + 'a \<Rightarrow> ('a \<Rightarrow> string + 'b) \<Rightarrow> string + 'b" where
  "and_then (Inl e) f = Inl e"
| "and_then (Inr x) f = f x"

text \<open>\<open>init_root_signature\<close> through a compiler of its own, and with the calls written out.\<close>

definition init_root_signature :: "root_parameter list \<Rightarrow> ('blob, 'sig) object_env \<Rightarrow> string + 'sig" where
  "init_root_signature params env =
    and_then (new_ShaderCompiler (oe_sig_dxc env)) (\<lambda>_. create_root_signature (oe_serialize env params) (oe_create_sig env))"

definition init_root_signature_inline :: "root_parameter list \<Rightarrow> ('blob, 'sig) object_env \<Rightarrow> string + 'sig" where
  "init_root_signature_inline params env =
    (case oe_serialize env params of
       Inl _ \<Rightarrow> Inl ''D3D12SerializeRootSignature failed''
     | Inr blob \<Rightarrow> (case oe_create_sig env blob of None \<Rightarrow> Inl ''CreateRootSignature failed'' | Some s \<Rightarrow> Inr s))"

definition command_objects :: "string \<Rightarrow> string \<Rightarrow> ('blob, 'sig) object_env \<Rightarrow> 'sig \<Rightarrow> string + 'sig" where
  "command_objects alloc_msg list_msg env s =
    (if \<not> oe_allocator env then Inl alloc_msg else if \<not> oe_list env then Inl list_msg else Inr s)"

definition new_AttentionOps :: "('blob, 'sig) object_env \<Rightarrow> string + 'sig" where
  "new_AttentionOps env =
    and_then (new_ShaderCompiler (oe_cache_dxc env)) (\<lambda>_.
    and_then (new_Fence (oe_fence env) (oe_event env)) (\<lambda>_.
    and_then (init_root_signature_inline AttentionOps_params env)
      (command_objects ''CreateCommandAllocator failed'' ''CreateCommandList failed'' env)))"

definition new_BLAS :: "('blob, 'sig) object_env \<Rightarrow> string + 'sig" where
  "new_BLAS env =
    and_then (new_ShaderCompiler (oe_cache_dxc env)) (\<lambda>_.
    and_then (new_Fence (oe_fence env) (oe_event env)) (\<lambda>_.
    and_then (init_root_signature BLAS_params env)
      (command_objects ''Failed to create compute command allocator'' ''Failed to create compute command list'' env)))"

definition new_FFTOps :: "('blob, 'sig) object_env \<Rightarrow> string + 'sig" where
  "new_FFTOps env =
    and_then (new_ShaderCompiler (oe_cache_dxc env)) (\<lambda>_.
    and_then (new_Fence (oe_fence env) (oe_event env)) (\<lambda>_.
    and_then (init_root_signature FFTOps_params env)
      (command_objects ''CreateCommandAllocator failed'' ''CreateCommandList failed'' env)))"

definition new_LA :: "('blob, 'sig) object_env \<Rightarrow> string + 'sig" where
  "new_LA env =
    and_then (new_ShaderCompiler (oe_cache_dxc env)) (\<lambda>_.
    and_then (new_Fence (oe_fence env) (oe_event env)) (\<lambda>_.
    and_then (init_root_signature LA_params env)
      (command_objects ''LA: failed to create compute command allocator'' ''LA: failed to create compute command list'' env)))"

definition new_MathOps :: "('blob, 'sig) object_env \<Rightarrow> string + 'sig" where
  "new_MathOps env =
    and_then (new_ShaderCompiler (oe_cache_dxc env)) (\<lambda>_.
    and_then (new_Fence (oe_fence env) (oe_event env)) (\<lambda>_.
    and_then (init_root_signature MathOps_params env)
      (command_objects ''CreateCommandAllocator failed'' ''CreateCommandList failed'' env)))"

definition new_QuantOps :: "('blob, 'sig) object_env \<Rightarrow> string + 'sig" where
  "new_QuantOps env =
    and_then (new_ShaderCompiler (oe_cache_dxc env)) (\<lambda>_.
    and_then (init_root_signature QuantOps_params env)
      (command_objects ''CreateCommandAllocator failed'' ''CreateCommandList failed'' env))"

definition new_RandomGenerator :: "('blob, 'sig) object_env \<Rightarrow> string + 'sig" where
  "new_RandomGenerator env =
    and_then (new_ShaderCompiler (oe_cache_dxc env)) (\<lambda>_.
    and_then (init_root_signature RandomGenerator_params env)
      (command_objects ''CreateCommandAllocator failed'' ''CreateCommandList failed'' env))"

definition new_SpeculativeEngine :: "('blob, 'sig) object_env \<Rightarrow> string + 'sig" where
  "new_SpeculativeEngine env =
    and_then (new_ShaderCompiler (oe_cache_dxc env)) (\<lambda>_.
    and_then (new_Fence (oe_fence env) (oe_event env)) (\<lambda>_.
    and_then (init_root_signature SpeculativeEngine_params env)
      (command_objects ''CreateCommandAllocator failed'' ''CreateCommandList failed'' env)))"

definition new_TritonJIT :: "('blob, 'sig) object_env \<Rightarrow> string + 'sig" where
  "new_TritonJIT env =
    and_then (new_ShaderCompiler (oe_cache_dxc env)) (\<lambda>_.
    and_then (init_root_signature_inline TritonJIT_params env)
      (command_objects ''CreateCommandAllocator failed'' ''CreateCommandList failed'' env))"

text \<open>
  An object exists only when every call succeeded, and then its signature is the one made of its own parameters; otherwise
  the exception is that of the first call that failed.
\<close>

definition signature_of :: "('blob, 'sig) object_env \<Rightarrow> root_parameter list \<Rightarrow> 'sig option" where
  "signature_of env params = (case oe_serialize env params of Inl _ \<Rightarrow> None | Inr blob \<Rightarrow> oe_create_sig env blob)"

definition commands_ready :: "('blob, 'sig) object_env \<Rightarrow> bool" where
  "commands_ready env \<longleftrightarrow> fst (oe_cache_dxc env) \<and> snd (oe_cache_dxc env) \<and> oe_allocator env \<and> oe_list env"

definition fence_ready :: "('blob, 'sig) object_env \<Rightarrow> bool" where
  "fence_ready env \<longleftrightarrow> oe_fence env \<and> oe_event env"

definition compiler_ready :: "('blob, 'sig) object_env \<Rightarrow> bool" where
  "compiler_ready env \<longleftrightarrow> fst (oe_sig_dxc env) \<and> snd (oe_sig_dxc env)"

lemma and_then_Inr: "and_then r f = Inr y \<longleftrightarrow> (\<exists>x. r = Inr x \<and> f x = Inr y)"
  by (cases r) simp_all

lemma init_root_signature_Inr: "init_root_signature params env = Inr s \<longleftrightarrow> compiler_ready env \<and> signature_of env params = Some s"
  by (auto simp: init_root_signature_def and_then_Inr new_ShaderCompiler_def create_root_signature_def compiler_ready_def
    signature_of_def split: sum.splits option.splits)

lemma init_root_signature_inline_Inr: "init_root_signature_inline params env = Inr s \<longleftrightarrow> signature_of env params = Some s"
  by (auto simp: init_root_signature_inline_def signature_of_def split: sum.splits option.splits)

lemmas construct_simps = and_then_Inr init_root_signature_Inr init_root_signature_inline_Inr new_ShaderCompiler_def new_Fence_def
  command_objects_def commands_ready_def fence_ready_def

lemma constructed:
  "new_AttentionOps env = Inr s \<longleftrightarrow> commands_ready env \<and> fence_ready env \<and> signature_of env AttentionOps_params = Some s"
  "new_BLAS env = Inr s \<longleftrightarrow> commands_ready env \<and> fence_ready env \<and> compiler_ready env \<and> signature_of env BLAS_params = Some s"
  "new_FFTOps env = Inr s \<longleftrightarrow> commands_ready env \<and> fence_ready env \<and> compiler_ready env \<and> signature_of env FFTOps_params = Some s"
  "new_LA env = Inr s \<longleftrightarrow> commands_ready env \<and> fence_ready env \<and> compiler_ready env \<and> signature_of env LA_params = Some s"
  "new_MathOps env = Inr s \<longleftrightarrow> commands_ready env \<and> fence_ready env \<and> compiler_ready env \<and> signature_of env MathOps_params = Some s"
  "new_QuantOps env = Inr s \<longleftrightarrow> commands_ready env \<and> compiler_ready env \<and> signature_of env QuantOps_params = Some s"
  "new_RandomGenerator env = Inr s \<longleftrightarrow> commands_ready env \<and> compiler_ready env \<and> signature_of env RandomGenerator_params = Some s"
  "new_SpeculativeEngine env = Inr s \<longleftrightarrow>
    commands_ready env \<and> fence_ready env \<and> compiler_ready env \<and> signature_of env SpeculativeEngine_params = Some s"
  "new_TritonJIT env = Inr s \<longleftrightarrow> commands_ready env \<and> signature_of env TritonJIT_params = Some s"
  by (auto simp: new_AttentionOps_def new_BLAS_def new_FFTOps_def new_LA_def new_MathOps_def new_QuantOps_def new_RandomGenerator_def
    new_SpeculativeEngine_def new_TritonJIT_def construct_simps)

text \<open>The two ways report a refused signature differently: the text of the serialiser is lost where the calls are written out.\<close>

lemma serializer_text:
  assumes "oe_serialize env params = Inl (Some e)" "compiler_ready env"
  shows "init_root_signature params env = Inl e"
    and "init_root_signature_inline params env = Inl ''D3D12SerializeRootSignature failed''"
  using assms by (simp_all add: init_root_signature_def init_root_signature_inline_def create_root_signature_def new_ShaderCompiler_def compiler_ready_def)

section \<open>Bindings\<close>

text \<open>The calls of a dispatch, by the number of the root parameter, and the registers of a shader.\<close>

datatype root_call = SetConstants nat nat | SetUAV nat | SetSRV nat

datatype shader_register = B nat | U nat | T nat

text \<open>A parameter accepts the call of its own kind only, and no more constants than it has.\<close>

fun binds :: "root_parameter list \<Rightarrow> root_call \<Rightarrow> shader_register option" where
  "binds params (SetConstants i n) =
    (if i < length params then (case params ! i of Constants32 r k \<Rightarrow> if n \<le> k then Some (B r) else None | _ \<Rightarrow> None) else None)"
| "binds params (SetUAV i) = (if i < length params then (case params ! i of UAV r \<Rightarrow> Some (U r) | _ \<Rightarrow> None) else None)"
| "binds params (SetSRV i) = (if i < length params then (case params ! i of SRV r \<Rightarrow> Some (T r) | _ \<Rightarrow> None) else None)"

text \<open>Every call is accepted and every register that the shader declares is bound.\<close>

definition well_bound :: "root_parameter list \<Rightarrow> shader_register list \<Rightarrow> root_call list \<Rightarrow> bool" where
  "well_bound params registers calls \<longleftrightarrow>
    (let bound = map (binds params) calls in None \<notin> set bound \<and> list_all (\<lambda>r. Some r \<in> set bound) registers)"

definition attention_calls :: "bool \<Rightarrow> root_call list" where
  "attention_calls extra = [SetConstants 0 8, SetUAV 1, SetSRV 2, SetSRV 3, SetSRV 4] @ (if extra then [SetSRV 5] else [])"

definition two_input_calls :: "root_call list" where
  "two_input_calls = [SetConstants 0 4, SetUAV 1, SetSRV 2, SetSRV 3]"

definition one_input_calls :: "root_call list" where
  "one_input_calls = [SetConstants 0 4, SetUAV 1, SetSRV 2]"

definition bit_reverse_calls :: "root_call list" where
  "bit_reverse_calls = [SetConstants 0 4, SetUAV 1, SetUAV 2, SetSRV 3, SetSRV 4]"

definition fft_stage_calls :: "root_call list" where
  "fft_stage_calls = [SetConstants 0 4, SetUAV 1, SetUAV 2]"

definition verify_calls :: "root_call list" where
  "verify_calls = [SetConstants 0 4, SetUAV 1, SetSRV 2, SetSRV 3, SetSRV 4]"

definition output_calls :: "root_call list" where
  "output_calls = [SetConstants 0 4, SetUAV 1]"

text \<open>Each shader with the signature and the calls it is dispatched with.\<close>

definition dispatch_sites :: "(string \<times> root_parameter list \<times> shader_register list \<times> root_call list) list" where
  "dispatch_sites =
    [(''sdpa'', AttentionOps_params, [B 0, U 0, T 0, T 1, T 2], attention_calls False),
     (''flash_attn'', AttentionOps_params, [B 0, U 0, T 0, T 1, T 2], attention_calls False),
     (''linear_attn'', AttentionOps_params, [B 0, U 0, T 0, T 1, T 2], attention_calls False),
     (''paged_attn'', AttentionOps_params, [B 0, U 0, T 0, T 1, T 2, T 3], attention_calls True),
     (''h2o_attn'', AttentionOps_params, [B 0, U 0, T 0, T 1, T 2, T 3], attention_calls True),
     (''vec_add'', BLAS_params, [B 0, U 0, T 0, T 1], two_input_calls),
     (''gemm_tiled'', BLAS_params, [B 0, U 0, T 0, T 1], two_input_calls),
     (''gemm_f16_dot2'', BLAS_params, [B 0, U 0, T 0, T 1], two_input_calls),
     (''fft_bit_reverse'', FFTOps_params, [B 0, U 0, U 1, T 0, T 1], bit_reverse_calls),
     (''fft_stage'', FFTOps_params, [B 0, U 0, U 1], fft_stage_calls),
     (''la_elementwise'', LA_params, [B 0, U 0, T 0, T 1], two_input_calls),
     (''la_activation'', LA_params, [B 0, U 0, T 0], one_input_calls),
     (''la_rmsnorm'', LA_params, [B 0, U 0, T 0, T 1], two_input_calls),
     (''la_softmax'', LA_params, [B 0, U 0, T 0], one_input_calls),
     (''la_reduce'', LA_params, [B 0, U 0, T 0], one_input_calls),
     (''la_gemm_f16_dot2'', LA_params, [B 0, U 0, T 0, T 1], two_input_calls),
     (''rms_norm'', MathOps_params, [B 0, U 0, T 0, T 1], two_input_calls),
     (''softmax'', MathOps_params, [B 0, U 0, T 0], one_input_calls),
     (''rope'', MathOps_params, [B 0, U 0, T 0], one_input_calls),
     (''dequant_q4_0'', QuantOps_params, [B 0, U 0, T 0], one_input_calls),
     (''rand_fill'', RandomGenerator_params, [B 0, U 0], output_calls),
     (''speculative_verify'', SpeculativeEngine_params, [B 0, U 0, T 0, T 1, T 2], verify_calls),
     (''triton_matmul_kernel'', TritonJIT_params, [B 0, U 0, T 0, T 1], two_input_calls),
     (''hadamard_stage'', hadamard_params, [B 0, U 0], output_calls)]"

lemma dispatches_well_bound: "list_all (\<lambda>(_, params, registers, calls). well_bound params registers calls) dispatch_sites"
  by code_simp

text \<open>
  Two that are not: the mechanisms with a table or a mask when \<open>extra\<close> is null, and the generated attention kernel, which
  declares a third input that the signature of \<open>TritonJIT\<close> does not have.
\<close>

lemma extra_unbound: "\<not> well_bound AttentionOps_params [B 0, U 0, T 0, T 1, T 2, T 3] (attention_calls False)"
  by code_simp

lemma generated_attention_unbound: "\<not> well_bound TritonJIT_params [U 0, T 0, T 1, T 2] two_input_calls"
  by code_simp

end
