(* ===== verification/QuantGpu.thy ===== *)
theory QuantGpu
  imports Quantize ComputeKernels
begin

text \<open>
  \<open>QuantOps\<close> of \<open>src/dxquant/dxquant.cpp\<close>: the dequantizer of Q4_0 blocks on the GPU.

  The kernel loads words from a byte address buffer, at addresses of which three in four are no multiples of
  four. \<open>ByteAddressBuffer\<close> promises the word at an address only for multiples of four, and that is all
  \<open>documented_load\<close> asks of the load, which is an argument.
\<close>

section \<open>The kernel\<close>

definition byte_at :: "gpu_mem \<Rightarrow> nat \<Rightarrow> u32 \<Rightarrow> u8" where
  "byte_at m b a = ucast (drop_bit (8 * (unat a mod 4)) (m (b, unat a div 4)))"

type_synonym byte_load = "gpu_mem \<Rightarrow> nat \<Rightarrow> u32 \<Rightarrow> u32"

text \<open>\<open>d_raw\<close>, the scale of the block, is loaded and not used.\<close>

definition dequant_q4_thread :: "quant_ops \<Rightarrow> byte_load \<Rightarrow> nat \<Rightarrow> nat \<Rightarrow> u32 \<Rightarrow> nat \<Rightarrow> gpu_mem \<Rightarrow> gpu_mem" where
  "dequant_q4_thread Q load out inp g_num_blocks t m =
    (let block_idx = of_nat t :: u32
     in if block_idx \<ge> g_num_blocks then m
        else let byte_offset = block_idx * 18;
                 d_raw = load m inp byte_offset AND 0xFFFF;
                 out_base = block_idx * 32
             in fold (\<lambda>j m.
                  let val = load m inp (byte_offset + 2 + of_nat j) AND 0xFF;
                      x0 = int (unat (val AND 0x0F)) - 8; x1 = int (unat (drop_bit 4 val)) - 8;
                      m1 = m((out, unat (out_base + of_nat j)) := qo_of_int Q x0)
                  in m1((out, unat (out_base + of_nat j + 16)) := qo_of_int Q x1)) [0..<16] m)"

text \<open>The call waits for nothing and signals nothing, like \<open>vec_add\<close>.\<close>

definition dequantize_q4_0_gpu :: "quant_ops \<Rightarrow> byte_load \<Rightarrow> nat \<Rightarrow> nat \<Rightarrow> u32 \<Rightarrow> kernel_call" where
  "dequantize_q4_0_gpu Q load out inp num_blocks =
    \<lparr> kc_thread = dequant_q4_thread Q load out inp num_blocks, kc_groups = group_count num_blocks, kc_size = 64 \<rparr>"

text \<open>A load reads the buffer it is given and nothing else, and gives the word of an address that is a multiple of four.\<close>

definition load_local :: "byte_load \<Rightarrow> bool" where
  "load_local load \<longleftrightarrow> (\<forall>m m' b a. (\<forall>i. m (b, i) = m' (b, i)) \<longrightarrow> load m b a = load m' b a)"

definition documented_load :: "byte_load \<Rightarrow> bool" where
  "documented_load load \<longleftrightarrow> load_local load \<and> (\<forall>m b a. 4 dvd unat a \<longrightarrow> load m b a = m (b, unat a div 4))"

text \<open>The byte the kernel takes from a load.\<close>

definition load_byte :: "byte_load \<Rightarrow> gpu_mem \<Rightarrow> nat \<Rightarrow> u32 \<Rightarrow> u8" where
  "load_byte load m b a = ucast (load m b a)"

lemma load_masked: "load m b a AND 0xFF = ucast (load_byte load m b a)"
  unfolding load_byte_def field_masks(3) by (rule bit_word_eqI) (auto simp: bit_simps)

lemma load_byte_local:
  "load_local load \<Longrightarrow> (\<And>i. m (b, i) = m' (b, i)) \<Longrightarrow> load_byte load m b a = load_byte load m' b a"
  by (simp add: load_local_def load_byte_def) metis

lemma aligned_byte: "documented_load load \<Longrightarrow> 4 dvd unat a \<Longrightarrow> load_byte load m b a = byte_at m b a"
  by (simp add: documented_load_def load_byte_def byte_at_def dvd_eq_mod_eq_0)

section \<open>What a thread stores\<close>

text \<open>The levels of a packed byte, as both dequantizers unpack them.\<close>

definition low_level :: "u8 \<Rightarrow> int" where "low_level v = int (unat (v AND 0x0F)) - 8"
definition high_level :: "u8 \<Rightarrow> int" where "high_level v = int (unat (drop_bit 4 v)) - 8"

lemma unat_ucast_byte: "unat (ucast (v :: u8) :: u32) = unat v"
proof -
  have "unat v < 2 ^ 8" using unsigned_less [of v, where ?'a = nat] by simp
  then show ?thesis by (simp add: unsigned_ucast_eq take_bit_nat_eq_self_iff)
qed

lemma byte_levels:
  "int (unat ((ucast (v :: u8) :: u32) AND 0x0F)) - 8 = low_level v" "int (unat (drop_bit 4 (ucast v :: u32))) - 8 = high_level v"
proof -
  have "(ucast v :: u32) AND 0x0F = ucast (v AND 0x0F)"
    by (rule bit_word_eqI) (auto simp: bit_simps dest: bit_imp_le_length)
  moreover have "drop_bit 4 (ucast v :: u32) = ucast (drop_bit 4 v)"
    by (rule bit_word_eqI) (auto simp: bit_simps dest: bit_imp_le_length)
  ultimately show "int (unat ((ucast v :: u32) AND 0x0F)) - 8 = low_level v" "int (unat (drop_bit 4 (ucast v :: u32))) - 8 = high_level v"
    by (simp_all only: low_level_def high_level_def unat_ucast_byte)
qed

definition stored_levels :: "quant_ops \<Rightarrow> nat \<Rightarrow> nat \<Rightarrow> (nat \<Rightarrow> u8) \<Rightarrow> nat \<Rightarrow> gpu_mem \<Rightarrow> gpu_mem" where
  "stored_levels Q out base v n m = (\<lambda>(b, i).
    if b = out \<and> base + 16 \<le> i \<and> i < base + 16 + n then qo_of_int Q (high_level (v (i - (base + 16))))
    else if b = out \<and> base \<le> i \<and> i < base + n then qo_of_int Q (low_level (v (i - base))) else m (b, i))"

lemma dequant_loop:
  assumes load: "load_local load" and other: "out \<noteq> inp" and base: "unat (base :: u32) + 32 \<le> 4294967296"
  shows "n \<le> 16 \<Longrightarrow> fold (\<lambda>j m.
      let val = load m inp (off + of_nat j) AND 0xFF;
          x0 = int (unat (val AND 0x0F)) - 8; x1 = int (unat (drop_bit 4 val)) - 8;
          m1 = m((out, unat (base + of_nat j)) := qo_of_int Q x0)
      in m1((out, unat (base + of_nat j + 16)) := qo_of_int Q x1)) [0..<n] m =
    stored_levels Q out (unat base) (\<lambda>j. load_byte load m inp (off + of_nat j)) n m"
proof (induction n)
  case 0
  show ?case by (auto simp: stored_levels_def fun_eq_iff)
next
  case (Suc n)
  let ?m = "stored_levels Q out (unat base) (\<lambda>j. load_byte load m inp (off + of_nat j)) n m"
  have "load_byte load ?m inp a = load_byte load m inp a" for a 
    by (rule load_byte_local [OF load]) (use other in \<open>simp add: stored_levels_def\<close>)
  then have val: "load ?m inp (off + of_nat n) AND 0xFF = ucast (load_byte load m inp (off + of_nat n))"
    unfolding load_masked by simp
  have ix: "unat (base + of_nat n) = unat base + n" "unat (base + of_nat n + 16) = unat base + 16 + n"
  proof -
    have "unat (base + of_nat k) = unat base + k" if "k < 32" for k
      using base that u32_add_unat [of base "of_nat k"] by (simp add: unat_of_nat_u32)
    from this [of n] this [of "n + 16"] show "unat (base + of_nat n) = unat base + n" "unat (base + of_nat n + 16) = unat base + 16 + n"
      using Suc.prems by (simp_all add: add.assoc add.commute)
  qed
  have "stored_levels Q out (unat base) (\<lambda>j. load_byte load m inp (off + of_nat j)) (Suc n) m =
      ?m((out, unat base + n) := qo_of_int Q (low_level (load_byte load m inp (off + of_nat n))),
        (out, unat base + 16 + n) := qo_of_int Q (high_level (load_byte load m inp (off + of_nat n))))"
  proof (rule ext, clarify)
    fix b i
    show "stored_levels Q out (unat base) (\<lambda>j. load_byte load m inp (off + of_nat j)) (Suc n) m (b, i) =
        (?m((out, unat base + n) := qo_of_int Q (low_level (load_byte load m inp (off + of_nat n))),
          (out, unat base + 16 + n) := qo_of_int Q (high_level (load_byte load m inp (off + of_nat n))))) (b, i)"
      using Suc.prems by (cases "i = unat base + n"; cases "i = unat base + 16 + n") (auto simp: stored_levels_def)
  qed
  then show ?case
    using Suc by (simp only: upt_Suc_append [OF le0] fold_append fold_simps comp_apply Let_def val byte_levels ix Suc_leD)
qed

text \<open>A thread: the block of its number, nothing when there is none.\<close>

definition q4_level :: "(nat \<Rightarrow> u8) \<Rightarrow> nat \<Rightarrow> int" where
  "q4_level v i = (if i < 16 then low_level (v i) else high_level (v (i - 16)))"

lemma q4_level_cong: "(\<And>j. j < 16 \<Longrightarrow> v j = w j) \<Longrightarrow> i < 32 \<Longrightarrow> q4_level v i = q4_level w i"
  by (simp add: q4_level_def)

lemma thread_levels:
  assumes "load_local load" "out \<noteq> inp" "unat nb * 32 \<le> 4294967296" "t < unat nb"
  shows "dequant_q4_thread Q load out inp nb t m =
    stored_levels Q out (t * 32) (\<lambda>j. load_byte load m inp (of_nat (t * 18 + 2 + j))) 16 m"
proof -
  have "t * 32 + 32 \<le> unat nb * 32" using assms(4) by simp
  then have t: "t * 32 + 32 \<le> 4294967296" "t < 4294967296" using assms(3) by linarith+
  have b: "unat ((of_nat t :: u32) * 32) = t * 32"
    using unat_of_nat_u32 [of "t * 32"] t(1) by simp
  have r: "unat ((of_nat t :: u32) * 32) + 32 \<le> 4294967296" using b t(1) by simp
  have "\<not> nb \<le> of_nat t" using u32_thread_le [OF t(2)] assms(4) by blast
  then have "dequant_q4_thread Q load out inp nb t m =
      stored_levels Q out (unat ((of_nat t :: u32) * 32)) (\<lambda>j. load_byte load m inp ((of_nat t * 18 + 2) + of_nat j)) 16 m"
    unfolding dequant_q4_thread_def Let_def
    using dequant_loop [OF assms(1,2) r order_refl, of "of_nat t * 18 + 2" Q m] by (simp only: Let_def if_False)
  moreover have "(of_nat t * 18 + 2) + of_nat j = (of_nat (t * 18 + 2 + j) :: u32)" for j by simp
  ultimately show ?thesis by (simp only: b)
qed

lemma dequant_disjoint:
  assumes "load_local load" "out \<noteq> inp" "unat nb * 32 \<le> 4294967296"
  shows "disjoint_threads (dequant_q4_thread Q load out inp nb) (row_cells out nb 32) (\<lambda>_. {inp} \<times> UNIV) 4294967296"
proof (unfold_locales, goal_cases)
  case (1 t c m)
  show ?case
  proof (cases "t < unat nb")
    case True
    have "c \<noteq> (out, t * 32 + i)" if "i < 32" for i using 1(2) True that by (auto simp: row_cells_def)
    then have "\<not> (fst c = out \<and> t * 32 \<le> snd c \<and> snd c < t * 32 + 32)"
      by (metis add_diff_inverse_nat nat_add_left_cancel_less not_less prod.collapse)
    then show ?thesis unfolding thread_levels [OF assms True] by (auto simp: stored_levels_def split: prod.splits)
  qed (use 1(1) in \<open>simp add: dequant_q4_thread_def u32_thread_le\<close>)
next
  case (2 t m m' c)
  then have t: "t < unat nb" by (simp add: row_cells_def split: if_splits)
  have "load_byte load m inp a = load_byte load m' inp a" for a by (rule load_byte_local [OF assms(1)]) (use 2(2) in simp)
  then show ?case
    using 2(3) t unfolding thread_levels [OF assms t] by (auto simp: stored_levels_def row_cells_def)
next
  case (3 s t)
  have "row_cells out nb 32 s \<inter> {inp} \<times> UNIV = {}" using assms(2) by (auto simp: row_cells_def)
  then show ?case by (simp add: Int_Un_distrib row_cells_apart [OF 3(3)])
qed

lemma dequant_entries:
  assumes "load_local load" "out \<noteq> inp" "unat nb \<le> 4194240" "schedule (group_count nb) order"
  shows "i < unat nb \<Longrightarrow> k < 32 \<Longrightarrow> dispatch (dequant_q4_thread Q load out inp nb) order m (out, i * 32 + k) =
      qo_of_int Q (q4_level (\<lambda>j. load_byte load m inp (of_nat (i * 18 + 2 + j))) k)"
    and "(\<And>n. n < unat nb * 32 \<Longrightarrow> c \<noteq> (out, n)) \<Longrightarrow> dispatch (dequant_q4_thread Q load out inp nb) order m c = m c"
proof -
  have n: "unat nb \<le> 4294967232" "unat nb * 32 \<le> 4294967296" using assms(3) by simp_all
  note g = group_count_covers [OF n(1)]
  note D = dequant_disjoint [OF assms(1,2) n(2), of Q]
  have b: "unat (group_count nb) * 64 \<le> 4294967296" using g(2) assms(3) by linarith
  show "dispatch (dequant_q4_thread Q load out inp nb) order m (out, i * 32 + k) =
      qo_of_int Q (q4_level (\<lambda>j. load_byte load m inp (of_nat (i * 18 + 2 + j))) k)" if i: "i < unat nb" and k: "k < 32"
  proof -
    have "(out, i * 32 + k) \<in> row_cells out nb 32 i" using i k by (simp add: row_cells_def)
    then have "dispatch (dequant_q4_thread Q load out inp nb) order m (out, i * 32 + k) =
        dequant_q4_thread Q load out inp nb i m (out, i * 32 + k)"
      using disjoint_threads.schedule_writes [OF D assms(4) b] g(1) i by simp
    also have "\<dots> = qo_of_int Q (q4_level (\<lambda>j. load_byte load m inp (of_nat (i * 18 + 2 + j))) k)"
      unfolding thread_levels [OF assms(1,2) n(2) i] using k by (auto simp: stored_levels_def q4_level_def)
    finally show ?thesis .
  qed
  show "dispatch (dequant_q4_thread Q load out inp nb) order m c = m c" if c: "\<And>n. n < unat nb * 32 \<Longrightarrow> c \<noteq> (out, n)"
  proof (rule disjoint_threads.schedule_frame [OF D assms(4) b])
    fix t
    show "c \<notin> row_cells out nb 32 t"
    proof
      assume "c \<in> row_cells out nb 32 t"
      then obtain k where "t < unat nb" "k < 32" "c = (out, t * 32 + k)" by (auto simp: row_cells_def split: if_splits)
      then show False using c [of "t * 32 + k"] cell_index_lt [of t "unat nb" k 32] by simp
    qed
  qed
qed

section \<open>Against the dequantizer of the host\<close>

text \<open>The bytes of the blocks, 18 for each, in a buffer.\<close>

definition holds_blocks :: "gpu_mem \<Rightarrow> nat \<Rightarrow> BlockQ4_0 list \<Rightarrow> nat \<Rightarrow> bool" where
  "holds_blocks m inp blocks nb \<longleftrightarrow> (\<forall>i < nb.
    byte_at m inp (of_nat (i * 18)) = ucast (q4_d (blocks ! i)) \<and>
    byte_at m inp (of_nat (i * 18 + 1)) = ucast (drop_bit 8 (q4_d (blocks ! i))) \<and>
    (\<forall>j < 16. byte_at m inp (of_nat (i * 18 + 2 + j)) = q4_qs (blocks ! i) ! j))"

definition host_value :: "float_ops \<Rightarrow> quant_ops \<Rightarrow> BlockQ4_0 list \<Rightarrow> nat \<Rightarrow> f32" where
  "host_value F Q blocks n =
    fo_mul F (qo_of_int Q (q4_level (\<lambda>j. q4_qs (blocks ! (n div 32)) ! j) (n mod 32))) (fp16_to_float (q4_d (blocks ! (n div 32))))"

lemma host_block:
  assumes "i * 32 + 32 \<le> length dst" "i * 32 + 32 \<le> 4294967296"
  shows "length (dequantize_block_q4_0 F Q blocks i dst) = length dst \<and>
    (\<forall>m. dequantize_block_q4_0 F Q blocks i dst ! m =
      (if i * 32 \<le> m \<and> m < i * 32 + 32 then host_value F Q blocks m else dst ! m))"
proof -
  note p = pair_stores [OF order_refl assms]
  have v: "m div 32 = i \<and> m mod 32 = m - i * 32" if "i * 32 \<le> m" "m < i * 32 + 32" for m
    using block_position [OF that] by (metis minus_div_mult_eq_mod)
  let ?q = "q4_qs (blocks ! i)" and ?d = "fp16_to_float (q4_d (blocks ! i))"
  have lo: "fo_mul F (qo_of_int Q (low_level (?q ! (m - i * 32)))) ?d = host_value F Q blocks m"
    if "i * 32 \<le> m" "m < i * 32 + 16" for m
  proof -
    have "m - i * 32 < 16" using that by linarith
    then show ?thesis using that v [of m] by (simp add: host_value_def q4_level_def)
  qed
  have hi: "fo_mul F (qo_of_int Q (high_level (?q ! (m - (i * 32 + 16))))) ?d = host_value F Q blocks m"
    if "i * 32 + 16 \<le> m" "m < i * 32 + 32" for m
  proof -
    have "m - i * 32 - 16 = m - (i * 32 + 16)" "\<not> m - i * 32 < 16" using that by linarith+
    then show ?thesis using that v [of m] by (simp add: host_value_def q4_level_def)
  qed
  have at: "dequantize_block_q4_0 F Q blocks i dst ! m =
      (if i * 32 \<le> m \<and> m < i * 32 + 32 then host_value F Q blocks m else dst ! m)" for m
    unfolding dequantize_block_q4_0_def Let_def low_level_def [symmetric] high_level_def [symmetric] conjunct1 [OF p]
    using lo [of m] hi [of m] by (cases "m < i * 32 + 16") simp_all
  show ?thesis using at p by (simp add: dequantize_block_q4_0_def Let_def)
qed

lemma host_row:
  assumes "unat (k :: u64) < 4294967296" "unat k \<le> length dst" "n < block_count k * 32"
  shows "dequantize_row_q4_0 F Q blocks dst k ! n = host_value F Q blocks n"
proof -
  have "length (fold (dequantize_block_q4_0 F Q blocks) [0..<block_count k] dst) = length dst \<and>
      (\<forall>m. fold (dequantize_block_q4_0 F Q blocks) [0..<block_count k] dst ! m =
        (if m < block_count k * 32 then host_value F Q blocks m else dst ! m))"
  proof (rule row_stores)
    fix i and out :: "f32 list" assume i: "i < block_count k" and out: "length out = length dst"
    show "length (dequantize_block_q4_0 F Q blocks i out) = length dst \<and>
      (\<forall>m. dequantize_block_q4_0 F Q blocks i out ! m =
        (if i * 32 \<le> m \<and> m < i * 32 + 32 then host_value F Q blocks m else out ! m))"
      using host_block [of i out F Q blocks] block_room [OF assms(1) i assms(2)] out by simp
  qed
  then show ?thesis using assms(3) by (simp add: dequantize_row_q4_0_def)
qed

text \<open>
  C28. The dequantizer on the GPU against the one on the host, as far as \<open>ByteAddressBuffer\<close> is documented: whatever the order of
  the threads, entry \<open>n\<close> receives the bare level of the nibble in its place of the byte that the load for it
  delivers; where the address of that byte is a multiple of four, this is the level that the host unpacks,
  and the host's element is the GPU's multiplied by the scale of its block, which the GPU leaves out. Nothing else is
  written. For the other bytes, three in four, the documentation promises nothing. With at most 65535 groups.
\<close>

theorem gpu_stores_unscaled_levels:
  fixes e :: nat and m :: gpu_mem
  assumes "documented_load load" "out \<noteq> inp" "unat nb \<le> 4194240" "call_schedule (dequantize_q4_0_gpu Q load out inp nb) order"
    and "holds_blocks m inp blocks (unat nb)" "block_count k = unat nb" "unat (k :: u64) < 4294967296" "unat k \<le> length dst"
  defines "m' \<equiv> exec_call (e, dequantize_q4_0_gpu Q load out inp nb, order) m"
  shows "(\<forall>n < unat nb * 32.
      m' (out, n) = qo_of_int Q (q4_level (\<lambda>j. load_byte load m inp (of_nat (n div 32 * 18 + 2 + j))) (n mod 32)) \<and>
      (4 dvd n div 32 * 18 + 2 + n mod 16 \<longrightarrow>
        m' (out, n) = qo_of_int Q (q4_level (\<lambda>j. q4_qs (blocks ! (n div 32)) ! j) (n mod 32)) \<and>
        dequantize_row_q4_0 F Q blocks dst k ! n = fo_mul F (m' (out, n)) (fp16_to_float (q4_d (blocks ! (n div 32)))))) \<and>
    (\<forall>c. (\<forall>n < unat nb * 32. c \<noteq> (out, n)) \<longrightarrow> m' c = m c)"
proof -
  have local: "load_local load" using assms(1) by (simp add: documented_load_def)
  have s: "schedule (group_count nb) order" using assms(4) by (simp add: dequantize_q4_0_gpu_def)
  note d = dequant_entries [OF local assms(2,3) s, where Q = Q and m = m]
  have m': "m' = dispatch (dequant_q4_thread Q load out inp nb) order m"
    by (simp add: m'_def exec_call_def dequantize_q4_0_gpu_def)
  have bare: "m' (out, n) = qo_of_int Q (q4_level (\<lambda>j. load_byte load m inp (of_nat (n div 32 * 18 + 2 + j))) (n mod 32))"
    if n: "n < unat nb * 32" for n
    using d(1) [of "n div 32" "n mod 32"] n by (simp add: m' less_mult_imp_div_less)
  have level: "m' (out, n) = qo_of_int Q (q4_level (\<lambda>j. q4_qs (blocks ! (n div 32)) ! j) (n mod 32))"
    if n: "n < unat nb * 32" and al: "4 dvd n div 32 * 18 + 2 + n mod 16" for n
  proof -
    let ?a = "n div 32 * 18 + 2 + n mod 16"
    have i: "n div 32 < unat nb" using n by (simp add: less_mult_imp_div_less)
    have "?a < 4294967296" using i assms(3) by linarith
    then have a: "unat (of_nat ?a :: u32) = ?a" by (rule unat_of_nat_u32)
    have "load_byte load m inp (of_nat ?a) = byte_at m inp (of_nat ?a)"
      by (rule aligned_byte [OF assms(1)]) (simp only: a al)
    also have "\<dots> = q4_qs (blocks ! (n div 32)) ! (n mod 16)"
      using assms(5) i unfolding holds_blocks_def by simp
    finally have b: "load_byte load m inp (of_nat ?a) = q4_qs (blocks ! (n div 32)) ! (n mod 16)" .
    have "n mod 16 = (if n mod 32 < 16 then n mod 32 else n mod 32 - 16)"
      by (simp add: mod_mod_cancel [of 16 32 n, symmetric] mod_if [of "n mod 32"])
    then have "q4_level (\<lambda>j. load_byte load m inp (of_nat (n div 32 * 18 + 2 + j))) (n mod 32) =
        q4_level (\<lambda>j. q4_qs (blocks ! (n div 32)) ! j) (n mod 32)"
      using b by (simp add: q4_level_def split: if_splits)
    then show ?thesis using bare [OF n] by simp
  qed
  have host: "dequantize_row_q4_0 F Q blocks dst k ! n = host_value F Q blocks n" if "n < unat nb * 32" for n
    using host_row [OF assms(7,8), of n F Q blocks] assms(6) that by simp
  show ?thesis
    using bare level host d(2) by (simp add: host_value_def m')
qed

text \<open>
  Two loads that the documentation allows, one that serves every address and one that ignores the low bits of
  an address, and a word where the kernel takes different bytes from them.
\<close>

definition any_load :: byte_load where
  "any_load m b a = ucast (byte_at m b a) OR push_bit 8 (ucast (byte_at m b (a + 1))) OR
    push_bit 16 (ucast (byte_at m b (a + 2))) OR push_bit 24 (ucast (byte_at m b (a + 3)))"

definition aligned_load :: byte_load where "aligned_load m b a = m (b, unat a div 4)"

lemma aligned_load_documented: "documented_load aligned_load"
  by (simp add: documented_load_def load_local_def aligned_load_def)

lemma aligned_load_drops: "aligned_load m b a AND 0xFF = ucast (byte_at m b (of_nat (unat a div 4 * 4)))"
proof -
  have "unat a div 4 * 4 < 4294967296" using unsigned_less [of a, where ?'a = nat] by simp
  then have "unat (of_nat (unat a div 4 * 4) :: u32) = unat a div 4 * 4" by (rule unat_of_nat_u32)
  then show ?thesis
    unfolding field_masks(3) by (intro bit_word_eqI) (auto simp: aligned_load_def byte_at_def bit_simps)
qed

text \<open>A block of the levels -7 and 1, with the scale 1.0 (0x3C00).\<close>

definition block_words :: gpu_mem where
  "block_words = (\<lambda>(b, i). if i = 0 then 0x91913C00 else 0x91919191)"

lemma block_words_hold: "holds_blocks block_words 1 [\<lparr> q4_d = 0x3C00, q4_qs = replicate 16 0x91 \<rparr>] 1"
proof -
  have "byte_at block_words 1 (of_nat (2 + j)) = 0x91" if "j < 16" for j
  proof -
    have "unat (of_nat (2 + j) :: u32) = 2 + j" using that by (intro unat_of_nat_u32) simp
    moreover have "(2 + j) mod 4 \<in> {0, 1, 2, 3}" "(2 + j) div 4 = 0 \<Longrightarrow> (2 + j) mod 4 \<in> {2, 3}"
      by (simp_all, presburger+)
    ultimately show ?thesis by (auto simp: byte_at_def block_words_def)
  qed
  moreover have "byte_at block_words 1 0 = 0" "byte_at block_words 1 1 = 0x3C" by (simp_all add: byte_at_def block_words_def)
  moreover have "(ucast (0x3C00 :: u16) :: u8) = 0" "(ucast (drop_bit 8 (0x3C00 :: u16)) :: u8) = 0x3C" by simp_all
  ultimately show ?thesis by (simp add: holds_blocks_def del: of_nat_add)
qed

lemma any_load_documented: "documented_load any_load"
proof -
  have "any_load m b a = m (b, unat a div 4)" if d: "4 dvd unat a" for m b a
  proof -
    obtain k where k: "unat a = 4 * k" using d unfolding dvd_def by blast
    then have "4 * k < 4294967296" using u32_lt [of a] by simp
    then have room: "4 * k + 3 < 4294967296" by presburger
    have u: "unat (a + 1) = 4 * k + 1" "unat (a + 2) = 4 * k + 2" "unat (a + 3) = 4 * k + 3"
      using u32_add_unat [of a 1] u32_add_unat [of a 2] u32_add_unat [of a 3] k room by auto
    have parts: "(4 * k + 1) div 4 = k" "(4 * k + 2) div 4 = k" "(4 * k + 3) div 4 = k" "(4 * k) div 4 = k"
      "(4 * k + 1) mod 4 = 1" "(4 * k + 2) mod 4 = 2" "(4 * k + 3) mod 4 = 3" "(4 * k) mod 4 = 0" by presburger+
    have b: "byte_at m b a = ucast (m (b, k))" "byte_at m b (a + 1) = ucast (drop_bit 8 (m (b, k)))"
      "byte_at m b (a + 2) = ucast (drop_bit 16 (m (b, k)))" "byte_at m b (a + 3) = ucast (drop_bit 24 (m (b, k)))"
      by (simp_all only: byte_at_def k u parts) simp_all
    show ?thesis
      unfolding any_load_def b k
    proof (rule bit_word_eqI)
      fix n :: nat
      have "n < 8 \<or> n - 8 < 8 \<or> n - 16 < 8 \<or> 24 + (n - 24) = n" by linarith
      then show "bit (ucast (ucast (m (b, k)) :: u8) OR push_bit 8 (ucast (ucast (drop_bit 8 (m (b, k))) :: u8)) OR
          push_bit 16 (ucast (ucast (drop_bit 16 (m (b, k))) :: u8)) OR
          push_bit 24 (ucast (ucast (drop_bit 24 (m (b, k))) :: u8) :: u32)) n \<longleftrightarrow> bit (m (b, 4 * k div 4)) n"
        if "n < LENGTH(32)" using that by (auto simp: bit_simps not_le)
    qed
  qed
  moreover have "load_local any_load" by (simp add: load_local_def any_load_def byte_at_def)
  ultimately show ?thesis by (simp add: documented_load_def)
qed

lemma loads_disagree:
  "load_byte any_load (\<lambda>_. 0x04030201) 1 1 = 2" "load_byte aligned_load (\<lambda>_. 0x04030201) 1 1 = 1"
  by code_simp+

theorem gpu_stores_unscaled_levels_witness:
  "exec_call (0, dequantize_q4_0_gpu level_quant aligned_load 0 1 1, rev [0..<64]) block_words (0, 2) = qo_of_int level_quant (- 7)"
proof -
  have "call_schedule (dequantize_q4_0_gpu level_quant aligned_load 0 1 1) (rev [0..<64])"
    by (simp add: dequantize_q4_0_gpu_def schedule_def group_count_def)
  moreover have "(0 :: nat) \<noteq> 1" "unat (1 :: u32) \<le> 4194240" by simp_all
  moreover have "holds_blocks block_words 1 [\<lparr> q4_d = 0x3C00, q4_qs = replicate 16 0x91 \<rparr>] (unat (1 :: u32))"
    using block_words_hold by simp
  moreover have "block_count 32 = unat (1 :: u32)" "unat (32 :: u64) < 4294967296" "unat (32 :: u64) \<le> length (replicate 32 (0 :: f32))"
    by (simp_all add: block_count_def)
  ultimately have t: "\<forall>n < unat (1 :: u32) * 32.
      exec_call (0, dequantize_q4_0_gpu level_quant aligned_load 0 1 1, rev [0..<64]) block_words (0, n) = qo_of_int level_quant
        (q4_level (\<lambda>j. load_byte aligned_load block_words 1 (of_nat (n div 32 * 18 + 2 + j))) (n mod 32)) \<and>
      (4 dvd n div 32 * 18 + 2 + n mod 16 \<longrightarrow>
        exec_call (0, dequantize_q4_0_gpu level_quant aligned_load 0 1 1, rev [0..<64]) block_words (0, n) =
          qo_of_int level_quant (q4_level (\<lambda>j. q4_qs ([\<lparr> q4_d = 0x3C00, q4_qs = replicate 16 0x91 \<rparr>] ! (n div 32)) ! j) (n mod 32)) \<and>
        dequantize_row_q4_0 toy_floats level_quant [\<lparr> q4_d = 0x3C00, q4_qs = replicate 16 0x91 \<rparr>] (replicate 32 0) 32 ! n =
          fo_mul toy_floats (exec_call (0, dequantize_q4_0_gpu level_quant aligned_load 0 1 1, rev [0..<64]) block_words (0, n))
            (fp16_to_float (q4_d ([\<lparr> q4_d = 0x3C00, q4_qs = replicate 16 0x91 \<rparr>] ! (n div 32)))))"
    by (intro conjunct1 [OF gpu_stores_unscaled_levels [OF aligned_load_documented]])
  have four: "2 div 32 * 18 + 2 + 2 mod 16 = (4 :: nat)" by simp
  have "exec_call (0, dequantize_q4_0_gpu level_quant aligned_load 0 1 1, rev [0..<64]) block_words (0, 2) =
      qo_of_int level_quant (q4_level (\<lambda>j. q4_qs ([\<lparr> q4_d = 0x3C00, q4_qs = replicate 16 0x91 \<rparr>] ! (2 div 32)) ! j) (2 mod 32))"
    by (rule t [THEN spec, THEN mp, THEN conjunct2, THEN mp, THEN conjunct1]) (simp_all only: four dvd_refl, simp)
  then have "exec_call (0, dequantize_q4_0_gpu level_quant aligned_load 0 1 1, rev [0..<64]) block_words (0, 2) =
      qo_of_int level_quant (q4_level (\<lambda>j. replicate 16 0x91 ! j) 2)" by simp
  moreover have "low_level 0x91 = - 7" by code_simp
  ultimately show ?thesis by (simp add: q4_level_def)
qed

end
