(* ===== verification/Collectives.thy ===== *)
theory Collectives
  imports Attention ByteCodec
begin

text \<open>
  \<open>CollectiveOps\<close> of \<open>src/dxcollective/dxcollective.cpp\<close>.

  The buffers of \<open>all_reduce_sum\<close> are byte lists, one for each GPU. A copy is awaited before the next command; the
  additions are not, and the model lets each of them end before the next copy, the most favourable of the orders
  that the missing wait allows. \<open>ring_attention\<close> runs one attention call on each device, each with a queue of its own.
\<close>

section \<open>Chunks\<close>

text \<open>
  \<open>CopyBufferRegion\<close> of the chunk \<open>send_idx\<close> from one GPU to another. The command list is made on the device of
  the source. That the copy has its effect is what the API promises for two buffers of one device, so where all
  entries of \<open>m_devices\<close> are one device; for buffers of different devices, which the code uses in the same way
  without sharing them, nothing is promised, and the model is of the case where the copy works all the same.
\<close>

definition copy_region :: "nat \<Rightarrow> nat \<Rightarrow> nat \<Rightarrow> nat \<Rightarrow> u8 list list \<Rightarrow> u8 list list" where
  "copy_region chunk_bytes send_idx src dst bufs =
    (let offset = send_idx * chunk_bytes
     in bufs[dst := write_at offset (read_at offset chunk_bytes (bufs ! src)) (bufs ! dst)])"

text \<open>\<open>vec_add(recv, recv, i, num_elements, 1.0f, 1.0f)\<close>, on the first elements of the buffers.\<close>

definition accumulate :: "float_ops \<Rightarrow> nat \<Rightarrow> nat \<Rightarrow> nat \<Rightarrow> u8 list list \<Rightarrow> u8 list list" where
  "accumulate F num_elements src dst bufs =
    bufs[dst := write_at 0 (bytes_of_words (map2 (\<lambda>x y. fo_add F (fo_mul F f32_one x) (fo_mul F f32_one y))
      (take num_elements (words_of_bytes (bufs ! dst))) (take num_elements (words_of_bytes (bufs ! src))))) (bufs ! dst)]"

definition scatter_send :: "float_ops \<Rightarrow> nat \<Rightarrow> nat \<Rightarrow> nat \<Rightarrow> nat \<Rightarrow> u8 list list \<Rightarrow> u8 list list" where
  "scatter_send F num_gpus chunk_bytes step i bufs =
    (let send_idx = (i + num_gpus - step) mod num_gpus; recv_gpu = (i + 1) mod num_gpus;
         num_elements = chunk_bytes div 4 mod 4294967296
     in accumulate F num_elements i recv_gpu (copy_region chunk_bytes send_idx i recv_gpu bufs))"

definition gather_send :: "nat \<Rightarrow> nat \<Rightarrow> nat \<Rightarrow> nat \<Rightarrow> u8 list list \<Rightarrow> u8 list list" where
  "gather_send num_gpus chunk_bytes step i bufs =
    (let send_idx = (i + 1 + num_gpus - step) mod num_gpus; recv_gpu = (i + 1) mod num_gpus
     in copy_region chunk_bytes send_idx i recv_gpu bufs)"

definition ring_pass :: "(nat \<Rightarrow> nat \<Rightarrow> u8 list list \<Rightarrow> u8 list list) \<Rightarrow> nat \<Rightarrow> u8 list list \<Rightarrow> u8 list list" where
  "ring_pass send num_gpus bufs = fold (\<lambda>step bufs. fold (send step) [0..<num_gpus] bufs) [0..<num_gpus - 1] bufs"

definition all_reduce_sum :: "float_ops \<Rightarrow> nat \<Rightarrow> u8 list list \<Rightarrow> u8 list list" where
  "all_reduce_sum F size_bytes bufs =
    (if bufs = [] \<or> size_bytes = 0 then bufs
     else let num_gpus = length bufs
          in if num_gpus = 1 then bufs
             else let chunk_bytes = (if size_bytes div num_gpus = 0 then size_bytes else size_bytes div num_gpus)
                  in ring_pass (gather_send num_gpus chunk_bytes) num_gpus
                       (ring_pass (scatter_send F num_gpus chunk_bytes) num_gpus bufs))"

text \<open>
  Two GPUs with the numbers 1, 2 and 10, 20 (the addition of \<open>int_floats\<close> is that of the integers): the copy overwrites what the receiver would add, and the addition
  always works on the first chunk. The result is 2, 20 on both, not 11, 22.
\<close>

definition int_floats :: float_ops where
  "int_floats = toy_floats\<lparr>fo_add := (+), fo_mul := (\<lambda>a b. if a = f32_one then b else a * b)\<rparr>"

lemma all_reduce_wrong:
  "all_reduce_sum int_floats 8 [[1, 0, 0, 0, 2, 0, 0, 0], [10, 0, 0, 0, 20, 0, 0, 0]] =
    [[2, 0, 0, 0, 20, 0, 0, 0], [2, 0, 0, 0, 20, 0, 0, 0]]"
proof -
  have u: "u32_of_le [n, 0, 0, 0] = ucast n" for n by (simp add: u32_of_le_def)
  have l: "le_of_u32 2 = [2, 0, 0, 0]" "le_of_u32 3 = [3, 0, 0, 0]" by code_simp+
  have f: "fo_add int_floats a b = a + b" "fo_mul int_floats f32_one a = a" for a b by (simp_all add: int_floats_def)
  have "scatter_send int_floats 2 4 0 0 [[1, 0, 0, 0, 2, 0, 0, 0], [10, 0, 0, 0, 20, 0, 0, 0]] =
      [[1, 0, 0, 0, 2, 0, 0, 0], [2, 0, 0, 0, 20, 0, 0, 0]]"
    by (simp add: scatter_send_def accumulate_def copy_region_def read_at_def write_at_def u f l)
  moreover have "scatter_send int_floats 2 4 0 1 [[1, 0, 0, 0, 2, 0, 0, 0], [2, 0, 0, 0, 20, 0, 0, 0]] =
      [[3, 0, 0, 0, 20, 0, 0, 0], [2, 0, 0, 0, 20, 0, 0, 0]]"
    by (simp add: scatter_send_def accumulate_def copy_region_def read_at_def write_at_def u f l)
  moreover have "gather_send 2 4 0 0 [[3, 0, 0, 0, 20, 0, 0, 0], [2, 0, 0, 0, 20, 0, 0, 0]] =
      [[3, 0, 0, 0, 20, 0, 0, 0], [2, 0, 0, 0, 20, 0, 0, 0]]"
    by (simp add: gather_send_def copy_region_def read_at_def write_at_def)
  moreover have "gather_send 2 4 0 1 [[3, 0, 0, 0, 20, 0, 0, 0], [2, 0, 0, 0, 20, 0, 0, 0]] =
      [[2, 0, 0, 0, 20, 0, 0, 0], [2, 0, 0, 0, 20, 0, 0, 0]]"
    by (simp add: gather_send_def copy_region_def read_at_def write_at_def)
  moreover have "Suc (Suc 0) = 2" "8 div 2 = (4 :: nat)" "[0..<2] = [0, 1 :: nat]" by (simp_all add: upt_rec)
  ultimately show ?thesis
    unfolding all_reduce_sum_def ring_pass_def by (simp add: numeral_2_eq_2 [symmetric])
qed

section \<open>The second pass\<close>

definition chunk_of :: "nat \<Rightarrow> nat \<Rightarrow> u8 list \<Rightarrow> u8 list" where
  "chunk_of chunk c buf = read_at (c * chunk) chunk buf"

text \<open>Chunk \<open>c\<close> starts at the GPU before GPU \<open>c\<close>.\<close>

definition chunk_owner :: "nat \<Rightarrow> nat \<Rightarrow> nat" where
  "chunk_owner n c = (c + n - 1) mod n"

definition ring_sized :: "nat \<Rightarrow> nat \<Rightarrow> u8 list list \<Rightarrow> bool" where
  "ring_sized n chunk bufs \<longleftrightarrow> length bufs = n \<and> (\<forall>b \<in> set bufs. n * chunk \<le> length b)"

text \<open>The pairs of a chunk and a GPU where it has arrived.\<close>

definition arrived :: "nat \<Rightarrow> (nat \<Rightarrow> u8 list) \<Rightarrow> (nat \<times> nat) set \<Rightarrow> u8 list list \<Rightarrow> bool" where
  "arrived chunk val S bufs \<longleftrightarrow> (\<forall>(c, j) \<in> S. chunk_of chunk c (bufs ! j) = val c)"

lemma copy_region_arrived:
  assumes size: "ring_sized n chunk bufs" and ok: "arrived chunk val S bufs"
    and c: "c < n" "src < n" "dst < n" and src: "(c, src) \<in> S" and S: "S \<subseteq> {..<n} \<times> {..<n}"
  shows "ring_sized n chunk (copy_region chunk c src dst bufs)"
    and "arrived chunk val (insert (c, dst) S) (copy_region chunk c src dst bufs)"
proof -
  have len: "n * chunk \<le> length (bufs ! j)" if "j < n" for j using size that by (simp add: ring_sized_def)
  have in_range: "d * chunk + chunk \<le> n * chunk" if "d < n" for d
    using mult_le_mono1 [of "Suc d" n chunk] that by simp
  have rd: "length (read_at (c * chunk) chunk (bufs ! src)) = chunk"
    using in_range [OF c(1)] len [OF c(2)] by (intro length_read_at) linarith
  define new where "new = write_at (c * chunk) (read_at (c * chunk) chunk (bufs ! src)) (bufs ! dst)"
  have fits: "c * chunk + length (read_at (c * chunk) chunk (bufs ! src)) \<le> length (bufs ! dst)"
    unfolding rd using in_range [OF c(1)] len [OF c(3)] by linarith
  have new_len: "length new = length (bufs ! dst)" unfolding new_def by (rule length_write_at [OF fits])
  have cp: "copy_region chunk c src dst bufs = bufs[dst := new]" by (simp add: copy_region_def new_def Let_def)
  have n: "length bufs = n" using size by (simp add: ring_sized_def)
  show "ring_sized n chunk (copy_region chunk c src dst bufs)"
    unfolding cp ring_sized_def using len new_len c(3) n
    by (simp add: all_set_conv_all_nth nth_list_update)
  have "chunk_of chunk c (bufs ! src) = val c" using ok src by (auto simp: arrived_def)
  then have same: "chunk_of chunk c new = val c"
    using read_write_same [OF fits] rd by (simp add: chunk_of_def new_def)
  have other: "chunk_of chunk d new = chunk_of chunk d (bufs ! dst)" if "d < n" "d \<noteq> c" for d
  proof -
    have "d * chunk + chunk \<le> c * chunk \<or> c * chunk + chunk \<le> d * chunk"
      using that(2) mult_le_mono1 [of "Suc d" c chunk] mult_le_mono1 [of "Suc c" d chunk] by (cases "d < c") auto
    moreover have "d * chunk + chunk \<le> length (bufs ! dst)" using in_range [OF that(1)] len [OF c(3)] by linarith
    ultimately show ?thesis unfolding chunk_of_def new_def by (intro read_write_other [OF fits]) (simp_all add: rd)
  qed
  show "arrived chunk val (insert (c, dst) S) (copy_region chunk c src dst bufs)"
    unfolding cp arrived_def
  proof (rule ballI, clarify)
    fix d j assume "(d, j) \<in> insert (c, dst) S"
    then have dj: "d < n" "(d, j) \<in> S \<or> d = c \<and> j = dst" using c S by auto
    show "chunk_of chunk d (bufs[dst := new] ! j) = val d"
    proof (cases "j = dst")
      case True
      then show ?thesis using same other [OF dj(1)] dj(2) ok c(3) n by (cases "d = c") (auto simp: arrived_def)
    next
      case False
      then show ?thesis using dj(2) ok by (auto simp: arrived_def)
    qed
  qed
qed

text \<open>Where the chunks are after \<open>s\<close> steps.\<close>

definition ring_front :: "nat \<Rightarrow> nat \<Rightarrow> (nat \<times> nat) set" where
  "ring_front n s = {(c, (chunk_owner n c + t) mod n) | c t. c < n \<and> t \<le> s}"

definition sent_chunk :: "nat \<Rightarrow> nat \<Rightarrow> nat \<Rightarrow> nat" where
  "sent_chunk n s i = (i + 1 + n - s) mod n"

lemma sender_has_chunk:
  assumes "s < n" "i < n"
  shows "(chunk_owner n (sent_chunk n s i) + s) mod n = i"
proof -
  have n: "0 < n" using assms by simp
  have "(chunk_owner n (sent_chunk n s i) + s) mod n = (sent_chunk n s i + n - 1 + s) mod n"
    unfolding chunk_owner_def by (rule mod_add_left_eq)
  also have "sent_chunk n s i + n - 1 + s = (i + 1 + n - s) mod n + (n - 1 + s)" using n by (simp add: sent_chunk_def)
  also have "\<dots> mod n = (i + 1 + n - s + (n - 1 + s)) mod n" by (rule mod_add_left_eq)
  also have "i + 1 + n - s + (n - 1 + s) = i + n + n" using assms by simp
  also have "\<dots> mod n = i" using assms by simp
  finally show ?thesis .
qed

lemma sender_of_chunk:
  assumes "s < n" "c < n"
  shows "sent_chunk n s ((chunk_owner n c + s) mod n) = c"
proof -
  have n: "0 < n" using assms by simp
  have "sent_chunk n s ((chunk_owner n c + s) mod n) = ((chunk_owner n c + s) mod n + (1 + n - s)) mod n"
    using assms by (simp add: sent_chunk_def)
  also have "\<dots> = (chunk_owner n c + s + (1 + n - s)) mod n" by (rule mod_add_left_eq)
  also have "chunk_owner n c + s + (1 + n - s) = (c + n - 1) mod n + (1 + n)" using assms by (simp add: chunk_owner_def)
  also have "\<dots> mod n = (c + n - 1 + (1 + n)) mod n" by (rule mod_add_left_eq)
  also have "c + n - 1 + (1 + n) = c + n + n" using n by simp
  also have "\<dots> mod n = c" using assms by simp
  finally show ?thesis .
qed

lemma ring_front_step:
  assumes "s < n"
  shows "ring_front n (Suc s) \<subseteq> ring_front n s \<union> (\<lambda>i. (sent_chunk n s i, (i + 1) mod n)) ` {..<n}"
proof clarify
  fix c j assume "(c, j) \<in> ring_front n (Suc s)" and no: "(c, j) \<notin> (\<lambda>i. (sent_chunk n s i, (i + 1) mod n)) ` {..<n}"
  then obtain t where t: "c < n" "t \<le> Suc s" "j = (chunk_owner n c + t) mod n" by (auto simp: ring_front_def)
  show "(c, j) \<in> ring_front n s"
  proof (cases "t = Suc s")
    case True
    define i where "i = (chunk_owner n c + s) mod n"
    have "i < n" using assms by (simp add: i_def)
    moreover have "sent_chunk n s i = c" unfolding i_def by (rule sender_of_chunk [OF assms t(1)])
    moreover have "(i + 1) mod n = j" unfolding i_def t(3) True mod_add_left_eq by simp
    ultimately show ?thesis using no by (metis (mono_tags, lifting) image_eqI lessThan_iff)
  next
    case False
    then show ?thesis using t by (auto simp: ring_front_def)
  qed
qed

lemma gather_step:
  assumes "s < n" "ring_sized n chunk bufs" "arrived chunk val (ring_front n s) bufs"
  shows "ring_sized n chunk (fold (gather_send n chunk s) [0..<n] bufs)"
    and "arrived chunk val (ring_front n (Suc s)) (fold (gather_send n chunk s) [0..<n] bufs)"
proof -
  let ?at = "\<lambda>i. (sent_chunk n s i, (i + 1) mod n)"
  have n: "0 < n" using assms(1) by simp
  have front: "ring_front n s \<subseteq> {..<n} \<times> {..<n}" using n by (auto simp: ring_front_def)
  have "k \<le> n \<Longrightarrow> ring_sized n chunk (fold (gather_send n chunk s) [0..<k] bufs) \<and>
      arrived chunk val (ring_front n s \<union> ?at ` {..<k}) (fold (gather_send n chunk s) [0..<k] bufs)" for k
  proof (induction k)
    case 0
    then show ?case using assms(2,3) by simp
  next
    case (Suc k)
    define b where "b = fold (gather_send n chunk s) [0..<k] bufs"
    have IH: "ring_sized n chunk b" "arrived chunk val (ring_front n s \<union> ?at ` {..<k}) b" using Suc by (simp_all add: b_def)
    have c: "sent_chunk n s k < n" using n by (simp add: sent_chunk_def)
    have "(sent_chunk n s k, k) \<in> ring_front n s"
      using sender_has_chunk [of s n k] assms(1) Suc.prems c by (force simp: ring_front_def)
    then have src: "(sent_chunk n s k, k) \<in> ring_front n s \<union> ?at ` {..<k}" by blast
    have sub: "ring_front n s \<union> ?at ` {..<k} \<subseteq> {..<n} \<times> {..<n}" using front n by (auto simp: sent_chunk_def)
    have g: "gather_send n chunk s k b = copy_region chunk (sent_chunk n s k) k ((k + 1) mod n) b"
      by (simp add: gather_send_def sent_chunk_def Let_def)
    have "(k + 1) mod n < n" "k < n" using n Suc.prems by simp_all
    note cr = copy_region_arrived [OF IH c this(2,1) src sub, folded g]
    have "insert (?at k) (ring_front n s \<union> ?at ` {..<k}) = ring_front n s \<union> ?at ` {..<Suc k}"
      by (auto simp: lessThan_Suc)
    then show ?case using cr by (simp add: b_def [symmetric])
  qed
  from this [of n] show "ring_sized n chunk (fold (gather_send n chunk s) [0..<n] bufs)"
      "arrived chunk val (ring_front n (Suc s)) (fold (gather_send n chunk s) [0..<n] bufs)"
    using ring_front_step [OF assms(1)] by (auto simp: arrived_def)
qed

lemma gather_steps:
  assumes "ring_sized n chunk bufs" "arrived chunk val (ring_front n 0) bufs" "s < n"
  shows "ring_sized n chunk (fold (\<lambda>step b. fold (gather_send n chunk step) [0..<n] b) [0..<s] bufs) \<and>
    arrived chunk val (ring_front n s) (fold (\<lambda>step b. fold (gather_send n chunk step) [0..<n] b) [0..<s] bufs)"
  using assms(3)
proof (induction s)
  case (Suc s)
  then show ?case using gather_step [of s n chunk "fold (\<lambda>step b. fold (gather_send n chunk step) [0..<n] b) [0..<s] bufs" val] by simp
qed (use assms in simp)

text \<open>
  C25. The second pass of \<open>all_reduce_sum\<close> is a correct ring all-gather: with any number of GPUs, afterwards every GPU holds, in
  every chunk, what the GPU before the chunk's number held before, so all of them agree on the chunks and no chunk is
  lost. The copies are taken to have their effect, which the API promises for buffers of one device.
\<close>

theorem all_gather_agrees:
  assumes "ring_sized n chunk bufs" "0 < n" "c < n" "j < n"
  shows "chunk_of chunk c (ring_pass (gather_send n chunk) n bufs ! j) = chunk_of chunk c (bufs ! chunk_owner n c)"
proof -
  define val where "val c = chunk_of chunk c (bufs ! chunk_owner n c)" for c
  have "chunk_owner n d < n" for d using assms(2) by (simp add: chunk_owner_def)
  then have "arrived chunk val (ring_front n 0) bufs" by (auto simp: arrived_def ring_front_def val_def)
  then have a: "arrived chunk val (ring_front n (n - 1)) (ring_pass (gather_send n chunk) n bufs)"
    using gather_steps [OF assms(1), of val "n - 1"] assms(2) by (simp add: ring_pass_def)
  define t where "t = (j + n - chunk_owner n c) mod n"
  have o: "chunk_owner n c < n" using assms(2) by (simp add: chunk_owner_def)
  have "(chunk_owner n c + t) mod n = (chunk_owner n c + (j + n - chunk_owner n c)) mod n" unfolding t_def by (rule mod_add_right_eq)
  also have "\<dots> = j" using o assms(4) by simp
  finally have j: "(chunk_owner n c + t) mod n = j" .
  have "t \<le> n - 1" using assms(2) by (simp add: t_def less_imp_Suc_add Suc_leI [THEN diff_le_mono, of _ n 1] less_Suc_eq_le [symmetric])
  then have "(c, j) \<in> ring_front n (n - 1)" using j assms(3) by (auto simp: ring_front_def)
  then show ?thesis using a by (auto simp: arrived_def val_def)
qed

text \<open>Three GPUs with chunks of one byte.\<close>

theorem all_gather_agrees_witness:
  "map (\<lambda>j. chunk_of 1 0 (ring_pass (gather_send 3 1) 3 [[1, 2, 3], [4, 5, 6], [7, 8, 9]] ! j)) [0, 1, 2] = [[7], [7], [7]]"
proof -
  have "chunk_of 1 0 (ring_pass (gather_send 3 1) 3 [[1, 2, 3], [4, 5, 6], [7, 8, 9]] ! j) = [7]" if "j < 3" for j
  proof -
    have "chunk_of 1 0 (ring_pass (gather_send 3 1) 3 [[1, 2, 3], [4, 5, 6], [7, 8, 9]] ! j) =
        chunk_of 1 0 ([[1, 2, 3], [4, 5, 6], [7, 8, 9 :: u8]] ! chunk_owner 3 0)"
      by (rule all_gather_agrees) (use that in \<open>simp_all add: ring_sized_def\<close>)
    then show ?thesis by (simp add: chunk_of_def read_at_def chunk_owner_def)
  qed
  then show ?thesis by simp
qed

section \<open>Ring attention\<close>

record RingAttentionConfig =
  rc_seq_len :: u32
  rc_head_dim :: u32
  rc_num_q_heads :: u32
  rc_num_kv_heads :: u32
  rc_scale :: f32
  rc_causal :: bool

definition local_seq :: "RingAttentionConfig \<Rightarrow> nat \<Rightarrow> u32" where
  "local_seq config num_devices = rc_seq_len config div of_nat num_devices"

definition shard_config :: "RingAttentionConfig \<Rightarrow> nat \<Rightarrow> AttentionConfig" where
  "shard_config config num_devices =
    default_config\<lparr>ac_mechanism := FlashAttention, ac_num_q_heads := rc_num_q_heads config,
      ac_num_kv_heads := rc_num_kv_heads config, ac_head_dim := rc_head_dim config,
      ac_seq_len := local_seq config num_devices, ac_scale := rc_scale config\<rparr>"

text \<open>One turn of the last loop: dispatch (engine \<open>e\<close>), signal the new fence \<open>g\<close>, wait for it.\<close>

definition ring_turn ::
  "float_ops \<Rightarrow> hlsl_ops \<Rightarrow> nat \<Rightarrow> nat \<Rightarrow> nat \<Rightarrow> AttentionConfig \<Rightarrow> nat list \<Rightarrow> nat \<Rightarrow> nat \<Rightarrow> nat \<Rightarrow> nat \<Rightarrow> ops_host \<Rightarrow> ops_host option" where
  "ring_turn F X unbound e g cfg order out q k v h =
    (case attention_run e (dispatch_attention F X unbound out q k v cfg None) order h of
       None \<Rightarrow> None
     | Some h' \<Rightarrow> map_option (\<lambda>t. h'\<lparr>oh_line := t\<rparr>) (host_sync g h'))"

text \<open>
  The devices have memories and queues of their own; the first \<open>num_devices\<close> of them take part, one after the
  other. \<open>orders d\<close> is the order of the threads on device \<open>d\<close>.
\<close>

definition ring_attention ::
  "float_ops \<Rightarrow> hlsl_ops \<Rightarrow> nat \<Rightarrow> nat \<Rightarrow> nat \<Rightarrow> (nat \<Rightarrow> nat list) \<Rightarrow>
    nat list \<Rightarrow> nat list \<Rightarrow> nat list \<Rightarrow> nat list \<Rightarrow> RingAttentionConfig \<Rightarrow> ops_host list \<Rightarrow> (bool \<times> ops_host list) option" where
  "ring_attention F X unbound e g orders q_bufs k_bufs v_bufs out_bufs config devices =
    (let num_devices = Min {length devices, length q_bufs, length k_bufs, length v_bufs, length out_bufs}
     in if num_devices < 2 then Some (False, devices)
        else if local_seq config num_devices = 0 then Some (False, devices)
        else map_option (\<lambda>hs. (True, hs @ drop num_devices devices))
          (those (map (\<lambda>d. ring_turn F X unbound e g (shard_config config num_devices) (orders d)
             (out_bufs ! d) (q_bufs ! d) (k_bufs ! d) (v_bufs ! d) (devices ! d)) [0..<num_devices])))"

lemma those_map_Some:
  "(\<And>x. x \<in> set xs \<Longrightarrow> f x \<noteq> None) \<Longrightarrow> those (map f xs) = Some (map (\<lambda>x. the (f x)) xs)"
  by (induction xs) (auto split: option.splits)

lemma ring_turn_rows:
  assumes "attention_fits cfg" "ac_mechanism cfg = FlashAttention" "q \<noteq> out" "k \<noteq> out" "v \<noteq> out" "unbound \<noteq> out"
    and s: "schedule (group_count (ac_seq_len cfg) * ac_num_q_heads cfg) order" and "g \<noteq> e"
  shows "\<exists>h'. ring_turn F X unbound e g cfg order out q k v (ops_start m) = Some h' \<and> tl_pending (oh_line h') = [] \<and>
    (\<forall>head < unat (ac_num_q_heads cfg). \<forall>i < unat (ac_seq_len cfg).
       row_read (tl_memory (oh_line h')) out (ac_head_dim cfg) (head * unat (ac_seq_len cfg) + i) =
       attention_row F X q k v unbound cfg m head i)"
proof -
  let ?c = "dispatch_attention F X unbound out q k v cfg None"
  obtain h' where h': "attention_run e ?c order (ops_start m) = Some h'" "tl_pending (oh_line h') = []"
    and r: "\<forall>head < unat (ac_num_q_heads cfg). \<forall>i < unat (ac_seq_len cfg).
      row_read (tl_memory (oh_line h')) out (ac_head_dim cfg) (head * unat (ac_seq_len cfg) + i) =
      attention_row F X q k v unbound cfg m head i"
    using attention_run_rows [OF assms(1,3-5) _ s ops_run.Start [of m], of unbound None e F X] assms(2,6)
    by (auto simp: Let_def computed_row_def)
  define t where "t = queue_signal g 1 (create_fence g 0 (oh_line h'))"
  have "tl_pending t = [] @ [Signal g 1]" "tl_completed t g < 1" "eventually_memory t = tl_memory (oh_line h')"
    using h'(2) by (simp_all add: t_def queue_signal_def create_fence_def eventually_memory_def)
  from last_signal_drains [OF this(1) _ this(2)] this(3) obtain t' where
      "host_sync g h' = Some t'" "tl_pending t' = []" "tl_memory t' = tl_memory (oh_line h')"
    by (auto simp: host_sync_def t_def)
  then show ?thesis using h'(1) r by (simp add: ring_turn_def)
qed

text \<open>With heads of more than 128 numbers a turn runs to the end as well, and stores nothing.\<close>

lemma ring_turn_large_heads:
  assumes "128 < ac_head_dim cfg" "ac_mechanism cfg = FlashAttention" "g \<noteq> e"
  shows "\<exists>h'. ring_turn F X unbound e g cfg order out q k v (ops_start m) = Some h' \<and> tl_pending (oh_line h') = [] \<and>
    tl_memory (oh_line h') = m"
proof -
  let ?c = "dispatch_attention F X unbound out q k v cfg None"
  obtain h1 where h1: "ops_submit e ?c order (ops_start m) = Some h1"
    using ops_run_submits [OF ops_run.Start, of m e ?c order] by auto
  obtain t where t: "fence_wait exec_call e (oh_vals h1 e) (oh_line h1) = Some t" "tl_pending t = []"
      "tl_memory t = exec_call (e, ?c, order) m"
    using ops_submit_then_wait [OF ops_run.Start _ h1] by auto
  define h' where "h' = h1\<lparr>oh_line := t\<rparr>"
  have run: "attention_run e ?c order (ops_start m) = Some h'" by (simp add: attention_run_def h1 t(1) h'_def)
  have "dispatch (kc_thread ?c) order m = m"
    by (induction order) (simp_all add: dispatch_def flash_stores_nothing assms)
  then have "tl_memory t = m" using t(3) by (simp add: exec_call_pair)
  define u where "u = queue_signal g 1 (create_fence g 0 (oh_line h'))"
  have "tl_pending u = [] @ [Signal g 1]" "tl_completed u g < 1" "eventually_memory u = m"
    using t(2) \<open>tl_memory t = m\<close>
    by (simp_all add: u_def h'_def queue_signal_def create_fence_def eventually_memory_def)
  from last_signal_drains [OF this(1) _ this(2)] this(3) obtain t' where
      "host_sync g h' = Some t'" "tl_pending t' = []" "tl_memory t' = m"
    by (auto simp: host_sync_def u_def)
  then show ?thesis using run by (simp add: ring_turn_def)
qed

text \<open>
  C26. With two or more devices and a position for each of them, \<open>ring_attention\<close> returns true, every device has run to
  the end, and the rows of device \<open>d\<close> are causal attention over the keys and values of \<open>d\<close> alone, at the length
  \<open>seq_len / num_devices\<close>: what the other devices hold is read by nothing. (The header says that
  partial results travel round the ring; none do.) The local configuration keeps to the bounds of
  the flash kernel: heads of at most 128 numbers -- with larger heads the call still returns true
  and the kernel stores nothing (\<open>ring_turn_large_heads\<close>) --, at most 65535 query heads and 4194240 local
  positions, indices of 32 bits; and the output of a device is none of its inputs.
\<close>

theorem ring_attention_shards:
  assumes "num = Min {length ms, length q_bufs, length k_bufs, length v_bufs, length out_bufs}" "2 \<le> num"
    and "cfg = shard_config config num" "local_seq config num \<noteq> 0" "attention_fits cfg" "g \<noteq> e"
    and "\<And>d. d < num \<Longrightarrow> out_bufs ! d \<notin> {q_bufs ! d, k_bufs ! d, v_bufs ! d, unbound}"
    and "\<And>d. d < num \<Longrightarrow> schedule (group_count (ac_seq_len cfg) * ac_num_q_heads cfg) (orders d)"
  shows "\<exists>hs. ring_attention F X unbound e g orders q_bufs k_bufs v_bufs out_bufs config (map ops_start ms) = Some (True, hs) \<and>
    (\<forall>d < num. tl_pending (oh_line (hs ! d)) = [] \<and>
      (\<forall>head < unat (rc_num_q_heads config). \<forall>i < unat (local_seq config num).
        row_read (tl_memory (oh_line (hs ! d))) (out_bufs ! d) (rc_head_dim config) (head * unat (local_seq config num) + i) =
        attention_row F X (q_bufs ! d) (k_bufs ! d) (v_bufs ! d) unbound cfg (ms ! d) head i))"
proof -
  let ?turn = "\<lambda>d. ring_turn F X unbound e g cfg (orders d) (out_bufs ! d) (q_bufs ! d) (k_bufs ! d) (v_bufs ! d) (map ops_start ms ! d)"
  let ?ok = "\<lambda>d h'. tl_pending (oh_line h') = [] \<and>
      (\<forall>head < unat (rc_num_q_heads config). \<forall>i < unat (local_seq config num).
        row_read (tl_memory (oh_line h')) (out_bufs ! d) (rc_head_dim config) (head * unat (local_seq config num) + i) =
        attention_row F X (q_bufs ! d) (k_bufs ! d) (v_bufs ! d) unbound cfg (ms ! d) head i)"
  have cfg: "ac_mechanism cfg = FlashAttention" "ac_seq_len cfg = local_seq config num"
    "ac_num_q_heads cfg = rc_num_q_heads config" "ac_head_dim cfg = rc_head_dim config"
    by (simp_all add: assms(3) shard_config_def default_config_def)
  have turn: "\<exists>h'. ?turn d = Some h' \<and> ?ok d h'" if d: "d < num" for d
  proof -
    have "d < length ms" using d assms(1) by simp
    then show ?thesis
      using ring_turn_rows [OF assms(5) cfg(1) _ _ _ _ assms(8) [OF d] assms(6),
          of "q_bufs ! d" "out_bufs ! d" "k_bufs ! d" "v_bufs ! d" unbound F X "ms ! d"] assms(7) [OF d]
      by (simp add: cfg eq_commute)
  qed
  define hs where "hs = map (\<lambda>d. the (?turn d)) [0..<num] @ drop num (map ops_start ms)"
  have "those (map ?turn [0..<num]) = Some (map (\<lambda>d. the (?turn d)) [0..<num])"
    by (rule those_map_Some) (use turn in force)
  then have "ring_attention F X unbound e g orders q_bufs k_bufs v_bufs out_bufs config (map ops_start ms) = Some (True, hs)"
    using assms(2,4) unfolding ring_attention_def Let_def length_map assms(1) [symmetric] assms(3) [symmetric]
    by (simp add: hs_def drop_map)
  moreover have "?ok d (hs ! d)" if d: "d < num" for d
  proof -
    have "hs ! d = the (?turn d)" using d by (simp add: hs_def nth_append)
    then show ?thesis using turn [OF d] by force
  qed
  ultimately show ?thesis by blast
qed

text \<open>Two devices, a length of five: two positions each, the fifth is dropped.\<close>

theorem ring_attention_shards_witness:
  "\<exists>hs. ring_attention toy_floats toy_hlsl 9 1 2 (\<lambda>_. rev [0..<128]) [6, 6] [7, 7] [8, 8] [5, 5]
      \<lparr> rc_seq_len = 5, rc_head_dim = 1, rc_num_q_heads = 2, rc_num_kv_heads = 1, rc_scale = 1, rc_causal = True \<rparr>
      (map ops_start [\<lambda>_. 1, \<lambda>_. 2]) = Some (True, hs) \<and> tl_pending (oh_line (hs ! 1)) = []"
proof -
  let ?config = "\<lparr> rc_seq_len = 5, rc_head_dim = 1, rc_num_q_heads = 2, rc_num_kv_heads = 1, rc_scale = 1, rc_causal = True \<rparr>"
  have l: "local_seq ?config 2 = 2" by (simp add: local_seq_def)
  have fits: "attention_fits (shard_config ?config 2)" by (simp add: attention_fits_def shard_config_def default_config_def l)
  have s: "schedule (group_count (ac_seq_len (shard_config ?config 2)) * ac_num_q_heads (shard_config ?config 2)) (rev [0..<128])"
    by (simp add: schedule_def group_count_def shard_config_def default_config_def l)
  have d: "(5 :: nat) \<notin> {6, 7, 8, 9}" by simp
  have "\<exists>hs. ring_attention toy_floats toy_hlsl 9 1 2 (\<lambda>_. rev [0..<128]) [6, 6] [7, 7] [8, 8] [5, 5] ?config
      (map ops_start [\<lambda>_. 1, \<lambda>_. 2]) = Some (True, hs) \<and>
    (\<forall>d < 2. tl_pending (oh_line (hs ! d)) = [] \<and>
      (\<forall>head < unat (rc_num_q_heads ?config). \<forall>i < unat (local_seq ?config 2).
        row_read (tl_memory (oh_line (hs ! d))) ([5, 5] ! d) (rc_head_dim ?config) (head * unat (local_seq ?config 2) + i) =
        attention_row toy_floats toy_hlsl ([6, 6] ! d) ([7, 7] ! d) ([8, 8] ! d) 9 (shard_config ?config 2) ([\<lambda>_. 1, \<lambda>_. 2] ! d) head i))"
    by (rule ring_attention_shards) (use fits s l d in \<open>auto simp: less_2_cases_iff\<close>)
  then show ?thesis by (meson one_less_numeral_iff semiring_norm(76))
qed

end
