(* ===== verification/NativeFacade.thy ===== *)
theory NativeFacade
  imports MemoryPool DeviceRuntime StreamEvents TraceSession TensorDesc TextFormat
begin

text \<open>
  The classes of \<open>include/dxait/dx_native.hpp\<close> over the C interfaces: a status that is not 0 becomes an exception, a
  handle is owned by one object and released by its destructor. The C++ objects of type \<open>Allocation\<close> are the map
  of \<open>facade\<close>; the list \<open>fa_frees\<close> is a history of the statuses of their \<open>dx_memory_free\<close> calls, which the code discards.
\<close>

section \<open>Statuses as exceptions\<close>

definition check :: "status \<Rightarrow> string \<Rightarrow> string + unit" where
  "check st operation = (if st \<noteq> 0 then Inl (operation @ '' failed: '' @ dec_int st) else Inr ())"

text \<open>A call with an out-parameter: the exception, or the object that the parameter then holds.\<close>

definition checked :: "status \<times> 'a option \<Rightarrow> string \<Rightarrow> string + 'a" where
  "checked r operation = (case check (fst r) operation of Inl e \<Rightarrow> Inl e | Inr _ \<Rightarrow> Inr (the (snd r)))"

section \<open>\<open>Runtime\<close>, \<open>TensorDesc\<close>, \<open>Stream\<close>, \<open>TraceSession\<close>\<close>

definition new_Runtime ::
  "platform \<Rightarrow> log_env \<Rightarrow> thrown \<Rightarrow> thrown \<Rightarrow> thrown \<Rightarrow> thrown \<Rightarrow> string + adapter_probe list \<Rightarrow> u32 \<Rightarrow> string + dx_runtime_t option" where
  "new_Runtime plat lenv thr thr_log thr_dm thr_dmlog dxgi preference =
    checked (dx_runtime_create plat lenv thr thr_log thr_dm thr_dmlog dxgi (Some preference) (Some None)) ''dx_runtime_create''"

text \<open>The moves of \<open>Runtime\<close>: the new target, the emptied source, and the handle given to \<open>dx_runtime_destroy\<close>.\<close>

definition Runtime_move_construct :: "dx_runtime_t option \<Rightarrow> dx_runtime_t option \<times> dx_runtime_t option" where
  "Runtime_move_construct other = (other, None)"

definition Runtime_move_assign ::
  "bool \<Rightarrow> dx_runtime_t option \<Rightarrow> dx_runtime_t option \<Rightarrow> dx_runtime_t option \<times> dx_runtime_t option \<times> dx_runtime_t option option" where
  "Runtime_move_assign same handle other = (if same then (handle, handle, None) else (other, None, Some handle))"

definition Runtime_info :: "dx_runtime_t option \<Rightarrow> string + dx_runtime_info_t" where
  "Runtime_info handle =
    checked (dx_runtime_get_info handle (Some \<lparr> ri_struct_size = sizeof_runtime_info, ri_api_version = 0,
      ri_selected_backend = 0, ri_logger_modes = 0, ri_device_count = 0, ri_backend_name = [] \<rparr>)) ''dx_runtime_get_info''"

definition zero_desc :: dx_tensor_desc_t where
  "zero_desc = \<lparr> td_struct_size = 0, td_api_version = 0, td_rank = 0, td_dtype = 0, td_layout = 0, td_flags = 0,
    td_shape = replicate 16 0, td_strides_bytes = replicate 16 0, td_byte_offset = 0 \<rparr>"

definition new_TensorDesc :: dx_tensor_desc_t where
  "new_TensorDesc = the (dx_tensor_desc_init (Some zero_desc))"

text \<open>The size of the vector is cast to 32 bits.\<close>

definition TensorDesc_contiguous :: "u64 list \<Rightarrow> u32 \<Rightarrow> string + dx_tensor_desc_t" where
  "TensorDesc_contiguous shape dtype =
    checked (dx_tensor_desc_init_contiguous (Some new_TensorDesc) (of_nat (length shape)) (Some shape) dtype)
      ''dx_tensor_desc_init_contiguous''"

definition TensorDesc_bytes :: "dx_tensor_desc_t \<Rightarrow> string + u64" where
  "TensorDesc_bytes desc = checked (dx_tensor_required_bytes (Some desc) (Some 0)) ''dx_tensor_required_bytes''"

definition new_Stream :: "platform \<Rightarrow> log_env \<Rightarrow> thrown \<Rightarrow> thrown \<Rightarrow> u32 \<Rightarrow> string + dx_stream_t option" where
  "new_Stream plat lenv thr thr_log kind = checked (dx_stream_create plat lenv thr thr_log kind (Some None)) ''dx_stream_create''"

definition Stream_record ::
  "platform \<Rightarrow> log_env \<Rightarrow> record_env \<Rightarrow> dx_stream_t option \<Rightarrow> (string + dx_event_t option) \<times> dx_stream_t option" where
  "Stream_record plat lenv env handle =
    (case dx_stream_record_event plat lenv env handle (Some None) of
       (st, stream, event) \<Rightarrow> (checked (st, event) ''dx_stream_record_event'', stream))"

definition Event_complete :: "platform \<Rightarrow> dx_event_t option \<Rightarrow> bool" where
  "Event_complete plat handle \<longleftrightarrow> dx_event_is_complete plat handle \<noteq> 0"

text \<open>\<open>None\<close>: the wait does not return. A wait that runs out of time is an exception.\<close>

definition Event_wait :: "platform \<Rightarrow> wait_env \<Rightarrow> dx_event_t option \<Rightarrow> u32 \<Rightarrow> (string + unit) option" where
  "Event_wait plat env handle timeout_ms = map_option (\<lambda>st. check st ''dx_event_wait'') (dx_event_wait plat env handle timeout_ms)"

definition new_TraceSession ::
  "platform \<Rightarrow> log_env \<Rightarrow> thrown \<Rightarrow> thrown \<Rightarrow> nat \<Rightarrow> string option \<Rightarrow> string + dx_trace_session_t option" where
  "new_TraceSession plat lenv thr thr_log now name =
    checked (dx_trace_session_create plat lenv thr thr_log now name (Some None)) ''dx_trace_session_create''"

definition TraceSession_begin ::
  "thrown \<Rightarrow> nat \<Rightarrow> u64 \<Rightarrow> dx_trace_session_t option \<Rightarrow> string option \<Rightarrow> string option \<Rightarrow> u64 \<Rightarrow>
    (string + dx_trace_span_t option) \<times> dx_trace_session_t option" where
  "TraceSession_begin thr now thread handle category name request_id =
    (case dx_trace_begin thr now thread handle category name request_id (Some None) of
       (st, session, span) \<Rightarrow> (checked (st, span) ''dx_trace_begin'', session))"

definition Span_end ::
  "log_env \<Rightarrow> nat \<Rightarrow> dx_trace_session_t \<Rightarrow> dx_trace_span_t option \<Rightarrow> (string + unit) \<times> dx_trace_session_t \<times> dx_trace_span_t option" where
  "Span_end lenv now session handle =
    (if handle = None then (Inr (), session, handle)
     else case dx_trace_end lenv now session handle of (st, s, sp) \<Rightarrow> (check st ''dx_trace_end'', s, sp))"

definition TraceSession_export :: "bool \<Rightarrow> bool \<Rightarrow> bool \<Rightarrow> dx_trace_session_t option \<Rightarrow> string option \<Rightarrow> (string + unit) \<times> string option" where
  "TraceSession_export opens good throws handle path =
    (case dx_trace_export opens good throws handle path of (st, written) \<Rightarrow> (check st ''dx_trace_export'', written))"

lemma second_end_throws: "tp_ended sp \<Longrightarrow> Span_end lenv now session (Some sp) = (Inl ''dx_trace_end failed: -1'', session, Some sp)"
proof -
  have "dec_int (- 1) = ''-1''" by (simp add: dec_int_def dec_digits.simps char_of_def bit_0)
  then show "tp_ended sp \<Longrightarrow> Span_end lenv now session (Some sp) = (Inl ''dx_trace_end failed: -1'', session, Some sp)"
    by (simp add: Span_end_def dx_trace_end_def check_def)
qed

section \<open>\<open>MemoryPool\<close> and its allocations\<close>

record Allocation =
  na_pool :: bool
  na_handle :: "nat option"

record facade =
  fa_pool :: dx_memory_pool_t
  fa_objects :: "nat \<rightharpoonup> Allocation"
  fa_frees :: "status list"

definition new_MemoryPool :: "platform \<Rightarrow> log_env \<Rightarrow> thrown \<Rightarrow> thrown \<Rightarrow> string + dx_memory_pool_t option" where
  "new_MemoryPool plat lenv thr thr_log = checked (dx_memory_pool_create plat lenv thr thr_log (Some None)) ''dx_memory_pool_create''"

definition empty_Allocation :: Allocation where
  "empty_Allocation = \<lparr> na_pool = False, na_handle = None \<rparr>"

definition MemoryPool_allocate ::
  "platform \<Rightarrow> alloc_env \<Rightarrow> u64 \<Rightarrow> u32 \<Rightarrow> nat \<Rightarrow> facade \<Rightarrow> (string + unit) \<times> facade" where
  "MemoryPool_allocate plat env bytes location i w =
    (let desc = \<lparr> md_struct_size = sizeof_memory_desc, md_api_version = 1, md_bytes = bytes, md_alignment = 0,
           md_location = location, md_flags = 0 \<rparr>
     in case dx_memory_alloc plat env (Some (fa_pool w)) (Some desc) (Some None) of
          (st, pool, allocation) \<Rightarrow>
            (case check st ''dx_memory_alloc'' of
               Inl e \<Rightarrow> (Inl e, w\<lparr>fa_pool := the pool\<rparr>)
             | Inr _ \<Rightarrow> (Inr (), w\<lparr>fa_pool := the pool,
                 fa_objects := (fa_objects w)(i \<mapsto> \<lparr> na_pool = True, na_handle = the allocation \<rparr>)\<rparr>)))"

definition reset :: "platform \<Rightarrow> nat \<Rightarrow> facade \<Rightarrow> facade" where
  "reset plat i w =
    (case fa_objects w i of
       None \<Rightarrow> w
     | Some a \<Rightarrow>
         let w1 = (if na_pool a \<and> na_handle a \<noteq> None
                   then case dx_memory_free plat (Some (fa_pool w)) (na_handle a) of
                          (st, pool, _) \<Rightarrow> w\<lparr>fa_pool := the pool, fa_frees := fa_frees w @ [st]\<rparr>
                   else w)
         in w1\<lparr>fa_objects := (fa_objects w1)(i \<mapsto> empty_Allocation)\<rparr>)"

definition move_construct :: "nat \<Rightarrow> nat \<Rightarrow> facade \<Rightarrow> facade" where
  "move_construct i other w = w\<lparr>fa_objects := (fa_objects w)(other \<mapsto> empty_Allocation, i := fa_objects w other)\<rparr>"

definition move_assign :: "platform \<Rightarrow> nat \<Rightarrow> nat \<Rightarrow> facade \<Rightarrow> facade" where
  "move_assign plat i other w = (if i = other then w else move_construct i other (reset plat i w))"

definition destroy :: "platform \<Rightarrow> nat \<Rightarrow> facade \<Rightarrow> facade" where
  "destroy plat i w = (let w1 = reset plat i w in w1\<lparr>fa_objects := (fa_objects w1)(i := None)\<rparr>)"

text \<open>What a program may do with the objects of one pool. A new block is at an address that no live one has.\<close>

inductive facade_step :: "platform \<Rightarrow> facade \<Rightarrow> facade \<Rightarrow> bool" for plat where
  Default: "i \<notin> dom (fa_objects w) \<Longrightarrow> facade_step plat w (w\<lparr>fa_objects := (fa_objects w)(i \<mapsto> empty_Allocation)\<rparr>)"
| Allocate: "i \<notin> dom (fa_objects w) \<Longrightarrow> ae_handle env \<notin> dom (mp_allocations (fa_pool w)) \<Longrightarrow>
    facade_step plat w (snd (MemoryPool_allocate plat env bytes location i w))"
| Move: "i \<notin> dom (fa_objects w) \<Longrightarrow> j \<in> dom (fa_objects w) \<Longrightarrow> facade_step plat w (move_construct i j w)"
| Assign: "i \<in> dom (fa_objects w) \<Longrightarrow> j \<in> dom (fa_objects w) \<Longrightarrow> facade_step plat w (move_assign plat i j w)"
| Reset: "i \<in> dom (fa_objects w) \<Longrightarrow> facade_step plat w (reset plat i w)"
| Destroy: "i \<in> dom (fa_objects w) \<Longrightarrow> facade_step plat w (destroy plat i w)"

inductive_cases facade_step_cases: "facade_step plat w w'"

text \<open>The handle an object holds.\<close>

definition holds :: "facade \<Rightarrow> nat \<Rightarrow> nat \<Rightarrow> bool" where
  "holds w i h \<longleftrightarrow> (\<exists>a. fa_objects w i = Some a \<and> na_pool a \<and> na_handle a = Some h)"

definition owned :: "dx_memory_pool_t \<Rightarrow> facade \<Rightarrow> bool" where
  "owned p0 w \<longleftrightarrow>
    (\<forall>i a. fa_objects w i = Some a \<longrightarrow> (na_pool a \<longleftrightarrow> na_handle a \<noteq> None)) \<and>
    (\<forall>i j h. holds w i h \<longrightarrow> holds w j h \<longrightarrow> i = j) \<and>
    (\<forall>h. mp_allocations (fa_pool w) h \<noteq> None \<longleftrightarrow> mp_allocations p0 h \<noteq> None \<or> (\<exists>i. holds w i h)) \<and>
    (\<forall>i h. holds w i h \<longrightarrow> mp_allocations p0 h = None) \<and>
    (\<forall>h. mp_allocations p0 h \<noteq> None \<longrightarrow> mp_allocations (fa_pool w) h = mp_allocations p0 h) \<and>
    set (fa_frees w) \<subseteq> {0}"

lemma ownedD:
  assumes "owned p0 w"
  shows "fa_objects w i = Some a \<Longrightarrow> na_pool a \<longleftrightarrow> na_handle a \<noteq> None"
    and "holds w i h \<Longrightarrow> holds w j h \<Longrightarrow> i = j"
    and "mp_allocations (fa_pool w) h \<noteq> None \<longleftrightarrow> mp_allocations p0 h \<noteq> None \<or> (\<exists>i. holds w i h)"
    and "holds w i h \<Longrightarrow> mp_allocations p0 h = None"
    and "mp_allocations p0 h \<noteq> None \<Longrightarrow> mp_allocations (fa_pool w) h = mp_allocations p0 h"
    and "set (fa_frees w) \<subseteq> {0}"
  using assms unfolding owned_def by blast+

text \<open>Releasing: the object is empty, the pool has lost what it held and nothing else.\<close>

lemma reset_effect:
  assumes "owned p0 w" "fa_objects w i = Some a"
  shows "fa_objects (reset plat i w) = (fa_objects w)(i \<mapsto> empty_Allocation)"
    and "mp_allocations (fa_pool (reset plat i w)) = (case na_handle a of None \<Rightarrow> mp_allocations (fa_pool w)
      | Some h \<Rightarrow> (mp_allocations (fa_pool w))(h := None))"
    and "set (fa_frees (reset plat i w)) \<subseteq> {0}"
proof -
  have p: "na_pool a \<longleftrightarrow> na_handle a \<noteq> None" by (rule ownedD(1) [OF assms])
  have f: "set (fa_frees w) \<subseteq> {0}" by (rule ownedD(6) [OF assms(1)])
  have "fa_objects (reset plat i w) = (fa_objects w)(i \<mapsto> empty_Allocation) \<and>
    mp_allocations (fa_pool (reset plat i w)) = (case na_handle a of None \<Rightarrow> mp_allocations (fa_pool w)
      | Some h \<Rightarrow> (mp_allocations (fa_pool w))(h := None)) \<and> set (fa_frees (reset plat i w)) \<subseteq> {0}"
  proof (cases "na_handle a")
    case None
    then show ?thesis using f by (simp add: reset_def assms(2) Let_def)
  next
    case (Some h)
    then have "holds w i h" using p assms(2) by (simp add: holds_def)
    then obtain b where "mp_allocations (fa_pool w) h = Some b" using ownedD(3) [OF assms(1), of h] by blast
    then show ?thesis using Some p f by (simp add: reset_def assms(2) Let_def dx_memory_free_def)
  qed
  then show "fa_objects (reset plat i w) = (fa_objects w)(i \<mapsto> empty_Allocation)"
    "mp_allocations (fa_pool (reset plat i w)) = (case na_handle a of None \<Rightarrow> mp_allocations (fa_pool w)
      | Some h \<Rightarrow> (mp_allocations (fa_pool w))(h := None))"
    "set (fa_frees (reset plat i w)) \<subseteq> {0}" by blast+
qed

lemma reset_owned:
  assumes "owned p0 w" "i \<in> dom (fa_objects w)"
  shows "owned p0 (reset plat i w)"
proof -
  obtain a where a: "fa_objects w i = Some a" using assms(2) by blast
  note e = reset_effect [OF assms(1) a, of plat]
  have h: "holds (reset plat i w) j h \<longleftrightarrow> j \<noteq> i \<and> holds w j h" for j h
    by (auto simp: holds_def e(1) empty_Allocation_def)
  have p: "na_pool a \<longleftrightarrow> na_handle a \<noteq> None" by (rule ownedD(1) [OF assms(1) a])
  have mine: "holds w i h \<longleftrightarrow> na_handle a = Some h" for h using p a by (auto simp: holds_def)
  have alloc: "mp_allocations (fa_pool (reset plat i w)) h = (if holds w i h then None else mp_allocations (fa_pool w) h)" for h
    unfolding e(2) mine by (cases "na_handle a") auto
  show ?thesis unfolding owned_def
  proof (intro conjI allI impI)
    fix j b assume "fa_objects (reset plat i w) j = Some b"
    then show "na_pool b \<longleftrightarrow> na_handle b \<noteq> None"
      using ownedD(1) [OF assms(1), of j b] by (auto simp: e(1) empty_Allocation_def split: if_splits)
  next
    fix h show "mp_allocations (fa_pool (reset plat i w)) h \<noteq> None \<longleftrightarrow> mp_allocations p0 h \<noteq> None \<or> (\<exists>j. holds (reset plat i w) j h)"
      using ownedD(2,3,4) [OF assms(1)] unfolding alloc h by (metis (full_types))
  qed (use ownedD(2,4,5) [OF assms(1)] alloc h e(3) in \<open>auto split: if_splits\<close>)
qed

lemma move_owned:
  assumes "owned p0 w" "i \<in> dom (fa_objects w) \<Longrightarrow> fa_objects w i = Some empty_Allocation" "i \<noteq> j" "j \<in> dom (fa_objects w)"
  shows "owned p0 (move_construct i j w)"
proof -
  obtain b where b: "fa_objects w j = Some b" using assms(4) by blast
  have none: "\<not> holds w i h" for h using assms(2) by (auto simp: holds_def empty_Allocation_def dom_def)
  have h: "holds (move_construct i j w) k h \<longleftrightarrow> (if k = i then holds w j h else k \<noteq> j \<and> holds w k h)" for k h
    using assms(3) by (auto simp: holds_def move_construct_def empty_Allocation_def)
  have ex: "(\<exists>k. holds (move_construct i j w) k h) \<longleftrightarrow> (\<exists>k. holds w k h)" for h
    unfolding h using none by metis
  show ?thesis unfolding owned_def ex
  proof (intro conjI allI impI)
    fix k c assume "fa_objects (move_construct i j w) k = Some c"
    then show "na_pool c \<longleftrightarrow> na_handle c \<noteq> None"
      using ownedD(1) [OF assms(1)] by (auto simp: move_construct_def empty_Allocation_def split: if_splits)
  next
    fix k l h assume "holds (move_construct i j w) k h" "holds (move_construct i j w) l h"
    then show "k = l" using ownedD(2) [OF assms(1)] unfolding h by (metis (full_types))
  next
    fix k h assume "holds (move_construct i j w) k h"
    then show "mp_allocations p0 h = None" using ownedD(4) [OF assms(1)] unfolding h by metis
  qed (use ownedD(3,5,6) [OF assms(1)] in \<open>auto simp: move_construct_def\<close>)
qed

lemma bare_object_owned:
  assumes "owned p0 w" "i \<notin> dom (fa_objects w) \<or> fa_objects w i = Some empty_Allocation" "o' = None \<or> o' = Some empty_Allocation"
  shows "owned p0 (w\<lparr>fa_objects := (fa_objects w)(i := o')\<rparr>)"
proof -
  have h: "holds (w\<lparr>fa_objects := (fa_objects w)(i := o')\<rparr>) k h \<longleftrightarrow> holds w k h" for k h
    using assms(2,3) by (auto simp: holds_def empty_Allocation_def dom_def)
  show ?thesis unfolding owned_def h
    using ownedD [OF assms(1)] assms(3) by (auto simp: empty_Allocation_def)
qed

lemma allocate_owned:
  assumes "owned p0 w" "i \<notin> dom (fa_objects w)" "ae_handle env \<notin> dom (mp_allocations (fa_pool w))"
  shows "owned p0 (snd (MemoryPool_allocate plat env bytes location i w))"
proof -
  let ?desc = "\<lparr> md_struct_size = sizeof_memory_desc, md_api_version = 1, md_bytes = bytes, md_alignment = 0,
           md_location = location, md_flags = 0 \<rparr>"
  obtain st q out where r: "dx_memory_alloc plat env (Some (fa_pool w)) (Some ?desc) (Some None) = (st, Some q, out)"
    unfolding dx_memory_alloc_def by (fastforce simp: Let_def split: prod.splits if_splits thrown.splits)
  show ?thesis
    using r
  proof (cases rule: alloc_cases)
    case rejected
    have "snd (MemoryPool_allocate plat env bytes location i w) = w\<lparr>fa_pool := q\<rparr>"
      using rejected(1) by (simp add: MemoryPool_allocate_def r check_def)
    moreover have "mp_allocations q = mp_allocations (fa_pool w)" using rejected(2) by auto
    ultimately show ?thesis using assms(1) by (simp add: owned_def holds_def)
  next
    case (created a)
    let ?h = "ae_handle env"
    have w': "snd (MemoryPool_allocate plat env bytes location i w) =
        w\<lparr>fa_pool := q, fa_objects := (fa_objects w)(i \<mapsto> \<lparr> na_pool = True, na_handle = Some ?h \<rparr>)\<rparr>"
      using created(1,3) by (simp add: MemoryPool_allocate_def r check_def)
    have q: "mp_allocations q = (mp_allocations (fa_pool w))(?h \<mapsto> a)" using created(2) by (simp add: emplace_allocation_def Let_def)
    have no: "mp_allocations p0 ?h = None" "\<not> holds w k ?h" for k
      using ownedD(3) [OF assms(1), of ?h] assms(3) by (auto simp: dom_def)
    have h: "holds (snd (MemoryPool_allocate plat env bytes location i w)) k h \<longleftrightarrow> (if k = i then h = ?h else holds w k h)" for k h
      unfolding w' by (auto simp: holds_def)
    have ex: "(\<exists>k. holds (snd (MemoryPool_allocate plat env bytes location i w)) k h) \<longleftrightarrow> h = ?h \<or> (\<exists>k. holds w k h)" for h
    proof -
      have "\<not> holds w i h" using assms(2) by (auto simp: holds_def)
      then show ?thesis unfolding h by metis
    qed
    show ?thesis unfolding owned_def ex
    proof (intro conjI allI impI)
      fix k b assume "fa_objects (snd (MemoryPool_allocate plat env bytes location i w)) k = Some b"
      then show "na_pool b \<longleftrightarrow> na_handle b \<noteq> None" using ownedD(1) [OF assms(1), of k b] by (auto simp: w' split: if_splits)
    next
      fix k l h' assume "holds (snd (MemoryPool_allocate plat env bytes location i w)) k h'"
        "holds (snd (MemoryPool_allocate plat env bytes location i w)) l h'"
      then show "k = l" using ownedD(2) [OF assms(1)] no(2) unfolding h by (metis (full_types))
    next
      fix k h' assume "holds (snd (MemoryPool_allocate plat env bytes location i w)) k h'"
      then show "mp_allocations p0 h' = None" using ownedD(4) [OF assms(1)] no(1) unfolding h by metis
    next
      fix h' show "mp_allocations (fa_pool (snd (MemoryPool_allocate plat env bytes location i w))) h' \<noteq> None \<longleftrightarrow>
          mp_allocations p0 h' \<noteq> None \<or> h' = ?h \<or> (\<exists>k. holds w k h')"
        using ownedD(3) [OF assms(1), of h'] by (auto simp: w' q)
    next
      fix h' assume "mp_allocations p0 h' \<noteq> None"
      then show "mp_allocations (fa_pool (snd (MemoryPool_allocate plat env bytes location i w))) h' = mp_allocations p0 h'"
        using ownedD(5) [OF assms(1), of h'] no(1) by (auto simp: w' q)
    qed (use ownedD(6) [OF assms(1)] in \<open>simp add: w'\<close>)
  qed
qed

lemma facade_step_owned: "facade_step plat w w' \<Longrightarrow> owned p0 w \<Longrightarrow> owned p0 w'"
proof (induction rule: facade_step.induct)
  case (Default i w)
  then show ?case by (intro bare_object_owned) simp_all
next
  case (Allocate i w env bytes location)
  then show ?case by (intro allocate_owned)
next
  case (Move i w j)
  then show ?case by (intro move_owned) auto
next
  case (Assign i w j)
  then show ?case
  proof (cases "i = j")
    case False
    from Assign obtain a where a: "fa_objects w i = Some a" by blast
    note e = reset_effect(1) [OF Assign(3) a, of plat]
    show ?thesis using False Assign(2) by (simp add: move_assign_def) (intro move_owned reset_owned Assign; simp add: e)
  qed (simp add: move_assign_def)
next
  case (Reset i w)
  then show ?case by (intro reset_owned)
next
  case (Destroy i w)
  then obtain a where a: "fa_objects w i = Some a" by blast
  show ?case unfolding destroy_def Let_def
    by (rule bare_object_owned) (use Destroy reset_owned [OF Destroy(2,1)] reset_effect(1) [OF Destroy(2) a, of plat] in simp_all)
qed

text \<open>
  C12. Whatever a program does with the allocations of one pool through the C++ classes -- allocate, with any failure
  underneath, move, assign, reset, destroy, in any order --, no handle is released twice: every \<open>dx_memory_free\<close> returns 0.
  No two objects hold the same handle, and each handle held is live. What the pool held before is untouched, and when all
  objects are gone the pool holds that and nothing else.
\<close>

theorem allocations_released_once:
  assumes "(facade_step plat)\<^sup>*\<^sup>* \<lparr> fa_pool = p0, fa_objects = Map.empty, fa_frees = [] \<rparr> w"
  shows "list_all (\<lambda>st. st = 0) (fa_frees w) \<and>
    (\<forall>i j h. holds w i h \<and> holds w j h \<longrightarrow> i = j) \<and> (\<forall>i h. holds w i h \<longrightarrow> h \<in> dom (mp_allocations (fa_pool w))) \<and>
    (\<forall>h \<in> dom (mp_allocations p0). mp_allocations (fa_pool w) h = mp_allocations p0 h) \<and>
    (fa_objects w = Map.empty \<longrightarrow> mp_allocations (fa_pool w) = mp_allocations p0)"
proof -
  have "owned p0 \<lparr> fa_pool = p0, fa_objects = Map.empty, fa_frees = [] \<rparr>" by (simp add: owned_def holds_def)
  then have o: "owned p0 w"
    by (rule rtranclp_induct [OF assms]) (rule facade_step_owned)
  have "mp_allocations (fa_pool w) h = mp_allocations p0 h" if "fa_objects w = Map.empty" for h
    using ownedD(3,5) [OF o, of h] that by (cases "mp_allocations p0 h") (auto simp: holds_def)
  then show ?thesis using ownedD(2,3,5,6) [OF o] by (auto simp: list_all_iff intro!: ext)
qed

theorem allocations_released_once_witness:
  "\<exists>w :: facade. fa_frees w = [0] \<and> fa_objects w = Map.empty \<and> mp_allocations (fa_pool w) = mp_allocations (created_pool Portable)"
proof -
  let ?w0 = "\<lparr> fa_pool = created_pool Portable, fa_objects = Map.empty, fa_frees = [] \<rparr>"
  define w1 where "w1 = snd (MemoryPool_allocate Portable (example_alloc_env 7) 4 0 1 ?w0)"
  define w2 where "w2 = destroy Portable 1 w1"
  have a: "fa_objects w1 = [1 \<mapsto> \<lparr> na_pool = True, na_handle = Some 7 \<rparr>] \<and> fa_frees w1 = [] \<and> mp_allocations (fa_pool w1) 7 \<noteq> None"
    by (simp add: w1_def MemoryPool_allocate_def check_def dx_memory_alloc_def example_alloc_env_def alloc_alignment_def
      is_power_of_two_def emplace_allocation_def Let_def)
  have "facade_step Portable ?w0 w1" unfolding w1_def
    by (rule facade_step.Allocate) (simp_all add: created_pool_def create_pool_internal_def dx_component_logger_create_def)
  moreover have "facade_step Portable w1 w2" unfolding w2_def by (rule facade_step.Destroy) (use a in simp)
  ultimately have r: "(facade_step Portable)\<^sup>*\<^sup>* ?w0 w2" by (meson converse_rtranclp_into_rtranclp r_into_rtranclp)
  have w2: "fa_frees w2 = [0] \<and> fa_objects w2 = Map.empty"
    using a by (auto simp: w2_def destroy_def reset_def Let_def dx_memory_free_def)
  have "mp_allocations (fa_pool w2) = mp_allocations (created_pool Portable)"
    using allocations_released_once [OF r] w2 by simp
  then show ?thesis using w2 by (intro exI [of _ w2]) simp
qed

end
