(* ===== verification/Spec2Isabelle.thy ===== *)
theory Spec2Isabelle
  imports TensorDesc TextFormat Diagnostics MemoryPool OperatorGraph StreamEvents TraceSession
    DeviceRuntime IoModel ByteCodec RefOps CApi DirectStorage TensorStream GgufModel GgufIngest KahnGraph
    ClusterTransport RetrieveDB StreamProtocol ServerThreads ClientHandles
    StorageSetup TraceMarkers IngestTool JsonText
    Quantize GpuDevice Placement ContextServer ComputeKernels Butterflies
    AttentionMath Attention TiledGemm JitKernels Bindings QuantGpu Collectives NativeFacade
begin

text \<open>
  DXAiT is a C++ library for tensor work on Direct3D 12 devices. Three layers of it carry logic of
  their own, and all are modelled here: the component interfaces under \<open>src/core\<close> with the flat C
  interface over them, the C++ services that load, stream, index and schedule model data, and the HLSL
  kernels with the classes that dispatch them. Direct3D, the shader compiler and Winsock are the environment.

  \<^bold>\<open>How the code is translated.\<close> A C struct or a C++ class is a record with the source's fields, an
  opaque handle is a value or an index into the state that owns it, a null pointer is \<open>None\<close>, an out
  parameter is part of the result. A function of the source is one definition of the same name
  (with the component's name in front where two classes share it), its early returns and guards in
  the source's order. Integers keep their width (\<open>u32\<close>, \<open>u64\<close> are words; \<open>+\<close> and \<open>*\<close> wrap), sizes of host containers
  are \<open>nat\<close>. Status codes are integers, exceptions are values of a sum or of a result type. What
  the operating system, the driver, the allocator or the network answers is an argument: an
  environment record, an oracle list of outcomes, or a truth value.

  \<^bold>\<open>Shared theories.\<close> \<open>DxPrelude\<close> has the word types, the transfer of word facts to natural
  numbers and the reads and writes of byte ranges; \<open>TextFormat\<close> the printed numbers and the JSON
  string reader that serves as specification; \<open>JsonText\<close> a reader of whole JSON texts, with the number grammar of RFC 8259;
  \<open>ByteCodec\<close> little-endian fields.

  \<^bold>\<open>The component interfaces (src/core).\<close>
  \<^item> \<open>TensorDesc\<close>: \<open>dx_tensor_api.cpp\<close>. Descriptors built by \<open>dx_tensor_desc_init_contiguous\<close> validate and
    are contiguous, the size computed is exact and covers every element, and overflow is refused.
  \<^item> \<open>Diagnostics\<close>: \<open>dx_log.cpp\<close> and the logger part of \<open>dx_core_api.cpp\<close>. Messages survive escaping; writes append
    whole lines; the locale \<open>log_sink\<close> is the interface the other components log through.
  \<^item> \<open>MemoryPool\<close>: \<open>dx_memory_api.cpp\<close>. Pools with their allocations and statistics, host and device transfers;
    an invariant of every reachable pool, the locale \<open>byte_store\<close> for uploads and downloads.
  \<^item> \<open>OperatorGraph\<close>: \<open>dx_graph_api.cpp\<close>. Registry, graphs, and compilation by depth-first search; the search has fuel
    (one more than the number of nodes), proved enough. The outer loop counts in 32 bits and is a partial function: it
    returns below 2^32 nodes and never gives a plan from there on.
  \<^item> \<open>StreamEvents\<close>, \<open>TraceSession\<close>, \<open>DeviceRuntime\<close>, \<open>IoModel\<close>, \<open>RefOps\<close>: \<open>dx_stream_api.cpp\<close>, \<open>dx_trace_api.cpp\<close>,
    \<open>dx_device_api.cpp\<close> with \<open>dx_runtime_api.cpp\<close> and \<open>dx_shader_api.cpp\<close>, \<open>dx_io_api.cpp\<close> with \<open>dx_model_api.cpp\<close>,
    \<open>dx_ops_api.cpp\<close>. Reading in chunks and reading a trace file back take fuel from the length of the file.
  \<^item> \<open>CApi\<close>: \<open>dx_c_api.cpp\<close> composes these components: the mapping of their status codes, the last error, the
    linear-algebra entry points, uploads and downloads.

  \<^bold>\<open>The services.\<close>
  \<^item> \<open>DirectStorage\<close>: \<open>dxio.cpp\<close>, requests, fence signals and waits of the storage queue. \<open>StorageSetup\<close> has the
    configuration of the process, the constructor, and how far status slots identify requests.
  \<^item> \<open>TraceMarkers\<close>: \<open>dxtrace.cpp\<close>. Scopes with names leave the events of a command list nested.
  \<^item> \<open>TensorStream\<close>: the tensor index and the slot cache of \<open>dxstream.cpp\<close>, over \<open>DirectStorage\<close>.
  \<^item> \<open>GgufModel\<close>: \<open>dxmodel.cpp\<close>. A writer of GGUF files is the specification of the loader, with the data
    padded to the alignment of the format; the types it may claim are the two that the loader numbers as the format does. The loader's recursion over nested arrays takes
    the stack depth \<open>d\<close> as its bound; no depth suffices for the input at the end of that theory.
  \<^item> \<open>GgufIngest\<close>: the offline ingestor of \<open>dxstream.cpp\<close>, on the same files where they need no padding, which it takes for data.
  \<^item> \<open>IngestTool\<close>: \<open>tools/dxai_ingest/main.cpp\<close>, which composes the ingestor and the index: the files it writes, loaded by another
    process, give each tensor's bytes of the model.
  \<^item> \<open>KahnGraph\<close>: \<open>dxgraph.cpp\<close>. The scheduling loop is a partial function that is proved to return.
  \<^item> \<open>ClusterTransport\<close>: \<open>dxnetwork.cpp\<close>, tokens, cipher, manifests, the node table, and what \<open>send_tensor\<close> and
    \<open>broadcast_tensor\<close> do with the buffer: it is as before, the code sends nothing.
  \<^item> \<open>StreamProtocol\<close>: \<open>dxiocp.cpp\<close>, both ends of the chunk protocol under any segmentation by the network, a payload stream
    that keeps its state from one request of a connection to the next, the order of staging
    writes, copies and fence waits. The lists of network outcomes bound the calls; the theorems say how long they have to be.
  \<^item> \<open>ServerThreads\<close>, \<open>ClientHandles\<close>: also \<open>dxiocp.cpp\<close>. The threads of the server take turns in any order, the owner of the server, its
    accept threads and one thread per connection, with the sockets they own; each step of a server that is stopping lowers a measure,
    and some step is always possible. The client's handles, its copy commands, its decompressor.
  \<^item> \<open>RetrieveDB\<close>: \<open>dxdb.cpp\<close>, a vector database; its contract is the locale \<open>document_store\<close>, interpreted on the code's model.

  \<^item> \<open>Placement\<close>: \<open>dxchunk.cpp\<close>, \<open>dxshard.cpp\<close>, \<open>dxkv.cpp\<close>: shard plans, chunks streamed through staging buffers, page
    swaps, and the page allocator, which is a first-fit allocator of slots.
  \<^item> \<open>ContextServer\<close>: \<open>dxcontext.cpp\<close> and \<open>dxmcp.cpp\<close>. The engine's counters agree with the tokens appended and the targets set;
    a reader of JSON gets back, from the answer to a search, the best documents of the database in order.
  \<^item> \<open>Quantize\<close>: the quantizers of \<open>dxquant.cpp\<close> with their half-precision scales, element by element.
  \<^item> \<open>NativeFacade\<close>: the classes of \<open>dx_native.hpp\<close> over the C interfaces. Whatever is done with the allocations of a pool, each is
    released once.

  \<^bold>\<open>The device.\<close> \<open>GpuDevice\<close> has \<open>dxadapter.cpp\<close>, \<open>dxruntime.cpp\<close>, \<open>dxmem.cpp\<close>, \<open>dxqueue.cpp\<close>, \<open>dxbarrier.cpp\<close> and \<open>dxsched.cpp\<close>: adapters and their
  classification, buffers, and queues as timelines. A timeline is the list of the commands not yet executed with the
  fences completed so far; the device executes the oldest command at any moment. A wait lets the device go on until the fence is
  reached, and is a partial function: that it returns is proved. \<open>StreamProtocol\<close> and \<open>Placement\<close> keep staging buffers apart with it.

  \<^bold>\<open>The kernels.\<close> Device memory is a function of cells; a kernel is a function of the thread's number and the memory, and
  a dispatch runs the threads one after the other in any order. That this is enough is proved in each case: by the
  locale \<open>disjoint_threads\<close> no thread writes what another reads or writes, so the order, and with it the interleaving, does not
  matter; each kernel's write and read sets are an interpretation of it. Float operations are arguments, so the theorems
  hold for any rounding. Dispatches have at most 65535 groups (4194240 elements, 1048560 rows or columns of a
  matrix) and 32-bit indices; the theorems say where a bound is needed.
  \<^item> \<open>ComputeKernels\<close>: \<open>dxmath.cpp\<close>, \<open>dxla.cpp\<close> and the additions of \<open>dxblas.cpp\<close>, with the protocol of allocators and fences of the classes.
  \<^item> \<open>TiledGemm\<close>: the matrix products of \<open>dxblas.cpp\<close> and \<open>dxla.cpp\<close>. A group runs in phases between barriers, the threads of a
    phase in any order; for whole tiles the product is that of \<open>RefOps\<close>.
  \<^item> \<open>Butterflies\<close>: \<open>dxfft.cpp\<close> and \<open>dxcache.cpp\<close>. The stages are the radix-2 recursion and the Hadamard transform; their loops
    are partial functions, proved to return below 2^31 elements.
  \<^item> \<open>AttentionMath\<close>: the algorithms of the attention kernels over any arithmetic; over the reals the tiled one is
    softmax attention and the recurrent one is kernel attention.
  \<^item> \<open>Attention\<close>: \<open>dxattention.cpp\<close>. Each mechanism leaves in the output what its algorithm computes from the input, but for paged
    attention, whose kernel is given the constants of another layout; what it computes then is stated beside what it is for.
  \<^item> \<open>JitKernels\<close>: \<open>dxjit.cpp\<close>, \<open>dxtriton.cpp\<close>, \<open>dxspeculative.cpp\<close>, \<open>dxrand.cpp\<close>. The cache gives each key a pipeline of the request it stands for,
    as long as a key stands for one; the sites at which the classes use it are listed from their sources, and all classes but
    \<open>TritonJIT\<close> keep to that.
  \<^item> \<open>QuantGpu\<close>: the dequantizer on the GPU against that of the host. Loads are specified at multiples of four only, as documented.
  \<^item> \<open>Collectives\<close>: \<open>dxcollective.cpp\<close>. The second pass of the ring all-reduce distributes the chunks, where copies between the buffers work (the API
    promises it for one device); ring attention is local attention.
  \<^item> \<open>Bindings\<close>: constructors, root signatures, and the registers bound by each dispatch.

  \<^bold>\<open>Not modelled.\<close> Residency calls, plain getters and setters, console output, time
  measurements, and two accept threads inside one \<open>push_back\<close>. Rounding of floating point:
  float operations are arguments. Races between threads that do touch the same cells (in-place use of kernels that do not allow
  it) are shown to depend on the order, not explored further. The benchmark and the inspector print
  measurements and capabilities; the tests call these parts.
\<close>

end
